(* ===== verification/Prelude.thy ===== *)
theory Prelude
  imports Main "HOL-Library.Word"
begin

text \<open>
  The shared base of the development: the machine integers of the Rust sources, the
  little-endian byte codecs of \<^verbatim>\<open>to_le_bytes\<close> / \<^verbatim>\<open>from_le_bytes\<close>, slices and
  \<^verbatim>\<open>copy_from_slice\<close> on byte buffers, the FNV-1a hash every checksum of the code base
  starts from, the UTF-8 test of \<^verbatim>\<open>String::from_utf8\<close>, and the list and word lemmas
  that more than one component uses.
\<close>

unbundle bit_operations_syntax

section \<open>Machine integers\<close>

type_synonym u8 = "8 word"
type_synonym u16 = "16 word"
type_synonym u32 = "32 word"
type_synonym u64 = "64 word"
type_synonym bytes = "u8 list"

named_theorems buf_simps "reading and writing slices of byte buffers"
named_theorems codec_simps "lengths and inverses of the byte codecs"

section \<open>Little-endian integers\<close>

fun nat_to_le :: "nat \<Rightarrow> nat \<Rightarrow> bytes" where
  "nat_to_le 0 v = []"
| "nat_to_le (Suc n) v = word_of_nat v # nat_to_le n (v div 256)"

fun le_to_nat :: "bytes \<Rightarrow> nat" where
  "le_to_nat [] = 0"
| "le_to_nat (b # bs) = unat b + 256 * le_to_nat bs"

definition to_le_bytes :: "'a::len word \<Rightarrow> bytes" where
  "to_le_bytes w = nat_to_le (LENGTH('a) div 8) (unat w)"

definition from_le_bytes :: "bytes \<Rightarrow> 'a::len word" where
  "from_le_bytes bs = word_of_nat (le_to_nat bs)"

lemma unat_bound: "unat (w :: 'a::len word) < 2 ^ LENGTH('a)"
  by (rule unsigned_less)

lemma length_nat_to_le [simp]: "length (nat_to_le n v) = n"
  by (induction n arbitrary: v) auto

lemma le_to_nat_nat_to_le: "le_to_nat (nat_to_le n v) = v mod 256 ^ n"
proof (induction n arbitrary: v)
  case (Suc n)
  have "le_to_nat (nat_to_le (Suc n) v) = v mod 256 + 256 * (v div 256 mod 256 ^ n)"
    by (simp add: Suc.IH unat_of_nat)
  also have "\<dots> = v mod (256 * 256 ^ n)"
    by (simp add: mod_mult2_eq)
  finally show ?case by simp
qed simp

lemma le_to_nat_bound: "le_to_nat bs < 256 ^ length bs"
proof (induction bs)
  case (Cons b bs)
  have "unat b \<le> 255"
    using unat_bound[of b] by simp
  moreover have "256 * le_to_nat bs + 256 \<le> 256 * 256 ^ length bs"
    using Cons.IH by (metis Suc_leI add.commute mult_Suc_right mult_le_mono2)
  ultimately show ?case by simp
qed simp

lemma nat_to_le_le_to_nat: "nat_to_le (length bs) (le_to_nat bs) = bs"
proof (induction bs)
  case (Cons b bs)
  have "unat b < 256"
    using unat_bound[of b] by simp
  then have "(unat b + 256 * le_to_nat bs) div 256 = le_to_nat bs"
    by simp
  moreover have "word_of_nat (unat b + 256 * le_to_nat bs) = b"
  proof -
    have "word_of_nat (unat b + 256 * le_to_nat bs) = (word_of_nat (unat b) :: u8)"
      by (simp only: word_of_nat_eq_iff take_bit_eq_mod) simp
    then show ?thesis by simp
  qed
  ultimately show ?case
    using Cons.IH by simp
qed simp

lemma length_to_le_bytes: "length (to_le_bytes (w :: 'a::len word)) = LENGTH('a) div 8"
  by (simp add: to_le_bytes_def)

lemma length_le_u16 [simp, codec_simps]: "length (to_le_bytes (w :: u16)) = 2"
  and length_le_u32 [simp, codec_simps]: "length (to_le_bytes (x :: u32)) = 4"
  and length_le_u64 [simp, codec_simps]: "length (to_le_bytes (y :: u64)) = 8"
  by (simp_all add: length_to_le_bytes)

lemma from_le_to_le:
  assumes "8 dvd LENGTH('a)"
  shows "from_le_bytes (to_le_bytes w) = (w :: 'a::len word)"
proof -
  from assms obtain k where k: "LENGTH('a) = 8 * k" ..
  then have "(256::nat) ^ (LENGTH('a) div 8) = 2 ^ LENGTH('a)"
    by (simp add: power_mult)
  then have "unat w mod 256 ^ (LENGTH('a) div 8) = unat w"
    using unat_bound[of w] by simp
  then show ?thesis
    by (simp add: from_le_bytes_def to_le_bytes_def le_to_nat_nat_to_le)
qed

lemma from_le_u16 [simp, codec_simps]: "from_le_bytes (to_le_bytes w) = (w :: u16)"
  and from_le_u32 [simp, codec_simps]: "from_le_bytes (to_le_bytes x) = (x :: u32)"
  and from_le_u64 [simp, codec_simps]: "from_le_bytes (to_le_bytes y) = (y :: u64)"
  by (simp_all add: from_le_to_le)

lemma to_le_from_le:
  assumes "8 dvd LENGTH('a)" and "length bs = LENGTH('a) div 8"
  shows "to_le_bytes (from_le_bytes bs :: 'a::len word) = bs"
proof -
  from assms(1) obtain k where k: "LENGTH('a) = 8 * k" ..
  then have p: "(256::nat) ^ length bs = 2 ^ LENGTH('a)"
    by (simp add: assms(2) power_mult)
  have "unat (from_le_bytes bs :: 'a word) = le_to_nat bs"
    using le_to_nat_bound[of bs] by (simp add: from_le_bytes_def unat_of_nat p)
  then show ?thesis
    using nat_to_le_le_to_nat[of bs] by (simp add: to_le_bytes_def assms(2))
qed

section \<open>Slices and in-place writes of byte buffers\<close>

text \<open>
  \<^verbatim>\<open>&buf[a..b]\<close> and \<^verbatim>\<open>buf[off..off + n].copy_from_slice(bs)\<close>. Both panic out of range
  in Rust; the model uses them where the source has checked the range (or the invariant
  of the caller gives it), which the lemmas ask for.
\<close>

definition slice :: "nat \<Rightarrow> nat \<Rightarrow> 'a list \<Rightarrow> 'a list" where
  "slice a b xs = take (b - a) (drop a xs)"

definition put_at :: "nat \<Rightarrow> 'a list \<Rightarrow> 'a list \<Rightarrow> 'a list" where
  "put_at off bs xs = take off xs @ bs @ drop (off + length bs) xs"

lemma slice_drop_take: "slice a b xs = drop a (take b xs)"
  by (simp add: slice_def drop_take)

lemma length_slice [buf_simps]: "b \<le> length xs \<Longrightarrow> length (slice a b xs) = b - a"
  by (simp add: slice_def)

lemma length_put_at [buf_simps]:
  "off + length bs \<le> length xs \<Longrightarrow> length (put_at off bs xs) = length xs"
  by (simp add: put_at_def)

lemma slice_put_same [buf_simps]:
  "off + length bs \<le> length xs \<Longrightarrow> slice off (off + length bs) (put_at off bs xs) = bs"
  by (simp add: slice_def put_at_def)

lemma slice_put_same':
  "off + length bs \<le> length xs \<Longrightarrow> b = off + length bs \<Longrightarrow> slice off b (put_at off bs xs) = bs"
  by (simp add: slice_put_same)

lemma slice_put_before [buf_simps]:
  "b \<le> off \<Longrightarrow> off + length bs \<le> length xs \<Longrightarrow> slice a b (put_at off bs xs) = slice a b xs"
  by (simp add: slice_drop_take put_at_def min_def)

lemma slice_put_after [buf_simps]:
  assumes "off + length bs \<le> a" and "off + length bs \<le> length xs"
  shows "slice a b (put_at off bs xs) = slice a b xs"
proof -
  have "drop a (put_at off bs xs) = drop (a - (off + length bs)) (drop (off + length bs) xs)"
    using assms by (simp add: put_at_def)
  also have "\<dots> = drop a xs"
    using assms by simp
  finally show ?thesis
    by (simp add: slice_def)
qed

lemma slice_split: "a \<le> b \<Longrightarrow> b \<le> c \<Longrightarrow> c \<le> length xs \<Longrightarrow> slice a c xs = slice a b xs @ slice b c xs"
proof -
  assume h: "a \<le> b" "b \<le> c" "c \<le> length xs"
  then have "c - a = (b - a) + (c - b)" by simp
  then have "take (c - a) (drop a xs)
      = take (b - a) (drop a xs) @ take (c - b) (drop (b - a) (drop a xs))"
    by (simp only: take_add)
  then show ?thesis
    using h by (simp add: slice_def)
qed

lemma slice_slice: "d \<le> b - a \<Longrightarrow> slice c d (slice a b xs) = slice (a + c) (a + d) xs"
  by (simp add: slice_def drop_take min_def add.commute)

lemma slice_append_left: "b \<le> length xs \<Longrightarrow> slice a b (xs @ ys) = slice a b xs"
  by (simp add: slice_def)

lemma slice_full [simp]: "slice 0 (length xs) xs = xs"
  by (simp add: slice_def)

lemma slice_empty [simp]: "b \<le> a \<Longrightarrow> slice a b xs = []"
  by (simp add: slice_def)

lemma slice_append_here [buf_simps]: "b \<le> length xs \<Longrightarrow> slice a b (xs @ ys) = slice a b xs"
  by (rule slice_append_left)

lemma slice_append_skip [buf_simps]:
  "length xs \<le> a \<Longrightarrow> slice a b (xs @ ys) = slice (a - length xs) (b - length xs) ys"
  by (simp add: slice_def)

lemma slice_Cons_skip [buf_simps]: "0 < a \<Longrightarrow> slice a b (x # xs) = slice (a - 1) (b - 1) xs"
  by (cases a) (simp_all add: slice_def)

lemma slice_all [buf_simps]: "length xs \<le> b \<Longrightarrow> slice 0 b xs = xs"
  by (simp add: slice_def)

lemma slice_0_append [buf_simps]: "slice 0 (length xs + n) (xs @ ys) = xs @ slice 0 n ys"
  by (simp add: slice_def)

lemma slice_put_inside:
  assumes "a \<le> off" and "off + length bs \<le> b" and "b \<le> length xs"
  shows "slice a b (put_at off bs xs) = put_at (off - a) bs (slice a b xs)"
proof -
  have "slice a b (put_at off bs xs) = slice a off (put_at off bs xs) @
      slice off (off + length bs) (put_at off bs xs) @ slice (off + length bs) b (put_at off bs xs)"
    using assms slice_split[of a off b "put_at off bs xs"]
      slice_split[of off "off + length bs" b "put_at off bs xs"] by (simp add: length_put_at)
  also have "\<dots> = slice a off xs @ bs @ slice (off + length bs) b xs"
    using assms by (simp add: buf_simps)
  also have "\<dots> = put_at (off - a) bs (slice a b xs)"
  proof -
    have "take (off - a) (slice a b xs) = slice a off xs"
      using assms by (simp add: slice_def min_def)
    moreover have "drop (off - a + length bs) (slice a b xs) = slice (off + length bs) b xs"
      using assms by (simp add: slice_drop_take)
    ultimately show ?thesis by (simp add: put_at_def)
  qed
  finally show ?thesis .
qed

lemma nth_put_at_before: "i < off \<Longrightarrow> i < length xs \<Longrightarrow> put_at off bs xs ! i = xs ! i"
  by (simp add: put_at_def nth_append)

lemma nth_put_at_after:
  "off + length bs \<le> i \<Longrightarrow> i < length xs \<Longrightarrow> put_at off bs xs ! i = xs ! i"
  by (auto simp: put_at_def nth_append)

lemma drop_put_at:
  "off + length bs \<le> n \<Longrightarrow> off + length bs \<le> length xs \<Longrightarrow> drop n (put_at off bs xs) = drop n xs"
  by (simp add: put_at_def)

lemma put_at_twice:
  "length bs = length cs \<Longrightarrow> off + length bs \<le> length xs \<Longrightarrow>
   put_at off bs (put_at off cs xs) = put_at off bs xs"
  by (simp add: put_at_def)

lemma put_at_append_skip:
  "length xs \<le> off \<Longrightarrow> put_at off bs (xs @ ys) = xs @ put_at (off - length xs) bs ys"
  by (simp add: put_at_def)

lemma put_at_append_here: "length xs = length bs \<Longrightarrow> put_at 0 bs (xs @ ys) = bs @ ys"
  by (simp add: put_at_def)

lemma put_at_join_after:
  assumes "off + length bs + length cs \<le> length xs"
  shows "put_at off bs (put_at (off + length bs) cs xs) = put_at off (bs @ cs) xs"
  using assms by (simp add: put_at_def add.assoc min_def)

lemma put_at_join_before:
  assumes "off + length bs + length cs \<le> length xs"
  shows "put_at (off + length bs) cs (put_at off bs xs) = put_at off (bs @ cs) xs"
  using assms by (auto simp: put_at_def ac_simps min_def)

lemma slice_put_out:
  assumes "off + length bs \<le> length xs" "b \<le> off \<or> off + length bs \<le> a"
  shows "slice a b (put_at off bs xs) = slice a b xs"
  using assms slice_put_before slice_put_after by blast

lemma list_update_split:
  "i < length xs \<Longrightarrow> xs = take i xs @ xs ! i # drop (Suc i) xs \<and>
     xs[i := b] = take i xs @ b # drop (Suc i) xs"
  by (simp add: id_take_nth_drop upd_conv_take_nth_drop)

section \<open>UTF-8\<close>

text \<open>
  \<^verbatim>\<open>String::from_utf8\<close>: the well-formed byte sequences of the Unicode standard (no overlong
  forms, no surrogates, nothing above U+10FFFF). A Rust \<^verbatim>\<open>String\<close> or \<^verbatim>\<open>&str\<close> is the list
  of its bytes, which satisfies this test.
\<close>

definition utf8_cont :: "u8 \<Rightarrow> bool" where
  "utf8_cont b \<longleftrightarrow> 0x80 \<le> b \<and> b \<le> 0xBF"

fun utf8_valid :: "bytes \<Rightarrow> bool" where
  "utf8_valid [] \<longleftrightarrow> True"
| "utf8_valid (b0 # bs) \<longleftrightarrow>
     (if b0 < 0x80 then utf8_valid bs
      else case bs of [] \<Rightarrow> False | b1 # bs1 \<Rightarrow>
        if 0xC2 \<le> b0 \<and> b0 \<le> 0xDF then utf8_cont b1 \<and> utf8_valid bs1
        else case bs1 of [] \<Rightarrow> False | b2 # bs2 \<Rightarrow>
          if b0 = 0xE0 then 0xA0 \<le> b1 \<and> b1 \<le> 0xBF \<and> utf8_cont b2 \<and> utf8_valid bs2
          else if b0 = 0xED then 0x80 \<le> b1 \<and> b1 \<le> 0x9F \<and> utf8_cont b2 \<and> utf8_valid bs2
          else if 0xE1 \<le> b0 \<and> b0 \<le> 0xEF then utf8_cont b1 \<and> utf8_cont b2 \<and> utf8_valid bs2
          else case bs2 of [] \<Rightarrow> False | b3 # bs3 \<Rightarrow>
            (b0 = 0xF0 \<and> 0x90 \<le> b1 \<and> b1 \<le> 0xBF \<or>
             0xF1 \<le> b0 \<and> b0 \<le> 0xF3 \<and> utf8_cont b1 \<or>
             b0 = 0xF4 \<and> 0x80 \<le> b1 \<and> b1 \<le> 0x8F) \<and>
            utf8_cont b2 \<and> utf8_cont b3 \<and> utf8_valid bs3)"

lemma utf8_ascii: "\<forall>b \<in> set bs. b < 0x80 \<Longrightarrow> utf8_valid bs"
  by (induction bs) simp_all

section \<open>FNV-1a\<close>

text \<open>
  The 32-bit FNV-1a hash, written out in the same way in several files of the repository
  (\<^verbatim>\<open>oplog.rs\<close>, \<^verbatim>\<open>lib.rs\<close> and \<^verbatim>\<open>shard.rs\<close> among them): one exclusive or and one
  wrapping multiplication by an odd constant per byte.
\<close>

definition fnv_step :: "u32 \<Rightarrow> u8 \<Rightarrow> u32" where
  "fnv_step h b = (h XOR ucast b) * 0x01000193"

definition fnv1a :: "bytes \<Rightarrow> u32" where
  "fnv1a data = foldl fnv_step 0x811c9dc5 data"

lemma mult_odd_inj:
  fixes a b c :: "'a::len word"
  assumes "a * c = b * c" and "c * c' = 1"
  shows "a = b"
proof -
  have "a = (a * c) * c'"
    using assms(2) by (simp add: mult.assoc)
  also have "\<dots> = b"
    using assms by (simp add: mult.assoc)
  finally show ?thesis .
qed

lemma fnv_prime_inverse: "(0x01000193 :: u32) * 899433627 = 1"
  by simp

lemma fnv_mult_inj: "a * (0x01000193 :: u32) = b * 0x01000193 \<longleftrightarrow> a = b"
  using mult_odd_inj[OF _ fnv_prime_inverse] by blast

lemma xor_right_cancel: "a XOR c = b XOR c \<longleftrightarrow> a = (b :: 'a::len word)"
  by (metis xor.assoc xor.right_neutral xor_self_eq)

lemma xor_left_cancel: "c XOR a = c XOR b \<longleftrightarrow> a = (b :: 'a::len word)"
  by (metis xor.commute xor_right_cancel)

lemma ucast_u8_u32_inj: "ucast (a :: u8) = (ucast b :: u32) \<longleftrightarrow> a = b"
proof
  assume "ucast a = (ucast b :: u32)"
  then have "unat (ucast a :: u32) = unat (ucast b :: u32)" by simp
  then show "a = b"
    using unat_bound[of a] unat_bound[of b]
    by (simp add: unsigned_ucast_eq take_bit_nat_eq_self word_unat_eq_iff)
qed simp

lemma fnv_step_inj_state: "fnv_step h b = fnv_step h' b \<longleftrightarrow> h = h'"
  by (simp add: fnv_step_def fnv_mult_inj xor_right_cancel)

lemma fnv_step_inj_byte: "fnv_step h b = fnv_step h b' \<longleftrightarrow> b = b'"
  by (simp add: fnv_step_def fnv_mult_inj xor_left_cancel ucast_u8_u32_inj)

lemma foldl_inj_state:
  assumes "\<And>h h' b. f h b = f h' b \<longleftrightarrow> h = h'"
  shows "foldl f h bs = foldl f h' bs \<longleftrightarrow> h = h'"
  by (induction bs arbitrary: h h') (auto simp: assms)

section \<open>Sorting and removing repetitions\<close>

lemma sorted_distinct_adj: "sorted xs \<Longrightarrow> distinct (remdups_adj xs)"
proof (induction xs rule: remdups_adj.induct)
  case (3 x y xs)
  then show ?case by (force simp: antisym)
qed simp_all

lemma sort_dedup: "sorted (remdups_adj (sort xs)) \<and> distinct (remdups_adj (sort xs)) \<and> set (remdups_adj (sort xs)) = set xs"
  using sorted_distinct_adj[of "sort xs"] by (simp add: sorted_remdups_adj)

end
