(* ===== verification/Hlc.thy ===== *)
theory Hlc
  imports Prelude "HOL-Library.Product_Lexorder"
begin

text \<open>
  The primitive types of \<^verbatim>\<open>crates/enchudb-oplog/src/lib.rs\<close>: entity ids that carry the
  peer in their upper half, hybrid logical clocks with their total order, the merge rule for
  received clocks, and the clock cell the oplog keeps (\<^verbatim>\<open>next_hlc\<close> and
  \<^verbatim>\<open>merge_external_hlc\<close> of \<^verbatim>\<open>oplog.rs\<close>). The lemmas show that ids split and join
  without loss, that a merged clock is later than both its inputs, and that the clock cell
  hands out strictly increasing stamps until the 32-bit logical counter wraps.
\<close>

section \<open>Entity ids\<close>

type_synonym entity_id = u64
type_synonym peer_id = u32

definition make_eid :: "peer_id \<Rightarrow> u32 \<Rightarrow> entity_id" where
  "make_eid peer local = push_bit 32 (ucast peer) OR ucast local"

definition eid_peer :: "entity_id \<Rightarrow> peer_id" where
  "eid_peer eid = ucast (drop_bit 32 eid)"

definition eid_local :: "entity_id \<Rightarrow> u32" where
  "eid_local eid = ucast eid"

section \<open>The legacy content key\<close>

definition content_key_hash15 :: "bytes \<Rightarrow> u16" where
  "content_key_hash15 s = ucast (fnv1a s) mod 0x7fff"

section \<open>Hybrid logical clocks\<close>

datatype hlc = Hlc (hlc_wall: u64) (hlc_logical: u32) (hlc_peer: peer_id)

definition hlc_ZERO :: hlc where
  "hlc_ZERO = Hlc 0 0 0"

definition cmp_key :: "hlc \<Rightarrow> u64 \<times> u32 \<times> u32" where
  "cmp_key h = (hlc_wall h, hlc_logical h, hlc_peer h)"

instantiation hlc :: linorder
begin

definition less_eq_hlc :: "hlc \<Rightarrow> hlc \<Rightarrow> bool" where
  "less_eq_hlc a b \<longleftrightarrow> cmp_key a \<le> cmp_key b"

definition less_hlc :: "hlc \<Rightarrow> hlc \<Rightarrow> bool" where
  "less_hlc a b \<longleftrightarrow> cmp_key a < cmp_key b"

instance
proof
  fix x y z :: hlc
  show "x < y \<longleftrightarrow> x \<le> y \<and> \<not> y \<le> x"
    by (auto simp: less_hlc_def less_eq_hlc_def)
  show "x \<le> x"
    by (simp add: less_eq_hlc_def)
  show "x \<le> y \<Longrightarrow> y \<le> z \<Longrightarrow> x \<le> z"
    by (simp add: less_eq_hlc_def)
  show "x \<le> y \<Longrightarrow> y \<le> x \<Longrightarrow> x = y"
    by (cases x; cases y) (auto simp: less_eq_hlc_def cmp_key_def)
  show "x \<le> y \<or> y \<le> x"
    by (auto simp: less_eq_hlc_def)
qed

end

lemma hlc_less_iff:
  "a < b \<longleftrightarrow> hlc_wall a < hlc_wall b \<or> hlc_wall a = hlc_wall b \<and>
     (hlc_logical a < hlc_logical b \<or> hlc_logical a = hlc_logical b \<and> hlc_peer a < hlc_peer b)"
  by (auto simp: less_hlc_def cmp_key_def)

lemma hlc_ZERO_least: "hlc_ZERO \<le> h"
  by (cases h) (auto simp: hlc_ZERO_def less_eq_hlc_def cmp_key_def)

definition merge_recv :: "hlc \<Rightarrow> hlc \<Rightarrow> u64 \<Rightarrow> peer_id \<Rightarrow> hlc" where
  "merge_recv local recv now_wall local_peer =
     (let new_wall = max (max (hlc_wall local) (hlc_wall recv)) now_wall;
          new_logical =
            (if new_wall = hlc_wall local \<and> new_wall = hlc_wall recv
             then max (hlc_logical local) (hlc_logical recv) + 1
             else if new_wall = hlc_wall local then hlc_logical local + 1
             else if new_wall = hlc_wall recv then hlc_logical recv + 1
             else 0)
      in Hlc new_wall new_logical local_peer)"

section \<open>The clock cell of the oplog\<close>

text \<open>
  \<^verbatim>\<open>hlc_state: Mutex<(u64, u32)>\<close> holds the last \<^verbatim>\<open>(wall, logical)\<close> handed out. Both
  operations run under that one lock, so each is one atomic step.
\<close>

type_synonym hlc_state = "u64 \<times> u32"

definition next_hlc :: "peer_id \<Rightarrow> u64 \<Rightarrow> hlc_state \<Rightarrow> hlc \<times> hlc_state" where
  "next_hlc peer now st =
     (let st' = (if fst st < now then (now, 0) else (fst st, snd st + 1))
      in (Hlc (fst st') (snd st') peer, st'))"

definition merge_external_hlc :: "hlc \<Rightarrow> hlc_state \<Rightarrow> hlc_state" where
  "merge_external_hlc recv st =
     (if st < (hlc_wall recv, hlc_logical recv) then (hlc_wall recv, hlc_logical recv) else st)"

text \<open>A history of the cell: stamps minted at wall-clock readings, and received clocks.\<close>

datatype clock_event = Mint u64 | Observe hlc

fun clock_run :: "peer_id \<Rightarrow> hlc_state \<Rightarrow> clock_event list \<Rightarrow> hlc list" where
  "clock_run p st [] = []"
| "clock_run p st (Mint now # es) =
     fst (next_hlc p now st) # clock_run p (snd (next_hlc p now st)) es"
| "clock_run p st (Observe r # es) = clock_run p (merge_external_hlc r st) es"

text \<open>No stamp is minted from a logical counter that is at its 32-bit maximum.\<close>

fun clock_room :: "hlc_state \<Rightarrow> clock_event list \<Rightarrow> bool" where
  "clock_room st [] \<longleftrightarrow> True"
| "clock_room st (Mint now # es) \<longleftrightarrow>
     (fst st < now \<or> snd st \<noteq> - 1) \<and> clock_room (snd (next_hlc 0 now st)) es"
| "clock_room st (Observe r # es) \<longleftrightarrow> clock_room (merge_external_hlc r st) es"

section \<open>Lemmas\<close>

lemma eid_split_join_bits:
  "eid_peer (make_eid p l) = p" "eid_local (make_eid p l) = l"
  "make_eid (eid_peer e) (eid_local e) = e"
  unfolding make_eid_def eid_peer_def eid_local_def
  by (rule bit_word_eqI; auto simp: bit_simps not_less le_iff_add dest: bit_imp_le_length)+

lemma word_less_add_one:
  fixes x :: "'a::len word"
  assumes "x \<noteq> - 1"
  shows "x < x + 1"
proof -
  have "unat x \<noteq> 2 ^ LENGTH('a) - 1"
    using assms by (simp add: word_unat_eq_iff unsigned_minus_1_eq_mask mask_eq_exp_minus_1)
  then have "unat x + 1 < 2 ^ LENGTH('a)"
    using unat_bound[of x] by linarith
  then have "unat (x + 1) = unat x + 1"
    by (simp add: unat_word_ariths)
  then show ?thesis
    by (simp add: word_less_nat_alt)
qed

lemma next_hlc_later:
  assumes "fst st < now \<or> snd st \<noteq> - 1"
  shows "st < snd (next_hlc p now st)"
  using assms word_less_add_one[of "snd st"] by (cases st) (auto simp: next_hlc_def Let_def)

lemma next_hlc_stamp:
  "hlc_wall (fst (next_hlc p now st)) = fst (snd (next_hlc p now st))"
  "hlc_logical (fst (next_hlc p now st)) = snd (snd (next_hlc p now st))"
  "hlc_peer (fst (next_hlc p now st)) = p"
  by (simp_all add: next_hlc_def Let_def)

lemma next_hlc_state: "snd (next_hlc p now st) = snd (next_hlc q now st)"
  by (simp add: next_hlc_def Let_def)

lemma merge_external_later:
  "st \<le> merge_external_hlc r st" "(hlc_wall r, hlc_logical r) \<le> merge_external_hlc r st"
  by (auto simp: merge_external_hlc_def not_less)

lemma clock_run_after_state:
  "clock_room st es \<Longrightarrow> h \<in> set (clock_run p st es) \<Longrightarrow> st < (hlc_wall h, hlc_logical h)"
proof (induction p st es rule: clock_run.induct)
  case (2 p st now es)
  let ?st' = "snd (next_hlc p now st)"
  have room: "clock_room ?st' es" and now: "fst st < now \<or> snd st \<noteq> - 1"
    using "2.prems"(1) next_hlc_state[of p now st 0] by simp_all
  have step: "st < ?st'"
    using next_hlc_later[OF now] .
  from "2.prems"(2) consider "h = fst (next_hlc p now st)" | "h \<in> set (clock_run p ?st' es)"
    by auto
  then show ?case
  proof cases
    case 1
    then show ?thesis using step by (simp add: next_hlc_stamp)
  next
    case 2
    then have "?st' < (hlc_wall h, hlc_logical h)"
      using "2.IH" room by blast
    with step show ?thesis by (rule less_trans)
  qed
next
  case (3 p st r es)
  then have "merge_external_hlc r st < (hlc_wall h, hlc_logical h)" by simp
  with merge_external_later(1) show ?case by (rule le_less_trans)
qed simp

lemma clock_run_peer: "h \<in> set (clock_run p st es) \<Longrightarrow> hlc_peer h = p"
  by (induction p st es rule: clock_run.induct) (auto simp: next_hlc_stamp)

lemma pair_less_hlc: "(hlc_wall a, hlc_logical a) < (hlc_wall b, hlc_logical b) \<Longrightarrow> a < b"
  by (auto simp: hlc_less_iff)

lemma clock_run_app:
  "\<exists>st'. clock_run p st (es @ fs) = clock_run p st es @ clock_run p st' fs \<and>
     (clock_room st (es @ fs) \<longrightarrow> clock_room st es \<and> clock_room st' fs)"
proof (induction p st es rule: clock_run.induct)
  case (2 p st now es)
  then show ?case
    using next_hlc_state[of p now st 0] by auto
qed auto

lemma clock_run_sorted:
  "clock_room st es \<Longrightarrow> sorted_wrt (<) (clock_run p st es)"
proof (induction p st es rule: clock_run.induct)
  case (2 p st now es)
  let ?st' = "snd (next_hlc p now st)"
  have room: "clock_room ?st' es"
    using "2.prems" next_hlc_state[of p now st 0] by simp
  then have "sorted_wrt (<) (clock_run p ?st' es)"
    by (rule "2.IH")
  moreover have "fst (next_hlc p now st) < h" if "h \<in> set (clock_run p ?st' es)" for h
    using clock_run_after_state[OF room that] by (auto intro: pair_less_hlc simp: next_hlc_stamp)
  ultimately show ?case
    by auto
qed auto

section \<open>Properties\<close>

text \<open>
  Entity ids are a bijection between pairs of a peer and a local id and 64-bit words:
  the two halves read back what \<^verbatim>\<open>make_eid\<close> put in, and every id is rebuilt from its halves,
  so ids of different peers never coincide.
\<close>

theorem eid_roundtrip:
  "eid_peer (make_eid p l) = p \<and> eid_local (make_eid p l) = l \<and>
   make_eid (eid_peer e) (eid_local e) = e"
  by (simp add: eid_split_join_bits)

text \<open>
  The slot a legacy Content write takes in the version store is never the slot of a
  deletion: the hash stays below \<^verbatim>\<open>0x7fff\<close>, so setting the top bit never yields the
  tombstone sentinel \<^verbatim>\<open>u16::MAX\<close>.
\<close>

theorem content_key_not_tombstone:
  "content_key_hash15 s < 0x7fff \<and> content_key_hash15 s OR 0x8000 \<noteq> 0xFFFF"
proof
  show less: "content_key_hash15 s < 0x7fff"
    by (simp add: content_key_hash15_def word_mod_less_divisor)
  show "content_key_hash15 s OR 0x8000 \<noteq> 0xFFFF"
  proof
    assume eq: "content_key_hash15 s OR 0x8000 = 0xFFFF"
    have "content_key_hash15 s AND 0x7fff = (content_key_hash15 s OR 0x8000) AND 0x7fff"
      by (simp add: bit.conj_disj_distrib2)
    also have "\<dots> = 0x7fff"
      by (simp add: eq)
    finally have "0x7fff \<le> content_key_hash15 s"
      by (metis word_and_le2)
    with less show False by simp
  qed
qed

text \<open>
  Receiving a clock never moves time backwards: the merged clock is strictly later than
  the local clock and than the received one and not before the wall clock, as long as
  neither logical counter is at its 32-bit maximum.
\<close>

theorem merge_recv_later:
  assumes "hlc_logical local \<noteq> - 1" and "hlc_logical recv \<noteq> - 1"
  shows "local < merge_recv local recv now p \<and> recv < merge_recv local recv now p \<and>
    now \<le> hlc_wall (merge_recv local recv now p) \<and> hlc_peer (merge_recv local recv now p) = p"
proof -
  have "max (hlc_logical local) (hlc_logical recv) \<noteq> - 1"
    using assms by (simp add: max_def)
  then have "hlc_logical local < max (hlc_logical local) (hlc_logical recv) + 1"
    "hlc_logical recv < max (hlc_logical local) (hlc_logical recv) + 1"
    using word_less_add_one by (metis le_less_trans max.cobounded1 max.cobounded2)+
  then show ?thesis
    using assms word_less_add_one
    by (auto simp: merge_recv_def Let_def hlc_less_iff max_def split: if_splits)
qed

theorem merge_recv_later_witness:
  "Hlc 10 4 1 < merge_recv (Hlc 10 4 1) (Hlc 10 9 2) 7 1 \<and>
   merge_recv (Hlc 10 4 1) (Hlc 10 9 2) 7 1 = Hlc 10 10 1"
  using merge_recv_later[of "Hlc 10 4 1" "Hlc 10 9 2" 7 1]
  by (simp add: merge_recv_def Let_def)

text \<open>
  C17. Over any history of minted stamps and received clocks, a peer's stamps are strictly
  increasing, carry that peer's id, and every stamp minted after a clock was received is
  later than that clock, as long as no stamp is minted from a full logical counter.
\<close>

theorem clock_history_increasing:
  assumes "clock_room st (es @ Observe r # fs)"
  shows "sorted_wrt (<) (clock_run p st (es @ Observe r # fs)) \<and>
    (\<forall>h \<in> set (clock_run p st (es @ Observe r # fs)). hlc_peer h = p) \<and>
    (\<exists>st'. clock_run p st (es @ Observe r # fs) = clock_run p st es @ clock_run p st' fs \<and>
      (\<forall>h \<in> set (clock_run p st' fs). r < h))"
proof (intro conjI)
  show "sorted_wrt (<) (clock_run p st (es @ Observe r # fs))"
    using assms by (rule clock_run_sorted)
  show "\<forall>h \<in> set (clock_run p st (es @ Observe r # fs)). hlc_peer h = p"
    by (simp add: clock_run_peer)
  obtain st' where run: "clock_run p st (es @ Observe r # fs) =
      clock_run p st es @ clock_run p st' (Observe r # fs)"
    and room: "clock_room st' (Observe r # fs)"
    using clock_run_app[of p st es "Observe r # fs"] assms by blast
  have "r < h" if "h \<in> set (clock_run p (merge_external_hlc r st') fs)" for h
    using merge_external_later(2)[of r st'] clock_run_after_state[of _ fs, OF _ that] room
    by (intro pair_less_hlc) (auto dest: le_less_trans)
  then show "\<exists>st'. clock_run p st (es @ Observe r # fs) = clock_run p st es @ clock_run p st' fs \<and>
      (\<forall>h \<in> set (clock_run p st' fs). r < h)"
    using run by (intro exI[of _ "merge_external_hlc r st'"]) simp
qed

theorem clock_history_increasing_witness:
  "clock_run 3 (0, 0) [Mint 5, Mint 5, Observe (Hlc 9 7 8), Mint 6] =
     [Hlc 5 0 3, Hlc 5 1 3, Hlc 9 8 3] \<and>
   sorted_wrt (<) [Hlc 5 0 3, Hlc 5 1 3, Hlc 9 8 3]"
  using clock_history_increasing[of "(0, 0)" "[Mint 5, Mint 5]" "Hlc 9 7 8" "[Mint 6]" 3]
  by (simp add: next_hlc_def merge_external_hlc_def)

text \<open>
  The bound in the previous statement is needed: after a peer has received a clock whose
  logical counter is \<^verbatim>\<open>u32::MAX\<close>, the next stamp it mints while its wall clock has not
  passed the received one wraps to logical counter 0 and is earlier than the clock it
  received, so the version test rejects that local write.
\<close>

theorem clock_wraps_after_full_counter:
  "\<exists>r now. \<forall>p. fst (next_hlc p now (merge_external_hlc r (0, 0))) < r \<and> now \<le> hlc_wall r"
proof (intro exI allI)
  fix p
  show "fst (next_hlc p 50 (merge_external_hlc (Hlc 100 0xFFFFFFFF 7) (0, 0))) < Hlc 100 0xFFFFFFFF 7 \<and>
    50 \<le> hlc_wall (Hlc 100 0xFFFFFFFF 7)"
    by (simp add: next_hlc_def merge_external_hlc_def hlc_less_iff)
qed

end
