(* ===== verification/Oplog_Codec.thy ===== *)
theory Oplog_Codec
  imports Hlc
begin

text \<open>
  The record codec of \<^verbatim>\<open>crates/enchudb-oplog/src/oplog.rs\<close>: the operations the log
  carries, their payload bytes, the record checksum, the bytes a signature covers, and the
  two rewrites the bridge applies to a record it forwards for another peer. The lemmas show
  that every operation decodes to itself, that the checksum sees every changed byte, and that
  a rewritten record keeps its position, clock and author.
\<close>

section \<open>Constants of the record format\<close>

abbreviation (input) REC_HEADER_SIZE :: nat where "REC_HEADER_SIZE \<equiv> 112"
abbreviation (input) SIGNED_PAYLOAD_HEADER_SIZE :: nat where "SIGNED_PAYLOAD_HEADER_SIZE \<equiv> 40"
abbreviation (input) SYNC_OPS_PAYLOAD_PREFIX :: nat where "SYNC_OPS_PAYLOAD_PREFIX \<equiv> 72"
abbreviation (input) LAP_TRAILER :: nat where "LAP_TRAILER \<equiv> 8"
abbreviation (input) REC_VERSION :: u8 where "REC_VERSION \<equiv> 3"
abbreviation (input) REC_VERSION_V2 :: u8 where "REC_VERSION_V2 \<equiv> 2"

definition REC_MAGIC :: bytes where
  "REC_MAGIC = [0x57, 0x4C]"

definition ZERO_SIGNATURE :: bytes where
  "ZERO_SIGNATURE = replicate 64 0"

definition ZERO_PUBKEY_FP :: bytes where
  "ZERO_PUBKEY_FP = replicate 8 0"

definition known_version :: "u8 \<Rightarrow> bool" where
  "known_version v \<longleftrightarrow> v = REC_VERSION \<or> v = REC_VERSION_V2"

definition record_size_hint :: "nat \<Rightarrow> nat" where
  "record_size_hint payload_size = REC_HEADER_SIZE + payload_size + LAP_TRAILER"

section \<open>Operations\<close>

text \<open>
  \<^verbatim>\<open>Op<'a>\<close> and \<^verbatim>\<open>DecodedOp\<close> have the same ten constructors and differ only in borrowing or
  owning their strings, so one datatype stands for both. Strings are their UTF-8 bytes.
\<close>

datatype op =
    Tie u64 u16 u64
  | Untie u64 u16
  | Delete u64
  | Content u64 bytes bytes
  | Commit
  | Vocab u32 bytes
  | TieNamed u64 bytes u8 u64
  | TieLeaf u64 bytes u8 bytes
  | TieRef u64 u16 u64
  | Alias u64 u64

datatype owned_op =
    O_Tie u64 u16 u64
  | O_Untie u64 u16
  | O_Delete u64
  | O_Content u64 bytes bytes
  | O_Commit
  | O_Vocab u32 bytes
  | O_TieNamed u64 bytes u8 u64
  | O_TieLeaf u64 bytes u8 bytes

fun as_op :: "owned_op \<Rightarrow> op" where
  "as_op (O_Tie e h v) = Tie e h v"
| "as_op (O_Untie e h) = Untie e h"
| "as_op (O_Delete e) = Delete e"
| "as_op (O_Content e k d) = Content e k d"
| "as_op O_Commit = Commit"
| "as_op (O_Vocab v b) = Vocab v b"
| "as_op (O_TieNamed e n k v) = TieNamed e n k v"
| "as_op (O_TieLeaf e n k b) = TieLeaf e n k b"

definition op_skippable :: "u8 \<Rightarrow> bool" where
  "op_skippable b \<longleftrightarrow> b AND 0x80 \<noteq> 0"

fun payload_size :: "op \<Rightarrow> nat" where
  "payload_size (Tie _ _ value) = (if value > 0xFFFFFFFF then 24 else 16)"
| "payload_size (Untie _ _) = 16"
| "payload_size (Delete _) = 8"
| "payload_size (Content _ key data) = 8 + 2 + 2 + 4 + length key + length data"
| "payload_size Commit = 0"
| "payload_size (Vocab _ bs) = 4 + 4 + length bs"
| "payload_size (TieNamed _ name _ value) =
     (if value > 0xFFFFFFFF then 20 + length name else 16 + length name)"
| "payload_size (TieLeaf _ name _ bs) = 16 + length name + length bs"
| "payload_size (TieRef _ _ _) = 20"
| "payload_size (Alias _ _) = 16"

definition record_size :: "owned_op \<Rightarrow> nat" where
  "record_size w = record_size_hint (payload_size (as_op w))"

fun op_byte :: "op \<Rightarrow> u8" where
  "op_byte (Tie _ _ value) = (if value > 0xFFFFFFFF then 10 else 0)"
| "op_byte (Untie _ _) = 1"
| "op_byte (Delete _) = 2"
| "op_byte (Content _ _ _) = 3"
| "op_byte Commit = 4"
| "op_byte (Vocab _ _) = 6"
| "op_byte (TieNamed _ _ _ value) = (if value > 0xFFFFFFFF then 11 else 7)"
| "op_byte (TieLeaf _ _ _ _) = 8"
| "op_byte (TieRef _ _ _) = 9"
| "op_byte (Alias _ _) = 0x81"

text \<open>
  \<^verbatim>\<open>write_payload\<close> fills the payload range from its first byte to its last; the model is the
  list of bytes it leaves there. \<^const>\<open>None\<close> is the assertion that a himo name is too long
  for its 16-bit length field; the key of a Content has no such assertion, its length is cut
  to 16 bits.
\<close>

fun write_payload :: "op \<Rightarrow> bytes option" where
  "write_payload (Tie eid himo_id value) = Some (
     if value > 0xFFFFFFFF
     then to_le_bytes eid @ to_le_bytes himo_id @ [0, 0, 0, 0, 0, 0] @ to_le_bytes value
     else to_le_bytes eid @ to_le_bytes himo_id @ [0, 0] @ to_le_bytes (ucast value :: u32))"
| "write_payload (Untie eid himo_id) =
     Some (to_le_bytes eid @ to_le_bytes himo_id @ [0, 0, 0, 0, 0, 0])"
| "write_payload (Delete eid) = Some (to_le_bytes eid)"
| "write_payload (Content eid key data) = Some (
     to_le_bytes eid @ to_le_bytes (word_of_nat (length key) :: u16) @ [0, 0] @
     to_le_bytes (word_of_nat (length data) :: u32) @ key @ data)"
| "write_payload Commit = Some []"
| "write_payload (Vocab vid bs) =
     Some (to_le_bytes vid @ to_le_bytes (word_of_nat (length bs) :: u32) @ bs)"
| "write_payload (TieNamed eid name kind value) = (
     if length name > 65535 then None
     else if value > 0xFFFFFFFF
     then Some (to_le_bytes eid @ to_le_bytes value @ [kind, 0] @
       to_le_bytes (word_of_nat (length name) :: u16) @ name)
     else Some (to_le_bytes eid @ to_le_bytes (ucast value :: u32) @ [kind, 0] @
       to_le_bytes (word_of_nat (length name) :: u16) @ name))"
| "write_payload (TieLeaf eid name kind bs) = (
     if length name > 65535 then None
     else Some (to_le_bytes eid @ [kind, 0] @ to_le_bytes (word_of_nat (length name) :: u16) @
       to_le_bytes (word_of_nat (length bs) :: u32) @ name @ bs))"
| "write_payload (TieRef eid himo_id target) =
     Some (to_le_bytes eid @ to_le_bytes himo_id @ [0, 0] @ to_le_bytes target)"
| "write_payload (Alias eid same_as) = Some (to_le_bytes eid @ to_le_bytes same_as)"

definition string_from_utf8 :: "bytes \<Rightarrow> bytes option" where
  "string_from_utf8 bs = (if utf8_valid bs then Some bs else None)"

definition decode_op :: "u8 \<Rightarrow> bytes \<Rightarrow> op option" where
  "decode_op opb p = (
     if opb = 0 \<and> length p \<ge> 16 then
       Some (Tie (from_le_bytes (slice 0 8 p)) (from_le_bytes (slice 8 10 p))
         (ucast (from_le_bytes (slice 12 16 p) :: u32)))
     else if opb = 10 \<and> length p \<ge> 24 then
       Some (Tie (from_le_bytes (slice 0 8 p)) (from_le_bytes (slice 8 10 p))
         (from_le_bytes (slice 16 24 p)))
     else if opb = 1 \<and> length p \<ge> 16 then
       Some (Untie (from_le_bytes (slice 0 8 p)) (from_le_bytes (slice 8 10 p)))
     else if opb = 2 \<and> length p \<ge> 8 then
       Some (Delete (from_le_bytes (slice 0 8 p)))
     else if opb = 3 \<and> length p \<ge> 16 then
       (let klen = unat (from_le_bytes (slice 8 10 p) :: u16);
            dlen = unat (from_le_bytes (slice 12 16 p) :: u32)
        in if length p < 16 + klen + dlen then None
           else case string_from_utf8 (slice 16 (16 + klen) p) of None \<Rightarrow> None
             | Some key \<Rightarrow> Some (Content (from_le_bytes (slice 0 8 p)) key
                 (slice (16 + klen) (16 + klen + dlen) p)))
     else if opb = 4 then Some Commit
     else if opb = 7 \<and> length p \<ge> 16 then
       (let nlen = unat (from_le_bytes (slice 14 16 p) :: u16)
        in if length p < 16 + nlen then None
           else case string_from_utf8 (slice 16 (16 + nlen) p) of None \<Rightarrow> None
             | Some name \<Rightarrow> Some (TieNamed (from_le_bytes (slice 0 8 p)) name (p ! 12)
                 (ucast (from_le_bytes (slice 8 12 p) :: u32))))
     else if opb = 11 \<and> length p \<ge> 20 then
       (let nlen = unat (from_le_bytes (slice 18 20 p) :: u16)
        in if length p < 20 + nlen then None
           else case string_from_utf8 (slice 20 (20 + nlen) p) of None \<Rightarrow> None
             | Some name \<Rightarrow> Some (TieNamed (from_le_bytes (slice 0 8 p)) name (p ! 16)
                 (from_le_bytes (slice 8 16 p))))
     else if opb = 8 \<and> length p \<ge> 16 then
       (let nlen = unat (from_le_bytes (slice 10 12 p) :: u16);
            blen = unat (from_le_bytes (slice 12 16 p) :: u32)
        in if length p < 16 + nlen + blen then None
           else case string_from_utf8 (slice 16 (16 + nlen) p) of None \<Rightarrow> None
             | Some name \<Rightarrow> Some (TieLeaf (from_le_bytes (slice 0 8 p)) name (p ! 8)
                 (slice (16 + nlen) (16 + nlen + blen) p)))
     else if opb = 6 \<and> length p \<ge> 8 then
       (let blen = unat (from_le_bytes (slice 4 8 p) :: u32)
        in if length p < 8 + blen then None
           else Some (Vocab (from_le_bytes (slice 0 4 p)) (slice 8 (8 + blen) p)))
     else if opb = 9 \<and> length p \<ge> 20 then
       Some (TieRef (from_le_bytes (slice 0 8 p)) (from_le_bytes (slice 8 10 p))
         (from_le_bytes (slice 12 20 p)))
     else if opb = 0x81 \<and> length p \<ge> 16 then
       Some (Alias (from_le_bytes (slice 0 8 p)) (from_le_bytes (slice 8 16 p)))
     else None)"

text \<open>The operations a log can hold: strings are UTF-8 and lengths fit their fields.\<close>

fun op_ok :: "op \<Rightarrow> bool" where
  "op_ok (Content _ key data) \<longleftrightarrow> utf8_valid key \<and> length key < 2 ^ 16 \<and> length data < 2 ^ 32"
| "op_ok (Vocab _ bs) \<longleftrightarrow> length bs < 2 ^ 32"
| "op_ok (TieNamed _ name _ _) \<longleftrightarrow> utf8_valid name \<and> length name < 2 ^ 16"
| "op_ok (TieLeaf _ name _ bs) \<longleftrightarrow>
     utf8_valid name \<and> length name < 2 ^ 16 \<and> length bs < 2 ^ 32"
| "op_ok _ \<longleftrightarrow> True"

section \<open>The record checksum\<close>

fun chunks4 :: "bytes \<Rightarrow> bytes list" where
  "chunks4 [] = []"
| "chunks4 (b # bs) = take 4 (b # bs) # chunks4 (drop 4 (b # bs))"

definition crc_field_step :: "u32 \<Rightarrow> bytes \<Rightarrow> u32" where
  "crc_field_step h c =
     (h XOR from_le_bytes (c @ replicate (4 - length c) 0)) * 0x01000193"

definition record_crc :: "u8 \<Rightarrow> bytes \<Rightarrow> bytes \<Rightarrow> u32" where
  "record_crc version fields payload =
     (let h = fnv1a payload
      in if version = REC_VERSION_V2 then h
         else foldl crc_field_step h (chunks4 fields))"

definition crc_fields :: "u8 \<Rightarrow> u32 \<Rightarrow> u64 \<Rightarrow> hlc \<Rightarrow> peer_id \<Rightarrow> bytes" where
  "crc_fields opb payload_len lsn hlc author =
     [opb] @ to_le_bytes payload_len @ to_le_bytes lsn @ to_le_bytes (hlc_wall hlc) @
     to_le_bytes (hlc_logical hlc) @ to_le_bytes (hlc_peer hlc) @ to_le_bytes author"

definition new_record_crc ::
  "u8 \<Rightarrow> u32 \<Rightarrow> u64 \<Rightarrow> hlc \<Rightarrow> peer_id \<Rightarrow> bytes \<Rightarrow> u32" where
  "new_record_crc opb payload_len lsn hlc author payload =
     record_crc REC_VERSION (crc_fields opb payload_len lsn hlc author) payload"

definition signed_bytes_crc :: "bytes \<Rightarrow> u32" where
  "signed_bytes_crc sb =
     record_crc (sb ! 2) (slice 3 36 sb) (drop SIGNED_PAYLOAD_HEADER_SIZE sb)"

section \<open>The signed bytes\<close>

definition signed_payload ::
  "u8 \<Rightarrow> u32 \<Rightarrow> u64 \<Rightarrow> hlc \<Rightarrow> peer_id \<Rightarrow> u32 \<Rightarrow> bytes \<Rightarrow> bytes" where
  "signed_payload opb payload_len lsn hlc author crc payload =
     REC_MAGIC @ [REC_VERSION] @ [opb] @ to_le_bytes payload_len @ to_le_bytes lsn @
     to_le_bytes (hlc_wall hlc) @ to_le_bytes (hlc_logical hlc) @ to_le_bytes (hlc_peer hlc) @
     to_le_bytes author @ to_le_bytes crc @ payload"

definition decode_signed :: "bytes \<Rightarrow> (u64 \<times> hlc \<times> peer_id \<times> op) option" where
  "decode_signed sb = (
     if length sb < SIGNED_PAYLOAD_HEADER_SIZE then None
     else if slice 0 2 sb \<noteq> REC_MAGIC then None
     else if \<not> known_version (sb ! 2) then None
     else let payload_len = unat (from_le_bytes (slice 4 8 sb) :: u32);
              payload_end = SIGNED_PAYLOAD_HEADER_SIZE + payload_len
          in if payload_end > length sb then None
             else case decode_op (sb ! 3) (slice SIGNED_PAYLOAD_HEADER_SIZE payload_end sb) of
                 None \<Rightarrow> None
               | Some opr \<Rightarrow> Some (from_le_bytes (slice 8 16 sb),
                   Hlc (from_le_bytes (slice 16 24 sb)) (from_le_bytes (slice 24 28 sb))
                     (from_le_bytes (slice 28 32 sb)),
                   from_le_bytes (slice 32 36 sb), opr))"

definition decode_signed_bytes :: "bytes \<Rightarrow> (hlc \<times> peer_id \<times> op) option" where
  "decode_signed_bytes sb = map_option snd (decode_signed sb)"

record wal_record =
  r_lsn :: u64
  r_hlc :: hlc
  r_author_peer :: peer_id
  r_op :: op
  r_signature :: bytes
  r_pubkey_fp :: bytes
  r_signed_bytes :: bytes

definition decode_sync_ops_payload :: "bytes \<Rightarrow> wal_record option" where
  "decode_sync_ops_payload payload = (
     if length payload < SYNC_OPS_PAYLOAD_PREFIX + SIGNED_PAYLOAD_HEADER_SIZE then None
     else case decode_signed (drop SYNC_OPS_PAYLOAD_PREFIX payload) of
         None \<Rightarrow> None
       | Some (lsn, hlc, author, opr) \<Rightarrow>
           Some \<lparr>r_lsn = lsn, r_hlc = hlc, r_author_peer = author, r_op = opr,
             r_signature = slice 0 64 payload, r_pubkey_fp = slice 64 72 payload,
             r_signed_bytes = drop SYNC_OPS_PAYLOAD_PREFIX payload\<rparr>)"

definition sync_ops_payload_author_hlc :: "bytes \<Rightarrow> (peer_id \<times> hlc) option" where
  "sync_ops_payload_author_hlc payload = (
     if length payload < SYNC_OPS_PAYLOAD_PREFIX then None
     else let sb = drop SYNC_OPS_PAYLOAD_PREFIX payload
          in if length sb < SIGNED_PAYLOAD_HEADER_SIZE \<or> slice 0 2 sb \<noteq> REC_MAGIC \<or>
                \<not> known_version (sb ! 2)
             then None
             else Some (from_le_bytes (slice 32 36 sb),
               Hlc (from_le_bytes (slice 16 24 sb)) (from_le_bytes (slice 24 28 sb))
                 (from_le_bytes (slice 28 32 sb))))"

text \<open>
  \<^verbatim>\<open>RecordRef\<close>: a record that still borrows its header and payload from the log. The
  operation was decoded when it was made.
\<close>

record record_ref =
  rr_lsn :: u64
  rr_hlc :: hlc
  rr_author_peer :: peer_id
  rr_op :: op
  rr_header :: bytes
  rr_payload :: bytes

definition rr_signature :: "record_ref \<Rightarrow> bytes" where
  "rr_signature rr = slice 40 104 (rr_header rr)"

definition rr_pubkey_fp :: "record_ref \<Rightarrow> bytes" where
  "rr_pubkey_fp rr = slice 104 112 (rr_header rr)"

definition signed_parts :: "record_ref \<Rightarrow> bytes \<times> bytes" where
  "signed_parts rr = (take SIGNED_PAYLOAD_HEADER_SIZE (rr_header rr), rr_payload rr)"

definition to_record :: "record_ref \<Rightarrow> wal_record" where
  "to_record rr = \<lparr>r_lsn = rr_lsn rr, r_hlc = rr_hlc rr, r_author_peer = rr_author_peer rr,
     r_op = rr_op rr, r_signature = rr_signature rr, r_pubkey_fp = rr_pubkey_fp rr,
     r_signed_bytes = fst (signed_parts rr) @ snd (signed_parts rr)\<rparr>"

section \<open>Rewriting a record for another peer\<close>

text \<open>
  Signing is \<^verbatim>\<open>ed25519-dalek\<close>: a key pair is the pair of its signing function and its
  fingerprint, and nothing below depends on what they return.
\<close>

record keypair =
  kp_sign :: "bytes \<Rightarrow> bytes"
  kp_pubkey_fp :: bytes

record resigned_record =
  rs_signed_bytes :: bytes
  rs_signature :: bytes
  rs_pubkey_fp :: bytes

definition sign_or_zero :: "keypair option \<Rightarrow> bytes \<Rightarrow> bytes \<times> bytes" where
  "sign_or_zero kp sb = (case kp of
       Some k \<Rightarrow> (kp_sign k sb, kp_pubkey_fp k)
     | None \<Rightarrow> (ZERO_SIGNATURE, ZERO_PUBKEY_FP))"

definition recrc :: "bytes \<Rightarrow> bytes" where
  "recrc sb = put_at 36 (to_le_bytes (signed_bytes_crc sb)) sb"

fun op_carries_eid :: "op \<Rightarrow> bool" where
  "op_carries_eid Commit \<longleftrightarrow> False"
| "op_carries_eid (Vocab _ _) \<longleftrightarrow> False"
| "op_carries_eid (Alias _ _) \<longleftrightarrow> False"
| "op_carries_eid _ \<longleftrightarrow> True"

definition resign_with_eid ::
  "wal_record \<Rightarrow> u64 \<Rightarrow> keypair option \<Rightarrow> resigned_record option" where
  "resign_with_eid rec new_eid kp = (
     if \<not> op_carries_eid (r_op rec) then None
     else let sb = r_signed_bytes rec
          in if length sb < SIGNED_PAYLOAD_HEADER_SIZE + 8 then None
             else let payload_len = unat (from_le_bytes (slice 4 8 sb) :: u32)
                  in if SIGNED_PAYLOAD_HEADER_SIZE + payload_len > length sb \<or> payload_len < 8
                     then None
                     else let sb1 = recrc (put_at SIGNED_PAYLOAD_HEADER_SIZE
                                (to_le_bytes new_eid) sb);
                              (sig, fp) = sign_or_zero kp sb1
                          in Some \<lparr>rs_signed_bytes = sb1, rs_signature = sig,
                               rs_pubkey_fp = fp\<rparr>)"

definition resign_as_tie_ref ::
  "wal_record \<Rightarrow> u64 \<Rightarrow> u64 \<Rightarrow> keypair option \<Rightarrow> resigned_record option" where
  "resign_as_tie_ref rec new_eid target_world kp = (case r_op rec of
       Tie _ himo_id _ \<Rightarrow>
         (let old = r_signed_bytes rec
          in if length old < SIGNED_PAYLOAD_HEADER_SIZE then None
             else let hd1 = put_at 4 (to_le_bytes (20 :: u32))
                        ((take SIGNED_PAYLOAD_HEADER_SIZE old)[3 := 9]);
                      sb = recrc (hd1 @ to_le_bytes new_eid @ to_le_bytes himo_id @ [0, 0] @
                        to_le_bytes target_world);
                      (sig, fp) = sign_or_zero kp sb
                  in Some \<lparr>rs_signed_bytes = sb, rs_signature = sig, rs_pubkey_fp = fp\<rparr>)
     | _ \<Rightarrow> None)"

fun op_with_eid :: "u64 \<Rightarrow> op \<Rightarrow> op" where
  "op_with_eid e (Tie _ h v) = Tie e h v"
| "op_with_eid e (Untie _ h) = Untie e h"
| "op_with_eid e (Delete _) = Delete e"
| "op_with_eid e (Content _ k d) = Content e k d"
| "op_with_eid e (TieNamed _ n k v) = TieNamed e n k v"
| "op_with_eid e (TieLeaf _ n k b) = TieLeaf e n k b"
| "op_with_eid e (TieRef _ h t) = TieRef e h t"
| "op_with_eid e w = w"

text \<open>Two concrete records the witnesses use.\<close>

definition sample_delete :: wal_record where
  "sample_delete = \<lparr>r_lsn = 41, r_hlc = Hlc 5 6 7, r_author_peer = 9, r_op = Delete 77,
     r_signature = ZERO_SIGNATURE, r_pubkey_fp = ZERO_PUBKEY_FP,
     r_signed_bytes = signed_payload 2 8 41 (Hlc 5 6 7) 9 0 (to_le_bytes (77 :: u64))\<rparr>"

definition sample_tie :: wal_record where
  "sample_tie = \<lparr>r_lsn = 8, r_hlc = Hlc 1 2 3, r_author_peer = 3, r_op = Tie 5 6 7,
     r_signature = ZERO_SIGNATURE, r_pubkey_fp = ZERO_PUBKEY_FP,
     r_signed_bytes = signed_payload 0 16 8 (Hlc 1 2 3) 3 0
       (to_le_bytes (5 :: u64) @ to_le_bytes (6 :: u16) @ [0, 0] @ to_le_bytes (7 :: u32))\<rparr>"

section \<open>Lemmas: payloads\<close>

lemma u32_roundtrip_small:
  assumes "\<not> value > (0xFFFFFFFF :: u64)"
  shows "ucast (ucast value :: u32) = value"
proof -
  have "unat value < 2 ^ 32"
    using assms by (simp add: word_less_nat_alt)
  then show ?thesis
    by (simp add: word_unat_eq_iff unsigned_ucast_eq unsigned_take_bit_eq take_bit_nat_eq_self)
qed

lemma unat_len_u16 [codec_simps]: "n < 65536 \<Longrightarrow> unat (word_of_nat n :: u16) = n"
  by (simp add: unat_of_nat)

lemma unat_len_u32 [codec_simps]: "n < 4294967296 \<Longrightarrow> unat (word_of_nat n :: u32) = n"
  by (simp add: unat_of_nat)

lemma write_payload_length:
  "write_payload w = Some p \<Longrightarrow> length p = payload_size w"
  by (cases w) (auto split: if_splits)

lemma write_payload_some: "op_ok w \<Longrightarrow> \<exists>p. write_payload w = Some p"
  by (cases w) auto

lemma decode_write:
  assumes "op_ok w" and "write_payload w = Some p"
  shows "decode_op (op_byte w) p = Some w"
  using assms
  by (cases w)
    (auto simp: decode_op_def string_from_utf8_def buf_simps codec_simps u32_roundtrip_small
      nth_append Let_def split: if_splits)

section \<open>Lemmas: checksums\<close>

lemma crc_field_step_inj_state: "crc_field_step h c = crc_field_step h' c \<longleftrightarrow> h = h'"
  by (simp add: crc_field_step_def fnv_mult_inj xor_right_cancel)

lemma from_le_inj_u32:
  assumes "length a = 4" "length b = 4" "from_le_bytes a = (from_le_bytes b :: u32)"
  shows "a = b"
proof -
  have "to_le_bytes (from_le_bytes a :: u32) = a" "to_le_bytes (from_le_bytes b :: u32) = b"
    using assms(1,2) by (simp_all add: to_le_from_le)
  then show ?thesis using assms(3) by metis
qed

lemma crc_field_step_inj_chunk:
  assumes "length c = length c'" "length c \<le> 4"
  shows "crc_field_step h c = crc_field_step h c' \<longleftrightarrow> c = c'"
  using assms from_le_inj_u32[of "c @ replicate (4 - length c) 0" "c' @ replicate (4 - length c) 0"]
  by (auto simp: crc_field_step_def fnv_mult_inj xor_left_cancel)

lemma chunks4_nonempty: "xs \<noteq> [] \<Longrightarrow> chunks4 xs = take 4 xs # chunks4 (drop 4 xs)"
  by (cases xs) simp_all

lemma crc_fold_detects:
  "i < length fs \<Longrightarrow> b \<noteq> fs ! i \<Longrightarrow>
   foldl crc_field_step h (chunks4 (fs[i := b])) \<noteq> foldl crc_field_step h (chunks4 fs)"
proof (induction fs arbitrary: i h rule: chunks4.induct)
  case (2 x xs)
  let ?fs = "x # xs"
  have unfold: "chunks4 (?fs[i := b]) = take 4 (?fs[i := b]) # chunks4 (drop 4 (?fs[i := b]))"
    by (intro chunks4_nonempty) (cases i; simp)
  show ?case
  proof (cases "i < 4")
    case True
    have "take 4 (?fs[i := b]) ! i \<noteq> take 4 ?fs ! i"
      using True "2.prems" by (simp del: take_Cons_numeral list_update.simps)
    then have "take 4 (?fs[i := b]) \<noteq> take 4 ?fs" by metis
    moreover have "length (take 4 (?fs[i := b])) = length (take 4 ?fs)"
      "length (take 4 (?fs[i := b])) \<le> 4"
      by (simp_all del: take_Cons_numeral list_update.simps)
    ultimately have "crc_field_step h (take 4 (?fs[i := b])) \<noteq> crc_field_step h (take 4 ?fs)"
      using crc_field_step_inj_chunk by blast
    moreover have "drop 4 (?fs[i := b]) = drop 4 ?fs"
      using True by (simp add: drop_update_cancel del: drop_Cons_numeral list_update.simps)
    ultimately show ?thesis
      using unfold foldl_inj_state[of crc_field_step, OF crc_field_step_inj_state]
      by (simp del: take_Cons_numeral drop_Cons_numeral list_update.simps)
  next
    case False
    have "take 4 (?fs[i := b]) = take 4 ?fs"
      using False by (simp del: take_Cons_numeral list_update.simps)
    moreover have "drop 4 (?fs[i := b]) = (drop 4 ?fs)[i - 4 := b]"
      using False by (simp add: drop_update_swap del: drop_Cons_numeral list_update.simps)
    moreover have "foldl crc_field_step h' (chunks4 ((drop 4 ?fs)[i - 4 := b])) \<noteq>
        foldl crc_field_step h' (chunks4 (drop 4 ?fs))" for h'
      using "2.IH"[of "i - 4" h'] "2.prems" False by (simp del: drop_Cons_numeral)
    ultimately show ?thesis
      using unfold by (simp del: take_Cons_numeral drop_Cons_numeral list_update.simps)
  qed
qed simp

lemma fnv1a_detects: "i < length p \<Longrightarrow> b \<noteq> p ! i \<Longrightarrow> fnv1a (p[i := b]) \<noteq> fnv1a p"
proof -
  assume i: "i < length p" and b: "b \<noteq> p ! i"
  let ?h = "foldl fnv_step 0x811c9dc5 (take i p)"
  have "fnv1a (p[i := b]) = foldl fnv_step (fnv_step ?h b) (drop (Suc i) p)"
    using list_update_split[OF i, of b] by (simp add: fnv1a_def)
  moreover have "fnv1a p = foldl fnv_step (fnv_step ?h (p ! i)) (drop (Suc i) p)"
    unfolding fnv1a_def by (subst list_update_split[OF i, THEN conjunct1]) simp
  ultimately show ?thesis
    using b by (simp add: foldl_inj_state[of fnv_step, OF fnv_step_inj_state] fnv_step_inj_byte)
qed

lemma record_crc_payload_inj:
  "record_crc v fs p = record_crc v fs p' \<longleftrightarrow> fnv1a p = fnv1a p'"
  by (simp add: record_crc_def Let_def
      foldl_inj_state[of crc_field_step, OF crc_field_step_inj_state])

section \<open>Lemmas: signed bytes\<close>

lemma length_magic [simp]: "length REC_MAGIC = 2"
  by (simp add: REC_MAGIC_def)

lemma length_signed_payload:
  "length (signed_payload opb len lsn hlc author crc p) = SIGNED_PAYLOAD_HEADER_SIZE + length p"
  by (simp add: signed_payload_def)

lemma length_crc_fields [simp]: "length (crc_fields opb len lsn hlc author) = 33"
  by (simp add: crc_fields_def)

lemma signed_payload_parts:
  "signed_payload opb len lsn hlc author crc p =
     REC_MAGIC @ [REC_VERSION] @ crc_fields opb len lsn hlc author @ to_le_bytes crc @ p"
  by (simp add: signed_payload_def crc_fields_def)

lemma signed_payload_fields:
  "signed_payload opb len lsn hlc author crc p ! 2 = REC_VERSION"
  "slice 3 36 (signed_payload opb len lsn hlc author crc p) = crc_fields opb len lsn hlc author"
  "drop 40 (signed_payload opb len lsn hlc author crc p) = p"
  "slice 36 40 (signed_payload opb len lsn hlc author crc p) = to_le_bytes crc"
  by (simp_all add: signed_payload_parts buf_simps nth_append)

lemma decode_signed_payload:
  assumes "decode_op opb p = Some w" and "length p < 2 ^ 32"
  shows "decode_signed (signed_payload opb (word_of_nat (length p)) lsn hlc author crc p) =
    Some (lsn, hlc, author, w)"
  using assms
  by (simp add: decode_signed_def signed_payload_def known_version_def buf_simps codec_simps
      nth_append Let_def)

lemma decode_signedE:
  assumes "decode_signed sb = Some (lsn, hlc, author, w)"
  obtains len where "len = unat (from_le_bytes (slice 4 8 sb) :: u32)"
    "40 + len \<le> length sb" "decode_op (sb ! 3) (slice 40 (40 + len) sb) = Some w"
    "slice 0 2 sb = REC_MAGIC" "known_version (sb ! 2)"
    "lsn = from_le_bytes (slice 8 16 sb)" "hlc = Hlc (from_le_bytes (slice 16 24 sb))
       (from_le_bytes (slice 24 28 sb)) (from_le_bytes (slice 28 32 sb))"
    "author = from_le_bytes (slice 32 36 sb)"
  using assms by (auto simp: decode_signed_def Let_def split: if_splits option.splits)

lemma decode_signedI:
  assumes "len = unat (from_le_bytes (slice 4 8 sb) :: u32)"
    "40 + len \<le> length sb" "decode_op (sb ! 3) (slice 40 (40 + len) sb) = Some w"
    "slice 0 2 sb = REC_MAGIC" "known_version (sb ! 2)"
  shows "decode_signed sb = Some (from_le_bytes (slice 8 16 sb),
    Hlc (from_le_bytes (slice 16 24 sb)) (from_le_bytes (slice 24 28 sb))
      (from_le_bytes (slice 28 32 sb)), from_le_bytes (slice 32 36 sb), w)"
  using assms by (simp add: decode_signed_def Let_def)

lemma decode_op_carries_long: "decode_op opb p = Some w \<Longrightarrow> op_carries_eid w \<Longrightarrow> 8 \<le> length p"
  by (auto simp: decode_op_def Let_def split: if_splits option.splits)

lemma decode_op_carries_tag:
  "decode_op opb p = Some w \<Longrightarrow> op_carries_eid w \<Longrightarrow> opb \<noteq> 4 \<and> opb \<noteq> 6 \<and> opb \<noteq> 0x81"
  by (rule ccontr) (auto simp: decode_op_def Let_def split: if_splits)

lemma decode_op_patch:
  assumes "decode_op opb p = Some w" and "op_carries_eid w"
  shows "decode_op opb (put_at 0 (to_le_bytes e) p) = Some (op_with_eid e w)"
proof -
  have len: "8 \<le> length p"
    using decode_op_carries_long assms by blast
  have patched: "length (put_at 0 (to_le_bytes e) p) = length p"
    "slice 0 8 (put_at 0 (to_le_bytes e) p) = to_le_bytes e"
    using len by (simp_all add: length_put_at slice_put_same')
  have kept: "8 \<le> a \<Longrightarrow> slice a b (put_at 0 (to_le_bytes e) p) = slice a b p"
    "8 \<le> i \<Longrightarrow> put_at 0 (to_le_bytes e) p ! i = p ! i" for a b i
    using len by (simp_all add: slice_put_after) (simp add: put_at_def nth_append)
  have "decode_op opb (put_at 0 (to_le_bytes e) p) = map_option (op_with_eid e) (decode_op opb p)"
    using decode_op_carries_tag[OF assms]
    by (simp add: decode_op_def Let_def patched kept if_distrib[of "map_option (op_with_eid e)"]
        option.case_distrib[of "map_option (op_with_eid e)"] cong: if_cong option.case_cong)
  then show ?thesis
    using assms(1) by simp
qed

lemma recrc_keeps:
  assumes "40 \<le> length sb"
  shows "length (recrc sb) = length sb" "b \<le> 36 \<Longrightarrow> slice a b (recrc sb) = slice a b sb"
    "40 \<le> a \<Longrightarrow> slice a b (recrc sb) = slice a b sb" "i < 36 \<Longrightarrow> recrc sb ! i = sb ! i"
    "drop 40 (recrc sb) = drop 40 sb"
  using assms
  by (simp_all add: recrc_def length_put_at slice_put_before slice_put_after nth_put_at_before
      drop_put_at)

lemma recrc_crc:
  assumes "40 \<le> length sb"
  shows "slice 36 40 (recrc sb) = to_le_bytes (signed_bytes_crc (recrc sb))"
proof -
  have "signed_bytes_crc (recrc sb) = signed_bytes_crc sb"
    unfolding signed_bytes_crc_def using recrc_keeps[OF assms] by simp
  then show ?thesis
    using assms by (simp add: recrc_def slice_put_same')
qed

lemma sync_ops_payload_parts:
  assumes "length sig = 64" "length fp = 8"
  shows "drop 72 (sig @ fp @ sb) = sb" "slice 0 64 (sig @ fp @ sb) = sig"
    "slice 64 72 (sig @ fp @ sb) = fp"
  using assms by (simp_all add: buf_simps)

section \<open>Properties\<close>

text \<open>
  C18. Every operation whose names, keys and contents fit the length fields of its layout
  survives the trip through its payload: it is written without a panic into exactly
  \<^verbatim>\<open>payload_size\<close> bytes, and \<^verbatim>\<open>decode_op\<close> reads the same operation back from them, 32-bit and
  64-bit value layouts alike. The size condition cannot be dropped: the encoder also accepts a
  content operation with a key of 65536 bytes, whose two length bytes then say 0, and writes a
  payload that decodes to something else (\<^verbatim>\<open>content_long_key_truncated\<close>).
\<close>

theorem payload_roundtrip:
  assumes "op_ok w"
  shows "\<exists>p. write_payload w = Some p \<and> length p = payload_size w \<and>
    decode_op (op_byte w) p = Some w"
proof -
  obtain p where p: "write_payload w = Some p"
    using write_payload_some[OF assms] by blast
  then show ?thesis
    using write_payload_length[OF p] decode_write[OF assms p] by simp
qed

theorem payload_roundtrip_witness:
  "\<exists>p. write_payload (TieNamed 7 [0x61, 0xC3, 0xA9] 4 0x1FFFFFFFF) = Some p \<and> length p = 23 \<and>
    decode_op 11 p = Some (TieNamed 7 [0x61, 0xC3, 0xA9] 4 0x1FFFFFFFF)"
  using payload_roundtrip[of "TieNamed 7 [0x61, 0xC3, 0xA9] 4 0x1FFFFFFFF"]
  by (simp add: utf8_cont_def)

text \<open>
  C19. The checksum of a version 3 record sees every single changed byte of the header fields
  it covers, whatever the payload, an empty one included; the checksum of a record of either
  version sees every single changed byte of the payload, whatever the header fields.
\<close>

theorem record_crc_detects:
  "(\<forall>i b. i < length fs \<and> b \<noteq> fs ! i \<longrightarrow> record_crc 3 (fs[i := b]) pl \<noteq> record_crc 3 fs pl) \<and>
   (\<forall>j c. j < length pl \<and> c \<noteq> pl ! j \<longrightarrow> record_crc v fs (pl[j := c]) \<noteq> record_crc v fs pl)"
proof -
  have "record_crc 3 (fs[i := b]) pl \<noteq> record_crc 3 fs pl" if q: "i < length fs" "b \<noteq> fs ! i" for i b
    using crc_fold_detects[OF q, of "fnv1a pl"] by (simp add: record_crc_def Let_def)
  moreover have "record_crc v fs (pl[j := c]) \<noteq> record_crc v fs pl" if q: "j < length pl" "c \<noteq> pl ! j" for j c
    using fnv1a_detects[OF q] by (simp add: record_crc_payload_inj)
  ultimately show ?thesis
    by blast
qed

theorem record_crc_detects_witness:
  "record_crc 3 [1, 2, 3, 4, 9] [] \<noteq> record_crc 3 [1, 2, 3, 4, 5] [] \<and>
   record_crc 2 [1, 2, 3, 4, 5] [8] \<noteq> record_crc 2 [1, 2, 3, 4, 5] [7] \<and>
   record_crc 3 [1, 2, 3, 4, 5] [8] \<noteq> record_crc 3 [1, 2, 3, 4, 5] [7]"
  using conjunct1[OF record_crc_detects[of "[1, 2, 3, 4, 5]" "[]" 3], rule_format, of 4 9]
    conjunct2[OF record_crc_detects[of "[1, 2, 3, 4, 5]" "[7]" 2], rule_format, of 0 8]
    conjunct2[OF record_crc_detects[of "[1, 2, 3, 4, 5]" "[7]" 3], rule_format, of 0 8]
  by simp

text \<open>
  The bytes a record signs decode to the record: \<^verbatim>\<open>decode_signed\<close> returns the same log
  sequence number, clock, author and operation, and the checksum stored in them is the one
  recomputed from them.
\<close>

theorem signed_payload_roundtrip:
  assumes "op_ok w" and "write_payload w = Some p" and "payload_size w < 2 ^ 32"
    and "sb = signed_payload (op_byte w) (word_of_nat (length p)) lsn hlc author
      (new_record_crc (op_byte w) (word_of_nat (length p)) lsn hlc author p) p"
  shows "decode_signed sb = Some (lsn, hlc, author, w) \<and>
    from_le_bytes (slice 36 40 sb) = signed_bytes_crc sb"
proof
  have "length p < 2 ^ 32"
    using assms(3) write_payload_length[OF assms(2)] by simp
  then show "decode_signed sb = Some (lsn, hlc, author, w)"
    unfolding assms(4) by (intro decode_signed_payload decode_write assms(1,2))
  show "from_le_bytes (slice 36 40 sb) = signed_bytes_crc sb"
    unfolding assms(4) signed_bytes_crc_def signed_payload_fields new_record_crc_def by simp
qed

theorem signed_payload_roundtrip_witness:
  "decode_signed (signed_payload 2 8 41 (Hlc 5 6 7) 9
     (new_record_crc 2 8 41 (Hlc 5 6 7) 9 (to_le_bytes (77 :: u64))) (to_le_bytes (77 :: u64))) =
   Some (41, Hlc 5 6 7, 9, Delete 77)"
  using signed_payload_roundtrip[of "Delete 77" "to_le_bytes (77 :: u64)" _ 41 "Hlc 5 6 7" 9]
  by simp

text \<open>
  Rewriting the entity of a record for its owner (\<^verbatim>\<open>resign_with_eid\<close>) always succeeds on
  a record that decodes and names an entity; the rewritten bytes decode to the same sequence
  number, clock and author with only the entity replaced, carry a matching checksum, and are
  the bytes that were signed.
\<close>

theorem resign_with_eid_changes_only_eid:
  assumes "decode_signed (r_signed_bytes rec) = Some (lsn, hlc, author, w)"
    and "r_op rec = w" and "op_carries_eid w"
  shows "\<exists>r. resign_with_eid rec e kp = Some r \<and>
    decode_signed (rs_signed_bytes r) = Some (lsn, hlc, author, op_with_eid e w) \<and>
    slice 36 40 (rs_signed_bytes r) = to_le_bytes (signed_bytes_crc (rs_signed_bytes r)) \<and>
    (rs_signature r, rs_pubkey_fp r) = sign_or_zero kp (rs_signed_bytes r)"
proof -
  let ?sb = "r_signed_bytes rec"
  let ?sb1 = "put_at 40 (to_le_bytes e) ?sb"
  from assms(1) obtain len where dec: "len = unat (from_le_bytes (slice 4 8 ?sb) :: u32)"
    "40 + len \<le> length ?sb" "decode_op (?sb ! 3) (slice 40 (40 + len) ?sb) = Some w"
    "slice 0 2 ?sb = REC_MAGIC" "known_version (?sb ! 2)"
    "lsn = from_le_bytes (slice 8 16 ?sb)" "hlc = Hlc (from_le_bytes (slice 16 24 ?sb))
       (from_le_bytes (slice 24 28 ?sb)) (from_le_bytes (slice 28 32 ?sb))"
    "author = from_le_bytes (slice 32 36 ?sb)"
    by (rule decode_signedE)
  have len8: "8 \<le> len"
    using decode_op_carries_long[OF dec(3) assms(3)] dec(2) by (simp add: length_slice)
  have len1: "length ?sb1 = length ?sb"
    using len8 dec(2) by (simp add: length_put_at)
  have head: "slice a b (recrc ?sb1) = slice a b ?sb" if "b \<le> 36" for a b
    using that len8 dec(2) len1 by (simp add: recrc_keeps(2) slice_put_before)
  have nth: "recrc ?sb1 ! i = ?sb ! i" if "i < 36" for i
    using that len8 dec(2) len1 by (simp add: recrc_keeps(4) nth_put_at_before)
  have "slice 40 (40 + len) (recrc ?sb1) = slice 40 (40 + len) ?sb1"
    using len8 dec(2) len1 by (simp add: recrc_keeps(3))
  also have "\<dots> = put_at 0 (to_le_bytes e) (slice 40 (40 + len) ?sb)"
    using len8 dec(2) by (simp add: slice_put_inside)
  finally have op1: "decode_op (recrc ?sb1 ! 3) (slice 40 (40 + len) (recrc ?sb1)) =
      Some (op_with_eid e w)"
    using decode_op_patch[OF dec(3) assms(3)] by (simp add: nth)
  have "decode_signed (recrc ?sb1) = Some (lsn, hlc, author, op_with_eid e w)"
    using decode_signedI[OF _ _ op1] dec len1 len8 by (simp add: head nth recrc_keeps(1))
  moreover have "slice 36 40 (recrc ?sb1) = to_le_bytes (signed_bytes_crc (recrc ?sb1))"
    using len1 len8 dec(2) by (intro recrc_crc) simp
  moreover have "\<exists>r. resign_with_eid rec e kp = Some r \<and> rs_signed_bytes r = recrc ?sb1 \<and>
      (rs_signature r, rs_pubkey_fp r) = sign_or_zero kp (recrc ?sb1)"
    using assms(2,3) len8 dec(1,2) by (simp add: resign_with_eid_def Let_def split: prod.splits)
  ultimately show ?thesis by metis
qed

lemma sample_delete_decodes:
  "decode_signed (r_signed_bytes sample_delete) = Some (41, Hlc 5 6 7, 9, Delete 77)"
  using decode_signed_payload[OF decode_write[of "Delete 77" "to_le_bytes (77 :: u64)"], of 41
      "Hlc 5 6 7" 9 0]
  by (simp add: sample_delete_def)

theorem resign_with_eid_changes_only_eid_witness:
  "\<exists>r. resign_with_eid sample_delete 500 None = Some r \<and>
    decode_signed (rs_signed_bytes r) = Some (41, Hlc 5 6 7, 9, Delete 500) \<and>
    slice 36 40 (rs_signed_bytes r) = to_le_bytes (signed_bytes_crc (rs_signed_bytes r)) \<and>
    (rs_signature r, rs_pubkey_fp r) = (ZERO_SIGNATURE, ZERO_PUBKEY_FP)"
  using resign_with_eid_changes_only_eid[OF sample_delete_decodes, of 500 None]
  by (simp add: sample_delete_def sign_or_zero_def)

text \<open>
  Turning a \<^verbatim>\<open>Tie\<close> into a \<^verbatim>\<open>TieRef\<close> (\<^verbatim>\<open>resign_as_tie_ref\<close>) keeps the sequence number,
  the clock, the author and the himo, carries the given row and target, has a matching
  checksum, and signs the bytes it returns; every other operation is refused.
\<close>

theorem resign_as_tie_ref_keeps_identity:
  assumes "decode_signed (r_signed_bytes rec) = Some (lsn, hlc, author, r_op rec)"
  shows "case r_op rec of
      Tie e h v \<Rightarrow> (\<exists>r. resign_as_tie_ref rec new_eid target kp = Some r \<and>
        decode_signed (rs_signed_bytes r) = Some (lsn, hlc, author, TieRef new_eid h target) \<and>
        slice 36 40 (rs_signed_bytes r) = to_le_bytes (signed_bytes_crc (rs_signed_bytes r)) \<and>
        (rs_signature r, rs_pubkey_fp r) = sign_or_zero kp (rs_signed_bytes r))
    | _ \<Rightarrow> resign_as_tie_ref rec new_eid target kp = None"
proof (cases "r_op rec")
  case (Tie e h v)
  let ?old = "r_signed_bytes rec"
  let ?hd = "put_at 4 (to_le_bytes (20 :: u32)) ((take 40 ?old)[3 := 9])"
  let ?pl = "to_le_bytes new_eid @ to_le_bytes h @ 0 # 0 # to_le_bytes target"
  from assms obtain len where dec: "40 + len \<le> length ?old"
    "slice 0 2 ?old = REC_MAGIC" "known_version (?old ! 2)"
    "lsn = from_le_bytes (slice 8 16 ?old)" "hlc = Hlc (from_le_bytes (slice 16 24 ?old))
       (from_le_bytes (slice 24 28 ?old)) (from_le_bytes (slice 28 32 ?old))"
    "author = from_le_bytes (slice 32 36 ?old)"
    by (rule decode_signedE) blast
  have lens: "length ?hd = 40" "length (?hd @ ?pl) = 60"
    using dec(1) by (simp_all add: length_put_at)
  have hd_keep: "slice a b ?hd = slice a b ?old" if "8 \<le> a" "b \<le> 40" for a b
  proof -
    have "slice a b ?hd = slice a b ((take 40 ?old)[3 := 9])"
      using that dec(1) by (intro slice_put_after) simp_all
    also have "\<dots> = slice a b ?old"
      using that by (simp add: slice_def drop_update_cancel drop_take min_def)
    finally show ?thesis .
  qed
  have hd_ids: "slice 0 2 ?hd = slice 0 2 ?old" "?hd ! 2 = ?old ! 2" "?hd ! 3 = 9"
    "slice 4 8 ?hd = to_le_bytes (20 :: u32)"
  proof -
    have "slice 0 2 ?hd = slice 0 2 ((take 40 ?old)[3 := 9])"
      using dec(1) by (intro slice_put_before) simp_all
    then show "slice 0 2 ?hd = slice 0 2 ?old"
      by (simp add: slice_def)
  qed (use dec(1) in \<open>simp_all add: nth_put_at_before slice_put_same'\<close>)
  let ?sb = "recrc (?hd @ ?pl)"
  have keep: "slice a b ?sb = slice a b ?hd" if "b \<le> 36" for a b
    using that lens by (simp add: recrc_keeps(2) slice_append_here)
  have nth: "?sb ! i = ?hd ! i" if "i < 36" for i
    using that lens by (simp add: recrc_keeps(4) nth_append)
  have "slice 40 60 ?sb = ?pl"
    using lens by (simp add: recrc_keeps(3) slice_append_skip slice_all)
  then have op1: "decode_op (?sb ! 3) (slice 40 (40 + 20) ?sb) = Some (TieRef new_eid h target)"
    using decode_write[of "TieRef new_eid h target" ?pl] by (simp add: nth hd_ids)
  have "decode_signed ?sb = Some (lsn, hlc, author, TieRef new_eid h target)"
    using decode_signedI[OF _ _ op1] dec lens
    by (simp add: keep nth hd_ids hd_keep recrc_keeps(1))
  moreover have "slice 36 40 ?sb = to_le_bytes (signed_bytes_crc ?sb)"
    using lens by (intro recrc_crc) simp
  moreover have "\<exists>r. resign_as_tie_ref rec new_eid target kp = Some r \<and> rs_signed_bytes r = ?sb \<and>
      (rs_signature r, rs_pubkey_fp r) = sign_or_zero kp ?sb"
    using Tie dec(1) by (simp add: resign_as_tie_ref_def Let_def split: prod.splits)
  ultimately show ?thesis
    using Tie by (simp only: op.case) metis
qed (simp_all add: resign_as_tie_ref_def)

lemma sample_tie_decodes:
  "decode_signed (r_signed_bytes sample_tie) = Some (8, Hlc 1 2 3, 3, r_op sample_tie)"
  using decode_signed_payload[OF decode_write[of "Tie 5 6 7"], of _ 8 "Hlc 1 2 3" 3 0]
  by (simp add: sample_tie_def)

theorem resign_as_tie_ref_keeps_identity_witness:
  "\<exists>r. resign_as_tie_ref sample_tie 5 0x300000001 None = Some r \<and>
    decode_signed (rs_signed_bytes r) = Some (8, Hlc 1 2 3, 3, TieRef 5 6 0x300000001) \<and>
    slice 36 40 (rs_signed_bytes r) = to_le_bytes (signed_bytes_crc (rs_signed_bytes r)) \<and>
    (rs_signature r, rs_pubkey_fp r) = (ZERO_SIGNATURE, ZERO_PUBKEY_FP)"
  using resign_as_tie_ref_keeps_identity[OF sample_tie_decodes, of 5 "0x300000001" None]
  by (simp add: sample_tie_def sign_or_zero_def)

text \<open>
  A record stored in \<^verbatim>\<open>_sync_ops\<close> as signature, fingerprint and signed bytes is restored
  from its payload with all seven fields, and the short reader used for the version test
  returns the author and clock of the full one.
\<close>

theorem sync_ops_payload_roundtrip:
  assumes "length (r_signature rec) = 64" "length (r_pubkey_fp rec) = 8"
    and "decode_signed (r_signed_bytes rec) = Some (r_lsn rec, r_hlc rec, r_author_peer rec, r_op rec)"
  shows "decode_sync_ops_payload (r_signature rec @ r_pubkey_fp rec @ r_signed_bytes rec) = Some rec \<and>
    sync_ops_payload_author_hlc (r_signature rec @ r_pubkey_fp rec @ r_signed_bytes rec) =
      Some (r_author_peer rec, r_hlc rec)"
proof -
  note parts = sync_ops_payload_parts[OF assms(1,2), of "r_signed_bytes rec"]
  from assms(3) obtain len where dec: "40 + len \<le> length (r_signed_bytes rec)"
    "slice 0 2 (r_signed_bytes rec) = REC_MAGIC" "known_version (r_signed_bytes rec ! 2)"
    "r_hlc rec = Hlc (from_le_bytes (slice 16 24 (r_signed_bytes rec)))
       (from_le_bytes (slice 24 28 (r_signed_bytes rec)))
       (from_le_bytes (slice 28 32 (r_signed_bytes rec)))"
    "r_author_peer rec = from_le_bytes (slice 32 36 (r_signed_bytes rec))"
    by (rule decode_signedE) blast
  show ?thesis
    using assms dec parts
    by (simp add: decode_sync_ops_payload_def sync_ops_payload_author_hlc_def Let_def)
qed

theorem sync_ops_payload_roundtrip_witness:
  "decode_sync_ops_payload (ZERO_SIGNATURE @ ZERO_PUBKEY_FP @ r_signed_bytes sample_delete) =
     Some sample_delete"
  using sync_ops_payload_roundtrip[of sample_delete] sample_delete_decodes
  by (simp add: sample_delete_def ZERO_SIGNATURE_def ZERO_PUBKEY_FP_def)

text \<open>
  The key length of a Content is cut to 16 bits without an assertion: a key of exactly
  65536 bytes is written without an error and read back as the empty key, with the head of
  the key in place of the data.
\<close>

theorem content_long_key_truncated:
  assumes "length key = 2 ^ 16" and "length data < 2 ^ 32"
  shows "\<exists>p. write_payload (Content e key data) = Some p \<and>
    decode_op (op_byte (Content e key data)) p =
      Some (Content e [] (take (length data) (key @ data)))"
proof -
  have zero: "(word_of_nat (2 ^ 16) :: u16) = 0"
    by simp
  show ?thesis
    using assms
    by (simp add: zero[simplified] decode_op_def string_from_utf8_def buf_simps codec_simps Let_def)
       (simp add: slice_def)
qed

theorem content_long_key_truncated_witness:
  "\<exists>p. write_payload (Content 1 (replicate 65536 0x61) [9]) = Some p \<and>
    decode_op 3 p = Some (Content 1 [] [0x61])"
  using content_long_key_truncated[of "replicate 65536 0x61" "[9]" 1] by simp

end
