(* ===== verification/Oplog_Layout.thy ===== *)
theory Oplog_Layout
  imports Oplog_Codec
begin

text \<open>
  The file layout of the log (\<^verbatim>\<open>crates/enchudb-oplog/src/oplog.rs\<close>, the two halves of file
  version 4): positions that pair a lap with an offset, the cyclic order of laps, the half
  headers, the layout of a new file and the layout read from an existing one. The lemmas show
  that positions order as the log was written, that laps compare like a clock that never
  stands at zero, and that a file that was just created opens as what was created.
\<close>

section \<open>Positions and laps\<close>

abbreviation (input) HEADER_SIZE :: nat where "HEADER_SIZE \<equiv> 32"
abbreviation (input) HALF_ALIGN :: nat where "HALF_ALIGN \<equiv> 16384"
abbreviation (input) OPLOG_FILE_VERSION :: u32 where "OPLOG_FILE_VERSION \<equiv> 4"
abbreviation (input) OPLOG_FILE_VERSION_V3 :: u32 where "OPLOG_FILE_VERSION_V3 \<equiv> 3"
abbreviation (input) OPLOG_FILE_VERSION_V2 :: u32 where "OPLOG_FILE_VERSION_V2 \<equiv> 2"
abbreviation (input) LAP_SKIP_ON_OPEN :: u32 where "LAP_SKIP_ON_OPEN \<equiv> 16"
abbreviation (input) OFF_CAPACITY :: nat where "OFF_CAPACITY \<equiv> 24"
abbreviation (input) OFF_LAP :: nat where "OFF_LAP \<equiv> 28"

definition FILE_MAGIC :: bytes where
  "FILE_MAGIC = [0x45, 0x57, 0x41, 0x4C]"

definition LAP_SALT :: u32 where
  "LAP_SALT = 0xC3A55A3C"

definition wal_pos :: "u32 \<Rightarrow> nat \<Rightarrow> u64" where
  "wal_pos lap offset = push_bit 32 (ucast lap) OR word_of_nat offset"

definition wal_pos_lap :: "u64 \<Rightarrow> u32" where
  "wal_pos_lap pos = ucast (drop_bit 32 pos)"

definition wal_pos_offset :: "u64 \<Rightarrow> nat" where
  "wal_pos_offset pos = unat (pos AND 0xFFFFFFFF)"

definition lap_newer :: "u32 \<Rightarrow> u32 \<Rightarrow> bool" where
  "lap_newer a b \<longleftrightarrow> (if a = 0 then False else if b = 0 then True else sint (a - b) > 0)"

definition next_lap :: "u32 \<Rightarrow> u32" where
  "next_lap l = max (l + 1) 1"

definition lap_trailer :: "u32 \<Rightarrow> bytes" where
  "lap_trailer lap = to_le_bytes lap @ to_le_bytes (lap XOR LAP_SALT)"

section \<open>Half headers\<close>

text \<open>
  \<^verbatim>\<open>Half\<close>: the counters are 32- or 64-bit atomics in the code; offsets inside a half are
  below 4 GiB, so the model keeps them as natural numbers and cuts where the code casts.
\<close>

record half =
  h_base :: nat
  h_size :: nat
  h_head :: nat
  h_written :: nat
  h_checkpoint :: nat
  h_lap :: u32

definition half_new :: "nat \<Rightarrow> nat \<Rightarrow> nat \<Rightarrow> nat \<Rightarrow> u32 \<Rightarrow> half" where
  "half_new base sz head checkpoint lap =
     \<lparr>h_base = base mod 2 ^ 32, h_size = sz mod 2 ^ 32, h_head = head, h_written = head,
      h_checkpoint = checkpoint, h_lap = lap\<rparr>"

definition half_is_empty :: "half \<Rightarrow> bool" where
  "half_is_empty h \<longleftrightarrow> h_head h \<le> HEADER_SIZE"

definition half_header :: "u32 \<Rightarrow> nat \<Rightarrow> nat \<Rightarrow> nat \<Rightarrow> u32 \<Rightarrow> bytes" where
  "half_header version sz head checkpoint lap =
     FILE_MAGIC @ to_le_bytes version @ to_le_bytes (word_of_nat head :: u64) @
     to_le_bytes (word_of_nat checkpoint :: u64) @ to_le_bytes (word_of_nat sz :: u32) @
     to_le_bytes lap"

definition write_half_header ::
  "bytes \<Rightarrow> nat \<Rightarrow> u32 \<Rightarrow> nat \<Rightarrow> nat \<Rightarrow> nat \<Rightarrow> u32 \<Rightarrow> bytes" where
  "write_half_header m base version sz head checkpoint lap =
     put_at base (half_header version sz head checkpoint lap) m"

definition half_size_for :: "nat \<Rightarrow> nat option" where
  "half_size_for capacity =
     (let h = (capacity div 2) div HALF_ALIGN * HALF_ALIGN
      in if h \<ge> HALF_ALIGN \<and> capacity < 0xFFFFFFFF then Some h else None)"

section \<open>Layouts\<close>

record layout =
  l_halves :: "half list"
  l_active :: nat
  l_two :: bool
  l_next_lap :: u32
  l_trailer :: nat

definition fresh_layout :: "bytes \<Rightarrow> nat \<Rightarrow> bytes \<times> layout" where
  "fresh_layout m capacity = (case half_size_for capacity of
       Some h \<Rightarrow>
         (write_half_header (write_half_header m 0 OPLOG_FILE_VERSION h HEADER_SIZE HEADER_SIZE 1)
            h OPLOG_FILE_VERSION h HEADER_SIZE HEADER_SIZE 0,
          \<lparr>l_halves = [half_new 0 h HEADER_SIZE HEADER_SIZE 1, half_new h h HEADER_SIZE HEADER_SIZE 0],
           l_active = 0, l_two = True, l_next_lap = 2, l_trailer = LAP_TRAILER\<rparr>)
     | None \<Rightarrow>
         (write_half_header m 0 OPLOG_FILE_VERSION_V3 capacity HEADER_SIZE HEADER_SIZE 1,
          \<lparr>l_halves = [half_new 0 capacity HEADER_SIZE HEADER_SIZE 1,
             half_new 0 0 HEADER_SIZE HEADER_SIZE 0],
           l_active = 0, l_two = False, l_next_lap = 2, l_trailer = LAP_TRAILER\<rparr>))"

datatype wal_error =
    WalTooSmall | BadWalMagic | V2TooLarge | WalTruncated | HeadOutOfRange | CheckpointOutOfRange
  | HalfTooSmall | VersionUnsupported | CapacityTooLarge | WalFull | CommitFault | RecordTooLarge
  | RelayTooShort | RelayBadMagic | RelayBadVersion | RelayBadLen | RelayBadCrc | Panicked

definition r32 :: "bytes \<Rightarrow> nat \<Rightarrow> u32" where
  "r32 m off = from_le_bytes (slice off (off + 4) m)"

definition r64 :: "bytes \<Rightarrow> nat \<Rightarrow> u64" where
  "r64 m off = from_le_bytes (slice off (off + 8) m)"

definition in_range :: "nat \<Rightarrow> nat \<Rightarrow> bool" where
  "in_range v capacity \<longleftrightarrow> \<not> (v < HEADER_SIZE \<or> v > capacity)"

definition read_layout_single :: "bytes \<Rightarrow> bool \<Rightarrow> wal_error + (bytes \<times> layout)" where
  "read_layout_single m v3 =
     (let head = unat (r64 m 8); checkpoint = unat (r64 m 16);
          capacity = (if v3 then unat (r32 m OFF_CAPACITY) else unat (r64 m 24));
          lap = (if v3 then r32 m OFF_LAP else 0);
          trailer = (if v3 then LAP_TRAILER else 0)
      in if capacity \<ge> 0xFFFFFFFF then Inl V2TooLarge
         else if capacity > length m then Inl WalTruncated
         else if \<not> in_range head capacity then Inl HeadOutOfRange
         else if \<not> in_range checkpoint capacity then Inl CheckpointOutOfRange
         else Inr (m, \<lparr>l_halves = [half_new 0 capacity head checkpoint lap,
                 half_new 0 0 HEADER_SIZE HEADER_SIZE 0],
               l_active = 0, l_two = False, l_next_lap = max (lap + LAP_SKIP_ON_OPEN) 1,
               l_trailer = trailer\<rparr>))"

definition read_layout_two :: "bytes \<Rightarrow> wal_error + (bytes \<times> layout)" where
  "read_layout_two m =
     (let h = unat (r32 m OFF_CAPACITY)
      in if h < HALF_ALIGN then Inl HalfTooSmall
         else if 2 * h > length m then Inl WalTruncated
         else let a_head = unat (r64 m 8); a_cp = unat (r64 m 16); a_lap = r32 m OFF_LAP
         in if \<not> in_range a_head h then Inl HeadOutOfRange
         else if \<not> in_range a_cp h then Inl CheckpointOutOfRange
         else let b_ok = (slice h (h + 4) m = FILE_MAGIC \<and> r32 m (h + 4) = OPLOG_FILE_VERSION \<and>
                unat (r32 m (h + OFF_CAPACITY)) = h);
                bh = unat (r64 m (h + 8)); bc = unat (r64 m (h + 16))
         in if b_ok \<and> \<not> in_range bh h then Inl HeadOutOfRange
         else if b_ok \<and> \<not> in_range bc h then Inl CheckpointOutOfRange
         else let m1 = (if b_ok then m
                  else write_half_header m h OPLOG_FILE_VERSION h HEADER_SIZE HEADER_SIZE 0);
                b_head = (if b_ok then bh else HEADER_SIZE);
                b_cp = (if b_ok then bc else HEADER_SIZE);
                b_lap = (if b_ok then r32 m (h + OFF_LAP) else 0);
                active = (if a_head > HEADER_SIZE \<and> \<not> b_head > HEADER_SIZE then 0
                  else if \<not> a_head > HEADER_SIZE \<and> b_head > HEADER_SIZE then 1
                  else if lap_newer b_lap a_lap then 1 else 0);
                top = (if lap_newer b_lap a_lap then b_lap else a_lap)
         in Inr (m1, \<lparr>l_halves = [half_new 0 h a_head a_cp a_lap, half_new h h b_head b_cp b_lap],
               l_active = active, l_two = True, l_next_lap = max (top + LAP_SKIP_ON_OPEN) 1,
               l_trailer = LAP_TRAILER\<rparr>))"

definition read_layout :: "bytes \<Rightarrow> wal_error + (bytes \<times> layout)" where
  "read_layout m = (
     if length m < HEADER_SIZE then Inl WalTooSmall
     else if slice 0 4 m \<noteq> FILE_MAGIC then Inl BadWalMagic
     else let version = r32 m 4
          in if version = OPLOG_FILE_VERSION_V2 then read_layout_single m False
             else if version = OPLOG_FILE_VERSION_V3 then read_layout_single m True
             else if version = OPLOG_FILE_VERSION then read_layout_two m
             else Inl VersionUnsupported)"

text \<open>
  What a layout promises its user: both halves lie inside the file and do not overlap, every
  offset kept for a half lies between its header and its end, and the half that takes
  appends is one that exists.
\<close>

definition half_in_file :: "bytes \<Rightarrow> half \<Rightarrow> bool" where
  "half_in_file m h \<longleftrightarrow> h_size h > 0 \<longrightarrow>
     h_base h + h_size h \<le> length m \<and> in_range (h_head h) (h_size h) \<and>
     in_range (h_checkpoint h) (h_size h) \<and> h_written h = h_head h"

definition layout_ok :: "bytes \<Rightarrow> layout \<Rightarrow> bool" where
  "layout_ok m l \<longleftrightarrow>
     (\<exists>a b. l_halves l = [a, b] \<and> half_in_file m a \<and> half_in_file m b \<and> h_size a > 0 \<and>
        h_base a = 0 \<and>
        (if l_two l then h_base b = h_size a \<and> h_size b = h_size a \<and> l_active l < 2
         else h_size b = 0 \<and> l_active l = 0)) \<and>
     (l_trailer l = LAP_TRAILER \<or> \<not> l_two l \<and> l_trailer l = 0) \<and> l_next_lap l \<noteq> 0"

section \<open>Lemmas\<close>

lemma wal_pos_eid: "off < 2 ^ 32 \<Longrightarrow> wal_pos lap off = make_eid lap (word_of_nat off)"
proof -
  assume "off < 2 ^ 32"
  then have "ucast (word_of_nat off :: u32) = (word_of_nat off :: u64)"
    by (simp add: word_unat_eq_iff unsigned_ucast_eq unat_of_nat take_bit_nat_eq_self)
  then show ?thesis
    by (simp add: wal_pos_def make_eid_def)
qed

lemma wal_pos_lap_pos [simp]: "off < 2 ^ 32 \<Longrightarrow> wal_pos_lap (wal_pos lap off) = lap"
  using eid_split_join_bits(1)[of lap "word_of_nat off"]
  by (simp add: wal_pos_eid wal_pos_lap_def eid_peer_def)

lemma mask_u32_eid_local: "unat (pos AND (0xFFFFFFFF :: u64)) = unat (eid_local pos)"
proof -
  have "pos AND 0xFFFFFFFF = take_bit 32 pos"
    by (simp add: take_bit_eq_mask mask_eq_exp_minus_1)
  then show ?thesis
    by (simp add: eid_local_def unsigned_ucast_eq unsigned_take_bit_eq)
qed

lemma wal_pos_offset_pos [simp]: "off < 2 ^ 32 \<Longrightarrow> wal_pos_offset (wal_pos lap off) = off"
  using eid_split_join_bits(2)[of lap "word_of_nat off"]
  by (simp add: wal_pos_offset_def mask_u32_eid_local wal_pos_eid unat_of_nat)

lemma unat_make_eid: "unat (make_eid p l) = unat p * 2 ^ 32 + unat l"
proof -
  have disj: "(push_bit 32 (ucast p) :: u64) AND ucast l = 0"
    by (rule bit_word_eqI) (auto simp: bit_simps dest: bit_imp_le_length)
  then have "make_eid p l = push_bit 32 (ucast p) + (ucast l :: u64)"
    by (simp add: make_eid_def disjunctive_add_eq_or)
  moreover have "unat (push_bit 32 (ucast p) :: u64) = unat p * 2 ^ 32"
    using unat_bound[of p]
    by (simp add: push_bit_eq_mult unat_word_ariths unsigned_ucast_eq take_bit_nat_eq_self)
  moreover have "unat (ucast l :: u64) = unat l"
    using unat_bound[of l] by (simp add: unsigned_ucast_eq take_bit_nat_eq_self)
  moreover have "unat p * 2 ^ 32 + unat l < 2 ^ 64"
    using unat_bound[of p] unat_bound[of l] by simp
  ultimately show ?thesis
    by (simp add: unat_word_ariths)
qed

lemma unat_wal_pos: "off < 2 ^ 32 \<Longrightarrow> unat (wal_pos lap off) = unat lap * 2 ^ 32 + off"
  by (simp add: wal_pos_eid unat_make_eid unat_of_nat)

lemma max_17_1: "max (17 :: u32) 1 = 17"
  by (simp add: max_def word_le_nat_alt)

lemma max_1_nonzero_word: "w \<noteq> 0 \<Longrightarrow> max (w :: u32) 1 = w"
proof -
  assume "w \<noteq> 0"
  then have "0 < unat w" by (simp add: unat_gt_0)
  then have "1 \<le> w" by (simp add: word_le_nat_alt)
  then show ?thesis by (rule max.absorb1)
qed

lemma half_new_sizes:
  "b < 2 ^ 32 \<Longrightarrow> h_base (half_new b sz hp cp lap) = b"
  "sz < 2 ^ 32 \<Longrightarrow> h_size (half_new b sz hp cp lap) = sz"
  by (simp_all add: half_new_def)

lemma half_in_file_new:
  assumes "b + sz \<le> length m" "b < 2 ^ 32" "sz < 2 ^ 32" "in_range hp sz" "in_range cp sz"
  shows "half_in_file m (half_new b sz hp cp lap)"
  using assms by (simp add: half_in_file_def half_new_def)

lemma half_in_file_unused: "half_in_file m (half_new 0 0 hp cp lap)"
  by (simp add: half_in_file_def half_new_def)

lemma in_range_header: "32 \<le> c \<Longrightarrow> in_range 32 c"
  by (simp add: in_range_def)

lemma max_one_nonzero: "max (w :: u32) 1 \<noteq> 0"
  by (auto simp: max_def)

lemma length_file_magic [simp]: "length FILE_MAGIC = 4"
  by (simp add: FILE_MAGIC_def)

lemma length_half_header [simp]: "length (half_header v sz hp cp lap) = HEADER_SIZE"
  by (simp add: half_header_def)

lemma half_header_fields:
  "slice 0 4 (half_header v sz hp cp lap) = FILE_MAGIC"
  "slice 4 8 (half_header v sz hp cp lap) = to_le_bytes v"
  "slice 8 16 (half_header v sz hp cp lap) = to_le_bytes (word_of_nat hp :: u64)"
  "slice 16 24 (half_header v sz hp cp lap) = to_le_bytes (word_of_nat cp :: u64)"
  "slice 24 28 (half_header v sz hp cp lap) = to_le_bytes (word_of_nat sz :: u32)"
  "slice 28 32 (half_header v sz hp cp lap) = to_le_bytes lap"
  by (simp_all add: half_header_def buf_simps)

lemma slice_half_header:
  assumes "base + 32 \<le> length m" "b \<le> 32"
  shows "slice (base + a) (base + b) (write_half_header m base v sz hp cp lap) =
    slice a b (half_header v sz hp cp lap)"
proof -
  let ?w = "write_half_header m base v sz hp cp lap"
  have "slice base (base + 32) ?w = half_header v sz hp cp lap"
    unfolding write_half_header_def using assms(1) by (intro slice_put_same') simp_all
  then show ?thesis
    using assms(2) slice_slice[of b "base + 32" base a ?w] by simp
qed

lemma write_half_header_read:
  assumes "base + 32 \<le> length m"
  shows "slice base (base + 4) (write_half_header m base v sz hp cp lap) = FILE_MAGIC"
    "r32 (write_half_header m base v sz hp cp lap) (base + 4) = v"
    "r64 (write_half_header m base v sz hp cp lap) (base + 8) = word_of_nat hp"
    "r64 (write_half_header m base v sz hp cp lap) (base + 16) = word_of_nat cp"
    "r32 (write_half_header m base v sz hp cp lap) (base + 24) = word_of_nat sz"
    "r32 (write_half_header m base v sz hp cp lap) (base + 28) = lap"
  unfolding r32_def r64_def
  using slice_half_header[OF assms, of 4 0] slice_half_header[OF assms, of 8 4]
    slice_half_header[OF assms, of 16 8] slice_half_header[OF assms, of 24 16]
    slice_half_header[OF assms, of 28 24] slice_half_header[OF assms, of 32 28]
  by (simp_all add: half_header_fields add.assoc)

lemma write_half_header_keeps:
  assumes "base + 32 \<le> length m" "b \<le> base"
  shows "slice a b (write_half_header m base v sz hp cp lap) = slice a b m"
  unfolding write_half_header_def using assms by (intro slice_put_before) simp_all

lemma length_write_half_header:
  "base + 32 \<le> length m \<Longrightarrow> length (write_half_header m base v sz hp cp lap) = length m"
  by (simp add: write_half_header_def length_put_at)

lemma half_size_for_bounds:
  "half_size_for c = Some h \<Longrightarrow> 16384 \<le> h \<and> 2 * h \<le> c \<and> c < 0xFFFFFFFF"
  by (auto simp: half_size_for_def Let_def split: if_splits)

lemma read_layout_two_ok:
  assumes r: "read_layout_two m = Inr (m1, l)"
  shows "length m1 = length m \<and> layout_ok m1 l"
proof -
  let ?h = "unat (r32 m 24)"
  let ?B = "slice ?h (?h + 4) m = FILE_MAGIC \<and> r32 m (?h + 4) = 4 \<and> unat (r32 m (?h + 24)) = ?h"
  have h: "16384 \<le> ?h" "2 * ?h \<le> length m" "?h < 2 ^ 32"
    using r unat_bound[of "r32 m 24"]
    by (auto simp: read_layout_two_def Let_def split: if_splits)
  have a1: "in_range (unat (r64 m 8)) ?h"
    by (rule ccontr) (use r h in \<open>simp add: read_layout_two_def Let_def\<close>)
  have a: "in_range (unat (r64 m 8)) ?h" "in_range (unat (r64 m 16)) ?h"
    using a1 by simp (rule ccontr, use r h a1 in \<open>simp add: read_layout_two_def Let_def\<close>)
  obtain bh bc bl act nl where
    l: "l = \<lparr>l_halves = [half_new 0 ?h (unat (r64 m 8)) (unat (r64 m 16)) (r32 m 28),
          half_new ?h ?h bh bc bl], l_active = act, l_two = True, l_next_lap = max nl 1,
          l_trailer = 8\<rparr>"
    and rng: "in_range bh ?h" "in_range bc ?h" "act < 2"
    and len: "length m1 = length m"
  proof (cases ?B)
    case True
    have b1: "in_range (unat (r64 m (?h + 8))) ?h"
      by (rule ccontr) (use r h a True in \<open>simp add: read_layout_two_def Let_def\<close>)
    have b: "in_range (unat (r64 m (?h + 8))) ?h" "in_range (unat (r64 m (?h + 16))) ?h"
      using b1 by simp
        (rule ccontr, use r h a b1 True in \<open>simp add: read_layout_two_def Let_def\<close>)
    show ?thesis
      using r h a b True
      by (intro that[of "unat (r64 m (?h + 8))" "unat (r64 m (?h + 16))" "r32 m (?h + 28)"])
        (auto simp: read_layout_two_def Let_def)
  next
    case False
    show ?thesis
      using r h a False
      by (intro that[of 32 32]) (auto simp: read_layout_two_def Let_def in_range_header
          length_write_half_header)
  qed
  show ?thesis
    using h a rng len max_one_nonzero
    by (simp add: l layout_ok_def half_in_file_new half_new_sizes)
qed

lemma read_layout_fresh:
  assumes "length m = capacity" "32 \<le> capacity" "capacity < 0xFFFFFFFF"
  shows "read_layout (fst (fresh_layout m capacity)) =
    Inr (fst (fresh_layout m capacity), (snd (fresh_layout m capacity))\<lparr>l_next_lap := 17\<rparr>)"
proof (cases "half_size_for capacity")
  case None
  have small: "unat (word_of_nat capacity :: u32) = capacity"
    using assms by (simp add: unat_of_nat)
  show ?thesis
    using None assms small write_half_header_read[of 0 m 3 capacity 32 32 1]
    by (simp add: fresh_layout_def read_layout_def read_layout_single_def Let_def in_range_def
        length_write_half_header r32_def r64_def max_17_1)
next
  case (Some h)
  note b = half_size_for_bounds[OF Some]
  let ?m1 = "write_half_header m 0 4 h 32 32 1"
  let ?m2 = "write_half_header ?m1 h 4 h 32 32 0"
  have len: "length ?m1 = capacity" "length ?m2 = capacity"
    using b assms by (simp_all add: length_write_half_header)
  have small: "unat (word_of_nat h :: u32) = h"
    using b by (simp add: unat_of_nat)
  have first: "slice a c ?m2 = slice a c ?m1" if "c \<le> 32" for a c
    using that b assms by (intro write_half_header_keeps) (simp_all add: length_write_half_header)
  have readB: "slice h (h + 4) ?m2 = FILE_MAGIC" "r32 ?m2 (h + 4) = 4"
    "r64 ?m2 (h + 8) = 32" "r64 ?m2 (h + 16) = 32" "r32 ?m2 (h + 24) = word_of_nat h"
    "r32 ?m2 (h + 28) = 0"
    using write_half_header_read[of h ?m1 4 h 32 32 0] b assms len by simp_all
  have readA: "slice 0 4 ?m2 = FILE_MAGIC" "r32 ?m2 4 = 4" "r64 ?m2 8 = 32" "r64 ?m2 16 = 32"
    "r32 ?m2 24 = word_of_nat h" "r32 ?m2 28 = 1"
    using write_half_header_read[of 0 m 4 h 32 32 1] b assms
    by (simp_all add: r32_def r64_def first)
  have "read_layout ?m2 = read_layout_two ?m2"
    using assms len readA by (simp add: read_layout_def Let_def)
  also have "\<dots> = Inr (?m2, \<lparr>l_halves = [half_new 0 h 32 32 1, half_new h h 32 32 0],
      l_active = 0, l_two = True, l_next_lap = 17, l_trailer = 8\<rparr>)"
    using b assms small
    by (simp add: read_layout_two_def Let_def len readA readB in_range_def lap_newer_def max_17_1)
  finally show ?thesis
    using Some by (simp add: fresh_layout_def)
qed

section \<open>Properties\<close>

text \<open>
  Positions are the order of the log: a position gives its lap and its offset back, and
  positions compare by lap first and by offset inside a lap, for every offset a half can
  have (below 4 GiB).
\<close>

theorem wal_pos_order:
  assumes "o1 < 2 ^ 32" "o2 < 2 ^ 32"
  shows "wal_pos_lap (wal_pos l1 o1) = l1 \<and> wal_pos_offset (wal_pos l1 o1) = o1 \<and>
    (wal_pos l1 o1 < wal_pos l2 o2 \<longleftrightarrow> l1 < l2 \<or> l1 = l2 \<and> o1 < o2)"
proof -
  have "unat l1 * 2 ^ 32 + o1 < unat l2 * 2 ^ 32 + o2 \<longleftrightarrow>
      unat l1 < unat l2 \<or> unat l1 = unat l2 \<and> o1 < o2"
    using assms by (cases "unat l1" "unat l2" rule: linorder_cases) auto
  then show ?thesis
    using assms by (simp add: word_less_nat_alt unat_wal_pos word_unat_eq_iff)
qed

theorem wal_pos_order_witness:
  "wal_pos_lap (wal_pos 3 700) = 3 \<and> wal_pos_offset (wal_pos 3 700) = 700 \<and>
   wal_pos 3 700 < wal_pos 4 32"
  using wal_pos_order[of 700 32 3 4] by simp

text \<open>
  A half that starts a new lap is always newer than the lap before it, also where the
  32-bit lap number wraps: the next lap is never the reserved lap 0, is newer than the
  current one, and the current one is not newer than it.
\<close>

theorem next_lap_newer:
  "next_lap l \<noteq> 0 \<and> lap_newer (next_lap l) l \<and> \<not> lap_newer l (next_lap l)"
proof (cases "l = - 1")
  case True
  then show ?thesis
    by (simp add: next_lap_def lap_newer_def)
next
  case False
  then have l1: "l + 1 \<noteq> 0"
    by (metis add_diff_cancel_right' diff_0)
  then have "next_lap l = l + 1"
    by (simp add: next_lap_def max_1_nonzero_word)
  moreover have "l - (l + 1) = - 1"
    by simp
  ultimately show ?thesis
    using l1 by (simp add: lap_newer_def)
qed

text \<open>
  Opening a file that was just created gives the layout that was created, with lap
  numbering moved on by the safety margin, for every capacity that a log can have: two
  halves when the file is large enough, one half below that.
\<close>

theorem fresh_layout_opens:
  assumes "length m = capacity" "32 \<le> capacity" "capacity < 0xFFFFFFFF"
  shows "read_layout (fst (fresh_layout m capacity)) =
    Inr (fst (fresh_layout m capacity), (snd (fresh_layout m capacity))\<lparr>l_next_lap := 17\<rparr>)"
  using assms by (rule read_layout_fresh)

theorem fresh_layout_opens_witness:
  "read_layout (fst (fresh_layout (replicate 40000 0) 40000)) =
    Inr (fst (fresh_layout (replicate 40000 0) 40000),
      \<lparr>l_halves = [half_new 0 16384 32 32 1, half_new 16384 16384 32 32 0], l_active = 0,
       l_two = True, l_next_lap = 17, l_trailer = 8\<rparr>)"
  using fresh_layout_opens[of "replicate 40000 0" 40000]
  by (simp add: fresh_layout_def half_size_for_def)

text \<open>
  Whatever bytes a file holds, opening it either fails with one of the named errors or
  yields a layout in which both halves lie inside the file without overlapping and every
  kept offset is inside its half, so no later access is out of range.
\<close>

theorem read_layout_ok:
  assumes "read_layout m = Inr (m1, l)"
  shows "length m1 = length m \<and> layout_ok m1 l"
proof -
  have n1: "max (w :: u32) 1 \<noteq> 0" for w
    by (rule max_one_nonzero)
  have single: "length m1 = length m \<and> layout_ok m1 l" if "read_layout_single m v3 = Inr (m1, l)" for v3
    using that n1
    by (auto simp: read_layout_single_def Let_def layout_ok_def half_in_file_new half_in_file_unused
        half_new_sizes split: if_splits) (simp_all add: in_range_def)
  show ?thesis
    using assms single read_layout_two_ok by (auto simp: read_layout_def Let_def split: if_splits)
qed

theorem read_layout_ok_witness:
  "layout_ok (fst (fresh_layout (replicate 40000 0) 40000))
     ((snd (fresh_layout (replicate 40000 0) 40000))\<lparr>l_next_lap := 17\<rparr>)"
  using read_layout_ok[OF read_layout_fresh[of "replicate 40000 0" 40000]] by simp

end
