(* ===== verification/Oplog_Ring.thy ===== *)
theory Oplog_Ring
  imports Oplog_Layout
begin

text \<open>
  The two-half ring of the log (\<^verbatim>\<open>OpLog\<close> in \<^verbatim>\<open>crates/enchudb-oplog/src/oplog.rs\<close>):
  reserving space, switching halves, appending single records, batches and relayed records,
  folding a half, moving the checkpoint, and reading the log back. The mapped file is a byte
  list and every operation passes the whole log through. The code runs each of these
  operations under \<^verbatim>\<open>append_lock\<close> (and the file lock between processes), so each one is an
  atomic step here. The wall clock, the room waiter and the success of a disk flush are
  arguments.
\<close>

section \<open>State\<close>

record oplog =
  w_mmap :: bytes
  w_halves :: "half list"
  w_active :: nat
  w_two :: bool
  w_next_lap :: u32
  w_trailer :: nat
  w_next_lsn :: u64
  w_hlc :: hlc_state
  w_own_data :: u64
  w_peer :: peer_id
  w_keypair :: "keypair option"
  w_fail_commits :: nat
  w_commit_room :: nat
  w_dropped :: "(peer_id \<times> hlc) list"
  w_dropped_gen :: u64
  w_switches :: u64

definition assemble :: "bytes \<Rightarrow> layout \<Rightarrow> oplog" where
  "assemble m l = \<lparr>w_mmap = m, w_halves = l_halves l, w_active = l_active l, w_two = l_two l,
     w_next_lap = l_next_lap l, w_trailer = l_trailer l, w_next_lsn = 1, w_hlc = (0, 0),
     w_own_data = 0, w_peer = 0, w_keypair = None, w_fail_commits = 0,
     w_commit_room = REC_HEADER_SIZE + l_trailer l, w_dropped = [], w_dropped_gen = 0,
     w_switches = 0\<rparr>"

text \<open>
  A capacity below one header makes \<^verbatim>\<open>write_half_header\<close> index out of the map: a panic.
\<close>

definition wal_create :: "nat \<Rightarrow> wal_error + oplog" where
  "wal_create capacity = (
     if capacity \<ge> 0xFFFFFFFF then Inl CapacityTooLarge
     else if capacity < HEADER_SIZE then Inl Panicked
     else let (m, l) = fresh_layout (replicate capacity 0) capacity in Inr (assemble m l))"

definition wal_open :: "bytes \<Rightarrow> wal_error + oplog" where
  "wal_open m = (case read_layout m of Inl e \<Rightarrow> Inl e | Inr (m1, l) \<Rightarrow> Inr (assemble m1 l))"

definition get_half :: "oplog \<Rightarrow> nat \<Rightarrow> half" where
  "get_half w i = w_halves w ! i"

definition set_half :: "nat \<Rightarrow> half \<Rightarrow> oplog \<Rightarrow> oplog" where
  "set_half i h w = w\<lparr>w_halves := (w_halves w)[i := h]\<rparr>"

definition active_half :: "oplog \<Rightarrow> half" where
  "active_half w = get_half w (w_active w)"

definition other_half :: "oplog \<Rightarrow> half" where
  "other_half w = get_half w (1 - w_active w)"

definition wal_head :: "oplog \<Rightarrow> u64" where
  "wal_head w = wal_pos (h_lap (active_half w)) (h_head (active_half w))"

definition written_head :: "oplog \<Rightarrow> u64" where
  "written_head w = wal_pos (h_lap (active_half w)) (h_written (active_half w))"

definition wal_checkpoint :: "oplog \<Rightarrow> u64" where
  "wal_checkpoint w =
     (let a = active_half w; b = other_half w
      in if h_size b > 0 \<and> \<not> half_is_empty b \<and> h_checkpoint b < h_head b
         then wal_pos (h_lap b) (h_checkpoint b)
         else wal_pos (h_lap a) (h_checkpoint a))"

definition file_version :: "oplog \<Rightarrow> u32" where
  "file_version w = (if w_trailer w = 0 then OPLOG_FILE_VERSION_V2
     else if w_two w then OPLOG_FILE_VERSION else OPLOG_FILE_VERSION_V3)"

definition wal_is_empty :: "oplog \<Rightarrow> bool" where
  "wal_is_empty w \<longleftrightarrow> list_all (\<lambda>h. h_size h = 0 \<or> half_is_empty h) (w_halves w)"

definition record_size_of :: "oplog \<Rightarrow> nat \<Rightarrow> nat" where
  "record_size_of w payload = REC_HEADER_SIZE + payload + w_trailer w"

section \<open>Reserving space\<close>

definition alloc_head :: "oplog \<Rightarrow> half \<Rightarrow> nat" where
  "alloc_head w h = max (unat (r64 (w_mmap w) (h_base h + 8))) (h_head h)"

definition put_head :: "nat \<Rightarrow> nat \<Rightarrow> oplog \<Rightarrow> oplog" where
  "put_head i end w =
     (let h = get_half w i
      in set_half i (h\<lparr>h_written := end\<rparr>)
           (w\<lparr>w_mmap := put_at (h_base h + 8) (to_le_bytes (word_of_nat end :: u64)) (w_mmap w)\<rparr>))"

definition alloc_off :: "nat \<Rightarrow> nat \<Rightarrow> bool \<Rightarrow> oplog \<Rightarrow> (oplog \<times> nat) option" where
  "alloc_off i sz closes_group w =
     (let h = get_half w i; cur = alloc_head w h; new = cur + sz;
          need = (if closes_group then new else new + w_commit_room w)
      in if need > h_size h then None
         else Some (set_half i (h\<lparr>h_head := new\<rparr>) w, cur))"

definition larger_than_ring :: "oplog \<Rightarrow> nat \<Rightarrow> bool" where
  "larger_than_ring w sz \<longleftrightarrow> sz > h_size (get_half w 0) - HEADER_SIZE"

definition mint :: "u64 \<Rightarrow> oplog \<Rightarrow> hlc \<times> oplog" where
  "mint now w = (let (h, st) = next_hlc (w_peer w) now (w_hlc w) in (h, w\<lparr>w_hlc := st\<rparr>))"

definition take_next_lap :: "oplog \<Rightarrow> u32 \<times> oplog" where
  "take_next_lap w = (w_next_lap w, w\<lparr>w_next_lap := next_lap (w_next_lap w)\<rparr>)"

definition take_commit_fault :: "oplog \<Rightarrow> oplog \<times> bool" where
  "take_commit_fault w = (if w_fail_commits w = 0 then (w, False)
     else (w\<lparr>w_fail_commits := w_fail_commits w - 1\<rparr>, True))"

section \<open>Writing one record\<close>

definition rec_header ::
  "u8 \<Rightarrow> u32 \<Rightarrow> u64 \<Rightarrow> hlc \<Rightarrow> peer_id \<Rightarrow> u32 \<Rightarrow> bytes \<Rightarrow> bytes \<Rightarrow> bytes" where
  "rec_header opb len lsn hlc author crc sig fp =
     REC_MAGIC @ [REC_VERSION] @ [opb] @ to_le_bytes len @ to_le_bytes lsn @
     to_le_bytes (hlc_wall hlc) @ to_le_bytes (hlc_logical hlc) @ to_le_bytes (hlc_peer hlc) @
     to_le_bytes author @ to_le_bytes crc @ sig @ fp"

definition put_record :: "nat \<Rightarrow> bytes \<Rightarrow> bytes \<Rightarrow> nat \<Rightarrow> u32 \<Rightarrow> bytes \<Rightarrow> bytes" where
  "put_record at header payload trailer lap m =
     (let m1 = put_at (at + REC_HEADER_SIZE) payload m;
          m2 = put_at at header m1
      in if trailer \<noteq> 0 then put_at (at + REC_HEADER_SIZE + length payload) (lap_trailer lap) m2
         else m2)"

definition close_group_for_switch :: "u64 \<Rightarrow> nat \<Rightarrow> oplog \<Rightarrow> oplog" where
  "close_group_for_switch now i w =
     (let (w0, fault) = take_commit_fault w
      in if fault then w0
         else let sz = REC_HEADER_SIZE + w_trailer w0
         in case alloc_off i sz True w0 of None \<Rightarrow> w0
            | Some (w1, off) \<Rightarrow>
                let h = get_half w1 i; lsn = w_next_lsn w1;
                    (hlc, w2) = mint now (w1\<lparr>w_next_lsn := lsn + 1\<rparr>);
                    author = hlc_peer hlc;
                    crc = new_record_crc 4 0 lsn hlc author [];
                    (sig, fp) = sign_or_zero (w_keypair w2)
                      (signed_payload 4 0 lsn hlc author crc []);
                    m = put_record (h_base h + off) (rec_header 4 0 lsn hlc author crc sig fp) []
                      (w_trailer w2) (h_lap h) (w_mmap w2)
                in put_head i (off + sz) (w2\<lparr>w_mmap := m\<rparr>))"

definition switch_locked :: "u64 \<Rightarrow> oplog \<Rightarrow> oplog \<times> bool" where
  "switch_locked now w = (
     if \<not> w_two w then (w, False)
     else let ai = w_active w; oi = 1 - ai; b = get_half w oi
          in if \<not> half_is_empty b \<or> alloc_head w b > HEADER_SIZE then (w, False)
             else let w1 = close_group_for_switch now ai w;
                      a1 = get_half w1 ai; b1 = get_half w1 oi;
                      w2 = (if \<not> lap_newer (h_lap b1) (h_lap a1)
                            then let (lap, w') = take_next_lap w1
                                 in set_half oi (b1\<lparr>h_lap := lap\<rparr>)
                                      (w'\<lparr>w_mmap := put_at (h_base b1 + OFF_LAP) (to_le_bytes lap)
                                         (w_mmap w')\<rparr>)
                            else w1)
                  in (w2\<lparr>w_active := oi, w_switches := w_switches w2 + 1\<rparr>, True))"

definition alloc :: "u64 \<Rightarrow> nat \<Rightarrow> bool \<Rightarrow> oplog \<Rightarrow> oplog \<times> (nat \<times> nat) option" where
  "alloc now sz closes_group w = (case alloc_off (w_active w) sz closes_group w of
       Some (w1, off) \<Rightarrow> (w1, Some (w_active w, off))
     | None \<Rightarrow>
         let need = sz + (if closes_group then 0 else w_commit_room w)
         in if larger_than_ring w need then (w, None)
            else case switch_locked now w of
                (w1, False) \<Rightarrow> (w1, None)
              | (w1, True) \<Rightarrow> (case alloc_off (w_active w1) sz closes_group w1 of
                    Some (w2, off) \<Rightarrow> (w2, Some (w_active w1, off))
                  | None \<Rightarrow> (w1, None)))"

record relayed_header =
  rh_hlc :: hlc
  rh_author :: peer_id
  rh_signature :: bytes
  rh_pubkey_fp :: bytes

text \<open>
  The clock and author of a record: those of the relayed header, or a given or freshly
  minted clock of this peer; an own record other than a Commit is counted.
\<close>

definition append_clock ::
  "u64 \<Rightarrow> op \<Rightarrow> relayed_header option \<Rightarrow> hlc option \<Rightarrow> oplog \<Rightarrow> hlc \<times> peer_id \<times> oplog" where
  "append_clock now w_op relay hlc_override w = (case relay of
       Some r \<Rightarrow> (rh_hlc r, rh_author r, w)
     | None \<Rightarrow>
         let (hc, w') = (case hlc_override of Some hc \<Rightarrow> (hc, w) | None \<Rightarrow> mint now w)
         in (hc, hlc_peer hc,
             if w_op = Commit then w' else w'\<lparr>w_own_data := w_own_data w' + 1\<rparr>))"

definition append_signature ::
  "relayed_header option \<Rightarrow> keypair option \<Rightarrow> bytes \<Rightarrow> bytes \<times> bytes" where
  "append_signature relay kp msg = (case relay of
       Some r \<Rightarrow> (rh_signature r, rh_pubkey_fp r)
     | None \<Rightarrow> sign_or_zero kp msg)"

definition append_locked ::
  "u64 \<Rightarrow> op \<Rightarrow> bool \<Rightarrow> relayed_header option \<Rightarrow> hlc option \<Rightarrow> oplog \<Rightarrow>
   oplog \<times> (wal_error + (u64 \<times> hlc))" where
  "append_locked now w_op closes_group relay hlc_override w =
     (let psize = payload_size w_op; sz = REC_HEADER_SIZE + psize + w_trailer w
      in case alloc now sz closes_group w of
          (w1, None) \<Rightarrow> (w1, Inl WalFull)
        | (w1, Some (i, off)) \<Rightarrow>
            let h = get_half w1 i; lsn = w_next_lsn w1;
                (hlc, author, w3) =
                  append_clock now w_op relay hlc_override (w1\<lparr>w_next_lsn := lsn + 1\<rparr>)
            in case write_payload w_op of
                None \<Rightarrow> (w3, Inl Panicked)
              | Some payload \<Rightarrow>
                  let crc = new_record_crc (op_byte w_op) (word_of_nat psize) lsn hlc author payload;
                      (sig, fp) = append_signature relay (w_keypair w3)
                        (signed_payload (op_byte w_op) (word_of_nat psize) lsn hlc author crc payload);
                      m = put_record (h_base h + off)
                        (rec_header (op_byte w_op) (word_of_nat psize) lsn hlc author crc sig fp)
                        payload (w_trailer w3) (h_lap h) (w_mmap w3)
                  in (put_head i (off + sz) (w3\<lparr>w_mmap := m\<rparr>), Inr (lsn, hlc)))"

definition append_inner_raw ::
  "u64 \<Rightarrow> op \<Rightarrow> relayed_header option \<Rightarrow> hlc option \<Rightarrow> bool \<Rightarrow> oplog \<Rightarrow>
   oplog \<times> (wal_error + (u64 \<times> hlc))" where
  "append_inner_raw now w_op relay hlc_override closes_group w =
     (let (w0, fault) = (if w_op = Commit then take_commit_fault w else (w, False))
      in if fault then (w0, Inl CommitFault)
         else append_locked now w_op closes_group relay hlc_override w0)"

section \<open>Waiting for room and dropped records\<close>

definition free_bytes :: "oplog \<Rightarrow> nat" where
  "free_bytes w =
     (let a = active_half w; free = h_size a - alloc_head w a; b = other_half w
      in if w_two w \<and> half_is_empty b then free + (h_size b - HEADER_SIZE) else free)"

definition append_dead :: "oplog \<Rightarrow> bool" where
  "append_dead w \<longleftrightarrow>
     (let a = active_half w
      in alloc_head w a + record_size_of w 0 > h_size a \<and>
         \<not> (w_two w \<and> half_is_empty (other_half w)))"

definition wait_for_room ::
  "(nat \<Rightarrow> oplog \<Rightarrow> oplog \<times> bool) \<Rightarrow> wal_error \<Rightarrow> nat \<Rightarrow> oplog \<Rightarrow> oplog \<times> bool" where
  "wait_for_room waiter err sz w = (
     if err \<noteq> WalFull then (w, False)
     else if larger_than_ring w sz then (w, False)
     else if free_bytes w \<ge> sz then (w, True)
     else waiter sz w)"

fun retry_append ::
  "nat \<Rightarrow> (nat \<Rightarrow> oplog \<Rightarrow> oplog \<times> bool) \<Rightarrow> (oplog \<Rightarrow> oplog \<times> (wal_error + 'a)) \<Rightarrow> nat \<Rightarrow>
   oplog \<Rightarrow> (oplog \<times> (wal_error + 'a)) option" where
  "retry_append 0 waiter attempt sz w = None"
| "retry_append (Suc n) waiter attempt sz w = (case attempt w of
       (w1, Inr r) \<Rightarrow> Some (w1, Inr r)
     | (w1, Inl e) \<Rightarrow> (case wait_for_room waiter e sz w1 of
           (w2, True) \<Rightarrow> retry_append n waiter attempt sz w2
         | (w2, False) \<Rightarrow> Some (w2, Inl e)))"

fun note_max :: "peer_id \<Rightarrow> hlc \<Rightarrow> (peer_id \<times> hlc) list \<Rightarrow> (peer_id \<times> hlc) list" where
  "note_max a h [] = [(a, h)]"
| "note_max a h ((b, k) # rest) = (if b = a then (b, max k h) # rest else (b, k) # note_max a h rest)"

definition note_dropped_minting :: "u64 \<Rightarrow> peer_id \<Rightarrow> hlc option \<Rightarrow> oplog \<Rightarrow> oplog \<times> hlc" where
  "note_dropped_minting now author oh w =
     (let (h, w1) = (case oh of Some h \<Rightarrow> (h, w) | None \<Rightarrow> mint now w);
          w2 = w1\<lparr>w_dropped := note_max author h (w_dropped w1)\<rparr>;
          w3 = (if author = w_peer w2 then w2\<lparr>w_dropped_gen := w_dropped_gen w2 + 1\<rparr> else w2)
      in (w3, h))"

definition note_dropped :: "peer_id \<Rightarrow> hlc \<Rightarrow> oplog \<Rightarrow> oplog" where
  "note_dropped author h w = fst (note_dropped_minting 0 author (Some h) w)"

definition take_dropped :: "oplog \<Rightarrow> oplog \<times> (peer_id \<times> hlc) list" where
  "take_dropped w = (w\<lparr>w_dropped := []\<rparr>, w_dropped w)"

definition append_inner_noting ::
  "nat \<Rightarrow> (nat \<Rightarrow> oplog \<Rightarrow> oplog \<times> bool) \<Rightarrow> u64 \<Rightarrow> op \<Rightarrow> relayed_header option \<Rightarrow> hlc option \<Rightarrow>
   oplog \<Rightarrow> (oplog \<times> ((wal_error \<times> hlc) + (u64 \<times> hlc))) option" where
  "append_inner_noting fuel waiter now w_op relay hlc_override w =
     (let is_commit = (w_op = Commit);
          reserve = (if is_commit then 0 else w_commit_room w);
          sz = record_size_hint (payload_size w_op)
      in case retry_append fuel waiter
              (append_inner_raw now w_op relay hlc_override is_commit) (sz + reserve) w of
          None \<Rightarrow> None
        | Some (w1, Inr r) \<Rightarrow> Some (w1, Inr r)
        | Some (w1, Inl e) \<Rightarrow>
            if e = Panicked then Some (w1, Inl (Panicked, hlc_ZERO))
            else if is_commit then Some (w1, Inl (e, hlc_ZERO))
            else if e = WalFull \<and> larger_than_ring w1 (sz + reserve)
            then Some (w1, Inl (RecordTooLarge, hlc_ZERO))
            else let author = (case relay of Some r \<Rightarrow> rh_author r | None \<Rightarrow> w_peer w1);
                     oh = (case relay of Some r \<Rightarrow> Some (rh_hlc r) | None \<Rightarrow> hlc_override);
                     (w2, h) = note_dropped_minting now author oh w1
                 in Some (w2, Inl (e, h)))"

section \<open>Batches and relayed records\<close>

text \<open>
  The loop of \<^verbatim>\<open>append_many_inner\<close>: the space of the whole batch was reserved before, each
  record takes the next sequence number and either its given clock or a new one.
\<close>

fun append_many_loop ::
  "(nat \<Rightarrow> u64) \<Rightarrow> u32 \<Rightarrow> nat \<Rightarrow> hlc list option \<Rightarrow> nat \<Rightarrow> owned_op list \<Rightarrow> oplog \<Rightarrow>
   oplog \<times> (wal_error + u64 list)" where
  "append_many_loop now lap at hlcs k [] w = (w, Inr [])"
| "append_many_loop now lap at hlcs k (x # xs) w =
     (let w_op = as_op x; psize = payload_size w_op; lsn = w_next_lsn w;
          w1 = w\<lparr>w_next_lsn := lsn + 1\<rparr>;
          (hlc, w2) = (case hlcs of Some hs \<Rightarrow> (hs ! k, w1) | None \<Rightarrow> mint (now k) w1);
          author = hlc_peer hlc;
          w3 = (if w_op = Commit then w2 else w2\<lparr>w_own_data := w_own_data w2 + 1\<rparr>)
      in case write_payload w_op of
          None \<Rightarrow> (w3, Inl Panicked)
        | Some payload \<Rightarrow>
            let crc = new_record_crc (op_byte w_op) (word_of_nat psize) lsn hlc author payload;
                (sig, fp) = sign_or_zero (w_keypair w3)
                  (signed_payload (op_byte w_op) (word_of_nat psize) lsn hlc author crc payload);
                m = put_record at
                  (rec_header (op_byte w_op) (word_of_nat psize) lsn hlc author crc sig fp)
                  payload (w_trailer w3) lap (w_mmap w3)
            in case append_many_loop now lap (at + REC_HEADER_SIZE + psize + w_trailer w3) hlcs
                  (Suc k) xs (w3\<lparr>w_mmap := m\<rparr>) of
                (w4, Inl e) \<Rightarrow> (w4, Inl e)
              | (w4, Inr lsns) \<Rightarrow> (w4, Inr (lsn # lsns)))"

definition append_many_inner ::
  "(nat \<Rightarrow> u64) \<Rightarrow> owned_op list \<Rightarrow> hlc list option \<Rightarrow> oplog \<Rightarrow> oplog \<times> (wal_error + u64 list)" where
  "append_many_inner now records hlcs w =
     (let total = sum_list (map (\<lambda>x. REC_HEADER_SIZE + payload_size (as_op x) + w_trailer w) records);
          closes = (records \<noteq> [] \<and> as_op (last records) = Commit)
      in case alloc (now 0) total closes w of
          (w1, None) \<Rightarrow> (w1, Inl WalFull)
        | (w1, Some (i, off)) \<Rightarrow>
            let h = get_half w1 i
            in case append_many_loop now (h_lap h) (h_base h + off) hlcs 0 records w1 of
                (w2, Inl e) \<Rightarrow> (w2, Inl e)
              | (w2, Inr lsns) \<Rightarrow> (put_head i (off + total) w2, Inr lsns))"

definition carried_hlcs :: "owned_op list \<Rightarrow> hlc list \<Rightarrow> hlc list" where
  "carried_hlcs records hs = map snd (filter (\<lambda>(x, _). as_op x \<noteq> Commit) (zip records hs))"

definition append_many_impl ::
  "nat \<Rightarrow> (nat \<Rightarrow> oplog \<Rightarrow> oplog \<times> bool) \<Rightarrow> (nat \<Rightarrow> u64) \<Rightarrow> owned_op list \<Rightarrow> hlc list option \<Rightarrow>
   oplog \<Rightarrow> (oplog \<times> (wal_error + u64 list)) option" where
  "append_many_impl fuel waiter now records hlcs w = (
     if records = [] then Some (w, Inr [])
     else let total = sum_list (map record_size records);
              reserve = (if as_op (last records) = Commit then 0 else w_commit_room w)
          in case retry_append fuel waiter (append_many_inner now records hlcs) (total + reserve) w of
              None \<Rightarrow> None
            | Some (w1, Inr lsns) \<Rightarrow> Some (w1, Inr lsns)
            | Some (w1, Inl Panicked) \<Rightarrow> Some (w1, Inl Panicked)
            | Some (w1, Inl e) \<Rightarrow> (case hlcs of
                  Some hs \<Rightarrow>
                    (case carried_hlcs records hs of
                        [] \<Rightarrow> Some (w1, Inl e)
                      | h # rest \<Rightarrow> Some (note_dropped (w_peer w1) (fold max rest h) w1, Inl e))
                | None \<Rightarrow>
                    if \<exists>x \<in> set records. as_op x \<noteq> Commit
                    then Some (fst (note_dropped_minting (now 0) (w_peer w1) None w1), Inl e)
                    else Some (w1, Inl e)))"

definition sb_hlc :: "bytes \<Rightarrow> hlc" where
  "sb_hlc sb = Hlc (r64 sb 16) (r32 sb 24) (r32 sb 28)"

definition observe_hlc :: "hlc \<Rightarrow> oplog \<Rightarrow> oplog" where
  "observe_hlc recv w = w\<lparr>w_hlc := merge_external_hlc recv (w_hlc w)\<rparr>"

text \<open>
  The four copies of \<^verbatim>\<open>append_verbatim_checked\<close> are written in the order of the file; they
  cover one contiguous range.
\<close>

definition append_verbatim_checked ::
  "u64 \<Rightarrow> bytes \<Rightarrow> bytes \<Rightarrow> bytes \<Rightarrow> oplog \<Rightarrow> oplog \<times> (wal_error + u64)" where
  "append_verbatim_checked now sb sig fp w =
     (let payload_len = length sb - SIGNED_PAYLOAD_HEADER_SIZE;
          sz = REC_HEADER_SIZE + payload_len + w_trailer w
      in case alloc now sz False w of
          (w1, None) \<Rightarrow> (w1, Inl WalFull)
        | (w1, Some (i, off)) \<Rightarrow>
            let h = get_half w1 i;
                m = put_record (h_base h + off)
                  (take SIGNED_PAYLOAD_HEADER_SIZE sb @ sig @ fp)
                  (drop SIGNED_PAYLOAD_HEADER_SIZE sb) (w_trailer w1) (h_lap h) (w_mmap w1)
            in (observe_hlc (sb_hlc sb) (put_head i (off + sz) (w1\<lparr>w_mmap := m\<rparr>)),
                Inr (r64 sb 8)))"

definition relay_check :: "bytes \<Rightarrow> wal_error option" where
  "relay_check sb = (
     if length sb < SIGNED_PAYLOAD_HEADER_SIZE then Some RelayTooShort
     else if slice 0 2 sb \<noteq> REC_MAGIC then Some RelayBadMagic
     else if \<not> known_version (sb ! 2) then Some RelayBadVersion
     else if length sb \<noteq> SIGNED_PAYLOAD_HEADER_SIZE + unat (r32 sb 4) then Some RelayBadLen
     else if signed_bytes_crc sb \<noteq> r32 sb 36 then Some RelayBadCrc
     else None)"

definition append_relayed_verbatim ::
  "nat \<Rightarrow> (nat \<Rightarrow> oplog \<Rightarrow> oplog \<times> bool) \<Rightarrow> u64 \<Rightarrow> bytes \<Rightarrow> bytes \<Rightarrow> bytes \<Rightarrow> oplog \<Rightarrow>
   (oplog \<times> (wal_error + u64)) option" where
  "append_relayed_verbatim fuel waiter now sb sig fp w = (case relay_check sb of
       Some e \<Rightarrow> Some (w, Inl e)
     | None \<Rightarrow>
         (case retry_append fuel waiter (append_verbatim_checked now sb sig fp)
             (record_size_hint (unat (r32 sb 4)) + w_commit_room w) w of
             None \<Rightarrow> None
           | Some (w1, Inr lsn) \<Rightarrow> Some (w1, Inr lsn)
           | Some (w1, Inl e) \<Rightarrow> Some (note_dropped (r32 sb 32) (sb_hlc sb) w1, Inl e)))"

section \<open>Folding a half and moving the checkpoint\<close>

definition split_locked :: "bool \<Rightarrow> oplog \<Rightarrow> oplog" where
  "split_locked fsync_ok w = (
     if w_two w \<or> w_trailer w = 0 then w
     else let a = get_half w 0; b = get_half w 1
          in case half_size_for (h_size a) of None \<Rightarrow> w
             | Some hs \<Rightarrow>
                 if \<not> half_is_empty a then w
                 else let m1 = write_half_header (w_mmap w) hs OPLOG_FILE_VERSION hs HEADER_SIZE
                            HEADER_SIZE 0
                      in if \<not> fsync_ok then w\<lparr>w_mmap := m1\<rparr>
                         else let m2 = put_at 4 (to_le_bytes OPLOG_FILE_VERSION)
                                    (put_at OFF_CAPACITY (to_le_bytes (word_of_nat hs :: u32)) m1)
                              in set_half 1 (b\<lparr>h_base := hs, h_size := hs\<rparr>)
                                   (set_half 0 (a\<lparr>h_size := hs\<rparr>)
                                     (w\<lparr>w_mmap := m2, w_two := True\<rparr>)))"

definition advance_lap_locked :: "nat \<Rightarrow> oplog \<Rightarrow> oplog" where
  "advance_lap_locked i w =
     (let (lap, w1) = take_next_lap w; h = get_half w1 i; b = h_base h
      in if w_trailer w1 = 0
         then let m = put_at OFF_LAP (to_le_bytes lap)
                    (put_at OFF_CAPACITY (to_le_bytes (word_of_nat (h_size h) :: u32))
                      (put_at 4 (to_le_bytes OPLOG_FILE_VERSION_V3) (w_mmap w1)))
              in set_half i (h\<lparr>h_lap := lap\<rparr>)
                   (w1\<lparr>w_mmap := m, w_trailer := LAP_TRAILER,
                      w_commit_room := (if w_commit_room w1 = REC_HEADER_SIZE
                        then REC_HEADER_SIZE + LAP_TRAILER else w_commit_room w1)\<rparr>)
         else set_half i (h\<lparr>h_lap := lap\<rparr>)
                (w1\<lparr>w_mmap := put_at (b + OFF_LAP) (to_le_bytes lap) (w_mmap w1)\<rparr>))"

definition fold_half_locked :: "bool \<Rightarrow> nat \<Rightarrow> oplog \<Rightarrow> oplog \<times> bool" where
  "fold_half_locked fsync_ok i w =
     (let h = get_half w i
      in if h_head h \<le> HEADER_SIZE then (w, False)
         else let w1 = advance_lap_locked i (set_half i (h\<lparr>h_head := HEADER_SIZE\<rparr>) w);
                  h1 = get_half w1 i; b = h_base h1;
                  m = put_at (b + 16) (to_le_bytes (32 :: u64))
                        (put_at (b + 8) (to_le_bytes (32 :: u64)) (w_mmap w1));
                  w2 = set_half i (h1\<lparr>h_written := HEADER_SIZE, h_checkpoint := HEADER_SIZE\<rparr>)
                        (w1\<lparr>w_mmap := m\<rparr>)
              in (split_locked fsync_ok w2, True))"

definition fold_target_locked :: "oplog \<Rightarrow> (nat \<times> u64) option" where
  "fold_target_locked w =
     (let ai = w_active w; b = get_half w (1 - ai); a = get_half w ai
      in if w_two w \<and> \<not> half_is_empty b
         then if h_checkpoint b = h_head b then Some (1 - ai, wal_pos (h_lap b) (h_head b)) else None
         else if h_head a > HEADER_SIZE \<and> h_checkpoint a = h_head a
         then Some (ai, wal_pos (h_lap a) (h_head a)) else None)"

definition try_reset_if :: "bool \<Rightarrow> (u64 \<Rightarrow> bool) \<Rightarrow> oplog \<Rightarrow> oplog \<times> bool" where
  "try_reset_if fsync_ok fold_safe w = (case fold_target_locked w of
       None \<Rightarrow> (w, False)
     | Some (i, through) \<Rightarrow>
         if \<not> fold_safe through then (w, False) else fold_half_locked fsync_ok i w)"

definition holds_pos :: "oplog \<Rightarrow> u64 \<Rightarrow> bool" where
  "holds_pos w pos \<longleftrightarrow> list_ex (\<lambda>h. h_size h > 0 \<and> h_lap h = wal_pos_lap pos) (w_halves w)"

definition advance_half :: "u64 \<Rightarrow> nat \<Rightarrow> oplog \<Rightarrow> oplog" where
  "advance_half pos i w =
     (let h = get_half w i; l = wal_pos_lap pos; off = wal_pos_offset pos
      in if h_size h = 0 then w
         else if h_lap h = l \<or> lap_newer l (h_lap h)
         then let target = (if h_lap h = l then min off (h_head h) else h_head h)
              in if target \<le> h_checkpoint h then w
                 else set_half i (h\<lparr>h_checkpoint := target\<rparr>)
                   (w\<lparr>w_mmap := put_at (h_base h + 16) (to_le_bytes (word_of_nat target :: u64))
                       (w_mmap w)\<rparr>)
         else w)"

definition advance_checkpoint_locked :: "u64 \<Rightarrow> oplog \<Rightarrow> oplog" where
  "advance_checkpoint_locked pos w = advance_half pos 1 (advance_half pos 0 w)"

text \<open>
  \<^verbatim>\<open>checkpoint_and_reset\<close>: \<^verbatim>\<open>sync\<close> is the caller's flush, whose appends of other writers
  between its start and its end show in the log it returns; the two-half form repeats at most
  three times, the one-half form holds the lock throughout.
\<close>

fun checkpoint_rounds ::
  "nat \<Rightarrow> bool \<Rightarrow> (u64 \<Rightarrow> oplog \<Rightarrow> oplog \<times> bool) \<Rightarrow> (u64 \<Rightarrow> bool) \<Rightarrow> bool \<Rightarrow> oplog \<Rightarrow>
   oplog \<times> bool \<times> bool" where
  "checkpoint_rounds 0 fsync_ok sync fold_safe advanced w = (w, advanced, False)"
| "checkpoint_rounds (Suc n) fsync_ok sync fold_safe advanced w =
     (let head = written_head w
      in if wal_is_empty w then (w, advanced, False)
         else case sync head w of
             (w1, False) \<Rightarrow> (w1, advanced, False)
           | (w1, True) \<Rightarrow>
               (case try_reset_if fsync_ok fold_safe (advance_checkpoint_locked head w1) of
                   (w2, True) \<Rightarrow> (w2, True, True)
                 | (w2, False) \<Rightarrow>
                     if wal_pos_lap head = h_lap (active_half w2) then (w2, True, False)
                     else checkpoint_rounds n fsync_ok sync fold_safe True w2))"

definition checkpoint_and_reset ::
  "bool \<Rightarrow> (u64 \<Rightarrow> oplog \<Rightarrow> oplog \<times> bool) \<Rightarrow> (u64 \<Rightarrow> bool) \<Rightarrow> oplog \<Rightarrow> oplog \<times> bool \<times> bool" where
  "checkpoint_and_reset fsync_ok sync fold_safe w = (
     if w_two w then checkpoint_rounds 3 fsync_ok sync fold_safe False w
     else let head = wal_head w
          in if wal_is_empty w then (w, False, False)
             else case sync head w of
                 (w1, False) \<Rightarrow> (w1, False, False)
               | (w1, True) \<Rightarrow>
                   (case try_reset_if fsync_ok fold_safe (advance_checkpoint_locked head w1) of
                      (w2, folded) \<Rightarrow> (w2, True, folded)))"

definition reset_to_checkpoint :: "oplog \<Rightarrow> oplog" where
  "reset_to_checkpoint w =
     (let i = w_active w; h = get_half w i; cp = h_checkpoint h
      in put_head i cp (set_half i (h\<lparr>h_head := cp\<rparr>) w))"

definition wal_capacity :: "oplog \<Rightarrow> nat" where
  "wal_capacity w = sum_list (map h_size (w_halves w))"

definition wal_usage :: "oplog \<Rightarrow> nat \<times> nat" where
  "wal_usage w =
     (sum_list (map (\<lambda>h. h_head h - h_checkpoint h) (filter (\<lambda>h. h_size h > 0) (w_halves w))),
      wal_capacity w)"

record durable_cut_point =
  dc_hlc :: hlc
  dc_dropped_pending :: bool
  dc_dropped_gen :: u64
  dc_lap :: u32
  dc_offset :: nat
  dc_own_data :: u64

definition durable_cut_for :: "peer_id \<Rightarrow> oplog \<Rightarrow> durable_cut_point" where
  "durable_cut_for author w =
     \<lparr>dc_hlc = Hlc (fst (w_hlc w)) (snd (w_hlc w)) author,
      dc_dropped_pending = list_ex (\<lambda>(a, _). a = author) (w_dropped w),
      dc_dropped_gen = w_dropped_gen w, dc_lap = h_lap (active_half w),
      dc_offset = h_head (active_half w), dc_own_data = w_own_data w\<rparr>"

definition quiet_since :: "u64 \<Rightarrow> u64 \<Rightarrow> u64 \<Rightarrow> peer_id \<Rightarrow> oplog \<Rightarrow> oplog \<times> hlc option" where
  "quiet_since now own gen author w = (
     if w_own_data w \<noteq> own \<or> w_dropped_gen w \<noteq> gen then (w, None)
     else let (h, w1) = mint now w
          in (w1, Some (Hlc (hlc_wall h) (hlc_logical h) author)))"

end
