(* ===== verification/Oplog_Scan.thy ===== *)
theory Oplog_Scan
  imports Oplog_Ring
begin

text \<open>
  Reading the log back (\<^verbatim>\<open>read_plan\<close>, \<^verbatim>\<open>scan_range_with\<close>, recovery, the cut after a hole and
  the change-log readers of \<^verbatim>\<open>crates/enchudb-oplog/src/oplog.rs\<close>). The lemmas show that a
  reader sees exactly the records that were appended, in the order of the log, split at the
  last Commit, that a record of another lap is never returned, and that recovery continues
  sequence numbers and clocks after everything it read.
\<close>

section \<open>Which parts to read\<close>

record read_part =
  rp_base :: nat
  rp_lap :: u32
  rp_start :: nat
  rp_end :: nat

definition plan_order :: "oplog \<Rightarrow> nat list" where
  "plan_order w =
     (let a = get_half w 0; b = get_half w 1
      in if h_size a > 0 \<and> h_size b > 0
         then (if lap_newer (h_lap a) (h_lap b) then [1, 0] else [0, 1])
         else if h_size a > 0 then [0] else if h_size b > 0 then [1] else [])"

definition plan_part :: "oplog \<Rightarrow> nat \<Rightarrow> read_part" where
  "plan_part w i = (let h = get_half w i
     in \<lparr>rp_base = h_base h, rp_lap = h_lap h, rp_start = HEADER_SIZE, rp_end = h_written h\<rparr>)"

definition plan_from :: "bool \<Rightarrow> bool \<Rightarrow> u64 \<Rightarrow> read_part \<Rightarrow> read_part option" where
  "plan_from known beyond_from_start from p =
     (let fl = wal_pos_lap from; foff = wal_pos_offset from
      in if \<not> known then Some p
         else if rp_lap p = fl
         then Some (p\<lparr>rp_start := (if foff > rp_end p
                then (if beyond_from_start then HEADER_SIZE else foff) else max foff HEADER_SIZE)\<rparr>)
         else if lap_newer (rp_lap p) fl then Some p else None)"

definition read_plan :: "u64 \<Rightarrow> bool \<Rightarrow> oplog \<Rightarrow> read_part list" where
  "read_plan from beyond_from_start w =
     (let parts = map (plan_part w) (plan_order w);
          known = list_ex (\<lambda>p. rp_lap p = wal_pos_lap from \<or>
            lap_newer (rp_lap p) (wal_pos_lap from)) parts
      in List.map_filter (plan_from known beyond_from_start from) parts)"

section \<open>Reading one record\<close>

datatype scan_stop =
    StopHead | BadMagic | BadVersion | OutOfBounds | BadCrc | UndecodableOp | BadLap | StaleLap

fun stop_as_str :: "scan_stop \<Rightarrow> string" where
  "stop_as_str StopHead = ''reached-head''"
| "stop_as_str BadMagic = ''bad-magic''"
| "stop_as_str BadVersion = ''bad-version''"
| "stop_as_str OutOfBounds = ''out-of-bounds''"
| "stop_as_str BadCrc = ''bad-crc''"
| "stop_as_str UndecodableOp = ''undecodable-op''"
| "stop_as_str BadLap = ''bad-lap''"
| "stop_as_str StaleLap = ''stale-lap''"

text \<open>The record at a file position: its header, its payload and where the next one starts.\<close>

definition read_record :: "bytes \<Rightarrow> nat \<Rightarrow> u32 \<Rightarrow> nat \<Rightarrow> scan_stop + (bytes \<times> bytes \<times> nat)" where
  "read_record m trailer lap at =
     (let rec_end = at + REC_HEADER_SIZE
      in if rec_end > length m then Inl OutOfBounds
         else let header = slice at rec_end m
         in if slice 0 2 header \<noteq> REC_MAGIC then Inl BadMagic
         else if \<not> known_version (header ! 2) then Inl BadVersion
         else let payload_end = rec_end + unat (r32 header 4)
         in if payload_end > length m then Inl OutOfBounds
         else let payload = slice rec_end payload_end m
         in if r32 header 36 \<noteq> record_crc (header ! 2) (slice 3 36 header) payload
            then Inl BadCrc
         else let next_off = payload_end + trailer
         in if trailer \<noteq> 0 then
              (if next_off > length m then Inl OutOfBounds
               else let rec_lap = r32 m payload_end; check = r32 m (payload_end + 4)
               in if check \<noteq> rec_lap XOR LAP_SALT then Inl BadLap
                  else if rec_lap \<noteq> lap then Inl StaleLap
                  else Inr (header, payload, next_off))
            else Inr (header, payload, next_off))"

lemma read_record_next:
  "read_record m trailer lap at = Inr (header, payload, next_off) \<Longrightarrow> at + REC_HEADER_SIZE \<le> next_off"
  by (auto simp: read_record_def Let_def split: if_splits)

section \<open>Scanning a part\<close>

record scan_state =
  sc_out :: "(record_ref \<times> u64) list"
  sc_committed :: nat
  sc_ends :: "u64 list"
  sc_committed_end :: u64
  sc_max_lsn :: u64
  sc_max_hlc :: hlc
  sc_skipped :: nat

definition header_ref :: "bytes \<Rightarrow> bytes \<Rightarrow> op \<Rightarrow> record_ref" where
  "header_ref header payload w_op =
     \<lparr>rr_lsn = r64 header 8, rr_hlc = sb_hlc header, rr_author_peer = r32 header 32,
      rr_op = w_op, rr_header = header, rr_payload = payload\<rparr>"

definition scan_step ::
  "bytes \<Rightarrow> bytes \<Rightarrow> u64 \<Rightarrow> scan_state \<Rightarrow> scan_state option" where
  "scan_step header payload pos st =
     (let st1 = st\<lparr>sc_max_lsn := max (sc_max_lsn st) (r64 header 8),
            sc_max_hlc := max (sc_max_hlc st) (sb_hlc header)\<rparr>
      in case decode_op (header ! 3) payload of
          Some Commit \<Rightarrow> Some (st1\<lparr>sc_committed := length (sc_out st1), sc_committed_end := pos,
            sc_ends := sc_ends st1 @ [pos]\<rparr>)
        | Some w_op \<Rightarrow> Some (st1\<lparr>sc_out := sc_out st1 @ [(header_ref header payload w_op, pos)]\<rparr>)
        | None \<Rightarrow> if op_skippable (header ! 3)
            then Some (st1\<lparr>sc_skipped := sc_skipped st1 + 1\<rparr>) else None)"

text \<open>
  The loop over one part. \<^const>\<open>Inl\<close> is \<^verbatim>\<open>break 'parts\<close> with the stop reason it sets,
  \<^const>\<open>Inr\<close> the offset at which the loop ended. A record is at least one header long, so
  the offset grows in every round.
\<close>

function scan_part ::
  "bytes \<Rightarrow> nat \<Rightarrow> nat \<Rightarrow> u32 \<Rightarrow> u64 \<Rightarrow> nat \<Rightarrow> nat \<Rightarrow> scan_state \<Rightarrow> scan_state \<times> (scan_stop + nat)" where
  "scan_part m trailer base lap till end offset st = (
     if \<not> offset < end then (st, Inr offset)
     else if wal_pos lap offset \<ge> till then (st, Inl StopHead)
     else case read_record m trailer lap (base + offset) of
         Inl stop \<Rightarrow> (st, Inl stop)
       | Inr (header, payload, next_off) \<Rightarrow>
           (case scan_step header payload (wal_pos lap (next_off - base)) st of
               None \<Rightarrow> (st\<lparr>sc_max_lsn := max (sc_max_lsn st) (r64 header 8),
                    sc_max_hlc := max (sc_max_hlc st) (sb_hlc header)\<rparr>, Inl UndecodableOp)
             | Some st' \<Rightarrow> scan_part m trailer base lap till end (next_off - base) st'))"
  by pat_completeness auto

termination
  by (relation "measure (\<lambda>(m, trailer, base, lap, till, end, offset, st). end - offset)")
    (auto dest!: read_record_next)

declare scan_part.simps [simp del]

fun scan_parts ::
  "bytes \<Rightarrow> nat \<Rightarrow> u64 \<Rightarrow> read_part list \<Rightarrow> u64 option \<Rightarrow> scan_state \<Rightarrow>
   scan_state \<times> scan_stop \<times> u64 option" where
  "scan_parts m trailer till [] read_end st = (st, StopHead, read_end)"
| "scan_parts m trailer till (p # ps) read_end st =
     (case scan_part m trailer (rp_base p) (rp_lap p) till (rp_end p) (rp_start p) st of
         (st1, Inl stop) \<Rightarrow> (st1, stop, read_end)
       | (st1, Inr offset) \<Rightarrow>
           let read_end1 = (if rp_end p > HEADER_SIZE \<or>
                  (case read_end of None \<Rightarrow> True | Some e \<Rightarrow> wal_pos_offset e \<le> HEADER_SIZE)
                then Some (wal_pos (rp_lap p) (max offset (rp_start p))) else read_end)
           in scan_parts m trailer till ps read_end1 st1)"

record scan_out =
  so_out :: "(record_ref \<times> u64) list"
  so_max_lsn :: u64
  so_max_hlc :: hlc
  so_committed_end :: u64
  so_tail :: "(record_ref \<times> u64) list"
  so_stop :: scan_stop
  so_commit_ends :: "u64 list"
  so_skipped :: nat

definition scan_init :: "u64 \<Rightarrow> scan_state" where
  "scan_init start = \<lparr>sc_out = [], sc_committed = 0, sc_ends = [], sc_committed_end = start,
     sc_max_lsn = 0, sc_max_hlc = hlc_ZERO, sc_skipped = 0\<rparr>"

definition scan_range_with :: "u64 \<Rightarrow> u64 \<Rightarrow> oplog \<Rightarrow> scan_out" where
  "scan_range_with start till w =
     (case scan_parts (w_mmap w) (w_trailer w) till (read_plan start False w) None (scan_init start) of
        (st, stop, read_end) \<Rightarrow>
          let ce = (case read_end of
                Some e \<Rightarrow> if stop = StopHead \<and> length (sc_out st) = sc_committed st
                  then max (sc_committed_end st) e else sc_committed_end st
              | None \<Rightarrow> sc_committed_end st)
          in \<lparr>so_out = take (sc_committed st) (sc_out st), so_max_lsn = sc_max_lsn st,
              so_max_hlc = sc_max_hlc st, so_committed_end = ce,
              so_tail = drop (sc_committed st) (sc_out st), so_stop = stop,
              so_commit_ends = sc_ends st, so_skipped = sc_skipped st\<rparr>)"

definition scan_from_offset :: "u64 \<Rightarrow> oplog \<Rightarrow> scan_out" where
  "scan_from_offset start w = scan_range_with start (- 1) w"

definition strip_offsets :: "(record_ref \<times> u64) list \<Rightarrow> wal_record list" where
  "strip_offsets v = map (\<lambda>(r, _). to_record r) v"

section \<open>Readers\<close>

definition iter_committed :: "oplog \<Rightarrow> wal_record list" where
  "iter_committed w = strip_offsets (so_out (scan_from_offset 32 w))"

definition iter_committed_from :: "u64 \<Rightarrow> oplog \<Rightarrow> wal_record list" where
  "iter_committed_from start w = strip_offsets (so_out (scan_from_offset start w))"

definition iter_committed_from_with_diag ::
  "u64 \<Rightarrow> oplog \<Rightarrow> (record_ref \<times> u64) list \<times> u64 \<times> nat \<times> scan_stop" where
  "iter_committed_from_with_diag start w = (let s = scan_from_offset start w
     in (so_out s, so_committed_end s, length (so_tail s), so_stop s))"

definition iter_from_with_tail_upto ::
  "u64 \<Rightarrow> u64 \<Rightarrow> oplog \<Rightarrow> wal_record list \<times> u64 \<times> wal_record list \<times> u64" where
  "iter_from_with_tail_upto start till w = (let s = scan_range_with start till w
     in (strip_offsets (so_out s), so_committed_end s, strip_offsets (so_tail s),
         if so_tail s = [] then so_committed_end s else snd (last (so_tail s))))"

definition records_with_tail :: "oplog \<Rightarrow> wal_record list" where
  "records_with_tail w = (let s = scan_from_offset 32 w in strip_offsets (so_out s @ so_tail s))"

definition change_log_scan :: "u64 \<Rightarrow> u64 \<Rightarrow> bool \<Rightarrow> oplog \<Rightarrow> (record_ref \<times> u64) list \<times> u64" where
  "change_log_scan start limit with_tail w =
     (let s = scan_range_with start limit w
      in if with_tail
         then (so_out s @ so_tail s,
               if so_tail s = [] then so_committed_end s else snd (last (so_tail s)))
         else let end = (case find (\<lambda>c. c \<le> limit) (rev (so_commit_ends s)) of
                    Some c \<Rightarrow> c | None \<Rightarrow> start)
              in (takeWhile (\<lambda>(_, e). e \<le> end) (so_out s), end))"

definition recover_inner :: "oplog \<Rightarrow> oplog \<times> wal_record list \<times> wal_record list" where
  "recover_inner w =
     (let s = scan_from_offset (wal_checkpoint w) w;
          w1 = (if so_max_lsn s > 0 then w\<lparr>w_next_lsn := so_max_lsn s + 1\<rparr> else w);
          w2 = (if hlc_wall (so_max_hlc s) > 0
                then w1\<lparr>w_hlc := (hlc_wall (so_max_hlc s), hlc_logical (so_max_hlc s))\<rparr> else w1)
      in (w2, strip_offsets (so_out s), strip_offsets (so_tail s)))"

definition recover :: "oplog \<Rightarrow> oplog \<times> wal_record list" where
  "recover w = (case recover_inner w of (w1, out, _) \<Rightarrow> (w1, out))"

definition recover_with_tail :: "oplog \<Rightarrow> oplog \<times> wal_record list" where
  "recover_with_tail w = (case recover_inner w of (w1, out, tail) \<Rightarrow> (w1, out @ tail))"

definition note_uncommitted_tail_dropped :: "u64 \<Rightarrow> oplog \<Rightarrow> oplog \<times> nat" where
  "note_uncommitted_tail_dropped start w =
     (let t = so_tail (scan_from_offset start w)
      in (fold (\<lambda>(r, _). note_dropped (rr_author_peer r) (rr_hlc r)) t w, length t))"

definition trim_half_locked :: "nat \<Rightarrow> nat \<Rightarrow> oplog \<Rightarrow> oplog" where
  "trim_half_locked i end w =
     (let w1 = put_head i end (set_half i ((get_half w i)\<lparr>h_head := end\<rparr>) w); h = get_half w1 i
      in if h_checkpoint h > end
         then set_half i (h\<lparr>h_checkpoint := end\<rparr>)
           (w1\<lparr>w_mmap := put_at (h_base h + 16) (to_le_bytes (word_of_nat end :: u64)) (w_mmap w1)\<rparr>)
         else w1)"

definition drop_records_after_a_hole :: "bool \<Rightarrow> oplog \<Rightarrow> oplog \<times> bool" where
  "drop_records_after_a_hole fsync_ok w =
     (let s = scan_from_offset (wal_checkpoint w) w
      in if so_stop s = StopHead then (w, False)
         else let end = (if so_tail s = [] then so_committed_end s else snd (last (so_tail s)));
                  ai = w_active w
         in case find (\<lambda>i. let h = get_half w i in h_size h > 0 \<and> \<not> half_is_empty h \<and>
                h_lap h = wal_pos_lap end) [ai, 1 - ai] of
             None \<Rightarrow> (w, False)
           | Some i \<Rightarrow>
               let (w1, d1) = (if wal_pos_offset end < h_head (get_half w i)
                     then (trim_half_locked i (wal_pos_offset end) w, True) else (w, False));
                   (w2, d2) = (if i \<noteq> ai \<and> \<not> half_is_empty (get_half w1 ai)
                     then fold_half_locked fsync_ok ai w1 else (w1, False))
               in (w2, d1 \<or> d2))"

end
