(* ===== verification/Oplog_Log.thy ===== *)
theory Oplog_Log
  imports Oplog_Scan
begin

text \<open>
  The log as a list of records, and the proof that the two-half ring implements it: an
  append adds one record at the end (after a closing Commit when the ring moves to its other
  half), folding removes exactly the records of one half, moving the checkpoint changes no
  record, and a scan returns the list cut at its last Commit.
\<close>

section \<open>Entries\<close>

text \<open>One stored record: the bytes its signature covers, the signature and the fingerprint.\<close>

record entry =
  e_sb :: bytes
  e_sig :: bytes
  e_fp :: bytes

definition entry_ok :: "entry \<Rightarrow> bool" where
  "entry_ok e \<longleftrightarrow> relay_check (e_sb e) = None \<and> length (e_sig e) = 64 \<and> length (e_fp e) = 8"

definition entry_header :: "entry \<Rightarrow> bytes" where
  "entry_header e = take 40 (e_sb e) @ e_sig e @ e_fp e"

definition entry_payload :: "entry \<Rightarrow> bytes" where
  "entry_payload e = drop 40 (e_sb e)"

definition entry_bytes :: "u32 \<Rightarrow> entry \<Rightarrow> bytes" where
  "entry_bytes lap e = entry_header e @ entry_payload e @ lap_trailer lap"

definition entry_len :: "entry \<Rightarrow> nat" where
  "entry_len e = length (e_sb e) + 80"

definition entry_op :: "entry \<Rightarrow> op option" where
  "entry_op e = decode_op (e_sb e ! 3) (entry_payload e)"

definition is_commit :: "entry \<Rightarrow> bool" where
  "is_commit e \<longleftrightarrow> entry_op e = Some Commit"

text \<open>Records this version can read or may pass over.\<close>

definition readable :: "entry \<Rightarrow> bool" where
  "readable e \<longleftrightarrow> entry_op e \<noteq> None \<or> op_skippable (e_sb e ! 3)"

definition entry_refs :: "entry \<Rightarrow> record_ref list" where
  "entry_refs e = (case entry_op e of
       None \<Rightarrow> [] | Some Commit \<Rightarrow> []
     | Some w_op \<Rightarrow> [header_ref (entry_header e) (entry_payload e) w_op])"

definition log_refs :: "entry list \<Rightarrow> record_ref list" where
  "log_refs es = concat (map entry_refs es)"

definition committed_prefix :: "entry list \<Rightarrow> entry list" where
  "committed_prefix es = rev (dropWhile (\<lambda>e. \<not> is_commit e) (rev es))"

definition open_tail :: "entry list \<Rightarrow> entry list" where
  "open_tail es = rev (takeWhile (\<lambda>e. \<not> is_commit e) (rev es))"

section \<open>What a half and the ring hold\<close>

definition half_ok :: "bytes \<Rightarrow> u32 \<Rightarrow> half \<Rightarrow> entry list \<Rightarrow> bool" where
  "half_ok m v h es \<longleftrightarrow>
     h_base h + h_size h \<le> length m \<and> h_size h < 0xFFFFFFFF \<and> 32 \<le> h_checkpoint h \<and>
     h_checkpoint h \<le> h_head h \<and> h_written h = h_head h \<and> h_head h \<le> h_size h \<and>
     slice (h_base h) (h_base h + 32) m =
       half_header v (h_size h) (h_head h) (h_checkpoint h) (h_lap h) \<and>
     slice (h_base h + 32) (h_base h + h_head h) m = concat (map (entry_bytes (h_lap h)) es) \<and>
     list_all entry_ok es"

definition ring_version :: "oplog \<Rightarrow> u32" where
  "ring_version w = (if w_two w then 4 else 3)"

text \<open>
  The ring with the entries of its halves: both halves hold what they should, the half that
  is not appended to is older when it holds anything and ends with a Commit, and an open
  group in the active half has room for its closing Commit.
\<close>

definition group_open :: "entry list \<Rightarrow> bool" where
  "group_open es \<longleftrightarrow> es \<noteq> [] \<and> \<not> is_commit (last es)"

definition ring_ok :: "oplog \<Rightarrow> (nat \<Rightarrow> entry list) \<Rightarrow> bool" where
  "ring_ok w es \<longleftrightarrow>
     length (w_halves w) = 2 \<and> w_trailer w = 8 \<and> w_commit_room w = 120 \<and> w_fail_commits w = 0 \<and>
     half_ok (w_mmap w) (ring_version w) (get_half w 0) (es 0) \<and> h_base (get_half w 0) = 0 \<and>
     (if w_two w
      then w_active w < 2 \<and> half_ok (w_mmap w) (ring_version w) (get_half w 1) (es 1) \<and>
        h_base (get_half w 1) = h_size (get_half w 0) \<and>
        h_size (get_half w 1) = h_size (get_half w 0) \<and> 16384 \<le> h_size (get_half w 0) \<and>
        (es (1 - w_active w) \<noteq> [] \<longrightarrow> lap_newer (h_lap (active_half w)) (h_lap (other_half w))) \<and>
        \<not> group_open (es (1 - w_active w))
      else w_active w = 0 \<and> get_half w 1 = half_new 0 0 32 32 0 \<and> es 1 = []) \<and>
     (group_open (es (w_active w)) \<longrightarrow> h_head (active_half w) + 120 \<le> h_size (active_half w)) \<and>
     (case w_keypair w of None \<Rightarrow> True | Some k \<Rightarrow>
        (\<forall>x. length (kp_sign k x) = 64) \<and> length (kp_pubkey_fp k) = 8)"

text \<open>The log: the entries of the older half, then those of the active one.\<close>

definition ring_log :: "oplog \<Rightarrow> (nat \<Rightarrow> entry list) \<Rightarrow> entry list" where
  "ring_log w es = (if w_two w then es (1 - w_active w) @ es (w_active w) else es (w_active w))"

text \<open>
  What an append to half \<^term>\<open>i\<close> leaves behind: the entry's bytes after the old head, the
  new head in memory and in the header, and everything the ring promises unchanged.
\<close>

definition same_ring :: "oplog \<Rightarrow> oplog \<Rightarrow> bool" where
  "same_ring w w' \<longleftrightarrow> w_active w' = w_active w \<and> w_two w' = w_two w \<and> w_trailer w' = w_trailer w \<and>
     w_commit_room w' = w_commit_room w \<and> w_fail_commits w' = w_fail_commits w \<and>
     w_keypair w' = w_keypair w"

definition appended :: "nat \<Rightarrow> entry \<Rightarrow> oplog \<Rightarrow> oplog \<Rightarrow> bool" where
  "appended i e w w' \<longleftrightarrow>
     (let h = get_half w i; n = h_head h + entry_len e
      in same_ring w w' \<and> w_halves w' = (w_halves w)[i := h\<lparr>h_head := n, h_written := n\<rparr>] \<and>
         w_mmap w' = put_at (h_base h + 8) (to_le_bytes (word_of_nat n :: u64))
           (put_at (h_base h + h_head h) (entry_bytes (h_lap h) e) (w_mmap w)))"

text \<open>The entry an append of an operation stores.\<close>

definition new_entry ::
  "op \<Rightarrow> bytes \<Rightarrow> u64 \<Rightarrow> hlc \<Rightarrow> peer_id \<Rightarrow> bytes \<Rightarrow> bytes \<Rightarrow> entry" where
  "new_entry w_op payload lsn hlc author sig fp =
     \<lparr>e_sb = signed_payload (op_byte w_op) (word_of_nat (length payload)) lsn hlc author
        (new_record_crc (op_byte w_op) (word_of_nat (length payload)) lsn hlc author payload) payload,
      e_sig = sig, e_fp = fp\<rparr>"

text \<open>The scan over a list of entries that start at an offset of a half.\<close>

fun run_entries :: "u32 \<Rightarrow> nat \<Rightarrow> scan_state \<Rightarrow> entry list \<Rightarrow> scan_state" where
  "run_entries lap off st [] = st"
| "run_entries lap off st (e # es) =
     (case scan_step (entry_header e) (entry_payload e) (wal_pos lap (off + entry_len e)) st of
        None \<Rightarrow> st
      | Some st' \<Rightarrow> run_entries lap (off + entry_len e) st' es)"

text \<open>What a scan state knows after the entries of a log.\<close>

definition scanned :: "entry list \<Rightarrow> scan_state \<Rightarrow> bool" where
  "scanned es st \<longleftrightarrow>
     map fst (sc_out st) = log_refs es \<and> sc_committed st = length (log_refs (committed_prefix es)) \<and>
     (\<forall>e \<in> set es. r64 (entry_header e) 8 \<le> sc_max_lsn st \<and> sb_hlc (entry_header e) \<le> sc_max_hlc st)"

section \<open>Entries in bytes\<close>

lemma entry_okD:
  assumes "entry_ok e"
  shows "40 \<le> length (e_sb e)" "slice 0 2 (e_sb e) = REC_MAGIC" "known_version (e_sb e ! 2)"
    "length (e_sb e) = 40 + unat (r32 (e_sb e) 4)" "signed_bytes_crc (e_sb e) = r32 (e_sb e) 36"
    "length (e_sig e) = 64" "length (e_fp e) = 8"
  using assms by (auto simp: entry_ok_def relay_check_def split: if_splits)

lemma length_entry_header: "entry_ok e \<Longrightarrow> length (entry_header e) = 112"
  by (simp add: entry_header_def entry_okD)

lemma length_lap_trailer [simp]: "length (lap_trailer lap) = 8"
  by (simp add: lap_trailer_def)

lemma length_entry_payload: "entry_ok e \<Longrightarrow> length (entry_payload e) = unat (r32 (e_sb e) 4)"
  using entry_okD(4) by (simp add: entry_payload_def)

lemma length_entry_bytes: "entry_ok e \<Longrightarrow> length (entry_bytes lap e) = entry_len e"
  using entry_okD(1)[of e]
  by (simp add: entry_bytes_def entry_len_def length_entry_header) (simp add: entry_payload_def)

lemma entry_header_fields:
  assumes "entry_ok e"
  shows "b \<le> 40 \<Longrightarrow> slice a b (entry_header e) = slice a b (e_sb e)"
    "i < 40 \<Longrightarrow> entry_header e ! i = e_sb e ! i"
proof -
  have "slice a b (take 40 (e_sb e)) = slice a b (e_sb e)" if "b \<le> 40"
    using that by (simp add: slice_drop_take min_def)
  then show "b \<le> 40 \<Longrightarrow> slice a b (entry_header e) = slice a b (e_sb e)"
    using entry_okD(1)[OF assms] by (simp add: entry_header_def slice_append_here)
  show "i < 40 \<Longrightarrow> entry_header e ! i = e_sb e ! i"
    using entry_okD(1)[OF assms] by (simp add: entry_header_def nth_append)
qed

lemma entry_header_words:
  assumes "entry_ok e"
  shows "off + 4 \<le> 40 \<Longrightarrow> r32 (entry_header e) off = r32 (e_sb e) off"
    "off + 8 \<le> 40 \<Longrightarrow> r64 (entry_header e) off = r64 (e_sb e) off"
  using entry_header_fields(1)[OF assms] by (simp_all add: r32_def r64_def)

lemma entry_crc:
  assumes "entry_ok e"
  shows "r32 (entry_header e) 36 =
    record_crc (entry_header e ! 2) (slice 3 36 (entry_header e)) (entry_payload e)"
  using entry_okD(5)[OF assms] assms
  by (simp add: entry_header_fields entry_header_words signed_bytes_crc_def entry_payload_def)

lemma lap_trailer_words:
  "r32 (lap_trailer lap) 0 = lap" "r32 (lap_trailer lap) 4 = lap XOR LAP_SALT"
  by (simp_all add: lap_trailer_def r32_def buf_simps)

lemma entry_bytes_at:
  assumes "entry_ok e" "at + entry_len e \<le> length m"
    "slice at (at + entry_len e) m = entry_bytes lap e"
  shows "slice at (at + 112) m = entry_header e"
    "slice (at + 112) (at + 112 + unat (r32 (e_sb e) 4)) m = entry_payload e"
    "slice (at + 112 + unat (r32 (e_sb e) 4)) (at + entry_len e) m = lap_trailer lap"
proof -
  let ?n = "unat (r32 (e_sb e) 4)"
  have len: "entry_len e = 120 + ?n"
    using entry_okD(4)[OF assms(1)] by (simp add: entry_len_def)
  have "slice a b (slice at (at + entry_len e) m) = slice (at + a) (at + b) m" if "b \<le> 120 + ?n" for a b
    using that len by (simp add: slice_slice)
  then have sub: "slice (at + a) (at + b) m = slice a b (entry_bytes lap e)" if "b \<le> 120 + ?n" for a b
    using that assms(3) by simp
  show "slice at (at + 112) m = entry_header e"
    using sub[of 112 0] assms(1) length_entry_header[OF assms(1)]
    by (simp add: entry_bytes_def buf_simps)
  show "slice (at + 112) (at + 112 + ?n) m = entry_payload e"
    using sub[of "112 + ?n" 112] length_entry_header[OF assms(1)] length_entry_payload[OF assms(1)]
    by (simp add: entry_bytes_def buf_simps add.assoc)
  show "slice (at + 112 + ?n) (at + entry_len e) m = lap_trailer lap"
    using sub[of "120 + ?n" "112 + ?n"] length_entry_header[OF assms(1)]
      length_entry_payload[OF assms(1)]
    by (simp add: entry_bytes_def buf_simps add.assoc len)
qed

lemma read_record_entry:
  assumes "entry_ok e" "at + entry_len e \<le> length m"
    "slice at (at + entry_len e) m = entry_bytes lap' e"
  shows "read_record m 8 lap at = (if lap' = lap
    then Inr (entry_header e, entry_payload e, at + entry_len e) else Inl StaleLap)"
proof -
  let ?n = "unat (r32 (e_sb e) 4)"
  note at = entry_bytes_at[OF assms]
  have len: "at + entry_len e = at + 112 + ?n + 8"
    using entry_okD(4)[OF assms(1)] by (simp add: entry_len_def)
  have trail: "slice (at + 112 + ?n + a) (at + 112 + ?n + b) m = slice a b (lap_trailer lap')"
    if "b \<le> 8" for a b
    using that at(3) len slice_slice[of b "at + 112 + ?n + 8" "at + 112 + ?n" a m] by simp
  have lap: "r32 m (at + 112 + ?n) = lap'" "r32 m (at + 112 + ?n + 4) = lap' XOR LAP_SALT"
    using trail[of 4 0] trail[of 8 4] lap_trailer_words[of lap'] by (simp_all add: r32_def add.assoc)
  have n: "unat (r32 (entry_header e) 4) = ?n"
    using assms(1) by (simp add: entry_header_words)
  have magic: "slice 0 2 (entry_header e) = REC_MAGIC" "known_version (entry_header e ! 2)"
    using assms(1) by (simp_all add: entry_header_fields entry_okD)
  show ?thesis
    unfolding read_record_def Let_def at(1) n at(2)
    using assms(2) len magic lap entry_crc[OF assms(1)] by simp
qed

section \<open>Scanning entries\<close>

lemma committed_prefix_snoc:
  "committed_prefix (es @ [e]) = (if is_commit e then es @ [e] else committed_prefix es)"
  by (simp add: committed_prefix_def)

lemma committed_open: "committed_prefix es @ open_tail es = es"
  by (simp add: committed_prefix_def open_tail_def flip: rev_append)

lemma log_refs_append [simp]: "log_refs (es @ fs) = log_refs es @ log_refs fs"
  by (simp add: log_refs_def)

lemma log_refs_committed_le: "length (log_refs (committed_prefix es)) \<le> length (log_refs es)"
  by (metis committed_open le_add1 length_append log_refs_append)

lemma scan_step_total:
  assumes "entry_ok e" "readable e"
  shows "\<exists>st'. scan_step (entry_header e) (entry_payload e) pos st = Some st'"
  using assms
  by (auto simp: scan_step_def readable_def entry_op_def entry_header_fields Let_def
      split: option.splits op.splits)

lemma scan_step_scanned:
  assumes "entry_ok e" "scanned es st"
    and "scan_step (entry_header e) (entry_payload e) pos st = Some st'"
  shows "scanned (es @ [e]) st'"
proof -
  have op: "decode_op (entry_header e ! 3) (entry_payload e) = entry_op e"
    using assms(1) by (simp add: entry_op_def entry_header_fields)
  have len: "length (sc_out st) = length (log_refs es)"
    using assms(2) by (metis length_map scanned_def)
  show ?thesis
    using assms(2,3) len
    by (auto simp: scan_step_def op scanned_def log_refs_def entry_refs_def committed_prefix_snoc
        is_commit_def Let_def le_max_iff_disj split: option.splits op.splits if_splits)
qed

lemma run_entries_scanned:
  assumes "list_all entry_ok es" "list_all readable es" "scanned ds st"
  shows "scanned (ds @ es) (run_entries lap off st es)"
  using assms
proof (induction es arbitrary: ds st off)
  case (Cons e es)
  obtain st' where st': "scan_step (entry_header e) (entry_payload e)
      (wal_pos lap (off + entry_len e)) st = Some st'"
    using scan_step_total Cons.prems by fastforce
  have "scanned (ds @ [e]) st'"
    using scan_step_scanned Cons.prems st' by fastforce
  then show ?case
    using Cons.IH[of "ds @ [e]" st'] Cons.prems st' by simp
qed simp

lemma length_concat_entries:
  "list_all entry_ok es \<Longrightarrow> length (concat (map (entry_bytes lap) es)) = sum_list (map entry_len es)"
  by (induction es) (simp_all add: length_entry_bytes)

lemma entry_len_ge: "120 \<le> entry_len e" if "entry_ok e"
  using entry_okD(1)[OF that] by (simp add: entry_len_def)

lemma wal_pos_below_max: "off < 0xFFFFFFFF \<Longrightarrow> wal_pos lap off < - 1"
proof -
  assume "off < 0xFFFFFFFF"
  moreover have "unat lap * 2 ^ 32 + 0xFFFFFFFF \<le> 0xFFFFFFFFFFFFFFFF"
    using unat_bound[of lap] by simp
  ultimately have "unat (wal_pos lap off) < 0xFFFFFFFFFFFFFFFF"
    by (simp add: unat_wal_pos)
  then show ?thesis
    by (simp add: word_less_nat_alt unsigned_minus_1_eq_mask mask_eq_exp_minus_1)
qed

lemma scan_part_entries:
  assumes "list_all entry_ok es" "list_all readable es"
    and "slice (base + off) (base + end) m = concat (map (entry_bytes lap) es)"
    and "base + end \<le> length m" "off \<le> end" "end < 0xFFFFFFFF"
  shows "scan_part m 8 base lap (- 1) end off st = (run_entries lap off st es, Inr end)"
  using assms
proof (induction es arbitrary: off st)
  case Nil
  then have "off = end"
    using length_slice[of "base + end" m "base + off"] by simp
  then show ?case by (simp add: scan_part.simps)
next
  case (Cons e es)
  have ok: "entry_ok e" using Cons.prems(1) by simp
  have len: "end - off = entry_len e + sum_list (map entry_len es)"
    using length_slice[of "base + end" m "base + off"] Cons.prems(1,3,4)
      length_concat_entries[of "e # es" lap] by simp
  then have lt: "off < end" and fit: "base + off + entry_len e \<le> base + end"
    using entry_len_ge[OF ok] by simp_all
  have split: "slice (base + off) (base + end) m =
      slice (base + off) (base + off + entry_len e) m @ slice (base + off + entry_len e) (base + end) m"
    using fit Cons.prems(4) by (intro slice_split) simp_all
  moreover have "length (slice (base + off) (base + off + entry_len e) m) = entry_len e"
    using fit Cons.prems(4) by (simp add: length_slice)
  ultimately have here: "slice (base + off) (base + off + entry_len e) m = entry_bytes lap e"
    and rest: "slice (base + (off + entry_len e)) (base + end) m = concat (map (entry_bytes lap) es)"
    using Cons.prems(3) length_entry_bytes[OF ok, of lap]
    by (simp_all add: append_eq_append_conv add.assoc)
  have read: "read_record m 8 lap (base + off) =
      Inr (entry_header e, entry_payload e, base + off + entry_len e)"
    using read_record_entry[OF ok _ here] fit Cons.prems(4) by simp
  obtain st' where st': "scan_step (entry_header e) (entry_payload e)
      (wal_pos lap (off + entry_len e)) st = Some st'"
    using scan_step_total[OF ok] Cons.prems(2) by fastforce
  have inside: "\<not> wal_pos lap off \<ge> - 1"
    using wal_pos_below_max[of off lap] lt Cons.prems(6) by (simp only: not_le)
  have "scan_part m 8 base lap (- 1) end off st =
      scan_part m 8 base lap (- 1) end (off + entry_len e) st'"
    using lt read st' inside
    by (subst scan_part.simps) (simp add: add.assoc)
  also have "\<dots> = (run_entries lap (off + entry_len e) st' es, Inr end)"
    using Cons.prems rest fit by (intro Cons.IH) simp_all
  finally show ?case
    using st' by simp
qed

section \<open>Scanning the ring\<close>

lemma lap_newer_asym: "lap_newer a b \<Longrightarrow> \<not> lap_newer b a"
proof -
  assume ab: "lap_newer a b"
  have "sint (b - a) \<le> 0" if "0 < sint (a - b)"
  proof -
    have "sint (- (a - b)) = signed_take_bit 31 (- sint (a - b))"
      using sint_word_minus[of "a - b"] by simp
    also have "\<dots> = - sint (a - b)"
      using that sint_lt[of "a - b"] by (intro signed_take_bit_int_eq_self) simp_all
    finally show ?thesis
      using that by simp
  qed
  then show ?thesis
    using ab by (auto simp: lap_newer_def split: if_splits)
qed

lemma half_okD:
  assumes "half_ok m v h es"
  shows "h_base h + h_size h \<le> length m" "h_size h < 0xFFFFFFFF" "32 \<le> h_checkpoint h"
    "h_checkpoint h \<le> h_head h" "h_written h = h_head h" "h_head h \<le> h_size h"
    "slice (h_base h) (h_base h + 32) m =
       half_header v (h_size h) (h_head h) (h_checkpoint h) (h_lap h)"
    "slice (h_base h + 32) (h_base h + h_head h) m = concat (map (entry_bytes (h_lap h)) es)"
    "list_all entry_ok es" "32 \<le> h_head h"
  using assms by (auto simp: half_ok_def)

lemma half_ok_size: "half_ok m v h es \<Longrightarrow> 32 \<le> h_size h"
  using half_okD(6,10) order_trans by blast

lemma half_ok_head:
  assumes "half_ok m v h es"
  shows "h_head h = 32 + sum_list (map entry_len es)"
proof -
  have "length (slice (h_base h + 32) (h_base h + h_head h) m) = h_head h - 32"
    using half_okD(1,6)[OF assms] by (simp add: length_slice)
  then show ?thesis
    using half_okD(8,9,10)[OF assms] length_concat_entries by simp
qed

lemma half_ok_empty: "half_ok m v h es \<Longrightarrow> half_is_empty h \<longleftrightarrow> es = []"
proof -
  assume ok: "half_ok m v h es"
  have "120 \<le> sum_list (map entry_len es)" if "es \<noteq> []"
    using that half_okD(9)[OF ok] by (cases es) (auto dest: entry_len_ge)
  then show ?thesis
    using half_ok_head[OF ok] by (cases "es = []") (simp_all add: half_is_empty_def not_le del: sum_list_eq_0_iff)
qed

lemma scan_part_half:
  assumes "half_ok m v h es" "list_all readable es"
  shows "scan_part m 8 (h_base h) (h_lap h) (- 1) (h_written h) 32 st =
    (run_entries (h_lap h) 32 st es, Inr (h_head h))"
  using half_okD[OF assms(1)] assms(2) by (simp add: scan_part_entries)

lemma read_plan_all:
  assumes "\<And>i. i < 2 \<Longrightarrow> 0 < h_size (get_half w i) \<Longrightarrow> 32 \<le> h_written (get_half w i)"
  shows "read_plan 32 False w = map (plan_part w) (plan_order w)"
proof -
  have pos: "wal_pos_lap 32 = 0" "wal_pos_offset 32 = 32"
    by (simp_all add: wal_pos_lap_def wal_pos_offset_def drop_bit_eq_div)
  have known: "lap = 0 \<or> lap_newer lap 0" for lap
    by (simp add: lap_newer_def)
  have part: "plan_from True False 32 (plan_part w i) = Some (plan_part w i)" if "i \<in> set (plan_order w)" for i
  proof -
    have "i < 2" "0 < h_size (get_half w i)"
      using that by (auto simp: plan_order_def Let_def split: if_splits)
    then have "32 \<le> h_written (get_half w i)" by (rule assms)
    then show ?thesis
      using known[of "h_lap (get_half w i)"] by (auto simp: plan_from_def plan_part_def pos Let_def)
  qed
  have filt: "List.map_filter f (map g xs) = map g xs" if "\<And>x. x \<in> set xs \<Longrightarrow> f (g x) = Some (g x)" for f g xs
    using that by (induction xs) (simp_all add: map_filter_simps)
  show ?thesis
  proof (cases "plan_order w")
    case (Cons i js)
    then have "list_ex (\<lambda>p. rp_lap p = wal_pos_lap 32 \<or> lap_newer (rp_lap p) (wal_pos_lap 32))
        (map (plan_part w) (plan_order w))"
      using known by (simp add: plan_part_def pos Let_def)
    then show ?thesis
      unfolding read_plan_def Let_def using part by (simp add: filt)
  qed (simp add: read_plan_def map_filter_simps)
qed

lemma ring_okD:
  assumes "ring_ok w es"
  shows "length (w_halves w) = 2" "w_trailer w = 8" "w_commit_room w = 120" "w_fail_commits w = 0"
    "w_active w < 2" "h_base (get_half w 0) = 0"
    "half_ok (w_mmap w) (ring_version w) (get_half w 0) (es 0)"
    "w_two w \<Longrightarrow> half_ok (w_mmap w) (ring_version w) (get_half w 1) (es 1)"
    "w_two w \<Longrightarrow> h_base (get_half w 1) = h_size (get_half w 0)"
    "w_two w \<Longrightarrow> h_size (get_half w 1) = h_size (get_half w 0)"
    "w_two w \<Longrightarrow> 16384 \<le> h_size (get_half w 0)"
    "w_two w \<Longrightarrow> es (1 - w_active w) \<noteq> [] \<Longrightarrow> lap_newer (h_lap (active_half w)) (h_lap (other_half w))"
    "\<not> w_two w \<Longrightarrow> w_active w = 0" "\<not> w_two w \<Longrightarrow> h_size (get_half w 1) = 0"
    "\<not> w_two w \<Longrightarrow> es 1 = []"
    "group_open (es (w_active w)) \<Longrightarrow> h_head (active_half w) + 120 \<le> h_size (active_half w)"
    "\<not> w_two w \<Longrightarrow> get_half w 1 = half_new 0 0 32 32 0"
    "case w_keypair w of None \<Rightarrow> True | Some k \<Rightarrow>
        (\<forall>x. length (kp_sign k x) = 64) \<and> length (kp_pubkey_fp k) = 8"
    "w_two w \<Longrightarrow> \<not> group_open (es (1 - w_active w))"
  using assms by (auto simp: ring_ok_def half_new_def split: if_splits)

lemma less_2_cases_nat: "(i::nat) < 2 \<longleftrightarrow> i = 0 \<or> i = 1"
  by auto

lemma ring_half_ok:
  assumes "ring_ok w es" "i = w_active w \<or> w_two w \<and> i = 1 - w_active w"
  shows "half_ok (w_mmap w) (ring_version w) (get_half w i) (es i)"
  using ring_okD(5,7,8,13)[OF assms(1)] assms(2)
  by (cases "w_two w") (auto simp: less_2_cases_nat)

lemma ring_half_used:
  assumes "ring_ok w es" "i < 2" "0 < h_size (get_half w i)"
  shows "half_ok (w_mmap w) (ring_version w) (get_half w i) (es i)"
  using ring_okD(7,8,14)[OF assms(1)] assms(2,3)
  by (cases "w_two w") (auto simp: less_2_cases_nat)

lemma scanned_init: "scanned [] (scan_init start)"
  by (simp add: scanned_def scan_init_def log_refs_def committed_prefix_def)

lemma plan_log:
  assumes "ring_ok w es"
  shows "concat (map es (plan_order w)) = ring_log w es"
proof (cases "w_two w")
  case True
  have sizes: "h_size (get_half w 0) > 0" "h_size (get_half w 1) > 0"
    using ring_okD(10,11)[OF assms True] by simp_all
  show ?thesis
  proof (cases "es (1 - w_active w) = []")
    case True
    then show ?thesis
      using ring_okD(5)[OF assms] sizes \<open>w_two w\<close>
      by (auto simp: plan_order_def ring_log_def less_2_cases_nat Let_def)
  next
    case False
    then have "lap_newer (h_lap (get_half w (w_active w))) (h_lap (get_half w (1 - w_active w)))"
      using ring_okD(12)[OF assms True] by (simp add: active_half_def other_half_def)
    then show ?thesis
      using ring_okD(5)[OF assms] sizes True lap_newer_asym
      by (auto simp: plan_order_def ring_log_def less_2_cases_nat Let_def)
  qed
next
  case False
  then show ?thesis
    using ring_okD(13,14)[OF assms] half_ok_size[OF ring_okD(7)[OF assms]]
    by (simp add: plan_order_def ring_log_def)
qed

lemma plan_half_ok:
  assumes "ring_ok w es" "i \<in> set (plan_order w)"
  shows "half_ok (w_mmap w) (ring_version w) (get_half w i) (es i)"
proof -
  have "i < 2" "0 < h_size (get_half w i)"
    using assms(2) by (auto simp: plan_order_def Let_def split: if_splits)
  then show ?thesis
    by (rule ring_half_used[OF assms(1)])
qed

lemma scan_parts_entries:
  assumes "\<And>i. i \<in> set js \<Longrightarrow> half_ok m v (get_half w i) (es i)"
    and "list_all readable (concat (map es js))" and "scanned ds st"
  shows "\<exists>st' re'. scan_parts m 8 (- 1) (map (plan_part w) js) re st = (st', StopHead, re') \<and>
    scanned (ds @ concat (map es js)) st'"
  using assms
proof (induction js arbitrary: ds st re)
  case (Cons i js)
  have ok: "half_ok m v (get_half w i) (es i)" using Cons.prems(1) by simp
  let ?st = "run_entries (h_lap (get_half w i)) 32 st (es i)"
  have "scan_part m 8 (h_base (get_half w i)) (h_lap (get_half w i)) (- 1)
      (h_written (get_half w i)) 32 st = (?st, Inr (h_head (get_half w i)))"
    using Cons.prems(2) by (intro scan_part_half[OF ok]) simp
  moreover have "scanned (ds @ es i) ?st"
    using run_entries_scanned[OF half_okD(9)[OF ok]] Cons.prems(2,3) by simp
  ultimately show ?case
    using Cons.IH[of "ds @ es i" ?st] Cons.prems by (simp add: plan_part_def Let_def)
qed simp

text \<open>
  Any start position whose reading plan covers the log (from the first offset, or from a
  checkpoint that has not moved) gives the whole log.
\<close>

definition plan_covers :: "u64 \<Rightarrow> oplog \<Rightarrow> (nat \<Rightarrow> entry list) \<Rightarrow> bool" where
  "plan_covers start w es \<longleftrightarrow> (\<exists>js. read_plan start False w = map (plan_part w) js \<and>
     set js \<subseteq> set (plan_order w) \<and> concat (map es js) = ring_log w es)"

lemma scan_covered:
  assumes "ring_ok w es" "list_all readable (ring_log w es)" "plan_covers start w es"
  shows "so_stop (scan_from_offset start w) = StopHead"
    "map fst (so_out (scan_from_offset start w)) = log_refs (committed_prefix (ring_log w es))"
    "map fst (so_tail (scan_from_offset start w)) = log_refs (open_tail (ring_log w es))"
    "\<forall>e \<in> set (ring_log w es). r64 (e_sb e) 8 \<le> so_max_lsn (scan_from_offset start w) \<and>
       sb_hlc (e_sb e) \<le> so_max_hlc (scan_from_offset start w)"
proof -
  obtain js where plan: "read_plan start False w = map (plan_part w) js"
      and sub: "set js \<subseteq> set (plan_order w)" and log: "concat (map es js) = ring_log w es"
    using assms(3) by (auto simp: plan_covers_def)
  obtain st re where scan: "scan_parts (w_mmap w) 8 (- 1) (map (plan_part w) js) None
      (scan_init start) = (st, StopHead, re)" and sc: "scanned (ring_log w es) st"
    using scan_parts_entries[of js "w_mmap w" "ring_version w" w es "[]" "scan_init start" None]
      plan_half_ok[OF assms(1)] sub log assms(2) scanned_init by auto
  have len: "length (sc_out st) = length (log_refs (ring_log w es))"
    using sc by (metis length_map scanned_def)
  note out = scan scan_from_offset_def scan_range_with_def plan ring_okD(2)[OF assms(1)]
  show "so_stop (scan_from_offset start w) = StopHead"
    by (simp add: out Let_def)
  have split: "log_refs (ring_log w es) = log_refs (committed_prefix (ring_log w es)) @
      log_refs (open_tail (ring_log w es))"
    by (metis committed_open log_refs_append)
  show "map fst (so_out (scan_from_offset start w)) = log_refs (committed_prefix (ring_log w es))"
    using sc split by (simp add: out Let_def scanned_def take_map[symmetric])
  show "map fst (so_tail (scan_from_offset start w)) = log_refs (open_tail (ring_log w es))"
    using sc split by (simp add: out Let_def scanned_def drop_map[symmetric])
  have ok: "entry_ok e" if "e \<in> set (ring_log w es)" for e
    using that half_okD(9)[OF plan_half_ok[OF assms(1)]]
    unfolding plan_log[OF assms(1), symmetric] by (auto simp: list_all_iff)
  show "\<forall>e \<in> set (ring_log w es). r64 (e_sb e) 8 \<le> so_max_lsn (scan_from_offset start w) \<and>
       sb_hlc (e_sb e) \<le> so_max_hlc (scan_from_offset start w)"
    using sc ok entry_header_words by (simp add: out Let_def scanned_def sb_hlc_def)
qed

lemma written_at_least_header:
  assumes "ring_ok w es" "i < 2" "0 < h_size (get_half w i)"
  shows "32 \<le> h_written (get_half w i)"
  using half_okD(5,10)[OF ring_half_used[OF assms]] by simp

lemma start_covers:
  assumes "ring_ok w es"
  shows "plan_covers 32 w es"
  using read_plan_all[of w] written_at_least_header[OF assms] plan_log[OF assms]
  by (auto simp: plan_covers_def)

lemma scan_ring:
  assumes "ring_ok w es" "list_all readable (ring_log w es)"
  shows "so_stop (scan_from_offset 32 w) = StopHead"
    "map fst (so_out (scan_from_offset 32 w)) = log_refs (committed_prefix (ring_log w es))"
    "map fst (so_tail (scan_from_offset 32 w)) = log_refs (open_tail (ring_log w es))"
  by (rule scan_covered[OF assms start_covers[OF assms(1)]])+

lemma map_filter_map_if:
  "(\<And>x. x \<in> set xs \<Longrightarrow> f (g x) = (if P x then Some (g x) else None)) \<Longrightarrow>
    List.map_filter f (map g xs) = map g (filter P xs)"
  by (induction xs) (simp_all add: map_filter_simps)

lemma read_plan_lap:
  assumes "ring_ok w es" "k \<in> set (plan_order w)"
  shows "read_plan (wal_pos (h_lap (get_half w k)) 32) False w = map (plan_part w)
    (filter (\<lambda>i. h_lap (get_half w i) = h_lap (get_half w k) \<or>
       lap_newer (h_lap (get_half w i)) (h_lap (get_half w k))) (plan_order w))"
proof -
  have known: "list_ex (\<lambda>p. rp_lap p = h_lap (get_half w k) \<or> lap_newer (rp_lap p) (h_lap (get_half w k)))
      (map (plan_part w) (plan_order w))"
    using assms(2) by (auto simp: list_ex_iff plan_part_def Let_def)
  have part: "plan_from True False (wal_pos (h_lap (get_half w k)) 32) (plan_part w i) =
      (if h_lap (get_half w i) = h_lap (get_half w k) \<or> lap_newer (h_lap (get_half w i)) (h_lap (get_half w k))
       then Some (plan_part w i) else None)" if "i \<in> set (plan_order w)" for i
  proof -
    have "i < 2" "0 < h_size (get_half w i)"
      using that by (auto simp: plan_order_def Let_def split: if_splits)
    then have "32 \<le> h_written (get_half w i)" by (rule written_at_least_header[OF assms(1)])
    then show ?thesis
      by (simp add: plan_from_def plan_part_def Let_def)
  qed
  show ?thesis
    unfolding read_plan_def Let_def wal_pos_lap_pos[of 32, simplified] using known part
    by (simp add: map_filter_map_if del: map_map)
qed

lemma concat_map_filter_empty:
  "(\<And>x. x \<in> set xs \<Longrightarrow> \<not> P x \<Longrightarrow> f x = []) \<Longrightarrow> concat (map f (filter P xs)) = concat (map f xs)"
  by (induction xs) auto

lemma in_plan_order:
  assumes "ring_ok w es"
  shows "w_active w \<in> set (plan_order w)" "w_two w \<Longrightarrow> 1 - w_active w \<in> set (plan_order w)"
    "i \<in> set (plan_order w) \<Longrightarrow> i = w_active w \<or> w_two w \<and> i = 1 - w_active w"
proof -
  have "0 < h_size (get_half w 0)" "0 < h_size (get_half w 1) \<longleftrightarrow> w_two w"
    using half_ok_size[OF ring_okD(7)[OF assms]] ring_okD(10,11,14)[OF assms] by (cases "w_two w"; simp)+
  moreover have "\<not> w_two w \<Longrightarrow> w_active w = 0" "w_active w < 2"
    using ring_okD(5,13)[OF assms] by simp_all
  ultimately show "w_active w \<in> set (plan_order w)" "w_two w \<Longrightarrow> 1 - w_active w \<in> set (plan_order w)"
    "i \<in> set (plan_order w) \<Longrightarrow> i = w_active w \<or> w_two w \<and> i = 1 - w_active w"
    by (auto simp: plan_order_def Let_def less_2_cases_nat split: if_splits)
qed

lemma checkpoint_covers:
  assumes "ring_ok w es" "\<And>i. i < 2 \<Longrightarrow> h_checkpoint (get_half w i) = 32"
  shows "plan_covers (wal_checkpoint w) w es"
proof -
  define k where "k = (if w_two w \<and> es (1 - w_active w) \<noteq> [] then 1 - w_active w else w_active w)"
  have hok: "half_ok (w_mmap w) (ring_version w) (get_half w i) (es i)"
    if "i = w_active w \<or> w_two w \<and> i = 1 - w_active w" for i
    using ring_half_ok[OF assms(1) that] .
  have two: "0 < h_size (get_half w (1 - w_active w)) \<longleftrightarrow> w_two w"
    using ring_okD(13,14)[OF assms(1)] half_ok_size[OF hok[of "1 - w_active w"]] by (cases "w_two w") auto
  have emp: "w_two w \<Longrightarrow> half_is_empty (get_half w (1 - w_active w)) \<longleftrightarrow> es (1 - w_active w) = []"
    using half_ok_empty[OF hok[of "1 - w_active w"]] by simp
  have cp: "wal_checkpoint w = wal_pos (h_lap (get_half w k)) 32"
    using assms(2)[of "1 - w_active w"] assms(2)[of "w_active w"] ring_okD(5)[OF assms(1)] two emp
    by (auto simp: wal_checkpoint_def active_half_def other_half_def k_def half_is_empty_def Let_def)
  have k: "k \<in> set (plan_order w)" using in_plan_order(1,2)[OF assms(1)] by (simp add: k_def)
  have skipped: "es i = []" if "i \<in> set (plan_order w)"
      "\<not> (h_lap (get_half w i) = h_lap (get_half w k) \<or> lap_newer (h_lap (get_half w i)) (h_lap (get_half w k)))" for i
    using in_plan_order(3)[OF assms(1) that(1)] that(2) ring_okD(12)[OF assms(1)]
    by (auto simp: k_def active_half_def other_half_def split: if_splits)
  show ?thesis
    unfolding plan_covers_def cp read_plan_lap[OF assms(1) k]
    using plan_log[OF assms(1)] skipped by (auto intro!: exI concat_map_filter_empty[THEN trans])
qed

section \<open>Writing into a half\<close>

lemma put_record_entry:
  assumes "length header = 112" "at + 120 + length payload \<le> length m"
  shows "put_record at header payload 8 lap m = put_at at (header @ payload @ lap_trailer lap) m"
proof -
  have "put_at at header (put_at (at + 112) payload m) = put_at at (header @ payload) m"
    using assms put_at_join_after[of at header payload m] by simp
  moreover have "put_at (at + 112 + length payload) (lap_trailer lap) (put_at at (header @ payload) m) =
      put_at at (header @ payload @ lap_trailer lap) m"
    using assms put_at_join_before[of at "header @ payload" "lap_trailer lap" m]
    by (simp add: add.assoc)
  ultimately show ?thesis
    by (simp add: put_record_def Let_def)
qed

lemma half_header_update:
  "put_at 8 (to_le_bytes (word_of_nat hp' :: u64)) (half_header v sz hp cp lap) = half_header v sz hp' cp lap"
  "put_at 16 (to_le_bytes (word_of_nat cp' :: u64)) (half_header v sz hp cp lap) = half_header v sz hp cp' lap"
  "put_at 28 (to_le_bytes lap') (half_header v sz hp cp lap) = half_header v sz hp cp lap'"
  "put_at 24 (to_le_bytes (word_of_nat sz' :: u32)) (half_header v sz hp cp lap) = half_header v sz' hp cp lap"
  "put_at 4 (to_le_bytes v') (half_header v sz hp cp lap) = half_header v' sz hp cp lap"
  by (simp_all add: half_header_def put_at_append_skip put_at_append_here)
    (simp add: put_at_def)

lemma half_ok_other:
  assumes "half_ok m v h es" "off + length bs \<le> length m"
    and "off + length bs \<le> h_base h \<or> h_base h + h_size h \<le> off"
  shows "half_ok (put_at off bs m) v h es"
proof -
  have "slice (h_base h) (h_base h + 32) (put_at off bs m) = slice (h_base h) (h_base h + 32) m"
    using assms half_ok_size[OF assms(1)] by (intro slice_put_out) auto
  moreover have "slice (h_base h + 32) (h_base h + h_head h) (put_at off bs m) =
      slice (h_base h + 32) (h_base h + h_head h) m"
    using assms half_okD(6)[OF assms(1)] by (intro slice_put_out) auto
  ultimately show ?thesis
    using assms(1,2) by (simp add: half_ok_def length_put_at)
qed

lemma half_ok_header:
  assumes ok: "half_ok m v h es" and off: "off + length bs \<le> 32"
    and hdr: "put_at off bs (half_header v (h_size h) (h_head h) (h_checkpoint h) (h_lap h)) =
      half_header v' (h_size h') (h_head h') (h_checkpoint h') (h_lap h')"
    and same: "h_base h' = h_base h" "h_size h' = h_size h" "h_head h' = h_head h"
      "h_written h' = h_head h'" "h_lap h' = h_lap h \<or> es = []"
    and cp: "32 \<le> h_checkpoint h'" "h_checkpoint h' \<le> h_head h'"
  shows "half_ok (put_at (h_base h + off) bs m) v' h' es"
proof -
  note d = half_okD[OF ok]
  have "slice (h_base h) (h_base h + 32) (put_at (h_base h + off) bs m) =
      put_at off bs (slice (h_base h) (h_base h + 32) m)"
    using off d(1) half_ok_size[OF ok] slice_put_inside[of "h_base h" "h_base h + off" bs "h_base h + 32" m]
    by simp
  then have "slice (h_base h) (h_base h + 32) (put_at (h_base h + off) bs m) =
      half_header v' (h_size h') (h_head h') (h_checkpoint h') (h_lap h')"
    using d(7) hdr by simp
  moreover have "slice (h_base h + 32) (h_base h + h_head h) (put_at (h_base h + off) bs m) =
      slice (h_base h + 32) (h_base h + h_head h) m"
    using off d(1) half_ok_size[OF ok] by (intro slice_put_out) auto
  ultimately show ?thesis
    using d off half_ok_size[OF ok] same cp by (auto simp: half_ok_def length_put_at)
qed

lemma half_ok_put_body:
  assumes ok: "half_ok m v h es" and e: "entry_ok e" and fit: "h_head h + entry_len e \<le> h_size h"
  shows "slice (h_base h) (h_base h + 32) (put_at (h_base h + h_head h) (entry_bytes (h_lap h) e) m) =
      slice (h_base h) (h_base h + 32) m"
    "slice (h_base h + 32) (h_base h + (h_head h + entry_len e))
        (put_at (h_base h + h_head h) (entry_bytes (h_lap h) e) m) =
      concat (map (entry_bytes (h_lap h)) (es @ [e]))"
    "length (put_at (h_base h + h_head h) (entry_bytes (h_lap h) e) m) = length m"
proof -
  note d = half_okD[OF ok]
  let ?b = "entry_bytes (h_lap h) e" and ?at = "h_base h + h_head h"
  have len: "length ?b = entry_len e"
    using e by (rule length_entry_bytes)
  have inm: "?at + length ?b \<le> length m"
    using len fit d(1) by simp
  show lenm: "length (put_at ?at ?b m) = length m"
    using inm by (rule length_put_at)
  show "slice (h_base h) (h_base h + 32) (put_at ?at ?b m) = slice (h_base h) (h_base h + 32) m"
    using d(10) inm by (intro slice_put_before) simp_all
  have "slice (h_base h + 32) (h_base h + (h_head h + entry_len e)) (put_at ?at ?b m) =
      slice (h_base h + 32) ?at (put_at ?at ?b m) @ slice ?at (?at + length ?b) (put_at ?at ?b m)"
    using d(10) inm len lenm slice_split[of "h_base h + 32" ?at "?at + length ?b" "put_at ?at ?b m"]
    by (simp add: add.assoc)
  also have "slice (h_base h + 32) ?at (put_at ?at ?b m) = concat (map (entry_bytes (h_lap h)) es)"
    using d(8) inm by (simp add: slice_put_before)
  also have "slice ?at (?at + length ?b) (put_at ?at ?b m) = ?b"
    using inm by (rule slice_put_same)
  finally show "slice (h_base h + 32) (h_base h + (h_head h + entry_len e)) (put_at ?at ?b m) =
      concat (map (entry_bytes (h_lap h)) (es @ [e]))"
    by simp
qed

lemma half_append:
  assumes ok: "half_ok m v h es" and e: "entry_ok e" and fit: "h_head h + entry_len e \<le> h_size h"
  shows "half_ok (put_at (h_base h + 8) (to_le_bytes (word_of_nat (h_head h + entry_len e) :: u64))
      (put_at (h_base h + h_head h) (entry_bytes (h_lap h) e) m)) v
    (h\<lparr>h_head := h_head h + entry_len e, h_written := h_head h + entry_len e\<rparr>) (es @ [e])"
proof -
  note d = half_okD[OF ok]
  let ?m1 = "put_at (h_base h + h_head h) (entry_bytes (h_lap h) e) m"
  let ?n = "h_head h + entry_len e"
  let ?hd = "to_le_bytes (word_of_nat ?n :: u64)"
  note body = half_ok_put_body[OF ok e fit]
  have "slice (h_base h) (h_base h + 32) (put_at (h_base h + 8) ?hd ?m1) =
      put_at 8 ?hd (slice (h_base h) (h_base h + 32) ?m1)"
    using body(3) d(1) half_ok_size[OF ok] slice_put_inside[of "h_base h" "h_base h + 8" ?hd "h_base h + 32" ?m1]
    by simp
  then have hdr: "slice (h_base h) (h_base h + 32) (put_at (h_base h + 8) ?hd ?m1) =
      half_header v (h_size h) ?n (h_checkpoint h) (h_lap h)"
    unfolding body(1) d(7) half_header_update .
  have "slice (h_base h + 32) (h_base h + ?n) (put_at (h_base h + 8) ?hd ?m1) =
      slice (h_base h + 32) (h_base h + ?n) ?m1"
    using body(3) d(1) half_ok_size[OF ok] by (intro slice_put_after) simp_all
  then show ?thesis
    using hdr d body half_ok_size[OF ok] fit e by (simp add: half_ok_def length_put_at)
qed

section \<open>Appending to the ring\<close>

lemma alloc_head_ok:
  assumes "half_ok (w_mmap w) v h es"
  shows "alloc_head w h = h_head h"
proof -
  note d = half_okD[OF assms]
  have "slice (h_base h + 8) (h_base h + 16) (w_mmap w) =
      slice 8 16 (slice (h_base h) (h_base h + 32) (w_mmap w))"
    by (simp add: slice_slice)
  then have "r64 (w_mmap w) (h_base h + 8) = word_of_nat (h_head h)"
    by (simp add: r64_def d(7) half_header_fields add.assoc)
  moreover have "unat (word_of_nat (h_head h) :: u64) = h_head h"
    using d(2,6) by (simp add: unat_of_nat)
  ultimately show ?thesis
    by (simp add: alloc_head_def)
qed

lemma get_set_half [simp]:
  "i < length (w_halves w) \<Longrightarrow> get_half (set_half i h w) j = (if j = i then h else get_half w j)"
  by (simp add: get_half_def set_half_def)

lemma appended_get:
  assumes "appended i e w w'" "i < length (w_halves w)"
  shows "get_half w' j = (if j = i then (get_half w i)\<lparr>h_head := h_head (get_half w i) + entry_len e,
      h_written := h_head (get_half w i) + entry_len e\<rparr> else get_half w j)"
  using assms by (simp add: appended_def get_half_def Let_def)

lemma halves_apart:
  assumes "ring_ok w es" "w_two w" "i < 2"
  shows "h_base (get_half w i) + h_size (get_half w i) \<le> h_base (get_half w (1 - i)) \<or>
    h_base (get_half w (1 - i)) + h_size (get_half w (1 - i)) \<le> h_base (get_half w i)"
  using ring_okD(6,9,10)[OF assms(1)] assms(2,3) by (auto simp: less_2_cases_nat)

lemma group_open_snoc: "group_open (es @ [e]) \<longleftrightarrow> \<not> is_commit e"
  by (simp add: group_open_def)

lemma appended_ring_ok:
  assumes ok: "ring_ok w es" and app: "appended (w_active w) e w w'" and e: "entry_ok e"
    and fit: "h_head (active_half w) + entry_len e \<le> h_size (active_half w)"
    and room: "\<not> is_commit e \<Longrightarrow> h_head (active_half w) + entry_len e + 120 \<le> h_size (active_half w)"
  defines "es' \<equiv> es(w_active w := es (w_active w) @ [e])"
  shows "ring_ok w' es'" "ring_log w' es' = ring_log w es @ [e]"
proof -
  let ?i = "w_active w"
  let ?h = "get_half w ?i"
  let ?m = "w_mmap w" and ?m' = "w_mmap w'"
  note d = ring_okD[OF ok]
  have i: "?i < length (w_halves w)" using d(1,5) by simp
  note get = appended_get[OF app i]
  have same: "same_ring w w'" using app by (simp add: appended_def Let_def)
  have v: "ring_version w' = ring_version w" using same by (simp add: ring_version_def same_ring_def)
  have hok: "half_ok ?m (ring_version w) ?h (es ?i)"
    using ring_half_ok[OF ok] by blast
  have act: "half_ok ?m' (ring_version w) (get_half w' ?i) (es ?i @ [e])"
    using half_append[OF hok e] fit app i
    by (simp add: appended_def Let_def active_half_def get)
  have other: "half_ok ?m' (ring_version w) (get_half w' (1 - ?i)) (es (1 - ?i))" if two: "w_two w"
  proof -
    let ?o = "get_half w (1 - ?i)"
    have ook: "half_ok ?m (ring_version w) ?o (es (1 - ?i))"
      using ring_half_ok[OF ok] two by blast
    have apart: "h_base ?h + h_size ?h \<le> h_base ?o \<or> h_base ?o + h_size ?o \<le> h_base ?h"
      using halves_apart[OF ok two d(5)] .
    have len: "length (entry_bytes (h_lap ?h) e) = entry_len e" by (rule length_entry_bytes[OF e])
    have m1: "half_ok (put_at (h_base ?h + h_head ?h) (entry_bytes (h_lap ?h) e) ?m) (ring_version w) ?o (es (1 - ?i))"
      using apart fit half_okD(1)[OF hok] len by (intro half_ok_other[OF ook]) (auto simp: active_half_def)
    have "half_ok ?m' (ring_version w) ?o (es (1 - ?i))"
      using app apart half_okD(1)[OF hok] half_ok_size[OF hok] half_ok_put_body(3)[OF hok e] fit
      unfolding appended_def Let_def
      by (simp only:) (intro half_ok_other[OF m1]; auto simp: active_half_def)
    then show ?thesis
      using d(5) by (auto simp: get less_2_cases_nat)
  qed
  have idx: "?i = 0 \<or> ?i = 1" using d(5) by (simp add: less_2_cases_nat)
  have basic: "length (w_halves w') = 2" "w_trailer w' = 8" "w_commit_room w' = 120"
    "w_fail_commits w' = 0" "w_active w' = ?i" "w_two w' = w_two w" "w_keypair w' = w_keypair w"
    using same d app by (simp_all add: same_ring_def appended_def Let_def)
  have keep: "h_base (get_half w' j) = h_base (get_half w j)" "h_size (get_half w' j) = h_size (get_half w j)"
    "h_lap (get_half w' j) = h_lap (get_half w j)" for j
    by (simp_all add: get)
  have kp: "case w_keypair w of None \<Rightarrow> True | Some k \<Rightarrow>
        (\<forall>x. length (kp_sign k x) = 64) \<and> length (kp_pubkey_fp k) = 8"
    using ok by (simp add: ring_ok_def)
  have go: "group_open (es ?i @ [e]) \<Longrightarrow> h_head (active_half w') + 120 \<le> h_size (active_half w')"
    using room by (simp add: group_open_snoc active_half_def basic get add.commute)
  have newer: "es (1 - ?i) \<noteq> [] \<Longrightarrow> w_two w \<Longrightarrow> lap_newer (h_lap (active_half w')) (h_lap (other_half w'))"
    using d(12) by (simp add: active_half_def other_half_def basic keep)
  show "ring_ok w' es'"
  proof (cases "w_two w")
    case True
    have halves: "half_ok ?m' (ring_version w) (get_half w' 0) (es' 0)"
      "half_ok ?m' (ring_version w) (get_half w' 1) (es' 1)"
      using idx act other[OF True] by (auto simp: es'_def)
    have "es' (1 - ?i) = es (1 - ?i)"
      using idx by (auto simp: es'_def)
    then show ?thesis
      using True basic halves keep d kp newer go
      by (simp add: ring_ok_def v) (simp add: es'_def)
  next
    case False
    then show ?thesis
      using d(13)[OF False] basic act keep d kp go get[of 1]
      by (simp add: ring_ok_def v es'_def)
  qed
  show "ring_log w' es' = ring_log w es @ [e]"
    using idx basic by (auto simp: ring_log_def es'_def)
qed

lemma signed_payload_words:
  "r32 (signed_payload opb len lsn hlc author crc p) 4 = len"
  "r32 (signed_payload opb len lsn hlc author crc p) 36 = crc"
  "slice 0 2 (signed_payload opb len lsn hlc author crc p) = REC_MAGIC"
  by (simp_all add: signed_payload_def r32_def buf_simps)

lemma new_entry_ok:
  assumes "length payload < 2 ^ 32" "length sig = 64" "length fp = 8"
  shows "entry_ok (new_entry w_op payload lsn hlc author sig fp)"
  using assms
  by (simp add: entry_ok_def new_entry_def relay_check_def length_signed_payload signed_payload_words
      signed_payload_fields signed_bytes_crc_def new_record_crc_def known_version_def unat_len_u32)

lemma new_entry_len: "entry_len (new_entry w_op payload lsn hlc author sig fp) = 120 + length payload"
  by (simp add: entry_len_def new_entry_def length_signed_payload)

lemma new_entry_bytes:
  "entry_bytes lap (new_entry w_op payload lsn hlc author sig fp) =
     rec_header (op_byte w_op) (word_of_nat (length payload)) lsn hlc author
       (new_record_crc (op_byte w_op) (word_of_nat (length payload)) lsn hlc author payload) sig fp @
     payload @ lap_trailer lap"
proof -
  have "take 40 (signed_payload opb len lsn hlc author crc payload) =
      signed_payload opb len lsn hlc author crc []" for opb len crc
    by (simp add: signed_payload_def)
  then show ?thesis
    by (simp add: entry_bytes_def entry_header_def entry_payload_def new_entry_def
        signed_payload_fields(3)) (simp add: rec_header_def signed_payload_def)
qed

lemma length_rec_header:
  "length sig = 64 \<Longrightarrow> length fp = 8 \<Longrightarrow> length (rec_header opb len lsn hlc author crc sig fp) = 112"
  by (simp add: rec_header_def)

lemma new_entry_decodes:
  assumes "op_ok w_op" "write_payload w_op = Some payload" "length payload < 2 ^ 32"
  shows "decode_signed (e_sb (new_entry w_op payload lsn hlc author sig fp)) = Some (lsn, hlc, author, w_op)"
  unfolding new_entry_def using assms by (simp add: decode_signed_payload decode_write)

lemma new_entry_op:
  assumes "op_ok w_op" "write_payload w_op = Some payload"
  shows "entry_op (new_entry w_op payload lsn hlc author sig fp) = Some w_op"
proof -
  have "signed_payload opb len lsn hlc author crc payload ! 3 = opb" for opb len crc
    by (simp add: signed_payload_def nth_append)
  then show ?thesis
    using assms by (simp add: entry_op_def entry_payload_def new_entry_def signed_payload_fields(3)
        decode_write)
qed

lemma alloc_off_ok:
  assumes "half_ok (w_mmap w) v (get_half w i) es"
  shows "alloc_off i sz closes w =
    (if h_head (get_half w i) + sz + (if closes then 0 else w_commit_room w) > h_size (get_half w i)
     then None
     else Some (set_half i ((get_half w i)\<lparr>h_head := h_head (get_half w i) + sz\<rparr>) w, h_head (get_half w i)))"
  by (simp add: alloc_off_def Let_def alloc_head_ok[OF assms])

lemma mint_frame:
  "same_ring w (snd (mint now w))" "w_halves (snd (mint now w)) = w_halves w"
  "w_mmap (snd (mint now w)) = w_mmap w" "w_next_lap (snd (mint now w)) = w_next_lap w"
  by (simp_all add: mint_def same_ring_def split: prod.splits)

text \<open>
  Every append writes one record after the old head and then moves the head: the common
  last step of single appends, batches, relayed records and the closing Commit.
\<close>

lemma write_entry_appended:
  assumes "half_ok (w_mmap w) v (get_half w i) es" "entry_ok e" "i < length (w_halves w)"
    and "h_head (get_half w i) + entry_len e \<le> h_size (get_half w i)"
    and "w_mmap w2 = w_mmap w" "same_ring w w2"
    and "w_halves w2 = (w_halves w)[i := (get_half w i)\<lparr>h_head := h_head (get_half w i) + entry_len e\<rparr>]"
    and "entry_header e = hdr" "entry_payload e = pl"
  shows "appended i e w (put_head i (h_head (get_half w i) + entry_len e)
    (w2\<lparr>w_mmap := put_record (h_base (get_half w i) + h_head (get_half w i)) hdr pl 8
       (h_lap (get_half w i)) (w_mmap w)\<rparr>))"
proof -
  let ?h = "get_half w i"
  have fit: "h_base ?h + h_head ?h + 120 + length pl \<le> length (w_mmap w)"
    using assms(4) half_okD(1)[OF assms(1)] entry_okD(1)[OF assms(2)]
    by (simp add: entry_len_def entry_payload_def assms(9)[symmetric])
  have rec: "put_record (h_base ?h + h_head ?h) hdr pl 8 (h_lap ?h) (w_mmap w) =
      put_at (h_base ?h + h_head ?h) (entry_bytes (h_lap ?h) e) (w_mmap w)"
    using put_record_entry[OF _ fit] length_entry_header[OF assms(2)] assms(8,9)
    by (simp add: entry_bytes_def)
  show ?thesis
    using assms(3,6,7)
    by (simp add: appended_def put_head_def set_half_def get_half_def rec[unfolded get_half_def] Let_def
        same_ring_def)
qed

lemma sign_or_zero_lengths:
  assumes "ring_ok w es" "sign_or_zero (w_keypair w) x = (sig, fp)"
  shows "length sig = 64" "length fp = 8"
  using assms
  by (auto simp: ring_ok_def sign_or_zero_def ZERO_SIGNATURE_def ZERO_PUBKEY_FP_def split: option.splits)

lemma ringok_i: "ring_ok w es \<Longrightarrow> w_active w < length (w_halves w)"
  using ring_okD(1,5) by simp

lemma same_ringD:
  assumes "same_ring w w'"
  shows "w_active w' = w_active w" "w_two w' = w_two w" "w_trailer w' = w_trailer w"
    "w_commit_room w' = w_commit_room w" "w_fail_commits w' = w_fail_commits w"
    "w_keypair w' = w_keypair w"
  using assms by (simp_all add: same_ring_def)

lemma new_entry_parts:
  "entry_header (new_entry w_op payload lsn hlc author sig fp) =
     rec_header (op_byte w_op) (word_of_nat (length payload)) lsn hlc author
       (new_record_crc (op_byte w_op) (word_of_nat (length payload)) lsn hlc author payload) sig fp"
  "entry_payload (new_entry w_op payload lsn hlc author sig fp) = payload"
  by (simp_all add: entry_header_def entry_payload_def new_entry_def signed_payload_fields(3))
    (simp add: rec_header_def signed_payload_def)

text \<open>The space of the next record was reserved in the active half of \<^term>\<open>w\<close>.\<close>

definition reserved :: "oplog \<Rightarrow> nat \<Rightarrow> oplog \<Rightarrow> bool" where
  "reserved w sz w1 \<longleftrightarrow>
     w1 = set_half (w_active w) ((active_half w)\<lparr>h_head := h_head (active_half w) + sz\<rparr>) w"

lemma append_clock_frame:
  assumes "append_clock now w_op relay ho w = (hlc, author, w3)"
  shows "w_mmap w3 = w_mmap w" "same_ring w w3" "w_halves w3 = w_halves w"
    "w_next_lsn w3 = w_next_lsn w" "w_next_lap w3 = w_next_lap w" "w_peer w3 = w_peer w"
    "author = (case relay of None \<Rightarrow> hlc_peer hlc | Some r \<Rightarrow> rh_author r)"
    "case relay of Some r \<Rightarrow> hlc = rh_hlc r
     | None \<Rightarrow> (case ho of Some h \<Rightarrow> hlc = h | None \<Rightarrow> hlc = fst (next_hlc (w_peer w) now (w_hlc w)))"
  using assms
  by (auto simp: append_clock_def mint_def same_ring_def Let_def split: option.splits prod.splits if_splits)

lemma append_signature_lengths:
  assumes "ring_ok w es" "append_signature relay (w_keypair w) msg = (sig, fp)"
    and "case relay of None \<Rightarrow> True | Some r \<Rightarrow> length (rh_signature r) = 64 \<and> length (rh_pubkey_fp r) = 8"
  shows "length sig = 64" "length fp = 8"
  using assms sign_or_zero_lengths[OF assms(1)]
  by (auto simp: append_signature_def split: option.splits)

lemma put_head_frame:
  "w_next_lsn (put_head i n w) = w_next_lsn w" "w_next_lap (put_head i n w) = w_next_lap w"
  "same_ring w (put_head i n w)" "w_hlc (put_head i n w) = w_hlc w"
  by (simp_all add: put_head_def set_half_def same_ring_def Let_def)

text \<open>The record an append describes: its place in the log and where its clock comes from.\<close>

definition describes ::
  "u64 \<Rightarrow> op \<Rightarrow> relayed_header option \<Rightarrow> hlc option \<Rightarrow> oplog \<Rightarrow> u64 \<Rightarrow> hlc \<Rightarrow> entry \<Rightarrow> bool" where
  "describes now w_op relay ho w lsn hlc e \<longleftrightarrow>
     lsn = w_next_lsn w \<and>
     (case relay of
        Some r \<Rightarrow> hlc = rh_hlc r
      | None \<Rightarrow> (case ho of Some h \<Rightarrow> hlc = h | None \<Rightarrow> hlc = fst (next_hlc (w_peer w) now (w_hlc w)))) \<and>
     decode_signed (e_sb e) =
       Some (lsn, hlc, case relay of None \<Rightarrow> hlc_peer hlc | Some r \<Rightarrow> rh_author r, w_op) \<and>
     entry_op e = Some w_op"

lemma append_locked_reserved:
  assumes ok: "ring_ok w0 es" and al: "alloc now (120 + payload_size w_op) closes w =
      (w1, Some (w_active w0, h_head (active_half w0)))" and res: "reserved w0 (120 + payload_size w_op) w1"
    and t: "w_trailer w = 8" and op: "op_ok w_op"
    and fit: "h_head (active_half w0) + 120 + payload_size w_op \<le> h_size (active_half w0)"
    and rel: "case relay of None \<Rightarrow> True | Some r \<Rightarrow> length (rh_signature r) = 64 \<and> length (rh_pubkey_fp r) = 8"
  shows "\<exists>w' lsn hlc e. append_locked now w_op closes relay ho w = (w', Inr (lsn, hlc)) \<and>
    describes now w_op relay ho w0 lsn hlc e \<and> appended (w_active w0) e w0 w' \<and> entry_ok e \<and>
    entry_len e = 120 + payload_size w_op \<and>
    w_next_lsn w' = w_next_lsn w0 + 1 \<and> w_next_lap w' = w_next_lap w0"
proof -
  let ?i = "w_active w0" and ?h = "active_half w0" and ?n = "payload_size w_op"
  have i: "?i < length (w_halves w0)" using ringok_i[OF ok] .
  have hok: "half_ok (w_mmap w0) (ring_version w0) (get_half w0 ?i) (es ?i)"
    using ring_half_ok[OF ok] by blast
  obtain payload where pl: "write_payload w_op = Some payload"
    using write_payload_some[OF op] by blast
  have len: "length payload = ?n" using write_payload_length[OF pl] .
  have small: "length payload < 2 ^ 32"
    using fit len half_okD(2)[OF hok] by (simp add: active_half_def)
  have w1: "w_mmap w1 = w_mmap w0" "same_ring w0 w1" "w_next_lsn w1 = w_next_lsn w0"
    "w_next_lap w1 = w_next_lap w0" "w_peer w1 = w_peer w0" "w_hlc w1 = w_hlc w0"
    "w_halves w1 = (w_halves w0)[?i := (get_half w0 ?i)\<lparr>h_head := h_head (get_half w0 ?i) + (120 + ?n)\<rparr>]"
    using res by (simp_all add: reserved_def set_half_def same_ring_def active_half_def)
  have h1: "h_base (get_half w1 ?i) = h_base ?h" "h_lap (get_half w1 ?i) = h_lap ?h"
    using i by (simp_all add: get_half_def w1 active_half_def)
  obtain hlc author w3 where clock: "append_clock now w_op relay ho (w1\<lparr>w_next_lsn := w_next_lsn w1 + 1\<rparr>) =
      (hlc, author, w3)"
    by (metis prod_cases3)
  note f = append_clock_frame[OF clock]
  have w3: "w_mmap w3 = w_mmap w0" "same_ring w0 w3" "w_halves w3 = w_halves w1" "w_keypair w3 = w_keypair w0"
    "w_trailer w3 = 8"
    using f(1,2,3) w1 ring_okD(2)[OF ok] by (simp_all add: same_ring_def)
  let ?crc = "new_record_crc (op_byte w_op) (word_of_nat ?n) (w_next_lsn w0) hlc author payload"
  obtain sig fp where sf: "append_signature relay (w_keypair w0)
      (signed_payload (op_byte w_op) (word_of_nat ?n) (w_next_lsn w0) hlc author ?crc payload) = (sig, fp)"
    by (metis surj_pair)
  note slen = append_signature_lengths[OF ok sf rel]
  let ?e = "new_entry w_op payload (w_next_lsn w0) hlc author sig fp"
  let ?m = "put_record (h_base ?h + h_head ?h) (entry_header ?e) (entry_payload ?e) 8 (h_lap ?h) (w_mmap w0)"
  let ?w' = "put_head ?i (h_head ?h + (120 + ?n)) (w3\<lparr>w_mmap := ?m\<rparr>)"
  have "append_locked now w_op closes relay ho w = (?w', Inr (w_next_lsn w0, hlc))"
    using al clock sf
    by (simp add: append_locked_def t pl w1(3) w3 h1 new_entry_parts len Let_def)
  moreover have "appended ?i ?e w0 ?w'"
    using write_entry_appended[OF hok new_entry_ok[OF small slen] i, where ?w2.0 = w3] fit len w3 w1(7)
    by (simp add: new_entry_len active_half_def add.assoc)
  moreover have "describes now w_op relay ho w0 (w_next_lsn w0) hlc ?e"
    using f(7,8) w1 new_entry_decodes[OF op pl small] new_entry_op[OF op pl]
    by (simp add: describes_def split: option.splits)
  moreover have "w_next_lsn ?w' = w_next_lsn w0 + 1" "w_next_lap ?w' = w_next_lap w0"
    using f(4,5) w1 by (simp_all add: put_head_frame)
  ultimately show ?thesis
    using new_entry_ok[OF small slen] len new_entry_len by metis
qed

section \<open>Switching halves\<close>

lemma same_ring_trans: "same_ring a b \<Longrightarrow> same_ring b c \<Longrightarrow> same_ring a c"
  by (simp add: same_ring_def)

lemma close_group:
  assumes ok: "ring_ok w es" and w1_def: "w1 = close_group_for_switch now (w_active w) w"
  shows "w1 = w \<and> \<not> group_open (es (w_active w)) \<or>
    (\<exists>e. appended (w_active w) e w w1 \<and> entry_ok e \<and> is_commit e \<and>
       h_head (active_half w) + entry_len e \<le> h_size (active_half w) \<and>
       w_next_lsn w1 = w_next_lsn w + 1 \<and> w_next_lap w1 = w_next_lap w)"
proof -
  let ?i = "w_active w" and ?h = "active_half w"
  have i: "?i < length (w_halves w)" using ringok_i[OF ok] .
  have hok: "half_ok (w_mmap w) (ring_version w) (get_half w ?i) (es ?i)"
    using ring_half_ok[OF ok] by blast
  have fault: "take_commit_fault w = (w, False)"
    using ring_okD(4)[OF ok] by (simp add: take_commit_fault_def)
  show ?thesis
  proof (cases "h_head ?h + 120 > h_size ?h")
    case True
    then have "w1 = w"
      using ring_okD(2,3)[OF ok]
      by (simp add: w1_def close_group_for_switch_def fault alloc_off_ok[OF hok] active_half_def)
    moreover have "\<not> group_open (es ?i)"
      using True ring_okD(16)[OF ok] by auto
    ultimately show ?thesis by blast
  next
    case False
    let ?w0 = "set_half ?i (?h\<lparr>h_head := h_head ?h + 120\<rparr>) w"
    let ?lsn = "w_next_lsn w"
    obtain hlc w2 where mint: "mint now (?w0\<lparr>w_next_lsn := ?lsn + 1\<rparr>) = (hlc, w2)"
      by fastforce
    have w2: "w_mmap w2 = w_mmap w" "same_ring w w2" "w_next_lsn w2 = ?lsn + 1" "w_next_lap w2 = w_next_lap w"
      "w_halves w2 = (w_halves w)[?i := ?h\<lparr>h_head := h_head ?h + 120\<rparr>]"
      using mint by (auto simp: mint_def set_half_def same_ring_def split: prod.splits)
    let ?crc = "new_record_crc 4 0 ?lsn hlc (hlc_peer hlc) []"
    obtain sig fp where sf: "sign_or_zero (w_keypair w) (signed_payload 4 0 ?lsn hlc (hlc_peer hlc) ?crc []) = (sig, fp)"
      by fastforce
    note slen = sign_or_zero_lengths[OF ok sf]
    let ?e = "new_entry Commit [] ?lsn hlc (hlc_peer hlc) sig fp"
    have eok: "entry_ok ?e" using new_entry_ok[of "[]"] slen by simp
    have elen: "entry_len ?e = 120" by (simp add: new_entry_len)
    have com: "is_commit ?e" by (simp add: is_commit_def new_entry_op)
    let ?m = "put_record (h_base ?h + h_head ?h) (entry_header ?e) (entry_payload ?e) 8 (h_lap ?h) (w_mmap w)"
    have "w1 = put_head ?i (h_head ?h + 120) (w2\<lparr>w_mmap := ?m\<rparr>)"
      using False mint sf ring_okD(2,3)[OF ok] w2 same_ringD(3,6)[OF w2(2)] i
      by (simp add: w1_def close_group_for_switch_def fault alloc_off_ok[OF hok] active_half_def
          new_entry_parts set_half_def get_half_def Let_def)
    moreover have "appended ?i ?e w (put_head ?i (h_head ?h + 120) (w2\<lparr>w_mmap := ?m\<rparr>))"
      using write_entry_appended[OF hok eok i, where ?w2.0 = w2] False w2 elen
      by (simp add: active_half_def)
    ultimately show ?thesis
      using eok com elen False w2 by (intro disjI2 exI[of _ ?e]) (simp add: put_head_frame)
  qed
qed

lemma close_group_ring:
  assumes ok: "ring_ok w es" and w1: "w1 = close_group_for_switch now (w_active w) w"
  shows "\<exists>es1 mid. ring_ok w1 es1 \<and> ring_log w1 es1 = ring_log w es @ mid \<and> list_all is_commit mid \<and>
    length mid \<le> 1 \<and> es1 (1 - w_active w) = es (1 - w_active w) \<and> \<not> group_open (es1 (w_active w)) \<and>
    same_ring w w1 \<and> w_next_lsn w1 = w_next_lsn w + of_nat (length mid) \<and> w_next_lap w1 = w_next_lap w \<and>
    (\<forall>j. h_lap (get_half w1 j) = h_lap (get_half w j) \<and> h_base (get_half w1 j) = h_base (get_half w j) \<and>
       h_size (get_half w1 j) = h_size (get_half w j)) \<and>
    get_half w1 (1 - w_active w) = get_half w (1 - w_active w)"
proof -
  from close_group[OF ok w1] consider "w1 = w" "\<not> group_open (es (w_active w))"
    | e where "appended (w_active w) e w w1" "entry_ok e" "is_commit e"
      "h_head (active_half w) + entry_len e \<le> h_size (active_half w)"
      "w_next_lsn w1 = w_next_lsn w + 1" "w_next_lap w1 = w_next_lap w"
    by blast
  then show ?thesis
  proof cases
    case 1
    then show ?thesis
      using ok by (intro exI[of _ es] exI[of _ "[]"]) (simp add: same_ring_def)
  next
    case 2
    note get = appended_get[OF 2(1) ringok_i[OF ok]]
    have "1 - w_active w \<noteq> w_active w" using ring_okD(5)[OF ok] by arith
    then show ?thesis
      using appended_ring_ok[OF ok 2(1,2,4)] 2
      by (intro exI[of _ "es(w_active w := es (w_active w) @ [e])"] exI[of _ "[e]"])
        (simp add: get group_open_snoc, simp add: appended_def Let_def)
  qed
qed

lemma switch_ring:
  assumes ok: "ring_ok w es" and two: "w_two w" and empty: "es (1 - w_active w) = []"
    and laps: "lap_newer (w_next_lap w) (h_lap (active_half w))"
  shows "\<exists>w2 es2 mid. switch_locked now w = (w2, True) \<and> ring_ok w2 es2 \<and>
    ring_log w2 es2 = ring_log w es @ mid \<and> list_all is_commit mid \<and> length mid \<le> 1 \<and>
    es2 (w_active w2) = [] \<and> w_next_lsn w2 = w_next_lsn w + of_nat (length mid) \<and>
    h_size (active_half w2) = h_size (get_half w 0) \<and> w_two w2"
proof -
  define ai where "ai = w_active w"
  define oi where "oi = 1 - w_active w"
  define w1 where "w1 = close_group_for_switch now ai w"
  obtain es1 mid where r1: "ring_ok w1 es1" "ring_log w1 es1 = ring_log w es @ mid"
    "list_all is_commit mid" "length mid \<le> 1" "es1 oi = es oi" "same_ring w w1"
    "w_next_lsn w1 = w_next_lsn w + of_nat (length mid)" "w_next_lap w1 = w_next_lap w"
    "\<And>j. h_lap (get_half w1 j) = h_lap (get_half w j)" "\<And>j. h_base (get_half w1 j) = h_base (get_half w j)"
    "\<And>j. h_size (get_half w1 j) = h_size (get_half w j)" "\<not> group_open (es1 ai)"
    using close_group_ring[OF ok w1_def[unfolded ai_def]] unfolding oi_def ai_def by blast
  note same = same_ringD[OF r1(6)]
  have ai: "ai = 0 \<or> ai = 1" and oi2: "oi < length (w_halves w1)" "1 - oi = ai"
    and act: "w_active w = ai" "w_active w1 = ai" "1 - ai = oi"
    using ring_okD(1,5)[OF ok] ring_okD(1)[OF r1(1)] same by (auto simp: ai_def oi_def)
  have ne: "ai \<noteq> oi"
    using ring_okD(5)[OF ok] unfolding ai_def oi_def by arith
  have ook: "half_ok (w_mmap w) (ring_version w) (get_half w oi) []"
    using ring_half_ok[OF ok, of oi] two empty by (simp add: oi_def)
  have ook1: "half_ok (w_mmap w1) (ring_version w1) (get_half w1 oi) []"
    using ring_half_ok[OF r1(1), of oi] same two empty r1(5) act by (simp add: oi_def)
  have aok1: "half_ok (w_mmap w1) (ring_version w1) (get_half w1 ai) (es1 ai)"
    using ring_half_ok[OF r1(1), of ai] act by simp
  have free: "half_is_empty (get_half w oi)" "\<not> alloc_head w (get_half w oi) > 32"
    using half_ok_empty[OF ook] alloc_head_ok[OF ook] by (simp_all add: half_is_empty_def)
  define b1 where "b1 = get_half w1 oi"
  define fresh where "fresh = (\<not> lap_newer (h_lap b1) (h_lap (get_half w1 ai)))"
  define w2 where "w2 = (if fresh
      then set_half oi (b1\<lparr>h_lap := w_next_lap w1\<rparr>) (w1\<lparr>w_next_lap := next_lap (w_next_lap w1),
        w_mmap := put_at (h_base b1 + 28) (to_le_bytes (w_next_lap w1)) (w_mmap w1)\<rparr>)
      else w1)"
  define w3 where "w3 = w2\<lparr>w_active := oi, w_switches := w_switches w2 + 1\<rparr>"
  have sw: "switch_locked now w = (w3, True)"
    using two free
    by (simp add: switch_locked_def Let_def w1_def[unfolded ai_def, symmetric] b1_def w2_def w3_def fresh_def
        take_next_lap_def oi_def ai_def)
  have get: "get_half w3 j = (if j = oi then b1\<lparr>h_lap := (if fresh then w_next_lap w1 else h_lap b1)\<rparr>
      else get_half w1 j)" for j
    using oi2 by (auto simp: w3_def w2_def b1_def get_half_def set_half_def)
  have frame: "w_two w3 = True" "w_trailer w3 = 8" "w_commit_room w3 = 120" "w_fail_commits w3 = 0"
    "w_keypair w3 = w_keypair w1" "length (w_halves w3) = 2" "ring_version w3 = ring_version w1"
    "w_next_lsn w3 = w_next_lsn w1"
    using same two ring_okD(1,2,3,4)[OF r1(1)] by (simp_all add: w3_def w2_def set_half_def ring_version_def)
  have newer: "lap_newer (h_lap (get_half w3 oi)) (h_lap (get_half w3 ai))"
    using laps r1(8,9) ne by (auto simp: get fresh_def active_half_def ai_def[symmetric])
  have apart: "h_base b1 + h_size b1 \<le> h_base (get_half w1 ai) \<or>
      h_base (get_half w1 ai) + h_size (get_half w1 ai) \<le> h_base b1"
    using halves_apart[OF r1(1), of oi] two same oi2 ring_okD(1)[OF r1(1)] by (simp add: b1_def)
  have m2: "w_mmap w3 = (if fresh then put_at (h_base b1 + 28) (to_le_bytes (w_next_lap w1)) (w_mmap w1) else w_mmap w1)"
    by (simp add: w3_def w2_def set_half_def)
  have oOK: "half_ok (w_mmap w3) (ring_version w1) (get_half w3 oi) []"
  proof (cases fresh)
    case True
    have "half_ok (put_at (h_base b1 + 28) (to_le_bytes (w_next_lap w1)) (w_mmap w1)) (ring_version w1)
        (b1\<lparr>h_lap := w_next_lap w1\<rparr>) []"
      using ook1 half_okD[OF ook1] unfolding b1_def
      by (intro half_ok_header) (simp_all add: half_header_update)
    then show ?thesis using True by (simp add: m2 get)
  qed (use ook1 in \<open>simp add: m2 get b1_def\<close>)
  have aOK: "half_ok (w_mmap w3) (ring_version w1) (get_half w3 ai) (es1 ai)"
    using aok1 apart half_okD(1)[OF ook1] half_ok_size[OF ook1] ne
    by (auto simp: m2 get b1_def intro!: half_ok_other)
  have sizes: "h_base (get_half w3 0) = 0" "h_base (get_half w3 1) = h_size (get_half w3 0)"
    "h_size (get_half w3 1) = h_size (get_half w3 0)" "16384 \<le> h_size (get_half w3 0)"
    using ring_okD(6,9,10,11)[OF r1(1)] same two ai by (auto simp: get b1_def)
  have kp: "case w_keypair w1 of None \<Rightarrow> True | Some k \<Rightarrow>
        (\<forall>x. length (kp_sign k x) = 64) \<and> length (kp_pubkey_fp k) = 8"
    using r1(1) by (simp add: ring_ok_def)
  have es1o: "es1 oi = []" using r1(5) empty by (simp add: oi_def)
  have act3: "w_active w3 = oi" by (simp add: w3_def)
  have ring: "ring_ok w3 es1"
    using ai oOK aOK newer frame sizes kp es1o oi2 act act3 r1(12)
    by (auto simp: ring_ok_def active_half_def other_half_def group_open_def)
  have log: "ring_log w3 es1 = ring_log w es @ mid"
    using r1(2) same two es1o frame oi2 act act3 by (simp add: ring_log_def)
  have "h_size (get_half w oi) = h_size (get_half w 0)"
    using ring_okD(10)[OF ok two] ai act(3) by auto
  then have size3: "h_size (active_half w3) = h_size (get_half w 0)"
    by (simp add: active_half_def act3 get b1_def r1(11))
  show ?thesis
    using sw ring log r1(3,4,7) es1o frame act3 size3
    by (intro exI[of _ w3] exI[of _ es1] exI[of _ mid]) simp
qed

section \<open>Appends refine adding entries to the log\<close>

definition append_need :: "nat \<Rightarrow> bool \<Rightarrow> nat" where
  "append_need sz closes = sz + (if closes then 0 else 120)"

lemma alloc_off_reserved:
  assumes ok: "ring_ok w es"
  shows "alloc_off (w_active w) sz closes w =
    (if h_head (active_half w) + append_need sz closes \<le> h_size (active_half w)
     then Some (set_half (w_active w) ((active_half w)\<lparr>h_head := h_head (active_half w) + sz\<rparr>) w,
       h_head (active_half w))
     else None)"
proof -
  have hok: "half_ok (w_mmap w) (ring_version w) (get_half w (w_active w)) (es (w_active w))"
    using ring_half_ok[OF ok] by blast
  show ?thesis
    using ring_okD(3)[OF ok] by (auto simp: alloc_off_ok[OF hok] append_need_def active_half_def)
qed

lemma switch_refused:
  assumes "ring_ok w es" "\<not> (w_two w \<and> es (1 - w_active w) = [])"
  shows "switch_locked now w = (w, False)"
proof (cases "w_two w")
  case True
  have "half_ok (w_mmap w) (ring_version w) (get_half w (1 - w_active w)) (es (1 - w_active w))"
    using ring_half_ok[OF assms(1)] True by blast
  then show ?thesis
    using half_ok_empty assms(2) True by (auto simp: switch_locked_def Let_def)
qed (simp add: switch_locked_def)

text \<open>
  Reserving space either succeeds in the ring itself, or in the ring after it moved to its
  other half (which adds at most a closing Commit), or leaves everything unchanged.
\<close>

definition log_full :: "oplog \<Rightarrow> (nat \<Rightarrow> entry list) \<Rightarrow> nat \<Rightarrow> bool" where
  "log_full w es need \<longleftrightarrow> h_head (active_half w) + need > h_size (active_half w) \<and>
     (need + 32 > h_size (get_half w 0) \<or> \<not> w_two w \<or> es (1 - w_active w) \<noteq> [])"

lemma alloc_refines:
  assumes ok: "ring_ok w es" and laps: "lap_newer (w_next_lap w) (h_lap (active_half w))"
  obtains (room) w0 es0 mid w1 where "alloc now sz closes w = (w1, Some (w_active w0, h_head (active_half w0)))"
      "reserved w0 sz w1" "ring_ok w0 es0" "ring_log w0 es0 = ring_log w es @ mid" "list_all is_commit mid"
      "length mid \<le> 1" "w_next_lsn w0 = w_next_lsn w + of_nat (length mid)"
      "h_head (active_half w0) + append_need sz closes \<le> h_size (active_half w0)"
  | (full) "alloc now sz closes w = (w, None)" "log_full w es (append_need sz closes)"
proof (cases "h_head (active_half w) + append_need sz closes \<le> h_size (active_half w)")
  case True
  then have "alloc now sz closes w = (set_half (w_active w)
      ((active_half w)\<lparr>h_head := h_head (active_half w) + sz\<rparr>) w, Some (w_active w, h_head (active_half w)))"
    by (simp add: alloc_def alloc_off_reserved[OF ok])
  then show ?thesis
    using True ok by (intro room[of _ w es "[]"]) (simp_all add: reserved_def)
next
  case no: False
  have size32: "32 \<le> h_size (get_half w 0)"
    using half_ok_size[OF ring_okD(7)[OF ok]] .
  have need: "sz + (if closes then 0 else w_commit_room w) = append_need sz closes"
    using ring_okD(3)[OF ok] by (simp add: append_need_def)
  show ?thesis
  proof (cases "\<not> larger_than_ring w (append_need sz closes) \<and> w_two w \<and> es (1 - w_active w) = []")
    case True
    then obtain w2 es2 mid where sw: "switch_locked now w = (w2, True)" "ring_ok w2 es2"
      "ring_log w2 es2 = ring_log w es @ mid" "list_all is_commit mid" "length mid \<le> 1"
      "es2 (w_active w2) = []" "w_next_lsn w2 = w_next_lsn w + of_nat (length mid)"
      "h_size (active_half w2) = h_size (get_half w 0)"
      using switch_ring[OF ok _ _ laps] by metis
    have "half_ok (w_mmap w2) (ring_version w2) (get_half w2 (w_active w2)) (es2 (w_active w2))"
      using ring_half_ok[OF sw(2)] by blast
    then have "h_head (active_half w2) = 32"
      using half_ok_head sw(6) by (simp add: active_half_def)
    then have fit2: "h_head (active_half w2) + append_need sz closes \<le> h_size (active_half w2)"
      using True sw(8) size32 unfolding larger_than_ring_def by linarith
    then show ?thesis
      using True sw no need
      by (intro room[of _ w2 es2 mid])
        (simp_all add: alloc_def alloc_off_reserved[OF ok] alloc_off_reserved[OF sw(2)] reserved_def)
  next
    case False
    then have "alloc now sz closes w = (w, None)"
      using no need switch_refused[OF ok] by (auto simp: alloc_def alloc_off_reserved[OF ok])
    moreover have "log_full w es (append_need sz closes)"
      using no False size32 by (auto simp: log_full_def larger_than_ring_def)
    ultimately show ?thesis by (rule full)
  qed
qed

lemma append_refines:
  assumes ok: "ring_ok w es" and laps: "lap_newer (w_next_lap w) (h_lap (active_half w))" and op: "op_ok w_op"
    and rel: "case relay of None \<Rightarrow> True | Some r \<Rightarrow> length (rh_signature r) = 64 \<and> length (rh_pubkey_fp r) = 8"
  shows "(\<exists>w' lsn hlc w0 es' mid e. append_locked now w_op (w_op = Commit) relay ho w = (w', Inr (lsn, hlc)) \<and>
      ring_ok w' es' \<and> ring_log w' es' = ring_log w es @ mid @ [e] \<and> list_all is_commit mid \<and> length mid \<le> 1 \<and>
      lsn = w_next_lsn w + of_nat (length mid) \<and> describes now w_op relay ho w0 lsn hlc e) \<or>
    append_locked now w_op (w_op = Commit) relay ho w = (w, Inl WalFull) \<and>
      log_full w es (append_need (120 + payload_size w_op) (w_op = Commit))"
  using ok laps
proof (cases rule: alloc_refines[where now = now and sz = "120 + payload_size w_op" and closes = "w_op = Commit"])
  case (room w0 es0 mid w1)
  have fit': "h_head (active_half w0) + 120 + payload_size w_op \<le> h_size (active_half w0)"
    using room(8) by (simp add: append_need_def)
  obtain w' lsn hlc e where r: "append_locked now w_op (w_op = Commit) relay ho w = (w', Inr (lsn, hlc))"
    "describes now w_op relay ho w0 lsn hlc e" "appended (w_active w0) e w0 w'" "entry_ok e"
    "entry_len e = 120 + payload_size w_op"
    using append_locked_reserved[OF room(3,1,2) ring_okD(2)[OF ok] op fit' rel] by metis
  have com: "is_commit e \<longleftrightarrow> w_op = Commit"
    using r(2) by (simp add: is_commit_def describes_def)
  have f: "h_head (active_half w0) + entry_len e \<le> h_size (active_half w0)"
    "\<not> is_commit e \<Longrightarrow> h_head (active_half w0) + entry_len e + 120 \<le> h_size (active_half w0)"
    using room(8) r(5) com by (auto simp: append_need_def)
  show ?thesis
    using appended_ring_ok[OF room(3) r(3,4) f] r(1,2) room(4-7)
    by (intro disjI1 exI[of _ w'] exI[of _ lsn] exI[of _ hlc] exI[of _ w0] exI[of _ mid] exI[of _ e]
        exI[of _ "es0(w_active w0 := es0 (w_active w0) @ [e])"]) (simp add: describes_def)
next
  case full
  then show ?thesis
    using ring_okD(2)[OF ok] by (simp add: append_locked_def Let_def)
qed

lemma verbatim_refines:
  assumes ok: "ring_ok w es" and laps: "lap_newer (w_next_lap w) (h_lap (active_half w))"
    and sb: "relay_check sb = None" and sig: "length sig = 64" and fp: "length fp = 8"
  defines "e \<equiv> \<lparr>e_sb = sb, e_sig = sig, e_fp = fp\<rparr>"
  shows "(\<exists>w' es' mid. append_verbatim_checked now sb sig fp w = (w', Inr (r64 sb 8)) \<and>
      ring_ok w' es' \<and> ring_log w' es' = ring_log w es @ mid @ [e] \<and> list_all is_commit mid \<and> length mid \<le> 1) \<or>
    append_verbatim_checked now sb sig fp w = (w, Inl WalFull) \<and>
      log_full w es (append_need (entry_len e) False)"
proof -
  have e: "entry_ok e" using sb sig fp by (simp add: entry_ok_def e_def)
  have len: "entry_len e = 112 + (length sb - 40) + 8"
    using entry_okD(1)[OF e] by (simp add: entry_len_def e_def)
  show ?thesis
    using ok laps
  proof (cases rule: alloc_refines[where now = now and sz = "entry_len e" and closes = False])
    case (room w0 es0 mid w1)
    let ?h = "get_half w0 (w_active w0)"
    let ?w' = "put_head (w_active w0) (h_head ?h + entry_len e) (w1\<lparr>w_mmap :=
      put_record (h_base ?h + h_head ?h) (entry_header e) (entry_payload e) 8 (h_lap ?h) (w_mmap w0)\<rparr>)"
    have i: "w_active w0 < length (w_halves w0)" using ringok_i[OF room(3)] .
    have hok: "half_ok (w_mmap w0) (ring_version w0) ?h (es0 (w_active w0))"
      using ring_half_ok[OF room(3)] by blast
    have w1: "w_mmap w1 = w_mmap w0" "same_ring w0 w1" "w_trailer w1 = 8"
      "w_halves w1 = (w_halves w0)[w_active w0 := ?h\<lparr>h_head := h_head ?h + entry_len e\<rparr>]"
      "h_base (get_half w1 (w_active w0)) = h_base ?h" "h_lap (get_half w1 (w_active w0)) = h_lap ?h"
      using room(2) i ring_okD(2)[OF room(3)]
      by (simp_all add: reserved_def set_half_def same_ring_def active_half_def get_half_def)
    have fit: "h_head ?h + entry_len e \<le> h_size ?h" "h_head ?h + entry_len e + 120 \<le> h_size ?h"
      using room(8) by (simp_all add: append_need_def active_half_def)
    have app: "appended (w_active w0) e w0 ?w'"
      using write_entry_appended[OF hok e i fit(1) w1(1,2,4) refl refl] .
    then have app': "appended (w_active w0) e w0 (observe_hlc (sb_hlc sb) ?w')"
      by (simp add: appended_def observe_hlc_def same_ring_def Let_def)
    have "append_verbatim_checked now sb sig fp w = (observe_hlc (sb_hlc sb) ?w', Inr (r64 sb 8))"
      using room(1) w1 len ring_okD(2)[OF ok]
      by (simp add: append_verbatim_checked_def Let_def entry_header_def entry_payload_def e_def active_half_def)
    then show ?thesis
      using appended_ring_ok[OF room(3) app' e] fit room(4-6) by (auto simp: active_half_def)
  next
    case full
    then show ?thesis
      using len ring_okD(2)[OF ok] by (simp add: append_verbatim_checked_def Let_def)
  qed
qed

section \<open>Folding and checkpoints\<close>

lemma half_emptied:
  assumes ok: "half_ok m v h es"
    and h': "h_base h' = h_base h" "h_size h' = h_size h" "h_head h' = 32" "h_written h' = 32"
      "h_checkpoint h' = 32"
  shows "half_ok (put_at (h_base h + 16) (to_le_bytes (32 :: u64)) (put_at (h_base h + 8) (to_le_bytes (32 :: u64))
    (put_at (h_base h + 28) (to_le_bytes (h_lap h')) m))) v h' []"
proof -
  note d = half_okD[OF ok]
  let ?b = "h_base h"
  let ?m1 = "put_at (?b + 28) (to_le_bytes (h_lap h')) m"
  let ?m2 = "put_at (?b + 8) (to_le_bytes (32 :: u64)) ?m1"
  let ?m3 = "put_at (?b + 16) (to_le_bytes (32 :: u64)) ?m2"
  have inm: "?b + 32 \<le> length m" using d(1) half_ok_size[OF ok] by simp
  have len: "length ?m1 = length m" "length ?m2 = length m" "length ?m3 = length m"
    using inm by (simp_all add: length_put_at)
  have inside: "slice ?b (?b + 32) (put_at (?b + k) bs x) = put_at k bs (slice ?b (?b + 32) x)"
    if "k + length bs \<le> 32" "length x = length m" for k bs x
    using that inm slice_put_inside[of ?b "?b + k" bs "?b + 32" x] by simp
  have "slice ?b (?b + 32) ?m3 = put_at 16 (to_le_bytes (word_of_nat 32 :: u64))
      (put_at 8 (to_le_bytes (word_of_nat 32 :: u64)) (put_at 28 (to_le_bytes (h_lap h'))
        (half_header v (h_size h) (h_head h) (h_checkpoint h) (h_lap h))))"
    using d(7) len by (simp add: inside)
  then have "slice ?b (?b + 32) ?m3 = half_header v (h_size h) 32 32 (h_lap h')"
    unfolding half_header_update .
  then show ?thesis
    using d(1,2) half_ok_size[OF ok] h' len by (simp add: half_ok_def)
qed

lemma ring_version_cong: "w_two w' = w_two w \<Longrightarrow> ring_version w' = ring_version w"
  by (simp add: ring_version_def)

text \<open>The state between the fold of a half and the split of a one-half file.\<close>

definition folded :: "nat \<Rightarrow> oplog \<Rightarrow> oplog" where
  "folded i w =
     (let h = get_half w i; lap = w_next_lap w; b = h_base h
      in set_half i (h\<lparr>h_head := 32, h_lap := lap, h_written := 32, h_checkpoint := 32\<rparr>)
           (w\<lparr>w_next_lap := next_lap lap, w_mmap := put_at (b + 16) (to_le_bytes (32 :: u64))
              (put_at (b + 8) (to_le_bytes (32 :: u64)) (put_at (b + 28) (to_le_bytes lap) (w_mmap w)))\<rparr>))"

lemma fold_half_folded:
  assumes "i < length (w_halves w)" "w_trailer w = 8" "h_head (get_half w i) > 32"
  shows "fold_half_locked fsync_ok i w = (split_locked fsync_ok (folded i w), True)"
  using assms
  by (simp add: fold_half_locked_def advance_lap_locked_def take_next_lap_def folded_def Let_def
      get_half_def set_half_def)

lemma folded_ring_ok:
  assumes ok: "ring_ok w es" and i: "i = w_active w \<or> w_two w \<and> i = 1 - w_active w"
    and last: "i = w_active w \<Longrightarrow> es (1 - w_active w) = []"
  shows "ring_ok (folded i w) (es(i := []))"
proof -
  let ?w = "folded i w"
  note d = ring_okD[OF ok]
  have i2: "i < 2" using i d(5) by auto
  have il: "i < length (w_halves w)" using i2 d(1) by simp
  have hok: "half_ok (w_mmap w) (ring_version w) (get_half w i) (es i)"
    using ring_half_ok[OF ok i] .
  have get: "get_half ?w j = (if j = i then (get_half w i)\<lparr>h_head := 32, h_lap := w_next_lap w, h_written := 32,
      h_checkpoint := 32\<rparr> else get_half w j)" for j
    using il by (simp add: folded_def Let_def get_half_def set_half_def)
  have m: "w_mmap ?w = put_at (h_base (get_half w i) + 16) (to_le_bytes (32 :: u64))
      (put_at (h_base (get_half w i) + 8) (to_le_bytes (32 :: u64))
        (put_at (h_base (get_half w i) + 28) (to_le_bytes (w_next_lap w)) (w_mmap w)))"
    by (simp add: folded_def Let_def set_half_def)
  have frame: "same_ring w ?w" "length (w_halves ?w) = 2"
    using d(1) by (simp_all add: folded_def Let_def set_half_def same_ring_def)
  have v: "ring_version ?w = ring_version w" using frame by (simp add: ring_version_def same_ring_def)
  have mine: "half_ok (w_mmap ?w) (ring_version w) (get_half ?w i) []"
    using half_emptied[OF hok, of "get_half ?w i"] by (simp add: m get)
  have other: "half_ok (w_mmap ?w) (ring_version w) (get_half ?w (1 - i)) (es (1 - i))" if two: "w_two w"
  proof -
    have ook: "half_ok (w_mmap w) (ring_version w) (get_half w (1 - i)) (es (1 - i))"
      using ring_half_ok[OF ok, of "1 - i"] two i i2 d(5) by (auto simp: less_2_cases_nat)
    have "1 - i \<noteq> i" using i2 by arith
    moreover have "half_ok (w_mmap ?w) (ring_version w) (get_half w (1 - i)) (es (1 - i))"
      unfolding m
      using halves_apart[OF ok two i2] half_okD(1)[OF hok] half_ok_size[OF hok]
      by (intro half_ok_other ook) (auto simp: length_put_at)
    ultimately show ?thesis by (simp add: get)
  qed
  have keep: "h_base (get_half ?w j) = h_base (get_half w j)" "h_size (get_half ?w j) = h_size (get_half w j)" for j
    by (simp_all add: get)
  have go: "\<not> group_open ((es(i := [])) (w_active w)) \<or> i \<noteq> w_active w"
    by (simp add: group_open_def)
  have room: "group_open ((es(i := [])) (w_active w)) \<Longrightarrow> h_head (active_half ?w) + 120 \<le> h_size (active_half ?w)"
    using go d(16) frame by (auto simp: active_half_def get same_ring_def)
  have none: "(es(i := [])) (1 - w_active w) = []"
    using i last by (auto simp: fun_upd_def)
  show ?thesis
  proof (cases "w_two w")
    case True
    have "half_ok (w_mmap ?w) (ring_version w) (get_half ?w 0) ((es(i := [])) 0)"
      "half_ok (w_mmap ?w) (ring_version w) (get_half ?w 1) ((es(i := [])) 1)"
      using mine other[OF True] i2 by (auto simp: less_2_cases_nat)
    then show ?thesis
      using True none room keep d frame by (simp add: ring_ok_def v same_ring_def group_open_def)
  next
    case False
    then have "i = 0" using i d(13) by simp
    then show ?thesis
      using False mine room keep d frame v get[of 1] by (simp add: ring_ok_def same_ring_def)
  qed
qed

lemma split_ring_ok:
  assumes ok: "ring_ok w es" and empty: "es 0 = []" "es 1 = []"
  shows "\<exists>es'. ring_ok (split_locked fsync_ok w) es' \<and> ring_log (split_locked fsync_ok w) es' = []"
proof (cases "w_two w \<or> half_size_for (h_size (get_half w 0)) = None")
  case True
  then have "split_locked fsync_ok w = w"
    by (auto simp: split_locked_def Let_def)
  then show ?thesis
    using ok empty ring_okD(5)[OF ok] by (intro exI[of _ es]) (auto simp: ring_log_def less_2_cases_nat)
next
  case False
  note d = ring_okD[OF ok]
  let ?a = "get_half w 0"
  from False obtain hs where two: "\<not> w_two w" and hs: "half_size_for (h_size ?a) = Some hs" by auto
  have b: "16384 \<le> hs" "2 * hs \<le> h_size ?a" "hs < 0xFFFFFFFF"
    using half_size_for_bounds[OF hs] by simp_all
  have aok: "half_ok (w_mmap w) 3 ?a []"
    using d(7) two empty by (simp add: ring_version_def)
  note ad = half_okD[OF aok]
  have a: "h_base ?a = 0" "h_head ?a = 32" "h_checkpoint ?a = 32" "h_written ?a = 32"
    using d(6) half_ok_head[OF aok] ad(3,4,5) by simp_all
  let ?m1 = "write_half_header (w_mmap w) hs 4 hs 32 32 0"
  have len1: "length ?m1 = length (w_mmap w)" and inm: "hs + 32 \<le> length (w_mmap w)"
    using b ad(1) a(1) by (simp_all add: length_write_half_header)
  have hdr1: "slice 0 32 ?m1 = half_header 3 (h_size ?a) 32 32 (h_lap ?a)"
    using ad(7) a b inm write_half_header_keeps[OF inm, of 32 0] by simp
  have em: "half_is_empty ?a" using a by (simp add: half_is_empty_def)
  show ?thesis
  proof (cases fsync_ok)
    case False
    have w': "split_locked fsync_ok w = w\<lparr>w_mmap := ?m1\<rparr>"
      using two d(2) hs em False by (simp add: split_locked_def Let_def)
    have "half_ok ?m1 3 ?a []"
      using ad hdr1 len1 a by (simp add: half_ok_def)
    then show ?thesis
      unfolding w' using ok two empty d
      by (intro exI[of _ es]) (simp add: ring_ok_def ring_version_def get_half_def active_half_def ring_log_def)
  next
    case True
    let ?m2 = "put_at 4 (to_le_bytes (4 :: u32)) (put_at 24 (to_le_bytes (word_of_nat hs :: u32)) ?m1)"
    let ?A = "?a\<lparr>h_size := hs\<rparr>" and ?B = "(half_new 0 0 32 32 0)\<lparr>h_base := hs, h_size := hs\<rparr>"
    define w2 where "w2 = set_half 1 ?B (set_half 0 ?A (w\<lparr>w_mmap := ?m2, w_two := True\<rparr>))"
    have w': "split_locked fsync_ok w = w2"
      using two d(2,17) hs em True by (simp add: split_locked_def Let_def w2_def)
    have len2: "length ?m2 = length (w_mmap w)"
      using len1 inm by (simp add: length_put_at)
    have "slice 0 32 ?m2 = put_at 4 (to_le_bytes (4 :: u32)) (put_at 24 (to_le_bytes (word_of_nat hs :: u32)) (slice 0 32 ?m1))"
      using len1 inm slice_put_inside[of 0 24 "to_le_bytes (word_of_nat hs :: u32)" 32 ?m1]
        slice_put_inside[of 0 4 "to_le_bytes (4 :: u32)" 32 "put_at 24 (to_le_bytes (word_of_nat hs :: u32)) ?m1"]
      by (simp add: length_put_at)
    then have hdrA: "slice 0 32 ?m2 = half_header 4 hs 32 32 (h_lap ?a)"
      unfolding hdr1 half_header_update .
    have "slice hs (hs + 32) ?m2 = slice hs (hs + 32) ?m1"
      using len1 inm b
      by (simp add: slice_put_after length_put_at)
    also have "\<dots> = half_header 4 hs 32 32 0"
      using slice_half_header[OF inm, of 32 0 4 hs 32 32 0] by (simp add: slice_all)
    finally have hdrB: "slice hs (hs + 32) ?m2 = half_header 4 hs 32 32 0" .
    have A: "half_ok ?m2 4 ?A []" and B: "half_ok ?m2 4 ?B []"
      using hdrA hdrB len2 a b ad(1) by (simp_all add: half_ok_def half_new_def)
    have get: "get_half w2 0 = ?A" "get_half w2 1 = ?B"
      using d(1) by (simp_all add: w2_def set_half_def get_half_def)
    have fr: "w_mmap w2 = ?m2" "w_two w2" "w_active w2 = 0" "w_trailer w2 = 8" "w_commit_room w2 = 120"
      "w_fail_commits w2 = 0" "w_keypair w2 = w_keypair w" "length (w_halves w2) = 2"
      using d two by (simp_all add: w2_def set_half_def)
    have "ring_ok w2 (\<lambda>_. [])"
      using A B get fr a b d(18)
      by (simp add: ring_ok_def ring_version_def group_open_def)
    then show ?thesis
      unfolding w' by (intro exI[of _ "\<lambda>_. []"]) (simp add: ring_log_def)
  qed
qed

lemma fold_refines:
  assumes ok: "ring_ok w es" and t: "try_reset_if fsync_ok safe w = (w', True)"
  shows "\<exists>i es'. i < 2 \<and> safe (wal_pos (h_lap (get_half w i)) (h_head (get_half w i))) \<and>
    h_checkpoint (get_half w i) = h_head (get_half w i) \<and> es i \<noteq> [] \<and> ring_ok w' es' \<and>
    ring_log w es = es i @ ring_log w' es'"
proof -
  note d = ring_okD[OF ok]
  obtain i where target: "fold_target_locked w = Some (i, wal_pos (h_lap (get_half w i)) (h_head (get_half w i)))"
    and safe: "safe (wal_pos (h_lap (get_half w i)) (h_head (get_half w i)))"
    and fold: "fold_half_locked fsync_ok i w = (w', True)"
    using t by (auto simp: try_reset_if_def fold_target_locked_def Let_def split: option.splits if_splits)
  have act: "half_ok (w_mmap w) (ring_version w) (get_half w (w_active w)) (es (w_active w))"
    using ring_half_ok[OF ok] by blast
  have oth: "w_two w \<Longrightarrow> half_ok (w_mmap w) (ring_version w) (get_half w (1 - w_active w)) (es (1 - w_active w))"
    using ring_half_ok[OF ok] by blast
  have one: "\<not> w_two w \<Longrightarrow> es (1 - w_active w) = []"
    using d(13,15) by simp
  have i: "i = w_active w \<and> es (1 - w_active w) = [] \<or> w_two w \<and> i = 1 - w_active w"
    and cp: "h_checkpoint (get_half w i) = h_head (get_half w i)" and ne: "es i \<noteq> []"
    using target half_ok_empty[OF act] half_ok_empty[OF oth] one
    by (auto simp: fold_target_locked_def half_is_empty_def Let_def split: if_splits)
  have i2: "i < 2" using i d(5) by auto
  have hok: "half_ok (w_mmap w) (ring_version w) (get_half w i) (es i)"
    using ring_half_ok[OF ok, of i] i by blast
  have w': "w' = split_locked fsync_ok (folded i w)"
    using fold fold_half_folded[of i w fsync_ok] half_ok_empty[OF hok] ne i2 d(1,2)
    by (simp add: half_is_empty_def not_le)
  have ne': "i \<noteq> 1 - i" using i2 by arith
  have ring: "ring_ok (folded i w) (es(i := []))"
    using i ne' by (intro folded_ring_ok[OF ok]) auto
  have fr: "w_two (folded i w) = w_two w" "w_active (folded i w) = w_active w"
    by (simp_all add: folded_def Let_def set_half_def)
  have log: "ring_log w es = es i @ ring_log (folded i w) (es(i := []))"
    using i d(5) ne' fr one by (auto simp: ring_log_def)
  have "\<exists>es'. ring_ok w' es' \<and> ring_log w' es' = ring_log (folded i w) (es(i := []))"
  proof (cases "w_two w")
    case True
    then show ?thesis
      using ring fr by (intro exI[of _ "es(i := [])"]) (simp add: w' split_locked_def)
  next
    case False
    then have "i = 0" "es 1 = []" using i d(13,15) by auto
    then have "(es(i := [])) 0 = []" "(es(i := [])) 1 = []" by simp_all
    then have "ring_log (folded i w) (es(i := [])) = []"
      using fr False d(13) by (simp add: ring_log_def)
    then show ?thesis
      using split_ring_ok[OF ring] \<open>(es(i := [])) 0 = []\<close> \<open>(es(i := [])) 1 = []\<close> by (simp add: w')
  qed
  then show ?thesis
    using i2 safe cp ne log by metis
qed

end
