(* ===== verification/Oplog_Correct.thy ===== *)
theory Oplog_Correct
  imports Oplog_Log
begin

text \<open>
  What the log promises its users, over whole operations: a new log is empty, an append adds
  its record at the end or changes nothing, an open group can always be closed, a scan
  returns what was appended, the checkpoint and the fold of a half never lose a record that
  is not in the database body, closing and opening the file keeps the log, and recovery
  continues sequence numbers and clocks.
\<close>

section \<open>What a scan state bounds\<close>

definition scan_bounded :: "scan_state \<Rightarrow> bool" where
  "scan_bounded st \<longleftrightarrow>
     (\<forall>(r, _) \<in> set (sc_out st). rr_lsn r \<le> sc_max_lsn st \<and> rr_hlc r \<le> sc_max_hlc st)"

section \<open>Checkpoints\<close>

lemma advance_half_cases:
  assumes "ring_ok w es" "0 < h_size (get_half w i)" "i < 2"
  shows "advance_half pos i w = w \<or>
    (\<exists>target. h_checkpoint (get_half w i) < target \<and> target \<le> h_head (get_half w i) \<and>
       advance_half pos i w = set_half i ((get_half w i)\<lparr>h_checkpoint := target\<rparr>)
         (w\<lparr>w_mmap := put_at (h_base (get_half w i) + 16) (to_le_bytes (word_of_nat target :: u64)) (w_mmap w)\<rparr>))"
proof -
  let ?h = "get_half w i"
  let ?t = "if h_lap ?h = wal_pos_lap pos then min (wal_pos_offset pos) (h_head ?h) else h_head ?h"
  have "?t \<le> h_head ?h" by simp
  then show ?thesis
    using assms(2)
    by (cases "(h_lap ?h = wal_pos_lap pos \<or> lap_newer (wal_pos_lap pos) (h_lap ?h)) \<and> \<not> ?t \<le> h_checkpoint ?h")
      (auto simp: advance_half_def Let_def intro!: exI[of _ ?t] simp del: min_less_iff_conj)
qed

lemma ring_half_changed:
  assumes ok: "ring_ok w es" and i: "i < 2" "0 < h_size (get_half w i)"
    and h': "h_base h' = h_base (get_half w i)" "h_size h' = h_size (get_half w i)"
      "h_head h' = h_head (get_half w i)" "h_lap h' = h_lap (get_half w i)"
    and mine: "half_ok m' (ring_version w) h' (es i)"
    and other: "w_two w \<Longrightarrow> half_ok m' (ring_version w) (get_half w (1 - i)) (es (1 - i))"
  shows "ring_ok (set_half i h' (w\<lparr>w_mmap := m'\<rparr>)) es"
proof -
  let ?w = "set_half i h' (w\<lparr>w_mmap := m'\<rparr>)"
  note d = ring_okD[OF ok]
  have get: "get_half ?w j = (if j = i then h' else get_half w j)" for j
    using i d(1) by (simp add: set_half_def get_half_def)
  have keep: "h_base (get_half ?w j) = h_base (get_half w j)" "h_size (get_half ?w j) = h_size (get_half w j)"
    "h_head (get_half ?w j) = h_head (get_half w j)" "h_lap (get_half ?w j) = h_lap (get_half w j)" for j
    using h' by (simp_all add: get)
  have fr: "w_two ?w = w_two w" "w_active ?w = w_active w" "w_trailer ?w = 8" "w_commit_room ?w = 120"
    "w_fail_commits ?w = 0" "w_keypair ?w = w_keypair w" "length (w_halves ?w) = 2" "w_mmap ?w = m'"
    "ring_version ?w = ring_version w"
    using d by (simp_all add: set_half_def ring_version_def)
  show ?thesis
  proof (cases "w_two w")
    case True
    have "half_ok m' (ring_version w) (get_half ?w 0) (es 0)" "half_ok m' (ring_version w) (get_half ?w 1) (es 1)"
      using mine other[OF True] i by (auto simp: get less_2_cases_nat)
    then show ?thesis
      using True fr keep d by (simp add: ring_ok_def active_half_def other_half_def)
  next
    case False
    then have "i = 0" using i d(14) by (auto simp: less_2_cases_nat)
    then show ?thesis
      using False fr d mine h' get[of 0] get[of 1] by (simp add: ring_ok_def active_half_def)
  qed
qed

lemma advance_half_ring:
  assumes ok: "ring_ok w es" and i: "i < 2"
  shows "ring_ok (advance_half pos i w) es" "ring_log (advance_half pos i w) es = ring_log w es"
    "\<And>j. h_checkpoint (get_half w j) \<le> h_checkpoint (get_half (advance_half pos i w) j)"
    "\<And>j. h_head (get_half (advance_half pos i w) j) = h_head (get_half w j)"
proof -
  let ?h = "get_half w i"
  have il: "i < length (w_halves w)" using ring_okD(1)[OF ok] i by simp
  consider "advance_half pos i w = w"
    | target where "0 < h_size ?h" "h_checkpoint ?h < target" "target \<le> h_head ?h"
      "advance_half pos i w = set_half i (?h\<lparr>h_checkpoint := target\<rparr>)
         (w\<lparr>w_mmap := put_at (h_base ?h + 16) (to_le_bytes (word_of_nat target :: u64)) (w_mmap w)\<rparr>)"
    using advance_half_cases[OF ok _ i, of pos] by (cases "0 < h_size ?h") (auto simp: advance_half_def)
  then have "ring_ok (advance_half pos i w) es \<and> ring_log (advance_half pos i w) es = ring_log w es \<and>
      (\<forall>j. h_checkpoint (get_half w j) \<le> h_checkpoint (get_half (advance_half pos i w) j) \<and>
        h_head (get_half (advance_half pos i w) j) = h_head (get_half w j))"
  proof cases
    case (2 target)
    let ?m' = "put_at (h_base ?h + 16) (to_le_bytes (word_of_nat target :: u64)) (w_mmap w)"
    have hok: "half_ok (w_mmap w) (ring_version w) ?h (es i)"
      using ring_half_used[OF ok i 2(1)] .
    have mine: "half_ok ?m' (ring_version w) (?h\<lparr>h_checkpoint := target\<rparr>) (es i)"
      using half_okD[OF hok] 2 by (intro half_ok_header[OF hok]) (simp_all add: half_header_update)
    have other: "half_ok ?m' (ring_version w) (get_half w (1 - i)) (es (1 - i))" if two: "w_two w"
    proof -
      have "half_ok (w_mmap w) (ring_version w) (get_half w (1 - i)) (es (1 - i))"
        using ring_half_ok[OF ok, of "1 - i"] two i ring_okD(5)[OF ok] by (auto simp: less_2_cases_nat)
      then show ?thesis
        using halves_apart[OF ok two i] half_okD(1)[OF hok] half_ok_size[OF hok]
        by (intro half_ok_other) auto
    qed
    have "ring_ok (advance_half pos i w) es"
      unfolding 2(4) using ring_half_changed[OF ok i 2(1) _ _ _ _ mine other] by simp
    then show ?thesis
      using 2 il by (auto simp: ring_log_def set_half_def get_half_def nth_list_update)
  qed (use ok in simp)
  then show "ring_ok (advance_half pos i w) es" "ring_log (advance_half pos i w) es = ring_log w es"
    "\<And>j. h_checkpoint (get_half w j) \<le> h_checkpoint (get_half (advance_half pos i w) j)"
    "\<And>j. h_head (get_half (advance_half pos i w) j) = h_head (get_half w j)"
    by auto
qed

section \<open>New logs\<close>

lemma half_ok_fresh:
  assumes "b + sz \<le> length m" "32 \<le> sz" "sz < 0xFFFFFFFF" "b < 0xFFFFFFFF"
    and "slice b (b + 32) m = half_header v sz 32 32 lap"
  shows "half_ok m v (half_new b sz 32 32 lap) []"
  using assms by (simp add: half_ok_def half_new_def)

lemma create_ring_ok:
  assumes c: "32 \<le> c" "c < 0xFFFFFFFF"
  shows "\<exists>w. wal_create c = Inr w \<and> ring_ok w (\<lambda>_. []) \<and> lap_newer (w_next_lap w) (h_lap (active_half w))"
proof -
  let ?z = "replicate c (0 :: u8)"
  let ?m = "fst (fresh_layout ?z c)" and ?l = "snd (fresh_layout ?z c)"
  let ?w = "assemble ?m ?l"
  have create: "wal_create c = Inr ?w"
    using c by (simp add: wal_create_def split: prod.splits)
  have newer: "lap_newer 2 1" by (simp add: lap_newer_def)
  show ?thesis
  proof (cases "half_size_for c")
    case None
    have "slice 0 32 ?m = half_header 3 c 32 32 1"
      using c slice_half_header[of 0 ?z 32 0 3 c 32 32 1]
      by (simp add: None fresh_layout_def slice_all)
    moreover have "length ?m = c"
      using c by (simp add: None fresh_layout_def length_write_half_header)
    ultimately have "half_ok ?m 3 (half_new 0 c 32 32 1) []"
      using c by (intro half_ok_fresh) simp_all
    then have "ring_ok ?w (\<lambda>_. [])" "lap_newer (w_next_lap ?w) (h_lap (active_half ?w))"
      using newer None
      by (simp_all add: ring_ok_def assemble_def fresh_layout_def get_half_def ring_version_def group_open_def
          active_half_def half_new_def)
    then show ?thesis using create by blast
  next
    case (Some h)
    note b = half_size_for_bounds[OF Some]
    let ?m1 = "write_half_header ?z 0 4 h 32 32 1"
    have m: "?m = write_half_header ?m1 h 4 h 32 32 0"
      by (simp add: Some fresh_layout_def)
    have len: "length ?m1 = c" "length ?m = c"
      unfolding m using b by (simp_all add: length_write_half_header)
    have "slice h (h + 32) ?m = half_header 4 h 32 32 0"
      unfolding m using b len slice_half_header[of h ?m1 32 0 4 h 32 32 0] by (simp add: slice_all)
    then have B: "half_ok ?m 4 (half_new h h 32 32 0) []"
      using b len by (intro half_ok_fresh) simp_all
    have "slice 0 32 ?m = slice 0 32 ?m1"
      unfolding m using b len by (intro write_half_header_keeps) simp_all
    also have "\<dots> = half_header 4 h 32 32 1"
      using b slice_half_header[of 0 ?z 32 0 4 h 32 32 1] by (simp add: slice_all)
    finally have A: "half_ok ?m 4 (half_new 0 h 32 32 1) []"
      using b len by (intro half_ok_fresh) simp_all
    have "ring_ok ?w (\<lambda>_. [])" "lap_newer (w_next_lap ?w) (h_lap (active_half ?w))"
      using newer Some A B b
      by (simp_all add: ring_ok_def assemble_def fresh_layout_def get_half_def ring_version_def group_open_def
          active_half_def half_new_def)
    then show ?thesis using create by blast
  qed
qed

section \<open>Closing and opening\<close>

lemma header_words:
  assumes "slice b (b + 32) m = half_header v sz hp cp lap"
  shows "slice b (b + 4) m = FILE_MAGIC" "r32 m (b + 4) = v" "r64 m (b + 8) = word_of_nat hp"
    "r64 m (b + 16) = word_of_nat cp" "r32 m (b + 24) = word_of_nat sz" "r32 m (b + 28) = lap"
proof -
  have "slice (b + i) (b + j) m = slice i j (half_header v sz hp cp lap)" if "j \<le> 32" for i j
    using that slice_slice[of j "b + 32" b i m] assms by simp
  from this[of 4 0] this[of 8 4] this[of 16 8] this[of 24 16] this[of 28 24] this[of 32 28]
  show "slice b (b + 4) m = FILE_MAGIC" "r32 m (b + 4) = v" "r64 m (b + 8) = word_of_nat hp"
    "r64 m (b + 16) = word_of_nat cp" "r32 m (b + 24) = word_of_nat sz" "r32 m (b + 28) = lap"
    by (simp_all add: half_header_fields r32_def r64_def add.assoc)
qed

lemma half_ok_words:
  assumes ok: "half_ok m v h es"
  shows "slice (h_base h) (h_base h + 4) m = FILE_MAGIC" "r32 m (h_base h + 4) = v"
    "unat (r64 m (h_base h + 8)) = h_head h" "unat (r64 m (h_base h + 16)) = h_checkpoint h"
    "unat (r32 m (h_base h + 24)) = h_size h" "r32 m (h_base h + 28) = h_lap h"
    "in_range (h_head h) (h_size h)" "in_range (h_checkpoint h) (h_size h)"
  using header_words[OF half_okD(7)[OF ok]] half_okD[OF ok]
  by (simp_all add: unat_of_nat in_range_def)

lemma half_new_id:
  "half_ok m v h es \<Longrightarrow> h_base h < 2 ^ 32 \<Longrightarrow> half_new (h_base h) (h_size h) (h_head h) (h_checkpoint h) (h_lap h) = h"
  using half_okD(2,5)[of m v h es] by (simp add: half_new_def)

lemma open_two:
  assumes ok: "ring_ok w es" and two: "w_two w"
  defines "a \<equiv> get_half w 0" and "b \<equiv> get_half w 1"
  shows "\<exists>nl. read_layout (w_mmap w) = Inr (w_mmap w, \<lparr>l_halves = [a, b],
    l_active = (if h_head a > 32 \<and> \<not> h_head b > 32 then 0
      else if \<not> h_head a > 32 \<and> h_head b > 32 then 1 else if lap_newer (h_lap b) (h_lap a) then 1 else 0),
    l_two = True, l_next_lap = nl, l_trailer = 8\<rparr>)"
proof -
  note d = ring_okD[OF ok]
  have v: "ring_version w = 4" using two by (simp add: ring_version_def)
  have A: "half_ok (w_mmap w) 4 a (es 0)" and B: "half_ok (w_mmap w) 4 b (es 1)"
    using d(7) d(8)[OF two] by (simp_all add: v a_def b_def)
  have base: "h_base a = 0" "h_base b = h_size a" "h_size b = h_size a" "16384 \<le> h_size a"
    using d(6) d(9,10,11)[OF two] by (simp_all add: a_def b_def)
  note wa = half_ok_words[OF A, unfolded base(1) add_0] and wb = half_ok_words[OF B, unfolded base(2,3)]
  have small: "h_size a < 2 ^ 32" using half_okD(2)[OF A] by simp
  have lens: "32 \<le> length (w_mmap w)" "\<not> 2 * h_size a > length (w_mmap w)"
    using half_okD(1)[OF B] base by simp_all
  have ids: "half_new 0 (h_size a) (h_head a) (h_checkpoint a) (h_lap a) = a"
    "half_new (h_size a) (h_size a) (h_head b) (h_checkpoint b) (h_lap b) = b"
    using half_new_id[OF A] half_new_id[OF B] base small by simp_all
  have "read_layout (w_mmap w) = read_layout_two (w_mmap w)"
    using lens wa(1,2) by (simp add: read_layout_def Let_def)
  then show ?thesis
    using lens(2) wa wb base(4) ids unfolding read_layout_two_def Let_def
    by (simp add: add.commute)
qed

lemma open_one:
  assumes ok: "ring_ok w es" and two: "\<not> w_two w"
  shows "\<exists>nl. read_layout (w_mmap w) = Inr (w_mmap w, \<lparr>l_halves = [get_half w 0, get_half w 1],
    l_active = 0, l_two = False, l_next_lap = nl, l_trailer = 8\<rparr>)"
proof -
  note d = ring_okD[OF ok]
  have v: "ring_version w = 3" using two by (simp add: ring_version_def)
  let ?a = "get_half w 0"
  have A: "half_ok (w_mmap w) 3 ?a (es 0)" using d(7) by (simp add: v)
  have base: "h_base ?a = 0" using d(6) .
  note wa = half_ok_words[OF A, unfolded base add_0]
  have sz: "\<not> 0xFFFFFFFF \<le> h_size ?a" "\<not> h_size ?a > length (w_mmap w)" "32 \<le> length (w_mmap w)"
    using half_okD(1,2)[OF A] half_ok_size[OF A] base by simp_all
  have id: "half_new 0 (h_size ?a) (h_head ?a) (h_checkpoint ?a) (h_lap ?a) = ?a"
    using half_new_id[OF A] base by simp
  show ?thesis
    using wa sz id d(17)[OF two]
    by (simp add: read_layout_def read_layout_single_def Let_def)
qed

lemma two_halves_list: "length xs = 2 \<Longrightarrow> [xs ! 0, xs ! 1] = xs"
  by (cases xs; cases "tl xs") auto

lemma get_half_cong: "w_halves x = w_halves y \<Longrightarrow> get_half x j = get_half y j"
  by (simp add: get_half_def)

lemma reopen_ring:
  assumes ok: "ring_ok w es"
  shows "\<exists>w'. wal_open (w_mmap w) = Inr w' \<and> ring_ok w' es \<and> ring_log w' es = ring_log w es \<and>
    w_halves w' = w_halves w \<and> w_mmap w' = w_mmap w"
proof (cases "w_two w")
  case two: True
  note d = ring_okD[OF ok]
  let ?a = "get_half w 0" and ?b = "get_half w 1"
  define act where "act = (if h_head ?a > 32 \<and> \<not> h_head ?b > 32 then 0
      else if \<not> h_head ?a > 32 \<and> h_head ?b > 32 then 1 else if lap_newer (h_lap ?b) (h_lap ?a) then 1 else (0::nat))"
  obtain nl where r: "read_layout (w_mmap w) = Inr (w_mmap w, \<lparr>l_halves = [?a, ?b], l_active = act,
      l_two = True, l_next_lap = nl, l_trailer = 8\<rparr>)"
    using open_two[OF ok two] by (auto simp: act_def)
  define w' where "w' = assemble (w_mmap w)
    \<lparr>l_halves = [?a, ?b], l_active = act, l_two = True, l_next_lap = nl, l_trailer = 8\<rparr>"
  have open_w: "wal_open (w_mmap w) = Inr w'"
    by (simp add: wal_open_def r w'_def)
  have halves: "w_halves w' = w_halves w"
    using two_halves_list[OF d(1)] by (simp add: w'_def assemble_def get_half_def)
  have get: "get_half w' j = get_half w j" for j using halves by (rule get_half_cong)
  have fr: "w_mmap w' = w_mmap w" "w_active w' = act" "w_two w'" "w_trailer w' = 8" "w_commit_room w' = 120"
    "w_fail_commits w' = 0" "w_keypair w' = None" "ring_version w' = ring_version w"
    using two by (simp_all add: w'_def assemble_def ring_version_def)
  have emp: "h_head ?a > 32 \<longleftrightarrow> es 0 \<noteq> []" "h_head ?b > 32 \<longleftrightarrow> es 1 \<noteq> []"
    using half_ok_empty[OF d(7)] half_ok_empty[OF d(8)[OF two]] by (auto simp: half_is_empty_def)
  have idx: "w_active w = 0 \<or> w_active w = 1" using d(5) by (simp add: less_2_cases_nat)
  have newer: "es (1 - w_active w) \<noteq> [] \<Longrightarrow>
      lap_newer (h_lap (get_half w (w_active w))) (h_lap (get_half w (1 - w_active w)))"
    using d(12)[OF two] by (simp add: active_half_def other_half_def)
  have act: "act = w_active w \<or> act = 1 - w_active w \<and> es (w_active w) = []"
    using idx emp newer lap_newer_asym by (auto simp: act_def split: if_splits)
  have ring: "ring_ok w' es"
  proof (cases "act = w_active w")
    case True
    then show ?thesis
      using fr d two get halves
      by (simp add: ring_ok_def active_half_def other_half_def)
  next
    case False
    then have a: "act = 1 - w_active w" "es (w_active w) = []" "1 - act = w_active w" "act < 2"
      "\<not> group_open (es act)"
      using act idx d(19)[OF two] by auto
    then show ?thesis
      using fr d two get halves
      by (simp add: ring_ok_def active_half_def other_half_def) (simp add: group_open_def)
  qed
  have "ring_log w' es = ring_log w es"
    using act idx two fr by (auto simp: ring_log_def)
  then show ?thesis
    using open_w ring halves fr(1) by blast
next
  case one: False
  note d = ring_okD[OF ok]
  obtain nl where r: "read_layout (w_mmap w) = Inr (w_mmap w, \<lparr>l_halves = [get_half w 0, get_half w 1],
    l_active = 0, l_two = False, l_next_lap = nl, l_trailer = 8\<rparr>)"
    using open_one[OF ok one] by blast
  define w' where "w' = assemble (w_mmap w) \<lparr>l_halves = [get_half w 0, get_half w 1],
    l_active = 0, l_two = False, l_next_lap = nl, l_trailer = 8\<rparr>"
  have halves: "w_halves w' = w_halves w"
    using two_halves_list[OF d(1)] by (simp add: w'_def assemble_def get_half_def)
  have get: "get_half w' j = get_half w j" for j using halves by (rule get_half_cong)
  have fr: "w_mmap w' = w_mmap w" "w_active w' = 0" "\<not> w_two w'" "w_trailer w' = 8" "w_commit_room w' = 120"
    "w_fail_commits w' = 0" "w_keypair w' = None" "ring_version w' = ring_version w"
    using one by (simp_all add: w'_def assemble_def ring_version_def)
  have "ring_ok w' es"
    using d one get halves fr by (simp add: ring_ok_def active_half_def)
  moreover have "ring_log w' es = ring_log w es"
    using d(13)[OF one] one fr by (simp add: ring_log_def)
  moreover have "wal_open (w_mmap w) = Inr w'"
    by (simp add: wal_open_def r w'_def)
  ultimately show ?thesis
    using halves fr(1) by blast
qed

section \<open>Recovery\<close>

lemma scan_step_bounded:
  assumes "scan_bounded st" "scan_step header payload pos st = Some st'"
  shows "scan_bounded st'"
  using assms
  by (auto simp: scan_bounded_def scan_step_def header_ref_def Let_def le_max_iff_disj
      split: option.splits op.splits if_splits)

lemma scan_part_bounded:
  "scan_bounded st \<Longrightarrow> scan_bounded (fst (scan_part m trailer base lap till end offset st))"
proof (induction m trailer base lap till "end" offset st rule: scan_part.induct)
  case (1 m trailer base lap till "end" offset st)
  have max: "scan_bounded (st\<lparr>sc_max_lsn := max (sc_max_lsn st) x, sc_max_hlc := max (sc_max_hlc st) y\<rparr>)" for x y
    using "1.prems" by (auto simp: scan_bounded_def le_max_iff_disj)
  show ?case
    using 1 max scan_step_bounded[OF "1.prems"]
    by (subst scan_part.simps) (auto split: sum.splits option.splits)
qed

lemma scan_parts_bounded:
  "scan_bounded st \<Longrightarrow> scan_bounded (fst (scan_parts m trailer till ps re st))"
  using scan_part_bounded
  by (induction m trailer till ps re st rule: scan_parts.induct)
    (auto simp: Let_def split: prod.splits sum.splits, (metis fst_conv)+)

lemma scan_range_bounded:
  "\<forall>(r, _) \<in> set (so_out (scan_range_with start till w) @ so_tail (scan_range_with start till w)).
     rr_lsn r \<le> so_max_lsn (scan_range_with start till w) \<and> rr_hlc r \<le> so_max_hlc (scan_range_with start till w)"
proof -
  obtain st stop re where s: "scan_parts (w_mmap w) (w_trailer w) till (read_plan start False w) None
      (scan_init start) = (st, stop, re)"
    by (metis prod_cases3)
  have "scan_bounded (scan_init start)"
    by (simp add: scan_bounded_def scan_init_def)
  then have "scan_bounded st"
    using scan_parts_bounded s by (metis fst_conv)
  then show ?thesis
    by (simp only: scan_range_with_def s prod.case Let_def scan_out.select_convs append_take_drop_id)
      (simp add: scan_bounded_def)
qed

lemma append_in_place:
  assumes ok: "ring_ok w es" and op: "op_ok w_op"
    and fit: "h_head (active_half w) + append_need (120 + payload_size w_op) (w_op = Commit) \<le> h_size (active_half w)"
  shows "\<exists>w' lsn hlc e. append_locked now w_op (w_op = Commit) None None w = (w', Inr (lsn, hlc)) \<and>
    describes now w_op None None w lsn hlc e \<and> appended (w_active w) e w w' \<and>
    ring_ok w' (es(w_active w := es (w_active w) @ [e])) \<and>
    ring_log w' (es(w_active w := es (w_active w) @ [e])) = ring_log w es @ [e]"
proof -
  let ?n = "120 + payload_size w_op"
  define w1 where "w1 = set_half (w_active w) ((active_half w)\<lparr>h_head := h_head (active_half w) + ?n\<rparr>) w"
  have al: "alloc now ?n (w_op = Commit) w = (w1, Some (w_active w, h_head (active_half w)))"
    using fit by (simp add: alloc_def alloc_off_reserved[OF ok] w1_def)
  have res: "reserved w ?n w1"
    by (simp add: reserved_def w1_def)
  have fit': "h_head (active_half w) + 120 + payload_size w_op \<le> h_size (active_half w)"
    using fit by (simp add: append_need_def)
  obtain w' lsn hlc e where r: "append_locked now w_op (w_op = Commit) None None w = (w', Inr (lsn, hlc))"
    "describes now w_op None None w lsn hlc e" "appended (w_active w) e w w'" "entry_ok e" "entry_len e = ?n"
    using append_locked_reserved[OF ok al res ring_okD(2)[OF ok] op fit', of None None] by auto
  have com: "is_commit e \<longleftrightarrow> w_op = Commit"
    using r(2) by (simp add: is_commit_def describes_def)
  show ?thesis
    using appended_ring_ok[OF ok r(3,4)] r fit com by (auto simp: append_need_def)
qed

lemma sample_create:
  "\<exists>w. wal_create 40000 = Inr w \<and> ring_ok w (\<lambda>_. []) \<and> lap_newer (w_next_lap w) (h_lap (active_half w)) \<and>
     (\<forall>i < 2. h_size (get_half w i) = 16384) \<and> h_head (active_half w) = 32"
proof -
  obtain w where w: "ring_ok w (\<lambda>_. [])" "lap_newer (w_next_lap w) (h_lap (active_half w))"
      "wal_create 40000 = Inr w"
    using create_ring_ok[of 40000] by auto
  have "h_size (get_half w i) = 16384" if "i < 2" for i
    using w(3) that
    by (auto simp: wal_create_def fresh_layout_def half_size_for_def assemble_def get_half_def half_new_def
        less_2_cases_nat)
  moreover have "h_head (active_half w) = 32"
    using half_ok_head[OF ring_half_ok[OF w(1), of "w_active w"]] by (simp add: active_half_def)
  ultimately show ?thesis using w by blast
qed

text \<open>A concrete log for the witnesses: one Delete, not yet committed.\<close>

lemma sample_log:
  "\<exists>w es e mid. ring_ok w es \<and> ring_log w es = mid @ [e] \<and> list_all is_commit mid \<and>
     entry_op e = Some (Delete 77) \<and> (\<forall>i < 2. h_checkpoint (get_half w i) = 32)"
proof -
  obtain w where w: "ring_ok w (\<lambda>_. [])" "\<forall>i < 2. h_size (get_half w i) = 16384" "h_head (active_half w) = 32"
    using sample_create by blast
  have act: "w_active w < 2" using ring_okD(5)[OF w(1)] .
  have "h_head (active_half w) + append_need (120 + payload_size (Delete 77)) False \<le> h_size (active_half w)"
    using w(2,3) act by (simp add: append_need_def active_half_def)
  then obtain w' e lsn hlc where w': "describes 5 (Delete 77) None None w lsn hlc e" "appended (w_active w) e w w'"
      "ring_ok w' ((\<lambda>_. [])(w_active w := [e]))" "ring_log w' ((\<lambda>_. [])(w_active w := [e])) = [e]"
    using append_in_place[OF w(1), of "Delete 77" 5] by (auto simp: ring_log_def)
  have cp: "h_checkpoint (get_half w i) = 32" if "i < 2" for i
  proof -
    have "half_ok (w_mmap w) (ring_version w) (get_half w i) []"
      using ring_half_used[OF w(1) that] w(2) that by simp
    then show ?thesis using half_ok_head[of _ _ _ "[]"] half_okD(3,4) by fastforce
  qed
  have "h_checkpoint (get_half w' i) = 32" if "i < 2" for i
    using w'(2) cp[OF that] cp[OF act] ring_okD(1)[OF w(1)] that
    by (cases "i = w_active w") (simp_all add: appended_def get_half_def Let_def)
  then show ?thesis
    using w' by (intro exI[of _ w'] exI[of _ "(\<lambda>_. [])(w_active w := [e])"] exI[of _ e] exI[of _ "[]"])
      (simp add: describes_def)
qed

lemma scan_only_bytes:
  assumes "w_mmap w' = w_mmap w" "w_halves w' = w_halves w" "w_trailer w' = w_trailer w"
  shows "scan_range_with start till w' = scan_range_with start till w"
proof -
  have g: "get_half w' i = get_half w i" for i using assms(2) by (rule get_half_cong)
  have "read_plan start False w' = read_plan start False w"
    by (simp add: read_plan_def plan_order_def plan_part_def[abs_def] g)
  then show ?thesis using assms by (simp add: scan_range_with_def)
qed

lemma recover_with_tail_scan:
  "recover_with_tail w = (w', recs) \<Longrightarrow>
    recs = strip_offsets (so_out (scan_from_offset (wal_checkpoint w) w) @ so_tail (scan_from_offset (wal_checkpoint w) w)) \<and>
    w_next_lsn w' = (if so_max_lsn (scan_from_offset (wal_checkpoint w) w) > 0
       then so_max_lsn (scan_from_offset (wal_checkpoint w) w) + 1 else w_next_lsn w) \<and>
    (0 < hlc_wall (so_max_hlc (scan_from_offset (wal_checkpoint w) w)) \<longrightarrow>
       w_hlc w' = (hlc_wall (so_max_hlc (scan_from_offset (wal_checkpoint w) w)),
                   hlc_logical (so_max_hlc (scan_from_offset (wal_checkpoint w) w))))"
  by (auto simp: recover_with_tail_def recover_inner_def strip_offsets_def Let_def)

lemma less_next_word: "a \<le> b \<Longrightarrow> b + 1 \<noteq> 0 \<Longrightarrow> a < b + (1 :: 'a::len word)"
  using unatSuc[of b] by (simp add: word_less_nat_alt word_le_nat_alt add.commute)

lemma recover_covered:
  assumes "ring_ok w es" "list_all readable (ring_log w es)"
    and "\<And>i. i < 2 \<Longrightarrow> h_checkpoint (get_half w i) = 32"
  shows "snd (recover_with_tail w) = map to_record (log_refs (ring_log w es))"
proof -
  let ?s = "scan_from_offset (wal_checkpoint w) w"
  have "map fst (so_out ?s @ so_tail ?s) = log_refs (ring_log w es)"
    using scan_covered(2,3)[OF assms(1,2) checkpoint_covers[OF assms(1,3)]]
    by (simp add: committed_open flip: log_refs_append)
  then show ?thesis
    using recover_with_tail_scan[of w "fst (recover_with_tail w)" "snd (recover_with_tail w)"]
    by (simp add: strip_offsets_def case_prod_unfold comp_def flip: map_map[unfolded comp_def])
qed

lemma sample_readable:
  "list_all is_commit mid \<Longrightarrow> entry_op e = Some (Delete 77) \<Longrightarrow> list_all readable (mid @ [e])"
  "list_all is_commit mid \<Longrightarrow> entry_op e = Some (Delete 77) \<Longrightarrow>
     \<exists>r. map to_record (log_refs (mid @ [e])) = [r] \<and> r_op r = Delete 77"
  by (auto simp: list_all_iff is_commit_def readable_def log_refs_def entry_refs_def header_ref_def to_record_def)

section \<open>Properties\<close>

text \<open>
  A log created with any capacity the format allows is empty: it satisfies the ring
  invariant with no records, a scan of it returns nothing and stops at the head.
\<close>

theorem create_empty_log:
  assumes "32 \<le> c" "c < 0xFFFFFFFF"
  shows "\<exists>w. wal_create c = Inr w \<and> ring_ok w (\<lambda>_. []) \<and> iter_committed w = [] \<and>
    records_with_tail w = [] \<and> so_stop (scan_from_offset 32 w) = StopHead"
proof -
  obtain w where w: "wal_create c = Inr w" "ring_ok w (\<lambda>_. [])"
    using create_ring_ok[OF assms] by blast
  have "ring_log w (\<lambda>_. []) = []" by (simp add: ring_log_def)
  then show ?thesis
    using w scan_ring[OF w(2)]
    by (simp add: iter_committed_def records_with_tail_def strip_offsets_def committed_prefix_def
        open_tail_def log_refs_def Let_def)
qed

theorem create_empty_log_witness:
  "\<exists>w. wal_create 40000 = Inr w \<and> ring_ok w (\<lambda>_. []) \<and> iter_committed w = []"
  using create_empty_log[of 40000] by auto

text \<open>
  C5. An append either puts exactly its record at the end of the log, after at most one
  closing Commit when the ring had to move to its other half, with the next sequence number
  and bytes that decode to the operation, its clock and its author; or it reports that the
  log is full, changes nothing, and the record indeed does not fit.
\<close>

theorem append_adds_one_record:
  assumes "ring_ok w es" "lap_newer (w_next_lap w) (h_lap (active_half w))" "op_ok w_op"
    and "case relay of None \<Rightarrow> True | Some r \<Rightarrow> length (rh_signature r) = 64 \<and> length (rh_pubkey_fp r) = 8"
  shows "case append_locked now w_op (w_op = Commit) relay ho w of
      (w', Inr (lsn, hlc)) \<Rightarrow> (\<exists>es' mid e. ring_ok w' es' \<and> ring_log w' es' = ring_log w es @ mid @ [e] \<and>
        list_all is_commit mid \<and> length mid \<le> 1 \<and> lsn = w_next_lsn w + of_nat (length mid) \<and>
        decode_signed (e_sb e) =
          Some (lsn, hlc, case relay of None \<Rightarrow> hlc_peer hlc | Some r \<Rightarrow> rh_author r, w_op))
    | (w', Inl err) \<Rightarrow> err = WalFull \<and> w' = w \<and>
        log_full w es (append_need (120 + payload_size w_op) (w_op = Commit))"
proof (rule disjE[OF append_refines[OF assms, of now ho]], goal_cases)
  case 1
  then obtain w' lsn hlc w0 es' mid e where "append_locked now w_op (w_op = Commit) relay ho w = (w', Inr (lsn, hlc))"
    "ring_ok w' es'" "ring_log w' es' = ring_log w es @ mid @ [e]" "list_all is_commit mid" "length mid \<le> 1"
    "lsn = w_next_lsn w + of_nat (length mid)" "describes now w_op relay ho w0 lsn hlc e"
    by blast
  then show ?case
    unfolding describes_def by (simp only: prod.case sum.case) blast
qed simp

theorem append_adds_one_record_witness:
  "\<exists>w. wal_create 40000 = Inr w \<and>
    (case append_locked 5 (Delete 77) False None None w of
       (w', Inr (lsn, hlc)) \<Rightarrow> \<exists>es' mid e. ring_ok w' es' \<and> ring_log w' es' = mid @ [e] \<and>
         decode_signed (e_sb e) = Some (lsn, hlc, hlc_peer hlc, Delete 77)
     | (w', Inl err) \<Rightarrow> False)"
proof -
  obtain w where w: "wal_create 40000 = Inr w" "ring_ok w (\<lambda>_. [])"
      "lap_newer (w_next_lap w) (h_lap (active_half w))"
      "\<forall>i < 2. h_size (get_half w i) = 16384" "h_head (active_half w) = 32"
    using sample_create by blast
  have "\<not> log_full w (\<lambda>_. []) (append_need 128 False)"
    using w(4,5) ring_okD(5)[OF w(2)] by (simp add: log_full_def append_need_def active_half_def)
  then show ?thesis
    using append_adds_one_record[OF w(2,3), of "Delete 77" None 5 None] w(1)
    by (fastforce simp: ring_log_def split: prod.splits sum.splits)
qed

text \<open>
  C6. A relayed record is stored byte for byte: the entry at the end of the log holds the
  author's signed bytes, signature and fingerprint unchanged, so the author's signature
  still verifies after the hop; or it reports that the log is full, changes nothing, and the
  record indeed does not fit.
\<close>

theorem relay_stores_verbatim:
  assumes "ring_ok w es" "lap_newer (w_next_lap w) (h_lap (active_half w))"
    and "relay_check sb = None" "length sig = 64" "length fp = 8"
  shows "case append_verbatim_checked now sb sig fp w of
      (w', Inr lsn) \<Rightarrow> lsn = r64 sb 8 \<and> (\<exists>es' mid. ring_ok w' es' \<and> list_all is_commit mid \<and> length mid \<le> 1 \<and>
        ring_log w' es' = ring_log w es @ mid @ [\<lparr>e_sb = sb, e_sig = sig, e_fp = fp\<rparr>])
    | (w', Inl err) \<Rightarrow> err = WalFull \<and> w' = w \<and>
        log_full w es (append_need (entry_len \<lparr>e_sb = sb, e_sig = sig, e_fp = fp\<rparr>) False)"
proof (rule disjE[OF verbatim_refines[OF assms, of now]], goal_cases)
  case 1
  then show ?case by (elim exE conjE) (simp only: prod.case sum.case, blast)
qed simp

lemma sample_relay:
  defines "sb \<equiv> e_sb (new_entry Commit [] 3 (Hlc 1 2 9) 9 ZERO_SIGNATURE ZERO_PUBKEY_FP)"
  shows "relay_check sb = None" "length ZERO_SIGNATURE = 64" "length ZERO_PUBKEY_FP = 8"
    "entry_len \<lparr>e_sb = sb, e_sig = ZERO_SIGNATURE, e_fp = ZERO_PUBKEY_FP\<rparr> = 120"
proof -
  show len: "length ZERO_SIGNATURE = 64" "length ZERO_PUBKEY_FP = 8"
    by (simp_all add: ZERO_SIGNATURE_def ZERO_PUBKEY_FP_def)
  have "entry_ok (new_entry Commit [] 3 (Hlc 1 2 9) 9 ZERO_SIGNATURE ZERO_PUBKEY_FP)" using new_entry_ok[of "[]"] len by simp
  then show "relay_check sb = None" by (simp add: sb_def entry_ok_def)
  show "entry_len \<lparr>e_sb = sb, e_sig = ZERO_SIGNATURE, e_fp = ZERO_PUBKEY_FP\<rparr> = 120"
    by (simp add: sb_def entry_len_def new_entry_def length_signed_payload)
qed

theorem relay_stores_verbatim_witness:
  "\<exists>w sb. wal_create 40000 = Inr w \<and> relay_check sb = None \<and>
    (case append_verbatim_checked 5 sb ZERO_SIGNATURE ZERO_PUBKEY_FP w of
       (w', Inr lsn) \<Rightarrow> lsn = r64 sb 8 \<and> (\<exists>es' mid. ring_log w' es' = mid @ [\<lparr>e_sb = sb, e_sig = ZERO_SIGNATURE, e_fp = ZERO_PUBKEY_FP\<rparr>])
     | (w', Inl err) \<Rightarrow> False)"
proof -
  obtain w where w: "wal_create 40000 = Inr w" "ring_ok w (\<lambda>_. [])"
      "lap_newer (w_next_lap w) (h_lap (active_half w))"
      "\<forall>i < 2. h_size (get_half w i) = 16384" "h_head (active_half w) = 32"
    using sample_create by blast
  let ?sb = "e_sb (new_entry Commit [] 3 (Hlc 1 2 9) 9 ZERO_SIGNATURE ZERO_PUBKEY_FP)"
  let ?e = "\<lparr>e_sb = ?sb, e_sig = ZERO_SIGNATURE, e_fp = ZERO_PUBKEY_FP\<rparr>"
  have "\<not> log_full w (\<lambda>_. []) (append_need (entry_len ?e) False)"
    using w(4,5) ring_okD(5)[OF w(2)] unfolding sample_relay(4) by (simp add: log_full_def append_need_def active_half_def)
  then show ?thesis
    using relay_stores_verbatim[OF w(2,3) sample_relay(1-3), of 5] w(1) sample_relay(1)
    by (intro exI[of _ w] exI[of _ ?sb]) (auto simp: ring_log_def split: prod.splits sum.splits)
qed

text \<open>
  C7. A scan from the start returns exactly the log, cut at its last Commit: the committed
  part is the records up to it, the tail the records after it, in log order across both
  halves, nothing is skipped or invented, and the scan reports that it reached the head.
\<close>

theorem scan_reads_log:
  assumes "ring_ok w es" "list_all readable (ring_log w es)"
  shows "so_stop (scan_from_offset 32 w) = StopHead \<and>
    map fst (so_out (scan_from_offset 32 w)) = log_refs (committed_prefix (ring_log w es)) \<and>
    map fst (so_tail (scan_from_offset 32 w)) = log_refs (open_tail (ring_log w es)) \<and>
    map fst (so_out (scan_from_offset 32 w) @ so_tail (scan_from_offset 32 w)) = log_refs (ring_log w es)"
  using scan_ring[OF assms] by (simp add: committed_open flip: log_refs_append)

theorem scan_reads_log_witness:
  "\<exists>w e. map rr_op (map fst (so_tail (scan_from_offset 32 w))) = [Delete 77] \<and>
     so_out (scan_from_offset 32 w) = [] \<and> entry_op e = Some (Delete 77)"
proof -
  obtain w es e mid where s: "ring_ok w es" "ring_log w es = mid @ [e]" "list_all is_commit mid"
      "entry_op e = Some (Delete 77)"
    using sample_log by blast
  have e: "\<not> is_commit e" "readable e" using s(4) by (simp_all add: is_commit_def readable_def)
  have "list_all readable mid"
    using s(3) by (auto simp: list_all_iff is_commit_def readable_def)
  moreover have "log_refs mid = []"
    using s(3) by (auto simp: log_refs_def entry_refs_def list_all_iff is_commit_def)
  moreover have "committed_prefix (mid @ [e]) = mid"
    using s(3) e by (cases mid rule: rev_cases) (simp_all add: committed_prefix_def)
  moreover have "open_tail (mid @ [e]) = [e]"
    using s(3) e by (cases mid rule: rev_cases) (simp_all add: open_tail_def)
  ultimately have "map fst (so_tail (scan_from_offset 32 w)) = log_refs [e]" "so_out (scan_from_offset 32 w) = []"
    using scan_reads_log[OF s(1)] s(2) e by simp_all
  then show ?thesis
    using s(4) by (intro exI[of _ w] exI[of _ e]) (auto simp: log_refs_def entry_refs_def header_ref_def)
qed

text \<open>A group is open in the active half while the last record of the log is not a Commit, and then
  its Commit has room.\<close>

lemma open_log_active:
  assumes ok: "ring_ok w es" and l: "ring_log w es = l @ [e]" and e: "\<not> is_commit e"
  shows "group_open (es (w_active w))"
proof (cases "es (w_active w) = []")
  case True
  then have "w_two w" "es (1 - w_active w) = l @ [e]" using l by (auto simp: ring_log_def split: if_splits)
  then show ?thesis using ring_okD(19)[OF ok] e by (simp add: group_open_def)
next
  case False
  then have "last (es (w_active w)) = e" using l by (metis last_appendR last_snoc ring_log_def)
  then show ?thesis using e False by (simp add: group_open_def)
qed

lemma open_group_commits:
  assumes ok: "ring_ok w es" and l: "ring_log w es = l @ [e]" and e: "\<not> is_commit e"
  shows "\<exists>w' lsn hlc es' c. append_locked now Commit True None None w = (w', Inr (lsn, hlc)) \<and> w_active w' = w_active w \<and>
    ring_ok w' es' \<and> ring_log w' es' = l @ [e, c] \<and> is_commit c \<and> lsn = w_next_lsn w"
proof -
  have "h_head (active_half w) + append_need (120 + payload_size Commit) (Commit = Commit) \<le> h_size (active_half w)"
    using ring_okD(16)[OF ok open_log_active[OF assms]] by (simp add: append_need_def)
  then obtain w' lsn hlc c where "append_locked now Commit True None None w = (w', Inr (lsn, hlc))"
      "describes now Commit None None w lsn hlc c" "appended (w_active w) c w w'" "ring_ok w' (es(w_active w := es (w_active w) @ [c]))"
      "ring_log w' (es(w_active w := es (w_active w) @ [c])) = ring_log w es @ [c]"
    using append_in_place[OF ok, of Commit now] by auto
  then show ?thesis using l by (auto simp: is_commit_def describes_def appended_def same_ring_def Let_def)
qed

text \<open>
  C8. An open group can always be closed: whenever the log accepts a record that is not a Commit,
  written here or relayed, however full the ring is, the Commit that follows it succeeds at once
  and in the same half, right after the record, because the append reserved its room.
\<close>

theorem open_group_closes:
  assumes "ring_ok w es" "lap_newer (w_next_lap w) (h_lap (active_half w))"
    and "(\<exists>w_op relay ho lsn1 hlc1. op_ok w_op \<and> w_op \<noteq> Commit \<and>
        (case relay of None \<Rightarrow> True | Some r \<Rightarrow> length (rh_signature r) = 64 \<and> length (rh_pubkey_fp r) = 8) \<and>
        append_locked t w_op False relay ho w = (w1, Inr (lsn1, hlc1))) \<or>
      (\<exists>sb sig fp lsn1. relay_check sb = None \<and> length sig = 64 \<and> length fp = 8 \<and> \<not> is_commit \<lparr>e_sb = sb, e_sig = sig, e_fp = fp\<rparr> \<and>
        append_verbatim_checked t sb sig fp w = (w1, Inr lsn1))"
  shows "\<exists>w2 lsn hlc es1 es2 l e c. append_locked now Commit True None None w1 = (w2, Inr (lsn, hlc)) \<and> w_active w2 = w_active w1 \<and>
    lsn = w_next_lsn w1 \<and> ring_ok w1 es1 \<and> ring_log w1 es1 = l @ [e] \<and> ring_ok w2 es2 \<and> ring_log w2 es2 = l @ [e, c] \<and> is_commit c"
proof -
  have "\<exists>es1 l e. ring_ok w1 es1 \<and> ring_log w1 es1 = l @ [e] \<and> \<not> is_commit e"
    using assms(3)
  proof (elim disjE exE conjE)
    fix w_op relay ho lsn1 hlc1
    assume op: "op_ok w_op" "w_op \<noteq> Commit" and a: "append_locked t w_op False relay ho w = (w1, Inr (lsn1, hlc1))"
      and rel: "case relay of None \<Rightarrow> True | Some r \<Rightarrow> length (rh_signature r) = 64 \<and> length (rh_pubkey_fp r) = 8"
    have a': "append_locked t w_op (w_op = Commit) relay ho w = (w1, Inr (lsn1, hlc1))" using a op(2) by simp
    obtain w0 es' mid e where "ring_ok w1 es'" "ring_log w1 es' = ring_log w es @ mid @ [e]" "describes t w_op relay ho w0 lsn1 hlc1 e"
      using append_refines[OF assms(1,2) op(1) rel, of t ho] unfolding a' by auto
    moreover have "\<not> is_commit e" using calculation(3) op(2) by (simp add: describes_def is_commit_def)
    ultimately show ?thesis by (metis append.assoc)
  next
    fix sb sig fp lsn1
    assume r: "relay_check sb = None" "length sig = 64" "length fp = 8" "\<not> is_commit \<lparr>e_sb = sb, e_sig = sig, e_fp = fp\<rparr>"
      and a: "append_verbatim_checked t sb sig fp w = (w1, Inr lsn1)"
    show ?thesis using verbatim_refines[OF assms(1,2) r(1-3), of t] a r(4) by auto
  qed
  then obtain es1 l e where o1: "ring_ok w1 es1" "ring_log w1 es1 = l @ [e]" "\<not> is_commit e" by blast
  from open_group_commits[OF o1, of now] o1 show ?thesis by blast
qed

theorem open_group_closes_witness:
  "\<exists>w w1 w2 lsn1 hlc1 lsn hlc. wal_create 40000 = Inr w \<and> append_locked 5 (Delete 77) False None None w = (w1, Inr (lsn1, hlc1)) \<and>
    append_locked 6 Commit True None None w1 = (w2, Inr (lsn, hlc)) \<and> w_active w2 = w_active w1"
proof -
  obtain w where w: "wal_create 40000 = Inr w" "ring_ok w (\<lambda>_. [])" "lap_newer (w_next_lap w) (h_lap (active_half w))"
      "\<forall>i < 2. h_size (get_half w i) = 16384" "h_head (active_half w) = 32"
    using sample_create by blast
  have "h_head (active_half w) + append_need (120 + payload_size (Delete 77)) False \<le> h_size (active_half w)"
    using w(4,5) ring_okD(5)[OF w(2)] by (simp add: append_need_def active_half_def)
  then obtain w1 lsn1 hlc1 where a: "append_locked 5 (Delete 77) False None None w = (w1, Inr (lsn1, hlc1))"
    using append_in_place[OF w(2), of "Delete 77" 5] by auto
  have op: "op_ok (Delete 77)" "Delete 77 \<noteq> Commit" "case None of None \<Rightarrow> True | Some r \<Rightarrow> length (rh_signature r) = 64 \<and> length (rh_pubkey_fp r) = 8"
    by simp_all
  have "\<exists>w2 lsn hlc es1 es2 l e c. append_locked 6 Commit True None None w1 = (w2, Inr (lsn, hlc)) \<and> w_active w2 = w_active w1 \<and>
    lsn = w_next_lsn w1 \<and> ring_ok w1 es1 \<and> ring_log w1 es1 = l @ [e] \<and> ring_ok w2 es2 \<and> ring_log w2 es2 = l @ [e, c] \<and> is_commit c"
    by (rule open_group_closes[OF w(2,3)], rule disjI1, intro exI conjI, rule op(1), rule op(2), rule op(3), rule a)
  then show ?thesis using w(1) a by blast
qed

text \<open>
  C9. Moving the checkpoint to any position, even a stale or foreign one, changes no record
  of the log, never moves a checkpoint back, and never puts it past the records written.
\<close>

theorem checkpoint_keeps_log:
  assumes "ring_ok w es"
  shows "ring_ok (advance_checkpoint_locked pos w) es \<and>
    ring_log (advance_checkpoint_locked pos w) es = ring_log w es \<and>
    h_checkpoint (get_half w i) \<le> h_checkpoint (get_half (advance_checkpoint_locked pos w) i) \<and>
    h_head (get_half (advance_checkpoint_locked pos w) i) = h_head (get_half w i)"
proof -
  have r0: "ring_ok (advance_half pos 0 w) es"
    using advance_half_ring(1)[OF assms] by simp
  have "h_checkpoint (get_half w i) \<le> h_checkpoint (get_half (advance_half pos 0 w) i)"
    using advance_half_ring(3)[OF assms] by simp
  also have "\<dots> \<le> h_checkpoint (get_half (advance_half pos 1 (advance_half pos 0 w)) i)"
    using advance_half_ring(3)[OF r0] by simp
  finally show ?thesis
    unfolding advance_checkpoint_locked_def
    using advance_half_ring(1,2,4)[OF assms] advance_half_ring(1,2,4)[OF r0] by simp
qed

theorem checkpoint_keeps_log_witness:
  "\<exists>w es. ring_ok w es \<and> ring_log w es \<noteq> [] \<and>
     ring_log (advance_checkpoint_locked (wal_head w) w) es = ring_log w es"
  using sample_log checkpoint_keeps_log[of _ _ "wal_head _" 0] by fastforce

text \<open>
  C10. Folding a half gives up only records that are in the database body and that every
  reader has passed: the fold happens only when the half's checkpoint is at its head and the
  caller's test accepts that position; it removes exactly the records of that half, which
  are the oldest of the log, and keeps all others.
\<close>

theorem fold_drops_only_applied:
  assumes "ring_ok w es" "try_reset_if fsync_ok safe w = (w', True)"
  shows "\<exists>i es'. i < 2 \<and> safe (wal_pos (h_lap (get_half w i)) (h_head (get_half w i))) \<and>
    h_checkpoint (get_half w i) = h_head (get_half w i) \<and> es i \<noteq> [] \<and> ring_ok w' es' \<and>
    ring_log w es = es i @ ring_log w' es'"
  using fold_refines[OF assms] .

theorem fold_drops_only_applied_witness:
  "\<exists>w w' es es'. ring_ok w es \<and> ring_log w es \<noteq> [] \<and> try_reset_if True (\<lambda>_. True) w = (w', True) \<and>
     ring_ok w' es' \<and> length (ring_log w' es') < length (ring_log w es)"
proof -
  obtain w0 es e mid where s: "ring_ok w0 es" "ring_log w0 es = mid @ [e]"
    using sample_log by blast
  define i where "i = (if w_two w0 \<and> es (1 - w_active w0) \<noteq> [] then 1 - w_active w0 else w_active w0)"
  have i: "i = w_active w0 \<or> w_two w0 \<and> i = 1 - w_active w0" "i < 2"
    using ring_okD(5)[OF s(1)] by (auto simp: i_def)
  have hok: "half_ok (w_mmap w0) (ring_version w0) (get_half w0 i) (es i)"
    using ring_half_ok[OF s(1) i(1)] .
  have ne: "es i \<noteq> []"
    using s(2) by (auto simp: i_def ring_log_def split: if_splits)
  define w where "w = advance_half (wal_pos (h_lap (get_half w0 i)) (h_head (get_half w0 i))) i w0"
  have pos: "h_head (get_half w0 i) < 2 ^ 32" "0 < h_size (get_half w0 i)"
    using half_okD(2,6)[OF hok] half_ok_size[OF hok] by simp_all
  have w: "ring_ok w es" "ring_log w es = ring_log w0 es"
    using advance_half_ring[OF s(1) i(2)] by (simp_all add: w_def)
  have same: "w_two w = w_two w0" "w_active w = w_active w0"
    by (simp_all add: w_def advance_half_def set_half_def Let_def)
  have il: "i < length (w_halves w0)" using ring_okD(1)[OF s(1)] i(2) by simp
  have cp: "h_checkpoint (get_half w i) = h_head (get_half w i)"
    using pos half_okD(4)[OF hok] il
    by (simp add: w_def advance_half_def Let_def)
  have hok': "half_ok (w_mmap w) (ring_version w) (get_half w i) (es i)"
    using ring_half_ok[OF w(1), of i] i(1) same by simp
  have head: "h_head (get_half w i) > 32"
    using half_ok_empty[OF hok'] ne by (simp add: half_is_empty_def)
  have two_ne: "1 - w_active w0 \<noteq> w_active w0"
    using ring_okD(5)[OF s(1)] by arith
  have other: "w_two w \<Longrightarrow> i = w_active w \<Longrightarrow> half_is_empty (get_half w (1 - w_active w))"
    using half_ok_empty[OF ring_half_ok[OF w(1), of "1 - w_active w"]] same two_ne
    by (auto simp: i_def split: if_splits)
  have "fold_target_locked w = Some (i, wal_pos (h_lap (get_half w i)) (h_head (get_half w i)))"
    using i cp head other same
    by (auto simp: fold_target_locked_def half_is_empty_def Let_def i_def split: if_splits)
  then obtain w' where t: "try_reset_if True (\<lambda>_. True) w = (w', True)"
    using head by (simp add: try_reset_if_def fold_half_locked_def Let_def)
  obtain j es' where "es j \<noteq> []" "ring_ok w' es'" "ring_log w es = es j @ ring_log w' es'"
    using fold_drops_only_applied[OF w(1) t] by blast
  then show ?thesis
    using w t s(2) by (intro exI[of _ w] exI[of _ w'] exI[of _ es] exI[of _ es']) simp
qed

text \<open>
  C11. Closing and opening the file keeps the log: the bytes of a well-formed ring open as a
  well-formed ring with the same records in the same halves, and every scan of the reopened
  log returns what it returned before.
\<close>

theorem reopen_keeps_log:
  assumes "ring_ok w es"
  shows "\<exists>w'. wal_open (w_mmap w) = Inr w' \<and> ring_ok w' es \<and> ring_log w' es = ring_log w es \<and>
    w_halves w' = w_halves w \<and> scan_range_with start till w' = scan_range_with start till w"
proof -
  obtain w' where w': "wal_open (w_mmap w) = Inr w'" "ring_ok w' es" "ring_log w' es = ring_log w es"
      "w_halves w' = w_halves w" "w_mmap w' = w_mmap w"
    using reopen_ring[OF assms] by blast
  then show ?thesis
    using scan_only_bytes[of w' w] ring_okD(2)[OF assms] ring_okD(2)[OF w'(2)] by auto
qed

theorem reopen_keeps_log_witness:
  "\<exists>w es w'. ring_ok w es \<and> ring_log w es \<noteq> [] \<and> wal_open (w_mmap w) = Inr w' \<and> ring_log w' es = ring_log w es"
  using sample_log reopen_keeps_log by (metis snoc_eq_iff_butlast)

text \<open>
  C12. Recovery loses nothing: when no checkpoint has moved, opening the file again and
  recovering returns every record of the log in order, the committed ones and those of a
  group that was still open.
\<close>

theorem recover_restores_log:
  assumes "ring_ok w es" "list_all readable (ring_log w es)"
    and "\<forall>i < 2. h_checkpoint (get_half w i) = 32"
  shows "\<exists>w'. wal_open (w_mmap w) = Inr w' \<and> snd (recover_with_tail w') = map to_record (log_refs (ring_log w es))"
proof -
  obtain w' where w': "wal_open (w_mmap w) = Inr w'" "ring_ok w' es" "ring_log w' es = ring_log w es"
      "w_halves w' = w_halves w"
    using reopen_ring[OF assms(1)] by blast
  have "snd (recover_with_tail w') = map to_record (log_refs (ring_log w' es))"
    using recover_covered[OF w'(2)] assms(2,3) w'(3) get_half_cong[OF w'(4)] by simp
  then show ?thesis using w'(1,3) by auto
qed

theorem recover_restores_log_witness:
  "\<exists>(w :: oplog) w' r. wal_open (w_mmap w) = Inr w' \<and> snd (recover_with_tail w') = [r] \<and> r_op r = Delete 77"
proof -
  obtain w es e mid where s: "ring_ok w es" "ring_log w es = mid @ [e]" "list_all is_commit mid"
      "entry_op e = Some (Delete 77)" "\<forall>i < 2. h_checkpoint (get_half w i) = 32"
    using sample_log by blast
  then obtain w' where "wal_open (w_mmap w) = Inr w'"
      "snd (recover_with_tail w') = map to_record (log_refs (mid @ [e]))"
    using recover_restores_log[OF s(1) _ s(5)] sample_readable(1)[OF s(3,4)] by auto
  then show ?thesis
    using sample_readable(2)[OF s(3,4)] by (intro exI[of _ w] exI[of _ w']) auto
qed

text \<open>
  After recovery new records continue after everything that was read: the next sequence
  number is above that of every recovered record (unless the numbers ran out, and next is 0), and
  the clock is not behind the stamp of any recovered record.
\<close>

theorem recover_continues:
  assumes "recover_with_tail w = (w', recs)" "r \<in> set recs"
  shows "(r_lsn r < w_next_lsn w' \<or> w_next_lsn w' = 0) \<and>
    (0 < hlc_wall (r_hlc r) \<longrightarrow> r_hlc r \<le> Hlc (fst (w_hlc w')) (snd (w_hlc w')) (- 1))"
proof -
  let ?s = "scan_from_offset (wal_checkpoint w) w"
  note rec = recover_with_tail_scan[OF assms(1)]
  obtain rr pos where rr: "(rr, pos) \<in> set (so_out ?s @ so_tail ?s)" "r = to_record rr"
    using assms(2) conjunct1[OF rec] by (auto simp: strip_offsets_def)
  then have b: "r_lsn r \<le> so_max_lsn ?s" "r_hlc r \<le> so_max_hlc ?s"
    using scan_range_bounded[of "wal_checkpoint w" "- 1" w]
    by (auto simp: to_record_def scan_from_offset_def)
  have "r_lsn r < w_next_lsn w' \<or> w_next_lsn w' = 0"
    using rec b(1) less_next_word[of "r_lsn r" "so_max_lsn ?s"]
    by (auto simp: not_less word_le_0_iff word_neq_0_conv[symmetric] split: if_splits)
  moreover have "r_hlc r \<le> Hlc (fst (w_hlc w')) (snd (w_hlc w')) (- 1)" if "0 < hlc_wall (r_hlc r)"
  proof -
    have wall: "hlc_wall (r_hlc r) \<le> hlc_wall (so_max_hlc ?s)"
      using b(2) by (auto simp: less_eq_hlc_def cmp_key_def)
    then have "w_hlc w' = (hlc_wall (so_max_hlc ?s), hlc_logical (so_max_hlc ?s))"
      using rec that by simp
    then have "so_max_hlc ?s \<le> Hlc (fst (w_hlc w')) (snd (w_hlc w')) (- 1)"
      by (cases "so_max_hlc ?s") (auto simp: less_eq_hlc_def cmp_key_def)
    then show ?thesis using b(2) by (rule order_trans[rotated])
  qed
  ultimately show ?thesis by blast
qed

theorem recover_continues_witness:
  "\<exists>w w' r. r_op r = Delete 77 \<and> recover_with_tail w = (w', [r]) \<and>
     (r_lsn r < w_next_lsn w' \<or> w_next_lsn w' = 0)"
proof -
  obtain w es e mid where s: "ring_ok w es" "ring_log w es = mid @ [e]" "list_all is_commit mid"
      "entry_op e = Some (Delete 77)" "\<forall>i < 2. h_checkpoint (get_half w i) = 32"
    using sample_log by blast
  then obtain r w' where r: "recover_with_tail w = (w', [r])" "r_op r = Delete 77"
    using recover_covered[OF s(1)] sample_readable[OF s(3,4)] by (metis prod.collapse)
  then show ?thesis
    using recover_continues[of w w' "[r]" r] by auto
qed

text \<open>
  A record left over from an earlier lap is never read as part of the current one: a
  complete, checksummed record that was written under another lap stops the reader.
\<close>

theorem stale_lap_stops:
  assumes "entry_ok e" "at + entry_len e \<le> length m" "slice at (at + entry_len e) m = entry_bytes lap' e"
  shows "read_record m 8 lap at = (if lap' = lap
    then Inr (entry_header e, entry_payload e, at + entry_len e) else Inl StaleLap)"
  using read_record_entry[OF assms] .

theorem stale_lap_stops_witness:
  "\<exists>m e. entry_ok e \<and> read_record m 8 7 0 = Inl StaleLap \<and> read_record m 8 6 0 \<noteq> Inl StaleLap"
proof -
  have len: "length ZERO_SIGNATURE = 64" "length ZERO_PUBKEY_FP = 8"
    by (simp_all add: ZERO_SIGNATURE_def ZERO_PUBKEY_FP_def)
  let ?e = "new_entry Commit [] 3 (Hlc 1 2 9) 9 ZERO_SIGNATURE ZERO_PUBKEY_FP"
  have e: "entry_ok ?e" using new_entry_ok[of "[]"] len by simp
  have "entry_len ?e = length (entry_bytes 6 ?e)" using length_entry_bytes[OF e] by simp
  then show ?thesis
    using stale_lap_stops[OF e, of 0 "entry_bytes 6 ?e" 6] e
    by (intro exI[of _ "entry_bytes 6 ?e"] exI[of _ ?e]) (simp add: slice_def)
qed

end
