(* ===== verification/Eid_Translator.thy ===== *)
theory Eid_Translator
  imports Hlc
begin

text \<open>
  The table that maps the entities of other peers to local slots (\<^verbatim>\<open>EidTranslator\<close> in
  \<^verbatim>\<open>crates/enchudb-engine/src/eid_translator.rs\<close>): the forward map from a foreign entity to
  its slot, the reverse map from a slot to the one foreign entity its writes are addressed
  to, and the further names (aliases) of a slot that only the forward map knows. Each method
  holds all the locks it needs in one fixed order, so each is one step. The iteration order
  of the hash maps does not show in any result but the order of a snapshot, which is a set
  here.

  The lemmas show that the three maps never disagree, that giving up a slot removes every
  name of it, and that every change of what is persisted leaves a mark for the next flush.
\<close>

section \<open>Maps\<close>

type_synonym key = "peer_id \<times> u32"

record translator =
  t_inner :: "key \<rightharpoonup> u32"
  t_rev :: "u32 \<rightharpoonup> key"
  t_aliases :: "u32 \<rightharpoonup> key list"
  t_authors :: "peer_id set"
  t_dirty :: "key list"

definition tr_new :: translator where
  "tr_new = \<lparr>t_inner = Map.empty, t_rev = Map.empty, t_aliases = Map.empty, t_authors = {}, t_dirty = []\<rparr>"

definition mark_dirty :: "key \<Rightarrow> translator \<Rightarrow> translator" where
  "mark_dirty k t = t\<lparr>t_dirty := t_dirty t @ [k]\<rparr>"

definition take_dirty :: "translator \<Rightarrow> translator \<times> key list" where
  "take_dirty t = (t\<lparr>t_dirty := []\<rparr>, sort (remdups (t_dirty t)))"

definition clear_dirty :: "translator \<Rightarrow> translator" where
  "clear_dirty t = t\<lparr>t_dirty := []\<rparr>"

definition restore_dirty :: "key list \<Rightarrow> translator \<Rightarrow> translator" where
  "restore_dirty ks t = t\<lparr>t_dirty := t_dirty t @ ks\<rparr>"

definition aliases_of :: "u32 \<Rightarrow> translator \<Rightarrow> key list" where
  "aliases_of local t = (case t_aliases t local of None \<Rightarrow> [] | Some ks \<Rightarrow> ks)"

definition tr_get :: "key \<Rightarrow> translator \<Rightarrow> u32 option" where
  "tr_get k t = t_inner t k"

definition mapped_local :: "key \<Rightarrow> translator \<Rightarrow> u32 option" where
  "mapped_local k t = (case t_inner t k of None \<Rightarrow> None
     | Some local \<Rightarrow> if (case t_aliases t local of None \<Rightarrow> True | Some ks \<Rightarrow> k \<notin> set ks)
         then Some local else None)"

definition tr_snapshot :: "translator \<Rightarrow> (key \<times> u32) set" where
  "tr_snapshot t = {(k, local). t_inner t k = Some local \<and>
     (case t_aliases t local of None \<Rightarrow> True | Some ks \<Rightarrow> k \<notin> set ks)}"

definition alias_snapshot :: "translator \<Rightarrow> (key \<times> u32) set" where
  "alias_snapshot t = {(k, local). k \<in> set (aliases_of local t) \<and> t_inner t k = Some local}"

definition is_translated_local :: "u32 \<Rightarrow> translator \<Rightarrow> bool" where
  "is_translated_local local t \<longleftrightarrow> t_rev t local \<noteq> None"

definition tr_reverse :: "u32 \<Rightarrow> translator \<Rightarrow> key option" where
  "tr_reverse local t = t_rev t local"

definition drop_alias :: "u32 \<Rightarrow> key \<Rightarrow> (u32 \<rightharpoonup> key list) \<Rightarrow> (u32 \<rightharpoonup> key list)" where
  "drop_alias local k al = (case al local of None \<Rightarrow> al
     | Some ks \<Rightarrow> let ks' = filter (\<lambda>x. x \<noteq> k) ks
         in if ks' = [] then al(local := None) else al(local \<mapsto> ks'))"

definition add_alias :: "u32 \<Rightarrow> key \<Rightarrow> (u32 \<rightharpoonup> key list) \<Rightarrow> (u32 \<rightharpoonup> key list)" where
  "add_alias local k al = (let ks = (case al local of None \<Rightarrow> [] | Some ks \<Rightarrow> ks)
     in al(local \<mapsto> (if k \<in> set ks then ks else ks @ [k])))"

text \<open>The reverse map and the alias lists of \<^verbatim>\<open>insert\<close> once the key has left its old slot.\<close>

definition insert_rev :: "key \<Rightarrow> u32 \<Rightarrow> translator \<Rightarrow> (u32 \<rightharpoonup> key)" where
  "insert_rev k local t = (case t_inner t k of None \<Rightarrow> t_rev t
     | Some old_local \<Rightarrow> if old_local \<noteq> local \<and> t_rev t old_local = Some k
         then (t_rev t)(old_local := None) else t_rev t)"

definition insert_aliases :: "key \<Rightarrow> u32 \<Rightarrow> translator \<Rightarrow> (u32 \<rightharpoonup> key list)" where
  "insert_aliases k local t = (case t_inner t k of None \<Rightarrow> t_aliases t
     | Some old_local \<Rightarrow> drop_alias local k (drop_alias old_local k (t_aliases t)))"

definition tr_insert :: "key \<Rightarrow> u32 \<Rightarrow> translator \<Rightarrow> translator" where
  "tr_insert k local t =
     (let fwd = (t_inner t)(k \<mapsto> local);
          rev1 = insert_rev k local t;
          displaced = (case rev1 local of Some p \<Rightarrow> if p \<noteq> k then Some p else None | None \<Rightarrow> None);
          rev2 = rev1(local \<mapsto> k);
          al1 = insert_aliases k local t;
          al2 = (case displaced of None \<Rightarrow> al1
            | Some prev \<Rightarrow> if fwd prev = Some local then add_alias local prev al1 else al1);
          t1 = mark_dirty k (t\<lparr>t_inner := fwd, t_rev := rev2, t_aliases := al2\<rparr>);
          t2 = (case displaced of None \<Rightarrow> t1 | Some prev \<Rightarrow> mark_dirty prev t1)
      in t2\<lparr>t_authors := insert (fst k) (t_authors t2)\<rparr>)"

definition tr_alias :: "key \<Rightarrow> u32 \<Rightarrow> translator \<Rightarrow> translator" where
  "tr_alias k local t =
     (let fwd = (t_inner t)(k \<mapsto> local);
          (rev1, al1) = (case t_inner t k of None \<Rightarrow> (t_rev t, t_aliases t)
            | Some old \<Rightarrow> if old \<noteq> local
                then (if t_rev t old = Some k then (t_rev t)(old := None) else t_rev t,
                      drop_alias old k (t_aliases t))
                else (t_rev t, t_aliases t));
          al2 = (if rev1 local \<noteq> Some k then add_alias local k al1 else al1);
          t1 = mark_dirty k (t\<lparr>t_inner := fwd, t_rev := rev1, t_aliases := al2\<rparr>)
      in t1\<lparr>t_authors := insert (fst k) (t_authors t1)\<rparr>)"

definition tr_unalias :: "key \<Rightarrow> translator \<Rightarrow> translator \<times> bool" where
  "tr_unalias k t = (case t_inner t k of None \<Rightarrow> (t, False)
     | Some old \<Rightarrow> if t_rev t old = Some k then (t, False)
         else (t\<lparr>t_inner := (t_inner t)(k := None), t_aliases := drop_alias old k (t_aliases t)\<rparr>, True))"

text \<open>
  \<^verbatim>\<open>get_or_insert_with\<close>: the allocation runs without the locks of the maps and may change the
  translator itself (reusing a slot calls \<^verbatim>\<open>remove_local\<close>), so it is a state transformer. The
  first lookup and the one under \<^verbatim>\<open>alloc_lock\<close> see the same map here.
\<close>

definition get_or_insert_with ::
  "key \<Rightarrow> (translator \<Rightarrow> translator \<times> u32 option) \<Rightarrow> translator \<Rightarrow> translator \<times> u32 option" where
  "get_or_insert_with k alloc t = (case t_inner t k of
       Some local \<Rightarrow> (t, Some local)
     | None \<Rightarrow> (case alloc t of
           (t1, None) \<Rightarrow> (t1, None)
         | (t1, Some local) \<Rightarrow> (tr_insert k local t1, Some local)))"

definition if_unmapped :: "key \<Rightarrow> (translator \<Rightarrow> translator \<times> 'r) \<Rightarrow> translator \<Rightarrow> translator \<times> (u32 + 'r)" where
  "if_unmapped k f t = (case t_inner t k of Some local \<Rightarrow> (t, Inl local)
     | None \<Rightarrow> (case f t of (t1, r) \<Rightarrow> (t1, Inr r)))"

fun remove_keys :: "u32 \<Rightarrow> key list \<Rightarrow> (key \<rightharpoonup> u32) \<Rightarrow> (key \<rightharpoonup> u32) \<times> key list" where
  "remove_keys local [] fwd = (fwd, [])"
| "remove_keys local (k # ks) fwd = (
     if fwd k = Some local
     then (case remove_keys local ks (fwd(k := None)) of (f, out) \<Rightarrow> (f, k # out))
     else remove_keys local ks fwd)"

definition remove_local :: "u32 \<Rightarrow> translator \<Rightarrow> translator \<times> key list" where
  "remove_local local t =
     (let (fwd1, out1) = (case t_rev t local of None \<Rightarrow> (t_inner t, [])
            | Some k \<Rightarrow> (if t_inner t k = Some local then (t_inner t)(k := None) else t_inner t, [k]));
          (fwd2, out2) = remove_keys local (aliases_of local t) fwd1;
          t1 = t\<lparr>t_inner := fwd2, t_rev := (t_rev t)(local := None),
                 t_aliases := (t_aliases t)(local := None)\<rparr>
      in (fold mark_dirty (out1 @ out2) t1, out1 @ out2))"

section \<open>Consistency\<close>

text \<open>
  Every name of a slot is its reverse key or one of its aliases and never both, a reverse key
  points to its slot, and an alias list is never empty and names each key once.
\<close>

definition alset :: "(u32 \<rightharpoonup> key list) \<Rightarrow> u32 \<Rightarrow> key set" where
  "alset al local = (case al local of None \<Rightarrow> {} | Some ks \<Rightarrow> set ks)"

definition lists_ok :: "(u32 \<rightharpoonup> key list) \<Rightarrow> bool" where
  "lists_ok al \<longleftrightarrow> (\<forall>local ks. al local = Some ks \<longrightarrow> ks \<noteq> [] \<and> distinct ks)"

definition maps_ok :: "(key \<rightharpoonup> u32) \<Rightarrow> (u32 \<rightharpoonup> key) \<Rightarrow> (u32 \<Rightarrow> key set) \<Rightarrow> bool" where
  "maps_ok fwd rv als \<longleftrightarrow>
     (\<forall>k local. fwd k = Some local \<longleftrightarrow> rv local = Some k \<or> k \<in> als local) \<and>
     (\<forall>local k. k \<in> als local \<longrightarrow> rv local \<noteq> Some k)"

definition tr_ok :: "translator \<Rightarrow> bool" where
  "tr_ok t \<longleftrightarrow> maps_ok (t_inner t) (t_rev t) (alset (t_aliases t)) \<and> lists_ok (t_aliases t)"

lemma alset_drop [simp]: "alset (drop_alias l k al) l' = (if l' = l then alset al l - {k} else alset al l')"
  by (auto simp: alset_def drop_alias_def Let_def filter_empty_conv split: option.splits)

lemma alset_add [simp]: "alset (add_alias l k al) l' = (if l' = l then insert k (alset al l) else alset al l')"
  by (auto simp: alset_def add_alias_def Let_def split: option.splits)

lemma alset_remove [simp]: "alset (al(l := None)) l' = (if l' = l then {} else alset al l')"
  by (simp add: alset_def)

lemma lists_ok_drop: "lists_ok al \<Longrightarrow> lists_ok (drop_alias l k al)"
  by (auto simp: lists_ok_def drop_alias_def Let_def split: option.splits if_splits)

lemma lists_ok_add: "lists_ok al \<Longrightarrow> lists_ok (add_alias l k al)"
  by (auto simp: lists_ok_def add_alias_def Let_def split: option.splits if_splits)

lemma aliases_alset: "set (aliases_of l t) = alset (t_aliases t) l"
  by (simp add: aliases_of_def alset_def split: option.split)

lemma mapped_local_alset:
  "mapped_local k t = (case t_inner t k of None \<Rightarrow> None
     | Some l \<Rightarrow> if k \<in> alset (t_aliases t) l then None else Some l)"
  by (auto simp: mapped_local_def alset_def split: option.splits)

lemma maps_okD:
  assumes "maps_ok fwd rv als"
  shows "fwd k = Some l \<longleftrightarrow> rv l = Some k \<or> k \<in> als l" "k \<in> als l \<Longrightarrow> rv l \<noteq> Some k"
  using assms unfolding maps_ok_def by blast+

text \<open>Pointing a key at a slot as its reverse key, and as an alias.\<close>

lemma maps_ok_unlink:
  assumes "maps_ok fwd rv als"
  shows "maps_ok (fwd(k := None)) (\<lambda>l. if rv l = Some k then None else rv l) (\<lambda>l. als l - {k})"
  using assms unfolding maps_ok_def by auto

lemma maps_ok_link_rev:
  assumes "maps_ok fwd rv als" "fwd k = None"
  shows "maps_ok (fwd(k \<mapsto> l)) (rv(l \<mapsto> k))
    (\<lambda>l'. if l' = l then (case rv l of None \<Rightarrow> als l | Some p \<Rightarrow> insert p (als l)) else als l')"
proof -
  note d = maps_okD[OF assms(1)]
  have nk: "rv l' \<noteq> Some k" "k \<notin> als l'" for l' using d(1)[of k l'] assms(2) by auto
  have "(fwd(k \<mapsto> l)) k' = Some l' \<longleftrightarrow> (rv(l \<mapsto> k)) l' = Some k' \<or>
      k' \<in> (if l' = l then (case rv l of None \<Rightarrow> als l | Some p \<Rightarrow> insert p (als l)) else als l')" for k' l'
    using d(1)[of k' l'] nk[of l'] nk[of l] by (cases "k' = k"; cases "l' = l"; cases "rv l") auto
  moreover have "k' \<in> (if l' = l then (case rv l of None \<Rightarrow> als l | Some p \<Rightarrow> insert p (als l)) else als l') \<Longrightarrow>
      (rv(l \<mapsto> k)) l' \<noteq> Some k'" for k' l'
    using d(2)[of k' l'] nk[of l] by (cases "l' = l"; cases "rv l") auto
  ultimately show ?thesis unfolding maps_ok_def by blast
qed

lemma maps_ok_link_alias:
  assumes "maps_ok fwd rv als" "fwd k = None"
  shows "maps_ok (fwd(k \<mapsto> l)) rv (\<lambda>l'. if l' = l then insert k (als l) else als l')"
proof -
  note d = maps_okD[OF assms(1)]
  have nk: "rv l' \<noteq> Some k" "k \<notin> als l'" for l' using d(1)[of k l'] assms(2) by auto
  then show ?thesis using assms(1) unfolding maps_ok_def by auto
qed

text \<open>The methods in these terms.\<close>

lemma tr_okD:
  assumes "tr_ok t"
  shows "maps_ok (t_inner t) (t_rev t) (alset (t_aliases t))" "lists_ok (t_aliases t)"
    "t_rev t l = Some k \<Longrightarrow> t_inner t k = Some l" "k \<in> alset (t_aliases t) l \<Longrightarrow> t_inner t k = Some l"
    "k \<in> alset (t_aliases t) l \<Longrightarrow> t_rev t l \<noteq> Some k"
    "t_inner t k = Some l \<Longrightarrow> t_rev t l = Some k \<or> k \<in> alset (t_aliases t) l"
proof -
  show m: "maps_ok (t_inner t) (t_rev t) (alset (t_aliases t))" and "lists_ok (t_aliases t)"
    using assms by (simp_all add: tr_ok_def)
  show "t_rev t l = Some k \<Longrightarrow> t_inner t k = Some l" "k \<in> alset (t_aliases t) l \<Longrightarrow> t_inner t k = Some l"
    "k \<in> alset (t_aliases t) l \<Longrightarrow> t_rev t l \<noteq> Some k"
    "t_inner t k = Some l \<Longrightarrow> t_rev t l = Some k \<or> k \<in> alset (t_aliases t) l"
    using maps_okD[OF m] by blast+
qed

definition rev_without :: "key \<Rightarrow> translator \<Rightarrow> u32 \<rightharpoonup> key" where
  "rev_without k t = (\<lambda>l. if t_rev t l = Some k then None else t_rev t l)"

definition aliases_without :: "key \<Rightarrow> translator \<Rightarrow> u32 \<Rightarrow> key set" where
  "aliases_without k t = (\<lambda>l. alset (t_aliases t) l - {k})"

lemma unlinked_ok:
  assumes "tr_ok t"
  shows "maps_ok ((t_inner t)(k := None)) (rev_without k t) (aliases_without k t)"
  using maps_ok_unlink[OF tr_okD(1)[OF assms], of k] by (simp add: rev_without_def aliases_without_def)

lemma mark_dirty_simps [simp]:
  "t_inner (mark_dirty k t) = t_inner t" "t_rev (mark_dirty k t) = t_rev t"
  "t_aliases (mark_dirty k t) = t_aliases t" "t_authors (mark_dirty k t) = t_authors t"
  "t_dirty (mark_dirty k t) = t_dirty t @ [k]"
  by (simp_all add: mark_dirty_def)

lemma unlinked_cases:
  assumes ok: "tr_ok t"
  shows "t_inner t k = None \<Longrightarrow> rev_without k t = t_rev t" "t_inner t k = None \<Longrightarrow> aliases_without k t = alset (t_aliases t)"
    "t_inner t k = Some old \<Longrightarrow> rev_without k t = (if t_rev t old = Some k then (t_rev t)(old := None) else t_rev t)"
    "t_inner t k = Some old \<Longrightarrow> aliases_without k t = (alset (t_aliases t))(old := alset (t_aliases t) old - {k})"
proof -
  have r: "t_rev t l = Some k \<Longrightarrow> t_inner t k = Some l" for l using tr_okD(3)[OF ok] .
  have a: "k \<in> alset (t_aliases t) l \<Longrightarrow> t_inner t k = Some l" for l using tr_okD(4)[OF ok] .
  show "rev_without k t = t_rev t" if "t_inner t k = None"
  proof (rule ext)
    show "rev_without k t l = t_rev t l" for l
      using that r[of l] by (auto simp: rev_without_def)
  qed
  show "aliases_without k t = alset (t_aliases t)" if "t_inner t k = None"
  proof (rule ext)
    show "aliases_without k t l = alset (t_aliases t) l" for l
      using that a[of l] by (auto simp: aliases_without_def)
  qed
  show "rev_without k t = (if t_rev t old = Some k then (t_rev t)(old := None) else t_rev t)" if "t_inner t k = Some old"
  proof (rule ext)
    show "rev_without k t l = (if t_rev t old = Some k then (t_rev t)(old := None) else t_rev t) l" for l
      using that r[of l] by (cases "l = old") (auto simp: rev_without_def)
  qed
  show "aliases_without k t = (alset (t_aliases t))(old := alset (t_aliases t) old - {k})" if "t_inner t k = Some old"
  proof (rule ext)
    show "aliases_without k t l = ((alset (t_aliases t))(old := alset (t_aliases t) old - {k})) l" for l
      using that a[of l] by (cases "l = old") (auto simp: aliases_without_def)
  qed
qed

text \<open>
  The intermediate maps of \<^verbatim>\<open>insert\<close>: after its first two steps the reverse map has lost the
  old entry of the key, and its alias lists no longer name the key.
\<close>

lemma insert_steps:
  assumes ok: "tr_ok t"
  shows "(insert_rev k l t)(l \<mapsto> k) = (rev_without k t)(l \<mapsto> k)"
    "(case insert_rev k l t l of Some p \<Rightarrow> if p \<noteq> k then Some p else None | None \<Rightarrow> None) = rev_without k t l"
    "alset (insert_aliases k l t) = aliases_without k t" "lists_ok (insert_aliases k l t)"
proof -
  note u = unlinked_cases[OF ok, of k] and lo = tr_okD(2)[OF ok]
  have r: "t_rev t x = Some k \<Longrightarrow> t_inner t k = Some x" for x using tr_okD(3)[OF ok] .
  have at: "insert_rev k l t x = (if x = l then t_rev t l else rev_without k t x)" for x
  proof (cases "t_inner t k")
    case None
    then show ?thesis by (simp add: insert_rev_def u(1))
  next
    case (Some old)
    then show ?thesis
      using r[of l] by (cases "x = l"; cases "x = old") (simp_all add: insert_rev_def u(3)[OF Some])
  qed
  show "(insert_rev k l t)(l \<mapsto> k) = (rev_without k t)(l \<mapsto> k)"
    by (rule ext) (simp add: at)
  show "(case insert_rev k l t l of Some p \<Rightarrow> if p \<noteq> k then Some p else None | None \<Rightarrow> None) = rev_without k t l"
    unfolding at[of l] by (cases "t_rev t l") (simp_all add: rev_without_def)
  show "alset (insert_aliases k l t) = aliases_without k t"
  proof (cases "t_inner t k")
    case None
    then show ?thesis using u(2)[OF None] by (simp add: insert_aliases_def)
  next
    case (Some old)
    have "k \<notin> alset (t_aliases t) l" if "l \<noteq> old" using tr_okD(4)[OF ok, where l = l and k = k] Some that by auto
    then show ?thesis
      by (intro ext) (simp add: u(4)[OF Some] Some insert_aliases_def)
  qed
  show "lists_ok (insert_aliases k l t)" using lo lists_ok_drop by (simp add: insert_aliases_def split: option.split)
qed

lemma tr_insert_maps:
  fixes k :: key and l :: u32
  assumes ok: "tr_ok t"
  defines "t' \<equiv> tr_insert k l t"
  shows "t_inner t' = (t_inner t)(k \<mapsto> l)" "t_rev t' = (rev_without k t)(l \<mapsto> k)"
    "alset (t_aliases t') = (\<lambda>l'. if l' = l then (case rev_without k t l of None \<Rightarrow> aliases_without k t l
        | Some p \<Rightarrow> insert p (aliases_without k t l)) else aliases_without k t l')"
    "lists_ok (t_aliases t')"
    "t_dirty t' = t_dirty t @ k # (case rev_without k t l of Some p \<Rightarrow> [p] | None \<Rightarrow> [])"
proof -
  note st = insert_steps[OF ok, of k l]
  have moved: "((t_inner t)(k \<mapsto> l)) p = Some l" if p: "rev_without k t l = Some p" for p
  proof -
    have "t_rev t l = Some p" "p \<noteq> k" using p by (auto simp: rev_without_def split: if_splits)
    then show ?thesis using tr_okD(3)[OF ok] by simp
  qed
  show "t_inner t' = (t_inner t)(k \<mapsto> l)" "t_rev t' = (rev_without k t)(l \<mapsto> k)"
    "t_dirty t' = t_dirty t @ k # (case rev_without k t l of Some p \<Rightarrow> [p] | None \<Rightarrow> [])"
    unfolding t'_def tr_insert_def Let_def st by (simp_all split: option.split)
  have al: "t_aliases t' = (case rev_without k t l of None \<Rightarrow> insert_aliases k l t
      | Some p \<Rightarrow> add_alias l p (insert_aliases k l t))"
    unfolding t'_def tr_insert_def Let_def st using moved by (cases "rev_without k t l") simp_all
  show "lists_ok (t_aliases t')"
    unfolding al using st(4) lists_ok_add by (simp split: option.split)
  show "alset (t_aliases t') = (\<lambda>l'. if l' = l then (case rev_without k t l of None \<Rightarrow> aliases_without k t l
        | Some p \<Rightarrow> insert p (aliases_without k t l)) else aliases_without k t l')"
    unfolding al using st(3) by (cases "rev_without k t l") (auto simp: fun_eq_iff)
qed

lemma tr_insert_ok:
  assumes "tr_ok t"
  shows "tr_ok (tr_insert k l t)"
  using tr_insert_maps[OF assms, of k l] maps_ok_link_rev[OF unlinked_ok[OF assms, of k], of k l]
  by (simp add: tr_ok_def)

lemma tr_alias_maps:
  fixes k :: key and l :: u32
  assumes ok: "tr_ok t"
  defines "t' \<equiv> tr_alias k l t"
  shows "t_rev t l = Some k \<Longrightarrow> t_inner t' = t_inner t \<and> t_rev t' = t_rev t \<and> t_aliases t' = t_aliases t"
    "t_rev t l \<noteq> Some k \<Longrightarrow> t_inner t' = (t_inner t)(k \<mapsto> l) \<and> t_rev t' = rev_without k t \<and>
      alset (t_aliases t') = (\<lambda>l'. if l' = l then insert k (aliases_without k t l) else aliases_without k t l') \<and>
      lists_ok (t_aliases t')"
    "t_dirty t' = t_dirty t @ [k]"
proof -
  note u = unlinked_cases[OF ok, of k]
  have lo: "lists_ok (t_aliases t)" using tr_okD(2)[OF ok] .
  show "t_dirty t' = t_dirty t @ [k]"
    by (simp add: t'_def tr_alias_def Let_def split: option.split prod.split)
  show "t_inner t' = t_inner t \<and> t_rev t' = t_rev t \<and> t_aliases t' = t_aliases t" if "t_rev t l = Some k"
    using that tr_okD(3)[OF ok that] by (auto simp: t'_def tr_alias_def Let_def fun_eq_iff)
  show "t_inner t' = (t_inner t)(k \<mapsto> l) \<and> t_rev t' = rev_without k t \<and>
      alset (t_aliases t') = (\<lambda>l'. if l' = l then insert k (aliases_without k t l) else aliases_without k t l') \<and>
      lists_ok (t_aliases t')" if nr: "t_rev t l \<noteq> Some k"
  proof (cases "t_inner t k")
    case None
    then show ?thesis
      using nr u(1,2)[OF None] lists_ok_add[OF lo] by (auto simp: t'_def tr_alias_def Let_def fun_eq_iff)
  next
    case (Some old)
    show ?thesis
    proof (cases "old = l")
      case True
      then show ?thesis
        using nr u(3,4)[OF Some] Some lists_ok_add[OF lo] by (auto simp: t'_def tr_alias_def Let_def fun_eq_iff)
    next
      case False
      then show ?thesis
        using nr u(3,4)[OF Some] Some lists_ok_add[OF lists_ok_drop[OF lo]]
        by (auto simp: t'_def tr_alias_def Let_def fun_eq_iff)
    qed
  qed
qed

lemma tr_alias_ok:
  assumes "tr_ok t"
  shows "tr_ok (tr_alias k l t)"
proof (cases "t_rev t l = Some k")
  case True
  then show ?thesis using assms tr_alias_maps(1)[OF assms True] by (simp add: tr_ok_def)
next
  case False
  then show ?thesis
    using tr_alias_maps(2)[OF assms False] maps_ok_link_alias[OF unlinked_ok[OF assms, of k], of k l]
    by (simp add: tr_ok_def)
qed

lemma tr_unalias_maps:
  assumes ok: "tr_ok t"
  shows "fst (tr_unalias k t) = t \<or> (\<exists>old. t_inner t k = Some old \<and> k \<in> alset (t_aliases t) old \<and>
    t_inner (fst (tr_unalias k t)) = (t_inner t)(k := None) \<and> t_rev (fst (tr_unalias k t)) = rev_without k t \<and>
    alset (t_aliases (fst (tr_unalias k t))) = aliases_without k t \<and> lists_ok (t_aliases (fst (tr_unalias k t))) \<and>
    t_dirty (fst (tr_unalias k t)) = t_dirty t)"
proof (cases "t_inner t k")
  case (Some old)
  show ?thesis
  proof (cases "t_rev t old = Some k")
    case False
    then show ?thesis
      using Some unlinked_cases(3,4)[OF ok Some] tr_okD(6)[OF ok Some] lists_ok_drop[OF tr_okD(2)[OF ok]]
      by (auto simp: tr_unalias_def fun_eq_iff)
  qed (simp add: Some tr_unalias_def)
qed (simp add: tr_unalias_def)

lemma tr_unalias_ok:
  assumes "tr_ok t"
  shows "tr_ok (fst (tr_unalias k t))"
  using tr_unalias_maps[OF assms, of k] unlinked_ok[OF assms, of k] assms by (auto simp: tr_ok_def)

text \<open>Giving up a slot.\<close>

lemma fold_mark_dirty:
  "fold mark_dirty ks t = t\<lparr>t_dirty := t_dirty t @ ks\<rparr>"
  by (induction ks arbitrary: t) (simp_all add: mark_dirty_def)

lemma remove_keys_spec:
  "remove_keys l ks fwd = (f, out) \<Longrightarrow>
    f = (\<lambda>k. if k \<in> set ks \<and> fwd k = Some l then None else fwd k) \<and> set out = {k \<in> set ks. fwd k = Some l}"
proof (induction ks arbitrary: fwd f out)
  case (Cons x xs)
  show ?case
  proof (cases "fwd x = Some l")
    case True
    obtain f' out' where r: "remove_keys l xs (fwd(x := None)) = (f', out')" by fastforce
    have fo: "f = f'" "out = x # out'" using Cons.prems True r by simp_all
    note ih = Cons.IH[OF r]
    have "f k = (if k \<in> set (x # xs) \<and> fwd k = Some l then None else fwd k)" for k
      using ih True by (cases "k = x") (simp_all add: fo)
    moreover have "set out = {k \<in> set (x # xs). fwd k = Some l}" using ih True by (auto simp: fo)
    ultimately show ?thesis by (simp add: fun_eq_iff)
  next
    case False
    have "remove_keys l xs fwd = (f, out)" using Cons.prems False by simp
    note ih = Cons.IH[OF this]
    have "f k = (if k \<in> set (x # xs) \<and> fwd k = Some l then None else fwd k)" for k
      using ih False by (cases "k = x") simp_all
    moreover have "set out = {k \<in> set (x # xs). fwd k = Some l}" using ih False by auto
    ultimately show ?thesis by (simp add: fun_eq_iff)
  qed
qed simp

lemma remove_local_maps:
  fixes l :: u32
  assumes ok: "tr_ok t" and r: "remove_local l t = (t', out)"
  shows "set out = {k. t_inner t k = Some l}" "t_inner t' = (\<lambda>k. if t_inner t k = Some l then None else t_inner t k)"
    "t_rev t' = (t_rev t)(l := None)" "t_aliases t' = (t_aliases t)(l := None)" "t_dirty t' = t_dirty t @ out"
proof -
  obtain fwd1 out1 where s1: "(case t_rev t l of None \<Rightarrow> (t_inner t, [])
      | Some k \<Rightarrow> (if t_inner t k = Some l then (t_inner t)(k := None) else t_inner t, [k])) = (fwd1, out1)" by fastforce
  obtain fwd2 out2 where s2: "remove_keys l (aliases_of l t) fwd1 = (fwd2, out2)" by fastforce
  have t': "t' = t\<lparr>t_inner := fwd2, t_rev := (t_rev t)(l := None), t_aliases := (t_aliases t)(l := None),
      t_dirty := t_dirty t @ out1 @ out2\<rparr>" "out = out1 @ out2"
    using r by (auto simp add: remove_local_def s1 s2 fold_mark_dirty)
  show "t_rev t' = (t_rev t)(l := None)" "t_aliases t' = (t_aliases t)(l := None)" "t_dirty t' = t_dirty t @ out"
    using t' by simp_all
  note names = maps_okD[OF tr_okD(1)[OF ok], of _ l]
  have first: "set out1 = {k. t_rev t l = Some k}" "fwd1 = (\<lambda>k. if t_rev t l = Some k then None else t_inner t k)"
    using s1 tr_okD(3)[OF ok, where l = l] by (cases "t_rev t l"; auto)+
  have second: "fwd2 = (\<lambda>k. if k \<in> alset (t_aliases t) l \<and> fwd1 k = Some l then None else fwd1 k)"
      "set out2 = {k \<in> alset (t_aliases t) l. fwd1 k = Some l}"
    using remove_keys_spec[OF s2] by (simp_all add: aliases_alset)
  have al: "k \<in> alset (t_aliases t) l \<Longrightarrow> fwd1 k = Some l" for k
    using names[of k] by (simp add: first)
  show "set out = {k. t_inner t k = Some l}"
    using names(1) al by (auto simp: t' first second)
  show "t_inner t' = (\<lambda>k. if t_inner t k = Some l then None else t_inner t k)"
  proof (rule ext)
    show "t_inner t' k = (if t_inner t k = Some l then None else t_inner t k)" for k
      using names[of k] al[of k] by (auto simp: t' first second)
  qed
qed

lemma remove_local_ok:
  assumes ok: "tr_ok t" and r: "remove_local l t = (t', out)"
  shows "tr_ok t'"
proof -
  note d = maps_okD[OF tr_okD(1)[OF ok]] and m = remove_local_maps[OF ok r]
  have "maps_ok (t_inner t') (t_rev t') (alset (t_aliases t'))"
    unfolding maps_ok_def
  proof (intro conjI allI)
    show "(t_inner t' k = Some l') \<longleftrightarrow> t_rev t' l' = Some k \<or> k \<in> alset (t_aliases t') l'" for k l'
      using d(1)[of k l'] d(1)[of k l] by (auto simp: m)
    show "k \<in> alset (t_aliases t') l' \<longrightarrow> t_rev t' l' \<noteq> Some k" for k l'
      using d(2)[of k l'] by (auto simp: m)
  qed
  then show ?thesis using tr_okD(2)[OF ok] m(4) by (simp add: tr_ok_def lists_ok_def)
qed

section \<open>Histories\<close>

datatype tr_op = Insert key u32 | Alias key u32 | Unalias key | RemoveLocal u32 | TakeDirty | RestoreDirty "key list" | ClearDirty

fun tr_step :: "tr_op \<Rightarrow> translator \<Rightarrow> translator" where
  "tr_step (Insert k l) t = tr_insert k l t"
| "tr_step (Alias k l) t = tr_alias k l t"
| "tr_step (Unalias k) t = fst (tr_unalias k t)"
| "tr_step (RemoveLocal l) t = fst (remove_local l t)"
| "tr_step TakeDirty t = fst (take_dirty t)"
| "tr_step (RestoreDirty ks) t = restore_dirty ks t"
| "tr_step ClearDirty t = clear_dirty t"

lemma tr_step_ok: "tr_ok t \<Longrightarrow> tr_ok (tr_step x t)"
proof (cases x)
  case (RemoveLocal l)
  assume "tr_ok t"
  then show ?thesis using remove_local_ok[of t l "fst (remove_local l t)" "snd (remove_local l t)"] RemoveLocal by simp
qed (simp_all add: tr_insert_ok tr_alias_ok tr_unalias_ok, simp_all add: tr_ok_def take_dirty_def restore_dirty_def clear_dirty_def)

lemma tr_new_ok: "tr_ok tr_new"
  by (simp add: tr_ok_def maps_ok_def lists_ok_def alset_def tr_new_def)

lemma tr_run_ok: "tr_ok t \<Longrightarrow> tr_ok (fold tr_step xs t)"
  by (induction xs arbitrary: t) (simp_all add: tr_step_ok)

lemma mapped_local_rev:
  assumes "tr_ok t"
  shows "mapped_local k t = Some l \<longleftrightarrow> t_rev t l = Some k"
  using tr_okD(3-6)[OF assms, where l = l and k = k]
  by (auto simp: mapped_local_alset split: option.splits if_splits)

lemma tr_step_marks:
  assumes ok: "tr_ok t" and ch: "t_rev (tr_step x t) l = Some k \<longleftrightarrow> t_rev t l \<noteq> Some k"
  shows "k \<in> set (t_dirty (tr_step x t))"
proof (cases x)
  case (Insert k' l')
  then show ?thesis
    using ch tr_insert_maps(2,5)[OF ok, of k' l']
    by (auto simp: rev_without_def fun_upd_def split: if_splits option.splits)
next
  case (Alias k' l')
  then show ?thesis
    using ch tr_alias_maps[OF ok, where k = k' and l = l']
    by (cases "t_rev t l' = Some k'") (auto simp: rev_without_def split: if_splits)
next
  case (Unalias k')
  have "t_rev (fst (tr_unalias k' t)) = t_rev t" by (simp add: tr_unalias_def split: option.split)
  then show ?thesis using ch Unalias by simp
next
  case (RemoveLocal l')
  obtain t' out where r: "remove_local l' t = (t', out)" by fastforce
  have "t_rev t l' = Some k" using ch RemoveLocal r remove_local_maps(3)[OF ok r] by (auto split: if_splits)
  then have "k \<in> set out" using remove_local_maps(1)[OF ok r] tr_okD(3)[OF ok] by simp
  then show ?thesis using RemoveLocal r remove_local_maps(5)[OF ok r] by simp
qed (use ch in \<open>simp_all add: take_dirty_def restore_dirty_def clear_dirty_def\<close>)

section \<open>Properties\<close>

text \<open>
  C24. After any history of insertions, aliases, removals and slot releases the maps agree: a
  key is mapped to a slot exactly when it is the slot's reverse key or one of its aliases, and
  the reverse key of a slot, where writes to it are addressed, is never also an alias.
\<close>

theorem translator_maps_agree:
  "let t = fold tr_step xs tr_new
   in (tr_get k t = Some l \<longleftrightarrow> tr_reverse l t = Some k \<or> k \<in> set (aliases_of l t)) \<and>
      \<not> (tr_reverse l t = Some k \<and> k \<in> set (aliases_of l t)) \<and> distinct (aliases_of l t)"
proof -
  have ok: "tr_ok (fold tr_step xs tr_new)" by (rule tr_run_ok[OF tr_new_ok])
  have "distinct (aliases_of l (fold tr_step xs tr_new))"
    using tr_okD(2)[OF ok] by (auto simp: lists_ok_def aliases_of_def split: option.split)
  then show ?thesis
    using maps_okD[OF tr_okD(1)[OF ok], of k l] by (auto simp: tr_get_def tr_reverse_def aliases_alset Let_def)
qed

text \<open>
  A slot that is given to another entity has no name left: releasing it returns exactly
  the keys that were mapped to it, unmaps them all, and changes no other key, so no later
  record of a former name can reach the slot's new owner.
\<close>

theorem released_slot_unmapped:
  assumes "tr_ok t" "remove_local l t = (t', out)"
  shows "set out = {k. tr_get k t = Some l} \<and> tr_reverse l t' = None \<and> aliases_of l t' = [] \<and>
    tr_get k t' = (if tr_get k t = Some l then None else tr_get k t)"
  using remove_local_maps[OF assms] by (simp add: tr_get_def tr_reverse_def aliases_of_def)

theorem released_slot_unmapped_witness:
  "let t = fold tr_step [Insert (1, 10) 5, Insert (2, 20) 5, Alias (3, 30) 5, Insert (4, 40) 6] tr_new
   in case remove_local 5 t of (t', out) \<Rightarrow> set out = {k. tr_get k t = Some 5} \<and> tr_get (1, 10) t' = None"
proof -
  define t where "t = fold tr_step [Insert (1, 10) 5, Insert (2, 20) 5, Alias (3, 30) 5, Insert (4, 40) 6] tr_new"
  have ok: "tr_ok t" unfolding t_def by (rule tr_run_ok[OF tr_new_ok])
  have g: "tr_get (1, 10) t = Some 5" by (simp add: t_def) code_simp
  obtain t' out where r: "remove_local 5 t = (t', out)" by fastforce
  show ?thesis
    unfolding t_def[symmetric] Let_def r prod.case
    using released_slot_unmapped[OF ok r, of "(1, 10)"] g by simp
qed

text \<open>
  Nothing that belongs into the persisted map changes without a mark: when a step changes
  the slot a key is persisted with, the key is marked for the next flush.
\<close>

theorem eidmap_changes_marked:
  assumes "tr_ok t" "mapped_local k (tr_step x t) \<noteq> mapped_local k t"
  shows "k \<in> set (t_dirty (tr_step x t))"
proof -
  note m = mapped_local_rev[OF assms(1), of k] mapped_local_rev[OF tr_step_ok[OF assms(1)], of k x]
  obtain l where "(mapped_local k (tr_step x t) = Some l) \<noteq> (mapped_local k t = Some l)"
    using assms(2) by (cases "mapped_local k t"; cases "mapped_local k (tr_step x t)") auto
  then show ?thesis using tr_step_marks[OF assms(1), of x l k] m by auto
qed

theorem eidmap_changes_marked_witness:
  "let t = fold tr_step [Insert (1, 10) 5, TakeDirty] tr_new
   in (1, 10) \<in> set (t_dirty (tr_step (Insert (2, 20) 5) t))"
proof -
  define t where "t = fold tr_step [Insert (1, 10) 5, TakeDirty] tr_new"
  have ok: "tr_ok t" unfolding t_def by (rule tr_run_ok[OF tr_new_ok])
  have "mapped_local (1, 10) t = Some 5" "mapped_local (1, 10) (tr_step (Insert (2, 20) 5) t) = None"
    by (simp_all add: t_def) code_simp+
  then show ?thesis
    unfolding t_def[symmetric] Let_def using eidmap_changes_marked[OF ok, of "(1, 10)" "Insert (2, 20) 5"] by simp
qed

end
