(* ===== verification/Eidmap_Log.thy ===== *)
theory Eidmap_Log
  imports Eid_Translator
begin

text \<open>
  The append-only log behind the persisted entity map (\<^verbatim>\<open>crates/enchudb-engine/src/eidmap_log.rs\<close>):
  a header that ties the log to one snapshot of the map, 32-byte records each with its own
  checksum, the reader that stops at the first torn or damaged record, and the merge of a
  snapshot with a log.

  The lemmas show that a log cut at any byte gives back exactly the records that were written
  whole and says whether it was cut, and that folding the log into a new snapshot changes
  nothing that a later merge sees.
\<close>

section \<open>Records\<close>

type_synonym entry = "peer_id \<times> u32 \<times> u32 \<times> hlc"

abbreviation NO_LOCAL_SLOT :: u32 where
  "NO_LOCAL_SLOT \<equiv> 0xFFFFFFFF"

abbreviation MAPPING_GONE :: u32 where
  "MAPPING_GONE \<equiv> 0xFFFFFFFE"

abbreviation LOG_HEADER_LEN :: nat where
  "LOG_HEADER_LEN \<equiv> 24"

abbreviation RECORD_LEN :: nat where
  "RECORD_LEN \<equiv> 32"

definition LOG_MAGIC :: bytes where
  "LOG_MAGIC = [69, 73, 68, 76]"

definition fnv1a64 :: "bytes \<Rightarrow> u64" where
  "fnv1a64 bs = foldl (\<lambda>h b. (h XOR ucast b) * 0x00000100000001b3) 0xcbf29ce484222325 bs"

definition log_header :: "bytes \<Rightarrow> bytes" where
  "log_header snapshot = LOG_MAGIC @ to_le_bytes (1 :: u32) @
     to_le_bytes (word_of_nat (length snapshot) :: u64) @ to_le_bytes (fnv1a64 snapshot)"

fun record_fields :: "entry \<Rightarrow> bytes" where
  "record_fields (peer, foreign_local, local, tomb) =
     to_le_bytes peer @ to_le_bytes foreign_local @ to_le_bytes local @
     to_le_bytes (hlc_wall tomb) @ to_le_bytes (hlc_logical tomb) @ to_le_bytes (hlc_peer tomb)"

definition push_record :: "bytes \<Rightarrow> entry \<Rightarrow> bytes" where
  "push_record out e = out @ record_fields e @ to_le_bytes (fnv1a (record_fields e))"

definition log_u32 :: "bytes \<Rightarrow> nat \<Rightarrow> u32" where
  "log_u32 r i = from_le_bytes (slice i (i + 4) r)"

definition decode_record :: "bytes \<Rightarrow> entry option" where
  "decode_record r = (
     if fnv1a (slice 0 28 r) \<noteq> log_u32 r 28 then None
     else Some (log_u32 r 0, log_u32 r 4, log_u32 r 8,
            Hlc (from_le_bytes (slice 12 20 r)) (log_u32 r 20) (log_u32 r 24)))"

text \<open>The loop over the records of the log, from the bytes that are left.\<close>

function read_records :: "bytes \<Rightarrow> entry list \<times> bool" where
  "read_records bs = (
     if \<not> RECORD_LEN \<le> length bs then ([], bs \<noteq> [])
     else case decode_record (slice 0 RECORD_LEN bs) of
         None \<Rightarrow> ([], True)
       | Some e \<Rightarrow> (case read_records (drop RECORD_LEN bs) of (es, torn) \<Rightarrow> (e # es, torn)))"
  by pat_completeness auto

termination
  by (relation "measure length") auto

declare read_records.simps [simp del]

definition log_read :: "bytes \<Rightarrow> bytes \<Rightarrow> (entry list \<times> bool) option" where
  "log_read buf snapshot = (
     if length buf < LOG_HEADER_LEN \<or> slice 0 4 buf \<noteq> LOG_MAGIC \<or> log_u32 buf 4 \<noteq> 1 then None
     else if slice 0 LOG_HEADER_LEN buf \<noteq> log_header snapshot then None
     else Some (read_records (drop LOG_HEADER_LEN buf)))"

section \<open>Merging\<close>

type_synonym faces = "(key \<rightharpoonup> u32 \<times> hlc) \<times> (key \<rightharpoonup> hlc)"

fun apply_entry :: "entry \<Rightarrow> faces \<Rightarrow> faces" where
  "apply_entry (peer, fl, local, tomb) (mapped, tombs) = (
     if local = NO_LOCAL_SLOT
     then (mapped, tombs((peer, fl) \<mapsto> max (case tombs (peer, fl) of None \<Rightarrow> hlc_ZERO | Some t \<Rightarrow> t) tomb))
     else if local = MAPPING_GONE then (mapped((peer, fl) := None), tombs)
     else (mapped((peer, fl) \<mapsto> (local, tomb)), tombs))"

definition entry_key :: "entry \<Rightarrow> key" where
  "entry_key e = (fst e, fst (snd e))"

definition faces_of :: "entry list \<Rightarrow> faces" where
  "faces_of es = fold apply_entry es (Map.empty, Map.empty)"

definition log_merge :: "entry list \<Rightarrow> entry list \<Rightarrow> entry list" where
  "log_merge snapshot log =
     (let (mapped, tombs) = fold apply_entry log (fold apply_entry snapshot (Map.empty, Map.empty));
          keys = map entry_key (snapshot @ log)
      in sort (remdups (List.map_filter (\<lambda>k. map_option (\<lambda>(l, t). (fst k, snd k, l, t)) (mapped k)) keys)) @
         sort (remdups (List.map_filter (\<lambda>k. map_option (\<lambda>t. (fst k, snd k, NO_LOCAL_SLOT, t)) (tombs k)) keys)))"

section \<open>Reading back\<close>

definition record_bytes :: "entry \<Rightarrow> bytes" where
  "record_bytes e = push_record [] e"

lemma length_record_fields [simp]: "length (record_fields e) = 28"
  by (cases e rule: record_fields.cases) simp

lemma length_record_bytes [simp]: "length (record_bytes e) = RECORD_LEN"
  by (simp add: record_bytes_def push_record_def)

lemma length_LOG_MAGIC [simp]: "length LOG_MAGIC = 4"
  by (simp add: LOG_MAGIC_def)

lemma length_log_header [simp]: "length (log_header s) = LOG_HEADER_LEN"
  by (simp add: log_header_def)

lemma decode_record_bytes: "decode_record (record_bytes e) = Some e"
proof (cases e rule: record_fields.cases)
  case (1 peer fl local tomb)
  have "slice 0 28 (record_bytes e) = record_fields e"
    by (simp add: record_bytes_def push_record_def slice_append_left slice_all)
  moreover have "log_u32 (record_bytes e) 28 = fnv1a (record_fields e)"
    by (simp add: record_bytes_def push_record_def log_u32_def slice_append_skip slice_all)
  moreover have "(log_u32 (record_bytes e) 0, log_u32 (record_bytes e) 4, log_u32 (record_bytes e) 8,
      Hlc (from_le_bytes (slice 12 20 (record_bytes e))) (log_u32 (record_bytes e) 20) (log_u32 (record_bytes e) 24)) = e"
    using 1 by (cases tomb) (simp add: record_bytes_def push_record_def log_u32_def buf_simps)
  ultimately show ?thesis by (simp add: decode_record_def)
qed

lemma record_bytes_nonempty [simp]: "record_bytes e \<noteq> []"
  using length_record_bytes[of e] by fastforce

lemma read_records_cut:
  "n \<le> RECORD_LEN * length es \<Longrightarrow>
    read_records (take n (concat (map record_bytes es))) = (take (n div RECORD_LEN) es, n mod RECORD_LEN \<noteq> 0)"
proof (induction es arbitrary: n)
  case (Cons e es)
  let ?bs = "take n (concat (map record_bytes (e # es)))"
  have len: "length (concat (map record_bytes xs)) = RECORD_LEN * length xs" for xs
    by (induction xs) simp_all
  show ?case
  proof (cases "n < RECORD_LEN")
    case True
    then have "length ?bs = n" using len[of "e # es"] by simp
    then show ?thesis
      using True by (subst read_records.simps) auto
  next
    case False
    then have "?bs = record_bytes e @ take (n - RECORD_LEN) (concat (map record_bytes es))" by simp
    moreover have "read_records (take (n - RECORD_LEN) (concat (map record_bytes es))) =
        (take ((n - RECORD_LEN) div RECORD_LEN) es, (n - RECORD_LEN) mod RECORD_LEN \<noteq> 0)"
      using Cons.prems by (intro Cons.IH) simp
    moreover have "n div RECORD_LEN = Suc ((n - RECORD_LEN) div RECORD_LEN)" "n mod RECORD_LEN = (n - RECORD_LEN) mod RECORD_LEN"
      using False by (simp_all add: le_div_geq le_mod_geq)
    ultimately show ?thesis
      using decode_record_bytes[of e]
      by (subst read_records.simps) (simp add: slice_append_here slice_all)
  qed
qed (simp add: read_records.simps)

section \<open>Folding the log into a snapshot\<close>

text \<open>What a merge writes: one entry per mapped key, and one per key with a stored deletion.\<close>

definition mapped_entries :: "faces \<Rightarrow> entry set" where
  "mapped_entries fs = {(p, f, l, t). fst fs (p, f) = Some (l, t)}"

definition tomb_entries :: "faces \<Rightarrow> entry set" where
  "tomb_entries fs = {(p, f, l, t). l = NO_LOCAL_SLOT \<and> snd fs (p, f) = Some t}"

definition faces_ok :: "faces \<Rightarrow> bool" where
  "faces_ok fs \<longleftrightarrow> (\<forall>k l t. fst fs k = Some (l, t) \<longrightarrow> l \<noteq> NO_LOCAL_SLOT \<and> l \<noteq> MAPPING_GONE)"

lemma apply_entry_cases:
  "apply_entry e (mapped, tombs) =
    (let k = entry_key e; local = fst (snd (snd e)); tomb = snd (snd (snd e)) in
     if local = NO_LOCAL_SLOT
     then (mapped, tombs(k \<mapsto> max (case tombs k of None \<Rightarrow> hlc_ZERO | Some t \<Rightarrow> t) tomb))
     else if local = MAPPING_GONE then (mapped(k := None), tombs)
     else (mapped(k \<mapsto> (local, tomb)), tombs))"
  by (cases e rule: record_fields.cases) (simp add: entry_key_def Let_def)

lemma fold_entries_dom:
  "fst (fold apply_entry es fs) k \<noteq> None \<Longrightarrow> k \<in> entry_key ` set es \<or> fst fs k \<noteq> None"
  "snd (fold apply_entry es fs) k \<noteq> None \<Longrightarrow> k \<in> entry_key ` set es \<or> snd fs k \<noteq> None"
proof (induction es arbitrary: fs)
  case (Cons e es)
  {
    case 1
    then show ?case
      using Cons.IH(1)[of "apply_entry e fs"]
      by (cases fs) (auto simp: apply_entry_cases Let_def split: if_splits)
  next
    case 2
    then show ?case
      using Cons.IH(2)[of "apply_entry e fs"]
      by (cases fs) (auto simp: apply_entry_cases Let_def split: if_splits)
  }
qed auto

lemma fold_entries_ok: "faces_ok fs \<Longrightarrow> faces_ok (fold apply_entry es fs)"
proof (induction es arbitrary: fs)
  case (Cons e es)
  have "faces_ok (apply_entry e fs)"
    using Cons.prems by (cases fs) (auto simp: faces_ok_def apply_entry_cases Let_def split: if_splits)
  then show ?case using Cons.IH by simp
qed simp

lemma set_map_filter: "set (List.map_filter f xs) = {y. \<exists>x \<in> set xs. f x = Some y}"
  by (induction xs) (auto simp: map_filter_simps split: option.split)

lemma mapped_list_set:
  assumes "\<And>k. fst fs k \<noteq> None \<Longrightarrow> k \<in> set ks"
  shows "set (List.map_filter (\<lambda>k. map_option (\<lambda>(l, t). (fst k, snd k, l, t)) (fst fs k)) ks) = mapped_entries fs"
proof (intro set_eqI)
  fix e :: entry
  obtain p f l t where e: "e = (p, f, l, t)" by (cases e rule: record_fields.cases)
  have "fst fs (p, f) = Some (l, t) \<Longrightarrow> (p, f) \<in> set ks" using assms by simp
  then show "e \<in> set (List.map_filter (\<lambda>k. map_option (\<lambda>(l, t). (fst k, snd k, l, t)) (fst fs k)) ks) \<longleftrightarrow>
      e \<in> mapped_entries fs"
    by (auto simp: e set_map_filter mapped_entries_def intro!: bexI[of _ "(p, f)"])
qed

lemma tomb_list_set:
  assumes "\<And>k. snd fs k \<noteq> None \<Longrightarrow> k \<in> set ks"
  shows "set (List.map_filter (\<lambda>k. map_option (\<lambda>t. (fst k, snd k, NO_LOCAL_SLOT, t)) (snd fs k)) ks) = tomb_entries fs"
proof (intro set_eqI)
  fix e :: entry
  obtain p f l t where e: "e = (p, f, l, t)" by (cases e rule: record_fields.cases)
  have "snd fs (p, f) = Some t \<Longrightarrow> (p, f) \<in> set ks" using assms by simp
  then show "e \<in> set (List.map_filter (\<lambda>k. map_option (\<lambda>t. (fst k, snd k, NO_LOCAL_SLOT, t)) (snd fs k)) ks) \<longleftrightarrow>
      e \<in> tomb_entries fs"
    by (auto simp: e set_map_filter tomb_entries_def intro!: bexI[of _ "(p, f)"])
qed

lemma faces_keys:
  "fst (faces_of es) k \<noteq> None \<Longrightarrow> k \<in> set (map entry_key es)"
  "snd (faces_of es) k \<noteq> None \<Longrightarrow> k \<in> set (map entry_key es)"
  using fold_entries_dom[of es "(Map.empty, Map.empty)" k] by (auto simp: faces_of_def)

lemma log_merge_sets:
  "log_merge snapshot log = sorted_list_of_set (mapped_entries (faces_of (snapshot @ log))) @
     sorted_list_of_set (tomb_entries (faces_of (snapshot @ log)))"
proof -
  let ?fs = "faces_of (snapshot @ log)" and ?keys = "map entry_key (snapshot @ log)"
  have "fold apply_entry log (fold apply_entry snapshot (Map.empty, Map.empty)) = ?fs"
    by (simp add: faces_of_def)
  then show ?thesis
    unfolding log_merge_def Let_def
    by (simp only: case_prod_unfold flip: sorted_list_of_set_sort_remdups
        mapped_list_set[OF faces_keys(1)] tomb_list_set[OF faces_keys(2)])
qed

lemma finite_mapped_entries: "finite (mapped_entries (faces_of es))"
  by (rule finite_subset[OF equalityD2[OF mapped_list_set[OF faces_keys(1)]] List.finite_set])

lemma finite_tomb_entries: "finite (tomb_entries (faces_of es))"
  by (rule finite_subset[OF equalityD2[OF tomb_list_set[OF faces_keys(2)]] List.finite_set])

text \<open>Applying one entry per key to empty faces gives exactly the map that the entries list.\<close>

lemma fold_mapped_entries:
  assumes "distinct (map entry_key es)"
    and "\<And>e. e \<in> set es \<Longrightarrow> fst (snd (snd e)) \<noteq> NO_LOCAL_SLOT \<and> fst (snd (snd e)) \<noteq> MAPPING_GONE"
  shows "fold apply_entry es (m, t) = (m ++ map_of (map (\<lambda>e. (entry_key e, snd (snd e))) es), t)"
  using assms
proof (induction es arbitrary: m)
  case (Cons e es)
  have "map_of (map (\<lambda>e. (entry_key e, snd (snd e))) es) (entry_key e) = None"
    using Cons.prems(1) by (auto simp: map_of_eq_None_iff image_image)
  then have "m(entry_key e \<mapsto> snd (snd e)) ++ map_of (map (\<lambda>e. (entry_key e, snd (snd e))) es) =
      m ++ (map_of (map (\<lambda>e. (entry_key e, snd (snd e))) es))(entry_key e \<mapsto> snd (snd e))"
    by (intro ext) (simp add: map_add_def split: option.split)
  moreover have "apply_entry e (m, t) = (m(entry_key e \<mapsto> snd (snd e)), t)"
    using Cons.prems(2)[of e] by (simp add: apply_entry_cases Let_def)
  ultimately show ?case using Cons by (simp add: fun_eq_iff map_add_def)
qed simp

lemma fold_tomb_entries:
  assumes "distinct (map entry_key es)"
    and "\<And>e. e \<in> set es \<Longrightarrow> fst (snd (snd e)) = NO_LOCAL_SLOT \<and> t (entry_key e) = None"
  shows "fold apply_entry es (m, t) = (m, t ++ map_of (map (\<lambda>e. (entry_key e, snd (snd (snd e)))) es))"
  using assms
proof (induction es arbitrary: t)
  case (Cons e es)
  have "map_of (map (\<lambda>e. (entry_key e, snd (snd (snd e)))) es) (entry_key e) = None"
    using Cons.prems(1) by (auto simp: map_of_eq_None_iff image_image)
  then have "t(entry_key e \<mapsto> snd (snd (snd e))) ++ map_of (map (\<lambda>e. (entry_key e, snd (snd (snd e)))) es) =
      t ++ (map_of (map (\<lambda>e. (entry_key e, snd (snd (snd e)))) es))(entry_key e \<mapsto> snd (snd (snd e)))"
    by (intro ext) (simp add: map_add_def split: option.split)
  moreover have "apply_entry e (m, t) = (m, t(entry_key e \<mapsto> snd (snd (snd e))))"
    using Cons.prems(2)[of e] by (simp add: apply_entry_cases Let_def hlc_ZERO_least max_absorb2)
  moreover have "fold apply_entry es (m, t(entry_key e \<mapsto> snd (snd (snd e)))) =
      (m, t(entry_key e \<mapsto> snd (snd (snd e))) ++ map_of (map (\<lambda>e. (entry_key e, snd (snd (snd e)))) es))"
  proof (rule Cons.IH)
    fix e' assume e': "e' \<in> set es"
    moreover have "entry_key e \<notin> entry_key ` set es" using Cons.prems(1) by simp
    ultimately have "entry_key e' \<noteq> entry_key e" by (metis imageI)
    then show "fst (snd (snd e')) = NO_LOCAL_SLOT \<and> (t(entry_key e \<mapsto> snd (snd (snd e)))) (entry_key e') = None"
      using Cons.prems(2)[of e'] e' by simp
  qed (use Cons.prems(1) in simp)
  ultimately show ?case by (simp add: fun_eq_iff map_add_def)
qed simp

lemma map_of_set_is_map:
  assumes "distinct (map f es)" "\<And>k v. m k = Some v \<longleftrightarrow> (\<exists>e \<in> set es. f e = k \<and> g e = v)"
  shows "map_of (map (\<lambda>e. (f e, g e)) es) = m"
proof (rule ext)
  fix k
  have "map_of (map (\<lambda>e. (f e, g e)) es) k = Some v \<longleftrightarrow> m k = Some v" for v
    using assms by (subst map_of_eq_Some_iff) (auto simp: comp_def)
  then show "map_of (map (\<lambda>e. (f e, g e)) es) k = m k"
    by (metis not_None_eq)
qed

lemma faces_of_merge: "faces_of (log_merge snapshot log) = faces_of (snapshot @ log)"
proof -
  let ?fs = "faces_of (snapshot @ log)"
  let ?ms = "sorted_list_of_set (mapped_entries ?fs)" and ?ts = "sorted_list_of_set (tomb_entries ?fs)"
  have sets: "set ?ms = mapped_entries ?fs" "set ?ts = tomb_entries ?fs"
    by (simp_all add: finite_mapped_entries finite_tomb_entries)
  have ok: "faces_ok ?fs"
    unfolding faces_of_def by (rule fold_entries_ok) (simp add: faces_ok_def)
  have dm: "distinct (map entry_key ?ms)"
    unfolding distinct_map sets inj_on_def by (auto simp: mapped_entries_def entry_key_def)
  have dt: "distinct (map entry_key ?ts)"
    unfolding distinct_map sets inj_on_def by (auto simp: tomb_entries_def entry_key_def)
  have "fold apply_entry ?ms (Map.empty, Map.empty) =
      (Map.empty ++ map_of (map (\<lambda>e. (entry_key e, snd (snd e))) ?ms), Map.empty)"
    using ok by (intro fold_mapped_entries[OF dm], unfold sets) (force simp: mapped_entries_def faces_ok_def)
  moreover have "map_of (map (\<lambda>e. (entry_key e, snd (snd e))) ?ms) = fst ?fs"
    by (intro map_of_set_is_map[OF dm], unfold sets) (auto simp: mapped_entries_def entry_key_def)
  moreover have "fold apply_entry ?ts (fst ?fs, Map.empty) =
      (fst ?fs, Map.empty ++ map_of (map (\<lambda>e. (entry_key e, snd (snd (snd e)))) ?ts))"
    by (intro fold_tomb_entries[OF dt], unfold sets) (auto simp: tomb_entries_def)
  moreover have "map_of (map (\<lambda>e. (entry_key e, snd (snd (snd e)))) ?ts) = snd ?fs"
    by (intro map_of_set_is_map[OF dt], unfold sets) (auto simp: tomb_entries_def entry_key_def)
  ultimately show ?thesis
    by (simp add: log_merge_sets faces_of_def[of "_ @ _"] flip: faces_of_def)
qed

section \<open>Properties\<close>

text \<open>C25. A crash while records are appended never corrupts the log: for whatever number of bytes of
  the appended records reached the file, the reader accepts the log for the snapshot it continues, gives
  back exactly the records that were written whole, in order, and reports a torn tail exactly when the
  cut fell inside a record.\<close>

theorem eidmap_log_survives_crash:
  assumes "n \<le> RECORD_LEN * length es"
  shows "log_read (log_header snapshot @ take n (concat (map record_bytes es))) snapshot =
    Some (take (n div RECORD_LEN) es, n mod RECORD_LEN \<noteq> 0)"
proof -
  let ?buf = "log_header snapshot @ take n (concat (map record_bytes es))"
  have "slice 0 4 ?buf = LOG_MAGIC" "log_u32 ?buf 4 = 1"
    by (simp_all add: log_header_def log_u32_def buf_simps slice_append_left slice_all)
  moreover have "slice 0 LOG_HEADER_LEN ?buf = log_header snapshot"
    by (simp add: slice_append_here slice_all)
  ultimately show ?thesis
    using read_records_cut[OF assms] by (simp add: log_read_def)
qed

theorem eidmap_log_survives_crash_witness:
  "log_read (log_header [1, 2] @ take 40 (concat (map record_bytes [(1, 7, 3, hlc_ZERO), (2, 9, 4, hlc_ZERO)]))) [1, 2] =
    Some ([(1, 7, 3, hlc_ZERO)], True)"
  using eidmap_log_survives_crash[of 40 "[(1, 7, 3, hlc_ZERO), (2, 9, 4, hlc_ZERO)]" "[1, 2]"] by simp

text \<open>Compaction is invisible: folding a log into a new snapshot and then applying the records that
  come later gives the same entries, in the same order, as applying both logs to the old snapshot.\<close>

theorem compaction_keeps_eidmap:
  "log_merge (log_merge snapshot log1) log2 = log_merge snapshot (log1 @ log2)"
proof -
  have "faces_of (log_merge snapshot log1 @ log2) = fold apply_entry log2 (faces_of (log_merge snapshot log1))"
    by (simp add: faces_of_def)
  also have "\<dots> = faces_of (snapshot @ log1 @ log2)"
    by (simp only: faces_of_merge) (simp add: faces_of_def)
  finally show ?thesis
    by (simp add: log_merge_sets)
qed

end
