(* ===== verification/Append_Bucket.thy ===== *)
theory Append_Bucket
  imports Prelude "HOL-Library.Multiset"
begin

text \<open>
  The ids of one value (\<^verbatim>\<open>AppendBucket\<close> in \<^verbatim>\<open>crates/enchudb-engine/src/append_bucket.rs\<close>): an
  append-only list with a count of the ids that still carry the value, a flag that some entry
  is stale, and, for columns that asked for it, one bit per entry that marks it as stale.
  The lock-free publication of the backing array is one atomic step here, as it is for the one
  writer of a bucket; the sorting routines the compaction uses are modelled in full.

  The lemmas show that the radix sort, the sort of an almost sorted list and the copy that
  skips marked entries agree with the library's sort and filter, and that every operation of
  the bucket does to entries, marks and counters what its readers rely on.
\<close>

section \<open>Sorting ids\<close>

abbreviation RADIX_MIN :: nat where
  "RADIX_MIN \<equiv> 512"

definition leading_zeros :: "u32 \<Rightarrow> nat" where
  "leading_zeros x = length (takeWhile (\<lambda>i. \<not> bit x (31 - i)) [0..<32])"

definition div_ceil :: "nat \<Rightarrow> nat \<Rightarrow> nat" where
  "div_ceil a b = (a + b - 1) div b"

definition radix_digit :: "u32 \<Rightarrow> nat \<Rightarrow> nat \<Rightarrow> u32 \<Rightarrow> nat" where
  "radix_digit mn shift w x = unat (drop_bit shift (x - mn) AND (push_bit w 1 - 1))"

definition radix_counts :: "(u32 \<Rightarrow> nat) \<Rightarrow> nat \<Rightarrow> u32 list \<Rightarrow> nat list" where
  "radix_counts d n v = foldl (\<lambda>c x. c[d x := c ! d x + 1]) (replicate n 0) v"

fun radix_starts :: "nat \<Rightarrow> nat list \<Rightarrow> nat list" where
  "radix_starts at [] = []"
| "radix_starts at (c # cs) = at # radix_starts (at + c) cs"

definition radix_pass :: "(u32 \<Rightarrow> nat) \<Rightarrow> nat \<Rightarrow> u32 list \<Rightarrow> u32 list" where
  "radix_pass d n v = fst (foldl (\<lambda>(buf, c) x. (buf[c ! d x := x], c[d x := c ! d x + 1]))
     (replicate (length v) 0, radix_starts 0 (radix_counts d n v)) v)"

definition sort_eids :: "u32 list \<Rightarrow> u32 list" where
  "sort_eids v = (
     if length v < RADIX_MIN then sort v
     else let (mn, mx) = foldl (\<lambda>(lo, hi) x. (min lo x, max hi x)) (0xFFFFFFFF, 0) v;
              bits = 32 - leading_zeros (mx - mn)
          in if bits = 0 then v
             else let passes = div_ceil bits 11; w = div_ceil bits passes
                  in foldl (\<lambda>v p. radix_pass (radix_digit mn (p * w) w) (2 ^ w) v) v [0..<passes])"

function skip_sorted :: "u32 list \<Rightarrow> nat \<Rightarrow> nat" where
  "skip_sorted v s = (if s + 256 < length v \<and> sorted (slice s (s + 257) v) then skip_sorted v (s + 256) else s)"
  by pat_completeness auto

termination
  by (relation "measure (\<lambda>(v, s). length v - s)") auto

declare skip_sorted.simps [simp del]

definition sorted_prefix_len :: "u32 list \<Rightarrow> nat" where
  "sorted_prefix_len v = (
     if sorted v then length v
     else let s = skip_sorted v 0
          in s + (case find (\<lambda>i. v ! (s + i) > v ! (s + i + 1)) [0..<length v - s - 1] of
               None \<Rightarrow> length v - s | Some i \<Rightarrow> i + 1))"

text \<open>
  The merge of the sorted head, in place, with the sorted rest, largest first from the end.
\<close>

function merge_back :: "u32 list \<Rightarrow> u32 list \<Rightarrow> nat \<Rightarrow> nat \<Rightarrow> u32 list" where
  "merge_back v b i j = (
     if j = 0 then v
     else if i > 0 \<and> v ! (i - 1) > b ! (j - 1)
     then merge_back (v[i + j - 1 := v ! (i - 1)]) b (i - 1) j
     else merge_back (v[i + j - 1 := b ! (j - 1)]) b i (j - 1))"
  by pat_completeness auto

termination
  by (relation "measure (\<lambda>(v, b, i, j). i + j)") auto

declare merge_back.simps [simp del]

definition sort_appended :: "u32 list \<Rightarrow> u32 list" where
  "sort_appended v =
     (let k = sorted_prefix_len v
      in if k = length v then v
         else let b = sort_eids (drop k v) in merge_back v b k (length b))"

definition dedup_sorted :: "u32 list \<Rightarrow> u32 list" where
  "dedup_sorted v = remdups_adj (sort_appended v)"

subsection \<open>One counting pass\<close>

definition digit_lists :: "('a \<Rightarrow> nat) \<Rightarrow> nat \<Rightarrow> 'a list \<Rightarrow> 'a list" where
  "digit_lists d n v = concat (map (\<lambda>k. filter (\<lambda>x. d x = k) v) [0..<n])"

definition digit_count :: "('a \<Rightarrow> nat) \<Rightarrow> 'a list \<Rightarrow> nat \<Rightarrow> nat" where
  "digit_count d v k = length (filter (\<lambda>x. d x = k) v)"

lemma radix_counts_nth:
  assumes "\<forall>x \<in> set v. d x < n"
  shows "length (radix_counts d n v) = n" "k < n \<Longrightarrow> radix_counts d n v ! k = digit_count d v k"
proof -
  have "length (foldl (\<lambda>c x. c[d x := c ! d x + 1]) c v) = length c \<and>
      (k < length c \<longrightarrow> foldl (\<lambda>c x. c[d x := c ! d x + 1]) c v ! k = c ! k + digit_count d v k)"
    if "length c = n" for c k
    using assms that by (induction v arbitrary: c) (auto simp: digit_count_def nth_list_update)
  from this[of "replicate n 0"]
  show "length (radix_counts d n v) = n" "k < n \<Longrightarrow> radix_counts d n v ! k = digit_count d v k"
    by (auto simp: radix_counts_def)
qed

lemma radix_starts_nth:
  "length (radix_starts at cs) = length cs" "k < length cs \<Longrightarrow> radix_starts at cs ! k = at + sum_list (take k cs)"
proof (induction cs arbitrary: at k)
  case (Cons c cs)
  {
    case 2
    then show ?case using Cons.IH(2)[of "k - 1" "at + c"] by (cases k) auto
  }
qed auto

definition digit_start :: "('a \<Rightarrow> nat) \<Rightarrow> 'a list \<Rightarrow> nat \<Rightarrow> nat" where
  "digit_start d v k = sum_list (map (digit_count d v) [0..<k])"

lemma digit_start_Suc: "digit_start d v (Suc k) = digit_start d v k + digit_count d v k"
  by (simp add: digit_start_def)

lemma digit_start_mono: "j \<le> k \<Longrightarrow> digit_start d v j \<le> digit_start d v k"
  by (induction k) (auto simp: digit_start_Suc le_Suc_eq)

lemma length_digit_start: "length (digit_lists d m v) = digit_start d v m"
  by (simp add: digit_lists_def digit_start_def digit_count_def[abs_def] length_concat comp_def)

lemma digit_start_nth:
  assumes "k < n" "j < digit_count d v k"
  shows "digit_start d v k + j < length (digit_lists d n v)" "digit_lists d n v ! (digit_start d v k + j) = filter (\<lambda>x. d x = k) v ! j"
proof -
  have split: "digit_lists d n v = digit_lists d k v @ filter (\<lambda>x. d x = k) v @
      concat (map (\<lambda>k. filter (\<lambda>x. d x = k) v) [Suc k..<n])"
  proof -
    have "[0..<n] = [0..<k] @ [k..<n]" using assms(1) upt_add_eq_append[of 0 k "n - k"] by simp
    also have "[k..<n] = k # [Suc k..<n]" using assms(1) by (simp add: upt_conv_Cons)
    finally show ?thesis unfolding digit_lists_def by (simp only:) simp
  qed
  note len = length_digit_start[of d k v]
  show "digit_start d v k + j < length (digit_lists d n v)"
    using assms(2) by (simp add: split len digit_count_def)
  show "digit_lists d n v ! (digit_start d v k + j) = filter (\<lambda>x. d x = k) v ! j"
    using assms(2) by (simp add: split len[symmetric] nth_append digit_count_def)
qed

lemma mset_digit_lists: "\<forall>x \<in> set v. d x < n \<Longrightarrow> mset (digit_lists d n v) = mset v"
proof (induction v)
  case (Cons x v)
  have "mset (digit_lists d n (x # v)) = sum_list (map (\<lambda>k. mset (filter (\<lambda>y. d y = k) (x # v))) [0..<n])"
    by (simp add: digit_lists_def mset_concat comp_def)
  also have "\<dots> = sum_list (map (\<lambda>k. (if d x = k then {#x#} else {#}) + mset (filter (\<lambda>y. d y = k) v)) [0..<n])"
    by (intro arg_cong[where f = sum_list] map_cong) auto
  also have "\<dots> = sum_list (map (\<lambda>k. if d x = k then {#x#} else {#}) [0..<n]) + mset (digit_lists d n v)"
    by (simp add: sum_list_addf digit_lists_def mset_concat comp_def)
  also have "sum_list (map (\<lambda>k. if d x = k then {#x#} else {#}) [0..<n]) = {#x#}"
    using Cons.prems by (simp add: interv_sum_list_conv_sum_set_nat)
  finally show ?case using Cons by simp
qed (simp add: digit_lists_def)

lemma length_digit_lists: "\<forall>x \<in> set v. d x < n \<Longrightarrow> length (digit_lists d n v) = length v"
  by (rule mset_eq_length[OF mset_digit_lists])

lemma scatter_step:
  fixes d :: "u32 \<Rightarrow> nat"
  assumes dv: "\<forall>x \<in> set v. d x < n" and "v = ys @ x # zs" and len: "length buf = length v" "length c = n"
    and c: "\<And>k. k < n \<Longrightarrow> c ! k = digit_start d v k + digit_count d ys k"
    and buf: "\<And>k j. k < n \<Longrightarrow> j < digit_count d ys k \<Longrightarrow> buf ! (digit_start d v k + j) = filter (\<lambda>x. d x = k) ys ! j"
  shows "k < n \<Longrightarrow> c[d x := c ! d x + 1] ! k = digit_start d v k + digit_count d (ys @ [x]) k"
    "k < n \<Longrightarrow> j < digit_count d (ys @ [x]) k \<Longrightarrow>
      buf[c ! d x := x] ! (digit_start d v k + j) = filter (\<lambda>x. d x = k) (ys @ [x]) ! j"
proof -
  have dx: "d x < n" using assms(1,2) by simp
  show "k < n \<Longrightarrow> c[d x := c ! d x + 1] ! k = digit_start d v k + digit_count d (ys @ [x]) k"
    using c[of k] len(2) by (auto simp: nth_list_update digit_count_def)
  have cnt: "digit_count d ys k + (if d x = k then 1 else 0) \<le> digit_count d v k" for k
    using assms(2) by (simp add: digit_count_def)
  assume k: "k < n" and j: "j < digit_count d (ys @ [x]) k"
  have cdx: "c ! d x = digit_start d v (d x) + digit_count d ys (d x)" by (rule c[OF dx])
  show "buf[c ! d x := x] ! (digit_start d v k + j) = filter (\<lambda>x. d x = k) (ys @ [x]) ! j"
  proof (cases "k = d x \<and> j = digit_count d ys k")
    case True
    have "digit_start d v (d x) + digit_count d ys (d x) < length v"
      using digit_start_nth(1)[OF dx, of "digit_count d ys (d x)" d v] cnt[of "d x"] length_digit_lists[OF dv] by simp
    then show ?thesis using True len cdx by (simp add: nth_append digit_count_def)
  next
    case False
    have jl: "j < digit_count d ys k" using j False by (auto simp: digit_count_def split: if_splits)
    have "digit_start d v k + j \<noteq> digit_start d v (d x) + digit_count d ys (d x)"
    proof (cases "k = d x")
      case True
      then show ?thesis using jl by simp
    next
      case ne: False
      have "digit_start d v k + digit_count d v k \<le> digit_start d v (d x) \<or>
          digit_start d v (d x) + digit_count d v (d x) \<le> digit_start d v k"
        using digit_start_mono[of "Suc k" "d x" d v] digit_start_mono[of "Suc (d x)" k d v] ne
        by (fastforce simp: digit_start_Suc)
      then show ?thesis using jl cnt[of k] cnt[of "d x"] by auto
    qed
    then show ?thesis
      using buf[OF k jl] jl cdx by (simp add: nth_append digit_count_def)
  qed
qed

lemma scatter_length:
  "length (fst (foldl (\<lambda>(buf, c) x. (buf[c ! d x := x], c[d x := c ! d x + 1])) (buf, c) zs)) = length buf"
  by (induction zs arbitrary: buf c) auto

lemma scatter_all:
  fixes d :: "u32 \<Rightarrow> nat"
  assumes dv: "\<forall>x \<in> set v. d x < n" and k: "k < n" "j < digit_count d v k"
    and "v = ys @ zs" and "length buf = length v" "length c = n"
    and "\<And>k. k < n \<Longrightarrow> c ! k = digit_start d v k + digit_count d ys k"
    and "\<And>k j. k < n \<Longrightarrow> j < digit_count d ys k \<Longrightarrow> buf ! (digit_start d v k + j) = filter (\<lambda>x. d x = k) ys ! j"
  shows "fst (foldl (\<lambda>(buf, c) x. (buf[c ! d x := x], c[d x := c ! d x + 1])) (buf, c) zs) ! (digit_start d v k + j) =
    filter (\<lambda>x. d x = k) v ! j"
  using assms(4-8)
proof (induction zs arbitrary: ys buf c)
  case (Cons x zs)
  note st = scatter_step[OF dv Cons.prems(1-3) Cons.prems(4,5)]
  show ?case
    using Cons.IH[of "ys @ [x]" "buf[c ! d x := x]" "c[d x := c ! d x + 1]"] Cons.prems(1-3) st by simp
qed (use k in auto)

lemma digit_position:
  "i < digit_start d v n \<Longrightarrow> \<exists>k j. k < n \<and> j < digit_count d v k \<and> i = digit_start d v k + j"
proof (induction n)
  case (Suc n)
  show ?case
  proof (cases "i < digit_start d v n")
    case True
    then show ?thesis using Suc.IH less_SucI by blast
  next
    case False
    then show ?thesis
      using Suc.prems by (intro exI[of _ n] exI[of _ "i - digit_start d v n"]) (auto simp: digit_start_Suc)
  qed
qed (simp add: digit_start_def)

lemma radix_pass_lists:
  assumes dv: "\<forall>x \<in> set v. d x < n"
  shows "radix_pass d n v = digit_lists d n v"
proof (rule nth_equalityI)
  let ?c = "radix_starts 0 (radix_counts d n v)"
  have c: "length ?c = n" "k < n \<Longrightarrow> ?c ! k = digit_start d v k + digit_count d [] k" for k
  proof -
    show "length ?c = n" by (simp add: radix_starts_nth radix_counts_nth[OF dv])
    assume "k < n"
    then have "take k (radix_counts d n v) = map (digit_count d v) [0..<k]"
      by (intro nth_equalityI) (simp_all add: radix_counts_nth[OF dv])
    then show "?c ! k = digit_start d v k + digit_count d [] k"
      using \<open>k < n\<close> by (simp add: radix_starts_nth radix_counts_nth[OF dv] digit_start_def digit_count_def)
  qed
  show "length (radix_pass d n v) = length (digit_lists d n v)"
    unfolding radix_pass_def scatter_length length_digit_lists[OF dv] by simp
  fix i assume "i < length (radix_pass d n v)"
  then have "i < length (digit_lists d n v)" using \<open>length (radix_pass d n v) = length (digit_lists d n v)\<close> by simp
  then obtain k j where "k < n" "j < digit_count d v k" "i = digit_start d v k + j"
    using digit_position[of i d v n] by (auto simp: length_digit_start)
  then show "radix_pass d n v ! i = digit_lists d n v ! i"
    using scatter_all[OF dv, of k j "[]" v "replicate (length v) 0" ?c, OF _ _ _ _ c] digit_start_nth(2)[of k n j d v]
    by (simp add: radix_pass_def digit_count_def)
qed

lemma digit_lists_sort:
  assumes "\<forall>x \<in> set v. d x < n"
  shows "digit_lists d n v = sort_key d v"
proof (rule properties_for_sort_key[symmetric])
  show "mset (digit_lists d n v) = mset v"
    using assms by (rule mset_digit_lists)
  show "sorted (map d (digit_lists d n v))"
  proof (induction n)
    case (Suc n)
    have "sorted (map d (filter (\<lambda>x. d x = n) v))" by (induction v) auto
    then show ?case using Suc by (auto simp: digit_lists_def sorted_append)
  qed (simp add: digit_lists_def)
  fix k
  have "filter (\<lambda>x. d k = d x) (digit_lists d n v) = concat (map (\<lambda>m. filter (\<lambda>x. d k = d x \<and> d x = m) v) [0..<n])"
    by (simp add: digit_lists_def filter_concat comp_def filter_filter conj_commute)
  also have "\<dots> = concat (map (\<lambda>m. if m = d k then filter (\<lambda>x. d k = d x) v else []) [0..<n])"
    by (intro arg_cong[where f = concat] map_cong refl) (auto simp: filter_empty_conv intro!: filter_cong)
  also have "\<dots> = (if d k < n then filter (\<lambda>x. d k = d x) v else [])"
    by (induction n) auto
  finally show "filter (\<lambda>x. d k = d x) (digit_lists d n v) = filter (\<lambda>x. d k = d x) v" if "k \<in> set (digit_lists d n v)"
    using that assms mset_eq_setD[OF mset_digit_lists[OF assms]] by auto
qed

subsection \<open>All passes\<close>

lemma radix_pass_sort: "\<forall>x \<in> set v. d x < n \<Longrightarrow> radix_pass d n v = sort_key d v"
  by (simp add: radix_pass_lists digit_lists_sort)

lemma sorted_two_keys:
  fixes f g h :: "'a \<Rightarrow> nat"
  assumes "sorted (map g ys)" "\<And>c. sorted (map f (filter (\<lambda>x. g x = c) ys))"
    and "\<And>x y. g x < g y \<or> g x = g y \<and> f x \<le> f y \<Longrightarrow> h x \<le> h y"
  shows "sorted (map h ys)"
  using assms(1,2)
proof (induction ys)
  case (Cons y ys)
  have "h y \<le> h z" if "z \<in> set ys" for z
  proof (cases "g y = g z")
    case True
    have "f y \<le> f z" using Cons.prems(2)[of "g y"] that True by simp
    then show ?thesis using True assms(3) by simp
  next
    case False
    then show ?thesis using Cons.prems(1) that assms(3)[of y z] by fastforce
  qed
  moreover have "sorted (map f (filter (\<lambda>x. g x = c) ys))" for c
    using Cons.prems(2)[of c] by (auto split: if_splits)
  ultimately show ?case using Cons by simp
qed simp

lemma sort_key_same: "\<forall>x \<in> set xs. g x = c \<Longrightarrow> sort_key g xs = xs"
proof (induction xs)
  case (Cons x xs)
  then show ?case by (cases xs) auto
qed simp

lemma sort_two_keys:
  fixes f g h :: "'a \<Rightarrow> nat"
  assumes "\<And>x y. g x < g y \<or> g x = g y \<and> f x \<le> f y \<Longrightarrow> h x \<le> h y" "\<And>x y. h x = h y \<longleftrightarrow> g x = g y \<and> f x = f y"
  shows "sort_key g (sort_key f xs) = sort_key h xs"
proof (rule properties_for_sort_key[symmetric])
  show "mset (sort_key g (sort_key f xs)) = mset xs" by simp
  have const: "sort_key g (filter (\<lambda>x. g x = c) zs) = filter (\<lambda>x. g x = c) zs" for c zs
    by (rule sort_key_same[where c = c]) simp
  have part: "filter (\<lambda>x. g x = c) (sort_key g (sort_key f xs)) = sort_key f (filter (\<lambda>x. g x = c) xs)" for c
    by (simp only: filter_sort[of _ g] const) (simp only: filter_sort)
  show "sorted (map h (sort_key g (sort_key f xs)))"
    using assms(1) by (rule sorted_two_keys[where f = f and g = g, rotated 2]) (simp_all add: part)
  fix k
  have "filter (\<lambda>x. h k = h x) (sort_key g (sort_key f xs)) =
      filter (\<lambda>x. f x = f k) (filter (\<lambda>x. g x = g k) (sort_key g (sort_key f xs)))"
    unfolding filter_filter by (intro filter_cong) (auto simp: assms(2))
  also have "\<dots> = filter (\<lambda>x. f x = f k) (filter (\<lambda>x. g x = g k) (sort_key f xs))"
    by (simp only: filter_sort[of _ g] const)
  also have "\<dots> = filter (\<lambda>x. g x = g k) (filter (\<lambda>x. f x = f k) (sort_key f xs))"
    unfolding filter_filter by (intro filter_cong) auto
  also have "\<dots> = filter (\<lambda>x. g x = g k) (filter (\<lambda>x. f x = f k) xs)"
    by (simp only: sort_key_stable)
  also have "\<dots> = filter (\<lambda>x. h k = h x) xs"
    unfolding filter_filter by (intro filter_cong) (auto simp: assms(2))
  finally show "filter (\<lambda>x. h k = h x) (sort_key g (sort_key f xs)) = filter (\<lambda>x. h k = h x) xs" .
qed

lemma radix_digit_eq: "w < 32 \<Longrightarrow> radix_digit mn s w x = unat (x - mn) div 2 ^ s mod 2 ^ w"
proof -
  assume "w < 32"
  have "(push_bit w 1 - 1 :: u32) = mask w" by (simp add: mask_eq_exp_minus_1 push_bit_of_1)
  then have "radix_digit mn s w x = unat (take_bit w (drop_bit s (x - mn)))"
    by (simp only: radix_digit_def take_bit_eq_mask)
  also have "\<dots> = take_bit w (drop_bit s (unat (x - mn)))"
    by (simp only: unsigned_take_bit_eq unsigned_drop_bit_eq) (use unat_bound[of "x - mn"] in \<open>simp add: take_bit_nat_eq_self\<close>)
  finally show ?thesis by (simp only: take_bit_eq_mod drop_bit_eq_div)
qed

lemma radix_passes:
  assumes "w < 32"
  shows "foldl (\<lambda>v p. radix_pass (radix_digit mn (p * w) w) (2 ^ w) v) v [0..<n] = sort_key (\<lambda>x. unat (x - mn) mod 2 ^ (n * w)) v"
proof (induction n)
  case 0
  have "sort_key (\<lambda>x. unat (x - mn) mod 2 ^ (0 * w)) v = v"
    using sort_key_const[of 0 v] by simp
  then show ?case by simp
next
  case (Suc n)
  let ?f = "\<lambda>x. unat (x - mn) mod 2 ^ (n * w)" and ?g = "\<lambda>x. unat (x - mn) div 2 ^ (n * w) mod 2 ^ w"
  let ?h = "\<lambda>x. unat (x - mn) mod 2 ^ (w + n * w)"
  have h: "?h x = 2 ^ (n * w) * ?g x + ?f x" for x
    using mod_mult2_eq[of "unat (x - mn)" "2 ^ (n * w)" "2 ^ w"] by (simp add: power_add mult.commute)
  have "radix_digit mn (n * w) w = ?g" by (rule ext) (simp add: radix_digit_eq[OF assms])
  then have "foldl (\<lambda>v p. radix_pass (radix_digit mn (p * w) w) (2 ^ w) v) v [0..<Suc n] = radix_pass ?g (2 ^ w) (sort_key ?f v)"
    using Suc.IH by simp
  also have "\<dots> = sort_key ?g (sort_key ?f v)" by (rule radix_pass_sort) simp
  also have "\<dots> = sort_key ?h v"
  proof (rule sort_two_keys)
    fix x y
    have lt: "?f x < 2 ^ (n * w)" for x by simp
    show "?h x \<le> ?h y" if "?g x < ?g y \<or> ?g x = ?g y \<and> ?f x \<le> ?f y"
    proof (cases "?g x < ?g y")
      case True
      then have "2 ^ (n * w) * ?g x + 2 ^ (n * w) \<le> 2 ^ (n * w) * ?g y"
        by (metis Suc_leI mult_Suc_right mult_le_mono2 add.commute)
      then show ?thesis using lt[of x] by (simp only: h)
    qed (use that in \<open>simp add: h\<close>)
    show "?h x = ?h y \<longleftrightarrow> ?g x = ?g y \<and> ?f x = ?f y"
    proof
      assume "?h x = ?h y"
      then have "(2 ^ (n * w) * ?g x + ?f x) div 2 ^ (n * w) = (2 ^ (n * w) * ?g y + ?f y) div 2 ^ (n * w)"
        "(2 ^ (n * w) * ?g x + ?f x) mod 2 ^ (n * w) = (2 ^ (n * w) * ?g y + ?f y) mod 2 ^ (n * w)" by (simp_all only: h)
      then show "?g x = ?g y \<and> ?f x = ?f y" by simp
    qed (simp add: h)
  qed
  finally show ?case by simp
qed

lemma leading_zeros_bound: "unat (x :: u32) < 2 ^ (32 - leading_zeros x)"
proof -
  let ?z = "leading_zeros x"
  have z: "?z \<le> 32" unfolding leading_zeros_def using length_takeWhile_le[of "\<lambda>i. \<not> bit x (31 - i)" "[0..<32]"] by simp
  have "\<not> bit x (31 - i)" if "i < ?z" for i
  proof -
    have "i < length (takeWhile (\<lambda>i. \<not> bit x (31 - i)) [0..<32])" using that by (simp add: leading_zeros_def)
    then have "\<not> bit x (31 - ([0..<32] ! i))" using nth_mem set_takeWhileD takeWhile_nth by metis
    then show ?thesis using that z by simp
  qed
  then have "\<not> bit x j" if "32 - ?z \<le> j" "j < 32" for j
  proof -
    have "31 - j < ?z" "31 - (31 - j) = j" using that z by auto
    then show ?thesis using \<open>\<And>i. i < ?z \<Longrightarrow> \<not> bit x (31 - i)\<close>[of "31 - j"] by simp
  qed
  then have "take_bit (32 - ?z) x = x"
    by (intro bit_eqI) (auto simp: bit_take_bit_iff not_less[symmetric])
  then show ?thesis
    by (metis take_bit_nat_less_exp unsigned_take_bit_eq)
qed

lemma fold_min_max:
  fixes v :: "u32 list"
  shows "foldl (\<lambda>(lo, hi) x. (min lo x, max hi x)) (a, b) v = (foldl min a v, foldl max b v)"
  by (induction v arbitrary: a b) auto

lemma foldl_min_le: "foldl min (a :: u32) v \<le> a" "x \<in> set v \<Longrightarrow> foldl min a v \<le> x"
proof (induction v arbitrary: a)
  case (Cons y v)
  {
    case 1
    show ?case using order_trans[OF Cons.IH(1)[of "min a y"] min.cobounded1] by simp
  next
    case 2
    then show ?case
      using order_trans[OF Cons.IH(1)[of "min a y"] min.cobounded2] Cons.IH(2)[of "min a y"] by auto
  }
qed simp_all

lemma foldl_max_ge: "(b :: u32) \<le> foldl max b v" "x \<in> set v \<Longrightarrow> x \<le> foldl max b v"
proof (induction v arbitrary: b)
  case (Cons y v)
  {
    case 1
    show ?case using order_trans[OF max.cobounded1 Cons.IH(1)[of "max b y"]] by simp
  next
    case 2
    then show ?case
      using order_trans[OF max.cobounded2 Cons.IH(1)[of "max b y"]] Cons.IH(2)[of "max b y"] by auto
  }
qed simp_all

lemma sort_key_order_iso:
  fixes f :: "'a::linorder \<Rightarrow> 'b::linorder"
  assumes "\<And>x y. x \<in> set v \<Longrightarrow> y \<in> set v \<Longrightarrow> f x \<le> f y \<Longrightarrow> x \<le> y"
  shows "sort_key f v = sort v"
proof (rule properties_for_sort[symmetric])
  have "sorted_wrt (\<lambda>x y. f x \<le> f y) (sort_key f v)" using sorted_sort_key[of f v] by (simp add: sorted_wrt_map)
  then show "sorted (sort_key f v)"
    by (rule sorted_wrt_mono_rel[rotated]) (use assms in simp)
qed simp

lemma radix_widths:
  assumes "0 < b" "b \<le> 32"
  shows "div_ceil b (div_ceil b 11) < 32" "b \<le> div_ceil b 11 * div_ceil b (div_ceil b 11)"
proof -
  have "\<forall>b \<in> set [1..<33]. div_ceil b (div_ceil b 11) < 32 \<and> b \<le> div_ceil b 11 * div_ceil b (div_ceil b 11)"
    by code_simp
  then show "div_ceil b (div_ceil b 11) < 32" "b \<le> div_ceil b 11 * div_ceil b (div_ceil b 11)"
    using assms by simp_all
qed

lemma sort_eids_sort: "sort_eids v = sort v"
proof (cases "length v < RADIX_MIN")
  case False
  define mn where "mn = foldl min 0xFFFFFFFF v"
  define mx where "mx = foldl max 0 v"
  define bits where "bits = 32 - leading_zeros (mx - mn)"
  have le: "unat (x - mn) \<le> unat (mx - mn)" "mn \<le> x" if "x \<in> set v" for x
  proof -
    show "mn \<le> x" using that by (simp add: mn_def foldl_min_le)
    moreover have "x \<le> mx" using that by (simp add: mx_def foldl_max_ge)
    ultimately show "unat (x - mn) \<le> unat (mx - mn)"
      using order_trans[of mn x mx] by (simp add: unat_sub word_le_nat_alt)
  qed
  have small: "unat (x - mn) < 2 ^ bits" if "x \<in> set v" for x
    using le(1)[OF that] leading_zeros_bound[of "mx - mn"] unfolding bits_def by (rule order_le_less_trans)
  have mono: "x \<le> y" if "x \<in> set v" "y \<in> set v" "unat (x - mn) \<le> unat (y - mn)" for x y
    using that le(2)[of x] le(2)[of y] by (simp add: unat_sub word_le_nat_alt)
  then have iso: "sort_key (\<lambda>x. unat (x - mn)) v = sort v" by (rule sort_key_order_iso)
  have ex: "sort_eids v = (if bits = 0 then v else let passes = div_ceil bits 11; w = div_ceil bits passes
      in foldl (\<lambda>v p. radix_pass (radix_digit mn (p * w) w) (2 ^ w) v) v [0..<passes])"
    using False unfolding sort_eids_def fold_min_max mn_def[symmetric] mx_def[symmetric] by (simp add: bits_def Let_def)
  show ?thesis
  proof (cases "bits = 0")
    case True
    then have "unat (x - mn) = 0" if "x \<in> set v" for x using small[OF that] by simp
    then have "sort_key (\<lambda>x. unat (x - mn)) v = v" by (intro sort_key_same[where c = 0]) simp
    then show ?thesis using True iso ex by simp
  next
    case nz: False
    let ?passes = "div_ceil bits 11"
    let ?w = "div_ceil bits ?passes"
    have b: "0 < bits" "bits \<le> 32" using nz by (simp_all add: bits_def)
    have "unat (x - mn) mod 2 ^ (?passes * ?w) = unat (x - mn)" if "x \<in> set v" for x
    proof (rule mod_less)
      have "(2 :: nat) ^ bits \<le> 2 ^ (?passes * ?w)" using radix_widths(2)[OF b] by (rule power_increasing) simp
      with small[OF that] show "unat (x - mn) < 2 ^ (?passes * ?w)" by (rule order_less_le_trans)
    qed
    then have "sort_key (\<lambda>x. unat (x - mn) mod 2 ^ (?passes * ?w)) v = sort v"
      using mono by (intro sort_key_order_iso) simp
    then show ?thesis
      using nz iso ex radix_passes[OF radix_widths(1)[OF b], of mn v ?passes] by (simp add: Let_def)
  qed
qed (simp add: sort_eids_def)

subsection \<open>Almost sorted lists\<close>

lemma distinct_remdups_adj_sorted: "sorted (xs :: 'a::linorder list) \<Longrightarrow> distinct (remdups_adj xs)"
proof (induction xs rule: remdups_adj.induct)
  case (3 x y xs)
  then have "x \<noteq> y \<Longrightarrow> x \<notin> set (y # xs)" by auto
  then show ?case using 3 by simp
qed simp_all


lemma sorted_take_extend:
  assumes "sorted (take (Suc s) v)" "\<And>i. s \<le> i \<Longrightarrow> Suc i < k \<Longrightarrow> v ! i \<le> v ! Suc i" "k \<le> length v"
  shows "sorted (take k v)"
  unfolding sorted_iff_nth_Suc
proof (intro allI impI)
  fix i assume "Suc i < length (take k v)"
  then show "take k v ! i \<le> take k v ! Suc i"
    using assms sorted_nth_mono[OF assms(1), of i "Suc i"] by (cases "i < s") auto
qed

lemma skip_sorted_prefix:
  assumes "sorted (take (Suc s) v)" "s < length v \<or> s = 0"
  shows "sorted (take (Suc (skip_sorted v s)) v) \<and> (skip_sorted v s < length v \<or> skip_sorted v s = 0)"
  using assms
proof (induction v s rule: skip_sorted.induct)
  case (1 v s)
  have "sorted (take (Suc (s + 256)) v)" if "s + 256 < length v" "sorted (slice s (s + 257) v)"
  proof (rule sorted_take_extend[OF "1.prems"(1)])
    fix i assume i: "s \<le> i" "Suc i < Suc (s + 256)"
    then show "v ! i \<le> v ! Suc i"
      using sorted_nth_mono[OF that(2), of "i - s" "Suc i - s"] that(1) by (simp add: slice_def)
  qed (use that in simp)
  then show ?case using "1.IH" "1.prems" by (subst (1 2 3) skip_sorted.simps) auto
qed

lemma sorted_prefix:
  shows "sorted (take (sorted_prefix_len v) v)" "sorted_prefix_len v \<le> length v"
proof -
  define s where "s = skip_sorted v 0"
  have s: "sorted (take (Suc s) v)" "s < length v \<or> s = 0"
    using skip_sorted_prefix[of 0 v] unfolding s_def by (cases v; simp)+
  have "sorted (take (sorted_prefix_len v) v) \<and> sorted_prefix_len v \<le> length v"
  proof (cases "sorted v")
    case ns: False
    let ?f = "find (\<lambda>i. v ! (s + i) > v ! (s + i + 1)) [0..<length v - s - 1]"
    have len: "0 < length v" using ns by (cases v) auto
    then have sl: "s < length v" using s(2) by auto
    show ?thesis
    proof (cases ?f)
      case None
      then have "v ! i \<le> v ! Suc i" if "s \<le> i" "Suc i < length v" for i
      proof -
        have "\<not> v ! (s + (i - s)) > v ! (s + (i - s) + 1)"
          using None[unfolded find_None_iff] that by (metis (no_types, lifting) atLeastLessThan_iff diff_less_mono le_add_diff_inverse less_diff_conv plus_1_eq_Suc set_upt zero_le add.commute diff_diff_left)
        then show ?thesis using that by (simp add: not_less)
      qed
      then have "sorted (take (length v) v)" by (intro sorted_take_extend[OF s(1)]) simp_all
      then show ?thesis using ns by simp
    next
      case (Some m)
      then have m: "m < length v - s - 1" "\<And>j. j < m \<Longrightarrow> \<not> v ! (s + j) > v ! (s + j + 1)"
        by (auto simp: find_Some_iff)
      have "v ! i \<le> v ! Suc i" if "s \<le> i" "Suc i < s + (m + 1)" for i
        using m(2)[of "i - s"] that by (simp add: not_less)
      then have "sorted (take (s + (m + 1)) v)" using m(1) by (intro sorted_take_extend[OF s(1)]) simp_all
      then show ?thesis using ns Some m(1) by (simp add: sorted_prefix_len_def s_def[symmetric])
    qed
  qed (simp add: sorted_prefix_len_def)
  then show "sorted (take (sorted_prefix_len v) v)" "sorted_prefix_len v \<le> length v" by simp_all
qed

lemma merge_back_sort:
  assumes "sorted (take i v)" "sorted (take j b)" "i + j \<le> length v" "j \<le> length b"
  shows "merge_back v b i j = sort (take i v @ take j b) @ drop (i + j) v"
  using assms
proof (induction v b i j rule: merge_back.induct)
  case (1 v b i j)
  show ?case
  proof (cases "j = 0")
    case True
    then show ?thesis using "1.prems" by (subst merge_back.simps) (simp add: sorted_sort_id)
  next
    case j: False
    have tj: "take j b = take (j - 1) b @ [b ! (j - 1)]"
      using j "1.prems"(4) take_Suc_conv_app_nth[of "j - 1" b] by simp
    have sj: "sorted (take (j - 1) b)" "y \<in> set (take (j - 1) b) \<Longrightarrow> y \<le> b ! (j - 1)" for y
      using "1.prems"(2) unfolding tj by (auto simp: sorted_append)
    have dr: "drop (i + j - 1) (v[i + j - 1 := z]) = z # drop (i + j) v" for z
      using j "1.prems"(3) by (simp add: upd_conv_take_nth_drop)
    have srt: "sort (xs @ [m]) = sort xs @ [m]" if "\<forall>y \<in> set xs. y \<le> m" for xs :: "u32 list" and m
      using that by (intro properties_for_sort) (auto simp: sorted_append)
    show ?thesis
    proof (cases "i > 0 \<and> v ! (i - 1) > b ! (j - 1)")
      case True
      have ti: "take i v = take (i - 1) v @ [v ! (i - 1)]"
        using True j "1.prems"(3) take_Suc_conv_app_nth[of "i - 1" v] by auto
      have si: "sorted (take (i - 1) v)" "y \<in> set (take (i - 1) v) \<Longrightarrow> y \<le> v ! (i - 1)" for y
        using "1.prems"(1) unfolding ti by (auto simp: sorted_append)
      have tk: "take (i - 1) (v[i + j - 1 := z]) = take (i - 1) v" for z using j by simp
      have "merge_back v b i j = sort (take (i - 1) v @ take j b) @ drop (i - 1 + j) (v[i + j - 1 := v ! (i - 1)])"
        using "1.IH"(1)[OF j True] "1.prems" True si(1) j unfolding tk by (subst merge_back.simps) simp
      also have "drop (i - 1 + j) (v[i + j - 1 := v ! (i - 1)]) = v ! (i - 1) # drop (i + j) v"
        using dr True j by simp
      moreover have "sort (take i v @ take j b) = sort (take (i - 1) v @ take j b) @ [v ! (i - 1)]"
      proof (rule properties_for_sort)
        have "y \<le> v ! (i - 1)" if "y \<in> set (take j b)" for y
          using that sj(2)[of y] True unfolding tj by auto
        then show "sorted (sort (take (i - 1) v @ take j b) @ [v ! (i - 1)])"
          using si(2) by (auto simp: sorted_append)
      qed (simp add: ti)
      ultimately show ?thesis by simp
    next
      case False
      have tk: "take i (v[i + j - 1 := z]) = take i v" for z using j by simp
      have "merge_back v b i j = sort (take i v @ take (j - 1) b) @ drop (i + (j - 1)) (v[i + j - 1 := b ! (j - 1)])"
        using "1.IH"(2)[OF j False] "1.prems" sj(1) j False unfolding tk by (subst merge_back.simps) auto
      also have "drop (i + (j - 1)) (v[i + j - 1 := b ! (j - 1)]) = b ! (j - 1) # drop (i + j) v"
        using dr j by simp
      moreover have "sort (take i v @ take j b) = sort (take i v @ take (j - 1) b) @ [b ! (j - 1)]"
      proof (rule properties_for_sort)
        have "y \<le> b ! (j - 1)" if y: "y \<in> set (take i v)" for y
        proof -
          obtain m where m: "m < i" "m < length v" "y = v ! m" using y by (auto simp: in_set_conv_nth)
          then have "v ! m \<le> v ! (i - 1)"
            using sorted_nth_mono[OF "1.prems"(1), of m "i - 1"] "1.prems"(3) by simp
          then show ?thesis using False m by (auto simp: not_less)
        qed
        then show "sorted (sort (take i v @ take (j - 1) b) @ [b ! (j - 1)])"
          using sj(2) by (auto simp: sorted_append)
      qed (simp add: tj)
      ultimately show ?thesis by simp
    qed
  qed
qed

lemma sort_appended_sort: "sort_appended v = sort v"
proof (cases "sorted_prefix_len v = length v")
  case True
  then have "sorted v" using sorted_prefix(1)[of v] by simp
  then show ?thesis using True by (simp add: sort_appended_def sorted_sort_id)
next
  case False
  let ?k = "sorted_prefix_len v"
  have "merge_back v (sort (drop ?k v)) ?k (length (sort (drop ?k v))) = sort (take ?k v @ sort (drop ?k v)) @ []"
    using merge_back_sort[of ?k v "length (sort (drop ?k v))" "sort (drop ?k v)"] sorted_prefix[of v] by simp
  also have "sort (take ?k v @ sort (drop ?k v)) = sort v"
    by (intro properties_for_sort) (simp_all, metis append_take_drop_id mset_append)
  finally show ?thesis using False by (simp add: sort_appended_def Let_def sort_eids_sort)
qed

lemma dedup_sorted_eq: "dedup_sorted v = sorted_list_of_set (set v)"
proof -
  have "dedup_sorted v = remdups_adj (sort v)" by (simp add: dedup_sorted_def sort_appended_sort)
  moreover have "sorted (remdups_adj (sort v))" "distinct (remdups_adj (sort v))" "set (remdups_adj (sort v)) = set v"
    by (simp_all add: sorted_remdups_adj distinct_remdups_adj_sorted)
  ultimately show ?thesis by (metis sorted_list_of_set.idem_if_sorted_distinct)
qed

section \<open>The bucket\<close>

abbreviation INITIAL_CAP :: nat where
  "INITIAL_CAP \<equiv> 4"

text \<open>
  \<^verbatim>\<open>b_data\<close> is the published prefix of the backing array, \<^verbatim>\<open>b_marks\<close> its stale bits with the flag
  that they are complete. The counters that count ids of one bucket (\<^verbatim>\<open>live\<close>) are natural
  numbers: there are fewer ids than \<^verbatim>\<open>u32::MAX\<close>.
\<close>

record bucket =
  b_data :: "u32 list"
  b_cap :: nat
  b_marks :: "(u64 list \<times> bool) option"
  b_live :: nat
  b_removed :: bool
  b_verified :: u64
  b_rereads :: u32
  b_marked :: bool
  b_wlen :: u32

definition new_marks :: "bool \<Rightarrow> nat \<Rightarrow> (u64 list \<times> bool) option" where
  "new_marks marked cap = (if marked \<and> cap > 0 then Some (replicate (div_ceil cap 64) 0, True) else None)"

definition writer_len_of :: "nat \<Rightarrow> u32" where
  "writer_len_of n = (if n < 2 ^ 32 then word_of_nat n else 0xFFFFFFFF)"

definition bucket_with_capacity :: "nat \<Rightarrow> bool \<Rightarrow> bucket" where
  "bucket_with_capacity cap marked =
     \<lparr>b_data = [], b_cap = cap, b_marks = new_marks marked cap, b_live = 0, b_removed = False,
      b_verified = 0xFFFFFFFFFFFFFFFF, b_rereads = 0, b_marked = marked, b_wlen = 0\<rparr>"

definition live_inc :: "bucket \<Rightarrow> bucket \<times> nat" where
  "live_inc b = (b\<lparr>b_live := b_live b + 1\<rparr>, b_live b)"

definition bucket_note_stale :: "bucket \<Rightarrow> bucket \<times> nat option" where
  "bucket_note_stale b =
     (let b1 = b\<lparr>b_removed := True\<rparr>
      in if b_live b1 = 0 then (b1, None) else (b1\<lparr>b_live := b_live b1 - 1\<rparr>, Some (b_live b1)))"

definition bucket_snap :: "bucket \<Rightarrow> u64" where
  "bucket_snap b = push_bit 32 (word_of_nat (length (b_data b))) OR word_of_nat (b_live b)"

definition bucket_mark_verified :: "bucket \<Rightarrow> bucket \<times> u32" where
  "bucket_mark_verified b =
     (let snap = bucket_snap b; b1 = b\<lparr>b_verified := snap\<rparr>
      in if b_verified b = snap
         then (b1\<lparr>b_rereads := b_rereads b + 1\<rparr>, if b_rereads b = 0xFFFFFFFF then 0xFFFFFFFF else b_rereads b + 1)
         else (b1\<lparr>b_rereads := 0\<rparr>, 0))"

definition push_in :: "u32 \<Rightarrow> bucket \<Rightarrow> bucket \<times> nat" where
  "push_in eid b =
     (let l = length (b_data b)
      in if l < b_cap b
         then (b\<lparr>b_data := b_data b @ [eid], b_wlen := writer_len_of (l + 1)\<rparr>, l)
         else let ncap = max (b_cap b * 2) INITIAL_CAP;
                  nm = (case (b_marks b, new_marks (b_marked b) ncap) of
                      (Some (ow, oe), Some (nw, _)) \<Rightarrow> Some (put_at 0 ow nw, oe)
                    | (_, m) \<Rightarrow> m)
              in (b\<lparr>b_data := b_data b @ [eid], b_cap := ncap, b_marks := nm, b_wlen := writer_len_of (l + 1)\<rparr>, l))"

definition next_power_of_two :: "nat \<Rightarrow> nat" where
  "next_power_of_two n = (if n \<le> 1 then 1 else 2 ^ length (takeWhile (\<lambda>k. 2 ^ k < n) [0..<n]))"

text \<open>The third result lists the new position of every entry that stays.\<close>

definition compact_in_placed :: "(u32 \<Rightarrow> bool) \<Rightarrow> bucket \<Rightarrow> bucket \<times> nat \<times> (u32 \<times> nat) list" where
  "compact_in_placed keep b =
     (let kept = dedup_sorted (filter keep (b_data b)); live = length kept;
          cap = max (next_power_of_two live) INITIAL_CAP
      in (b\<lparr>b_data := kept, b_cap := cap, b_marks := new_marks (b_marked b) cap, b_live := live,
            b_wlen := writer_len_of live, b_verified := 0xFFFFFFFFFFFFFFFF, b_rereads := 0, b_removed := False\<rparr>,
          live, zip kept [0..<live]))"

definition bucket_mark_stale :: "(nat \<times> u32) option \<Rightarrow> bucket \<Rightarrow> bucket" where
  "bucket_mark_stale at b = (case b_marks b of None \<Rightarrow> b
     | Some (ws, exact) \<Rightarrow> (case at of
         Some (p, eid) \<Rightarrow> if p < length (b_data b)
           then b\<lparr>b_marks := Some (ws[p div 64 := ws ! (p div 64) OR push_bit (p mod 64) 1], exact)\<rparr>
           else b\<lparr>b_marks := Some (ws, False)\<rparr>
       | None \<Rightarrow> b\<lparr>b_marks := Some (ws, False)\<rparr>))"

function copy_unmarked :: "u32 list \<Rightarrow> u64 list \<Rightarrow> u32 list" where
  "copy_unmarked s marks = (
     if s = [] then []
     else let chunk = take 64 s; m = hd marks
          in (if m = 0 then chunk else map snd (filter (\<lambda>(i, e). drop_bit i m AND 1 = 0) (enumerate 0 chunk))) @
             copy_unmarked (drop 64 s) (tl marks))"
  by pat_completeness auto

termination
  by (relation "measure (\<lambda>(s, marks). length s)") auto

declare copy_unmarked.simps [simp del]

text \<open>Entries, stale bits, whether readers have to check, whether the bits are complete.\<close>

definition snapshot_marked_in :: "bucket \<Rightarrow> u32 list \<times> u64 list \<times> bool \<times> bool" where
  "snapshot_marked_in b = (case b_marks b of Some (ws, exact) \<Rightarrow> (b_data b, ws, b_removed b, exact)
     | None \<Rightarrow> (b_data b, [], b_removed b, False))"

definition read_marked_verify :: "bool \<Rightarrow> bucket \<Rightarrow> u32 list \<times> bool \<times> bool" where
  "read_marked_verify use_marks b = (case snapshot_marked_in b of (s, marks, stale, exact) \<Rightarrow>
     if stale \<and> exact \<and> use_marks then (copy_unmarked s marks, False, True) else (s, stale, stale))"

subsection \<open>Marks\<close>

definition mark_bit :: "u64 list \<Rightarrow> nat \<Rightarrow> bool" where
  "mark_bit ws i \<longleftrightarrow> bit (ws ! (i div 64)) (i mod 64)"

definition unmarked :: "u64 list \<Rightarrow> u32 list \<Rightarrow> u32 list" where
  "unmarked ws s = map snd (filter (\<lambda>(i, e). \<not> mark_bit ws i) (enumerate 0 s))"

definition bucket_ok :: "bucket \<Rightarrow> bool" where
  "bucket_ok b \<longleftrightarrow> length (b_data b) \<le> b_cap b \<and>
     (b_marks b \<noteq> None \<longleftrightarrow> b_marked b \<and> b_cap b > 0) \<and>
     (\<forall>ws exact. b_marks b = Some (ws, exact) \<longrightarrow> length ws = div_ceil (b_cap b) 64 \<and>
       (\<forall>i. length (b_data b) \<le> i \<longrightarrow> i < 64 * length ws \<longrightarrow> \<not> mark_bit ws i))"

lemma div_ceil_covers: "n \<le> 64 * div_ceil n 64"
  by (simp add: div_ceil_def)

lemma drop_bit_and_1: "drop_bit i (m :: u64) AND 1 = 0 \<longleftrightarrow> \<not> bit m i"
  by (simp add: and_one_eq even_drop_bit_iff_not_bit flip: even_iff_mod_2_eq_zero)

lemma copy_unmarked_eq:
  assumes "length s \<le> 64 * length marks"
  shows "copy_unmarked s marks = unmarked marks s"
  using assms
proof (induction s marks rule: copy_unmarked.induct)
  case (1 s marks)
  show ?case
  proof (cases "s = []")
    case False
    then obtain m ms where marks: "marks = m # ms" using "1.prems" by (cases marks) auto
    let ?chunk = "take 64 s"
    have e: "enumerate 0 s = enumerate 0 ?chunk @ enumerate (length ?chunk) (drop 64 s)"
      using enumerate_append_eq[of 0 ?chunk "drop 64 s"] by simp
    have c: "map snd (filter (\<lambda>(i, e). drop_bit i m AND 1 = 0) (enumerate 0 ?chunk)) =
        map snd (filter (\<lambda>(i, e). \<not> mark_bit marks i) (enumerate 0 ?chunk))"
      by (intro arg_cong[where f = "map snd"] filter_cong refl)
        (auto simp: in_set_enumerate_eq marks mark_bit_def drop_bit_and_1)
    have z: "map snd (filter (\<lambda>(i, e). \<not> mark_bit marks i) (enumerate 0 ?chunk)) = ?chunk" if "m = 0"
    proof -
      have "filter (\<lambda>(i, e). \<not> mark_bit marks i) (enumerate 0 ?chunk) = enumerate 0 ?chunk"
        using that by (auto simp: filter_id_conv in_set_enumerate_eq marks mark_bit_def)
      then show ?thesis by simp
    qed
    have "map snd (filter (\<lambda>(i, e). \<not> mark_bit marks i) (enumerate (length ?chunk) (drop 64 s))) = unmarked ms (drop 64 s)"
    proof (cases "64 < length s")
      case True
      have "enumerate 64 (drop 64 s) = map (\<lambda>(i, e). (i + 64, e)) (enumerate 0 (drop 64 s))"
        by (simp add: enumerate_map_upt[symmetric] list_eq_iff_nth_eq nth_enumerate_eq)
      moreover have "(i + 64) div 64 - Suc 0 = i div 64" for i :: nat by simp
      ultimately show ?thesis
        using True by (simp add: unmarked_def filter_map comp_def case_prod_unfold marks mark_bit_def)
    qed (simp add: unmarked_def)
    moreover have "copy_unmarked (drop 64 s) ms = unmarked ms (drop 64 s)"
      using "1.IH"[OF False refl refl] "1.prems" by (simp add: marks)
    ultimately show ?thesis
      using False c z unfolding unmarked_def e filter_append map_append
      by (subst copy_unmarked.simps) (simp add: Let_def marks unmarked_def)
  qed (simp add: copy_unmarked.simps unmarked_def)
qed

lemma next_power_of_two_ge: "n \<le> next_power_of_two n"
proof (cases "n \<le> 1")
  case False
  let ?t = "takeWhile (\<lambda>k. 2 ^ k < n) [0..<n]"
  have lt: "n < 2 ^ n" by (rule less_exp)
  show ?thesis
  proof (cases "length ?t < n")
    case True
    have "\<not> 2 ^ ([0..<n] ! length ?t) < n" using nth_length_takeWhile[of "\<lambda>k. 2 ^ k < n" "[0..<n]"] True by simp
    then show ?thesis using False True by (simp add: next_power_of_two_def)
  next
    case f: False
    have "(2 :: nat) ^ n \<le> 2 ^ length ?t" using f by (intro power_increasing) simp_all
    with lt have "n \<le> 2 ^ length ?t" by (rule less_imp_le[OF order_less_le_trans])
    then show ?thesis using False by (simp add: next_power_of_two_def)
  qed
qed (auto simp: next_power_of_two_def)

lemma bucket_new_ok: "bucket_ok (bucket_with_capacity cap marked)"
  by (auto simp: bucket_ok_def bucket_with_capacity_def new_marks_def mark_bit_def)

lemma mark_bit_zero [simp]: "mark_bit (replicate n 0) i \<longleftrightarrow> False" if "i < 64 * n"
proof -
  have "i div 64 < n" using that by (simp add: less_mult_imp_div_less mult.commute)
  then show ?thesis by (simp add: mark_bit_def)
qed

text \<open>What a push does, with the marks of an entry as a predicate of its position.\<close>

definition marked_at :: "bucket \<Rightarrow> nat \<Rightarrow> bool" where
  "marked_at b i \<longleftrightarrow> (\<exists>ws exact. b_marks b = Some (ws, exact) \<and> i < 64 * length ws \<and> mark_bit ws i)"

definition marks_exact :: "bucket \<Rightarrow> bool" where
  "marks_exact b \<longleftrightarrow> (\<exists>ws. b_marks b = Some (ws, True))"

lemma bucket_okD:
  assumes "bucket_ok b"
  shows "length (b_data b) \<le> b_cap b" "marked_at b i \<Longrightarrow> i < length (b_data b)"
    "b_marks b = Some (ws, exact) \<Longrightarrow> length (b_data b) \<le> 64 * length ws"
  using assms div_ceil_covers[of "b_cap b"] by (auto simp: bucket_ok_def marked_at_def not_less[symmetric])

lemma div_ceil_mono: "a \<le> b \<Longrightarrow> div_ceil a 64 \<le> div_ceil b 64"
  unfolding div_ceil_def by (intro div_le_mono) simp

lemma mark_bit_put_at:
  assumes "length ow \<le> n"
  shows "i < 64 * n \<Longrightarrow> mark_bit (put_at 0 ow (replicate n 0)) i \<longleftrightarrow> i < 64 * length ow \<and> mark_bit ow i"
proof -
  assume "i < 64 * n"
  then have "i div 64 < n" "i div 64 < length ow \<longleftrightarrow> i < 64 * length ow"
    by (auto simp: less_mult_imp_div_less mult.commute div_less_iff_less_mult)
  then show ?thesis using assms by (auto simp: mark_bit_def put_at_def nth_append)
qed

lemma push_in_spec:
  assumes ok: "bucket_ok b" and p: "push_in eid b = (b', l)"
  shows "bucket_ok b'" "l = length (b_data b)" "b_data b' = b_data b @ [eid]" "b_live b' = b_live b"
    "b_removed b' = b_removed b" "b_marked b' = b_marked b" "b_wlen b' = writer_len_of (length (b_data b'))"
    "marked_at b' i \<longleftrightarrow> marked_at b i"
    "marks_exact b' \<longleftrightarrow> (if b_marks b = None then b_marked b \<and> b_data b = [] else marks_exact b)"
proof -
  let ?ncap = "max (b_cap b * 2) INITIAL_CAP"
  let ?nw = "replicate (div_ceil ?ncap 64) (0 :: u64)"
  note o = bucket_okD[OF ok]
  show "l = length (b_data b)" "b_data b' = b_data b @ [eid]" "b_live b' = b_live b"
    "b_removed b' = b_removed b" "b_marked b' = b_marked b" "b_wlen b' = writer_len_of (length (b_data b'))"
    using p by (auto simp: push_in_def Let_def split: if_splits)
  have shape: "(b_cap b' = b_cap b \<and> b_marks b' = b_marks b \<and> length (b_data b) < b_cap b) \<or>
      (length (b_data b) = b_cap b \<and> b_cap b' = ?ncap \<and> b_marks b' = (case b_marks b of
         Some (ow, oe) \<Rightarrow> if b_marked b then Some (put_at 0 ow ?nw, oe) else None
       | None \<Rightarrow> if b_marked b then Some (?nw, True) else None))"
    using p o(1) by (auto simp: push_in_def Let_def new_marks_def split: if_splits option.splits)
  have "bucket_ok b' \<and> (marked_at b' i \<longleftrightarrow> marked_at b i) \<and>
      (marks_exact b' \<longleftrightarrow> (if b_marks b = None then b_marked b \<and> b_data b = [] else marks_exact b))"
    using shape
  proof (elim disjE conjE)
    assume h: "b_cap b' = b_cap b" "b_marks b' = b_marks b" "length (b_data b) < b_cap b"
    have "b_marks b = None \<Longrightarrow> \<not> b_marked b" using h(3) ok by (auto simp: bucket_ok_def)
    then show ?thesis
      using h ok \<open>b_data b' = _\<close> \<open>b_marked b' = _\<close> by (auto simp: bucket_ok_def marked_at_def marks_exact_def)
  next
    assume h: "length (b_data b) = b_cap b" "b_cap b' = ?ncap" "b_marks b' = (case b_marks b of
         Some (ow, oe) \<Rightarrow> if b_marked b then Some (put_at 0 ow ?nw, oe) else None
       | None \<Rightarrow> if b_marked b then Some (?nw, True) else None)"
    have cap: "length (b_data b') \<le> ?ncap" using h(1) \<open>b_data b' = _\<close> by auto
    show ?thesis
    proof (cases "b_marks b")
      case None
      then show ?thesis
        using h ok cap \<open>b_data b' = _\<close> \<open>b_marked b' = _\<close> by (auto simp: bucket_ok_def marked_at_def marks_exact_def)
    next
      case (Some m)
      obtain ow oe where m: "m = (ow, oe)" by (cases m)
      have mk: "b_marked b" "length ow = div_ceil (b_cap b) 64"
        "\<And>i. length (b_data b) \<le> i \<Longrightarrow> i < 64 * length ow \<Longrightarrow> \<not> mark_bit ow i"
        using ok Some m by (auto simp: bucket_ok_def)
      have len: "length ow \<le> div_ceil ?ncap 64" unfolding mk(2) by (intro div_ceil_mono) simp
      have b': "b_marks b' = Some (put_at 0 ow ?nw, oe)" using h(3) Some m mk(1) by simp
      have lw: "length (put_at 0 ow ?nw) = div_ceil ?ncap 64" using len by (simp add: length_put_at)
      note mb = mark_bit_put_at[OF len]
      have "bucket_ok b'"
        using cap h(2) mk mb lw b' \<open>b_data b' = _\<close> \<open>b_marked b' = _\<close> by (auto simp: bucket_ok_def)
      moreover have "marked_at b' i \<longleftrightarrow> marked_at b i"
        using mb[of i] lw len b' Some m by (auto simp: marked_at_def)
      moreover have "marks_exact b' \<longleftrightarrow> marks_exact b" using b' Some m by (simp add: marks_exact_def)
      ultimately show ?thesis using Some by simp
    qed
  qed
  then show "bucket_ok b'" "marked_at b' i \<longleftrightarrow> marked_at b i"
    "marks_exact b' \<longleftrightarrow> (if b_marks b = None then b_marked b \<and> b_data b = [] else marks_exact b)" by blast+
qed

lemma mark_stale_spec:
  assumes ok: "bucket_ok b"
  shows "bucket_ok (bucket_mark_stale at b)" "b_data (bucket_mark_stale at b) = b_data b"
    "b_live (bucket_mark_stale at b) = b_live b" "b_removed (bucket_mark_stale at b) = b_removed b"
    "b_marked (bucket_mark_stale at b) = b_marked b" "b_wlen (bucket_mark_stale at b) = b_wlen b"
    "marks_exact (bucket_mark_stale at b) \<longleftrightarrow> marks_exact b \<and> (\<exists>p e. at = Some (p, e) \<and> p < length (b_data b))"
    "marked_at (bucket_mark_stale at b) i \<longleftrightarrow>
      marked_at b i \<or> b_marks b \<noteq> None \<and> (\<exists>e. at = Some (i, e)) \<and> i < length (b_data b)"
proof -
  show "b_data (bucket_mark_stale at b) = b_data b"
    "b_live (bucket_mark_stale at b) = b_live b" "b_removed (bucket_mark_stale at b) = b_removed b"
    "b_marked (bucket_mark_stale at b) = b_marked b" "b_wlen (bucket_mark_stale at b) = b_wlen b"
    "marks_exact (bucket_mark_stale at b) \<longleftrightarrow> marks_exact b \<and> (\<exists>p e. at = Some (p, e) \<and> p < length (b_data b))"
    by (auto simp: bucket_mark_stale_def marks_exact_def split: option.split prod.split)
  have bits: "mark_bit (ws[p div 64 := ws ! (p div 64) OR push_bit (p mod 64) 1]) j \<longleftrightarrow> mark_bit ws j \<or> j = p"
    if "p < 64 * length ws" for p j and ws :: "u64 list"
  proof -
    have "p div 64 < length ws" using that by (simp add: less_mult_imp_div_less mult.commute)
    moreover have "j = p \<longleftrightarrow> j div 64 = p div 64 \<and> j mod 64 = p mod 64" by (metis div_mult_mod_eq)
    ultimately show ?thesis by (auto simp: mark_bit_def nth_list_update bit_simps)
  qed
  have "bucket_ok (bucket_mark_stale at b) \<and> (marked_at (bucket_mark_stale at b) i \<longleftrightarrow>
      marked_at b i \<or> b_marks b \<noteq> None \<and> (\<exists>e. at = Some (i, e)) \<and> i < length (b_data b))"
  proof (cases "\<exists>ws exact p e. b_marks b = Some (ws, exact) \<and> at = Some (p, e) \<and> p < length (b_data b)")
    case True
    then obtain ws exact p e where h: "b_marks b = Some (ws, exact)" "at = Some (p, e)" "p < length (b_data b)" by blast
    let ?ws = "ws[p div 64 := ws ! (p div 64) OR push_bit (p mod 64) 1]"
    have b': "bucket_mark_stale at b = b\<lparr>b_marks := Some (?ws, exact)\<rparr>" using h by (simp add: bucket_mark_stale_def)
    have len: "p < 64 * length ws" using h bucket_okD(3)[OF ok h(1)] by simp
    have "bucket_ok (b\<lparr>b_marks := Some (?ws, exact)\<rparr>)"
      using ok h bits[OF len] by (auto simp: bucket_ok_def)
    moreover have "marked_at (b\<lparr>b_marks := Some (?ws, exact)\<rparr>) i \<longleftrightarrow> marked_at b i \<or> i = p"
      using bits[OF len, of i] h(1) len by (auto simp: marked_at_def)
    moreover have "i = p \<longleftrightarrow> b_marks b \<noteq> None \<and> (\<exists>e. at = Some (i, e)) \<and> i < length (b_data b)"
      using h by auto
    ultimately show ?thesis unfolding b' by blast
  next
    case False
    then have "bucket_mark_stale at b = b \<and> b_marks b = None \<or>
        (\<exists>ws exact. b_marks b = Some (ws, exact) \<and> bucket_mark_stale at b = b\<lparr>b_marks := Some (ws, False)\<rparr>)"
      by (auto simp: bucket_mark_stale_def split: option.split)
    then show ?thesis
      using ok False by (auto simp: bucket_ok_def marked_at_def)
  qed
  then show "bucket_ok (bucket_mark_stale at b)" "marked_at (bucket_mark_stale at b) i \<longleftrightarrow>
      marked_at b i \<or> b_marks b \<noteq> None \<and> (\<exists>e. at = Some (i, e)) \<and> i < length (b_data b)" by blast+
qed

lemma compact_spec:
  assumes c: "compact_in_placed keep b = (b', live, placed)"
  shows "bucket_ok b'" "b_data b' = sorted_list_of_set {e \<in> set (b_data b). keep e}" "b_live b' = length (b_data b')"
    "\<not> b_removed b'" "\<not> marked_at b' i" "b_marked b' = b_marked b" "live = length (b_data b')"
    "b_wlen b' = writer_len_of (length (b_data b'))" "marks_exact b' \<longleftrightarrow> b_marked b"
    "placed = zip (b_data b') [0..<length (b_data b')]"
proof -
  let ?kept = "dedup_sorted (filter keep (b_data b))"
  let ?cap = "max (next_power_of_two (length ?kept)) INITIAL_CAP"
  have b': "b' = b\<lparr>b_data := ?kept, b_cap := ?cap, b_marks := new_marks (b_marked b) ?cap, b_live := length ?kept,
            b_wlen := writer_len_of (length ?kept), b_verified := 0xFFFFFFFFFFFFFFFF, b_rereads := 0, b_removed := False\<rparr>"
    and r: "live = length ?kept" "placed = zip ?kept [0..<length ?kept]"
    using c unfolding compact_in_placed_def Let_def by auto
  show "b_data b' = sorted_list_of_set {e \<in> set (b_data b). keep e}" by (simp add: b' dedup_sorted_eq)
  show "b_live b' = length (b_data b')" "\<not> b_removed b'" "b_marked b' = b_marked b" "live = length (b_data b')"
    "b_wlen b' = writer_len_of (length (b_data b'))" "placed = zip (b_data b') [0..<length (b_data b')]"
    by (simp_all add: b' r)
  show "marks_exact b' \<longleftrightarrow> b_marked b" by (auto simp: b' marks_exact_def new_marks_def)
  show "\<not> marked_at b' i" by (auto simp: b' marked_at_def new_marks_def)
  have "n \<le> next_power_of_two n" for n by (rule next_power_of_two_ge)
  then have "length ?kept \<le> ?cap" by (simp add: le_max_iff_disj)
  then show "bucket_ok b'" by (auto simp: b' bucket_ok_def new_marks_def)
qed

lemma note_stale_spec:
  assumes "bucket_note_stale b = (b', r)"
  shows "b_data b' = b_data b" "b_removed b'" "b_live b' = b_live b - 1" "b_marked b' = b_marked b" "b_marks b' = b_marks b"
    "b_cap b' = b_cap b" "b_wlen b' = b_wlen b" "r = (if b_live b = 0 then None else Some (b_live b))"
  using assms by (auto simp: bucket_note_stale_def Let_def split: if_splits)

lemma same_marks:
  assumes "b_marks b' = b_marks b" "b_data b' = b_data b" "b_cap b' = b_cap b" "b_marked b' = b_marked b"
  shows "bucket_ok b' = bucket_ok b" "marked_at b' = marked_at b" "marks_exact b' = marks_exact b"
  using assms by (simp_all add: bucket_ok_def marked_at_def marks_exact_def fun_eq_iff)

lemma read_marked_spec:
  assumes "bucket_ok b"
  shows "read_marked_verify use_marks b = (
    if b_removed b \<and> marks_exact b \<and> use_marks
    then (map snd (filter (\<lambda>(i, e). \<not> marked_at b i) (enumerate 0 (b_data b))), False, True)
    else (b_data b, b_removed b, b_removed b))"
proof (cases "b_marks b")
  case (Some m)
  obtain ws exact where m: "m = (ws, exact)" by (cases m)
  have len: "length (b_data b) \<le> 64 * length ws" using bucket_okD(3)[OF assms] Some m by blast
  have "filter (\<lambda>(i, e). \<not> mark_bit ws i) (enumerate 0 (b_data b)) = filter (\<lambda>(i, e). \<not> marked_at b i) (enumerate 0 (b_data b))"
    using len by (intro filter_cong refl) (auto simp: in_set_enumerate_eq marked_at_def Some m)
  then show ?thesis
    using Some m len
    by (simp add: read_marked_verify_def snapshot_marked_in_def marks_exact_def copy_unmarked_eq unmarked_def)
qed (simp add: read_marked_verify_def snapshot_marked_in_def marks_exact_def)

end
