(* ===== verification/Sparse_Runs.thy ===== *)
theory Sparse_Runs
  imports Prelude "HOL-Library.Multiset" "HOL-Library.Product_Lexorder"
begin

text \<open>
  The index of scattered values (\<^verbatim>\<open>SparseRuns\<close> in
  \<^verbatim>\<open>crates/enchudb-engine/src/sparse_runs.rs\<close>): sorted runs of (value, id) entries, the largest
  first, and a small sorted delta that becomes a run when it is full. The two parallel
  vectors of a run (values and ids) are one list of pairs. Entries are never taken out when a
  value changes; readers check them against the column and a rebuild drops them.

  The lemmas show that the runs stay sorted and together hold exactly the entries put in,
  that the binary searches and the multi-way walk agree with filters over all entries, and
  that the number of runs is logarithmic in the number of entries.
\<close>

section \<open>Runs\<close>

type_synonym entry_pair = "u64 \<times> u32"
type_synonym run = "entry_pair list"

abbreviation DELTA_CAP :: nat where
  "DELTA_CAP \<equiv> 64"

abbreviation FANOUT :: nat where
  "FANOUT \<equiv> 4"

text \<open>\<^verbatim>\<open>slice::partition_point\<close> on a slice that is partitioned by the predicate.\<close>

definition partition_point :: "('a \<Rightarrow> bool) \<Rightarrow> 'a list \<Rightarrow> nat" where
  "partition_point P xs = length (takeWhile P xs)"

definition run_span :: "u64 \<Rightarrow> u64 \<Rightarrow> run \<Rightarrow> nat \<times> nat" where
  "run_span lo hi r = (
     if r = [] then (0, 0)
     else let a = (if lo \<le> fst (hd r) then 0 else partition_point (\<lambda>v. v < lo) (map fst r));
              b = (if hi \<ge> fst (last r) then length r else partition_point (\<lambda>v. v \<le> hi) (map fst r))
          in (a, max b a))"

fun run_merge :: "'a::linorder list \<Rightarrow> 'a list \<Rightarrow> 'a list" where
  "run_merge [] b = b"
| "run_merge a [] = a"
| "run_merge (x # a) (y # b) = (if x \<le> y then x # run_merge a (y # b) else y # run_merge (x # a) b)"

record run_set =
  rs_runs :: "run list"
  rs_delta :: run

definition rs_all :: "run_set \<Rightarrow> run list" where
  "rs_all rs = rs_runs rs @ [rs_delta rs]"

definition rs_empty :: run_set where
  "rs_empty = \<lparr>rs_runs = [], rs_delta = []\<rparr>"

definition rs_len :: "run_set \<Rightarrow> nat" where
  "rs_len rs = sum_list (map length (rs_all rs))"

definition build_from :: "entry_pair list \<Rightarrow> run_set \<Rightarrow> run_set" where
  "build_from pairs rs = (if pairs = [] then rs else \<lparr>rs_runs = [sort pairs], rs_delta = []\<rparr>)"

definition delta_insert :: "u64 \<Rightarrow> u32 \<Rightarrow> run \<Rightarrow> run" where
  "delta_insert v e d =
     (let at0 = partition_point (\<lambda>x. x < v) (map fst d);
          at = at0 + length (takeWhile (\<lambda>p. fst p = v \<and> snd p < e) (drop at0 d))
      in take at d @ (v, e) # drop at d)"

text \<open>The promotion of a full delta: runs that are not four times as long are merged into it.\<close>

function promote :: "run list \<Rightarrow> run \<Rightarrow> run list" where
  "promote runs r = (
     if runs \<noteq> [] \<and> length (last runs) < FANOUT * length r
     then promote (butlast runs) (run_merge (last runs) r) else runs @ [r])"
  by pat_completeness auto

termination
  by (relation "measure (\<lambda>(runs, r). length runs)") auto

declare promote.simps [simp del]

definition rs_insert :: "u64 \<Rightarrow> u32 \<Rightarrow> run_set \<Rightarrow> run_set" where
  "rs_insert v e rs =
     (let delta = delta_insert v e (rs_delta rs)
      in if length delta \<ge> DELTA_CAP
         then \<lparr>rs_runs = promote (rs_runs rs) delta, rs_delta = []\<rparr>
         else rs\<lparr>rs_delta := delta\<rparr>)"

definition run_lookup :: "u64 \<Rightarrow> run \<Rightarrow> u32 list" where
  "run_lookup v r = map snd (takeWhile (\<lambda>p. fst p = v) (drop (partition_point (\<lambda>x. x < v) (map fst r)) r))"

definition rs_lookup :: "u64 \<Rightarrow> run_set \<Rightarrow> u32 list" where
  "rs_lookup v rs = concat (map (run_lookup v) (rs_all rs))"

definition run_part :: "u64 \<Rightarrow> u64 \<Rightarrow> run \<Rightarrow> run" where
  "run_part lo hi r = (case run_span lo hi r of (a, b) \<Rightarrow> slice a b r)"

definition rs_range :: "u64 \<Rightarrow> u64 \<Rightarrow> run_set \<Rightarrow> u32 list" where
  "rs_range lo hi rs = concat (map (\<lambda>r. map snd (run_part lo hi r)) (rs_all rs))"

definition range_pairs :: "u64 \<Rightarrow> u64 \<Rightarrow> run_set \<Rightarrow> entry_pair list" where
  "range_pairs lo hi rs = concat (map (run_part lo hi) (rs_all rs))"

definition count_in :: "u64 \<Rightarrow> u64 \<Rightarrow> run_set \<Rightarrow> nat" where
  "count_in lo hi rs = sum_list (map (\<lambda>r. case run_span lo hi r of (a, b) \<Rightarrow> b - a) (rs_all rs))"

definition rs_values :: "run_set \<Rightarrow> u64 list" where
  "rs_values rs = remdups_adj (sort (concat (map (map fst) (rs_all rs))))"

definition rs_rebuild :: "(entry_pair \<Rightarrow> bool) \<Rightarrow> run_set \<Rightarrow> run_set \<times> nat" where
  "rs_rebuild keep rs =
     (let all = foldl run_merge [] (rs_all rs);
          out = map snd (filter (\<lambda>(i, p). \<not> (i > 0 \<and> all ! (i - 1) = p) \<and> keep p) (enumerate 0 all))
      in (\<lparr>rs_runs = (if out = [] then [] else [out]), rs_delta = []\<rparr>, length all - length out))"

section \<open>Reading a snapshot\<close>

definition snap_spans :: "u64 \<Rightarrow> u64 \<Rightarrow> run_set \<Rightarrow> u32 list list" where
  "snap_spans lo hi rs = (if lo > hi then [] else filter (\<lambda>s. s \<noteq> []) (map (\<lambda>r. map snd (run_part lo hi r)) (rs_all rs)))"

definition snap_for_each_in :: "u64 \<Rightarrow> u64 \<Rightarrow> run_set \<Rightarrow> entry_pair list" where
  "snap_for_each_in lo hi rs = (if lo > hi then [] else concat (map (run_part lo hi) (rs_all rs)))"

definition snap_count_in :: "u64 \<Rightarrow> u64 \<Rightarrow> run_set \<Rightarrow> nat" where
  "snap_count_in lo hi rs = (if lo > hi then 0 else count_in lo hi rs)"

text \<open>
  The walk in the order of the values. The state is what is left of every run; each round takes
  the next value off all of them. The consumer may stop after any prefix of the result.
\<close>

definition next_value :: "bool \<Rightarrow> run list \<Rightarrow> u64 option" where
  "next_value desc left =
     (let live = filter (\<lambda>r. r \<noteq> []) left
      in if live = [] then None
         else Some (if desc then Max (set (map (\<lambda>r. fst (last r)) live)) else Min (set (map (\<lambda>r. fst (hd r)) live))))"

definition take_value :: "bool \<Rightarrow> u64 \<Rightarrow> run \<Rightarrow> u32 list \<times> run" where
  "take_value desc v r = (
     if desc
     then (map snd (rev (takeWhile (\<lambda>p. fst p = v) (rev r))), rev (dropWhile (\<lambda>p. fst p = v) (rev r)))
     else (map snd (takeWhile (\<lambda>p. fst p = v) r), dropWhile (\<lambda>p. fst p = v) r))"

lemma next_value_shrinks:
  assumes "next_value desc left = Some v"
  shows "sum_list (map (\<lambda>r. length (snd (take_value desc v r))) left) < sum_list (map length left)"
proof -
  define live where "live = filter (\<lambda>r. r \<noteq> []) left"
  let ?ends = "map (\<lambda>r. if desc then fst (last r) else fst (hd r)) live"
  have ne: "live \<noteq> []" and v: "v = (if desc then Max (set ?ends) else Min (set ?ends))"
    using assms by (auto simp: next_value_def live_def Let_def split: if_splits)
  then have "v \<in> set ?ends" using Max_in[of "set ?ends"] Min_in[of "set ?ends"] by auto
  then obtain r where r: "r \<in> set left" "r \<noteq> []" "v = (if desc then fst (last r) else fst (hd r))"
    by (cases desc) (auto simp: live_def)
  have le: "length (snd (take_value desc v x)) \<le> length x" for x
    using length_dropWhile_le[of "\<lambda>p. fst p = v" "rev x"] by (simp add: take_value_def length_dropWhile_le)
  have "length (snd (take_value desc v r)) < length r"
  proof (cases desc)
    case True
    obtain ys y where "r = ys @ [y]" using r(2) by (cases r rule: rev_cases) auto
    then show ?thesis using True r(3) length_dropWhile_le[of "\<lambda>p. fst p = v" "rev ys"] by (simp add: take_value_def)
  next
    case False
    obtain y ys where "r = y # ys" using r(2) by (cases r) auto
    then show ?thesis using False r(3) length_dropWhile_le[of "\<lambda>p. fst p = v" ys] by (simp add: take_value_def)
  qed
  then show ?thesis
    using r(1) le by (induction left) (auto intro: add_less_le_mono add_le_less_mono sum_list_mono)
qed

function walk_loop :: "bool \<Rightarrow> run list \<Rightarrow> (u64 \<times> u32 list) list" where
  "walk_loop desc left = (case next_value desc left of None \<Rightarrow> []
     | Some v \<Rightarrow> (v, concat (map (\<lambda>r. fst (take_value desc v r)) left)) #
         walk_loop desc (map (\<lambda>r. snd (take_value desc v r)) left))"
  by pat_completeness auto

termination
  by (relation "measure (\<lambda>(desc, left). sum_list (map length left))")
    (auto simp: comp_def dest: next_value_shrinks)

declare walk_loop.simps [simp del]

definition snap_walk :: "u64 \<Rightarrow> u64 \<Rightarrow> bool \<Rightarrow> run_set \<Rightarrow> (u64 \<times> u32 list) list" where
  "snap_walk lo hi desc rs = (if lo > hi then [] else walk_loop desc (filter (\<lambda>r. r \<noteq> []) (map (run_part lo hi) (rs_all rs))))"

section \<open>Sorted runs\<close>

definition rs_entries :: "run_set \<Rightarrow> entry_pair list" where
  "rs_entries rs = concat (rs_all rs)"

definition rs_ok :: "run_set \<Rightarrow> bool" where
  "rs_ok rs \<longleftrightarrow> (\<forall>r \<in> set (rs_all rs). sorted r)"

lemma sorted_fst: "sorted (r :: run) \<Longrightarrow> sorted (map fst r)"
  by (induction r) (auto simp: less_eq_prod_def)

lemma takeWhile_sorted:
  assumes "sorted (map f r)" "\<And>a b. a \<le> b \<Longrightarrow> P b \<Longrightarrow> P a"
  shows "takeWhile (\<lambda>x. P (f x)) r = filter (\<lambda>x. P (f x)) r"
  using assms(1)
proof (induction r)
  case (Cons x r)
  then have "\<not> P (f x) \<Longrightarrow> filter (\<lambda>x. P (f x)) r = []" using assms(2) by (auto simp: filter_empty_conv)
  then show ?case using Cons by simp
qed simp

lemma dropWhile_sorted:
  assumes "sorted (map f r)" "\<And>a b. a \<le> b \<Longrightarrow> P b \<Longrightarrow> P a"
  shows "dropWhile (\<lambda>x. P (f x)) r = filter (\<lambda>x. \<not> P (f x)) r"
  using assms(1)
proof (induction r)
  case (Cons x r)
  then have "\<not> P (f x) \<Longrightarrow> filter (\<lambda>x. \<not> P (f x)) r = r" using assms(2) by (auto simp: filter_id_conv)
  then show ?case using Cons by simp
qed simp

lemma length_takeWhile_map: "length (takeWhile P (map f r)) = length (takeWhile (\<lambda>x. P (f x)) r)"
  by (simp add: takeWhile_map comp_def)

lemma run_part_filter:
  assumes "sorted (r :: run)"
  shows "run_part lo hi r = filter (\<lambda>p. lo \<le> fst p \<and> fst p \<le> hi) r"
proof (cases "r = []")
  case False
  note fs = sorted_fst[OF assms]
  let ?a = "length (takeWhile (\<lambda>p. fst p < lo) r)" and ?b = "length (takeWhile (\<lambda>p. fst p \<le> hi) r)"
  have a: "(if lo \<le> fst (hd r) then 0 else partition_point (\<lambda>v. v < lo) (map fst r)) = ?a"
  proof (cases "lo \<le> fst (hd r)")
    case True
    then have "takeWhile (\<lambda>p. fst p < lo) r = []" using False by (cases r) (simp_all add: leD)
    then show ?thesis using True by simp
  qed (simp add: partition_point_def length_takeWhile_map)
  have "fst p \<le> fst (last r)" if "p \<in> set r" for p
    using that sorted_nth_mono[OF fs, of _ "length r - 1"] False by (auto simp: in_set_conv_nth last_conv_nth)
  then have "takeWhile (\<lambda>p. fst p \<le> hi) r = r" if "hi \<ge> fst (last r)"
    using that order_trans[of "fst _" "fst (last r)" hi] by (simp only: takeWhile_eq_all_conv) blast
  then have b: "(if hi \<ge> fst (last r) then length r else partition_point (\<lambda>v. v \<le> hi) (map fst r)) = ?b"
    unfolding partition_point_def length_takeWhile_map by (metis (lifting))
  have "run_part lo hi r = slice ?a (max ?b ?a) r"
    using False unfolding run_part_def run_span_def Let_def a b by simp
  also have "\<dots> = drop ?a (take ?b r)" by (cases "?a \<le> ?b") (simp_all add: slice_drop_take max_absorb1 max_absorb2)
  also have "take ?b r = filter (\<lambda>p. fst p \<le> hi) r"
  proof -
    have "takeWhile (\<lambda>p. fst p \<le> hi) r = filter (\<lambda>p. fst p \<le> hi) r" by (rule takeWhile_sorted[OF fs]) simp
    then show ?thesis by (metis takeWhile_eq_take)
  qed
  also have "drop ?a \<dots> = filter (\<lambda>p. \<not> fst p < lo) (filter (\<lambda>p. fst p \<le> hi) r)"
  proof (cases "lo \<le> hi")
    case True
    have "sorted (map fst (filter (\<lambda>p. fst p \<le> hi) r))" by (rule sorted_filter[OF fs])
    then have "dropWhile (\<lambda>p. fst p < lo) (filter (\<lambda>p. fst p \<le> hi) r) = filter (\<lambda>p. \<not> fst p < lo) (filter (\<lambda>p. fst p \<le> hi) r)"
      "takeWhile (\<lambda>p. fst p < lo) (filter (\<lambda>p. fst p \<le> hi) r) = filter (\<lambda>p. fst p < lo) (filter (\<lambda>p. fst p \<le> hi) r)"
      by (intro dropWhile_sorted takeWhile_sorted; simp)+
    moreover have "filter (\<lambda>p. fst p < lo) (filter (\<lambda>p. fst p \<le> hi) r) = filter (\<lambda>p. fst p < lo) r"
      unfolding filter_filter using True by (intro filter_cong) auto
    moreover have "takeWhile (\<lambda>p. fst p < lo) r = filter (\<lambda>p. fst p < lo) r"
      by (rule takeWhile_sorted[OF fs]) simp
    ultimately show ?thesis by (simp only: dropWhile_eq_drop)
  next
    case False
    have "filter (\<lambda>p. fst p \<le> hi) r = filter (\<lambda>p. fst p \<le> hi) (filter (\<lambda>p. fst p < lo) r)"
      unfolding filter_filter using False by (intro filter_cong) auto
    moreover have "takeWhile (\<lambda>p. fst p < lo) r = filter (\<lambda>p. fst p < lo) r"
      by (rule takeWhile_sorted[OF fs]) simp
    ultimately have "length (filter (\<lambda>p. fst p \<le> hi) r) \<le> ?a" by (metis length_filter_le)
    moreover have "filter (\<lambda>p. \<not> fst p < lo) (filter (\<lambda>p. fst p \<le> hi) r) = []" using False by (auto simp: filter_empty_conv)
    ultimately show ?thesis by simp
  qed
  finally show ?thesis by (simp add: conj_commute not_less)
qed (simp add: run_part_def run_span_def)

lemma run_lookup_filter:
  assumes "sorted (r :: run)"
  shows "run_lookup v r = map snd (filter (\<lambda>p. fst p = v) r)"
proof -
  note fs = sorted_fst[OF assms]
  have d: "drop (partition_point (\<lambda>x. x < v) (map fst r)) r = filter (\<lambda>p. v \<le> fst p) r"
  proof -
    have "dropWhile (\<lambda>p. fst p < v) r = filter (\<lambda>p. \<not> fst p < v) r" by (rule dropWhile_sorted[OF fs]) simp
    then show ?thesis
      by (simp only: partition_point_def length_takeWhile_map dropWhile_eq_drop[symmetric] not_less)
  qed
  have "sorted (map fst (filter (\<lambda>p. v \<le> fst p) r))" by (rule sorted_filter[OF fs])
  then have "takeWhile (\<lambda>p. fst p \<le> v) (filter (\<lambda>p. v \<le> fst p) r) = filter (\<lambda>p. fst p \<le> v) (filter (\<lambda>p. v \<le> fst p) r)"
    by (rule takeWhile_sorted) simp
  moreover have "takeWhile (\<lambda>p. fst p \<le> v) (filter (\<lambda>p. v \<le> fst p) r) = takeWhile (\<lambda>p. fst p = v) (filter (\<lambda>p. v \<le> fst p) r)"
    by (rule takeWhile_cong) (simp_all add: order_eq_iff)
  moreover have "filter (\<lambda>p. fst p \<le> v) (filter (\<lambda>p. v \<le> fst p) r) = filter (\<lambda>p. fst p = v) r"
    unfolding filter_filter by (rule filter_cong) (simp_all add: order_eq_iff conj_commute)
  ultimately show ?thesis by (simp add: run_lookup_def d)
qed

lemma mset_run_merge [simp]: "mset (run_merge a b) = mset a + mset b"
  by (induction a b rule: run_merge.induct) simp_all

lemma set_run_merge [simp]: "set (run_merge a b) = set a \<union> set b"
  by (metis mset_run_merge set_mset_mset set_mset_union)

lemma sorted_run_merge: "sorted a \<Longrightarrow> sorted b \<Longrightarrow> sorted (run_merge a b)"
  by (induction a b rule: run_merge.induct) (auto intro: order_trans dest: less_imp_le simp: not_le)

lemma length_run_merge [simp]: "length (run_merge a b) = length a + length b"
  by (metis mset_run_merge size_mset size_union)

lemma insort_split: "insort x xs = takeWhile (\<lambda>y. y < x) xs @ x # dropWhile (\<lambda>y. y < x) xs"
  by (induction xs) auto

lemma delta_insert_insort:
  assumes "sorted (d :: run)"
  shows "delta_insert v e d = insort (v, e) d"
proof -
  let ?at0 = "partition_point (\<lambda>x. x < v) (map fst d)"
  have "?at0 + length (takeWhile (\<lambda>p. fst p = v \<and> snd p < e) (drop ?at0 d)) = length (takeWhile (\<lambda>p. p < (v, e)) d)"
    using assms
  proof (induction d)
    case (Cons p d)
    show ?case
    proof (cases "fst p < v")
      case True
      then show ?thesis using Cons by (auto simp: partition_point_def less_prod_def)
    next
      case False
      have "takeWhile (\<lambda>q. fst q = v \<and> snd q < e) (p # d) = takeWhile (\<lambda>q. q < (v, e)) (p # d)"
        using False Cons.prems by (intro takeWhile_cong) (auto simp: less_prod_def less_eq_prod_def)
      then show ?thesis using False by (simp add: partition_point_def)
    qed
  qed (simp add: partition_point_def)
  then show ?thesis
    by (simp add: delta_insert_def Let_def insort_split takeWhile_eq_take[symmetric] dropWhile_eq_drop)
qed

lemma promote_keeps:
  assumes "\<forall>r \<in> set runs. sorted r" "sorted r"
  shows "\<forall>r' \<in> set (promote runs r). sorted r'" "mset (concat (promote runs r)) = mset (concat runs) + mset r"
  using assms
proof (induction runs r rule: promote.induct)
  case (1 runs r)
  {
    case 1
    then show ?case
      using "1.IH" by (subst promote.simps) (auto simp: sorted_run_merge dest: in_set_butlastD split: if_splits)
  next
    case 2
    have "concat runs = concat (butlast runs) @ last runs" if "runs \<noteq> []"
      using that by (cases runs rule: rev_cases) simp_all
    moreover have "\<forall>r \<in> set (butlast runs). sorted r" "runs \<noteq> [] \<Longrightarrow> sorted (run_merge (last runs) r)"
      using 2 by (auto simp: sorted_run_merge dest: in_set_butlastD)
    ultimately show ?case
      using "1.IH"(2) by (subst promote.simps) (simp add: add.assoc)
  }
qed

lemma rs_empty_ok: "rs_ok rs_empty" "rs_entries rs_empty = []"
  by (simp_all add: rs_ok_def rs_entries_def rs_all_def rs_empty_def)

lemma rs_insert_ok:
  assumes "rs_ok rs"
  shows "rs_ok (rs_insert v e rs)" "mset (rs_entries (rs_insert v e rs)) = add_mset (v, e) (mset (rs_entries rs))"
proof -
  have "sorted (rs_delta rs)" "\<forall>r \<in> set (rs_runs rs). sorted r" using assms by (auto simp: rs_ok_def rs_all_def)
  then show "rs_ok (rs_insert v e rs)" "mset (rs_entries (rs_insert v e rs)) = add_mset (v, e) (mset (rs_entries rs))"
    using promote_keeps[of "rs_runs rs" "insort (v, e) (rs_delta rs)"]
    by (auto simp: rs_insert_def rs_ok_def rs_all_def rs_entries_def Let_def delta_insert_insort sorted_insort)
qed

lemma build_from_ok:
  assumes "rs_ok rs" "rs_entries rs = []"
  shows "rs_ok (build_from pairs rs)" "mset (rs_entries (build_from pairs rs)) = mset pairs"
  using assms by (auto simp: build_from_def rs_ok_def rs_all_def rs_entries_def)

lemma rs_len_entries: "rs_len rs = length (rs_entries rs)"
  by (simp add: rs_len_def rs_entries_def length_concat)

lemma concat_filter: "concat (map (filter P) xss) = filter P (concat xss)"
  by (induction xss) simp_all

lemma rs_lookup_filter: "rs_ok rs \<Longrightarrow> rs_lookup v rs = map snd (filter (\<lambda>p. fst p = v) (rs_entries rs))"
proof -
  assume "rs_ok rs"
  then have "map (run_lookup v) (rs_all rs) = map (map snd) (map (filter (\<lambda>p. fst p = v)) (rs_all rs))"
    by (auto simp: rs_ok_def run_lookup_filter)
  then show ?thesis
    by (simp only: rs_lookup_def rs_entries_def map_concat[symmetric] concat_filter)
qed

lemma range_pairs_filter:
  "rs_ok rs \<Longrightarrow> range_pairs lo hi rs = filter (\<lambda>p. lo \<le> fst p \<and> fst p \<le> hi) (rs_entries rs)"
proof -
  assume "rs_ok rs"
  then have "map (run_part lo hi) (rs_all rs) = map (filter (\<lambda>p. lo \<le> fst p \<and> fst p \<le> hi)) (rs_all rs)"
    by (auto simp: rs_ok_def run_part_filter)
  then show ?thesis by (simp only: range_pairs_def rs_entries_def concat_filter)
qed

lemma rs_range_filter:
  "rs_ok rs \<Longrightarrow> rs_range lo hi rs = map snd (filter (\<lambda>p. lo \<le> fst p \<and> fst p \<le> hi) (rs_entries rs))"
  using range_pairs_filter[of rs lo hi]
  by (simp add: rs_range_def range_pairs_def map_concat comp_def flip: range_pairs_filter)

lemma count_in_filter:
  assumes "rs_ok rs"
  shows "count_in lo hi rs = length (filter (\<lambda>p. lo \<le> fst p \<and> fst p \<le> hi) (rs_entries rs))"
proof -
  have le: "snd (run_span lo hi r) \<le> length r" for r
    by (auto simp: run_span_def Let_def partition_point_def length_takeWhile_map length_takeWhile_le)
  have "(case run_span lo hi r of (a, b) \<Rightarrow> b - a) = length (run_part lo hi r)" for r
    using le[of r] by (auto simp: run_part_def length_slice split: prod.splits)
  then have "count_in lo hi rs = length (range_pairs lo hi rs)"
    by (simp add: count_in_def range_pairs_def length_concat comp_def)
  then show ?thesis by (simp add: range_pairs_filter[OF assms])
qed

lemma keep_new_entries:
  assumes "ys \<noteq> []"
  shows "map snd (filter (\<lambda>(i, p). \<not> (i > 0 \<and> (ys @ xs) ! (i - 1) = p) \<and> keep p) (enumerate (length ys) xs)) =
    filter keep (tl (remdups_adj (last ys # xs)))"
  using assms
proof (induction xs arbitrary: ys)
  case (Cons x xs)
  have "(ys @ x # xs) ! (length ys - 1) = last ys"
    using Cons.prems by (simp add: nth_append last_conv_nth)
  moreover have "map snd (filter (\<lambda>(i, p). \<not> (i > 0 \<and> (ys @ x # xs) ! (i - 1) = p) \<and> keep p) (enumerate (Suc (length ys)) xs)) =
      filter keep (tl (remdups_adj (x # xs)))"
    using Cons.IH[of "ys @ [x]"] by simp
  moreover obtain rest where "remdups_adj (x # xs) = x # rest"
    by (metis remdups_adj_Cons_alt)
  ultimately show ?case
    using Cons.prems by (simp del: remdups_adj.simps(1,2) add: remdups_adj.simps(3))
qed simp

lemma keep_entries:
  "map snd (filter (\<lambda>(i, p). \<not> (i > 0 \<and> all ! (i - 1) = p) \<and> keep p) (enumerate 0 all)) = filter keep (remdups_adj all)"
proof (cases all)
  case (Cons x xs)
  have "map snd (filter (\<lambda>(i, p). \<not> (i > 0 \<and> (x # xs) ! (i - 1) = p) \<and> keep p) (enumerate (Suc 0) xs)) =
      filter keep (tl (remdups_adj (x # xs)))"
    using keep_new_entries[of "[x]" xs keep] by simp
  moreover obtain rest where "remdups_adj (x # xs) = x # rest"
    by (metis remdups_adj_Cons_alt)
  ultimately show ?thesis
    by (simp add: Cons)
qed simp

lemma distinct_remdups_sorted: "sorted xs \<Longrightarrow> distinct (remdups_adj xs)"
proof (induction xs rule: remdups_adj.induct)
  case (3 x y xs)
  then have "x \<noteq> y \<Longrightarrow> x \<notin> set (y # xs)" by auto
  then show ?case using 3 by simp
qed simp_all

lemma merge_all:
  assumes "\<forall>r \<in> set rs. sorted r" "sorted a"
  shows "sorted (foldl run_merge a rs)" "mset (foldl run_merge a rs) = mset a + mset (concat rs)"
  using assms by (induction rs arbitrary: a) (simp_all add: sorted_run_merge)

lemma rs_rebuild_ok:
  assumes "rs_ok rs" "rs_rebuild keep rs = (rs', removed)"
  shows "rs_ok rs'" "distinct (rs_entries rs')" "set (rs_entries rs') = {p \<in> set (rs_entries rs). keep p}"
    "removed = length (rs_entries rs) - length (rs_entries rs')" "length (rs_entries rs') \<le> length (rs_entries rs)"
proof -
  let ?all = "foldl run_merge [] (rs_all rs)"
  have all: "sorted ?all" "mset ?all = mset (rs_entries rs)"
    using merge_all[of "rs_all rs" "[]"] assms(1) by (simp_all add: rs_ok_def rs_entries_def)
  have rs': "rs_entries rs' = filter keep (remdups_adj ?all)" "rs_all rs' = (if filter keep (remdups_adj ?all) = [] then [[]] else [filter keep (remdups_adj ?all), []])"
    "removed = length ?all - length (filter keep (remdups_adj ?all))"
  proof -
    have "(\<lparr>rs_runs = (if filter keep (remdups_adj ?all) = [] then [] else [filter keep (remdups_adj ?all)]), rs_delta = []\<rparr>,
        length ?all - length (filter keep (remdups_adj ?all))) = (rs', removed)"
      using assms(2) unfolding rs_rebuild_def Let_def keep_entries .
    then show "rs_entries rs' = filter keep (remdups_adj ?all)"
      "rs_all rs' = (if filter keep (remdups_adj ?all) = [] then [[]] else [filter keep (remdups_adj ?all), []])"
      "removed = length ?all - length (filter keep (remdups_adj ?all))"
      by (auto simp: rs_entries_def rs_all_def)
  qed
  have "sorted (filter keep (remdups_adj ?all))"
    using sorted_wrt_filter all(1) sorted_remdups_adj by blast
  then show "rs_ok rs'" by (simp add: rs_ok_def rs'(2))
  show "distinct (rs_entries rs')"
    unfolding rs'(1) using all(1) by (simp add: distinct_remdups_sorted)
  show "set (rs_entries rs') = {p \<in> set (rs_entries rs). keep p}"
    using mset_eq_setD[OF all(2)] by (auto simp: rs'(1))
  have "length (remdups_adj ?all) \<le> length (rs_entries rs)"
    using remdups_adj_length[of ?all] mset_eq_length[OF all(2)] by simp
  then show "removed = length (rs_entries rs) - length (rs_entries rs')" "length (rs_entries rs') \<le> length (rs_entries rs)"
    using mset_eq_length[OF all(2)] order_trans[OF length_filter_le[of keep "remdups_adj ?all"]] by (simp_all add: rs')
qed

section \<open>The number of runs\<close>

definition runs_spread :: "run_set \<Rightarrow> bool" where
  "runs_spread rs \<longleftrightarrow> successively (\<lambda>a b. FANOUT * length b \<le> length a) (rs_runs rs) \<and> (\<forall>r \<in> set (rs_runs rs). r \<noteq> [])"

lemma promote_spread:
  assumes "successively (\<lambda>a b. FANOUT * length b \<le> length a) runs" "\<forall>r \<in> set runs. r \<noteq> []" "r \<noteq> []"
  shows "successively (\<lambda>a b. FANOUT * length b \<le> length a) (promote runs r) \<and> (\<forall>r' \<in> set (promote runs r). r' \<noteq> [])"
  using assms
proof (induction runs r rule: promote.induct)
  case (1 runs r)
  show ?case
  proof (cases "runs \<noteq> [] \<and> length (last runs) < FANOUT * length r")
    case True
    have "successively (\<lambda>a b. FANOUT * length b \<le> length a) (butlast runs)"
      using "1.prems"(1) True by (cases runs rule: rev_cases) (simp_all add: successively_append_iff)
    moreover have "run_merge (last runs) r \<noteq> []"
      using "1.prems"(3) by (metis length_0_conv length_run_merge add_is_0)
    ultimately show ?thesis
      using "1.IH"[OF True] "1.prems"(2) True by (subst (1 2) promote.simps) (auto dest: in_set_butlastD)
  next
    case False
    then show ?thesis
      using "1.prems" by (subst (1 2) promote.simps) (auto simp: successively_append_iff not_less)
  qed
qed

lemma rs_insert_spread: "runs_spread rs \<Longrightarrow> runs_spread (rs_insert v e rs)"
  using promote_spread[of "rs_runs rs" "delta_insert v e (rs_delta rs)"]
  by (auto simp: runs_spread_def rs_insert_def Let_def delta_insert_def)

lemma rs_rebuild_spread: "runs_spread (fst (rs_rebuild keep rs))" "runs_spread rs_empty"
  "runs_spread rs \<Longrightarrow> runs_spread (build_from pairs rs)"
proof -
  show "runs_spread (build_from pairs rs)" if "runs_spread rs"
    using that by (auto simp: runs_spread_def build_from_def dest: arg_cong[where f = set])
qed (simp_all add: runs_spread_def rs_rebuild_def Let_def rs_empty_def)

lemma spread_first:
  "successively (\<lambda>a b. FANOUT * length b \<le> length a) (r # runs) \<Longrightarrow> \<forall>r' \<in> set (r # runs). r' \<noteq> [] \<Longrightarrow>
    FANOUT ^ length runs \<le> length r"
proof (induction runs arbitrary: r)
  case (Cons r' runs)
  then have "FANOUT ^ length runs \<le> length r'" "FANOUT * length r' \<le> length r" by simp_all
  then show ?case by simp
qed (simp add: Suc_leI)

lemma runs_bounded:
  assumes "runs_spread rs" "rs_runs rs \<noteq> []"
  shows "FANOUT ^ (length (rs_runs rs) - 1) \<le> rs_len rs"
proof (cases "rs_runs rs")
  case (Cons r runs)
  then have "FANOUT ^ length runs \<le> length r"
    using assms(1) spread_first[of r runs] by (simp add: runs_spread_def)
  then show ?thesis by (simp add: Cons rs_len_def rs_all_def)
qed (use assms in simp)

section \<open>The walk\<close>

text \<open>The reference: every value of the parts once, in order, with the ids of each part that carry it.\<close>

definition walk_ref :: "bool \<Rightarrow> run list \<Rightarrow> (u64 \<times> u32 list) list" where
  "walk_ref desc parts =
     (let vs = sorted_list_of_set (fst ` set (concat parts))
      in map (\<lambda>v. (v, map snd (filter (\<lambda>p. fst p = v) (concat parts)))) (if desc then rev vs else vs))"

lemma take_value_filter:
  assumes "sorted (r :: run)" "\<And>p. p \<in> set r \<Longrightarrow> (if desc then fst p \<le> v else v \<le> fst p)"
  shows "take_value desc v r = (map snd (filter (\<lambda>p. fst p = v) r), filter (\<lambda>p. fst p \<noteq> v) r)"
proof (cases desc)
  case True
  let ?g = "\<lambda>p :: entry_pair. - uint (fst p)"
  have s: "sorted (map ?g (rev r))"
    using sorted_fst[OF assms(1)] unfolding sorted_iff_nth_mono
    by (auto simp: rev_nth word_le_def)
  have "x \<in> set (rev r) \<Longrightarrow> (fst x = v) = (?g x \<le> - uint v)" for x
    using assms(2)[of x] True by (auto simp: word_le_def word_uint_eq_iff)
  then have "takeWhile (\<lambda>p. fst p = v) (rev r) = takeWhile (\<lambda>p. ?g p \<le> - uint v) (rev r)"
    "dropWhile (\<lambda>p. fst p = v) (rev r) = dropWhile (\<lambda>p. ?g p \<le> - uint v) (rev r)"
    "filter (\<lambda>p. fst p = v) (rev r) = filter (\<lambda>p. ?g p \<le> - uint v) (rev r)"
    "filter (\<lambda>p. fst p \<noteq> v) (rev r) = filter (\<lambda>p. \<not> ?g p \<le> - uint v) (rev r)"
    by (intro takeWhile_cong dropWhile_cong filter_cong refl; blast)+
  moreover have "takeWhile (\<lambda>p. ?g p \<le> - uint v) (rev r) = filter (\<lambda>p. ?g p \<le> - uint v) (rev r)"
    "dropWhile (\<lambda>p. ?g p \<le> - uint v) (rev r) = filter (\<lambda>p. \<not> ?g p \<le> - uint v) (rev r)"
    by (intro takeWhile_sorted[OF s] dropWhile_sorted[OF s]; simp)+
  ultimately have "takeWhile (\<lambda>p. fst p = v) (rev r) = filter (\<lambda>p. fst p = v) (rev r)"
    "dropWhile (\<lambda>p. fst p = v) (rev r) = filter (\<lambda>p. fst p \<noteq> v) (rev r)" by argo+
  then show ?thesis using True by (simp add: take_value_def rev_filter)
next
  case False
  have "x \<in> set r \<Longrightarrow> (fst x = v) = (fst x \<le> v)" for x using assms(2)[of x] False by auto
  then have "takeWhile (\<lambda>p. fst p = v) r = takeWhile (\<lambda>p. fst p \<le> v) r"
    "dropWhile (\<lambda>p. fst p = v) r = dropWhile (\<lambda>p. fst p \<le> v) r"
    "filter (\<lambda>p. fst p = v) r = filter (\<lambda>p. fst p \<le> v) r"
    "filter (\<lambda>p. fst p \<noteq> v) r = filter (\<lambda>p. \<not> fst p \<le> v) r"
    by (intro takeWhile_cong dropWhile_cong filter_cong refl; blast)+
  moreover have "takeWhile (\<lambda>p. fst p \<le> v) r = filter (\<lambda>p. fst p \<le> v) r"
    "dropWhile (\<lambda>p. fst p \<le> v) r = filter (\<lambda>p. \<not> fst p \<le> v) r"
    by (intro takeWhile_sorted[OF sorted_fst[OF assms(1)]] dropWhile_sorted[OF sorted_fst[OF assms(1)]]; simp)+
  ultimately show ?thesis using False by (simp add: take_value_def)
qed

lemma next_value_extreme:
  assumes "\<forall>r \<in> set left. sorted r" "concat left \<noteq> []"
  shows "next_value desc left = Some (if desc then Max (fst ` set (concat left)) else Min (fst ` set (concat left)))"
proof -
  define live where "live = filter (\<lambda>r. r \<noteq> []) left"
  have ne: "live \<noteq> []" and cl: "set (concat left) = set (concat live)"
    using assms(2) by (auto simp: live_def filter_empty_conv)
  have srt: "sorted (map fst r)" "r \<noteq> []" if "r \<in> set live" for r
    using that assms(1) by (auto simp: live_def sorted_fst)
  have hd_le: "fst (hd r) \<le> fst p" and last_ge: "fst p \<le> fst (last r)" if "r \<in> set live" "p \<in> set r" for r p
    using that(2) srt[OF that(1)] sorted_nth_mono[OF srt(1)[OF that(1)], of _ "length r - 1"]
      sorted_nth_mono[OF srt(1)[OF that(1)], of 0]
    by (auto simp: in_set_conv_nth last_conv_nth hd_conv_nth)
  have "Min (set (map (\<lambda>r. fst (hd r)) live)) = Min (fst ` set (concat live))"
  proof (rule Min_eqI[symmetric])
    fix y assume "y \<in> fst ` set (concat live)"
    then obtain r p where "r \<in> set live" "p \<in> set r" "y = fst p" by auto
    then show "Min (set (map (\<lambda>r. fst (hd r)) live)) \<le> y"
      using hd_le[of r p] by (intro order_trans[OF Min_le[of _ "fst (hd r)"]]) simp_all
  next
    have "Min (set (map (\<lambda>r. fst (hd r)) live)) \<in> set (map (\<lambda>r. fst (hd r)) live)" using ne by (intro Min_in) auto
    then show "Min (set (map (\<lambda>r. fst (hd r)) live)) \<in> fst ` set (concat live)" using srt(2) by fastforce
  qed simp
  moreover have "Max (set (map (\<lambda>r. fst (last r)) live)) = Max (fst ` set (concat live))"
  proof (rule Max_eqI[symmetric])
    fix y assume "y \<in> fst ` set (concat live)"
    then obtain r p where "r \<in> set live" "p \<in> set r" "y = fst p" by auto
    then show "y \<le> Max (set (map (\<lambda>r. fst (last r)) live))"
      using last_ge[of r p] by (intro order_trans[OF _ Max_ge[of _ "fst (last r)"]]) simp_all
  next
    have "Max (set (map (\<lambda>r. fst (last r)) live)) \<in> set (map (\<lambda>r. fst (last r)) live)" using ne by (intro Max_in) auto
    then show "Max (set (map (\<lambda>r. fst (last r)) live)) \<in> fst ` set (concat live)" using srt(2) by fastforce
  qed simp
  ultimately show ?thesis
    using ne unfolding next_value_def Let_def live_def[symmetric] cl by simp
qed

lemma sorted_list_of_set_last:
  assumes "finite A" "A \<noteq> {}"
  shows "sorted_list_of_set A = sorted_list_of_set (A - {Max A}) @ [Max A]"
proof (rule sorted_distinct_set_unique)
  show "sorted (sorted_list_of_set (A - {Max A}) @ [Max A])" using assms by (auto simp: sorted_append)
  show "set (sorted_list_of_set A) = set (sorted_list_of_set (A - {Max A}) @ [Max A])"
    using assms by (simp add: insert_absorb)
qed (use assms in auto)

lemma walk_loop_ref:
  assumes "\<forall>r \<in> set left. sorted r"
  shows "walk_loop desc left = walk_ref desc left"
  using assms
proof (induction desc left rule: walk_loop.induct)
  case (1 desc left)
  let ?V = "fst ` set (concat left)"
  show ?case
  proof (cases "concat left = []")
    case True
    then have "next_value desc left = None" by (auto simp: next_value_def filter_empty_conv)
    then show ?thesis using True by (subst walk_loop.simps) (simp only: walk_ref_def True, simp)
  next
    case False
    define v where "v = (if desc then Max ?V else Min ?V)"
    have nv: "next_value desc left = Some v" using next_value_extreme[OF "1.prems" False] by (simp add: v_def)
    have fin: "finite ?V" "?V \<noteq> {}" using False by auto
    have ext: "if desc then fst p \<le> v else v \<le> fst p" if "r \<in> set left" "p \<in> set r" for r p
    proof -
      have "fst p \<in> ?V" using that by auto
      then show ?thesis using fin(1) by (simp add: v_def)
    qed
    then have tv: "take_value desc v r = (map snd (filter (\<lambda>p. fst p = v) r), filter (\<lambda>p. fst p \<noteq> v) r)" if "r \<in> set left" for r
      using that "1.prems" by (intro take_value_filter) auto
    then have segs: "map (\<lambda>r. fst (take_value desc v r)) left = map (map snd) (map (filter (\<lambda>p. fst p = v)) left)"
      and rest: "map (\<lambda>r. snd (take_value desc v r)) left = map (filter (\<lambda>p. fst p \<noteq> v)) left" by simp_all
    have "\<forall>r \<in> set (map (filter (\<lambda>p. fst p \<noteq> v)) left). sorted r" using "1.prems" by (auto intro: sorted_wrt_filter)
    then have "walk_loop desc (map (filter (\<lambda>p. fst p \<noteq> v)) left) = walk_ref desc (map (filter (\<lambda>p. fst p \<noteq> v)) left)"
      using "1.IH"[OF nv] by (simp only: rest)
    then have "walk_loop desc left = (v, map snd (filter (\<lambda>p. fst p = v) (concat left))) # walk_ref desc (map (filter (\<lambda>p. fst p \<noteq> v)) left)"
      by (subst walk_loop.simps) (simp only: nv option.case segs rest map_concat[symmetric] concat_filter)
    also have "walk_ref desc (map (filter (\<lambda>p. fst p \<noteq> v)) left) =
        map (\<lambda>w. (w, map snd (filter (\<lambda>p. fst p = w) (concat left))))
          (if desc then rev (sorted_list_of_set (?V - {v})) else sorted_list_of_set (?V - {v}))"
    proof -
      have "fst ` set (filter (\<lambda>p. fst p \<noteq> v) (concat left)) = ?V - {v}" by auto
      moreover have "w \<noteq> v \<Longrightarrow> filter (\<lambda>p. fst p = w) (filter (\<lambda>p. fst p \<noteq> v) (concat left)) = filter (\<lambda>p. fst p = w) (concat left)" for w
        by (simp add: filter_filter) (metis (mono_tags, lifting))
      ultimately show ?thesis
        unfolding walk_ref_def concat_filter Let_def using fin(1) by simp
    qed
    finally have step: "walk_loop desc left = (v, map snd (filter (\<lambda>p. fst p = v) (concat left))) #
        map (\<lambda>w. (w, map snd (filter (\<lambda>p. fst p = w) (concat left))))
          (if desc then rev (sorted_list_of_set (?V - {v})) else sorted_list_of_set (?V - {v}))" .
    have "(if desc then rev (sorted_list_of_set ?V) else sorted_list_of_set ?V) =
        v # (if desc then rev (sorted_list_of_set (?V - {v})) else sorted_list_of_set (?V - {v}))"
    proof (cases desc)
      case True
      have "sorted_list_of_set ?V = sorted_list_of_set (?V - {Max ?V}) @ [Max ?V]"
        using fin sorted_list_of_set_last[OF fin] by simp
      then show ?thesis using True by (simp add: v_def)
    qed (use fin in \<open>simp add: v_def sorted_list_of_set_nonempty\<close>)
    then show ?thesis unfolding walk_ref_def Let_def step by simp
  qed
qed

lemma walk_ref_nonempty: "walk_ref desc (filter (\<lambda>r. r \<noteq> []) parts) = walk_ref desc parts"
proof -
  have "concat (filter (\<lambda>r. r \<noteq> []) parts) = concat parts" by (induction parts) simp_all
  then show ?thesis by (simp only: walk_ref_def)
qed

lemma snap_walk_ref:
  assumes "rs_ok rs"
  shows "snap_walk lo hi desc rs = walk_ref desc [filter (\<lambda>p. lo \<le> fst p \<and> fst p \<le> hi) (rs_entries rs)]"
proof -
  have parts: "map (run_part lo hi) (rs_all rs) = map (filter (\<lambda>p. lo \<le> fst p \<and> fst p \<le> hi)) (rs_all rs)"
    using assms by (auto simp: rs_ok_def run_part_filter)
  show ?thesis
  proof (cases "lo > hi")
    case True
    then have "filter (\<lambda>p. lo \<le> fst p \<and> fst p \<le> hi) (rs_entries rs) = []" by (auto simp: filter_empty_conv)
    then show ?thesis using True by (simp add: snap_walk_def walk_ref_def)
  next
    case False
    have "\<forall>r \<in> set (map (filter (\<lambda>p. lo \<le> fst p \<and> fst p \<le> hi)) (rs_all rs)). sorted r"
      using assms by (auto simp: rs_ok_def intro: sorted_wrt_filter)
    then have "\<forall>r \<in> set (filter (\<lambda>r. r \<noteq> []) (map (filter (\<lambda>p. lo \<le> fst p \<and> fst p \<le> hi)) (rs_all rs))). sorted r"
      by (simp only: set_filter) blast
    then have "snap_walk lo hi desc rs = walk_ref desc (map (filter (\<lambda>p. lo \<le> fst p \<and> fst p \<le> hi)) (rs_all rs))"
      using False by (simp only: snap_walk_def parts walk_loop_ref walk_ref_nonempty if_False)
    then show ?thesis by (simp add: walk_ref_def concat_filter rs_entries_def)
  qed
qed

end
