(* ===== verification/Cylinder.thy ===== *)
theory Cylinder
  imports Append_Bucket Sparse_Runs
begin

text \<open>
  The index of one column from values to ids (\<^verbatim>\<open>LockFreeCylinder\<close> in
  \<^verbatim>\<open>crates/enchudb-engine/src/lockfree_cylinder.rs\<close>): three arrays of buckets for the values
  near a base, just above and just below \<^verbatim>\<open>2^63\<close>, and sorted runs for every value beyond the
  current length of its array. Entries are only appended; an entry goes stale when its id moves
  on, and readers that meet stale entries check the column or skip marked entries.

  A writer of one bucket holds the key of its value and a writer of the runs or of the arrays
  holds the store's lock, so every operation is one step here. The callback of a walk is the
  list of the calls it gets; a walk that is broken off delivers a prefix of it. The counters
  that count ids or buckets are natural numbers: there are fewer than \<^verbatim>\<open>u32::MAX\<close> of them.

  The lemmas relate the index to a map from ids to values: \<^verbatim>\<open>cyl_inv\<close> holds for the map that is
  built, and inserting, noting a stale entry and compacting keep it.
\<close>

section \<open>The index\<close>

datatype dense_array = LOW | POS | NEG

abbreviation DENSE_CAP :: nat where
  "DENSE_CAP \<equiv> 1048576"

abbreviation MID :: u64 where
  "MID \<equiv> 0x8000000000000000"

abbreviation MID_HALF :: nat where
  "MID_HALF \<equiv> 524288"

abbreviation DENSE_FREE_LEN :: nat where
  "DENSE_FREE_LEN \<equiv> 1024"

abbreviation DENSE_MIN_FILL :: nat where
  "DENSE_MIN_FILL \<equiv> 4"

abbreviation PREALLOC_CAP :: nat where
  "PREALLOC_CAP \<equiv> 64"

abbreviation all_arrays :: "dense_array list" where
  "all_arrays \<equiv> [LOW, POS, NEG]"

definition region_cap :: "dense_array \<Rightarrow> nat" where
  "region_cap k = (if k = LOW then DENSE_CAP else MID_HALF)"

text \<open>\<^verbatim>\<open>cy_slots\<close> is the table of positions once it was asked for, if the memory for it was there.\<close>

record cylinder =
  cy_slots :: "u32 list option option"
  cy_marks_on :: bool
  cy_low_base :: u64
  cy_arr :: "dense_array \<Rightarrow> bucket option list"
  cy_sparse :: run_set
  cy_used :: "dense_array \<Rightarrow> nat"
  cy_waiting :: "dense_array \<Rightarrow> nat"
  cy_sparse_stale :: nat
  cy_unique_count :: nat
  cy_unique_live :: nat
  cy_any_removed :: bool

definition cyl_new :: "u32 \<Rightarrow> cylinder" where
  "cyl_new max_values =
     (let hint = (if max_values = 0 then 0 else min (unat max_values + 1) PREALLOC_CAP)
      in \<lparr>cy_slots = None, cy_marks_on = False, cy_low_base = 0,
          cy_arr = (\<lambda>k. if k = LOW then replicate hint None else []), cy_sparse = rs_empty,
          cy_used = (\<lambda>k. 0), cy_waiting = (\<lambda>k. 0), cy_sparse_stale = 0,
          cy_unique_count = 0, cy_unique_live = 0, cy_any_removed = False\<rparr>)"

definition set_low_base :: "u64 \<Rightarrow> cylinder \<Rightarrow> cylinder" where
  "set_low_base base c =
     c\<lparr>cy_low_base := (if base \<le> MID - word_of_nat MID_HALF - word_of_nat DENSE_CAP then base else 0)\<rparr>"

definition dense_slot :: "u64 \<Rightarrow> u64 \<Rightarrow> (dense_array \<times> nat) option" where
  "dense_slot low v =
     (let off = v - low
      in if off < word_of_nat DENSE_CAP then Some (LOW, unat off)
         else if v \<ge> MID \<and> v - MID < word_of_nat MID_HALF then Some (POS, unat (v - MID))
         else if v < MID \<and> MID - 1 - v < word_of_nat MID_HALF then Some (NEG, unat (MID - 1 - v))
         else None)"

definition slot_value :: "u64 \<Rightarrow> dense_array \<Rightarrow> nat \<Rightarrow> u64" where
  "slot_value low k i = (case k of
     LOW \<Rightarrow> low + word_of_nat i
   | POS \<Rightarrow> MID + word_of_nat i
   | NEG \<Rightarrow> MID - 1 - word_of_nat i)"

definition region_values :: "u64 \<Rightarrow> dense_array \<Rightarrow> nat \<Rightarrow> nat \<Rightarrow> u64 \<times> u64" where
  "region_values low k from to =
     (let a = slot_value low k from; b = slot_value low k (to - 1) in (min a b, max a b))"

text \<open>\<^term>\<open>Some None\<close> is an element of the array with no bucket yet, \<^const>\<open>None\<close> a value outside the arrays.\<close>

definition writer_dense_at :: "u64 \<Rightarrow> cylinder \<Rightarrow> bucket option option" where
  "writer_dense_at v c = (case dense_slot (cy_low_base c) v of
     None \<Rightarrow> None
   | Some (k, i) \<Rightarrow> if i < length (cy_arr c k) then Some (cy_arr c k ! i) else None)"

definition in_array :: "u64 \<Rightarrow> cylinder \<Rightarrow> bool" where
  "in_array v c = (case dense_slot (cy_low_base c) v of
     None \<Rightarrow> False | Some (k, i) \<Rightarrow> i < length (cy_arr c k))"

definition set_element :: "dense_array \<Rightarrow> nat \<Rightarrow> bucket option \<Rightarrow> cylinder \<Rightarrow> cylinder" where
  "set_element k i s c = c\<lparr>cy_arr := (cy_arr c)(k := (cy_arr c k)[i := s])\<rparr>"

subsection \<open>The table of positions\<close>

text \<open>\<^verbatim>\<open>ok\<close> tells whether the anonymous mapping could be made.\<close>

definition init_slots :: "bool \<Rightarrow> u32 \<Rightarrow> cylinder \<Rightarrow> cylinder" where
  "init_slots ok n c =
     (let table = (case cy_slots c of Some t \<Rightarrow> t
        | None \<Rightarrow> if n = 0 \<or> \<not> ok then None else Some (replicate (unat n) 0))
      in c\<lparr>cy_slots := Some table, cy_marks_on := table \<noteq> None\<rparr>)"

definition disable_marks :: "cylinder \<Rightarrow> cylinder" where
  "disable_marks c = c\<lparr>cy_marks_on := False\<rparr>"

definition slot_get :: "u32 \<Rightarrow> cylinder \<Rightarrow> nat option" where
  "slot_get eid c = (case cy_slots c of
     Some (Some t) \<Rightarrow> if unat eid < length t \<and> t ! unat eid \<noteq> 0 then Some (unat (t ! unat eid) - 1) else None
   | _ \<Rightarrow> None)"

definition slot_put :: "u32 \<Rightarrow> u32 \<Rightarrow> cylinder \<Rightarrow> cylinder" where
  "slot_put eid x c = (case cy_slots c of
     Some (Some t) \<Rightarrow> c\<lparr>cy_slots := Some (Some (t[unat eid := x]))\<rparr>
   | _ \<Rightarrow> c)"

definition slot_set :: "u32 \<Rightarrow> nat \<Rightarrow> cylinder \<Rightarrow> cylinder" where
  "slot_set eid pos c = slot_put eid (if pos + 1 < 2 ^ 32 then word_of_nat (pos + 1) else 0) c"

definition forget_slot :: "u32 \<Rightarrow> cylinder \<Rightarrow> cylinder" where
  "forget_slot eid c = slot_put eid 0 c"

subsection \<open>Stale entries and compaction\<close>

definition note_stale_at :: "u64 \<Rightarrow> u32 option \<Rightarrow> cylinder \<Rightarrow> cylinder \<times> (nat \<times> nat) option" where
  "note_stale_at v eid c0 =
     (let c = c0\<lparr>cy_any_removed := True\<rparr>
      in case dense_slot (cy_low_base c) v of
        None \<Rightarrow> (c\<lparr>cy_sparse_stale := cy_sparse_stale c + 1\<rparr>, None)
      | Some (k, i) \<Rightarrow>
          if i < length (cy_arr c k) then
            (case cy_arr c k ! i of
              None \<Rightarrow> (c, None)
            | Some b \<Rightarrow>
                let b1 = (if cy_marks_on c
                    then bucket_mark_stale (case eid of Some e \<Rightarrow> map_option (\<lambda>p. (p, e)) (slot_get e c) | None \<Rightarrow> None) b
                    else b);
                  (b2, r) = bucket_note_stale b1;
                  c1 = set_element k i (Some b2) c
                in case r of None \<Rightarrow> (c1, None)
                   | Some prev \<Rightarrow>
                       (if prev - 1 = 0 then c1\<lparr>cy_unique_live := cy_unique_live c1 - 1\<rparr> else c1,
                        Some (unat (b_wlen b2), prev - 1)))
          else (c\<lparr>cy_sparse_stale := cy_sparse_stale c + 1\<rparr>, None))"

definition note_stale_of_in :: "u64 \<Rightarrow> u32 \<Rightarrow> cylinder \<Rightarrow> cylinder \<times> (nat \<times> nat) option" where
  "note_stale_of_in v eid c = note_stale_at v (Some eid) c"

definition compact_bucket :: "u64 \<Rightarrow> (u32 \<Rightarrow> bool) \<Rightarrow> cylinder \<Rightarrow> cylinder \<times> nat" where
  "compact_bucket v keep c = (case dense_slot (cy_low_base c) v of
     None \<Rightarrow> (c, 0)
   | Some (k, i) \<Rightarrow> if i < length (cy_arr c k) then
       (case cy_arr c k ! i of None \<Rightarrow> (c, 0)
        | Some b \<Rightarrow> (case compact_in_placed keep b of (b', live, placed) \<Rightarrow>
            (fold (\<lambda>(e, p). slot_set e p) placed (set_element k i (Some b') c), live)))
     else (c, 0))"

definition cyl_mark_verified :: "u64 \<Rightarrow> cylinder \<Rightarrow> cylinder \<times> (nat \<times> u32) option" where
  "cyl_mark_verified v c = (case dense_slot (cy_low_base c) v of
     None \<Rightarrow> (c, None)
   | Some (k, i) \<Rightarrow> if i < length (cy_arr c k) then
       (case cy_arr c k ! i of None \<Rightarrow> (c, None)
        | Some b \<Rightarrow> (case bucket_mark_verified b of (b', n) \<Rightarrow>
            (set_element k i (Some b') c, Some (length (b_data b), n))))
     else (c, None))"

definition sparse_needs_compact :: "cylinder \<Rightarrow> bool" where
  "sparse_needs_compact c \<longleftrightarrow>
     cy_sparse_stale c > 0 \<and> cy_sparse_stale c * 2 \<ge> max (rs_len (cy_sparse c)) 64"

definition sparse_churned :: "cylinder \<Rightarrow> bool" where
  "sparse_churned c \<longleftrightarrow> cy_sparse_stale c > 0"

definition recount_waiting :: "cylinder \<Rightarrow> cylinder" where
  "recount_waiting c = c\<lparr>cy_waiting := (\<lambda>k.
     let l = length (cy_arr c k)
     in if l < region_cap k
        then (case region_values (cy_low_base c) k l (region_cap k) of (lo, hi) \<Rightarrow> count_in lo hi (cy_sparse c))
        else 0)\<rparr>"

definition compact_sparse :: "(entry_pair \<Rightarrow> bool) \<Rightarrow> cylinder \<Rightarrow> cylinder \<times> nat" where
  "compact_sparse keep c = (case rs_rebuild keep (cy_sparse c) of (rs, removed) \<Rightarrow>
     (recount_waiting (c\<lparr>cy_sparse := rs, cy_sparse_stale := 0\<rparr>), removed))"

subsection \<open>Reading\<close>

definition read_to_vec_marked :: "u64 \<Rightarrow> cylinder \<Rightarrow> u32 list \<times> bool \<times> bool" where
  "read_to_vec_marked v c = (case writer_dense_at v c of
     Some None \<Rightarrow> ([], False, False)
   | Some (Some b) \<Rightarrow> read_marked_verify (cy_marks_on c) b
   | None \<Rightarrow>
       let churned = sparse_churned c; out = rs_lookup v (cy_sparse c)
       in (if length out > 1 then sort out else out, churned, churned))"

definition read_into_marked :: "u64 \<Rightarrow> u32 list \<Rightarrow> cylinder \<Rightarrow> u32 list \<times> bool \<times> bool" where
  "read_into_marked v out c =
     (let start = length out
      in case writer_dense_at v c of
        Some None \<Rightarrow> (out, False, False)
      | Some (Some b) \<Rightarrow> (case read_marked_verify (cy_marks_on c) b of (s, needs, stale) \<Rightarrow> (out @ s, needs, stale))
      | None \<Rightarrow>
          let churned = sparse_churned c; out1 = out @ rs_lookup v (cy_sparse c)
          in (if length out1 - start > 1 then take start out1 @ sort (drop start out1) else out1, churned, churned))"

definition dense_range_into :: "u64 \<Rightarrow> u64 \<Rightarrow> (dense_array \<Rightarrow> nat) \<Rightarrow> (dense_array \<Rightarrow> nat) \<Rightarrow> cylinder \<Rightarrow> u32 list" where
  "dense_range_into lo hi from to c = concat (map (\<lambda>k.
     if from k \<ge> to k then []
     else case region_values (cy_low_base c) k 0 (region_cap k) of (wlo, whi) \<Rightarrow>
       let a = max lo wlo; b = min hi whi
       in if a > b then []
          else let (i0, i1) = (case k of
                   LOW \<Rightarrow> (unat (a - wlo), unat (b - wlo))
                 | POS \<Rightarrow> (unat (a - MID), unat (b - MID))
                 | NEG \<Rightarrow> (unat (MID - 1 - b), unat (MID - 1 - a)));
               i0 = max i0 (from k); i1 = min i1 (to k - 1)
          in if i0 > i1 then []
             else let i1 = min i1 (length (cy_arr c k) - 1)
                  in if cy_arr c k = [] \<or> i0 > i1 then []
                     else concat (map b_data (List.map_filter id (slice i0 (i1 + 1) (cy_arr c k))))) all_arrays)"

definition range_raw :: "u64 \<Rightarrow> u64 \<Rightarrow> cylinder \<Rightarrow> u32 list" where
  "range_raw lo hi c = (
     if lo > hi then []
     else dense_range_into lo hi (\<lambda>k. 0) (\<lambda>k. length (cy_arr c k)) c @ rs_range lo hi (cy_sparse c))"

definition sparse_range :: "u64 \<Rightarrow> u64 \<Rightarrow> cylinder \<Rightarrow> entry_pair list" where
  "sparse_range lo hi c = filter (\<lambda>(v, _). \<not> in_array v c) (range_pairs lo hi (cy_sparse c))"

definition slot_index :: "u64 \<Rightarrow> dense_array \<Rightarrow> u64 \<Rightarrow> nat" where
  "slot_index low k v = (case k of
     LOW \<Rightarrow> unat (v - low)
   | POS \<Rightarrow> unat (v - MID)
   | NEG \<Rightarrow> unat (MID - 1 - v))"

type_synonym segment = "u64 \<times> u64 \<times> dense_array option"

definition segments :: "(dense_array \<Rightarrow> nat) \<Rightarrow> u64 \<Rightarrow> segment list" where
  "segments lens base =
     (let nl = word_of_nat (lens LOW); np = word_of_nat (lens POS); nn = word_of_nat (lens NEG);
          low = (if nl > 0 then (if base > 0 then [(0, base - 1, None)] else []) @ [(base, base + nl - 1, Some LOW)] else []);
          at = (if nl > 0 then base + nl else 0);
          neg_lo = MID - nn
      in low @
         (if at < neg_lo then [(at, neg_lo - 1, None)] else []) @
         (if nn > 0 then [(neg_lo, MID - 1, Some NEG)] else []) @
         (if np > 0 then [(MID, MID + np - 1, Some POS)] else []) @
         [(MID + np, 0xFFFFFFFFFFFFFFFF, None)])"

definition cut_segments :: "u64 \<Rightarrow> u64 \<Rightarrow> cylinder \<Rightarrow> segment list" where
  "cut_segments lo hi c = filter (\<lambda>(a, b, _). a \<le> b)
     (map (\<lambda>(a, b, at). (max a lo, min b hi, at)) (segments (\<lambda>k. length (cy_arr c k)) (cy_low_base c)))"

definition segment_elements :: "dense_array \<Rightarrow> u64 \<Rightarrow> u64 \<Rightarrow> cylinder \<Rightarrow> (nat \<times> bucket option) list" where
  "segment_elements k a b c =
     (let i = slot_index (cy_low_base c) k a; j = slot_index (cy_low_base c) k b; i0 = min i j
      in enumerate i0 (slice i0 (max i j + 1) (cy_arr c k)))"

type_synonym visit = "u64 \<times> u32 list \<times> bool \<times> u64 list option"

definition visit_element :: "dense_array \<Rightarrow> cylinder \<Rightarrow> nat \<times> bucket option \<Rightarrow> visit list" where
  "visit_element k c = (\<lambda>(i, s). case s of
     None \<Rightarrow> []
   | Some bk \<Rightarrow> if b_live bk > 0 then
       (case snapshot_marked_in bk of (raw, marks, verify, exact) \<Rightarrow>
          if raw = [] then []
          else [(slot_value (cy_low_base c) k i, raw, verify, if verify \<and> exact \<and> cy_marks_on c then Some marks else None)])
     else [])"

definition cyl_walk :: "u64 \<Rightarrow> u64 \<Rightarrow> bool \<Rightarrow> cylinder \<Rightarrow> visit list" where
  "cyl_walk lo hi desc c = (
     if lo > hi then []
     else let churned = sparse_churned c; segs = cut_segments lo hi c
     in concat (map (\<lambda>(a, b, at). case at of
          None \<Rightarrow> map (\<lambda>(v, eids). (v, eids, churned, None)) (snap_walk a b desc (cy_sparse c))
        | Some k \<Rightarrow>
            let els = segment_elements k a b c
            in concat (map (visit_element k c) (if (k \<noteq> NEG) \<noteq> desc then els else rev els)))
          (if desc then rev segs else segs)))"

datatype part = Part_Bucket u64 "u32 list" bool "u64 list option" | Part_Run u64 u64 "u32 list" bool

definition cyl_for_each_part :: "u64 \<Rightarrow> u64 \<Rightarrow> cylinder \<Rightarrow> part list" where
  "cyl_for_each_part lo hi c = (
     if lo > hi then []
     else let churned = sparse_churned c
     in concat (map (\<lambda>(a, b, at). case at of
          None \<Rightarrow> map (\<lambda>eids. Part_Run a b eids churned) (snap_spans a b (cy_sparse c))
        | Some k \<Rightarrow>
            map (\<lambda>(v, raw, verify, marks). Part_Bucket v raw verify marks)
              (concat (map (visit_element k c) (segment_elements k a b c))))
          (cut_segments lo hi c)))"

definition cyl_count_range :: "u64 \<Rightarrow> u64 \<Rightarrow> (entry_pair \<Rightarrow> bool) \<Rightarrow> cylinder \<Rightarrow> nat" where
  "cyl_count_range lo hi live c = (
     if lo > hi then 0
     else let churned = sparse_churned c; segs = cut_segments lo hi c;
              n = sum_list (map (\<lambda>(a, b, at). case at of
                    None \<Rightarrow> if churned then 0 else snap_count_in a b (cy_sparse c)
                  | Some k \<Rightarrow> sum_list (map b_live (List.map_filter snd (segment_elements k a b c)))) segs);
              checked = concat (map (\<lambda>(a, b, at). case at of
                    None \<Rightarrow> if churned then map snd (filter live (snap_for_each_in a b (cy_sparse c))) else []
                  | Some k \<Rightarrow> []) segs)
     in n + length (remdups_adj (sort checked)))"

definition fold_buckets :: "(bucket \<Rightarrow> nat) \<Rightarrow> cylinder \<Rightarrow> nat" where
  "fold_buckets f c = sum_list (map (\<lambda>k. sum_list (map f (List.map_filter id (cy_arr c k)))) all_arrays)"

definition cyl_total :: "cylinder \<Rightarrow> nat" where
  "cyl_total c = fold_buckets (\<lambda>b. length (b_data b)) c + rs_len (cy_sparse c)"

definition total_live :: "cylinder \<Rightarrow> nat" where
  "total_live c = fold_buckets b_live c + (rs_len (cy_sparse c) - cy_sparse_stale c)"

definition cyl_slice_len :: "u64 \<Rightarrow> cylinder \<Rightarrow> nat" where
  "cyl_slice_len v c = (case writer_dense_at v c of
     Some None \<Rightarrow> 0 | Some (Some b) \<Rightarrow> length (b_data b) | None \<Rightarrow> length (rs_lookup v (cy_sparse c)))"

definition dense_live_len :: "u64 \<Rightarrow> cylinder \<Rightarrow> nat option" where
  "dense_live_len v c = map_option (\<lambda>s. case s of None \<Rightarrow> 0 | Some b \<Rightarrow> b_live b) (writer_dense_at v c)"

definition bucket_needs_verify :: "u64 \<Rightarrow> cylinder \<Rightarrow> bool" where
  "bucket_needs_verify v c = (case writer_dense_at v c of
     Some None \<Rightarrow> False | Some (Some b) \<Rightarrow> b_removed b | None \<Rightarrow> sparse_churned c)"

definition cyl_unique_values :: "cylinder \<Rightarrow> u64 list" where
  "cyl_unique_values c =
     concat (map (\<lambda>k. map (\<lambda>(i, _). slot_value (cy_low_base c) k i)
        (filter (\<lambda>(_, s). case s of None \<Rightarrow> False | Some b \<Rightarrow> b_data b \<noteq> []) (enumerate 0 (cy_arr c k)))) all_arrays) @
     filter (\<lambda>v. \<not> in_array v c) (rs_values (cy_sparse c))"

subsection \<open>Inserting\<close>

definition bump_stats :: "bool \<Rightarrow> bool \<Rightarrow> cylinder \<Rightarrow> cylinder" where
  "bump_stats was_empty was_dead c =
     c\<lparr>cy_unique_count := cy_unique_count c + (if was_empty then 1 else 0),
       cy_unique_live := cy_unique_live c + (if was_dead then 1 else 0)\<rparr>"

definition get_or_create_with :: "nat \<Rightarrow> bool \<Rightarrow> bucket option \<Rightarrow> bucket \<times> bool" where
  "get_or_create_with cap marked s = (case s of Some b \<Rightarrow> (b, False) | None \<Rightarrow> (bucket_with_capacity cap marked, True))"

text \<open>The element that is pushed to, with its bucket; the caller puts it back into its array.\<close>

definition push_slot_with :: "nat \<Rightarrow> dense_array \<Rightarrow> bucket option \<Rightarrow> u32 \<Rightarrow> cylinder \<Rightarrow> bucket option \<times> cylinder" where
  "push_slot_with cap k s eid c =
     (let (b, created) = get_or_create_with cap (cy_marks_on c) s;
          c1 = (if created then c\<lparr>cy_used := (cy_used c)(k := cy_used c k + 1)\<rparr> else c);
          (b1, prev_len) = push_in eid b;
          c2 = slot_set eid prev_len c1;
          (b2, prev_live) = live_inc b1
      in (Some b2, bump_stats (prev_len = 0) (prev_live = 0) c2))"

definition push_slot :: "dense_array \<Rightarrow> bucket option \<Rightarrow> u32 \<Rightarrow> cylinder \<Rightarrow> bucket option \<times> cylinder" where
  "push_slot k s eid c = push_slot_with INITIAL_CAP k s eid c"

text \<open>\<^const>\<open>None\<close> is the panic on a value outside the arrays.\<close>

definition push_in_array :: "u32 \<Rightarrow> u64 \<Rightarrow> cylinder \<Rightarrow> cylinder option" where
  "push_in_array eid v c = (case dense_slot (cy_low_base c) v of
     None \<Rightarrow> None
   | Some (k, i) \<Rightarrow> if i < length (cy_arr c k)
       then (case push_slot k (cy_arr c k ! i) eid c of (s, c') \<Rightarrow> Some (set_element k i s c')) else None)"

definition grow_too_sparse :: "dense_array \<Rightarrow> nat \<Rightarrow> nat \<Rightarrow> cylinder \<Rightarrow> bool" where
  "grow_too_sparse k i len c =
     (let new_len = min (max (i + 1) (len * 2)) (region_cap k); filled = cy_used c k + cy_waiting c k + 1
      in new_len > DENSE_FREE_LEN \<and> new_len > DENSE_MIN_FILL * filled)"

definition would_grow :: "u64 \<Rightarrow> cylinder \<Rightarrow> bool" where
  "would_grow v c = (case dense_slot (cy_low_base c) v of
     None \<Rightarrow> False
   | Some (k, i) \<Rightarrow> let len = length (cy_arr c k) in i \<ge> len \<and> \<not> grow_too_sparse k i len c)"

definition move_one :: "dense_array \<Rightarrow> entry_pair \<Rightarrow> bucket option list \<times> cylinder \<times> nat \<Rightarrow> bucket option list \<times> cylinder \<times> nat" where
  "move_one k = (\<lambda>(v, e) (nv, c, moved).
     case dense_slot (cy_low_base c) v of None \<Rightarrow> (nv, c, moved)
     | Some (_, j) \<Rightarrow>
         let (b, created) = get_or_create_with 0 (cy_marks_on c) (nv ! j);
             c1 = (if created then c\<lparr>cy_used := (cy_used c)(k := cy_used c k + 1), cy_unique_count := cy_unique_count c + 1\<rparr> else c);
             (b1, at) = push_in e b;
             c2 = slot_set e at c1;
             (b2, prev_live) = live_inc b1;
             c3 = (if prev_live = 0 then c2\<lparr>cy_unique_live := cy_unique_live c2 + 1\<rparr> else c2)
         in (nv[j := Some b2], c3, moved + 1))"

definition move_from_sparse ::
  "dense_array \<Rightarrow> nat \<Rightarrow> nat \<Rightarrow> entry_pair \<Rightarrow> (entry_pair \<Rightarrow> bool) \<Rightarrow> bucket option list \<Rightarrow> cylinder \<Rightarrow>
    bucket option list \<times> cylinder \<times> nat" where
  "move_from_sparse k old_len new_len skip keep nv c =
     (case region_values (cy_low_base c) k old_len new_len of (lo, hi) \<Rightarrow>
        let pairs = remdups_adj (sort (range_pairs lo hi (cy_sparse c)))
        in fold (move_one k) (filter (\<lambda>p. p \<noteq> skip \<and> keep p) pairs) (nv, c, 0))"

definition insert_with :: "u32 \<Rightarrow> u64 \<Rightarrow> bool \<Rightarrow> (entry_pair \<Rightarrow> bool) \<Rightarrow> cylinder \<Rightarrow> cylinder" where
  "insert_with eid v may_grow keep c = (case dense_slot (cy_low_base c) v of
     None \<Rightarrow> forget_slot eid (c\<lparr>cy_sparse := rs_insert v eid (cy_sparse c)\<rparr>)
   | Some (k, i) \<Rightarrow>
       let vec = cy_arr c k
       in if i < length vec then (case push_slot k (vec ! i) eid c of (s, c') \<Rightarrow> set_element k i s c')
          else if \<not> may_grow \<or> grow_too_sparse k i (length vec) c then
            let c1 = forget_slot eid (c\<lparr>cy_sparse := rs_insert v eid (cy_sparse c)\<rparr>)
            in c1\<lparr>cy_waiting := (cy_waiting c1)(k := cy_waiting c1 k + 1)\<rparr>
          else
            let new_len = min (max (i + 1) (length vec * 2)) (region_cap k);
                nv = vec @ replicate (new_len - length vec) None;
                waited = cy_waiting c k > 0;
                (nv1, c1, moved) = (if waited then move_from_sparse k (length vec) new_len (v, eid) keep nv c else (nv, c, 0));
                (s, c2) = push_slot k (nv1 ! i) eid c1;
                c3 = c2\<lparr>cy_arr := (cy_arr c2)(k := nv1[i := s])\<rparr>
            in if waited then
                 let (rs, removed) = rs_rebuild (\<lambda>(w, _). \<not> in_array w c3) (cy_sparse c3);
                     dropped = removed - moved
                 in recount_waiting (c3\<lparr>cy_sparse := rs, cy_sparse_stale := cy_sparse_stale c3 - min dropped (cy_sparse_stale c3)\<rparr>)
               else c3)"

definition cyl_insert :: "u32 \<Rightarrow> u64 \<Rightarrow> (entry_pair \<Rightarrow> bool) \<Rightarrow> cylinder \<Rightarrow> cylinder" where
  "cyl_insert eid v keep c = insert_with eid v True keep c"

subsection \<open>Building from a column\<close>

definition count_entries :: "u64 \<Rightarrow> (u32 \<times> u64) list \<Rightarrow> (dense_array \<Rightarrow> nat list)" where
  "count_entries low entries = foldl (\<lambda>counts (_, v). case dense_slot low v of
       None \<Rightarrow> counts
     | Some (k, i) \<Rightarrow>
         let c = counts k;
             c1 = (if length c \<le> i then c @ replicate (min (next_power_of_two (i + 1)) (region_cap k) - length c) 0 else c)
         in counts(k := c1[i := c1 ! i + 1])) (\<lambda>k. []) entries"

function best_len :: "nat \<Rightarrow> nat list \<Rightarrow> nat \<Rightarrow> nat \<Rightarrow> nat \<Rightarrow> nat" where
  "best_len cap c l acc best = (
     if l < cap \<and> 0 < l then
       let next = min (l * 2) cap;
           acc1 = acc + sum_list (slice (min l (length c)) (min next (length c)) c)
       in best_len cap c next acc1 (if acc1 * DENSE_MIN_FILL \<ge> next then next else best)
     else best)"
  by pat_completeness auto

termination
  by (relation "measure (\<lambda>(cap, c, l, acc, best). cap - l)") auto

declare best_len.simps [simp del]

definition built_len :: "dense_array \<Rightarrow> nat list \<Rightarrow> nat \<Rightarrow> nat" where
  "built_len k c len0 = (
     if c = [] then len0
     else let cap = region_cap k; l = min DENSE_FREE_LEN cap;
              best = best_len cap c l (sum_list (take (min l (length c)) c)) l;
              top = length (dropWhile (\<lambda>n. n = 0) (rev (take (min best (length c)) c)))
          in max len0 top)"

definition build_one :: "(dense_array \<Rightarrow> nat list) \<Rightarrow> (dense_array \<Rightarrow> nat) \<Rightarrow> u32 \<times> u64 \<Rightarrow>
    (dense_array \<Rightarrow> bucket option list) \<times> run \<times> cylinder \<Rightarrow> (dense_array \<Rightarrow> bucket option list) \<times> run \<times> cylinder" where
  "build_one counts lens = (\<lambda>(eid, v) (arrs, sparse, c). case dense_slot (cy_low_base c) v of
     Some (k, i) \<Rightarrow>
       if i < lens k then (case push_slot_with (counts k ! i) k (arrs k ! i) eid c of (s, c') \<Rightarrow> (arrs(k := (arrs k)[i := s]), sparse, c'))
       else (arrs, sparse @ [(v, eid)], c)
   | None \<Rightarrow> (arrs, sparse @ [(v, eid)], c))"

definition cyl_build :: "(u32 \<times> u64) list \<Rightarrow> cylinder \<Rightarrow> cylinder" where
  "cyl_build entries c =
     (let counts = count_entries (cy_low_base c) entries;
          lens = (\<lambda>k. built_len k (counts k) (length (cy_arr c k)));
          arrs0 = (\<lambda>k. cy_arr c k @ replicate (lens k - length (cy_arr c k)) None);
          (arrs, sparse, c1) = fold (build_one counts lens) entries (arrs0, [], c)
      in recount_waiting (c1\<lparr>cy_arr := arrs, cy_sparse := build_from sparse (cy_sparse c1)\<rparr>))"

end
