(* ===== verification/Cylinder_Inv.thy ===== *)
theory Cylinder_Inv
  imports Cylinder
begin

text \<open>
  The invariant of the value index: what the dense arrays, the sparse runs, the marks and the
  table of positions have to agree on, relative to the map \<^verbatim>\<open>M\<close> from ids to values that the
  column holds. \<^verbatim>\<open>dense_inv\<close> is about the buckets of the three arrays, \<^verbatim>\<open>sparse_inv\<close> about the
  runs, \<^verbatim>\<open>cyl_inv\<close> is both. Every operation of the index is shown to keep it: leaving a value
  (\<^verbatim>\<open>cyl_note_stale\<close>), entering one (\<^verbatim>\<open>cyl_push_in_array\<close>, \<^verbatim>\<open>cyl_insert_with\<close>, which may move
  entries from the runs into a grown array), the compactions, and the bulk build.
\<close>

section \<open>Values and elements\<close>

definition low_ok :: "u64 \<Rightarrow> bool" where
  "low_ok low \<longleftrightarrow> unat low + DENSE_CAP + MID_HALF \<le> 2 ^ 63"

lemma unat_MID: "unat MID = 2 ^ 63"
  by simp

lemma unat_minus: "unat (a - b) = (if unat b \<le> unat a then unat a - unat b else unat a + 2 ^ 64 - unat b)" for a b :: u64
  by (simp add: unat_sub_if')

lemma unat_lt64: "unat (v :: u64) < 2 ^ 64"
  using unsigned_less[of v] by simp

text \<open>A value is characterised by its number; the windows of the arrays are disjoint intervals.\<close>

definition in_window :: "u64 \<Rightarrow> dense_array \<Rightarrow> u64 \<Rightarrow> bool" where
  "in_window low k v = (case k of
     LOW \<Rightarrow> unat low \<le> unat v \<and> unat v < unat low + DENSE_CAP
   | POS \<Rightarrow> 2 ^ 63 \<le> unat v \<and> unat v < 2 ^ 63 + MID_HALF
   | NEG \<Rightarrow> unat v < 2 ^ 63 \<and> 2 ^ 63 \<le> unat v + MID_HALF)"

lemma dense_slot_window:
  assumes "low_ok low"
  shows "dense_slot low v = (
    if in_window low LOW v then Some (LOW, unat v - unat low)
    else if in_window low POS v then Some (POS, unat v - 2 ^ 63)
    else if in_window low NEG v then Some (NEG, 2 ^ 63 - 1 - unat v) else None)"
proof -
  have l: "v - low < word_of_nat DENSE_CAP \<longleftrightarrow> in_window low LOW v"
    using assms unat_lt64[of v] by (auto simp: word_less_nat_alt unat_minus in_window_def low_ok_def)
  have p: "v \<ge> MID \<and> v - MID < word_of_nat MID_HALF \<longleftrightarrow> in_window low POS v"
    by (auto simp: word_less_nat_alt word_le_nat_alt unat_minus in_window_def)
  have n: "v < MID \<and> MID - 1 - v < word_of_nat MID_HALF \<longleftrightarrow> in_window low NEG v"
    by (auto simp: word_less_nat_alt word_le_nat_alt unat_minus in_window_def)
  show ?thesis unfolding dense_slot_def Let_def l p n
    by (auto simp: unat_minus in_window_def)
qed

lemma unat_slot_value:
  assumes "low_ok low" "i < region_cap k"
  shows "unat (slot_value low k i) = (case k of LOW \<Rightarrow> unat low + i | POS \<Rightarrow> 2 ^ 63 + i | NEG \<Rightarrow> 2 ^ 63 - 1 - i)"
proof -
  have i: "unat (word_of_nat i :: u64) = i" using assms(2) by (auto simp: region_cap_def unat_of_nat split: if_splits)
  show ?thesis using assms by (cases k) (auto simp: slot_value_def low_ok_def region_cap_def unat_word_ariths i unat_minus)
qed

lemma dense_slot_iff:
  assumes "low_ok low"
  shows "dense_slot low v = Some (k, i) \<longleftrightarrow> i < region_cap k \<and> slot_value low k i = v"
proof
  assume "dense_slot low v = Some (k, i)"
  then have i: "i < region_cap k" and "unat v = (case k of LOW \<Rightarrow> unat low + i | POS \<Rightarrow> 2 ^ 63 + i | NEG \<Rightarrow> 2 ^ 63 - 1 - i)"
    using assms unfolding dense_slot_window[OF assms] by (auto simp: in_window_def region_cap_def split: if_splits)
  then have "unat (slot_value low k i) = unat v" using unat_slot_value[OF assms i] by simp
  then show "i < region_cap k \<and> slot_value low k i = v" using i by (simp add: word_unat_eq_iff)
next
  assume h: "i < region_cap k \<and> slot_value low k i = v"
  then have "unat v = (case k of LOW \<Rightarrow> unat low + i | POS \<Rightarrow> 2 ^ 63 + i | NEG \<Rightarrow> 2 ^ 63 - 1 - i)"
    using unat_slot_value[OF assms, of i k] by auto
  then show "dense_slot low v = Some (k, i)"
    using assms h unfolding dense_slot_window[OF assms]
    by (cases k) (auto simp: in_window_def region_cap_def low_ok_def)
qed

lemma set_low_base_ok: "low_ok (cy_low_base (set_low_base base c))"
  by (auto simp: set_low_base_def low_ok_def word_le_nat_alt)

section \<open>The invariant of the buckets\<close>

definition holders :: "(u32 \<Rightarrow> u64 option) \<Rightarrow> u64 \<Rightarrow> u32 set" where
  "holders M v = {e. M e = Some v}"

definition unmarked_at :: "bucket \<Rightarrow> nat set" where
  "unmarked_at b = {i. i < length (b_data b) \<and> \<not> marked_at b i}"

text \<open>
  Complete marks leave exactly one entry of every id that carries the value, and the table of
  positions, where it knows one, names that entry.
\<close>

definition marks_inv :: "(u32 \<Rightarrow> nat option) \<Rightarrow> u32 set \<Rightarrow> bucket \<Rightarrow> bool" where
  "marks_inv pos S b \<longleftrightarrow> bij_betw ((!) (b_data b)) (unmarked_at b) S \<and>
     (\<forall>e \<in> S. \<forall>p. pos e = Some p \<longrightarrow> p \<in> unmarked_at b \<and> b_data b ! p = e)"

definition bucket_inv :: "u32 set \<Rightarrow> bool \<Rightarrow> (u32 \<Rightarrow> nat option) \<Rightarrow> u32 set \<Rightarrow> bucket option \<Rightarrow> bool" where
  "bucket_inv I on pos S s = (case s of
     None \<Rightarrow> S = {}
   | Some b \<Rightarrow> bucket_ok b \<and> S \<subseteq> set (b_data b) \<and> set (b_data b) \<subseteq> I \<and> b_live b = card S \<and>
       (\<not> b_removed b \<longrightarrow> distinct (b_data b) \<and> set (b_data b) = S) \<and>
       (on \<and> marks_exact b \<longrightarrow> marks_inv pos S b))"

lemma finite_u32 [simp]: "finite (A :: u32 set)" "finite (B :: u64 set)"
  by simp_all

lemma bucket_inv_cong:
  assumes "\<And>e. e \<in> S \<Longrightarrow> pos e = pos' e"
  shows "bucket_inv I on pos S s = bucket_inv I on pos' S s"
  using assms by (auto simp: bucket_inv_def marks_inv_def split: option.splits)

lemma new_bucket_inv: "bucket_inv I on pos {} (Some (bucket_with_capacity cap marked))"
proof -
  have "bucket_ok (bucket_with_capacity cap marked)" by (rule bucket_new_ok)
  moreover have "unmarked_at (bucket_with_capacity cap marked) = {}"
    by (auto simp: unmarked_at_def bucket_with_capacity_def)
  ultimately show ?thesis by (simp add: bucket_inv_def marks_inv_def bucket_with_capacity_def bij_betw_def)
qed

lemma get_or_create_inv:
  assumes "bucket_inv I on pos S s" "get_or_create_with cap marked s = (b, created)"
  shows "bucket_inv I on pos S (Some b)" "created \<longleftrightarrow> s = None"
  using assms new_bucket_inv[of I on pos cap marked]
  by (auto simp: get_or_create_with_def bucket_inv_def[of I on pos S None] split: option.splits)

lemma push_bucket_inv:
  assumes inv: "bucket_inv I on pos S (Some b)" and e: "e \<notin> S" "e \<in> I" and p: "push_in e b = (b1, l)"
    and pos: "pos' e \<in> {None, Some l}" "\<And>x. x \<in> S \<Longrightarrow> pos' x = pos x"
  shows "bucket_inv I on pos' (insert e S) (Some (fst (live_inc b1)))" "snd (live_inc b1) = card S"
proof -
  let ?b = "b1\<lparr>b_live := Suc (b_live b1)\<rparr>"
  have ok: "bucket_ok b" and sub: "S \<subseteq> set (b_data b)" and ids: "set (b_data b) \<subseteq> I" and live: "b_live b = card S"
    and clean: "\<not> b_removed b \<Longrightarrow> distinct (b_data b) \<and> set (b_data b) = S"
    and marks: "on \<Longrightarrow> marks_exact b \<Longrightarrow> marks_inv pos S b"
    using inv by (auto simp: bucket_inv_def)
  note s = push_in_spec[OF ok p]
  have same: "bucket_ok ?b = bucket_ok b1" "marked_at ?b = marked_at b1" "marks_exact ?b = marks_exact b1"
    by (rule same_marks; simp)+
  have U: "unmarked_at ?b = insert l (unmarked_at b)"
    using s(2) bucket_okD(2)[OF ok] by (auto simp: unmarked_at_def same s(3) s(8))
  have nl: "l \<notin> unmarked_at b" using s(2) by (simp add: unmarked_at_def)
  have "marks_inv pos' (insert e S) ?b" if on: "on" and ex: "marks_exact ?b"
  proof -
    have bij: "bij_betw ((!) (b_data b)) (unmarked_at b) S \<and> (\<forall>x \<in> S. \<forall>q. pos x = Some q \<longrightarrow> q \<in> unmarked_at b \<and> b_data b ! q = x)"
    proof (cases "b_marks b")
      case None
      then have "b_data b = []" using ex s(9) by (simp add: same)
      then show ?thesis using sub by (simp add: unmarked_at_def bij_betw_def)
    next
      case (Some m)
      then show ?thesis using ex s(9) marks[OF on] by (simp add: same marks_inv_def)
    qed
    have "bij_betw ((!) (b_data b @ [e])) (unmarked_at b) S"
      by (rule iffD1[OF bij_betw_cong conjunct1[OF bij]]) (simp add: unmarked_at_def nth_append)
    then have "bij_betw ((!) (b_data b @ [e])) (insert l (unmarked_at b)) (insert e S)"
      using notIn_Un_bij_betw[OF nl, of "(!) (b_data b @ [e])" S] e s(2) by (simp add: nth_append)
    moreover have "q \<in> insert l (unmarked_at b) \<and> (b_data b @ [e]) ! q = x" if "x \<in> insert e S" "pos' x = Some q" for x q
    proof (cases "x = e")
      case True
      then show ?thesis using pos(1) that s(2) by auto
    next
      case False
      then have "pos x = Some q" "x \<in> S" using pos(2)[of x] that by auto
      then show ?thesis using bij by (auto simp: unmarked_at_def nth_append)
    qed
    ultimately show ?thesis by (simp add: marks_inv_def U s(3))
  qed
  then show "bucket_inv I on pos' (insert e S) (Some (fst (live_inc b1)))"
    using s(1,3,4,5) sub ids live clean e same(1) by (auto simp: bucket_inv_def live_inc_def)
  show "snd (live_inc b1) = card S" by (simp add: live_inc_def s(4) live)
qed

lemma stale_bucket_inv:
  assumes inv: "bucket_inv I on pos S (Some b)" and e: "e \<in> S"
    and b1: "b1 = (if on then bucket_mark_stale (map_option (\<lambda>p. (p, e)) (pos e)) b else b)"
    and b2: "bucket_note_stale b1 = (b2, r)"
  shows "bucket_inv I on pos (S - {e}) (Some b2)" "r = Some (card S)"
proof -
  have ok: "bucket_ok b" and sub: "S \<subseteq> set (b_data b)" and ids: "set (b_data b) \<subseteq> I" and live: "b_live b = card S"
    and marks: "on \<Longrightarrow> marks_exact b \<Longrightarrow> marks_inv pos S b"
    using inv by (auto simp: bucket_inv_def)
  note m = mark_stale_spec[OF ok, of "map_option (\<lambda>p. (p, e)) (pos e)"]
  have b1s: "b_data b1 = b_data b" "b_live b1 = card S" "bucket_ok b1" using m ok live by (auto simp: b1)
  note n = note_stale_spec[OF b2]
  have same: "bucket_ok b2 = bucket_ok b1" "marked_at b2 = marked_at b1" "marks_exact b2 = marks_exact b1"
    by (rule same_marks; simp add: n)+
  have pos1: "card S > 0" using e by (auto simp: card_gt_0_iff)
  have "marks_inv pos (S - {e}) b2" if on: "on" and ex: "marks_exact b2"
  proof -
    have "marks_exact b \<and> (\<exists>p e'. map_option (\<lambda>p. (p, e)) (pos e) = Some (p, e') \<and> p < length (b_data b))"
      using ex on m(7) by (simp add: same b1)
    then obtain p where p: "marks_exact b" "pos e = Some p" "p < length (b_data b)" by auto
    note mi = marks[OF on p(1), unfolded marks_inv_def]
    have pe: "p \<in> unmarked_at b" "b_data b ! p = e" using mi e p(2) by auto
    have "marked_at b1 i \<longleftrightarrow> marked_at b i \<or> i = p" for i
      using on m(8)[of i] p by (auto simp: b1 marks_exact_def)
    then have U: "unmarked_at b2 = unmarked_at b - {p}"
      by (auto simp: unmarked_at_def same n(1) b1s)
    have "bij_betw ((!) (b_data b)) (unmarked_at b - {p}) (S - {e})"
      using bij_betw_DiffI[OF conjunct1[OF mi], of "{p}" "{e}"] pe e by (simp add: bij_betw_singletonI)
    moreover have "q \<in> unmarked_at b - {p} \<and> b_data b ! q = x" if "x \<in> S - {e}" "pos x = Some q" for x q
      using mi that pe by auto
    ultimately show ?thesis by (simp add: marks_inv_def U n(1) b1s)
  qed
  then show "bucket_inv I on pos (S - {e}) (Some b2)"
    using sub ids e by (auto simp: bucket_inv_def same b1s n)
  show "r = Some (card S)" using n(8) b1s pos1 e by auto
qed

lemma compact_bucket_inv:
  assumes inv: "bucket_inv I on pos S (Some b)" and keep: "\<And>e. e \<in> set (b_data b) \<Longrightarrow> keep e \<longleftrightarrow> e \<in> S"
    and c: "compact_in_placed keep b = (b', live, placed)"
    and pos': "\<And>e p. (e, p) \<in> set placed \<Longrightarrow> pos' e \<in> {None, Some p}"
  shows "bucket_inv I on pos' S (Some b')" "map fst placed = sorted_list_of_set S" "b_live b' = b_live b" "b_removed b' = False"
proof -
  have sub: "S \<subseteq> set (b_data b)" and ids: "set (b_data b) \<subseteq> I" and lv: "b_live b = card S" using inv by (auto simp: bucket_inv_def)
  have kept: "{e \<in> set (b_data b). keep e} = S" using keep sub by blast
  note s = compact_spec[OF c]
  have d: "b_data b' = sorted_list_of_set S" using s(2) by (simp add: kept)
  show pl: "map fst placed = sorted_list_of_set S" by (simp add: s(10) d)
  have len: "length (b_data b') = card S" by (simp add: d)
  have U: "unmarked_at b' = {..<length (b_data b')}" using s(5) by (auto simp: unmarked_at_def)
  have "bij_betw ((!) (b_data b')) (unmarked_at b') S"
    unfolding U d by (rule bij_betw_nth) simp_all
  moreover have "q < length (b_data b') \<and> b_data b' ! q = x" if x: "x \<in> S" "pos' x = Some q" for x q
  proof -
    obtain i where i: "i < length (b_data b')" "b_data b' ! i = x" using x(1) d by (metis in_set_conv_nth set_sorted_list_of_set finite_u32(1))
    then have "(x, i) \<in> set placed" by (auto simp: s(10) set_zip)
    then show ?thesis using pos'[of x i] x(2) i by auto
  qed
  ultimately have "marks_inv pos' S b'" by (auto simp: marks_inv_def U)
  then show "bucket_inv I on pos' S (Some b')"
    using s(1,3,4) d sub ids by (auto simp: bucket_inv_def len)
  show "b_live b' = b_live b" "b_removed b' = False" using s(3,4) len lv by simp_all
qed

section \<open>The table of positions and the elements\<close>

lemma slot_put_keeps [simp]:
  "cy_marks_on (slot_put e x c) = cy_marks_on c" "cy_low_base (slot_put e x c) = cy_low_base c"
  "cy_arr (slot_put e x c) = cy_arr c" "cy_sparse (slot_put e x c) = cy_sparse c" "cy_used (slot_put e x c) = cy_used c"
  "cy_waiting (slot_put e x c) = cy_waiting c" "cy_sparse_stale (slot_put e x c) = cy_sparse_stale c"
  "cy_unique_live (slot_put e x c) = cy_unique_live c" "cy_unique_count (slot_put e x c) = cy_unique_count c"
  by (simp_all add: slot_put_def split: option.split)

lemma slot_get_put: "e' \<noteq> e \<Longrightarrow> slot_get e' (slot_put e x c) = slot_get e' c"
  by (auto simp: slot_get_def slot_put_def word_unat_eq_iff nth_list_update split: option.split)

lemma slot_get_set: "slot_get e (slot_set e p c) \<in> {None, Some p}" "e' \<noteq> e \<Longrightarrow> slot_get e' (slot_set e p c) = slot_get e' c"
proof -
  have "unat (word_of_nat (Suc p) :: u32) = Suc p" if "Suc p < 2 ^ 32" using that by (simp add: unat_of_nat del: of_nat_Suc)
  then show "slot_get e (slot_set e p c) \<in> {None, Some p}"
    by (auto simp: slot_set_def slot_get_def slot_put_def nth_list_update simp del: of_nat_Suc split: option.split)
qed (simp add: slot_set_def slot_get_put)

lemma slot_set_keeps [simp]:
  "cy_marks_on (slot_set e x c) = cy_marks_on c" "cy_low_base (slot_set e x c) = cy_low_base c"
  "cy_arr (slot_set e x c) = cy_arr c" "cy_sparse (slot_set e x c) = cy_sparse c" "cy_used (slot_set e x c) = cy_used c"
  "cy_waiting (slot_set e x c) = cy_waiting c" "cy_sparse_stale (slot_set e x c) = cy_sparse_stale c"
  "cy_unique_live (slot_set e x c) = cy_unique_live c" "cy_unique_count (slot_set e x c) = cy_unique_count c"
  by (simp_all add: slot_set_def)

lemma fold_slot_set_keeps [simp]:
  "cy_marks_on (fold (\<lambda>(e, p). slot_set e p) ps c) = cy_marks_on c"
  "cy_low_base (fold (\<lambda>(e, p). slot_set e p) ps c) = cy_low_base c"
  "cy_arr (fold (\<lambda>(e, p). slot_set e p) ps c) = cy_arr c"
  "cy_sparse (fold (\<lambda>(e, p). slot_set e p) ps c) = cy_sparse c"
  "cy_waiting (fold (\<lambda>(e, p). slot_set e p) ps c) = cy_waiting c"
  "cy_sparse_stale (fold (\<lambda>(e, p). slot_set e p) ps c) = cy_sparse_stale c"
  "cy_unique_live (fold (\<lambda>(e, p). slot_set e p) ps c) = cy_unique_live c"
  by (induction ps arbitrary: c) (auto simp: case_prod_unfold)

lemma slot_get_fold:
  "e \<notin> fst ` set ps \<Longrightarrow> slot_get e (fold (\<lambda>(e, p). slot_set e p) ps c) = slot_get e c"
  "distinct (map fst ps) \<Longrightarrow> (e, p) \<in> set ps \<Longrightarrow> slot_get e (fold (\<lambda>(e, p). slot_set e p) ps c) \<in> {None, Some p}"
proof (induction ps arbitrary: c)
  case (Cons q ps)
  obtain e' p' where q: "q = (e', p')" by (cases q)
  { case 1
    then show ?case using Cons.IH(1)[of "slot_set e' p' c"] by (simp add: q slot_get_set(2)) }
  { case 2
    show ?case
    proof (cases "e = e'")
      case True
      then have "p = p'" "e \<notin> fst ` set ps" using 2 by (force simp: q)+
      then show ?thesis using slot_get_set(1)[of e p c] Cons.IH(1)[of "slot_set e' p' c"] True by (simp add: q)
    next
      case False
      then show ?thesis using 2 Cons.IH(2)[of "slot_set e' p' c"] by (simp add: q)
    qed }
qed simp_all

lemma in_array_writer: "in_array v c \<longleftrightarrow> writer_dense_at v c \<noteq> None"
  by (auto simp: in_array_def writer_dense_at_def split: option.split)

lemma writer_set_element:
  assumes "low_ok (cy_low_base c)" "dense_slot (cy_low_base c) v = Some (k, i)" "i < length (cy_arr c k)"
  shows "writer_dense_at w (set_element k i s c) = (if w = v then Some s else writer_dense_at w c)"
proof (cases "dense_slot (cy_low_base c) w")
  case (Some ki)
  obtain k' i' where ki: "ki = (k', i')" by (cases ki)
  have "k' = k \<and> i' = i \<longleftrightarrow> w = v"
    using Some assms(2) ki dense_slot_iff[OF assms(1)] by (metis option.inject prod.inject)
  then show ?thesis using Some ki assms(3) by (auto simp: writer_dense_at_def set_element_def)
qed (use assms(2) in \<open>auto simp: writer_dense_at_def set_element_def\<close>)

lemma set_element_keeps [simp]:
  "cy_slots (set_element k i s c) = cy_slots c" "cy_marks_on (set_element k i s c) = cy_marks_on c"
  "cy_low_base (set_element k i s c) = cy_low_base c" "cy_sparse (set_element k i s c) = cy_sparse c"
  "cy_waiting (set_element k i s c) = cy_waiting c" "cy_sparse_stale (set_element k i s c) = cy_sparse_stale c"
  "cy_unique_live (set_element k i s c) = cy_unique_live c" "length (cy_arr (set_element k i s c) k') = length (cy_arr c k')"
  "slot_get e (set_element k i s c) = slot_get e c"
  by (auto simp: set_element_def slot_get_def)

section \<open>The invariant of the arrays\<close>

definition dense_inv :: "u32 set \<Rightarrow> cylinder \<Rightarrow> (u32 \<Rightarrow> u64 option) \<Rightarrow> bool" where
  "dense_inv I c M \<longleftrightarrow> low_ok (cy_low_base c) \<and> (\<forall>k. length (cy_arr c k) \<le> region_cap k) \<and>
     (\<forall>v s. writer_dense_at v c = Some s \<longrightarrow> bucket_inv I (cy_marks_on c) (\<lambda>e. slot_get e c) (holders M v) s) \<and>
     cy_unique_live c = card {v. in_array v c \<and> holders M v \<noteq> {}}"

lemma holders_upd:
  "holders (M(e \<mapsto> v)) w = (if w = v then insert e (holders M v) else holders M w - {e})"
  "holders (M(e := None)) w = holders M w - {e}"
  by (auto simp: holders_def)

lemma holders_apart: "e \<in> holders M v \<Longrightarrow> e \<in> holders M w \<Longrightarrow> w = v"
  by (simp add: holders_def)

lemma dense_invD:
  assumes "dense_inv I c M"
  shows "low_ok (cy_low_base c)" "length (cy_arr c k) \<le> region_cap k"
    "writer_dense_at v c = Some s \<Longrightarrow> bucket_inv I (cy_marks_on c) (\<lambda>e. slot_get e c) (holders M v) s"
    "cy_unique_live c = card {v. in_array v c \<and> holders M v \<noteq> {}}"
  using assms by (auto simp: dense_inv_def)

text \<open>Only the ids whose value lies in an array matter.\<close>

lemma dense_inv_cong:
  assumes "\<And>e v. in_array v c \<Longrightarrow> M e = Some v \<longleftrightarrow> M' e = Some v"
  shows "dense_inv I c M = dense_inv I c M'"
proof -
  have h: "in_array v c \<Longrightarrow> holders M v = holders M' v" for v using assms by (auto simp: holders_def)
  then have "{v. in_array v c \<and> holders M v \<noteq> {}} = {v. in_array v c \<and> holders M' v \<noteq> {}}" by auto
  then show ?thesis unfolding dense_inv_def using h in_array_writer by (metis option.distinct(1))
qed

text \<open>One element changes; the table of positions changes only for ids of its value.\<close>

lemma dense_inv_step:
  assumes inv: "dense_inv I c M" and at: "dense_slot (cy_low_base c) v = Some (k, i)" "i < length (cy_arr c k)"
    and keep: "cy_low_base c' = cy_low_base c" "cy_marks_on c' = cy_marks_on c" "cy_arr c' = cy_arr (set_element k i s c)"
    and b: "bucket_inv I (cy_marks_on c) (\<lambda>e. slot_get e c') (holders M' v) s"
    and others: "\<And>w. w \<noteq> v \<Longrightarrow> in_array w c \<Longrightarrow> holders M' w = holders M w"
    and pos: "\<And>e w. w \<noteq> v \<Longrightarrow> in_array w c \<Longrightarrow> e \<in> holders M w \<Longrightarrow> slot_get e c' = slot_get e c"
    and live: "cy_unique_live c' = card {w. in_array w c \<and> holders M' w \<noteq> {}}"
  shows "dense_inv I c' M'"
proof -
  note d = dense_invD[OF inv]
  have w: "writer_dense_at w c' = (if w = v then Some s else writer_dense_at w c)" for w
    unfolding writer_set_element[OF d(1) at, of w s, symmetric] by (simp only: writer_dense_at_def keep(1,3) set_element_keeps)
  have "in_array v c" using at by (simp add: in_array_def)
  then have ia: "in_array w c' = in_array w c" for w by (auto simp: in_array_writer w)
  have "bucket_inv I (cy_marks_on c') (\<lambda>e. slot_get e c') (holders M' w) s'" if "writer_dense_at w c' = Some s'" for w s'
  proof (cases "w = v")
    case True
    then show ?thesis using that b by (simp add: w keep)
  next
    case False
    then have "writer_dense_at w c = Some s'" "in_array w c" using that by (auto simp: w in_array_writer)
    then show ?thesis
      using d(3)[of w s'] others[OF False] pos[OF False] keep(2) bucket_inv_cong[of "holders M w" "\<lambda>e. slot_get e c'" "\<lambda>e. slot_get e c"]
      by simp
  qed
  then show ?thesis using d(1,2) live by (simp add: dense_inv_def keep ia set_element_def)
qed

lemma unique_live_insert:
  assumes "in_array v c" "M e = None \<or> (\<exists>u. M e = Some u \<and> \<not> in_array u c)"
  shows "card {w. in_array w c \<and> holders (M(e \<mapsto> v)) w \<noteq> {}} =
    card {w. in_array w c \<and> holders M w \<noteq> {}} + (if holders M v = {} then 1 else 0)"
proof -
  have "e \<notin> holders M w" if "in_array w c" for w using assms(2) that by (auto simp: holders_def)
  then have "{w. in_array w c \<and> holders (M(e \<mapsto> v)) w \<noteq> {}} = insert v {w. in_array w c \<and> holders M w \<noteq> {}}"
    using assms(1) by (auto simp: holders_upd)
  then show ?thesis using assms(1) by (auto simp: card_insert_if)
qed

lemma unique_live_remove:
  assumes "in_array v c" "M e = Some v"
  shows "card {w. in_array w c \<and> holders (M(e := None)) w \<noteq> {}} =
    card {w. in_array w c \<and> holders M w \<noteq> {}} - (if holders M v = {e} then 1 else 0)"
proof -
  have o: "holders (M(e := None)) w = holders M w" if "w \<noteq> v" for w using assms(2) that by (auto simp: holders_def)
  have "{w. in_array w c \<and> holders (M(e := None)) w \<noteq> {}} =
      (if holders M v = {e} then {w. in_array w c \<and> holders M w \<noteq> {}} - {v} else {w. in_array w c \<and> holders M w \<noteq> {}})"
  proof (intro set_eqI)
    fix w
    show "w \<in> {w. in_array w c \<and> holders (M(e := None)) w \<noteq> {}} \<longleftrightarrow>
      w \<in> (if holders M v = {e} then {w. in_array w c \<and> holders M w \<noteq> {}} - {v} else {w. in_array w c \<and> holders M w \<noteq> {}})"
    proof (cases "w = v")
      case True
      have "e \<in> holders M v" using assms(2) by (simp add: holders_def)
      then show ?thesis using True by (auto simp: holders_upd)
    qed (simp add: o)
  qed
  moreover have "v \<in> {w. in_array w c \<and> holders M w \<noteq> {}}" using assms by (auto simp: holders_def)
  ultimately show ?thesis by (simp add: card_Diff_singleton)
qed

text \<open>Inserting into an array.\<close>

lemma dense_push:
  assumes inv: "dense_inv I c M" and at: "dense_slot (cy_low_base c) v = Some (k, i)" "i < length (cy_arr c k)"
    and e: "M e = None \<or> (\<exists>u. M e = Some u \<and> \<not> in_array u c)" and eI: "e \<in> I"
    and p: "push_slot_with cap k (cy_arr c k ! i) e c = (s, c')"
  shows "dense_inv I (set_element k i s c') (M(e \<mapsto> v))"
    "cy_arr c' = cy_arr c" "cy_low_base c' = cy_low_base c" "cy_marks_on c' = cy_marks_on c" "cy_sparse c' = cy_sparse c"
    "cy_waiting c' = cy_waiting c" "cy_sparse_stale c' = cy_sparse_stale c"
proof -
  have ia: "in_array v c" "writer_dense_at v c = Some (cy_arr c k ! i)"
    using at by (simp_all add: in_array_def writer_dense_at_def)
  have en: "e \<notin> holders M w" if "in_array w c" for w using e that by (auto simp: holders_def)
  note bi = dense_invD(3)[OF inv ia(2)]
  obtain b created where g: "get_or_create_with cap (cy_marks_on c) (cy_arr c k ! i) = (b, created)" by (metis surj_pair)
  obtain b1 l where q: "push_in e b = (b1, l)" by (metis surj_pair)
  let ?c1 = "if created then c\<lparr>cy_used := (cy_used c)(k := cy_used c k + 1)\<rparr> else c"
  have cs: "s = Some (fst (live_inc b1))" "c' = bump_stats (l = 0) (snd (live_inc b1) = 0) (slot_set e l ?c1)"
    using p by (auto simp: push_slot_with_def g q Let_def split: prod.splits)
  show keeps: "cy_arr c' = cy_arr c" "cy_low_base c' = cy_low_base c" "cy_marks_on c' = cy_marks_on c" "cy_sparse c' = cy_sparse c"
    "cy_waiting c' = cy_waiting c" "cy_sparse_stale c' = cy_sparse_stale c"
    by (simp_all add: cs(2) bump_stats_def)
  have sg: "slot_get x c' = slot_get x (slot_set e l ?c1)" for x by (simp add: cs(2) bump_stats_def slot_get_def)
  have s1: "slot_get x ?c1 = slot_get x c" for x by (simp add: slot_get_def)
  have pos: "slot_get e c' \<in> {None, Some l}" "x \<noteq> e \<Longrightarrow> slot_get x c' = slot_get x c" for x
    unfolding sg using slot_get_set(1)[of e l ?c1] slot_get_set(2)[of x e l ?c1] s1 by simp_all
  have pb: "bucket_inv I (cy_marks_on c) (\<lambda>x. slot_get x c') (insert e (holders M v)) s" "snd (live_inc b1) = card (holders M v)"
    unfolding cs(1)
    by (rule push_bucket_inv[where pos' = "\<lambda>x. slot_get x c'", OF get_or_create_inv(1)[OF bi g] en[OF ia(1)] eI q pos(1)];
      use pos(2) en[OF ia(1)] in metis)+
  show "dense_inv I (set_element k i s c') (M(e \<mapsto> v))"
  proof (rule dense_inv_step[OF inv at])
    show "cy_low_base (set_element k i s c') = cy_low_base c" "cy_marks_on (set_element k i s c') = cy_marks_on c"
      by (simp_all add: keeps)
    show "cy_arr (set_element k i s c') = cy_arr (set_element k i s c)" by (simp add: set_element_def keeps(1))
    show "bucket_inv I (cy_marks_on c) (\<lambda>e. slot_get e (set_element k i s c')) (holders (M(e \<mapsto> v)) v) s"
      using pb(1) by (simp add: holders_upd)
    show "holders (M(e \<mapsto> v)) w = holders M w" if "w \<noteq> v" "in_array w c" for w
      using en[OF that(2)] that(1) by (simp add: holders_upd)
    show "slot_get x (set_element k i s c') = slot_get x c" if "in_array w c" "x \<in> holders M w" for x w
      using pos(2)[of x] en[OF that(1)] that(2) by auto
    show "cy_unique_live (set_element k i s c') = card {w. in_array w c \<and> holders (M(e \<mapsto> v)) w \<noteq> {}}"
      using pb(2) dense_invD(4)[OF inv] unfolding unique_live_insert[where M = M and e = e, OF ia(1) e]
      by (simp add: cs(2) bump_stats_def)
  qed
qed

text \<open>An id leaves a value of an array.\<close>

lemma dense_stale:
  assumes inv: "dense_inv I c M" and e: "M e = Some v" and ia: "in_array v c" and n: "note_stale_of_in v e c = (c', r)"
  shows "dense_inv I c' (M(e := None))" "in_array w c' = in_array w c" "cy_low_base c' = cy_low_base c" "cy_marks_on c' = cy_marks_on c"
    "cy_sparse c' = cy_sparse c" "cy_waiting c' = cy_waiting c" "cy_sparse_stale c' = cy_sparse_stale c"
    "length (cy_arr c' k) = length (cy_arr c k)" "\<exists>len. r = Some (len, card (holders M v) - 1)"
proof -
  obtain ka i where at: "dense_slot (cy_low_base c) v = Some (ka, i)" "i < length (cy_arr c ka)"
    using ia by (auto simp: in_array_def split: option.splits)
  have ev: "e \<in> holders M v" using e by (simp add: holders_def)
  have bi0: "bucket_inv I (cy_marks_on c) (\<lambda>e. slot_get e c) (holders M v) (cy_arr c ka ! i)"
    using dense_invD(3)[OF inv, of v] at by (simp add: writer_dense_at_def)
  then obtain b where b: "cy_arr c ka ! i = Some b" using ev by (cases "cy_arr c ka ! i") (auto simp: bucket_inv_def)
  let ?b1 = "if cy_marks_on c then bucket_mark_stale (map_option (\<lambda>p. (p, e)) (slot_get e c)) b else b"
  obtain b2 q where q: "bucket_note_stale ?b1 = (b2, q)" by (metis surj_pair)
  note st = stale_bucket_inv[OF bi0[unfolded b] ev refl q]
  have c1: "card (holders M v) - 1 = 0 \<longleftrightarrow> holders M v = {e}"
    using ev by (metis card_1_singletonE card_gt_0_iff diff_is_0_eq finite_u32(1) le_antisym less_one not_le singletonD One_nat_def Suc_leI card.empty card_insert_if empty_iff finite.emptyI leI diff_self_eq_0)
  let ?c1 = "set_element ka i (Some b2) (c\<lparr>cy_any_removed := True\<rparr>)"
  let ?u = "cy_unique_live c - (if holders M v = {e} then 1 else 0)"
  have sg: "slot_get x (c\<lparr>cy_any_removed := True\<rparr>) = slot_get x c" for x by (simp add: slot_get_def)
  have nr: "c' = ?c1\<lparr>cy_unique_live := ?u\<rparr>" "r = Some (unat (b_wlen b2), card (holders M v) - 1)"
    using n at b q st(2) c1
    by (auto simp: note_stale_of_in_def note_stale_at_def Let_def sg split: if_splits)
  show keeps: "cy_low_base c' = cy_low_base c" "cy_marks_on c' = cy_marks_on c"
    "cy_sparse c' = cy_sparse c" "cy_waiting c' = cy_waiting c" "cy_sparse_stale c' = cy_sparse_stale c"
    "length (cy_arr c' k) = length (cy_arr c k)" for k
    by (simp_all add: nr set_element_def)
  show "in_array w c' = in_array w c" by (simp add: in_array_def keeps split: option.split)
  show "\<exists>len. r = Some (len, card (holders M v) - 1)" using nr(2) by blast
  have sg2: "slot_get x c' = slot_get x c" for x by (simp add: nr slot_get_def set_element_def)
  show "dense_inv I c' (M(e := None))"
  proof (rule dense_inv_step[OF inv at])
    show "cy_arr c' = cy_arr (set_element ka i (Some b2) c)" by (simp add: nr set_element_def)
    show "bucket_inv I (cy_marks_on c) (\<lambda>e. slot_get e c') (holders (M(e := None)) v) (Some b2)"
      using st(1) by (simp add: sg2 holders_upd)
    show "holders (M(e := None)) w = holders M w" if "w \<noteq> v" for w using that e by (auto simp: holders_def)
    show "cy_unique_live c' = card {w. in_array w c \<and> holders (M(e := None)) w \<noteq> {}}"
      unfolding unique_live_remove[where M = M, OF ia e] using dense_invD(4)[OF inv] by (simp add: nr)
  qed (simp_all add: keeps sg2)
qed

text \<open>A bucket is rebuilt from the ids that carry its value.\<close>

lemma compact_bucket_empty: "\<nexists>b. writer_dense_at v c = Some (Some b) \<Longrightarrow> compact_bucket v keep c = (c, 0)"
  by (auto simp: writer_dense_at_def compact_bucket_def split: option.splits if_splits)

lemma dense_compact:
  assumes inv: "dense_inv I c M" and c': "compact_bucket v keep c = (c', n)"
    and keep: "\<forall>b. writer_dense_at v c = Some (Some b) \<longrightarrow> (\<forall>e \<in> set (b_data b). keep e \<longleftrightarrow> M e = Some v)"
  shows "dense_inv I c' M" "in_array w c' = in_array w c" "cy_low_base c' = cy_low_base c" "cy_marks_on c' = cy_marks_on c"
    "cy_sparse c' = cy_sparse c" "cy_waiting c' = cy_waiting c" "cy_sparse_stale c' = cy_sparse_stale c"
    "length (cy_arr c' k) = length (cy_arr c k)"
    "\<And>b. writer_dense_at v c' = Some (Some b) \<Longrightarrow> \<not> b_removed b"
proof -
  have "dense_inv I c' M \<and> (\<forall>w. in_array w c' = in_array w c) \<and> cy_low_base c' = cy_low_base c \<and> cy_marks_on c' = cy_marks_on c \<and>
    cy_sparse c' = cy_sparse c \<and> cy_waiting c' = cy_waiting c \<and> cy_sparse_stale c' = cy_sparse_stale c \<and>
    (\<forall>k. length (cy_arr c' k) = length (cy_arr c k)) \<and> (\<forall>b. writer_dense_at v c' = Some (Some b) \<longrightarrow> \<not> b_removed b)"
  proof (cases "\<exists>b. writer_dense_at v c = Some (Some b)")
    case False
    then have "c' = c" using c' compact_bucket_empty[of v c keep] by auto
    then show ?thesis using False inv by auto
  next
    case True
    then obtain b ka i where at: "dense_slot (cy_low_base c) v = Some (ka, i)" "i < length (cy_arr c ka)" "cy_arr c ka ! i = Some b"
      and w: "writer_dense_at v c = Some (Some b)"
      by (auto simp: writer_dense_at_def split: option.splits if_splits)
    obtain b' live placed where cp: "compact_in_placed keep b = (b', live, placed)" by (metis prod_cases3)
    define c1 where "c1 = set_element ka i (Some b') c"
    have c'_eq: "c' = fold (\<lambda>(e, p). slot_set e p) placed c1"
      using c' at cp by (simp add: compact_bucket_def c1_def)
    note bi = dense_invD(3)[OF inv w]
    have kh: "keep e \<longleftrightarrow> e \<in> holders M v" if "e \<in> set (b_data b)" for e using keep w that by (simp add: holders_def)
    have ids: "map fst placed = sorted_list_of_set (holders M v)"
      using compact_bucket_inv(2)[OF bi kh cp, of "\<lambda>_. None"] by simp
    have pos: "(e, p) \<in> set placed \<Longrightarrow> slot_get e c' \<in> {None, Some p}" for e p
      unfolding c'_eq using slot_get_fold(2)[of placed e p c1] ids by simp
    have pos': "e \<notin> holders M v \<Longrightarrow> slot_get e c' = slot_get e c" for e
      unfolding c'_eq using slot_get_fold(1)[of e placed c1] arg_cong[OF ids, of set] by (simp add: c1_def)
    note bc = compact_bucket_inv[OF bi kh cp, of "\<lambda>e. slot_get e c'", OF _ pos]
    have keeps: "cy_low_base c' = cy_low_base c" "cy_marks_on c' = cy_marks_on c" "cy_arr c' = cy_arr c1"
      "cy_sparse c' = cy_sparse c" "cy_waiting c' = cy_waiting c" "cy_sparse_stale c' = cy_sparse_stale c"
      "cy_unique_live c' = cy_unique_live c"
      by (simp_all add: c'_eq c1_def)
    have "dense_inv I c' M"
    proof (rule dense_inv_step[OF inv at(1,2)])
      show "slot_get e c' = slot_get e c" if "w \<noteq> v" "e \<in> holders M w" for e w
        using pos'[of e] that holders_apart[of e M w v] by blast
      show "cy_unique_live c' = card {w. in_array w c \<and> holders M w \<noteq> {}}" using dense_invD(4)[OF inv] by (simp add: keeps)
      show "cy_arr c' = cy_arr (set_element ka i (Some b') c)" by (simp add: keeps c1_def)
    qed (use bc(1) keeps in simp_all)
    moreover have "in_array w c' = in_array w c" for w
      by (simp add: in_array_def keeps c1_def split: option.split)
    moreover have "writer_dense_at v c' = Some (Some b')"
      using at by (simp add: writer_dense_at_def keeps c1_def) (simp add: set_element_def)
    ultimately show ?thesis using keeps bc(4) by (simp add: c1_def)
  qed
  then show "dense_inv I c' M" "in_array w c' = in_array w c" "cy_low_base c' = cy_low_base c" "cy_marks_on c' = cy_marks_on c"
    "cy_sparse c' = cy_sparse c" "cy_waiting c' = cy_waiting c" "cy_sparse_stale c' = cy_sparse_stale c"
    "length (cy_arr c' k) = length (cy_arr c k)"
    "\<And>b. writer_dense_at v c' = Some (Some b) \<Longrightarrow> \<not> b_removed b" by blast+
qed

section \<open>The invariant of the index\<close>

definition window_of :: "u64 \<Rightarrow> u64 \<Rightarrow> dense_array option" where
  "window_of low v = map_option fst (dense_slot low v)"

definition sparse_live :: "cylinder \<Rightarrow> (u32 \<Rightarrow> u64 option) \<Rightarrow> entry_pair set" where
  "sparse_live c M = {(v, e). M e = Some v \<and> \<not> in_array v c}"

abbreviation cy_entries :: "cylinder \<Rightarrow> entry_pair list" where
  "cy_entries c \<equiv> rs_entries (cy_sparse c)"

abbreviation NO_VALUE :: u64 where
  "NO_VALUE \<equiv> 0xFFFFFFFFFFFFFFFF"

text \<open>
  The runs hold every id whose value lies outside the arrays and no entry of a value inside
  them; the counter of stale entries is exact, as are the counters of waiting entries.
\<close>

definition sparse_inv :: "u32 set \<Rightarrow> cylinder \<Rightarrow> (u32 \<Rightarrow> u64 option) \<Rightarrow> bool" where
  "sparse_inv I c M \<longleftrightarrow> rs_ok (cy_sparse c) \<and> snd ` set (cy_entries c) \<subseteq> I \<and>
     sparse_live c M \<subseteq> set (cy_entries c) \<and> cy_sparse_stale c + card (sparse_live c M) = length (cy_entries c) \<and>
     (\<forall>p \<in> set (cy_entries c). \<not> in_array (fst p) c) \<and>
     (\<forall>k. cy_waiting c k = length (filter (\<lambda>p. window_of (cy_low_base c) (fst p) = Some k) (cy_entries c))) \<and>
     (\<forall>p \<in> set (cy_entries c). fst p \<noteq> NO_VALUE)"

definition cyl_inv :: "u32 set \<Rightarrow> cylinder \<Rightarrow> (u32 \<Rightarrow> u64 option) \<Rightarrow> bool" where
  "cyl_inv I c M \<longleftrightarrow> dense_inv I c M \<and> sparse_inv I c M"

lemma dense_inv_fields:
  assumes "cy_slots c' = cy_slots c" "cy_marks_on c' = cy_marks_on c" "cy_low_base c' = cy_low_base c" "cy_arr c' = cy_arr c"
    "cy_unique_live c' = cy_unique_live c"
  shows "dense_inv I c' M = dense_inv I c M"
  unfolding dense_inv_def writer_dense_at_def in_array_def slot_get_def assms ..

lemma in_array_fields: "cy_low_base c' = cy_low_base c \<Longrightarrow> cy_arr c' = cy_arr c \<Longrightarrow> in_array v c' = in_array v c"
  by (simp only: in_array_def)

lemma writer_fields: "cy_low_base c' = cy_low_base c \<Longrightarrow> cy_arr c' = cy_arr c \<Longrightarrow> writer_dense_at v c' = writer_dense_at v c"
  by (simp only: writer_dense_at_def)

lemma in_array_lens:
  assumes "cy_low_base c' = cy_low_base c" "\<And>k. length (cy_arr c' k) = length (cy_arr c k)"
  shows "in_array v c' = in_array v c"
  unfolding in_array_def assms ..

text \<open>The sparse part only depends on the runs, the counters and the lengths of the arrays.\<close>

lemma sparse_inv_fields:
  assumes "cy_low_base c' = cy_low_base c" "\<And>k. length (cy_arr c' k) = length (cy_arr c k)"
    "cy_sparse c' = cy_sparse c" "cy_waiting c' = cy_waiting c" "cy_sparse_stale c' = cy_sparse_stale c"
    and M: "\<And>e v. \<not> in_array v c \<Longrightarrow> M' e = Some v \<longleftrightarrow> M e = Some v"
  shows "sparse_inv I c' M' = sparse_inv I c M"
proof -
  have ia: "in_array v c' = in_array v c" for v using in_array_lens[OF assms(1,2)] .
  have "sparse_live c' M' = sparse_live c M" using M by (auto simp: sparse_live_def ia)
  then show ?thesis by (simp add: sparse_inv_def ia assms(1,3-5))
qed

lemma sparse_invD:
  assumes "sparse_inv I c M"
  shows "rs_ok (cy_sparse c)" "snd ` set (cy_entries c) \<subseteq> I" "sparse_live c M \<subseteq> set (cy_entries c)"
    "cy_sparse_stale c + card (sparse_live c M) = length (cy_entries c)" "\<And>p. p \<in> set (cy_entries c) \<Longrightarrow> \<not> in_array (fst p) c"
    "cy_waiting c k = length (filter (\<lambda>p. window_of (cy_low_base c) (fst p) = Some k) (cy_entries c))"
    "\<And>p. p \<in> set (cy_entries c) \<Longrightarrow> fst p \<noteq> NO_VALUE"
  using assms by (auto simp: sparse_inv_def)

lemma no_stale_exact:
  assumes "sparse_inv I c M" "cy_sparse_stale c = 0"
  shows "set (cy_entries c) = sparse_live c M" "distinct (cy_entries c)"
proof -
  note s = sparse_invD[OF assms(1)]
  have le: "card (set (cy_entries c)) \<le> card (sparse_live c M)" using s(4) assms(2) card_length[of "cy_entries c"] by simp
  show eq: "set (cy_entries c) = sparse_live c M" using card_seteq[OF _ s(3) le] by simp
  show "distinct (cy_entries c)" using s(4) assms(2) eq by (simp add: card_distinct)
qed

subsection \<open>Windows and ranges of values\<close>

lemma in_window_iff:
  assumes "low_ok low"
  shows "window_of low v = Some k \<longleftrightarrow> in_window low k v"
  unfolding window_of_def dense_slot_window[OF assms] using assms
  by (cases k) (auto simp: in_window_def low_ok_def)

lemma region_values_range:
  assumes low: "low_ok low" and r: "from < to" "to \<le> region_cap k" and lh: "region_values low k from to = (lo, hi)"
  shows "lo \<le> v \<and> v \<le> hi \<longleftrightarrow> (\<exists>i. dense_slot low v = Some (k, i) \<and> from \<le> i \<and> i < to)"
proof -
  obtain t where t: "to = Suc t" using r(1) by (cases to) auto
  have u: "unat (slot_value low k from) = (case k of LOW \<Rightarrow> unat low + from | POS \<Rightarrow> 2 ^ 63 + from | NEG \<Rightarrow> 2 ^ 63 - 1 - from)"
    "unat (slot_value low k t) = (case k of LOW \<Rightarrow> unat low + t | POS \<Rightarrow> 2 ^ 63 + t | NEG \<Rightarrow> 2 ^ 63 - 1 - t)"
    using unat_slot_value[OF low, of "from" k] unat_slot_value[OF low, of t k] r by (simp_all add: t)
  have lohi: "lo = min (slot_value low k from) (slot_value low k t)" "hi = max (slot_value low k from) (slot_value low k t)"
    using lh by (simp_all add: region_values_def Let_def t)
  have mm: "unat (min a b) = min (unat a) (unat b)" "unat (max a b) = max (unat a) (unat b)" for a b :: u64
    by (simp_all add: min_def max_def word_le_nat_alt)
  show ?thesis
  proof (cases k)
    case LOW
    then have "lo \<le> v \<and> v \<le> hi \<longleftrightarrow> unat low + from \<le> unat v \<and> unat v \<le> unat low + t"
      using r u by (auto simp: word_le_nat_alt lohi mm t)
    also have "\<dots> \<longleftrightarrow> (\<exists>i. dense_slot low v = Some (k, i) \<and> from \<le> i \<and> i < to)"
      using r LOW unfolding dense_slot_window[OF low] by (auto simp: in_window_def region_cap_def t)
    finally show ?thesis .
  next
    case POS
    then have "lo \<le> v \<and> v \<le> hi \<longleftrightarrow> 2 ^ 63 + from \<le> unat v \<and> unat v \<le> 2 ^ 63 + t"
      using r u by (auto simp: word_le_nat_alt lohi mm t)
    also have "\<dots> \<longleftrightarrow> (\<exists>i. dense_slot low v = Some (k, i) \<and> from \<le> i \<and> i < to)"
      using r POS low unfolding dense_slot_window[OF low] by (auto simp: in_window_def region_cap_def low_ok_def t)
    finally show ?thesis .
  next
    case NEG
    then have "lo \<le> v \<and> v \<le> hi \<longleftrightarrow> 2 ^ 63 - to \<le> unat v \<and> unat v \<le> 2 ^ 63 - 1 - from"
      using r u by (auto simp: word_le_nat_alt lohi mm region_cap_def t)
    also have "\<dots> \<longleftrightarrow> (\<exists>i. dense_slot low v = Some (k, i) \<and> from \<le> i \<and> i < to)"
      using r NEG low unfolding dense_slot_window[OF low] by (auto simp: in_window_def region_cap_def low_ok_def t)
    finally show ?thesis .
  qed
qed

lemma recount_waiting_exact:
  assumes low: "low_ok (cy_low_base c)" and ok: "rs_ok (cy_sparse c)" and out: "\<forall>p \<in> set (cy_entries c). \<not> in_array (fst p) c"
  shows "cy_waiting (recount_waiting c) k = length (filter (\<lambda>p. window_of (cy_low_base c) (fst p) = Some k) (cy_entries c))"
proof (cases "length (cy_arr c k) < region_cap k")
  case True
  obtain lo hi where lh: "region_values (cy_low_base c) k (length (cy_arr c k)) (region_cap k) = (lo, hi)" by (metis surj_pair)
  have "lo \<le> fst p \<and> fst p \<le> hi \<longleftrightarrow> window_of (cy_low_base c) (fst p) = Some k" if "p \<in> set (cy_entries c)" for p
    using out that region_values_range[OF low True order_refl lh, of "fst p"] dense_slot_iff[OF low, of "fst p" k]
    by (auto simp: window_of_def in_array_def not_less split: option.splits)
  then have "filter (\<lambda>p. lo \<le> fst p \<and> fst p \<le> hi) (cy_entries c) = filter (\<lambda>p. window_of (cy_low_base c) (fst p) = Some k) (cy_entries c)"
    by (intro filter_cong refl) blast
  then show ?thesis using True lh by (simp add: recount_waiting_def count_in_filter[OF ok])
next
  case False
  have "window_of (cy_low_base c) (fst p) \<noteq> Some k" if "p \<in> set (cy_entries c)" for p
    using out that False iffD1[OF dense_slot_iff[OF low, of "fst p" k]]
    by (fastforce simp: window_of_def in_array_def not_less split: option.splits)
  then show ?thesis using False by (simp add: recount_waiting_def)
qed

section \<open>The operations keep the index\<close>

lemma cyl_note_stale:
  assumes inv: "cyl_inv I c M" and e: "M e = Some v" and n: "note_stale_of_in v e c = (c', r)"
  shows "cyl_inv I c' (M(e := None))" "in_array w c' = in_array w c"
    "would_grow w c' = would_grow w c"
proof -
  have d: "dense_inv I c M" and sp: "sparse_inv I c M" using inv by (simp_all add: cyl_inv_def)
  have "cyl_inv I c' (M(e := None)) \<and> (in_array w c' = in_array w c)"
  proof (cases "in_array v c")
    case True
    note st = dense_stale[OF d e True n]
    have "sparse_inv I c' (M(e := None)) = sparse_inv I c M"
      by (rule sparse_inv_fields) (use st True e in auto)
    then show ?thesis using st(1,2) sp by (simp add: cyl_inv_def)
  next
    case False
    have c': "c' = c\<lparr>cy_any_removed := True, cy_sparse_stale := cy_sparse_stale c + 1\<rparr>"
      using n False by (auto simp: note_stale_of_in_def note_stale_at_def in_array_def Let_def split: option.splits if_splits prod.splits)
    have ia: "in_array w c' = in_array w c" for w by (rule in_array_fields) (simp_all add: c')
    have "dense_inv I c' (M(e := None)) = dense_inv I c' M"
      by (rule dense_inv_cong) (use e False in \<open>auto simp: ia\<close>)
    also have "\<dots> = dense_inv I c M" by (rule dense_inv_fields) (simp_all add: c')
    finally have d': "dense_inv I c' (M(e := None))" using d by simp
    have sl: "sparse_live c' (M(e := None)) = sparse_live c M - {(v, e)}" "(v, e) \<in> sparse_live c M"
      using e False by (auto simp: sparse_live_def ia)
    have "card (sparse_live c M) > 0" using sl(2) by (auto simp: card_gt_0_iff)
    moreover have "cy_sparse c' = cy_sparse c" "cy_sparse_stale c' = Suc (cy_sparse_stale c)" "cy_waiting c' = cy_waiting c"
      "cy_low_base c' = cy_low_base c" by (simp_all add: c')
    ultimately have "sparse_inv I c' (M(e := None))"
      using sp sl by (auto simp: sparse_inv_def ia)
    then show ?thesis using d' ia by (simp add: cyl_inv_def)
  qed
  then show "cyl_inv I c' (M(e := None))" "in_array w c' = in_array w c" by blast+
  have "cy_low_base c' = cy_low_base c \<and> (\<forall>k. length (cy_arr c' k) = length (cy_arr c k)) \<and> cy_used c' = cy_used c \<and> cy_waiting c' = cy_waiting c"
    using n by (auto simp: note_stale_of_in_def note_stale_at_def set_element_def Let_def split: option.splits if_splits prod.splits)
  then show "would_grow w c' = would_grow w c"
    by (simp add: would_grow_def grow_too_sparse_def Let_def split: option.split)
qed

lemma cyl_compact_bucket:
  assumes inv: "cyl_inv I c M" and c': "compact_bucket v keep c = (c', n)"
    and keep: "\<And>e. e \<in> I \<Longrightarrow> keep e \<longleftrightarrow> M e = Some v"
  shows "cyl_inv I c' M" "in_array w c' = in_array w c" "\<And>b. writer_dense_at v c' = Some (Some b) \<Longrightarrow> \<not> b_removed b"
proof -
  have d: "dense_inv I c M" and sp: "sparse_inv I c M" using inv by (simp_all add: cyl_inv_def)
  have k: "\<forall>b. writer_dense_at v c = Some (Some b) \<longrightarrow> (\<forall>e \<in> set (b_data b). keep e \<longleftrightarrow> M e = Some v)"
    using dense_invD(3)[OF d, of v] keep by (fastforce simp: bucket_inv_def)
  note dc = dense_compact[OF d c' k]
  have "sparse_inv I c' M = sparse_inv I c M" by (rule sparse_inv_fields) (simp_all only: dc(3-8))
  then show "cyl_inv I c' M" using dc(1) sp by (simp add: cyl_inv_def)
  show "in_array w c' = in_array w c" "\<And>b. writer_dense_at v c' = Some (Some b) \<Longrightarrow> \<not> b_removed b" using dc(2,9) by blast+
qed

lemma recount_keeps [simp]:
  "cy_slots (recount_waiting c) = cy_slots c" "cy_marks_on (recount_waiting c) = cy_marks_on c"
  "cy_low_base (recount_waiting c) = cy_low_base c" "cy_arr (recount_waiting c) = cy_arr c"
  "cy_sparse (recount_waiting c) = cy_sparse c" "cy_sparse_stale (recount_waiting c) = cy_sparse_stale c"
  "cy_unique_live (recount_waiting c) = cy_unique_live c"
  by (simp_all add: recount_waiting_def)

lemma cyl_compact_sparse:
  assumes inv: "cyl_inv I c M" and c': "compact_sparse keep c = (c', n)"
    and keep: "\<And>v e. e \<in> I \<Longrightarrow> v \<noteq> NO_VALUE \<Longrightarrow> keep (v, e) \<longleftrightarrow> M e = Some v"
  shows "cyl_inv I c' M" "in_array w c' = in_array w c" "cy_sparse_stale c' = 0"
proof -
  have d: "dense_inv I c M" and sp: "sparse_inv I c M" using inv by (simp_all add: cyl_inv_def)
  obtain rs removed where rs: "rs_rebuild keep (cy_sparse c) = (rs, removed)" by (metis surj_pair)
  note ok = rs_rebuild_ok[OF sparse_invD(1)[OF sp] rs]
  let ?c1 = "c\<lparr>cy_sparse := rs, cy_sparse_stale := 0\<rparr>"
  have c'_eq: "c' = recount_waiting ?c1" using c' by (simp add: compact_sparse_def rs)
  have ia: "in_array v c' = in_array v c" for v by (rule in_array_fields) (simp_all add: c'_eq)
  have "dense_inv I c' M = dense_inv I c M" by (rule dense_inv_fields) (simp_all add: c'_eq)
  moreover have "sparse_live c' M = sparse_live c M" by (simp add: sparse_live_def ia)
  moreover have e: "set (rs_entries rs) = sparse_live c M"
    using sparse_invD(2,3,5,7)[OF sp] keep by (fastforce simp: ok(3) sparse_live_def)
  moreover have "cy_waiting c' k = length (filter (\<lambda>p. window_of (cy_low_base c) (fst p) = Some k) (rs_entries rs))" for k
    using recount_waiting_exact[of ?c1 k] dense_invD(1)[OF d] ok(1) e in_array_fields[of ?c1 c]
    by (auto simp: c'_eq sparse_live_def)
  moreover have "card (sparse_live c M) = length (rs_entries rs)" using e ok(2) distinct_card by metis
  moreover have "snd ` set (rs_entries rs) \<subseteq> I" using sparse_invD(2)[OF sp] ok(3) by auto
  moreover have "\<not> in_array (fst p) c" "fst p \<noteq> NO_VALUE" if "p \<in> set (rs_entries rs)" for p
    using that sparse_invD(5,7)[OF sp] by (auto simp: ok(3))
  ultimately show "cyl_inv I c' M" using d ok(1) ia by (simp add: cyl_inv_def sparse_inv_def c'_eq)
  show "in_array w c' = in_array w c" "cy_sparse_stale c' = 0" by (rule ia) (simp add: c'_eq)
qed

text \<open>A value outside the arrays goes to the runs.\<close>

lemma cyl_insert_sparse:
  assumes inv: "cyl_inv I c M" and e: "M e = None" "e \<in> I" and v: "\<not> in_array v c" "v \<noteq> NO_VALUE"
    and c': "cy_slots c' = cy_slots (forget_slot e c)" "cy_marks_on c' = cy_marks_on c" "cy_low_base c' = cy_low_base c"
      "cy_arr c' = cy_arr c" "cy_unique_live c' = cy_unique_live c" "cy_sparse c' = rs_insert v e (cy_sparse c)"
      "cy_sparse_stale c' = cy_sparse_stale c"
      "\<And>k. cy_waiting c' k = cy_waiting c k + (if window_of (cy_low_base c) v = Some k then 1 else 0)"
  shows "cyl_inv I c' (M(e \<mapsto> v))"
proof -
  have d: "dense_inv I c M" and sp: "sparse_inv I c M" using inv by (simp_all add: cyl_inv_def)
  have ia: "in_array w c' = in_array w c" for w by (rule in_array_fields) (simp_all add: c')
  let ?f = "forget_slot e c"
  have wf: "writer_dense_at w ?f = writer_dense_at w c" "in_array w ?f = in_array w c" for w
    by (rule writer_fields in_array_fields; simp add: forget_slot_def)+
  have "bucket_inv I (cy_marks_on c) (\<lambda>x. slot_get x ?f) (holders M w) s = bucket_inv I (cy_marks_on c) (\<lambda>x. slot_get x c) (holders M w) s" for w s
    by (rule bucket_inv_cong) (use e in \<open>auto simp: holders_def forget_slot_def intro: slot_get_put\<close>)
  then have "dense_inv I ?f M = dense_inv I c M" by (simp add: dense_inv_def wf) (simp add: forget_slot_def)
  moreover have "dense_inv I c' M = dense_inv I ?f M" by (rule dense_inv_fields) (simp_all add: c' forget_slot_def)
  moreover have "dense_inv I c' (M(e \<mapsto> v)) = dense_inv I c' M"
    by (rule dense_inv_cong) (use e v in \<open>auto simp: ia\<close>)
  ultimately have d': "dense_inv I c' (M(e \<mapsto> v))" using d by simp
  note ok = rs_insert_ok[OF sparse_invD(1)[OF sp], of v e]
  have ent: "set (cy_entries c') = insert (v, e) (set (cy_entries c))" "length (cy_entries c') = Suc (length (cy_entries c))"
    using mset_eq_setD[of "cy_entries c'" "(v, e) # cy_entries c"] mset_eq_length[of "cy_entries c'" "(v, e) # cy_entries c"] ok(2)
    by (simp_all add: c')
  have fl: "length (filter P (cy_entries c')) = length (filter P (cy_entries c)) + (if P (v, e) then 1 else 0)" for P
  proof -
    have "mset (filter P (cy_entries c')) = mset (filter P ((v, e) # cy_entries c))" using ok(2) by (simp add: c' mset_filter)
    then have "length (filter P (cy_entries c')) = length (filter P ((v, e) # cy_entries c))" by (rule mset_eq_length)
    then show ?thesis by simp
  qed
  have sl: "sparse_live c' (M(e \<mapsto> v)) = insert (v, e) (sparse_live c M)" "(v, e) \<notin> sparse_live c M"
    using e v by (auto simp: sparse_live_def ia)
  have "sparse_inv I c' (M(e \<mapsto> v))"
    using sp ok(1)[folded c'(6)] e(2) v by (auto simp: sparse_inv_def sl ent ia fl c'(3,7,8) card_insert_if)
  then show ?thesis using d' by (simp add: cyl_inv_def)
qed

lemma cyl_insert_dense:
  assumes inv: "cyl_inv I c M" and e: "M e = None" "e \<in> I"
    and at: "dense_slot (cy_low_base c) v = Some (k, i)" "i < length (cy_arr c k)"
    and p: "push_slot_with cap k (cy_arr c k ! i) e c = (s, c')"
  shows "cyl_inv I (set_element k i s c') (M(e \<mapsto> v))"
proof -
  have d: "dense_inv I c M" and sp: "sparse_inv I c M" using inv by (simp_all add: cyl_inv_def)
  note dp = dense_push[OF d at disjI1[OF e(1)] e(2) p]
  have ia: "in_array v c" using at by (simp add: in_array_def)
  have "sparse_inv I (set_element k i s c') (M(e \<mapsto> v)) = sparse_inv I c M"
    by (rule sparse_inv_fields) (use ia e in \<open>auto simp: dp\<close>)
  then show ?thesis using dp(1) sp by (simp add: cyl_inv_def)
qed

subsection \<open>Growing an array\<close>

text \<open>The array grows by empty elements; the ids whose values it now covers are not in it yet.\<close>

definition with_array :: "dense_array \<Rightarrow> bucket option list \<Rightarrow> cylinder \<Rightarrow> cylinder" where
  "with_array k a c = c\<lparr>cy_arr := (cy_arr c)(k := a)\<rparr>"

lemma with_array_keeps [simp]:
  "cy_slots (with_array k a c) = cy_slots c" "cy_marks_on (with_array k a c) = cy_marks_on c"
  "cy_low_base (with_array k a c) = cy_low_base c" "cy_unique_live (with_array k a c) = cy_unique_live c"
  "cy_arr (with_array k a c) k' = (if k' = k then a else cy_arr c k')" "slot_get e (with_array k a c) = slot_get e c"
  "cy_sparse (with_array k a c) = cy_sparse c" "cy_waiting (with_array k a c) = cy_waiting c"
  "cy_sparse_stale (with_array k a c) = cy_sparse_stale c"
  by (simp_all add: with_array_def slot_get_def)

lemma grown_in_array:
  assumes "length (cy_arr c k) \<le> length a"
  shows "in_array v (with_array k a c) \<longleftrightarrow> in_array v c \<or>
    (\<exists>i. dense_slot (cy_low_base c) v = Some (k, i) \<and> length (cy_arr c k) \<le> i \<and> i < length a)"
  using assms by (auto simp: in_array_def split: option.splits)

lemma grow_dense:
  assumes inv: "dense_inv I c M" and n: "length (cy_arr c k) \<le> n" "n \<le> region_cap k"
  shows "dense_inv I (with_array k (cy_arr c k @ replicate (n - length (cy_arr c k)) None) c) (M |` {e. \<exists>v. M e = Some v \<and> in_array v c})"
    (is "dense_inv I ?c ?M")
proof -
  note d = dense_invD[OF inv]
  have h: "holders ?M v = (if in_array v c then holders M v else {})" for v
    by (auto simp: holders_def restrict_map_def)
  have ia: "in_array v c \<Longrightarrow> in_array v ?c" for v using grown_in_array[of c k _ v] n by simp
  have w: "writer_dense_at v ?c = Some s \<Longrightarrow> writer_dense_at v c = Some s \<or> writer_dense_at v c = None \<and> s = None" for v s
    by (auto simp: writer_dense_at_def nth_append split: option.splits if_splits)
  have "bucket_inv I (cy_marks_on c) (\<lambda>e. slot_get e c) (holders ?M v) s" if "writer_dense_at v ?c = Some s" for v s
    using w[OF that] d(3)[of v s] in_array_writer[of v c] unfolding h by (auto simp: bucket_inv_def[of _ _ _ _ None])
  moreover have "{v. in_array v ?c \<and> holders ?M v \<noteq> {}} = {v. in_array v c \<and> holders M v \<noteq> {}}"
    using ia by (auto simp: h)
  moreover have "length (cy_arr ?c k') \<le> region_cap k'" for k' using d(2)[of k'] n by simp
  ultimately show ?thesis using d(1,4) by (simp add: dense_inv_def)
qed

lemma push_slot_with_array:
  "push_slot_with cap k s e (with_array k' a c) = (case push_slot_with cap k s e c of (s', c') \<Rightarrow> (s', with_array k' a c'))"
  by (auto simp: push_slot_with_def with_array_def bump_stats_def slot_set_def slot_put_def Let_def split: prod.split option.split)

lemma set_element_with_array: "set_element k i s (with_array k a c) = with_array k (a[i := s]) c"
  by (simp add: set_element_def with_array_def)

lemma with_array_twice: "with_array k a (with_array k b c) = with_array k a c"
  by (simp add: with_array_def)

text \<open>Moving one entry is a push, up to the diagnostic counter of used buckets.\<close>

lemma move_one_push:
  assumes at: "dense_slot (cy_low_base c) w = Some (k, j)" and m: "move_one k (w, x) (nv, c, n) = (nv', c', n')"
  obtains s cp u where "push_slot_with 0 k (nv ! j) x c = (s, cp)" "nv' = nv[j := s]" "c' = cp\<lparr>cy_unique_count := u\<rparr>" "n' = Suc n"
proof -
  obtain b created where g: "get_or_create_with 0 (cy_marks_on c) (nv ! j) = (b, created)" by (metis surj_pair)
  obtain b1 l where q: "push_in x b = (b1, l)" by (metis surj_pair)
  obtain b2 pl where r: "live_inc b1 = (b2, pl)" by (metis surj_pair)
  define c1 where "c1 = slot_set x l (if created then c\<lparr>cy_used := (cy_used c)(k := cy_used c k + 1)\<rparr> else c)"
  have ss: "slot_set x l (c0\<lparr>cy_unique_count := z\<rparr>) = slot_set x l c0\<lparr>cy_unique_count := z\<rparr>" for c0 z
    by (simp add: slot_set_def slot_put_def split: option.split)
  have "push_slot_with 0 k (nv ! j) x c = (Some b2, bump_stats (l = 0) (pl = 0) c1)"
    by (simp add: push_slot_with_def g q r c1_def Let_def)
  moreover have "nv' = nv[j := Some b2]" "n' = Suc n"
    using m by (simp_all add: move_one_def at g q r Let_def)
  moreover have "c' = bump_stats (l = 0) (pl = 0) c1\<lparr>cy_unique_count := cy_unique_count c'\<rparr>"
    using m by (auto simp: move_one_def at g q r Let_def c1_def bump_stats_def ss)
  ultimately show ?thesis using that by blast
qed

lemma move_all:
  assumes "dense_inv I (with_array k nv c) (M |` A)" "fold (move_one k) ps (nv, c, n) = (nv', c', n')"
    and "\<And>w x. (w, x) \<in> set ps \<Longrightarrow> M x = Some w \<and> x \<in> I \<and> x \<notin> A \<and> (\<exists>j. dense_slot (cy_low_base c) w = Some (k, j) \<and> j < length nv)"
    and "distinct (map snd ps)"
  shows "dense_inv I (with_array k nv' c') (M |` (A \<union> snd ` set ps)) \<and> length nv' = length nv \<and> n' = n + length ps \<and>
    cy_arr c' = cy_arr c \<and> cy_low_base c' = cy_low_base c \<and> cy_marks_on c' = cy_marks_on c \<and> cy_sparse c' = cy_sparse c \<and>
    cy_waiting c' = cy_waiting c \<and> cy_sparse_stale c' = cy_sparse_stale c"
  using assms
proof (induction ps arbitrary: nv c A n)
  case (Cons p ps)
  obtain w x where p: "p = (w, x)" by (cases p)
  have px: "M x = Some w" "x \<in> I" "x \<notin> A" using Cons.prems(3)[of w x] by (simp_all add: p)
  obtain j where j: "dense_slot (cy_low_base c) w = Some (k, j)" "j < length nv"
    using Cons.prems(3)[of w x] by (auto simp: p)
  obtain nv1 c1 n1 where m: "move_one k (w, x) (nv, c, n) = (nv1, c1, n1)" by (metis prod_cases3)
  then obtain s cp u where s: "push_slot_with 0 k (nv ! j) x c = (s, cp)" "nv1 = nv[j := s]" "c1 = cp\<lparr>cy_unique_count := u\<rparr>" "n1 = Suc n"
    by (rule move_one_push[OF j(1)])
  have ps: "push_slot_with 0 k (cy_arr (with_array k nv c) k ! j) x (with_array k nv c) = (s, with_array k nv cp)"
    by (simp add: push_slot_with_array s)
  have xa: "(M |` A) x = None" using px by simp
  note dp = dense_push[OF Cons.prems(1) _ _ disjI1[OF xa] px(2) ps, of w]
  have at: "dense_slot (cy_low_base (with_array k nv c)) w = Some (k, j)" "j < length (cy_arr (with_array k nv c) k)" using j by simp_all
  have "dense_inv I (set_element k j s (with_array k nv cp)) ((M |` A)(x \<mapsto> w))" by (rule dp(1)[OF at])
  moreover have "set_element k j s (with_array k nv cp) = with_array k nv1 cp"
    by (simp add: set_element_with_array s)
  moreover have "dense_inv I (with_array k nv1 c1) N = dense_inv I (with_array k nv1 cp) N" for N
    by (rule dense_inv_fields) (simp_all add: s with_array_def)
  moreover have "(M |` A)(x \<mapsto> w) = M |` (insert x A)" using px by (auto simp: restrict_map_def)
  ultimately have d1: "dense_inv I (with_array k nv1 c1) (M |` insert x A)" by simp
  have k1: "cy_arr c1 = cy_arr c" "cy_low_base c1 = cy_low_base c" "cy_marks_on c1 = cy_marks_on c" "cy_sparse c1 = cy_sparse c"
    "cy_waiting c1 = cy_waiting c" "cy_sparse_stale c1 = cy_sparse_stale c" "length nv1 = length nv"
    using s(1) by (auto simp: s push_slot_with_def bump_stats_def Let_def split: prod.splits if_splits)
  have f: "fold (move_one k) ps (nv1, c1, n1) = (nv', c', n')" using Cons.prems(2) by (simp add: p m)
  have "x \<notin> snd ` set ps" using Cons.prems(4) by (simp add: p)
  then have pre: "M y = Some u \<and> y \<in> I \<and> y \<notin> insert x A \<and> (\<exists>j. dense_slot (cy_low_base c1) u = Some (k, j) \<and> j < length nv1)"
    if "(u, y) \<in> set ps" for u y
    using Cons.prems(3)[of u y] that k1 by (force simp: p)
  have "distinct (map snd ps)" using Cons.prems(4) by simp
  from Cons.IH[OF d1 f pre this] show ?case using k1 s(4) by (simp add: p)
qed simp

text \<open>The ids that the runs give up are the ones whose value the grown array covers.\<close>

lemma move_from_sparse_dense:
  assumes inv: "cyl_inv I c M" and e: "M e = None" and n: "length (cy_arr c k) < n" "n \<le> region_cap k"
    and nv: "nv = cy_arr c k @ replicate (n - length (cy_arr c k)) None"
    and keep: "\<And>x w. x \<in> I \<Longrightarrow> w \<noteq> NO_VALUE \<Longrightarrow> keep (w, x) \<longleftrightarrow> (M(e \<mapsto> v)) x = Some w"
    and m: "move_from_sparse k (length (cy_arr c k)) n (v, e) keep nv c = (nv', c', moved)"
  defines "G \<equiv> {(w, x). M x = Some w \<and> \<not> in_array w c \<and> in_array w (with_array k nv c)}"
  shows "dense_inv I (with_array k nv' c') (M |` {x. \<exists>w. M x = Some w \<and> in_array w (with_array k nv c)})"
    "length nv' = length nv" "moved = card G" "G \<subseteq> sparse_live c M"
    "cy_arr c' = cy_arr c" "cy_low_base c' = cy_low_base c" "cy_marks_on c' = cy_marks_on c" "cy_sparse c' = cy_sparse c"
    "cy_waiting c' = cy_waiting c" "cy_sparse_stale c' = cy_sparse_stale c"
proof -
  have d: "dense_inv I c M" and sp: "sparse_inv I c M" using inv by (simp_all add: cyl_inv_def)
  note low = dense_invD(1)[OF d]
  note spD = sparse_invD[OF sp]
  have len: "length nv = n" using n by (simp add: nv)
  have ia: "in_array w (with_array k nv c) \<longleftrightarrow> in_array w c \<or>
      (\<exists>i. dense_slot (cy_low_base c) w = Some (k, i) \<and> length (cy_arr c k) \<le> i \<and> i < n)" for w
    using grown_in_array[of c k nv w] n by (simp add: len)
  show G: "G \<subseteq> sparse_live c M" by (auto simp: G_def sparse_live_def)
  obtain lo hi where lh: "region_values (cy_low_base c) k (length (cy_arr c k)) n = (lo, hi)" by (metis surj_pair)
  define ps where "ps = filter (\<lambda>p. p \<noteq> (v, e) \<and> keep p) (remdups_adj (sort (range_pairs lo hi (cy_sparse c))))"
  have in_ps: "p \<in> set ps \<longleftrightarrow> p \<in> set (cy_entries c) \<and> p \<noteq> (v, e) \<and> keep p \<and>
      (\<exists>i. dense_slot (cy_low_base c) (fst p) = Some (k, i) \<and> length (cy_arr c k) \<le> i \<and> i < n)" for p
    unfolding ps_def set_filter remdups_adj_set set_sort range_pairs_filter[OF spD(1)] region_values_range[OF low n lh, of "fst p", symmetric]
    by blast
  have "p \<in> set ps \<longleftrightarrow> p \<in> G" for p
  proof -
    obtain w x where p: "p = (w, x)" by (cases p)
    have "p \<in> set (cy_entries c) \<Longrightarrow> x \<in> I \<and> \<not> in_array w c \<and> w \<noteq> NO_VALUE" using spD(2,5,7) by (force simp: p)
    moreover have "p \<in> G \<Longrightarrow> p \<in> set (cy_entries c)" using G spD(3) by blast
    moreover have "p \<in> G \<longleftrightarrow> M x = Some w \<and> \<not> in_array w c \<and>
        (\<exists>i. dense_slot (cy_low_base c) w = Some (k, i) \<and> length (cy_arr c k) \<le> i \<and> i < n)"
      unfolding G_def p ia by blast
    moreover have "x \<in> I \<Longrightarrow> w \<noteq> NO_VALUE \<Longrightarrow> p \<noteq> (v, e) \<and> keep p \<longleftrightarrow> M x = Some w"
      using keep[of x w] e by (cases "x = e") (auto simp: p)
    ultimately show ?thesis unfolding in_ps p fst_conv by blast
  qed
  then have ps: "set ps = G" by blast
  have di: "distinct ps" unfolding ps_def by (intro distinct_filter distinct_remdups_sorted sorted_sort)
  have "inj_on snd (set ps)" by (auto simp: ps G_def inj_on_def)
  then have dm: "distinct (map snd ps)" using di by (simp add: distinct_map)
  have f: "fold (move_one k) ps (nv, c, 0) = (nv', c', moved)"
    using m by (simp add: move_from_sparse_def lh ps_def)
  have pre: "M x = Some w \<and> x \<in> I \<and> x \<notin> {x. \<exists>w. M x = Some w \<and> in_array w c} \<and>
      (\<exists>j. dense_slot (cy_low_base c) w = Some (k, j) \<and> j < length nv)" if "(w, x) \<in> set ps" for w x
  proof -
    have "(w, x) \<in> set (cy_entries c)" "(w, x) \<in> G" "\<exists>j. dense_slot (cy_low_base c) w = Some (k, j) \<and> j < n"
      using that in_ps[of "(w, x)"] ps by auto
    moreover have "x \<in> I" using spD(2) calculation(1) by (metis imageI snd_conv subsetD)
    ultimately show ?thesis by (auto simp: len G_def)
  qed
  have d0: "dense_inv I (with_array k nv c) (M |` {x. \<exists>w. M x = Some w \<and> in_array w c})"
    using grow_dense[OF d] n by (simp add: nv)
  have "{x. \<exists>w. M x = Some w \<and> in_array w c} \<union> snd ` set ps = {x. \<exists>w. M x = Some w \<and> in_array w (with_array k nv c)}"
    unfolding ps by (auto simp: G_def image_iff ia)
  moreover have "length ps = card G" using distinct_card[OF di] by (simp add: ps)
  ultimately show "dense_inv I (with_array k nv' c') (M |` {x. \<exists>w. M x = Some w \<and> in_array w (with_array k nv c)})"
    "length nv' = length nv" "moved = card G" "cy_arr c' = cy_arr c" "cy_low_base c' = cy_low_base c" "cy_marks_on c' = cy_marks_on c"
    "cy_sparse c' = cy_sparse c" "cy_waiting c' = cy_waiting c" "cy_sparse_stale c' = cy_sparse_stale c"
    using move_all[OF d0 f pre dm] by simp_all
qed

lemma drop_covered:
  assumes sp: "sparse_inv I c M" and e: "M e = None" and v: "in_array v c3"
    and ia: "\<And>w. in_array w c \<Longrightarrow> in_array w c3"
    and c3: "cy_sparse c3 = cy_sparse c" "cy_sparse_stale c3 = cy_sparse_stale c" "low_ok (cy_low_base c3)"
    and rs: "rs_rebuild (\<lambda>(w, _). \<not> in_array w c3) (cy_sparse c3) = (rs, removed)"
    and moved: "moved = card {(w, x). M x = Some w \<and> \<not> in_array w c \<and> in_array w c3}"
    and c': "c' = recount_waiting (c3\<lparr>cy_sparse := rs, cy_sparse_stale := cy_sparse_stale c3 - min (removed - moved) (cy_sparse_stale c3)\<rparr>)"
  shows "sparse_inv I c' (M(e \<mapsto> v))"
proof -
  note spD = sparse_invD[OF sp]
  note ok = rs_rebuild_ok[OF spD(1) rs[unfolded c3(1)]]
  let ?L = "sparse_live c M" and ?E = "cy_entries c" and ?E' = "rs_entries rs"
  let ?G = "{(w, x). M x = Some w \<and> \<not> in_array w c \<and> in_array w c3}"
  have iac: "in_array w c' = in_array w c3" for w by (rule in_array_fields) (simp_all add: c')
  have L': "sparse_live c' (M(e \<mapsto> v)) = ?L - ?G" and G: "?G \<subseteq> ?L"
    using e v ia by (auto simp: sparse_live_def iac)
  have set': "set ?E' = {p \<in> set ?E. \<not> in_array (fst p) c3}" using ok(3) by (auto simp: case_prod_unfold)
  have sub: "?L - ?G \<subseteq> set ?E'" using spD(3) by (auto simp: set' sparse_live_def)
  have cL: "card (?L - ?G) + card ?G = card ?L"
    using G card_Diff_subset[of ?G ?L] card_mono[of ?L ?G] by simp
  have gE: "set ?E' \<inter> ?G = {}" "set ?E' \<union> ?G \<subseteq> set ?E" using spD(3) G by (auto simp: set')
  have "length ?E' + card ?G = card (set ?E' \<union> ?G)"
    using gE(1) card_Un_disjoint[of "set ?E'" ?G] distinct_card[OF ok(2)] by simp
  also have "\<dots> \<le> length ?E" using card_mono[OF _ gE(2)] card_length[of ?E] by simp
  finally have le: "length ?E' + card ?G \<le> length ?E" .
  have le': "card (?L - ?G) \<le> length ?E'" using card_mono[OF _ sub] distinct_card[OF ok(2)] by simp
  have stale: "cy_sparse_stale c' + card (?L - ?G) = length ?E'"
    using spD(4) cL le le' ok(4) by (simp add: c' c3(2) moved)
  have low: "cy_low_base c' = cy_low_base c3" by (simp add: c')
  have "\<forall>p \<in> set ?E'. \<not> in_array (fst p) (c3\<lparr>cy_sparse := rs, cy_sparse_stale := s\<rparr>)" for s
    using set' by (simp add: in_array_fields[of "c3\<lparr>cy_sparse := rs, cy_sparse_stale := s\<rparr>" c3])
  then have w: "cy_waiting c' k = length (filter (\<lambda>p. window_of (cy_low_base c3) (fst p) = Some k) ?E')" for k
    using recount_waiting_exact[of "c3\<lparr>cy_sparse := rs, cy_sparse_stale := cy_sparse_stale c3 - min (removed - moved) (cy_sparse_stale c3)\<rparr>" k]
      c3(3) ok(1) by (simp add: c')
  have "cy_sparse c' = rs" by (simp add: c')
  then show ?thesis
    unfolding sparse_inv_def L' using ok(1) spD(2,7) sub stale w set' by (auto simp: iac low)
qed

lemma cyl_insert_grow:
  assumes inv: "cyl_inv I c M" and e: "M e = None" "e \<in> I"
    and at: "dense_slot (cy_low_base c) v = Some (k, i)" "length (cy_arr c k) \<le> i" and g: "\<not> grow_too_sparse k i (length (cy_arr c k)) c"
    and keep: "\<And>x w. x \<in> I \<Longrightarrow> w \<noteq> NO_VALUE \<Longrightarrow> keep (w, x) \<longleftrightarrow> (M(e \<mapsto> v)) x = Some w"
  shows "cyl_inv I (insert_with e v True keep c) (M(e \<mapsto> v))"
proof -
  have d: "dense_inv I c M" and sp: "sparse_inv I c M" using inv by (simp_all add: cyl_inv_def)
  let ?len = "length (cy_arr c k)"
  define n where "n = min (max (i + 1) (?len * 2)) (region_cap k)"
  define nv where "nv = cy_arr c k @ replicate (n - ?len) None"
  have i: "i < region_cap k" using at(1) dense_slot_iff[OF dense_invD(1)[OF d]] by blast
  have n: "i < n" "?len < n" "n \<le> region_cap k" using i at(2) by (auto simp: n_def)
  have lnv: "length nv = n" using n by (simp add: nv_def)
  have ia: "in_array w (with_array k nv c) \<longleftrightarrow> in_array w c \<or>
      (\<exists>i. dense_slot (cy_low_base c) w = Some (k, i) \<and> ?len \<le> i \<and> i < n)" for w
    using grown_in_array[of c k nv w] n(2) by (simp add: lnv)
  define waited where "waited = (cy_waiting c k > 0)"
  obtain nv1 c1 moved where mv: "(if waited then move_from_sparse k ?len n (v, e) keep nv c else (nv, c, 0)) = (nv1, c1, moved)"
    by (metis prod_cases3)
  obtain s c2 where p: "push_slot k (nv1 ! i) e c1 = (s, c2)" by (metis surj_pair)
  define c3 where "c3 = with_array k (nv1[i := s]) c2"
  let ?A = "{x. \<exists>w. M x = Some w \<and> in_array w (with_array k nv c)}"
  have none: "\<nexists>w. M x = Some w \<and> \<not> in_array w c \<and> in_array w (with_array k nv c)" if "\<not> waited" for x
  proof
    assume "\<exists>w. M x = Some w \<and> \<not> in_array w c \<and> in_array w (with_array k nv c)"
    then obtain w where w: "M x = Some w" "\<not> in_array w c" "window_of (cy_low_base c) w = Some k" by (auto simp: ia window_of_def)
    then have "(w, x) \<in> set (cy_entries c)" using sparse_invD(3)[OF sp] by (auto simp: sparse_live_def)
    then show False using w(3) that sparse_invD(6)[OF sp, of k] by (auto simp: waited_def filter_empty_conv)
  qed
  have mid: "dense_inv I (with_array k nv1 c1) (M |` ?A) \<and> length nv1 = n \<and> cy_arr c1 = cy_arr c \<and> cy_low_base c1 = cy_low_base c \<and>
      cy_sparse c1 = cy_sparse c \<and> cy_waiting c1 = cy_waiting c \<and> cy_sparse_stale c1 = cy_sparse_stale c \<and>
      moved = card {(w, x). M x = Some w \<and> \<not> in_array w c \<and> in_array w (with_array k nv c)}"
  proof (cases waited)
    case True
    then have "move_from_sparse k ?len n (v, e) keep nv c = (nv1, c1, moved)" using mv by simp
    from move_from_sparse_dense[OF inv e(1) n(2,3) nv_def keep this] show ?thesis by (simp add: lnv)
  next
    case False
    have "?A = {x. \<exists>w. M x = Some w \<and> in_array w c}" using none[OF False] ia by blast
    moreover have "{(w, x). M x = Some w \<and> \<not> in_array w c \<and> in_array w (with_array k nv c)} = {}" using none[OF False] by blast
    moreover have "dense_inv I (with_array k nv c) (M |` {x. \<exists>w. M x = Some w \<and> in_array w c})"
      using grow_dense[OF d, of k n] n by (simp add: nv_def)
    ultimately show ?thesis using False mv lnv by simp
  qed
  have at1: "dense_slot (cy_low_base (with_array k nv1 c1)) v = Some (k, i)" "i < length (cy_arr (with_array k nv1 c1) k)"
    using mid at n by simp_all
  have p1: "push_slot_with INITIAL_CAP k (cy_arr (with_array k nv1 c1) k ! i) e (with_array k nv1 c1) = (s, with_array k nv1 c2)"
    using p by (simp add: push_slot_def push_slot_with_array)
  have "(M |` ?A) e = None" using e by (simp add: restrict_map_def)
  note dp = dense_push[OF conjunct1[OF mid] at1 disjI1[OF this] e(2) p1]
  have k2: "cy_arr c2 = cy_arr c1" "cy_low_base c2 = cy_low_base c1" "cy_sparse c2 = cy_sparse c1" "cy_waiting c2 = cy_waiting c1"
    "cy_sparse_stale c2 = cy_sparse_stale c1"
    using p by (auto simp: push_slot_def push_slot_with_def bump_stats_def Let_def split: prod.splits if_splits)
  have iac3: "in_array w c3 = in_array w (with_array k nv c)" for w
    by (rule in_array_lens) (use mid k2 lnv in \<open>auto simp: c3_def\<close>)
  have "dense_inv I c3 ((M |` ?A)(e \<mapsto> v))" using dp(1) by (simp add: set_element_with_array c3_def)
  moreover have "dense_inv I c3 ((M |` ?A)(e \<mapsto> v)) = dense_inv I c3 (M(e \<mapsto> v))"
    by (rule dense_inv_cong) (auto simp: iac3 restrict_map_def)
  ultimately have d3: "dense_inv I c3 (M(e \<mapsto> v))" by simp
  have v3: "in_array v c3" unfolding iac3 ia using at n by blast
  have c3s: "cy_sparse c3 = cy_sparse c" "cy_sparse_stale c3 = cy_sparse_stale c" "cy_waiting c3 = cy_waiting c" "cy_low_base c3 = cy_low_base c"
    "c3 = c2\<lparr>cy_arr := (cy_arr c2)(k := nv1[i := s])\<rparr>"
    using mid k2 by (simp_all add: c3_def with_array_def)
  have ins: "insert_with e v True keep c = (if waited then
      let (rs, removed) = rs_rebuild (\<lambda>(w, _). \<not> in_array w c3) (cy_sparse c3); dropped = removed - moved
      in recount_waiting (c3\<lparr>cy_sparse := rs, cy_sparse_stale := cy_sparse_stale c3 - min dropped (cy_sparse_stale c3)\<rparr>)
      else c3)"
    using at(2) g
    by (simp only: insert_with_def Let_def at(1) option.case prod.case n_def[symmetric] nv_def[symmetric] waited_def[symmetric]
        mv p c3s(5)[symmetric] not_less[symmetric] not_True_eq_False if_False simp_thms)
  show ?thesis
  proof (cases waited)
    case True
    obtain rs removed where rs: "rs_rebuild (\<lambda>(w, _). \<not> in_array w c3) (cy_sparse c3) = (rs, removed)" by (metis surj_pair)
    define c' where "c' = recount_waiting (c3\<lparr>cy_sparse := rs, cy_sparse_stale := cy_sparse_stale c3 - min (removed - moved) (cy_sparse_stale c3)\<rparr>)"
    have "sparse_inv I c' (M(e \<mapsto> v))"
      by (rule drop_covered[OF sp e(1) v3 _ c3s(1,2) _ rs _ c'_def])
        (use mid d3 ia iac3 in \<open>auto dest: dense_invD(1)\<close>)
    moreover have "dense_inv I c' (M(e \<mapsto> v)) = dense_inv I c3 (M(e \<mapsto> v))" by (rule dense_inv_fields) (simp_all add: c'_def)
    moreover have "insert_with e v True keep c = c'" unfolding ins using True rs by (simp add: c'_def)
    ultimately show ?thesis using d3 by (simp add: cyl_inv_def)
  next
    case False
    have no: "\<not> in_array (fst q) c3" if "q \<in> set (cy_entries c)" for q
    proof -
      have "window_of (cy_low_base c) (fst q) \<noteq> Some k"
        using that False sparse_invD(6)[OF sp, of k] by (auto simp: waited_def filter_empty_conv)
      then show ?thesis using sparse_invD(5)[OF sp that] by (auto simp: iac3 ia window_of_def)
    qed
    have "sparse_live c3 (M(e \<mapsto> v)) = sparse_live c M"
      using none[OF False] v3 e by (auto simp: sparse_live_def iac3 ia)
    then have "sparse_inv I c3 (M(e \<mapsto> v))" using sp no by (simp add: sparse_inv_def c3s(1-4))
    then show ?thesis using d3 False by (simp add: ins cyl_inv_def)
  qed
qed

theorem cyl_insert_with:
  assumes inv: "cyl_inv I c M" and e: "M e = None" "e \<in> I" and v: "v \<noteq> NO_VALUE"
    and keep: "\<And>x w. x \<in> I \<Longrightarrow> w \<noteq> NO_VALUE \<Longrightarrow> keep (w, x) \<longleftrightarrow> (M(e \<mapsto> v)) x = Some w"
  shows "cyl_inv I (insert_with e v may_grow keep c) (M(e \<mapsto> v))"
proof (cases "in_array v c")
  case True
  then obtain k i where at: "dense_slot (cy_low_base c) v = Some (k, i)" "i < length (cy_arr c k)"
    by (auto simp: in_array_def split: option.splits)
  obtain s c' where p: "push_slot k (cy_arr c k ! i) e c = (s, c')" by (metis surj_pair)
  then show ?thesis
    using cyl_insert_dense[OF inv e at p[unfolded push_slot_def]] at by (simp add: insert_with_def Let_def)
next
  case out: False
  have f: "cy_slots (forget_slot e (c\<lparr>cy_sparse := r\<rparr>)) = cy_slots (forget_slot e c)" for r
    by (simp add: forget_slot_def slot_put_def split: option.split)
  show ?thesis
  proof (cases "dense_slot (cy_low_base c) v")
    case None
    then show ?thesis
      by (intro cyl_insert_sparse[OF inv e out v]) (simp_all add: insert_with_def f, simp_all add: forget_slot_def window_of_def)
  next
    case (Some ki)
    then obtain k i where at: "dense_slot (cy_low_base c) v = Some (k, i)" "length (cy_arr c k) \<le> i"
      using out by (cases ki) (auto simp: in_array_def not_less)
    show ?thesis
    proof (cases "may_grow \<and> \<not> grow_too_sparse k i (length (cy_arr c k)) c")
      case True
      then show ?thesis using cyl_insert_grow[OF inv e at _ keep] by simp
    next
      case False
      then have "insert_with e v may_grow keep c = (let c1 = forget_slot e (c\<lparr>cy_sparse := rs_insert v e (cy_sparse c)\<rparr>)
          in c1\<lparr>cy_waiting := (cy_waiting c1)(k := cy_waiting c1 k + 1)\<rparr>)"
        using at by (auto simp: insert_with_def)
      then show ?thesis
        by (intro cyl_insert_sparse[OF inv e out v]) (simp_all add: Let_def f, simp_all add: forget_slot_def window_of_def at)
    qed
  qed
qed

lemma cyl_push_in_array:
  assumes inv: "cyl_inv I c M" and e: "M e = None" "e \<in> I" and ia: "in_array v c"
  shows "\<exists>c'. push_in_array e v c = Some c' \<and> cyl_inv I c' (M(e \<mapsto> v))"
proof -
  obtain k i where at: "dense_slot (cy_low_base c) v = Some (k, i)" "i < length (cy_arr c k)"
    using ia by (auto simp: in_array_def split: option.splits)
  obtain s c' where p: "push_slot k (cy_arr c k ! i) e c = (s, c')" by (metis surj_pair)
  then show ?thesis using cyl_insert_dense[OF inv e at p[unfolded push_slot_def]] at by (simp add: push_in_array_def)
qed

section \<open>Building the index\<close>

lemma add_min_diff: "a \<le> c \<Longrightarrow> a + (min x c - a) \<le> c" for a c x :: nat
  by simp

lemma count_entries_len: "length (count_entries low entries k) \<le> region_cap k"
proof -
  have "\<forall>k. length (foldl (\<lambda>counts (_, v). case dense_slot low v of None \<Rightarrow> counts | Some (k, i) \<Rightarrow>
      let c = counts k; c1 = (if length c \<le> i then c @ replicate (min (next_power_of_two (i + 1)) (region_cap k) - length c) 0 else c)
      in counts(k := c1[i := c1 ! i + 1])) acc entries k) \<le> region_cap k" if "\<forall>k. length (acc k) \<le> region_cap k" for acc :: "dense_array \<Rightarrow> nat list"
    using that
  proof (induction entries arbitrary: acc)
    case (Cons p entries)
    show ?case unfolding foldl_Cons
      by (rule Cons.IH) (use Cons.prems in \<open>auto simp: Let_def add_min_diff split: option.split prod.split\<close>)
  qed simp
  from this[of "\<lambda>k. []"] show ?thesis by (simp add: count_entries_def)
qed

lemma built_len_bounds:
  assumes "length c \<le> region_cap k" "l \<le> region_cap k"
  shows "l \<le> built_len k c l" "built_len k c l \<le> region_cap k"
proof -
  have "length (dropWhile P (rev (take m c))) \<le> region_cap k" for P m
    using length_dropWhile_le[of P "rev (take m c)"] assms(1) by simp
  then show "l \<le> built_len k c l" "built_len k c l \<le> region_cap k" using assms(2) by (auto simp: built_len_def Let_def)
qed

lemma push_slot_with_arrays:
  "push_slot_with cap k s e (c\<lparr>cy_arr := a\<rparr>) = (case push_slot_with cap k s e c of (s', c') \<Rightarrow> (s', c'\<lparr>cy_arr := a\<rparr>))"
  by (auto simp: push_slot_with_def bump_stats_def slot_set_def slot_put_def Let_def split: prod.split option.split)

lemma push_slot_with_keeps:
  assumes "push_slot_with cap k s e c = (s', c')"
  shows "cy_arr c' = cy_arr c" "cy_low_base c' = cy_low_base c" "cy_marks_on c' = cy_marks_on c" "cy_sparse c' = cy_sparse c"
    "cy_waiting c' = cy_waiting c" "cy_sparse_stale c' = cy_sparse_stale c"
  using assms by (auto simp: push_slot_with_def bump_stats_def Let_def split: prod.splits if_splits)

definition covered :: "u64 \<Rightarrow> (dense_array \<Rightarrow> nat) \<Rightarrow> u64 \<Rightarrow> bool" where
  "covered low lens v = (case dense_slot low v of None \<Rightarrow> False | Some (k, i) \<Rightarrow> i < lens k)"

lemma build_all:
  assumes "dense_inv I (c\<lparr>cy_arr := arrs\<rparr>) (M |` A)" "\<And>k. length (arrs k) = lens k"
    and "fold (build_one counts lens) es (arrs, sp, c) = (arrs', sp', c')"
    and "\<And>x v. (x, v) \<in> set es \<Longrightarrow> M x = Some v \<and> x \<in> I \<and> x \<notin> A" "distinct (map fst es)"
  shows "dense_inv I (c'\<lparr>cy_arr := arrs'\<rparr>) (M |` (A \<union> {x. \<exists>v. (x, v) \<in> set es \<and> covered (cy_low_base c) lens v})) \<and>
    (\<forall>k. length (arrs' k) = lens k) \<and> sp' = sp @ map prod.swap (filter (\<lambda>(x, v). \<not> covered (cy_low_base c) lens v) es) \<and>
    cy_low_base c' = cy_low_base c \<and> cy_sparse c' = cy_sparse c \<and> cy_sparse_stale c' = cy_sparse_stale c"
  using assms
proof (induction es arbitrary: arrs sp c A)
  case (Cons p es)
  obtain x v where p: "p = (x, v)" by (cases p)
  have px: "M x = Some v" "x \<in> I" "x \<notin> A" using Cons.prems(4)[of x v] by (simp_all add: p)
  have xes: "x \<notin> fst ` set es" using Cons.prems(5) by (simp add: p)
  have rest: "M y = Some w \<and> y \<in> I \<and> y \<notin> A" "y \<noteq> x" if "(y, w) \<in> set es" for y w
    using Cons.prems(4)[of y w] that xes by (force simp: p)+
  have de: "distinct (map fst es)" using Cons.prems(5) by simp
  show ?case
  proof (cases "covered (cy_low_base c) lens v")
    case True
    then obtain k i where at: "dense_slot (cy_low_base c) v = Some (k, i)" "i < lens k"
      by (auto simp: covered_def split: option.splits)
    obtain s c1 where s: "push_slot_with (counts k ! i) k (arrs k ! i) x c = (s, c1)" by (metis surj_pair)
    define arrs1 where "arrs1 = arrs(k := (arrs k)[i := s])"
    let ?C = "c\<lparr>cy_arr := arrs\<rparr>"
    have ps: "push_slot_with (counts k ! i) k (cy_arr ?C k ! i) x ?C = (s, c1\<lparr>cy_arr := arrs\<rparr>)"
      by (simp add: push_slot_with_arrays s)
    have at': "dense_slot (cy_low_base ?C) v = Some (k, i)" "i < length (cy_arr ?C k)" using at Cons.prems(2) by simp_all
    have "(M |` A) x = None" using px by simp
    note dp = dense_push(1)[OF Cons.prems(1) at' disjI1[OF this] px(2) ps]
    have "(M |` A)(x \<mapsto> v) = M |` (insert x A)" using px by (auto simp: restrict_map_def)
    then have d1: "dense_inv I (c1\<lparr>cy_arr := arrs1\<rparr>) (M |` insert x A)"
      using dp by (simp add: set_element_def arrs1_def)
    have f: "fold (build_one counts lens) es (arrs1, sp, c1) = (arrs', sp', c')"
      using Cons.prems(3) at s by (simp add: p build_one_def arrs1_def)
    have l1: "length (arrs1 k) = lens k" for k using Cons.prems(2) by (simp add: arrs1_def)
    have pre: "M y = Some w \<and> y \<in> I \<and> y \<notin> insert x A" if "(y, w) \<in> set es" for y w using rest[OF that] by blast
    have "insert x A \<union> {y. \<exists>w. (y, w) \<in> set es \<and> covered (cy_low_base c) lens w} =
        A \<union> {y. \<exists>w. (y, w) \<in> set (p # es) \<and> covered (cy_low_base c) lens w}" using True by (auto simp: p)
    then show ?thesis
      using Cons.IH[OF d1 l1 f pre de] True push_slot_with_keeps[OF s] by (simp add: p)
  next
    case False
    then have f: "fold (build_one counts lens) es (arrs, sp @ [(v, x)], c) = (arrs', sp', c')"
      using Cons.prems(3) by (auto simp: p build_one_def covered_def split: option.splits)
    have "{y. \<exists>w. (y, w) \<in> set es \<and> covered (cy_low_base c) lens w} =
        {y. \<exists>w. (y, w) \<in> set (p # es) \<and> covered (cy_low_base c) lens w}" using False by (auto simp: p)
    then show ?thesis using Cons.IH[OF Cons.prems(1,2) f rest(1) de] False by (simp add: p)
  qed
qed simp

definition cyl_empty :: "cylinder \<Rightarrow> bool" where
  "cyl_empty c \<longleftrightarrow> low_ok (cy_low_base c) \<and> (\<forall>k. set (cy_arr c k) \<subseteq> {None} \<and> length (cy_arr c k) \<le> region_cap k) \<and>
     cy_unique_live c = 0 \<and> cy_sparse c = rs_empty \<and> cy_sparse_stale c = 0"

lemma cyl_empty_ops:
  "cyl_empty (cyl_new max_values)" "cyl_empty c \<Longrightarrow> cyl_empty (set_low_base base c)" "cyl_empty c \<Longrightarrow> cyl_empty (init_slots ok n c)"
  using set_low_base_ok[of base c]
  by (auto simp: cyl_empty_def cyl_new_def Let_def low_ok_def region_cap_def set_low_base_def init_slots_def)

theorem cyl_build_inv:
  assumes em: "cyl_empty c" and M: "\<And>x v. M x = Some v \<longleftrightarrow> (x, v) \<in> set es" and d: "distinct (map fst es)" and I: "fst ` set es \<subseteq> I" and nv: "\<And>x. M x \<noteq> Some NO_VALUE"
  shows "cyl_inv I (cyl_build es c) M"
proof -
  define counts where "counts = count_entries (cy_low_base c) es"
  define lens where "lens = (\<lambda>k. built_len k (counts k) (length (cy_arr c k)))"
  define arrs0 where "arrs0 = (\<lambda>k. cy_arr c k @ replicate (lens k - length (cy_arr c k)) None)"
  obtain arrs sp c1 where f: "fold (build_one counts lens) es (arrs0, [], c) = (arrs, sp, c1)" by (metis prod_cases3)
  have lb: "length (cy_arr c k) \<le> lens k" "lens k \<le> region_cap k" for k
    using built_len_bounds[of "counts k" k "length (cy_arr c k)"] count_entries_len[of "cy_low_base c" es k] em
    by (simp_all add: lens_def counts_def cyl_empty_def)
  have l0: "length (arrs0 k) = lens k" for k using lb(1)[of k] by (simp add: arrs0_def)
  have none: "arrs0 k ! i = None" if "i < lens k" for k i
  proof -
    have "set (arrs0 k) \<subseteq> {None}" using em by (auto simp: cyl_empty_def arrs0_def)
    then show ?thesis using that l0[of k] by (metis nth_mem singletonD subsetD)
  qed
  have d0: "dense_inv I (c\<lparr>cy_arr := arrs0\<rparr>) (M |` {})"
    using em none lb(2) by (auto simp: dense_inv_def cyl_empty_def l0 writer_dense_at_def holders_def bucket_inv_def split: option.splits if_splits)
  have pre: "M x = Some v \<and> x \<in> I \<and> x \<notin> {}" if "(x, v) \<in> set es" for x v
    using that M I by (auto simp: image_subset_iff)
  from build_all[OF d0 l0 f pre d] have b: "dense_inv I (c1\<lparr>cy_arr := arrs\<rparr>) (M |` {x. \<exists>v. (x, v) \<in> set es \<and> covered (cy_low_base c) lens v})"
    "\<And>k. length (arrs k) = lens k" "sp = map prod.swap (filter (\<lambda>(x, v). \<not> covered (cy_low_base c) lens v) es)"
    "cy_low_base c1 = cy_low_base c" "cy_sparse c1 = rs_empty" "cy_sparse_stale c1 = 0"
    using em by (auto simp: cyl_empty_def)
  define c2 where "c2 = c1\<lparr>cy_arr := arrs, cy_sparse := build_from sp (cy_sparse c1)\<rparr>"
  have res: "cyl_build es c = recount_waiting c2"
    using f unfolding cyl_build_def Let_def counts_def arrs0_def lens_def c2_def by simp
  have ia: "in_array v c2 = covered (cy_low_base c) lens v" for v
    by (simp add: in_array_def covered_def c2_def b split: option.split)
  note bf = build_from_ok[OF rs_empty_ok(1,2), of sp]
  have E: "mset (cy_entries c2) = mset sp" "rs_ok (cy_sparse c2)" using bf by (simp_all add: c2_def b(5))
  have setE: "set (cy_entries c2) = sparse_live c2 M"
    using mset_eq_setD[OF E(1)] by (auto simp: b(3) sparse_live_def ia M image_iff)
  have "distinct sp"
    using d unfolding b(3) by (auto simp: distinct_map intro: distinct_filter inj_onI)
  then have "distinct (cy_entries c2)" using E(1) by (metis mset_eq_imp_distinct_iff)
  then have lenE: "card (sparse_live c2 M) = length (cy_entries c2)" using distinct_card setE by metis
  let ?r = "recount_waiting c2"
  have iar: "in_array v ?r = in_array v c2" for v by (rule in_array_fields) simp_all
  have low: "low_ok (cy_low_base c2)" using em b(4) by (simp add: c2_def cyl_empty_def)
  have "dense_inv I ?r M = dense_inv I (c1\<lparr>cy_arr := arrs\<rparr>) M" by (rule dense_inv_fields) (simp_all add: c2_def)
  also have "\<dots> = dense_inv I (c1\<lparr>cy_arr := arrs\<rparr>) (M |` {x. \<exists>v. (x, v) \<in> set es \<and> covered (cy_low_base c) lens v})"
  proof (rule dense_inv_cong)
    have "in_array v (c1\<lparr>cy_arr := arrs\<rparr>) = in_array v c2" for v by (rule in_array_fields) (simp_all add: c2_def)
    then show "in_array v (c1\<lparr>cy_arr := arrs\<rparr>) \<Longrightarrow> M e = Some v \<longleftrightarrow>
      (M |` {x. \<exists>v. (x, v) \<in> set es \<and> covered (cy_low_base c) lens v}) e = Some v" for e v
      by (auto simp: M restrict_map_def ia)
  qed
  finally have "dense_inv I ?r M" using b(1) by simp
  moreover have "sparse_live ?r M = sparse_live c2 M" by (simp add: sparse_live_def iar)
  moreover have "snd ` sparse_live c2 M \<subseteq> I" using I by (auto simp: sparse_live_def M image_iff)
  moreover have "cy_sparse_stale c2 = 0" by (simp add: c2_def b)
  moreover have "\<forall>p \<in> set (cy_entries c2). fst p \<noteq> NO_VALUE" using nv by (auto simp: setE sparse_live_def)
  moreover have nia: "\<forall>p \<in> set (cy_entries c2). \<not> in_array (fst p) c2" by (auto simp: setE sparse_live_def)
  ultimately show ?thesis
    using E(2) lenE setE recount_waiting_exact[OF low E(2) nia] unfolding res by (simp add: cyl_inv_def sparse_inv_def iar)
qed

end
