(* ===== verification/Cylinder_Read.thy ===== *)
theory Cylinder_Read
  imports Cylinder_Inv
begin

text \<open>
  What the readers of the index (\<^verbatim>\<open>crates/enchudb-engine/src/lockfree_cylinder.rs\<close>) get: every id
  that carries the value, and nothing else unless they are told to check the column.
\<close>

section \<open>One value\<close>

lemma cyl_inv_mono: "cyl_inv I c M \<Longrightarrow> I \<subseteq> J \<Longrightarrow> cyl_inv J c M"
proof -
  assume h: "cyl_inv I c M" "I \<subseteq> J"
  have "bucket_inv I on pos S s \<Longrightarrow> bucket_inv J on pos S s" for on pos S s
    using h(2) by (auto simp: bucket_inv_def split: option.splits)
  then show "cyl_inv J c M" using h by (auto simp: cyl_inv_def dense_inv_def sparse_inv_def)
qed

lemma unmarked_list:
  "map snd (filter (\<lambda>(i, e). \<not> marked_at b i) (enumerate 0 (b_data b))) =
    map ((!) (b_data b)) (filter (\<lambda>i. \<not> marked_at b i) [0..<length (b_data b)])"
proof -
  have e: "enumerate 0 (b_data b) = map (\<lambda>i. (i, b_data b ! i)) [0..<length (b_data b)]"
    by (rule nth_equalityI) (simp_all add: nth_enumerate_eq)
  show ?thesis unfolding e by (simp add: filter_map comp_def)
qed

lemma marks_read:
  assumes "marks_inv pos S b"
  shows "distinct (map snd (filter (\<lambda>(i, e). \<not> marked_at b i) (enumerate 0 (b_data b))))"
    "set (map snd (filter (\<lambda>(i, e). \<not> marked_at b i) (enumerate 0 (b_data b)))) = S"
proof -
  have U: "set (filter (\<lambda>i. \<not> marked_at b i) [0..<length (b_data b)]) = unmarked_at b"
    by (auto simp: unmarked_at_def)
  have "bij_betw ((!) (b_data b)) (unmarked_at b) S" using assms by (simp add: marks_inv_def)
  then show "distinct (map snd (filter (\<lambda>(i, e). \<not> marked_at b i) (enumerate 0 (b_data b))))"
    "set (map snd (filter (\<lambda>(i, e). \<not> marked_at b i) (enumerate 0 (b_data b)))) = S"
    unfolding unmarked_list distinct_map list.set_map U by (auto simp: bij_betw_def)
qed

lemma bucket_read:
  assumes inv: "bucket_inv I on pos S (Some b)" and r: "read_marked_verify on b = (out, needs, stale)"
  shows "S \<subseteq> set out" "set out \<subseteq> I" "\<not> needs \<Longrightarrow> distinct out \<and> set out = S" "needs \<Longrightarrow> stale"
    "\<not> stale \<Longrightarrow> \<not> b_removed b"
proof -
  have ok: "bucket_ok b" and sub: "S \<subseteq> set (b_data b)" "set (b_data b) \<subseteq> I"
    and clean: "\<not> b_removed b \<Longrightarrow> distinct (b_data b) \<and> set (b_data b) = S"
    and marks: "on \<Longrightarrow> marks_exact b \<Longrightarrow> marks_inv pos S b"
    using inv by (auto simp: bucket_inv_def)
  have "S \<subseteq> set out \<and> set out \<subseteq> I \<and> (\<not> needs \<longrightarrow> distinct out \<and> set out = S) \<and> (needs \<longrightarrow> stale) \<and> (\<not> stale \<longrightarrow> \<not> b_removed b)"
  proof (cases "b_removed b \<and> marks_exact b \<and> on")
    case True
    then have h: "out = map snd (filter (\<lambda>(i, e). \<not> marked_at b i) (enumerate 0 (b_data b)))" "\<not> needs" "stale"
      using r unfolding read_marked_spec[OF ok] by auto
    have "marks_inv pos S b" using True marks by blast
    from marks_read[OF this] show ?thesis using sub h by auto
  next
    case False
    then have h: "out = b_data b" "needs = b_removed b" "stale = b_removed b"
      using r unfolding read_marked_spec[OF ok] by auto
    show ?thesis using sub clean unfolding h by auto
  qed
  then show "S \<subseteq> set out" "set out \<subseteq> I" "\<not> needs \<Longrightarrow> distinct out \<and> set out = S" "needs \<Longrightarrow> stale"
    "\<not> stale \<Longrightarrow> \<not> b_removed b" by blast+
qed

lemma cyl_read:
  assumes inv: "cyl_inv I c M" and r: "read_to_vec_marked v c = (out, needs, stale)"
  shows "holders M v \<subseteq> set out" "set out \<subseteq> I" "\<not> needs \<Longrightarrow> distinct out \<and> set out = holders M v" "needs \<Longrightarrow> stale"
proof -
  have d: "dense_inv I c M" and sp: "sparse_inv I c M" using inv by (simp_all add: cyl_inv_def)
  have "holders M v \<subseteq> set out \<and> set out \<subseteq> I \<and> (\<not> needs \<longrightarrow> distinct out \<and> set out = holders M v) \<and> (needs \<longrightarrow> stale)"
  proof (cases "writer_dense_at v c")
    case (Some s)
    note bi = dense_invD(3)[OF d Some]
    show ?thesis
    proof (cases s)
      case None
      then show ?thesis using bi r Some by (auto simp: bucket_inv_def read_to_vec_marked_def)
    next
      case (Some b)
      then have "read_marked_verify (cy_marks_on c) b = (out, needs, stale)"
        using r \<open>writer_dense_at v c = Some s\<close> by (simp add: read_to_vec_marked_def)
      from bucket_read[OF bi[unfolded Some] this] show ?thesis by blast
    qed
  next
    case None
    then have nia: "\<not> in_array v c" by (simp add: in_array_writer)
    define l where "l = rs_lookup v (cy_sparse c)"
    have o: "mset out = mset l" "needs = sparse_churned c" "stale = sparse_churned c"
      using r None by (auto simp: read_to_vec_marked_def Let_def l_def)
    note spD = sparse_invD[OF sp]
    have l: "l = map snd (filter (\<lambda>p. fst p = v) (cy_entries c))" unfolding l_def by (rule rs_lookup_filter[OF spD(1)])
    have sub: "holders M v \<subseteq> set l"
    proof
      fix e assume "e \<in> holders M v"
      then have "(v, e) \<in> set (cy_entries c)" using spD(3) nia by (auto simp: holders_def sparse_live_def)
      then show "e \<in> set l" by (force simp: l)
    qed
    moreover have "set l \<subseteq> I" using spD(2) by (auto simp: l)
    moreover have "distinct l \<and> set l = holders M v" if "\<not> needs"
    proof -
      have z: "cy_sparse_stale c = 0" using that by (simp add: o sparse_churned_def)
      note ex = no_stale_exact[OF sp z]
      have "distinct l" unfolding l distinct_map using ex(2) by (auto intro: inj_onI)
      moreover have "set l \<subseteq> holders M v" using ex(1) by (auto simp: l sparse_live_def holders_def)
      ultimately show ?thesis using sub by blast
    qed
    ultimately show ?thesis using mset_eq_setD[OF o(1)] mset_eq_imp_distinct_iff[OF o(1)] o(2,3) by simp
  qed
  then show "holders M v \<subseteq> set out" "set out \<subseteq> I" "\<not> needs \<Longrightarrow> distinct out \<and> set out = holders M v" "needs \<Longrightarrow> stale"
    by blast+
qed

lemma read_into_eq:
  "read_into_marked v out c = (case read_to_vec_marked v c of (s, needs, stale) \<Rightarrow> (out @ s, needs, stale))"
  by (auto simp: read_into_marked_def read_to_vec_marked_def Let_def split: option.split prod.split)

lemma dense_live_len_card:
  assumes "cyl_inv I c M"
  shows "dense_live_len v c = (if in_array v c then Some (card (holders M v)) else None)"
proof (cases "writer_dense_at v c")
  case (Some s)
  have "bucket_inv I (cy_marks_on c) (\<lambda>e. slot_get e c) (holders M v) s"
    using assms dense_invD(3) Some by (simp add: cyl_inv_def)
  then show ?thesis using Some by (cases s) (auto simp: dense_live_len_def in_array_writer bucket_inv_def)
qed (simp add: dense_live_len_def in_array_writer)

lemma cyl_mark_verified_inv:
  assumes inv: "cyl_inv I c M" and m: "cyl_mark_verified v c = (c', r)"
  shows "cyl_inv I c' M" "read_to_vec_marked w c' = read_to_vec_marked w c"
proof -
  have d: "dense_inv I c M" and sp: "sparse_inv I c M" using inv by (simp_all add: cyl_inv_def)
  have "cyl_inv I c' M \<and> read_to_vec_marked w c' = read_to_vec_marked w c"
  proof (cases "\<exists>b. writer_dense_at v c = Some (Some b)")
    case False
    then have "c' = c" using m by (auto simp: writer_dense_at_def cyl_mark_verified_def split: option.splits if_splits)
    then show ?thesis using inv by simp
  next
    case True
    then obtain b k i where at: "dense_slot (cy_low_base c) v = Some (k, i)" "i < length (cy_arr c k)" "cy_arr c k ! i = Some b"
      and w: "writer_dense_at v c = Some (Some b)"
      by (auto simp: writer_dense_at_def split: option.splits if_splits)
    obtain b' n where b': "bucket_mark_verified b = (b', n)" by (metis surj_pair)
    have c': "c' = set_element k i (Some b') c" using m at b' by (simp add: cyl_mark_verified_def)
    have f: "b_data b' = b_data b" "b_live b' = b_live b" "b_removed b' = b_removed b" "b_marks b' = b_marks b" "b_cap b' = b_cap b" "b_marked b' = b_marked b"
      using b' by (auto simp: bucket_mark_verified_def Let_def split: if_splits)
    note sm = same_marks[OF f(4,1,5,6)]
    have bi: "bucket_inv I (cy_marks_on c) (\<lambda>e. slot_get e c) (holders M v) (Some b')"
      using dense_invD(3)[OF d w] by (simp add: bucket_inv_def f sm marks_inv_def unmarked_at_def)
    have "dense_inv I c' M"
      by (rule dense_inv_step[OF d at(1,2), of c' "Some b'"]) (use bi dense_invD(4)[OF d] in \<open>simp_all add: c'\<close>)
    moreover have "sparse_inv I c' M = sparse_inv I c M" by (rule sparse_inv_fields) (simp_all add: c')
    moreover have "read_marked_verify u b' = read_marked_verify u b" for u
      by (simp only: read_marked_verify_def snapshot_marked_in_def f)
    then have "read_to_vec_marked w c' = read_to_vec_marked w c"
      using w by (simp add: read_to_vec_marked_def c' writer_set_element[OF dense_invD(1)[OF d] at(1,2)] sparse_churned_def split: option.split)
    ultimately show ?thesis using sp by (simp add: cyl_inv_def)
  qed
  then show "cyl_inv I c' M" "read_to_vec_marked w c' = read_to_vec_marked w c" by blast+
qed

section \<open>Ranges of values\<close>

lemma in_set_slice: "x \<in> set (slice a b xs) \<longleftrightarrow> (\<exists>i. a \<le> i \<and> i < b \<and> i < length xs \<and> xs ! i = x)"
proof
  assume "x \<in> set (slice a b xs)"
  then obtain j where "j < b - a" "a + j < length xs" "xs ! (a + j) = x" by (auto simp: slice_def in_set_conv_nth)
  then show "\<exists>i. a \<le> i \<and> i < b \<and> i < length xs \<and> xs ! i = x" by (intro exI[of _ "a + j"]) auto
next
  assume "\<exists>i. a \<le> i \<and> i < b \<and> i < length xs \<and> xs ! i = x"
  then obtain i where i: "a \<le> i" "i < b" "i < length xs" "xs ! i = x" by blast
  then have "slice a b xs ! (i - a) = x" "i - a < length (slice a b xs)" by (auto simp: slice_def)
  then show "x \<in> set (slice a b xs)" using nth_mem by blast
qed

lemma in_map_filter_id: "b \<in> set (List.map_filter id xs) \<longleftrightarrow> Some b \<in> set xs"
  by (induction xs) (auto simp: List.map_filter_simps split: option.split)

lemma slice_ids: "e \<in> set (concat (map b_data (List.map_filter id (slice a b xs)))) \<longleftrightarrow>
    (\<exists>i b'. a \<le> i \<and> i < b \<and> i < length xs \<and> xs ! i = Some b' \<and> e \<in> set (b_data b'))" (is "?l \<longleftrightarrow> ?r")
proof -
  have "?l \<longleftrightarrow> (\<exists>b'. Some b' \<in> set (slice a b xs) \<and> e \<in> set (b_data b'))" 
    unfolding set_concat set_map UN_simps UN_iff Bex_def in_map_filter_id ..
  also have "\<dots> \<longleftrightarrow> ?r" unfolding in_set_slice by iprover
  finally show ?thesis .
qed

lemma mid_unat: "unat (min a b) = min (unat a) (unat b)" "unat (max a b) = max (unat a) (unat b)" for a b :: u64
  by (simp_all add: min_def max_def word_le_nat_alt)

text \<open>The elements of one array whose value lies in a range are an interval of it.\<close>

lemma range_elements:
  assumes low: "low_ok low" and i: "i < region_cap k" and w: "region_values low k 0 (region_cap k) = (wlo, whi)"
    and a: "a = max lo wlo" and b: "b = min hi whi"
    and ij: "(case k of LOW \<Rightarrow> (unat (a - wlo), unat (b - wlo)) | POS \<Rightarrow> (unat (a - MID), unat (b - MID))
        | NEG \<Rightarrow> (unat (MID - 1 - b), unat (MID - 1 - a))) = (i0, i1)"
  shows "lo \<le> slot_value low k i \<and> slot_value low k i \<le> hi \<longleftrightarrow> a \<le> b \<and> i0 \<le> i \<and> i \<le> i1"
proof -
  note u = unat_slot_value[OF low i]
  have c0: "0 < region_cap k" "region_cap k - 1 < region_cap k" by (simp_all add: region_cap_def)
  note ww = unat_slot_value[OF low c0(1)] unat_slot_value[OF low c0(2)]
  have lh: "wlo = min (slot_value low k 0) (slot_value low k (region_cap k - 1))" "whi = max (slot_value low k 0) (slot_value low k (region_cap k - 1))"
    using w by (simp_all add: region_values_def Let_def)
  show ?thesis
  proof (cases k)
    case LOW
    have W: "unat wlo = unat low" "unat whi = unat low + 1048575" using ww LOW by (simp_all add: lh mid_unat region_cap_def)
    have v: "unat (slot_value low k i) = unat low + i" "i < 1048576" using u i LOW by (simp_all add: region_cap_def)
    have ij': "i0 = unat (a - wlo)" "i1 = unat (b - wlo)" using ij LOW by simp_all
    show ?thesis
      using W v unfolding ij' word_le_nat_alt unat_minus a b mid_unat by (auto simp: max_def min_def split: if_splits)
  next
    case POS
    have W: "unat wlo = 2 ^ 63" "unat whi = 2 ^ 63 + 524287" using ww POS by (simp_all add: lh mid_unat region_cap_def)
    have v: "unat (slot_value low k i) = 2 ^ 63 + i" "i < 524288" using u i POS by (simp_all add: region_cap_def)
    have ij': "i0 = unat (a - MID)" "i1 = unat (b - MID)" using ij POS by simp_all
    show ?thesis
      using W v unfolding ij' word_le_nat_alt unat_minus a b mid_unat unat_MID by (auto simp: max_def min_def split: if_splits)
  next
    case NEG
    have W: "unat wlo = 2 ^ 63 - 524288" "unat whi = 2 ^ 63 - 1" using ww NEG by (simp_all add: lh mid_unat region_cap_def)
    have v: "unat (slot_value low k i) = 2 ^ 63 - 1 - i" "i < 524288" using u i NEG by (simp_all add: region_cap_def)
    have ij': "i0 = unat (MID - 1 - b)" "i1 = unat (MID - 1 - a)" using ij NEG by simp_all
    have m1: "unat (MID - 1) = 2 ^ 63 - 1" by simp
    show ?thesis
      using W v unfolding ij' word_le_nat_alt unat_minus a b mid_unat m1 by (auto simp: max_def min_def split: if_splits)
  qed
qed

lemma writer_elem:
  assumes inv: "dense_inv I c M"
  shows "writer_dense_at v c = Some s \<longleftrightarrow> (\<exists>k i. i < length (cy_arr c k) \<and> slot_value (cy_low_base c) k i = v \<and> cy_arr c k ! i = s)"
proof
  assume "writer_dense_at v c = Some s"
  then obtain k i where "dense_slot (cy_low_base c) v = Some (k, i)" "i < length (cy_arr c k)" "cy_arr c k ! i = s"
    by (auto simp: writer_dense_at_def split: option.splits if_splits)
  then show "\<exists>k i. i < length (cy_arr c k) \<and> slot_value (cy_low_base c) k i = v \<and> cy_arr c k ! i = s"
    using dense_slot_iff[OF dense_invD(1)[OF inv]] by blast
next
  assume "\<exists>k i. i < length (cy_arr c k) \<and> slot_value (cy_low_base c) k i = v \<and> cy_arr c k ! i = s"
  then obtain k i where i: "i < length (cy_arr c k)" "slot_value (cy_low_base c) k i = v" "cy_arr c k ! i = s" by blast
  then have "dense_slot (cy_low_base c) v = Some (k, i)"
    using dense_slot_iff[OF dense_invD(1)[OF inv], of v k i] dense_invD(2)[OF inv, of k] by simp
  then show "writer_dense_at v c = Some s" using i by (simp add: writer_dense_at_def)
qed

lemma dense_range_elem:
  assumes inv: "dense_inv I c M"
  shows "e \<in> set (dense_range_into lo hi (\<lambda>k. 0) (\<lambda>k. length (cy_arr c k)) c) \<longleftrightarrow>
    (\<exists>v b. lo \<le> v \<and> v \<le> hi \<and> writer_dense_at v c = Some (Some b) \<and> e \<in> set (b_data b))"
proof -
  note low = dense_invD(1)[OF inv] and cap = dense_invD(2)[OF inv]
  define piece where "piece = (\<lambda>k.
     if 0 \<ge> length (cy_arr c k) then []
     else case region_values (cy_low_base c) k 0 (region_cap k) of (wlo, whi) \<Rightarrow>
       let a = max lo wlo; b = min hi whi
       in if a > b then []
          else let (i0, i1) = (case k of
                   LOW \<Rightarrow> (unat (a - wlo), unat (b - wlo))
                 | POS \<Rightarrow> (unat (a - MID), unat (b - MID))
                 | NEG \<Rightarrow> (unat (MID - 1 - b), unat (MID - 1 - a)));
               i0 = max i0 0; i1 = min i1 (length (cy_arr c k) - 1)
          in if i0 > i1 then []
             else let i1 = min i1 (length (cy_arr c k) - 1)
                  in if cy_arr c k = [] \<or> i0 > i1 then []
                     else concat (map b_data (List.map_filter id (slice i0 (i1 + 1) (cy_arr c k)))))"
  have p: "e \<in> set (piece k) \<longleftrightarrow> (\<exists>i b. i < length (cy_arr c k) \<and> lo \<le> slot_value (cy_low_base c) k i \<and>
      slot_value (cy_low_base c) k i \<le> hi \<and> cy_arr c k ! i = Some b \<and> e \<in> set (b_data b))" for k
  proof (cases "cy_arr c k = []")
    case ne: False
    obtain wlo whi where w: "region_values (cy_low_base c) k 0 (region_cap k) = (wlo, whi)" by (metis surj_pair)
    define a b where "a = max lo wlo" and "b = min hi whi"
    obtain i0 i1 where ij: "(case k of LOW \<Rightarrow> (unat (a - wlo), unat (b - wlo)) | POS \<Rightarrow> (unat (a - MID), unat (b - MID))
        | NEG \<Rightarrow> (unat (MID - 1 - b), unat (MID - 1 - a))) = (i0, i1)" by (metis surj_pair)
    have r: "lo \<le> slot_value (cy_low_base c) k i \<and> slot_value (cy_low_base c) k i \<le> hi \<longleftrightarrow> a \<le> b \<and> i0 \<le> i \<and> i \<le> i1"
      if "i < length (cy_arr c k)" for i
      by (rule range_elements[OF low _ w a_def b_def ij]) (use that cap[of k] in simp)
    have pk: "piece k = (if b < a then [] else if min i1 (length (cy_arr c k) - 1) < i0 then []
        else concat (map b_data (List.map_filter id (slice i0 (min i1 (length (cy_arr c k) - 1) + 1) (cy_arr c k)))))"
      using ne by (simp add: piece_def w a_def[symmetric] b_def[symmetric] ij)
    have "e \<in> set (piece k) \<longleftrightarrow> (\<exists>i b'. a \<le> b \<and> i0 \<le> i \<and> i \<le> i1 \<and> i < length (cy_arr c k) \<and> cy_arr c k ! i = Some b' \<and> e \<in> set (b_data b'))"
    proof -
      let ?m = "min i1 (length (cy_arr c k) - 1)"
      have "(i < ?m + 1 \<and> i < length (cy_arr c k) \<and> Q) = (i \<le> i1 \<and> i < length (cy_arr c k) \<and> Q)" for i Q by auto
      note ids = slice_ids[of e i0 "?m + 1" "cy_arr c k", unfolded this]
      have "\<not> (?m < i0) \<or> \<not> (\<exists>i. i0 \<le> i \<and> i \<le> i1 \<and> i < length (cy_arr c k))" by auto
      then show ?thesis using ids unfolding pk by (cases "b < a"; cases "?m < i0") (simp_all only: if_True if_False not_less simp_thms, auto)
    qed
    then show ?thesis using r by blast
  qed (simp add: piece_def)
  have "dense_range_into lo hi (\<lambda>k. 0) (\<lambda>k. length (cy_arr c k)) c = concat (map piece all_arrays)"
    unfolding dense_range_into_def piece_def ..
  then have "e \<in> set (dense_range_into lo hi (\<lambda>k. 0) (\<lambda>k. length (cy_arr c k)) c) \<longleftrightarrow> (\<exists>k. e \<in> set (piece k))"
    by (simp del: UN_iff) (metis dense_array.exhaust)
  then show ?thesis unfolding p writer_elem[OF inv] by blast
qed

lemma range_raw_covers:
  assumes inv: "cyl_inv I c M"
  shows "M e = Some v \<Longrightarrow> lo \<le> v \<Longrightarrow> v \<le> hi \<Longrightarrow> e \<in> set (range_raw lo hi c)" "set (range_raw lo hi c) \<subseteq> I"
proof -
  have d: "dense_inv I c M" and sp: "sparse_inv I c M" using inv by (simp_all add: cyl_inv_def)
  show "set (range_raw lo hi c) \<subseteq> I"
  proof
    fix e assume "e \<in> set (range_raw lo hi c)"
    then consider v b where "writer_dense_at v c = Some (Some b)" "e \<in> set (b_data b)" | p where "p \<in> set (cy_entries c)" "e = snd p"
      by (auto simp: range_raw_def dense_range_elem[OF d] rs_range_filter[OF sparse_invD(1)[OF sp]] split: if_splits)
    then show "e \<in> I"
      using sparse_invD(2)[OF sp] dense_invD(3)[OF d] by cases (fastforce simp: bucket_inv_def)+
  qed
  assume h: "M e = Some v" "lo \<le> v" "v \<le> hi"
  then have le: "\<not> hi < lo" by auto
  show "e \<in> set (range_raw lo hi c)"
  proof (cases "writer_dense_at v c")
    case (Some s)
    have "e \<in> holders M v" using h by (simp add: holders_def)
    then obtain b where "s = Some b" "e \<in> set (b_data b)" using dense_invD(3)[OF d Some] by (cases s) (auto simp: bucket_inv_def)
    then show ?thesis using h le Some by (auto simp: range_raw_def dense_range_elem[OF d])
  next
    case None
    then have "(v, e) \<in> set (cy_entries c)" using h sparse_invD(3)[OF sp] by (auto simp: sparse_live_def in_array_writer)
    then show ?thesis using h le by (force simp: range_raw_def rs_range_filter[OF sparse_invD(1)[OF sp]])
  qed
qed

end
