(* ===== verification/Value_Index.thy ===== *)
theory Value_Index
  imports Cylinder_Read
begin

text \<open>
  The contract between a column and its value index, as an interface: what the column tells the
  index when an id leaves a value or enters one, and what it may rely on when it looks a value
  up: the ids that hold it and perhaps some that left it, with a flag that is down only when the
  answer is exact. The client lemmas hold for every index that keeps the contract; the value index
  of \<^verbatim>\<open>lockfree_cylinder.rs\<close> is shown to keep it.
\<close>

section \<open>The interface\<close>

primrec final_map :: "('id \<times> 'v option) list \<Rightarrow> ('id \<rightharpoonup> 'v) \<Rightarrow> 'id \<rightharpoonup> 'v" where
  "final_map [] M = M"
| "final_map (op # ops) M = final_map ops (M(fst op := snd op))"

locale value_index =
  fixes inv :: "'id set \<Rightarrow> 'ix \<Rightarrow> ('id \<rightharpoonup> 'v) \<Rightarrow> bool"
    and leave :: "'v \<Rightarrow> 'id \<Rightarrow> 'ix \<Rightarrow> 'ix"
    and enter :: "('id \<rightharpoonup> 'v) \<Rightarrow> 'id \<Rightarrow> 'v \<Rightarrow> 'ix \<Rightarrow> 'ix"
    and look :: "'v \<Rightarrow> 'ix \<Rightarrow> 'id list \<times> bool"
    and live_len :: "'v \<Rightarrow> 'ix \<Rightarrow> nat option"
    and storable :: "'v \<Rightarrow> bool"
  assumes leave_inv: "inv I ix M \<Longrightarrow> M e = Some v \<Longrightarrow> inv I (leave v e ix) (M(e := None))"
    and enter_inv: "inv I ix M \<Longrightarrow> M e = None \<Longrightarrow> e \<in> I \<Longrightarrow> storable v \<Longrightarrow> inv I (enter (M(e \<mapsto> v)) e v ix) (M(e \<mapsto> v))"
    and look_covers: "inv I ix M \<Longrightarrow> look v ix = (out, needs) \<Longrightarrow> {e. M e = Some v} \<subseteq> set out \<and> set out \<subseteq> I"
    and look_exact: "inv I ix M \<Longrightarrow> look v ix = (out, False) \<Longrightarrow> distinct out \<and> set out = {e. M e = Some v}"
    and live_len_exact: "inv I ix M \<Longrightarrow> live_len v ix = Some n \<Longrightarrow> n = card {e. M e = Some v}"
begin

text \<open>
  One write as the column sees it: the id leaves the value it had and enters the new one, in
  this order; nothing is told to the index when the value stays the same.
\<close>

definition move :: "'id \<Rightarrow> 'v option \<Rightarrow> 'ix \<times> ('id \<rightharpoonup> 'v) \<Rightarrow> 'ix \<times> ('id \<rightharpoonup> 'v)" where
  "move e new = (\<lambda>(ix, M).
     if M e = new then (ix, M)
     else let ix1 = (case M e of None \<Rightarrow> ix | Some v \<Rightarrow> leave v e ix)
          in (case new of None \<Rightarrow> ix1 | Some v \<Rightarrow> enter (M(e \<mapsto> v)) e v ix1, M(e := new)))"

lemma move_inv:
  assumes inv: "inv I ix M" and e: "e \<in> I" and v: "\<forall>v. new = Some v \<longrightarrow> storable v" and m: "move e new (ix, M) = (ix', M')"
  shows "inv I ix' M'" "M' = M(e := new)"
proof -
  show M': "M' = M(e := new)" using m by (auto simp: move_def Let_def split: if_splits)
  define ix1 where "ix1 = (case M e of None \<Rightarrow> ix | Some v \<Rightarrow> leave v e ix)"
  have i1: "inv I ix1 (M(e := None))" using inv leave_inv[OF inv, of e] by (auto simp: ix1_def fun_upd_idem split: option.split)
  have "inv I (enter (M(e \<mapsto> w)) e w ix1) (M(e \<mapsto> w))" if "storable w" for w using enter_inv[OF i1 _ e that] by simp
  then have "inv I (case new of None \<Rightarrow> ix1 | Some w \<Rightarrow> enter (M(e \<mapsto> w)) e w ix1) (M(e := new))"
    using i1 v by (cases new) simp_all
  moreover have "move e new (ix, M) = (if M e = new then (ix, M) else (case new of None \<Rightarrow> ix1 | Some w \<Rightarrow> enter (M(e \<mapsto> w)) e w ix1, M(e := new)))"
    unfolding move_def ix1_def[symmetric] by (simp add: Let_def ix1_def[symmetric])
  ultimately show "inv I ix' M'" using m inv by (auto simp del: fun_upd_apply split: if_splits)
qed

definition moves :: "('id \<times> 'v option) list \<Rightarrow> 'ix \<times> ('id \<rightharpoonup> 'v) \<Rightarrow> 'ix \<times> ('id \<rightharpoonup> 'v)" where
  "moves ops s = fold (\<lambda>(e, new). move e new) ops s"

lemma moves_inv:
  assumes "inv I ix M" "\<forall>(e, new) \<in> set ops. e \<in> I \<and> (\<forall>v. new = Some v \<longrightarrow> storable v)" "moves ops (ix, M) = (ix', M')"
  shows "inv I ix' M' \<and> M' = final_map ops M"
  using assms
proof (induction ops arbitrary: ix M)
  case (Cons op ops)
  obtain e new where op: "op = (e, new)" by fastforce
  obtain ix1 M1 where s: "move e new (ix, M) = (ix1, M1)" by fastforce
  have p: "e \<in> I" "\<forall>v. new = Some v \<longrightarrow> storable v" using Cons.prems(2) op by auto
  note mi = move_inv[OF Cons.prems(1) p s]
  have "moves ops (ix1, M1) = (ix', M')" using Cons.prems(3) s by (simp add: moves_def op)
  from Cons.IH[OF mi(1) _ this] show ?case using Cons.prems(2) mi(2) by (auto simp: op simp del: fun_upd_apply)
qed (simp add: moves_def)

text \<open>What a client reads after its moves: the answer itself when the flag is down, the answer checked
  against the column when it is up.\<close>

lemma moves_look:
  assumes "inv I ix M" "\<forall>(e, new) \<in> set ops. e \<in> I \<and> (\<forall>v. new = Some v \<longrightarrow> storable v)" "moves ops (ix, M) = (ix', M')"
    and l: "look v ix' = (out, needs)"
  shows "M' = final_map ops M" "{e. M' e = Some v} \<subseteq> set out" "set out \<subseteq> I" "\<not> needs \<Longrightarrow> distinct out \<and> set out = {e. M' e = Some v}"
    "set (if needs then filter (\<lambda>e. M' e = Some v) out else out) = {e. M' e = Some v}"
    "live_len v ix' = Some n \<Longrightarrow> n = card {e. M' e = Some v}"
proof -
  have i: "inv I ix' M'" and m: "M' = final_map ops M" using moves_inv[OF assms(1-3)] by blast+
  show "M' = final_map ops M" by (rule m)
  note c = look_covers[OF i l]
  have x: "\<not> needs \<Longrightarrow> distinct out \<and> set out = {e. M' e = Some v}" using look_exact[OF i] l by simp
  show "{e. M' e = Some v} \<subseteq> set out" "set out \<subseteq> I" "\<not> needs \<Longrightarrow> distinct out \<and> set out = {e. M' e = Some v}"
    "set (if needs then filter (\<lambda>e. M' e = Some v) out else out) = {e. M' e = Some v}"
    using c x by auto
  show "live_len v ix' = Some n \<Longrightarrow> n = card {e. M' e = Some v}" by (rule live_len_exact[OF i])
qed

end

section \<open>The cylinder keeps the contract\<close>

definition cyl_leave :: "u64 \<Rightarrow> u32 \<Rightarrow> cylinder \<Rightarrow> cylinder" where
  "cyl_leave v e c = fst (note_stale_of_in v e c)"

definition cyl_enter :: "(u32 \<rightharpoonup> u64) \<Rightarrow> u32 \<Rightarrow> u64 \<Rightarrow> cylinder \<Rightarrow> cylinder" where
  "cyl_enter M e v c = cyl_insert e v (\<lambda>(w, x). M x = Some w) c"

definition cyl_look :: "u64 \<Rightarrow> cylinder \<Rightarrow> u32 list \<times> bool" where
  "cyl_look v c = (case read_to_vec_marked v c of (out, needs, _) \<Rightarrow> (out, needs))"

interpretation cyl: value_index cyl_inv cyl_leave cyl_enter cyl_look dense_live_len "\<lambda>v. v \<noteq> NO_VALUE"
proof
  show "cyl_inv I (cyl_leave v e c) (M(e := None))" if "cyl_inv I c M" "M e = Some v" for I c M e v
    unfolding cyl_leave_def by (rule cyl_note_stale(1)[OF that prod.collapse[symmetric]])
  show "cyl_inv I (cyl_enter (M(e \<mapsto> v)) e v c) (M(e \<mapsto> v))" if "cyl_inv I c M" "M e = None" "e \<in> I" "v \<noteq> NO_VALUE" for I c M e v
    unfolding cyl_enter_def cyl_insert_def by (rule cyl_insert_with[OF that]) simp
  show "{e. M e = Some v} \<subseteq> set out \<and> set out \<subseteq> I" if "cyl_inv I c M" "cyl_look v c = (out, needs)" for I c M v out needs
    using cyl_read(1,2)[OF that(1)] that(2) by (auto simp: cyl_look_def holders_def split: prod.splits)
  show "distinct out \<and> set out = {e. M e = Some v}" if "cyl_inv I c M" "cyl_look v c = (out, False)" for I c M v out
    using cyl_read(3)[OF that(1)] that(2) by (auto simp: cyl_look_def holders_def split: prod.splits)
  show "n = card {e. M e = Some v}" if "cyl_inv I c M" "dense_live_len v c = Some n" for I c M v n
    using dense_live_len_card[OF that(1), of v] that(2) by (simp add: holders_def split: if_splits)
qed

definition cyl_moves :: "(u32 \<times> u64 option) list \<Rightarrow> cylinder \<times> (u32 \<rightharpoonup> u64) \<Rightarrow> cylinder \<times> (u32 \<rightharpoonup> u64)" where
  "cyl_moves = fold (\<lambda>(e, new) (c, M).
     if M e = new then (c, M)
     else let c1 = (case M e of None \<Rightarrow> c | Some v \<Rightarrow> cyl_leave v e c)
          in (case new of None \<Rightarrow> c1 | Some v \<Rightarrow> cyl_enter (M(e \<mapsto> v)) e v c1, M(e := new)))"

lemma cyl_moves_eq: "cyl_moves ops s = cyl.moves ops s"
  by (simp add: cyl_moves_def cyl.moves_def cyl.move_def[abs_def])

text \<open>An empty index, with or without the table of positions that marks need.\<close>

definition empty_index :: "(bool \<times> u32) option \<Rightarrow> u32 \<Rightarrow> cylinder" where
  "empty_index slots max_values =
     cyl_build [] (case slots of None \<Rightarrow> cyl_new max_values | Some (ok, n) \<Rightarrow> init_slots ok n (cyl_new max_values))"

lemma empty_index_inv: "cyl_inv I (empty_index slots max_values) Map.empty"
  unfolding empty_index_def by (rule cyl_build_inv) (simp_all add: cyl_empty_ops split: option.split)

text \<open>
  C15. Starting from an empty index, with marks or without, after any sequence of ids leaving and
  entering values, reading a value returns every id that holds it, no id that was never written,
  and, unless it asks for the answers to be checked, exactly the ids that hold it, each once; the
  number of live ids it keeps for a value of the arrays is the number of ids that hold the value.
  This is so wherever the value lives (arrays that grow, sparse runs, buckets with stale
  entries).
\<close>

theorem index_follows_moves:
  assumes "\<forall>(e, new) \<in> set ops. \<forall>v. new = Some v \<longrightarrow> v \<noteq> NO_VALUE"
    and "cyl_moves ops (empty_index slots max_values, Map.empty) = (c, M)" "read_to_vec_marked v c = (out, needs, stale)"
  shows "M = final_map ops Map.empty \<and> {e. M e = Some v} \<subseteq> set out \<and> set out \<subseteq> fst ` set ops \<and>
    (\<not> needs \<longrightarrow> distinct out \<and> set out = {e. M e = Some v}) \<and> (needs \<longrightarrow> stale) \<and>
    (\<forall>n. dense_live_len v c = Some n \<longrightarrow> n = card {e. M e = Some v})"
proof -
  let ?I = "fst ` set ops"
  have a: "\<forall>(e, new) \<in> set ops. e \<in> ?I \<and> (\<forall>v. new = Some v \<longrightarrow> v \<noteq> NO_VALUE)" using assms(1) by force
  have b: "cyl.moves ops (empty_index slots max_values, Map.empty) = (c, M)" using assms(2) by (simp add: cyl_moves_eq)
  have l: "cyl_look v c = (out, needs)" using assms(3) by (simp add: cyl_look_def)
  have "cyl_inv ?I c M" using cyl.moves_inv[OF empty_index_inv a b] by blast
  then show ?thesis using cyl.moves_look[OF empty_index_inv a b l] cyl_read(4)[OF _ assms(3)] by blast
qed

theorem index_follows_moves_witness:
  "let (c, M) = cyl_moves [(1, Some 5), (2, Some 5), (1, Some 6), (2, None)] (empty_index (Some (True, 4)) 0, Map.empty);
       (out, needs, _) = read_to_vec_marked 5 c; (out', needs', _) = read_to_vec_marked 6 c
   in set out \<subseteq> {1, 2} \<and> (\<not> needs \<longrightarrow> out = []) \<and> 1 \<in> set out' \<and> (\<not> needs' \<longrightarrow> out' = [1])"
proof -
  let ?ops = "[(1 :: u32, Some 5), (2, Some 5), (1, Some 6), (2, None)] :: (u32 \<times> u64 option) list"
  obtain c M where r: "cyl_moves ?ops (empty_index (Some (True, 4)) 0, Map.empty) = (c, M)" by (metis surj_pair)
  obtain out needs st where o5: "read_to_vec_marked 5 c = (out, needs, st)" by (metis prod_cases3)
  obtain out' needs' st' where o6: "read_to_vec_marked 6 c = (out', needs', st')" by (metis prod_cases3)
  have h: "\<forall>(e, new) \<in> set ?ops. \<forall>v. new = Some v \<longrightarrow> v \<noteq> NO_VALUE" by simp
  note f = index_follows_moves[OF h r o5] and g = index_follows_moves[OF h r o6]
  have M: "M = Map.empty(1 \<mapsto> 6)" using conjunct1[OF f] by (auto simp: fun_eq_iff)
  have m: "{e. M e = Some 5} = {}" "{e. M e = Some 6} = {1}" by (auto simp: M split: if_splits)
  have x: "out' = [1]" if "distinct out'" "set out' = {1}"
  proof -
    have "length out' = 1" using distinct_card[OF that(1)] that(2) by simp
    then show ?thesis using that(2) by (cases out') auto
  qed
  have "set out \<subseteq> {1, 2}" "\<not> needs \<Longrightarrow> out = []" using f unfolding m by auto
  moreover have "1 \<in> set out'" "\<not> needs' \<Longrightarrow> out' = [1]" using g x unfolding m by blast+
  ultimately show ?thesis by (simp add: r o5 o6)
qed

end
