(* ===== verification/Region.thy ===== *)
theory Region
  imports Prelude
begin

text \<open>
  The mapped region every store lives in (\<^verbatim>\<open>Region\<close> in \<^verbatim>\<open>crates/enchudb-engine/src/region.rs\<close>):
  a byte list of fixed length together with the length the file behind it is committed to.
  A byte past the committed length reads as zero. Whether the file can grow
  (\<^verbatim>\<open>grow_amortized\<close> of the segment, which fails when the disk is full) is an argument of
  the operations, and a full disk one of its values. The record of dirty ranges, which only narrows
  what a flush writes, is not part of the model.

  The lemmas give the frame rules of reads and writes, and show that the word-wise copy loops
  \<^verbatim>\<open>write_atomic\<close> and \<^verbatim>\<open>read_atomic\<close> are plain copies.
\<close>

section \<open>Regions\<close>

record region =
  rg_mem :: bytes
  rg_committed :: nat

type_synonym grower = "nat \<Rightarrow> nat option"

definition u32_at :: "bytes \<Rightarrow> nat \<Rightarrow> u32" where
  "u32_at m off = from_le_bytes (slice off (off + 4) m)"

definition u64_at :: "bytes \<Rightarrow> nat \<Rightarrow> u64" where
  "u64_at m off = from_le_bytes (slice off (off + 8) m)"

definition write_at :: "nat \<Rightarrow> bytes \<Rightarrow> region \<Rightarrow> region" where
  "write_at off src rg = rg\<lparr>rg_mem := put_at off src (rg_mem rg)\<rparr>"

definition fill_at :: "nat \<Rightarrow> nat \<Rightarrow> u8 \<Rightarrow> region \<Rightarrow> region" where
  "fill_at off len v rg = rg\<lparr>rg_mem := put_at off (replicate len v) (rg_mem rg)\<rparr>"

definition committed_len :: "region \<Rightarrow> nat" where
  "committed_len rg = min (rg_committed rg) (length (rg_mem rg))"

definition is_committed :: "nat \<Rightarrow> region \<Rightarrow> bool" where
  "is_committed till rg \<longleftrightarrow> rg_committed rg \<ge> till"

definition ensure_committed :: "grower \<Rightarrow> nat \<Rightarrow> region \<Rightarrow> region \<times> bool" where
  "ensure_committed grow till rg = (
     if is_committed till rg then (rg, True)
     else case grow till of None \<Rightarrow> (rg, False)
       | Some c \<Rightarrow> (rg\<lparr>rg_committed := max till c\<rparr>, True))"

text \<open>
  The copies by 32-bit words with a tail of single bytes. \<^const>\<open>None\<close> is the panic of their
  assertions on range and alignment.
\<close>

definition write_atomic :: "nat \<Rightarrow> bytes \<Rightarrow> region \<Rightarrow> region option" where
  "write_atomic off src rg = (
     if \<not> off + length src \<le> length (rg_mem rg) \<or> off mod 4 \<noteq> 0 then None
     else let n = length src; words = n div 4;
              m1 = fold (\<lambda>w m. put_at (off + w * 4) (to_le_bytes (u32_at src (w * 4))) m) [0..<words] (rg_mem rg);
              m2 = fold (\<lambda>b m. m[off + b := src ! b]) [words * 4..<n] m1
          in Some (rg\<lparr>rg_mem := m2\<rparr>))"

definition read_atomic :: "nat \<Rightarrow> nat \<Rightarrow> region \<Rightarrow> bytes option" where
  "read_atomic off len rg = (
     if \<not> off + len \<le> length (rg_mem rg) \<or> off mod 4 \<noteq> 0 then None
     else let words = len div 4
          in Some (concat (map (\<lambda>w. to_le_bytes (u32_at (rg_mem rg) (off + w * 4))) [0..<words]) @
                map (\<lambda>b. rg_mem rg ! (off + b)) [words * 4..<len]))"

section \<open>Reading and writing the region\<close>

lemma u32_at_put_same [simp]:
  "off + 4 \<le> length m \<Longrightarrow> u32_at (put_at off (to_le_bytes v) m) off = v"
  using slice_put_same[of off "to_le_bytes v" m] by (simp add: u32_at_def)

lemma u32_at_put_other:
  "off + 4 \<le> length m \<Longrightarrow> off' + 4 \<le> length m \<Longrightarrow> off' + 4 \<le> off \<or> off + 4 \<le> off' \<Longrightarrow>
    u32_at (put_at off (to_le_bytes (v :: u32)) m) off' = u32_at m off'"
  using slice_put_out[where off = off and bs = "to_le_bytes (v :: u32)" and xs = m and a = off' and b = "off' + 4"]
  by (simp add: u32_at_def)

lemma u32_at_update_other:
  "k < off \<or> off + 4 \<le> k \<Longrightarrow> u32_at (m[k := x]) off = u32_at m off"
  by (auto simp: u32_at_def slice_def drop_update_cancel take_update_cancel drop_update_swap)

lemma to_le_u32_at: "off + 4 \<le> length m \<Longrightarrow> to_le_bytes (u32_at m off) = slice off (off + 4) m"
  by (simp add: u32_at_def to_le_from_le length_slice)

lemma put_words:
  assumes "4 * k \<le> length src" "off + length src \<le> length m"
  shows "fold (\<lambda>w m. put_at (off + w * 4) (to_le_bytes (u32_at src (w * 4))) m) [0..<k] m = put_at off (take (4 * k) src) m"
  using assms(1)
proof (induction k)
  case (Suc k)
  have "take (4 * Suc k) src = take (4 * k) src @ slice (k * 4) (k * 4 + 4) src"
    using take_add[of "4 * k" 4 src] by (simp add: slice_def add.commute mult.commute)
  moreover have "length (take (4 * k) src) = k * 4" "length (slice (k * 4) (k * 4 + 4) src) = 4"
    using Suc.prems by (simp_all add: length_slice)
  ultimately show ?case
    using Suc assms(2) put_at_join_before[of off "take (4 * k) src" "slice (k * 4) (k * 4 + 4) src" m]
    by (simp add: to_le_u32_at)
qed (simp add: put_at_def)

lemma put_bytes:
  assumes "j \<le> n" "n \<le> length src" "off + length src \<le> length m"
  shows "fold (\<lambda>b m. m[off + b := src ! b]) [j..<n] (put_at off (take j src) m) = put_at off (take n src) m"
  using assms
proof (induction "n - j" arbitrary: j)
  case (Suc d)
  then have "[j..<n] = j # [Suc j..<n]" by (simp add: upt_conv_Cons)
  moreover have "(put_at off (take j src) m)[off + j := src ! j] = put_at off (take (Suc j) src) m"
  proof -
    have "drop (off + j) m = (m ! (off + j)) # drop (Suc (off + j)) m"
      using Suc.prems Suc.hyps(2) by (intro Cons_nth_drop_Suc[symmetric]) simp
    then show ?thesis
      using Suc.prems Suc.hyps(2) by (simp add: put_at_def take_Suc_conv_app_nth list_update_append)
  qed
  moreover have "d = n - Suc j" "Suc j \<le> n" using Suc.hyps(2) by simp_all
  ultimately show ?case using Suc by simp
qed simp

lemma write_atomic_eq:
  "off + length src \<le> length (rg_mem rg) \<Longrightarrow> off mod 4 = 0 \<Longrightarrow> write_atomic off src rg = Some (write_at off src rg)"
  using put_words[of "length src div 4" src off "rg_mem rg"]
    put_bytes[of "length src div 4 * 4" "length src" src off "rg_mem rg"]
  by (simp add: write_atomic_def write_at_def Let_def mult.commute)

lemma read_words:
  "off + 4 * k \<le> length m \<Longrightarrow>
    concat (map (\<lambda>w. to_le_bytes (u32_at m (off + w * 4))) [0..<k]) = slice off (off + 4 * k) m"
proof (induction k)
  case (Suc k)
  then show ?case
    using slice_split[of off "off + 4 * k" "off + 4 * Suc k" m] by (simp add: to_le_u32_at ac_simps)
qed simp

lemma read_atomic_eq:
  assumes "off + len \<le> length (rg_mem rg)" "off mod 4 = 0"
  shows "read_atomic off len rg = Some (slice off (off + len) (rg_mem rg))"
proof -
  let ?k = "4 * (len div 4)"
  have "map (\<lambda>b. rg_mem rg ! (off + b)) [?k..<len] = slice (off + ?k) (off + len) (rg_mem rg)"
    using assms(1) by (intro nth_equalityI) (simp_all add: slice_def add.assoc)
  then show ?thesis
    using assms read_words[of off "len div 4" "rg_mem rg"] slice_split[of off "off + ?k" "off + len" "rg_mem rg"]
    by (simp add: read_atomic_def Let_def mult.commute)
qed

text \<open>The bytes past the committed length are zero.\<close>

definition zero_tail :: "region \<Rightarrow> bool" where
  "zero_tail rg \<longleftrightarrow> (\<forall>k \<ge> rg_committed rg. k < length (rg_mem rg) \<longrightarrow> rg_mem rg ! k = 0)"

lemma zero_tail_write:
  assumes "zero_tail rg" "off + length src \<le> length (rg_mem rg)" "is_committed (off + length src) rg"
  shows "zero_tail (write_at off src rg)"
  using assms by (auto simp: zero_tail_def write_at_def is_committed_def length_put_at nth_put_at_after)

lemma ensure_committed_result:
  assumes "ensure_committed grow till rg = (rg', ok)"
  shows "rg_mem rg' = rg_mem rg" "rg_committed rg \<le> rg_committed rg'" "ok \<Longrightarrow> is_committed till rg'" "\<not> ok \<Longrightarrow> rg' = rg"
  using assms by (auto simp: ensure_committed_def is_committed_def split: if_splits option.splits)

lemma zero_tail_commit: "zero_tail rg \<Longrightarrow> zero_tail (fst (ensure_committed grow till rg))"
  by (auto simp: zero_tail_def ensure_committed_def is_committed_def split: option.split)

end
