(* ===== verification/Column.thy ===== *)
theory Column
  imports Region
begin

text \<open>
  A column of fixed-width cells (\<^verbatim>\<open>Column\<close> in \<^verbatim>\<open>crates/enchudb-engine/src/column.rs\<close>): 16 header
  bytes (count, cell width, capacity, start of the cells) and the cells, right after the
  header or 17 MiB behind it. Values, cell versions and deletion versions are all kept in
  columns. A column may be built without touching its region (\<^verbatim>\<open>init_lazy\<close>); the header is
  then written before the first cell.

  The lemmas show that a column is a map from ids to cells with the header beside it, that
  every write keeps the header readable, and that loading the region of a column gives the
  column back.
\<close>

section \<open>The column and its operations\<close>

abbreviation COL_HEADER :: nat where
  "COL_HEADER \<equiv> 16"

abbreviation CELLS_PAD :: nat where
  "CELLS_PAD \<equiv> 17825792"

abbreviation CELLS_AT :: nat where
  "CELLS_AT \<equiv> 12"

record column =
  col_region :: region
  col_count :: u32
  col_value_size :: u32
  col_max_entities :: u32
  col_cells :: nat

datatype column_error = RegionTooSmall nat | ValueSizeMismatch u32 u32 | BadCellsStart nat | CellsPastRegion u32 nat nat

definition cells_field :: "nat \<Rightarrow> u32" where
  "cells_field cells = (if cells = COL_HEADER then 0 else word_of_nat cells)"

definition with_cells :: "region \<Rightarrow> u32 \<Rightarrow> u32 \<Rightarrow> u32 \<Rightarrow> nat \<Rightarrow> column" where
  "with_cells rg count value_size max_entities cells =
     \<lparr>col_region = rg, col_count = count, col_value_size = value_size, col_max_entities = max_entities, col_cells = cells\<rparr>"

definition cells_start :: "bool \<Rightarrow> nat" where
  "cells_start padded = (if padded then CELLS_PAD else COL_HEADER)"

definition col_init :: "region \<Rightarrow> u32 \<Rightarrow> u32 \<Rightarrow> bool \<Rightarrow> column" where
  "col_init rg value_size max_entities padded =
     (let cells = cells_start padded;
          rg1 = write_at 0 (to_le_bytes (0 :: u32)) rg;
          rg2 = write_at 4 (to_le_bytes value_size) rg1;
          rg3 = write_at 8 (to_le_bytes max_entities) rg2;
          rg4 = write_at CELLS_AT (to_le_bytes (cells_field cells)) rg3
      in with_cells rg4 0 value_size max_entities cells)"

definition init_lazy :: "region \<Rightarrow> u32 \<Rightarrow> u32 \<Rightarrow> bool \<Rightarrow> column" where
  "init_lazy rg value_size max_entities padded = with_cells rg 0 value_size max_entities (cells_start padded)"

definition col_load :: "region \<Rightarrow> column" where
  "col_load rg =
     (let mm = rg_mem rg; c = u32_at mm CELLS_AT
      in with_cells rg (u32_at mm 0) (u32_at mm 4) (u32_at mm 8) (if c = 0 then COL_HEADER else unat c))"

definition load_or_unwritten :: "region \<Rightarrow> u32 \<Rightarrow> u32 \<Rightarrow> bool \<Rightarrow> column_error + column" where
  "load_or_unwritten rg value_size max_entities padded = (
     if length (rg_mem rg) < COL_HEADER then Inl (RegionTooSmall (length (rg_mem rg)))
     else let stored_vs = u32_at (rg_mem rg) 4
     in if stored_vs = 0 then Inr (init_lazy rg value_size max_entities padded)
        else if stored_vs \<noteq> value_size then Inl (ValueSizeMismatch stored_vs value_size)
        else let col = col_load rg
        in if col_cells col \<noteq> COL_HEADER \<and> col_cells col \<noteq> CELLS_PAD then Inl (BadCellsStart (col_cells col))
           else let stop = unat (col_count col) * unat value_size + col_cells col
           in if stop > length (rg_mem rg) then Inl (CellsPastRegion (col_count col) stop (length (rg_mem rg)))
              else Inr col)"

definition ensure_header :: "column \<Rightarrow> column" where
  "ensure_header col = (
     if u32_at (rg_mem (col_region col)) 4 \<noteq> col_value_size col
     then let rg1 = write_at 4 (to_le_bytes (col_value_size col)) (col_region col);
              rg2 = write_at 8 (to_le_bytes (col_max_entities col)) rg1;
              rg3 = write_at CELLS_AT (to_le_bytes (cells_field (col_cells col))) rg2
          in col\<lparr>col_region := rg3\<rparr>
     else col)"

definition col_region_size :: "u32 \<Rightarrow> u32 \<Rightarrow> nat" where
  "col_region_size max_entities value_size = COL_HEADER + unat max_entities * unat value_size"

definition is_padded :: "column \<Rightarrow> bool" where
  "is_padded col \<longleftrightarrow> col_cells col \<noteq> COL_HEADER"

definition cells_offset_of :: "bytes \<Rightarrow> nat" where
  "cells_offset_of header = (
     if CELLS_AT + 4 \<le> length header \<and> u32_at header CELLS_AT \<noteq> 0 then unat (u32_at header CELLS_AT) else COL_HEADER)"

definition cell_off :: "column \<Rightarrow> nat \<Rightarrow> nat" where
  "cell_off col e = col_cells col + e * unat (col_value_size col)"

definition col_set :: "u32 \<Rightarrow> bytes \<Rightarrow> column \<Rightarrow> column" where
  "col_set eid v col =
     (let len = min (length v) (unat (col_value_size col))
      in col\<lparr>col_region := write_at (cell_off col (unat eid)) (take len v) (col_region col)\<rparr>)"

definition ensure_committed_for :: "grower \<Rightarrow> u32 \<Rightarrow> column \<Rightarrow> column \<times> bool" where
  "ensure_committed_for grow eid col =
     (let vs = max 1 (unat (col_value_size col));
          (rg, ok) = ensure_committed grow (col_cells col + (unat eid + 1) * vs) (col_region col)
      in (col\<lparr>col_region := rg\<rparr>, ok))"

definition is_committed_for :: "u32 \<Rightarrow> column \<Rightarrow> bool" where
  "is_committed_for eid col =
     (let vs = max 1 (unat (col_value_size col)) in is_committed (col_cells col + (unat eid + 1) * vs) (col_region col))"

definition col_get :: "u32 \<Rightarrow> column \<Rightarrow> bytes" where
  "col_get eid col =
     (let off = cell_off col (unat eid) in slice off (off + unat (col_value_size col)) (rg_mem (col_region col)))"

definition store_u32_release :: "u32 \<Rightarrow> u32 \<Rightarrow> column \<Rightarrow> column" where
  "store_u32_release eid v col =
     col\<lparr>col_region := write_at (cell_off col (unat eid)) (to_le_bytes v) (col_region col)\<rparr>"

definition load_u32_acquire :: "u32 \<Rightarrow> column \<Rightarrow> u32" where
  "load_u32_acquire eid col = u32_at (rg_mem (col_region col)) (cell_off col (unat eid))"

definition store_u64_release :: "u32 \<Rightarrow> u64 \<Rightarrow> column \<Rightarrow> column" where
  "store_u64_release eid v col =
     col\<lparr>col_region := write_at (col_cells col + unat eid * 8) (to_le_bytes v) (col_region col)\<rparr>"

definition load_u64_acquire :: "u32 \<Rightarrow> column \<Rightarrow> u64" where
  "load_u64_acquire eid col = u64_at (rg_mem (col_region col)) (col_cells col + unat eid * 8)"

definition cells_raw :: "u32 \<Rightarrow> column \<Rightarrow> bytes" where
  "cells_raw n0 col =
     (let n = unat (min n0 (col_count col)); vs = unat (col_value_size col)
      in slice (col_cells col) (col_cells col + n * vs) (rg_mem (col_region col)))"

text \<open>\<^const>\<open>None\<close> is the panic of the assertion on the cell width.\<close>

definition values_u32 :: "column \<Rightarrow> u32 list option" where
  "values_u32 col = (
     if col_value_size col \<noteq> 4 then None
     else Some (map (\<lambda>i. u32_at (rg_mem (col_region col)) (col_cells col + i * 4)) [0..<unat (col_count col)]))"

definition col_clear :: "u32 \<Rightarrow> column \<Rightarrow> column" where
  "col_clear eid col =
     (let vs = unat (col_value_size col); off = cell_off col (unat eid); rg = col_region col
      in if \<not> is_committed (off + vs) rg then col
         else col\<lparr>col_region :=
           (if vs = 4 then write_at off (to_le_bytes (0 :: u32)) rg
            else if vs = 8 then write_at off (to_le_bytes (0 :: u64)) rg
            else fill_at off vs 0 rg)\<rparr>)"

definition ensure_count :: "u32 \<Rightarrow> column \<Rightarrow> column" where
  "ensure_count eid col =
     (let needed = eid + 1;
          col1 = (if col_count col < needed then col\<lparr>col_count := max (col_count col) needed\<rparr> else col);
          header = u32_at (rg_mem (col_region col1)) 0
      in if header < needed
         then col1\<lparr>col_region := write_at 0 (to_le_bytes (max header needed)) (col_region col1)\<rparr> else col1)"

definition sync_count :: "column \<Rightarrow> column" where
  "sync_count col = col\<lparr>col_region := write_at 0 (to_le_bytes (col_count col)) (col_region col)\<rparr>"

section \<open>Cells and header\<close>

abbreviation col_mem :: "column \<Rightarrow> bytes" where
  "col_mem col \<equiv> rg_mem (col_region col)"

text \<open>
  The shape of a column whose header may not be written yet, and a column whose header is. The
  length of the region covers every id below the capacity.
\<close>

definition col_shape :: "column \<Rightarrow> bool" where
  "col_shape col \<longleftrightarrow> (col_cells col = COL_HEADER \<or> col_cells col = CELLS_PAD) \<and> 0 < unat (col_value_size col) \<and>
     col_cells col + unat (col_max_entities col) * unat (col_value_size col) \<le> length (col_mem col) \<and>
     zero_tail (col_region col) \<and> col_count col \<le> col_max_entities col \<and> u32_at (col_mem col) 0 = col_count col"

definition header_written :: "column \<Rightarrow> bool" where
  "header_written col \<longleftrightarrow> u32_at (col_mem col) 4 = col_value_size col \<and>
     u32_at (col_mem col) 8 = col_max_entities col \<and> u32_at (col_mem col) CELLS_AT = cells_field (col_cells col)"

definition put_cell :: "u32 \<Rightarrow> bytes \<Rightarrow> column \<Rightarrow> column" where
  "put_cell eid bs col = col\<lparr>col_region := write_at (cell_off col (unat eid)) bs (col_region col)\<rparr>"

lemma col_shapeD:
  assumes "col_shape col"
  shows "COL_HEADER \<le> col_cells col" "0 < unat (col_value_size col)" "COL_HEADER \<le> length (col_mem col)"
    "zero_tail (col_region col)" "col_count col \<le> col_max_entities col" "u32_at (col_mem col) 0 = col_count col"
  using assms by (auto simp: col_shape_def)

lemma cell_range:
  assumes "col_shape col" "eid < col_max_entities col"
  shows "cell_off col (unat eid) + unat (col_value_size col) \<le> length (col_mem col)" "COL_HEADER \<le> cell_off col (unat eid)"
proof -
  have "(unat eid + 1) * unat (col_value_size col) \<le> unat (col_max_entities col) * unat (col_value_size col)"
    using assms(2) by (intro mult_le_mono1) (simp add: word_less_nat_alt)
  then show "cell_off col (unat eid) + unat (col_value_size col) \<le> length (col_mem col)"
    using assms(1) by (auto simp: cell_off_def col_shape_def)
qed (use col_shapeD(1)[OF assms(1)] in \<open>simp add: cell_off_def\<close>)

lemma length_col_get:
  "col_shape col \<Longrightarrow> eid < col_max_entities col \<Longrightarrow> length (col_get eid col) = unat (col_value_size col)"
  using cell_range(1) by (simp add: col_get_def Let_def length_slice)

lemma cells_apart:
  assumes "e \<noteq> e'"
  shows "cell_off col e + unat (col_value_size col) \<le> cell_off col e' \<or>
    cell_off col e' + unat (col_value_size col) \<le> cell_off col e"
proof (cases "e < e'")
  case True
  then have "(e + 1) * unat (col_value_size col) \<le> e' * unat (col_value_size col)" by (intro mult_le_mono1) simp
  then show ?thesis by (simp add: cell_off_def)
next
  case False
  then have "(e' + 1) * unat (col_value_size col) \<le> e * unat (col_value_size col)"
    using assms by (intro mult_le_mono1) simp
  then show ?thesis by (simp add: cell_off_def)
qed

lemma put_cell_fields [simp]:
  "col_count (put_cell eid bs col) = col_count col" "col_value_size (put_cell eid bs col) = col_value_size col"
  "col_max_entities (put_cell eid bs col) = col_max_entities col" "col_cells (put_cell eid bs col) = col_cells col"
  "rg_committed (col_region (put_cell eid bs col)) = rg_committed (col_region col)"
  by (simp_all add: put_cell_def write_at_def)

lemma get_put_cell:
  assumes "col_shape col" "eid < col_max_entities col" "eid' < col_max_entities col"
    and "length bs = unat (col_value_size col)"
  shows "col_get eid' (put_cell eid bs col) = (if eid' = eid then bs else col_get eid' col)"
proof (cases "eid' = eid")
  case True
  then show ?thesis
    using cell_range(1)[OF assms(1,2)] slice_put_same[of "cell_off col (unat eid)" bs "col_mem col"] assms(4)
    by (simp add: col_get_def put_cell_def write_at_def cell_off_def Let_def)
next
  case False
  then have "unat eid' \<noteq> unat eid" by (simp add: word_unat_eq_iff)
  then show ?thesis
    using False cell_range(1)[OF assms(1,2)] assms(4)
      cells_apart[of "unat eid'" "unat eid" col]
      slice_put_out[of "cell_off col (unat eid)" bs "col_mem col" "cell_off col (unat eid') + unat (col_value_size col)"
        "cell_off col (unat eid')"]
    by (simp add: col_get_def put_cell_def write_at_def cell_off_def Let_def)
qed

lemma put_cell_header:
  assumes "col_shape col" "eid < col_max_entities col" "length bs = unat (col_value_size col)" "k + 4 \<le> COL_HEADER"
  shows "u32_at (col_mem (put_cell eid bs col)) k = u32_at (col_mem col) k"
  using cell_range[OF assms(1,2)] assms(3,4)
    slice_put_before[of "k + 4" "cell_off col (unat eid)" bs "col_mem col" k]
  by (simp add: u32_at_def put_cell_def write_at_def)

lemma length_put_cell:
  assumes "col_shape col" "eid < col_max_entities col" "length bs = unat (col_value_size col)"
  shows "length (col_mem (put_cell eid bs col)) = length (col_mem col)"
  using cell_range(1)[OF assms(1,2)] assms(3) by (simp add: put_cell_def write_at_def length_put_at)

text \<open>The cell of an id is committed.\<close>

definition cell_committed :: "u32 \<Rightarrow> column \<Rightarrow> bool" where
  "cell_committed eid col \<longleftrightarrow> is_committed (cell_off col (unat eid) + unat (col_value_size col)) (col_region col)"

lemma put_cell_shape:
  assumes "col_shape col" "eid < col_max_entities col" "length bs = unat (col_value_size col)" "cell_committed eid col"
  shows "col_shape (put_cell eid bs col)"
proof -
  have "zero_tail (col_region (put_cell eid bs col))"
    using zero_tail_write[OF col_shapeD(4)[OF assms(1)], of "cell_off col (unat eid)" bs] cell_range(1)[OF assms(1,2)] assms(3,4)
    by (simp add: put_cell_def cell_committed_def)
  then show ?thesis
    using assms(1) put_cell_header[OF assms(1-3), of 0] length_put_cell[OF assms(1-3)] by (simp add: col_shape_def)
qed

lemma put_cell_written:
  assumes "col_shape col" "eid < col_max_entities col" "length bs = unat (col_value_size col)" "header_written col"
  shows "header_written (put_cell eid bs col)"
  using assms(4) put_cell_header[OF assms(1-3)] by (simp add: header_written_def)

text \<open>Every way to write a cell is \<^const>\<open>put_cell\<close>.\<close>

lemma col_set_put: "length v = unat (col_value_size col) \<Longrightarrow> col_set eid v col = put_cell eid v col"
  by (simp add: col_set_def put_cell_def)

lemma store_u32_put: "store_u32_release eid v col = put_cell eid (to_le_bytes v) col"
  by (simp add: store_u32_release_def put_cell_def)

lemma store_u64_put: "col_value_size col = 8 \<Longrightarrow> store_u64_release eid v col = put_cell eid (to_le_bytes v) col"
  by (simp add: store_u64_release_def put_cell_def cell_off_def)

lemma nat_to_le_zero: "nat_to_le n 0 = replicate n 0"
  by (induction n) simp_all

lemma zero_le_bytes: "to_le_bytes (0 :: u32) = replicate 4 0" "to_le_bytes (0 :: u64) = replicate 8 0"
  by (simp_all only: to_le_bytes_def unsigned_0 nat_to_le_zero len_of_numeral_defs) simp_all

lemma col_clear_put:
  "col_clear eid col = (if cell_committed eid col then put_cell eid (replicate (unat (col_value_size col)) 0) col else col)"
  by (simp add: col_clear_def put_cell_def cell_committed_def fill_at_def write_at_def Let_def zero_le_bytes)

lemma load_u32_get: "col_value_size col = 4 \<Longrightarrow> load_u32_acquire eid col = from_le_bytes (col_get eid col)"
  by (simp add: load_u32_acquire_def col_get_def u32_at_def Let_def)

lemma load_u64_get: "col_value_size col = 8 \<Longrightarrow> load_u64_acquire eid col = from_le_bytes (col_get eid col)"
  by (simp add: load_u64_acquire_def col_get_def u64_at_def cell_off_def Let_def)

lemma uncommitted_cell_zero:
  assumes "col_shape col" "eid < col_max_entities col" "rg_committed (col_region col) \<le> cell_off col (unat eid)"
  shows "col_get eid col = replicate (unat (col_value_size col)) 0"
proof (rule nth_equalityI)
  show "length (col_get eid col) = length (replicate (unat (col_value_size col)) (0 :: u8))"
    by (simp add: length_col_get[OF assms(1,2)])
  fix i assume "i < length (col_get eid col)"
  then have "i < unat (col_value_size col)" by (simp add: length_col_get[OF assms(1,2)])
  then show "col_get eid col ! i = replicate (unat (col_value_size col)) 0 ! i"
    using cell_range(1)[OF assms(1,2)] assms(3) col_shapeD(4)[OF assms(1)]
    by (simp add: col_get_def Let_def slice_def zero_tail_def)
qed

subsection \<open>Header writes and commits\<close>

lemma put_header_cells:
  assumes "col_shape col" "eid < col_max_entities col" "k + length bs \<le> COL_HEADER"
  shows "col_get eid (col\<lparr>col_region := write_at k bs (col_region col)\<rparr>) = col_get eid col"
  using cell_range[OF assms(1,2)] assms(3)
    slice_put_after[of k bs "cell_off col (unat eid)" "col_mem col" "cell_off col (unat eid) + unat (col_value_size col)"]
  by (simp add: col_get_def write_at_def cell_off_def Let_def)

lemma header_committed:
  "col_shape col \<Longrightarrow> eid < col_max_entities col \<Longrightarrow> cell_committed eid col \<Longrightarrow> k \<le> COL_HEADER \<Longrightarrow> is_committed k (col_region col)"
  using cell_range(2)[of col eid] by (auto simp: cell_committed_def is_committed_def)

lemma commit_total:
  assumes "\<forall>k. grow k \<noteq> None"
  shows "snd (ensure_committed_for grow e col)"
proof -
  have "snd (ensure_committed grow till rg)" for till rg
    using assms[rule_format, of till] by (auto simp: ensure_committed_def)
  then show ?thesis by (simp add: ensure_committed_for_def Let_def split: prod.split) (metis snd_conv)
qed

lemma ensure_committed_for_result:
  assumes "ensure_committed_for grow eid col = (col', ok)"
  shows "col_mem col' = col_mem col" "col_count col' = col_count col" "col_value_size col' = col_value_size col"
    "col_max_entities col' = col_max_entities col" "col_cells col' = col_cells col" "\<not> ok \<Longrightarrow> col' = col"
    "ok \<Longrightarrow> 0 < unat (col_value_size col) \<Longrightarrow> cell_committed eid col'"
    "cell_committed eid' col \<Longrightarrow> cell_committed eid' col'"
proof -
  let ?till = "col_cells col + (unat eid + 1) * max 1 (unat (col_value_size col))"
  obtain rg where e: "ensure_committed grow ?till (col_region col) = (rg, ok)" and col': "col' = col\<lparr>col_region := rg\<rparr>"
    using assms by (auto simp: ensure_committed_for_def Let_def split: prod.splits)
  note r = ensure_committed_result[OF e]
  show "col_mem col' = col_mem col" "col_count col' = col_count col" "col_value_size col' = col_value_size col"
    "col_max_entities col' = col_max_entities col" "col_cells col' = col_cells col" "\<not> ok \<Longrightarrow> col' = col"
    using r(1,4) by (simp_all add: col')
  show "cell_committed eid' col \<Longrightarrow> cell_committed eid' col'"
    using r(2) by (simp add: cell_committed_def cell_off_def is_committed_def col')
  assume "ok" "0 < unat (col_value_size col)"
  then show "cell_committed eid col'"
    using r(3) by (simp add: cell_committed_def cell_off_def col' max_def ac_simps split: if_splits)
qed

lemma same_mem:
  assumes "col_mem col' = col_mem col" "col_value_size col' = col_value_size col" "col_cells col' = col_cells col"
  shows "col_get eid col' = col_get eid col"
    "col_max_entities col' = col_max_entities col \<Longrightarrow> header_written col' \<longleftrightarrow> header_written col"
  using assms by (simp_all add: col_get_def cell_off_def header_written_def Let_def)

lemma ensure_committed_for_shape:
  assumes "col_shape col" "ensure_committed_for grow eid col = (col', ok)"
  shows "col_shape col'"
proof -
  have "zero_tail (col_region col')"
    using assms(2) zero_tail_commit[OF col_shapeD(4)[OF assms(1)], of grow]
    by (auto simp: ensure_committed_for_def Let_def split: prod.splits) (metis fst_conv)
  then show ?thesis using assms(1) ensure_committed_for_result[OF assms(2)] by (simp add: col_shape_def)
qed

lemma u32_at_put_inside:
  assumes "off \<le> k" "k + 4 \<le> off + length bs" "off + length bs \<le> length m"
  shows "u32_at (put_at off bs m) k = u32_at bs (k - off)"
  using assms slice_put_same[of off bs m] slice_slice[of "k - off + 4" "off + length bs" off "k - off" "put_at off bs m"]
  by (simp add: u32_at_def add.commute)

lemma put_header_u32:
  assumes "col_shape col" "k + 4 \<le> COL_HEADER" "j + 4 \<le> COL_HEADER" "j + 4 \<le> k \<or> k + 4 \<le> j \<or> j = k"
  shows "u32_at (put_at k (to_le_bytes (v :: u32)) (col_mem col)) j = (if j = k then v else u32_at (col_mem col) j)"
proof (cases "j = k")
  case False
  then show ?thesis
    using assms u32_at_put_other[where off = k and off' = j and m = "col_mem col" and v = v] col_shapeD(3)[OF assms(1)] by auto
qed (use assms col_shapeD(3)[OF assms(1)] in simp)

lemma ensure_header_spec:
  assumes "col_shape col" "is_committed COL_HEADER (col_region col)" "header_written col \<or> u32_at (col_mem col) 4 \<noteq> col_value_size col"
  shows "col_shape (ensure_header col)" "header_written (ensure_header col)"
    "col_count (ensure_header col) = col_count col" "col_value_size (ensure_header col) = col_value_size col"
    "col_max_entities (ensure_header col) = col_max_entities col" "col_cells (ensure_header col) = col_cells col"
    "rg_committed (col_region (ensure_header col)) = rg_committed (col_region col)"
    "eid < col_max_entities col \<Longrightarrow> col_get eid (ensure_header col) = col_get eid col"
proof -
  let ?bs = "to_le_bytes (col_value_size col) @ to_le_bytes (col_max_entities col) @ to_le_bytes (cells_field (col_cells col))"
  have len: "COL_HEADER \<le> length (col_mem col)" by (rule col_shapeD(3)[OF assms(1)])
  have "put_at 12 (to_le_bytes (cells_field (col_cells col)))
      (put_at 8 (to_le_bytes (col_max_entities col)) (put_at 4 (to_le_bytes (col_value_size col)) (col_mem col))) = put_at 4 ?bs (col_mem col)"
    using len put_at_join_before[of 4 "to_le_bytes (col_value_size col)" "to_le_bytes (col_max_entities col)" "col_mem col"]
      put_at_join_before[of 4 "to_le_bytes (col_value_size col) @ to_le_bytes (col_max_entities col)"
        "to_le_bytes (cells_field (col_cells col))" "col_mem col"] by simp
  then have eq: "ensure_header col = (if u32_at (col_mem col) 4 \<noteq> col_value_size col
      then col\<lparr>col_region := write_at 4 ?bs (col_region col)\<rparr> else col)"
    by (simp add: ensure_header_def write_at_def Let_def)
  show "col_count (ensure_header col) = col_count col" "col_value_size (ensure_header col) = col_value_size col"
    "col_max_entities (ensure_header col) = col_max_entities col" "col_cells (ensure_header col) = col_cells col"
    "rg_committed (col_region (ensure_header col)) = rg_committed (col_region col)"
    by (simp_all add: eq write_at_def)
  show "eid < col_max_entities col \<Longrightarrow> col_get eid (ensure_header col) = col_get eid col"
    using put_header_cells[OF assms(1), of eid 4 ?bs] by (simp add: eq)
  have u: "u32_at (put_at 4 ?bs (col_mem col)) 0 = u32_at (col_mem col) 0"
    using len slice_put_before[of 4 4 ?bs "col_mem col" 0] by (simp add: u32_at_def)
  have f: "u32_at (put_at 4 ?bs (col_mem col)) k = u32_at ?bs (k - 4)" if "4 \<le> k" "k + 4 \<le> 16" for k
    using that len by (intro u32_at_put_inside) simp_all
  have "u32_at ?bs 0 = col_value_size col" "u32_at ?bs 4 = col_max_entities col" "u32_at ?bs 8 = cells_field (col_cells col)"
    by (simp_all add: u32_at_def buf_simps)
  then have "header_written (col\<lparr>col_region := write_at 4 ?bs (col_region col)\<rparr>)"
    using f[of 4] f[of 8] f[of 12] by (simp add: header_written_def write_at_def)
  then show "header_written (ensure_header col)"
    using assms(3) by (auto simp: eq)
  have "zero_tail (write_at 4 ?bs (col_region col))"
    using len assms(2) by (intro zero_tail_write[OF col_shapeD(4)[OF assms(1)]]) simp_all
  then show "col_shape (ensure_header col)"
    using assms(1) u len by (simp add: eq col_shape_def write_at_def length_put_at)
qed

lemma ensure_count_spec:
  assumes "col_shape col" "eid < col_max_entities col" "is_committed COL_HEADER (col_region col)"
  shows "col_shape (ensure_count eid col)" "col_count (ensure_count eid col) = max (col_count col) (eid + 1)"
    "col_value_size (ensure_count eid col) = col_value_size col"
    "col_max_entities (ensure_count eid col) = col_max_entities col" "col_cells (ensure_count eid col) = col_cells col"
    "rg_committed (col_region (ensure_count eid col)) = rg_committed (col_region col)"
    "eid' < col_max_entities col \<Longrightarrow> col_get eid' (ensure_count eid col) = col_get eid' col"
    "header_written (ensure_count eid col) \<longleftrightarrow> header_written col"
proof -
  note len = col_shapeD(3)[OF assms(1)]
  have eq: "ensure_count eid col = (if col_count col < eid + 1
      then col\<lparr>col_count := eid + 1, col_region := write_at 0 (to_le_bytes (eid + 1)) (col_region col)\<rparr> else col)"
    using col_shapeD(6)[OF assms(1)] by (simp add: ensure_count_def Let_def max_def)
  show "col_count (ensure_count eid col) = max (col_count col) (eid + 1)"
    "col_value_size (ensure_count eid col) = col_value_size col"
    "col_max_entities (ensure_count eid col) = col_max_entities col" "col_cells (ensure_count eid col) = col_cells col"
    "rg_committed (col_region (ensure_count eid col)) = rg_committed (col_region col)"
    by (auto simp: eq write_at_def max_def)
  have "col_get eid' (col\<lparr>col_count := eid + 1, col_region := write_at 0 (to_le_bytes (eid + 1)) (col_region col)\<rparr>) =
      col_get eid' (col\<lparr>col_region := write_at 0 (to_le_bytes (eid + 1)) (col_region col)\<rparr>)"
    by (simp add: col_get_def cell_off_def)
  then show "eid' < col_max_entities col \<Longrightarrow> col_get eid' (ensure_count eid col) = col_get eid' col"
    using put_header_cells[OF assms(1), of eid' 0 "to_le_bytes (eid + 1)"] by (simp add: eq)
  show "header_written (ensure_count eid col) \<longleftrightarrow> header_written col"
    using put_header_u32[OF assms(1), of 0] by (simp add: eq header_written_def write_at_def)
  have "eid + 1 \<le> col_max_entities col" using assms(2) inc_le by blast
  moreover have "zero_tail (write_at 0 (to_le_bytes (eid + 1)) (col_region col))"
    using len assms(3) by (intro zero_tail_write[OF col_shapeD(4)[OF assms(1)]]) (simp_all add: is_committed_def)
  ultimately show "col_shape (ensure_count eid col)"
    using assms(1) len put_header_u32[OF assms(1), of 0 0 "eid + 1"]
    by (simp add: eq col_shape_def write_at_def length_put_at)
qed

section \<open>Loading\<close>

lemma unat_pad: "unat (word_of_nat CELLS_PAD :: u32) = CELLS_PAD" "(word_of_nat CELLS_PAD :: u32) \<noteq> 0"
  by simp_all

lemma col_load_written:
  assumes "col_shape col" "header_written col"
  shows "col_load (col_region col) = col"
proof -
  have "(if cells_field (col_cells col) = 0 then COL_HEADER else unat (cells_field (col_cells col))) = col_cells col"
    using assms(1) by (auto simp: col_shape_def cells_field_def)
  then show ?thesis
    using assms col_shapeD(6)[OF assms(1)] by (simp add: col_load_def header_written_def with_cells_def)
qed

lemma load_written:
  assumes "col_shape col" "header_written col"
  shows "load_or_unwritten (col_region col) (col_value_size col) m p = Inr col"
proof -
  have "unat (col_count col) * unat (col_value_size col) + col_cells col \<le> length (col_mem col)"
  proof -
    have "unat (col_count col) * unat (col_value_size col) \<le> unat (col_max_entities col) * unat (col_value_size col)"
      using col_shapeD(5)[OF assms(1)] by (intro mult_le_mono1) (simp add: word_le_nat_alt)
    moreover have "col_cells col + unat (col_max_entities col) * unat (col_value_size col) \<le> length (col_mem col)"
      using assms(1) by (simp add: col_shape_def)
    ultimately show ?thesis by linarith
  qed
  moreover have "col_value_size col \<noteq> 0" using col_shapeD(2)[OF assms(1)] by auto
  moreover have "u32_at (col_mem col) 4 = col_value_size col" using assms(2) by (simp add: header_written_def)
  ultimately show ?thesis
    using assms(1) col_load_written[OF assms] col_shapeD(3)[OF assms(1)]
    by (simp add: load_or_unwritten_def Let_def) (simp add: col_shape_def)
qed

lemma col_init_ok:
  assumes "cells_start padded + unat max_entities * unat value_size \<le> length (rg_mem rg)" "0 < unat value_size"
    and "zero_tail rg" "is_committed COL_HEADER rg"
  shows "col_shape (col_init rg value_size max_entities padded)" "header_written (col_init rg value_size max_entities padded)"
proof -
  let ?c = "with_cells rg 0 value_size max_entities (cells_start padded)"
  let ?bs = "to_le_bytes (0 :: u32) @ to_le_bytes value_size @ to_le_bytes max_entities @ to_le_bytes (cells_field (cells_start padded))"
  have len: "COL_HEADER \<le> length (rg_mem rg)" using assms(1) by (auto simp: cells_start_def split: if_splits)
  have "put_at 12 (to_le_bytes (cells_field (cells_start padded))) (put_at 8 (to_le_bytes max_entities)
      (put_at 4 (to_le_bytes value_size) (put_at 0 (to_le_bytes (0 :: u32)) (rg_mem rg)))) = put_at 0 ?bs (rg_mem rg)"
    using len put_at_join_before[of 0 "to_le_bytes (0 :: u32)" "to_le_bytes value_size" "rg_mem rg"]
      put_at_join_before[of 0 "to_le_bytes (0 :: u32) @ to_le_bytes value_size" "to_le_bytes max_entities" "rg_mem rg"]
      put_at_join_before[of 0 "to_le_bytes (0 :: u32) @ to_le_bytes value_size @ to_le_bytes max_entities"
        "to_le_bytes (cells_field (cells_start padded))" "rg_mem rg"] by simp
  then have eq: "col_init rg value_size max_entities padded =
      with_cells (write_at 0 ?bs rg) 0 value_size max_entities (cells_start padded)"
    by (simp add: col_init_def write_at_def Let_def)
  have f: "u32_at (put_at 0 ?bs (rg_mem rg)) k = u32_at ?bs k" if "k + 4 \<le> 16" for k
    using that len u32_at_put_inside[of 0 k ?bs "rg_mem rg"] by simp
  have b: "u32_at ?bs 0 = 0" "u32_at ?bs 4 = value_size" "u32_at ?bs 8 = max_entities" "u32_at ?bs 12 = cells_field (cells_start padded)"
    by (simp_all add: u32_at_def buf_simps)
  then show "header_written (col_init rg value_size max_entities padded)"
    using f[of 4] f[of 8] f[of 12] by (simp add: eq header_written_def with_cells_def write_at_def)
  have "zero_tail (write_at 0 ?bs rg)" using len assms(3,4) by (intro zero_tail_write) simp_all
  then show "col_shape (col_init rg value_size max_entities padded)"
    using assms(1,2) len f[of 0] b(1)
    by (auto simp: eq col_shape_def with_cells_def cells_start_def write_at_def length_put_at)
qed

end
