(* ===== verification/Cell_Versions.thy ===== *)
theory Cell_Versions
  imports Hlc Column "HOL-Library.AList"
begin

text \<open>
  Where the engine keeps the version of a cell, the clock of the write that put it there
  (\<^verbatim>\<open>crates/enchudb-engine/src/engine.rs\<close> and \<^verbatim>\<open>hlc_store.rs\<close>), and who may write
  (\<^verbatim>\<open>acl.rs\<close>). A database of the current format has a column of 16-byte clocks per column of
  values and one for the deletions; an older one keeps the clocks in a hash table in memory.
  Both implement the same interface, stated as a locale with the last-writer-wins lemma proved
  once.
\<close>

section \<open>Clocks in cells\<close>

abbreviation HLC_CELL_BYTES :: u32 where
  "HLC_CELL_BYTES \<equiv> 16"

definition hlc_to_cell :: "hlc \<Rightarrow> bytes" where
  "hlc_to_cell h = to_le_bytes (hlc_wall h) @ to_le_bytes (hlc_logical h) @ to_le_bytes (hlc_peer h)"

definition hlc_from_cell :: "bytes \<Rightarrow> hlc" where
  "hlc_from_cell b = Hlc (from_le_bytes (slice 0 8 b)) (from_le_bytes (slice 8 12 b)) (from_le_bytes (slice 12 16 b))"

definition ver_column_from_region :: "region \<Rightarrow> u32 \<Rightarrow> bool \<Rightarrow> column" where
  "ver_column_from_region rg max_entities padded = (
     if \<not> is_committed COL_HEADER rg then init_lazy rg HLC_CELL_BYTES max_entities padded
     else if u32_at (rg_mem rg) 4 = HLC_CELL_BYTES then col_load rg
     else col_init rg HLC_CELL_BYTES max_entities padded)"

text \<open>The version of one cell, and the write of a version, as both version columns do it.\<close>

definition read_version :: "grower \<Rightarrow> u32 \<Rightarrow> column \<Rightarrow> column \<times> hlc option" where
  "read_version grow local col = (case ensure_committed_for grow local col of (col', ok) \<Rightarrow>
     if \<not> ok then (col', None) else (col', Some (hlc_from_cell (col_get local col'))))"

definition write_version :: "grower \<Rightarrow> u32 \<Rightarrow> hlc \<Rightarrow> column \<Rightarrow> column \<times> bool" where
  "write_version grow local h col = (case ensure_committed_for grow local col of (col', ok) \<Rightarrow>
     if \<not> ok then (col', False)
     else (col_set local (hlc_to_cell h) (ensure_count local (ensure_header col')), True))"

section \<open>Clocks in memory\<close>

type_synonym version_key = "u64 \<times> u16"

type_synonym hlc_store = "(version_key \<times> hlc) list"

definition store_new :: hlc_store where
  "store_new = []"

definition store_get :: "u64 \<Rightarrow> u16 \<Rightarrow> hlc_store \<Rightarrow> hlc option" where
  "store_get eid himo s = map_of s (eid, himo)"

definition store_try_set :: "u64 \<Rightarrow> u16 \<Rightarrow> hlc \<Rightarrow> hlc_store \<Rightarrow> hlc_store \<times> bool" where
  "store_try_set eid himo h s = (case map_of s (eid, himo) of
     Some existing \<Rightarrow> if existing \<ge> h then (s, False) else (AList.update (eid, himo) h s, True)
   | None \<Rightarrow> (AList.update (eid, himo) h s, True))"

definition store_force_set :: "u64 \<Rightarrow> u16 \<Rightarrow> hlc \<Rightarrow> hlc_store \<Rightarrow> hlc_store" where
  "store_force_set eid himo h s = AList.update (eid, himo) h s"

definition store_remove :: "u64 \<Rightarrow> u16 \<Rightarrow> hlc_store \<Rightarrow> hlc_store" where
  "store_remove eid himo s = AList.delete (eid, himo) s"

definition store_remove_entity :: "u64 \<Rightarrow> hlc_store \<Rightarrow> hlc_store" where
  "store_remove_entity eid s = filter (\<lambda>((e, _), _). e \<noteq> eid) s"

definition store_len :: "hlc_store \<Rightarrow> nat" where
  "store_len s = length s"

definition store_max_hlc :: "hlc_store \<Rightarrow> hlc option" where
  "store_max_hlc s = (case map snd s of [] \<Rightarrow> None | h # hs \<Rightarrow> Some (fold max hs h))"

section \<open>Writers\<close>

text \<open>\<^const>\<open>None\<close> is an access list that was never set up: everybody may write.\<close>

type_synonym acl = "peer_id set option"

definition acl_new :: acl where
  "acl_new = None"

definition add_writer :: "peer_id \<Rightarrow> acl \<Rightarrow> acl" where
  "add_writer p a = Some (insert p (case a of None \<Rightarrow> {} | Some s \<Rightarrow> s))"

definition remove_writer :: "peer_id \<Rightarrow> acl \<Rightarrow> acl" where
  "remove_writer p a = map_option (\<lambda>s. s - {p}) a"

definition acl_clear :: "acl \<Rightarrow> acl" where
  "acl_clear a = None"

definition is_writer :: "acl \<Rightarrow> peer_id \<Rightarrow> bool" where
  "is_writer a p = (case a of None \<Rightarrow> True | Some s \<Rightarrow> p \<in> s)"

definition writer_count :: "acl \<Rightarrow> nat" where
  "writer_count a = (case a of None \<Rightarrow> 0 | Some s \<Rightarrow> card s)"

definition is_enforced :: "acl \<Rightarrow> bool" where
  "is_enforced a \<longleftrightarrow> a \<noteq> None"

section \<open>Reading back what was written\<close>

lemma length_hlc_to_cell [simp]: "length (hlc_to_cell h) = 16"
  by (simp add: hlc_to_cell_def)

lemma hlc_cell_roundtrip [simp]: "hlc_from_cell (hlc_to_cell h) = h"
  by (cases h) (simp add: hlc_from_cell_def hlc_to_cell_def buf_simps slice_def)

definition ver_at :: "column \<Rightarrow> u32 \<Rightarrow> hlc" where
  "ver_at col e = hlc_from_cell (col_get e col)"

text \<open>A version column: its header is either complete or not written at all.\<close>

definition ver_ok :: "column \<Rightarrow> bool" where
  "ver_ok col \<longleftrightarrow> col_shape col \<and> col_value_size col = HLC_CELL_BYTES \<and>
     (header_written col \<or> u32_at (col_mem col) 4 \<noteq> col_value_size col)"

lemma ver_okD:
  "ver_ok col \<Longrightarrow> col_shape col" "ver_ok col \<Longrightarrow> col_value_size col = 16"
  "ver_ok col \<Longrightarrow> header_written col \<or> u32_at (col_mem col) 4 \<noteq> col_value_size col"
  by (auto simp: ver_ok_def)

lemma commit_version:
  assumes v: "ver_ok col" and p: "ensure_committed_for grow e col = (col', ok)"
  shows "ver_ok col'" "ver_at col' x = ver_at col x" "col_max_entities col' = col_max_entities col"
    "header_written col' \<longleftrightarrow> header_written col" "col_count col' = col_count col"
proof -
  note r = ensure_committed_for_result[OF p]
  note s = same_mem[OF r(1,3,5)]
  show "ver_at col' x = ver_at col x" using s(1) by (simp add: ver_at_def)
  show "col_max_entities col' = col_max_entities col" "col_count col' = col_count col" by (rule r(4), rule r(2))
  show "header_written col' \<longleftrightarrow> header_written col" by (rule s(2)[OF r(4)])
  then show "ver_ok col'" using v ensure_committed_for_shape[OF ver_okD(1)[OF v] p] r(1,3) by (auto simp: ver_ok_def)
qed

lemma read_version_spec:
  assumes v: "ver_ok col" and e: "e < col_max_entities col" and r: "read_version grow e col = (col', h)"
  shows "ver_ok col'" "ver_at col' x = ver_at col x" "col_max_entities col' = col_max_entities col"
    "header_written col' \<longleftrightarrow> header_written col" "h = Some (ver_at col e) \<or> h = None \<and> col' = col"
    "h = None \<Longrightarrow> \<not> cell_committed e col"
proof -
  obtain ok where p: "ensure_committed_for grow e col = (col', ok)" and h: "h = (if ok then Some (hlc_from_cell (col_get e col')) else None)"
    using r by (auto simp: read_version_def split: prod.splits if_splits)
  note c = commit_version[OF v p]
  show "ver_ok col'" "ver_at col' x = ver_at col x" "col_max_entities col' = col_max_entities col"
    "header_written col' \<longleftrightarrow> header_written col" by (rule c)+
  show "h = Some (ver_at col e) \<or> h = None \<and> col' = col"
    using h c(2)[of e] ensure_committed_for_result(6)[OF p] by (auto simp: ver_at_def)
  show "\<not> cell_committed e col" if "h = None"
  proof -
    have "\<not> ok" using that h by (auto split: if_splits)
    moreover have "max 1 (unat (col_value_size col)) = unat (col_value_size col)" using col_shapeD(2)[OF ver_okD(1)[OF v]] by simp
    ultimately show ?thesis
      using p by (auto simp: ensure_committed_for_def ensure_committed_def cell_committed_def cell_off_def Let_def
        add_mult_distrib ac_simps split: if_splits option.splits)
  qed
qed

text \<open>A cell that was never committed has never been written: its version is the unknown one.\<close>

lemma hlc_from_zeros: "hlc_from_cell (replicate 16 0) = hlc_ZERO"
  by code_simp

lemma write_version_spec:
  assumes v: "ver_ok col" and e: "e < col_max_entities col" and w: "write_version grow e h col = (col', ok)"
  shows "ver_ok col'" "\<not> ok \<Longrightarrow> col' = col" "ok \<Longrightarrow> header_written col'"
    "ok \<Longrightarrow> x < col_max_entities col \<Longrightarrow> ver_at col' x = (if x = e then h else ver_at col x)"
    "col_max_entities col' = col_max_entities col" "ok \<Longrightarrow> e < col_count col'"
proof -
  obtain col1 ok1 where p: "ensure_committed_for grow e col = (col1, ok1)" by (metis surj_pair)
  note c = commit_version[OF v p]
  note r = ensure_committed_for_result[OF p]
  have eq: "ok = ok1" "col' = (if ok1 then col_set e (hlc_to_cell h) (ensure_count e (ensure_header col1)) else col1)"
    using w p by (auto simp: write_version_def split: if_splits)
  show "\<not> ok \<Longrightarrow> col' = col" using r(6) by (simp add: eq)
  have all: "ver_ok col' \<and> header_written col' \<and> (x < col_max_entities col \<longrightarrow> ver_at col' x = (if x = e then h else ver_at col x)) \<and>
      col_max_entities col' = col_max_entities col \<and> e < col_count col'" if ok1: ok1
  proof -
    note s1 = ver_okD[OF c(1)]
    have e1: "e < col_max_entities col1" using e c(3) by simp
    have cc: "cell_committed e col1" using r(7)[OF ok1] ver_okD(2)[OF v] by simp
    have hc: "is_committed COL_HEADER (col_region col1)" by (rule header_committed[OF s1(1) e1 cc]) simp
    note h2 = ensure_header_spec[OF s1(1) hc s1(3)]
    let ?c2 = "ensure_header col1" let ?c3 = "ensure_count e ?c2"
    have e2: "e < col_max_entities ?c2" "is_committed COL_HEADER (col_region ?c2)" using e1 h2(5,7) hc by (simp_all add: is_committed_def)
    note h3 = ensure_count_spec[OF h2(1) e2]
    have e3: "e < col_max_entities ?c3" using e2 h3(4) by simp
    have len: "length (hlc_to_cell h) = unat (col_value_size ?c3)" using h3(3) h2(4) s1(2) by simp
    have cc3: "cell_committed e ?c3"
      using cc h3(3,5,6) h2(4,6,7) by (simp add: cell_committed_def cell_off_def is_committed_def)
    have col': "col' = put_cell e (hlc_to_cell h) ?c3" using eq(2) ok1 len by (simp add: col_set_put)
    have hw: "header_written col'" unfolding col' by (rule put_cell_written[OF h3(1) e3 len]) (use h2(2) h3(8) in simp)
    have sh: "col_shape col'" unfolding col' by (rule put_cell_shape[OF h3(1) e3 len cc3])
    have mx: "col_max_entities col' = col_max_entities col" using h3(4) h2(5) c(3) by (simp add: col')
    have "e \<noteq> - 1" using e word_order.extremum_strict by blast
    then have lt: "e < e + 1" using inc_less_eq_triv_imp[of e] by (auto simp: not_less[symmetric])
    have cnt: "e < col_count col'" unfolding col' put_cell_fields h3(2) using lt by (rule less_le_trans) simp
    have "ver_at col' x = (if x = e then h else ver_at col x)" if x: "x < col_max_entities col"
    proof -
      have x3: "x < col_max_entities ?c3" and x1: "x < col_max_entities col1" using x h3(4) h2(5) c(3) by simp_all
      have "ver_at ?c3 x = ver_at col x"
        using h3(7)[of x] h2(8)[of x] x1 h2(5) c(2)[of x] by (simp add: ver_at_def)
      then show ?thesis using get_put_cell[OF h3(1) e3 x3 len] by (simp add: ver_at_def col')
    qed
    then show ?thesis using hw sh mx cnt h3(3) h2(4) s1(2) by (simp add: ver_ok_def col')
  qed
  show "ver_ok col'" using all c(1) by (cases ok1) (simp_all add: eq(2))
  show "ok \<Longrightarrow> header_written col'" "ok \<Longrightarrow> x < col_max_entities col \<Longrightarrow> ver_at col' x = (if x = e then h else ver_at col x)"
    "ok \<Longrightarrow> e < col_count col'" using all eq(1) by simp_all
  show "col_max_entities col' = col_max_entities col" using all c(3) by (cases ok1) (simp_all add: eq(2))
qed

section \<open>The interface of a version store\<close>

text \<open>
  A key is a cell (or a row, for the deletions). A store promises only what the engine needs: a
  newer clock replaces an older one and no other key changes.
\<close>

locale version_store =
  fixes inv :: "'s \<Rightarrow> bool"
    and key_ok :: "'s \<Rightarrow> 'k \<Rightarrow> bool"
    and get :: "'k \<Rightarrow> 's \<Rightarrow> hlc"
    and put :: "'k \<Rightarrow> hlc \<Rightarrow> 's \<Rightarrow> 's"
  assumes put_inv: "inv s \<Longrightarrow> key_ok s k \<Longrightarrow> get k s < h \<Longrightarrow> inv (put k h s)"
    and put_keys: "inv s \<Longrightarrow> key_ok s k \<Longrightarrow> key_ok (put k h s) k' \<longleftrightarrow> key_ok s k'"
    and get_put: "inv s \<Longrightarrow> key_ok s k \<Longrightarrow> key_ok s k' \<Longrightarrow> get k s < h \<Longrightarrow> get k' (put k h s) = (if k' = k then h else get k' s)"
begin

text \<open>Remembering a clock: it is stored when it is newer than the one there.\<close>

definition remember :: "'k \<times> hlc \<Rightarrow> 's \<Rightarrow> 's" where
  "remember = (\<lambda>(k, h) s. if get k s < h then put k h s else s)"

lemma remember_spec:
  assumes "inv s" "key_ok s k"
  shows "inv (remember (k, h) s)" "key_ok (remember (k, h) s) k' \<longleftrightarrow> key_ok s k'"
    "key_ok s k' \<Longrightarrow> get k' (remember (k, h) s) = (if k' = k then max (get k' s) h else get k' s)"
  using assms put_inv put_keys get_put by (auto simp: remember_def max_def)

lemma remember_all:
  assumes "inv s" "\<forall>(k, h) \<in> set ops. key_ok s k" "key_ok s k'"
  shows "inv (fold remember ops s) \<and> get k' (fold remember ops s) = fold max (map snd (filter (\<lambda>(k, _). k = k') ops)) (get k' s)"
  using assms
proof (induction ops arbitrary: s)
  case (Cons op ops)
  obtain k h where op: "op = (k, h)" by fastforce
  have ok: "key_ok s k" using Cons.prems(2) op by simp
  note r = remember_spec[OF Cons.prems(1) ok]
  have "\<forall>(k', h') \<in> set ops. key_ok (remember op s) k'" using Cons.prems(2) r(2) op by auto
  from Cons.IH[OF _ this] show ?case
    using r(1)[of h] r(2)[of h k'] r(3)[OF Cons.prems(3), of h] Cons.prems(3) by (simp add: op max.commute)
qed simp

lemma fold_max_Max: "fold max xs (a :: hlc) = Max (insert a (set xs))"
  by (metis List.finite_set Max.set_eq_fold list.set(2))

text \<open>The clock of a key is the latest that arrived, whatever the order and the repetitions.\<close>

lemma remember_latest:
  assumes "inv s" "\<forall>(k, h) \<in> set ops. key_ok s k" "key_ok s k'"
  shows "get k' (fold remember ops s) = Max (insert (get k' s) {h. (k', h) \<in> set ops})"
proof -
  have "set (map snd (filter (\<lambda>(k, _). k = k') ops)) = {h. (k', h) \<in> set ops}" by force
  then show ?thesis using remember_all[OF assms] by (simp only: fold_max_Max)
qed

end

subsection \<open>Both stores keep the contract\<close>

interpretation ver_col: version_store ver_ok "\<lambda>col e. e < col_max_entities col" "\<lambda>e col. ver_at col e"
  "\<lambda>e h col. fst (write_version Some e h col)"
proof -
  have ok: "\<exists>col'. write_version Some e h col = (col', True)" for e h col
    by (auto simp: write_version_def ensure_committed_for_def ensure_committed_def Let_def split: prod.split)
  have w: "\<exists>col'. write_version Some e h col = (col', True) \<and> ver_ok col' \<and> col_max_entities col' = col_max_entities col \<and>
      (\<forall>x < col_max_entities col. ver_at col' x = (if x = e then h else ver_at col x))" if "ver_ok col" "e < col_max_entities col" for e h col
  proof -
    obtain col' where c: "write_version Some e h col = (col', True)" using ok by blast
    note s = write_version_spec[OF that c]
    show ?thesis using c s(1,5) s(4)[OF TrueI] by (intro exI[of _ col'] conjI) simp_all
  qed
  show "version_store ver_ok (\<lambda>col e. e < col_max_entities col) (\<lambda>e col. ver_at col e) (\<lambda>e h col. fst (write_version Some e h col))"
  proof
    fix col :: column and e e' :: u32 and h :: hlc
    assume "ver_ok col" "e < col_max_entities col"
    then obtain col' where c: "write_version Some e h col = (col', True)" "ver_ok col'" "col_max_entities col' = col_max_entities col"
        "\<forall>x < col_max_entities col. ver_at col' x = (if x = e then h else ver_at col x)" using w by blast
    show "ver_ok (fst (write_version Some e h col))" using c by simp
    show "e' < col_max_entities (fst (write_version Some e h col)) \<longleftrightarrow> e' < col_max_entities col" using c by simp
    show "ver_at (fst (write_version Some e h col)) e' = (if e' = e then h else ver_at col e')" if "e' < col_max_entities col"
      using c that by simp
  qed
qed

definition store_version :: "version_key \<Rightarrow> hlc_store \<Rightarrow> hlc" where
  "store_version k s = (case store_get (fst k) (snd k) s of None \<Rightarrow> hlc_ZERO | Some h \<Rightarrow> h)"

lemma store_try_set_get:
  "store_version k' (fst (store_try_set (fst k) (snd k) h s)) = (if k' = k then max (store_version k s) h else store_version k' s)"
  using hlc_ZERO_least[of h]
  by (auto simp: store_version_def store_get_def store_try_set_def AList.update_conv max_def split: option.splits)

interpretation mem_store: version_store "\<lambda>_ :: hlc_store. True" "\<lambda>_ _. True" store_version
  "\<lambda>k h s. fst (store_try_set (fst k) (snd k) h s)"
  by unfold_locales (simp_all add: store_try_set_get)

lemma try_set_remember: "mem_store.remember (k, h) s = fst (store_try_set (fst k) (snd k) h s)" if "h \<noteq> hlc_ZERO"
proof (cases "store_version k s < h")
  case False
  then have "store_version k s \<noteq> hlc_ZERO" using hlc_ZERO_least[of h] that by (auto simp: not_less)
  then have "fst (store_try_set (fst k) (snd k) h s) = s"
    using False by (auto simp: store_try_set_def store_version_def store_get_def split: option.splits)
  then show ?thesis using False by (simp add: mem_store.remember_def)
qed (simp add: mem_store.remember_def)

section \<open>Properties\<close>

text \<open>A successful write leaves its cell on committed pages, and opening the region again gives the same column.\<close>

lemma write_version_committed:
  assumes v: "ver_ok col" and e: "e < col_max_entities col" and w: "write_version grow e h col = (col', True)"
  shows "cell_committed e col'" "is_committed COL_HEADER (col_region col')"
proof -
  obtain col1 where p: "ensure_committed_for grow e col = (col1, True)"
    using w by (auto simp: write_version_def split: prod.splits if_splits)
  note c = commit_version[OF v p]
  have cc: "cell_committed e col1" using ensure_committed_for_result(7)[OF p TrueI] ver_okD(2)[OF v] by simp
  have hc: "is_committed COL_HEADER (col_region col1)"
    by (rule header_committed[OF ver_okD(1)[OF c(1)] _ cc]) (use e c(3) in simp_all)
  let ?same = "\<lambda>d d'. rg_committed (col_region d') = rg_committed (col_region d) \<and> col_cells d' = col_cells d \<and> col_value_size d' = col_value_size d"
  have "?same d (col_set a b d)" for a b d by (simp add: col_set_def write_at_def Let_def)
  moreover have "?same d (ensure_count a d)" for a d by (simp add: ensure_count_def write_at_def Let_def)
  moreover have "?same d (ensure_header d)" for d by (simp add: ensure_header_def write_at_def Let_def)
  moreover have "col' = col_set e (hlc_to_cell h) (ensure_count e (ensure_header col1))" using w p by (simp add: write_version_def)
  ultimately have "?same col1 col'" by simp
  then show "cell_committed e col'" "is_committed COL_HEADER (col_region col')"
    using cc hc by (simp_all add: cell_committed_def cell_off_def is_committed_def)
qed

lemma reopen_written:
  assumes v: "ver_ok col" and e: "e < col_max_entities col" and w: "write_version grow e h col = (col', True)"
  shows "ver_column_from_region (col_region col') n p = col'"
proof -
  note s = write_version_spec[OF assms]
  have r: "col_load (col_region col') = col'" by (rule col_load_written[OF ver_okD(1)[OF s(1)] s(3)[OF TrueI]])
  have "u32_at (rg_mem (col_region col')) 4 = HLC_CELL_BYTES"
    using s(3)[OF TrueI] ver_okD(2)[OF s(1)] by (simp add: header_written_def)
  then show ?thesis using write_version_committed(2)[OF assms] by (simp add: ver_column_from_region_def r)
qed

text \<open>
  C16. A cell's clock survives being written to the version column and read back, also through
  closing and opening the column, even if the disk is full by then; no other cell's clock changes:
  a read that succeeded before and one that succeeds afterwards return the same clock, and with
  room on the disk the read afterwards succeeds.
\<close>

theorem version_column_roundtrip:
  assumes "ver_ok col" "e < col_max_entities col" "write_version grow e h col = (col', True)" "x < col_max_entities col" "x \<noteq> e"
  shows "snd (read_version g e col') = Some h \<and> snd (read_version g e (ver_column_from_region (col_region col') n p)) = Some h \<and>
    (\<forall>t t'. snd (read_version g1 x col) = Some t \<and> snd (read_version g2 x (ver_column_from_region (col_region col') n p)) = Some t' \<longrightarrow> t' = t) \<and>
    ((\<forall>k. g2 k \<noteq> None) \<longrightarrow> snd (read_version g2 x (ver_column_from_region (col_region col') n p)) \<noteq> None)"
proof -
  note s = write_version_spec[OF assms(1-3)] and re = reopen_written[OF assms(1-3), of n p]
  obtain c1 r1 where 1: "read_version g e col' = (c1, r1)" by (metis surj_pair)
  have "r1 = Some h"
    using read_version_spec(5,6)[OF s(1) _ 1] assms(2) s(4)[OF TrueI assms(2)] s(5) write_version_committed(1)[OF assms(1-3)] by auto
  moreover have "t' = t" if q: "snd (read_version g1 x col) = Some t" "snd (read_version g2 x col') = Some t'" for t t'
  proof -
    obtain c2 c3 where "read_version g1 x col = (c2, Some t)" "read_version g2 x col' = (c3, Some t')" using q by (metis prod.collapse)
    then show ?thesis
      using read_version_spec(5)[OF assms(1,4)] read_version_spec(5)[OF s(1), of x g2 c3 "Some t'"] assms(4,5) s(4)[OF TrueI assms(4)] s(5) by fastforce
  qed
  moreover have "snd (read_version g2 x col') \<noteq> None" if "\<forall>k. g2 k \<noteq> None"
    using commit_total[OF that, of x col'] by (auto simp: read_version_def split: prod.splits)
  ultimately show ?thesis unfolding re using 1 by simp
qed

theorem version_column_roundtrip_witness:
  "\<exists>col'. write_version Some 1 (Hlc 9 2 7) (ver_column_from_region \<lparr>rg_mem = replicate 64 0, rg_committed = 0\<rparr> 3 False) = (col', True) \<and>
    snd (read_version (\<lambda>_. None) 1 (ver_column_from_region (col_region col') 3 False)) = Some (Hlc 9 2 7) \<and>
    snd (read_version Some 2 (ver_column_from_region (col_region col') 3 False)) \<noteq> None"
proof -
  let ?col = "ver_column_from_region \<lparr>rg_mem = replicate 64 0, rg_committed = 0\<rparr> 3 False"
  have u: "u32_at (replicate 64 0) 0 = 0" "u32_at (replicate 64 0) 4 = 0" by code_simp+
  have ok: "ver_ok ?col" and m: "col_max_entities ?col = 3"
    by (simp_all add: ver_column_from_region_def is_committed_def init_lazy_def with_cells_def cells_start_def ver_ok_def
      col_shape_def zero_tail_def u)
  have "\<exists>col'. write_version Some 1 (Hlc 9 2 7) ?col = (col', True)"
    by (auto simp: write_version_def ensure_committed_for_def ensure_committed_def Let_def split: prod.split)
  then obtain col' where c: "write_version Some 1 (Hlc 9 2 7) ?col = (col', True)" by blast
  show ?thesis using version_column_roundtrip[OF ok _ c, of 2 "\<lambda>_. None" 3 False Some Some] by (simp add: m c)
qed

text \<open>
  The clocks kept in memory: after any sequence of attempts to set them, in any order and with
  repetitions, a key holds the latest clock that was offered for it.
\<close>

theorem memory_store_keeps_latest:
  assumes "\<forall>(k, h) \<in> set ops. h \<noteq> hlc_ZERO"
  shows "store_version k (fold (\<lambda>(k, h) s. fst (store_try_set (fst k) (snd k) h s)) ops store_new) =
    Max (insert hlc_ZERO {h. (k, h) \<in> set ops})"
proof -
  have "fold (\<lambda>(k, h) s. fst (store_try_set (fst k) (snd k) h s)) ops s = fold mem_store.remember ops s" for s
    using assms by (induction ops arbitrary: s) (auto simp: try_set_remember)
  then show ?thesis
    using mem_store.remember_latest[where s = store_new and ops = ops and k' = k] by (simp add: store_version_def store_get_def store_new_def)
qed

theorem memory_store_keeps_latest_witness:
  "store_version (5, 1) (fold (\<lambda>(k, h) s. fst (store_try_set (fst k) (snd k) h s))
     [((5, 1), Hlc 3 0 1), ((5, 1), Hlc 2 9 2), ((6, 1), Hlc 8 0 1)] store_new) = Hlc 3 0 1"
proof -
  let ?ops = "[((5, 1), Hlc 3 0 1), ((5, 1), Hlc 2 9 2), ((6, 1), Hlc 8 0 1)] :: (version_key \<times> hlc) list"
  have "{h. ((5, 1), h) \<in> set ?ops} = {Hlc 3 0 1, Hlc 2 9 2}" by auto
  moreover have "Max {hlc_ZERO, Hlc 3 0 1, Hlc 2 9 2} = Hlc 3 0 1" by code_simp
  moreover have "\<forall>(k, h) \<in> set ?ops. h \<noteq> hlc_ZERO" by (simp add: hlc_ZERO_def)
  ultimately show ?thesis using memory_store_keeps_latest[of ?ops "(5, 1)"] by simp
qed

text \<open>
  The access list: before the first writer is added everybody may write; afterwards exactly
  the peers that were added and not removed, and removing the last one locks everybody out
  instead of opening the list again.
\<close>

theorem acl_admits_only_listed:
  "is_writer acl_new p \<and> \<not> is_writer (remove_writer q (add_writer q acl_new)) p \<and>
   (is_writer (add_writer q a) p \<longleftrightarrow> p = q \<or> a \<noteq> None \<and> is_writer a p) \<and>
   (is_writer (remove_writer q a) p \<longleftrightarrow> a = None \<or> p \<noteq> q \<and> is_writer a p)"
  by (auto simp: is_writer_def add_writer_def remove_writer_def acl_new_def split: option.split)

end
