(* ===== verification/Himo_Store.thy ===== *)
theory Himo_Store
  imports Column Cylinder_Read
begin

text \<open>
  One column of values (a \<^verbatim>\<open>himo\<close>) with its index (\<^verbatim>\<open>HimoStore\<close> in
  \<^verbatim>\<open>crates/enchudb-engine/src/himo_store.rs\<close>). The column is the truth: a cell holds the value
  plus one, zero means no value. The index is built from the column at the first lookup and
  kept up to date by every write from then on.

  Writers of one column take the keys of the values they touch or the store's lock, and the
  builder of the index waits for the writers that passed the gate, so every operation is one
  step here; the gate, the keys and the lazy opening of the column file are not part of the
  model. \<^verbatim>\<open>himo_env\<close> is what the platform decides: whether the file can grow, whether the
  anonymous mapping of the position table can be made, and which stripe of the counter of
  present cells the calling thread adds to. \<^const>\<open>None\<close> as a result is a panic.
\<close>

section \<open>Values and cells\<close>

datatype value_type = Tag | Number | Ref | Leaf | Number64

definition value_type_from_byte :: "u8 \<Rightarrow> value_type" where
  "value_type_from_byte b = (
     if b = 0 then Tag else if b = 2 then Ref else if b = 3 then Leaf else if b = 4 then Number64 else Number)"

definition vt_width :: "value_type \<Rightarrow> u32" where
  "vt_width t = (if t = Number64 then 8 else 4)"

definition vt_max_value :: "value_type \<Rightarrow> u64" where
  "vt_max_value t = (if t = Number64 then 0xFFFFFFFFFFFFFFFE else 0xFFFFFFFE)"

definition stored_at :: "column \<Rightarrow> u32 \<Rightarrow> u64" where
  "stored_at col eid = (
     if col_value_size col = 8 then from_le_bytes (col_get eid col)
     else ucast (from_le_bytes (col_get eid col) :: u32))"

definition stored_sync :: "column \<Rightarrow> u32 \<Rightarrow> u64" where
  "stored_sync col eid = (if col_value_size col = 8 then load_u64_acquire eid col else ucast (load_u32_acquire eid col))"

definition holds_value :: "column \<Rightarrow> u32 \<Rightarrow> u64 \<Rightarrow> bool" where
  "holds_value col eid value \<longleftrightarrow> stored_sync col eid = value + 1"

definition value_at :: "column \<Rightarrow> u32 \<Rightarrow> u64 option" where
  "value_at col eid = (
     if eid \<ge> col_count col then None
     else let stored = stored_sync col eid in if stored = 0 then None else Some (stored - 1))"

definition store_at :: "u32 \<Rightarrow> u64 \<Rightarrow> column \<Rightarrow> column" where
  "store_at eid stored col = (
     if col_value_size col = 8 then store_u64_release eid stored col else store_u32_release eid (ucast stored) col)"

section \<open>Lists of ids\<close>

function gallop :: "u32 list \<Rightarrow> u32 \<Rightarrow> nat \<Rightarrow> nat \<Rightarrow> nat \<Rightarrow> nat \<times> nat" where
  "gallop s e lo at step = (
     if at < length s \<and> s ! at < e \<and> 0 < step then gallop s e (at + 1) (at + step) (2 * step) else (lo, at))"
  by pat_completeness auto

termination
  by (relation "measure (\<lambda>(s, e, lo, at, step). length s - at)") auto

declare gallop.simps [simp del]

definition gallop_ge :: "u32 list \<Rightarrow> nat \<Rightarrow> u32 \<Rightarrow> nat" where
  "gallop_ge s from e = (case gallop s e from from 1 of (lo, at) \<Rightarrow>
     let hi = min at (length s) in lo + partition_point (\<lambda>x. x < e) (slice lo hi s))"

fun live_head :: "(u32 \<Rightarrow> bool) \<Rightarrow> u32 option \<Rightarrow> u32 list \<Rightarrow> u32 list" where
  "live_head live prev [] = []"
| "live_head live prev (e # es) =
     (if prev \<noteq> Some e \<and> live e then e # live_head live (Some e) es else live_head live prev es)"

fun drop_in_head :: "u32 list \<Rightarrow> nat \<Rightarrow> u32 option \<Rightarrow> u32 list \<Rightarrow> u32 list" where
  "drop_in_head head at prev [] = []"
| "drop_in_head head at prev (e # es) = (
     if prev = Some e then drop_in_head head at prev es
     else let at1 = gallop_ge head at e
          in if at1 < length head \<and> head ! at1 = e then drop_in_head head at1 (Some e) es
             else e # drop_in_head head at1 (Some e) es)"

definition push_live_once :: "column \<Rightarrow> u64 \<Rightarrow> u32 list \<Rightarrow> u32 list \<Rightarrow> u32 list" where
  "push_live_once col value eids out =
     (let head = sorted_prefix_len eids; want = value + 1;
          hd_ids = live_head (\<lambda>e. stored_at col e = want) None (take head eids);
          tl_ids = filter (\<lambda>e. stored_at col e = want) (drop head eids)
      in if tl_ids = [] then out @ hd_ids else out @ hd_ids @ drop_in_head hd_ids 0 None (sort tl_ids))"

fun retain_fresh :: "u64 list \<Rightarrow> u32 list \<Rightarrow> u32 list" where
  "retain_fresh seen [] = []"
| "retain_fresh seen (e # es) =
     (let w = unat e div 64; b = push_bit (unat e mod 64) 1
      in if seen ! w AND b = 0 then e # retain_fresh (seen[w := seen ! w OR b]) es else retain_fresh (seen[w := seen ! w OR b]) es)"

definition dedup_eids :: "u32 list \<Rightarrow> u32 list" where
  "dedup_eids v =
     (let top = (if v = [] then 0 else unat (foldl max 0 v) + 1)
      in if length v * 256 \<ge> top then retain_fresh (replicate (div_ceil top 64) 0) v else remdups_adj (sort v))"

text \<open>The ids a bucket iterator has delivered: at most 16 in an array, more in a hash set.\<close>

record seen =
  seen_few :: "u32 list"
  seen_many :: "u32 set option"

definition seen_new :: seen where
  "seen_new = \<lparr>seen_few = [], seen_many = None\<rparr>"

definition seen_insert :: "u32 \<Rightarrow> seen \<Rightarrow> seen \<times> bool" where
  "seen_insert e sn = (case seen_many sn of
     Some h \<Rightarrow> (sn\<lparr>seen_many := Some (insert e h)\<rparr>, e \<notin> h)
   | None \<Rightarrow>
       if e \<in> set (seen_few sn) then (sn, False)
       else if length (seen_few sn) < 16 then (sn\<lparr>seen_few := seen_few sn @ [e]\<rparr>, True)
       else (sn\<lparr>seen_many := Some (insert e (set (seen_few sn)))\<rparr>, True))"

text \<open>Everything the iterator delivers, with the entries' positions for the marks.\<close>

fun bucket_iter :: "u64 list option \<Rightarrow> (column \<times> u64) option \<Rightarrow> seen \<Rightarrow> (nat \<times> u32) list \<Rightarrow> u32 list" where
  "bucket_iter marks check sn [] = []"
| "bucket_iter marks check sn ((i, e) # es) = (case marks of
     Some m \<Rightarrow> if drop_bit (i mod 64) (m ! (i div 64)) AND 1 \<noteq> 0 then bucket_iter marks check sn es
       else e # bucket_iter marks check sn es
   | None \<Rightarrow> (case check of
       None \<Rightarrow> e # bucket_iter marks check sn es
     | Some (col, s) \<Rightarrow>
         if stored_at col e \<noteq> s then bucket_iter marks check sn es
         else case seen_insert e sn of (sn', fresh) \<Rightarrow>
           if fresh then e # bucket_iter marks check sn' es else bucket_iter marks check sn' es))"

section \<open>The store\<close>

abbreviation COMPACT_MIN_LEN :: nat where
  "COMPACT_MIN_LEN \<equiv> 64"

abbreviation REREAD_EARLY_LEN :: nat where
  "REREAD_EARLY_LEN \<equiv> 1024"

abbreviation PRESENT_STRIPES :: nat where
  "PRESENT_STRIPES \<equiv> 8"

record himo_env =
  env_grow :: grower
  env_slots_ok :: bool
  env_stripe :: nat

record himo_store =
  hs_col :: column
  hs_cyl :: cylinder
  hs_value_type :: value_type
  hs_max_values :: u32
  hs_cyl_built :: bool
  hs_dense_base_hint :: u64
  hs_present_known :: bool
  hs_present_base :: int
  hs_present_stripes :: "int list"
  hs_marks :: bool

definition himo_with :: "column \<Rightarrow> value_type \<Rightarrow> u32 \<Rightarrow> bool \<Rightarrow> himo_store" where
  "himo_with col ht max_values known =
     \<lparr>hs_col = col, hs_cyl = cyl_new max_values, hs_value_type = ht, hs_max_values = max_values, hs_cyl_built = False,
      hs_dense_base_hint = 0, hs_present_known = known, hs_present_base = 0,
      hs_present_stripes = replicate PRESENT_STRIPES 0, hs_marks = False\<rparr>"

definition himo_init :: "region \<Rightarrow> value_type \<Rightarrow> u32 \<Rightarrow> u32 \<Rightarrow> bool \<Rightarrow> himo_store" where
  "himo_init rg ht max_values max_entities padded = himo_with (col_init rg (vt_width ht) max_entities padded) ht max_values True"

definition himo_load :: "region \<Rightarrow> value_type \<Rightarrow> u32 \<Rightarrow> u32 \<Rightarrow> bool \<Rightarrow> column_error + himo_store" where
  "himo_load rg ht max_values max_entities padded = (case load_or_unwritten rg (vt_width ht) max_entities padded of
     Inl err \<Rightarrow> Inl err | Inr col \<Rightarrow> Inr (himo_with col ht max_values False))"

definition ensure_room :: "himo_env \<Rightarrow> u32 \<Rightarrow> himo_store \<Rightarrow> himo_store \<times> bool" where
  "ensure_room env eid hs = (
     if is_committed_for eid (hs_col hs) then (hs, True)
     else case ensure_committed_for (env_grow env) eid (hs_col hs) of (col, ok) \<Rightarrow> (hs\<lparr>hs_col := col\<rparr>, ok))"

definition set_dense_base_hint :: "u64 \<Rightarrow> himo_store \<Rightarrow> himo_store" where
  "set_dense_base_hint base hs = hs\<lparr>hs_dense_base_hint := base\<rparr>"

definition declare_marks :: "bool \<Rightarrow> himo_store \<Rightarrow> himo_store \<times> bool" where
  "declare_marks on hs =
     (let hs1 = hs\<lparr>hs_marks := on\<rparr>
      in if \<not> on then (hs1\<lparr>hs_cyl := disable_marks (hs_cyl hs1)\<rparr>, False) else (hs1, cy_marks_on (hs_cyl hs1)))"

definition column_entries :: "column \<Rightarrow> (u32 \<times> u64) list" where
  "column_entries col = List.map_filter (\<lambda>i. let eid = word_of_nat i; stored = stored_at col eid
     in if stored \<noteq> 0 then Some (eid, stored - 1) else None) [0..<unat (col_count col)]"

definition ensure_cylinder_built :: "himo_env \<Rightarrow> himo_store \<Rightarrow> himo_store" where
  "ensure_cylinder_built env hs = (
     if hs_cyl_built hs then hs
     else let col = hs_col hs;
              c1 = set_low_base (hs_dense_base_hint hs) (hs_cyl hs);
              c2 = (if hs_marks hs then init_slots (env_slots_ok env) (col_max_entities col) c1 else c1)
          in hs\<lparr>hs_cyl := cyl_build (column_entries col) c2, hs_cyl_built := True\<rparr>)"

definition present_add :: "himo_env \<Rightarrow> int \<Rightarrow> himo_store \<Rightarrow> himo_store" where
  "present_add env d hs = hs\<lparr>hs_present_stripes :=
     (hs_present_stripes hs)[env_stripe env := hs_present_stripes hs ! env_stripe env + d]\<rparr>"

definition present_delta :: "himo_store \<Rightarrow> int" where
  "present_delta hs = sum_list (hs_present_stripes hs)"

definition present_get :: "himo_store \<Rightarrow> int" where
  "present_get hs = max (hs_present_base hs + present_delta hs) 0"

subsection \<open>Writing\<close>

definition maybe_compact :: "u64 \<Rightarrow> nat \<Rightarrow> nat \<Rightarrow> himo_store \<Rightarrow> himo_store" where
  "maybe_compact value len live hs = (
     if len \<ge> COMPACT_MIN_LEN \<and> (len - live) * 2 \<ge> len
     then hs\<lparr>hs_cyl := fst (compact_bucket value (\<lambda>e. holds_value (hs_col hs) e value) (hs_cyl hs))\<rparr> else hs)"

definition maybe_compact_stale :: "(u64 \<times> nat \<times> nat) option \<Rightarrow> himo_store \<Rightarrow> himo_store" where
  "maybe_compact_stale stale hs = (case stale of None \<Rightarrow> hs | Some (o_value, len, live) \<Rightarrow> maybe_compact o_value len live hs)"

definition maybe_compact_sparse :: "himo_store \<Rightarrow> himo_store" where
  "maybe_compact_sparse hs = (
     if sparse_needs_compact (hs_cyl hs)
     then hs\<lparr>hs_cyl := fst (compact_sparse (\<lambda>(v, e). stored_sync (hs_col hs) e = v + 1) (hs_cyl hs))\<rparr> else hs)"

definition note_old :: "u64 option \<Rightarrow> u32 \<Rightarrow> himo_store \<Rightarrow> himo_store \<times> (u64 \<times> nat \<times> nat) option" where
  "note_old old eid hs = (case old of
     None \<Rightarrow> (hs, None)
   | Some o_value \<Rightarrow> (case note_stale_of_in o_value eid (hs_cyl hs) of (c, s) \<Rightarrow>
       (hs\<lparr>hs_cyl := c\<rparr>, map_option (\<lambda>st. (o_value, st)) s)))"

definition store_cell :: "himo_env \<Rightarrow> u32 \<Rightarrow> u64 \<Rightarrow> bool \<Rightarrow> himo_store \<Rightarrow> himo_store" where
  "store_cell env eid value was_empty hs =
     (let hs1 = hs\<lparr>hs_col := store_at eid (value + 1) (hs_col hs)\<rparr> in if was_empty then present_add env 1 hs1 else hs1)"

definition set_indexed :: "himo_env \<Rightarrow> u32 \<Rightarrow> u64 \<Rightarrow> himo_store \<Rightarrow> (himo_store \<times> bool) option" where
  "set_indexed env eid value hs = (case ensure_committed_for (env_grow env) eid (hs_col hs) of (col, ok) \<Rightarrow>
     if \<not> ok then Some (hs\<lparr>hs_col := col\<rparr>, False)
     else let hs1 = hs\<lparr>hs_col := ensure_count eid col\<rparr>; old = value_at (hs_col hs1) eid; cyl = hs_cyl hs1
     in if old = Some value then Some (hs1, True)
        else if in_array value cyl \<and> (case old of None \<Rightarrow> True | Some o_value \<Rightarrow> in_array o_value cyl) then
          let (hs2, stale) = note_old old eid hs1;
              hs3 = store_cell env eid value (old = None) hs2
          in case push_in_array eid value (hs_cyl hs3) of
               None \<Rightarrow> None
             | Some c \<Rightarrow> Some (maybe_compact_stale stale (hs3\<lparr>hs_cyl := c\<rparr>), True)
        else
          let new_in = in_array value cyl;
              grow = (\<not> new_in \<and> would_grow value cyl);
              (hs2, stale) = note_old old eid hs1;
              hs3 = store_cell env eid value (old = None) hs2
          in case (if new_in then push_in_array eid value (hs_cyl hs3)
                   else Some (insert_with eid value grow (\<lambda>(v, e). stored_sync (hs_col hs3) e = v + 1) (hs_cyl hs3))) of
               None \<Rightarrow> None
             | Some c \<Rightarrow> Some (maybe_compact_sparse (maybe_compact_stale stale (hs3\<lparr>hs_cyl := c\<rparr>)), True))"

definition store_unindexed :: "himo_env \<Rightarrow> u32 \<Rightarrow> u64 \<Rightarrow> himo_store \<Rightarrow> himo_store \<times> bool" where
  "store_unindexed env eid value hs = (case ensure_committed_for (env_grow env) eid (hs_col hs) of (col, ok) \<Rightarrow>
     if \<not> ok then (hs\<lparr>hs_col := col\<rparr>, False)
     else let hs1 = hs\<lparr>hs_col := ensure_count eid col\<rparr>; old = value_at (hs_col hs1) eid
     in if old \<noteq> Some value then (store_cell env eid value (old = None) hs1, True) else (hs1, True))"

definition himo_set :: "himo_env \<Rightarrow> u32 \<Rightarrow> u64 \<Rightarrow> himo_store \<Rightarrow> (himo_store \<times> bool) option" where
  "himo_set env eid value hs = (
     if value > vt_max_value (hs_value_type hs) then Some (hs, False)
     else if hs_cyl_built hs then set_indexed env eid value hs
     else Some (store_unindexed env eid value hs))"

definition remove_indexed :: "himo_env \<Rightarrow> u32 \<Rightarrow> himo_store \<Rightarrow> himo_store" where
  "remove_indexed env eid hs = (case value_at (hs_col hs) eid of
     None \<Rightarrow> hs
   | Some o_value \<Rightarrow>
       let fast = in_array o_value (hs_cyl hs);
           (hs1, stale) = note_old (Some o_value) eid hs;
           hs2 = hs1\<lparr>hs_cyl := forget_slot eid (hs_cyl hs1)\<rparr>;
           hs3 = present_add env (-1) (hs2\<lparr>hs_col := col_clear eid (hs_col hs2)\<rparr>);
           hs4 = maybe_compact_stale stale hs3
       in if fast then hs4 else maybe_compact_sparse hs4)"

definition himo_remove :: "himo_env \<Rightarrow> u32 \<Rightarrow> himo_store \<Rightarrow> himo_store" where
  "himo_remove env eid hs = (
     if \<not> eid < col_count (hs_col hs) then hs
     else if hs_cyl_built hs then remove_indexed env eid hs
     else if value_at (hs_col hs) eid \<noteq> None
     then present_add env (-1) (hs\<lparr>hs_col := col_clear eid (hs_col hs)\<rparr>) else hs)"

definition himo_restore :: "himo_env \<Rightarrow> u32 \<Rightarrow> u64 \<Rightarrow> himo_store \<Rightarrow> himo_store" where
  "himo_restore env eid stored hs = (case ensure_committed_for (env_grow env) eid (hs_col hs) of (col, ok) \<Rightarrow>
     if \<not> ok then hs\<lparr>hs_col := col\<rparr>
     else let hs1 = hs\<lparr>hs_col := ensure_count eid col\<rparr>; old = value_at (hs_col hs1) eid;
              new = (if stored = 0 then None else Some (stored - 1))
     in if old = new then hs1
        else let (hs2, stale) = (if hs_cyl_built hs1 then note_old old eid hs1 else (hs1, None));
                 hs3 = present_add env (of_bool (new \<noteq> None) - of_bool (old \<noteq> None))
                   (hs2\<lparr>hs_col := store_at eid stored (hs_col hs2)\<rparr>);
                 hs4 = (if \<not> hs_cyl_built hs3 then hs3
                   else case new of
                     Some n \<Rightarrow> hs3\<lparr>hs_cyl := cyl_insert eid n (\<lambda>(v, e). stored_at (hs_col hs3) e = v + 1) (hs_cyl hs3)\<rparr>
                   | None \<Rightarrow> hs3\<lparr>hs_cyl := forget_slot eid (hs_cyl hs3)\<rparr>);
                 hs5 = maybe_compact_stale stale hs4
             in if hs_cyl_built hs5 then maybe_compact_sparse hs5 else hs5)"

definition compact_if_reread :: "u64 \<Rightarrow> himo_store \<Rightarrow> himo_store \<times> bool" where
  "compact_if_reread value hs = (case cyl_mark_verified value (hs_cyl hs) of (c, r) \<Rightarrow>
     let hs1 = hs\<lparr>hs_cyl := c\<rparr>
     in case r of None \<Rightarrow> (hs1, False)
        | Some (len, rereads) \<Rightarrow>
            if len < COMPACT_MIN_LEN \<or> rereads < (if len \<ge> REREAD_EARLY_LEN then 1 else 2) then (hs1, False)
            else (hs1\<lparr>hs_cyl := fst (compact_bucket value (\<lambda>e. holds_value (hs_col hs1) e value) (hs_cyl hs1))\<rparr>, True))"

definition compact_now :: "himo_store \<Rightarrow> himo_store" where
  "compact_now hs = (
     if \<not> hs_cyl_built hs then hs
     else let col = hs_col hs; c0 = hs_cyl hs;
              c1 = (if sparse_churned c0 then fst (compact_sparse (\<lambda>(v, e). stored_at col e = v + 1) c0) else c0);
              c2 = fold (\<lambda>v c. if bucket_needs_verify v c then fst (compact_bucket v (\<lambda>e. stored_at col e = v + 1) c) else c)
                (filter (\<lambda>v. in_array v c1) (cyl_unique_values c1)) c1
          in hs\<lparr>hs_cyl := c2\<rparr>)"

subsection \<open>Reading\<close>

definition get_value :: "himo_store \<Rightarrow> u32 \<Rightarrow> u64 option" where
  "get_value hs eid = value_at (hs_col hs) eid"

definition get_raw_stored :: "himo_store \<Rightarrow> u32 \<Rightarrow> u64" where
  "get_raw_stored hs eid = (if eid \<ge> col_count (hs_col hs) then 0 else stored_at (hs_col hs) eid)"

definition value_eq :: "himo_store \<Rightarrow> u32 \<Rightarrow> u64 \<Rightarrow> bool" where
  "value_eq hs eid value \<longleftrightarrow> stored_at (hs_col hs) eid = value + 1"

definition checked_ids :: "column \<Rightarrow> u64 \<Rightarrow> u32 list \<Rightarrow> u32 list" where
  "checked_ids col value raw = remdups_adj (sort_appended (filter (\<lambda>e. stored_at col e = value + 1) raw))"

definition himo_pull :: "himo_env \<Rightarrow> u64 \<Rightarrow> himo_store \<Rightarrow> himo_store \<times> u32 list" where
  "himo_pull env value hs0 =
     (let hs = ensure_cylinder_built env hs0;
          (raw, needs_verify, stale) = read_to_vec_marked value (hs_cyl hs);
          (hs1, again) = (if stale then compact_if_reread value hs else (hs, False));
          (raw1, needs1) = (if again then (case read_to_vec_marked value (hs_cyl hs1) of (r, n, _) \<Rightarrow> (r, n)) else (raw, needs_verify))
      in (hs1, if \<not> needs1 then raw1 else checked_ids (hs_col hs1) value raw1))"

definition pull_into :: "himo_env \<Rightarrow> u64 \<Rightarrow> u32 list \<Rightarrow> himo_store \<Rightarrow> himo_store \<times> u32 list" where
  "pull_into env value out0 hs0 =
     (let hs = ensure_cylinder_built env hs0; start = length out0;
          (out, needs_verify, stale) = read_into_marked value out0 (hs_cyl hs);
          (hs1, again) = (if stale then compact_if_reread value hs else (hs, False));
          (out1, needs1) = (if again
            then (case read_into_marked value (take start out) (hs_cyl hs1) of (r, n, _) \<Rightarrow> (r, n)) else (out, needs_verify))
      in (hs1, if \<not> needs1 then out1
          else take start out1 @
            remdups_adj (sort_appended (filter (\<lambda>e. stored_at (hs_col hs1) e = value + 1) (drop start out1)))))"

definition walk_values :: "himo_env \<Rightarrow> u64 \<Rightarrow> u64 \<Rightarrow> bool \<Rightarrow> himo_store \<Rightarrow> himo_store \<times> (u64 \<times> u32 list) list" where
  "walk_values env lo hi desc hs0 =
     (let hs = ensure_cylinder_built env hs0
      in (hs, map (\<lambda>(v, raw, verify, marks).
            (v, if verify \<and> marks \<noteq> None then bucket_iter marks None seen_new (enumerate 0 raw)
                else bucket_iter None (if verify then Some (hs_col hs, v + 1) else None) seen_new (enumerate 0 raw)))
          (cyl_walk lo hi desc (hs_cyl hs))))"

definition himo_count_range :: "himo_env \<Rightarrow> u64 \<Rightarrow> u64 \<Rightarrow> himo_store \<Rightarrow> himo_store \<times> nat" where
  "himo_count_range env lo hi hs0 = (
     if lo > hi then (hs0, 0)
     else let hs = ensure_cylinder_built env hs0
          in (hs, cyl_count_range lo hi (\<lambda>(v, e). stored_at (hs_col hs) e = v + 1) (hs_cyl hs)))"

definition in_value_range :: "column \<Rightarrow> u64 \<Rightarrow> u64 \<Rightarrow> u32 \<Rightarrow> bool" where
  "in_value_range col lo hi e = (let s = stored_at col e in s \<noteq> 0 \<and> lo < s \<and> s - 1 \<le> hi)"

definition pull_part :: "part \<Rightarrow> himo_store \<times> u32 list \<times> u32 list \<Rightarrow> himo_store \<times> u32 list \<times> u32 list" where
  "pull_part p = (\<lambda>(hs, out, loose). case p of
     Part_Run lo hi eids verify \<Rightarrow>
       if \<not> verify then (hs, out @ eids, loose) else (hs, out, loose @ filter (in_value_range (hs_col hs) lo hi) eids)
   | Part_Bucket value eids verify marks \<Rightarrow>
       if \<not> verify then (hs, out @ eids, loose)
       else case compact_if_reread value hs of (hs1, again) \<Rightarrow>
         if again then
           (case read_to_vec_marked value (hs_cyl hs1) of (r, n, _) \<Rightarrow>
              (hs1, out @ (if n then checked_ids (hs_col hs1) value r else r), loose))
         else (hs1, case marks of Some m \<Rightarrow> out @ copy_unmarked eids m | None \<Rightarrow> push_live_once (hs_col hs1) value eids out, loose))"

definition pull_range_unordered :: "himo_env \<Rightarrow> u64 \<Rightarrow> u64 \<Rightarrow> himo_store \<Rightarrow> himo_store \<times> u32 list" where
  "pull_range_unordered env lo hi hs0 = (
     if lo > hi then (hs0, [])
     else let hs = ensure_cylinder_built env hs0;
              (hs1, out, loose) = fold pull_part (cyl_for_each_part lo hi (hs_cyl hs)) (hs, [], [])
          in (hs1, if loose \<noteq> [] then out @ dedup_eids loose else out))"

definition pull_range :: "himo_env \<Rightarrow> u64 \<Rightarrow> u64 \<Rightarrow> himo_store \<Rightarrow> himo_store \<times> u32 list" where
  "pull_range env lo hi hs0 = (
     if lo > hi then (hs0, [])
     else let hs = ensure_cylinder_built env hs0
          in (hs, remdups_adj (sort (filter (in_value_range (hs_col hs) lo hi) (range_raw lo hi (hs_cyl hs))))))"

definition slice_len :: "himo_env \<Rightarrow> u64 \<Rightarrow> himo_store \<Rightarrow> himo_store \<times> nat" where
  "slice_len env value hs0 =
     (let hs = ensure_cylinder_built env hs0
      in case dense_live_len value (hs_cyl hs) of
        Some n \<Rightarrow> (hs, n) | None \<Rightarrow> (case himo_pull env value hs of (hs1, ids) \<Rightarrow> (hs1, length ids)))"

definition himo_unique_count :: "himo_env \<Rightarrow> himo_store \<Rightarrow> himo_store \<times> nat" where
  "himo_unique_count env hs0 =
     (let hs = ensure_cylinder_built env hs0;
          sparse = filter (\<lambda>(v, e). stored_at (hs_col hs) e = v + 1) (sparse_range 0 0xFFFFFFFFFFFFFFFF (hs_cyl hs));
          vals = remdups_adj (sort (remdups_adj (map fst sparse)))
      in (hs, cy_unique_live (hs_cyl hs) + length vals))"

definition himo_unique_values :: "himo_env \<Rightarrow> himo_store \<Rightarrow> himo_store \<times> u64 list" where
  "himo_unique_values env hs0 = (let hs = ensure_cylinder_built env hs0 in (hs, cyl_unique_values (hs_cyl hs)))"

definition himo_total :: "himo_env \<Rightarrow> himo_store \<Rightarrow> himo_store \<times> nat" where
  "himo_total env hs0 = (let hs = ensure_cylinder_built env hs0 in (hs, total_live (hs_cyl hs)))"

definition scan_present_count :: "himo_store \<Rightarrow> nat" where
  "scan_present_count hs =
     (let col = hs_col hs
      in case (if col_value_size col = 4 then values_u32 col else None) of
        Some vs \<Rightarrow> length (filter (\<lambda>v. v \<noteq> 0) vs)
      | None \<Rightarrow> length (filter (\<lambda>i. stored_at col (word_of_nat i) \<noteq> 0) [0..<unat (col_count col)]))"

definition present_count :: "himo_store \<Rightarrow> himo_store \<times> int" where
  "present_count hs =
     (let hs1 = (if hs_present_known hs then hs
        else hs\<lparr>hs_present_base := int (scan_present_count hs) - present_delta hs, hs_present_known := True\<rparr>)
      in (hs1, present_get hs1))"

definition for_each_in :: "u32 \<Rightarrow> u32 \<Rightarrow> himo_store \<Rightarrow> (u32 \<times> u64) list" where
  "for_each_in lo hi hs =
     (let col = hs_col hs
      in List.map_filter (\<lambda>i. let e = word_of_nat i; s = stored_at col e in if s \<noteq> 0 then Some (e, s - 1) else None)
          [unat lo..<unat (min hi (col_count col))])"

definition entities_with_value :: "himo_store \<Rightarrow> u32 list" where
  "entities_with_value hs =
     filter (\<lambda>e. stored_at (hs_col hs) e \<noteq> 0) (map word_of_nat [0..<unat (col_count (hs_col hs))])"

definition himo_scan :: "u64 \<Rightarrow> himo_store \<Rightarrow> u32 list" where
  "himo_scan value hs =
     filter (\<lambda>e. stored_at (hs_col hs) e = value + 1) (map word_of_nat [0..<unat (col_count (hs_col hs))])"

definition for_each_set_value :: "himo_store \<Rightarrow> u64 list option" where
  "for_each_set_value hs =
     (let col = hs_col hs
      in if col_value_size col = 8
         then Some (map (\<lambda>i. stored_at col (word_of_nat i) - 1) (filter (\<lambda>i. stored_at col (word_of_nat i) \<noteq> 0) [0..<unat (col_count col)]))
         else map_option (\<lambda>vs. map (\<lambda>v. ucast v - 1) (filter (\<lambda>v. v \<noteq> 0) vs)) (values_u32 col))"

definition for_each_set_cell :: "himo_store \<Rightarrow> (u32 \<times> u64) list" where
  "for_each_set_cell hs = column_entries (hs_col hs)"

end
