(* ===== verification/Entity_Set.thy ===== *)
theory Entity_Set
  imports Region
begin

text \<open>
  The set of live entities (\<^verbatim>\<open>EntitySet\<close> in \<^verbatim>\<open>crates/enchudb-engine/src/entity_set.rs\<close>)
  over the mapped region it lives in. The set is the region's bytes: a header with the next id and the live count, one bit per id,
  and a stack of freed ids. Every operation of the set that is not a single atomic
  instruction runs under \<^verbatim>\<open>free_lock\<close> or touches one byte only, so operations are atomic
  steps here.

  The lemmas show that the byte-level operations implement a set of ids with a stack of
  reusable ids, whatever the disk does, that an id is never handed out twice to its clients, that
  the counting and searching loops (whole bytes, whole 64-bit words) agree with a bit-by-bit
  reading, and that the ways out of this contract that the code has are real: an id revived while
  it is stacked, an id allocated on a full disk, and the listing at the end of the 32-bit range.
\<close>

section \<open>The set\<close>

abbreviation HEADER :: nat where
  "HEADER \<equiv> 16"

abbreviation FREE_STACK_MAX :: nat where
  "FREE_STACK_MAX \<equiv> 1048576"

definition ENT_MAGIC :: bytes where
  "ENT_MAGIC = [69, 78, 84, 49]"

record entity_set =
  es_region :: region
  es_max_entities :: u32
  es_bitset_cap :: u32

definition bitset_bytes :: "u32 \<Rightarrow> nat" where
  "bitset_bytes cap = (unat cap + 7) div 8"

definition free_cap_for :: "u32 \<Rightarrow> nat" where
  "free_cap_for cap = min FREE_STACK_MAX (unat cap)"

definition free_offset_for :: "u32 \<Rightarrow> nat" where
  "free_offset_for cap = (HEADER + bitset_bytes cap + 3) div 4 * 4"

definition region_size :: "u32 \<Rightarrow> nat" where
  "region_size cap = free_offset_for cap + 4 + free_cap_for cap * 4"

definition relayout :: "bytes \<Rightarrow> u32 \<Rightarrow> u32 \<Rightarrow> bytes option" where
  "relayout old old_cap new_cap = (
     if new_cap < old_cap then None
     else let old_bits = bitset_bytes old_cap; old_free = free_offset_for old_cap;
              out0 = replicate (region_size new_cap) 0;
              hdr_end = min HEADER (length old);
              out1 = put_at 12 (to_le_bytes new_cap) (put_at 0 (slice 0 hdr_end old) out0);
              bits_end = min (HEADER + old_bits) (length old);
              out2 = (if bits_end > HEADER then put_at HEADER (slice HEADER bits_end old) out1 else out1);
              free_bytes = min (4 + free_cap_for old_cap * 4) (length old - old_free)
          in Some (if free_bytes > 0
               then put_at (free_offset_for new_cap) (slice old_free (old_free + free_bytes) old) out2
               else out2))"

definition eset_init :: "grower \<Rightarrow> region \<Rightarrow> u32 \<Rightarrow> u32 \<Rightarrow> entity_set" where
  "eset_init grow rg max_entities bitset_cap =
     (let cap = max bitset_cap max_entities;
          rg1 = fst (ensure_committed grow HEADER rg)
      in \<lparr>es_region = write_at 12 (to_le_bytes cap) (write_at 0 ENT_MAGIC rg1),
          es_max_entities = max_entities, es_bitset_cap = cap\<rparr>)"

datatype eset_error = CorruptRegion | CapBelowMax | CapExceedsReservation

definition eset_load :: "region \<Rightarrow> u32 \<Rightarrow> eset_error + entity_set" where
  "eset_load rg max_entities =
     (let mm = rg_mem rg
      in if length mm < HEADER \<or> slice 0 4 mm \<noteq> ENT_MAGIC then Inl CorruptRegion
         else let stored = u32_at mm 12; cap = (if stored = 0 then max_entities else stored)
         in if cap < max_entities then Inl CapBelowMax
            else Inr \<lparr>es_region = rg, es_max_entities = max_entities, es_bitset_cap = cap\<rparr>)"

definition eset_grow :: "u32 \<Rightarrow> entity_set \<Rightarrow> eset_error + entity_set" where
  "eset_grow new_max es = (
     if new_max > es_bitset_cap es then Inl CapExceedsReservation
     else Inr (es\<lparr>es_max_entities := max (es_max_entities es) new_max\<rparr>))"

definition es_mem :: "entity_set \<Rightarrow> bytes" where
  "es_mem es = rg_mem (es_region es)"

definition put_u32 :: "nat \<Rightarrow> u32 \<Rightarrow> entity_set \<Rightarrow> entity_set" where
  "put_u32 off v es = es\<lparr>es_region := write_at off (to_le_bytes v) (es_region es)\<rparr>"

definition next_eid :: "entity_set \<Rightarrow> u32" where
  "next_eid es = u32_at (es_mem es) 4"

definition live_count :: "entity_set \<Rightarrow> u32" where
  "live_count es = u32_at (es_mem es) 8"

definition eid_byte :: "nat \<Rightarrow> nat" where
  "eid_byte e = HEADER + e div 8"

definition eid_bit :: "nat \<Rightarrow> u8" where
  "eid_bit e = push_bit (e mod 8) 1"

definition mem_live :: "bytes \<Rightarrow> nat \<Rightarrow> bool" where
  "mem_live mm e \<longleftrightarrow> (mm ! eid_byte e) AND eid_bit e \<noteq> 0"

definition is_live :: "u32 \<Rightarrow> entity_set \<Rightarrow> bool" where
  "is_live eid es \<longleftrightarrow> eid < es_max_entities es \<and> mem_live (es_mem es) (unat eid)"

text \<open>
  Sets or clears a bit and says whether it was set. A page that is not committed reads as
  zero, so clearing there does nothing; setting commits it first and reports \<^const>\<open>False\<close>
  when the disk is full.
\<close>

definition set_live_bit :: "grower \<Rightarrow> u32 \<Rightarrow> bool \<Rightarrow> entity_set \<Rightarrow> entity_set \<times> bool" where
  "set_live_bit grow eid live es = (
     if eid \<ge> es_max_entities es then (es, False)
     else let k = eid_byte (unat eid); b = eid_bit (unat eid);
              (rg, ok) = (if is_committed (k + 1) (es_region es) then (es_region es, True)
                else if \<not> live then (es_region es, False) else ensure_committed grow (k + 1) (es_region es))
          in if \<not> ok then (es\<lparr>es_region := rg\<rparr>, False)
             else let old = rg_mem rg ! k; new = (if live then old OR b else old AND NOT b)
                  in (es\<lparr>es_region := rg\<lparr>rg_mem := (rg_mem rg)[k := new]\<rparr>\<rparr>, old AND b \<noteq> 0))"

definition allocate_from_free_stack :: "grower \<Rightarrow> entity_set \<Rightarrow> entity_set \<times> u32 option" where
  "allocate_from_free_stack grow es =
     (let fo = free_offset_for (es_bitset_cap es); fc = u32_at (es_mem es) fo
      in if fc = 0 then (es, None)
         else let eid = u32_at (es_mem es) (fo + 4 + unat (fc - 1) * 4);
                  es1 = put_u32 fo (fc - 1) es;
                  es2 = fst (set_live_bit grow eid True es1)
              in (put_u32 8 (live_count es2 + 1) es2, Some eid))"

definition allocate_tracked :: "grower \<Rightarrow> entity_set \<Rightarrow> entity_set \<times> (u32 \<times> bool) option" where
  "allocate_tracked grow es =
     (let eid = next_eid es; es1 = put_u32 4 (eid + 1) es
      in if eid < es_max_entities es
         then let es2 = fst (set_live_bit grow eid True es1)
              in (put_u32 8 (live_count es2 + 1) es2, Some (eid, False))
         else let es2 = put_u32 4 (next_eid es1 - 1) es1
              in case allocate_from_free_stack grow es2 of
                  (es3, Some e) \<Rightarrow> (es3, Some (e, True))
                | (es3, None) \<Rightarrow> (es3, None))"

definition eset_allocate :: "grower \<Rightarrow> entity_set \<Rightarrow> entity_set \<times> u32 option" where
  "eset_allocate grow es = (case allocate_tracked grow es of
       (es1, Some (e, _)) \<Rightarrow> (es1, Some e) | (es1, None) \<Rightarrow> (es1, None))"

text \<open>The part of \<^verbatim>\<open>free\<close> under \<^verbatim>\<open>free_lock\<close>.\<close>

definition push_free :: "grower \<Rightarrow> u32 \<Rightarrow> entity_set \<Rightarrow> entity_set" where
  "push_free grow eid es =
     (let fo = free_offset_for (es_bitset_cap es); fc = u32_at (es_mem es) fo
      in if unat fc < free_cap_for (es_bitset_cap es)
         then let off = fo + 4 + unat fc * 4
              in case ensure_committed grow (off + 4) (es_region es) of
                  (rg, False) \<Rightarrow> es\<lparr>es_region := rg\<rparr>
                | (rg, True) \<Rightarrow> put_u32 fo (fc + 1) (put_u32 off eid (es\<lparr>es_region := rg\<rparr>))
         else es)"

definition eset_free :: "grower \<Rightarrow> u32 \<Rightarrow> entity_set \<Rightarrow> entity_set" where
  "eset_free grow eid es = (case set_live_bit grow eid False es of
       (es1, False) \<Rightarrow> es1
     | (es1, True) \<Rightarrow> push_free grow eid (put_u32 8 (live_count es1 - 1) es1))"

definition eset_revive :: "grower \<Rightarrow> u32 \<Rightarrow> entity_set \<Rightarrow> entity_set" where
  "eset_revive grow eid es = (
     if eid \<ge> es_max_entities es then es
     else case set_live_bit grow eid True es of
         (es1, True) \<Rightarrow> es1 | (es1, False) \<Rightarrow> put_u32 8 (live_count es1 + 1) es1)"

definition ensure_live :: "grower \<Rightarrow> u32 \<Rightarrow> entity_set \<Rightarrow> entity_set" where
  "ensure_live grow eid es = (
     if eid \<ge> es_max_entities es then es
     else case set_live_bit grow eid True es of
         (es1, True) \<Rightarrow> es1
       | (es1, False) \<Rightarrow>
           let es2 = put_u32 8 (live_count es1 + 1) es1
           in if eid \<ge> next_eid es2 then put_u32 4 (eid + 1) es2 else es2)"

text \<open>\<^const>\<open>None\<close> is the panic of the \<^verbatim>\<open>assert!\<close>.\<close>

definition allocate_at :: "grower \<Rightarrow> u32 \<Rightarrow> entity_set \<Rightarrow> entity_set option" where
  "allocate_at grow eid es = (
     if \<not> eid < es_max_entities es then None
     else let (es1, was) = set_live_bit grow eid True es;
              es2 = (if was then es1 else put_u32 8 (live_count es1 + 1) es1)
          in Some (if next_eid es2 \<le> eid then put_u32 4 (eid + 1) es2 else es2))"

section \<open>Counting, searching and listing\<close>

definition count_bits :: "bytes \<Rightarrow> nat \<Rightarrow> nat \<Rightarrow> nat" where
  "count_bits mm lo hi = length (filter (mem_live mm) [lo..<hi])"

definition count_ones :: "u8 \<Rightarrow> nat" where
  "count_ones b = length (filter (bit b) [0..<8])"

definition live_count_in :: "u32 \<Rightarrow> u32 \<Rightarrow> entity_set \<Rightarrow> nat" where
  "live_count_in lo hi0 es =
     (let hi = min hi0 (es_max_entities es); mm = es_mem es
      in if lo \<ge> hi then 0
         else let first_full = (lo + 7) AND NOT 7; last_full = hi AND NOT 7
         in if first_full \<ge> hi then count_bits mm (unat lo) (unat hi)
            else count_bits mm (unat lo) (unat first_full) +
              sum_list (map (\<lambda>b. count_ones (mm ! (HEADER + b)))
                [unat first_full div 8..<unat last_full div 8]) +
              count_bits mm (unat last_full) (unat hi))"

function highest_live_loop :: "bytes \<Rightarrow> nat \<Rightarrow> nat \<Rightarrow> nat option" where
  "highest_live_loop mm lo e = (
     if \<not> e > lo then None
     else let e1 = e - 1; b = mm ! eid_byte e1
          in if b = 0
             then let byte_first = e1 div 8 * 8
                  in if byte_first \<le> lo then None else highest_live_loop mm lo byte_first
             else if b AND eid_bit e1 \<noteq> 0 then Some e1 else highest_live_loop mm lo e1)"
  by pat_completeness auto

termination
  by (relation "measure (\<lambda>(mm, lo, e). e)") (auto intro: le_less_trans[OF div_times_less_eq_dividend])

declare highest_live_loop.simps [simp del]

definition highest_live_in :: "u32 \<Rightarrow> u32 \<Rightarrow> entity_set \<Rightarrow> nat option" where
  "highest_live_in lo hi0 es =
     (let hi = min hi0 (es_max_entities es)
      in if lo \<ge> hi then None else highest_live_loop (es_mem es) (unat lo) (unat hi))"

definition trailing_zeros :: "u64 \<Rightarrow> nat" where
  "trailing_zeros w = length (takeWhile (\<lambda>i. \<not> bit w i) [0..<64])"

text \<open>
  The ids of one 64-bit word, lowest first: the lowest set bit gives the next id and
  \<^verbatim>\<open>w &= w - 1\<close> clears it; an id at or past the end stops the word.
\<close>

lemma clear_lowest_less: "(w :: 'a::len word) \<noteq> 0 \<Longrightarrow> unat (w AND (w - 1)) < unat w"
proof -
  assume w: "w \<noteq> 0"
  have "unat (w AND (w - 1)) \<le> unat (w - 1)"
    using word_and_le2[of "w - 1" w] by (simp add: word_le_nat_alt and.commute)
  also have "\<dots> < unat w"
    using w by (simp add: unat_minus_one unat_gt_0)
  finally show ?thesis .
qed

function word_ids :: "u32 \<Rightarrow> u32 \<Rightarrow> u64 \<Rightarrow> u32 list" where
  "word_ids word_start next w = (
     if w = 0 then []
     else let eid = word_start + word_of_nat (trailing_zeros w)
          in if eid \<ge> next then [] else eid # word_ids word_start next (w AND (w - 1)))"
  by pat_completeness auto

termination
  by (relation "measure (\<lambda>(s, n, w). unat w)") (auto dest: clear_lowest_less)

declare word_ids.simps [simp del]

text \<open>
  The loop over the words. Its counter is a \<^verbatim>\<open>u32\<close> and \<^verbatim>\<open>word_start += 64\<close> wraps, so it may run
  forever: \<^const>\<open>None\<close> is no result, either that or the panic on a word outside the region. The
  eight bytes of a word may reach past the bitset into the free stack behind it; the ids of those
  bits are not below \<^verbatim>\<open>next\<close>.
\<close>

partial_function (option) live_words :: "bytes \<Rightarrow> u32 \<Rightarrow> u32 \<Rightarrow> u32 list option" where
  "live_words mm next word_start = (
     if \<not> word_start < next then Some []
     else let off = HEADER + unat word_start div 8
          in if off + 8 > length mm then None
             else Option.bind (live_words mm next (word_start + 64))
               (\<lambda>rest. Some (word_ids word_start next (from_le_bytes (slice off (off + 8) mm)) @ rest)))"

definition for_each_live :: "entity_set \<Rightarrow> u32 list option" where
  "for_each_live es = live_words (es_mem es) (min (next_eid es) (es_max_entities es)) 0"

definition eset_iter :: "entity_set \<Rightarrow> nat list" where
  "eset_iter es = filter (mem_live (es_mem es)) [0..<unat (next_eid es)]"

section \<open>Reading and writing the region\<close>

lemma mem_live_bit: "mem_live m e \<longleftrightarrow> bit (m ! eid_byte e) (e mod 8)"
proof -
  have "(m ! eid_byte e) AND eid_bit e = (if bit (m ! eid_byte e) (e mod 8) then eid_bit e else 0)"
    by (rule bit_eqI) (auto simp: eid_bit_def bit_simps)
  moreover have "eid_bit e \<noteq> 0"
    by (auto simp: eid_bit_def bit_eq_iff bit_simps intro!: exI[of _ "e mod 8"])
  ultimately show ?thesis by (simp add: mem_live_def)
qed

lemma eid_split: "(e :: nat) = e' \<longleftrightarrow> e div 8 = e' div 8 \<and> e mod 8 = e' mod 8"
  by (metis div_mult_mod_eq)

lemma mem_live_or:
  assumes "eid_byte e < length m"
  shows "mem_live (m[eid_byte e := m ! eid_byte e OR eid_bit e]) e' \<longleftrightarrow> mem_live m e' \<or> e' = e"
  using assms eid_split[of e' e]
  by (cases "e' div 8 = e div 8") (auto simp: mem_live_bit eid_byte_def eid_bit_def bit_simps)

lemma mem_live_andnot:
  assumes "eid_byte e < length m"
  shows "mem_live (m[eid_byte e := m ! eid_byte e AND NOT (eid_bit e)]) e' \<longleftrightarrow> mem_live m e' \<and> e' \<noteq> e"
  using assms eid_split[of e' e]
  by (cases "e' div 8 = e div 8") (auto simp: mem_live_bit eid_byte_def eid_bit_def bit_simps)

lemma mem_live_put:
  "off + length bs \<le> length m \<Longrightarrow> eid_byte e < length m \<Longrightarrow> eid_byte e < off \<or> off + length bs \<le> eid_byte e \<Longrightarrow>
    mem_live (put_at off bs m) e \<longleftrightarrow> mem_live m e"
  by (auto simp: mem_live_def nth_put_at_before nth_put_at_after)

section \<open>The set as an abstract set with a stack\<close>

record id_pool =
  ip_live :: "nat set"
  ip_next :: nat
  ip_free :: "nat list"

definition pool_allocate :: "nat \<Rightarrow> id_pool \<Rightarrow> id_pool \<times> nat option" where
  "pool_allocate limit p = (
     if ip_next p < limit
     then (p\<lparr>ip_live := insert (ip_next p) (ip_live p), ip_next := ip_next p + 1\<rparr>, Some (ip_next p))
     else if ip_free p = [] then (p, None)
     else (p\<lparr>ip_live := insert (last (ip_free p)) (ip_live p), ip_free := butlast (ip_free p)\<rparr>,
           Some (last (ip_free p))))"

definition pool_free :: "nat \<Rightarrow> nat \<Rightarrow> id_pool \<Rightarrow> id_pool" where
  "pool_free stack_cap e p = (
     if e \<notin> ip_live p then p
     else p\<lparr>ip_live := ip_live p - {e},
            ip_free := (if length (ip_free p) < stack_cap then ip_free p @ [e] else ip_free p)\<rparr>)"

definition pool_add :: "nat \<Rightarrow> id_pool \<Rightarrow> id_pool" where
  "pool_add e p = p\<lparr>ip_live := insert e (ip_live p), ip_next := max (ip_next p) (e + 1)\<rparr>"

definition pool_ok :: "nat \<Rightarrow> id_pool \<Rightarrow> bool" where
  "pool_ok limit p \<longleftrightarrow> ip_live p \<subseteq> {..<ip_next p} \<and> ip_next p \<le> limit \<and> distinct (ip_free p) \<and>
     set (ip_free p) \<subseteq> {..<ip_next p} - ip_live p"

definition es_bits :: "entity_set \<Rightarrow> nat set" where
  "es_bits es = {e. e < 8 * bitset_bytes (es_bitset_cap es) \<and> mem_live (es_mem es) e}"

definition es_free_count :: "entity_set \<Rightarrow> nat" where
  "es_free_count es = unat (u32_at (es_mem es) (free_offset_for (es_bitset_cap es)))"

definition es_free :: "entity_set \<Rightarrow> nat list" where
  "es_free es = map (\<lambda>i. unat (u32_at (es_mem es) (free_offset_for (es_bitset_cap es) + 4 + i * 4)))
     [0..<es_free_count es]"

definition pool_of :: "entity_set \<Rightarrow> id_pool" where
  "pool_of es = \<lparr>ip_live = es_bits es, ip_next = unat (next_eid es), ip_free = es_free es\<rparr>"

definition layout_ok :: "entity_set \<Rightarrow> bool" where
  "layout_ok es \<longleftrightarrow> length (es_mem es) = region_size (es_bitset_cap es) \<and>
     es_max_entities es \<le> es_bitset_cap es \<and> es_free_count es \<le> free_cap_for (es_bitset_cap es) \<and>
     (\<forall>k \<ge> rg_committed (es_region es). k < length (es_mem es) \<longrightarrow> es_mem es ! k = 0) \<and>
     HEADER \<le> rg_committed (es_region es) \<and>
     (0 < es_free_count es \<longrightarrow> free_offset_for (es_bitset_cap es) + 4 \<le> rg_committed (es_region es))"

definition eset_ok :: "entity_set \<Rightarrow> bool" where
  "eset_ok es \<longleftrightarrow> layout_ok es \<and> pool_ok (unat (es_max_entities es)) (pool_of es) \<and>
     unat (live_count es) = card (es_bits es)"

text \<open>What a write outside the bitset and the stack, or of one bit, leaves alone.\<close>

lemma free_offset_ge: "HEADER + bitset_bytes cap \<le> free_offset_for cap" "HEADER \<le> free_offset_for cap"
  by (simp_all add: free_offset_for_def)

lemma bitset_bound: "e < unat cap \<Longrightarrow> e < 8 * bitset_bytes cap"
  by (simp add: bitset_bytes_def)

lemma eid_byte_bound: "e < 8 * bitset_bytes cap \<Longrightarrow> eid_byte e < free_offset_for cap"
  using free_offset_ge(1)[of cap] by (simp add: eid_byte_def less_mult_imp_div_less)

lemma eid_byte_ge: "HEADER \<le> eid_byte e"
  by (simp add: eid_byte_def)

lemma layout_length:
  "layout_ok es \<Longrightarrow> length (es_mem es) = free_offset_for (es_bitset_cap es) + 4 + free_cap_for (es_bitset_cap es) * 4"
  by (simp add: layout_ok_def region_size_def)

lemma put_u32_simps [simp]:
  "es_mem (put_u32 off v es) = put_at off (to_le_bytes v) (es_mem es)"
  "es_max_entities (put_u32 off v es) = es_max_entities es"
  "es_bitset_cap (put_u32 off v es) = es_bitset_cap es"
  "rg_committed (es_region (put_u32 off v es)) = rg_committed (es_region es)"
  by (simp_all add: put_u32_def es_mem_def write_at_def)

text \<open>Writing one of the two counters of the header.\<close>

lemma put_counter:
  assumes "layout_ok es" "off = 4 \<or> off = 8"
  shows "layout_ok (put_u32 off v es)" "es_bits (put_u32 off v es) = es_bits es"
    "es_free (put_u32 off v es) = es_free es"
    "next_eid (put_u32 off v es) = (if off = 4 then v else next_eid es)"
    "live_count (put_u32 off v es) = (if off = 8 then v else live_count es)"
proof -
  have len: "length (es_mem es) = free_offset_for (es_bitset_cap es) + 4 + free_cap_for (es_bitset_cap es) * 4"
    using layout_length[OF assms(1)] .
  have fo: "HEADER \<le> free_offset_for (es_bitset_cap es)" by (rule free_offset_ge)
  have count: "es_free_count (put_u32 off v es) = es_free_count es"
    using assms(2) len fo by (auto simp: es_free_count_def u32_at_put_other)
  have fc: "es_free_count es \<le> free_cap_for (es_bitset_cap es)"
    using assms(1) by (simp add: layout_ok_def)
  then show "es_free (put_u32 off v es) = es_free es"
    using assms(2) len fo by (auto simp: es_free_def count u32_at_put_other)
  have "mem_live (put_at off (to_le_bytes v) (es_mem es)) e \<longleftrightarrow> mem_live (es_mem es) e"
    if "e < 8 * bitset_bytes (es_bitset_cap es)" for e
    using assms(2) len fo eid_byte_bound[OF that] eid_byte_ge[of e] by (intro mem_live_put) auto
  then show "es_bits (put_u32 off v es) = es_bits es"
    by (auto simp: es_bits_def)
  show "next_eid (put_u32 off v es) = (if off = 4 then v else next_eid es)"
    "live_count (put_u32 off v es) = (if off = 8 then v else live_count es)"
    using assms(2) len fo by (auto simp: next_eid_def live_count_def u32_at_put_other)
  show "layout_ok (put_u32 off v es)"
    using assms count fc len fo by (auto simp: layout_ok_def length_put_at nth_put_at_after)
qed

lemma unat_u32_of_nat: "n < 2 ^ 32 \<Longrightarrow> unat (word_of_nat n :: u32) = n"
  by (simp add: unat_of_nat)

lemma layout_okD:
  assumes "layout_ok es"
  shows "es_free_count es \<le> free_cap_for (es_bitset_cap es)" "es_max_entities es \<le> es_bitset_cap es"
    "rg_committed (es_region es) \<le> k \<Longrightarrow> k < length (es_mem es) \<Longrightarrow> es_mem es ! k = 0"
    "HEADER \<le> rg_committed (es_region es)"
    "0 < es_free_count es \<Longrightarrow> free_offset_for (es_bitset_cap es) + 4 \<le> rg_committed (es_region es)"
  using assms by (simp_all add: layout_ok_def)

text \<open>Writing the free stack: its count, and the slot behind its top.\<close>

lemma put_stack_other:
  assumes "free_offset_for (es_bitset_cap es) \<le> off" "off + 4 \<le> length (es_mem es)"
  shows "es_bits (put_u32 off v es) = es_bits es"
    "next_eid (put_u32 off v es) = next_eid es" "live_count (put_u32 off v es) = live_count es"
proof -
  have fo: "HEADER \<le> free_offset_for (es_bitset_cap es)" by (rule free_offset_ge)
  have "mem_live (put_at off (to_le_bytes v) (es_mem es)) e \<longleftrightarrow> mem_live (es_mem es) e"
    if "e < 8 * bitset_bytes (es_bitset_cap es)" for e
    using assms eid_byte_bound[OF that] by (intro mem_live_put) auto
  then show "es_bits (put_u32 off v es) = es_bits es"
    by (auto simp: es_bits_def)
  show "next_eid (put_u32 off v es) = next_eid es" "live_count (put_u32 off v es) = live_count es"
    using assms fo by (auto simp: next_eid_def live_count_def u32_at_put_other)
qed

lemma pop_stack:
  assumes "layout_ok es" "0 < es_free_count es"
  defines "es' \<equiv> put_u32 (free_offset_for (es_bitset_cap es)) (word_of_nat (es_free_count es - 1)) es"
  shows "layout_ok es'" "es_free es' = butlast (es_free es)"
    "last (es_free es) = unat (u32_at (es_mem es) (free_offset_for (es_bitset_cap es) + 4 + (es_free_count es - 1) * 4))"
proof -
  let ?fo = "free_offset_for (es_bitset_cap es)" and ?n = "es_free_count es"
  note d = layout_okD[OF assms(1)] and len = layout_length[OF assms(1)]
  have "?n < 2 ^ 32" using unat_bound[of "u32_at (es_mem es) ?fo"] by (simp add: es_free_count_def)
  then have cnt: "es_free_count es' = ?n - 1"
    using len by (simp add: es'_def es_free_count_def unat_of_nat)
  have "u32_at (es_mem es') (?fo + 4 + i * 4) = u32_at (es_mem es) (?fo + 4 + i * 4)" if "i < ?n" for i
    using that len d(1) by (simp add: es'_def u32_at_put_other)
  then have "es_free es' = map (\<lambda>i. unat (u32_at (es_mem es) (?fo + 4 + i * 4))) [0..<?n - 1]"
    using cnt by (simp add: es_free_def es'_def)
  moreover have "[0..<?n] = [0..<?n - 1] @ [?n - 1]"
    using assms(2) by (metis Suc_diff_1 upt_Suc_append zero_le)
  ultimately show "es_free es' = butlast (es_free es)"
    "last (es_free es) = unat (u32_at (es_mem es) (?fo + 4 + (?n - 1) * 4))"
    by (simp_all add: es_free_def)
  show "layout_ok es'"
    using assms(1) cnt len d(5)[OF assms(2)]
    by (auto simp: layout_ok_def es'_def length_put_at nth_put_at_after)
qed

lemma push_stack:
  fixes eid :: u32
  assumes "layout_ok es" "es_free_count es < free_cap_for (es_bitset_cap es)"
    and "free_offset_for (es_bitset_cap es) + 4 + es_free_count es * 4 + 4 \<le> rg_committed (es_region es)"
  defines "es' \<equiv> put_u32 (free_offset_for (es_bitset_cap es)) (word_of_nat (es_free_count es + 1))
     (put_u32 (free_offset_for (es_bitset_cap es) + 4 + es_free_count es * 4) eid es)"
  shows "layout_ok es'" "es_free es' = es_free es @ [unat eid]" "es_bits es' = es_bits es"
    "next_eid es' = next_eid es" "live_count es' = live_count es"
proof -
  let ?fo = "free_offset_for (es_bitset_cap es)" and ?n = "es_free_count es"
  let ?es1 = "put_u32 (?fo + 4 + ?n * 4) eid es"
  note d = layout_okD[OF assms(1)] and len = layout_length[OF assms(1)]
  have len1: "length (es_mem ?es1) = length (es_mem es)"
    using len assms(2) by (simp add: length_put_at)
  have "?n + 1 < 2 ^ 32" using assms(2) by (simp add: free_cap_for_def)
  then have n: "unat (word_of_nat (?n + 1) :: u32) = ?n + 1" by (rule unat_u32_of_nat)
  have "es_free_count es' = unat (word_of_nat (?n + 1) :: u32)"
    using len1 len by (simp only: es'_def es_free_count_def[of "put_u32 _ _ _"] put_u32_simps) simp
  then have cnt: "es_free_count es' = ?n + 1" by (simp only: n)
  have "u32_at (es_mem es') (?fo + 4 + i * 4) = (if i = ?n then eid else u32_at (es_mem es) (?fo + 4 + i * 4))"
    if "i < ?n + 1" for i
    using that len len1 assms(2) by (auto simp: es'_def u32_at_put_other)
  then show "es_free es' = es_free es @ [unat eid]"
    by (simp add: es_free_def cnt) (simp add: es'_def)
  show "layout_ok es'"
    using assms cnt len len1
    by (auto simp: layout_ok_def es'_def length_put_at nth_put_at_after)
  show "es_bits es' = es_bits es" "next_eid es' = next_eid es" "live_count es' = live_count es"
    using len len1 assms(2) put_stack_other[of es "?fo + 4 + ?n * 4" eid] put_stack_other[of ?es1 ?fo]
    by (simp_all add: es'_def)
qed

section \<open>The operations on the abstract set\<close>

text \<open>Changing one byte of the bitset keeps everything else.\<close>

lemma update_bitset_byte:
  assumes ok: "layout_ok es" and e: "e < 8 * bitset_bytes (es_bitset_cap es)"
    and c: "rg_committed (es_region es) \<le> c" "x = 0 \<or> eid_byte e < c"
  defines "es' \<equiv> es\<lparr>es_region := \<lparr>rg_mem = (es_mem es)[eid_byte e := x], rg_committed = c\<rparr>\<rparr>"
  shows "layout_ok es'" "es_free es' = es_free es" "next_eid es' = next_eid es"
    "live_count es' = live_count es"
proof -
  note d = layout_okD[OF ok] and k = eid_byte_bound[OF e] eid_byte_ge[of e]
  have mem: "es_mem es' = (es_mem es)[eid_byte e := x]" by (simp add: es'_def es_mem_def)
  have cnt: "es_free_count es' = es_free_count es"
    using k unfolding es_free_count_def mem by (simp add: es'_def u32_at_update_other)
  show "es_free es' = es_free es"
    using k unfolding es_free_def mem cnt by (simp add: es'_def u32_at_update_other)
  show "next_eid es' = next_eid es" "live_count es' = live_count es"
    using k unfolding next_eid_def live_count_def mem by (simp_all add: u32_at_update_other)
  have "(es_mem es)[eid_byte e := x] ! j = 0" if "c \<le> j" "j < length (es_mem es)" for j
    using that c d(3)[of j] by (cases "j = eid_byte e") auto
  then show "layout_ok es'"
    using ok c(1) unfolding layout_ok_def mem cnt by (auto simp: es'_def)
qed

lemma ensure_committed_ok:
  assumes "\<forall>n. grow n \<noteq> None"
  shows "\<exists>c. ensure_committed grow till rg = (rg\<lparr>rg_committed := c\<rparr>, True) \<and> rg_committed rg \<le> c \<and> till \<le> c"
proof (cases "is_committed till rg")
  case True
  then show ?thesis by (intro exI[of _ "rg_committed rg"]) (simp add: ensure_committed_def is_committed_def)
next
  case False
  then obtain c where "grow till = Some c" using assms by blast
  then show ?thesis using False by (intro exI[of _ "max till c"]) (simp add: ensure_committed_def is_committed_def)
qed

lemma set_bit_mem:
  assumes ok: "layout_ok es" and e: "eid < es_max_entities es" and g: "live \<Longrightarrow> \<forall>n. grow n \<noteq> None"
  shows "\<exists>c x. set_live_bit grow eid live es =
      (es\<lparr>es_region := \<lparr>rg_mem = (es_mem es)[eid_byte (unat eid) := x], rg_committed = c\<rparr>\<rparr>,
       mem_live (es_mem es) (unat eid)) \<and> rg_committed (es_region es) \<le> c \<and> (x = 0 \<or> eid_byte (unat eid) < c) \<and>
      x = (if live then es_mem es ! eid_byte (unat eid) OR eid_bit (unat eid)
           else es_mem es ! eid_byte (unat eid) AND NOT (eid_bit (unat eid)))"
proof -
  let ?k = "eid_byte (unat eid)" and ?rg = "es_region es"
  have "unat eid < unat (es_bitset_cap es)"
    using e layout_okD(2)[OF ok] by (simp add: word_less_nat_alt word_le_nat_alt)
  then have k: "?k < length (es_mem es)"
    using eid_byte_bound[OF bitset_bound] layout_length[OF ok] by fastforce
  have e: "\<not> es_max_entities es \<le> eid" using e by simp
  consider "is_committed (?k + 1) ?rg" | "\<not> is_committed (?k + 1) ?rg" "live" | "\<not> is_committed (?k + 1) ?rg" "\<not> live"
    by blast
  then show ?thesis
  proof cases
    case 1
    then show ?thesis
      using e by (intro exI[of _ "rg_committed ?rg"])
        (simp add: set_live_bit_def Let_def es_mem_def mem_live_def is_committed_def)
  next
    case 2
    obtain c where "ensure_committed grow (?k + 1) ?rg = (?rg\<lparr>rg_committed := c\<rparr>, True)"
        "rg_committed ?rg \<le> c" "?k + 1 \<le> c"
      using ensure_committed_ok[of grow "?k + 1" ?rg] g 2(2) by blast
    then show ?thesis
      using e 2 by (intro exI[of _ c]) (simp add: set_live_bit_def Let_def es_mem_def mem_live_def)
  next
    case 3
    have "es_mem es ! ?k = 0" using layout_okD(3)[OF ok _ k] 3(1) by (simp add: is_committed_def)
    then have "(es_mem es)[?k := 0] = es_mem es" "\<not> mem_live (es_mem es) (unat eid)"
      by (metis list_update_id) (simp add: mem_live_def \<open>es_mem es ! ?k = 0\<close>)
    then show ?thesis
      using e 3 \<open>es_mem es ! ?k = 0\<close>
      by (intro exI[of _ "rg_committed ?rg"]) (simp add: set_live_bit_def Let_def es_mem_def)
  qed
qed

lemma set_bit_spec:
  assumes ok: "layout_ok es" and e: "eid < es_max_entities es" and g: "live \<Longrightarrow> \<forall>n. grow n \<noteq> None"
  shows "\<exists>es'. set_live_bit grow eid live es = (es', unat eid \<in> es_bits es) \<and> layout_ok es' \<and>
    es_bits es' = (if live then insert (unat eid) (es_bits es) else es_bits es - {unat eid}) \<and>
    es_free es' = es_free es \<and> next_eid es' = next_eid es \<and> live_count es' = live_count es \<and>
    es_max_entities es' = es_max_entities es \<and> es_bitset_cap es' = es_bitset_cap es"
proof -
  have "unat eid < unat (es_bitset_cap es)"
    using e layout_okD(2)[OF ok] by (simp add: word_less_nat_alt word_le_nat_alt)
  then have b: "unat eid < 8 * bitset_bytes (es_bitset_cap es)" by (rule bitset_bound)
  then have k: "eid_byte (unat eid) < length (es_mem es)"
    using eid_byte_bound layout_length[OF ok] by fastforce
  obtain c x where s: "set_live_bit grow eid live es =
      (es\<lparr>es_region := \<lparr>rg_mem = (es_mem es)[eid_byte (unat eid) := x], rg_committed = c\<rparr>\<rparr>,
       mem_live (es_mem es) (unat eid))" "rg_committed (es_region es) \<le> c" "x = 0 \<or> eid_byte (unat eid) < c"
    and x: "x = (if live then es_mem es ! eid_byte (unat eid) OR eid_bit (unat eid)
           else es_mem es ! eid_byte (unat eid) AND NOT (eid_bit (unat eid)))"
    using set_bit_mem[OF ok e g] by blast
  define es' where "es' = es\<lparr>es_region := \<lparr>rg_mem = (es_mem es)[eid_byte (unat eid) := x], rg_committed = c\<rparr>\<rparr>"
  have "mem_live (es_mem es') e' \<longleftrightarrow> (if live then mem_live (es_mem es) e' \<or> e' = unat eid
      else mem_live (es_mem es) e' \<and> e' \<noteq> unat eid)" for e'
    using mem_live_or[OF k] mem_live_andnot[OF k] by (simp add: es'_def es_mem_def x)
  then have "es_bits es' = (if live then insert (unat eid) (es_bits es) else es_bits es - {unat eid})"
    using b by (auto simp: es_bits_def es'_def)
  then show ?thesis
    using s(1) b update_bitset_byte[OF ok b s(2,3)] unfolding es'_def[symmetric]
    by (intro exI[of _ es']) (auto simp: es_bits_def es'_def)
qed

lemma eset_okD:
  assumes "eset_ok es"
  shows "layout_ok es" "es_bits es \<subseteq> {..<unat (next_eid es)}" "next_eid es \<le> es_max_entities es"
    "distinct (es_free es)" "set (es_free es) \<subseteq> {..<unat (next_eid es)} - es_bits es"
    "unat (live_count es) = card (es_bits es)" "finite (es_bits es)"
  using assms by (auto simp: eset_ok_def pool_ok_def pool_of_def word_le_nat_alt intro: finite_subset)

lemma live_count_room:
  assumes "eset_ok es" "unat eid \<notin> es_bits es" "unat eid \<le> unat (next_eid es)" "eid < es_max_entities es"
  shows "unat (live_count es + 1) = card (insert (unat eid) (es_bits es))"
proof -
  note d = eset_okD[OF assms(1)]
  have "insert (unat eid) (es_bits es) \<subseteq> {..<unat (es_max_entities es)}"
    using d(2,3) assms(4) by (auto simp: word_le_nat_alt word_less_nat_alt)
  then have "card (insert (unat eid) (es_bits es)) \<le> unat (es_max_entities es)"
    by (metis card_lessThan card_mono finite_lessThan)
  then have "unat (live_count es) + 1 < 2 ^ 32"
    using d(6,7) assms(2) unat_bound[of "es_max_entities es"] by simp
  then have "unat (live_count es + 1) = unat (live_count es) + 1"
    by (simp add: unat_word_ariths)
  then show ?thesis
    using d(6,7) assms(2) by simp
qed

text \<open>Marking an id live and counting it.\<close>

lemma mark_spec:
  assumes "layout_ok es" "eid < es_max_entities es" "\<forall>n. grow n \<noteq> None"
  shows "\<exists>es'. (let es2 = fst (set_live_bit grow eid True es) in put_u32 8 (live_count es2 + 1) es2) = es' \<and>
    layout_ok es' \<and> es_bits es' = insert (unat eid) (es_bits es) \<and> es_free es' = es_free es \<and>
    next_eid es' = next_eid es \<and> live_count es' = live_count es + 1 \<and>
    es_max_entities es' = es_max_entities es \<and> es_bitset_cap es' = es_bitset_cap es"
proof -
  obtain es2 where "set_live_bit grow eid True es = (es2, unat eid \<in> es_bits es)" "layout_ok es2"
    "es_bits es2 = insert (unat eid) (es_bits es)" "es_free es2 = es_free es" "next_eid es2 = next_eid es"
    "live_count es2 = live_count es" "es_max_entities es2 = es_max_entities es" "es_bitset_cap es2 = es_bitset_cap es"
    using set_bit_spec[OF assms(1,2), of True grow] assms(3) by auto
  then show ?thesis
    using put_counter[of es2 8 "live_count es2 + 1"] by simp
qed

lemma eset_okI:
  assumes "layout_ok es" "es_bits es \<subseteq> {..<unat (next_eid es)}" "next_eid es \<le> es_max_entities es"
    "distinct (es_free es)" "set (es_free es) \<subseteq> {..<unat (next_eid es)} - es_bits es"
    "unat (live_count es) = card (es_bits es)"
  shows "eset_ok es"
  using assms by (simp add: eset_ok_def pool_ok_def pool_of_def word_le_nat_alt)

lemma next_eid_Suc:
  "eid < (m :: u32) \<Longrightarrow> unat (eid + 1) = unat eid + 1 \<and> eid + 1 \<le> m"
  using unat_bound[of m] by (simp add: word_less_nat_alt word_le_nat_alt unat_word_ariths)

lemma allocate_fresh:
  assumes ok: "eset_ok es" and g: "\<forall>n. grow n \<noteq> None" and room: "next_eid es < es_max_entities es"
  shows "\<exists>es'. allocate_tracked grow es = (es', Some (next_eid es, False)) \<and> eset_ok es' \<and>
    pool_of es' = fst (pool_allocate (unat (es_max_entities es)) (pool_of es)) \<and>
    es_max_entities es' = es_max_entities es \<and> es_bitset_cap es' = es_bitset_cap es"
proof -
  note d = eset_okD[OF ok]
  let ?es1 = "put_u32 4 (next_eid es + 1) es"
  note c = put_counter[OF d(1), of 4 "next_eid es + 1", simplified]
  obtain es' where es': "(let es2 = fst (set_live_bit grow (next_eid es) True ?es1) in put_u32 8 (live_count es2 + 1) es2) = es'"
      "layout_ok es'" "es_bits es' = insert (unat (next_eid es)) (es_bits es)" "es_free es' = es_free es"
      "next_eid es' = next_eid es + 1" "live_count es' = live_count es + 1"
      "es_max_entities es' = es_max_entities es" "es_bitset_cap es' = es_bitset_cap es"
    using mark_spec[OF c(1), of "next_eid es" grow] room g c by auto
  have new: "unat (next_eid es) \<notin> es_bits es" using d(2) by auto
  have "eset_ok es'"
    using d es' live_count_room[OF ok new] next_eid_Suc[OF room] room
    by (intro eset_okI) (auto simp: less_Suc_eq)
  then show ?thesis
    using es' room next_eid_Suc[OF room]
    by (intro exI[of _ es']) (simp add: allocate_tracked_def pool_allocate_def pool_of_def word_less_nat_alt Let_def)
qed

lemma length_es_free [simp]: "length (es_free es) = es_free_count es"
  by (simp add: es_free_def)

lemma stack_allocate:
  assumes ok: "layout_ok es" and g: "\<forall>n. grow n \<noteq> None" and some: "es_free es \<noteq> []"
    and lt: "last (es_free es) < unat (es_max_entities es)"
  shows "\<exists>es' eid. allocate_from_free_stack grow es = (es', Some eid) \<and> unat eid = last (es_free es) \<and>
    layout_ok es' \<and> es_bits es' = insert (unat eid) (es_bits es) \<and> es_free es' = butlast (es_free es) \<and>
    next_eid es' = next_eid es \<and> live_count es' = live_count es + 1 \<and>
    es_max_entities es' = es_max_entities es \<and> es_bitset_cap es' = es_bitset_cap es"
proof -
  let ?fo = "free_offset_for (es_bitset_cap es)" and ?n = "es_free_count es"
  define eid where "eid = u32_at (es_mem es) (?fo + 4 + (?n - 1) * 4)"
  define es1 where "es1 = put_u32 ?fo (word_of_nat (?n - 1)) es"
  have n: "0 < ?n" using some by (metis length_es_free length_greater_0_conv)
  have p: "layout_ok es1" "es_free es1 = butlast (es_free es)" "unat eid = last (es_free es)"
    "es_bits es1 = es_bits es" "next_eid es1 = next_eid es" "live_count es1 = live_count es"
    using pop_stack[OF ok n] put_stack_other[of es ?fo] layout_length[OF ok] by (simp_all add: es1_def eid_def)
  have "eid < es_max_entities es1" using lt p(3) by (simp add: es1_def word_less_nat_alt)
  then obtain es' where es': "(let es2 = fst (set_live_bit grow eid True es1) in put_u32 8 (live_count es2 + 1) es2) = es'"
      "layout_ok es'" "es_bits es' = insert (unat eid) (es_bits es)" "es_free es' = butlast (es_free es)"
      "next_eid es' = next_eid es" "live_count es' = live_count es + 1"
      "es_max_entities es' = es_max_entities es" "es_bitset_cap es' = es_bitset_cap es"
    using mark_spec[OF p(1), of eid grow] g p by (auto simp: es1_def)
  have nz: "u32_at (es_mem es) ?fo \<noteq> 0" using n by (auto simp: es_free_count_def)
  then have "unat (u32_at (es_mem es) ?fo - 1) = ?n - 1" "u32_at (es_mem es) ?fo - 1 = word_of_nat (?n - 1)"
    using n unat_minus_one[OF nz] by (auto simp: es_free_count_def of_nat_diff)
  with nz have "allocate_from_free_stack grow es = (es', Some eid)"
    using es'(1) by (simp add: allocate_from_free_stack_def es1_def eid_def Let_def)
  then show ?thesis using es' p(3) by blast
qed

text \<open>A full set puts the next id back before it looks at the stack.\<close>

lemma allocate_full_undo:
  assumes "layout_ok es" "\<not> next_eid es < es_max_entities es"
  shows "\<exists>es0. allocate_tracked grow es = (case allocate_from_free_stack grow es0 of
      (es3, Some e) \<Rightarrow> (es3, Some (e, True)) | (es3, None) \<Rightarrow> (es3, None)) \<and>
    layout_ok es0 \<and> es_bits es0 = es_bits es \<and> es_free es0 = es_free es \<and> next_eid es0 = next_eid es \<and>
    live_count es0 = live_count es \<and> es_max_entities es0 = es_max_entities es \<and> es_bitset_cap es0 = es_bitset_cap es"
proof -
  note c1 = put_counter[OF assms(1), of 4 "next_eid es + 1", simplified]
  note c0 = put_counter[OF c1(1), of 4 "next_eid es", simplified]
  show ?thesis
    using assms(2) c0 c1
    by (intro exI[of _ "put_u32 4 (next_eid es) (put_u32 4 (next_eid es + 1) es)"])
      (simp add: allocate_tracked_def Let_def)
qed

lemma allocate_reuse:
  assumes ok: "eset_ok es" and g: "\<forall>n. grow n \<noteq> None" and full: "\<not> next_eid es < es_max_entities es"
    and some: "es_free es \<noteq> []"
  shows "\<exists>es' eid. allocate_tracked grow es = (es', Some (eid, True)) \<and> eset_ok es' \<and>
    unat eid = last (es_free es) \<and>
    pool_of es' = fst (pool_allocate (unat (es_max_entities es)) (pool_of es)) \<and>
    es_max_entities es' = es_max_entities es \<and> es_bitset_cap es' = es_bitset_cap es"
proof -
  note d = eset_okD[OF ok]
  have "last (es_free es) \<in> set (es_free es)" using some by simp
  then have new: "last (es_free es) \<notin> es_bits es" "last (es_free es) < unat (next_eid es)"
      "last (es_free es) < unat (es_max_entities es)"
    using d(3,5) by (auto simp: word_le_nat_alt)
  obtain es0 where e0: "allocate_tracked grow es = (case allocate_from_free_stack grow es0 of
        (es3, Some e) \<Rightarrow> (es3, Some (e, True)) | (es3, None) \<Rightarrow> (es3, None))" "layout_ok es0"
        "es_bits es0 = es_bits es" "es_free es0 = es_free es" "next_eid es0 = next_eid es"
        "live_count es0 = live_count es" "es_max_entities es0 = es_max_entities es" "es_bitset_cap es0 = es_bitset_cap es"
    using allocate_full_undo[OF d(1) full, of grow] by blast
  obtain es' eid where es': "allocate_tracked grow es = (es', Some (eid, True))" "unat eid = last (es_free es)"
      "layout_ok es'" "es_bits es' = insert (unat eid) (es_bits es)" "es_free es' = butlast (es_free es)"
      "next_eid es' = next_eid es" "live_count es' = live_count es + 1"
      "es_max_entities es' = es_max_entities es" "es_bitset_cap es' = es_bitset_cap es"
    using stack_allocate[OF e0(2) g] some new(3) e0 by auto
  have last: "unat eid \<notin> set (butlast (es_free es))" "distinct (butlast (es_free es))"
    using d(4) some es'(2) by (metis append_butlast_last_id distinct_append distinct_butlast not_distinct_conv_prefix)+
  have "eset_ok es'"
    using d es' live_count_room[OF ok, of eid] new last in_set_butlastD[of _ "es_free es"]
    by (intro eset_okI) (auto simp: word_less_nat_alt)
  then show ?thesis
    using es' some full
    by (intro exI[of _ es'] exI[of _ eid]) (simp add: pool_allocate_def pool_of_def word_less_nat_alt)
qed

text \<open>Allocation, freeing and the ids that arrive from other peers, on the abstract set.\<close>

lemma allocate_pool:
  assumes ok: "eset_ok es" and g: "\<forall>n. grow n \<noteq> None" and "eset_allocate grow es = (es', r)"
  shows "eset_ok es' \<and> es_max_entities es' = es_max_entities es \<and> es_bitset_cap es' = es_bitset_cap es \<and>
    pool_allocate (unat (es_max_entities es)) (pool_of es) = (pool_of es', map_option unat r)"
proof (cases "next_eid es < es_max_entities es")
  case True
  obtain es1 where "allocate_tracked grow es = (es1, Some (next_eid es, False))" "eset_ok es1"
      "pool_of es1 = fst (pool_allocate (unat (es_max_entities es)) (pool_of es))"
      "es_max_entities es1 = es_max_entities es" "es_bitset_cap es1 = es_bitset_cap es"
    using allocate_fresh[OF ok g True] by blast
  then show ?thesis
    using assms(3) True by (auto simp: eset_allocate_def pool_allocate_def pool_of_def word_less_nat_alt)
next
  case full: False
  show ?thesis
  proof (cases "es_free es = []")
    case True
    obtain es0 where e0: "allocate_tracked grow es = (case allocate_from_free_stack grow es0 of
        (es3, Some e) \<Rightarrow> (es3, Some (e, True)) | (es3, None) \<Rightarrow> (es3, None))" "layout_ok es0"
        "es_bits es0 = es_bits es" "es_free es0 = es_free es" "next_eid es0 = next_eid es"
        "live_count es0 = live_count es" "es_max_entities es0 = es_max_entities es" "es_bitset_cap es0 = es_bitset_cap es"
      using allocate_full_undo[OF eset_okD(1)[OF ok] full, of grow] by blast
    have "es_free_count es0 = 0" using True e0(4) by (metis length_es_free list.size(3))
    then have "u32_at (es_mem es0) (free_offset_for (es_bitset_cap es0)) = 0" by (simp add: es_free_count_def unat_eq_0)
    then have "r = None" "es' = es0" using e0(1) assms(3) by (auto simp: allocate_from_free_stack_def eset_allocate_def)
    then show ?thesis
      using e0 True full ok by (auto simp: eset_ok_def pool_of_def pool_allocate_def word_less_nat_alt)
  next
    case False
    obtain es1 eid where "allocate_tracked grow es = (es1, Some (eid, True))" "eset_ok es1" "unat eid = last (es_free es)"
        "pool_of es1 = fst (pool_allocate (unat (es_max_entities es)) (pool_of es))"
        "es_max_entities es1 = es_max_entities es" "es_bitset_cap es1 = es_bitset_cap es"
      using allocate_reuse[OF ok g full False] by blast
    then show ?thesis
      using assms(3) full False by (auto simp: eset_allocate_def pool_allocate_def pool_of_def word_less_nat_alt)
  qed
qed

lemma not_live_beyond:
  assumes "eset_ok es" "\<not> eid < es_max_entities es"
  shows "unat eid \<notin> es_bits es"
  using eset_okD(2,3)[OF assms(1)] assms(2) by (auto simp: word_less_nat_alt word_le_nat_alt)

text \<open>The second half of a free: the id goes on the stack while the stack has room.\<close>

lemma push_freed:
  fixes eid :: u32
  assumes ok: "layout_ok es" and g: "\<forall>n. grow n \<noteq> None"
  defines "es' \<equiv> push_free grow eid es"
  shows "layout_ok es' \<and>
    es_free es' = (if es_free_count es < free_cap_for (es_bitset_cap es) then es_free es @ [unat eid] else es_free es) \<and>
    es_bits es' = es_bits es \<and> next_eid es' = next_eid es \<and> live_count es' = live_count es \<and>
    es_max_entities es' = es_max_entities es \<and> es_bitset_cap es' = es_bitset_cap es"
proof (cases "es_free_count es < free_cap_for (es_bitset_cap es)")
  case False
  then show ?thesis using ok by (simp add: es'_def push_free_def es_free_count_def Let_def)
next
  case room: True
  let ?fo = "free_offset_for (es_bitset_cap es)" and ?n = "es_free_count es"
  obtain rc where rc: "ensure_committed grow (?fo + 4 + ?n * 4 + 4) (es_region es) =
      ((es_region es)\<lparr>rg_committed := rc\<rparr>, True)" "rg_committed (es_region es) \<le> rc" "?fo + 4 + ?n * 4 + 4 \<le> rc"
    using ensure_committed_ok[OF g] by blast
  define es3 where "es3 = es\<lparr>es_region := (es_region es)\<lparr>rg_committed := rc\<rparr>\<rparr>"
  have e3: "es_mem es3 = es_mem es" "es_bitset_cap es3 = es_bitset_cap es" "es_max_entities es3 = es_max_entities es"
    "rg_committed (es_region es3) = rc" by (simp_all add: es3_def es_mem_def)
  have same: "es_bits es3 = es_bits es" "es_free es3 = es_free es" "next_eid es3 = next_eid es"
    "live_count es3 = live_count es" "es_free_count es3 = es_free_count es"
    by (simp_all add: es_bits_def es_free_def next_eid_def live_count_def es_free_count_def e3)
  have l3: "layout_ok es3" using ok rc(2) by (auto simp: layout_ok_def e3 same)
  have inc: "u32_at (es_mem es) ?fo + 1 = word_of_nat (?n + 1)"
    by (simp add: es_free_count_def add.commute)
  note p = push_stack[OF l3, of eid, unfolded same e3, OF room rc(3)]
  have "es' = put_u32 ?fo (word_of_nat (?n + 1)) (put_u32 (?fo + 4 + ?n * 4) eid es3)"
    unfolding es'_def push_free_def Let_def es_free_count_def[symmetric] rc(1) inc prod.case bool.case es3_def[symmetric]
    using room by simp
  then show ?thesis
    using p room by (simp add: e3)
qed

lemma free_pool:
  fixes eid :: u32
  assumes ok: "eset_ok es" and g: "\<forall>n. grow n \<noteq> None"
  defines "es' \<equiv> eset_free grow eid es"
  shows "eset_ok es' \<and> es_max_entities es' = es_max_entities es \<and> es_bitset_cap es' = es_bitset_cap es \<and>
    pool_of es' = pool_free (free_cap_for (es_bitset_cap es)) (unat eid) (pool_of es)"
proof (cases "eid < es_max_entities es")
  case False
  then have "eset_free grow eid es = es"
    by (simp add: eset_free_def set_live_bit_def not_less)
  then show ?thesis
    using ok not_live_beyond[OF ok False] by (simp add: es'_def pool_free_def pool_of_def)
next
  case True
  note d = eset_okD[OF ok]
  obtain es1 where s: "set_live_bit grow eid False es = (es1, unat eid \<in> es_bits es)" "layout_ok es1"
      "es_bits es1 = es_bits es - {unat eid}" "es_free es1 = es_free es" "next_eid es1 = next_eid es"
      "live_count es1 = live_count es" "es_max_entities es1 = es_max_entities es" "es_bitset_cap es1 = es_bitset_cap es"
    using set_bit_spec[OF d(1) True, of False grow] by auto
  show ?thesis
  proof (cases "unat eid \<in> es_bits es")
    case False
    then have "eset_ok es1" "pool_of es1 = pool_of es" using s ok by (auto simp: eset_ok_def pool_of_def)
    then show ?thesis using s False by (simp add: es'_def eset_free_def pool_free_def pool_of_def)
  next
    case live: True
    define es2 where "es2 = put_u32 8 (live_count es1 - 1) es1"
    note c = put_counter[OF s(2), of 8 "live_count es1 - 1", simplified, folded es2_def]
    have keep: "es_max_entities es2 = es_max_entities es" "es_bitset_cap es2 = es_bitset_cap es"
      using s by (simp_all add: es2_def)
    have nz: "live_count es \<noteq> 0" using d(6,7) live by (auto simp: card_eq_0_iff)
    have cnt: "unat (live_count es2) = card (es_bits es - {unat eid})"
      using d(6,7) live s c unat_minus_one[OF nz] by simp
    have free: "es_free_count es2 = length (es_free es)" using s c by (metis length_es_free)
    have "es' = push_free grow eid es2" using s(1) live by (simp add: es'_def eset_free_def es2_def)
    note e3 = push_freed[OF c(1) g, of eid, folded this, unfolded c(2-4) keep s(3-5)]
    have "unat eid < unat (next_eid es)" "unat eid \<notin> set (es_free es)" using d(2,5) live by auto
    then show ?thesis
      using d cnt live e3 free
      by (auto simp: eset_ok_def pool_ok_def pool_of_def pool_free_def word_le_nat_alt)
  qed
qed

text \<open>
  Ids that arrive from a peer or a table: adding one that is not on the free stack keeps the
  contract.
\<close>

lemma advance_next:
  assumes "layout_ok es" "eid < es_max_entities es"
  defines "es' \<equiv> (if eid \<ge> next_eid es then put_u32 4 (eid + 1) es else es)"
  shows "layout_ok es'" "unat (next_eid es') = max (unat (next_eid es)) (unat eid + 1)"
    "es_bits es' = es_bits es" "es_free es' = es_free es" "live_count es' = live_count es"
    "es_max_entities es' = es_max_entities es" "es_bitset_cap es' = es_bitset_cap es"
  using assms(1) put_counter[OF assms(1), of 4 "eid + 1"] next_eid_Suc[OF assms(2)]
  by (auto simp: es'_def word_le_nat_alt not_le)

lemma pool_add_ok:
  assumes ok: "eset_ok es" and e: "eid < es_max_entities es" "unat eid \<notin> set (es_free es)"
    and es': "layout_ok es'" "es_bits es' = insert (unat eid) (es_bits es)" "es_free es' = es_free es"
      "unat (next_eid es') = max (unat (next_eid es)) (unat eid + 1)" "es_max_entities es' = es_max_entities es"
      "live_count es' = (if unat eid \<in> es_bits es then live_count es else live_count es + 1)"
  shows "eset_ok es'" "pool_of es' = pool_add (unat eid) (pool_of es)"
proof -
  note d = eset_okD[OF ok]
  have "insert (unat eid) (es_bits es) \<subseteq> {..<unat (es_max_entities es)}"
    using d(2,3) e by (auto simp: word_le_nat_alt word_less_nat_alt)
  then have "card (insert (unat eid) (es_bits es)) \<le> unat (es_max_entities es)"
    by (metis card_lessThan card_mono finite_lessThan)
  then have "unat (live_count es') = card (insert (unat eid) (es_bits es))"
    using d(6,7) es'(6) unat_bound[of "es_max_entities es"] by (auto simp: insert_absorb unat_word_ariths)
  moreover have "next_eid es' \<le> es_max_entities es'"
    using es'(4,5) d(3) e by (simp add: word_le_nat_alt word_less_nat_alt)
  ultimately show "eset_ok es'"
    using d es' e by (intro eset_okI) (auto simp: less_max_iff_disj)
  show "pool_of es' = pool_add (unat eid) (pool_of es)"
    using es' by (simp add: pool_of_def pool_add_def)
qed

lemma ensure_live_pool:
  assumes ok: "eset_ok es" and g: "\<forall>n. grow n \<noteq> None"
    and e: "eid < es_max_entities es" "unat eid \<notin> set (es_free es)"
  shows "eset_ok (ensure_live grow eid es) \<and> pool_of (ensure_live grow eid es) = pool_add (unat eid) (pool_of es)"
proof -
  note d = eset_okD[OF ok]
  obtain es1 where s: "set_live_bit grow eid True es = (es1, unat eid \<in> es_bits es)" "layout_ok es1"
      "es_bits es1 = insert (unat eid) (es_bits es)" "es_free es1 = es_free es" "next_eid es1 = next_eid es"
      "live_count es1 = live_count es" "es_max_entities es1 = es_max_entities es" "es_bitset_cap es1 = es_bitset_cap es"
    using set_bit_spec[OF d(1) e(1), of True grow] g by auto
  show ?thesis
  proof (cases "unat eid \<in> es_bits es")
    case True
    then have "ensure_live grow eid es = es1" "unat eid < unat (next_eid es)" using s e d(2)
      by (auto simp: ensure_live_def not_le)
    then show ?thesis using pool_add_ok[OF ok e s(2,3,4)] s True by simp
  next
    case False
    define es2 where "es2 = put_u32 8 (live_count es1 + 1) es1"
    note c = put_counter[OF s(2), of 8 "live_count es1 + 1", simplified, folded es2_def]
    have keep: "es_max_entities es2 = es_max_entities es" "es_bitset_cap es2 = es_bitset_cap es"
      using s by (simp_all add: es2_def)
    have "ensure_live grow eid es = (if eid \<ge> next_eid es2 then put_u32 4 (eid + 1) es2 else es2)"
      using s False e by (simp add: ensure_live_def es2_def Let_def)
    note a = advance_next[OF c(1), of eid, folded this, unfolded keep, OF e(1)]
    show ?thesis
      using pool_add_ok[OF ok e a(1)] a c s False by simp
  qed
qed

lemma ensure_live_stack:
  assumes ok: "eset_ok es" and g: "\<forall>n. grow n \<noteq> None" and e: "eid < es_max_entities es"
  shows "es_free (ensure_live grow eid es) = es_free es"
proof -
  obtain es1 where s: "set_live_bit grow eid True es = (es1, unat eid \<in> es_bits es)" "layout_ok es1" "es_free es1 = es_free es"
    using set_bit_spec[OF eset_okD(1)[OF ok] e, of True grow] g by auto
  note c = put_counter[OF s(2), of 8 "live_count es1 + 1", simplified]
  show ?thesis
    using s e put_counter(3)[OF c(1), of 4 "eid + 1"] c(3) by (auto simp: ensure_live_def Let_def not_le[symmetric] split: bool.splits)
qed

section \<open>A full disk\<close>

text \<open>
  Growing a file can fail. The two places that commit a page, setting a bit and pushing on the
  stack, then do nothing; otherwise they act as with a disk that has room.
\<close>

definition granted :: "grower \<Rightarrow> grower" where
  "granted grow = (\<lambda>n. Some (case grow n of None \<Rightarrow> 0 | Some c \<Rightarrow> c))"

lemma granted_ok: "\<forall>n. granted grow n \<noteq> None"
  by (simp add: granted_def)

lemma commit_or_full:
  "ensure_committed grow till rg = ensure_committed (granted grow) till rg \<or> (\<exists>n. grow n = None) \<and> ensure_committed grow till rg = (rg, False)"
  by (auto simp: ensure_committed_def granted_def split: option.splits)

lemma bit_or_full:
  "set_live_bit grow eid True es = set_live_bit (granted grow) eid True es \<or> (\<exists>n. grow n = None) \<and> set_live_bit grow eid True es = (es, False)"
  using commit_or_full[of grow "eid_byte (unat eid) + 1" "es_region es"] by (auto simp: set_live_bit_def Let_def)

lemma push_or_full: "push_free grow eid es = push_free (granted grow) eid es \<or> (\<exists>n. grow n = None) \<and> push_free grow eid es = es"
  using commit_or_full[of grow "free_offset_for (es_bitset_cap es) + 4 + unat (u32_at (es_mem es) (free_offset_for (es_bitset_cap es))) * 4 + 4" "es_region es"]
  by (auto simp: push_free_def Let_def)

definition pool_sound :: "entity_set \<Rightarrow> bool" where
  "pool_sound es \<longleftrightarrow> layout_ok es \<and> pool_ok (unat (es_max_entities es)) (pool_of es)"

lemma eset_ok_sound: "eset_ok es \<Longrightarrow> pool_sound es"
  by (simp add: eset_ok_def pool_sound_def)

lemma mark_any:
  assumes "layout_ok es" "eid < es_max_entities es"
  shows "\<exists>es'. (let es2 = fst (set_live_bit grow eid True es) in put_u32 8 (live_count es2 + 1) es2) = es' \<and>
    layout_ok es' \<and> (es_bits es' = insert (unat eid) (es_bits es) \<or> (\<exists>n. grow n = None) \<and> es_bits es' = es_bits es) \<and>
    es_free es' = es_free es \<and> next_eid es' = next_eid es \<and> es_max_entities es' = es_max_entities es \<and> es_bitset_cap es' = es_bitset_cap es"
  using bit_or_full[of grow eid es] mark_spec[OF assms granted_ok, of grow] put_counter[OF assms(1), of 8 "live_count es + 1"]
  by (fastforce simp: Let_def)

lemma stack_any:
  assumes ok: "layout_ok es" and some: "es_free es \<noteq> []" and lt: "last (es_free es) < unat (es_max_entities es)"
  shows "\<exists>es' eid. allocate_from_free_stack grow es = (es', Some eid) \<and> unat eid = last (es_free es) \<and> layout_ok es' \<and>
    (es_bits es' = insert (unat eid) (es_bits es) \<or> (\<exists>n. grow n = None) \<and> es_bits es' = es_bits es) \<and>
    es_free es' = butlast (es_free es) \<and> next_eid es' = next_eid es \<and> es_max_entities es' = es_max_entities es \<and> es_bitset_cap es' = es_bitset_cap es"
proof -
  let ?fo = "free_offset_for (es_bitset_cap es)" and ?n = "es_free_count es"
  define eid where "eid = u32_at (es_mem es) (?fo + 4 + (?n - 1) * 4)"
  define es1 where "es1 = put_u32 ?fo (word_of_nat (?n - 1)) es"
  have n: "0 < ?n" using some by (metis length_es_free length_greater_0_conv)
  have p: "layout_ok es1" "es_free es1 = butlast (es_free es)" "unat eid = last (es_free es)" "es_bits es1 = es_bits es" "next_eid es1 = next_eid es"
    using pop_stack[OF ok n] put_stack_other[of es ?fo] layout_length[OF ok] by (simp_all add: es1_def eid_def)
  have "eid < es_max_entities es1" using lt p(3) by (simp add: es1_def word_less_nat_alt)
  from mark_any[OF p(1) this, of grow]
  obtain es' where es': "(let es2 = fst (set_live_bit grow eid True es1) in put_u32 8 (live_count es2 + 1) es2) = es'"
      "layout_ok es'" "es_bits es' = insert (unat eid) (es_bits es1) \<or> (\<exists>n. grow n = None) \<and> es_bits es' = es_bits es1" "es_free es' = es_free es1"
      "next_eid es' = next_eid es1" "es_max_entities es' = es_max_entities es1" "es_bitset_cap es' = es_bitset_cap es1"
    by blast
  have nz: "u32_at (es_mem es) ?fo \<noteq> 0" using n by (auto simp: es_free_count_def)
  then have "unat (u32_at (es_mem es) ?fo - 1) = ?n - 1" "u32_at (es_mem es) ?fo - 1 = word_of_nat (?n - 1)"
    using n unat_minus_one[OF nz] by (auto simp: es_free_count_def of_nat_diff)
  with nz have "allocate_from_free_stack grow es = (es', Some eid)"
    using es'(1) by (simp add: allocate_from_free_stack_def es1_def eid_def Let_def)
  then show ?thesis using es'(2-7) p by (auto simp: es1_def)
qed

text \<open>The ids handed out are those of the abstract set whatever the disk does; when a page cannot be
  committed the new id is not marked.\<close>

lemma allocate_any:
  assumes ok: "pool_sound es" and a: "eset_allocate grow es = (es', r)"
  shows "\<exists>p. pool_allocate (unat (es_max_entities es)) (pool_of es) = (p, map_option unat r) \<and>
    (pool_of es' = p \<or> (\<exists>n. grow n = None) \<and> pool_of es' = p\<lparr>ip_live := es_bits es\<rparr>) \<and>
    layout_ok es' \<and> es_max_entities es' = es_max_entities es \<and> es_bitset_cap es' = es_bitset_cap es"
proof (cases "next_eid es < es_max_entities es")
  case True
  have l: "layout_ok es" using ok by (simp add: pool_sound_def)
  note c = put_counter[OF l, of 4 "next_eid es + 1", simplified]
  have "next_eid es < es_max_entities (put_u32 4 (next_eid es + 1) es)" using True by simp
  from mark_any[OF c(1) this, of grow] show ?thesis
    using a True c next_eid_Suc[OF True]
    by (auto simp: eset_allocate_def allocate_tracked_def pool_allocate_def pool_of_def word_less_nat_alt Let_def)
next
  case full: False
  have l: "layout_ok es" and p: "pool_ok (unat (es_max_entities es)) (pool_of es)" using ok by (simp_all add: pool_sound_def)
  obtain es0 where e0: "allocate_tracked grow es = (case allocate_from_free_stack grow es0 of
      (es3, Some e) \<Rightarrow> (es3, Some (e, True)) | (es3, None) \<Rightarrow> (es3, None))" "layout_ok es0"
      "es_bits es0 = es_bits es" "es_free es0 = es_free es" "next_eid es0 = next_eid es"
      "es_max_entities es0 = es_max_entities es" "es_bitset_cap es0 = es_bitset_cap es"
    using allocate_full_undo[OF l full, of grow] by blast
  show ?thesis
  proof (cases "es_free es = []")
    case True
    have "es_free_count es0 = 0" using True e0(4) by (metis length_es_free list.size(3))
    then have "u32_at (es_mem es0) (free_offset_for (es_bitset_cap es0)) = 0" by (simp add: es_free_count_def unat_eq_0)
    then have "r = None" "es' = es0" using e0(1) a by (auto simp: allocate_from_free_stack_def eset_allocate_def)
    then show ?thesis using e0 True full by (auto simp: pool_of_def pool_allocate_def word_less_nat_alt)
  next
    case False
    then have "last (es_free es) \<in> set (es_free es)" by simp
    then have "last (es_free es0) < unat (es_max_entities es0)" using p e0(4,6) by (auto simp: pool_ok_def pool_of_def)
    from stack_any[OF e0(2) _ this, of grow] obtain es1 eid where s: "allocate_from_free_stack grow es0 = (es1, Some eid)"
        "unat eid = last (es_free es)" "layout_ok es1"
        "es_bits es1 = insert (unat eid) (es_bits es) \<or> (\<exists>n. grow n = None) \<and> es_bits es1 = es_bits es" "es_free es1 = butlast (es_free es)"
        "next_eid es1 = next_eid es" "es_max_entities es1 = es_max_entities es" "es_bitset_cap es1 = es_bitset_cap es"
      using False e0 by auto
    have "es' = es1" "r = Some eid" using a e0(1) s(1) by (simp_all add: eset_allocate_def)
    then show ?thesis using s False full by (auto simp: pool_allocate_def pool_of_def word_less_nat_alt)
  qed
qed

lemma free_any:
  fixes eid :: u32
  assumes ok: "pool_sound es"
  defines "p \<equiv> pool_free (free_cap_for (es_bitset_cap es)) (unat eid) (pool_of es)"
  shows "pool_of (eset_free grow eid es) = p \<or> (\<exists>n. grow n = None) \<and> pool_of (eset_free grow eid es) = p\<lparr>ip_free := es_free es\<rparr>"
    "layout_ok (eset_free grow eid es)" "es_max_entities (eset_free grow eid es) = es_max_entities es"
    "es_bitset_cap (eset_free grow eid es) = es_bitset_cap es"
proof -
  have l: "layout_ok es" and po: "pool_ok (unat (es_max_entities es)) (pool_of es)" using ok by (simp_all add: pool_sound_def)
  let ?es' = "eset_free grow eid es"
  have "(pool_of ?es' = p \<or> (\<exists>n. grow n = None) \<and> pool_of ?es' = p\<lparr>ip_free := es_free es\<rparr>) \<and> layout_ok ?es' \<and>
    es_max_entities ?es' = es_max_entities es \<and> es_bitset_cap ?es' = es_bitset_cap es"
  proof (cases "eid < es_max_entities es")
    case False
    then have "?es' = es" by (simp add: eset_free_def set_live_bit_def not_less)
    moreover have "unat eid \<notin> es_bits es" using po False by (auto simp: pool_ok_def pool_of_def word_less_nat_alt)
    ultimately show ?thesis using l by (simp add: p_def pool_free_def pool_of_def)
  next
    case True
    obtain es1 where s: "set_live_bit grow eid False es = (es1, unat eid \<in> es_bits es)" "layout_ok es1"
        "es_bits es1 = es_bits es - {unat eid}" "es_free es1 = es_free es" "next_eid es1 = next_eid es"
        "es_max_entities es1 = es_max_entities es" "es_bitset_cap es1 = es_bitset_cap es"
      using set_bit_spec[OF l True, of False grow] by auto
    show ?thesis
    proof (cases "unat eid \<in> es_bits es")
      case False
      then show ?thesis using s by (simp add: eset_free_def p_def pool_free_def pool_of_def)
    next
      case live: True
      define es2 where "es2 = put_u32 8 (live_count es1 - 1) es1"
      note c = put_counter[OF s(2), of 8 "live_count es1 - 1", simplified, folded es2_def]
      have k: "es_max_entities es2 = es_max_entities es" "es_bitset_cap es2 = es_bitset_cap es" using s by (simp_all add: es2_def)
      have free: "es_free_count es2 = length (es_free es)" using s c by (metis length_es_free)
      have e: "?es' = push_free grow eid es2" using s(1) live by (simp add: eset_free_def es2_def)
      note g = push_freed[OF c(1) granted_ok, of grow eid, unfolded c(2-4) k s(3-5) free]
      from push_or_full[of grow eid es2] show ?thesis
      proof
        assume q: "push_free grow eid es2 = push_free (granted grow) eid es2"
        have "pool_of ?es' = p" unfolding e q using g live by (simp add: p_def pool_of_def pool_free_def)
        then show ?thesis unfolding e q using g by simp
      next
        assume q: "(\<exists>n. grow n = None) \<and> push_free grow eid es2 = es2"
        then have "?es' = es2" using e by simp
        moreover have "pool_of es2 = p\<lparr>ip_free := es_free es\<rparr>" using c s live by (simp add: p_def pool_of_def pool_free_def)
        ultimately show ?thesis using q c k by simp
      qed
    qed
  qed
  then show "pool_of ?es' = p \<or> (\<exists>n. grow n = None) \<and> pool_of ?es' = p\<lparr>ip_free := es_free es\<rparr>"
    "layout_ok ?es'" "es_max_entities ?es' = es_max_entities es" "es_bitset_cap ?es' = es_bitset_cap es" by blast+
qed

section \<open>Scanning the bits\<close>

lemma filter_byte:
  "length (filter (mem_live mm) [8 * b..<8 * b + 8]) = count_ones (mm ! (HEADER + b))"
proof -
  have "[8 * b..<8 * b + 8] = map (\<lambda>i. 8 * b + i) [0..<8]"
    by (simp add: map_add_upt add.commute)
  moreover have "mem_live mm (8 * b + i) \<longleftrightarrow> bit (mm ! (HEADER + b)) i" if "i \<in> set [0..<8]" for i
    using that by (simp add: mem_live_bit eid_byte_def)
  ultimately show ?thesis
    by (auto simp: count_ones_def filter_map comp_def intro!: arg_cong[where f = length] filter_cong)
qed

lemma count_bits_bytes:
  "f \<le> l \<Longrightarrow> count_bits mm (8 * f) (8 * l) = sum_list (map (\<lambda>b. count_ones (mm ! (HEADER + b))) [f..<l])"
proof (induction l)
  case (Suc l)
  show ?case
  proof (cases "f = Suc l")
    case False
    then have le: "f \<le> l" using Suc.prems by simp
    have "[8 * f..<8 * Suc l] = [8 * f..<8 * l] @ [8 * l..<8 * l + 8]"
      using le upt_add_eq_append[of "8 * f" "8 * l" 8] by (simp add: add.commute)
    then show ?thesis
      using Suc.IH[OF le] le filter_byte[of mm l] by (simp add: count_bits_def)
  qed (simp add: count_bits_def)
qed (simp add: count_bits_def)

lemma count_bits_split: "a \<le> b \<Longrightarrow> b \<le> c \<Longrightarrow> count_bits mm a c = count_bits mm a b + count_bits mm b c"
  using upt_add_eq_append[of a b "c - b"] by (simp add: count_bits_def)

lemma and_not_7: "unat ((w :: u32) AND NOT 7) = unat w div 8 * 8"
proof -
  have "w AND NOT 7 = push_bit 3 (drop_bit 3 w)"
  proof (rule bit_word_eqI)
    fix n assume "n < LENGTH(32)"
    have "bit (7 :: u32) n \<longleftrightarrow> n < 3"
      using bit_mask_iff[of 3 n, where 'a = u32] \<open>n < LENGTH(32)\<close> by (simp add: mask_eq_exp_minus_1)
    then show "bit (w AND NOT 7) n = bit (push_bit 3 (drop_bit 3 w)) n"
      using \<open>n < LENGTH(32)\<close> by (auto simp: bit_simps)
  qed
  also have "unat \<dots> = unat w div 8 * 8"
  proof -
    have "unat w div 8 * 8 < 2 ^ 32"
      using unat_bound[of w] le_less_trans[OF div_times_less_eq_dividend[of "unat w" 8]] by simp
    then show ?thesis
      by (simp add: unsigned_push_bit_eq unsigned_drop_bit_eq push_bit_eq_mult drop_bit_eq_div take_bit_nat_eq_self
          unat_word_ariths unat_div)
  qed
  finally show ?thesis .
qed

lemma live_count_in_eq:
  assumes "unat lo + 7 < 2 ^ 32"
  shows "live_count_in lo hi es = count_bits (es_mem es) (unat lo) (unat (min hi (es_max_entities es)))"
proof -
  let ?h = "min hi (es_max_entities es)" and ?mm = "es_mem es"
  have ff: "unat ((lo + 7) AND NOT 7) = (unat lo + 7) div 8 * 8"
    unfolding and_not_7 using assms by (simp add: unat_word_ariths)
  have lf: "unat (?h AND NOT 7) = unat ?h div 8 * 8" by (rule and_not_7)
  show ?thesis
  proof (cases "lo \<ge> ?h \<or> (lo + 7) AND NOT 7 \<ge> ?h")
    case True
    then show ?thesis
      by (auto simp: live_count_in_def Let_def count_bits_def word_le_nat_alt)
  next
    case False
    then have lt: "unat lo < unat ?h" "(unat lo + 7) div 8 * 8 < unat ?h"
      using ff by (auto simp: word_le_nat_alt not_le)
    then have mid: "(unat lo + 7) div 8 \<le> unat ?h div 8" by (simp add: less_eq_div_iff_mult_less_eq)
    have "unat lo \<le> (unat lo + 7) div 8 * 8" by linarith
    then have "count_bits ?mm (unat lo) (unat ?h) = count_bits ?mm (unat lo) ((unat lo + 7) div 8 * 8) +
        (count_bits ?mm (8 * ((unat lo + 7) div 8)) (8 * (unat ?h div 8)) + count_bits ?mm (unat ?h div 8 * 8) (unat ?h))"
      using mid lt count_bits_split[of "unat lo" "(unat lo + 7) div 8 * 8" "unat ?h" ?mm]
        count_bits_split[of "(unat lo + 7) div 8 * 8" "unat ?h div 8 * 8" "unat ?h" ?mm]
      by (simp add: mult.commute)
    then show ?thesis
      using False by (simp add: live_count_in_def Let_def ff[simplified] lf[simplified] count_bits_bytes[OF mid])
  qed
qed

lemma byte_zero_dead: "mm ! eid_byte e = 0 \<Longrightarrow> e div 8 = e' div 8 \<Longrightarrow> \<not> mem_live mm e'"
  by (simp add: mem_live_bit eid_byte_def)

lemma find_rev_upt_skip:
  "lo \<le> m \<Longrightarrow> m \<le> e \<Longrightarrow> (\<And>x. m \<le> x \<Longrightarrow> x < e \<Longrightarrow> \<not> P x) \<Longrightarrow>
    find P (rev [lo..<e]) = find P (rev [lo..<m])"
proof -
  assume a: "lo \<le> m" "m \<le> e" "\<And>x. m \<le> x \<Longrightarrow> x < e \<Longrightarrow> \<not> P x"
  have "find P (xs @ ys) = (case find P xs of None \<Rightarrow> find P ys | Some r \<Rightarrow> Some r)" for xs ys
    by (induction xs) auto
  moreover have "rev [lo..<e] = rev [m..<e] @ rev [lo..<m]"
    using a(1,2) upt_add_eq_append[of lo m "e - m"] by simp
  moreover have "find P (rev [m..<e]) = None" using a(3) by (simp add: find_None_iff)
  ultimately show ?thesis by simp
qed

lemma highest_live_loop_eq:
  "highest_live_loop mm lo e = find (mem_live mm) (rev [lo..<e])"
proof (induction mm lo e rule: highest_live_loop.induct)
  case (1 mm lo e)
  show ?case
  proof (cases "e > lo")
    case gt: True
    let ?e1 = "e - 1" and ?f = "(e - 1) div 8 * 8"
    have list: "rev [lo..<e] = ?e1 # rev [lo..<?e1]" using gt by (cases e) auto
    have dead: "\<not> mem_live mm x" if "mm ! eid_byte ?e1 = 0" "?f \<le> x" "x < e" for x
    proof (rule byte_zero_dead[OF that(1)])
      show "?e1 div 8 = x div 8" using that(2,3) by (auto intro: antisym div_le_mono simp: less_eq_div_iff_mult_less_eq)
    qed
    consider "mm ! eid_byte ?e1 = 0" "?f \<le> lo" | "mm ! eid_byte ?e1 = 0" "\<not> ?f \<le> lo"
      | "mm ! eid_byte ?e1 \<noteq> 0" "mem_live mm ?e1" | "mm ! eid_byte ?e1 \<noteq> 0" "\<not> mem_live mm ?e1" by blast
    then show ?thesis
    proof cases
      case 1
      then show ?thesis
        using gt dead find_rev_upt_skip[of lo lo e "mem_live mm"]
        by (subst highest_live_loop.simps) (simp add: Let_def)
    next
      case 2
      have fe: "?f \<le> e" using div_times_less_eq_dividend[of ?e1 8] by linarith
      have "highest_live_loop mm lo e = highest_live_loop mm lo ?f"
        using gt 2 by (subst highest_live_loop.simps) (simp add: Let_def)
      also have "\<dots> = find (mem_live mm) (rev [lo..<?f])"
        using 1(1)[of ?e1 "mm ! eid_byte ?e1" ?f] gt 2 by simp
      also have "\<dots> = find (mem_live mm) (rev [lo..<e])"
        using find_rev_upt_skip[of lo ?f e "mem_live mm"] 2 fe dead by simp
      finally show ?thesis .
    next
      case 3
      then show ?thesis
        using gt by (subst highest_live_loop.simps) (simp add: Let_def list mem_live_def)
    next
      case 4
      then have "highest_live_loop mm lo e = highest_live_loop mm lo ?e1"
        using gt by (subst highest_live_loop.simps) (simp add: Let_def mem_live_def)
      then show ?thesis
        using 1(2)[of ?e1 "mm ! eid_byte ?e1"] gt 4 by (simp add: list mem_live_def)
    qed
  qed (subst highest_live_loop.simps, simp)
qed

lemma bit_le_to_nat:
  "bit (le_to_nat bs) i \<longleftrightarrow> i < 8 * length bs \<and> bit (bs ! (i div 8)) (i mod 8)"
proof (induction bs arbitrary: i)
  case (Cons b bs)
  have small: "unat b < 2 ^ 8" using unat_bound[of b] by simp
  have high: "\<not> bit (unat b) j" if "8 \<le> j" for j
    using that bit_imp_le_length[of b j] by (auto simp: bit_unsigned_iff)
  have "unat b AND push_bit 8 (le_to_nat bs) = 0"
    using high by (auto simp: bit_eq_iff bit_and_iff bit_push_bit_iff)
  then have "unat b + push_bit 8 (le_to_nat bs) = unat b OR push_bit 8 (le_to_nat bs)"
    by (rule disjunctive_add_eq_or)
  then have "le_to_nat (b # bs) = unat b OR push_bit 8 (le_to_nat bs)"
    by (simp add: push_bit_eq_mult mult.commute)
  then have "bit (le_to_nat (b # bs)) i \<longleftrightarrow> bit (unat b) i \<or> 8 \<le> i \<and> bit (le_to_nat bs) (i - 8)"
    by (simp add: bit_simps)
  also have "\<dots> \<longleftrightarrow> i < 8 * length (b # bs) \<and> bit ((b # bs) ! (i div 8)) (i mod 8)"
  proof (cases "i < 8")
    case True
    then show ?thesis by (simp add: bit_unsigned_iff)
  next
    case False
    then have "i div 8 = Suc ((i - 8) div 8)" "i mod 8 = (i - 8) mod 8" by (auto simp: le_div_geq le_mod_geq)
    then show ?thesis using False high Cons.IH[of "i - 8"] by auto
  qed
  finally show ?case .
qed simp

lemma lowest_bit:
  assumes "w \<noteq> 0"
  shows "bit w (trailing_zeros w)" "trailing_zeros w < 64" "i < trailing_zeros w \<Longrightarrow> \<not> bit w i"
proof -
  let ?P = "\<lambda>i. \<not> bit w i"
  have below: "\<not> bit w i" if "i < trailing_zeros w" for i
  proof -
    have i: "i < length (takeWhile ?P [0..<64])" using that by (simp only: trailing_zeros_def)
    then have "i < 64" using length_takeWhile_le[of ?P "[0..<64]"] by (simp only: length_upt)
    then have "takeWhile ?P [0..<64] ! i = i" using takeWhile_nth[OF i] by (simp only: nth_upt)
    then show ?thesis using set_takeWhileD[OF nth_mem[OF i]] by simp
  qed
  then show "i < trailing_zeros w \<Longrightarrow> \<not> bit w i" .
  obtain j where j: "bit w j" using assms by (auto simp: bit_eq_iff)
  then have "j < 64" "trailing_zeros w \<le> j"
    using bit_imp_le_length[of w j] below[of j] not_le by auto
  then show lt: "trailing_zeros w < 64" by simp
  then have "length (takeWhile ?P [0..<64]) < length [0..<64]" by (simp only: trailing_zeros_def length_upt)
  then have "\<not> ?P ([0..<64] ! length (takeWhile ?P [0..<64]))" by (rule nth_length_takeWhile)
  then show "bit w (trailing_zeros w)"
    using lt by (simp only: trailing_zeros_def[symmetric] nth_upt) simp
qed

lemma bit_clear_lowest:
  assumes "w \<noteq> 0"
  shows "bit (w AND (w - 1)) i \<longleftrightarrow> bit w i \<and> i \<noteq> trailing_zeros w"
proof -
  let ?k = "trailing_zeros w"
  note l = lowest_bit[OF assms]
  define v where "v = w AND NOT (mask (Suc ?k))"
  have bv: "bit v i \<longleftrightarrow> bit w i \<and> i \<noteq> ?k" for i
    using l(1,3) bit_imp_le_length[of w i] by (auto simp: v_def bit_simps less_Suc_eq)
  have "w = v OR push_bit ?k 1"
    using l by (intro bit_word_eqI) (auto simp: bv bit_simps)
  also have "\<dots> = v + push_bit ?k 1"
    using bv by (intro disjunctive_add_eq_or[symmetric]) (auto simp: bit_eq_iff bit_simps)
  finally have "w - 1 = v + mask ?k"
    by (simp add: mask_eq_exp_minus_1 push_bit_eq_mult)
  also have "\<dots> = v OR mask ?k"
    using bv l(3) by (intro disjunctive_add_eq_or) (auto simp: bit_eq_iff bit_simps)
  finally have "bit (w - 1) i \<longleftrightarrow> bit v i \<or> i < ?k" using l(2) by (auto simp: bit_simps)
  then show ?thesis using bv l(3) by (auto simp: bit_simps)
qed

lemma filter_upt_first:
  "k < n \<Longrightarrow> P k \<Longrightarrow> (\<And>i. i < k \<Longrightarrow> \<not> P i) \<Longrightarrow> filter P [0..<n] = k # filter (\<lambda>i. P i \<and> i \<noteq> k) [0..<n]"
proof -
  assume a: "k < n" "P k" "\<And>i. i < k \<Longrightarrow> \<not> P i"
  have u: "[0..<n] = [0..<k] @ k # [Suc k..<n]"
    using a(1) upt_add_eq_append[of 0 k "n - k"] by (simp add: upt_conv_Cons)
  have "filter P [0..<k] = []" "filter (\<lambda>i. P i \<and> i \<noteq> k) [0..<k] = []" using a(3) by simp_all
  moreover have "filter P [Suc k..<n] = filter (\<lambda>i. P i \<and> i \<noteq> k) [Suc k..<n]" by (rule filter_cong) auto
  ultimately show ?thesis using a(2) by (simp add: u)
qed

lemma word_id_nat:
  assumes "64 dvd unat (s :: u32)" "i < 64"
  shows "unat (s + word_of_nat i) = unat s + i"
proof -
  have "unat s + 64 \<le> 2 ^ 32" using assms(1) unat_bound[of s] by (auto elim!: dvdE)
  then show ?thesis using assms(2) by (simp add: unat_word_ariths unat_of_nat take_bit_nat_eq_self)
qed

lemma word_ids_eq:
  "64 dvd unat s \<Longrightarrow> map unat (word_ids s n w) = map ((+) (unat s)) (filter (\<lambda>i. bit w i \<and> unat s + i < unat n) [0..<64])"
proof (induction s n w rule: word_ids.induct)
  case (1 s n w)
  show ?case
  proof (cases "w = 0")
    case True
    then show ?thesis by (simp add: word_ids.simps)
  next
    case nz: False
    let ?k = "trailing_zeros w"
    note l = lowest_bit[OF nz]
    have u: "unat (s + word_of_nat ?k) = unat s + ?k" by (rule word_id_nat[OF 1(2) l(2)])
    show ?thesis
    proof (cases "s + word_of_nat ?k \<ge> n")
      case True
      have none: "filter (\<lambda>i. bit w i \<and> unat s + i < unat n) [0..<64] = []"
        using True l(3) u by (fastforce simp: filter_empty_conv word_le_nat_alt)
      show ?thesis
        using True nz by (subst word_ids.simps) (simp add: Let_def none)
    next
      case False
      then have lt: "unat s + ?k < unat n" using u by (simp add: word_le_nat_alt)
      have "filter (\<lambda>i. bit w i \<and> unat s + i < unat n) [0..<64] =
          ?k # filter (\<lambda>i. (bit w i \<and> unat s + i < unat n) \<and> i \<noteq> ?k) [0..<64]"
        using l lt by (intro filter_upt_first) auto
      also have "\<dots> = ?k # filter (\<lambda>i. bit (w AND (w - 1)) i \<and> unat s + i < unat n) [0..<64]"
        by (simp add: bit_clear_lowest[OF nz] conj_ac del: bit_and_iff)
      finally show ?thesis
        using 1(1)[OF nz refl False 1(2)] False nz u by (subst word_ids.simps) (simp add: Let_def)
    qed
  qed
qed

lemma filter_shift: "filter P [s..<s + m] = map ((+) s) (filter (\<lambda>i. P (s + i)) [0..<m])"
  for s m :: nat
  by (induction m) simp_all

lemma filter_upt_cut:
  "filter (\<lambda>i. Q i \<and> s + i < n) [0..<N] = filter Q [0..<min (n - s) N]" for s n N :: nat
proof (induction N)
  case (Suc N)
  show ?case
  proof (cases "s + N < n")
    case True
    then have "min (n - s) (Suc N) = Suc N" "min (n - s) N = N" by auto
    then show ?thesis using Suc True by simp
  next
    case False
    then have "min (n - s) (Suc N) = min (n - s) N" by auto
    then show ?thesis using Suc False by simp
  qed
qed simp

lemma word_bits:
  assumes "64 dvd s" "HEADER + s div 8 + 8 \<le> length mm" "i < 64"
  shows "bit (from_le_bytes (slice (HEADER + s div 8) (HEADER + s div 8 + 8) mm) :: u64) i \<longleftrightarrow> mem_live mm (s + i)"
proof -
  obtain q where s: "s = 8 * (8 * q)" using assms(1) by (auto elim: dvdE)
  have div: "(s + i) div 8 = 8 * q + i div 8" "(s + i) mod 8 = i mod 8" "s div 8 = 8 * q"
    unfolding s by (simp_all only: div_mult_self4 mod_mult_self4 div_mult_self1_is_m zero_less_numeral
        add.commute[of "8 * (8 * q)"] div_mult_self2 mod_mult_self2 zero_neq_numeral[symmetric] not_False_eq_True
        nonzero_mult_div_cancel_left add.commute[of "i div 8"])
  let ?bs = "slice (HEADER + s div 8) (HEADER + s div 8 + 8) mm"
  have len: "length ?bs = 8" using assms(2) by (simp add: length_slice)
  have "?bs ! (i div 8) = mm ! (HEADER + s div 8 + i div 8)"
    using assms(2,3) by (simp add: slice_def less_mult_imp_div_less)
  then have "bit (le_to_nat ?bs) i \<longleftrightarrow> mem_live mm (s + i)"
    using assms(3) len div by (simp add: bit_le_to_nat mem_live_bit eid_byte_def add.assoc)
  then show ?thesis
    using assms(3) by (simp add: from_le_bytes_def bit_of_nat_iff)
qed

lemma next_word:
  assumes "64 dvd unat (s :: u32)"
  shows "64 dvd unat (s + 64)" "unat s + 64 < 2 ^ 32 \<Longrightarrow> unat (s + 64) = unat s + 64"
proof -
  have "unat (s + 64) = (unat s + 64) mod 2 ^ 32" by (simp add: unat_word_ariths)
  then show "unat s + 64 < 2 ^ 32 \<Longrightarrow> unat (s + 64) = unat s + 64" by simp
  show "64 dvd unat (s + 64)" unfolding \<open>unat (s + 64) = _\<close> using assms by (simp add: dvd_mod_iff)
qed

lemma live_words_eq:
  assumes "64 dvd unat s" "\<And>ws. 64 dvd ws \<Longrightarrow> ws < unat n \<Longrightarrow> HEADER + ws div 8 + 8 \<le> length mm" "unat n \<le> 2 ^ 32 - 64"
  shows "\<exists>ids. live_words mm n s = Some ids \<and> map unat ids = filter (mem_live mm) [unat s..<unat n]"
  using assms
proof (induction "unat n - unat s" arbitrary: s rule: less_induct)
  case less
  show ?case
  proof (cases "s < n")
    case True
    then have lt: "unat s < unat n" by (simp add: word_less_nat_alt)
    let ?off = "HEADER + unat s div 8"
    let ?w = "from_le_bytes (slice ?off (?off + 8) mm) :: u64"
    have len: "?off + 8 \<le> length mm" using less.prems(2)[of "unat s"] less.prems(1) lt by simp
    have bits: "bit ?w i \<longleftrightarrow> mem_live mm (unat s + i)" if "i < 64" for i
      using word_bits[OF less.prems(1) len that] .
    let ?m = "min (unat n - unat s) 64"
    have "filter (\<lambda>i. bit ?w i \<and> unat s + i < unat n) [0..<64] = filter (\<lambda>i. mem_live mm (unat s + i) \<and> unat s + i < unat n) [0..<64]"
      using bits by (intro filter_cong) (simp_all only: set_upt atLeastLessThan_iff)
    also have "\<dots> = filter (\<lambda>i. mem_live mm (unat s + i)) [0..<?m]" by (rule filter_upt_cut)
    finally have "filter (\<lambda>i. bit ?w i \<and> unat s + i < unat n) [0..<64] = filter (\<lambda>i. mem_live mm (unat s + i)) [0..<?m]" .
    then have wi: "map unat (word_ids s n ?w) = filter (mem_live mm) [unat s..<unat s + ?m]"
      unfolding word_ids_eq[OF less.prems(1)] filter_shift by (simp only:)
    have s64: "unat (s + 64) = unat s + 64" using next_word(2)[OF less.prems(1)] lt less.prems(3) by simp
    obtain ids where ids: "live_words mm n (s + 64) = Some ids" "map unat ids = filter (mem_live mm) [unat s + 64..<unat n]"
      using less.hyps[OF _ next_word(1)[OF less.prems(1)] less.prems(2,3), unfolded s64] lt diff_less_mono2[of "unat s" "unat s + 64" "unat n"] by force
    have "[unat s..<unat n] = [unat s..<unat s + ?m] @ [unat s + 64..<unat n]"
      using lt upt_add_eq_append[of "unat s" "unat s + ?m" "unat n - (unat s + ?m)"] by (auto simp: min_def)
    then show ?thesis
      using True len ids wi by (subst live_words.simps) (simp add: Let_def)
  next
    case False
    then show ?thesis by (subst live_words.simps) (simp add: word_less_nat_alt)
  qed
qed

text \<open>A counter that steps by 64 never reaches an end behind its last value.\<close>

lemma word_start_below:
  assumes "64 dvd unat (s :: u32)" "0xFFFFFFC0 < unat n"
  shows "s < n"
proof -
  obtain k where k: "unat s = 64 * k" using assms(1) by (rule dvdE)
  have "64 * k < 2 ^ 32" using unat_bound[of s] k by simp
  then have "64 * k \<le> 0xFFFFFFC0" by simp
  then show ?thesis using assms(2) k unfolding word_less_nat_alt by linarith
qed

definition endless :: "u32 \<Rightarrow> u32 \<Rightarrow> bool" where
  "endless n s \<longleftrightarrow> 64 dvd unat s \<and> 0xFFFFFFC0 < unat n"

lemma endless_word: "endless n s \<Longrightarrow> s < n" "endless n s \<Longrightarrow> endless n (s + 64)"
  using word_start_below next_word(1) by (auto simp only: endless_def)

lemma endless_step:
  assumes "endless n s" "(if \<not> s < n then Some []
     else let off = HEADER + unat s div 8
          in if off + 8 > length mm then None
             else Option.bind r (\<lambda>rest. Some (word_ids s n (from_le_bytes (slice off (off + 8) mm)) @ rest))) = Some ids"
  shows "\<exists>rest. r = Some rest"
  using assms(2) endless_word(1)[OF assms(1)] by (cases r) (simp_all add: Let_def split: if_split_asm)

lemma live_words_endless:
  assumes "live_words mm n s = Some ids"
  shows "\<not> endless n s"
proof (rule live_words.raw_induct[of "\<lambda>mm n s ids. \<not> endless n s", OF _ assms])
  fix f mm n s ids
  assume ih: "\<And>mm n s ids. f mm n s = Some ids \<Longrightarrow> \<not> endless n s"
    and f: "(if \<not> s < n then Some []
     else let off = HEADER + unat s div 8
          in if off + 8 > length mm then None
             else Option.bind (f mm n (s + 64)) (\<lambda>rest. Some (word_ids s n (from_le_bytes (slice off (off + 8) mm)) @ rest))) = Some ids"
  show "\<not> endless n s" using endless_step[OF _ f] endless_word(2) ih by blast
qed

lemma for_each_live_eq:
  assumes "eset_ok es"
  shows "unat (next_eid es) \<le> 0xFFFFFFC0 \<Longrightarrow> \<exists>ids. for_each_live es = Some ids \<and> map unat ids = sorted_list_of_set (es_bits es)"
    "0xFFFFFFC0 < unat (next_eid es) \<Longrightarrow> for_each_live es = None"
proof -
  note d = eset_okD[OF assms] and len = layout_length[OF eset_okD(1)[OF assms]]
  let ?n = "unat (next_eid es)"
  have min: "min (next_eid es) (es_max_entities es) = next_eid es" using d(3) by (simp add: min_def)
  have cap: "?n \<le> unat (es_bitset_cap es)"
    using d(3) layout_okD(2)[OF d(1)] by (simp add: word_le_nat_alt)
  have room: "HEADER + ws div 8 + 8 \<le> length (es_mem es)" if "ws < ?n" for ws
  proof -
    have "ws div 8 < bitset_bytes (es_bitset_cap es)" "0 < free_cap_for (es_bitset_cap es)"
      using that cap by (auto simp: bitset_bytes_def free_cap_for_def)
    then show ?thesis using len free_offset_ge(1)[of "es_bitset_cap es"] by linarith
  qed
  have bits: "filter (mem_live (es_mem es)) [0..<?n] = sorted_list_of_set (es_bits es)"
  proof (rule sorted_distinct_set_unique)
    show "set (filter (mem_live (es_mem es)) [0..<?n]) = set (sorted_list_of_set (es_bits es))"
      using d(2,7) cap bitset_bound[of _ "es_bitset_cap es"] by (auto simp: es_bits_def)
  qed (simp_all add: sorted_wrt_filter)
  show "?n \<le> 0xFFFFFFC0 \<Longrightarrow> \<exists>ids. for_each_live es = Some ids \<and> map unat ids = sorted_list_of_set (es_bits es)"
    using live_words_eq[of 0 "next_eid es" "es_mem es"] room bits by (simp add: for_each_live_def min)
  show "0xFFFFFFC0 < ?n \<Longrightarrow> for_each_live es = None"
    using live_words_endless[of "es_mem es" "next_eid es" 0] by (cases "for_each_live es") (simp_all add: for_each_live_def min endless_def)
qed

lemma is_live_bits:
  assumes "eset_ok es"
  shows "is_live eid es \<longleftrightarrow> unat eid \<in> es_bits es"
  using not_live_beyond[OF assms, of eid] layout_okD(2)[OF eset_okD(1)[OF assms]] bitset_bound[of "unat eid" "es_bitset_cap es"]
  by (auto simp: is_live_def es_bits_def word_less_nat_alt word_le_nat_alt)

section \<open>Handing out ids\<close>

text \<open>
  The contract of a source of ids: what a client that allocates and releases ids relies on. A
  session is the client; it keeps the ids it was given and has not released. Each request runs in
  its own environment (what the disk does at that moment).
\<close>

datatype ('g, 'i) request = Allocate 'g | Release 'g 'i

fun req_env :: "('g, 'i) request \<Rightarrow> 'g" where
  "req_env (Allocate g) = g"
| "req_env (Release g i) = g"

fun session ::
  "('g \<Rightarrow> 's \<Rightarrow> 's \<times> 'i option) \<Rightarrow> ('g \<Rightarrow> 'i \<Rightarrow> 's \<Rightarrow> 's) \<Rightarrow> ('g, 'i) request list \<Rightarrow> 's \<times> 'i list \<Rightarrow> 's \<times> 'i list" where
  "session alloc release [] (s, held) = (s, held)"
| "session alloc release (Allocate g # rs) (s, held) = (case alloc g s of
       (s', Some i) \<Rightarrow> session alloc release rs (s', i # held)
     | (s', None) \<Rightarrow> session alloc release rs (s', held))"
| "session alloc release (Release g i # rs) (s, held) =
     session alloc release rs (release g i s, removeAll i held)"

text \<open>An id is available until it is given out and again only after it was released.\<close>

locale id_source =
  fixes inv :: "'s \<Rightarrow> bool" and avail :: "'s \<Rightarrow> 'i set" and alloc :: "'g \<Rightarrow> 's \<Rightarrow> 's \<times> 'i option"
    and release :: "'g \<Rightarrow> 'i \<Rightarrow> 's \<Rightarrow> 's"
  assumes alloc_inv: "inv s \<Longrightarrow> alloc g s = (s', r) \<Longrightarrow> inv s'"
    and alloc_some: "inv s \<Longrightarrow> alloc g s = (s', Some i) \<Longrightarrow> i \<in> avail s \<and> avail s' \<subseteq> avail s - {i}"
    and alloc_none: "inv s \<Longrightarrow> alloc g s = (s', None) \<Longrightarrow> avail s' \<subseteq> avail s"
    and release_inv: "inv s \<Longrightarrow> inv (release g i s)"
    and release_avail: "inv s \<Longrightarrow> avail (release g i s) \<subseteq> insert i (avail s)"
begin

lemma session_distinct:
  assumes "inv s" "distinct held" "set held \<inter> avail s = {}" "session alloc release rs (s, held) = (s', held')"
  shows "inv s' \<and> distinct held' \<and> set held' \<inter> avail s' = {}"
  using assms
proof (induction rs arbitrary: s held)
  case (Cons r rs)
  show ?case
  proof (cases r)
    case (Allocate g)
    obtain s1 o1 where a: "alloc g s = (s1, o1)" by fastforce
    have i: "inv s1" using alloc_inv[OF Cons.prems(1) a] .
    show ?thesis
    proof (cases o1)
      case None
      then have "set held \<inter> avail s1 = {}" using Cons.prems(3) alloc_none[OF Cons.prems(1)] a by blast
      then show ?thesis using Cons.IH[OF i Cons.prems(2)] Cons.prems(4) Allocate a None by simp
    next
      case (Some x)
      then have x: "x \<in> avail s" "avail s1 \<subseteq> avail s - {x}" using alloc_some[OF Cons.prems(1)] a by blast+
      then have "distinct (x # held)" "set (x # held) \<inter> avail s1 = {}" using Cons.prems(2,3) by auto
      then show ?thesis using Cons.IH[OF i, of "x # held"] Cons.prems(4) Allocate a Some by simp
    qed
  next
    case (Release g x)
    have "set (removeAll x held) \<inter> avail (release g x s) = {}" using Cons.prems(3) release_avail[OF Cons.prems(1), of g x] by auto
    then show ?thesis
      using Cons.IH[OF release_inv[OF Cons.prems(1)], of "removeAll x held" g x] Cons.prems(2,4) Release by (simp add: distinct_removeAll)
  qed
qed simp

end

text \<open>With room on the disk the ids given out are also live.\<close>

locale id_allocator =
  fixes inv :: "'s \<Rightarrow> bool" and live :: "'s \<Rightarrow> 'i set" and alloc :: "'g \<Rightarrow> 's \<Rightarrow> 's \<times> 'i option"
    and release :: "'g \<Rightarrow> 'i \<Rightarrow> 's \<Rightarrow> 's" and room :: "'g \<Rightarrow> bool"
  assumes alloc_inv: "inv s \<Longrightarrow> room g \<Longrightarrow> alloc g s = (s', r) \<Longrightarrow> inv s'"
    and alloc_some: "inv s \<Longrightarrow> room g \<Longrightarrow> alloc g s = (s', Some i) \<Longrightarrow> i \<notin> live s \<and> live s' = insert i (live s)"
    and alloc_none: "inv s \<Longrightarrow> room g \<Longrightarrow> alloc g s = (s', None) \<Longrightarrow> live s' = live s"
    and release_inv: "inv s \<Longrightarrow> room g \<Longrightarrow> inv (release g i s)"
    and release_live: "inv s \<Longrightarrow> room g \<Longrightarrow> live (release g i s) = live s - {i}"
begin

lemma session_holds_live:
  assumes "inv s" "set held \<subseteq> live s" "\<forall>r \<in> set rs. room (req_env r)" "session alloc release rs (s, held) = (s', held')"
  shows "inv s' \<and> set held' \<subseteq> live s'"
  using assms
proof (induction rs arbitrary: s held)
  case (Cons r rs)
  show ?case
  proof (cases r)
    case (Allocate g)
    have g: "room g" using Cons.prems(3) Allocate by simp
    obtain s1 o1 where a: "alloc g s = (s1, o1)" by fastforce
    have i: "inv s1" using alloc_inv[OF Cons.prems(1) g a] .
    show ?thesis
    proof (cases o1)
      case None
      then show ?thesis
        using Cons.IH[OF i, of held] Cons.prems Allocate a alloc_none[of s g s1] g by simp
    next
      case (Some x)
      then show ?thesis
        using Cons.IH[OF i, of "x # held"] Cons.prems Allocate a alloc_some[of s g s1 x] g by auto
    qed
  next
    case (Release g x)
    have g: "room g" using Cons.prems(3) Release by simp
    show ?thesis
      using Cons.IH[OF release_inv[OF Cons.prems(1) g], of "removeAll x held" x] Cons.prems Release
        release_live[OF Cons.prems(1) g, of x]
      by auto
  qed
qed simp

end

text \<open>The entity set provides the first contract always and the second while the disk is not full.\<close>

definition free_ids :: "entity_set \<Rightarrow> u32 set" where
  "free_ids es = {e. next_eid es \<le> e \<or> unat e \<in> set (es_free es)}"

definition pool_free_ids :: "id_pool \<Rightarrow> nat set" where
  "pool_free_ids p = {e. ip_next p \<le> e} \<union> set (ip_free p)"

lemma free_ids_pool: "e \<in> free_ids es \<longleftrightarrow> unat e \<in> pool_free_ids (pool_of es)"
  by (simp add: free_ids_def pool_free_ids_def pool_of_def word_le_nat_alt)

lemma pool_allocate_ids:
  assumes "pool_ok n p" "pool_allocate n p = (p', r)"
  shows "pool_ok n p'" "case r of None \<Rightarrow> p' = p | Some i \<Rightarrow> i \<in> pool_free_ids p \<and> pool_free_ids p' \<subseteq> pool_free_ids p - {i} \<and> ip_live p \<subseteq> ip_live p'"
proof -
  have "pool_ok n p' \<and> (case r of None \<Rightarrow> p' = p | Some i \<Rightarrow> i \<in> pool_free_ids p \<and> pool_free_ids p' \<subseteq> pool_free_ids p - {i} \<and> ip_live p \<subseteq> ip_live p')"
  proof (cases "ip_next p < n \<or> ip_free p = []")
    case True
    then show ?thesis using assms by (auto simp: pool_allocate_def pool_ok_def pool_free_ids_def split: if_splits)
  next
    case False
    then have l: "last (ip_free p) \<in> set (ip_free p)" by simp
    have f: "ip_free p = butlast (ip_free p) @ [last (ip_free p)]" using False by simp
    have "distinct (butlast (ip_free p) @ [last (ip_free p)])" using assms(1) by (subst f[symmetric]) (simp add: pool_ok_def)
    then have d: "distinct (butlast (ip_free p))" "last (ip_free p) \<notin> set (butlast (ip_free p))" by (simp_all only: distinct_append) auto
    have "\<forall>x \<in> set (ip_free p). x < ip_next p \<and> x \<notin> ip_live p" "\<forall>x \<in> ip_live p. x < ip_next p" "ip_next p \<le> n" "\<not> ip_next p \<le> last (ip_free p)"
      using assms(1) l by (auto simp: pool_ok_def not_le)
    then show ?thesis
      using assms(2) False l d in_set_butlastD[of _ "ip_free p"] by (auto simp: pool_allocate_def pool_ok_def pool_free_ids_def)
  qed
  then show "pool_ok n p'" "case r of None \<Rightarrow> p' = p | Some i \<Rightarrow> i \<in> pool_free_ids p \<and> pool_free_ids p' \<subseteq> pool_free_ids p - {i} \<and> ip_live p \<subseteq> ip_live p'"
    by blast+
qed

lemma pool_fewer_live: "pool_ok n p \<Longrightarrow> L \<subseteq> ip_live p \<Longrightarrow> pool_ok n (p\<lparr>ip_live := L\<rparr>)"
  by (auto simp: pool_ok_def)

lemma pool_free_ok: "pool_ok n p \<Longrightarrow> pool_ok n (pool_free c e p) \<and> pool_free_ids (pool_free c e p) \<subseteq> insert e (pool_free_ids p)"
  by (auto simp: pool_ok_def pool_free_def pool_free_ids_def)

lemma pool_fewer_free: "pool_ok n (pool_free c e p) \<Longrightarrow> pool_ok n p \<Longrightarrow> pool_ok n ((pool_free c e p)\<lparr>ip_free := ip_free p\<rparr>)"
  by (auto simp: pool_ok_def pool_free_def split: if_splits)

lemma allocate_ids:
  assumes ok: "pool_sound es" and a: "eset_allocate g es = (es', r)"
  shows "pool_sound es'" "case r of None \<Rightarrow> free_ids es' \<subseteq> free_ids es | Some i \<Rightarrow> i \<in> free_ids es \<and> free_ids es' \<subseteq> free_ids es - {i}"
proof -
  have po: "pool_ok (unat (es_max_entities es)) (pool_of es)" using ok by (simp add: pool_sound_def)
  obtain p where p: "pool_allocate (unat (es_max_entities es)) (pool_of es) = (p, map_option unat r)"
    "pool_of es' = p \<or> pool_of es' = p\<lparr>ip_live := es_bits es\<rparr>" "layout_ok es'" "es_max_entities es' = es_max_entities es"
    using allocate_any[OF ok a] by blast
  note q = pool_allocate_ids[OF po p(1)]
  have "es_bits es \<subseteq> ip_live p" using q(2) by (cases r) (auto simp: pool_of_def)
  then have "pool_ok (unat (es_max_entities es)) (pool_of es')" using q(1) p(2) pool_fewer_live by metis
  then show "pool_sound es'" using p(3,4) by (simp add: pool_sound_def)
  have ids: "pool_free_ids (pool_of es') = pool_free_ids p" using p(2) by (auto simp: pool_free_ids_def)
  show "case r of None \<Rightarrow> free_ids es' \<subseteq> free_ids es | Some i \<Rightarrow> i \<in> free_ids es \<and> free_ids es' \<subseteq> free_ids es - {i}"
    using q(2) by (cases r) (auto simp: free_ids_pool ids)
qed

lemma release_ids:
  assumes ok: "pool_sound es"
  shows "pool_sound (eset_free g i es)" "free_ids (eset_free g i es) \<subseteq> insert i (free_ids es)"
proof -
  have po: "pool_ok (unat (es_max_entities es)) (pool_of es)" using ok by (simp add: pool_sound_def)
  note f = free_any[OF ok, of g i]
  let ?p = "pool_free (free_cap_for (es_bitset_cap es)) (unat i) (pool_of es)"
  note pf = pool_free_ok[OF po, of "free_cap_for (es_bitset_cap es)" "unat i"]
  have eq: "pool_of (eset_free g i es) = ?p \<or> pool_of (eset_free g i es) = ?p\<lparr>ip_free := ip_free (pool_of es)\<rparr>"
    using f(1) by (auto simp: pool_of_def)
  then have "pool_ok (unat (es_max_entities es)) (pool_of (eset_free g i es))"
    using pf pool_fewer_free[OF conjunct1[OF pf] po] by metis
  then show "pool_sound (eset_free g i es)" using f(2,3) by (simp add: pool_sound_def)
  have "ip_next ?p = ip_next (pool_of es)" by (simp add: pool_free_def)
  then have "pool_free_ids (pool_of (eset_free g i es)) \<subseteq> insert (unat i) (pool_free_ids (pool_of es))"
    using eq pf by (auto simp: pool_free_ids_def)
  then show "free_ids (eset_free g i es) \<subseteq> insert i (free_ids es)"
    by (auto simp: free_ids_pool word_unat_eq_iff)
qed

interpretation eset_ids: id_source pool_sound free_ids eset_allocate eset_free
  using allocate_ids release_ids by unfold_locales fastforce+

definition live_eids :: "entity_set \<Rightarrow> u32 set" where
  "live_eids es = {e. is_live e es}"

lemma live_eids_bits: "eset_ok es \<Longrightarrow> live_eids es = {e. unat e \<in> es_bits es}"
  by (simp add: live_eids_def is_live_bits)

lemma pool_allocate_some:
  assumes "pool_ok n p" "pool_allocate n p = (p', Some i)"
  shows "i \<notin> ip_live p \<and> ip_live p' = insert i (ip_live p)"
proof (cases "ip_next p < n \<or> ip_free p = []")
  case True
  then show ?thesis using assms by (auto simp: pool_allocate_def pool_ok_def split: if_splits)
next
  case False
  then have "last (ip_free p) \<in> set (ip_free p)" by simp
  then have "last (ip_free p) \<notin> ip_live p" using assms(1) by (auto simp: pool_ok_def)
  then show ?thesis using assms False by (auto simp: pool_allocate_def)
qed

lemma pool_allocate_none: "pool_allocate n p = (p', None) \<Longrightarrow> p' = p"
  by (auto simp: pool_allocate_def split: if_splits)

lemma live_after_free:
  assumes "eset_ok es" "\<forall>n. grow n \<noteq> None"
  shows "live_eids (eset_free grow i es) = live_eids es - {i}"
proof -
  have "ip_live (pool_free n e p) = ip_live p - {e}" for n e p by (simp add: pool_free_def)
  then have "es_bits (eset_free grow i es) = es_bits es - {unat i}"
    using arg_cong[OF conjunct2[OF conjunct2[OF conjunct2[OF free_pool[OF assms, of i]]]], of ip_live]
    by (simp add: pool_of_def)
  then show ?thesis
    using assms(1) conjunct1[OF free_pool[OF assms, of i]] by (simp add: live_eids_bits set_eq_iff word_unat_eq_iff)
qed

lemma live_after_allocate:
  assumes "eset_ok es" "\<forall>n. grow n \<noteq> None" "eset_allocate grow es = (es', r)"
  shows "case r of None \<Rightarrow> live_eids es' = live_eids es
    | Some i \<Rightarrow> i \<notin> live_eids es \<and> live_eids es' = insert i (live_eids es)"
proof -
  have a: "eset_ok es'" "pool_allocate (unat (es_max_entities es)) (pool_of es) = (pool_of es', map_option unat r)"
    using allocate_pool[OF assms] by auto
  show ?thesis
  proof (cases r)
    case None
    then have "pool_of es' = pool_of es" using a(2) pool_allocate_none by simp
    then show ?thesis using None assms(1) a(1) by (simp add: live_eids_bits pool_of_def)
  next
    case (Some i)
    have "pool_ok (unat (es_max_entities es)) (pool_of es)" using assms(1) by (simp add: eset_ok_def)
    then have "unat i \<notin> es_bits es" "es_bits es' = insert (unat i) (es_bits es)"
      using pool_allocate_some[of _ "pool_of es" "pool_of es'" "unat i"] a(2) Some by (simp_all add: pool_of_def)
    then show ?thesis using Some assms(1) a(1) by (simp add: live_eids_bits set_eq_iff word_unat_eq_iff)
  qed
qed

interpretation eset_live: id_allocator eset_ok live_eids eset_allocate eset_free "\<lambda>g. \<forall>n. g n \<noteq> None"
proof
  fix es es' :: entity_set and r and i :: u32 and g :: grower
  assume ok: "eset_ok es" and g: "\<forall>n. g n \<noteq> None"
  show "eset_allocate g es = (es', r) \<Longrightarrow> eset_ok es'"
    using allocate_pool[OF ok g] by blast
  show "eset_ok (eset_free g i es)"
    using free_pool[OF ok g] by blast
  show "live_eids (eset_free g i es) = live_eids es - {i}"
    by (rule live_after_free[OF ok g])
  show "eset_allocate g es = (es', Some i) \<Longrightarrow> i \<notin> live_eids es \<and> live_eids es' = insert i (live_eids es)"
    using live_after_allocate[OF ok g, of es' "Some i"] by simp
  show "eset_allocate g es = (es', None) \<Longrightarrow> live_eids es' = live_eids es"
    using live_after_allocate[OF ok g, of es' None] by simp
qed

section \<open>A new set\<close>

lemma le_to_nat_zeros: "le_to_nat (replicate n 0) = 0"
  by (induction n) simp_all

lemma u32_at_zeros: "(\<And>k. off \<le> k \<Longrightarrow> k < off + 4 \<Longrightarrow> m ! k = 0) \<Longrightarrow> off + 4 \<le> length m \<Longrightarrow> u32_at m off = 0"
proof -
  assume a: "\<And>k. off \<le> k \<Longrightarrow> k < off + 4 \<Longrightarrow> m ! k = 0" "off + 4 \<le> length m"
  have "slice off (off + 4) m = replicate 4 0"
    using a by (intro nth_equalityI) (auto simp: slice_def)
  then show ?thesis by (simp add: u32_at_def from_le_bytes_def le_to_nat_zeros)
qed

lemma fresh_set:
  fixes grow :: grower
  assumes "m \<le> cap" "HEADER \<le> c"
  defines "es \<equiv> eset_init grow \<lparr>rg_mem = replicate (region_size cap) 0, rg_committed = c\<rparr> m cap"
  shows "eset_ok es" "es_bits es = {}" "es_max_entities es = m" "next_eid es = 0" "es_free es = []"
proof -
  have e: "es_mem es = put_at 12 (to_le_bytes cap) (put_at 0 ENT_MAGIC (replicate (region_size cap) 0))"
    "es_max_entities es = m" "es_bitset_cap es = cap" "rg_committed (es_region es) = c"
    using assms by (simp_all add: es_def eset_init_def es_mem_def write_at_def ensure_committed_def is_committed_def
        max_absorb1 Let_def)
  have sz: "HEADER + 4 \<le> region_size cap" using free_offset_ge(2)[of cap] by (simp add: region_size_def)
  have len: "length (es_mem es) = region_size cap" using sz by (simp add: e length_put_at ENT_MAGIC_def)
  have zero: "es_mem es ! k = 0" if "4 \<le> k" "k < 12 \<or> 16 \<le> k" "k < region_size cap" for k
    using that sz by (auto simp: e nth_put_at_before nth_put_at_after length_put_at ENT_MAGIC_def)
  have "u32_at (es_mem es) 4 = 0" "u32_at (es_mem es) 8 = 0" "u32_at (es_mem es) (free_offset_for cap) = 0"
    using sz zero len free_offset_ge(2)[of cap] by (auto simp: region_size_def intro!: u32_at_zeros)
  then have words: "next_eid es = 0" "live_count es = 0" "es_free_count es = 0"
    by (simp_all add: next_eid_def live_count_def es_free_count_def e(3))
  have "es_mem es ! eid_byte k = 0" if "k < 8 * bitset_bytes cap" for k
    using eid_byte_bound[OF that] eid_byte_ge[of k] by (intro zero) (auto simp: region_size_def)
  then show "es_bits es = {}"
    by (auto simp: es_bits_def mem_live_def e(3))
  have "layout_ok es"
    using assms(1,2) zero len words by (simp add: layout_ok_def e)
  then show "eset_ok es"
    using words \<open>es_bits es = {}\<close> by (intro eset_okI) (simp_all add: es_free_def)
  show "es_max_entities es = m" "next_eid es = 0" "es_free es = []" using e words by (simp_all add: es_free_def)
qed

lemma sample_set:
  "\<exists>es. eset_ok es \<and> es_bits es = {0} \<and> next_eid es = es_max_entities es \<and> next_eid es = 1 \<and>
     es_free_count es < free_cap_for (es_bitset_cap es)"
proof -
  let ?es = "eset_init Some \<lparr>rg_mem = replicate (region_size 9) 0, rg_committed = HEADER\<rparr> 1 9"
  have f: "eset_ok ?es" "es_bits ?es = {}" "es_max_entities ?es = 1" "next_eid ?es = 0" "es_free ?es = []"
    using fresh_set[of 1 9 HEADER Some] by simp_all
  have cap: "es_bitset_cap ?es = 9" by (simp add: eset_init_def Let_def)
  obtain es' r where a: "eset_allocate Some ?es = (es', r)" by fastforce
  have "eset_ok es'" "pool_allocate 1 (pool_of ?es) = (pool_of es', map_option unat r)"
      "es_max_entities es' = 1" "es_bitset_cap es' = 9"
    using allocate_pool[OF f(1), of Some] a f(3) cap by simp_all
  moreover from this(2) have "es_bits es' = {0}" "unat (next_eid es') = 1" "es_free es' = []"
    using f by (auto simp: pool_allocate_def pool_of_def)
  moreover have "es_free_count es' = 0" using \<open>es_free es' = []\<close> by (metis length_es_free list.size(3))
  moreover have "next_eid es' = 1" using \<open>unat (next_eid es') = 1\<close> by (simp add: word_unat_eq_iff)
  ultimately show ?thesis by (intro exI[of _ es']) (simp add: free_cap_for_def)
qed

text \<open>An id that is freed and then marked live again is live and still on the stack.\<close>

lemma revived_stays_stacked:
  assumes ok: "eset_ok es" and g: "\<forall>n. grow n \<noteq> None" and live: "is_live eid es"
    and room: "es_free_count es < free_cap_for (es_bitset_cap es)"
  defines "es2 \<equiv> ensure_live grow eid (eset_free grow eid es)"
  shows "layout_ok es2" "is_live eid es2" "es_free es2 = es_free es @ [unat eid]" "next_eid es2 = next_eid es"
    "es_max_entities es2 = es_max_entities es"
proof -
  define es1 where "es1 = eset_free grow eid es"
  have bits: "unat eid \<in> es_bits es" using live is_live_bits[OF ok] by simp
  have fp: "eset_ok es1" "es_max_entities es1 = es_max_entities es" "es_bitset_cap es1 = es_bitset_cap es"
      "pool_of es1 = pool_free (free_cap_for (es_bitset_cap es)) (unat eid) (pool_of es)"
    using free_pool[OF ok g, of eid] by (simp_all add: es1_def)
  then have f: "es_bits es1 = es_bits es - {unat eid}" "es_free es1 = es_free es @ [unat eid]" "next_eid es1 = next_eid es"
    using bits room by (auto simp: pool_of_def pool_free_def word_unat_eq_iff)
  have lt: "eid < es_max_entities es1" using live fp(2) by (simp add: is_live_def)
  obtain es3 where s: "set_live_bit grow eid True es1 = (es3, False)" "layout_ok es3"
      "es_bits es3 = insert (unat eid) (es_bits es1)" "es_free es3 = es_free es1" "next_eid es3 = next_eid es1"
      "es_max_entities es3 = es_max_entities es1" "es_bitset_cap es3 = es_bitset_cap es1"
    using set_bit_spec[OF eset_okD(1)[OF fp(1)] lt, of True grow] g f by auto
  note c = put_counter[OF s(2), of 8 "live_count es3 + 1", simplified]
  have "eid < next_eid es" using eset_okD(2)[OF ok] bits by (auto simp: word_less_nat_alt)
  then have es2: "es2 = put_u32 8 (live_count es3 + 1) es3"
    using s lt c f by (simp add: es2_def es1_def[symmetric] ensure_live_def Let_def not_le[symmetric])
  show "layout_ok es2" "es_free es2 = es_free es @ [unat eid]" "next_eid es2 = next_eid es"
    "es_max_entities es2 = es_max_entities es"
    using c s f fp by (simp_all add: es2)
  have "unat eid \<in> es_bits es2" using c s by (simp add: es2)
  then show "is_live eid es2" using lt s by (simp add: es_bits_def is_live_def es2)
qed

lemma stacked_is_handed_out:
  assumes "layout_ok es" "\<forall>n. grow n \<noteq> None" "next_eid es = es_max_entities es"
    and "es_free es = fs @ [unat eid]" "eid < es_max_entities es"
  shows "snd (eset_allocate grow es) = Some eid"
proof -
  obtain es0 where e0: "allocate_tracked grow es = (case allocate_from_free_stack grow es0 of
        (es3, Some e) \<Rightarrow> (es3, Some (e, True)) | (es3, None) \<Rightarrow> (es3, None))" "layout_ok es0"
        "es_free es0 = es_free es" "es_max_entities es0 = es_max_entities es"
    using allocate_full_undo[OF assms(1), of grow] assms(3) by auto
  then obtain es' eid' where "allocate_from_free_stack grow es0 = (es', Some eid')" "unat eid' = unat eid"
    using stack_allocate[OF e0(2) assms(2)] assms(4,5) by (auto simp: word_less_nat_alt)
  then show ?thesis using e0(1) by (simp add: eset_allocate_def word_unat_eq_iff)
qed

lemma live_below_max:
  assumes "eset_ok es"
  shows "e < unat (es_max_entities es) \<and> mem_live (es_mem es) e \<longleftrightarrow> e \<in> es_bits es"
  using eset_okD(2,3)[OF assms] layout_okD(2)[OF eset_okD(1)[OF assms]] bitset_bound[of e "es_bitset_cap es"]
  by (auto simp: es_bits_def word_le_nat_alt)

lemma live_range:
  assumes "eset_ok es"
  shows "{e \<in> es_bits es. unat lo \<le> e \<and> e < unat hi} =
    {e. unat lo \<le> e \<and> e < unat (min hi (es_max_entities es)) \<and> mem_live (es_mem es) e}"
proof -
  have "unat (min hi (es_max_entities es)) = min (unat hi) (unat (es_max_entities es))"
    by (simp add: min_def word_le_nat_alt)
  then show ?thesis
    unfolding live_below_max[OF assms, symmetric] by (simp add: conj_ac)
qed

lemma live_count_in_card:
  assumes "eset_ok es" "unat lo + 7 < 2 ^ 32"
  shows "live_count_in lo hi es = card {e \<in> es_bits es. unat lo \<le> e \<and> e < unat hi}"
proof -
  let ?xs = "filter (mem_live (es_mem es)) [unat lo..<unat (min hi (es_max_entities es))]"
  have "card (set ?xs) = length ?xs" by (rule distinct_card) simp
  moreover have "set ?xs = {e. unat lo \<le> e \<and> e < unat (min hi (es_max_entities es)) \<and> mem_live (es_mem es) e}"
    by auto
  ultimately show ?thesis
    unfolding live_count_in_eq[OF assms(2)] live_range[OF assms(1)] count_bits_def by simp
qed

lemma find_rev_upt_Max:
  "find P (rev [lo..<hi]) = (if {e. lo \<le> e \<and> e < hi \<and> P e} = {} then None
     else Some (Max {e. lo \<le> e \<and> e < hi \<and> P e}))" for lo hi :: nat
proof (induction hi)
  case (Suc hi)
  show ?case
  proof (cases "lo \<le> hi \<and> P hi")
    case True
    then have "Max {e. lo \<le> e \<and> e < Suc hi \<and> P e} = hi" by (intro Max_eqI) auto
    then show ?thesis using True by auto
  next
    case False
    then have "{e. lo \<le> e \<and> e < Suc hi \<and> P e} = {e. lo \<le> e \<and> e < hi \<and> P e}" by (auto simp: less_Suc_eq)
    then show ?thesis using False Suc by auto
  qed
qed simp

lemma highest_live_in_eq:
  assumes "eset_ok es"
  shows "highest_live_in lo hi es = (let live = {e \<in> es_bits es. unat lo \<le> e \<and> e < unat hi}
    in if live = {} then None else Some (Max live))"
  unfolding live_range[OF assms] Let_def
  by (auto simp: highest_live_in_def highest_live_loop_eq find_rev_upt_Max word_le_nat_alt Let_def)

section \<open>Properties\<close>

text \<open>
  C20. The byte-level set implements the abstract one, whatever the disk does: allocating takes the
  next id while the limit is not reached and then the last freed one, and reports a full set only
  when both are used up; freeing removes the id and stacks it while the stack has room. Only a
  disk that is full can make a difference: an allocated id may then not be marked live, and a
  freed one not be stacked. With room on the disk both operations keep the invariant (the live
  count is the number of set bits, every live and every stacked id is below the next id, no
  stacked id is live).
\<close>

theorem entity_set_refines_pool:
  assumes "eset_ok es"
  shows "(case eset_allocate grow es of (es', r) \<Rightarrow>
      (\<exists>p. pool_allocate (unat (es_max_entities es)) (pool_of es) = (p, map_option unat r) \<and>
        (pool_of es' = p \<or> (\<exists>n. grow n = None) \<and> pool_of es' = p\<lparr>ip_live := es_bits es\<rparr>)) \<and>
      ((\<forall>n. grow n \<noteq> None) \<longrightarrow> eset_ok es')) \<and>
    (let p = pool_free (free_cap_for (es_bitset_cap es)) (unat eid) (pool_of es); es' = eset_free grow eid es
     in (pool_of es' = p \<or> (\<exists>n. grow n = None) \<and> pool_of es' = p\<lparr>ip_free := es_free es\<rparr>) \<and>
       ((\<forall>n. grow n \<noteq> None) \<longrightarrow> eset_ok es'))"
proof -
  note s = eset_ok_sound[OF assms]
  obtain es' r where a: "eset_allocate grow es = (es', r)" by (metis surj_pair)
  have "\<exists>p. pool_allocate (unat (es_max_entities es)) (pool_of es) = (p, map_option unat r) \<and>
      (pool_of es' = p \<or> (\<exists>n. grow n = None) \<and> pool_of es' = p\<lparr>ip_live := es_bits es\<rparr>)"
    using allocate_any[OF s a] by blast
  moreover have "(\<forall>n. grow n \<noteq> None) \<longrightarrow> eset_ok es'" using allocate_pool[OF assms _ a] by blast
  ultimately show ?thesis
    using a free_any(1)[OF s, of grow eid] free_pool[OF assms, of grow eid] by (auto simp: Let_def)
qed

theorem entity_set_refines_pool_witness:
  "\<exists>es es'. eset_ok es \<and> eset_allocate Some es = (es', Some 0) \<and> eset_ok es' \<and> es_bits es' = {0}"
proof -
  let ?es = "eset_init Some \<lparr>rg_mem = replicate (region_size 9) 0, rg_committed = HEADER\<rparr> 5 9"
  have f: "eset_ok ?es" "es_bits ?es = {}" "es_max_entities ?es = 5" "next_eid ?es = 0"
    using fresh_set[of 5 9 HEADER Some] by simp_all
  obtain es' r where a: "eset_allocate Some ?es = (es', r)" by fastforce
  have "eset_ok es'" "pool_allocate 5 (pool_of ?es) = (pool_of es', map_option unat r)"
    using entity_set_refines_pool[OF f(1), of Some 0] a f(3) by auto
  then have "eset_ok es'" "r = Some 0" "es_bits es' = {0}"
    using f by (cases r; auto simp: pool_allocate_def pool_of_def unat_eq_0)+
  then show ?thesis using a f(1) by blast
qed

text \<open>
  C21. An id is never handed out twice: over any sequence of allocations and releases, whatever the
  disk does at each of them, the ids a client holds are pairwise different. If the disk had room
  throughout, all of them are live and the set is sound.
\<close>

theorem entity_ids_never_shared:
  assumes "eset_ok es" "session eset_allocate eset_free rs (es, []) = (es', held)"
  shows "distinct held \<and> ((\<forall>r \<in> set rs. \<forall>n. req_env r n \<noteq> None) \<longrightarrow> (\<forall>e \<in> set held. is_live e es') \<and> eset_ok es')"
  using eset_ids.session_distinct[OF eset_ok_sound[OF assms(1)] _ _ assms(2)] eset_live.session_holds_live[OF assms(1) _ _ assms(2)]
  by (auto simp: live_eids_def)

theorem entity_ids_never_shared_witness:
  "\<exists>es es' held. eset_ok es \<and>
     session eset_allocate eset_free [Allocate Some, Allocate Some, Release Some 0, Allocate (\<lambda>_. None)] (es, []) = (es', held) \<and> distinct held \<and>
     (\<exists>es2 held2. session eset_allocate eset_free [Allocate Some, Allocate Some, Release Some 0] (es, []) = (es2, held2) \<and> (\<forall>e \<in> set held2. is_live e es2))"
proof -
  let ?es = "eset_init Some \<lparr>rg_mem = replicate (region_size 9) 0, rg_committed = HEADER\<rparr> 5 9"
  have ok: "eset_ok ?es" using fresh_set[of 5 9 HEADER Some] by simp
  obtain es' held where a: "session eset_allocate eset_free [Allocate Some, Allocate Some, Release Some 0, Allocate (\<lambda>_. None)] (?es, []) = (es', held)"
    by (metis surj_pair)
  obtain es2 held2 where b: "session eset_allocate eset_free [Allocate Some, Allocate Some, Release Some 0] (?es, []) = (es2, held2)"
    by (metis surj_pair)
  have "distinct held" using entity_ids_never_shared[OF ok a] by blast
  moreover have "\<forall>e \<in> set held2. is_live e es2" using entity_ids_never_shared[OF ok b] by simp
  ultimately show ?thesis using ok a b by blast
qed

text \<open>
  C22. The optimised scans agree with the bits: the word-wise listing returns exactly the live
  ids in ascending order, the byte-skipping search returns the highest live id of a range or
  none, and the popcount of whole bytes counts exactly the live ids of a range. Two bounds of the
  32-bit arithmetic are needed and both are sharp: rounding the start of a counted range up to a
  whole byte must not wrap, and the listing ends only while no id of the last 64 has been handed
  out; after that its counter wraps at the last word and the loop starts over forever.
\<close>

theorem live_scans_agree:
  assumes "eset_ok es" "unat lo + 7 < 2 ^ 32"
  shows "(case for_each_live es of
        Some ids \<Rightarrow> unat (next_eid es) \<le> 0xFFFFFFC0 \<and> map unat ids = sorted_list_of_set (es_bits es)
      | None \<Rightarrow> 0xFFFFFFC0 < unat (next_eid es)) \<and>
    highest_live_in lo hi es = (let live = {e \<in> es_bits es. unat lo \<le> e \<and> e < unat hi}
      in if live = {} then None else Some (Max live)) \<and>
    live_count_in lo hi es = card {e \<in> es_bits es. unat lo \<le> e \<and> e < unat hi}"
proof -
  have "case for_each_live es of
        Some ids \<Rightarrow> unat (next_eid es) \<le> 0xFFFFFFC0 \<and> map unat ids = sorted_list_of_set (es_bits es)
      | None \<Rightarrow> 0xFFFFFFC0 < unat (next_eid es)"
    using for_each_live_eq[OF assms(1)] by (cases "unat (next_eid es) \<le> 0xFFFFFFC0") auto
  then show ?thesis using highest_live_in_eq[OF assms(1)] live_count_in_card[OF assms] by blast
qed

theorem live_scans_agree_witness:
  "\<exists>es. eset_ok es \<and> for_each_live es = Some [0] \<and> highest_live_in 0 5 es = Some 0 \<and> live_count_in 0 5 es = 1"
proof -
  obtain es where es: "eset_ok es" "es_bits es = {0}" "next_eid es = 1"
    using sample_set by blast
  have "{e. e = 0 \<and> e < (5 :: nat)} = {0}" by auto
  moreover have "ids = [0]" if "map unat ids = [0]" for ids :: "u32 list" using that by (auto simp: unat_eq_0)
  ultimately show ?thesis
    using live_scans_agree[OF es(1), of 0 5] es by (intro exI[of _ es]) (auto simp: Let_def split: option.splits)
qed

text \<open>
  C23. A freed id can be shared: an id that is freed (and so stacked) and then marked live again
  by \<^verbatim>\<open>ensure_live\<close>, as for a record of a peer, stays on the stack, and a full set hands out this
  live id to the next allocation.
\<close>

theorem revived_id_is_shared:
  assumes "eset_ok es" "\<forall>n. grow n \<noteq> None" "is_live eid es" "next_eid es = es_max_entities es"
    and "es_free_count es < free_cap_for (es_bitset_cap es)"
  shows "let es2 = ensure_live grow eid (eset_free grow eid es)
    in is_live eid es2 \<and> snd (eset_allocate grow es2) = Some eid"
proof -
  note r = revived_stays_stacked[OF assms(1-3,5)]
  have "eid < es_max_entities es" using assms(3) by (simp add: is_live_def)
  then show ?thesis
    using r(2) stacked_is_handed_out[OF r(1) assms(2) _ r(3)] r(4,5) assms(4) by (simp add: Let_def)
qed

theorem revived_id_is_shared_witness:
  "\<exists>es. let es2 = ensure_live Some 0 (eset_free Some 0 es) in is_live 0 es2 \<and> snd (eset_allocate Some es2) = Some 0"
proof -
  obtain es where es: "eset_ok es" "es_bits es = {0}" "next_eid es = es_max_entities es"
      "es_free_count es < free_cap_for (es_bitset_cap es)"
    using sample_set by blast
  then have "is_live 0 es" by (simp add: is_live_bits)
  then show ?thesis
    using revived_id_is_shared[OF es(1), of Some 0] es(3,4) by auto
qed

text \<open>
  When the disk is full an allocation still succeeds without marking its id: the id is
  returned and counted, but it is not live, although the bit-setting helper reports the failure.
\<close>

theorem allocate_on_full_disk_not_live:
  assumes "eset_ok es" "next_eid es < es_max_entities es" "\<forall>n. grow n = None"
    and "\<not> is_committed (eid_byte (unat (next_eid es)) + 1) (es_region es)"
  shows "case eset_allocate grow es of (es', r) \<Rightarrow> r = Some (next_eid es) \<and>
    \<not> is_live (next_eid es) es' \<and> live_count es' = live_count es + 1"
proof -
  note d = eset_okD[OF assms(1)]
  let ?es1 = "put_u32 4 (next_eid es + 1) es"
  note c1 = put_counter[OF d(1), of 4 "next_eid es + 1", simplified]
  note c2 = put_counter[OF c1(1), of 8 "live_count ?es1 + 1", simplified]
  have "fst (set_live_bit grow (next_eid es) True ?es1) = ?es1"
    using assms(2-4) by (simp add: set_live_bit_def ensure_committed_def is_committed_def Let_def)
  then have a: "eset_allocate grow es = (put_u32 8 (live_count ?es1 + 1) ?es1, Some (next_eid es))"
    using assms(2) by (simp add: eset_allocate_def allocate_tracked_def Let_def)
  have "unat (next_eid es) < 8 * bitset_bytes (es_bitset_cap es)"
    using assms(2) layout_okD(2)[OF d(1)] by (intro bitset_bound) (simp add: word_less_nat_alt word_le_nat_alt)
  moreover have "unat (next_eid es) \<notin> es_bits es" using d(2) by auto
  ultimately have "\<not> mem_live (es_mem (put_u32 8 (live_count ?es1 + 1) ?es1)) (unat (next_eid es))"
    using c1(2) c2(2) by (auto simp: es_bits_def)
  then show ?thesis using a c1 c2 by (simp add: is_live_def)
qed

theorem allocate_on_full_disk_not_live_witness:
  "\<exists>es. eset_ok es \<and> (case eset_allocate (\<lambda>_. None) es of (es', r) \<Rightarrow> r = Some 0 \<and> \<not> is_live 0 es')"
proof -
  let ?es = "eset_init (\<lambda>_. None) \<lparr>rg_mem = replicate (region_size 9) 0, rg_committed = HEADER\<rparr> 5 9"
  have f: "eset_ok ?es" "es_max_entities ?es = 5" "next_eid ?es = 0"
    using fresh_set[of 5 9 HEADER "\<lambda>_. None"] by simp_all
  moreover have "rg_committed (es_region ?es) = HEADER"
    by (simp add: eset_init_def write_at_def ensure_committed_def is_committed_def Let_def)
  ultimately show ?thesis
    using allocate_on_full_disk_not_live[OF f(1), of "\<lambda>_. None"]
    by (intro exI[of _ ?es]) (auto simp: is_committed_def eid_byte_def)
qed

end
