(* ===== verification/Tables.thy ===== *)
theory Tables
  imports Prelude
begin

text \<open>
  The id ranges of a table (\<^verbatim>\<open>TableDef\<close> in \<^verbatim>\<open>crates/enchudb-engine/src/engine.rs\<close>). A table owns
  a first range of ids and the extents it was grown by; rows are numbered through them. The
  theorem shows that the two translations between row numbers and ids are inverse to each other,
  so no two rows of a table share an id.
\<close>

section \<open>Extents\<close>

record table_def =
  td_range_lo :: u32
  td_range_hi :: u32
  td_extra :: "(u32 \<times> u32) list"
  td_next_local :: u32

abbreviation OPEN_END :: u32 where
  "OPEN_END \<equiv> 0xFFFFFFFF"

definition td_anonymous :: table_def where
  "td_anonymous = \<lparr>td_range_lo = 0, td_range_hi = OPEN_END, td_extra = [], td_next_local = 0\<rparr>"

definition is_open_ended :: "table_def \<Rightarrow> bool" where
  "is_open_ended td \<longleftrightarrow> td_range_hi td = OPEN_END"

definition extents :: "table_def \<Rightarrow> (u32 \<times> u32) list" where
  "extents td = (td_range_lo td, td_range_hi td) # td_extra td"

definition saturating_add :: "u32 \<Rightarrow> u32 \<Rightarrow> u32" where
  "saturating_add a b = (if unat a + unat b < 2 ^ 32 then a + b else OPEN_END)"

definition checked_add :: "u32 \<Rightarrow> u32 \<Rightarrow> u32 option" where
  "checked_add a b = (if unat a + unat b < 2 ^ 32 then Some (a + b) else None)"

definition td_capacity :: "table_def \<Rightarrow> u32" where
  "td_capacity td = (
     if is_open_ended td then OPEN_END
     else foldl (\<lambda>acc (lo, hi). saturating_add acc (hi - lo)) (td_range_hi td - td_range_lo td) (td_extra td))"

definition last_hi :: "table_def \<Rightarrow> u32" where
  "last_hi td = (if td_extra td = [] then td_range_hi td else snd (last (td_extra td)))"

fun local_in :: "u32 \<Rightarrow> u32 \<Rightarrow> (u32 \<times> u32) list \<Rightarrow> u32 option" where
  "local_in g base [] = None"
| "local_in g base ((lo, hi) # es) = (if g \<ge> lo \<and> g < hi then Some (base + (g - lo)) else local_in g (base + (hi - lo)) es)"

definition local_of :: "table_def \<Rightarrow> u32 \<Rightarrow> u32 option" where
  "local_of td g = (
     if g \<ge> td_range_lo td \<and> g < td_range_hi td then Some (g - td_range_lo td)
     else if is_open_ended td then None
     else local_in g (td_range_hi td - td_range_lo td) (td_extra td))"

definition td_contains :: "table_def \<Rightarrow> u32 \<Rightarrow> bool" where
  "td_contains td g \<longleftrightarrow> local_of td g \<noteq> None"

fun global_in :: "u32 \<Rightarrow> (u32 \<times> u32) list \<Rightarrow> u32 option" where
  "global_in rel [] = None"
| "global_in rel ((lo, hi) # es) = (let len = hi - lo in if rel < len then Some (lo + rel) else global_in (rel - len) es)"

definition global_of :: "table_def \<Rightarrow> u32 \<Rightarrow> u32 option" where
  "global_of td l =
     (let first = td_range_hi td - td_range_lo td
      in if is_open_ended td \<or> l < first then checked_add (td_range_lo td) l else global_in (l - first) (td_extra td))"

text \<open>A row that arrived from a peer moves the next row number of its table behind it.\<close>

fun advance_table_next_local_for :: "u32 \<Rightarrow> table_def list \<Rightarrow> table_def list" where
  "advance_table_next_local_for g [] = []"
| "advance_table_next_local_for g (td # tds) = (case local_of td g of
     Some l \<Rightarrow> td\<lparr>td_next_local := max (td_next_local td) (l + 1)\<rparr> # tds
   | None \<Rightarrow> td # advance_table_next_local_for g tds)"

section \<open>Row numbers and ids\<close>

text \<open>
  The extents of one table do not overlap, none is empty, and a table that was closed cannot
  reach the last 32-bit number. They are cut from one id space, so their lengths add up below it.
\<close>

definition extents_ok :: "(u32 \<times> u32) list \<Rightarrow> bool" where
  "extents_ok es \<longleftrightarrow> (\<forall>(lo, hi) \<in> set es. lo \<le> hi) \<and>
     (\<forall>i < length es. \<forall>j < i. snd (es ! j) \<le> fst (es ! i) \<or> snd (es ! i) \<le> fst (es ! j))"

definition extents_len :: "(u32 \<times> u32) list \<Rightarrow> nat" where
  "extents_len es = sum_list (map (\<lambda>(lo, hi). unat hi - unat lo) es)"

definition td_ok :: "table_def \<Rightarrow> bool" where
  "td_ok td \<longleftrightarrow> extents_ok (extents td) \<and> extents_len (extents td) < 2 ^ 32 \<and> (is_open_ended td \<longrightarrow> td_extra td = [])"

lemma extents_okD:
  assumes "extents_ok ((lo, hi) # es)"
  shows "lo \<le> hi" "extents_ok es" "(a, b) \<in> set es \<Longrightarrow> hi \<le> a \<or> b \<le> lo"
proof -
  show "lo \<le> hi" using assms by (simp add: extents_ok_def)
  show "extents_ok es"
    unfolding extents_ok_def
  proof (intro conjI allI impI)
    show "\<forall>(lo, hi) \<in> set es. lo \<le> hi" using assms by (simp add: extents_ok_def)
    fix i j assume "i < length es" "j < i"
    then have "Suc i < length ((lo, hi) # es)" "Suc j < Suc i" by simp_all
    then have "snd (((lo, hi) # es) ! Suc j) \<le> fst (((lo, hi) # es) ! Suc i) \<or> snd (((lo, hi) # es) ! Suc i) \<le> fst (((lo, hi) # es) ! Suc j)"
      using assms unfolding extents_ok_def by blast
    then show "snd (es ! j) \<le> fst (es ! i) \<or> snd (es ! i) \<le> fst (es ! j)" by simp
  qed
  assume "(a, b) \<in> set es"
  then obtain i where i: "i < length es" "es ! i = (a, b)" by (auto simp: in_set_conv_nth)
  then have "Suc i < length ((lo, hi) # es)" "0 < Suc i" by simp_all
  then have "snd (((lo, hi) # es) ! 0) \<le> fst (((lo, hi) # es) ! Suc i) \<or> snd (((lo, hi) # es) ! Suc i) \<le> fst (((lo, hi) # es) ! 0)"
    using assms unfolding extents_ok_def by blast
  then show "hi \<le> a \<or> b \<le> lo" using i(2) by simp
qed

lemma unat_lt_2_32: "unat (x :: u32) < 4294967296"
  using unsigned_less[of x] by simp

lemma local_in_global:
  assumes "extents_ok es" "unat base + extents_len es < 2 ^ 32" "local_in g base es = Some l"
  shows "base \<le> l \<and> global_in (l - base) es = Some g"
  using assms
proof (induction es arbitrary: base)
  case (Cons e es)
  obtain lo hi where e: "e = (lo, hi)" by fastforce
  note ok = extents_okD[OF Cons.prems(1)[unfolded e]]
  have len: "unat (hi - lo) = unat hi - unat lo" using ok(1) by (simp add: unat_sub)
  have tot: "unat base + (unat hi - unat lo) + extents_len es < 2 ^ 32" using Cons.prems(2) by (simp add: e extents_len_def)
  have ub: "unat (base + (hi - lo)) = unat base + (unat hi - unat lo)" using tot len by (simp add: unat_word_ariths)
  show ?case
  proof (cases "g \<ge> lo \<and> g < hi")
    case True
    then have l: "l = base + (g - lo)" using Cons.prems(3) by (simp add: e)
    have g: "unat (g - lo) = unat g - unat lo" "unat lo \<le> unat g" "unat g < unat hi"
      using True by (simp_all add: unat_sub word_le_nat_alt word_less_nat_alt)
    then have "unat l = unat base + (unat g - unat lo)" using tot by (simp add: l unat_word_ariths)
    then have "base \<le> l" by (simp add: word_le_nat_alt)
    moreover have "l - base = g - lo" by (simp add: l)
    moreover have "g - lo < hi - lo" using g len by (simp add: word_less_nat_alt)
    ultimately show ?thesis by (simp add: e)
  next
    case False
    then have i: "local_in g (base + (hi - lo)) es = Some l" using Cons.prems(3) by (auto simp: e split: if_splits)
    from Cons.IH[OF ok(2) _ i] have ih: "base + (hi - lo) \<le> l" "global_in (l - (base + (hi - lo))) es = Some g"
      using tot ub by simp_all
    then have ul: "unat base + (unat hi - unat lo) \<le> unat l" using ub by (simp add: word_le_nat_alt)
    then have b: "base \<le> l" by (simp add: word_le_nat_alt)
    moreover have "\<not> l - base < hi - lo" using ul len b by (simp add: word_less_nat_alt unat_sub)
    moreover have "l - base - (hi - lo) = l - (base + (hi - lo))" by simp
    ultimately show ?thesis using ih(2) by (simp only: e global_in.simps Let_def if_False)
  qed
qed simp

lemma global_in_local:
  assumes "extents_ok es" "unat base + extents_len es < 2 ^ 32" "global_in r es = Some g"
  shows "local_in g base es = Some (base + r) \<and> (\<exists>(lo, hi) \<in> set es. lo \<le> g \<and> g < hi)"
  using assms
proof (induction es arbitrary: base r)
  case (Cons e es)
  obtain lo hi where e: "e = (lo, hi)" by fastforce
  note ok = extents_okD[OF Cons.prems(1)[unfolded e]]
  have len: "unat (hi - lo) = unat hi - unat lo" using ok(1) by (simp add: unat_sub)
  have tot: "unat base + (unat hi - unat lo) + extents_len es < 2 ^ 32" using Cons.prems(2) by (simp add: e extents_len_def)
  have ub: "unat (base + (hi - lo)) = unat base + (unat hi - unat lo)" using tot len by (simp add: unat_word_ariths)
  show ?case
  proof (cases "r < hi - lo")
    case True
    then have g: "g = lo + r" using Cons.prems(3) by (simp add: e)
    have r: "unat r < unat hi - unat lo" using True len by (simp add: word_less_nat_alt)
    then have ug: "unat g = unat lo + unat r" using unat_lt_2_32[of hi] by (simp add: g unat_word_ariths)
    have "lo \<le> g" "g < hi" using ug r by (simp_all add: word_le_nat_alt word_less_nat_alt)
    then show ?thesis by (simp add: e g)
  next
    case False
    then have i: "global_in (r - (hi - lo)) es = Some g" using Cons.prems(3) by (simp add: e Let_def)
    from Cons.IH[OF ok(2) _ i, of "base + (hi - lo)"]
    have ih: "local_in g (base + (hi - lo)) es = Some (base + (hi - lo) + (r - (hi - lo)))" "\<exists>(a, b) \<in> set es. a \<le> g \<and> g < b"
      using tot ub by simp_all
    then obtain a b where ab: "(a, b) \<in> set es" "a \<le> g" "g < b" by blast
    have "\<not> (lo \<le> g \<and> g < hi)" using ok(3)[OF ab(1)] ab by auto
    then show ?thesis using ih by (auto simp: e)
  qed
qed simp

text \<open>
  The row numbers of a table and its ids translate back and forth without loss, over all its
  extents: a row's id gives back the row number, and an id of the table gives back the id.
\<close>

theorem table_rows_roundtrip:
  assumes ok: "td_ok td"
  shows "(local_of td g = Some l \<longrightarrow> global_of td l = Some g) \<and>
    (global_of td l = Some g \<and> g < OPEN_END \<longrightarrow> local_of td g = Some l)"
proof -
  let ?lo = "td_range_lo td" let ?hi = "td_range_hi td"
  have e: "extents_ok ((?lo, ?hi) # td_extra td)" "extents_len ((?lo, ?hi) # td_extra td) < 2 ^ 32"
    using ok by (simp_all add: td_ok_def extents_def)
  note o1 = extents_okD[OF e(1)]
  have len: "unat (?hi - ?lo) = unat ?hi - unat ?lo" using o1(1) by (simp add: unat_sub)
  have tot: "unat (?hi - ?lo) + extents_len (td_extra td) < 2 ^ 32" using e(2) len by (simp add: extents_len_def)
  show ?thesis
  proof (intro conjI impI)
    assume l: "local_of td g = Some l"
    show "global_of td l = Some g"
    proof (cases "g \<ge> ?lo \<and> g < ?hi")
      case True
      then have "l = g - ?lo" using l by (simp add: local_of_def)
      moreover have "unat (g - ?lo) = unat g - unat ?lo" "unat ?lo \<le> unat g" "unat g < unat ?hi"
        using True by (simp_all add: unat_sub word_le_nat_alt word_less_nat_alt)
      ultimately show ?thesis using len unat_lt_2_32[of g] by (auto simp: global_of_def Let_def checked_add_def word_less_nat_alt)
    next
      case False
      then have n: "\<not> is_open_ended td" "local_in g (?hi - ?lo) (td_extra td) = Some l" using l by (auto simp: local_of_def split: if_splits)
      from local_in_global[OF o1(2) tot n(2)] have "\<not> l < ?hi - ?lo" "global_in (l - (?hi - ?lo)) (td_extra td) = Some g" by (simp_all only: not_less)
      then show ?thesis using n(1) by (simp add: global_of_def Let_def)
    qed
  next
    assume g: "global_of td l = Some g \<and> g < OPEN_END"
    show "local_of td g = Some l"
    proof (cases "is_open_ended td \<or> l < ?hi - ?lo")
      case True
      then have c: "g = ?lo + l" "unat ?lo + unat l < 2 ^ 32" using g by (auto simp: global_of_def Let_def checked_add_def split: if_splits)
      then have ug: "unat g = unat ?lo + unat l" by (simp add: unat_word_ariths)
      have "g < ?hi"
      proof (cases "is_open_ended td")
        case True
        then show ?thesis using g by (simp add: is_open_ended_def)
      next
        case False
        then have "unat l < unat ?hi - unat ?lo" using \<open>is_open_ended td \<or> l < ?hi - ?lo\<close> len by (simp add: word_less_nat_alt)
        then show ?thesis using ug by (simp add: word_less_nat_alt)
      qed
      moreover have "?lo \<le> g" using ug by (simp add: word_le_nat_alt)
      ultimately show ?thesis by (simp add: local_of_def c(1))
    next
      case False
      then have "global_in (l - (?hi - ?lo)) (td_extra td) = Some g" using g by (simp add: global_of_def Let_def)
      from global_in_local[OF o1(2) tot this]
      have gl: "local_in g (?hi - ?lo) (td_extra td) = Some l" "\<exists>(a, b) \<in> set (td_extra td). a \<le> g \<and> g < b" by simp_all
      then obtain a b where ab: "(a, b) \<in> set (td_extra td)" "a \<le> g" "g < b" by blast
      have "\<not> (?lo \<le> g \<and> g < ?hi)" using o1(3)[OF ab(1)] ab by auto
      then show ?thesis using gl(1) False by (auto simp: local_of_def)
    qed
  qed
qed

theorem table_rows_roundtrip_witness:
  "local_of \<lparr>td_range_lo = 10, td_range_hi = 20, td_extra = [(40, 45)], td_next_local = 0\<rparr> 42 = Some 12"
proof -
  let ?td = "\<lparr>td_range_lo = 10, td_range_hi = 20, td_extra = [(40, 45)], td_next_local = 0\<rparr> :: table_def"
  have "td_ok ?td" by (auto simp: td_ok_def extents_ok_def extents_def extents_len_def is_open_ended_def less_Suc_eq)
  moreover have "global_of ?td 12 = Some 42" by (simp add: global_of_def is_open_ended_def)
  ultimately show ?thesis using table_rows_roundtrip[of ?td 42 12] by simp
qed

end
