(* ===== verification/Cells.thy ===== *)
theory Cells
  imports Cell_Versions Himo_Store Entity_Set Tables
begin

text \<open>
  The engine's cell layer (\<^verbatim>\<open>crates/enchudb-engine/src/engine.rs\<close>): the one door through which
  a value reaches a column, with the last-writer-wins decision, the deletions of rows, and the
  entry points for the writes of other peers. It composes the column stores, the version
  columns (or the clocks in memory), the entity set and the ranges of the tables.

  The model is for columns of numbers and references: a column of words or of leaf payloads
  would also count references in the dictionary or free a payload slot. It is for a database
  without declared order indexes and without remembered primary-key names (so a deletion splits
  no bound identity and removes no row that holds a name of the deleted one), whose columns are
  open: the segment of a column that is closed would be opened first. The mark that a deletion
  sets for the persisted entity map is part of the translator's model. The notifications to
  the live queries are recorded in \<^verbatim>\<open>cd_touched\<close> and \<^verbatim>\<open>cd_freed\<close>, the faults in \<^verbatim>\<open>cd_faults\<close>.
  The row lock makes every operation here one step. \<^const>\<open>None\<close> as a result is a panic.
\<close>

section \<open>State\<close>

datatype fault_kind = EntitySpace | ContentSpace | VocabSpace | ValueOutOfRange | DiskSpace | StaleValue | SegmentIo | WalSpace

datatype remote_apply = Applied | Stale | RejectedCapacity

definition ra_applied :: "remote_apply \<Rightarrow> bool" where
  "ra_applied r \<longleftrightarrow> r = Applied"

definition needs_redelivery :: "remote_apply \<Rightarrow> bool" where
  "needs_redelivery r \<longleftrightarrow> r = RejectedCapacity"

text \<open>What the platform decides at one call: which of the files can grow.\<close>

record cell_env =
  ce_himo :: himo_env
  ce_ver :: grower
  ce_tomb :: grower
  ce_ents :: grower

record cell_db =
  cd_himos :: "himo_store list"
  cd_ver_cols :: "column list"
  cd_tomb_col :: "column option"
  cd_entities :: entity_set
  cd_hlc_store :: hlc_store
  cd_sync_tables_on :: bool
  cd_has_cell_version :: bool
  cd_peer :: peer_id
  cd_max_entities :: u32
  cd_clock :: "hlc_state option"
  cd_tables :: "table_def list"
  cd_faults :: "fault_kind list"
  cd_touched :: "(u16 \<times> u32) list"
  cd_freed :: "u32 list"

definition record_fault :: "fault_kind \<Rightarrow> cell_db \<Rightarrow> cell_db" where
  "record_fault k db = db\<lparr>cd_faults := cd_faults db @ [k]\<rparr>"

section \<open>Versions\<close>

abbreviation TOMB_KEY :: u16 where
  "TOMB_KEY \<equiv> 0xFFFF"

definition ver_col :: "u16 \<Rightarrow> cell_db \<Rightarrow> column option" where
  "ver_col h db = (if unat h < length (cd_ver_cols db) then Some (cd_ver_cols db ! unat h) else None)"

definition set_ver_col :: "u16 \<Rightarrow> column \<Rightarrow> cell_db \<Rightarrow> cell_db" where
  "set_ver_col h col db = db\<lparr>cd_ver_cols := (cd_ver_cols db)[unat h := col]\<rparr>"

definition cell_hlc_local :: "cell_env \<Rightarrow> u32 \<Rightarrow> u16 \<Rightarrow> cell_db \<Rightarrow> cell_db \<times> hlc" where
  "cell_hlc_local env local h db = (case ver_col h db of
     None \<Rightarrow> (db, hlc_ZERO)
   | Some col \<Rightarrow>
       if local < cd_max_entities db then
         (case read_version (ce_ver env) local col of
            (col', None) \<Rightarrow> (record_fault DiskSpace (set_ver_col h col' db), hlc_ZERO)
          | (col', Some v) \<Rightarrow> (set_ver_col h col' db, v))
       else (db, hlc_ZERO))"

definition tombstone_hlc_local :: "cell_env \<Rightarrow> u32 \<Rightarrow> cell_db \<Rightarrow> cell_db \<times> hlc" where
  "tombstone_hlc_local env local db = (case cd_tomb_col db of
     None \<Rightarrow> (db, hlc_ZERO)
   | Some col \<Rightarrow>
       if local < cd_max_entities db then
         (case read_version (ce_tomb env) local col of
            (col', None) \<Rightarrow> (record_fault DiskSpace (db\<lparr>cd_tomb_col := Some col'\<rparr>), hlc_ZERO)
          | (col', Some v) \<Rightarrow> (db\<lparr>cd_tomb_col := Some col'\<rparr>, v))
       else (db, hlc_ZERO))"

definition observe_remote_hlc :: "hlc \<Rightarrow> cell_db \<Rightarrow> cell_db" where
  "observe_remote_hlc h db = (if h = hlc_ZERO then db else db\<lparr>cd_clock := map_option (merge_external_hlc h) (cd_clock db)\<rparr>)"

definition version_key_of :: "u32 \<Rightarrow> cell_db \<Rightarrow> u64" where
  "version_key_of local db = make_eid (cd_peer db) local"

definition version_of :: "cell_env \<Rightarrow> u32 \<Rightarrow> u16 \<Rightarrow> cell_db \<Rightarrow> cell_db \<times> hlc" where
  "version_of env local h db = (
     if cd_has_cell_version db then cell_hlc_local env local h db
     else (db, case store_get (version_key_of local db) h (cd_hlc_store db) of None \<Rightarrow> hlc_ZERO | Some v \<Rightarrow> v))"

definition tombstone_version_of :: "cell_env \<Rightarrow> u32 \<Rightarrow> cell_db \<Rightarrow> cell_db \<times> hlc" where
  "tombstone_version_of env local db = (
     if cd_has_cell_version db then tombstone_hlc_local env local db
     else (db, case store_get (version_key_of local db) TOMB_KEY (cd_hlc_store db) of None \<Rightarrow> hlc_ZERO | Some v \<Rightarrow> v))"

definition tombstone_blocks :: "cell_env \<Rightarrow> entity_id \<Rightarrow> hlc \<Rightarrow> cell_db \<Rightarrow> cell_db \<times> bool" where
  "tombstone_blocks env eid h db = (
     if h = hlc_ZERO then (db, False)
     else case tombstone_version_of env (eid_local eid) db of (db', tomb) \<Rightarrow> (db', tomb \<noteq> hlc_ZERO \<and> h < tomb))"

definition accepts_hlc :: "hlc \<Rightarrow> hlc \<Rightarrow> bool" where
  "accepts_hlc cur incoming \<longleftrightarrow> incoming = hlc_ZERO \<or> cur = hlc_ZERO \<or> cur < incoming"

definition accepts_write :: "cell_env \<Rightarrow> u32 \<Rightarrow> u16 \<Rightarrow> hlc \<Rightarrow> cell_db \<Rightarrow> cell_db \<times> bool" where
  "accepts_write env local h hlc db = (
     if hlc = hlc_ZERO then (db, True)
     else if \<not> cd_sync_tables_on db \<and> \<not> cd_has_cell_version db then (db, True)
     else case tombstone_version_of env local db of (db1, tomb) \<Rightarrow>
       if tomb \<noteq> hlc_ZERO \<and> hlc < tomb then (db1, False)
       else case version_of env local h db1 of (db2, cur) \<Rightarrow> (db2, accepts_hlc cur hlc))"

definition store_cell_hlc :: "cell_env \<Rightarrow> u32 \<Rightarrow> u16 \<Rightarrow> hlc \<Rightarrow> cell_db \<Rightarrow> cell_db" where
  "store_cell_hlc env local h hlc db = (
     if hlc = hlc_ZERO \<or> local \<ge> cd_max_entities db then db
     else case ver_col h db of
       Some col \<Rightarrow> (case write_version (ce_ver env) local hlc col of
           (col', True) \<Rightarrow> set_ver_col h col' db
         | (col', False) \<Rightarrow> record_fault DiskSpace (set_ver_col h col' db))
     | None \<Rightarrow>
         if \<not> cd_sync_tables_on db then db
         else db\<lparr>cd_hlc_store := fst (store_try_set (version_key_of local db) h hlc (cd_hlc_store db))\<rparr>)"

definition set_tombstone_local :: "cell_env \<Rightarrow> u32 \<Rightarrow> hlc \<Rightarrow> cell_db \<Rightarrow> cell_db \<times> bool" where
  "set_tombstone_local env local hlc db = (case tombstone_version_of env local db of (db1, tomb) \<Rightarrow>
     if \<not> accepts_hlc tomb hlc then (db1, False)
     else if hlc = hlc_ZERO \<or> local \<ge> cd_max_entities db1 then (db1, True)
     else case cd_tomb_col db1 of
       Some col \<Rightarrow> (case write_version (ce_tomb env) local hlc col of
           (col', True) \<Rightarrow> (db1\<lparr>cd_tomb_col := Some col'\<rparr>, True)
         | (col', False) \<Rightarrow> (record_fault DiskSpace (db1\<lparr>cd_tomb_col := Some col'\<rparr>), True))
     | None \<Rightarrow>
         if \<not> cd_sync_tables_on db1 then (db1, True)
         else (db1\<lparr>cd_hlc_store := fst (store_try_set (version_key_of local db1) TOMB_KEY hlc (cd_hlc_store db1))\<rparr>, True))"

definition remember_version :: "cell_env \<Rightarrow> entity_id \<Rightarrow> u16 \<Rightarrow> hlc \<Rightarrow> cell_db \<Rightarrow> cell_db" where
  "remember_version env eid h hlc db =
     (let local = eid_local eid
      in if hlc = hlc_ZERO \<or> local \<ge> cd_max_entities db then db
         else if h = TOMB_KEY then fst (set_tombstone_local env local hlc db)
         else case version_of env local h db of (db1, cur) \<Rightarrow>
           if accepts_hlc cur hlc then store_cell_hlc env local h hlc db1 else db1)"

section \<open>Cells\<close>

definition fits_column :: "u16 \<Rightarrow> u64 \<Rightarrow> cell_db \<Rightarrow> cell_db \<times> bool" where
  "fits_column h value db =
     (let top = (if unat h < length (cd_himos db) then vt_max_value (hs_value_type (cd_himos db ! unat h)) else 0xFFFFFFFE)
      in if value > top then (record_fault ValueOutOfRange db, False) else (db, True))"

definition live_set :: "cell_env \<Rightarrow> u16 \<Rightarrow> u32 \<Rightarrow> u64 \<Rightarrow> cell_db \<Rightarrow> (cell_db \<times> bool) option" where
  "live_set env h local value db = (case himo_set (ce_himo env) local value (cd_himos db ! unat h) of
     None \<Rightarrow> None
   | Some (hs, ok) \<Rightarrow>
       let db1 = db\<lparr>cd_himos := (cd_himos db)[unat h := hs]\<rparr>
       in Some (if ok then db1\<lparr>cd_touched := cd_touched db1 @ [(h, local)]\<rparr> else db1, ok))"

definition live_remove :: "cell_env \<Rightarrow> u16 \<Rightarrow> u32 \<Rightarrow> cell_db \<Rightarrow> cell_db" where
  "live_remove env h local db =
     db\<lparr>cd_himos := (cd_himos db)[unat h := himo_remove (ce_himo env) local (cd_himos db ! unat h)],
        cd_touched := cd_touched db @ [(h, local)]\<rparr>"

definition live_free :: "cell_env \<Rightarrow> u32 \<Rightarrow> cell_db \<Rightarrow> cell_db" where
  "live_free env local db = db\<lparr>cd_entities := eset_free (ce_ents env) local (cd_entities db), cd_freed := cd_freed db @ [local]\<rparr>"

definition set_cell_in :: "cell_env \<Rightarrow> u32 \<Rightarrow> u16 \<Rightarrow> u64 \<Rightarrow> hlc \<Rightarrow> cell_db \<Rightarrow> (cell_db \<times> bool) option" where
  "set_cell_in env local h value hlc db = (case fits_column h value db of
     (db0, False) \<Rightarrow> Some (db0, False)
   | (db0, True) \<Rightarrow> (case accepts_write env local h hlc db0 of
       (db1, False) \<Rightarrow> Some (db1, False)
     | (db1, True) \<Rightarrow> (case live_set env h local value db1 of
         None \<Rightarrow> None
       | Some (db2, False) \<Rightarrow> Some (record_fault DiskSpace db2, False)
       | Some (db2, True) \<Rightarrow> Some (store_cell_hlc env local h hlc db2, True))))"

definition set_cell :: "cell_env \<Rightarrow> entity_id \<Rightarrow> u16 \<Rightarrow> u32 \<Rightarrow> hlc \<Rightarrow> cell_db \<Rightarrow> (cell_db \<times> bool) option" where
  "set_cell env eid h value hlc db = (
     if unat h \<ge> length (cd_himos db) then Some (db, False)
     else set_cell_in env (eid_local eid) h (ucast value) hlc db)"

definition clear_cell_in :: "cell_env \<Rightarrow> u32 \<Rightarrow> u16 \<Rightarrow> hlc \<Rightarrow> cell_db \<Rightarrow> cell_db \<times> bool" where
  "clear_cell_in env local h hlc db = (case accepts_write env local h hlc db of
     (db1, False) \<Rightarrow> (db1, False)
   | (db1, True) \<Rightarrow> (store_cell_hlc env local h hlc (live_remove env h local db1), True))"

definition clear_cell :: "cell_env \<Rightarrow> entity_id \<Rightarrow> u16 \<Rightarrow> hlc \<Rightarrow> cell_db \<Rightarrow> cell_db \<times> bool" where
  "clear_cell env eid h hlc db = (
     if unat h \<ge> length (cd_himos db) then (db, False) else clear_cell_in env (eid_local eid) h hlc db)"

section \<open>Deleting a row\<close>

fun remove_body_from :: "cell_env \<Rightarrow> u32 \<Rightarrow> hlc \<Rightarrow> nat list \<Rightarrow> cell_db \<times> bool \<Rightarrow> cell_db \<times> bool" where
  "remove_body_from env local hlc [] s = s"
| "remove_body_from env local hlc (h # hs) (db, survivor) = (
     if get_value (cd_himos db ! h) local = None then remove_body_from env local hlc hs (db, survivor)
     else let (db1, newer) = (if hlc = hlc_ZERO then (db, False)
            else case version_of env local (word_of_nat h) db of (db', v) \<Rightarrow> (db', v > hlc))
          in if newer then remove_body_from env local hlc hs (db1, True)
             else remove_body_from env local hlc hs (live_remove env (word_of_nat h) local db1, survivor))"

definition remove_entity_body :: "cell_env \<Rightarrow> u32 \<Rightarrow> hlc \<Rightarrow> cell_db \<Rightarrow> cell_db" where
  "remove_entity_body env local hlc db = (case remove_body_from env local hlc [0..<length (cd_himos db)] (db, False) of
     (db1, survivor) \<Rightarrow> if \<not> survivor then live_free env local db1 else db1)"

definition apply_delete_in :: "cell_env \<Rightarrow> u32 \<Rightarrow> hlc \<Rightarrow> cell_db \<Rightarrow> cell_db \<times> bool" where
  "apply_delete_in env local hlc db = (case tombstone_version_of env local db of (db1, tomb) \<Rightarrow>
     if hlc \<noteq> hlc_ZERO \<and> tomb \<noteq> hlc_ZERO \<and> hlc < tomb then (db1, False)
     else (remove_entity_body env local hlc_ZERO (fst (set_tombstone_local env local hlc db1)), True))"

definition slot_is_dead :: "cell_env \<Rightarrow> u32 \<Rightarrow> cell_db \<Rightarrow> cell_db \<times> bool" where
  "slot_is_dead env local db = (
     if is_live local (cd_entities db) then (db, False)
     else case tombstone_version_of env local db of (db1, tomb) \<Rightarrow> (db1, tomb \<noteq> hlc_ZERO))"

section \<open>The writes of other peers\<close>

definition ensure_cell_room :: "cell_env \<Rightarrow> u16 \<Rightarrow> u32 \<Rightarrow> cell_db \<Rightarrow> cell_db \<times> bool" where
  "ensure_cell_room env h local db =
     (let (db1, ver_ok) = (case ver_col h db of
            Some col \<Rightarrow>
              if local < cd_max_entities db then
                (if is_committed_for local col then (db, True)
                 else case ensure_committed_for (ce_ver env) local col of (col', ok) \<Rightarrow> (set_ver_col h col' db, ok))
              else (db, True)
          | None \<Rightarrow> (db, True))
      in if \<not> ver_ok then (record_fault DiskSpace db1, False)
         else case ensure_room (ce_himo env) local (cd_himos db1 ! unat h) of (hs, ok) \<Rightarrow>
           let db2 = db1\<lparr>cd_himos := (cd_himos db1)[unat h := hs]\<rparr>
           in if ok then (db2, True) else (record_fault DiskSpace db2, False))"

definition remote_tie_apply_result :: "cell_env \<Rightarrow> entity_id \<Rightarrow> u16 \<Rightarrow> u64 \<Rightarrow> hlc \<Rightarrow> cell_db \<Rightarrow> (cell_db \<times> remote_apply) option" where
  "remote_tie_apply_result env eid h value hlc db =
     (let local = eid_local eid
      in if unat h \<ge> length (cd_himos db) then Some (db, Stale)
         else case slot_is_dead env local (observe_remote_hlc hlc db) of
             (db1, True) \<Rightarrow> Some (db1, Stale)
           | (db1, False) \<Rightarrow> (case ensure_cell_room env h local db1 of
               (db2, False) \<Rightarrow> Some (db2, RejectedCapacity)
             | (db2, True) \<Rightarrow> (case set_cell_in env local h value hlc db2 of
                 None \<Rightarrow> None
               | Some (db3, False) \<Rightarrow> Some (db3, Stale)
               | Some (db3, True) \<Rightarrow>
                   Some (db3\<lparr>cd_entities := ensure_live (ce_ents env) local (cd_entities db3),
                             cd_tables := advance_table_next_local_for local (cd_tables db3)\<rparr>, Applied))))"

definition remote_untie_apply :: "cell_env \<Rightarrow> entity_id \<Rightarrow> u16 \<Rightarrow> hlc \<Rightarrow> cell_db \<Rightarrow> cell_db \<times> bool" where
  "remote_untie_apply env eid h hlc db = (
     if unat h \<ge> length (cd_himos db) then (db, False)
     else clear_cell_in env (eid_local eid) h hlc (observe_remote_hlc hlc db))"

definition remote_delete_apply :: "cell_env \<Rightarrow> entity_id \<Rightarrow> hlc \<Rightarrow> cell_db \<Rightarrow> cell_db \<times> bool" where
  "remote_delete_apply env eid hlc db =
     (let local = eid_local eid;
          (db1, dead) = slot_is_dead env local (observe_remote_hlc hlc db);
          db2 = (if dead then fst (tombstone_version_of env local db1) else db1)
      in apply_delete_in env local hlc db2)"

end
