(* ===== verification/Himo_Correct.thy ===== *)
theory Himo_Correct
  imports Himo_Store
begin

text \<open>
  What a column store promises. The abstract state is the map \<^verbatim>\<open>himo_map\<close> from ids to values; the
  invariant \<^verbatim>\<open>himo_inv\<close> says that the column's cells are well formed, that the index (when it is
  built) holds exactly what the column holds, and that the counter of present cells is right.
  \<^verbatim>\<open>wrote hs e new hs'\<close> is the contract of every writer: the invariant is kept and the map changes
  at one id only. This theory proves it for \<^verbatim>\<open>set\<close> on all of its paths (before the index is
  built, inside the dense arrays, through the sparse runs, growing an array), the others follow
  in \<^verbatim>\<open>Himo_Ops\<close>.
\<close>

section \<open>The column as a map\<close>

definition width_ok :: "column \<Rightarrow> bool" where
  "width_ok col \<longleftrightarrow> col_value_size col = 4 \<or> col_value_size col = 8"

definition fits :: "column \<Rightarrow> u64 \<Rightarrow> bool" where
  "fits col x \<longleftrightarrow> col_value_size col = 8 \<or> unat x < 2 ^ 32"

text \<open>No cell behind the count is set.\<close>

definition clear_tail :: "column \<Rightarrow> bool" where
  "clear_tail col \<longleftrightarrow> (\<forall>e. col_count col \<le> e \<longrightarrow> e < col_max_entities col \<longrightarrow> stored_at col e = 0)"

text \<open>A cell that holds a value lies in the committed part of the file.\<close>

definition set_cells_committed :: "column \<Rightarrow> bool" where
  "set_cells_committed col \<longleftrightarrow> (\<forall>e. e < col_max_entities col \<longrightarrow> stored_at col e \<noteq> 0 \<longrightarrow> cell_committed e col)"

definition col_inv :: "column \<Rightarrow> bool" where
  "col_inv col \<longleftrightarrow> col_shape col \<and> width_ok col \<and> clear_tail col \<and> set_cells_committed col"

lemma stored_sync_eq: "width_ok col \<Longrightarrow> stored_sync col e = stored_at col e"
  by (auto simp: width_ok_def stored_sync_def stored_at_def load_u32_get load_u64_get)

lemma width_neq: "width_ok col \<Longrightarrow> col_value_size col \<noteq> 8 \<Longrightarrow> col_value_size col = 4"
  by (simp add: width_ok_def)

definition cell_bytes :: "column \<Rightarrow> u64 \<Rightarrow> bytes" where
  "cell_bytes col x = (if col_value_size col = 8 then to_le_bytes x else to_le_bytes (ucast x :: u32))"

lemma store_at_cell:
  assumes w: "width_ok col"
  shows "store_at e x col = put_cell e (cell_bytes col x) col" "length (cell_bytes col x) = unat (col_value_size col)"
  using w by (auto simp: width_ok_def store_at_def cell_bytes_def store_u32_put store_u64_put)

lemma stored_at_bytes:
  assumes "width_ok col" "fits col x" "col_value_size col' = col_value_size col" "col_get e col' = cell_bytes col x"
  shows "stored_at col' e = x"
proof -
  have "ucast (ucast x :: u32) = x" if "unat x < 2 ^ 32"
    using that by (simp add: word_unat_eq_iff unsigned_ucast_eq unsigned_take_bit_eq take_bit_nat_eq_self)
  then show ?thesis using assms by (auto simp: stored_at_def cell_bytes_def fits_def)
qed

lemma stored_at_cong: "col_value_size col' = col_value_size col \<Longrightarrow> col_get e col' = col_get e col \<Longrightarrow> stored_at col' e = stored_at col e"
  by (simp add: stored_at_def)

lemma store_at_spec:
  assumes s: "col_shape col" and w: "width_ok col" and e: "e < col_max_entities col" and f: "fits col x" and c: "cell_committed e col"
  shows "col_shape (store_at e x col)" "width_ok (store_at e x col)"
    "e' < col_max_entities col \<Longrightarrow> stored_at (store_at e x col) e' = (if e' = e then x else stored_at col e')"
    "col_count (store_at e x col) = col_count col" "col_value_size (store_at e x col) = col_value_size col"
    "col_max_entities (store_at e x col) = col_max_entities col" "header_written (store_at e x col) \<longleftrightarrow> header_written col"
proof -
  let ?bs = "cell_bytes col x"
  note bs = store_at_cell(1)[OF w, of e x] store_at_cell(2)[OF w, of x]
  show "col_shape (store_at e x col)" unfolding bs(1) by (rule put_cell_shape[OF s e bs(2) c])
  show "width_ok (store_at e x col)" "col_count (store_at e x col) = col_count col" "col_value_size (store_at e x col) = col_value_size col"
    "col_max_entities (store_at e x col) = col_max_entities col" using w by (simp_all add: bs(1) width_ok_def)
  show "header_written (store_at e x col) \<longleftrightarrow> header_written col"
    using put_cell_header[OF s e bs(2)] by (simp add: bs(1) header_written_def)
  assume e': "e' < col_max_entities col"
  show "stored_at (store_at e x col) e' = (if e' = e then x else stored_at col e')"
  proof (cases "e' = e")
    case True
    then show ?thesis unfolding bs(1) using stored_at_bytes[OF w f, of "put_cell e ?bs col" e] get_put_cell[OF s e e bs(2)] by simp
  next
    case False
    have "stored_at (put_cell e ?bs col) e' = stored_at col e'"
      by (rule stored_at_cong) (use False get_put_cell[OF s e e' bs(2)] in simp_all)
    then show ?thesis using False by (simp add: bs(1))
  qed
qed

lemma value_at_eq:
  assumes "width_ok col"
  shows "value_at col e = (if e < col_count col \<and> stored_at col e \<noteq> 0 then Some (stored_at col e - 1) else None)"
  using assms by (simp add: value_at_def stored_sync_eq Let_def not_less[symmetric])

lemma max_plus_one: "v + 1 = 0 \<longleftrightarrow> v = NO_VALUE" for v :: u64
proof
  assume "v + 1 = 0"
  then have "v + 1 = NO_VALUE + 1" by simp
  then show "v = NO_VALUE" by (rule add_right_imp_eq)
qed simp

lemma value_at_iff:
  assumes "width_ok col" "e < col_count col"
  shows "value_at col e = Some v \<longleftrightarrow> v \<noteq> NO_VALUE \<and> stored_at col e = v + 1"
proof -
  have "value_at col e = Some v \<longleftrightarrow> stored_at col e \<noteq> 0 \<and> stored_at col e = v + 1"
    unfolding value_at_eq[OF assms(1)] using assms(2) by (simp add: eq_diff_eq diff_eq_eq)
  then show ?thesis using max_plus_one[of v] by metis
qed

lemma col_invD:
  assumes "col_inv col"
  shows "col_shape col" "width_ok col" "col_count col \<le> col_max_entities col"
    "col_count col \<le> e \<Longrightarrow> e < col_max_entities col \<Longrightarrow> stored_at col e = 0"
    "e < col_max_entities col \<Longrightarrow> stored_at col e \<noteq> 0 \<Longrightarrow> cell_committed e col"
  using assms col_shapeD(5) by (auto simp: col_inv_def clear_tail_def set_cells_committed_def)

lemma value_at_same:
  assumes "col_inv col" "col_inv col'" "col_max_entities col' = col_max_entities col"
    and "\<And>e. e < col_max_entities col \<Longrightarrow> stored_at col' e = stored_at col e"
  shows "value_at col' = value_at col"
proof
  fix e
  note a = col_invD[OF assms(1)] and b = col_invD[OF assms(2)]
  show "value_at col' e = value_at col e"
  proof (cases "e < col_max_entities col")
    case True
    then show ?thesis
      using a(4)[of e] b(4)[of e] assms(3,4) unfolding value_at_eq[OF a(2)] value_at_eq[OF b(2)] by (auto simp: not_less)
  next
    case False
    then have "\<not> e < col_count col" "\<not> e < col_count col'" using a(3) b(3) assms(3) by auto
    then show ?thesis unfolding value_at_eq[OF a(2)] value_at_eq[OF b(2)] by simp
  qed
qed

lemma col_prep:
  assumes inv: "col_inv col" and e: "e < col_max_entities col" and p: "ensure_committed_for grow e col = (col1, ok)"
  shows "\<not> ok \<Longrightarrow> col1 = col"
    and "ok \<Longrightarrow> col_inv (ensure_count e col1)" "ok \<Longrightarrow> e < col_count (ensure_count e col1)" "ok \<Longrightarrow> cell_committed e (ensure_count e col1)"
      "ok \<Longrightarrow> value_at (ensure_count e col1) = value_at col" "ok \<Longrightarrow> col_value_size (ensure_count e col1) = col_value_size col"
      "ok \<Longrightarrow> col_max_entities (ensure_count e col1) = col_max_entities col" "ok \<Longrightarrow> col_count col \<le> col_count (ensure_count e col1)"
      "ok \<Longrightarrow> header_written (ensure_count e col1) \<longleftrightarrow> header_written col"
proof -
  note r = ensure_committed_for_result[OF p]
  note i = col_invD[OF inv]
  show "\<not> ok \<Longrightarrow> col1 = col" by (rule r(6))
  assume ok: "ok"
  let ?c = "ensure_count e col1"
  have s1: "col_shape col1" by (rule ensure_committed_for_shape[OF i(1) p])
  have cc: "cell_committed e col1" using r(7)[OF ok] col_shapeD(2)[OF i(1)] by blast
  have e1: "e < col_max_entities col1" using e r(4) by simp
  have hc: "is_committed COL_HEADER (col_region col1)" by (rule header_committed[OF s1 e1 cc]) simp
  note c = ensure_count_spec[OF s1 e1 hc]
  have st: "stored_at ?c e' = stored_at col e'" if "e' < col_max_entities col" for e'
    using c(3) c(7)[of e'] that r(3,4) same_mem(1)[OF r(1,3,5), of e'] by (intro stored_at_cong) simp_all
  have com: "cell_committed e' ?c \<longleftrightarrow> cell_committed e' col1" for e'
    using c(3,5,6) by (simp add: cell_committed_def cell_off_def is_committed_def)
  show sz: "col_value_size ?c = col_value_size col" and mx: "col_max_entities ?c = col_max_entities col" using c r by simp_all
  have w: "width_ok ?c" using i(2) sz by (simp add: width_ok_def)
  have "e \<noteq> - 1" using e word_order.extremum_strict by blast
  then have lt: "e < e + 1" using inc_less_eq_triv_imp[of e] by (auto simp: not_less[symmetric])
  show cnt: "col_count col \<le> col_count ?c" using c(2) r(2) by simp
  show "e < col_count ?c" unfolding c(2) using lt by (rule less_le_trans) simp
  show "cell_committed e ?c" using cc com by simp
  have ct: "clear_tail ?c"
    unfolding clear_tail_def using st cnt i(4) mx by (metis order_trans)
  have "set_cells_committed ?c"
    unfolding set_cells_committed_def com using st i(5) r(8) mx by metis
  then show inv2: "col_inv ?c" using c(1) w ct by (simp add: col_inv_def)
  show "value_at ?c = value_at col" by (rule value_at_same[OF inv inv2]) (use st mx in simp_all)
  show "header_written ?c \<longleftrightarrow> header_written col"
    using c(8) same_mem(2)[OF r(1,3,5) r(4)] by simp
qed

lemma col_put:
  assumes inv: "col_inv col" and e: "e < col_count col" and cc: "cell_committed e col" and f: "fits col x"
  shows "col_inv (store_at e x col)" "value_at (store_at e x col) = (value_at col)(e := (if x = 0 then None else Some (x - 1)))"
    "col_count (store_at e x col) = col_count col" "col_value_size (store_at e x col) = col_value_size col"
    "col_max_entities (store_at e x col) = col_max_entities col" "header_written (store_at e x col) \<longleftrightarrow> header_written col"
proof -
  note i = col_invD[OF inv]
  have em: "e < col_max_entities col" using e i(3) by (rule order_less_le_trans)
  note s = store_at_spec[OF i(1,2) em f cc]
  have com: "cell_committed e' (store_at e x col) \<longleftrightarrow> cell_committed e' col" for e'
    by (simp add: store_at_cell(1)[OF i(2)] cell_committed_def cell_off_def is_committed_def)
  have "clear_tail (store_at e x col)" unfolding clear_tail_def s(4,6) using s(3) i(4) e by (metis not_less)
  moreover have "set_cells_committed (store_at e x col)" unfolding set_cells_committed_def s(6) com using s(3) i(5) cc by metis
  ultimately show "col_inv (store_at e x col)" using s(1,2) by (simp add: col_inv_def)
  show "value_at (store_at e x col) = (value_at col)(e := (if x = 0 then None else Some (x - 1)))"
  proof
    fix e'
    show "value_at (store_at e x col) e' = ((value_at col)(e := (if x = 0 then None else Some (x - 1)))) e'"
      unfolding value_at_eq[OF s(2)] value_at_eq[OF i(2)] s(4) using s(3)[of e'] e i(3) by (auto dest: order_less_le_trans)
  qed
qed (use store_at_spec(4-7)[OF col_invD(1,2)[OF inv] _ f cc] order_less_le_trans[OF e col_invD(3)[OF inv]] in auto)

lemma col_clear_spec:
  assumes inv: "col_inv col" and e: "e < col_count col"
  shows "col_inv (col_clear e col)" "value_at (col_clear e col) = (value_at col)(e := None)"
    "col_count (col_clear e col) = col_count col" "col_value_size (col_clear e col) = col_value_size col"
    "col_max_entities (col_clear e col) = col_max_entities col" "header_written (col_clear e col) \<longleftrightarrow> header_written col"
proof -
  note i = col_invD[OF inv]
  have em: "e < col_max_entities col" using e i(3) by (rule order_less_le_trans)
  have z: "replicate (unat (col_value_size col)) 0 = cell_bytes col 0"
    using i(2) by (auto simp: width_ok_def cell_bytes_def zero_le_bytes)
  have eq: "col_clear e col = (if cell_committed e col then store_at e 0 col else col)"
    by (simp add: col_clear_put z store_at_cell(1)[OF i(2)])
  have f: "fits col 0" by (simp add: fits_def)
  have n: "value_at col e = None" if "\<not> cell_committed e col"
    using i(5)[OF em] that by (auto simp: value_at_eq[OF i(2)])
  show "col_inv (col_clear e col)" "value_at (col_clear e col) = (value_at col)(e := None)"
    "col_count (col_clear e col) = col_count col" "col_value_size (col_clear e col) = col_value_size col"
    "col_max_entities (col_clear e col) = col_max_entities col" "header_written (col_clear e col) \<longleftrightarrow> header_written col"
    using col_put[OF inv e _ f] inv n by (auto simp: eq fun_upd_idem_iff)
qed

section \<open>The store follows its column\<close>

definition himo_map :: "himo_store \<Rightarrow> u32 \<Rightarrow> u64 option" where
  "himo_map hs = value_at (hs_col hs)"

definition himo_ids :: "himo_store \<Rightarrow> u32 set" where
  "himo_ids hs = {e. e < col_count (hs_col hs)}"

definition himo_inv :: "himo_store \<Rightarrow> bool" where
  "himo_inv hs \<longleftrightarrow> col_inv (hs_col hs) \<and> col_value_size (hs_col hs) = vt_width (hs_value_type hs) \<and>
     (if hs_cyl_built hs then cyl_inv (himo_ids hs) (hs_cyl hs) (himo_map hs) else cyl_empty (hs_cyl hs)) \<and>
     length (hs_present_stripes hs) = PRESENT_STRIPES \<and>
     (hs_present_known hs \<longrightarrow> hs_present_base hs + present_delta hs = int (card (dom (himo_map hs))))"

definition env_ok :: "himo_env \<Rightarrow> bool" where
  "env_ok env \<longleftrightarrow> env_stripe env < PRESENT_STRIPES"

lemma himo_invD:
  assumes "himo_inv hs"
  shows "col_inv (hs_col hs)" "col_value_size (hs_col hs) = vt_width (hs_value_type hs)"
    "hs_cyl_built hs \<Longrightarrow> cyl_inv (himo_ids hs) (hs_cyl hs) (himo_map hs)" "\<not> hs_cyl_built hs \<Longrightarrow> cyl_empty (hs_cyl hs)"
    "length (hs_present_stripes hs) = PRESENT_STRIPES"
    "hs_present_known hs \<Longrightarrow> hs_present_base hs + present_delta hs = int (card (dom (himo_map hs)))"
    "width_ok (hs_col hs)"
  using assms by (auto simp: himo_inv_def col_inv_def)

lemma stored_holds:
  assumes "himo_inv hs" "e \<in> himo_ids hs" "v \<noteq> NO_VALUE"
  shows "stored_at (hs_col hs) e = v + 1 \<longleftrightarrow> himo_map hs e = Some v"
  using value_at_iff[OF himo_invD(7)[OF assms(1)], of e v] assms(2,3) by (simp add: himo_map_def himo_ids_def)

lemma no_max_value: "himo_inv hs \<Longrightarrow> himo_map hs e \<noteq> Some NO_VALUE"
  using value_at_iff[OF himo_invD(7)[of hs], of e "NO_VALUE"] value_at_eq[OF himo_invD(7)[of hs], of e]
  by (auto simp: himo_map_def split: if_splits)

text \<open>Values of the runs are never the one that cannot be stored.\<close>

lemma stored_zero:
  assumes "himo_inv hs" "e \<in> himo_ids hs"
  shows "stored_at (hs_col hs) e = 0 \<longleftrightarrow> himo_map hs e = None"
  using value_at_eq[OF himo_invD(7)[OF assms(1)], of e] assms(2) by (simp add: himo_map_def himo_ids_def)

subsection \<open>Building\<close>

lemma column_entries_set:
  assumes "width_ok col"
  shows "(e, v) \<in> set (column_entries col) \<longleftrightarrow> value_at col e = Some v" "distinct (map fst (column_entries col))"
    "fst ` set (column_entries col) \<subseteq> {e. e < col_count col}"
proof -
  have lt: "unat (col_count col) < 2 ^ 32" using unsigned_less[of "col_count col"] by simp
  let ?es = "filter (\<lambda>e. stored_at col e \<noteq> 0) (map word_of_nat [0..<unat (col_count col)])"
  have mf: "List.map_filter (\<lambda>i. let e = word_of_nat i; s = stored_at col e in if s \<noteq> 0 then Some (e, s - 1) else None) is =
      map (\<lambda>e. (e, stored_at col e - 1)) (filter (\<lambda>e. stored_at col e \<noteq> 0) (map word_of_nat is))" for "is" :: "nat list"
    by (induction "is") (simp_all add: List.map_filter_simps Let_def)
  have ce: "column_entries col = map (\<lambda>e. (e, stored_at col e - 1)) ?es"
    unfolding column_entries_def by (rule mf)
  have ids: "e \<in> set (map word_of_nat [0..<unat (col_count col)]) \<longleftrightarrow> e < col_count col" for e
  proof
    assume "e < col_count col"
    then show "e \<in> set (map word_of_nat [0..<unat (col_count col)])"
      by (intro image_eqI[of _ _ "unat e", THEN set_map[THEN equalityD2, THEN subsetD]]) (simp_all add: word_less_nat_alt)
  next
    assume "e \<in> set (map word_of_nat [0..<unat (col_count col)])"
    then obtain i where "i < unat (col_count col)" "e = word_of_nat i" by auto
    then show "e < col_count col"
      using lt by (simp add: word_less_nat_alt unat_of_nat take_bit_nat_eq_self)
  qed
  show "(e, v) \<in> set (column_entries col) \<longleftrightarrow> value_at col e = Some v"
    unfolding ce value_at_eq[OF assms] using ids[of e] by auto
  show "fst ` set (column_entries col) \<subseteq> {e. e < col_count col}" unfolding ce using ids by auto
  have "unat (word_of_nat i :: u32) = i" if "i < unat (col_count col)" for i
    using that lt by (simp add: unat_of_nat take_bit_nat_eq_self)
  then have "inj_on (word_of_nat :: nat \<Rightarrow> u32) {0..<unat (col_count col)}"
    by (intro inj_onI) (metis atLeastLessThan_iff)
  then show "distinct (map fst (column_entries col))" unfolding ce by (simp add: comp_def distinct_map)
qed

lemma ensure_built:
  assumes "himo_inv hs"
  shows "himo_inv (ensure_cylinder_built env hs)" "hs_cyl_built (ensure_cylinder_built env hs)"
    "hs_col (ensure_cylinder_built env hs) = hs_col hs" "himo_map (ensure_cylinder_built env hs) = himo_map hs"
    "hs_present_stripes (ensure_cylinder_built env hs) = hs_present_stripes hs"
    "hs_value_type (ensure_cylinder_built env hs) = hs_value_type hs"
proof -
  let ?h = "ensure_cylinder_built env hs"
  show f: "hs_cyl_built ?h" "hs_col ?h = hs_col hs" "himo_map ?h = himo_map hs" "hs_present_stripes ?h = hs_present_stripes hs"
    "hs_value_type ?h = hs_value_type hs"
    by (simp_all add: ensure_cylinder_built_def himo_map_def Let_def)
  have k: "hs_present_known ?h = hs_present_known hs" "hs_present_base ?h = hs_present_base hs"
    by (simp_all add: ensure_cylinder_built_def Let_def)
  show "himo_inv ?h"
  proof (cases "hs_cyl_built hs")
    case True
    then show ?thesis using assms by (simp add: ensure_cylinder_built_def)
  next
    case False
    define c where "c = (if hs_marks hs then init_slots (env_slots_ok env) (col_max_entities (hs_col hs)) (set_low_base (hs_dense_base_hint hs) (hs_cyl hs))
        else set_low_base (hs_dense_base_hint hs) (hs_cyl hs))"
    have em: "cyl_empty c" using himo_invD(4)[OF assms False] by (simp add: c_def cyl_empty_ops)
    have "hs_cyl ?h = cyl_build (column_entries (hs_col hs)) c"
      using False by (simp add: ensure_cylinder_built_def c_def Let_def)
    moreover have "cyl_inv (himo_ids hs) (cyl_build (column_entries (hs_col hs)) c) (himo_map hs)"
      by (rule cyl_build_inv[OF em])
        (use column_entries_set[OF himo_invD(7)[OF assms]] no_max_value[OF assms] in \<open>auto simp: himo_map_def himo_ids_def\<close>)
    ultimately show ?thesis using assms f k by (simp add: himo_inv_def himo_ids_def present_delta_def)
  qed
qed

subsection \<open>Writing\<close>

lemma note_old_spec:
  assumes "cyl_inv I (hs_cyl hs) M" "M e = old" "note_old old e hs = (hs', st)"
  shows "cyl_inv I (hs_cyl hs') (M(e := None))" "hs' = hs\<lparr>hs_cyl := hs_cyl hs'\<rparr>" "in_array w (hs_cyl hs') = in_array w (hs_cyl hs)"
    "st = Some (ov, q) \<Longrightarrow> old = Some ov"
proof -
  have "cyl_inv I (hs_cyl hs') (M(e := None)) \<and> hs' = hs\<lparr>hs_cyl := hs_cyl hs'\<rparr> \<and> in_array w (hs_cyl hs') = in_array w (hs_cyl hs) \<and>
      (st = Some (ov, q) \<longrightarrow> old = Some ov)"
  proof (cases old)
    case None
    then have "hs' = hs" "st = None" using assms(3) by (simp_all add: note_old_def)
    then show ?thesis using assms(1,2) None by (simp add: fun_upd_idem)
  next
    case (Some v)
    obtain c r where n: "note_stale_of_in v e (hs_cyl hs) = (c, r)" by (metis surj_pair)
    then have "hs' = hs\<lparr>hs_cyl := c\<rparr>" "st = map_option (\<lambda>s. (v, s)) r" using assms(3) Some by (simp_all add: note_old_def)
    then show ?thesis using cyl_note_stale(1,2)[OF assms(1) _ n] assms(2) Some by auto
  qed
  then show "cyl_inv I (hs_cyl hs') (M(e := None))" "hs' = hs\<lparr>hs_cyl := hs_cyl hs'\<rparr>" "in_array w (hs_cyl hs') = in_array w (hs_cyl hs)"
    "st = Some (ov, q) \<Longrightarrow> old = Some ov" by blast+
qed

text \<open>The compactions keep the column and the index.\<close>

definition same_but_index :: "himo_store \<Rightarrow> himo_store \<Rightarrow> bool" where
  "same_but_index hs' hs \<longleftrightarrow> (\<exists>c. hs' = hs\<lparr>hs_cyl := c\<rparr>) \<and>
     (cyl_inv (himo_ids hs) (hs_cyl hs) (himo_map hs) \<longrightarrow> cyl_inv (himo_ids hs) (hs_cyl hs') (himo_map hs))"

lemma same_but_indexI:
  "(cyl_inv (himo_ids hs) (hs_cyl hs) (himo_map hs) \<Longrightarrow> cyl_inv (himo_ids hs) c (himo_map hs)) \<Longrightarrow>
    same_but_index (hs\<lparr>hs_cyl := c\<rparr>) hs"
  unfolding same_but_index_def by (intro conjI exI[of _ c]) simp_all

lemma same_but_index_refl: "same_but_index hs hs"
  unfolding same_but_index_def by (intro conjI exI[of _ "hs_cyl hs"]) simp_all

lemma same_but_index_fields:
  assumes "same_but_index hs' hs"
  shows "hs_col hs' = hs_col hs" "hs_present_stripes hs' = hs_present_stripes hs" "hs_cyl_built hs' = hs_cyl_built hs"
    "hs_present_known hs' = hs_present_known hs" "hs_present_base hs' = hs_present_base hs" "hs_value_type hs' = hs_value_type hs"
    "himo_map hs' = himo_map hs" "himo_ids hs' = himo_ids hs" "present_delta hs' = present_delta hs" "hs_marks hs' = hs_marks hs"
proof -
  obtain c where "hs' = hs\<lparr>hs_cyl := c\<rparr>" using assms by (metis same_but_index_def)
  then show "hs_col hs' = hs_col hs" "hs_present_stripes hs' = hs_present_stripes hs" "hs_cyl_built hs' = hs_cyl_built hs"
    "hs_present_known hs' = hs_present_known hs" "hs_present_base hs' = hs_present_base hs" "hs_value_type hs' = hs_value_type hs"
    "himo_map hs' = himo_map hs" "himo_ids hs' = himo_ids hs" "present_delta hs' = present_delta hs" "hs_marks hs' = hs_marks hs"
    by (simp_all add: himo_map_def himo_ids_def present_delta_def)
qed

lemma same_but_index_trans:
  assumes "same_but_index hs2 hs1" "same_but_index hs1 hs"
  shows "same_but_index hs2 hs"
proof -
  obtain c1 c2 where "hs1 = hs\<lparr>hs_cyl := c1\<rparr>" "hs2 = hs1\<lparr>hs_cyl := c2\<rparr>" using assms by (metis same_but_index_def)
  moreover from this have "hs2 = hs\<lparr>hs_cyl := c2\<rparr>" by simp
  ultimately show ?thesis using assms same_but_index_fields(7,8)[OF assms(2)] unfolding same_but_index_def by metis
qed

lemma same_but_index_inv:
  assumes "himo_inv hs" "same_but_index hs' hs" "hs_cyl_built hs"
  shows "himo_inv hs'"
proof -
  obtain c where c: "hs' = hs\<lparr>hs_cyl := c\<rparr>" using assms(2) by (metis same_but_index_def)
  have "cyl_inv (himo_ids hs) c (himo_map hs)"
    using assms(2) himo_invD(3)[OF assms(1,3)] by (simp add: same_but_index_def c)
  then show ?thesis using assms(1,3) unfolding c by (simp add: himo_inv_def himo_ids_def himo_map_def present_delta_def)
qed

lemma col_holds:
  assumes "width_ok (hs_col hs)" "e \<in> himo_ids hs" "v \<noteq> NO_VALUE"
  shows "stored_sync (hs_col hs) e = v + 1 \<longleftrightarrow> himo_map hs e = Some v" "stored_at (hs_col hs) e = v + 1 \<longleftrightarrow> himo_map hs e = Some v"
  using assms value_at_iff[OF assms(1), of e v] by (simp_all add: himo_map_def himo_ids_def stored_sync_eq)

lemma maybe_compact_same:
  assumes w: "width_ok (hs_col hs)" and v: "v \<noteq> NO_VALUE"
  shows "same_but_index (maybe_compact v len live hs) hs"
proof (cases "len \<ge> COMPACT_MIN_LEN \<and> (len - live) * 2 \<ge> len")
  case True
  obtain c n where c: "compact_bucket v (\<lambda>e. holds_value (hs_col hs) e v) (hs_cyl hs) = (c, n)" by (metis surj_pair)
  have "maybe_compact v len live hs = hs\<lparr>hs_cyl := c\<rparr>" using True c by (simp add: maybe_compact_def)
  moreover have "cyl_inv (himo_ids hs) c (himo_map hs)" if "cyl_inv (himo_ids hs) (hs_cyl hs) (himo_map hs)"
    by (rule cyl_compact_bucket(1)[OF that c]) (simp add: holds_value_def col_holds(1)[OF w _ v])
  ultimately show ?thesis using same_but_indexI[of hs c] by simp
qed (auto simp: maybe_compact_def same_but_index_refl)

lemma maybe_compact_stale_same:
  assumes "width_ok (hs_col hs)" "\<forall>v q. stale = Some (v, q) \<longrightarrow> v \<noteq> NO_VALUE"
  shows "same_but_index (maybe_compact_stale stale hs) hs"
  using maybe_compact_same[OF assms(1)] assms(2)
  by (auto simp: maybe_compact_stale_def same_but_index_refl split: option.split)

lemma maybe_compact_sparse_same:
  assumes w: "width_ok (hs_col hs)"
  shows "same_but_index (maybe_compact_sparse hs) hs"
proof (cases "sparse_needs_compact (hs_cyl hs)")
  case True
  obtain c n where c: "compact_sparse (\<lambda>(v, e). stored_sync (hs_col hs) e = v + 1) (hs_cyl hs) = (c, n)" by (metis surj_pair)
  have "maybe_compact_sparse hs = hs\<lparr>hs_cyl := c\<rparr>" using True c by (simp add: maybe_compact_sparse_def)
  moreover have "cyl_inv (himo_ids hs) c (himo_map hs)" if "cyl_inv (himo_ids hs) (hs_cyl hs) (himo_map hs)"
    by (rule cyl_compact_sparse(1)[OF that c]) (simp add: col_holds(1)[OF w])
  ultimately show ?thesis using same_but_indexI[of hs c] by simp
qed (simp add: maybe_compact_sparse_def same_but_index_refl)

lemma value_fits:
  assumes "col_value_size col = vt_width t" "v \<le> vt_max_value t"
  shows "fits col (v + 1)" "v \<noteq> NO_VALUE" "v + 1 \<noteq> 0" "v + 1 - 1 = v"
proof -
  have lt: "unat v < 0xFFFFFFFFFFFFFFFF" and n: "t \<noteq> Number64 \<Longrightarrow> unat v < 0xFFFFFFFF"
    using assms(2) by (auto simp: vt_max_value_def word_le_nat_alt split: if_splits)
  then show nv: "v \<noteq> NO_VALUE" by auto
  then show "v + 1 \<noteq> 0" "v + 1 - 1 = v" using max_plus_one[of v] by simp_all
  have "unat (v + 1) = unat v + 1" using lt by (simp add: unat_word_ariths)
  then show "fits col (v + 1)" using n assms(1) by (cases "t = Number64") (simp_all add: fits_def vt_width_def)
qed

lemma sum_list_add_at: "i < length xs \<Longrightarrow> sum_list (xs[i := xs ! i + d]) = sum_list xs + d" for xs :: "int list"
proof (induction xs arbitrary: i)
  case (Cons x xs)
  then show ?case by (cases i) simp_all
qed simp

lemma present_add_delta:
  assumes "length (hs_present_stripes hs) = PRESENT_STRIPES" "env_ok env"
  shows "present_delta (present_add env d hs) = present_delta hs + d" "length (hs_present_stripes (present_add env d hs)) = PRESENT_STRIPES"
  using assms by (simp_all add: present_delta_def present_add_def env_ok_def sum_list_add_at)

lemma card_dom_upd:
  "card (dom (M(e \<mapsto> v))) = card (dom M) + of_bool (M e = None)" "card (dom (M(e := None))) = card (dom M) - of_bool (M e \<noteq> None)"
  for M :: "u32 \<Rightarrow> u64 option"
  by (auto simp: card_insert_if card_Diff_singleton_if domIff)

text \<open>Making room for a cell changes neither the values nor the index.\<close>

lemma prep_inv:
  assumes inv: "himo_inv hs" and e: "e < col_max_entities (hs_col hs)"
    and p: "ensure_committed_for grow e (hs_col hs) = (col, True)"
  defines "hs1 \<equiv> hs\<lparr>hs_col := ensure_count e col\<rparr>"
  shows "himo_inv hs1" "himo_map hs1 = himo_map hs" "e < col_count (hs_col hs1)" "cell_committed e (hs_col hs1)"
    "col_max_entities (hs_col hs1) = col_max_entities (hs_col hs)" "himo_ids hs \<subseteq> himo_ids hs1" "e \<in> himo_ids hs1"
    "header_written (hs_col hs1) \<longleftrightarrow> header_written (hs_col hs)"
proof -
  note c = col_prep(2-9)[OF himo_invD(1)[OF inv] e p TrueI]
  show m: "himo_map hs1 = himo_map hs" using c(4) by (simp add: himo_map_def hs1_def)
  show "e < col_count (hs_col hs1)" "cell_committed e (hs_col hs1)" "col_max_entities (hs_col hs1) = col_max_entities (hs_col hs)"
    "header_written (hs_col hs1) \<longleftrightarrow> header_written (hs_col hs)"
    using c by (simp_all add: hs1_def)
  show ids: "himo_ids hs \<subseteq> himo_ids hs1" using c(7) by (auto simp: himo_ids_def hs1_def)
  show "e \<in> himo_ids hs1" using c(2) by (simp add: himo_ids_def hs1_def)
  have "hs_cyl_built hs \<Longrightarrow> cyl_inv (himo_ids hs1) (hs_cyl hs) (himo_map hs)"
    using cyl_inv_mono[OF himo_invD(3)[OF inv] ids] by simp
  then show "himo_inv hs1"
    using inv c(1,5) m unfolding himo_inv_def hs1_def by (simp add: present_delta_def)
qed

text \<open>Writing a cell, with an index that already has the new value.\<close>

lemma put_inv:
  assumes inv: "himo_inv hs" and env: "env_ok env" and e: "e < col_count (hs_col hs)" "cell_committed e (hs_col hs)"
    and x: "fits (hs_col hs) x" and d: "d = of_bool (x \<noteq> 0) - of_bool (himo_map hs e \<noteq> None)"
    and c: "hs_cyl_built hs \<Longrightarrow> cyl_inv (himo_ids hs) c ((himo_map hs)(e := (if x = 0 then None else Some (x - 1))))"
      "\<not> hs_cyl_built hs \<Longrightarrow> c = hs_cyl hs"
    and hs': "hs_col hs' = store_at e x (hs_col hs)" "hs_cyl hs' = c" "hs_cyl_built hs' = hs_cyl_built hs"
      "hs_value_type hs' = hs_value_type hs" "hs_present_known hs' = hs_present_known hs" "hs_present_base hs' = hs_present_base hs"
      "present_delta hs' = present_delta hs + d" "length (hs_present_stripes hs') = PRESENT_STRIPES"
  shows "himo_inv hs'" "himo_map hs' = (himo_map hs)(e := (if x = 0 then None else Some (x - 1)))" "himo_ids hs' = himo_ids hs"
    "col_max_entities (hs_col hs') = col_max_entities (hs_col hs)" "header_written (hs_col hs') \<longleftrightarrow> header_written (hs_col hs)"
proof -
  note p = col_put[OF himo_invD(1)[OF inv] e x]
  show m: "himo_map hs' = (himo_map hs)(e := (if x = 0 then None else Some (x - 1)))" using p(2) by (simp add: himo_map_def hs')
  show ids: "himo_ids hs' = himo_ids hs" using p(3) by (simp add: himo_ids_def hs')
  show "col_max_entities (hs_col hs') = col_max_entities (hs_col hs)" "header_written (hs_col hs') \<longleftrightarrow> header_written (hs_col hs)"
    using p(5,6) by (simp_all add: hs')
  have fin: "0 < card (dom (himo_map hs))" if "himo_map hs e \<noteq> None"
    using that by (auto simp: card_gt_0_iff dom_def)
  have "hs_present_known hs \<Longrightarrow> hs_present_base hs + (present_delta hs + d) = int (card (dom (himo_map hs')))"
    using himo_invD(6)[OF inv] fin unfolding m d by (cases "x = 0") (auto simp: card_dom_upd simp del: dom_fun_upd)
  then show "himo_inv hs'"
    using himo_invD(2,4,5)[OF inv] p(1,4) c m ids unfolding himo_inv_def by (simp add: hs')
qed

lemma store_cell_fields:
  assumes "length (hs_present_stripes hs) = PRESENT_STRIPES" "env_ok env"
  shows "hs_col (store_cell env e v b hs) = store_at e (v + 1) (hs_col hs)" "hs_cyl (store_cell env e v b hs) = hs_cyl hs"
    "hs_cyl_built (store_cell env e v b hs) = hs_cyl_built hs" "hs_value_type (store_cell env e v b hs) = hs_value_type hs"
    "hs_present_known (store_cell env e v b hs) = hs_present_known hs" "hs_present_base (store_cell env e v b hs) = hs_present_base hs"
    "present_delta (store_cell env e v b hs) = present_delta hs + of_bool b"
    "length (hs_present_stripes (store_cell env e v b hs)) = PRESENT_STRIPES"
  using assms present_add_delta[of "hs\<lparr>hs_col := store_at e (v + 1) (hs_col hs)\<rparr>" env 1]
  by (simp_all add: store_cell_def Let_def present_add_def present_delta_def)

text \<open>The state after an index step and a cell write, before compaction.\<close>

lemma set_steps:
  assumes inv: "himo_inv hs" and env: "env_ok env" and e: "e < col_count (hs_col hs)" "cell_committed e (hs_col hs)"
    and v: "v \<le> vt_max_value (hs_value_type hs)" and b: "b = (himo_map hs e = None)"
    and hs2: "hs2 = hs\<lparr>hs_cyl := c2\<rparr>"
    and c: "hs_cyl_built hs \<Longrightarrow> cyl_inv (himo_ids hs) c ((himo_map hs)(e \<mapsto> v))" "\<not> hs_cyl_built hs \<Longrightarrow> c = hs_cyl hs"
  shows "himo_inv ((store_cell env e v b hs2)\<lparr>hs_cyl := c\<rparr>)" "himo_map ((store_cell env e v b hs2)\<lparr>hs_cyl := c\<rparr>) = (himo_map hs)(e \<mapsto> v)"
    "col_max_entities (hs_col ((store_cell env e v b hs2)\<lparr>hs_cyl := c\<rparr>)) = col_max_entities (hs_col hs)"
    "header_written (hs_col ((store_cell env e v b hs2)\<lparr>hs_cyl := c\<rparr>)) \<longleftrightarrow> header_written (hs_col hs)"
proof -
  note f = value_fits[OF himo_invD(2)[OF inv] v]
  have len: "length (hs_present_stripes hs2) = PRESENT_STRIPES" using himo_invD(5)[OF inv] by (simp add: hs2)
  note sf = store_cell_fields[OF len env, of e v b]
  let ?hs = "(store_cell env e v b hs2)\<lparr>hs_cyl := c\<rparr>"
  have fld: "hs_col ?hs = store_at e (v + 1) (hs_col hs)" "hs_cyl ?hs = c" "hs_cyl_built ?hs = hs_cyl_built hs"
      "hs_value_type ?hs = hs_value_type hs" "hs_present_known ?hs = hs_present_known hs" "hs_present_base ?hs = hs_present_base hs"
      "present_delta ?hs = present_delta hs + (of_bool (v + 1 \<noteq> 0) - of_bool (himo_map hs e \<noteq> None))"
      "length (hs_present_stripes ?hs) = PRESENT_STRIPES"
    using sf f(3) by (simp_all add: hs2 b present_delta_def)
  have c': "hs_cyl_built hs \<Longrightarrow> cyl_inv (himo_ids hs) c ((himo_map hs)(e := (if v + 1 = 0 then None else Some (v + 1 - 1))))"
    using c(1) f(3,4) by simp
  note p = put_inv[OF inv env e f(1) refl c' c(2) fld]
  show "himo_inv ?hs" "himo_map ?hs = (himo_map hs)(e \<mapsto> v)" "col_max_entities (hs_col ?hs) = col_max_entities (hs_col hs)"
    "header_written (hs_col ?hs) \<longleftrightarrow> header_written (hs_col hs)"
    using p f(3,4) by simp_all
qed

text \<open>What every write does: it keeps the invariant, and the map changes at one id.\<close>

definition wrote :: "himo_store \<Rightarrow> u32 \<Rightarrow> u64 option \<Rightarrow> himo_store \<Rightarrow> bool" where
  "wrote hs e new hs' \<longleftrightarrow> himo_inv hs' \<and> hs_cyl_built hs' = hs_cyl_built hs \<and> himo_map hs' = (himo_map hs)(e := new) \<and>
     col_max_entities (hs_col hs') = col_max_entities (hs_col hs) \<and> hs_value_type hs' = hs_value_type hs \<and>
     (header_written (hs_col hs') \<longleftrightarrow> header_written (hs_col hs))"

lemma same_wrote:
  assumes "wrote hs e new h" "same_but_index h' h" "hs_cyl_built h"
  shows "wrote hs e new h'"
  using assms same_but_index_fields[OF assms(2)] same_but_index_inv[OF _ assms(2,3)] by (simp add: wrote_def)

lemma wrote_compact:
  assumes "wrote hs e new h" "hs_cyl_built h" "\<forall>ov q. stale = Some (ov, q) \<longrightarrow> ov \<noteq> NO_VALUE"
  shows "wrote hs e new (maybe_compact_stale stale h)" "wrote hs e new (maybe_compact_sparse (maybe_compact_stale stale h))"
proof -
  have i: "himo_inv h" using assms(1) by (simp add: wrote_def)
  note s = maybe_compact_stale_same[OF himo_invD(7)[OF i] assms(3)]
  show w: "wrote hs e new (maybe_compact_stale stale h)" by (rule same_wrote[OF assms(1) s assms(2)])
  have b: "hs_cyl_built (maybe_compact_stale stale h)" using same_but_index_fields(3)[OF s] assms(2) by simp
  have "himo_inv (maybe_compact_stale stale h)" using w by (simp add: wrote_def)
  from maybe_compact_sparse_same[OF himo_invD(7)[OF this]]
  show "wrote hs e new (maybe_compact_sparse (maybe_compact_stale stale h))" by (rule same_wrote[OF w _ b])
qed

lemma index_write:
  assumes inv: "himo_inv hs" and env: "env_ok env" and built: "hs_cyl_built hs"
    and e: "e < col_count (hs_col hs)" "cell_committed e (hs_col hs)" and v: "v \<le> vt_max_value (hs_value_type hs)"
    and n: "note_old old e hs = (hs2, stale)" and old: "himo_map hs e = old"
  defines "hs3 \<equiv> store_cell env e v (old = None) hs2"
  shows "hs_cyl hs3 = hs_cyl hs2" "cyl_inv (himo_ids hs) (hs_cyl hs2) ((himo_map hs)(e := None))"
    "in_array w (hs_cyl hs2) = in_array w (hs_cyl hs)"
    "\<And>x w. x \<in> himo_ids hs \<Longrightarrow> w \<noteq> NO_VALUE \<Longrightarrow> stored_sync (hs_col hs3) x = w + 1 \<longleftrightarrow> ((himo_map hs)(e \<mapsto> v)) x = Some w"
    "cyl_inv (himo_ids hs) c ((himo_map hs)(e \<mapsto> v)) \<Longrightarrow> wrote hs e (Some v) (maybe_compact_stale stale (hs3\<lparr>hs_cyl := c\<rparr>))"
    "cyl_inv (himo_ids hs) c ((himo_map hs)(e \<mapsto> v)) \<Longrightarrow>
      wrote hs e (Some v) (maybe_compact_sparse (maybe_compact_stale stale (hs3\<lparr>hs_cyl := c\<rparr>)))"
proof -
  note no = note_old_spec[OF himo_invD(3)[OF inv built] old n]
  show "cyl_inv (himo_ids hs) (hs_cyl hs2) ((himo_map hs)(e := None))" "in_array w (hs_cyl hs2) = in_array w (hs_cyl hs)"
    by (rule no(1), rule no(3))
  obtain c2 where c2: "hs2 = hs\<lparr>hs_cyl := c2\<rparr>" using no(2) by metis
  have len2: "length (hs_present_stripes hs2) = PRESENT_STRIPES" using himo_invD(5)[OF inv] by (simp add: c2)
  note sf = store_cell_fields[OF len2 env, of e v "old = None", folded hs3_def]
  show "hs_cyl hs3 = hs_cyl hs2" by (rule sf(2))
  note fit = value_fits[OF himo_invD(2)[OF inv] v]
  have "hs_col hs3 = store_at e (v + 1) (hs_col hs)" using sf(1) by (simp add: c2)
  note p = col_put[OF himo_invD(1)[OF inv] e fit(1), folded this]
  show "stored_sync (hs_col hs3) x = w + 1 \<longleftrightarrow> ((himo_map hs)(e \<mapsto> v)) x = Some w" if "x \<in> himo_ids hs" "w \<noteq> NO_VALUE" for x w
    using value_at_iff[OF col_invD(2)[OF p(1)], of x w] that p(2,3) fit(3,4)
    by (simp add: stored_sync_eq[OF col_invD(2)[OF p(1)]] himo_ids_def himo_map_def)
  assume c: "cyl_inv (himo_ids hs) c ((himo_map hs)(e \<mapsto> v))"
  have st: "himo_inv (hs3\<lparr>hs_cyl := c\<rparr>)" "himo_map (hs3\<lparr>hs_cyl := c\<rparr>) = (himo_map hs)(e \<mapsto> v)"
    "col_max_entities (hs_col (hs3\<lparr>hs_cyl := c\<rparr>)) = col_max_entities (hs_col hs)"
    "header_written (hs_col (hs3\<lparr>hs_cyl := c\<rparr>)) \<longleftrightarrow> header_written (hs_col hs)"
    unfolding hs3_def using set_steps[OF inv env e v _ c2, of "old = None" c] c built old by simp_all
  have b3: "hs_cyl_built (hs3\<lparr>hs_cyl := c\<rparr>)" using sf(3) built by (simp add: c2)
  have w: "wrote hs e (Some v) (hs3\<lparr>hs_cyl := c\<rparr>)" using st b3 built sf(4) by (simp add: wrote_def c2)
  have "\<forall>ov q. stale = Some (ov, q) \<longrightarrow> ov \<noteq> NO_VALUE" using no(4) old no_max_value[OF inv] by blast
  from wrote_compact[OF w b3 this]
  show "wrote hs e (Some v) (maybe_compact_stale stale (hs3\<lparr>hs_cyl := c\<rparr>))"
    "wrote hs e (Some v) (maybe_compact_sparse (maybe_compact_stale stale (hs3\<lparr>hs_cyl := c\<rparr>)))" .
qed

lemma set_indexed_differs:
  assumes inv: "himo_inv hs" and env: "env_ok env" and built: "hs_cyl_built hs"
    and e: "e < col_count (hs_col hs)" "cell_committed e (hs_col hs)" and v: "v \<le> vt_max_value (hs_value_type hs)"
    and n: "note_old (himo_map hs e) e hs = (hs2, stale)"
  defines "hs3 \<equiv> store_cell env e v (himo_map hs e = None) hs2"
  shows "in_array v (hs_cyl hs) \<Longrightarrow> \<exists>c. push_in_array e v (hs_cyl hs3) = Some c \<and>
      wrote hs e (Some v) (maybe_compact_stale stale (hs3\<lparr>hs_cyl := c\<rparr>)) \<and>
      wrote hs e (Some v) (maybe_compact_sparse (maybe_compact_stale stale (hs3\<lparr>hs_cyl := c\<rparr>)))"
    "wrote hs e (Some v) (maybe_compact_sparse (maybe_compact_stale stale
      (hs3\<lparr>hs_cyl := insert_with e v g (\<lambda>(w, x). stored_sync (hs_col hs3) x = w + 1) (hs_cyl hs3)\<rparr>)))"
proof -
  note iw = index_write[OF inv env built e v n refl, folded hs3_def]
  have eI: "e \<in> himo_ids hs" using e(1) by (simp add: himo_ids_def)
  have none: "((himo_map hs)(e := None)) e = None" by simp
  have upd: "((himo_map hs)(e := None))(e \<mapsto> v) = (himo_map hs)(e \<mapsto> v)" by simp
  show "\<exists>c. push_in_array e v (hs_cyl hs3) = Some c \<and> wrote hs e (Some v) (maybe_compact_stale stale (hs3\<lparr>hs_cyl := c\<rparr>)) \<and>
      wrote hs e (Some v) (maybe_compact_sparse (maybe_compact_stale stale (hs3\<lparr>hs_cyl := c\<rparr>)))" if "in_array v (hs_cyl hs)"
    using cyl_push_in_array[OF iw(2) none eI, of v] that iw(3)[of v] iw(5,6) unfolding upd iw(1) by blast
  have "cyl_inv (himo_ids hs) (insert_with e v g (\<lambda>(w, x). stored_sync (hs_col hs3) x = w + 1) (hs_cyl hs3)) ((himo_map hs)(e \<mapsto> v))"
    unfolding iw(1) upd[symmetric]
    by (rule cyl_insert_with[OF iw(2) none eI value_fits(2)[OF himo_invD(2)[OF inv] v]]) (use iw(4) in simp)
  then show "wrote hs e (Some v) (maybe_compact_sparse (maybe_compact_stale stale
      (hs3\<lparr>hs_cyl := insert_with e v g (\<lambda>(w, x). stored_sync (hs_col hs3) x = w + 1) (hs_cyl hs3)\<rparr>)))" by (rule iw(6))
qed

lemma set_indexed_spec:
  assumes inv: "himo_inv hs" and env: "env_ok env" and built: "hs_cyl_built hs" and e: "e < col_max_entities (hs_col hs)"
    and v: "v \<le> vt_max_value (hs_value_type hs)"
  shows "\<exists>hs' ok. set_indexed env e v hs = Some (hs', ok) \<and> (if ok then wrote hs e (Some v) hs' else hs' = hs)"
proof -
  obtain col ok where p: "ensure_committed_for (env_grow env) e (hs_col hs) = (col, ok)" by (metis surj_pair)
  show ?thesis
  proof (cases ok)
    case False
    then have "col = hs_col hs" using col_prep(1)[OF himo_invD(1)[OF inv] e p] by simp
    then show ?thesis using p False by (intro exI[of _ hs] exI[of _ False]) (simp add: set_indexed_def)
  next
    case True
    define hs1 where "hs1 = hs\<lparr>hs_col := ensure_count e col\<rparr>"
    have p': "ensure_committed_for (env_grow env) e (hs_col hs) = (col, True)" using p True by simp
    note pr = prep_inv[OF inv e p', folded hs1_def]
    have b1: "hs_cyl_built hs1" and t1: "hs_value_type hs1 = hs_value_type hs" using built by (simp_all add: hs1_def)
    have old: "value_at (hs_col hs1) e = himo_map hs1 e" by (simp add: himo_map_def)
    have w: "wrote hs e (Some v) h" if "wrote hs1 e (Some v) h" for h
      using that pr(2,5,8) t1 built b1 by (simp add: wrote_def)
    show ?thesis
    proof (cases "himo_map hs1 e = Some v")
      case same: True
      then have "set_indexed env e v hs = Some (hs1, True)"
        using p' by (simp add: set_indexed_def Let_def hs1_def[symmetric] old)
      moreover have "(himo_map hs)(e \<mapsto> v) = himo_map hs" using same pr(2) by (auto simp: fun_upd_idem_iff)
      ultimately show ?thesis using pr(1,2,5,8) b1 built t1 by (simp add: wrote_def ex_bool_eq)
    next
      case differ: False
      obtain hs2 stale where n: "note_old (himo_map hs1 e) e hs1 = (hs2, stale)" by (metis surj_pair)
      note sd = set_indexed_differs[OF pr(1) env b1 pr(3,4) _ n, of v]
      have v1: "v \<le> vt_max_value (hs_value_type hs1)" using v by (simp add: t1)
      show ?thesis
        using sd(1)[OF v1] sd(2)[OF v1] w differ p' n
        by (fastforce simp: set_indexed_def Let_def hs1_def[symmetric] old)
    qed
  qed
qed

text \<open>
  \<^verbatim>\<open>set\<close> with an id of the column and a disk that may be full: it never panics; when it
  reports success, exactly this id has the new value, and when it reports failure nothing changed.
\<close>

theorem himo_set_spec:
  assumes inv: "himo_inv hs" and env: "env_ok env" and e: "e < col_max_entities (hs_col hs)"
  shows "\<exists>hs' ok. himo_set env e v hs = Some (hs', ok) \<and> (if ok then wrote hs e (Some v) hs' else hs' = hs) \<and>
    (v > vt_max_value (hs_value_type hs) \<longrightarrow> \<not> ok)"
proof (cases "v > vt_max_value (hs_value_type hs)")
  case True
  then show ?thesis by (intro exI[of _ hs] exI[of _ False]) (simp add: himo_set_def)
next
  case False
  then have v: "v \<le> vt_max_value (hs_value_type hs)" by simp
  show ?thesis
  proof (cases "hs_cyl_built hs")
    case True
    then show ?thesis using set_indexed_spec[OF inv env True e v] False by (simp add: himo_set_def)
  next
    case unb: False
    obtain col ok where p: "ensure_committed_for (env_grow env) e (hs_col hs) = (col, ok)" by (metis surj_pair)
    have st: "himo_set env e v hs = Some (store_unindexed env e v hs)" using unb False by (simp add: himo_set_def)
    show ?thesis
    proof (cases ok)
      case no: False
      then have "col = hs_col hs" using col_prep(1)[OF himo_invD(1)[OF inv] e p] by simp
      then show ?thesis using p no False by (simp add: st store_unindexed_def ex_bool_eq)
    next
      case True
      define hs1 where "hs1 = hs\<lparr>hs_col := ensure_count e col\<rparr>"
      have p': "ensure_committed_for (env_grow env) e (hs_col hs) = (col, True)" using p True by simp
      note pr = prep_inv[OF inv e p', folded hs1_def]
      have f1: "\<not> hs_cyl_built hs1" "hs_value_type hs1 = hs_value_type hs" "hs_cyl hs1 = hs_cyl hs" using unb by (simp_all add: hs1_def)
      have old: "value_at (hs_col hs1) e = himo_map hs1 e" by (simp add: himo_map_def)
      have su: "store_unindexed env e v hs = (if himo_map hs1 e \<noteq> Some v then (store_cell env e v (himo_map hs1 e = None) hs1, True) else (hs1, True))"
        using p' by (simp add: store_unindexed_def Let_def hs1_def[symmetric] old)
      show ?thesis
      proof (cases "himo_map hs1 e = Some v")
        case same: True
        then have "(himo_map hs)(e \<mapsto> v) = himo_map hs" using pr(2) by (auto simp: fun_upd_idem_iff)
        then show ?thesis using pr(1,2,5,8) f1 unb False same by (simp add: st su wrote_def ex_bool_eq)
      next
        case differ: False
        let ?h = "store_cell env e v (himo_map hs1 e = None) hs1"
        have v1: "v \<le> vt_max_value (hs_value_type hs1)" using v f1 by simp
        note ss = set_steps[OF pr(1) env pr(3,4) v1 refl, of hs1 "hs_cyl hs1" "hs_cyl hs1"]
        note sf = store_cell_fields[OF himo_invD(5)[OF pr(1)] env, of e v "himo_map hs1 e = None"]
        have "?h\<lparr>hs_cyl := hs_cyl hs1\<rparr> = ?h" using sf(2) by simp
        then have "wrote hs e (Some v) ?h" using ss f1 pr(2,5,8) unb sf(3,4) by (simp add: wrote_def)
        then show ?thesis using differ False by (simp add: st su ex_bool_eq)
      qed
    qed
  qed
qed

end
