(* ===== verification/Himo_Ops.thy ===== *)
theory Himo_Ops
  imports Himo_Correct
begin

text \<open>
  The remaining operations of a column store: what removing, restoring, compacting, opening and
  reading do to the values of the column, stated over the same map as \<^verbatim>\<open>himo_set\<close>.
\<close>

section \<open>Removing and restoring\<close>

lemma forget_slot_inv:
  assumes inv: "cyl_inv I c M" and e: "M e = None"
  shows "cyl_inv I (forget_slot e c) M"
proof -
  let ?f = "forget_slot e c"
  have wf: "writer_dense_at w ?f = writer_dense_at w c" "in_array w ?f = in_array w c" for w
    by (rule writer_fields in_array_fields; simp add: forget_slot_def)+
  have "bucket_inv I on (\<lambda>x. slot_get x ?f) (holders M w) s = bucket_inv I on (\<lambda>x. slot_get x c) (holders M w) s" for on w s
    by (rule bucket_inv_cong) (use e in \<open>auto simp: holders_def forget_slot_def intro: slot_get_put\<close>)
  then have "dense_inv I ?f M = dense_inv I c M" by (simp add: dense_inv_def wf) (simp add: forget_slot_def)
  moreover have "sparse_inv I ?f M = sparse_inv I c M" by (rule sparse_inv_fields) (simp_all add: forget_slot_def)
  ultimately show ?thesis using inv by (simp add: cyl_inv_def)
qed

lemma col_clear_store:
  assumes "himo_inv hs" "himo_map hs e = Some v"
  shows "col_clear e (hs_col hs) = store_at e 0 (hs_col hs)" "cell_committed e (hs_col hs)" "e < col_count (hs_col hs)"
proof -
  note i = col_invD[OF himo_invD(1)[OF assms(1)]]
  have v: "e < col_count (hs_col hs)" "stored_at (hs_col hs) e \<noteq> 0"
    using assms(2) by (auto simp: himo_map_def value_at_eq[OF i(2)] split: if_splits)
  then have em: "e < col_max_entities (hs_col hs)" using i(3) by (auto dest: order_less_le_trans)
  show cc: "cell_committed e (hs_col hs)" "e < col_count (hs_col hs)" using i(5)[OF em v(2)] v(1) .
  have "replicate (unat (col_value_size (hs_col hs))) 0 = cell_bytes (hs_col hs) 0"
    using i(2) by (auto simp: width_ok_def cell_bytes_def zero_le_bytes)
  then show "col_clear e (hs_col hs) = store_at e 0 (hs_col hs)" using cc by (simp add: col_clear_put store_at_cell(1)[OF i(2)])
qed

lemma put_cell_wrote:
  assumes inv: "himo_inv hs" and env: "env_ok env" and e: "e < col_count (hs_col hs)" "cell_committed e (hs_col hs)"
    and x: "fits (hs_col hs) x" and d: "d = of_bool (x \<noteq> 0) - of_bool (himo_map hs e \<noteq> None)"
    and c: "hs_cyl_built hs \<Longrightarrow> cyl_inv (himo_ids hs) c ((himo_map hs)(e := (if x = 0 then None else Some (x - 1))))"
      "\<not> hs_cyl_built hs \<Longrightarrow> c = hs_cyl hs"
  shows "wrote hs e (if x = 0 then None else Some (x - 1))
    ((present_add env d (hs\<lparr>hs_cyl := c', hs_col := store_at e x (hs_col hs)\<rparr>))\<lparr>hs_cyl := c\<rparr>)"
proof -
  let ?g = "hs\<lparr>hs_cyl := c', hs_col := store_at e x (hs_col hs)\<rparr>"
  let ?h = "(present_add env d ?g)\<lparr>hs_cyl := c\<rparr>"
  have len: "length (hs_present_stripes ?g) = PRESENT_STRIPES" using himo_invD(5)[OF inv] by simp
  have fld: "hs_col ?h = store_at e x (hs_col hs)" "hs_cyl ?h = c" "hs_cyl_built ?h = hs_cyl_built hs"
      "hs_value_type ?h = hs_value_type hs" "hs_present_known ?h = hs_present_known hs" "hs_present_base ?h = hs_present_base hs"
      "present_delta ?h = present_delta hs + d" "length (hs_present_stripes ?h) = PRESENT_STRIPES"
    using present_add_delta[OF len env, of d] by (simp_all add: present_add_def present_delta_def)
  note p = put_inv[OF inv env e x d c fld]
  show ?thesis using p fld by (simp add: wrote_def)
qed

lemma wrote_built: "wrote hs e new h \<Longrightarrow> hs_cyl_built h = hs_cyl_built hs"
  by (simp add: wrote_def)

lemma wrote_refl: "himo_inv hs \<Longrightarrow> himo_map hs e = new \<Longrightarrow> wrote hs e new hs"
  by (auto simp: wrote_def fun_upd_idem_iff)

theorem himo_remove_spec:
  assumes inv: "himo_inv hs" and env: "env_ok env"
  shows "wrote hs e None (himo_remove env e hs)"
proof (cases "himo_map hs e")
  case None
  have "value_at (hs_col hs) e = None" using None by (simp add: himo_map_def)
  then have "himo_remove env e hs = hs" by (simp add: himo_remove_def remove_indexed_def)
  then show ?thesis using wrote_refl[OF inv None] by simp
next
  case (Some v)
  note cs = col_clear_store[OF inv Some]
  have va: "value_at (hs_col hs) e = Some v" using Some by (simp add: himo_map_def)
  have x: "fits (hs_col hs) 0" by (simp add: fits_def)
  have d: "(-1 :: int) = of_bool ((0 :: u64) \<noteq> 0) - of_bool (himo_map hs e \<noteq> None)" using Some by simp
  note pw = put_cell_wrote[OF inv env cs(3,2) x d]
  show ?thesis
  proof (cases "hs_cyl_built hs")
    case False
    have "himo_remove env e hs = (present_add env (-1) (hs\<lparr>hs_cyl := hs_cyl hs, hs_col := store_at e 0 (hs_col hs)\<rparr>))\<lparr>hs_cyl := hs_cyl hs\<rparr>"
      using cs False va by (simp add: himo_remove_def present_add_def)
    then show ?thesis using pw[of "hs_cyl hs" "hs_cyl hs"] False by simp
  next
    case True
    obtain hs1 stale where n: "note_old (Some v) e hs = (hs1, stale)" by (metis surj_pair)
    note no = note_old_spec[OF himo_invD(3)[OF inv True] Some n]
    let ?c = "forget_slot e (hs_cyl hs1)"
    obtain c1 where c1: "hs1 = hs\<lparr>hs_cyl := c1\<rparr>" using no(2) by metis
    let ?h = "present_add env (-1) (hs\<lparr>hs_cyl := ?c, hs_col := store_at e 0 (hs_col hs)\<rparr>)"
    have "?h\<lparr>hs_cyl := ?c\<rparr> = ?h" by (rule himo_store.equality) (simp_all add: present_add_def)
    note pw' = pw[of ?c ?c, unfolded this]
    have "cyl_inv (himo_ids hs) ?c ((himo_map hs)(e := None))" by (rule forget_slot_inv[OF no(1)]) simp
    then have w: "wrote hs e None ?h" using pw' True by simp
    have eq: "himo_remove env e hs = (if in_array v (hs_cyl hs) then maybe_compact_stale stale ?h
        else maybe_compact_sparse (maybe_compact_stale stale ?h))"
      using True cs va n by (simp add: himo_remove_def remove_indexed_def c1)
    have b: "hs_cyl_built ?h" using wrote_built[OF w] True by simp
    have "\<forall>ov q. stale = Some (ov, q) \<longrightarrow> ov \<noteq> NO_VALUE" using no(4) Some no_max_value[OF inv] by blast
    from wrote_compact[OF w b this] show ?thesis unfolding eq by simp
  qed
qed

lemma cyl_insert_inv:
  assumes inv: "himo_inv hs" and c: "cyl_inv (himo_ids hs) c ((himo_map hs)(e := None))" and e: "e \<in> himo_ids hs" and v: "v \<noteq> NO_VALUE"
    and col: "width_ok col" "value_at col = (himo_map hs)(e \<mapsto> v)" "col_count col = col_count (hs_col hs)"
  shows "cyl_inv (himo_ids hs) (cyl_insert e v (\<lambda>(w, x). stored_at col x = w + 1) c) ((himo_map hs)(e \<mapsto> v))"
proof -
  have "cyl_inv (himo_ids hs) (insert_with e v True (\<lambda>(w, x). stored_at col x = w + 1) c) (((himo_map hs)(e := None))(e \<mapsto> v))"
  proof (rule cyl_insert_with[OF c _ e v])
    fix x w assume h: "x \<in> himo_ids hs" "w \<noteq> NO_VALUE"
    have "stored_at col x = w + 1 \<longleftrightarrow> value_at col x = Some w"
      using h value_at_iff[OF col(1), of x w] col(3) by (simp add: himo_ids_def)
    then show "(case (w, x) of (w, x) \<Rightarrow> stored_at col x = w + 1) \<longleftrightarrow> (((himo_map hs)(e := None))(e \<mapsto> v)) x = Some w"
      by (simp add: col(2))
  qed simp
  then show ?thesis by (simp add: cyl_insert_def)
qed

text \<open>
  \<^verbatim>\<open>restore\<close> puts a raw stored cell back (0 is no value); it is the path that applies
  values read from another file, so any cell content of the column's width is allowed.
\<close>

theorem himo_restore_spec:
  assumes inv: "himo_inv hs" and env: "env_ok env" and e: "e < col_max_entities (hs_col hs)" and x: "fits (hs_col hs) x"
    and p: "ensure_committed_for (env_grow env) e (hs_col hs) = (col, ok)"
  shows "if ok then wrote hs e (if x = 0 then None else Some (x - 1)) (himo_restore env e x hs) else himo_restore env e x hs = hs"
proof (cases ok)
  case False
  then have "col = hs_col hs" using col_prep(1)[OF himo_invD(1)[OF inv] e p] by simp
  then show ?thesis using p False by (simp add: himo_restore_def)
next
  case ok: True
  define hs1 where "hs1 = hs\<lparr>hs_col := ensure_count e col\<rparr>"
  have p': "ensure_committed_for (env_grow env) e (hs_col hs) = (col, True)" using p ok by simp
  note pr = prep_inv[OF inv e p', folded hs1_def]
  have sz: "col_value_size (hs_col hs1) = col_value_size (hs_col hs)"
    using himo_invD(2)[OF pr(1)] himo_invD(2)[OF inv] by (simp add: hs1_def)
  have x1: "fits (hs_col hs1) x" using x sz by (simp add: fits_def)
  define new where "new = (if x = 0 then None else Some (x - 1))"
  have nv: "x - 1 \<noteq> NO_VALUE" if "x \<noteq> 0" using that max_plus_one[of "x - 1"] by simp
  have old: "value_at (hs_col hs1) e = himo_map hs1 e" by (simp add: himo_map_def)
  have w: "wrote hs e new h" if "wrote hs1 e new h" for h using that pr(2,5,8) by (simp add: wrote_def hs1_def)
  have "wrote hs1 e new (himo_restore env e x hs)"
  proof (cases "himo_map hs1 e = new")
    case True
    then have "himo_restore env e x hs = hs1"
      using p' by (simp add: himo_restore_def Let_def hs1_def[symmetric] old new_def)
    then show ?thesis using wrote_refl[OF pr(1) True] by simp
  next
    case differ: False
    define d where "d = (of_bool (new \<noteq> None) :: int) - of_bool (himo_map hs1 e \<noteq> None)"
    have d': "d = of_bool (x \<noteq> 0) - of_bool (himo_map hs1 e \<noteq> None)" by (simp add: d_def new_def)
    note pw = put_cell_wrote[OF pr(1) env pr(3,4) x1 d', folded new_def]
    let ?s = "store_at e x (hs_col hs1)"
    show ?thesis
    proof (cases "hs_cyl_built hs1")
      case False
      have "himo_restore env e x hs = (present_add env d (hs1\<lparr>hs_cyl := hs_cyl hs1, hs_col := ?s\<rparr>))\<lparr>hs_cyl := hs_cyl hs1\<rparr>"
        using p' differ False
        by (simp add: himo_restore_def Let_def hs1_def[symmetric] old new_def[symmetric] d_def[symmetric] maybe_compact_stale_def del: not_None_eq)
          (simp add: present_add_def)
      then show ?thesis using pw[of "hs_cyl hs1" "hs_cyl hs1"] False by simp
    next
      case b1: True
      obtain hs2 stale where n: "note_old (himo_map hs1 e) e hs1 = (hs2, stale)" by (metis surj_pair)
      note no = note_old_spec[OF himo_invD(3)[OF pr(1) b1] refl n]
      obtain c2 where c2: "hs2 = hs1\<lparr>hs_cyl := c2\<rparr>" using no(2) by metis
      define hs3 where "hs3 = present_add env d (hs2\<lparr>hs_col := store_at e x (hs_col hs2)\<rparr>)"
      have h3_eq: "hs3 = present_add env d (hs1\<lparr>hs_cyl := c2, hs_col := ?s\<rparr>)" by (simp add: hs3_def c2)
      have h3: "hs_col hs3 = ?s" "hs_cyl hs3 = c2" "hs_cyl_built hs3" using b1 by (simp_all add: h3_eq present_add_def)
      note cp = col_put[OF himo_invD(1)[OF pr(1)] pr(3,4) x1]
      define c where "c = (case new of Some v \<Rightarrow> cyl_insert e v (\<lambda>(w, y). stored_at ?s y = w + 1) c2 | None \<Rightarrow> forget_slot e c2)"
      have ci: "cyl_inv (himo_ids hs1) c ((himo_map hs1)(e := new))"
      proof (cases "x = 0")
        case True
        then show ?thesis using forget_slot_inv[OF no(1), of e] by (simp add: c_def new_def c2)
      next
        case False
        have "value_at ?s = (himo_map hs1)(e \<mapsto> (x - 1))" using cp(2) False by (simp add: himo_map_def)
        from cyl_insert_inv[OF pr(1) no(1) pr(7) nv[OF False] col_invD(2)[OF cp(1)] this cp(3)]
        show ?thesis using False by (simp add: c_def new_def c2)
      qed
      have w3: "wrote hs1 e new (hs3\<lparr>hs_cyl := c\<rparr>)" using pw[of c c2] ci b1 by (simp add: h3_eq)
      have b3: "hs_cyl_built (hs3\<lparr>hs_cyl := c\<rparr>)" using h3 by simp
      have nm: "\<forall>ov q. stale = Some (ov, q) \<longrightarrow> ov \<noteq> NO_VALUE" using no(4) no_max_value[OF pr(1)] by blast
      note wc = wrote_compact[OF w3 b3 nm]
      have "hs_cyl_built (maybe_compact_stale stale (hs3\<lparr>hs_cyl := c\<rparr>))" using wrote_built[OF wc(1)] b1 by simp
      moreover have "(case new of Some v \<Rightarrow> hs3\<lparr>hs_cyl := cyl_insert e v (\<lambda>(w, y). stored_at (hs_col hs3) y = w + 1) (hs_cyl hs3)\<rparr>
          | None \<Rightarrow> hs3\<lparr>hs_cyl := forget_slot e (hs_cyl hs3)\<rparr>) = hs3\<lparr>hs_cyl := c\<rparr>"
        by (simp add: c_def h3 split: option.split)
      ultimately have "himo_restore env e x hs = maybe_compact_sparse (maybe_compact_stale stale (hs3\<lparr>hs_cyl := c\<rparr>))"
        using p' differ b1 n h3(3)
        by (simp add: himo_restore_def Let_def hs1_def[symmetric] old new_def[symmetric] d_def[symmetric] hs3_def[symmetric] del: not_None_eq cong: option.case_cong)
      then show ?thesis using wc(2) by simp
    qed
  qed
  then show ?thesis using w ok by (simp add: new_def)
qed

section \<open>Compaction\<close>

text \<open>A read leaves the values alone; it may build the index and compact parts of it.\<close>

definition kept :: "himo_store \<Rightarrow> himo_store \<Rightarrow> bool" where
  "kept hs hs' \<longleftrightarrow> himo_inv hs' \<and> hs_cyl_built hs' \<and> hs_col hs' = hs_col hs \<and> hs_value_type hs' = hs_value_type hs"

lemma keptD:
  assumes "kept hs hs'"
  shows "himo_inv hs'" "hs_cyl_built hs'" "hs_col hs' = hs_col hs" "himo_map hs' = himo_map hs" "himo_ids hs' = himo_ids hs"
    "cyl_inv (himo_ids hs) (hs_cyl hs') (himo_map hs)" "width_ok (hs_col hs)"
proof -
  show k: "himo_inv hs'" "hs_cyl_built hs'" "hs_col hs' = hs_col hs" using assms by (simp_all add: kept_def)
  then show m: "himo_map hs' = himo_map hs" "himo_ids hs' = himo_ids hs" by (simp_all add: himo_map_def himo_ids_def)
  show "cyl_inv (himo_ids hs) (hs_cyl hs') (himo_map hs)" "width_ok (hs_col hs)"
    using himo_invD(3)[OF k(1,2)] himo_invD(7)[OF k(1)] m k(3) by simp_all
qed

lemma kept_trans: "kept hs hs' \<Longrightarrow> kept hs' hs'' \<Longrightarrow> kept hs hs''"
  by (simp add: kept_def)

lemma kept_same: "kept hs hs' \<Longrightarrow> same_but_index hs'' hs' \<Longrightarrow> kept hs hs''"
  using same_but_index_inv[of hs' hs''] same_but_index_fields[of hs'' hs'] by (simp add: kept_def)

lemma kept_built: "himo_inv hs \<Longrightarrow> kept hs (ensure_cylinder_built env hs)"
  using ensure_built[of hs env] by (simp add: kept_def)

lemma kept_refl: "himo_inv hs \<Longrightarrow> hs_cyl_built hs \<Longrightarrow> kept hs hs"
  by (simp add: kept_def)

lemma no_slot_for_max:
  assumes "low_ok low"
  shows "dense_slot low NO_VALUE = None"
proof (rule ccontr)
  assume "dense_slot low NO_VALUE \<noteq> None"
  then obtain k i where "dense_slot low NO_VALUE = Some (k, i)" by auto
  then have i: "i < region_cap k" "slot_value low k i = NO_VALUE" using dense_slot_iff[OF assms] by auto
  then show False using unat_slot_value[OF assms i(1)] assms
    by (cases k) (simp_all add: low_ok_def region_cap_def)
qed

lemma compact_if_reread_same:
  assumes w: "width_ok (hs_col hs)" and r: "compact_if_reread v hs = (hs', again)"
  shows "same_but_index hs' hs"
proof -
  obtain c r0 where m: "cyl_mark_verified v (hs_cyl hs) = (c, r0)" by (metis surj_pair)
  have s1: "same_but_index (hs\<lparr>hs_cyl := c\<rparr>) hs" by (rule same_but_indexI) (rule cyl_mark_verified_inv(1)[OF _ m])
  obtain c2 n where c2: "compact_bucket v (\<lambda>e. holds_value (hs_col hs) e v) c = (c2, n)" by (metis surj_pair)
  have "same_but_index ((hs\<lparr>hs_cyl := c\<rparr>)\<lparr>hs_cyl := c2\<rparr>) (hs\<lparr>hs_cyl := c\<rparr>)"
  proof (rule same_but_indexI)
    assume i: "cyl_inv (himo_ids (hs\<lparr>hs_cyl := c\<rparr>)) (hs_cyl (hs\<lparr>hs_cyl := c\<rparr>)) (himo_map (hs\<lparr>hs_cyl := c\<rparr>))"
    show "cyl_inv (himo_ids (hs\<lparr>hs_cyl := c\<rparr>)) c2 (himo_map (hs\<lparr>hs_cyl := c\<rparr>))"
    proof (cases "v = NO_VALUE")
      case True
      then have "c2 = c" using c2 no_slot_for_max[of "cy_low_base c"] dense_invD(1) i by (fastforce simp: compact_bucket_def cyl_inv_def)
      then show ?thesis using i by simp
    next
      case False
      show ?thesis
      proof (rule cyl_compact_bucket(1)[OF i])
        show "compact_bucket v (\<lambda>e. holds_value (hs_col hs) e v) (hs_cyl (hs\<lparr>hs_cyl := c\<rparr>)) = (c2, n)" using c2 by simp
      qed (use col_holds(1)[of "hs\<lparr>hs_cyl := c\<rparr>"] w False in \<open>simp add: holds_value_def\<close>)
    qed
  qed
  from same_but_index_trans[OF this s1] have s2: "same_but_index (hs\<lparr>hs_cyl := c2\<rparr>) hs" by simp
  show ?thesis using r s1 s2 m c2 by (auto simp: compact_if_reread_def Let_def split: option.splits if_splits)
qed

theorem compact_now_kept:
  assumes inv: "himo_inv hs" and b: "hs_cyl_built hs"
  shows "kept hs (compact_now hs)"
proof -
  let ?col = "hs_col hs" let ?I = "himo_ids hs" let ?M = "himo_map hs"
  note w = himo_invD(7)[OF inv]
  define c1 where "c1 = (if sparse_churned (hs_cyl hs) then fst (compact_sparse (\<lambda>(v, e). stored_at ?col e = v + 1) (hs_cyl hs)) else hs_cyl hs)"
  have c1: "cyl_inv ?I c1 ?M"
  proof -
    obtain c n where c: "compact_sparse (\<lambda>(v, e). stored_at ?col e = v + 1) (hs_cyl hs) = (c, n)" by (metis surj_pair)
    have "cyl_inv ?I c ?M" by (rule cyl_compact_sparse(1)[OF himo_invD(3)[OF inv b] c]) (simp add: col_holds(2)[OF w])
    then show ?thesis using himo_invD(3)[OF inv b] c by (simp add: c1_def)
  qed
  let ?f = "\<lambda>v c. if bucket_needs_verify v c then fst (compact_bucket v (\<lambda>e. stored_at ?col e = v + 1) c) else c"
  have step: "cyl_inv ?I (?f v c) ?M" if c: "cyl_inv ?I c ?M" for v c
  proof -
    obtain c' n where c': "compact_bucket v (\<lambda>e. stored_at ?col e = v + 1) c = (c', n)" by (metis surj_pair)
    have "cyl_inv ?I c' ?M" if "v \<noteq> NO_VALUE"
      by (rule cyl_compact_bucket(1)[OF c c']) (simp add: col_holds(2)[OF w _ that])
    moreover have "c' = c" if "v = NO_VALUE" using that c' no_slot_for_max[of "cy_low_base c"] dense_invD(1)[of ?I c ?M] c by (simp add: compact_bucket_def cyl_inv_def)
    ultimately show ?thesis using c c' by auto
  qed
  have "cyl_inv ?I (fold ?f vs c) ?M" if "cyl_inv ?I c ?M" for vs c
    using that by (induction vs arbitrary: c) (use step in auto)
  from this[OF c1] show ?thesis
    using inv b by (simp add: compact_now_def Let_def c1_def[symmetric] kept_def himo_inv_def himo_ids_def himo_map_def present_delta_def)
qed

section \<open>Reading by value\<close>

lemma sorted_set_unique: "sorted xs \<Longrightarrow> remdups_adj xs = sorted_list_of_set (set xs)" for xs :: "'a :: linorder list"
  using distinct_remdups_adj_sorted[of xs] sorted_list_of_set_unique[of "set xs" "remdups_adj xs"]
  by (metis List.finite_set remdups_adj_set sorted_list_of_set.idem_if_sorted_distinct sorted_remdups_adj)

lemma checked_ids_eq:
  assumes w: "width_ok (hs_col hs)" and raw: "{e. himo_map hs e = Some v} \<subseteq> set raw" "set raw \<subseteq> himo_ids hs" and v: "v \<noteq> NO_VALUE"
  shows "checked_ids (hs_col hs) v raw = sorted_list_of_set {e. himo_map hs e = Some v}"
proof -
  have "{e \<in> set raw. stored_at (hs_col hs) e = v + 1} = {e. himo_map hs e = Some v}"
    using raw col_holds(2)[OF w _ v] by blast
  then show ?thesis by (simp add: checked_ids_def sort_appended_sort sorted_set_unique)
qed

lemma kept_read:
  assumes k: "kept hs hs'" and v: "v \<noteq> NO_VALUE" and r: "read_to_vec_marked v (hs_cyl hs') = (raw, needs, stale)"
  defines "ids \<equiv> (if \<not> needs then raw else checked_ids (hs_col hs') v raw)"
  shows "distinct ids" "set ids = {e. himo_map hs e = Some v}"
proof -
  note rd = cyl_read[OF keptD(6)[OF k] r]
  have "checked_ids (hs_col hs') v raw = sorted_list_of_set {e. himo_map hs e = Some v}"
    using checked_ids_eq[of hs v raw] rd(1,2) keptD(3,7)[OF k] v by (simp add: holders_def)
  then show "distinct ids" "set ids = {e. himo_map hs e = Some v}"
    using rd(3) by (auto simp: ids_def holders_def)
qed

text \<open>Both readers: the index is read, compacted when the same reread was seen before, and read again.\<close>

lemma reread:
  assumes k: "kept hs hs0" and v: "v \<noteq> NO_VALUE"
    and a: "(if stale then compact_if_reread v hs0 else (hs0, False)) = (hs1, again)"
    and raw: "read_to_vec_marked v (hs_cyl hs0) = (raw, needs, stale)"
    and raw1: "(if again then (case read_to_vec_marked v (hs_cyl hs1) of (r, n, _) \<Rightarrow> (r, n)) else (raw, needs)) = (raw1, needs1)"
  shows "kept hs hs1" "distinct (if \<not> needs1 then raw1 else checked_ids (hs_col hs1) v raw1)"
    "set (if \<not> needs1 then raw1 else checked_ids (hs_col hs1) v raw1) = {e. himo_map hs e = Some v}"
proof -
  have "same_but_index hs1 hs0"
    using a compact_if_reread_same[of hs0 v hs1 again] keptD(3,7)[OF k] same_but_index_refl by (auto split: if_splits)
  then show k1: "kept hs hs1" by (rule kept_same[OF k])
  obtain r n st where r: "read_to_vec_marked v (hs_cyl hs1) = (r, n, st)" by (metis prod_cases3)
  let ?ids = "\<lambda>h needs raw. if \<not> needs then raw else checked_ids (hs_col h) v raw"
  have "?ids hs1 needs1 raw1 = (if again then ?ids hs1 n r else ?ids hs0 needs raw)"
    using raw1 r keptD(3)[OF k] keptD(3)[OF k1] by (cases again) auto
  moreover note kept_read[OF k v raw] kept_read[OF k1 v r]
  ultimately show "distinct (?ids hs1 needs1 raw1)" "set (?ids hs1 needs1 raw1) = {e. himo_map hs e = Some v}"
    by presburger+
qed

lemma himo_pull_ids:
  assumes inv: "himo_inv hs" and v: "v \<noteq> NO_VALUE" and p: "himo_pull env v hs = (hs', ids)"
  shows "kept hs hs'" "distinct ids" "set ids = {e. himo_map hs e = Some v}"
proof -
  let ?h = "ensure_cylinder_built env hs"
  obtain raw needs stale where raw: "read_to_vec_marked v (hs_cyl ?h) = (raw, needs, stale)" by (metis prod_cases3)
  obtain hs1 again where a: "(if stale then compact_if_reread v ?h else (?h, False)) = (hs1, again)" by (metis surj_pair)
  obtain raw1 needs1 where raw1: "(if again then (case read_to_vec_marked v (hs_cyl hs1) of (r, n, _) \<Rightarrow> (r, n)) else (raw, needs)) = (raw1, needs1)"
    by (metis surj_pair)
  have "hs' = hs1" "ids = (if \<not> needs1 then raw1 else checked_ids (hs_col hs1) v raw1)"
    using p raw a raw1 by (simp_all add: himo_pull_def Let_def)
  then show "kept hs hs'" "distinct ids" "set ids = {e. himo_map hs e = Some v}"
    using reread[OF kept_built[OF inv] v a raw raw1] by simp_all
qed

lemma himo_pull_kept:
  assumes inv: "himo_inv hs" and p: "himo_pull env v hs = (hs', ids)"
  shows "kept hs hs'"
proof -
  let ?h = "ensure_cylinder_built env hs"
  note k = kept_built[OF inv, of env]
  obtain raw needs stale where raw: "read_to_vec_marked v (hs_cyl ?h) = (raw, needs, stale)" by (metis prod_cases3)
  obtain hs1 again where a: "(if stale then compact_if_reread v ?h else (?h, False)) = (hs1, again)" by (metis surj_pair)
  have "same_but_index hs1 ?h"
    using a compact_if_reread_same[of ?h v hs1 again] keptD(3,7)[OF k] same_but_index_refl by (auto split: if_splits)
  then have "kept hs hs1" by (rule kept_same[OF k])
  moreover have "hs' = hs1" using p raw a by (auto simp: himo_pull_def Let_def split: prod.splits)
  ultimately show ?thesis by simp
qed

lemma pull_part_kept:
  assumes k: "kept hs hs0" and r: "pull_part p (hs0, out0, loose0) = (hs1, out1, loose1)"
  shows "kept hs hs1"
proof -
  have "kept hs h" if "compact_if_reread v hs0 = (h, again)" for v h again
    using kept_same[OF k compact_if_reread_same[OF _ that]] keptD(3,7)[OF k] by simp
  then show ?thesis using r k by (auto simp: pull_part_def split: part.splits if_splits prod.splits)
qed

lemma pull_parts_kept: "kept hs hs0 \<Longrightarrow> kept hs (fst (fold pull_part ps (hs0, out0, loose0)))"
proof (induction ps arbitrary: hs0 out0 loose0)
  case (Cons p ps)
  obtain hs1 out1 loose1 where r: "pull_part p (hs0, out0, loose0) = (hs1, out1, loose1)" by (metis prod_cases3)
  show ?case using Cons.IH[OF pull_part_kept[OF Cons.prems r]] by (simp add: r)
qed simp

text \<open>Every other reader goes through these: it leaves the store alone, builds the index or compacts parts of it.\<close>

lemma readers_kept:
  assumes inv: "himo_inv hs"
  shows "kept hs (fst (pull_range_unordered env lo hi hs)) \<or> fst (pull_range_unordered env lo hi hs) = hs"
    "fst (pull_range env lo hi hs) \<in> {hs, ensure_cylinder_built env hs}"
    "fst (himo_count_range env lo hi hs) \<in> {hs, ensure_cylinder_built env hs}"
    "kept hs (fst (slice_len env v hs))"
proof -
  note k = kept_built[OF inv, of env]
  show "kept hs (fst (pull_range_unordered env lo hi hs)) \<or> fst (pull_range_unordered env lo hi hs) = hs"
    using pull_parts_kept[OF k, of "cyl_for_each_part lo hi (hs_cyl (ensure_cylinder_built env hs))" "[]" "[]"]
    by (auto simp: pull_range_unordered_def Let_def split: prod.splits)
  show "fst (pull_range env lo hi hs) \<in> {hs, ensure_cylinder_built env hs}"
    "fst (himo_count_range env lo hi hs) \<in> {hs, ensure_cylinder_built env hs}"
    by (simp_all add: pull_range_def himo_count_range_def Let_def)
  obtain hs1 ids where q: "himo_pull env v (ensure_cylinder_built env hs) = (hs1, ids)" by (metis surj_pair)
  show "kept hs (fst (slice_len env v hs))"
    using k kept_trans[OF k himo_pull_kept[OF keptD(1)[OF k] q]] q by (simp add: slice_len_def Let_def split: option.splits)
qed

lemma pull_into_append:
  assumes inv: "himo_inv hs"
  shows "pull_into env v out hs = (case himo_pull env v hs of (hs', ids) \<Rightarrow> (hs', out @ ids))"
proof -
  let ?h = "ensure_cylinder_built env hs"
  obtain raw needs stale where raw: "read_to_vec_marked v (hs_cyl ?h) = (raw, needs, stale)" by (metis prod_cases3)
  obtain hs1 again where a: "(if stale then compact_if_reread v ?h else (?h, False)) = (hs1, again)" by (metis surj_pair)
  obtain r n st where r: "read_to_vec_marked v (hs_cyl hs1) = (r, n, st)" by (metis prod_cases3)
  show ?thesis
    using raw a r by (cases again) (simp_all add: pull_into_def himo_pull_def Let_def read_into_eq checked_ids_def)
qed

theorem pull_range_ids:
  assumes inv: "himo_inv hs" and p: "pull_range env lo hi hs = (hs', ids)"
  shows "himo_inv hs' \<and> himo_map hs' = himo_map hs \<and> ids = sorted_list_of_set {e. \<exists>v. himo_map hs e = Some v \<and> lo \<le> v \<and> v \<le> hi}"
proof (cases "lo > hi")
  case True
  then have e: "{e. \<exists>v. himo_map hs e = Some v \<and> lo \<le> v \<and> v \<le> hi} = {}" by auto
  show ?thesis unfolding e using True p inv by (simp add: pull_range_def)
next
  case False
  let ?h = "ensure_cylinder_built env hs"
  note k = keptD[OF kept_built[OF inv, of env]]
  have hs': "hs' = ?h" "ids = remdups_adj (sort (filter (in_value_range (hs_col hs) lo hi) (range_raw lo hi (hs_cyl ?h))))"
    using p False k(3) by (auto simp: pull_range_def Let_def)
  have iv: "in_value_range (hs_col hs) lo hi e \<longleftrightarrow> (\<exists>v. himo_map hs e = Some v \<and> lo \<le> v \<and> v \<le> hi)" if "e \<in> himo_ids hs" for e
  proof -
    have "lo < s \<longleftrightarrow> lo \<le> s - 1" if "s \<noteq> 0" for s :: u64
    proof -
      have "unat (s - 1) = unat s - 1" using that by (simp add: unat_minus_one)
      moreover have "0 < unat s" using that by (simp add: unat_gt_0)
      ultimately show ?thesis by (auto simp: word_less_nat_alt word_le_nat_alt)
    qed
    then show ?thesis
      using that by (auto simp: in_value_range_def Let_def himo_map_def value_at_eq[OF k(7)] himo_ids_def)
  qed
  have "set (filter (in_value_range (hs_col hs) lo hi) (range_raw lo hi (hs_cyl ?h))) = {e. \<exists>v. himo_map hs e = Some v \<and> lo \<le> v \<and> v \<le> hi}"
    using range_raw_covers(1)[OF k(6)] range_raw_covers(2)[OF k(6), of lo hi] iv by auto (meson subsetD)
  then show ?thesis using k by (simp add: hs' sorted_set_unique)
qed

text \<open>Committing the room for an id and the declarations of a column change no value.\<close>

lemma ensure_room_spec:
  assumes inv: "himo_inv hs" and r: "ensure_room env e hs = (hs', ok)"
  shows "himo_inv hs'" "himo_map hs' = himo_map hs" "hs_value_type hs' = hs_value_type hs"
    "col_max_entities (hs_col hs') = col_max_entities (hs_col hs)" "header_written (hs_col hs) \<Longrightarrow> header_written (hs_col hs')"
    "hs_cyl_built hs' = hs_cyl_built hs"
proof -
  have *: "himo_inv hs' \<and> himo_map hs' = himo_map hs \<and> hs_value_type hs' = hs_value_type hs \<and>
    col_max_entities (hs_col hs') = col_max_entities (hs_col hs) \<and> (header_written (hs_col hs) \<longrightarrow> header_written (hs_col hs')) \<and>
    hs_cyl_built hs' = hs_cyl_built hs"
  proof (cases "is_committed_for e (hs_col hs)")
    case True
    then show ?thesis using r inv by (simp add: ensure_room_def)
  next
    case False
    obtain col k where c: "ensure_committed_for (env_grow env) e (hs_col hs) = (col, k)" by (metis surj_pair)
    then have hs: "hs' = hs\<lparr>hs_col := col\<rparr>" using r False by (simp add: ensure_room_def)
    note rr = ensure_committed_for_result[OF c]
    note ci = col_invD[OF himo_invD(1)[OF inv]]
    have st: "stored_at col x = stored_at (hs_col hs) x" for x
      using same_mem(1)[OF rr(1,3,5)] rr(3) by (intro stored_at_cong) simp_all
    have i: "col_inv col"
      using himo_invD(1)[OF inv] ensure_committed_for_shape[OF ci(1) c] rr(2,3,4,8) st
      by (auto simp: col_inv_def width_ok_def clear_tail_def set_cells_committed_def)
    have "value_at col = value_at (hs_col hs)"
      using rr(2,3) st by (intro ext) (simp add: value_at_eq[OF ci(2)] value_at_eq[OF col_invD(2)[OF i]])
    then have m: "himo_map hs' = himo_map hs" by (simp add: himo_map_def hs)
    have ids: "himo_ids hs' = himo_ids hs" using rr(2,3) by (simp add: himo_ids_def hs)
    have "himo_inv hs'" using inv i rr(2,3) unfolding himo_inv_def m ids by (simp add: hs present_delta_def)
    then show ?thesis using m rr(1,3,4,5) by (simp add: hs header_written_def)
  qed
  then show "himo_inv hs'" "himo_map hs' = himo_map hs" "hs_value_type hs' = hs_value_type hs"
    "col_max_entities (hs_col hs') = col_max_entities (hs_col hs)" "header_written (hs_col hs) \<Longrightarrow> header_written (hs_col hs')"
    "hs_cyl_built hs' = hs_cyl_built hs"
    by simp_all
qed

lemma hint_kept:
  "himo_inv (set_dense_base_hint base hs) = himo_inv hs" "himo_map (set_dense_base_hint base hs) = himo_map hs"
  "hs_col (set_dense_base_hint base hs) = hs_col hs" "hs_value_type (set_dense_base_hint base hs) = hs_value_type hs"
  by (simp_all add: set_dense_base_hint_def himo_inv_def himo_map_def himo_ids_def present_delta_def)

lemma bucket_inv_unmarked: "bucket_inv I on pos S s \<Longrightarrow> bucket_inv I False pos S s"
  by (simp add: bucket_inv_def split: option.splits)

lemma disable_marks_fields [simp]:
  "cy_arr (disable_marks c) = cy_arr c" "cy_low_base (disable_marks c) = cy_low_base c" "cy_slots (disable_marks c) = cy_slots c"
  "cy_unique_live (disable_marks c) = cy_unique_live c" "cy_sparse (disable_marks c) = cy_sparse c" "cy_waiting (disable_marks c) = cy_waiting c"
  "cy_sparse_stale (disable_marks c) = cy_sparse_stale c" "\<not> cy_marks_on (disable_marks c)"
  by (simp_all add: disable_marks_def)

lemma disable_marks_inv:
  "cyl_inv I c M \<Longrightarrow> cyl_inv I (disable_marks c) M" "cyl_empty c \<Longrightarrow> cyl_empty (disable_marks c)"
proof -
  assume i: "cyl_inv I c M"
  have "dense_inv I (disable_marks c) M"
    using i unfolding cyl_inv_def dense_inv_def writer_fields[of "disable_marks c" c, simplified]
      in_array_fields[of "disable_marks c" c, simplified] slot_get_def by (auto intro: bucket_inv_unmarked)
  moreover have "sparse_inv I (disable_marks c) M"
    using i sparse_inv_fields[of "disable_marks c" c M M I] by (simp add: cyl_inv_def)
  ultimately show "cyl_inv I (disable_marks c) M" by (simp add: cyl_inv_def)
next
  show "cyl_empty c \<Longrightarrow> cyl_empty (disable_marks c)" by (simp add: cyl_empty_def)
qed

lemma declare_marks_kept:
  assumes inv: "himo_inv hs" and r: "declare_marks on hs = (hs', live)"
  shows "himo_inv hs'" "himo_map hs' = himo_map hs" "hs_col hs' = hs_col hs" "hs_value_type hs' = hs_value_type hs"
    "live \<longrightarrow> on" "\<not> on \<longrightarrow> \<not> cy_marks_on (hs_cyl hs')"
proof -
  show c: "hs_col hs' = hs_col hs" "hs_value_type hs' = hs_value_type hs" "live \<longrightarrow> on" "\<not> on \<longrightarrow> \<not> cy_marks_on (hs_cyl hs')"
    using r by (auto simp: declare_marks_def disable_marks_def Let_def split: if_splits)
  show m: "himo_map hs' = himo_map hs" by (simp add: himo_map_def c)
  have ids: "himo_ids hs' = himo_ids hs" by (simp add: himo_ids_def c)
  have "hs_cyl hs' \<in> {hs_cyl hs, disable_marks (hs_cyl hs)}" "hs_cyl_built hs' = hs_cyl_built hs"
    "hs_present_stripes hs' = hs_present_stripes hs" "hs_present_known hs' = hs_present_known hs" "hs_present_base hs' = hs_present_base hs"
    using r by (auto simp: declare_marks_def Let_def split: if_splits)
  then show "himo_inv hs'"
    using inv disable_marks_inv(1)[of "himo_ids hs" "hs_cyl hs" "himo_map hs"] disable_marks_inv(2)[of "hs_cyl hs"]
    unfolding himo_inv_def m ids c by (auto simp: present_delta_def)
qed

theorem slice_len_card:
  assumes inv: "himo_inv hs" and v: "v \<noteq> NO_VALUE" and p: "slice_len env v hs = (hs', n)"
  shows "himo_inv hs' \<and> himo_map hs' = himo_map hs \<and> n = card {e. himo_map hs e = Some v}"
proof -
  let ?h = "ensure_cylinder_built env hs"
  note k = kept_built[OF inv, of env]
  obtain hs1 ids where q: "himo_pull env v ?h = (hs1, ids)" by (metis surj_pair)
  note pl = himo_pull_ids[OF keptD(1)[OF k] v q]
  note d = dense_live_len_card[OF keptD(6)[OF k], of v]
  show ?thesis
  proof (cases "in_array v (hs_cyl ?h)")
    case True
    then show ?thesis using p d keptD[OF k] by (simp add: slice_len_def Let_def holders_def)
  next
    case False
    have "n = length ids" "hs' = hs1" using p d q False by (simp_all add: slice_len_def Let_def)
    then show ?thesis using pl keptD[OF pl(1)] keptD(4)[OF k] distinct_card[OF pl(2)] by simp
  qed
qed

section \<open>Counting and scanning\<close>

lemma column_ids:
  "set (map word_of_nat [0..<unat (n :: u32)]) = {e :: u32. e < n}" "sorted (map word_of_nat [0..<unat n] :: u32 list)"
  "distinct (map word_of_nat [0..<unat n] :: u32 list)"
proof -
  have lt: "unat n < 2 ^ 32" using unsigned_less[of n] by simp
  have u: "unat (word_of_nat i :: u32) = i" if "i < unat n" for i
    using that lt by (simp add: unat_of_nat take_bit_nat_eq_self)
  show "set (map word_of_nat [0..<unat n]) = {e :: u32. e < n}"
  proof (rule set_eqI, rule iffI)
    fix e assume "e \<in> set (map word_of_nat [0..<unat n] :: u32 list)"
    then show "e \<in> {e. e < n}" using u by (auto simp: word_less_nat_alt)
  next
    fix e assume "e \<in> {e :: u32. e < n}"
    then have "unat e < unat n" "e = word_of_nat (unat e)" by (simp_all add: word_less_nat_alt)
    then show "e \<in> set (map word_of_nat [0..<unat n])" unfolding set_map by (metis atLeast_upt imageI lessThan_iff)
  qed
  show "sorted (map word_of_nat [0..<unat n] :: u32 list)"
    unfolding sorted_map by (rule sorted_wrt_mono_rel[OF _ sorted_upt]) (auto simp: word_le_nat_alt u)
  show "distinct (map word_of_nat [0..<unat n] :: u32 list)"
    unfolding distinct_map using u by (auto intro!: inj_onI) (metis u)
qed

theorem himo_scan_ids:
  assumes inv: "himo_inv hs" and v: "v \<noteq> NO_VALUE"
  shows "himo_scan v hs = sorted_list_of_set {e. himo_map hs e = Some v}"
proof -
  let ?ids = "map word_of_nat [0..<unat (col_count (hs_col hs))] :: u32 list"
  have "set (himo_scan v hs) = {e. himo_map hs e = Some v}"
    unfolding himo_scan_def set_filter column_ids(1)
  proof (rule set_eqI, rule iffI)
    fix e assume "e \<in> {e. himo_map hs e = Some v}"
    then have m: "himo_map hs e = Some v" by simp
    then have "e \<in> himo_ids hs" by (auto simp: himo_map_def himo_ids_def value_at_eq[OF himo_invD(7)[OF inv]] split: if_splits)
    then show "e \<in> {x \<in> {e. e < col_count (hs_col hs)}. stored_at (hs_col hs) x = v + 1}"
      using m col_holds(2)[OF himo_invD(7)[OF inv] _ v, of e] by (simp add: himo_ids_def)
  qed (use col_holds(2)[OF himo_invD(7)[OF inv] _ v] in \<open>auto simp: himo_ids_def\<close>)
  moreover have "sorted (himo_scan v hs)" "distinct (himo_scan v hs)"
    using column_ids(2,3)[of "col_count (hs_col hs)"] by (simp_all add: himo_scan_def sorted_filter[of "\<lambda>x. x", simplified])
  ultimately show ?thesis by (metis sorted_list_of_set.idem_if_sorted_distinct)
qed

lemma ucast_up_zero: "(ucast (x :: u32) :: u64) = 0 \<longleftrightarrow> x = 0"
  by transfer (simp add: min_def)

lemma scan_present:
  assumes inv: "himo_inv hs"
  shows "scan_present_count hs = card (dom (himo_map hs))"
proof -
  let ?col = "hs_col hs" let ?n = "col_count ?col"
  note w = himo_invD(7)[OF inv]
  have s: "stored_at ?col (word_of_nat i) = ucast (u32_at (rg_mem (col_region ?col)) (col_cells ?col + i * 4))"
    if "col_value_size ?col = 4" "i < unat ?n" for i
  proof -
    have "unat ?n < 2 ^ 32" using unsigned_less[of ?n] by simp
    then have "unat (word_of_nat i :: u32) = i" using that(2) by (simp add: unat_of_nat take_bit_nat_eq_self)
    then show ?thesis
      using that(1) stored_sync_eq[OF w, of "word_of_nat i"] by (simp add: stored_sync_def load_u32_acquire_def cell_off_def)
  qed
  have "scan_present_count hs = length (filter (\<lambda>e. stored_at ?col e \<noteq> 0) (map word_of_nat [0..<unat ?n]))"
  proof (cases "col_value_size ?col = 4")
    case True
    have "scan_present_count hs = length (filter (\<lambda>i. u32_at (rg_mem (col_region ?col)) (col_cells ?col + i * 4) \<noteq> 0) [0..<unat ?n])"
      using True by (simp add: scan_present_count_def values_u32_def filter_map comp_def Let_def)
    also have "filter (\<lambda>i. u32_at (rg_mem (col_region ?col)) (col_cells ?col + i * 4) \<noteq> 0) [0..<unat ?n] =
        filter (\<lambda>i. stored_at ?col (word_of_nat i) \<noteq> 0) [0..<unat ?n]"
      by (rule filter_cong) (auto simp: s[OF True] ucast_up_zero)
    finally show ?thesis by (simp add: filter_map comp_def)
  qed (simp add: scan_present_count_def filter_map comp_def Let_def)
  also have "\<dots> = card (set (filter (\<lambda>e. stored_at ?col e \<noteq> 0) (map word_of_nat [0..<unat ?n])))"
    by (rule distinct_card[symmetric]) (rule distinct_filter[OF column_ids(3)])
  also have "set (filter (\<lambda>e. stored_at ?col e \<noteq> 0) (map word_of_nat [0..<unat ?n])) = dom (himo_map hs)"
    unfolding set_filter column_ids(1) by (auto simp: himo_map_def value_at_eq[OF w] split: if_splits)
  finally show ?thesis .
qed

theorem present_count_card:
  assumes inv: "himo_inv hs" and p: "present_count hs = (hs', n)"
  shows "himo_inv hs' \<and> himo_map hs' = himo_map hs \<and> n = int (card (dom (himo_map hs)))"
proof (cases "hs_present_known hs")
  case True
  then show ?thesis using p inv himo_invD(6)[OF inv] by (auto simp: present_count_def Let_def present_get_def)
next
  case False
  let ?h = "hs\<lparr>hs_present_base := int (scan_present_count hs) - present_delta hs, hs_present_known := True\<rparr>"
  have h: "hs' = ?h" "n = present_get ?h" using p False by (auto simp: present_count_def Let_def)
  have d: "present_delta ?h = present_delta hs" "himo_map ?h = himo_map hs" "himo_ids ?h = himo_ids hs"
    by (simp_all add: present_delta_def himo_map_def himo_ids_def)
  then have "himo_inv ?h" using inv scan_present[OF inv] by (simp add: himo_inv_def)
  then show ?thesis using d scan_present[OF inv] by (simp add: h present_get_def)
qed

end
