(* ===== verification/Cells_Correct.thy ===== *)
theory Cells_Correct
  imports Cells Himo_Ops
begin

text \<open>
  What the cell layer promises. The abstract state of a row is the value and the version of each
  of its cells, the clock of its deletion and whether it is live. Every operation of the layer
  is shown to act on this view the way its documentation says, for every database whose parts
  satisfy their own invariants; reading a version may commit pages of a file but changes nothing
  that can be seen.
\<close>

section \<open>The view of a database\<close>

record cell_view =
  cv_value :: "u16 \<Rightarrow> u32 \<Rightarrow> u64 option"
  cv_version :: "u16 \<Rightarrow> u32 \<Rightarrow> hlc"
  cv_tomb :: "u32 \<Rightarrow> hlc"
  cv_live :: "u32 \<Rightarrow> bool"

definition db_value :: "cell_db \<Rightarrow> u16 \<Rightarrow> u32 \<Rightarrow> u64 option" where
  "db_value db h e = (if unat h < length (cd_himos db) then himo_map (cd_himos db ! unat h) e else None)"

definition db_version :: "cell_db \<Rightarrow> u16 \<Rightarrow> u32 \<Rightarrow> hlc" where
  "db_version db h e = (
     if \<not> unat h < length (cd_himos db) then hlc_ZERO
     else if cd_has_cell_version db then (if e < cd_max_entities db then ver_at (cd_ver_cols db ! unat h) e else hlc_ZERO)
     else store_version (version_key_of e db, h) (cd_hlc_store db))"

definition db_tomb :: "cell_db \<Rightarrow> u32 \<Rightarrow> hlc" where
  "db_tomb db e = (
     if cd_has_cell_version db
     then (case cd_tomb_col db of Some col \<Rightarrow> if e < cd_max_entities db then ver_at col e else hlc_ZERO | None \<Rightarrow> hlc_ZERO)
     else store_version (version_key_of e db, TOMB_KEY) (cd_hlc_store db))"

definition view_of :: "cell_db \<Rightarrow> cell_view" where
  "view_of db = \<lparr>cv_value = db_value db, cv_version = db_version db, cv_tomb = db_tomb db,
     cv_live = (\<lambda>e. is_live e (cd_entities db))\<rparr>"

definition plain_type :: "value_type \<Rightarrow> bool" where
  "plain_type t \<longleftrightarrow> t \<noteq> Tag \<and> t \<noteq> Leaf"

definition column_ok :: "u32 \<Rightarrow> himo_store \<Rightarrow> bool" where
  "column_ok n hs \<longleftrightarrow> himo_inv hs \<and> plain_type (hs_value_type hs) \<and> n \<le> col_max_entities (hs_col hs)"

definition versions_ok :: "u32 \<Rightarrow> column \<Rightarrow> bool" where
  "versions_ok n col \<longleftrightarrow> ver_ok col \<and> n \<le> col_max_entities col"

definition cells_ok :: "cell_db \<Rightarrow> bool" where
  "cells_ok db \<longleftrightarrow> length (cd_himos db) \<le> 0xFFFF \<and> (\<forall>hs \<in> set (cd_himos db). column_ok (cd_max_entities db) hs) \<and>
     (if cd_has_cell_version db
      then length (cd_ver_cols db) = length (cd_himos db) \<and> (\<forall>col \<in> set (cd_ver_cols db). versions_ok (cd_max_entities db) col) \<and>
        (\<exists>t. cd_tomb_col db = Some t \<and> versions_ok (cd_max_entities db) t)
      else cd_ver_cols db = [] \<and> cd_tomb_col db = None \<and> cd_sync_tables_on db) \<and>
     eset_ok (cd_entities db) \<and> es_max_entities (cd_entities db) = cd_max_entities db"

text \<open>Every file can grow.\<close>

definition disk_ok :: "cell_env \<Rightarrow> bool" where
  "disk_ok env \<longleftrightarrow> env_ok (ce_himo env) \<and> (\<forall>n. env_grow (ce_himo env) n \<noteq> None) \<and> (\<forall>n. ce_ver env n \<noteq> None) \<and>
     (\<forall>n. ce_tomb env n \<noteq> None) \<and> (\<forall>n. ce_ents env n \<noteq> None)"

text \<open>What stays the same under every operation.\<close>

definition same_shape :: "cell_db \<Rightarrow> cell_db \<Rightarrow> bool" where
  "same_shape db db' \<longleftrightarrow> length (cd_himos db') = length (cd_himos db) \<and>
     map hs_value_type (cd_himos db') = map hs_value_type (cd_himos db) \<and>
     cd_has_cell_version db' = cd_has_cell_version db \<and> cd_sync_tables_on db' = cd_sync_tables_on db \<and>
     cd_peer db' = cd_peer db \<and> cd_max_entities db' = cd_max_entities db"

definition becomes :: "cell_db \<Rightarrow> cell_view \<Rightarrow> cell_db \<Rightarrow> bool" where
  "becomes db v db' \<longleftrightarrow> cells_ok db' \<and> same_shape db db' \<and> view_of db' = v"

lemma becomesI: "cells_ok db' \<Longrightarrow> same_shape db db' \<Longrightarrow> view_of db' = v \<Longrightarrow> becomes db v db'"
  by (simp add: becomes_def)

lemma becomes_refl: "cells_ok db \<Longrightarrow> becomes db (view_of db) db"
  by (simp add: becomes_def same_shape_def)

lemma same_shape_trans: "same_shape a b \<Longrightarrow> same_shape b c \<Longrightarrow> same_shape a c"
  by (simp add: same_shape_def)

lemma becomes_trans: "becomes db v db1 \<Longrightarrow> becomes db1 w db2 \<Longrightarrow> becomes db w db2"
  using same_shape_trans by (auto simp: becomes_def)

lemma becomesD:
  "becomes db v db' \<Longrightarrow> cells_ok db'" "becomes db v db' \<Longrightarrow> view_of db' = v" "becomes db v db' \<Longrightarrow> same_shape db db'"
  by (simp_all add: becomes_def)

lemma same_shapeD:
  assumes "same_shape db db'"
  shows "length (cd_himos db') = length (cd_himos db)" "cd_has_cell_version db' = cd_has_cell_version db"
    "cd_sync_tables_on db' = cd_sync_tables_on db" "cd_max_entities db' = cd_max_entities db" "cd_peer db' = cd_peer db"
    "unat h < length (cd_himos db) \<Longrightarrow> hs_value_type (cd_himos db' ! unat h) = hs_value_type (cd_himos db ! unat h)"
proof -
  show "length (cd_himos db') = length (cd_himos db)" "cd_has_cell_version db' = cd_has_cell_version db"
    "cd_sync_tables_on db' = cd_sync_tables_on db" "cd_max_entities db' = cd_max_entities db" "cd_peer db' = cd_peer db"
    using assms by (simp_all add: same_shape_def)
  show "unat h < length (cd_himos db) \<Longrightarrow> hs_value_type (cd_himos db' ! unat h) = hs_value_type (cd_himos db ! unat h)"
  proof -
    assume h: "unat h < length (cd_himos db)"
    have "map hs_value_type (cd_himos db') ! unat h = map hs_value_type (cd_himos db) ! unat h"
      using assms by (simp only: same_shape_def)
    moreover have "unat h < length (cd_himos db')" using h assms by (simp add: same_shape_def)
    ultimately show ?thesis using h by simp
  qed
qed

lemma view_eqI:
  assumes "db_value db' = db_value db" "db_version db' = db_version db" "db_tomb db' = db_tomb db"
    "\<And>e. is_live e (cd_entities db') = is_live e (cd_entities db)"
  shows "view_of db' = view_of db"
  using assms by (simp add: view_of_def)

lemma db_parts_eq:
  "cd_himos db' = cd_himos db \<Longrightarrow> db_value db' = db_value db"
  "length (cd_himos db') = length (cd_himos db) \<Longrightarrow> cd_has_cell_version db' = cd_has_cell_version db \<Longrightarrow> cd_ver_cols db' = cd_ver_cols db \<Longrightarrow> cd_max_entities db' = cd_max_entities db \<Longrightarrow>
    cd_peer db' = cd_peer db \<Longrightarrow> cd_hlc_store db' = cd_hlc_store db \<Longrightarrow> db_version db' = db_version db"
  "cd_has_cell_version db' = cd_has_cell_version db \<Longrightarrow> cd_tomb_col db' = cd_tomb_col db \<Longrightarrow> cd_max_entities db' = cd_max_entities db \<Longrightarrow>
    cd_peer db' = cd_peer db \<Longrightarrow> cd_hlc_store db' = cd_hlc_store db \<Longrightarrow> db_tomb db' = db_tomb db"
  by (intro ext; simp only: db_value_def db_version_def db_tomb_def version_key_of_def)+

lemma set_ver_col_fields [simp]:
  "cd_himos (set_ver_col h col db) = cd_himos db" "cd_ver_cols (set_ver_col h col db) = (cd_ver_cols db)[unat h := col]"
  "cd_tomb_col (set_ver_col h col db) = cd_tomb_col db" "cd_entities (set_ver_col h col db) = cd_entities db"
  "cd_hlc_store (set_ver_col h col db) = cd_hlc_store db" "cd_sync_tables_on (set_ver_col h col db) = cd_sync_tables_on db"
  "cd_has_cell_version (set_ver_col h col db) = cd_has_cell_version db" "cd_peer (set_ver_col h col db) = cd_peer db"
  "cd_max_entities (set_ver_col h col db) = cd_max_entities db"
  by (simp_all add: set_ver_col_def)

text \<open>A database that differs only in its bookkeeping looks the same.\<close>

lemma bookkeeping_becomes:
  assumes ok: "cells_ok db" and f: "cd_himos db' = cd_himos db" "cd_ver_cols db' = cd_ver_cols db" "cd_tomb_col db' = cd_tomb_col db"
    "cd_entities db' = cd_entities db" "cd_hlc_store db' = cd_hlc_store db" "cd_sync_tables_on db' = cd_sync_tables_on db"
    "cd_has_cell_version db' = cd_has_cell_version db" "cd_peer db' = cd_peer db" "cd_max_entities db' = cd_max_entities db"
  shows "becomes db (view_of db) db'"
proof (rule becomesI)
  show "cells_ok db'" using ok unfolding cells_ok_def f .
  show "same_shape db db'" by (simp add: same_shape_def f)
  show "view_of db' = view_of db" by (intro view_eqI db_parts_eq) (simp_all only: f)
qed

lemma fault_becomes: "cells_ok db \<Longrightarrow> becomes db (view_of db) (record_fault k db)"
  by (erule bookkeeping_becomes) (simp_all add: record_fault_def)

lemma clock_becomes: "cells_ok db \<Longrightarrow> becomes db (view_of db) (observe_remote_hlc h db)"
  by (erule bookkeeping_becomes) (simp_all add: observe_remote_hlc_def)

section \<open>Reading and writing versions\<close>

lemma cells_okD:
  assumes "cells_ok db"
  shows "length (cd_himos db) \<le> 0xFFFF" "unat h < length (cd_himos db) \<Longrightarrow> column_ok (cd_max_entities db) (cd_himos db ! unat h)"
    "cd_has_cell_version db \<Longrightarrow> length (cd_ver_cols db) = length (cd_himos db)"
    "cd_has_cell_version db \<Longrightarrow> unat h < length (cd_himos db) \<Longrightarrow> versions_ok (cd_max_entities db) (cd_ver_cols db ! unat h)"
    "cd_has_cell_version db \<Longrightarrow> \<exists>t. cd_tomb_col db = Some t \<and> versions_ok (cd_max_entities db) t"
    "\<not> cd_has_cell_version db \<Longrightarrow> cd_ver_cols db = [] \<and> cd_tomb_col db = None \<and> cd_sync_tables_on db"
    "eset_ok (cd_entities db)" "es_max_entities (cd_entities db) = cd_max_entities db"
  using assms by (auto simp: cells_ok_def split: if_splits)

text \<open>Replacing one version column.\<close>

lemma ver_col_becomes:
  assumes ok: "cells_ok db" and v: "cd_has_cell_version db" and h: "unat h < length (cd_himos db)"
    and c: "versions_ok (cd_max_entities db) col"
  shows "becomes db ((view_of db)\<lparr>cv_version := (\<lambda>h' e. if h' = h then (if e < cd_max_entities db then ver_at col e else hlc_ZERO) else db_version db h' e)\<rparr>)
    (set_ver_col h col db)"
proof (rule becomesI)
  have len: "length (cd_ver_cols db) = length (cd_himos db)" by (rule cells_okD(3)[OF ok v])
  have "\<forall>col' \<in> set ((cd_ver_cols db)[unat h := col]). versions_ok (cd_max_entities db) col'"
    using ok v c set_update_subset_insert[of "cd_ver_cols db" "unat h" col] by (auto simp: cells_ok_def)
  then show "cells_ok (set_ver_col h col db)" using ok v by (simp add: cells_ok_def)
  show "same_shape db (set_ver_col h col db)" by (simp add: same_shape_def)
  have "db_version (set_ver_col h col db) h' e = (if h' = h then (if e < cd_max_entities db then ver_at col e else hlc_ZERO) else db_version db h' e)" for h' e
    using v h len by (auto simp: db_version_def nth_list_update word_unat_eq_iff)
  then show "view_of (set_ver_col h col db) = (view_of db)\<lparr>cv_version := (\<lambda>h' e. if h' = h then (if e < cd_max_entities db then ver_at col e else hlc_ZERO) else db_version db h' e)\<rparr>"
    using db_parts_eq(1)[of "set_ver_col h col db" db] db_parts_eq(3)[of "set_ver_col h col db" db] by (simp add: view_of_def fun_eq_iff)
qed

lemma tomb_col_becomes:
  assumes ok: "cells_ok db" and v: "cd_has_cell_version db" and c: "versions_ok (cd_max_entities db) col"
  shows "becomes db ((view_of db)\<lparr>cv_tomb := (\<lambda>e. if e < cd_max_entities db then ver_at col e else hlc_ZERO)\<rparr>) (db\<lparr>cd_tomb_col := Some col\<rparr>)"
proof (rule becomesI)
  let ?db = "db\<lparr>cd_tomb_col := Some col\<rparr>"
  show "cells_ok ?db" using ok v c by (simp add: cells_ok_def)
  show "same_shape db ?db" by (simp add: same_shape_def)
  have "db_tomb ?db = (\<lambda>e. if e < cd_max_entities db then ver_at col e else hlc_ZERO)" using v by (simp add: db_tomb_def fun_eq_iff)
  then show "view_of ?db = (view_of db)\<lparr>cv_tomb := (\<lambda>e. if e < cd_max_entities db then ver_at col e else hlc_ZERO)\<rparr>"
    using db_parts_eq(1)[of ?db db] db_parts_eq(2)[of ?db db] by (simp add: view_of_def)
qed

lemma versions_ok_commit:
  assumes "versions_ok n col" "ver_ok col'" "col_max_entities col' = col_max_entities col"
  shows "versions_ok n col'"
  using assms by (simp add: versions_ok_def)

lemma read_version_total:
  assumes "versions_ok n col" "e < n" "\<forall>k. grow k \<noteq> None"
  shows "\<exists>col'. read_version grow e col = (col', Some (ver_at col e)) \<and> versions_ok n col' \<and> (\<forall>x. ver_at col' x = ver_at col x)"
proof -
  obtain col' r where r: "read_version grow e col = (col', r)" by (metis surj_pair)
  have v: "ver_ok col" and e: "e < col_max_entities col" using assms(1,2) by (auto simp: versions_ok_def)
  note s = read_version_spec[OF v e r]
  have "r \<noteq> None" using r commit_total[OF assms(3), of e col] by (auto simp: read_version_def split: prod.splits if_splits)
  then show ?thesis using s assms(1) r by (auto simp: versions_ok_def)
qed

lemma write_version_total:
  assumes "versions_ok n col" "e < n" "\<forall>k. grow k \<noteq> None"
  shows "\<exists>col'. write_version grow e h col = (col', True) \<and> versions_ok n col' \<and> (\<forall>x < n. ver_at col' x = (if x = e then h else ver_at col x))"
proof -
  obtain col' ok where w: "write_version grow e h col = (col', ok)" by (metis surj_pair)
  have v: "ver_ok col" and e: "e < col_max_entities col" and n: "n \<le> col_max_entities col" using assms(1,2) by (auto simp: versions_ok_def)
  note s = write_version_spec[OF v e w]
  have "ok" using w commit_total[OF assms(3), of e col] by (auto simp: write_version_def split: prod.splits if_splits)
  then show ?thesis using s w n by (auto simp: versions_ok_def)
qed

text \<open>With room on the disk, reading a version shows nothing new and returns the version of the view.\<close>

lemma version_of_spec:
  assumes ok: "cells_ok db" and d: "disk_ok env" and e: "e < cd_max_entities db" and h: "unat h < length (cd_himos db)"
    and r: "version_of env e h db = (db', v)"
  shows "becomes db (view_of db) db'" "v = db_version db h e"
proof -
  have "becomes db (view_of db) db' \<and> v = db_version db h e"
  proof (cases "cd_has_cell_version db")
    case True
    let ?col = "cd_ver_cols db ! unat h"
    have len: "length (cd_ver_cols db) = length (cd_himos db)" by (rule cells_okD(3)[OF ok True])
    obtain col' where c: "read_version (ce_ver env) e ?col = (col', Some (ver_at ?col e))" "versions_ok (cd_max_entities db) col'"
        "\<forall>x. ver_at col' x = ver_at ?col x"
      using read_version_total[OF cells_okD(4)[OF ok True h] e, of "ce_ver env"] d by (auto simp: disk_ok_def)
    have db': "db' = set_ver_col h col' db" "v = ver_at ?col e"
      using r True c(1) e h len by (auto simp: version_of_def cell_hlc_local_def ver_col_def)
    have dv: "db_version db h x = (if x < cd_max_entities db then ver_at ?col x else hlc_ZERO)" for x
      using True h len by (simp add: db_version_def)
    have "(view_of db)\<lparr>cv_version := (\<lambda>h' x. if h' = h then (if x < cd_max_entities db then ver_at col' x else hlc_ZERO) else db_version db h' x)\<rparr> = view_of db"
      using dv c(3) by (auto simp: view_of_def fun_eq_iff)
    then show ?thesis using ver_col_becomes[OF ok True h c(2)] dv[of e] e db' by simp
  next
    case False
    then show ?thesis using r h becomes_refl[OF ok] by (auto simp: version_of_def db_version_def store_version_def)
  qed
  then show "becomes db (view_of db) db'" "v = db_version db h e" by simp_all
qed

lemma tombstone_version_of_spec:
  assumes ok: "cells_ok db" and d: "disk_ok env" and e: "e < cd_max_entities db" and r: "tombstone_version_of env e db = (db', v)"
  shows "becomes db (view_of db) db'" "v = db_tomb db e"
proof -
  have "becomes db (view_of db) db' \<and> v = db_tomb db e"
  proof (cases "cd_has_cell_version db")
    case True
    obtain col where col: "cd_tomb_col db = Some col" "versions_ok (cd_max_entities db) col" using cells_okD(5)[OF ok True] by blast
    obtain col' where c: "read_version (ce_tomb env) e col = (col', Some (ver_at col e))" "versions_ok (cd_max_entities db) col'"
        "\<forall>x. ver_at col' x = ver_at col x"
      using read_version_total[OF col(2) e, of "ce_tomb env"] d by (auto simp: disk_ok_def)
    have db': "db' = db\<lparr>cd_tomb_col := Some col'\<rparr>" "v = ver_at col e"
      using r True c(1) e col(1) by (auto simp: tombstone_version_of_def tombstone_hlc_local_def)
    have dv: "db_tomb db x = (if x < cd_max_entities db then ver_at col x else hlc_ZERO)" for x using True col(1) by (simp add: db_tomb_def)
    have "(view_of db)\<lparr>cv_tomb := (\<lambda>x. if x < cd_max_entities db then ver_at col' x else hlc_ZERO)\<rparr> = view_of db"
      using dv c(3) by (auto simp: view_of_def fun_eq_iff)
    then show ?thesis using tomb_col_becomes[OF ok True c(2)] dv[of e] e db' by simp
  next
    case False
    then show ?thesis using r becomes_refl[OF ok] by (auto simp: tombstone_version_of_def db_tomb_def store_version_def)
  qed
  then show "becomes db (view_of db) db'" "v = db_tomb db e" by simp_all
qed

lemma version_keys:
  "version_key_of e db = version_key_of x db \<longleftrightarrow> e = x"
  by (metis version_key_of_def eid_split_join_bits(2))

lemma himo_not_tomb_key: "cells_ok db \<Longrightarrow> unat h < length (cd_himos db) \<Longrightarrow> h \<noteq> TOMB_KEY"
  using cells_okD(1)[of db] by auto

lemma memory_becomes:
  assumes ok: "cells_ok db" and v: "\<not> cd_has_cell_version db"
  shows "becomes db ((view_of db)\<lparr>cv_version := (\<lambda>h' x. if unat h' < length (cd_himos db) then store_version (version_key_of x db, h') s else hlc_ZERO), cv_tomb := (\<lambda>x. store_version (version_key_of x db, TOMB_KEY) s)\<rparr>)
    (db\<lparr>cd_hlc_store := s\<rparr>)"
proof (rule becomesI)
  let ?db = "db\<lparr>cd_hlc_store := s\<rparr>"
  show "cells_ok ?db" using ok v by (simp add: cells_ok_def)
  show "same_shape db ?db" by (simp add: same_shape_def)
  have "db_version ?db = (\<lambda>h' x. if unat h' < length (cd_himos db) then store_version (version_key_of x db, h') s else hlc_ZERO)" "db_tomb ?db = (\<lambda>x. store_version (version_key_of x db, TOMB_KEY) s)"
    using v by (simp_all add: db_version_def db_tomb_def fun_eq_iff version_key_of_def)
  then show "view_of ?db = (view_of db)\<lparr>cv_version := (\<lambda>h' x. if unat h' < length (cd_himos db) then store_version (version_key_of x db, h') s else hlc_ZERO), cv_tomb := (\<lambda>x. store_version (version_key_of x db, TOMB_KEY) s)\<rparr>"
    using db_parts_eq(1)[of ?db db] by (simp add: view_of_def)
qed

definition view_version :: "u16 \<Rightarrow> u32 \<Rightarrow> hlc \<Rightarrow> cell_view \<Rightarrow> cell_view" where
  "view_version h e t v = v\<lparr>cv_version := (\<lambda>h' x. if h' = h \<and> x = e then t else cv_version v h' x)\<rparr>"

definition view_tomb :: "u32 \<Rightarrow> hlc \<Rightarrow> cell_view \<Rightarrow> cell_view" where
  "view_tomb e t v = v\<lparr>cv_tomb := (cv_tomb v)(e := t)\<rparr>"

lemma store_cell_hlc_spec:
  assumes ok: "cells_ok db" and d: "disk_ok env" and e: "e < cd_max_entities db" and h: "unat h < length (cd_himos db)"
    and t: "db_version db h e < t"
  shows "becomes db (view_version h e t (view_of db)) (store_cell_hlc env e h t db)"
proof -
  have nz: "t \<noteq> hlc_ZERO" using t hlc_ZERO_least[of "db_version db h e"] by auto
  show ?thesis
  proof (cases "cd_has_cell_version db")
    case True
    let ?col = "cd_ver_cols db ! unat h"
    have len: "length (cd_ver_cols db) = length (cd_himos db)" by (rule cells_okD(3)[OF ok True])
    obtain col' where c: "write_version (ce_ver env) e t ?col = (col', True)" "versions_ok (cd_max_entities db) col'"
        "\<forall>x < cd_max_entities db. ver_at col' x = (if x = e then t else ver_at ?col x)"
      using write_version_total[OF cells_okD(4)[OF ok True h] e, of "ce_ver env" t] d by (auto simp: disk_ok_def)
    have db': "store_cell_hlc env e h t db = set_ver_col h col' db"
      using nz e c(1) h len by (simp add: store_cell_hlc_def ver_col_def not_le[symmetric])
    have dv: "db_version db h x = (if x < cd_max_entities db then ver_at ?col x else hlc_ZERO)" for x
      using True h len by (simp add: db_version_def)
    have "(view_of db)\<lparr>cv_version := (\<lambda>h' x. if h' = h then (if x < cd_max_entities db then ver_at col' x else hlc_ZERO) else db_version db h' x)\<rparr> =
        view_version h e t (view_of db)"
      using dv c(3) e by (auto simp: view_of_def view_version_def fun_eq_iff)
    then show ?thesis using ver_col_becomes[OF ok True h c(2)] by (simp add: db')
  next
    case False
    note m = cells_okD(6)[OF ok False]
    let ?s = "fst (store_try_set (version_key_of e db) h t (cd_hlc_store db))"
    have db': "store_cell_hlc env e h t db = db\<lparr>cd_hlc_store := ?s\<rparr>"
      using nz e m by (simp add: store_cell_hlc_def ver_col_def not_le[symmetric])
    have g: "store_version (version_key_of x db, h') ?s = (if h' = h \<and> x = e then t else store_version (version_key_of x db, h') (cd_hlc_store db))" for h' x
      using store_try_set_get[of "(version_key_of x db, h')" "(version_key_of e db, h)" t "cd_hlc_store db"] t False h
      by (auto simp: version_keys db_version_def max_def)
    have "(view_of db)\<lparr>cv_version := (\<lambda>h' x. if unat h' < length (cd_himos db) then store_version (version_key_of x db, h') ?s else hlc_ZERO), cv_tomb := (\<lambda>x. store_version (version_key_of x db, TOMB_KEY) ?s)\<rparr> =
        view_version h e t (view_of db)"
      using False himo_not_tomb_key[OF ok h] h by (auto simp: view_of_def view_version_def g db_version_def db_tomb_def fun_eq_iff)
    then show ?thesis using memory_becomes[OF ok False, of ?s] by (simp add: db')
  qed
qed

lemma write_tomb_spec:
  assumes ok: "cells_ok db" and d: "disk_ok env" and e: "e < cd_max_entities db" and t: "db_tomb db e < t"
    and s: "set_tombstone_local env e t db = (db', r)"
  shows "becomes db (view_tomb e t (view_of db)) db'"
proof -
  have nz: "t \<noteq> hlc_ZERO" using t hlc_ZERO_least[of "db_tomb db e"] by auto
  obtain db1 v where tv: "tombstone_version_of env e db = (db1, v)" by (metis surj_pair)
  note ts = tombstone_version_of_spec[OF ok d e tv]
  note ok1 = becomesD[OF ts(1)]
  note sh = same_shapeD[OF ok1(3)]
  have acc: "accepts_hlc v t" using t ts(2) by (simp add: accepts_hlc_def)
  have e1: "e < cd_max_entities db1" using e sh(4) by simp
  have tomb1: "db_tomb db1 = db_tomb db" "view_of db1 = view_of db" using ok1(2) by (auto simp: view_of_def)
  have "becomes db1 (view_tomb e t (view_of db1)) db'"
  proof (cases "cd_has_cell_version db1")
    case True
    obtain col where col: "cd_tomb_col db1 = Some col" "versions_ok (cd_max_entities db1) col" using cells_okD(5)[OF ok1(1) True] by blast
    obtain col' where c: "write_version (ce_tomb env) e t col = (col', True)" "versions_ok (cd_max_entities db1) col'"
        "\<forall>x < cd_max_entities db1. ver_at col' x = (if x = e then t else ver_at col x)"
      using write_version_total[OF col(2) e1, of "ce_tomb env" t] d by (auto simp: disk_ok_def)
    have db': "db' = db1\<lparr>cd_tomb_col := Some col'\<rparr>"
      using s tv acc nz e1 col(1) c(1) by (simp add: set_tombstone_local_def not_le[symmetric])
    have dv: "db_tomb db1 x = (if x < cd_max_entities db1 then ver_at col x else hlc_ZERO)" for x using True col(1) by (simp add: db_tomb_def)
    have "(view_of db1)\<lparr>cv_tomb := (\<lambda>x. if x < cd_max_entities db1 then ver_at col' x else hlc_ZERO)\<rparr> = view_tomb e t (view_of db1)"
      using dv c(3) e1 by (auto simp: view_of_def view_tomb_def fun_eq_iff)
    then show ?thesis using tomb_col_becomes[OF ok1(1) True c(2)] by (simp add: db')
  next
    case False
    note m = cells_okD(6)[OF ok1(1) False]
    let ?s = "fst (store_try_set (version_key_of e db1) TOMB_KEY t (cd_hlc_store db1))"
    have db': "db' = db1\<lparr>cd_hlc_store := ?s\<rparr>"
      using s tv acc nz e1 m by (simp add: set_tombstone_local_def not_le[symmetric])
    have t1: "store_version (version_key_of e db1, TOMB_KEY) (cd_hlc_store db1) < t" using t False tomb1(1) by (metis db_tomb_def)
    have g: "store_version (version_key_of x db1, h') ?s =
        (if h' = TOMB_KEY \<and> x = e then t else store_version (version_key_of x db1, h') (cd_hlc_store db1))" for h' x
      using store_try_set_get[of "(version_key_of x db1, h')" "(version_key_of e db1, TOMB_KEY)" t "cd_hlc_store db1"] t1
      by (auto simp: version_keys max_def)
    have "(view_of db1)\<lparr>cv_version := (\<lambda>h' x. if unat h' < length (cd_himos db1) then store_version (version_key_of x db1, h') ?s else hlc_ZERO),
          cv_tomb := (\<lambda>x. store_version (version_key_of x db1, TOMB_KEY) ?s)\<rparr> = view_tomb e t (view_of db1)"
      using False himo_not_tomb_key[OF ok1(1)] by (auto simp: view_of_def view_tomb_def g db_version_def db_tomb_def fun_eq_iff)
    then show ?thesis using memory_becomes[OF ok1(1) False, of ?s] by (simp add: db')
  qed
  then show ?thesis using becomes_trans[OF ts(1)] by (simp add: tomb1(2))
qed

text \<open>The last-writer-wins decision.\<close>

lemma accepts_write_spec:
  assumes ok: "cells_ok db" and d: "disk_ok env" and e: "e < cd_max_entities db" and h: "unat h < length (cd_himos db)"
    and t: "t \<noteq> hlc_ZERO" and a: "accepts_write env e h t db = (db', acc)"
  shows "becomes db (view_of db) db'" "acc \<longleftrightarrow> db_tomb db e \<le> t \<and> db_version db h e < t"
proof -
  have some: "cd_sync_tables_on db \<or> cd_has_cell_version db" using cells_okD(6)[OF ok] by blast
  obtain db1 tomb where tv: "tombstone_version_of env e db = (db1, tomb)" by (metis surj_pair)
  note ts = tombstone_version_of_spec[OF ok d e tv]
  note ok1 = becomesD[OF ts(1)] and sh = same_shapeD[OF becomesD(3)[OF ts(1)]]
  obtain db2 cur where v: "version_of env e h db1 = (db2, cur)" by (metis surj_pair)
  have "e < cd_max_entities db1" "unat h < length (cd_himos db1)" using e h sh(1,4) by simp_all
  note vs = version_of_spec[OF ok1(1) d this v]
  have eq: "db_version db1 = db_version db" using ok1(2) by (auto simp: view_of_def)
  have z: "hlc_ZERO < t" using t hlc_ZERO_least[of t] by simp
  have b2: "becomes db (view_of db) db2" using becomes_trans[OF ts(1)] vs(1) ok1(2) by simp
  have "db' = (if tomb \<noteq> hlc_ZERO \<and> t < tomb then db1 else db2)" "acc = (\<not> (tomb \<noteq> hlc_ZERO \<and> t < tomb) \<and> accepts_hlc cur t)"
    using a tv v t some by (auto simp: accepts_write_def split: if_splits)
  then show "becomes db (view_of db) db'" "acc \<longleftrightarrow> db_tomb db e \<le> t \<and> db_version db h e < t"
    using ts vs b2 z eq t by (auto simp: accepts_hlc_def not_less)
qed

section \<open>Values\<close>

definition view_value :: "u16 \<Rightarrow> u32 \<Rightarrow> u64 option \<Rightarrow> cell_view \<Rightarrow> cell_view" where
  "view_value h e x v = v\<lparr>cv_value := (\<lambda>h' y. if h' = h \<and> y = e then x else cv_value v h' y)\<rparr>"

lemma himo_becomes:
  assumes ok: "cells_ok db" and h: "unat h < length (cd_himos db)" and w: "wrote (cd_himos db ! unat h) e x hs"
    and f: "cd_himos db' = (cd_himos db)[unat h := hs]" "cd_ver_cols db' = cd_ver_cols db" "cd_tomb_col db' = cd_tomb_col db"
    "cd_entities db' = cd_entities db" "cd_hlc_store db' = cd_hlc_store db" "cd_sync_tables_on db' = cd_sync_tables_on db"
    "cd_has_cell_version db' = cd_has_cell_version db" "cd_peer db' = cd_peer db" "cd_max_entities db' = cd_max_entities db"
  shows "becomes db (view_value h e x (view_of db)) db'"
proof (rule becomesI)
  note c = cells_okD(2)[OF ok h]
  have "column_ok (cd_max_entities db) hs" using c w by (simp add: column_ok_def wrote_def)
  then have all: "\<forall>x \<in> set ((cd_himos db)[unat h := hs]). column_ok (cd_max_entities db) x"
    using ok set_update_subset_insert[of "cd_himos db" "unat h" hs] by (auto simp: cells_ok_def)
  show "cells_ok db'" using ok all unfolding cells_ok_def f by simp
  have "map hs_value_type ((cd_himos db)[unat h := hs]) = map hs_value_type (cd_himos db)"
    using w h by (simp add: map_update wrote_def) (metis list_update_id map_update)
  then show "same_shape db db'" by (simp add: same_shape_def f)
  have "db_value db' h' y = (if h' = h \<and> y = e then x else db_value db h' y)" for h' y
    using w h by (auto simp: db_value_def f nth_list_update wrote_def word_unat_eq_iff)
  then show "view_of db' = view_value h e x (view_of db)"
    using db_parts_eq(2)[of db' db] db_parts_eq(3)[of db' db] by (simp add: view_of_def view_value_def f fun_eq_iff)
qed

lemma live_set_spec:
  assumes ok: "cells_ok db" and d: "disk_ok env" and e: "e < cd_max_entities db" and h: "unat h < length (cd_himos db)"
    and v: "v \<le> vt_max_value (hs_value_type (cd_himos db ! unat h))"
  shows "\<exists>db'. live_set env h e v db = Some (db', True) \<and> becomes db (view_value h e (Some v) (view_of db)) db'"
proof -
  let ?hs = "cd_himos db ! unat h"
  have i: "himo_inv ?hs" "e < col_max_entities (hs_col ?hs)" using cells_okD(2)[OF ok h] e by (auto simp: column_ok_def)
  have env: "env_ok (ce_himo env)" "\<forall>n. env_grow (ce_himo env) n \<noteq> None" using d by (simp_all add: disk_ok_def)
  obtain hs' ok' where s: "himo_set (ce_himo env) e v ?hs = Some (hs', ok')" "if ok' then wrote ?hs e (Some v) hs' else hs' = ?hs"
    using himo_set_spec[OF i(1) env(1) i(2), of v] by blast
  have "ok'"
  proof -
    have "snd (ensure_committed_for (env_grow (ce_himo env)) e (hs_col ?hs))" by (rule commit_total[OF env(2)])
    then show ?thesis
      using s(1) v by (auto simp: himo_set_def set_indexed_def store_unindexed_def Let_def split: if_splits prod.splits option.splits)
  qed
  then show ?thesis
    using s by (auto simp: live_set_def Let_def intro!: himo_becomes[OF ok h, of e "Some v" hs'])
qed

lemma live_remove_spec:
  assumes ok: "cells_ok db" and d: "disk_ok env" and h: "unat h < length (cd_himos db)"
  shows "becomes db (view_value h e None (view_of db)) (live_remove env h e db)"
proof -
  have "himo_inv (cd_himos db ! unat h)" using cells_okD(2)[OF ok h] by (simp add: column_ok_def)
  from himo_remove_spec[OF this, of "ce_himo env" e] d
  have "wrote (cd_himos db ! unat h) e None (himo_remove (ce_himo env) e (cd_himos db ! unat h))" by (simp add: disk_ok_def)
  then show ?thesis by (rule himo_becomes[OF ok h]) (simp_all add: live_remove_def)
qed

definition view_live :: "u32 \<Rightarrow> bool \<Rightarrow> cell_view \<Rightarrow> cell_view" where
  "view_live e b v = v\<lparr>cv_live := (cv_live v)(e := b)\<rparr>"

lemma entities_becomes:
  assumes ok: "cells_ok db" and es: "eset_ok es" "es_max_entities es = es_max_entities (cd_entities db)"
    and l: "\<And>x. is_live x es \<longleftrightarrow> (if x = e then b else is_live x (cd_entities db))"
    and f: "cd_himos db' = cd_himos db" "cd_ver_cols db' = cd_ver_cols db" "cd_tomb_col db' = cd_tomb_col db"
    "cd_entities db' = es" "cd_hlc_store db' = cd_hlc_store db" "cd_sync_tables_on db' = cd_sync_tables_on db"
    "cd_has_cell_version db' = cd_has_cell_version db" "cd_peer db' = cd_peer db" "cd_max_entities db' = cd_max_entities db"
  shows "becomes db (view_live e b (view_of db)) db'"
proof (rule becomesI)
  show "cells_ok db'" using ok es unfolding cells_ok_def f by simp
  show "same_shape db db'" by (simp add: same_shape_def f)
  show "view_of db' = view_live e b (view_of db)"
    using db_parts_eq(1)[of db' db] db_parts_eq(2)[of db' db] db_parts_eq(3)[of db' db] l by (simp add: view_of_def view_live_def f fun_eq_iff)
qed

lemma live_free_spec:
  assumes ok: "cells_ok db" and d: "disk_ok env"
  shows "becomes db (view_live e False (view_of db)) (live_free env e db)"
proof -
  have g: "\<forall>n. ce_ents env n \<noteq> None" using d by (simp add: disk_ok_def)
  note fp = free_pool[OF cells_okD(7)[OF ok] g, of e]
  have "live_eids (eset_free (ce_ents env) e (cd_entities db)) = live_eids (cd_entities db) - {e}"
    by (rule live_after_free[OF cells_okD(7)[OF ok] g])
  then have l: "is_live x (eset_free (ce_ents env) e (cd_entities db)) \<longleftrightarrow> (if x = e then False else is_live x (cd_entities db))" for x
    by (auto simp: live_eids_def set_eq_iff)
  show ?thesis by (rule entities_becomes[OF ok _ _ l]) (use fp in \<open>simp_all add: live_free_def\<close>)
qed

lemma ensure_live_max: "es_max_entities (ensure_live grow e es) = es_max_entities es"
  by (auto simp: ensure_live_def set_live_bit_def Let_def put_u32_def split: prod.splits if_splits bool.splits)

lemma live_not_stacked: "eset_ok es \<Longrightarrow> is_live e es \<Longrightarrow> unat e \<notin> set (es_free es)"
  by (auto simp: is_live_bits eset_ok_def pool_ok_def pool_of_def)

lemma ensure_live_spec:
  assumes ok: "cells_ok db" and d: "disk_ok env" and e: "e < cd_max_entities db" and nf: "unat e \<notin> set (es_free (cd_entities db))"
    and db': "db' = db\<lparr>cd_entities := ensure_live (ce_ents env) e (cd_entities db), cd_tables := ts\<rparr>"
  shows "becomes db (view_live e True (view_of db)) db'"
proof -
  let ?es = "cd_entities db"
  have g: "\<forall>n. ce_ents env n \<noteq> None" using d by (simp add: disk_ok_def)
  note eo = cells_okD(7)[OF ok]
  have em: "e < es_max_entities ?es" using e cells_okD(8)[OF ok] by simp
  note p = ensure_live_pool[OF eo g em nf]
  then have "es_bits (ensure_live (ce_ents env) e ?es) = insert (unat e) (es_bits ?es)"
    using arg_cong[OF conjunct2[OF p], of ip_live] by (simp add: pool_of_def pool_add_def)
  then have lv: "is_live x (ensure_live (ce_ents env) e ?es) \<longleftrightarrow> (if x = e then True else is_live x ?es)" for x
    using p by (auto simp: is_live_bits eo word_unat_eq_iff)
  show ?thesis by (rule entities_becomes[OF ok _ _ lv]) (use p ensure_live_max in \<open>simp_all add: db'\<close>)
qed

section \<open>Writing and clearing a cell\<close>

lemma set_cell_in_spec:
  assumes ok: "cells_ok db" and d: "disk_ok env" and e: "e < cd_max_entities db" and h: "unat h < length (cd_himos db)"
    and v: "v \<le> vt_max_value (hs_value_type (cd_himos db ! unat h))" and t: "t \<noteq> hlc_ZERO"
  shows "\<exists>db'. set_cell_in env e h v t db = Some (db', db_tomb db e \<le> t \<and> db_version db h e < t) \<and>
    becomes db (if db_tomb db e \<le> t \<and> db_version db h e < t then view_version h e t (view_value h e (Some v) (view_of db)) else view_of db) db'"
proof -
  obtain db1 acc where a: "accepts_write env e h t db = (db1, acc)" by (metis surj_pair)
  note as = accepts_write_spec[OF ok d e h t a]
  note ok1 = becomesD[OF as(1)] and sh = same_shapeD[OF becomesD(3)[OF as(1)]]
  have f: "fits_column h v db = (db, True)" using v h by (simp add: fits_column_def not_less)
  show ?thesis
  proof (cases acc)
    case False
    then show ?thesis using f a as by (auto simp: set_cell_in_def)
  next
    case True
    have e1: "e < cd_max_entities db1" "unat h < length (cd_himos db1)" "v \<le> vt_max_value (hs_value_type (cd_himos db1 ! unat h))"
      using e h v sh(1,4) sh(6)[OF h] by simp_all
    obtain db2 where s: "live_set env h e v db1 = Some (db2, True)" "becomes db1 (view_value h e (Some v) (view_of db1)) db2"
      using live_set_spec[OF ok1(1) d e1] by blast
    note ok2 = becomesD[OF s(2)] and sh2 = same_shapeD[OF becomesD(3)[OF s(2)]]
    have e2: "e < cd_max_entities db2" "unat h < length (cd_himos db2)" using e1 sh2(1,4) by simp_all
    have "db_version db2 = db_version db" using ok2(2) ok1(2) by (auto simp: view_of_def view_value_def)
    then have lt: "db_version db2 h e < t" using as(2) True by simp
    note w = store_cell_hlc_spec[OF ok2(1) d e2 lt]
    have "becomes db (view_version h e t (view_value h e (Some v) (view_of db))) (store_cell_hlc env e h t db2)"
      using becomes_trans[OF as(1) becomes_trans[OF s(2) w]] ok1(2) ok2(2) by simp
    then show ?thesis using f a as(2) True s(1) by (simp add: set_cell_in_def)
  qed
qed

lemma clear_cell_in_spec:
  assumes ok: "cells_ok db" and d: "disk_ok env" and e: "e < cd_max_entities db" and h: "unat h < length (cd_himos db)" and t: "t \<noteq> hlc_ZERO"
    and c: "clear_cell_in env e h t db = (db', acc)"
  shows "acc \<longleftrightarrow> db_tomb db e \<le> t \<and> db_version db h e < t"
    "becomes db (if acc then view_version h e t (view_value h e None (view_of db)) else view_of db) db'"
proof -
  obtain db1 acc1 where a: "accepts_write env e h t db = (db1, acc1)" by (metis surj_pair)
  note as = accepts_write_spec[OF ok d e h t a]
  note ok1 = becomesD[OF as(1)] and sh = same_shapeD[OF becomesD(3)[OF as(1)]]
  have acc: "acc = acc1" using c a by (auto simp: clear_cell_in_def split: bool.splits)
  then show "acc \<longleftrightarrow> db_tomb db e \<le> t \<and> db_version db h e < t" using as(2) by simp
  show "becomes db (if acc then view_version h e t (view_value h e None (view_of db)) else view_of db) db'"
  proof (cases acc)
    case False
    then show ?thesis using c a acc as(1) by (simp add: clear_cell_in_def)
  next
    case True
    have e1: "e < cd_max_entities db1" "unat h < length (cd_himos db1)" using e h sh(1,4) by simp_all
    note s = live_remove_spec[OF ok1(1) d e1(2), of e]
    note ok2 = becomesD[OF s] and sh2 = same_shapeD[OF becomesD(3)[OF s]]
    have e2: "e < cd_max_entities (live_remove env h e db1)" "unat h < length (cd_himos (live_remove env h e db1))"
      using e1 sh2(1,4) by simp_all
    have "db_version (live_remove env h e db1) = db_version db" using ok2(2) ok1(2) by (auto simp: view_of_def view_value_def)
    then have lt: "db_version (live_remove env h e db1) h e < t" using as(2) True acc by simp
    note w = store_cell_hlc_spec[OF ok2(1) d e2 lt]
    show ?thesis
      using becomes_trans[OF as(1) becomes_trans[OF s w]] ok1(2) ok2(2) c a acc True by (simp add: clear_cell_in_def)
  qed
qed

section \<open>Deleting\<close>

definition view_clear :: "u32 \<Rightarrow> u16 set \<Rightarrow> cell_view \<Rightarrow> cell_view" where
  "view_clear e H v = v\<lparr>cv_value := (\<lambda>h y. if y = e \<and> h \<in> H then None else cv_value v h y)\<rparr>"

lemma remove_body_spec:
  assumes ok: "cells_ok db" and d: "disk_ok env" and hs: "\<forall>h \<in> set hs. h < length (cd_himos db)"
  shows "\<exists>db'. remove_body_from env e hlc_ZERO hs (db, s) = (db', s) \<and> becomes db (view_clear e (word_of_nat ` set hs) (view_of db)) db'"
  using ok hs
proof (induction hs arbitrary: db)
  case Nil
  have "view_clear e (word_of_nat ` set []) (view_of db) = view_of db" by (simp add: view_clear_def)
  then show ?case using becomes_refl[OF Nil(1)] by simp
next
  case (Cons h hs)
  have h: "h < length (cd_himos db)" "h < 0xFFFF" using Cons.prems cells_okD(1)[OF Cons.prems(1)] by simp_all
  have u: "unat (word_of_nat h :: u16) = h" using h(2) by (simp add: unat_of_nat take_bit_nat_eq_self)
  define db1 where "db1 = (if get_value (cd_himos db ! h) e = None then db else live_remove env (word_of_nat h) e db)"
  have b1: "becomes db (view_value (word_of_nat h) e None (view_of db)) db1"
  proof (cases "get_value (cd_himos db ! h) e")
    case None
    have "db_value db (word_of_nat h) e = None" using None u h by (simp add: db_value_def himo_map_def get_value_def)
    then have "view_value (word_of_nat h) e None (view_of db) = view_of db" by (auto simp: view_value_def view_of_def fun_eq_iff)
    then show ?thesis using becomes_refl[OF Cons.prems(1)] None by (simp add: db1_def)
  next
    case (Some v)
    then show ?thesis using live_remove_spec[OF Cons.prems(1) d, of "word_of_nat h" e] u h by (simp add: db1_def)
  qed
  note ok1 = becomesD[OF b1] and sh1 = same_shapeD[OF becomesD(3)[OF b1]]
  have "\<forall>h \<in> set hs. h < length (cd_himos db1)" using Cons.prems(2) sh1(1) by simp
  from Cons.IH[OF ok1(1) this] obtain db' where r: "remove_body_from env e hlc_ZERO hs (db1, s) = (db', s)"
      "becomes db1 (view_clear e (word_of_nat ` set hs) (view_of db1)) db'" by blast
  have "view_clear e (word_of_nat ` set hs) (view_value (word_of_nat h) e None (view_of db)) = view_clear e (word_of_nat ` set (h # hs)) (view_of db)"
    by (auto simp: view_clear_def view_value_def fun_eq_iff)
  moreover have "remove_body_from env e hlc_ZERO (h # hs) (db, s) = (db', s)" using r(1) by (auto simp: db1_def split: if_splits)
  ultimately show ?case using becomes_trans[OF b1 r(2)] ok1(2) by auto
qed

lemma himo_range: "length (cd_himos db) \<le> 0xFFFF \<Longrightarrow> (h :: u16) \<in> word_of_nat ` set [0..<length (cd_himos db)] \<longleftrightarrow> unat h < length (cd_himos db)"
proof
  assume len: "length (cd_himos db) \<le> 0xFFFF" and "h \<in> word_of_nat ` set [0..<length (cd_himos db)]"
  then obtain i where "i < length (cd_himos db)" "h = word_of_nat i" by auto
  then show "unat h < length (cd_himos db)" using len by (simp add: unat_of_nat take_bit_nat_eq_self)
next
  assume "unat h < length (cd_himos db)"
  then show "h \<in> word_of_nat ` set [0..<length (cd_himos db)]" by (intro image_eqI[of _ _ "unat h"]) simp_all
qed

definition view_delete :: "u32 \<Rightarrow> hlc \<Rightarrow> cell_view \<Rightarrow> cell_view" where
  "view_delete e t v = view_live e False (view_tomb e t (v\<lparr>cv_value := (\<lambda>h y. if y = e then None else cv_value v h y)\<rparr>))"

lemma apply_delete_spec:
  assumes ok: "cells_ok db" and d: "disk_ok env" and e: "e < cd_max_entities db" and t: "t \<noteq> hlc_ZERO"
    and a: "apply_delete_in env e t db = (db', acc)"
  shows "acc \<longleftrightarrow> db_tomb db e \<le> t" "becomes db (if acc then view_delete e t (view_of db) else view_of db) db'"
proof -
  obtain db1 tomb where tv: "tombstone_version_of env e db = (db1, tomb)" by (metis surj_pair)
  note ts = tombstone_version_of_spec[OF ok d e tv]
  note ok1 = becomesD[OF ts(1)] and sh = same_shapeD[OF becomesD(3)[OF ts(1)]]
  have z: "hlc_ZERO < t" using t hlc_ZERO_least[of t] by simp
  have acc: "acc \<longleftrightarrow> db_tomb db e \<le> t" using a tv ts(2) t z by (auto simp: apply_delete_in_def not_less split: if_splits)
  then show "acc \<longleftrightarrow> db_tomb db e \<le> t" .
  show "becomes db (if acc then view_delete e t (view_of db) else view_of db) db'"
  proof (cases acc)
    case False
    then show ?thesis using a tv ts by (auto simp: apply_delete_in_def split: if_splits)
  next
    case True
    obtain db2 r where s: "set_tombstone_local env e t db1 = (db2, r)" by (metis surj_pair)
    have e1: "e < cd_max_entities db1" using e sh(4) by simp
    have tomb1: "db_tomb db1 = db_tomb db" using ok1(2) by (auto simp: view_of_def)
    have b2: "becomes db1 (view_tomb e t (view_of db1)) db2"
    proof (cases "db_tomb db1 e < t")
      case True
      then show ?thesis by (rule write_tomb_spec[OF ok1(1) d e1 _ s])
    next
      case False
      then have eq: "db_tomb db1 e = t" using acc \<open>acc\<close> tomb1 by simp
      obtain db3 v where tv3: "tombstone_version_of env e db1 = (db3, v)" by (metis surj_pair)
      note t3 = tombstone_version_of_spec[OF ok1(1) d e1 tv3]
      have "db2 = db3" using s tv3 t3(2) eq t by (simp add: set_tombstone_local_def accepts_hlc_def)
      moreover have "view_tomb e t (view_of db1) = view_of db1" using eq by (auto simp: view_tomb_def view_of_def fun_eq_iff)
      ultimately show ?thesis using t3(1) by simp
    qed
    note ok2 = becomesD[OF b2] and sh2 = same_shapeD[OF becomesD(3)[OF b2]]
    obtain db3 where r: "remove_body_from env e hlc_ZERO [0..<length (cd_himos db2)] (db2, False) = (db3, False)"
        "becomes db2 (view_clear e (word_of_nat ` set [0..<length (cd_himos db2)]) (view_of db2)) db3"
      using remove_body_spec[OF ok2(1) d, of "[0..<length (cd_himos db2)]" e False] by auto
    note ok3 = becomesD[OF r(2)]
    note fr = live_free_spec[OF ok3(1) d, of e]
    have db': "db' = live_free env e db3" using a tv s r(1) True by (auto simp: apply_delete_in_def remove_entity_body_def split: if_splits)
    have "cv_value (view_of db) h y = None" if "\<not> unat h < length (cd_himos db)" for h y using that by (simp add: view_of_def db_value_def)
    then have "view_live e False (view_clear e (word_of_nat ` set [0..<length (cd_himos db2)]) (view_tomb e t (view_of db))) = view_delete e t (view_of db)"
      unfolding view_delete_def view_clear_def himo_range[OF cells_okD(1)[OF ok2(1)]] using sh(1) sh2(1)
      by (auto simp: view_live_def view_tomb_def fun_eq_iff)
    then show ?thesis
      using becomes_trans[OF ts(1) becomes_trans[OF b2 becomes_trans[OF r(2) fr]]] ok1(2) ok2(2) ok3(2) True by (simp add: db')
  qed
qed

section \<open>Which operations touch the set of rows\<close>

lemma entities_fields [simp]:
  "cd_entities (record_fault k db) = cd_entities db" "cd_entities (observe_remote_hlc t db) = cd_entities db"
  "cd_entities (live_remove env h e db) = cd_entities db" "cd_entities (store_cell_hlc env e h t db) = cd_entities db"
  by (simp_all add: record_fault_def observe_remote_hlc_def live_remove_def store_cell_hlc_def split: option.split prod.split bool.split)

lemma entities_reads:
  "version_of env e h db = (db', v) \<Longrightarrow> cd_entities db' = cd_entities db"
  "tombstone_version_of env e db = (db', v) \<Longrightarrow> cd_entities db' = cd_entities db"
  "fits_column h x db = (db', ok) \<Longrightarrow> cd_entities db' = cd_entities db"
  by (auto simp: version_of_def cell_hlc_local_def tombstone_version_of_def tombstone_hlc_local_def fits_column_def Let_def
      split: option.splits prod.splits if_splits)

lemma entities_steps:
  "accepts_write env e h t db = (db', ok) \<Longrightarrow> cd_entities db' = cd_entities db"
  "set_tombstone_local env e t db = (db', ok) \<Longrightarrow> cd_entities db' = cd_entities db"
  "slot_is_dead env e db = (db', ok) \<Longrightarrow> cd_entities db' = cd_entities db"
  "ensure_cell_room env h e db = (db', ok) \<Longrightarrow> cd_entities db' = cd_entities db"
proof -
  show "accepts_write env e h t db = (db', ok) \<Longrightarrow> cd_entities db' = cd_entities db"
    by (auto simp: accepts_write_def split: prod.splits if_splits dest!: entities_reads)
  show "set_tombstone_local env e t db = (db', ok) \<Longrightarrow> cd_entities db' = cd_entities db"
    by (auto simp: set_tombstone_local_def split: prod.splits if_splits option.splits bool.splits dest!: entities_reads)
  show "slot_is_dead env e db = (db', ok) \<Longrightarrow> cd_entities db' = cd_entities db"
    by (auto simp: slot_is_dead_def split: prod.splits if_splits dest!: entities_reads)
  assume r: "ensure_cell_room env h e db = (db', ok)"
  define p where "p = (case ver_col h db of
            Some col \<Rightarrow>
              if e < cd_max_entities db then
                (if is_committed_for e col then (db, True)
                 else case ensure_committed_for (ce_ver env) e col of (col', ok) \<Rightarrow> (set_ver_col h col' db, ok))
              else (db, True)
          | None \<Rightarrow> (db, True))"
  have "cd_entities (fst p) = cd_entities db" by (simp add: p_def split: option.split prod.split)
  then show "cd_entities db' = cd_entities db"
    using r unfolding ensure_cell_room_def p_def[symmetric]
    by (cases p) (auto simp: Let_def split: prod.splits if_splits)
qed

lemma entities_set_cell: "set_cell_in env e h x t db = Some (db', acc) \<Longrightarrow> cd_entities db' = cd_entities db"
  by (auto simp: set_cell_in_def live_set_def Let_def split: prod.splits bool.splits option.splits if_splits
      dest!: entities_reads(3) entities_steps(1))

lemma entities_clear_cell: "clear_cell_in env e h t db = (db', acc) \<Longrightarrow> cd_entities db' = cd_entities db"
  by (auto simp: clear_cell_in_def split: prod.splits bool.splits dest!: entities_steps(1))

lemma entities_body: "remove_body_from env e t hs s = (db', sv) \<Longrightarrow> cd_entities db' = cd_entities (fst s)"
proof (induction env e t hs s rule: remove_body_from.induct)
  case (2 env e t h hs db survivor)
  obtain db1 newer where n: "(if t = hlc_ZERO then (db, False) else case version_of env e (word_of_nat h) db of (db', v) \<Rightarrow> (db', v > t)) = (db1, newer)"
    by (metis surj_pair)
  have "cd_entities db1 = cd_entities db" using n by (auto split: if_splits prod.splits dest: entities_reads(1))
  then show ?case using 2(1) 2(2,3)[OF _ n[symmetric] refl] 2(4) n by (auto split: if_splits)
qed simp

lemma entities_delete:
  assumes "apply_delete_in env e t db = (db', acc)"
  shows "cd_entities db' \<in> {cd_entities db, eset_free (ce_ents env) e (cd_entities db)}"
proof -
  obtain db1 tomb where tv: "tombstone_version_of env e db = (db1, tomb)" by (metis surj_pair)
  obtain db2 k where s: "set_tombstone_local env e t db1 = (db2, k)" by (metis surj_pair)
  obtain db3 sv where r: "remove_body_from env e hlc_ZERO [0..<length (cd_himos db2)] (db2, False) = (db3, sv)" by (metis surj_pair)
  show ?thesis
    using assms tv s r entities_reads(2)[OF tv] entities_steps(2)[OF s] entities_body[OF r]
    by (auto simp: apply_delete_in_def remove_entity_body_def live_free_def split: if_splits)
qed

end
