(* ===== verification/Himo_Runs.thy ===== *)
theory Himo_Runs
  imports Himo_Ops
begin

text \<open>
  A column store over its life: created on a blank region, written, read, compacted, closed and
  opened again, in any order. The step relation \<^verbatim>\<open>himo_reach\<close> runs the operations of the code
  beside the plain map they are meant to implement, and the refinement is an invariant of it.
  The last section is the exception: a store opened on a region whose header never reached the
  disk.
\<close>

section \<open>Creating and opening\<close>

definition blank_region :: "bool \<Rightarrow> u32 \<Rightarrow> value_type \<Rightarrow> region \<Rightarrow> bool" where
  "blank_region padded max_entities ht rg \<longleftrightarrow> (\<exists>n. rg_mem rg = replicate n 0) \<and> is_committed COL_HEADER rg \<and>
     cells_start padded + unat max_entities * unat (vt_width ht) \<le> length (rg_mem rg)"

lemma stored_blank:
  assumes "col_get e col = replicate (unat (col_value_size col)) 0" "width_ok col"
  shows "stored_at col e = 0"
proof -
  have "from_le_bytes (replicate 4 0) = (0 :: u32)" "from_le_bytes (replicate 8 0) = (0 :: u64)"
    using zero_le_bytes from_le_to_le[of "0 :: u32"] from_le_to_le[of "0 :: u64"] by simp_all
  then show ?thesis using assms by (auto simp: stored_at_def width_ok_def)
qed

lemma himo_with_inv:
  assumes "col_shape col" "col_count col = 0" "col_value_size col = vt_width ht" "\<And>e. e < col_max_entities col \<Longrightarrow> stored_at col e = 0"
  shows "himo_inv (himo_with col ht max_values known)" "himo_map (himo_with col ht max_values known) = Map.empty"
proof -
  have w: "width_ok col" using assms(3) by (simp add: width_ok_def vt_width_def)
  have m: "value_at col e = None" for e using assms(2) by (simp add: value_at_eq[OF w])
  then show "himo_map (himo_with col ht max_values known) = Map.empty" by (auto simp: himo_map_def himo_with_def)
  then show "himo_inv (himo_with col ht max_values known)"
    using assms w cyl_empty_ops(1)[of max_values]
    by (simp add: himo_inv_def col_inv_def clear_tail_def set_cells_committed_def)
      (simp add: himo_with_def present_delta_def sum_list_replicate)
qed

lemma himo_init_ok:
  assumes b: "blank_region padded max_entities ht rg"
  shows "himo_inv (himo_init rg ht max_values max_entities padded)" "himo_map (himo_init rg ht max_values max_entities padded) = Map.empty"
    "header_written (hs_col (himo_init rg ht max_values max_entities padded))"
    "col_max_entities (hs_col (himo_init rg ht max_values max_entities padded)) = max_entities"
    "hs_value_type (himo_init rg ht max_values max_entities padded) = ht"
proof -
  let ?col = "col_init rg (vt_width ht) max_entities padded"
  obtain n where n: "rg_mem rg = replicate n 0" and c: "is_committed COL_HEADER rg"
    and len: "cells_start padded + unat max_entities * unat (vt_width ht) \<le> length (rg_mem rg)"
    using b by (auto simp: blank_region_def)
  have z: "zero_tail rg" by (simp add: zero_tail_def n)
  have vs: "0 < unat (vt_width ht)" by (simp add: vt_width_def)
  note ok = col_init_ok[OF len vs z c]
  have f: "col_value_size ?col = vt_width ht" "col_max_entities ?col = max_entities" "col_count ?col = 0" "col_cells ?col = cells_start padded"
    by (simp_all add: col_init_def with_cells_def Let_def)
  have w: "width_ok ?col" unfolding width_ok_def f by (simp add: vt_width_def)
  have cs: "COL_HEADER \<le> cells_start padded" by (simp add: cells_start_def)
  have mem: "rg_mem (col_region ?col) ! k = 0" if "COL_HEADER \<le> k" "k < length (rg_mem rg)" for k
    using that n by (simp add: col_init_def with_cells_def write_at_def Let_def nth_put_at_after length_put_at)
  have "stored_at ?col e = 0" if e: "e < col_max_entities ?col" for e
  proof (rule stored_blank[OF _ w])
    note r = cell_range[OF ok(1) e]
    have lm: "length (rg_mem (col_region ?col)) = length (rg_mem rg)"
      using len cs by (simp add: col_init_def with_cells_def write_at_def Let_def length_put_at)
    show "col_get e ?col = replicate (unat (col_value_size ?col)) 0"
    proof (rule nth_equalityI)
      show "length (col_get e ?col) = length (replicate (unat (col_value_size ?col)) (0 :: u8))"
        by (simp add: length_col_get[OF ok(1) e])
      fix i assume "i < length (col_get e ?col)"
      then have "i < unat (col_value_size ?col)" by (simp add: length_col_get[OF ok(1) e])
      then show "col_get e ?col ! i = replicate (unat (col_value_size ?col)) 0 ! i"
        using r lm mem by (simp add: col_get_def Let_def slice_def)
    qed
  qed
  then show "himo_inv (himo_init rg ht max_values max_entities padded)" "himo_map (himo_init rg ht max_values max_entities padded) = Map.empty"
    unfolding himo_init_def using himo_with_inv[OF ok(1) f(3,1)] by simp_all
  show "header_written (hs_col (himo_init rg ht max_values max_entities padded))" using ok(2) by (simp add: himo_init_def himo_with_def)
qed (simp_all add: himo_init_def himo_with_def col_init_def with_cells_def Let_def)

text \<open>Opening reads back exactly the column that was closed; the index starts empty.\<close>

lemma himo_load_ok:
  assumes inv: "himo_inv hs" and h: "header_written (hs_col hs)"
  shows "himo_load (col_region (hs_col hs)) (hs_value_type hs) max_values m p = Inr (himo_with (hs_col hs) (hs_value_type hs) max_values False)"
    "himo_inv (himo_with (hs_col hs) (hs_value_type hs) max_values False)"
proof -
  note i = himo_invD[OF inv]
  show "himo_load (col_region (hs_col hs)) (hs_value_type hs) max_values m p = Inr (himo_with (hs_col hs) (hs_value_type hs) max_values False)"
    using load_written[OF col_invD(1)[OF i(1)] h, of m p] i(2) by (simp add: himo_load_def)
  show "himo_inv (himo_with (hs_col hs) (hs_value_type hs) max_values False)"
    using i cyl_empty_ops(1)[of max_values] by (simp add: himo_inv_def himo_with_def)
qed

section \<open>Runs\<close>

text \<open>
  \<^verbatim>\<open>himo_reach ht n hs M\<close>: the store \<^verbatim>\<open>hs\<close> of a column of type \<^verbatim>\<open>ht\<close> with \<^verbatim>\<open>n\<close> ids came about by
  operations that a map would have answered with \<^verbatim>\<open>M\<close>. The platform may act differently at
  every step. The readers without a step of their own (counting a range, walking the values, the
  distinct values and totals) leave the store as it is or only build the index, which is the step
  \<^verbatim>\<open>build\<close>.
\<close>

inductive himo_reach :: "value_type \<Rightarrow> u32 \<Rightarrow> himo_store \<Rightarrow> (u32 \<rightharpoonup> u64) \<Rightarrow> bool" for ht n where
  init: "blank_region padded n ht rg \<Longrightarrow> himo_reach ht n (himo_init rg ht max_values n padded) Map.empty"
| set: "himo_reach ht n hs M \<Longrightarrow> env_ok env \<Longrightarrow> e < n \<Longrightarrow> himo_set env e v hs = Some (hs', ok) \<Longrightarrow>
    himo_reach ht n hs' (if ok then M(e \<mapsto> v) else M)"
| remove: "himo_reach ht n hs M \<Longrightarrow> env_ok env \<Longrightarrow> himo_reach ht n (himo_remove env e hs) (M(e := None))"
| restore: "himo_reach ht n hs M \<Longrightarrow> env_ok env \<Longrightarrow> e < n \<Longrightarrow> fits (hs_col hs) x \<Longrightarrow>
    ensure_committed_for (env_grow env) e (hs_col hs) = (col, ok) \<Longrightarrow>
    himo_reach ht n (himo_restore env e x hs) (if ok then M(e := (if x = 0 then None else Some (x - 1))) else M)"
| build: "himo_reach ht n hs M \<Longrightarrow> himo_reach ht n (ensure_cylinder_built env hs) M"
| pull: "himo_reach ht n hs M \<Longrightarrow> himo_pull env v hs = (hs', ids) \<Longrightarrow> himo_reach ht n hs' M"
| pull_range: "himo_reach ht n hs M \<Longrightarrow> pull_range env lo hi hs = (hs', ids) \<Longrightarrow> himo_reach ht n hs' M"
| pull_unordered: "himo_reach ht n hs M \<Longrightarrow> pull_range_unordered env lo hi hs = (hs', ids) \<Longrightarrow> himo_reach ht n hs' M"
| slice_len: "himo_reach ht n hs M \<Longrightarrow> slice_len env v hs = (hs', k) \<Longrightarrow> himo_reach ht n hs' M"
| room: "himo_reach ht n hs M \<Longrightarrow> ensure_room env e hs = (hs', ok) \<Longrightarrow> himo_reach ht n hs' M"
| base_hint: "himo_reach ht n hs M \<Longrightarrow> himo_reach ht n (set_dense_base_hint base hs) M"
| marks: "himo_reach ht n hs M \<Longrightarrow> declare_marks on hs = (hs', live) \<Longrightarrow> himo_reach ht n hs' M"
| compact: "himo_reach ht n hs M \<Longrightarrow> himo_reach ht n (compact_now hs) M"
| count: "himo_reach ht n hs M \<Longrightarrow> present_count hs = (hs', k) \<Longrightarrow> himo_reach ht n hs' M"
| reopen: "himo_reach ht n hs M \<Longrightarrow> himo_load (col_region (hs_col hs)) ht max_values m padded = Inr hs' \<Longrightarrow> himo_reach ht n hs' M"

definition himo_good :: "value_type \<Rightarrow> u32 \<Rightarrow> himo_store \<Rightarrow> (u32 \<rightharpoonup> u64) \<Rightarrow> bool" where
  "himo_good ht n hs M \<longleftrightarrow> himo_inv hs \<and> himo_map hs = M \<and> header_written (hs_col hs) \<and>
     col_max_entities (hs_col hs) = n \<and> hs_value_type hs = ht"

lemma good_wrote: "himo_good ht n hs M \<Longrightarrow> wrote hs e new hs' \<Longrightarrow> himo_good ht n hs' (M(e := new))"
  by (simp add: himo_good_def wrote_def)

lemma good_kept: "himo_good ht n hs M \<Longrightarrow> kept hs hs' \<Longrightarrow> himo_good ht n hs' M"
  by (simp add: himo_good_def kept_def himo_map_def)

lemma himo_reach_good: "himo_reach ht n hs M \<Longrightarrow> himo_good ht n hs M"
proof (induction rule: himo_reach.induct)
  case (init padded rg max_values)
  then show ?case using himo_init_ok[OF init, of max_values] by (simp add: himo_good_def)
next
  case (set hs M env e v hs' ok)
  then have i: "himo_inv hs" "e < col_max_entities (hs_col hs)" by (simp_all add: himo_good_def)
  from himo_set_spec[OF i(1) set.hyps(2) i(2), of v] set.hyps(4)
  have "if ok then wrote hs e (Some v) hs' else hs' = hs" by auto
  then show ?case using good_wrote[OF set.IH, of e "Some v" hs'] set.IH by presburger
next
  case (remove hs M env e)
  then have "wrote hs e None (himo_remove env e hs)" by (intro himo_remove_spec) (simp_all add: himo_good_def)
  then show ?case by (rule good_wrote[OF remove.IH])
next
  case (restore hs M env e x col ok)
  then have i: "himo_inv hs" "e < col_max_entities (hs_col hs)" by (simp_all add: himo_good_def)
  from himo_restore_spec[OF i(1) restore.hyps(2) i(2) restore.hyps(4,5)]
  show ?case using good_wrote[OF restore.IH, of e] restore.IH by presburger
next
  case (build hs M env)
  have "himo_inv hs" using build.IH by (simp add: himo_good_def)
  from good_kept[OF build.IH kept_built[OF this]] show ?case .
next
  case (pull hs M env v hs' ids)
  have "himo_inv hs" using pull.IH by (simp add: himo_good_def)
  from good_kept[OF pull.IH himo_pull_kept[OF this pull.hyps(2)]] show ?case .
next
  case (pull_range hs M env lo hi hs' ids)
  have i: "himo_inv hs" using pull_range.IH by (simp add: himo_good_def)
  have "hs' = hs \<or> hs' = ensure_cylinder_built env hs" using readers_kept(2)[OF i, of env lo hi] pull_range.hyps(2) by simp
  then show ?case using pull_range.IH good_kept[OF pull_range.IH kept_built[OF i]] by blast
next
  case (pull_unordered hs M env lo hi hs' ids)
  have i: "himo_inv hs" using pull_unordered.IH by (simp add: himo_good_def)
  have "hs' = hs \<or> kept hs hs'" using readers_kept(1)[OF i, of env lo hi] pull_unordered.hyps(2) by auto
  then show ?case using pull_unordered.IH good_kept[OF pull_unordered.IH] by blast
next
  case (slice_len hs M env v hs' k)
  have i: "himo_inv hs" using slice_len.IH by (simp add: himo_good_def)
  then have "kept hs hs'" using readers_kept(4)[OF i, of env v] slice_len.hyps(2) by simp
  then show ?case by (rule good_kept[OF slice_len.IH])
next
  case (room hs M env e hs' ok)
  then show ?case using ensure_room_spec[of hs env e hs' ok] by (simp add: himo_good_def)
next
  case (base_hint hs M base)
  then show ?case by (simp add: himo_good_def hint_kept)
next
  case (marks hs M on hs' live)
  then show ?case using declare_marks_kept[of hs on hs' live] by (simp add: himo_good_def)
next
  case (compact hs M)
  have i: "himo_inv hs" using compact.IH by (simp add: himo_good_def)
  show ?case
  proof (cases "hs_cyl_built hs")
    case True
    from good_kept[OF compact.IH compact_now_kept[OF i True]] show ?thesis .
  next
    case False
    then have "compact_now hs = hs" by (simp add: compact_now_def)
    then show ?thesis using compact.IH by (simp only:)
  qed
next
  case (count hs M hs' k)
  have f: "hs_col hs' = hs_col hs" "hs_value_type hs' = hs_value_type hs"
    using count.hyps(2) by (auto simp: present_count_def Let_def)
  have "himo_inv hs" using count.IH by (simp add: himo_good_def)
  from present_count_card[OF this count.hyps(2)] show ?case using count.IH f by (simp add: himo_good_def)
next
  case (reopen hs M max_values m padded hs')
  then have g: "himo_inv hs" "header_written (hs_col hs)" "hs_value_type hs = ht" by (simp_all add: himo_good_def)
  from himo_load_ok(1)[OF g(1,2), of max_values m padded] himo_load_ok(2)[OF g(1,2), of max_values] reopen.hyps(2)
  have "hs' = himo_with (hs_col hs) ht max_values False" "himo_inv hs'" by (simp_all add: g(3))
  then show ?case using reopen.IH by (simp add: himo_good_def himo_map_def himo_with_def)
qed

section \<open>A column whose header never reached the disk\<close>

lemma blank_u32: "rg_mem rg = replicate n 0 \<Longrightarrow> k + 4 \<le> n \<Longrightarrow> u32_at (rg_mem rg) k = 0"
  using zero_le_bytes(1) from_le_to_le[of "0 :: u32"] by (simp add: u32_at_def slice_def)

lemma blank_lazy:
  assumes b: "blank_region padded n ht rg"
  shows "himo_load rg ht max_values n padded = Inr (himo_with (init_lazy rg (vt_width ht) n padded) ht max_values False)"
    "himo_inv (himo_with (init_lazy rg (vt_width ht) n padded) ht max_values known)" "u32_at (rg_mem rg) 4 = 0"
proof -
  let ?col = "init_lazy rg (vt_width ht) n padded"
  obtain m where m: "rg_mem rg = replicate m 0" and len: "cells_start padded + unat n * unat (vt_width ht) \<le> m"
    using b by (auto simp: blank_region_def)
  have h: "COL_HEADER \<le> m" using len by (auto simp: cells_start_def split: if_splits)
  show u: "u32_at (rg_mem rg) 4 = 0" using blank_u32[OF m, of 4] h by simp
  show "himo_load rg ht max_values n padded = Inr (himo_with ?col ht max_values False)"
    using u h m by (simp add: himo_load_def load_or_unwritten_def)
  have f: "col_count ?col = 0" "col_value_size ?col = vt_width ht" "col_max_entities ?col = n" "col_cells ?col = cells_start padded"
      "col_region ?col = rg"
    by (simp_all add: init_lazy_def with_cells_def)
  have s: "col_shape ?col"
    using len blank_u32[OF m, of 0] h m unfolding col_shape_def f by (auto simp: cells_start_def zero_tail_def vt_width_def)
  have w: "width_ok ?col" unfolding width_ok_def f by (simp add: vt_width_def)
  have "stored_at ?col e = 0" if e: "e < col_max_entities ?col" for e
  proof (rule stored_blank[OF _ w])
    show "col_get e ?col = replicate (unat (col_value_size ?col)) 0"
      using cell_range(1)[OF s e] f(5) m by (simp add: col_get_def Let_def slice_def)
  qed
  from himo_with_inv(1)[OF s f(1,2) this] show "himo_inv (himo_with ?col ht max_values known)" .
qed

lemma unindexed_size_field:
  assumes inv: "himo_inv hs" and e: "e < col_max_entities (hs_col hs)" and st: "store_unindexed env e v hs = (hs', ok)"
  shows "u32_at (col_mem (hs_col hs')) 4 = u32_at (col_mem (hs_col hs)) 4" "COL_HEADER \<le> length (col_mem (hs_col hs'))"
proof -
  note sh = col_invD(1)[OF himo_invD(1)[OF inv]]
  obtain col k where p: "ensure_committed_for (env_grow env) e (hs_col hs) = (col, k)" by (metis surj_pair)
  note r = ensure_committed_for_result[OF p]
  have m: "col_mem col = col_mem (hs_col hs)" by (rule r(1))
  have sh1: "col_shape col" by (rule ensure_committed_for_shape[OF sh p])
  have l: "COL_HEADER \<le> length (col_mem (hs_col hs))" by (rule col_shapeD(3)[OF sh])
  define c2 where "c2 = ensure_count e col"
  have u2: "u32_at (col_mem c2) 4 = u32_at (col_mem col) 4" "length (col_mem c2) = length (col_mem col)"
    using put_header_u32[OF sh1, of 0 4] l m by (simp_all add: c2_def ensure_count_def write_at_def length_put_at Let_def)
  have e1: "e < col_max_entities col" using e r(4) by simp
  show "u32_at (col_mem (hs_col hs')) 4 = u32_at (col_mem (hs_col hs)) 4" "COL_HEADER \<le> length (col_mem (hs_col hs'))"
  proof -
    have hc: "is_committed COL_HEADER (col_region col)" if k
      by (rule header_committed[OF sh1 e1 r(7)[OF that col_shapeD(2)[OF sh]]]) simp
    have "k \<Longrightarrow> col_shape c2 \<and> width_ok c2 \<and> e < col_max_entities c2"
      using ensure_count_spec(1,3,4)[OF sh1 e1 hc] himo_invD(7)[OF inv] r(3) e1 by (simp add: c2_def width_ok_def)
    then have w: "k \<Longrightarrow> u32_at (col_mem (store_at e x c2)) 4 = u32_at (col_mem c2) 4 \<and> length (col_mem (store_at e x c2)) = length (col_mem c2)" for x
      using put_cell_header[of c2 e "cell_bytes c2 x" 4] length_put_cell[of c2 e "cell_bytes c2 x"]
        store_at_cell(1)[of c2 e x] store_at_cell(2)[of c2 x] by auto
    show "u32_at (col_mem (hs_col hs')) 4 = u32_at (col_mem (hs_col hs)) 4" "COL_HEADER \<le> length (col_mem (hs_col hs'))"
      using st p w u2 m l
      by (auto simp: store_unindexed_def Let_def c2_def[symmetric] store_cell_def present_add_def split: if_splits)
  qed
qed

section \<open>Properties of a column store\<close>

text \<open>A small store for the concrete instances: eight ids, one value written.\<close>

definition demo_region :: region where
  "demo_region = \<lparr>rg_mem = replicate 48 0, rg_committed = 16\<rparr>"

definition demo_env :: himo_env where
  "demo_env = \<lparr>env_grow = Some, env_slots_ok = True, env_stripe = 0\<rparr>"

definition demo_store :: himo_store where
  "demo_store = himo_init demo_region Number 0 8 False"

definition demo_written :: himo_store where
  "demo_written = fst (the (himo_set demo_env 3 7 demo_store))"

lemma demo_blank: "blank_region False 8 Number demo_region"
  by (auto simp: blank_region_def demo_region_def is_committed_def cells_start_def vt_width_def)

lemma demo_env_ok: "env_ok demo_env"
  by (simp add: env_ok_def demo_env_def)

lemma demo_reach: "himo_reach Number 8 demo_store Map.empty" "himo_reach Number 8 demo_written (Map.empty(3 \<mapsto> 7))"
proof -
  show r: "himo_reach Number 8 demo_store Map.empty" unfolding demo_store_def by (rule himo_reach.init[OF demo_blank])
  have "map_option snd (himo_set demo_env 3 7 demo_store) = Some True" by code_simp
  then obtain hs where hs: "himo_set demo_env 3 7 demo_store = Some (hs, True)" by auto
  then have "hs = demo_written" by (simp add: demo_written_def)
  then show "himo_reach Number 8 demo_written (Map.empty(3 \<mapsto> 7))"
    using himo_reach.set[OF r demo_env_ok _ hs] by simp
qed

text \<open>
  The same store with marks declared and the index built before the writes: ids 3 and 5 get the
  value 7, then 3 moves to 9, so the index holds a marked entry of 3 under 7.
\<close>

definition demo_marked :: himo_store where
  "demo_marked = ensure_cylinder_built demo_env (fst (declare_marks True (set_dense_base_hint 0 demo_store)))"

definition demo_moves :: "(u32 \<times> u64) list" where
  "demo_moves = [(3, 7), (5, 7), (3, 9)]"

definition demo_moved :: himo_store where
  "demo_moved = fold (\<lambda>(e, v) hs. fst (the (himo_set demo_env e v hs))) demo_moves demo_marked"

lemma himo_set_total:
  assumes inv: "himo_inv hs" and env: "env_ok env" and e: "e < col_max_entities (hs_col hs)"
    and g: "\<forall>k. env_grow env k \<noteq> None" and v: "v \<le> vt_max_value (hs_value_type hs)"
  shows "\<exists>hs'. himo_set env e v hs = Some (hs', True)"
proof -
  obtain hs' ok where s: "himo_set env e v hs = Some (hs', ok)" using himo_set_spec[OF inv env e, of v] by auto
  have "snd (ensure_committed_for (env_grow env) e (hs_col hs))" by (rule commit_total[OF g])
  then have "ok" using s v
    by (auto simp: himo_set_def set_indexed_def store_unindexed_def Let_def split: if_splits option.splits prod.splits)
  then show ?thesis using s by simp
qed

lemma demo_set:
  assumes r: "himo_reach Number 8 hs M" and e: "e < 8" and v: "v \<le> vt_max_value Number"
  shows "himo_reach Number 8 (fst (the (himo_set demo_env e v hs))) (M(e \<mapsto> v))"
proof -
  have g: "himo_inv hs" "col_max_entities (hs_col hs) = 8" "hs_value_type hs = Number"
    using himo_reach_good[OF r] by (simp_all add: himo_good_def)
  obtain hs' where s: "himo_set demo_env e v hs = Some (hs', True)"
    using himo_set_total[OF g(1) demo_env_ok, of e v] g(2,3) e v by (auto simp: demo_env_def)
  show ?thesis using himo_reach.set[OF r demo_env_ok e s] s by simp
qed

lemma demo_marked_reach: "himo_reach Number 8 demo_marked Map.empty" "cy_marks_on (hs_cyl demo_marked)"
proof -
  have "himo_reach Number 8 (fst (declare_marks True (set_dense_base_hint 0 demo_store))) Map.empty"
    by (rule himo_reach.marks[OF himo_reach.base_hint[OF demo_reach(1)]]) (rule prod.collapse[symmetric])
  then show "himo_reach Number 8 demo_marked Map.empty" unfolding demo_marked_def by (rule himo_reach.build)
  have "col_count (hs_col demo_store) = 0" by (simp add: demo_store_def himo_init_def himo_with_def col_init_def with_cells_def Let_def)
  then have "column_entries (hs_col demo_store) = []" by (simp add: column_entries_def map_filter_simps)
  then show "cy_marks_on (hs_cyl demo_marked)"
    by (simp add: demo_marked_def ensure_cylinder_built_def declare_marks_def set_dense_base_hint_def cyl_build_def init_slots_def Let_def)
      (simp add: demo_store_def himo_init_def himo_with_def demo_env_def col_init_def with_cells_def set_low_base_def cyl_new_def Let_def)
qed

lemma demo_moved_reach: "himo_reach Number 8 demo_moved (Map.empty(5 \<mapsto> 7, 3 \<mapsto> 9))"
proof -
  let ?s = "\<lambda>e v hs. fst (the (himo_set demo_env e v hs))"
  have "himo_reach Number 8 (?s 3 9 (?s 5 7 (?s 3 7 demo_marked))) ((((Map.empty(3 \<mapsto> 7))(5 \<mapsto> 7)))(3 \<mapsto> 9))"
    by (intro demo_set demo_marked_reach(1)) (simp_all add: vt_max_value_def)
  moreover have "((((Map.empty(3 \<mapsto> 7))(5 \<mapsto> 7)))(3 \<mapsto> 9)) = (Map.empty(5 \<mapsto> 7, 3 \<mapsto> 9) :: u32 \<rightharpoonup> u64)" by auto
  ultimately show ?thesis by (simp add: demo_moved_def demo_moves_def)
qed

text \<open>
  C4. Whatever was done to a column store before (writes, removals, raw restores, reads of every
  kind, index builds and compactions, declaring and withdrawing the marks, moving the window of
  the index, reopening), reading a value returns every id that holds it, once, and no other: the
  result is the one a plain map would give.
\<close>

theorem pull_refines_map:
  assumes "himo_reach ht n hs M" "v \<noteq> NO_VALUE" "himo_pull env v hs = (hs', ids)"
  shows "distinct ids \<and> set ids = {e. M e = Some v} \<and> himo_reach ht n hs' M"
proof -
  have g: "himo_inv hs" "himo_map hs = M" using himo_reach_good[OF assms(1)] by (simp_all add: himo_good_def)
  show ?thesis using himo_pull_ids(2,3)[OF g(1) assms(2,3)] himo_reach.pull[OF assms(1,3)] g(2) by simp
qed

theorem pull_refines_map_witness:
  "set (snd (himo_pull demo_env 7 demo_written)) = {3} \<and> set (snd (himo_pull demo_env 8 demo_written)) = {} \<and>
    cy_marks_on (hs_cyl demo_marked) \<and> set (snd (himo_pull demo_env 7 demo_moved)) = {5} \<and> set (snd (himo_pull demo_env 9 demo_moved)) = {3}"
proof -
  have p: "set (snd (himo_pull demo_env v hs)) = {e. M e = Some v}" if "himo_reach Number 8 hs M" "v \<noteq> NO_VALUE" for v hs M
    using pull_refines_map[OF that, of demo_env "fst (himo_pull demo_env v hs)" "snd (himo_pull demo_env v hs)"] by simp
  show ?thesis
    using p[OF demo_reach(2), of 7] p[OF demo_reach(2), of 8] p[OF demo_moved_reach, of 7] p[OF demo_moved_reach, of 9] demo_marked_reach(2)
    by (auto split: if_splits)
qed

text \<open>
  C13. A range read returns the ids whose value lies in the range, in ascending order and without
  repetition, whatever was done to the store before.
\<close>

theorem pull_range_refines_map:
  assumes "himo_reach ht n hs M" "pull_range env lo hi hs = (hs', ids)"
  shows "ids = sorted_list_of_set {e. \<exists>v. M e = Some v \<and> lo \<le> v \<and> v \<le> hi} \<and> himo_inv hs' \<and> himo_map hs' = M"
proof -
  have "himo_inv hs" "himo_map hs = M" using himo_reach_good[OF assms(1)] by (simp_all add: himo_good_def)
  then show ?thesis using pull_range_ids[OF _ assms(2)] by simp
qed

theorem pull_range_refines_map_witness:
  "snd (pull_range demo_env 5 9 demo_written) = [3]"
proof -
  have "{e. \<exists>v. (Map.empty(3 \<mapsto> 7 :: u64)) (e :: u32) = Some v \<and> 5 \<le> v \<and> v \<le> 9} = {3}" by (auto split: if_splits)
  then show ?thesis
    using pull_range_refines_map[OF demo_reach(2), of demo_env 5 9 "fst (pull_range demo_env 5 9 demo_written)" "snd (pull_range demo_env 5 9 demo_written)"]
    by simp
qed

text \<open>
  Writing a value never panics; it fails only when the value does not fit the column or the
  disk is full, and then the store is as before; when it succeeds, exactly the one id changes,
  on disk too: opening the column again gives the changed map.
\<close>

theorem set_then_reopen:
  assumes r: "himo_reach ht n hs M" and env: "env_ok env" and e: "e < n"
  shows "\<exists>hs' ok. himo_set env e v hs = Some (hs', ok) \<and> (if ok then himo_map hs' = M(e \<mapsto> v) else hs' = hs) \<and>
    (v > vt_max_value ht \<longrightarrow> \<not> ok) \<and>
    (\<exists>hs''. himo_load (col_region (hs_col hs')) ht max_values m p = Inr hs'' \<and> himo_map hs'' = himo_map hs')"
proof -
  have g: "himo_inv hs" "himo_map hs = M" "col_max_entities (hs_col hs) = n" "hs_value_type hs = ht"
    using himo_reach_good[OF r] by (simp_all add: himo_good_def)
  obtain hs' ok where s: "himo_set env e v hs = Some (hs', ok)" "if ok then wrote hs e (Some v) hs' else hs' = hs"
      "v > vt_max_value ht \<longrightarrow> \<not> ok"
    using himo_set_spec[OF g(1) env, of e v] e g(3,4) by auto
  have "himo_good ht n hs' (if ok then M(e \<mapsto> v) else M)" by (rule himo_reach_good[OF himo_reach.set[OF r env e s(1)]])
  then have h: "himo_inv hs'" "header_written (hs_col hs')" "hs_value_type hs' = ht" by (simp_all add: himo_good_def)
  have "himo_load (col_region (hs_col hs')) ht max_values m p = Inr (himo_with (hs_col hs') ht max_values False)"
    using himo_load_ok(1)[OF h(1,2), of max_values m p] h(3) by simp
  moreover have "himo_map (himo_with (hs_col hs') ht max_values False) = himo_map hs'" by (simp add: himo_map_def himo_with_def)
  ultimately show ?thesis using s g(2) by (auto simp: wrote_def)
qed

theorem set_then_reopen_witness:
  "\<exists>hs' ok. himo_set demo_env 5 9 demo_written = Some (hs', ok) \<and> (ok \<longrightarrow> himo_map hs' 5 = Some 9 \<and> himo_map hs' 3 = Some 7)"
  using set_then_reopen[OF demo_reach(2) demo_env_ok, of 5 9] by (fastforce split: if_splits)

text \<open>
  C14. A column opened on a region whose header never reached the disk loses what is written to it
  at the next open: a successful write is read back before closing, but the write does not put
  the header in place, so opening the region again gives a column without any value.
\<close>

theorem unwritten_header_loses_values:
  assumes b: "blank_region padded n ht rg" and env: "env_ok env" and e: "e < n"
    and l: "himo_load rg ht max_values n padded = Inr hs" and s: "himo_set env e v hs = Some (hs', True)"
  shows "get_value hs' e = Some v \<and>
    (\<exists>hs''. himo_load (col_region (hs_col hs')) ht max_values n padded = Inr hs'' \<and> (\<forall>x. get_value hs'' x = None))"
proof -
  note lz = blank_lazy(1)[OF b, of max_values] blank_lazy(2)[OF b, of max_values False] blank_lazy(3)[OF b]
  have hs: "hs = himo_with (init_lazy rg (vt_width ht) n padded) ht max_values False" using l lz(1) by simp
  have inv: "himo_inv hs" and em: "e < col_max_entities (hs_col hs)" and f: "\<not> hs_cyl_built hs" "rg_mem (col_region (hs_col hs)) = rg_mem rg"
    using lz(2) e by (simp_all add: hs himo_with_def init_lazy_def with_cells_def)
  have w: "wrote hs e (Some v) hs'" using himo_set_spec[OF inv env em, of v] s by auto
  have st: "store_unindexed env e v hs = (hs', True)" using s f(1) by (auto simp: himo_set_def split: if_splits)
  note u = unindexed_size_field[OF inv em st]
  have "get_value hs' e = Some v" using w by (simp add: wrote_def get_value_def himo_map_def fun_eq_iff)
  moreover have "himo_load (col_region (hs_col hs')) ht max_values n padded =
      Inr (himo_with (init_lazy (col_region (hs_col hs')) (vt_width ht) n padded) ht max_values False)"
    using u f(2) lz(3) by (simp add: himo_load_def load_or_unwritten_def)
  moreover have "get_value (himo_with (init_lazy rg' (vt_width ht) n padded) ht max_values False) x = None" for rg' x
    by (simp add: get_value_def himo_with_def init_lazy_def with_cells_def value_at_def)
  ultimately show ?thesis by simp
qed

theorem unwritten_header_loses_values_witness:
  "\<exists>hs hs' hs''. himo_load demo_region Number 0 8 False = Inr hs \<and> himo_set demo_env 3 7 hs = Some (hs', True) \<and>
    get_value hs' 3 = Some 7 \<and> himo_load (col_region (hs_col hs')) Number 0 8 False = Inr hs'' \<and> get_value hs'' 3 = None"
proof -
  obtain hs where l: "himo_load demo_region Number 0 8 False = Inr hs" using blank_lazy(1)[OF demo_blank] by blast
  have "(case himo_load demo_region Number 0 8 False of Inl err \<Rightarrow> None | Inr hs \<Rightarrow> map_option snd (himo_set demo_env 3 7 hs)) = Some True"
    by code_simp
  then obtain hs' where "himo_set demo_env 3 7 hs = Some (hs', True)" using l by auto
  then show ?thesis using unwritten_header_loses_values[OF demo_blank demo_env_ok _ l, of 3 7 hs'] l by auto
qed

end
