(* ===== verification/Cells_Converge.thy ===== *)
theory Cells_Converge
  imports Cells_Correct Himo_Runs
begin

text \<open>
  Replicas converge. The writes of other peers arrive as ties, unties and deletions, each with
  the clock of its author; they may arrive in any order, more than once and mixed with those of
  other rows. The first section runs them through the code's entry points and through the view;
  the second shows that what the view holds of a row in the end depends only on which writes
  arrived.
\<close>

section \<open>Delivering the writes of other peers\<close>

datatype cell_op = Tie entity_id u16 u64 hlc | Untie entity_id u16 hlc | Del entity_id hlc

fun deliver :: "cell_env \<Rightarrow> cell_op \<Rightarrow> cell_db \<Rightarrow> cell_db option" where
  "deliver env (Tie eid h v t) db = map_option fst (remote_tie_apply_result env eid h v t db)"
| "deliver env (Untie eid h t) db = Some (fst (remote_untie_apply env eid h t db))"
| "deliver env (Del eid t) db = Some (fst (remote_delete_apply env eid t db))"

fun op_row :: "cell_op \<Rightarrow> u32" where
  "op_row (Tie eid h v t) = eid_local eid"
| "op_row (Untie eid h t) = eid_local eid"
| "op_row (Del eid t) = eid_local eid"

fun op_hlc :: "cell_op \<Rightarrow> hlc" where
  "op_hlc (Tie eid h v t) = t"
| "op_hlc (Untie eid h t) = t"
| "op_hlc (Del eid t) = t"

fun op_fits :: "cell_db \<Rightarrow> cell_op \<Rightarrow> bool" where
  "op_fits db (Tie eid h v t) \<longleftrightarrow> eid_local eid < cd_max_entities db \<and> unat h < length (cd_himos db) \<and>
     v \<le> vt_max_value (hs_value_type (cd_himos db ! unat h)) \<and> t \<noteq> hlc_ZERO"
| "op_fits db (Untie eid h t) \<longleftrightarrow> eid_local eid < cd_max_entities db \<and> unat h < length (cd_himos db) \<and> t \<noteq> hlc_ZERO"
| "op_fits db (Del eid t) \<longleftrightarrow> eid_local eid < cd_max_entities db \<and> t \<noteq> hlc_ZERO"

text \<open>What a delivery does to the view.\<close>

fun view_op :: "cell_op \<Rightarrow> cell_view \<Rightarrow> cell_view" where
  "view_op (Tie eid h x t) v =
     (let e = eid_local eid
      in if \<not> cv_live v e \<and> cv_tomb v e \<noteq> hlc_ZERO then v
         else if cv_tomb v e \<le> t \<and> cv_version v h e < t
         then view_live e True (view_version h e t (view_value h e (Some x) v)) else v)"
| "view_op (Untie eid h t) v =
     (let e = eid_local eid
      in if cv_tomb v e \<le> t \<and> cv_version v h e < t then view_version h e t (view_value h e None v) else v)"
| "view_op (Del eid t) v = (let e = eid_local eid in if cv_tomb v e \<le> t then view_delete e t v else v)"

text \<open>A row a write is addressed to: live, deleted, or never used, so not waiting on the stack of
  freed rows.\<close>

definition row_open :: "cell_db \<Rightarrow> u32 \<Rightarrow> bool" where
  "row_open db e \<longleftrightarrow> is_live e (cd_entities db) \<or> db_tomb db e \<noteq> hlc_ZERO \<or> unat e \<notin> set (es_free (cd_entities db))"

lemma ensure_cell_room_spec:
  assumes ok: "cells_ok db" and d: "disk_ok env" and e: "e < cd_max_entities db" and h: "unat h < length (cd_himos db)"
  shows "\<exists>db'. ensure_cell_room env h e db = (db', True) \<and> becomes db (view_of db) db'"
proof -
  have gv: "\<forall>n. ce_ver env n \<noteq> None" and gh: "\<forall>n. env_grow (ce_himo env) n \<noteq> None" using d by (simp_all add: disk_ok_def)
  define r where "r = (case ver_col h db of
      Some col \<Rightarrow> if e < cd_max_entities db then
          (if is_committed_for e col then (db, True) else case ensure_committed_for (ce_ver env) e col of (col', k) \<Rightarrow> (set_ver_col h col' db, k))
        else (db, True)
    | None \<Rightarrow> (db, True))"
  have "\<exists>db1. r = (db1, True) \<and> becomes db (view_of db) db1"
  proof (cases "cd_has_cell_version db")
    case False
    then show ?thesis using cells_okD(6)[OF ok] becomes_refl[OF ok] by (simp add: r_def ver_col_def)
  next
    case True
    let ?col = "cd_ver_cols db ! unat h"
    have len: "length (cd_ver_cols db) = length (cd_himos db)" by (rule cells_okD(3)[OF ok True])
    obtain col' k where c: "ensure_committed_for (ce_ver env) e ?col = (col', k)" by (metis surj_pair)
    have k: "k" using commit_total[OF gv, of e ?col] c by simp
    have vo: "versions_ok (cd_max_entities db) ?col" by (rule cells_okD(4)[OF ok True h])
    have vk: "ver_ok ?col" using vo by (simp add: versions_ok_def)
    note cv = commit_version[OF vk c]
    have vo': "versions_ok (cd_max_entities db) col'" using vo cv by (simp add: versions_ok_def)
    have dv: "db_version db h x = (if x < cd_max_entities db then ver_at ?col x else hlc_ZERO)" for x
      using True h by (simp add: db_version_def)
    have "(view_of db)\<lparr>cv_version := (\<lambda>h' x. if h' = h then (if x < cd_max_entities db then ver_at col' x else hlc_ZERO) else db_version db h' x)\<rparr> = view_of db"
      using dv cv(2) by (auto simp: view_of_def fun_eq_iff)
    then have "becomes db (view_of db) (set_ver_col h col' db)" using ver_col_becomes[OF ok True h vo'] by simp
    then show ?thesis using becomes_refl[OF ok] h len e c k by (auto simp: r_def ver_col_def)
  qed
  then obtain db1 where r1: "r = (db1, True)" "becomes db (view_of db) db1" by blast
  note ok1 = becomesD[OF r1(2)] and sh = same_shapeD[OF becomesD(3)[OF r1(2)]]
  let ?hs = "cd_himos db1 ! unat h"
  have h1: "unat h < length (cd_himos db1)" using h sh(1) by simp
  have co: "column_ok (cd_max_entities db1) ?hs" by (rule cells_okD(2)[OF ok1(1) h1])
  obtain hs k where er: "ensure_room (ce_himo env) e ?hs = (hs, k)" by (metis surj_pair)
  have i: "himo_inv ?hs" using co by (simp add: column_ok_def)
  have "k" using er commit_total[OF gh, of e "hs_col ?hs"] by (auto simp: ensure_room_def split: if_splits prod.splits)
  then have w: "k \<and> column_ok (cd_max_entities db1) hs \<and> himo_map hs = himo_map ?hs \<and> hs_value_type hs = hs_value_type ?hs"
    using co ensure_room_spec(1-4)[OF i er] by (simp add: column_ok_def)
  let ?db = "db1\<lparr>cd_himos := (cd_himos db1)[unat h := hs]\<rparr>"
  have "becomes db1 (view_of db1) ?db"
  proof (rule becomesI)
    have "\<forall>x \<in> set ((cd_himos db1)[unat h := hs]). column_ok (cd_max_entities db1) x"
      using ok1(1) w set_update_subset_insert[of "cd_himos db1" "unat h" hs] by (auto simp: cells_ok_def)
    then show "cells_ok ?db" using ok1(1) by (simp add: cells_ok_def)
    have "map hs_value_type ((cd_himos db1)[unat h := hs]) = map hs_value_type (cd_himos db1)"
      using w h1 by (simp add: map_update) (metis list_update_id map_update)
    then show "same_shape db1 ?db" by (simp add: same_shape_def)
    have "db_value ?db h' y = db_value db1 h' y" for h' y
      using w h1 by (auto simp: db_value_def nth_list_update)
    then show "view_of ?db = view_of db1"
      using db_parts_eq(2)[of ?db db1] db_parts_eq(3)[of ?db db1] by (simp add: view_of_def fun_eq_iff)
  qed
  then have "becomes db (view_of db) ?db" using becomes_trans[OF r1(2)] ok1(2) by simp
  moreover have "ensure_cell_room env h e db = (?db, True)"
    using r1(1) er w unfolding ensure_cell_room_def r_def[symmetric] by (simp add: Let_def)
  ultimately show ?thesis by blast
qed

lemma slot_is_dead_spec:
  assumes ok: "cells_ok db" and d: "disk_ok env" and e: "e < cd_max_entities db" and s: "slot_is_dead env e db = (db', r)"
  shows "becomes db (view_of db) db'" "r \<longleftrightarrow> \<not> is_live e (cd_entities db) \<and> db_tomb db e \<noteq> hlc_ZERO"
proof -
  obtain db1 tomb where tv: "tombstone_version_of env e db = (db1, tomb)" by (metis surj_pair)
  note ts = tombstone_version_of_spec[OF ok d e tv]
  show "becomes db (view_of db) db'" "r \<longleftrightarrow> \<not> is_live e (cd_entities db) \<and> db_tomb db e \<noteq> hlc_ZERO"
    using s tv ts becomes_refl[OF ok] by (auto simp: slot_is_dead_def split: if_splits)
qed

text \<open>The entry points refine the view's operations, and none of them panics.\<close>

lemma deliver_tie:
  assumes Tie: "op = Tie eid h x t" and ok: "cells_ok db" and d: "disk_ok env" and f: "op_fits db op" and k: "row_open db (op_row op)"
  shows "\<exists>db'. deliver env op db = Some db' \<and> becomes db (view_op op (view_of db)) db'"
proof -
  let ?e = "eid_local eid"
  have e: "?e < cd_max_entities db" and h: "unat h < length (cd_himos db)" and t: "t \<noteq> hlc_ZERO"
    and x: "x \<le> vt_max_value (hs_value_type (cd_himos db ! unat h))" using f Tie by simp_all
  let ?db0 = "observe_remote_hlc t db"
  note b0 = clock_becomes[OF ok, of t]
  note ok0 = becomesD[OF b0] and sh0 = same_shapeD[OF becomesD(3)[OF b0]]
  obtain db1 dead where s: "slot_is_dead env ?e ?db0 = (db1, dead)" by (metis surj_pair)
  have e0: "?e < cd_max_entities ?db0" using e sh0(4) by simp
  note sd = slot_is_dead_spec[OF ok0(1) d e0 s]
  have b1: "becomes db (view_of db) db1" using becomes_trans[OF b0 sd(1)] ok0(2) by simp
  note ok1 = becomesD[OF b1] and sh1 = same_shapeD[OF becomesD(3)[OF b1]]
  have dead: "dead \<longleftrightarrow> \<not> cv_live (view_of db) ?e \<and> cv_tomb (view_of db) ?e \<noteq> hlc_ZERO"
    using sd(2) arg_cong[OF ok0(2), of cv_tomb] by (simp add: view_of_def observe_remote_hlc_def split: if_splits)
  show ?thesis
  proof (cases dead)
    case True
    then show ?thesis using s b1 dead h Tie by (simp add: remote_tie_apply_result_def not_le[symmetric])
  next
    case False
    have e1: "?e < cd_max_entities db1" "unat h < length (cd_himos db1)" using e h sh1(1,4) by simp_all
    obtain db2 where r: "ensure_cell_room env h ?e db1 = (db2, True)" "becomes db1 (view_of db1) db2"
      using ensure_cell_room_spec[OF ok1(1) d e1] by blast
    have b2: "becomes db (view_of db) db2" using becomes_trans[OF b1 r(2)] ok1(2) by simp
    note ok2 = becomesD[OF b2] and sh2 = same_shapeD[OF becomesD(3)[OF b2]]
    have e2: "?e < cd_max_entities db2" "unat h < length (cd_himos db2)" "x \<le> vt_max_value (hs_value_type (cd_himos db2 ! unat h))"
      using e h x sh2(1,4) sh2(6)[OF h] by simp_all
    obtain db3 where c: "set_cell_in env ?e h x t db2 = Some (db3, db_tomb db2 ?e \<le> t \<and> db_version db2 h ?e < t)"
        "becomes db2 (if db_tomb db2 ?e \<le> t \<and> db_version db2 h ?e < t then view_version h ?e t (view_value h ?e (Some x) (view_of db2)) else view_of db2) db3"
      using set_cell_in_spec[OF ok2(1) d e2 t] by blast
    have acc: "db_tomb db2 ?e \<le> t \<and> db_version db2 h ?e < t \<longleftrightarrow> cv_tomb (view_of db) ?e \<le> t \<and> cv_version (view_of db) h ?e < t"
      using ok2(2) by (simp add: view_of_def)
    have nf: "unat ?e \<notin> set (es_free (cd_entities db))"
      using k False dead Tie live_not_stacked[OF cells_okD(7)[OF ok]] by (auto simp: row_open_def view_of_def)
    show ?thesis
    proof (cases "db_tomb db2 ?e \<le> t \<and> db_version db2 h ?e < t")
      case rej: False
      then have b3: "becomes db (view_of db) db3" using becomes_trans[OF b2 c(2)] ok2(2) by (simp only: if_False)
      have "deliver env op db = Some db3"
        using s r(1) c(1) rej False h Tie by (auto simp: remote_tie_apply_result_def not_le[symmetric])
      moreover have "view_op op (view_of db) = view_of db" using rej acc Tie by (auto simp: Let_def)
      ultimately show ?thesis using b3 by simp
    next
      case True
      then have b3: "becomes db (view_version h ?e t (view_value h ?e (Some x) (view_of db))) db3"
        using becomes_trans[OF b2 c(2)] ok2(2) by (simp only: if_True simp_thms)
      note ok3 = becomesD[OF b3] and sh3 = same_shapeD[OF becomesD(3)[OF b3]]
      have n3: "unat ?e \<notin> set (es_free (cd_entities db3))"
        using nf entities_steps(3)[OF s] entities_steps(4)[OF r(1)] entities_set_cell[OF c(1)] by simp
      have e3: "?e < cd_max_entities db3" using e sh3(4) by simp
      let ?db = "db3\<lparr>cd_entities := ensure_live (ce_ents env) ?e (cd_entities db3), cd_tables := advance_table_next_local_for ?e (cd_tables db3)\<rparr>"
      have b4: "becomes db (view_live ?e True (view_version h ?e t (view_value h ?e (Some x) (view_of db)))) ?db"
        using becomes_trans[OF b3 ensure_live_spec[OF ok3(1) d e3 n3 refl]] ok3(2) by simp
      have "deliver env op db = Some ?db"
        using s r(1) c(1) True False h Tie by (simp add: remote_tie_apply_result_def Let_def not_le[symmetric])
      moreover have "view_op op (view_of db) = view_live ?e True (view_version h ?e t (view_value h ?e (Some x) (view_of db)))"
        using True acc False dead Tie by (auto simp: Let_def)
      ultimately show ?thesis using b4 by simp
    qed
  qed
qed

lemma deliver_untie:
  assumes Untie: "op = Untie eid h t" and ok: "cells_ok db" and d: "disk_ok env" and f: "op_fits db op" and k: "row_open db (op_row op)"
  shows "\<exists>db'. deliver env op db = Some db' \<and> becomes db (view_op op (view_of db)) db'"
proof -
  let ?e = "eid_local eid"
  have e: "?e < cd_max_entities db" and h: "unat h < length (cd_himos db)" and t: "t \<noteq> hlc_ZERO" using f Untie by simp_all
  let ?db0 = "observe_remote_hlc t db"
  note b0 = clock_becomes[OF ok, of t]
  note ok0 = becomesD[OF b0] and sh0 = same_shapeD[OF becomesD(3)[OF b0]]
  obtain db' acc where c: "clear_cell_in env ?e h t ?db0 = (db', acc)" by (metis surj_pair)
  have e0: "?e < cd_max_entities ?db0" "unat h < length (cd_himos ?db0)" using e h sh0(1,4) by simp_all
  note cs = clear_cell_in_spec[OF ok0(1) d e0 t c]
  have "acc \<longleftrightarrow> cv_tomb (view_of db) ?e \<le> t \<and> cv_version (view_of db) h ?e < t" using cs(1) ok0(2) by (simp add: view_of_def)
  then have "becomes db (view_op op (view_of db)) db'" using becomes_trans[OF b0 cs(2)] ok0(2) Untie by (auto simp: Let_def split: if_splits)
  then show ?thesis using c h Untie by (simp add: remote_untie_apply_def not_le[symmetric])
qed

lemma deliver_del:
  assumes Del: "op = Del eid t" and ok: "cells_ok db" and d: "disk_ok env" and f: "op_fits db op" and k: "row_open db (op_row op)"
  shows "\<exists>db'. deliver env op db = Some db' \<and> becomes db (view_op op (view_of db)) db'"
proof -
  let ?e = "eid_local eid"
  have e: "?e < cd_max_entities db" and t: "t \<noteq> hlc_ZERO" using f Del by simp_all
  let ?db0 = "observe_remote_hlc t db"
  note b0 = clock_becomes[OF ok, of t]
  note ok0 = becomesD[OF b0] and sh0 = same_shapeD[OF becomesD(3)[OF b0]]
  have e0: "?e < cd_max_entities ?db0" using e sh0(4) by simp
  obtain db1 dead where s: "slot_is_dead env ?e ?db0 = (db1, dead)" by (metis surj_pair)
  have b1: "becomes db (view_of db) db1" using becomes_trans[OF b0 slot_is_dead_spec(1)[OF ok0(1) d e0 s]] ok0(2) by simp
  have e1: "?e < cd_max_entities db1" using e same_shapeD(4)[OF becomesD(3)[OF b1]] by simp
  let ?db2 = "if dead then fst (tombstone_version_of env ?e db1) else db1"
  obtain db2 tomb where tv: "tombstone_version_of env ?e db1 = (db2, tomb)" by (metis surj_pair)
  have b2: "becomes db (view_of db) ?db2"
    using b1 becomes_trans[OF b1 tombstone_version_of_spec(1)[OF becomesD(1)[OF b1] d e1 tv]] becomesD(2)[OF b1] tv by simp
  note ok2 = becomesD[OF b2]
  obtain db' acc where c: "apply_delete_in env ?e t ?db2 = (db', acc)" by (metis surj_pair)
  have e2: "?e < cd_max_entities ?db2" using e same_shapeD(4)[OF ok2(3)] by simp
  note cs = apply_delete_spec[OF ok2(1) d e2 t c]
  have "acc \<longleftrightarrow> cv_tomb (view_of db) ?e \<le> t" using cs(1) arg_cong[OF ok2(2), of cv_tomb] by (simp add: view_of_def)
  then have "becomes db (view_op op (view_of db)) db'" using becomes_trans[OF b2 cs(2)] ok2(2) Del by (auto simp: Let_def split: if_splits)
  then show ?thesis using c s Del by (simp add: remote_delete_apply_def Let_def)
qed

lemma deliver_refines:
  assumes ok: "cells_ok db" and d: "disk_ok env" and f: "op_fits db op" and k: "row_open db (op_row op)"
  shows "\<exists>db'. deliver env op db = Some db' \<and> becomes db (view_op op (view_of db)) db'"
  using deliver_tie[OF _ assms] deliver_untie[OF _ assms] deliver_del[OF _ assms] by (cases op) simp_all

text \<open>A delivery makes its row live, or frees it, or leaves the set of rows alone.\<close>

lemma deliver_entities:
  assumes "deliver env op db = Some db'"
  shows "cd_entities db' = cd_entities db \<or> (\<exists>eid h x t. op = Tie eid h x t) \<and> cd_entities db' = ensure_live (ce_ents env) (op_row op) (cd_entities db) \<or>
    (\<exists>eid t. op = Del eid t) \<and> cd_entities db' = eset_free (ce_ents env) (op_row op) (cd_entities db)"
proof (cases op)
  case (Tie eid h x t)
  let ?e = "eid_local eid" let ?db0 = "observe_remote_hlc t db"
  obtain db1 dead where s: "slot_is_dead env ?e ?db0 = (db1, dead)" by (metis surj_pair)
  obtain db2 k where r: "ensure_cell_room env h ?e db1 = (db2, k)" by (metis surj_pair)
  have e: "cd_entities db1 = cd_entities db" "cd_entities db2 = cd_entities db"
    using entities_steps(3)[OF s] entities_steps(4)[OF r] by simp_all
  show ?thesis using assms s r e Tie entities_set_cell[of env ?e h x t db2]
    by (auto simp: remote_tie_apply_result_def Let_def split: if_splits bool.splits option.splits prod.splits)
next
  case (Untie eid h t)
  then show ?thesis using assms entities_clear_cell[of env "eid_local eid" h t "observe_remote_hlc t db"]
    by (cases "clear_cell_in env (eid_local eid) h t (observe_remote_hlc t db)") (auto simp: remote_untie_apply_def split: if_splits)
next
  case (Del eid t)
  let ?e = "eid_local eid" let ?db0 = "observe_remote_hlc t db"
  obtain db1 dead where s: "slot_is_dead env ?e ?db0 = (db1, dead)" by (metis surj_pair)
  have e: "cd_entities db1 = cd_entities db" using entities_steps(3)[OF s] by simp
  let ?db2 = "if dead then fst (tombstone_version_of env ?e db1) else db1"
  have e2: "cd_entities ?db2 = cd_entities db" using e entities_reads(2)[of env ?e db1] by (metis prod.collapse)
  obtain acc where d: "apply_delete_in env ?e t ?db2 = (db', acc)" using assms s Del by (auto simp: remote_delete_apply_def Let_def) (metis prod.collapse)
  from entities_delete[OF this] show ?thesis using Del unfolding e2 by auto
qed

text \<open>An open row stays open: only its deletion can put it on the stack.\<close>

lemma view_op_mono:
  assumes "op_hlc op \<noteq> hlc_ZERO"
  shows "cv_tomb v e \<noteq> hlc_ZERO \<Longrightarrow> cv_tomb (view_op op v) e \<noteq> hlc_ZERO"
    "cv_live v e \<Longrightarrow> cv_live (view_op op v) e \<or> cv_tomb (view_op op v) e \<noteq> hlc_ZERO"
  using assms by (cases op; auto simp: Let_def view_live_def view_version_def view_value_def view_delete_def view_tomb_def)+

lemma row_open_step:
  assumes ok: "cells_ok db" and d: "disk_ok env" and f: "op_fits db op" and z: "op_hlc op \<noteq> hlc_ZERO" and o1: "row_open db e"
    and r: "deliver env op db = Some db'" "becomes db (view_op op (view_of db)) db'"
  shows "row_open db' e"
proof (rule ccontr)
  let ?es = "cd_entities db"
  assume n: "\<not> row_open db' e"
  note b = becomesD(2)[OF r(2)] and m = view_op_mono[OF z, of "view_of db" e]
  have "\<not> is_live e ?es" "db_tomb db e = hlc_ZERO"
    using n m arg_cong[OF b, of "\<lambda>v. cv_live v e"] arg_cong[OF b, of "\<lambda>v. cv_tomb v e"] by (auto simp: row_open_def view_of_def)
  then have nf: "unat e \<notin> set (es_free ?es)" using o1 by (simp add: row_open_def)
  have g: "\<forall>n. ce_ents env n \<noteq> None" using d by (simp add: disk_ok_def)
  have em: "op_row op < es_max_entities ?es" using f cells_okD(8)[OF ok] by (cases op) auto
  have s: "unat e \<in> set (es_free (cd_entities db'))" using n by (simp add: row_open_def)
  note c = deliver_entities[OF r(1)] and stack = ensure_live_stack[OF cells_okD(7)[OF ok] g em]
  then obtain eid t where del: "op = Del eid t" and es': "cd_entities db' = eset_free (ce_ents env) (op_row op) ?es"
    using s nf by auto
  have "set (es_free (cd_entities db')) \<subseteq> insert (unat (op_row op)) (set (es_free ?es))"
    using conjunct2[OF conjunct2[OF conjunct2[OF free_pool[OF cells_okD(7)[OF ok] g, of "op_row op"]]]] es'
    by (auto simp: pool_free_def pool_of_def split: if_splits)
  then have "e = op_row op" using s nf by (auto simp: word_unat_eq_iff)
  then have "db_tomb db' e \<noteq> hlc_ZERO"
    using arg_cong[OF b, of "\<lambda>v. cv_tomb v e"] del z hlc_ZERO_least
    by (auto simp: Let_def view_of_def view_delete_def view_live_def view_tomb_def split: if_splits)
  then show False using n by (simp add: row_open_def)
qed

section \<open>What the writes of a row leave behind\<close>

text \<open>The deletions of a row, and the writes of a cell, in a set of operations: each write with its
  clock and the value it leaves.\<close>

definition row_dels :: "cell_op set \<Rightarrow> u32 \<Rightarrow> hlc set" where
  "row_dels S e = {t. \<exists>eid. Del eid t \<in> S \<and> eid_local eid = e}"

definition cell_writes :: "cell_op set \<Rightarrow> u32 \<Rightarrow> u16 \<Rightarrow> (hlc \<times> u64 option) set" where
  "cell_writes S e h = {(t, x). (\<exists>eid y. Tie eid h y t \<in> S \<and> eid_local eid = e \<and> x = Some y) \<or>
     (\<exists>eid. Untie eid h t \<in> S \<and> eid_local eid = e \<and> x = None)}"

definition latest_write :: "(hlc \<times> u64 option) set \<Rightarrow> hlc \<Rightarrow> u64 option \<Rightarrow> bool" where
  "latest_write W t x \<longleftrightarrow> (if W = {} then t = hlc_ZERO \<and> x = None else (t, x) \<in> W \<and> (\<forall>w \<in> W. fst w \<le> t))"

text \<open>
  What a set of operations leaves in a row. A row that was live before the first of them
  (\<^verbatim>\<open>born\<close>) is live until one of them deletes it. A row that was not is live once one of its cells
  holds a value, and only if a tie was among them; between the two it depends on the order (see
  \<^verbatim>\<open>row_birth_depends_on_order\<close>).
\<close>

definition row_tied :: "cell_op set \<Rightarrow> u32 \<Rightarrow> bool" where
  "row_tied S e \<longleftrightarrow> (\<exists>eid h x t. Tie eid h x t \<in> S \<and> eid_local eid = e)"

definition row_state :: "bool \<Rightarrow> cell_op set \<Rightarrow> u32 \<Rightarrow> cell_view \<Rightarrow> bool" where
  "row_state born S e v \<longleftrightarrow>
     (if row_dels S e = {}
      then (if born then cv_live v e else ((\<exists>h. cv_value v h e \<noteq> None) \<longrightarrow> cv_live v e) \<and> (cv_live v e \<longrightarrow> row_tied S e)) \<and>
        cv_tomb v e = hlc_ZERO \<and> (\<forall>h. latest_write (cell_writes S e h) (cv_version v h e) (cv_value v h e))
      else \<not> cv_live v e \<and> cv_tomb v e \<in> row_dels S e \<and> (\<forall>t \<in> row_dels S e. t \<le> cv_tomb v e) \<and> (\<forall>h. cv_value v h e = None))"

text \<open>A row before the first operation: no cell was ever written here, and it is live or has never
  been used.\<close>

definition fresh_row :: "cell_db \<Rightarrow> u32 \<Rightarrow> bool" where
  "fresh_row db e \<longleftrightarrow> (is_live e (cd_entities db) \<or> unat e \<notin> set (es_free (cd_entities db))) \<and> db_tomb db e = hlc_ZERO \<and>
     (\<forall>h. db_version db h e = hlc_ZERO \<and> db_value db h e = None)"

definition clocks_distinct :: "cell_op set \<Rightarrow> bool" where
  "clocks_distinct S \<longleftrightarrow> (\<forall>a \<in> S. \<forall>b \<in> S. op_row a = op_row b \<and> op_hlc a = op_hlc b \<longrightarrow> a = b)"

lemma row_dels_insert [simp]:
  "row_dels (insert (Tie eid h x t) S) e = row_dels S e"
  "row_dels (insert (Untie eid h t) S) e = row_dels S e"
  "row_dels (insert (Del eid t) S) e = (if eid_local eid = e then insert t (row_dels S e) else row_dels S e)"
  "row_dels {} e = {}"
  by (auto simp: row_dels_def)

lemma cell_writes_insert [simp]:
  "cell_writes (insert (Tie eid h' x t) S) e h = (if eid_local eid = e \<and> h' = h then insert (t, Some x) (cell_writes S e h) else cell_writes S e h)"
  "cell_writes (insert (Untie eid h' t) S) e h = (if eid_local eid = e \<and> h' = h then insert (t, None) (cell_writes S e h) else cell_writes S e h)"
  "cell_writes (insert (Del eid t) S) e h = cell_writes S e h"
  "cell_writes {} e h = {}"
  by (auto simp: cell_writes_def)

lemma latest_write_insert:
  assumes "latest_write W t x" "s \<noteq> hlc_ZERO"
  shows "latest_write (insert (s, y) W) (if t < s then s else t) (if t < s then y else x)"
  using assms hlc_ZERO_least[of s] by (force simp: latest_write_def split: if_splits)

lemma latest_write_unique:
  assumes "latest_write W t x" "latest_write W s y" "\<And>u a b. (u, a) \<in> W \<Longrightarrow> (u, b) \<in> W \<Longrightarrow> a = b"
  shows "t = s \<and> x = y"
proof (cases "W = {}")
  case False
  then have "t \<le> s" "s \<le> t" using assms(1,2) by (force simp: latest_write_def)+
  then have "t = s" by simp
  then show ?thesis using assms False by (auto simp: latest_write_def)
qed (use assms in \<open>simp add: latest_write_def\<close>)

lemma row_tied_insert [simp]:
  "row_tied (insert (Tie eid h x t) S) e \<longleftrightarrow> eid_local eid = e \<or> row_tied S e"
  "row_tied (insert (Untie eid h t) S) e = row_tied S e" "row_tied (insert (Del eid t) S) e = row_tied S e"
  by (auto simp: row_tied_def)

lemma fresh_row_state: "fresh_row db e \<Longrightarrow> row_state (is_live e (cd_entities db)) {} e (view_of db)" "fresh_row db e \<Longrightarrow> row_open db e"
  by (auto simp: fresh_row_def row_state_def row_open_def latest_write_def view_of_def)

lemma deleted_state: "row_state born S e v \<Longrightarrow> hlc_ZERO \<notin> op_hlc ` S \<Longrightarrow> row_dels S e \<noteq> {} \<Longrightarrow> \<not> cv_live v e \<and> cv_tomb v e \<noteq> hlc_ZERO"
proof -
  assume s: "row_state born S e v" and z: "hlc_ZERO \<notin> op_hlc ` S" and d: "row_dels S e \<noteq> {}"
  have "hlc_ZERO \<notin> row_dels S e" using z by (force simp: row_dels_def)
  then show ?thesis using s d by (auto simp: row_state_def)
qed

lemmas view_defs = view_value_def view_version_def view_live_def view_tomb_def view_delete_def

text \<open>Delivering one more operation keeps the description true, in whatever order it comes.\<close>

lemma row_state_tie:
  assumes s: "row_state born S e v" and t: "t \<noteq> hlc_ZERO" and z: "hlc_ZERO \<notin> op_hlc ` S"
  shows "row_state born (insert (Tie eid h x t) S) e (view_op (Tie eid h x t) v)"
proof (cases "eid_local eid = e \<and> row_dels S e = {}")
  case True
  then have v: "cv_tomb v e = hlc_ZERO" and l: "\<And>g. latest_write (cell_writes S e g) (cv_version v g e) (cv_value v g e)"
    using s by (simp_all add: row_state_def)
  note w = latest_write_insert[OF l[of h] t, of "Some x"]
  show ?thesis
    using True v w l s hlc_ZERO_least[of t] by (cases "cv_version v h e < t") (auto simp: row_state_def view_defs split: if_splits)
next
  case False
  show ?thesis
  proof (cases "eid_local eid = e")
    case True
    then have "\<not> cv_live v e" "cv_tomb v e \<noteq> hlc_ZERO" using False deleted_state[OF s z] by simp_all
    then show ?thesis using s True False by (simp add: row_state_def)
  next
    case False
    then show ?thesis using s by (simp add: row_state_def view_defs Let_def)
  qed
qed

lemma row_state_untie:
  assumes s: "row_state born S e v" and t: "t \<noteq> hlc_ZERO"
  shows "row_state born (insert (Untie eid h t) S) e (view_op (Untie eid h t) v)"
proof (cases "eid_local eid = e \<and> row_dels S e = {}")
  case True
  then have v: "cv_tomb v e = hlc_ZERO" and l: "\<And>g. latest_write (cell_writes S e g) (cv_version v g e) (cv_value v g e)"
    using s by (simp_all add: row_state_def)
  note w = latest_write_insert[OF l[of h] t, of None]
  show ?thesis
    using True v w l s hlc_ZERO_least[of t] by (cases "cv_version v h e < t") (auto simp: row_state_def view_defs split: if_splits)
next
  case False
  then show ?thesis using s by (auto simp: row_state_def view_defs Let_def)
qed

lemma row_state_del:
  assumes s: "row_state born S e v"
  shows "row_state born (insert (Del eid t) S) e (view_op (Del eid t) v)"
proof (cases "eid_local eid = e")
  case True
  show ?thesis
  proof (cases "row_dels S e = {}")
    case True
    then show ?thesis using s hlc_ZERO_least[of t] \<open>eid_local eid = e\<close> by (simp add: row_state_def view_defs)
  next
    case False
    then show ?thesis using s True by (auto simp: row_state_def view_defs Let_def)
  qed
next
  case False
  then show ?thesis using s by (auto simp: row_state_def view_defs Let_def)
qed

lemma row_state_step:
  assumes "row_state born S e v" "op_hlc op \<noteq> hlc_ZERO" "hlc_ZERO \<notin> op_hlc ` S"
  shows "row_state born (insert op S) e (view_op op v)"
  using assms row_state_tie row_state_untie row_state_del by (cases op) simp_all

lemma row_state_unique:
  assumes "row_state b S e v" "row_state c S e w" "clocks_distinct S"
  shows "cv_value v h e = cv_value w h e" "cv_tomb v e = cv_tomb w e" "b \<Longrightarrow> c \<Longrightarrow> cv_live v e = cv_live w e"
proof -
  have "a = b" if m: "(u, a) \<in> cell_writes S e h" "(u, b) \<in> cell_writes S e h" for u a b
  proof -
    have w: "\<exists>eid h. eid_local eid = e \<and> (case a of Some y \<Rightarrow> Tie eid h y u | None \<Rightarrow> Untie eid h u) \<in> S"
      if "(u, a) \<in> cell_writes S e h" for a using that by (auto simp: cell_writes_def split: option.splits)
    obtain i g j k where "eid_local i = e" "eid_local j = e" "(case a of Some y \<Rightarrow> Tie i g y u | None \<Rightarrow> Untie i g u) \<in> S"
      "(case b of Some y \<Rightarrow> Tie j k y u | None \<Rightarrow> Untie j k u) \<in> S" using w[OF m(1)] w[OF m(2)] by blast
    moreover have "x = y" if "x \<in> S" "y \<in> S" "op_row x = op_row y" "op_hlc x = op_hlc y" for x y
      using assms(3) that by (simp add: clocks_distinct_def)
    ultimately show ?thesis by (fastforce split: option.splits)
  qed
  then show "cv_value v h e = cv_value w h e"
    using assms(1,2) latest_write_unique[of "cell_writes S e h" "cv_version v h e" "cv_value v h e" "cv_version w h e" "cv_value w h e"]
    by (auto simp: row_state_def split: if_splits)
  show "cv_tomb v e = cv_tomb w e" "b \<Longrightarrow> c \<Longrightarrow> cv_live v e = cv_live w e"
    using assms(1,2) by (auto simp: row_state_def intro: antisym split: if_splits)
qed

section \<open>Sequences of deliveries\<close>

fun deliver_all :: "(cell_env \<times> cell_op) list \<Rightarrow> cell_db \<Rightarrow> cell_db option" where
  "deliver_all [] db = Some db"
| "deliver_all ((env, op) # xs) db = (case deliver env op db of None \<Rightarrow> None | Some db' \<Rightarrow> deliver_all xs db')"

text \<open>A database that can take a set of operations: its parts are sound, every operation addresses
  a row and a column it has with a value the column can hold, and the rows start empty, each live
  or never used.\<close>

definition ready_for :: "cell_op set \<Rightarrow> cell_db \<Rightarrow> bool" where
  "ready_for S db \<longleftrightarrow> cells_ok db \<and> (\<forall>op \<in> S. op_fits db op \<and> fresh_row db (op_row op))"

lemma op_fits_shape:
  assumes s: "same_shape db db'" and f: "op_fits db op"
  shows "op_fits db' op"
proof (cases op)
  case (Tie eid h x t)
  then show ?thesis using f same_shapeD(1,4)[OF s] same_shapeD(6)[OF s, of h] by simp
qed (use f same_shapeD(1,4)[OF s] in simp_all)

lemma op_fits_clock: "op_fits db op \<Longrightarrow> op_hlc op \<noteq> hlc_ZERO"
  by (cases op) simp_all

definition same_row :: "u32 \<Rightarrow> cell_view \<Rightarrow> cell_view \<Rightarrow> bool" where
  "same_row e v w \<longleftrightarrow> (\<forall>h. cv_value w h e = cv_value v h e \<and> cv_version w h e = cv_version v h e) \<and> cv_tomb w e = cv_tomb v e \<and> cv_live w e = cv_live v e"

lemma view_op_frame: "e \<noteq> op_row op \<Longrightarrow> same_row e v (view_op op v)"
  by (cases op) (simp_all add: same_row_def view_defs Let_def)

abbreviation born_in :: "cell_db \<Rightarrow> u32 \<Rightarrow> bool" where
  "born_in db e \<equiv> is_live e (cd_entities db)"

lemma deliver_all_state:
  assumes "cells_ok db" "\<forall>p \<in> set xs. disk_ok (fst p) \<and> op_fits db (snd p) \<and> row_open db (op_row (snd p))"
    "hlc_ZERO \<notin> op_hlc ` S" "\<forall>e \<in> R. row_state (born e) S e (view_of db)"
  shows "\<exists>db'. deliver_all xs db = Some db' \<and> cells_ok db' \<and> same_shape db db' \<and> (\<forall>e \<in> R. row_state (born e) (snd ` set xs \<union> S) e (view_of db')) \<and>
    (\<forall>e. e \<notin> op_row ` snd ` set xs \<longrightarrow> same_row e (view_of db) (view_of db'))"
  using assms
proof (induction xs arbitrary: db S)
  case Nil
  then show ?case by (simp add: same_shape_def same_row_def)
next
  case (Cons p xs)
  obtain env op where p: "p = (env, op)" by (cases p)
  have f: "disk_ok env" "op_fits db op" "row_open db (op_row op)" using Cons.prems(2) p by simp_all
  obtain db1 where d: "deliver env op db = Some db1" "becomes db (view_op op (view_of db)) db1"
    using deliver_refines[OF Cons.prems(1) f] by blast
  note b = becomesD[OF d(2)] and z = op_fits_clock[OF f(2)]
  have st: "row_state (born e) (insert op S) e (view_of db1)" if "row_state (born e) S e (view_of db)" for e
    using row_state_step[OF that z Cons.prems(3)] b(2) by simp
  have "\<forall>q \<in> set xs. disk_ok (fst q) \<and> op_fits db1 (snd q) \<and> row_open db1 (op_row (snd q))"
    using Cons.prems(2) op_fits_shape[OF b(3)] row_open_step[OF Cons.prems(1) f(1,2) z _ d] by simp
  from Cons.IH[OF b(1) this, of "insert op S"] obtain db' where "deliver_all xs db1 = Some db'" "cells_ok db'" "same_shape db1 db'"
      "\<forall>e \<in> R. row_state (born e) (snd ` set xs \<union> insert op S) e (view_of db')" "\<forall>e. e \<notin> op_row ` snd ` set xs \<longrightarrow> same_row e (view_of db1) (view_of db')"
    using Cons.prems(3,4) st z by auto
  moreover have "same_row e (view_of db) (view_of db1)" if "e \<noteq> op_row op" for e using view_op_frame[OF that] b(2) by simp
  ultimately show ?case using d(1) p same_shape_trans[OF b(3)] by (auto simp: same_row_def)
qed

lemma ready_delivers:
  assumes r: "ready_for (snd ` set xs) db" and d: "\<forall>p \<in> set xs. disk_ok (fst p)"
  shows "\<exists>db'. deliver_all xs db = Some db' \<and> cells_ok db' \<and> same_shape db db' \<and>
    (\<forall>p \<in> set xs. row_state (born_in db (op_row (snd p))) (snd ` set xs) (op_row (snd p)) (view_of db')) \<and>
    (\<forall>e. e \<notin> op_row ` snd ` set xs \<longrightarrow> same_row e (view_of db) (view_of db'))"
  using deliver_all_state[of db xs "{}" "op_row ` snd ` set xs" "born_in db"] assms fresh_row_state by (force simp: ready_for_def)

lemma row_state_live:
  assumes "row_state born S e v"
  shows "cv_tomb v e \<noteq> hlc_ZERO \<Longrightarrow> \<not> cv_live v e" "cv_value v h e \<noteq> None \<Longrightarrow> cv_live v e"
  using assms by (auto simp: row_state_def split: if_splits)

lemma deliver_two:
  assumes ok: "cells_ok db" and d: "disk_ok env" and f: "op_fits db o1" "op_fits db o2" and k: "row_open db (op_row o1)" "row_open db (op_row o2)"
  shows "\<exists>db'. deliver_all [(env, o1), (env, o2)] db = Some db' \<and> view_of db' = view_op o2 (view_op o1 (view_of db))"
proof -
  obtain db1 where d1: "deliver env o1 db = Some db1" "becomes db (view_op o1 (view_of db)) db1"
    using deliver_refines[OF ok d f(1) k(1)] by blast
  note b = becomesD[OF d1(2)]
  have "row_open db1 (op_row o2)" by (rule row_open_step[OF ok d f(1) op_fits_clock[OF f(1)] k(2) d1])
  then obtain db2 where "deliver env o2 db1 = Some db2" "becomes db1 (view_op o2 (view_of db1)) db2"
    using deliver_refines[OF b(1) d op_fits_shape[OF b(3) f(2)]] by blast
  then show ?thesis using d1(1) b(2) by (simp add: becomes_def)
qed

lemma view_of_fields: "cv_value (view_of db) = db_value db" "cv_tomb (view_of db) = db_tomb db" "cv_live (view_of db) e = is_live e (cd_entities db)"
  "cv_version (view_of db) = db_version db"
  by (simp_all add: view_of_def)

section \<open>Properties of replication\<close>

text \<open>A small database for the concrete instances: one column of numbers, clocks in memory, row 0 live.\<close>

definition demo_cell_env :: cell_env where
  "demo_cell_env = \<lparr>ce_himo = demo_env, ce_ver = Some, ce_tomb = Some, ce_ents = Some\<rparr>"

definition demo_entities :: entity_set where
  "demo_entities = fst (eset_allocate Some (eset_init Some \<lparr>rg_mem = replicate (region_size 9) 0, rg_committed = HEADER\<rparr> 8 9))"

definition demo_db :: cell_db where
  "demo_db = \<lparr>cd_himos = [demo_store], cd_ver_cols = [], cd_tomb_col = None, cd_entities = demo_entities, cd_hlc_store = store_new,
     cd_sync_tables_on = True, cd_has_cell_version = False, cd_peer = 1, cd_max_entities = 8, cd_clock = None, cd_tables = [],
     cd_faults = [], cd_touched = [], cd_freed = []\<rparr>"

lemma demo_entities_ok: "eset_ok demo_entities" "es_max_entities demo_entities = 8" "is_live e demo_entities \<longleftrightarrow> e = 0" "es_free demo_entities = []"
proof -
  let ?es = "eset_init Some \<lparr>rg_mem = replicate (region_size 9) 0, rg_committed = HEADER\<rparr> 8 9"
  have f: "eset_ok ?es" "es_bits ?es = {}" "es_max_entities ?es = 8" "next_eid ?es = 0" "es_free ?es = []"
    using fresh_set[of 8 9 HEADER Some] by simp_all
  obtain es' r where a: "eset_allocate Some ?es = (es', r)" by fastforce
  have p: "eset_ok es'" "es_max_entities es' = 8" "pool_allocate 8 (pool_of ?es) = (pool_of es', map_option unat r)"
    using allocate_pool[OF f(1) _ a] f(3) by auto
  then have "es_bits es' = {0}" "es_free es' = []" using f by (auto simp: pool_allocate_def pool_of_def)
  then show "eset_ok demo_entities" "es_max_entities demo_entities = 8" "is_live e demo_entities \<longleftrightarrow> e = 0" "es_free demo_entities = []"
    using p a by (simp_all add: demo_entities_def is_live_bits unat_eq_0)
qed

lemma demo_disk: "disk_ok demo_cell_env"
  using demo_env_ok by (simp add: disk_ok_def demo_cell_env_def demo_env_def)

lemma demo_db_ok: "cells_ok demo_db" "fresh_row demo_db e" "born_in demo_db e \<longleftrightarrow> e = 0"
proof -
  have g: "himo_inv demo_store" "himo_map demo_store = Map.empty" "col_max_entities (hs_col demo_store) = 8" "hs_value_type demo_store = Number"
    using himo_reach_good[OF demo_reach(1)] by (simp_all add: himo_good_def)
  then show "cells_ok demo_db"
    using demo_entities_ok by (simp add: cells_ok_def demo_db_def column_ok_def plain_type_def)
  show "fresh_row demo_db e"
    using g demo_entities_ok(4)
    by (simp add: fresh_row_def demo_db_def db_value_def db_version_def db_tomb_def store_version_def store_get_def store_new_def)
  show "born_in demo_db e \<longleftrightarrow> e = 0" using demo_entities_ok(3) by (simp add: demo_db_def)
qed

lemma demo_ready: "\<forall>op \<in> S. op_fits demo_db op \<Longrightarrow> ready_for S demo_db"
  using demo_db_ok by (auto simp: ready_for_def)

text \<open>
  C3. A local or replicated write to a cell is accepted exactly when its clock is not before the
  deletion of the row and is later than the clock of the cell; an accepted write changes the
  value and the clock of this cell and nothing else that can be seen, a rejected one changes
  nothing. With room on the disk it never panics.
\<close>

theorem set_cell_decides:
  assumes "cells_ok db" "disk_ok env" "eid_local eid < cd_max_entities db" "unat h < length (cd_himos db)"
    "ucast x \<le> vt_max_value (hs_value_type (cd_himos db ! unat h))" "t \<noteq> hlc_ZERO"
  shows "\<exists>db' acc. set_cell env eid h x t db = Some (db', acc) \<and> cells_ok db' \<and>
    (acc \<longleftrightarrow> db_tomb db (eid_local eid) \<le> t \<and> db_version db h (eid_local eid) < t) \<and>
    view_of db' = (if acc then view_version h (eid_local eid) t (view_value h (eid_local eid) (Some (ucast x)) (view_of db)) else view_of db)"
  using set_cell_in_spec[OF assms] assms(4) by (auto simp: set_cell_def dest: becomesD)

theorem set_cell_decides_witness:
  "\<exists>db'. set_cell demo_cell_env 0 0 5 (Hlc 9 0 1) demo_db = Some (db', True) \<and> db_value db' 0 0 = Some 5"
proof -
  have f: "db_tomb demo_db 0 = hlc_ZERO" "db_version demo_db 0 0 = hlc_ZERO"
    using demo_db_ok(2)[of 0] by (simp_all add: fresh_row_def)
  have v: "hs_value_type demo_store = Number" using himo_reach_good[OF demo_reach(1)] by (simp add: himo_good_def)
  have "eid_local 0 = 0" "hlc_ZERO < Hlc 9 0 1" "Hlc 9 0 1 \<noteq> hlc_ZERO" by code_simp+
  then obtain db' where r: "set_cell demo_cell_env 0 0 5 (Hlc 9 0 1) demo_db = Some (db', True)"
      "view_of db' = view_version 0 0 (Hlc 9 0 1) (view_value 0 0 (Some 5) (view_of demo_db))"
    using set_cell_decides[OF demo_db_ok(1) demo_disk, of 0 0 5 "Hlc 9 0 1"] f v by (auto simp: demo_db_def vt_max_value_def)
  have "db_value db' 0 0 = Some 5" using arg_cong[OF r(2), of "\<lambda>v. cv_value v 0 0"] by (simp add: view_of_fields view_defs)
  then show ?thesis using r(1) by blast
qed

text \<open>
  C2. Last writer wins: deliver the writes of other peers in any order and any number of times to a
  database whose files can grow and in which the rows written have no cell yet. No delivery
  panics. A row none of them deletes then holds in every cell the value of the write with the
  latest clock; a row one of them deletes is gone, with all its cells, and remembers the latest
  deletion. A row that was live stays live until it is deleted; a row that had never been used is
  live once one of its cells holds a value, and only if a tie was delivered. Every other row is
  as it was.
\<close>

theorem last_writer_wins:
  assumes "ready_for (snd ` set xs) db" "\<forall>p \<in> set xs. disk_ok (fst p)"
  shows "\<exists>db'. deliver_all xs db = Some db' \<and> cells_ok db' \<and>
    (\<forall>p \<in> set xs. row_state (born_in db (op_row (snd p))) (snd ` set xs) (op_row (snd p)) (view_of db')) \<and>
    (\<forall>e. e \<notin> op_row ` snd ` set xs \<longrightarrow> same_row e (view_of db) (view_of db'))"
  using ready_delivers[OF assms] by blast

abbreviation demo_tie :: cell_op where
  "demo_tie \<equiv> Tie 0 0 7 (Hlc 5 0 2)"

abbreviation demo_untie :: cell_op where
  "demo_untie \<equiv> Untie 0 0 (Hlc 3 0 3)"

abbreviation new_tie :: cell_op where
  "new_tie \<equiv> Tie 1 0 7 (Hlc 5 0 2)"

abbreviation new_untie :: cell_op where
  "new_untie \<equiv> Untie 1 0 (Hlc 9 0 3)"

lemma demo_eid: "eid_local 0 = 0" "eid_local 1 = 1"
  by code_simp+

lemma demo_clocks: "Hlc 3 0 3 < Hlc 5 0 2" "Hlc 5 0 2 < Hlc 9 0 3" "hlc_ZERO < Hlc 3 0 3"
  by code_simp+

lemma demo_ops_ready: "S \<subseteq> {demo_tie, demo_untie, new_tie, new_untie} \<Longrightarrow> ready_for S demo_db"
proof -
  have "hs_value_type demo_store = Number" using himo_reach_good[OF demo_reach(1)] by (simp add: himo_good_def)
  then show "S \<subseteq> {demo_tie, demo_untie, new_tie, new_untie} \<Longrightarrow> ready_for S demo_db"
    by (intro demo_ready) (auto simp: demo_eid demo_db_def vt_max_value_def hlc_ZERO_def)
qed

theorem last_writer_wins_witness:
  "\<exists>db'. deliver_all [(demo_cell_env, demo_tie), (demo_cell_env, new_tie), (demo_cell_env, demo_untie)] demo_db = Some db' \<and>
    db_value db' 0 0 = Some 7 \<and> is_live 0 (cd_entities db') \<and> db_value db' 0 1 = Some 7 \<and> is_live 1 (cd_entities db')"
proof -
  let ?xs = "[(demo_cell_env, demo_tie), (demo_cell_env, new_tie), (demo_cell_env, demo_untie)]"
  let ?S = "{demo_tie, new_tie, demo_untie}"
  have r: "ready_for ?S demo_db" by (rule demo_ops_ready) auto
  obtain db' where d: "deliver_all ?xs demo_db = Some db'" "row_state True ?S 0 (view_of db')" "row_state False ?S 1 (view_of db')"
    using last_writer_wins[of ?xs demo_db] r demo_disk by (auto simp: demo_eid demo_db_ok(3) simp del: deliver_all.simps)
  have "latest_write {(Hlc 5 0 2, Some 7), (Hlc 3 0 3, None)} (db_version db' 0 0) (db_value db' 0 0)" "is_live 0 (cd_entities db')"
    using d(2) by (simp_all add: row_state_def demo_eid view_of_fields split: if_split_asm)
  moreover have "latest_write {(Hlc 5 0 2, Some 7)} (db_version db' 0 1) (db_value db' 0 1)"
    "(\<exists>h. db_value db' h 1 \<noteq> None) \<longrightarrow> is_live 1 (cd_entities db')"
    using d(3) by (simp_all add: row_state_def demo_eid view_of_fields split: if_split_asm)
  ultimately have "db_value db' 0 0 = Some 7" "db_value db' 0 1 = Some 7" "is_live 0 (cd_entities db')" "is_live 1 (cd_entities db')"
    using demo_clocks(1) by (auto simp: latest_write_def)
  then show ?thesis using d(1) by blast
qed

text \<open>
  C1. Replicas converge: two databases that received the same writes, in different orders, with
  different repetitions and on different platforms, end with the same value in every cell of the
  rows written and the same deletions, provided no two different writes of a row carry the same
  clock, the rows written have no cell before the first delivery, and the files can grow. A
  deleted row is live in neither, a row with a value is live in both, and rows that were live in
  both before are live in both or in neither. (A row that was live in neither and ends without a
  value can end live in one of them only: \<^verbatim>\<open>row_birth_depends_on_order\<close>.)
\<close>

theorem replicas_converge:
  assumes "snd ` set xs = snd ` set ys" "clocks_distinct (snd ` set xs)"
    "ready_for (snd ` set xs) a" "\<forall>p \<in> set xs. disk_ok (fst p)" "ready_for (snd ` set ys) b" "\<forall>p \<in> set ys. disk_ok (fst p)"
  shows "\<exists>a' b'. deliver_all xs a = Some a' \<and> deliver_all ys b = Some b' \<and>
    (\<forall>e \<in> op_row ` snd ` set xs. (\<forall>h. db_value a' h e = db_value b' h e) \<and> db_tomb a' e = db_tomb b' e \<and>
       (db_tomb a' e \<noteq> hlc_ZERO \<longrightarrow> \<not> is_live e (cd_entities a') \<and> \<not> is_live e (cd_entities b')) \<and>
       ((\<exists>h. db_value a' h e \<noteq> None) \<longrightarrow> is_live e (cd_entities a') \<and> is_live e (cd_entities b')) \<and>
       (is_live e (cd_entities a) \<and> is_live e (cd_entities b) \<longrightarrow> is_live e (cd_entities a') = is_live e (cd_entities b')))"
proof -
  let ?S = "snd ` set xs"
  obtain a' b' where r: "deliver_all xs a = Some a'" "deliver_all ys b = Some b'"
      "\<forall>p \<in> set xs. row_state (born_in a (op_row (snd p))) ?S (op_row (snd p)) (view_of a')"
      "\<forall>p \<in> set ys. row_state (born_in b (op_row (snd p))) (snd ` set ys) (op_row (snd p)) (view_of b')"
    using ready_delivers[OF assms(3,4)] ready_delivers[OF assms(5,6)] by blast
  have sa: "row_state (born_in a e) ?S e (view_of a')" if "e \<in> op_row ` ?S" for e using r(3) that by auto
  have sb: "row_state (born_in b e) ?S e (view_of b')" if "e \<in> op_row ` ?S" for e using r(4) that unfolding assms(1) by auto
  have "(\<forall>h. db_value a' h e = db_value b' h e) \<and> db_tomb a' e = db_tomb b' e \<and>
       (db_tomb a' e \<noteq> hlc_ZERO \<longrightarrow> \<not> is_live e (cd_entities a') \<and> \<not> is_live e (cd_entities b')) \<and>
       ((\<exists>h. db_value a' h e \<noteq> None) \<longrightarrow> is_live e (cd_entities a') \<and> is_live e (cd_entities b')) \<and>
       (born_in a e \<and> born_in b e \<longrightarrow> is_live e (cd_entities a') = is_live e (cd_entities b'))"
    if e: "e \<in> op_row ` ?S" for e
  proof -
    have u: "db_value a' h e = db_value b' h e" "db_tomb a' e = db_tomb b' e"
        "born_in a e \<and> born_in b e \<longrightarrow> is_live e (cd_entities a') = is_live e (cd_entities b')" for h
      using row_state_unique(1)[OF sa[OF e] sb[OF e] assms(2), of h] row_state_unique(2,3)[OF sa[OF e] sb[OF e] assms(2)]
      by (simp_all add: view_of_fields)
    then show ?thesis using row_state_live[OF sa[OF e]] row_state_live[OF sb[OF e]] by (auto simp: view_of_fields)
  qed
  then show ?thesis using r(1,2) by blast
qed

theorem replicas_converge_witness:
  "\<exists>a' b'. deliver_all [(demo_cell_env, demo_tie), (demo_cell_env, new_tie), (demo_cell_env, demo_untie)] demo_db = Some a' \<and>
    deliver_all [(demo_cell_env, demo_untie), (demo_cell_env, demo_tie), (demo_cell_env, demo_untie), (demo_cell_env, new_tie)] demo_db = Some b' \<and>
    db_value a' 0 0 = db_value b' 0 0 \<and> db_value a' 0 1 = db_value b' 0 1 \<and> is_live 0 (cd_entities a') = is_live 0 (cd_entities b')"
proof -
  let ?xs = "[(demo_cell_env, demo_tie), (demo_cell_env, new_tie), (demo_cell_env, demo_untie)]"
  let ?ys = "[(demo_cell_env, demo_untie), (demo_cell_env, demo_tie), (demo_cell_env, demo_untie), (demo_cell_env, new_tie)]"
  let ?S = "{demo_tie, new_tie, demo_untie}"
  have S: "snd ` set ?xs = ?S" "snd ` set ?ys = ?S" by auto
  have c: "clocks_distinct ?S" by (simp add: clocks_distinct_def demo_eid)
  have r: "ready_for ?S demo_db" by (rule demo_ops_ready) auto
  have m: "0 \<in> op_row ` ?S" "1 \<in> op_row ` ?S" by (simp_all add: demo_eid)
  have d: "\<forall>p \<in> set ?xs. disk_ok (fst p)" "\<forall>p \<in> set ?ys. disk_ok (fst p)" using demo_disk by simp_all
  obtain a' b' where k: "deliver_all ?xs demo_db = Some a'" "deliver_all ?ys demo_db = Some b'"
      "\<forall>e \<in> op_row ` ?S. (\<forall>h. db_value a' h e = db_value b' h e) \<and> (born_in demo_db e \<and> born_in demo_db e \<longrightarrow> is_live e (cd_entities a') = is_live e (cd_entities b'))"
    using replicas_converge[of ?xs ?ys demo_db demo_db, unfolded S, OF refl c r d(1) r d(2)] by blast
  show ?thesis using k(1,2) bspec[OF k(3) m(1)] bspec[OF k(3) m(2)] demo_db_ok(3)[of 0] by blast
qed

text \<open>
  A row's birth depends on the order of delivery: a row that was never used here becomes live
  when a tie to it is accepted, and an untie does not make it live. Deliver a tie and a later untie
  of the same cell: in this order the row ends live and empty, in the other order the tie is stale
  and the row is not live. The two replicas hold the same values but list different rows.
\<close>

theorem row_birth_depends_on_order:
  assumes r: "ready_for {Tie eid h x t, Untie eid h u} db" and d: "disk_ok env" and n: "\<not> is_live (eid_local eid) (cd_entities db)" and tu: "t < u"
  shows "\<exists>a b. deliver_all [(env, Tie eid h x t), (env, Untie eid h u)] db = Some a \<and>
    deliver_all [(env, Untie eid h u), (env, Tie eid h x t)] db = Some b \<and>
    is_live (eid_local eid) (cd_entities a) \<and> \<not> is_live (eid_local eid) (cd_entities b) \<and> (\<forall>g e. db_value a g e = db_value b g e)"
proof -
  let ?T = "Tie eid h x t" and ?U = "Untie eid h u" and ?e = "eid_local eid"
  have f: "cells_ok db" "op_fits db ?T" "op_fits db ?U" "fresh_row db ?e" using r by (simp_all add: ready_for_def)
  have z: "hlc_ZERO < t" "hlc_ZERO < u" using f(2,3) hlc_ZERO_least[of t] hlc_ZERO_least[of u] by auto
  have o1: "row_open db ?e" by (rule fresh_row_state(2)[OF f(4)])
  note two = deliver_two[OF f(1) d]
  obtain a where a: "deliver_all [(env, ?T), (env, ?U)] db = Some a" "view_of a = view_op ?U (view_op ?T (view_of db))"
    using two[OF f(2,3)] o1 by auto
  obtain b where b: "deliver_all [(env, ?U), (env, ?T)] db = Some b" "view_of b = view_op ?T (view_op ?U (view_of db))"
    using two[OF f(3,2)] o1 by auto
  have fr: "cv_tomb (view_of db) ?e = hlc_ZERO" "cv_version (view_of db) h ?e = hlc_ZERO" "cv_value (view_of db) h ?e = None"
    "\<not> cv_live (view_of db) ?e"
    using f(4) n by (simp_all add: fresh_row_def view_of_fields)
  have va: "view_of a = view_live ?e True (view_version h ?e u (view_value h ?e None (view_of db)))"
    unfolding a(2) using z(1) tu fr by (simp add: view_defs Let_def less_imp_le[OF z(1)] less_imp_le[OF z(2)] fun_upd_def if_distrib cong: if_cong)
  have vb: "view_of b = view_version h ?e u (view_value h ?e None (view_of db))"
    unfolding b(2) using z(2) less_not_sym[OF tu] fr by (simp add: view_defs Let_def less_imp_le[OF z(2)])
  have "is_live ?e (cd_entities a)" "\<not> is_live ?e (cd_entities b)"
    using arg_cong[OF va, of "\<lambda>v. cv_live v ?e"] arg_cong[OF vb, of "\<lambda>v. cv_live v ?e"] fr(4) by (simp_all add: view_of_fields view_defs)
  moreover have "db_value a g e = db_value b g e" for g e
    using arg_cong[OF va, of "\<lambda>v. cv_value v g e"] arg_cong[OF vb, of "\<lambda>v. cv_value v g e"] by (simp add: view_of_fields view_defs)
  ultimately show ?thesis using a(1) b(1) by blast
qed

theorem row_birth_depends_on_order_witness:
  "\<exists>a b. deliver_all [(demo_cell_env, new_tie), (demo_cell_env, new_untie)] demo_db = Some a \<and>
    deliver_all [(demo_cell_env, new_untie), (demo_cell_env, new_tie)] demo_db = Some b \<and>
    is_live 1 (cd_entities a) \<and> \<not> is_live 1 (cd_entities b)"
proof -
  have r: "ready_for {new_tie, new_untie} demo_db" by (rule demo_ops_ready) auto
  show ?thesis
    using row_birth_depends_on_order[OF r demo_disk _ demo_clocks(2)] demo_db_ok(3)[of 1] by (auto simp: demo_eid simp del: deliver_all.simps)
qed

end
