(* ===== verification/Ngram.thy ===== *)
theory Ngram
  imports Prelude "HOL-Library.AList" "HOL-Library.Sublist"
begin

text \<open>
  The n-gram text index (\<^verbatim>\<open>crates/enchudb-ngram/src\<close>): grams and their keys (\<^verbatim>\<open>gram.rs\<close>,
  \<^verbatim>\<open>bigram.rs\<close>), the posting lists with their lazily restored order and the galloping
  intersection (\<^verbatim>\<open>posting.rs\<close>), and the index in memory (\<^verbatim>\<open>index.rs\<close>). A character is its code
  point, a text the list of its characters. The lemmas show that the rolling key of the
  extraction is the key of each window, that galloping finds the first element that is large
  enough, and that the candidates of a query are exactly the documents that hold all its grams.
  The file format of \<^verbatim>\<open>storage.rs\<close> is not modelled.
\<close>

type_synonym code_point = u32
type_synonym ustring = "code_point list"

section \<open>Grams\<close>

abbreviation MIN_N :: nat where
  "MIN_N \<equiv> 2"

abbreviation MAX_N :: nat where
  "MAX_N \<equiv> 4"

datatype ngram_error = InvalidInput

definition validate_n :: "nat \<Rightarrow> ngram_error + nat" where
  "validate_n n = (if \<not> (MIN_N \<le> n \<and> n \<le> MAX_N) then Inl InvalidInput else Inr n)"

definition pack_step :: "u64 \<Rightarrow> code_point \<Rightarrow> u64" where
  "pack_step acc c = push_bit 16 acc OR ucast (c AND 0xFFFF)"

definition pack :: "ustring \<Rightarrow> u64" where
  "pack chars = foldl pack_step 0 chars"

fun extract_loop :: "nat \<Rightarrow> u64 \<Rightarrow> nat \<Rightarrow> u64 \<Rightarrow> ustring \<Rightarrow> u64 list" where
  "extract_loop n msk i acc [] = []"
| "extract_loop n msk i acc (c # cs) =
     (let acc' = pack_step acc c AND msk
      in if i + 1 \<ge> n then acc' # extract_loop n msk (i + 1) acc' cs else extract_loop n msk (i + 1) acc' cs)"

definition extract_keys :: "ustring \<Rightarrow> nat \<Rightarrow> u64 list" where
  "extract_keys chars n = (
     if \<not> (MIN_N \<le> n \<and> n \<le> MAX_N) then []
     else if length chars < n then []
     else extract_loop n (if n = 4 then 0xFFFFFFFFFFFFFFFF else push_bit (16 * n) 1 - 1) 0 0 chars)"

text \<open>The conversion of a number to a character refuses surrogates and numbers beyond Unicode.\<close>

definition char_from_u32 :: "u32 \<Rightarrow> code_point option" where
  "char_from_u32 cp = (if cp > 0x10FFFF \<or> (0xD800 \<le> cp \<and> cp \<le> 0xDFFF) then None else Some cp)"

fun key_chars :: "u64 \<Rightarrow> nat list \<Rightarrow> ustring option" where
  "key_chars key [] = Some []"
| "key_chars key (i # is) = (case char_from_u32 (ucast (drop_bit (16 * i) key AND 0xFFFF)) of
     None \<Rightarrow> None
   | Some c \<Rightarrow> map_option ((#) c) (key_chars key is))"

definition key_to_string :: "u64 \<Rightarrow> nat \<Rightarrow> ustring option" where
  "key_to_string key n = (if \<not> (MIN_N \<le> n \<and> n \<le> MAX_N) then None else key_chars key (rev [0..<n]))"

text \<open>Windows of a text, and the compatible interface for two characters.\<close>

definition windows :: "nat \<Rightarrow> 'a list \<Rightarrow> 'a list list" where
  "windows n xs = map (\<lambda>i. take n (drop i xs)) [0..<length xs + 1 - n]"

definition bigram_extract :: "ustring \<Rightarrow> ustring list" where
  "bigram_extract chars = (if length chars < 2 then [] else windows 2 chars)"

definition bigram_to_key :: "ustring \<Rightarrow> u32" where
  "bigram_to_key bg = ucast (pack bg)"

definition bigram_from_key :: "u32 \<Rightarrow> ustring option" where
  "bigram_from_key key = key_to_string (ucast key) 2"

section \<open>Posting lists\<close>

record posting_list =
  pl_buckets :: "(u64 \<times> u64 list) list"
  pl_unsorted :: "u64 set"

definition posting_new :: posting_list where
  "posting_new = \<lparr>pl_buckets = [], pl_unsorted = {}\<rparr>"

definition posting_get :: "u64 \<Rightarrow> posting_list \<Rightarrow> u64 list" where
  "posting_get key p = (case map_of (pl_buckets p) key of None \<Rightarrow> [] | Some v \<Rightarrow> v)"

definition posting_add :: "u64 \<Rightarrow> u64 \<Rightarrow> posting_list \<Rightarrow> posting_list" where
  "posting_add key eid p =
     (let list = posting_get key p
      in \<lparr>pl_buckets = AList.update key (list @ [eid]) (pl_buckets p),
          pl_unsorted = (if list \<noteq> [] \<and> last list > eid then insert key (pl_unsorted p) else pl_unsorted p)\<rparr>)"

definition posting_remove :: "u64 \<Rightarrow> u64 \<Rightarrow> posting_list \<Rightarrow> posting_list" where
  "posting_remove key eid p = (case map_of (pl_buckets p) key of
     None \<Rightarrow> p
   | Some list \<Rightarrow>
       let list' = filter (\<lambda>e. e \<noteq> eid) list
       in if list' = [] then \<lparr>pl_buckets = AList.delete key (pl_buckets p), pl_unsorted = pl_unsorted p - {key}\<rparr>
          else p\<lparr>pl_buckets := AList.update key list' (pl_buckets p)\<rparr>)"

function gallop_up :: "u64 list \<Rightarrow> u64 \<Rightarrow> nat \<Rightarrow> nat \<Rightarrow> nat \<Rightarrow> nat \<times> nat" where
  "gallop_up s e lo i k = (if i < length s \<and> s ! i < e then gallop_up s e (i + 1) (i + 2 ^ k) (k + 1) else (lo, i))"
  by auto

termination
  by (relation "measure (\<lambda>(s, e, lo, i, k). length s - i)") (auto intro: diff_less_mono2)

declare gallop_up.simps [simp del]

function bisect_ge :: "u64 list \<Rightarrow> u64 \<Rightarrow> nat \<Rightarrow> nat \<Rightarrow> nat" where
  "bisect_ge s e a b = (
     if a < b then let mid = a + (b - a) div 2 in if s ! mid < e then bisect_ge s e (mid + 1) b else bisect_ge s e a mid
     else a)"
  by auto

termination
  by (relation "measure (\<lambda>(s, e, a, b). b - a)") auto

declare bisect_ge.simps [simp del]

definition gallop_first :: "u64 list \<Rightarrow> nat \<Rightarrow> u64 \<Rightarrow> nat" where
  "gallop_first s from e = (case gallop_up s e from from 0 of (lo, i) \<Rightarrow> bisect_ge s e lo (min i (length s)))"

fun retain_in :: "u64 list \<Rightarrow> nat \<Rightarrow> u64 list \<Rightarrow> u64 list" where
  "retain_in list at [] = []"
| "retain_in list at (e # es) =
     (let at' = gallop_first list at e
      in if at' < length list \<and> list ! at' = e then e # retain_in list at' es else retain_in list at' es)"

definition posting_sorted :: "u64 \<Rightarrow> posting_list \<Rightarrow> u64 list" where
  "posting_sorted key p =
     (let list = posting_get key p in if key \<in> pl_unsorted p then remdups_adj (sort list) else list)"

fun shortest :: "posting_list \<Rightarrow> nat \<Rightarrow> u64 list \<Rightarrow> nat \<Rightarrow> nat \<Rightarrow> nat option" where
  "shortest p i [] idx len = Some idx"
| "shortest p i (k # ks) idx len =
     (let l = length (posting_get k p)
      in if l = 0 then None
         else if l < len then shortest p (i + 1) ks i l else shortest p (i + 1) ks idx len)"

fun intersect_rest :: "posting_list \<Rightarrow> nat \<Rightarrow> nat \<Rightarrow> u64 list \<Rightarrow> u64 list \<Rightarrow> u64 list" where
  "intersect_rest p si i [] res = res"
| "intersect_rest p si i (k # ks) res = (
     if i = si then intersect_rest p si (i + 1) ks res
     else let res' = retain_in (posting_sorted k p) 0 res
          in if res' = [] then [] else intersect_rest p si (i + 1) ks res')"

definition posting_intersect :: "u64 list \<Rightarrow> posting_list \<Rightarrow> u64 list" where
  "posting_intersect keys p = (
     if keys = [] then []
     else case shortest p 0 keys 0 0xFFFFFFFFFFFFFFFF of
       None \<Rightarrow> []
     | Some si \<Rightarrow> intersect_rest p si 0 keys (remdups_adj (posting_sorted (keys ! si) p)))"

definition posting_compact :: "posting_list \<Rightarrow> posting_list" where
  "posting_compact p = \<lparr>pl_buckets = map (\<lambda>(k, l). (k, remdups_adj (sort l))) (pl_buckets p), pl_unsorted = {}\<rparr>"

definition key_count :: "posting_list \<Rightarrow> nat" where
  "key_count p = length (pl_buckets p)"

section \<open>The index in memory\<close>

record ngram_index =
  ng_postings :: posting_list
  ng_originals :: "(u64 \<times> ustring) list"
  ng_n :: nat

definition with_n_unchecked :: "nat \<Rightarrow> ngram_index" where
  "with_n_unchecked n = \<lparr>ng_postings = posting_new, ng_originals = [], ng_n = n\<rparr>"

definition with_n :: "nat \<Rightarrow> ngram_error + ngram_index" where
  "with_n n = (case validate_n n of Inl e \<Rightarrow> Inl e | Inr _ \<Rightarrow> Inr (with_n_unchecked n))"

definition unindex :: "u64 \<Rightarrow> ngram_index \<Rightarrow> ngram_index" where
  "unindex eid ix = (case map_of (ng_originals ix) eid of
     None \<Rightarrow> ix
   | Some old \<Rightarrow> ix\<lparr>ng_originals := AList.delete eid (ng_originals ix),
       ng_postings := fold (\<lambda>key p. posting_remove key eid p) (extract_keys old (ng_n ix)) (ng_postings ix)\<rparr>)"

definition ngram_insert :: "u64 \<Rightarrow> ustring \<Rightarrow> ngram_index \<Rightarrow> ngram_index" where
  "ngram_insert eid text ix =
     (let ix1 = unindex eid ix
      in ix1\<lparr>ng_postings := fold (\<lambda>key p. posting_add key eid p) (extract_keys text (ng_n ix)) (ng_postings ix1),
             ng_originals := AList.update eid text (ng_originals ix1)\<rparr>)"

definition ngram_remove :: "u64 \<Rightarrow> ngram_index \<Rightarrow> ngram_index" where
  "ngram_remove eid ix = unindex eid ix"

definition candidates :: "ustring \<Rightarrow> ngram_index \<Rightarrow> u64 list" where
  "candidates query ix = (let keys = extract_keys query (ng_n ix) in if keys = [] then [] else posting_intersect keys (ng_postings ix))"

definition ngram_scan :: "(ustring \<Rightarrow> bool) \<Rightarrow> ngram_index \<Rightarrow> u64 list" where
  "ngram_scan pred ix = map fst (filter (\<lambda>(_, text). pred text) (ng_originals ix))"

definition get_text :: "u64 \<Rightarrow> ngram_index \<Rightarrow> ustring option" where
  "get_text eid ix = map_of (ng_originals ix) eid"

definition ngram_compact :: "ngram_index \<Rightarrow> ngram_index" where
  "ngram_compact ix = ix\<lparr>ng_postings := posting_compact (ng_postings ix)\<rparr>"

definition doc_count :: "ngram_index \<Rightarrow> nat" where
  "doc_count ix = length (ng_originals ix)"

definition gram_count :: "ngram_index \<Rightarrow> nat" where
  "gram_count ix = key_count (ng_postings ix)"

section \<open>Keys\<close>

lemma pack_snoc: "pack (xs @ [c]) = pack_step (pack xs) c"
  by (simp add: pack_def)

lemma low_char: "ucast (c AND 0xFFFF :: code_point) = (take_bit 16 (ucast c) :: u64)"
proof -
  have "c AND 0xFFFF = take_bit 16 c" by (simp add: take_bit_eq_mask mask_eq_exp_minus_1)
  then show ?thesis by (simp only: unsigned_take_bit_eq)
qed

lemma pack_step_eq: "pack_step acc c = push_bit 16 acc OR take_bit 16 (ucast c)"
  by (simp add: pack_step_def low_char)

lemma pack_append: "pack (xs @ ys) = push_bit (16 * length ys) (pack xs) OR pack ys"
proof (induction ys rule: rev_induct)
  case Nil
  then show ?case by (simp add: pack_def)
next
  case (snoc c ys)
  have "pack (xs @ ys @ [c]) = pack_step (pack (xs @ ys)) c" using pack_snoc[of "xs @ ys" c] by simp
  also have "\<dots> = push_bit (16 * length (ys @ [c])) (pack xs) OR pack (ys @ [c])"
    by (simp add: snoc.IH pack_snoc pack_step_eq push_bit_or or.assoc add.commute)
  finally show ?case .
qed

lemma take_pack: "16 * length ys \<le> m \<Longrightarrow> take_bit m (pack ys) = pack ys"
proof (induction ys arbitrary: m rule: rev_induct)
  case Nil
  then show ?case by (simp add: pack_def)
next
  case (snoc c ys)
  have "take_bit (m - 16) (pack ys) = pack ys" using snoc by simp
  moreover have "take_bit m (take_bit 16 (ucast c :: u64)) = take_bit 16 (ucast c)" using snoc.prems by (simp add: min_absorb2)
  ultimately show ?case by (simp add: pack_snoc pack_step_eq take_bit_or take_bit_push_bit)
qed

lemma pack_window: "take_bit (16 * length ys) (pack (xs @ ys)) = pack ys"
  by (simp add: pack_append take_bit_or take_bit_push_bit take_pack)

lemma roll_key: "take_bit m (pack_step (take_bit m acc) c) = take_bit m (pack_step acc c)"
  by (rule bit_eqI) (auto simp: pack_step_eq bit_simps)

lemma extract_loop_windows:
  assumes "0 < n"
  shows "extract_loop n (mask (16 * n)) (length pre) (take_bit (16 * n) (pack pre)) cs =
    map (\<lambda>i. take_bit (16 * n) (pack (take i (pre @ cs)))) (filter (\<lambda>i. n \<le> i) [length pre + 1..<length pre + length cs + 1])"
proof (induction cs arbitrary: pre)
  case (Cons c cs)
  have k: "pack_step (take_bit (16 * n) (pack pre)) c AND mask (16 * n) = take_bit (16 * n) (pack (pre @ [c]))"
    by (simp add: pack_snoc roll_key flip: take_bit_eq_mask)
  have r: "[length pre + 1..<length pre + length (c # cs) + 1] = (length pre + 1) # [length (pre @ [c]) + 1..<length (pre @ [c]) + length cs + 1]"
    by (simp add: upt_rec)
  show ?case using Cons.IH[of "pre @ [c]"] unfolding extract_loop.simps k r by (simp add: Let_def)
qed simp

text \<open>The rolling key of the extraction is the key of each window.\<close>

lemma extract_keys_windows:
  assumes "MIN_N \<le> n" "n \<le> MAX_N"
  shows "extract_keys chars n = (if length chars < n then [] else map pack (windows n chars))"
proof (cases "length chars < n")
  case False
  have m: "(if n = 4 then 0xFFFFFFFFFFFFFFFF else push_bit (16 * n) 1 - 1) = (mask (16 * n) :: u64)"
    using assms by (auto simp: mask_eq_exp_minus_1 push_bit_eq_mult)
  have "extract_keys chars n = map (\<lambda>i. take_bit (16 * n) (pack (take i chars))) (filter (\<lambda>i. n \<le> i) [1..<length chars + 1])"
    using extract_loop_windows[of n "[]" chars] assms False by (simp add: extract_keys_def m pack_def)
  also have "filter (\<lambda>i. n \<le> i) [1..<length chars + 1] = map (\<lambda>i. i + n) [0..<length chars + 1 - n]"
  proof -
    have "[1..<length chars + 1] = [1..<n] @ [n..<length chars + 1]"
      using False assms upt_add_eq_append[of 1 n "length chars + 1 - n"] by simp
    moreover have "filter (\<lambda>i. n \<le> i) [1..<n] = []" by (simp add: filter_empty_conv)
    moreover have "filter (\<lambda>i. n \<le> i) [n..<length chars + 1] = [n..<length chars + 1]" by (rule filter_True) auto
    moreover have "map (\<lambda>i. i + n) [0..<length chars + 1 - n] = [n..<length chars + 1]" using False by (simp add: map_add_upt)
    ultimately show ?thesis by simp
  qed
  also have "map (\<lambda>i. take_bit (16 * n) (pack (take i chars))) (map (\<lambda>i. i + n) [0..<length chars + 1 - n]) = map pack (windows n chars)"
  proof -
    have "take_bit (16 * n) (pack (take (i + n) chars)) = pack (take n (drop i chars))" if "i < length chars + 1 - n" for i
    proof -
      have "length (take n (drop i chars)) = n" using that by simp
      then show ?thesis using pack_window[of "take n (drop i chars)" "take i chars"] by (simp only: take_add)
    qed
    then show ?thesis by (simp add: windows_def)
  qed
  finally show ?thesis using False by simp
qed (use assms in \<open>simp add: extract_keys_def\<close>)

definition bmp :: "ustring \<Rightarrow> bool" where
  "bmp cs \<longleftrightarrow> (\<forall>c \<in> set cs. c < 0x10000)"

lemma bmp_char:
  assumes "c < 0x10000"
  shows "take_bit 16 (ucast c :: u64) = ucast (c :: code_point)"
proof -
  have "unat (take_bit 16 c) = unat c"
    using assms by (simp add: unsigned_take_bit_eq take_bit_nat_eq_self word_less_nat_alt)
  then have "take_bit 16 c = c" by (simp add: word_unat_eq_iff)
  then show ?thesis using unsigned_take_bit_eq[of 16 c] by metis
qed

text \<open>Up to four characters of the basic plane fit a key without loss.\<close>

lemma pack_last: "take_bit 16 (pack (xs @ [c])) = take_bit 16 (ucast c)"
  by (simp add: pack_snoc pack_step_eq take_bit_or take_bit_push_bit)

lemma pack_butlast:
  assumes "length xs < 4"
  shows "drop_bit 16 (pack (xs @ [c])) = pack xs"
proof -
  have "drop_bit 16 (push_bit 16 a OR take_bit 16 b) = take_bit 48 a" for a b :: u64
    by (rule bit_eqI) (auto simp: bit_simps)
  then show ?thesis using take_pack[of xs 48] assms by (simp add: pack_snoc pack_step_eq)
qed

lemma bits_ucast_u32: "ucast (ucast (c :: u32) :: u64) = c"
  by (rule bit_eqI) (auto simp: bit_simps)

lemma pack_inj:
  assumes "pack xs = pack ys" "length xs = length ys" "length xs \<le> 4" "bmp xs" "bmp ys"
  shows "xs = ys"
  using assms
proof (induction xs arbitrary: ys rule: rev_induct)
  case (snoc c xs)
  obtain d zs where ys: "ys = zs @ [d]" using snoc.prems(2) by (cases ys rule: rev_cases) auto
  have l: "length xs < 4" "length zs < 4" using snoc.prems(2,3) ys by simp_all
  have b: "c < 0x10000" "d < 0x10000" "bmp xs" "bmp zs" using snoc.prems(4,5) ys by (simp_all add: bmp_def)
  have "pack xs = pack zs" using snoc.prems(1) pack_butlast[OF l(1), of c] pack_butlast[OF l(2), of d] ys by simp
  moreover have "(ucast c :: u64) = ucast d"
    using snoc.prems(1) pack_last[of xs c] pack_last[of zs d] ys bmp_char[OF b(1)] bmp_char[OF b(2)] by simp
  then have "c = d" by (metis bits_ucast_u32)
  ultimately show ?case using snoc.IH[of zs] b snoc.prems(2,3) ys by simp
qed simp

section \<open>Galloping\<close>

lemma gallop_up_spec:
  assumes "gallop_up s e lo i k = (lo', i')" "lo \<le> i" "\<forall>j. p0 \<le> j \<and> j < lo \<longrightarrow> s ! j < e" "sorted s" "p0 \<le> lo" "lo \<le> length s"
  shows "p0 \<le> lo' \<and> lo' \<le> i' \<and> lo' \<le> length s \<and> (\<forall>j. p0 \<le> j \<and> j < lo' \<longrightarrow> s ! j < e) \<and> (i' < length s \<longrightarrow> e \<le> s ! i')"
  using assms
proof (induction s e lo i k rule: gallop_up.induct)
  case (1 s e lo i k)
  show ?case
  proof (cases "i < length s \<and> s ! i < e")
    case True
    have "s ! j < e" if "j < i + 1" for j
      using True sorted_nth_mono[OF 1(5), of j i] that by (cases "j = i") auto
    then show ?thesis using 1(1)[OF True] 1(2-7) True by (simp add: gallop_up.simps[of s e lo i k])
  next
    case False
    then show ?thesis using 1(2-7) by (auto simp: gallop_up.simps[of s e lo i k])
  qed
qed

lemma bisect_ge_spec:
  assumes "a \<le> b" "b \<le> length s" "sorted s" "\<forall>j. p0 \<le> j \<and> j < a \<longrightarrow> s ! j < e" "b < length s \<longrightarrow> e \<le> s ! b" "p0 \<le> a"
  shows "p0 \<le> bisect_ge s e a b \<and> bisect_ge s e a b \<le> length s \<and> (\<forall>j. p0 \<le> j \<and> j < bisect_ge s e a b \<longrightarrow> s ! j < e) \<and>
    (bisect_ge s e a b < length s \<longrightarrow> e \<le> s ! bisect_ge s e a b)"
  using assms
proof (induction s e a b rule: bisect_ge.induct)
  case (1 s e a b)
  let ?mid = "a + (b - a) div 2"
  show ?case
  proof (cases "a < b")
    case True
    have mid: "?mid < b" using True by simp
    have low: "s ! j < e" if "s ! ?mid < e" "j < ?mid + 1" for j
      using that sorted_nth_mono[OF 1(5), of j ?mid] mid 1(4) by (cases "j = ?mid") auto
    show ?thesis
    proof (cases "s ! ?mid < e")
      case t: True
      then have "p0 \<le> bisect_ge s e (?mid + 1) b \<and> bisect_ge s e (?mid + 1) b \<le> length s \<and> (\<forall>j. p0 \<le> j \<and> j < bisect_ge s e (?mid + 1) b \<longrightarrow> s ! j < e) \<and>
        (bisect_ge s e (?mid + 1) b < length s \<longrightarrow> e \<le> s ! bisect_ge s e (?mid + 1) b)"
        using 1(1)[OF True refl t] 1(3-8) True mid low[OF t] by simp
      then show ?thesis using True t by (simp add: bisect_ge.simps[of s e a b])
    next
      case f: False
      then have "p0 \<le> bisect_ge s e a ?mid \<and> bisect_ge s e a ?mid \<le> length s \<and> (\<forall>j. p0 \<le> j \<and> j < bisect_ge s e a ?mid \<longrightarrow> s ! j < e) \<and>
        (bisect_ge s e a ?mid < length s \<longrightarrow> e \<le> s ! bisect_ge s e a ?mid)"
        using 1(2)[OF True refl f] 1(3-8) True mid by (simp add: not_less)
      then show ?thesis using True f by (simp add: bisect_ge.simps[of s e a b])
    qed
  next
    case False
    then show ?thesis using 1(3-8) by (simp add: bisect_ge.simps[of s e b b])
  qed
qed

lemma gallop_first_spec:
  assumes "sorted s" "p0 \<le> length s"
  shows "p0 \<le> gallop_first s p0 e" "gallop_first s p0 e \<le> length s"
    "p0 \<le> j \<Longrightarrow> j < gallop_first s p0 e \<Longrightarrow> s ! j < e"
    "gallop_first s p0 e < length s \<Longrightarrow> e \<le> s ! gallop_first s p0 e"
proof -
  obtain lo i where g: "gallop_up s e p0 p0 0 = (lo, i)" by fastforce
  have u: "p0 \<le> lo" "lo \<le> i" "lo \<le> length s" "\<forall>j. p0 \<le> j \<and> j < lo \<longrightarrow> s ! j < e" "i < length s \<longrightarrow> e \<le> s ! i"
  proof -
    have "\<forall>j. p0 \<le> j \<and> j < p0 \<longrightarrow> s ! j < e" by auto
    from gallop_up_spec[OF g le_refl this assms(1) le_refl assms(2)]
    show "p0 \<le> lo" "lo \<le> i" "lo \<le> length s" "\<forall>j. p0 \<le> j \<and> j < lo \<longrightarrow> s ! j < e" "i < length s \<longrightarrow> e \<le> s ! i" by blast+
  qed
  have b: "lo \<le> min i (length s)" "min i (length s) \<le> length s" "min i (length s) < length s \<longrightarrow> e \<le> s ! min i (length s)"
    using u by (auto simp: min_def)
  from bisect_ge_spec[OF b(1,2) assms(1) u(4) b(3) u(1)]
  show "p0 \<le> gallop_first s p0 e" "gallop_first s p0 e \<le> length s"
    "p0 \<le> j \<Longrightarrow> j < gallop_first s p0 e \<Longrightarrow> s ! j < e"
    "gallop_first s p0 e < length s \<Longrightarrow> e \<le> s ! gallop_first s p0 e"
    using g by (simp_all add: gallop_first_def)
qed

lemma retain_in_filter:
  assumes "sorted s" "sorted es" "at \<le> length s" "\<forall>j < at. \<forall>e \<in> set es. s ! j < e"
  shows "retain_in s at es = filter (\<lambda>e. e \<in> set s) es"
  using assms
proof (induction es arbitrary: at)
  case (Cons e es)
  let ?at = "gallop_first s at e"
  note g = gallop_first_spec[OF Cons.prems(1,3), where e = e]
  have low: "s ! j < e" if "j < ?at" for j using that g(3)[of j] Cons.prems(4) by (cases "j < at") auto
  have mem: "e \<in> set s \<longleftrightarrow> ?at < length s \<and> s ! ?at = e"
  proof
    assume "e \<in> set s"
    then obtain j where j: "j < length s" "s ! j = e" by (auto simp: in_set_conv_nth)
    then have "?at \<le> j" using low[of j] by (cases "j < ?at") auto
    then show "?at < length s \<and> s ! ?at = e"
      using j g(4) sorted_nth_mono[OF Cons.prems(1), of ?at j] by auto
  qed (metis nth_mem)
  have "\<forall>j < ?at. \<forall>e' \<in> set es. s ! j < e'" using low Cons.prems(2) by fastforce
  then have "retain_in s ?at es = filter (\<lambda>e. e \<in> set s) es" using Cons.IH Cons.prems(1,2) g(2) by simp
  then show ?case by (simp add: Let_def mem)
qed simp

section \<open>Posting lists\<close>

definition posting_ok :: "posting_list \<Rightarrow> bool" where
  "posting_ok p \<longleftrightarrow> (\<forall>k. k \<notin> pl_unsorted p \<longrightarrow> sorted (posting_get k p))"

lemma get_add: "posting_get k (posting_add key eid p) = (if k = key then posting_get key p @ [eid] else posting_get k p)"
  by (simp add: posting_get_def posting_add_def update_conv' Let_def)

lemma get_remove: "posting_get k (posting_remove key eid p) = (if k = key then filter (\<lambda>e. e \<noteq> eid) (posting_get key p) else posting_get k p)"
  by (auto simp: posting_get_def posting_remove_def update_conv' delete_conv' Let_def split: option.splits)

lemma get_compact: "posting_get k (posting_compact p) = remdups_adj (sort (posting_get k p))"
proof -
  have "map_of (map (\<lambda>(k, l). (k, remdups_adj (sort l))) bs) k = map_option (\<lambda>l. remdups_adj (sort l)) (map_of bs k)" for bs :: "(u64 \<times> u64 list) list"
    by (induction bs) auto
  then show ?thesis by (simp add: posting_get_def posting_compact_def split: option.split)
qed

lemma add_ok: "posting_ok p \<Longrightarrow> posting_ok (posting_add key eid p)"
  unfolding posting_ok_def
proof (intro allI impI)
  fix k assume a: "\<forall>k. k \<notin> pl_unsorted p \<longrightarrow> sorted (posting_get k p)" and k: "k \<notin> pl_unsorted (posting_add key eid p)"
  then have "k \<notin> pl_unsorted p" by (auto simp: posting_add_def Let_def split: if_splits)
  then have s: "sorted (posting_get k p)" using a by blast
  moreover have "\<forall>x \<in> set (posting_get key p). x \<le> eid" if "k = key"
  proof (cases "posting_get key p" rule: rev_cases)
    case (snoc ys y)
    then have "y \<le> eid" using k that by (auto simp: posting_add_def Let_def not_less split: if_splits)
    then show ?thesis using s that snoc by (auto simp: sorted_append)
  qed simp
  ultimately show "sorted (posting_get k (posting_add key eid p))" by (cases "k = key") (simp_all add: get_add sorted_append)
qed

lemma remove_ok: "posting_ok p \<Longrightarrow> posting_ok (posting_remove key eid p)"
  unfolding posting_ok_def
proof (intro allI impI)
  fix k assume a: "\<forall>k. k \<notin> pl_unsorted p \<longrightarrow> sorted (posting_get k p)" and k: "k \<notin> pl_unsorted (posting_remove key eid p)"
  show "sorted (posting_get k (posting_remove key eid p))"
  proof (cases "k \<in> pl_unsorted p")
    case False
    then show ?thesis using a by (cases "k = key") (simp_all add: get_remove sorted_wrt_filter)
  next
    case True
    then have "k = key" "filter (\<lambda>e. e \<noteq> eid) (posting_get key p) = []"
      using k by (auto simp: posting_remove_def posting_get_def Let_def split: option.splits if_splits)
    then show ?thesis by (simp add: get_remove)
  qed
qed

lemma compact_ok: "posting_ok (posting_compact p)"
  by (simp add: posting_ok_def get_compact sorted_remdups_adj)

lemma posting_sorted_spec:
  assumes "posting_ok p"
  shows "sorted (posting_sorted k p)" "set (posting_sorted k p) = set (posting_get k p)"
  using assms by (auto simp: posting_sorted_def posting_ok_def Let_def sorted_remdups_adj)

lemma shortest_spec:
  "shortest p i ks idx len = None \<longleftrightarrow> (\<exists>k \<in> set ks. posting_get k p = [])"
  "shortest p i ks idx len = Some si \<Longrightarrow> si = idx \<or> (i \<le> si \<and> si < i + length ks)"
  by (induction ks arbitrary: i idx len) (auto simp: Let_def split: if_splits, force+)

lemma intersect_rest_filter:
  assumes "posting_ok p" "sorted res"
  shows "intersect_rest p si i ks res = filter (\<lambda>e. \<forall>j < length ks. i + j \<noteq> si \<longrightarrow> e \<in> set (posting_get (ks ! j) p)) res"
  using assms(2)
proof (induction ks arbitrary: i res)
  case (Cons k ks)
  let ?P = "\<lambda>e. \<forall>j < length ks. i + 1 + j \<noteq> si \<longrightarrow> e \<in> set (posting_get (ks ! j) p)"
  have split: "(\<forall>j < length (k # ks). i + j \<noteq> si \<longrightarrow> e \<in> set (posting_get ((k # ks) ! j) p)) \<longleftrightarrow> (i \<noteq> si \<longrightarrow> e \<in> set (posting_get k p)) \<and> ?P e" for e
    by (simp add: All_less_Suc2)
  show ?case
  proof (cases "i = si")
    case True
    then show ?thesis using Cons.IH[OF Cons.prems, of "i + 1"] split by simp
  next
    case False
    define res' where "res' = retain_in (posting_sorted k p) 0 res"
    have r: "res' = filter (\<lambda>e. e \<in> set (posting_get k p)) res"
      using retain_in_filter[OF posting_sorted_spec(1)[OF assms(1)] Cons.prems] by (simp add: res'_def posting_sorted_spec(2)[OF assms(1)])
    have "sorted res'" using Cons.prems r by (simp add: sorted_wrt_filter)
    then show ?thesis using Cons.IH[of res' "i + 1"] False split r by (auto simp: res'_def[symmetric] Let_def filter_empty_conv)
  qed
qed simp

lemma all_but_one: "si < (m :: nat) \<Longrightarrow> P si \<and> (\<forall>j < m. j \<noteq> si \<longrightarrow> P j) \<longleftrightarrow> (\<forall>j < m. P j)"
  by blast

lemma seeded_filter:
  assumes ok: "posting_ok p" and si: "si < length keys"
  shows "filter (\<lambda>e. \<forall>j < length keys. j \<noteq> si \<longrightarrow> e \<in> set (posting_get (keys ! j) p)) (remdups_adj (posting_sorted (keys ! si) p)) =
    sorted_list_of_set (\<Inter>k \<in> set keys. set (posting_get k p))" (is "?res = sorted_list_of_set ?I")
proof -
  note ps = posting_sorted_spec[OF ok, of "keys ! si"]
  have "sorted ?res" using ps(1) by (simp add: sorted_wrt_filter sorted_remdups_adj)
  moreover have "distinct ?res" using sorted_distinct_adj[OF ps(1)] by simp
  moreover have "set ?res = ?I"
  proof (rule set_eqI)
    fix e
    have "e \<in> ?I \<longleftrightarrow> (\<forall>j < length keys. e \<in> set (posting_get (keys ! j) p))" by (simp add: all_set_conv_all_nth)
    also have "\<dots> \<longleftrightarrow> e \<in> set ?res" using ps(2) all_but_one[OF si, of "\<lambda>j. e \<in> set (posting_get (keys ! j) p)"] by simp
    finally show "e \<in> set ?res \<longleftrightarrow> e \<in> ?I" by simp
  qed
  ultimately show ?thesis using sorted_list_of_set.idem_if_sorted_distinct[of ?res] by (simp only:)
qed

text \<open>The intersection holds the ids of all its keys, ascending and once.\<close>

lemma intersect_exact:
  assumes ok: "posting_ok p" and ne: "keys \<noteq> []"
  shows "posting_intersect keys p = sorted_list_of_set (\<Inter>k \<in> set keys. set (posting_get k p))"
proof (cases "shortest p 0 keys 0 0xFFFFFFFFFFFFFFFF")
  case None
  then obtain k where "k \<in> set keys" "posting_get k p = []" using shortest_spec(1) by blast
  then have "(\<Inter>k \<in> set keys. set (posting_get k p)) = {}" using INT_lower[of k "set keys" "\<lambda>k. set (posting_get k p)"] by simp
  then show ?thesis using None ne by (simp add: posting_intersect_def)
next
  case (Some si)
  have si: "si < length keys" using shortest_spec(2)[OF Some] ne by (cases keys) auto
  have "sorted (remdups_adj (posting_sorted (keys ! si) p))" using posting_sorted_spec(1)[OF ok] by (simp add: sorted_remdups_adj)
  from intersect_rest_filter[OF ok this, of si 0 keys]
  have "intersect_rest p si 0 keys (remdups_adj (posting_sorted (keys ! si) p)) = sorted_list_of_set (\<Inter>k \<in> set keys. set (posting_get k p))"
    using seeded_filter[OF ok si] by simp
  then show ?thesis using Some ne by (simp add: posting_intersect_def)
qed

section \<open>The index\<close>

definition ngram_inv :: "ngram_index \<Rightarrow> bool" where
  "ngram_inv ix \<longleftrightarrow> posting_ok (ng_postings ix) \<and>
     (\<forall>k eid. eid \<in> set (posting_get k (ng_postings ix)) \<longleftrightarrow> (\<exists>t. get_text eid ix = Some t \<and> k \<in> set (extract_keys t (ng_n ix))))"

lemma fold_add:
  "posting_ok p \<Longrightarrow> posting_ok (fold (\<lambda>key p. posting_add key eid p) ks p) \<and>
    set (posting_get k (fold (\<lambda>key p. posting_add key eid p) ks p)) = set (posting_get k p) \<union> (if k \<in> set ks then {eid} else {})"
  by (induction ks arbitrary: p) (auto simp: add_ok get_add)

lemma fold_remove:
  "posting_ok p \<Longrightarrow> posting_ok (fold (\<lambda>key p. posting_remove key eid p) ks p) \<and>
    set (posting_get k (fold (\<lambda>key p. posting_remove key eid p) ks p)) = set (posting_get k p) - (if k \<in> set ks then {eid} else {})"
  by (induction ks arbitrary: p) (auto simp: remove_ok get_remove)

lemma unindex_spec:
  assumes "ngram_inv ix"
  shows "ngram_inv (unindex eid ix)" "ng_n (unindex eid ix) = ng_n ix" "get_text e (unindex eid ix) = (if e = eid then None else get_text e ix)"
proof -
  show "ng_n (unindex eid ix) = ng_n ix" by (simp add: unindex_def split: option.split)
  have t: "get_text e (unindex eid ix) = (if e = eid then None else get_text e ix)" for e
    by (auto simp: unindex_def get_text_def delete_conv' split: option.split)
  then show "get_text e (unindex eid ix) = (if e = eid then None else get_text e ix)" .
  show "ngram_inv (unindex eid ix)"
  proof (cases "get_text eid ix")
    case None
    then show ?thesis using assms by (simp add: unindex_def get_text_def)
  next
    case (Some old)
    have p: "ng_postings (unindex eid ix) = fold (\<lambda>key p. posting_remove key eid p) (extract_keys old (ng_n ix)) (ng_postings ix)"
      "ng_n (unindex eid ix) = ng_n ix"
      using Some by (simp_all add: unindex_def get_text_def)
    show ?thesis
      using assms fold_remove[where p = "ng_postings ix" and eid = eid and ks = "extract_keys old (ng_n ix)"] Some
      unfolding ngram_inv_def p t by auto
  qed
qed

lemma insert_spec:
  assumes "ngram_inv ix"
  shows "ngram_inv (ngram_insert eid tx ix)" "ng_n (ngram_insert eid tx ix) = ng_n ix"
    "get_text e (ngram_insert eid tx ix) = (if e = eid then Some tx else get_text e ix)"
proof -
  note u = unindex_spec[OF assms, where eid = eid]
  show n: "ng_n (ngram_insert eid tx ix) = ng_n ix" using u(2) by (simp add: ngram_insert_def Let_def)
  have t: "get_text e (ngram_insert eid tx ix) = (if e = eid then Some tx else get_text e ix)" for e
    using u(3)[of e] by (auto simp: ngram_insert_def get_text_def update_conv' Let_def)
  then show "get_text e (ngram_insert eid tx ix) = (if e = eid then Some tx else get_text e ix)" .
  have p: "ng_postings (ngram_insert eid tx ix) =
      fold (\<lambda>key p. posting_add key eid p) (extract_keys tx (ng_n ix)) (ng_postings (unindex eid ix))"
    by (simp add: ngram_insert_def Let_def)
  show "ngram_inv (ngram_insert eid tx ix)"
    using u(1) fold_add[where p = "ng_postings (unindex eid ix)" and eid = eid and ks = "extract_keys tx (ng_n ix)"]
    unfolding ngram_inv_def p n t u(2,3) by auto
qed

lemma ngram_compact_spec: "ngram_inv ix \<Longrightarrow> ngram_inv (ngram_compact ix)"
  by (simp add: ngram_inv_def ngram_compact_def get_text_def compact_ok get_compact)

lemma new_inv: "ngram_inv (with_n_unchecked n)"
  by (simp add: ngram_inv_def with_n_unchecked_def posting_ok_def posting_get_def posting_new_def get_text_def)

text \<open>An index came about by registering and removing documents.\<close>

inductive ngram_reach :: "nat \<Rightarrow> ngram_index \<Rightarrow> (u64 \<rightharpoonup> ustring) \<Rightarrow> bool" for n where
  new: "with_n n = Inr ix \<Longrightarrow> ngram_reach n ix Map.empty"
| insert: "ngram_reach n ix D \<Longrightarrow> ngram_reach n (ngram_insert eid text ix) (D(eid \<mapsto> text))"
| remove: "ngram_reach n ix D \<Longrightarrow> ngram_reach n (ngram_remove eid ix) (D(eid := None))"
| compact: "ngram_reach n ix D \<Longrightarrow> ngram_reach n (ngram_compact ix) D"

lemma ngram_reach_inv:
  assumes "ngram_reach n ix D"
  shows "ngram_inv ix \<and> ng_n ix = n \<and> MIN_N \<le> n \<and> n \<le> MAX_N \<and> (\<lambda>e. get_text e ix) = D"
  using assms
proof induction
  case (new ix)
  then have "ix = with_n_unchecked n" "MIN_N \<le> n \<and> n \<le> MAX_N" by (auto simp: with_n_def validate_n_def split: if_splits)
  then show ?case using new_inv by (auto simp: with_n_unchecked_def get_text_def)
next
  case (insert ix D eid tx)
  then show ?case using insert_spec[of ix, where eid = eid and tx = tx] by (auto simp: fun_eq_iff)
next
  case (remove ix D eid)
  then show ?case using unindex_spec[of ix, where eid = eid] by (auto simp: ngram_remove_def fun_eq_iff)
next
  case (compact ix D)
  then show ?case using ngram_compact_spec[of ix] by (auto simp: ngram_compact_def get_text_def)
qed

lemma candidates_eq:
  assumes "ngram_reach n ix D" "n \<le> length q"
  shows "candidates q ix = sorted_list_of_set {eid. \<exists>t. D eid = Some t \<and> set (extract_keys q n) \<subseteq> set (extract_keys t n)}"
proof -
  note r = ngram_reach_inv[OF assms(1)]
  have ne: "extract_keys q n \<noteq> []" using r assms(2) by (auto simp: extract_keys_windows windows_def)
  then obtain k where k: "k \<in> set (extract_keys q n)" by (meson list.set_sel(1))
  have D: "get_text e ix = D e" for e using r by auto
  have g: "set (posting_get k (ng_postings ix)) = {eid. \<exists>t. D eid = Some t \<and> k \<in> set (extract_keys t n)}" for k
    using r D by (auto simp: ngram_inv_def)
  have "(\<Inter>k \<in> set (extract_keys q n). set (posting_get k (ng_postings ix))) = {eid. \<exists>t. D eid = Some t \<and> set (extract_keys q n) \<subseteq> set (extract_keys t n)}"
  proof (rule set_eqI)
    fix eid
    show "eid \<in> (\<Inter>k \<in> set (extract_keys q n). set (posting_get k (ng_postings ix))) \<longleftrightarrow>
      eid \<in> {eid. \<exists>t. D eid = Some t \<and> set (extract_keys q n) \<subseteq> set (extract_keys t n)}"
      using k by (cases "D eid") (auto simp: g)
  qed
  then show ?thesis
    using intersect_exact[OF _ ne] r ne by (simp add: candidates_def ngram_inv_def)
qed

lemma substring_keys:
  assumes "sublist q t" "n \<le> length q" "MIN_N \<le> n" "n \<le> MAX_N"
  shows "set (extract_keys q n) \<subseteq> set (extract_keys t n)"
proof -
  obtain ps ss where t: "t = ps @ q @ ss" using assms(1) by (auto simp: sublist_def)
  have "\<exists>j < length t + 1 - n. take n (drop i q) = take n (drop j t)" if "i < length q + 1 - n" for i
    using that by (intro exI[of _ "length ps + i"]) (auto simp: t)
  then have "set (windows n q) \<subseteq> set (windows n t)" unfolding windows_def by (force simp: image_iff)
  then show ?thesis using assms t by (auto simp: extract_keys_windows)
qed

lemma windows_length: "w \<in> set (windows n t) \<Longrightarrow> n \<le> length t \<Longrightarrow> length w = n \<and> sublist w t"
  by (auto simp: windows_def sublist_def) (metis append_take_drop_id)

lemma one_gram_substring:
  assumes "length q = n" "MIN_N \<le> n" "n \<le> MAX_N" "bmp q" "bmp t" "set (extract_keys q n) \<subseteq> set (extract_keys t n)"
  shows "sublist q t"
proof -
  have "pack q \<in> set (extract_keys q n)" using assms(1-3) by (simp add: extract_keys_windows windows_def)
  then obtain w where w: "w \<in> set (windows n t)" "pack w = pack q" "n \<le> length t"
    using assms(2,3,6) by (auto simp: extract_keys_windows subset_iff split: if_splits)
  note l = windows_length[OF w(1,3)]
  have "bmp w" using l assms(5) set_mono_sublist[of w t] by (auto simp: bmp_def)
  then have "w = q" using pack_inj[OF w(2)] l assms by simp
  then show ?thesis using l by simp
qed

section \<open>Properties\<close>

definition demo_index :: ngram_index where
  "demo_index = ngram_insert 9 [98, 99, 100] (ngram_insert 4 [97, 98, 99] (with_n_unchecked 2))"

lemma demo_ngram: "ngram_reach 2 demo_index [4 \<mapsto> [97, 98, 99], 9 \<mapsto> [98, 99, 100]]"
  unfolding demo_index_def
  by (intro ngram_reach.insert ngram_reach.new) (simp add: with_n_def validate_n_def)

text \<open>
  C31. Whatever documents were registered, replaced and removed, and whether or not the postings
  were put in order in between, the candidates of a query are exactly the documents whose text
  has every gram of the query, in ascending order and once.
\<close>

theorem candidates_exact:
  assumes "ngram_reach n ix D" "n \<le> length q"
  shows "candidates q ix = sorted_list_of_set {eid. \<exists>t. D eid = Some t \<and> set (extract_keys q n) \<subseteq> set (extract_keys t n)}"
  by (rule candidates_eq[OF assms])

theorem candidates_exact_witness: "candidates [98, 99] demo_index = [4, 9]"
proof -
  have "{eid. \<exists>t. [4 \<mapsto> [97, 98, 99], 9 \<mapsto> [98, 99, 100]] eid = Some t \<and> set (extract_keys [98, 99] 2) \<subseteq> set (extract_keys t 2)} = {4, 9 :: u64}"
    by (auto simp: extract_keys_def pack_step_def split: if_splits)
  then show ?thesis using candidates_exact[OF demo_ngram, of "[98, 99]"] by simp
qed

text \<open>
  The index never hides a match: a document that contains the query is a candidate. For a query
  of exactly one gram, over characters of the basic plane, the candidates are the documents
  that contain it, so the text need not be looked at again.
\<close>

theorem substring_is_candidate:
  assumes "ngram_reach n ix D" "n \<le> length q" "D eid = Some t"
  shows "(sublist q t \<longrightarrow> eid \<in> set (candidates q ix)) \<and>
    (length q = n \<and> bmp q \<and> bmp t \<longrightarrow> (eid \<in> set (candidates q ix) \<longleftrightarrow> sublist q t))"
proof -
  note r = ngram_reach_inv[OF assms(1)]
  have fin: "finite {eid. \<exists>t. D eid = Some t \<and> set (extract_keys q n) \<subseteq> set (extract_keys t n)}" (is "finite ?C")
  proof (rule finite_subset)
    show "?C \<subseteq> fst ` set (ng_originals ix)" using r by (force simp: get_text_def dest: map_of_SomeD)
  qed simp
  have c: "eid \<in> set (candidates q ix) \<longleftrightarrow> set (extract_keys q n) \<subseteq> set (extract_keys t n)"
    using candidates_eq[OF assms(1,2)] fin assms(3) by simp
  show ?thesis
    using c substring_keys[of q t n] one_gram_substring[of q n t] r assms(2) by blast
qed

theorem substring_is_candidate_witness: "4 \<in> set (candidates [97, 98, 99] demo_index) \<and> 4 \<notin> set (candidates [99, 100] demo_index)"
proof -
  have "sublist [97, 98, 99] [97, 98, 99 :: u32]" "\<not> sublist [99, 100] [97, 98, 99 :: u32]"
    by (auto simp: sublist_def append_eq_Cons_conv Cons_eq_append_conv)
  then show ?thesis
    using substring_is_candidate[OF demo_ngram, of "[97, 98, 99]" 4 "[97, 98, 99]"]
      substring_is_candidate[OF demo_ngram, of "[99, 100]" 4 "[97, 98, 99]"] by (simp add: bmp_def)
qed

end
