(* ===== verification/Shard.thy ===== *)
theory Shard
  imports Hlc "HOL-Library.AList"
begin

text \<open>
  Routing of queries between peers (\<^verbatim>\<open>crates/enchudb-sync/src/shard.rs\<close>) and the default filter of
  what is published (\<^verbatim>\<open>subscription.rs\<close>). A router names the peer that owns a column; a query
  asks the owner of each of its columns, here or over the transport, and intersects the sorted
  answers, whose ids carry the owner. What an engine answers for one column (\<^verbatim>\<open>Engine::pull_raw\<close>) is a parameter.
\<close>

type_synonym himo_name = bytes

section \<open>Routers\<close>

type_synonym hash_router = "peer_id list"

text \<open>\<^const>\<open>None\<close> is the panic of an empty peer list.\<close>

definition hash_router_new :: "peer_id list \<Rightarrow> hash_router option" where
  "hash_router_new peers = (if peers = [] then None else Some peers)"

definition hash_owner_of :: "hash_router \<Rightarrow> himo_name \<Rightarrow> peer_id" where
  "hash_owner_of peers himo = peers ! (unat (fnv1a himo) mod length peers)"

record explicit_router =
  er_map :: "(himo_name \<times> peer_id) list"
  er_peers :: "peer_id list"
  er_fallback :: peer_id

definition explicit_router_new :: "(himo_name \<times> peer_id) list \<Rightarrow> peer_id \<Rightarrow> explicit_router" where
  "explicit_router_new m fallback =
     \<lparr>er_map = m, er_peers = remdups_adj (sort (map snd m @ [fallback])), er_fallback = fallback\<rparr>"

definition explicit_owner_of :: "explicit_router \<Rightarrow> himo_name \<Rightarrow> peer_id" where
  "explicit_owner_of r himo = (case map_of (er_map r) himo of None \<Rightarrow> er_fallback r | Some p \<Rightarrow> p)"

definition is_mine :: "(himo_name \<Rightarrow> peer_id) \<Rightarrow> himo_name \<Rightarrow> peer_id \<Rightarrow> bool" where
  "is_mine owner_of himo self_peer \<longleftrightarrow> owner_of himo = self_peer"

section \<open>Queries\<close>

type_synonym column_pull = "himo_name \<Rightarrow> u32 \<Rightarrow> entity_id list"

definition tag_peer :: "peer_id \<Rightarrow> entity_id list \<Rightarrow> entity_id list" where
  "tag_peer peer es = map (\<lambda>e. make_eid peer (ucast e)) es"

definition pull_column :: "(peer_id \<times> column_pull) list \<Rightarrow> peer_id \<Rightarrow> column_pull" where
  "pull_column engines src himo value = (case map_of engines src of
     None \<Rightarrow> []
   | Some pull \<Rightarrow> tag_peer src (pull himo value))"

definition register_engine :: "peer_id \<Rightarrow> column_pull \<Rightarrow> (peer_id \<times> column_pull) list \<Rightarrow> (peer_id \<times> column_pull) list" where
  "register_engine peer pull engines = AList.update peer pull engines"

definition shard_pull_raw ::
  "(himo_name \<Rightarrow> peer_id) \<Rightarrow> peer_id \<Rightarrow> column_pull \<Rightarrow> (peer_id \<Rightarrow> column_pull) \<Rightarrow> column_pull" where
  "shard_pull_raw owner_of self_peer pull_local transport himo value =
     (let owner = owner_of himo
      in if owner = self_peer then tag_peer self_peer (pull_local himo value) else transport owner himo value)"

fun sorted_intersect :: "entity_id list \<Rightarrow> entity_id list \<Rightarrow> entity_id list" where
  "sorted_intersect [] bs = []"
| "sorted_intersect as [] = []"
| "sorted_intersect (a # as) (b # bs) = (
     if a = b then a # sorted_intersect as bs
     else if a < b then sorted_intersect as (b # bs)
     else sorted_intersect (a # as) bs)"

fun intersect_all :: "entity_id list \<Rightarrow> entity_id list list \<Rightarrow> entity_id list" where
  "intersect_all acc [] = acc"
| "intersect_all acc (s # ss) =
     (let acc' = sorted_intersect acc s in if acc' = [] then [] else intersect_all acc' ss)"

definition shard_query :: "column_pull \<Rightarrow> (himo_name \<times> u32) list \<Rightarrow> entity_id list" where
  "shard_query pull conditions = (
     if conditions = [] then []
     else let sets = sort_key length (map (\<lambda>(h, v). remdups_adj (sort (pull h v))) conditions)
          in intersect_all (hd sets) (tl sets))"

text \<open>The default subscription sends every record to every peer.\<close>

definition all_records_should_send :: "peer_id \<Rightarrow> 'r \<Rightarrow> bool" where
  "all_records_should_send target record \<longleftrightarrow> True"

section \<open>The contract of a router\<close>

locale shard_router =
  fixes owner_of :: "himo_name \<Rightarrow> peer_id" and peers :: "peer_id list"
  assumes owner_member: "owner_of himo \<in> set peers"
begin

lemma someone_owns: "\<exists>p \<in> set peers. is_mine owner_of himo p"
  using owner_member by (auto simp: is_mine_def)

lemma one_owner: "is_mine owner_of himo p \<Longrightarrow> is_mine owner_of himo q \<Longrightarrow> p = q"
  by (simp add: is_mine_def)

text \<open>Every peer that asks gets the same answer: the owner's, tagged with the owner.\<close>

lemma same_answer:
  assumes "\<forall>p \<in> set peers. map_of engines p \<noteq> None" "map_of engines self_peer = Some pull"
  shows "shard_pull_raw owner_of self_peer pull (pull_column engines) himo value = pull_column engines (owner_of himo) himo value"
  using assms owner_member[of himo] by (auto simp: shard_pull_raw_def pull_column_def Let_def)

end

lemma hash_router_ok: "hash_router_new ps = Some r \<Longrightarrow> shard_router (hash_owner_of r) r"
  by unfold_locales (auto simp: hash_router_new_def hash_owner_of_def split: if_splits)

lemma explicit_router_ok: "shard_router (explicit_owner_of (explicit_router_new m fb)) (er_peers (explicit_router_new m fb))"
  by unfold_locales
    (auto simp: explicit_owner_of_def explicit_router_new_def split: option.splits dest!: map_of_SomeD intro!: image_eqI)

interpretation explicit: shard_router "explicit_owner_of (explicit_router_new m fb)" "er_peers (explicit_router_new m fb)" for m fb
  by (rule explicit_router_ok)

interpretation hashed: shard_router "hash_owner_of (p # ps)" "p # ps" for p ps
  using hash_router_ok[of "p # ps" "p # ps"] by (simp add: hash_router_new_def)

section \<open>Intersections\<close>

lemma sorted_intersect_spec:
  assumes "sorted as" "distinct as" "sorted bs" "distinct bs"
  shows "sorted (sorted_intersect as bs) \<and> distinct (sorted_intersect as bs) \<and> set (sorted_intersect as bs) = set as \<inter> set bs"
  using assms
proof (induction as bs rule: sorted_intersect.induct)
  case (3 a as b bs)
  have "a \<notin> set (b # bs)" if "a < b" using 3(6) that by auto
  moreover have "b \<notin> set (a # as)" if "b < a" using 3(4) that by auto
  ultimately show ?case using 3 by (auto simp: not_less_iff_gr_or_eq)
qed simp_all

lemma intersect_all_spec:
  assumes "sorted acc" "distinct acc" "\<forall>s \<in> set ss. sorted s \<and> distinct s"
  shows "intersect_all acc ss = sorted_list_of_set (set acc \<inter> (\<Inter>s \<in> set ss. set s))"
  using assms
proof (induction ss arbitrary: acc)
  case Nil
  then show ?case using sorted_list_of_set.idem_if_sorted_distinct[of acc] by simp
next
  case (Cons s ss)
  let ?acc = "sorted_intersect acc s"
  have i: "sorted ?acc" "distinct ?acc" "set ?acc = set acc \<inter> set s" using sorted_intersect_spec[of acc s] Cons.prems by simp_all
  have "intersect_all ?acc ss = sorted_list_of_set (set acc \<inter> (\<Inter>s \<in> set (s # ss). set s))"
    using Cons.IH[OF i(1,2)] Cons.prems(3) i(3) by (simp add: Int_assoc)
  moreover have "sorted_list_of_set (set acc \<inter> (\<Inter>s \<in> set (s # ss). set s)) = []" if "?acc = []"
    using i(3) that by (simp flip: Int_assoc)
  ultimately show ?case by (simp add: Let_def)
qed

section \<open>What a query answers\<close>

text \<open>The intersection of the owners' answers, before their ids are looked at.\<close>

lemma shard_query_intersects:
  assumes "conditions \<noteq> []" "shard_router owner_of peers"
    and "\<forall>p \<in> set peers. map_of engines p \<noteq> None" "map_of engines self_peer = Some pull"
  shows "shard_query (shard_pull_raw owner_of self_peer pull (pull_column engines)) conditions =
    sorted_list_of_set (\<Inter>(h, v) \<in> set conditions. set (pull_column engines (owner_of h) h v))"
proof -
  define g where "g = shard_pull_raw owner_of self_peer pull (pull_column engines)"
  have g: "g h v = pull_column engines (owner_of h) h v" for h v
    unfolding g_def by (rule shard_router.same_answer[OF assms(2-4)])
  define sets where "sets = sort_key length (map (\<lambda>(h, v). remdups_adj (sort (g h v))) conditions)"
  have S: "set sets = (\<lambda>(h, v). remdups_adj (sort (g h v))) ` set conditions" by (simp add: sets_def)
  have ok: "\<forall>s \<in> set sets. sorted s \<and> distinct s" unfolding S using sort_dedup by fastforce
  have ne: "sets \<noteq> []" using assms(1) S by (metis image_is_empty set_empty)
  have "intersect_all (hd sets) (tl sets) = sorted_list_of_set (\<Inter>s \<in> set sets. set s)"
    using intersect_all_spec[of "hd sets" "tl sets"] ok ne by (cases sets) auto
  also have "(\<Inter>s \<in> set sets. set s) = (\<Inter>(h, v) \<in> set conditions. set (pull_column engines (owner_of h) h v))"
    unfolding S using sort_dedup by (auto simp: g split_beta)
  finally show ?thesis using assms(1) by (simp add: shard_query_def sets_def[symmetric] g_def[symmetric])
qed

lemma eid_peer_tagged: "e \<in> set (pull_column engines p h v) \<Longrightarrow> eid_peer e = p"
  by (auto simp: pull_column_def tag_peer_def eid_split_join_bits split: option.splits)

lemma tagged_hits:
  "map_of engines p = Some pull \<Longrightarrow>
     e \<in> set (pull_column engines p h v) \<longleftrightarrow> eid_peer e = p \<and> eid_local e \<in> ucast ` set (pull h v)"
  by (auto simp: pull_column_def tag_peer_def eid_split_join_bits image_iff) (metis eid_split_join_bits(3))

lemma one_owner_hits:
  assumes "conditions \<noteq> []" "\<forall>(h, v) \<in> set conditions. owner_of h = p" "map_of engines p = Some remote"
  shows "(\<Inter>(h, v) \<in> set conditions. set (pull_column engines (owner_of h) h v)) =
    {e. eid_peer e = p \<and> (\<forall>(h, v) \<in> set conditions. eid_local e \<in> ucast ` set (remote h v))}"
proof -
  have "e \<in> (\<Inter>(h, v) \<in> set conditions. set (pull_column engines (owner_of h) h v)) \<longleftrightarrow>
      (\<forall>(h, v) \<in> set conditions. e \<in> set (pull_column engines p h v))" for e
    using assms(2) by (auto simp: split_beta)
  moreover have "(\<forall>(h, v) \<in> set conditions. eid_peer e = p \<and> eid_local e \<in> ucast ` set (remote h v)) \<longleftrightarrow>
      eid_peer e = p \<and> (\<forall>(h, v) \<in> set conditions. eid_local e \<in> ucast ` set (remote h v))" for e
    using assms(1) by (cases conditions) (auto simp: split_beta simp del: image_iff)
  ultimately show ?thesis
    unfolding tagged_hits[OF assms(3)] by (intro set_eqI) (simp only: mem_Collect_eq)
qed

lemma two_owners_no_hits:
  assumes "(h, v) \<in> set conditions" "(h', v') \<in> set conditions" "owner_of h \<noteq> owner_of h'"
  shows "(\<Inter>(h, v) \<in> set conditions. set (pull_column engines (owner_of h) h v)) = {}"
proof (rule equals0I)
  fix e assume "e \<in> (\<Inter>(h, v) \<in> set conditions. set (pull_column engines (owner_of h) h v))"
  then have "e \<in> set (pull_column engines (owner_of h) h v)" "e \<in> set (pull_column engines (owner_of h') h' v')"
    using assms(1,2) by auto
  then show False using assms(3) eid_peer_tagged by metis
qed

section \<open>Properties\<close>

text \<open>
  C32. Whichever peer of the cluster asks, a query whose columns all belong to one peer, the
  asking peer or another one behind the transport, returns exactly the entities that this
  owner reports for every condition, named by the owner's id and their number there, ascending
  and once. A query over columns of two different owners always returns nothing, even where
  both owners report the same number: the ids carry the owner that reported them.
\<close>

theorem shard_query_exact:
  assumes "conditions \<noteq> []" "shard_router owner_of peers"
    and "\<forall>p \<in> set peers. map_of engines p \<noteq> None" "map_of engines self_peer = Some pull"
    and "hits = shard_query (shard_pull_raw owner_of self_peer pull (pull_column engines)) conditions"
  shows "sorted hits \<and> distinct hits \<and>
    (\<forall>p remote. (\<forall>(h, v) \<in> set conditions. owner_of h = p) \<and> map_of engines p = Some remote \<longrightarrow>
      set hits = {e. eid_peer e = p \<and> (\<forall>(h, v) \<in> set conditions. eid_local e \<in> ucast ` set (remote h v))}) \<and>
    ((\<exists>(h, v) \<in> set conditions. \<exists>(h', v') \<in> set conditions. owner_of h \<noteq> owner_of h') \<longrightarrow> hits = [])"
proof -
  have fin: "finite (\<Inter>(h, v) \<in> set conditions. set (pull_column engines (owner_of h) h v))"
    using assms(1) by (cases conditions) auto
  note hits = assms(5)[unfolded shard_query_intersects[OF assms(1-4)]]
  show ?thesis
  proof (intro conjI allI impI)
    show "sorted hits" "distinct hits" by (simp_all add: hits)
    show "set hits = {e. eid_peer e = p \<and> (\<forall>(h, v) \<in> set conditions. eid_local e \<in> ucast ` set (remote h v))}"
      if q: "(\<forall>(h, v) \<in> set conditions. owner_of h = p) \<and> map_of engines p = Some remote" for p remote
      unfolding hits set_sorted_list_of_set[OF fin] using q assms(1) by (elim conjE) (rule one_owner_hits)
    show "hits = []" if q: "\<exists>(h, v) \<in> set conditions. \<exists>(h', v') \<in> set conditions. owner_of h \<noteq> owner_of h'"
    proof -
      obtain h v h' v' where "(h, v) \<in> set conditions" "(h', v') \<in> set conditions" "owner_of h \<noteq> owner_of h'"
        using q by auto
      from two_owners_no_hits[OF this] show ?thesis unfolding hits by (simp only: sorted_list_of_set_empty)
    qed
  qed
qed

definition demo_pull :: "u64 list \<Rightarrow> column_pull" where
  "demo_pull es himo value = (if value = 5 then es else [])"

text \<open>
  Two peers: 8 owns the columns 1 and 2, 7 owns the rest. Peer 7 asks: its query over the
  columns of peer 8 comes back over the transport, its query over columns 1 and 3 is empty
  although both owners report the entity 3.
\<close>

theorem shard_query_exact_witness:
  "let owner_of = explicit_owner_of (explicit_router_new [([1], 8), ([2], 8)] 7);
       ask = shard_pull_raw owner_of 7 (demo_pull [3]) (pull_column [(7, demo_pull [3]), (8, demo_pull [3, 1, 3])])
   in set (shard_query ask [([1], 5), ([2], 5)]) = {make_eid 8 1, make_eid 8 3} \<and>
      shard_query ask [([1], 5), ([3], 5)] = [] \<and> ask [3] 5 = [make_eid 7 3]"
proof -
  let ?r = "explicit_router_new [([1], 8), ([2], 8)] 7" and ?e = "[(7, demo_pull [3]), (8, demo_pull [3, 1, 3])]"
  have p: "\<forall>p \<in> set (er_peers ?r). map_of ?e p \<noteq> None" by (auto simp: explicit_router_new_def)
  have owners: "explicit_owner_of ?r [1] = 8" "explicit_owner_of ?r [2] = 8" "explicit_owner_of ?r [3] = 7"
    by (simp_all add: explicit_owner_of_def explicit_router_new_def)
  have nums: "(ucast (1 :: u64) :: u32) = 1" "(ucast (3 :: u64) :: u32) = 3" by simp_all
  have made: "{e. eid_peer e = 8 \<and> (eid_local e = 3 \<or> eid_local e = 1 \<or> eid_local e = 3)} = {make_eid 8 1, make_eid 8 3}"
    by (auto simp: eid_split_join_bits) (metis eid_split_join_bits(3))+
  note ask = shard_query_exact[OF _ explicit_router_ok p _ refl, of _ 7 "demo_pull [3]"]
  show ?thesis
    using ask[of "[([1], 5), ([2], 5)]"] ask[of "[([1], 5), ([3], 5)]"] made
    by (simp add: Let_def owners demo_pull_def nums shard_pull_raw_def tag_peer_def) blast
qed

end
