(* ===== verification/Row_Lock.thy ===== *)
theory Row_Lock
  imports Prelude
begin

text \<open>
  The row locks (\<^verbatim>\<open>crates/enchudb-engine/src/row_lock.rs\<close>). A row belongs to a stripe; the first
  section models which one, with the separate stripes of the engine's internal tables. The
  second models one stripe as a step relation: every atomic operation is one step, and the
  steps of any number of writers, of readers that read between two looks at the version, and
  of readers that lock before the writers interleave in any order. The orderings of the weak memory model are
  not part of it. The version is a 64-bit word that wraps; \<^verbatim>\<open>rs_bumps\<close> counts its changes.
\<close>

section \<open>Stripes\<close>

abbreviation STRIPES :: nat where
  "STRIPES \<equiv> 4096"

abbreviation INTERNAL_STRIPES :: nat where
  "INTERNAL_STRIPES \<equiv> 256"

abbreviation INTERNAL_RANGES :: nat where
  "INTERNAL_RANGES \<equiv> 16"

record row_ranges =
  rr_internal :: "u64 list"
  rr_internal_len :: nat
  rr_more_internal :: "(u32 \<times> u32) list"

definition row_locks_new :: row_ranges where
  "row_locks_new = \<lparr>rr_internal = replicate INTERNAL_RANGES 0, rr_internal_len = 0, rr_more_internal = []\<rparr>"

definition range_unpack :: "u64 \<Rightarrow> u32 \<times> u32" where
  "range_unpack r = (ucast (drop_bit 32 r), ucast r)"

definition range_pack :: "u32 \<Rightarrow> u32 \<Rightarrow> u64" where
  "range_pack lo hi = push_bit 32 (ucast lo) OR ucast hi"

definition fixed_ranges :: "row_ranges \<Rightarrow> (u32 \<times> u32) list" where
  "fixed_ranges rr = map range_unpack (take (min (rr_internal_len rr) INTERNAL_RANGES) (rr_internal rr))"

definition add_internal_range :: "u32 \<Rightarrow> u32 \<Rightarrow> row_ranges \<Rightarrow> row_ranges" where
  "add_internal_range lo hi rr =
     (let n = rr_internal_len rr
      in if lo \<ge> hi \<or> (lo, hi) \<in> set (fixed_ranges rr @ rr_more_internal rr) then rr
         else (if n < INTERNAL_RANGES then rr\<lparr>rr_internal := (rr_internal rr)[n := range_pack lo hi]\<rparr>
               else rr\<lparr>rr_more_internal := rr_more_internal rr @ [(lo, hi)]\<rparr>)\<lparr>rr_internal_len := n + 1\<rparr>)"

definition is_internal :: "row_ranges \<Rightarrow> u32 \<Rightarrow> bool" where
  "is_internal rr local \<longleftrightarrow>
     (let n = rr_internal_len rr; inside = (\<lambda>(lo, hi). local \<ge> lo \<and> local < hi)
      in n \<noteq> 0 \<and> (list_ex inside (fixed_ranges rr) \<or> (n > INTERNAL_RANGES \<and> list_ex inside (rr_more_internal rr))))"

definition stripe_of :: "row_ranges \<Rightarrow> u32 \<Rightarrow> nat" where
  "stripe_of rr local = (if is_internal rr local then STRIPES + unat (local AND 255) else unat (local AND 4095))"

section \<open>One stripe\<close>

record stripe =
  st_ver :: u64
  st_owner :: nat
  st_urgent :: u32

text \<open>Where a thread is. The flag of the first states says that the thread is a reader that locks
  before the writers; \<^verbatim>\<open>Reading v acc\<close> has read the cells \<^verbatim>\<open>acc\<close> since it saw version \<^verbatim>\<open>v\<close>.\<close>

datatype row_thread = Idle | Want bool | Loaded bool u64 | Ready bool u64 | Owned bool | Holding | Releasing |
  Reading u64 "u64 list" | Got "u64 list"

record row_state =
  rs_stripe :: stripe
  rs_cells :: "u64 list"
  rs_threads :: "row_thread list"
  rs_bumps :: nat

definition ver_odd :: "u64 \<Rightarrow> bool" where
  "ver_odd v \<longleftrightarrow> v AND 1 = 1"

text \<open>The token of a thread is its number plus one; 0 is nobody's.\<close>

definition held_by :: "nat \<Rightarrow> row_state \<Rightarrow> bool" where
  "held_by t s \<longleftrightarrow> ver_odd (st_ver (rs_stripe s)) \<and> st_owner (rs_stripe s) = t + 1"

definition goto :: "nat \<Rightarrow> row_thread \<Rightarrow> row_state \<Rightarrow> row_state" where
  "goto t p s = s\<lparr>rs_threads := (rs_threads s)[t := p]\<rparr>"

definition bump :: "row_state \<Rightarrow> row_state" where
  "bump s = s\<lparr>rs_stripe := (rs_stripe s)\<lparr>st_ver := st_ver (rs_stripe s) + 1\<rparr>, rs_bumps := rs_bumps s + 1\<rparr>"

definition add_urgent :: "u32 \<Rightarrow> row_state \<Rightarrow> row_state" where
  "add_urgent d s = s\<lparr>rs_stripe := (rs_stripe s)\<lparr>st_urgent := st_urgent (rs_stripe s) + d\<rparr>\<rparr>"

definition set_owner :: "nat \<Rightarrow> row_state \<Rightarrow> row_state" where
  "set_owner k s = s\<lparr>rs_stripe := (rs_stripe s)\<lparr>st_owner := k\<rparr>\<rparr>"

definition row_new :: "nat \<Rightarrow> u64 list \<Rightarrow> row_state" where
  "row_new n cells = \<lparr>rs_stripe = \<lparr>st_ver = 0, st_owner = 0, st_urgent = 0\<rparr>, rs_cells = cells, rs_threads = replicate n Idle, rs_bumps = 0\<rparr>"

abbreviation at_pc :: "row_state \<Rightarrow> nat \<Rightarrow> row_thread \<Rightarrow> bool" where
  "at_pc s t p \<equiv> t < length (rs_threads s) \<and> rs_threads s ! t = p"

inductive row_step :: "row_state \<Rightarrow> row_state \<Rightarrow> bool" where
  want: "at_pc s t Idle \<Longrightarrow> row_step s (goto t (Want False) s)"
| want_urgent: "at_pc s t Idle \<Longrightarrow> row_step s (goto t (Want True) (add_urgent 1 s))"
| load: "at_pc s t (Want u) \<Longrightarrow> \<not> ver_odd (st_ver (rs_stripe s)) \<Longrightarrow> row_step s (goto t (Loaded u (st_ver (rs_stripe s))) s)"
| spin: "at_pc s t (Want u) \<Longrightarrow> ver_odd (st_ver (rs_stripe s)) \<Longrightarrow> row_step s s"
| check: "at_pc s t (Loaded u v) \<Longrightarrow>
    row_step s (goto t (if \<not> u \<and> st_urgent (rs_stripe s) \<noteq> 0 then Want u else Ready u v) s)"
| cas: "at_pc s t (Ready u v) \<Longrightarrow> st_ver (rs_stripe s) = v \<Longrightarrow> row_step s (goto t (Owned u) (bump s))"
| cas_failed: "at_pc s t (Ready u v) \<Longrightarrow> row_step s (goto t (Want u) s)"
| calm: "at_pc s t (Owned True) \<Longrightarrow> row_step s (goto t (Owned False) (add_urgent (- 1) s))"
| own: "at_pc s t (Owned False) \<Longrightarrow> row_step s (goto t Holding (set_owner (t + 1) s))"
| write_cell: "at_pc s t Holding \<Longrightarrow> j < length (rs_cells s) \<Longrightarrow> row_step s (s\<lparr>rs_cells := (rs_cells s)[j := x]\<rparr>)"
| disown: "at_pc s t Holding \<Longrightarrow> row_step s (goto t Releasing (set_owner 0 s))"
| release: "at_pc s t Releasing \<Longrightarrow> row_step s (goto t Idle (bump s))"
| read_start: "at_pc s t Idle \<Longrightarrow> \<not> ver_odd (st_ver (rs_stripe s)) \<Longrightarrow> row_step s (goto t (Reading (st_ver (rs_stripe s)) []) s)"
| read_cell: "at_pc s t (Reading v acc) \<Longrightarrow> length acc < length (rs_cells s) \<Longrightarrow>
    row_step s (goto t (Reading v (acc @ [rs_cells s ! length acc])) s)"
| read_ok: "at_pc s t (Reading v acc) \<Longrightarrow> length acc = length (rs_cells s) \<Longrightarrow> st_ver (rs_stripe s) = v \<Longrightarrow> row_step s (goto t (Got acc) s)"
| read_again: "at_pc s t (Reading v acc) \<Longrightarrow> st_ver (rs_stripe s) \<noteq> v \<Longrightarrow> row_step s (goto t Idle s)"
| return: "at_pc s t (Got acc) \<Longrightarrow> row_step s (goto t Idle s)"

inductive row_reach :: "nat \<Rightarrow> u64 list \<Rightarrow> row_state \<Rightarrow> bool" for n cells where
  start: "row_reach n cells (row_new n cells)"
| step: "row_reach n cells s \<Longrightarrow> row_step s s' \<Longrightarrow> row_reach n cells s'"

section \<open>The invariant\<close>

fun inside :: "row_thread \<Rightarrow> bool" where
  "inside (Owned u) \<longleftrightarrow> True"
| "inside Holding \<longleftrightarrow> True"
| "inside Releasing \<longleftrightarrow> True"
| "inside _ \<longleftrightarrow> False"

text \<open>The one thread that may be inside, if the number of version changes is odd.\<close>

definition writer_ok :: "row_state \<Rightarrow> bool" where
  "writer_ok s \<longleftrightarrow> (if even (rs_bumps s) then \<forall>t < length (rs_threads s). \<not> inside (rs_threads s ! t)
     else \<exists>t < length (rs_threads s). \<forall>t' < length (rs_threads s). inside (rs_threads s ! t') \<longleftrightarrow> t' = t)"

definition owner_ok :: "row_state \<Rightarrow> bool" where
  "owner_ok s \<longleftrightarrow> (\<forall>t < length (rs_threads s). st_owner (rs_stripe s) = t + 1 \<longleftrightarrow> rs_threads s ! t = Holding) \<and>
     st_owner (rs_stripe s) \<le> length (rs_threads s)"

fun thread_ok :: "nat \<Rightarrow> u64 list \<Rightarrow> row_thread \<Rightarrow> bool" where
  "thread_ok n cells (Loaded u v) \<longleftrightarrow> \<not> ver_odd v"
| "thread_ok n cells (Ready u v) \<longleftrightarrow> \<not> ver_odd v"
| "thread_ok n cells (Reading v acc) \<longleftrightarrow> (\<exists>k \<le> n. even k \<and> v = word_of_nat k \<and> (k = n \<longrightarrow> acc = take (length acc) cells)) \<and> length acc \<le> length cells"
| "thread_ok n cells _ \<longleftrightarrow> True"

definition row_inv :: "row_state \<Rightarrow> bool" where
  "row_inv s \<longleftrightarrow> st_ver (rs_stripe s) = word_of_nat (rs_bumps s) \<and> writer_ok s \<and> owner_ok s \<and>
     (\<forall>t < length (rs_threads s). thread_ok (rs_bumps s) (rs_cells s) (rs_threads s ! t))"

lemma ver_odd_of_nat: "ver_odd (word_of_nat k) \<longleftrightarrow> odd k"
  unfolding ver_odd_def and_one_eq by (simp add: odd_iff_mod_2_eq_one[symmetric])

lemmas row_defs = row_inv_def writer_ok_def owner_ok_def goto_def bump_def add_urgent_def set_owner_def

lemma urgent_inv: "row_inv (add_urgent d s) = row_inv s" "rs_threads (add_urgent d s) = rs_threads s"
  "rs_bumps (add_urgent d s) = rs_bumps s" "rs_cells (add_urgent d s) = rs_cells s"
  by (simp_all add: row_defs)

lemma row_invD:
  assumes "row_inv s" "t < length (rs_threads s)"
  shows "thread_ok (rs_bumps s) (rs_cells s) (rs_threads s ! t)" "inside (rs_threads s ! t) \<Longrightarrow> odd (rs_bumps s)"
    "inside (rs_threads s ! t) \<Longrightarrow> t' < length (rs_threads s) \<Longrightarrow> inside (rs_threads s ! t') \<Longrightarrow> t' = t"
  using assms by (auto simp: row_inv_def writer_ok_def split: if_splits)

lemma even_ver: "row_inv s \<Longrightarrow> ver_odd (st_ver (rs_stripe s)) \<longleftrightarrow> odd (rs_bumps s)"
  by (simp add: row_inv_def ver_odd_of_nat)

text \<open>A thread that is outside and stays outside.\<close>

lemma moves_outside:
  assumes inv: "row_inv s" and t: "t < length (rs_threads s)"
    and p: "\<not> inside (rs_threads s ! t)" "\<not> inside q" "thread_ok (rs_bumps s) (rs_cells s) q"
  shows "row_inv (goto t q s)"
proof -
  have "inside ((rs_threads s)[t := q] ! t') \<longleftrightarrow> inside (rs_threads s ! t')" if "t' < length (rs_threads s)" for t'
    using that p by (cases "t' = t") simp_all
  then have w: "writer_ok (goto t q s)" using inv by (auto simp: row_inv_def writer_ok_def goto_def)
  have "(rs_threads s)[t := q] ! t' = Holding \<longleftrightarrow> rs_threads s ! t' = Holding" if "t' < length (rs_threads s)" for t'
    using that p by (cases "t' = t") auto
  then have "owner_ok (goto t q s)" using inv by (simp add: row_inv_def owner_ok_def goto_def)
  then show ?thesis using inv t w p(3) by (simp add: row_inv_def goto_def nth_list_update)
qed

text \<open>The thread that is inside and stays inside.\<close>

lemma moves_inside:
  assumes inv: "row_inv s" and t: "t < length (rs_threads s)" and p: "inside (rs_threads s ! t)" "inside q" "k = (if q = Holding then t + 1 else 0)"
  shows "row_inv (goto t q (set_owner k s))"
proof -
  have "inside ((rs_threads s)[t := q] ! t') \<longleftrightarrow> inside (rs_threads s ! t')" if "t' < length (rs_threads s)" for t'
    using that p by (cases "t' = t") simp_all
  then have "writer_ok (goto t q (set_owner k s))" using inv by (auto simp: row_defs)
  moreover have "rs_threads s ! t' \<noteq> Holding" if "t' < length (rs_threads s)" "t' \<noteq> t" for t'
    using row_invD(3)[OF inv t p(1) that(1)] that(2) by auto
  then have "owner_ok (goto t q (set_owner k s))" using p(3) t by (auto simp: owner_ok_def goto_def set_owner_def nth_list_update)
  moreover have "thread_ok n c q" for n c using p(2) by (cases q) auto
  ultimately show ?thesis using inv t by (simp add: row_inv_def goto_def set_owner_def nth_list_update)
qed

lemma thread_ok_bump: "thread_ok n cells p \<Longrightarrow> thread_ok (Suc n) cells p"
  by (cases p) (auto intro: le_SucI)

lemma not_holding: "row_inv s \<Longrightarrow> (\<And>t. t < length (rs_threads s) \<Longrightarrow> rs_threads s ! t \<noteq> Holding) \<Longrightarrow> st_owner (rs_stripe s) = 0"
  by (auto simp: row_inv_def owner_ok_def) (metis Suc_le_eq Suc_pred not_gr_zero)

lemma enters:
  assumes inv: "row_inv s" and t: "t < length (rs_threads s)" and e: "even (rs_bumps s)"
  shows "row_inv (goto t (Owned u) (bump s))"
proof -
  have out: "\<not> inside (rs_threads s ! t')" if "t' < length (rs_threads s)" for t' using row_invD(2)[OF inv that] e by blast
  have "inside ((rs_threads s)[t := Owned u] ! t') \<longleftrightarrow> t' = t" if "t' < length (rs_threads s)" for t'
    using that out by (cases "t' = t") simp_all
  then have "writer_ok (goto t (Owned u) (bump s))" using e t by (auto simp: writer_ok_def goto_def bump_def)
  moreover have "st_owner (rs_stripe s) = 0" using not_holding[OF inv] out by force
  then have "owner_ok (goto t (Owned u) (bump s))" using out t by (auto simp: owner_ok_def goto_def bump_def nth_list_update) (metis inside.simps(2))
  ultimately show ?thesis using inv t thread_ok_bump by (simp add: row_inv_def goto_def bump_def nth_list_update add.commute)
qed

lemma leaves:
  assumes inv: "row_inv s" and t: "t < length (rs_threads s)" and r: "rs_threads s ! t = Releasing"
  shows "row_inv (goto t Idle (bump s))"
proof -
  have o: "odd (rs_bumps s)" using row_invD(2)[OF inv t] r by simp
  have out: "\<not> inside (rs_threads s ! t')" if "t' < length (rs_threads s)" "t' \<noteq> t" for t' using row_invD(3)[OF inv t _ that(1)] that(2) r by auto
  have "\<not> inside ((rs_threads s)[t := Idle] ! t')" if "t' < length (rs_threads s)" for t' using that out by (cases "t' = t") simp_all
  then have "writer_ok (goto t Idle (bump s))" using o by (simp add: writer_ok_def goto_def bump_def)
  moreover have "rs_threads s ! t' \<noteq> Holding" if "t' < length (rs_threads s)" for t' using out[OF that] r by (cases "t' = t") auto
  then have "owner_ok (goto t Idle (bump s))" using inv t by (simp add: row_inv_def owner_ok_def goto_def bump_def nth_list_update)
  ultimately show ?thesis using inv t thread_ok_bump by (simp add: row_inv_def goto_def bump_def nth_list_update add.commute)
qed

lemma writes:
  assumes inv: "row_inv s" and t: "t < length (rs_threads s)" "rs_threads s ! t = Holding"
  shows "row_inv (s\<lparr>rs_cells := (rs_cells s)[j := x]\<rparr>)"
proof -
  have o: "odd (rs_bumps s)" using row_invD(2)[OF inv t(1)] t(2) by simp
  have "thread_ok (rs_bumps s) ((rs_cells s)[j := x]) p" if "thread_ok (rs_bumps s) (rs_cells s) p" for p
    using that o by (cases p) auto
  then show ?thesis using inv by (simp add: row_inv_def writer_ok_def owner_ok_def)
qed

lemma row_step_inv: "row_step s s' \<Longrightarrow> row_inv s \<Longrightarrow> row_inv s'"
proof (induction rule: row_step.induct)
  case (want_urgent s t)
  then show ?case using moves_outside[of "add_urgent 1 s" t "Want True"] by (simp add: urgent_inv)
next
  case (check s t u v)
  then show ?case using row_invD(1)[of s t] by (intro moves_outside) (auto split: if_splits)
next
  case (cas s t u v)
  have "\<not> ver_odd v" using row_invD(1)[OF cas(3), of t] cas(1) by simp
  then have "even (rs_bumps s)" using cas(2) even_ver[OF cas(3)] by simp
  then show ?case using cas by (simp add: enters)
next
  case (calm s t)
  have "st_owner (rs_stripe s) = 0"
    by (rule not_holding[OF calm(2)]) (use row_invD(3)[OF calm(2), of t] calm(1) in force)
  then have "set_owner 0 (add_urgent (- 1) s) = add_urgent (- 1) s" by (simp add: set_owner_def add_urgent_def)
  then show ?case using moves_inside[of "add_urgent (- 1) s" t "Owned False" 0] calm by (simp add: urgent_inv)
next
  case (own s t)
  then show ?case by (intro moves_inside) simp_all
next
  case (disown s t)
  then show ?case by (intro moves_inside) simp_all
next
  case (write_cell s t j x)
  then show ?case using writes by blast
next
  case (release s t)
  then show ?case by (simp add: leaves)
next
  case (read_cell s t v acc)
  have "thread_ok (rs_bumps s) (rs_cells s) (Reading v acc)" using row_invD(1)[OF read_cell(3), of t] read_cell(1) by simp
  then have "thread_ok (rs_bumps s) (rs_cells s) (Reading v (acc @ [rs_cells s ! length acc]))"
    using read_cell(2) by (auto simp: take_Suc_conv_app_nth)
  then show ?case using read_cell by (intro moves_outside) simp_all
next
  case (read_start s t)
  then have "thread_ok (rs_bumps s) (rs_cells s) (Reading (st_ver (rs_stripe s)) [])"
    using even_ver[OF read_start(3)] by (auto simp: row_inv_def)
  then show ?case using read_start by (intro moves_outside) simp_all
qed (auto intro!: moves_outside)

lemma row_reach_inv: "row_reach n cells s \<Longrightarrow> row_inv s \<and> length (rs_threads s) = n \<and> length (rs_cells s) = length cells"
proof (induction rule: row_reach.induct)
  case start
  then show ?case by (simp add: row_inv_def row_new_def writer_ok_def owner_ok_def)
next
  case (step s s')
  moreover have "length (rs_threads s') = length (rs_threads s) \<and> length (rs_cells s') = length (rs_cells s)"
    using step(2) by cases (simp_all add: goto_def bump_def add_urgent_def set_owner_def)
  ultimately show ?case using row_step_inv by simp
qed

section \<open>Internal ranges\<close>

definition all_ranges :: "row_ranges \<Rightarrow> (u32 \<times> u32) list" where
  "all_ranges rr = fixed_ranges rr @ rr_more_internal rr"

definition ranges_ok :: "row_ranges \<Rightarrow> bool" where
  "ranges_ok rr \<longleftrightarrow> length (rr_internal rr) = INTERNAL_RANGES \<and> rr_internal_len rr = length (all_ranges rr) \<and>
     (rr_internal_len rr \<le> INTERNAL_RANGES \<longrightarrow> rr_more_internal rr = [])"

lemma range_roundtrip: "range_unpack (range_pack lo hi) = (lo, hi)"
proof -
  have "ucast (drop_bit 32 (push_bit 32 (ucast lo) OR ucast hi :: u64)) = lo" by (rule bit_eqI) (auto simp: bit_simps dest: bit_imp_le_length)
  moreover have "ucast (push_bit 32 (ucast lo) OR ucast hi :: u64) = hi" by (rule bit_eqI) (auto simp: bit_simps dest: bit_imp_le_length)
  ultimately show ?thesis by (simp add: range_unpack_def range_pack_def)
qed

lemma add_range_spec:
  assumes ok: "ranges_ok rr"
  shows "ranges_ok (add_internal_range lo hi rr)"
    "set (all_ranges (add_internal_range lo hi rr)) = set (all_ranges rr) \<union> (if lo < hi then {(lo, hi)} else {})"
proof -
  let ?n = "rr_internal_len rr"
  have "ranges_ok (add_internal_range lo hi rr) \<and>
    set (all_ranges (add_internal_range lo hi rr)) = set (all_ranges rr) \<union> (if lo < hi then {(lo, hi)} else {})"
  proof (cases "lo \<ge> hi \<or> (lo, hi) \<in> set (fixed_ranges rr @ rr_more_internal rr)")
    case True
    then have "add_internal_range lo hi rr = rr" by (simp add: add_internal_range_def Let_def)
    then show ?thesis using True ok by (auto simp: all_ranges_def not_le)
  next
    case False
    have "all_ranges (add_internal_range lo hi rr) = all_ranges rr @ [(lo, hi)]"
    proof (cases "?n < INTERNAL_RANGES")
      case True
      have "take (Suc ?n) ((rr_internal rr)[?n := range_pack lo hi]) = take ?n (rr_internal rr) @ [range_pack lo hi]"
        using True ok by (simp add: ranges_ok_def take_Suc_conv_app_nth)
      then show ?thesis
        using True False ok by (simp add: add_internal_range_def all_ranges_def fixed_ranges_def ranges_ok_def Let_def range_roundtrip min_absorb1)
    next
      case f: False
      then have "min (Suc ?n) INTERNAL_RANGES = min ?n INTERNAL_RANGES" by simp
      then show ?thesis using f False by (simp add: add_internal_range_def all_ranges_def fixed_ranges_def Let_def)
    qed
    moreover from this have "ranges_ok (add_internal_range lo hi rr)"
      using False ok by (auto simp: ranges_ok_def add_internal_range_def Let_def)
    ultimately show ?thesis using False by auto
  qed
  then show "ranges_ok (add_internal_range lo hi rr)"
    "set (all_ranges (add_internal_range lo hi rr)) = set (all_ranges rr) \<union> (if lo < hi then {(lo, hi)} else {})" by simp_all
qed

lemma is_internal_iff: "ranges_ok rr \<Longrightarrow> is_internal rr local \<longleftrightarrow> (\<exists>(lo, hi) \<in> set (all_ranges rr). lo \<le> local \<and> local < hi)"
  by (cases "INTERNAL_RANGES < rr_internal_len rr") (auto simp: is_internal_def Let_def all_ranges_def ranges_ok_def list_ex_iff)

lemma added_ranges:
  "ranges_ok rr \<Longrightarrow> ranges_ok (fold (\<lambda>(lo, hi). add_internal_range lo hi) rs rr) \<and>
    set (all_ranges (fold (\<lambda>(lo, hi). add_internal_range lo hi) rs rr)) = set (all_ranges rr) \<union> {(lo, hi) \<in> set rs. lo < hi}"
proof (induction rs arbitrary: rr)
  case (Cons r rs)
  obtain lo hi where "r = (lo, hi)" by fastforce
  then show ?case using Cons.IH[OF add_range_spec(1)[OF Cons.prems, of lo hi]] add_range_spec(2)[OF Cons.prems, of lo hi] by auto
qed auto

lemma new_ranges: "ranges_ok row_locks_new" "all_ranges row_locks_new = []"
  by (simp_all add: ranges_ok_def row_locks_new_def all_ranges_def fixed_ranges_def)

section \<open>Properties\<close>

text \<open>
  C27. A row has one writer at a time: of all the threads at most one is between taking and
  releasing the stripe, and the test by which a thread recognises that it already holds the
  stripe is true for exactly the thread that holds it.
\<close>

theorem one_writer_per_stripe:
  assumes "row_reach n cells s" "t < n" "inside (rs_threads s ! t)"
  shows "(\<forall>t' < n. inside (rs_threads s ! t') \<longrightarrow> t' = t) \<and> (\<forall>t' < n. held_by t' s \<longleftrightarrow> rs_threads s ! t' = Holding)"
proof -
  have r: "row_inv s" "length (rs_threads s) = n" using row_reach_inv[OF assms(1)] by simp_all
  have "odd (rs_bumps s)" using row_invD(2)[OF r(1), of t] assms(2,3) r(2) by simp
  then have "held_by t' s \<longleftrightarrow> rs_threads s ! t' = Holding" if "t' < n" for t'
    using r that by (auto simp: held_by_def row_inv_def owner_ok_def ver_odd_of_nat)
  then show ?thesis using row_invD(3)[OF r(1), of t] assms(2,3) r(2) by blast
qed

lemma demo_holder: "row_reach 2 [5] (goto 0 Holding (set_owner 1 (goto 0 (Owned False) (bump (goto 0 (Ready False 0) (goto 0 (Loaded False 0) (goto 0 (Want False) (row_new 2 [5]))))))))"
  (is "row_reach 2 [5] ?s")
proof -
  let ?sa = "row_new 2 [5]"
  let ?sb = "goto 0 (Want False) ?sa" let ?sc = "goto 0 (Loaded False 0) ?sb" let ?sd = "goto 0 (Ready False 0) ?sc"
  have "row_step ?sa ?sb" by (rule want) (simp add: row_new_def)
  moreover have "row_step ?sb ?sc" using load[where s = ?sb and t = 0 and u = False] by (simp add: row_new_def goto_def ver_odd_def)
  moreover have "row_step ?sc ?sd" using check[where s = ?sc and t = 0 and u = False and v = 0] by (simp add: row_new_def goto_def)
  moreover have "row_step ?sd (goto 0 (Owned False) (bump ?sd))" using cas[where s = ?sd and t = 0 and u = False and v = 0] by (simp add: row_new_def goto_def)
  moreover have "row_step (goto 0 (Owned False) (bump ?sd)) ?s" using own[where s = "goto 0 (Owned False) (bump ?sd)" and t = 0] by (simp add: row_new_def goto_def bump_def)
  ultimately show ?thesis by (meson row_reach.intros)
qed

theorem one_writer_per_stripe_witness:
  "\<exists>s. row_reach 2 [5] s \<and> held_by 0 s \<and> \<not> held_by 1 s \<and> \<not> inside (rs_threads s ! 1)"
proof -
  let ?s = "goto 0 Holding (set_owner 1 (goto 0 (Owned False) (bump (goto 0 (Ready False 0) (goto 0 (Loaded False 0) (goto 0 (Want False) (row_new 2 [5])))))))"
  have h: "rs_threads ?s = [Holding, Idle]" by (simp add: goto_def set_owner_def bump_def row_new_def numeral_2_eq_2)
  then show ?thesis using one_writer_per_stripe[OF demo_holder, of 0] demo_holder by (intro exI[of _ ?s]) auto
qed

text \<open>
  C26. A read that is accepted is a snapshot: when a reader finds the version it started from, the
  cells it collected one by one are the cells of the row as they are now, and no writer is
  inside, as long as the version has changed fewer than \<open>2\<^sup>64\<close> times.
\<close>

theorem accepted_read_is_snapshot:
  assumes "row_reach n cells s" "t < n" "rs_threads s ! t = Reading v acc" "length acc = length (rs_cells s)"
    "st_ver (rs_stripe s) = v" "rs_bumps s < 2 ^ 64"
  shows "acc = rs_cells s \<and> (\<forall>t' < n. \<not> inside (rs_threads s ! t'))"
proof -
  have r: "row_inv s" "length (rs_threads s) = n" using row_reach_inv[OF assms(1)] by simp_all
  obtain k where k: "k \<le> rs_bumps s" "even k" "v = word_of_nat k" "k = rs_bumps s \<longrightarrow> acc = take (length acc) (rs_cells s)"
    using row_invD(1)[OF r(1), of t] assms(2,3) r(2) by auto
  have "(word_of_nat k :: u64) = word_of_nat (rs_bumps s)" using assms(5) k(3) r(1) by (simp add: row_inv_def)
  then have "unat (word_of_nat k :: u64) = unat (word_of_nat (rs_bumps s) :: u64)" by simp
  then have "k = rs_bumps s" using k(1) assms(6) by (simp add: unsigned_of_nat take_bit_nat_eq_self)
  then show ?thesis using k assms(4) r row_invD(2)[OF r(1)] by auto
qed

theorem accepted_read_is_snapshot_witness:
  "\<exists>s. row_reach 1 [5] s \<and> rs_threads s ! 0 = Reading 0 [5] \<and> rs_cells s = [5]"
proof -
  let ?sa = "row_new 1 [5]"
  let ?sb = "goto 0 (Reading 0 []) ?sa" let ?sc = "goto 0 (Reading 0 [5]) ?sb"
  have "row_step ?sa ?sb" using read_start[where s = ?sa and t = 0] by (simp add: row_new_def ver_odd_def)
  moreover have "row_step ?sb ?sc" using read_cell[where s = ?sb and t = 0 and v = 0 and acc = "[]"] by (simp add: row_new_def goto_def)
  ultimately have r: "row_reach 1 [5] ?sc" by (meson row_reach.intros)
  have "rs_threads ?sc ! 0 = Reading 0 [5]" "length [5 :: u64] = length (rs_cells ?sc)" "st_ver (rs_stripe ?sc) = 0" "rs_bumps ?sc < 2 ^ 64"
    by (simp_all add: goto_def row_new_def)
  then show ?thesis using accepted_read_is_snapshot[OF r, of 0 0 "[5]"] r by (intro exI[of _ ?sc]) auto
qed

text \<open>
  The rows of the internal tables never share a stripe with a user's row, and a row is taken
  as internal exactly when one of the ranges announced so far contains it, however many there were.
\<close>

theorem internal_rows_apart:
  fixes rs :: "(u32 \<times> u32) list"
  defines "rr \<equiv> fold (\<lambda>(lo, hi). add_internal_range lo hi) rs row_locks_new"
  shows "(is_internal rr a \<longleftrightarrow> (\<exists>(lo, hi) \<in> set rs. lo \<le> a \<and> a < hi)) \<and>
    (stripe_of rr a = stripe_of rr b \<longrightarrow> is_internal rr a = is_internal rr b) \<and> stripe_of rr a < STRIPES + INTERNAL_STRIPES"
proof -
  note a = added_ranges[OF new_ranges(1), of rs]
  have "unat (x AND 4095) < STRIPES" "unat (x AND 255) < INTERNAL_STRIPES" for x :: u32
  proof -
    have "x AND 4095 = take_bit 12 x" "x AND 255 = take_bit 8 x" by (simp_all add: take_bit_eq_mask mask_eq_exp_minus_1)
    then show "unat (x AND 4095) < STRIPES" "unat (x AND 255) < INTERNAL_STRIPES"
      using take_bit_nat_less_exp[of 12 "unat x"] take_bit_nat_less_exp[of 8 "unat x"] by (simp_all add: unsigned_take_bit_eq)
  qed
  from this(1) this(2)
  have "stripe_of rr x < STRIPES \<longleftrightarrow> \<not> is_internal rr x" "stripe_of rr x < STRIPES + INTERNAL_STRIPES" for x
    using less_trans[of "unat (x AND 4095)" STRIPES "STRIPES + INTERNAL_STRIPES"] by (auto simp: stripe_of_def)
  moreover have "is_internal rr a \<longleftrightarrow> (\<exists>(lo, hi) \<in> set rs. lo \<le> a \<and> a < hi)"
  proof -
    have "(\<exists>(lo, hi) \<in> {(lo, hi) \<in> set rs. lo < hi}. lo \<le> a \<and> a < hi) \<longleftrightarrow> (\<exists>(lo, hi) \<in> set rs. lo \<le> a \<and> a < hi)"
      using le_less_trans by fastforce
    then show ?thesis using is_internal_iff[of rr a] a new_ranges(2) unfolding rr_def by simp
  qed
  ultimately show ?thesis by metis
qed

end
