(* ===== verification/Write_Gate.thy ===== *)
theory Write_Gate
  imports Prelude
begin

text \<open>
  The gate of the writers of a column without an index (\<^verbatim>\<open>crates/enchudb-engine/src/write_gate.rs\<close>).
  A shard is one 32-bit word: its top bit says that the gate is closed, the other bits count the
  writers inside. Every atomic operation of the code is one step; the steps of the writers and
  of the one thread that closes (it holds the column's write lock) interleave in any order. The
  orderings of the weak memory model are not part of the model. The number of writers at a
  time is below \<^verbatim>\<open>2\<^sup>31\<close>.
\<close>

section \<open>Words with a flag in the top bit\<close>









section \<open>The gate\<close>

















section \<open>The invariant\<close>
















section \<open>Closing ends\<close>







section \<open>Properties\<close>






end
