(* ===== verification/Value_Locks.thy ===== *)
theory Value_Locks
  imports Prelude
begin

text \<open>
  The keys of the values of an indexed column (\<^verbatim>\<open>crates/enchudb-engine/src/value_locks.rs\<close>): 1024
  spin locks, of which a writer takes the one or two of its old and new value, or all, always in
  ascending order, and a reader tries one without waiting. Every atomic operation is one step of
  the step relation; the threads interleave in any order.
\<close>

section \<open>Which keys\<close>

abbreviation KEYS :: nat where
  "KEYS \<equiv> 1024"

definition key_of :: "u64 \<Rightarrow> nat" where
  "key_of v = unat (v AND 1023)"

definition lock_pair :: "u64 option \<Rightarrow> u64 option \<Rightarrow> nat list" where
  "lock_pair a b = (case (map_option key_of a, map_option key_of b) of
     (Some x, Some y) \<Rightarrow> if x = y then [x] else [min x y, max x y]
   | (Some x, None) \<Rightarrow> [x]
   | (None, Some y) \<Rightarrow> [y]
   | (None, None) \<Rightarrow> [])"

definition lock_all :: "nat list" where
  "lock_all = [0..<KEYS]"

section \<open>Threads\<close>

text \<open>A thread has keys still to take, in order, and the keys it holds.\<close>

record key_thread =
  kt_todo :: "nat list"
  kt_held :: "nat list"

record key_state =
  ks_keys :: "bool list"
  ks_threads :: "key_thread list"

definition keys_new :: "nat \<Rightarrow> key_state" where
  "keys_new n = \<lparr>ks_keys = replicate KEYS False, ks_threads = replicate n \<lparr>kt_todo = [], kt_held = []\<rparr>\<rparr>"

definition put_thread :: "nat \<Rightarrow> nat list \<Rightarrow> nat list \<Rightarrow> key_state \<Rightarrow> key_state" where
  "put_thread t todo held s = s\<lparr>ks_threads := (ks_threads s)[t := \<lparr>kt_todo = todo, kt_held = held\<rparr>]\<rparr>"

definition put_key :: "nat \<Rightarrow> bool \<Rightarrow> key_state \<Rightarrow> key_state" where
  "put_key i b s = s\<lparr>ks_keys := (ks_keys s)[i := b]\<rparr>"

abbreviation in_thread :: "key_state \<Rightarrow> nat \<Rightarrow> nat list \<Rightarrow> nat list \<Rightarrow> bool" where
  "in_thread s t todo held \<equiv> t < length (ks_threads s) \<and> ks_threads s ! t = \<lparr>kt_todo = todo, kt_held = held\<rparr>"

inductive key_step :: "key_state \<Rightarrow> key_state \<Rightarrow> bool" where
  pair: "in_thread s t [] [] \<Longrightarrow> key_step s (put_thread t (lock_pair a b) [] s)"
| all: "in_thread s t [] [] \<Longrightarrow> key_step s (put_thread t lock_all [] s)"
| try_lock: "in_thread s t [] [] \<Longrightarrow> \<not> ks_keys s ! key_of v \<Longrightarrow> key_step s (put_thread t [] [key_of v] (put_key (key_of v) True s))"
| try_failed: "in_thread s t [] [] \<Longrightarrow> ks_keys s ! key_of v \<Longrightarrow> key_step s s"
| lock_at: "in_thread s t (i # is) held \<Longrightarrow> \<not> ks_keys s ! i \<Longrightarrow> key_step s (put_thread t is (held @ [i]) (put_key i True s))"
| spin: "in_thread s t (i # is) held \<Longrightarrow> ks_keys s ! i \<Longrightarrow> key_step s s"
| unlock_at: "in_thread s t [] (held @ [i]) \<Longrightarrow> key_step s (put_thread t [] held (put_key i False s))"

text \<open>A step that gets a thread further: it takes or releases a key.\<close>

definition progress :: "key_state \<Rightarrow> bool" where
  "progress s \<longleftrightarrow> (\<exists>t todo held. in_thread s t todo held \<and>
     ((\<exists>i is. todo = i # is \<and> \<not> ks_keys s ! i) \<or> (todo = [] \<and> held \<noteq> [])))"

inductive key_reach :: "nat \<Rightarrow> key_state \<Rightarrow> bool" for n where
  start: "key_reach n (keys_new n)"
| step: "key_reach n s \<Longrightarrow> key_step s s' \<Longrightarrow> key_reach n s'"

section \<open>The invariant\<close>

definition thread_keys_ok :: "key_thread \<Rightarrow> bool" where
  "thread_keys_ok p \<longleftrightarrow> sorted_wrt (<) (kt_held p @ kt_todo p) \<and> (\<forall>i \<in> set (kt_held p @ kt_todo p). i < KEYS)"

definition keys_inv :: "key_state \<Rightarrow> bool" where
  "keys_inv s \<longleftrightarrow> length (ks_keys s) = KEYS \<and> (\<forall>p \<in> set (ks_threads s). thread_keys_ok p) \<and>
     (\<forall>i < KEYS. ks_keys s ! i \<longleftrightarrow> (\<exists>t < length (ks_threads s). i \<in> set (kt_held (ks_threads s ! t)))) \<and>
     (\<forall>t < length (ks_threads s). \<forall>t' < length (ks_threads s). t \<noteq> t' \<longrightarrow>
        set (kt_held (ks_threads s ! t)) \<inter> set (kt_held (ks_threads s ! t')) = {})"

lemma key_of_bound: "key_of v < KEYS"
proof -
  have "v AND 1023 = take_bit 10 v" by (simp add: take_bit_eq_mask mask_eq_exp_minus_1)
  then show ?thesis using take_bit_nat_less_exp[of 10 "unat v"] by (simp add: key_of_def unsigned_take_bit_eq)
qed

lemma plans_ok: "thread_keys_ok \<lparr>kt_todo = lock_pair a b, kt_held = []\<rparr>" "thread_keys_ok \<lparr>kt_todo = lock_all, kt_held = []\<rparr>"
  using key_of_bound by (auto simp: thread_keys_ok_def lock_pair_def lock_all_def min_def max_def split: option.splits)

lemma keys_invD:
  assumes "keys_inv s" "in_thread s t todo held"
  shows "sorted_wrt (<) (held @ todo)" "\<And>i. i \<in> set (held @ todo) \<Longrightarrow> i < KEYS" "length (ks_keys s) = KEYS"
    "\<And>i. i \<in> set held \<Longrightarrow> ks_keys s ! i"
proof -
  have "thread_keys_ok \<lparr>kt_todo = todo, kt_held = held\<rparr>" using assms by (metis keys_inv_def nth_mem)
  then show k: "sorted_wrt (<) (held @ todo)" "\<And>i. i \<in> set (held @ todo) \<Longrightarrow> i < KEYS" by (auto simp: thread_keys_ok_def)
  show "length (ks_keys s) = KEYS" using assms(1) by (simp add: keys_inv_def)
  show "ks_keys s ! i" if "i \<in> set held" for i using that k(2)[of i] assms by (auto simp: keys_inv_def) 
qed

text \<open>A thread changes its keys: the ones it holds change by one key, taken when it was free or given back.\<close>

lemma thread_changes:
  assumes inv: "keys_inv s" and t: "in_thread s t todo held" and ok: "thread_keys_ok \<lparr>kt_todo = todo', kt_held = held'\<rparr>"
    and k: "length keys = KEYS" "\<And>i. i < KEYS \<Longrightarrow> keys ! i \<longleftrightarrow> (if i \<in> set held \<union> set held' then i \<in> set held' else ks_keys s ! i)"
    and new: "\<And>i. i \<in> set held' \<Longrightarrow> i \<in> set held \<or> \<not> ks_keys s ! i"
  shows "keys_inv (put_thread t todo' held' (s\<lparr>ks_keys := keys\<rparr>))"
proof -
  let ?ts = "(ks_threads s)[t := \<lparr>kt_todo = todo', kt_held = held'\<rparr>]"
  have th: "kt_held (ks_threads s ! t) = held" using t by simp
  have oks: "\<forall>p \<in> set (ks_threads s). thread_keys_ok p" using inv by (simp add: keys_inv_def)
  then have "\<forall>p \<in> set ?ts. thread_keys_ok p" using ok set_update_subset_insert[of "ks_threads s" t] by fastforce
  moreover have own: "ks_keys s ! i \<longleftrightarrow> (\<exists>t < length (ks_threads s). i \<in> set (kt_held (ks_threads s ! t)))" if "i < KEYS" for i
    using inv that by (simp add: keys_inv_def)
  have bound: "i < KEYS" if "i \<in> set held'" for i using that ok by (auto simp: thread_keys_ok_def)
  have apart: "i \<notin> set (kt_held (ks_threads s ! t'))" if "t' < length (ks_threads s)" "t' \<noteq> t" "i \<in> set held \<union> set held'" for i t'
  proof
    assume i: "i \<in> set (kt_held (ks_threads s ! t'))"
    have "i \<notin> set held" using inv t that i th unfolding keys_inv_def by blast
    then have "\<not> ks_keys s ! i" "i < KEYS" using that(3) new[of i] bound by auto
    then show False using own[of i] i that(1) by blast
  qed
  have "keys ! i \<longleftrightarrow> (\<exists>t' < length ?ts. i \<in> set (kt_held (?ts ! t')))" if "i < KEYS" for i
  proof -
    have "(\<exists>t' < length ?ts. i \<in> set (kt_held (?ts ! t'))) \<longleftrightarrow> i \<in> set held' \<or> (\<exists>t' < length (ks_threads s). t' \<noteq> t \<and> i \<in> set (kt_held (ks_threads s ! t')))"
      using t by (auto simp: nth_list_update)
    moreover have "ks_keys s ! i \<longleftrightarrow> i \<in> set held \<or> (\<exists>t' < length (ks_threads s). t' \<noteq> t \<and> i \<in> set (kt_held (ks_threads s ! t')))"
      using own[OF that] th t by blast
    ultimately show ?thesis using k(2)[OF that] apart by auto
  qed
  moreover have "set (kt_held (?ts ! a)) \<inter> set (kt_held (?ts ! b)) = {}" if "a < length ?ts" "b < length ?ts" "a \<noteq> b" for a b
    using that inv t apart by (auto simp: nth_list_update keys_inv_def) 
  ultimately show ?thesis using k(1) by (simp add: keys_inv_def put_thread_def)
qed

lemma key_step_inv:
  assumes "key_step s s'" "keys_inv s"
  shows "keys_inv s'"
  using assms
proof (induction rule: key_step.induct)
  case (pair s t a b)
  then show ?case using thread_changes[OF pair(2,1) plans_ok(1), of "ks_keys s"] by (simp add: keys_inv_def)
next
  case (all s t)
  then show ?case using thread_changes[OF all(2,1) plans_ok(2), of "ks_keys s"] by (simp add: keys_inv_def)
next
  case (try_lock s t v)
  have "thread_keys_ok \<lparr>kt_todo = [], kt_held = [key_of v]\<rparr>" using key_of_bound by (simp add: thread_keys_ok_def)
  then show ?case
    using thread_changes[OF try_lock(3,1), of "[]" "[key_of v]" "(ks_keys s)[key_of v := True]"] try_lock(2) keys_invD(3)[OF try_lock(3,1)] key_of_bound[of v]
    by (simp add: put_key_def nth_list_update)
next
  case (lock_at s t i "is" held)
  note d = keys_invD[OF lock_at(3,1)]
  have "thread_keys_ok \<lparr>kt_todo = is, kt_held = held @ [i]\<rparr>" using d(1,2) by (auto simp: thread_keys_ok_def)
  then show ?case unfolding put_key_def
    by (rule thread_changes[OF lock_at(3,1)]) (use lock_at(2) d in \<open>auto simp: nth_list_update\<close>)
next
  case (unlock_at s t held i)
  note d = keys_invD[OF unlock_at(2,1)]
  have ok: "thread_keys_ok \<lparr>kt_todo = [], kt_held = held\<rparr>" "i \<notin> set held" "i < KEYS" using d(1,2) by (auto simp: thread_keys_ok_def sorted_wrt_append)
  then show ?case unfolding put_key_def
    by (intro thread_changes[OF unlock_at(2,1) ok(1)]) (use d(3,4) in \<open>auto simp: nth_list_update\<close>)
qed simp_all

lemma key_reach_inv: "key_reach n s \<Longrightarrow> keys_inv s \<and> length (ks_threads s) = n"
proof (induction rule: key_reach.induct)
  case start
  then show ?case by (simp add: keys_inv_def keys_new_def thread_keys_ok_def)
next
  case (step s s')
  moreover have "length (ks_threads s') = length (ks_threads s)"
    using step(2) by cases (simp_all add: put_thread_def put_key_def)
  ultimately show ?case using key_step_inv by simp
qed

section \<open>Properties\<close>

text \<open>
  A key has one holder at a time, and while a thread holds all of them no other thread holds any.
\<close>

theorem keys_are_exclusive:
  assumes "key_reach n s" "t < n" "i \<in> set (kt_held (ks_threads s ! t))"
  shows "\<forall>t' < n. t' \<noteq> t \<longrightarrow> i \<notin> set (kt_held (ks_threads s ! t'))"
proof (intro allI impI notI)
  fix t' assume t': "t' < n" "t' \<noteq> t" "i \<in> set (kt_held (ks_threads s ! t'))"
  have "set (kt_held (ks_threads s ! t)) \<inter> set (kt_held (ks_threads s ! t')) = {}"
    using key_reach_inv[OF assms(1)] assms(2) t'(1,2) by (simp add: keys_inv_def)
  then show False using assms(3) t'(3) by blast
qed

theorem keys_are_exclusive_witness:
  "key_of 7 \<notin> set (kt_held (ks_threads (put_thread 1 [] [key_of 7] (put_key (key_of 7) True (keys_new 2))) ! 0))"
proof -
  let ?s = "put_thread 1 [] [key_of 7] (put_key (key_of 7) True (keys_new 2))"
  have r: "key_reach 2 ?s"
    by (rule key_reach.step[OF key_reach.start]) (rule try_lock, use key_of_bound[of 7] in \<open>simp_all add: keys_new_def\<close>)
  have h: "key_of 7 \<in> set (kt_held (ks_threads ?s ! 1))" by (simp add: put_thread_def put_key_def keys_new_def)
  show ?thesis using keys_are_exclusive[OF r _ h] by simp
qed

text \<open>
  C30. The keys never deadlock: as long as some thread still wants or holds a key, some thread can
  take the key it wants next or give one back, because every thread takes its keys in ascending order.
\<close>

theorem keys_never_deadlock:
  assumes "key_reach n s" "t < n" "kt_todo (ks_threads s ! t) \<noteq> [] \<or> kt_held (ks_threads s ! t) \<noteq> []"
  shows "progress s"
proof (rule ccontr)
  assume stuck: "\<not> progress s"
  have inv: "keys_inv s" and n: "length (ks_threads s) = n" using key_reach_inv[OF assms(1)] by simp_all
  have blocked: "\<exists>i is held. in_thread s u (i # is) held \<and> ks_keys s ! i"
    if "u < n" "kt_todo (ks_threads s ! u) \<noteq> [] \<or> kt_held (ks_threads s ! u) \<noteq> []" for u
    using stuck that n unfolding progress_def by (cases "ks_threads s ! u") (metis key_thread.select_convs neq_Nil_conv)
  define W where "W = {hd (kt_todo (ks_threads s ! u)) | u. u < n \<and> kt_todo (ks_threads s ! u) \<noteq> []}"
  obtain i0 js held0 where b0: "in_thread s t (i0 # js) held0" using blocked[OF assms(2,3)] by blast
  have "finite W" unfolding W_def by simp
  moreover have "W \<noteq> {}" unfolding W_def using assms(2) b0 by force
  ultimately obtain m where m: "m \<in> W" "\<forall>w \<in> W. w \<le> m" by (meson Max_ge Max_in)
  obtain u where u: "u < n" "kt_todo (ks_threads s ! u) \<noteq> []" "hd (kt_todo (ks_threads s ! u)) = m" using m(1) by (auto simp: W_def)
  obtain ms held where bu: "in_thread s u (m # ms) held" "ks_keys s ! m" using blocked[OF u(1)] u(2,3) by auto
  have "m < KEYS" using keys_invD(2)[OF inv bu(1), of m] by simp
  then obtain w where w: "w < n" "m \<in> set (kt_held (ks_threads s ! w))" using inv bu(2) n by (auto simp: keys_inv_def)
  then obtain j ks heldw where bw: "in_thread s w (j # ks) heldw" using blocked[OF w(1)] by (metis empty_iff list.set(1))
  have "m \<in> set heldw" using w(2) bw by simp
  then have "m < j" using keys_invD(1)[OF inv bw] by (auto simp: sorted_wrt_append)
  moreover have "j \<in> W" unfolding W_def using w(1) bw by force
  ultimately show False using m(2) by auto
qed

theorem keys_never_deadlock_witness: "progress (put_thread 0 (lock_pair (Some 5) (Some 3)) [] (keys_new 1))"
proof (rule keys_never_deadlock[of 1 _ 0])
  show "key_reach 1 (put_thread 0 (lock_pair (Some 5) (Some 3)) [] (keys_new 1))"
    by (rule key_reach.step[OF key_reach.start pair]) (simp add: keys_new_def)
  show "kt_todo (ks_threads (put_thread 0 (lock_pair (Some 5) (Some 3)) [] (keys_new 1)) ! 0) \<noteq> [] \<or>
      kt_held (ks_threads (put_thread 0 (lock_pair (Some 5) (Some 3)) [] (keys_new 1)) ! 0) \<noteq> []"
    by (simp add: put_thread_def keys_new_def lock_pair_def)
qed simp

end
