(* ===== verification/Leaf_Store.thy ===== *)
theory Leaf_Store
  imports Region "HOL-Library.Product_Lexorder"
begin

text \<open>
  The store of variable-length payloads (\<^verbatim>\<open>crates/enchudb-engine/src/leaf_store.rs\<close>): slots of a
  region, found by word offset, with a list of free holes that is kept by offset and by size,
  joined with its neighbours and given back at the end. A slot that a cell no longer points to
  waits until a flush that began later has succeeded. The free list can be rebuilt from the live
  slots, or saved and installed. Every operation is one step, as under the lock of the holes; the
  sequence lock by which a reader notices a concurrent writer, the record of borrowed reads and
  the dirty ranges are not modelled. \<^const>\<open>None\<close> as a result is a panic of the code.
\<close>

section \<open>Holes\<close>

record holes =
  ho_off :: "(u32 \<times> u32) list"
  ho_size :: "(u32 \<times> u32) list"

definition holes_empty :: holes where
  "holes_empty = \<lparr>ho_off = [], ho_size = []\<rparr>"

definition holes_remove :: "u32 \<Rightarrow> holes \<Rightarrow> holes" where
  "holes_remove off h = (case map_of (ho_off h) off of
     None \<Rightarrow> h
   | Some sz \<Rightarrow> \<lparr>ho_off = filter (\<lambda>(ofs, _). ofs \<noteq> off) (ho_off h), ho_size = remove1 (sz, off) (ho_size h)\<rparr>)"

definition holes_insert :: "u32 \<Rightarrow> u32 \<Rightarrow> holes \<Rightarrow> holes" where
  "holes_insert off sz h =
     (let h' = holes_remove off h in \<lparr>ho_off = insort (off, sz) (ho_off h'), ho_size = insort (sz, off) (ho_size h')\<rparr>)"

definition holes_get :: "u32 \<Rightarrow> holes \<Rightarrow> u32 option" where
  "holes_get off h = map_of (ho_off h) off"

definition holes_before :: "u32 \<Rightarrow> holes \<Rightarrow> (u32 \<times> u32) option" where
  "holes_before off h = (case filter (\<lambda>(ofs, _). ofs < off) (ho_off h) of [] \<Rightarrow> None | ps \<Rightarrow> Some (last ps))"

definition best_fit :: "u32 \<Rightarrow> holes \<Rightarrow> (u32 \<times> u32) option" where
  "best_fit need h = map_option (\<lambda>(sz, off). (off, sz)) (find (\<lambda>(sz, _). need \<le> sz) (ho_size h))"

section \<open>The store\<close>

abbreviation LEAF_HEADER :: nat where
  "LEAF_HEADER \<equiv> 12"

abbreviation HIGH_WATER_OFF :: nat where
  "HIGH_WATER_OFF \<equiv> 4"

abbreviation SHIFT_OFF :: nat where
  "SHIFT_OFF \<equiv> 8"

abbreviation SLOT_HEADER :: nat where
  "SLOT_HEADER \<equiv> 8"

abbreviation SLOT_HEADER_GEN :: nat where
  "SLOT_HEADER_GEN \<equiv> 12"

abbreviation GEN_OFF :: nat where
  "GEN_OFF \<equiv> 8"

abbreviation HAS_GEN :: u32 where
  "HAS_GEN \<equiv> 1"

abbreviation HOLE_GEN :: u32 where
  "HOLE_GEN \<equiv> 1"

abbreviation MAX_OFF_SHIFT :: nat where
  "MAX_OFF_SHIFT \<equiv> 4"

abbreviation LEAF_MAGIC :: bytes where
  "LEAF_MAGIC \<equiv> [76, 69, 70, 49]"

abbreviation LEAF_MAGIC_GEN :: bytes where
  "LEAF_MAGIC_GEN \<equiv> [76, 69, 70, 50]"

text \<open>The value that no slot has: the insertion was refused.\<close>

abbreviation NO_SLOT :: u32 where
  "NO_SLOT \<equiv> 0xFFFFFFFF"

record leaf_store =
  lf_region :: region
  lf_holes :: holes
  lf_off_shift :: nat
  lf_gen_seq :: u32
  lf_epoch :: nat
  lf_pending :: "(nat \<times> u32 \<times> u32) list"
  lf_retired_bytes :: nat
  lf_backoff :: nat
  lf_from_file :: bool

definition leaf_with :: "region \<Rightarrow> nat \<Rightarrow> leaf_store" where
  "leaf_with rg off_shift = \<lparr>lf_region = rg, lf_holes = holes_empty, lf_off_shift = off_shift, lf_gen_seq = 0, lf_epoch = 0,
     lf_pending = [], lf_retired_bytes = 0, lf_backoff = 0, lf_from_file = False\<rparr>"

abbreviation lf_mem :: "leaf_store \<Rightarrow> bytes" where
  "lf_mem st \<equiv> rg_mem (lf_region st)"

definition align_up :: "nat \<Rightarrow> nat \<Rightarrow> nat" where
  "align_up x a = (x + a - 1) div a * a"

definition w2b :: "leaf_store \<Rightarrow> u32 \<Rightarrow> nat" where
  "w2b st w = unat w * 2 ^ lf_off_shift st"

definition b2w :: "leaf_store \<Rightarrow> nat \<Rightarrow> u32" where
  "b2w st b = word_of_nat (b div 2 ^ lf_off_shift st)"

definition slot_align :: "leaf_store \<Rightarrow> nat" where
  "slot_align st = max 4 (2 ^ lf_off_shift st)"

definition align_slot :: "leaf_store \<Rightarrow> nat \<Rightarrow> nat" where
  "align_slot st x = align_up x (slot_align st)"

definition data_start_byte :: "leaf_store \<Rightarrow> nat" where
  "data_start_byte st = align_slot st LEAF_HEADER"

definition min_slot_words :: "leaf_store \<Rightarrow> u32" where
  "min_slot_words st = b2w st (align_slot st SLOT_HEADER)"

definition min_hole_words :: "leaf_store \<Rightarrow> u32" where
  "min_hole_words st = b2w st (align_slot st SLOT_HEADER_GEN)"

text \<open>The atomic words of the region; an offset out of range or not aligned panics.\<close>

definition atomic_load :: "nat \<Rightarrow> leaf_store \<Rightarrow> u32 option" where
  "atomic_load off st = (if off + 4 \<le> length (lf_mem st) \<and> off mod 4 = 0 then Some (u32_at (lf_mem st) off) else None)"

definition atomic_store :: "nat \<Rightarrow> u32 \<Rightarrow> leaf_store \<Rightarrow> leaf_store option" where
  "atomic_store off v st = (if off + 4 \<le> length (lf_mem st) \<and> off mod 4 = 0
     then Some (st\<lparr>lf_region := write_at off (to_le_bytes v) (lf_region st)\<rparr>) else None)"

definition hw_words :: "leaf_store \<Rightarrow> u32" where
  "hw_words st = u32_at (lf_mem st) HIGH_WATER_OFF"

definition set_hw_words :: "u32 \<Rightarrow> leaf_store \<Rightarrow> leaf_store" where
  "set_hw_words w st = st\<lparr>lf_region := write_at HIGH_WATER_OFF (to_le_bytes w) (lf_region st)\<rparr>"

definition leaf_high_water :: "leaf_store \<Rightarrow> nat" where
  "leaf_high_water st = w2b st (hw_words st)"

definition leaf_init :: "grower \<Rightarrow> region \<Rightarrow> nat \<Rightarrow> leaf_store option" where
  "leaf_init grow rg off_shift = (
     if off_shift > MAX_OFF_SHIFT then None
     else let st = leaf_with rg off_shift; start = data_start_byte st;
              rg1 = fst (ensure_committed grow start rg);
              rg2 = write_at SHIFT_OFF [word_of_nat off_shift] (write_at 0 LEAF_MAGIC_GEN rg1)
          in Some (set_hw_words (b2w st start) (st\<lparr>lf_region := rg2\<rparr>)))"

datatype leaf_error = CorruptRegion | CorruptShift

definition leaf_load :: "region \<Rightarrow> leaf_error + leaf_store" where
  "leaf_load rg =
     (let mm = rg_mem rg
      in if length mm < LEAF_HEADER \<or> (slice 0 4 mm \<noteq> LEAF_MAGIC \<and> slice 0 4 mm \<noteq> LEAF_MAGIC_GEN) then Inl CorruptRegion
         else let off_shift = unat (mm ! SHIFT_OFF)
              in if off_shift > MAX_OFF_SHIFT then Inl CorruptShift else Inr (leaf_with rg off_shift))"

definition write_hole_header :: "u32 \<Rightarrow> u32 \<Rightarrow> leaf_store \<Rightarrow> leaf_store option" where
  "write_hole_header word_off hole_bytes st =
     (let ofs = w2b st word_off
      in if unat hole_bytes \<ge> SLOT_HEADER_GEN
         then Option.bind (atomic_store (ofs + GEN_OFF) HOLE_GEN st) (atomic_store ofs (hole_bytes OR HAS_GEN))
         else atomic_store ofs hole_bytes st)"

definition slot_size_bytes_at :: "u32 \<Rightarrow> leaf_store \<Rightarrow> u32 option" where
  "slot_size_bytes_at word_off st = map_option (\<lambda>raw. raw AND NOT HAS_GEN) (atomic_load (w2b st word_off) st)"

definition header_len :: "u32 \<Rightarrow> nat" where
  "header_len raw = (if raw AND HAS_GEN \<noteq> 0 then SLOT_HEADER_GEN else SLOT_HEADER)"

definition leaf_get :: "u32 \<Rightarrow> leaf_store \<Rightarrow> bytes option" where
  "leaf_get word_off st =
     (let mm = lf_mem st; ofs = w2b st word_off
      in if ofs + 8 > length mm then None
         else let hdr = header_len (u32_at mm ofs); len = unat (u32_at mm (ofs + 4))
              in if ofs + hdr + len > length mm then None else Some (slice (ofs + hdr) (ofs + hdr + len) mm))"

section \<open>Allocating\<close>

definition alloc_locked :: "grower \<Rightarrow> u32 \<Rightarrow> leaf_store \<Rightarrow> (leaf_store \<times> (u32 \<times> u32) option) option" where
  "alloc_locked grow need st = (case best_fit need (lf_holes st) of
     Some (hoff, hsize) \<Rightarrow>
       (let st1 = st\<lparr>lf_holes := holes_remove hoff (lf_holes st)\<rparr>; remainder = hsize - need
        in if remainder \<ge> min_hole_words st
           then (let roff = hoff + need
                 in case write_hole_header roff (word_of_nat (w2b st remainder)) st1 of
                      None \<Rightarrow> None
                    | Some st2 \<Rightarrow> Some (st2\<lparr>lf_holes := holes_insert roff remainder (lf_holes st2)\<rparr>, Some (hoff, need)))
           else Some (st1, Some (hoff, hsize)))
   | None \<Rightarrow>
       (let hw = hw_words st; stop = hw + need
        in case ensure_committed grow (w2b st stop) (lf_region st) of
             (rg, False) \<Rightarrow> Some (st\<lparr>lf_region := rg\<rparr>, None)
           | (rg, True) \<Rightarrow> Some (set_hw_words stop (st\<lparr>lf_region := rg\<rparr>), Some (hw, need))))"

definition fill_slot :: "nat \<Rightarrow> nat \<Rightarrow> bytes \<Rightarrow> leaf_store \<Rightarrow> leaf_store option" where
  "fill_slot byte_off slot_bytes bs st =
     (let g = lf_gen_seq st + 2; st1 = st\<lparr>lf_gen_seq := g\<rparr>
      in Option.bind (atomic_store byte_off (word_of_nat slot_bytes OR HAS_GEN) st1) (\<lambda>st2.
         Option.bind (atomic_store (byte_off + GEN_OFF) (g OR 1) st2) (\<lambda>st3.
         Option.bind (atomic_store (byte_off + 4) (word_of_nat (length bs)) st3) (\<lambda>st4.
         Option.bind (write_atomic (byte_off + SLOT_HEADER_GEN) bs (lf_region st4)) (\<lambda>rg.
         Option.bind (atomic_store (byte_off + GEN_OFF) g (st4\<lparr>lf_region := rg\<rparr>)) (\<lambda>st5.
         Some (if slice 0 4 (lf_mem st5) \<noteq> LEAF_MAGIC_GEN then st5\<lparr>lf_region := write_at 0 LEAF_MAGIC_GEN (lf_region st5)\<rparr> else st5)))))))"

definition leaf_insert :: "grower \<Rightarrow> bytes \<Rightarrow> leaf_store \<Rightarrow> (leaf_store \<times> u32) option" where
  "leaf_insert grow bs st = (
     if length bs > 0xFFFFFFFF - SLOT_HEADER_GEN then None
     else let need = b2w st (align_slot st (SLOT_HEADER_GEN + length bs))
          in case alloc_locked grow need st of
               None \<Rightarrow> None
             | Some (st1, None) \<Rightarrow> Some (st1, NO_SLOT)
             | Some (st1, Some (word_off, slot_words)) \<Rightarrow>
                 (let byte_off = w2b st word_off; slot_bytes = w2b st slot_words
                  in case ensure_committed grow (byte_off + slot_bytes) (lf_region st1) of
                       (rg, False) \<Rightarrow> Some (st1\<lparr>lf_region := rg\<rparr>, NO_SLOT)
                     | (rg, True) \<Rightarrow> map_option (\<lambda>st2. (st2, word_off)) (fill_slot byte_off slot_bytes bs (st1\<lparr>lf_region := rg\<rparr>))))"

section \<open>Freeing\<close>

definition mark_unreadable :: "u32 \<Rightarrow> leaf_store \<Rightarrow> leaf_store option" where
  "mark_unreadable word_off st =
     (let ofs = w2b st word_off
      in case atomic_load ofs st of
           None \<Rightarrow> None
         | Some raw \<Rightarrow> if raw AND HAS_GEN \<noteq> 0 then atomic_store (ofs + GEN_OFF) HOLE_GEN st else Some st)"

definition insert_hole_locked :: "u32 \<Rightarrow> u32 \<Rightarrow> leaf_store \<Rightarrow> leaf_store option" where
  "insert_hole_locked off size0 st =
     (let h = lf_holes st;
          (h1, hoff, size1) = (case holes_before off h of
             Some (poff, psize) \<Rightarrow> if poff + psize = off then (holes_remove poff h, poff, size0 + psize) else (h, off, size0)
           | None \<Rightarrow> (h, off, size0));
          stop = hoff + size1;
          (h2, size2) = (case holes_get stop h1 of Some nsize \<Rightarrow> (holes_remove stop h1, size1 + nsize) | None \<Rightarrow> (h1, size1));
          st1 = st\<lparr>lf_holes := h2\<rparr>
      in if hoff + size2 = hw_words st then Some (set_hw_words hoff st1)
         else map_option (\<lambda>st2. st2\<lparr>lf_holes := holes_insert hoff size2 h2\<rparr>) (write_hole_header hoff (word_of_nat (w2b st size2)) st1))"

definition leaf_free :: "u32 \<Rightarrow> leaf_store \<Rightarrow> leaf_store option" where
  "leaf_free word_off st = (case slot_size_bytes_at word_off st of
     None \<Rightarrow> None
   | Some sz \<Rightarrow> Option.bind (mark_unreadable word_off st) (insert_hole_locked word_off (b2w st (unat sz))))"

definition leaf_retire :: "u32 \<Rightarrow> leaf_store \<Rightarrow> (leaf_store \<times> nat) option" where
  "leaf_retire word_off st = map_option (\<lambda>sz.
     let bytes = lf_retired_bytes st + unat sz
     in (st\<lparr>lf_pending := lf_pending st @ [(lf_epoch st, word_off, sz)], lf_retired_bytes := bytes\<rparr>, bytes))
     (slot_size_bytes_at word_off st)"

definition durable_begin :: "leaf_store \<Rightarrow> leaf_store \<times> nat" where
  "durable_begin st = (st\<lparr>lf_epoch := lf_epoch st + 1\<rparr>, lf_epoch st)"

text \<open>The slots to free, sorted, as runs of neighbours; each is marked unreadable on the way.\<close>

fun collect_runs :: "(u32 \<times> u32) list \<Rightarrow> (u32 \<times> u32) list \<Rightarrow> leaf_store \<Rightarrow> (leaf_store \<times> (u32 \<times> u32) list) option" where
  "collect_runs [] runs st = Some (st, runs)"
| "collect_runs ((off, sz) # slots) runs st = (case mark_unreadable off st of
     None \<Rightarrow> None
   | Some st1 \<Rightarrow>
       (let words = b2w st (unat sz)
        in if runs \<noteq> [] \<and> fst (last runs) + snd (last runs) = off
           then collect_runs slots (butlast runs @ [(fst (last runs), snd (last runs) + words)]) st1
           else collect_runs slots (runs @ [(off, words)]) st1))"

fun insert_runs :: "(u32 \<times> u32) list \<Rightarrow> leaf_store \<Rightarrow> leaf_store option" where
  "insert_runs [] st = Some st"
| "insert_runs ((off, words) # runs) st = Option.bind (insert_hole_locked off words st) (insert_runs runs)"

definition free_retired :: "(u32 \<times> u32) list \<Rightarrow> leaf_store \<Rightarrow> leaf_store option" where
  "free_retired slots st = (case collect_runs (sort slots) [] st of None \<Rightarrow> None | Some (st1, runs) \<Rightarrow> insert_runs runs st1)"

definition durable_end :: "nat \<Rightarrow> leaf_store \<Rightarrow> leaf_store option" where
  "durable_end token st =
     (let ps = takeWhile (\<lambda>(e, _, _). e \<le> token) (lf_pending st);
          ready = map snd ps;
          st1 = st\<lparr>lf_pending := drop (length ps) (lf_pending st),
                   lf_retired_bytes := lf_retired_bytes st - sum_list (map (\<lambda>(_, sz). unat sz) ready)\<rparr>
      in if ready \<noteq> [] then free_retired ready st1 else Some st1)"

definition settle_due :: "nat \<Rightarrow> leaf_store \<Rightarrow> bool" where
  "settle_due waiting st \<longleftrightarrow> waiting \<ge> max (max (4 * 1024 * 1024) (leaf_high_water st div 4)) (lf_backoff st)"

definition settle_finished :: "bool \<Rightarrow> leaf_store \<Rightarrow> leaf_store" where
  "settle_finished ok st = st\<lparr>lf_backoff := (if ok then 0 else min (lf_retired_bytes st * 2) (2 ^ 64 - 1))\<rparr>"

section \<open>Reading beside a writer\<close>

datatype leaf_read = LeafOk bytes | Retry

definition try_read :: "u32 \<Rightarrow> leaf_store \<Rightarrow> leaf_read option" where
  "try_read word_off st =
     (let rg = lf_region st; len = length (rg_mem rg); ofs = w2b st word_off; h8 = ofs + SLOT_HEADER
      in if h8 > len \<or> \<not> is_committed h8 rg then Some Retry
         else Option.bind (atomic_load ofs st) (\<lambda>ss0.
           if ss0 AND HAS_GEN \<noteq> 0 then
             (let h12 = ofs + SLOT_HEADER_GEN
              in if h12 > len then Some Retry
                 else Option.bind (atomic_load (ofs + GEN_OFF) st) (\<lambda>g0.
                   if g0 AND 1 \<noteq> 0 then Some Retry
                   else Option.bind (atomic_load (ofs + 4) st) (\<lambda>n.
                     let slot_size = unat (ss0 AND NOT HAS_GEN); stop = h12 + unat n
                     in if unat n > slot_size - SLOT_HEADER_GEN \<or> stop > len \<or> \<not> is_committed stop rg then Some Retry
                        else map_option LeafOk (read_atomic h12 (unat n) rg))))
           else if unat ss0 < SLOT_HEADER then Some Retry
           else Option.bind (atomic_load (ofs + 4) st) (\<lambda>n.
             let stop = h8 + unat n
             in if unat n > unat ss0 - SLOT_HEADER \<or> stop > len \<or> \<not> is_committed stop rg then Some Retry
                else map_option LeafOk (read_atomic h8 (unat n) rg))))"

section \<open>The free list after opening\<close>

definition flush_run :: "u32 \<Rightarrow> u32 \<Rightarrow> u32 \<Rightarrow> leaf_store \<Rightarrow> leaf_store option" where
  "flush_run off sz hw st = (
     if off + sz = hw then Some (set_hw_words off st)
     else map_option (\<lambda>st1. st1\<lparr>lf_holes := holes_insert off sz (lf_holes st1)\<rparr>)
       (write_hole_header off (word_of_nat (w2b st sz)) st))"

text \<open>One pass over the sorted live offsets: \<^verbatim>\<open>cur\<close> is the end of the last sound slot.\<close>

fun rebuild_from :: "u32 \<Rightarrow> u32 \<Rightarrow> u32 list \<Rightarrow> u32 \<Rightarrow> u32 set \<Rightarrow> leaf_store \<Rightarrow> (leaf_store \<times> u32 \<times> u32 set) option" where
  "rebuild_from start hw [] cur broken st = Some (st, cur, broken)"
| "rebuild_from start hw (a # live) cur broken st = (
     if a < start \<or> a \<ge> hw then rebuild_from start hw live cur (insert a broken) st
     else let limit = (case live of [] \<Rightarrow> hw | b # _ \<Rightarrow> min b hw); ofs = w2b st a
          in Option.bind (atomic_load ofs st) (\<lambda>raw.
             let ss = b2w st (unat (raw AND NOT HAS_GEN))
             in Option.bind (if raw AND HAS_GEN \<noteq> 0 \<and> ofs + SLOT_HEADER_GEN \<le> length (lf_mem st)
                             then map_option (\<lambda>g. g AND 1 \<noteq> 0) (atomic_load (ofs + GEN_OFF) st) else Some False) (\<lambda>freed.
                if ss \<ge> min_slot_words st \<and> unat a + unat ss \<le> unat limit \<and> \<not> freed
                then Option.bind (if a > cur then flush_run cur (a - cur) hw st else Some st) (rebuild_from start hw live (a + ss) broken)
                else rebuild_from start hw live cur (insert a broken) st)))"

definition rebuild_free_list :: "u32 list \<Rightarrow> leaf_store \<Rightarrow> (leaf_store \<times> u32 set) option" where
  "rebuild_free_list live st =
     (let hw = hw_words st; start = b2w st (data_start_byte st); st0 = st\<lparr>lf_holes := holes_empty, lf_from_file := False\<rparr>
      in Option.bind (rebuild_from start hw (remdups_adj (sort live)) start {} st0) (\<lambda>(st1, cur, broken).
           map_option (\<lambda>st2. (st2, broken)) (if cur < hw then flush_run cur (hw - cur) hw st1 else Some st1)))"

definition free_list_bytes :: "leaf_store \<Rightarrow> bytes" where
  "free_list_bytes st =
     (let body = [69, 76, 70, 76] @ to_le_bytes (1 :: u32) @ to_le_bytes (hw_words st) @
            to_le_bytes (word_of_nat (length (ho_off (lf_holes st))) :: u32) @
            concat (map (\<lambda>(off, sz). to_le_bytes off @ to_le_bytes sz) (ho_off (lf_holes st)))
      in body @ to_le_bytes (fnv1a body))"

fun read_pairs :: "bytes \<Rightarrow> nat \<Rightarrow> nat \<Rightarrow> u32 \<Rightarrow> u32 \<Rightarrow> (u32 \<times> u32) list option" where
  "read_pairs body i 0 cur hw = Some []"
| "read_pairs body i (Suc n) cur hw =
     (let off = u32_at body (16 + i * 8); sz = u32_at body (20 + i * 8)
      in if sz = 0 \<or> off < cur \<or> unat off + unat sz > unat hw then None
         else map_option ((#) (off, sz)) (read_pairs body (i + 1) n (off + sz) hw))"

definition install_free_list :: "bytes \<Rightarrow> leaf_store \<Rightarrow> leaf_store \<times> bool" where
  "install_free_list bs st = (
     if length bs < 20 \<or> slice 0 4 bs \<noteq> [69, 76, 70, 76] then (st, False)
     else let body = take (length bs - 4) bs
          in if fnv1a body \<noteq> u32_at bs (length bs - 4) then (st, False)
             else let hw = u32_at body 8; n = unat (u32_at body 12)
                  in if u32_at body 4 \<noteq> 1 \<or> hw \<noteq> hw_words st \<or> length body \<noteq> 16 + n * 8 then (st, False)
                     else case read_pairs body 0 n (b2w st (data_start_byte st)) hw of
                            None \<Rightarrow> (st, False)
                          | Some pairs \<Rightarrow>
                              (st\<lparr>lf_holes := fold (\<lambda>(off, sz). holes_insert off sz) pairs holes_empty, lf_from_file := True\<rparr>, True))"

definition cap_bytes_for_shift :: "nat \<Rightarrow> nat" where
  "cap_bytes_for_shift off_shift = 0xFFFFFFFF * 2 ^ off_shift"

text \<open>A stamp of the slot by which a caller sees whether a writer moves on.\<close>

definition slot_stamp :: "u32 \<Rightarrow> leaf_store \<Rightarrow> u64 option" where
  "slot_stamp word_off st =
     (let len = length (lf_mem st); ofs = w2b st word_off
      in if ofs + SLOT_HEADER > len then Some 0
         else Option.bind (atomic_load ofs st) (\<lambda>ss.
           if ss AND HAS_GEN \<noteq> 0 \<and> ofs + SLOT_HEADER_GEN \<le> len
           then map_option (\<lambda>g. ucast ss OR push_bit 32 (ucast g)) (atomic_load (ofs + GEN_OFF) st)
           else Some (ucast ss)))"

definition leaf_retired :: "leaf_store \<Rightarrow> nat \<times> nat" where
  "leaf_retired st = (length (lf_pending st), lf_retired_bytes st)"

definition bounds_words :: "leaf_store \<Rightarrow> u32 \<times> u32" where
  "bounds_words st = (b2w st (data_start_byte st), hw_words st)"

definition leaf_free_bytes :: "leaf_store \<Rightarrow> nat" where
  "leaf_free_bytes st = sum_list (map (\<lambda>(_, w). w2b st w) (ho_off (lf_holes st)))"

end
