(* ===== verification/Leaf_Correct.thy ===== *)
theory Leaf_Correct
  imports Leaf_Store
begin

text \<open>
  The payload store is sound: the used slots and the holes tile a part of the region without
  overlap, every used slot reads back the payload that was put into it, and this stays so over
  every history of insertions, releases and flushes and over a rebuild of the free list.
\<close>

section \<open>Spans of words\<close>

text \<open>A family of spans, by offset: inside the bounds, not empty, on boundaries of four bytes and apart from each other.\<close>

definition apart :: "u32 \<Rightarrow> u32 \<Rightarrow> u32 \<Rightarrow> u32 \<Rightarrow> bool" where
  "apart a w b v \<longleftrightarrow> unat a + unat w \<le> unat b \<or> unat b + unat v \<le> unat a"

definition fits :: "nat \<Rightarrow> nat \<Rightarrow> nat \<Rightarrow> u32 \<Rightarrow> u32 \<Rightarrow> bool" where
  "fits s lo hi a w \<longleftrightarrow> lo \<le> unat a \<and> 0 < unat w \<and> unat a + unat w \<le> hi \<and> 4 dvd unat a * 2 ^ s \<and> 4 dvd unat w * 2 ^ s"

definition tiled :: "nat \<Rightarrow> nat \<Rightarrow> nat \<Rightarrow> (u32 \<rightharpoonup> u32) \<Rightarrow> bool" where
  "tiled s lo hi F \<longleftrightarrow> (\<forall>a w. F a = Some w \<longrightarrow> fits s lo hi a w) \<and>
     (\<forall>a w b v. F a = Some w \<longrightarrow> F b = Some v \<longrightarrow> a \<noteq> b \<longrightarrow> apart a w b v)"

lemma tiledI:
  assumes "\<And>a w. F a = Some w \<Longrightarrow> fits s lo hi a w"
    "\<And>a w b v. F a = Some w \<Longrightarrow> F b = Some v \<Longrightarrow> a \<noteq> b \<Longrightarrow> apart a w b v"
  shows "tiled s lo hi F"
  using assms by (auto simp: tiled_def)

lemma tiled_fits: "tiled s lo hi F \<Longrightarrow> F a = Some w \<Longrightarrow> fits s lo hi a w"
  by (simp add: tiled_def)

lemma tiled_apart: "tiled s lo hi F \<Longrightarrow> F a = Some w \<Longrightarrow> F b = Some v \<Longrightarrow> a \<noteq> b \<Longrightarrow> apart a w b v"
  by (simp add: tiled_def)

lemma tiled_sub: "tiled s lo hi F \<Longrightarrow> G \<subseteq>\<^sub>m F \<Longrightarrow> tiled s lo hi G"
  unfolding tiled_def map_le_def dom_def by (metis (mono_tags, lifting) mem_Collect_eq option.distinct(1))

lemma tiled_del: "tiled s lo hi F \<Longrightarrow> tiled s lo hi (F(a := None))"
  by (erule tiled_sub) (simp add: map_le_def)

lemma tiled_mono: "tiled s lo hi F \<Longrightarrow> hi \<le> hi' \<Longrightarrow> tiled s lo hi' F"
  unfolding tiled_def fits_def by (meson le_trans)

lemma apart_sym: "apart a w b v \<longleftrightarrow> apart b v a w"
  by (auto simp: apart_def)

lemma unat_add_small: "unat (a :: u32) + unat b < 2 ^ 32 \<Longrightarrow> unat (a + b) = unat a + unat b"
  by (simp add: unat_word_ariths)

lemma tiled_add:
  assumes "tiled s lo hi F" "fits s lo hi a w" "\<And>b v. F b = Some v \<Longrightarrow> b \<noteq> a \<Longrightarrow> apart a w b v"
  shows "tiled s lo hi (F(a \<mapsto> w))"
  by (rule tiledI) (use assms in \<open>auto simp: tiled_fits tiled_apart apart_sym split: if_splits\<close>)

text \<open>Two neighbours become one span.\<close>

lemma fits_join:
  assumes "fits s lo hi a w" "fits s lo hi b v" "unat b = unat a + unat w" "hi < 2 ^ 32"
  shows "fits s lo hi a (w + v)" "unat (w + v) = unat w + unat v"
  using assms unat_add_small[of w v] by (auto simp: fits_def distrib_right)

lemma tiled_join:
  assumes t: "tiled s lo hi F" and f: "F a = Some w" "F b = Some v" and n: "unat b = unat a + unat w" and h: "hi < 2 ^ 32"
  shows "tiled s lo hi (F(b := None, a \<mapsto> w + v))"
proof (rule tiled_add)
  note fa = tiled_fits[OF t f(1)] and fb = tiled_fits[OF t f(2)]
  show "fits s lo hi a (w + v)" by (rule fits_join[OF fa fb n h])
  fix c u assume c: "(F(b := None)) c = Some u" "c \<noteq> a"
  then have "F c = Some u" "c \<noteq> b" by (auto split: if_splits)
  then have "apart a w c u" "apart b v c u" "0 < unat u" using t f c(2) tiled_apart tiled_fits fits_def by metis+
  then show "apart a (w + v) c u" using n fits_join(2)[OF fa fb n h] by (auto simp: apart_def)
qed (use t tiled_del in blast)

text \<open>A span is cut in two.\<close>

lemma tiled_cut:
  assumes t: "tiled s lo hi F" and f: "F a = Some w" and n: "0 < unat n" "unat n < unat w" "4 dvd unat n * 2 ^ s" and h: "hi < 2 ^ 32"
  shows "tiled s lo hi (F(a \<mapsto> n, a + n \<mapsto> w - n))" "F (a + n) = None" "unat (a + n) = unat a + unat n" "unat (w - n) = unat w - unat n"
proof -
  note fa = tiled_fits[OF t f]
  show un: "unat (a + n) = unat a + unat n" using fa n h by (intro unat_add_small) (auto simp: fits_def)
  show uw: "unat (w - n) = unat w - unat n" using n by (intro unat_sub) (simp add: word_le_nat_alt)
  have ne: "a + n \<noteq> a" using un n by auto
  show "F (a + n) = None"
  proof (rule ccontr)
    assume "F (a + n) \<noteq> None"
    then obtain v where v: "F (a + n) = Some v" by auto
    then have "apart a w (a + n) v" "0 < unat v" using t f ne tiled_apart tiled_fits fits_def by metis+
    then show False using un n by (auto simp: apart_def)
  qed
  have f1: "fits s lo hi a n" using fa n by (auto simp: fits_def)
  have "4 dvd (unat w - unat n) * 2 ^ s" using fa n by (auto simp: fits_def diff_mult_distrib)
  then have f2: "fits s lo hi (a + n) (w - n)" using fa n un uw by (auto simp: fits_def distrib_right)
  show "tiled s lo hi (F(a \<mapsto> n, a + n \<mapsto> w - n))"
  proof (intro tiled_add t f1 f2)
    fix b v assume "F b = Some v" "b \<noteq> a"
    then have "apart a w b v" using t f tiled_apart by metis
    then show "apart a n b v" using n by (auto simp: apart_def)
  next
    fix b v assume b: "(F(a \<mapsto> n)) b = Some v" "b \<noteq> a + n"
    show "apart (a + n) (w - n) b v"
    proof (cases "b = a")
      case False
      then have "apart a w b v" using b t f tiled_apart by (metis fun_upd_apply)
      then show ?thesis using n un uw by (auto simp: apart_def)
    qed (use b un in \<open>auto simp: apart_def\<close>)
  qed
qed

section \<open>The two lists of holes\<close>

definition holes_wf :: "holes \<Rightarrow> bool" where
  "holes_wf h \<longleftrightarrow> sorted (ho_off h) \<and> distinct (map fst (ho_off h)) \<and> sorted (ho_size h) \<and> distinct (ho_size h) \<and>
     set (ho_size h) = prod.swap ` set (ho_off h)"

abbreviation hmap :: "holes \<Rightarrow> u32 \<rightharpoonup> u32" where
  "hmap h \<equiv> map_of (ho_off h)"

lemma hmap_iff: "holes_wf h \<Longrightarrow> hmap h a = Some w \<longleftrightarrow> (a, w) \<in> set (ho_off h)"
  by (simp add: holes_wf_def)

lemma size_iff: "holes_wf h \<Longrightarrow> (w, a) \<in> set (ho_size h) \<longleftrightarrow> hmap h a = Some w"
  unfolding hmap_iff by (auto simp: holes_wf_def)

lemma holes_wf_empty: "holes_wf holes_empty" "hmap holes_empty = Map.empty"
  by (simp_all add: holes_wf_def holes_empty_def)

lemma holes_remove_ok:
  assumes "holes_wf h"
  shows "holes_wf (holes_remove off h)" "hmap (holes_remove off h) = (hmap h)(off := None)"
proof -
  have wf: "sorted (ho_off h)" "distinct (map fst (ho_off h))" "sorted (ho_size h)" "distinct (ho_size h)"
    "set (ho_size h) = prod.swap ` set (ho_off h)" using assms by (simp_all add: holes_wf_def)
  have m: "map_of (filter (\<lambda>(ofs, _). ofs \<noteq> off) xs) = (map_of xs)(off := None)" for xs :: "(u32 \<times> u32) list"
    by (induction xs) (auto simp: fun_eq_iff)
  show "hmap (holes_remove off h) = (hmap h)(off := None)"
    by (auto simp: holes_remove_def m fun_upd_idem split: option.split)
  show "holes_wf (holes_remove off h)"
  proof (cases "hmap h off")
    case (Some sz)
    then have "(off, w) \<in> set (ho_off h) \<longleftrightarrow> w = sz" for w using hmap_iff[OF assms, of off w] by auto
    then have "set (remove1 (sz, off) (ho_size h)) = prod.swap ` set (filter (\<lambda>(ofs, _). ofs \<noteq> off) (ho_off h))"
      using wf(4,5) by (auto simp: image_iff)
    moreover have "distinct (map fst (filter P (ho_off h)))" for P using wf(2) by (rule distinct_map_filter)
    ultimately show ?thesis using Some wf by (simp add: holes_remove_def holes_wf_def sorted_remove1 sorted_wrt_filter)
  qed (simp add: holes_remove_def assms)
qed

lemma holes_insert_ok:
  assumes "holes_wf h"
  shows "holes_wf (holes_insert off sz h)" "hmap (holes_insert off sz h) = (hmap h)(off \<mapsto> sz)"
proof -
  let ?h = "holes_remove off h"
  note wf = holes_remove_ok[OF assms, of off]
  have n: "off \<notin> fst ` set (ho_off ?h)" using wf by (simp add: map_of_eq_None_iff[symmetric])
  have d: "distinct (map fst (insort (off, sz) (ho_off ?h)))"
    using wf(1) n by (auto simp: holes_wf_def distinct_map set_insort_key distinct_insort intro: rev_image_eqI)
  show w: "holes_wf (holes_insert off sz h)"
    using wf(1) n d by (auto simp: holes_wf_def holes_insert_def Let_def sorted_insort distinct_insort set_insort_key image_iff)
  have "hmap (holes_insert off sz h) a = ((hmap h)(off \<mapsto> sz)) a" for a
  proof (cases "a = off")
    case True
    then have "(a, sz) \<in> set (ho_off (holes_insert off sz h))" by (simp add: holes_insert_def Let_def set_insort_key)
    then show ?thesis using True hmap_iff[OF w] by simp
  next
    case False
    then have "hmap (holes_insert off sz h) a = Some v \<longleftrightarrow> hmap ?h a = Some v" for v
      using hmap_iff[OF w] hmap_iff[OF wf(1)] by (simp add: holes_insert_def Let_def set_insort_key)
    then have "hmap (holes_insert off sz h) a = hmap ?h a" by (metis option.exhaust)
    then show ?thesis using False wf(2) by simp
  qed
  then show "hmap (holes_insert off sz h) = (hmap h)(off \<mapsto> sz)" by blast
qed

lemma holes_before_ok: "holes_wf h \<Longrightarrow> holes_before off h = Some (p, w) \<Longrightarrow> hmap h p = Some w \<and> p < off"
proof -
  assume h: "holes_wf h" "holes_before off h = Some (p, w)"
  then have "(p, w) = last (filter (\<lambda>(ofs, _). ofs < off) (ho_off h))" "filter (\<lambda>(ofs, _). ofs < off) (ho_off h) \<noteq> []"
    by (auto simp: holes_before_def split: list.splits)
  then have "(p, w) \<in> set (filter (\<lambda>(ofs, _). ofs < off) (ho_off h))" by (metis last_in_set)
  then show ?thesis using hmap_iff[OF h(1)] by simp
qed

lemma best_fit_ok: "holes_wf h \<Longrightarrow> best_fit need h = Some (a, w) \<Longrightarrow> hmap h a = Some w \<and> need \<le> w"
  by (auto simp: best_fit_def find_Some_iff size_iff[symmetric] in_set_conv_nth)

section \<open>Memory\<close>

text \<open>The memory changed between two byte offsets only.\<close>

definition changed_in :: "nat \<Rightarrow> nat \<Rightarrow> bytes \<Rightarrow> bytes \<Rightarrow> bool" where
  "changed_in p q m m' \<longleftrightarrow> length m' = length m \<and> (\<forall>lo hi. hi \<le> p \<or> q \<le> lo \<longrightarrow> slice lo hi m' = slice lo hi m)"

lemma changed_in_refl [simp]: "changed_in p q m m"
  by (simp add: changed_in_def)

lemma changed_in_trans: "changed_in p q m m' \<Longrightarrow> changed_in p q m' m'' \<Longrightarrow> changed_in p q m m''"
  by (auto simp: changed_in_def)

lemma changed_in_put: "off + length bs \<le> length m \<Longrightarrow> p \<le> off \<Longrightarrow> off + length bs \<le> q \<Longrightarrow> changed_in p q m (put_at off bs m)"
  using slice_put_out[of off bs m] by (auto simp: changed_in_def length_put_at)

lemma changed_in_slice: "changed_in p q m m' \<Longrightarrow> hi \<le> p \<or> q \<le> lo \<Longrightarrow> slice lo hi m' = slice lo hi m"
  by (auto simp: changed_in_def)

lemma changed_in_u32: "changed_in p q m m' \<Longrightarrow> k + 4 \<le> p \<or> q \<le> k \<Longrightarrow> u32_at m' k = u32_at m k"
  unfolding u32_at_def by (subst changed_in_slice) auto

lemma changed_in_length: "changed_in p q m m' \<Longrightarrow> length m' = length m"
  by (simp add: changed_in_def)

abbreviation with_mem :: "leaf_store \<Rightarrow> bytes \<Rightarrow> leaf_store" where
  "with_mem st m \<equiv> st\<lparr>lf_region := (lf_region st)\<lparr>rg_mem := m\<rparr>\<rparr>"

lemma atomic_store_ok:
  "ofs + 4 \<le> length (lf_mem st) \<Longrightarrow> 4 dvd ofs \<Longrightarrow> atomic_store ofs v st = Some (with_mem st (put_at ofs (to_le_bytes v) (lf_mem st)))"
  by (simp add: atomic_store_def write_at_def mod_eq_0_iff_dvd)

lemma atomic_load_ok: "ofs + 4 \<le> length (lf_mem st) \<Longrightarrow> 4 dvd ofs \<Longrightarrow> atomic_load ofs st = Some (u32_at (lf_mem st) ofs)"
  by (simp add: atomic_load_def mod_eq_0_iff_dvd)

text \<open>What depends on the shift alone.\<close>

lemma shift_cases: "n \<le> (4 :: nat) \<Longrightarrow> n = 0 \<or> n = 1 \<or> n = 2 \<or> n = 3 \<or> n = 4"
  by linarith

lemma data_start: "lf_off_shift st \<le> 4 \<Longrightarrow> 12 \<le> data_start_byte st \<and> data_start_byte st \<le> 16 \<and>
    4 dvd data_start_byte st \<and> w2b st (b2w st (data_start_byte st)) = data_start_byte st \<and> 0 < unat (b2w st (data_start_byte st))"
  by (drule shift_cases) (auto simp: data_start_byte_def align_slot_def align_up_def slot_align_def w2b_def b2w_def)

lemma dvd4_pow: "(4 :: nat) dvd max 4 (2 ^ s)"
proof (cases "2 \<le> s")
  case True
  then obtain k where "s = 2 + k" using le_Suc_ex by blast
  then show ?thesis by (simp add: power_add max_def)
next
  case False
  then have "s = 0 \<or> s = 1" by linarith
  then show ?thesis by auto
qed

lemma align_slot_ok:
  assumes "lf_off_shift st \<le> 4"
  shows "x \<le> align_slot st x" "align_slot st x < x + 16" "4 dvd align_slot st x" "2 ^ lf_off_shift st dvd align_slot st x"
proof -
  let ?a = "slot_align st"
  have a: "0 < ?a" "?a \<le> 16" "4 dvd ?a" "2 ^ lf_off_shift st dvd ?a"
    using shift_cases[OF assms] dvd4_pow by (auto simp: slot_align_def)
  have m: "align_slot st x = (x + ?a - 1) div ?a * ?a" by (simp add: align_slot_def align_up_def)
  then show "4 dvd align_slot st x" "2 ^ lf_off_shift st dvd align_slot st x" using a by simp_all
  have "(x + ?a - 1) div ?a * ?a + (x + ?a - 1) mod ?a = x + ?a - 1" by simp
  moreover have "(x + ?a - 1) mod ?a < ?a" using a by simp
  ultimately show "x \<le> align_slot st x" "align_slot st x < x + 16" using m a by linarith+
qed

text \<open>The words of an aligned number of bytes.\<close>

lemma b2w_ok: "2 ^ lf_off_shift st dvd b \<Longrightarrow> b < 2 ^ 32 * 2 ^ lf_off_shift st \<Longrightarrow> w2b st (b2w st b) = b"
  by (simp add: w2b_def b2w_def unat_of_nat less_mult_imp_div_less)

lemma b2w_w2b: "b2w st (w2b st w) = w"
  by (simp add: w2b_def b2w_def)

section \<open>The space of the store\<close>

definition room :: "leaf_store \<Rightarrow> bool" where
  "room st \<longleftrightarrow> lf_off_shift st \<le> 4 \<and> data_start_byte st \<le> leaf_high_water st \<and> 4 dvd leaf_high_water st \<and>
     leaf_high_water st \<le> rg_committed (lf_region st) \<and> rg_committed (lf_region st) \<le> length (lf_mem st)"

abbreviation tiled_st :: "leaf_store \<Rightarrow> (u32 \<rightharpoonup> u32) \<Rightarrow> bool" where
  "tiled_st st \<equiv> tiled (lf_off_shift st) (unat (b2w st (data_start_byte st))) (unat (hw_words st))"

definition space_ok :: "(u32 \<rightharpoonup> u32) \<Rightarrow> leaf_store \<Rightarrow> bool" where
  "space_ok W st \<longleftrightarrow> room st \<and> holes_wf (lf_holes st) \<and> dom W \<inter> dom (hmap (lf_holes st)) = {} \<and> tiled_st st (W ++ hmap (lf_holes st))"

definition seg :: "leaf_store \<Rightarrow> u32 \<Rightarrow> u32 \<Rightarrow> bytes" where
  "seg st a w = slice (w2b st a) (w2b st a + w2b st w) (lf_mem st)"

lemma space_used: "space_ok W st \<Longrightarrow> W a = Some w \<Longrightarrow> (W ++ hmap (lf_holes st)) a = Some w"
  by (auto simp: space_ok_def map_add_def split: option.split)

lemma space_hole: "hmap (lf_holes st) a = Some w \<Longrightarrow> (W ++ hmap (lf_holes st)) a = Some w"
  by (simp add: map_add_def)

text \<open>A span in bytes.\<close>

lemma fits_bytes:
  assumes "room st" "fits (lf_off_shift st) (unat (b2w st (data_start_byte st))) (unat (hw_words st)) a w"
  shows "12 \<le> w2b st a" "4 dvd w2b st a" "4 dvd w2b st w" "4 \<le> w2b st w" "w2b st a + w2b st w \<le> leaf_high_water st"
    "w2b st a + w2b st w \<le> length (lf_mem st)"
proof -
  have ds: "12 \<le> unat (b2w st (data_start_byte st)) * 2 ^ lf_off_shift st"
    using data_start[of st] assms(1) by (simp add: room_def w2b_def)
  have f: "unat (b2w st (data_start_byte st)) \<le> unat a" "0 < unat w" "unat a + unat w \<le> unat (hw_words st)"
    "4 dvd unat a * 2 ^ lf_off_shift st" "4 dvd unat w * 2 ^ lf_off_shift st"
    using assms(2) by (simp_all add: fits_def)
  show "12 \<le> w2b st a" using ds mult_le_mono1[OF f(1), of "2 ^ lf_off_shift st"] unfolding w2b_def by (rule le_trans)
  show "4 dvd w2b st a" "4 dvd w2b st w" using f by (simp_all add: w2b_def)
  moreover have "0 < w2b st w" using f(2) by (simp add: w2b_def)
  ultimately show "4 \<le> w2b st w" by (simp add: dvd_imp_le)
  show h: "w2b st a + w2b st w \<le> leaf_high_water st"
    using mult_le_mono1[OF f(3), of "2 ^ lf_off_shift st"] by (simp add: w2b_def leaf_high_water_def distrib_right)
  then show "w2b st a + w2b st w \<le> length (lf_mem st)" using assms(1) by (simp add: room_def)
qed

lemma apart_bytes: "apart a w b v \<Longrightarrow> w2b st a + w2b st w \<le> w2b st b \<or> w2b st b + w2b st v \<le> w2b st a"
  unfolding apart_def w2b_def distrib_right[symmetric] by (auto intro: mult_le_mono1)

lemma seg_changed:
  assumes "changed_in (w2b st h) (w2b st h + w2b st k) (lf_mem st) m" "apart a w h k"
  shows "seg (with_mem st m) a w = seg st a w"
  using assms(1) apart_bytes[OF assms(2), of st] by (simp add: seg_def w2b_def changed_in_slice)

lemma write_hole_header_ok:
  assumes "room st" "fits (lf_off_shift st) (unat (b2w st (data_start_byte st))) (unat (hw_words st)) h k"
  shows "\<exists>m. write_hole_header h (word_of_nat (w2b st k)) st = Some (with_mem st m) \<and>
    changed_in (w2b st h) (w2b st h + w2b st k) (lf_mem st) m"
proof -
  note b = fits_bytes[OF assms]
  let ?v = "word_of_nat (w2b st k) :: u32"
  let ?m = "lf_mem st"
  show ?thesis
  proof (cases "unat ?v \<ge> 12")
    case True
    then have k: "12 \<le> w2b st k" using mod_less_eq_dividend[of "w2b st k" "2 ^ 32"] by (simp add: unat_of_nat)
    let ?m1 = "put_at (w2b st h + 8) (to_le_bytes HOLE_GEN) ?m"
    have c: "changed_in (w2b st h) (w2b st h + w2b st k) ?m ?m1" using b k by (intro changed_in_put) auto
    moreover have "changed_in (w2b st h) (w2b st h + w2b st k) ?m1 (put_at (w2b st h) (to_le_bytes (?v OR HAS_GEN)) ?m1)"
      using b k changed_in_length[OF c] by (intro changed_in_put) auto
    ultimately have "changed_in (w2b st h) (w2b st h + w2b st k) ?m (put_at (w2b st h) (to_le_bytes (?v OR HAS_GEN)) ?m1)"
      by (rule changed_in_trans)
    moreover have "4 dvd w2b st h + 8" using b(2) by simp
    ultimately show ?thesis using True b k changed_in_length[OF c] by (auto simp: write_hole_header_def Let_def atomic_store_ok w2b_def)
  next
    case False
    have "changed_in (w2b st h) (w2b st h + w2b st k) ?m (put_at (w2b st h) (to_le_bytes ?v) ?m)" using b by (intro changed_in_put) auto
    then show ?thesis using False b by (auto simp: write_hole_header_def Let_def atomic_store_ok)
  qed
qed

section \<open>Putting a span into the holes\<close>

text \<open>The used spans, the holes and one span more.\<close>

definition ext_ok :: "nat \<Rightarrow> nat \<Rightarrow> nat \<Rightarrow> (u32 \<rightharpoonup> u32) \<Rightarrow> holes \<Rightarrow> u32 \<Rightarrow> u32 \<Rightarrow> bool" where
  "ext_ok s lo hi W h off sz \<longleftrightarrow> holes_wf h \<and> dom W \<inter> dom (hmap h) = {} \<and> W off = None \<and> hmap h off = None \<and>
     tiled s lo hi ((W ++ hmap h)(off \<mapsto> sz))"

lemma ext_before:
  assumes e: "ext_ok s lo hi W h off sz" and p: "hmap h poff = Some psize" "poff + psize = off" and hi: "hi < 2 ^ 32"
  shows "ext_ok s lo hi W (holes_remove poff h) poff (sz + psize)"
proof -
  have ne: "poff \<noteq> off" and w: "W poff = None" using e p(1) by (auto simp: ext_ok_def)
  let ?F = "(W ++ hmap h)(off \<mapsto> sz)"
  have t: "tiled s lo hi ?F" "?F poff = Some psize" "?F off = Some sz" using e p ne by (auto simp: ext_ok_def)
  have "unat off = unat poff + unat psize"
    using tiled_fits[OF t(1,2)] p(2) hi unat_add_small[of poff psize] by (auto simp: fits_def)
  note j = tiled_join[OF t(1,2,3) this hi]
  have "?F(off := None, poff \<mapsto> psize + sz) = (W ++ (hmap h)(poff := None))(poff \<mapsto> sz + psize)"
    using e w by (auto simp: fun_eq_iff ext_ok_def map_add_def add.commute)
  with j have "tiled s lo hi ((W ++ (hmap h)(poff := None))(poff \<mapsto> sz + psize))" by metis
  then show ?thesis using e w by (auto simp: ext_ok_def holes_remove_ok)
qed

lemma ext_after:
  assumes e: "ext_ok s lo hi W h off sz" and n: "hmap h (off + sz) = Some nsize" and hi: "hi < 2 ^ 32"
  shows "ext_ok s lo hi W (holes_remove (off + sz) h) off (sz + nsize)"
proof -
  let ?b = "off + sz"
  let ?F = "(W ++ hmap h)(off \<mapsto> sz)"
  have ne: "?b \<noteq> off" and w: "W ?b = None" using e n by (auto simp: ext_ok_def)
  have t: "tiled s lo hi ?F" "?F off = Some sz" "?F ?b = Some nsize" using e n ne by (auto simp: ext_ok_def)
  have "unat ?b = unat off + unat sz"
    using tiled_fits[OF t(1,2)] hi unat_add_small[of off sz] by (auto simp: fits_def)
  note j = tiled_join[OF t(1,2,3) this hi]
  have "?F(?b := None, off \<mapsto> sz + nsize) = (W ++ (hmap h)(?b := None))(off \<mapsto> sz + nsize)"
    using e w by (auto simp: fun_eq_iff ext_ok_def map_add_def)
  with j have "tiled s lo hi ((W ++ (hmap h)(?b := None))(off \<mapsto> sz + nsize))" by metis
  then show ?thesis using e w by (auto simp: ext_ok_def holes_remove_ok)
qed

lemma set_hw_eq: "set_hw_words w st = with_mem st (put_at 4 (to_le_bytes w) (lf_mem st))"
  by (simp add: set_hw_words_def write_at_def)

lemma room_hw:
  assumes "room st" "data_start_byte st \<le> w2b st w" "4 dvd w2b st w" "w2b st w \<le> rg_committed (lf_region st)"
  shows "room (set_hw_words w st)" "hw_words (set_hw_words w st) = w"
proof -
  have len: "8 \<le> length (lf_mem st)" using assms(1) data_start[of st] by (auto simp: room_def)
  then show h: "hw_words (set_hw_words w st) = w" by (simp add: set_hw_eq hw_words_def)
  have "leaf_high_water (set_hw_words w st) = w2b st w" using h by (simp add: leaf_high_water_def w2b_def set_hw_eq)
  then show "room (set_hw_words w st)"
    using assms len by (simp add: room_def set_hw_eq length_put_at data_start_byte_def align_slot_def slot_align_def)
qed

lemma seg_hw:
  assumes "room st" "12 \<le> w2b st a"
  shows "seg (set_hw_words v st) a w = seg st a w"
proof -
  have "8 \<le> length (lf_mem st)" using assms(1) data_start[of st] by (auto simp: room_def)
  then show ?thesis using assms(2) by (simp add: seg_def set_hw_eq w2b_def slice_put_after)
qed

lemma start_same [simp]:
  "data_start_byte (st\<lparr>lf_region := rg\<rparr>) = data_start_byte st" "data_start_byte (st\<lparr>lf_holes := h\<rparr>) = data_start_byte st"
  "b2w (st\<lparr>lf_region := rg\<rparr>) n = b2w st n" "b2w (st\<lparr>lf_holes := h\<rparr>) n = b2w st n"
  "w2b (st\<lparr>lf_region := rg\<rparr>) x = w2b st x" "w2b (st\<lparr>lf_holes := h\<rparr>) x = w2b st x"
  "hw_words (st\<lparr>lf_holes := h\<rparr>) = hw_words st" "room (st\<lparr>lf_holes := h\<rparr>) = room st" "seg (st\<lparr>lf_holes := h\<rparr>) x y = seg st x y"
  by (simp_all add: data_start_byte_def align_slot_def slot_align_def w2b_def b2w_def hw_words_def room_def leaf_high_water_def seg_def)

lemma room_changed:
  assumes "room st" "changed_in p q (lf_mem st) m" "8 \<le> p"
  shows "room (with_mem st m)" "hw_words (with_mem st m) = hw_words st"
proof -
  show "hw_words (with_mem st m) = hw_words st" using assms by (simp add: hw_words_def changed_in_u32)
  then show "room (with_mem st m)" using assms(1) changed_in_length[OF assms(2)] by (simp add: room_def leaf_high_water_def)
qed

text \<open>A span at the end of the used part goes back to the free space.\<close>

lemma shrink_ok:
  assumes r: "room st" and e: "ext_ok (lf_off_shift st) (unat (b2w st (data_start_byte st))) (unat (hw_words st)) W h off sz"
    and top: "off + sz = hw_words st"
  shows "space_ok W (set_hw_words off (st\<lparr>lf_holes := h\<rparr>))"
proof -
  let ?s = "lf_off_shift st"
  let ?lo = "unat (b2w st (data_start_byte st))"
  let ?hi = "unat (hw_words st)"
  have t: "tiled ?s ?lo ?hi ((W ++ hmap h)(off \<mapsto> sz))" and n: "(W ++ hmap h) off = None" using e by (simp_all add: ext_ok_def map_add_None)
  then have f: "fits ?s ?lo ?hi off sz" using tiled_fits by (metis fun_upd_same)
  have le: "unat off + unat sz = ?hi" using f top unat_add_small[of off sz] unat_bound[of "hw_words st"] by (auto simp: fits_def)
  have "tiled ?s ?lo (unat off) (W ++ hmap h)"
  proof (rule tiledI)
    fix a w assume a: "(W ++ hmap h) a = Some w"
    then have "a \<noteq> off" using n by auto
    then have "fits ?s ?lo ?hi a w" "apart a w off sz" using a tiled_fits[OF t, of a w] tiled_apart[OF t, of a w off sz] by simp_all
    then show "fits ?s ?lo (unat off) a w" using le by (auto simp: fits_def apart_def)
  next
    fix a w b v assume "(W ++ hmap h) a = Some w" "(W ++ hmap h) b = Some v" "a \<noteq> b"
    moreover have "a \<noteq> off" "b \<noteq> off" using n calculation by auto
    ultimately show "apart a w b v" using tiled_apart[OF t, of a w b v] by simp
  qed
  moreover have "data_start_byte st \<le> w2b st off"
  proof -
    have "?lo \<le> unat off" using f by (simp add: fits_def)
    then show ?thesis using data_start[of st] r mult_le_mono1[of ?lo "unat off" "2 ^ ?s"] by (simp add: room_def w2b_def)
  qed
  moreover have "w2b st off \<le> rg_committed (lf_region st)" using fits_bytes(5)[OF r f] r by (simp add: room_def)
  ultimately show ?thesis
    using e r fits_bytes(2)[OF r f] room_hw[of "st\<lparr>lf_holes := h\<rparr>" off] by (simp add: space_ok_def ext_ok_def set_hw_eq)
qed

text \<open>A span anywhere else becomes a hole.\<close>

lemma new_hole_ok:
  assumes r: "room st" and e: "ext_ok (lf_off_shift st) (unat (b2w st (data_start_byte st))) (unat (hw_words st)) W h off sz"
  shows "\<exists>m. write_hole_header off (word_of_nat (w2b st sz)) (st\<lparr>lf_holes := h'\<rparr>) = Some (with_mem (st\<lparr>lf_holes := h'\<rparr>) m) \<and>
    changed_in (w2b st off) (w2b st off + w2b st sz) (lf_mem st) m \<and> space_ok W (with_mem st m\<lparr>lf_holes := holes_insert off sz h\<rparr>)"
proof -
  let ?st = "st\<lparr>lf_holes := h'\<rparr>"
  have t: "tiled_st st ((W ++ hmap h)(off \<mapsto> sz))" and n: "W off = None" using e by (simp_all add: ext_ok_def)
  then have f: "fits (lf_off_shift st) (unat (b2w st (data_start_byte st))) (unat (hw_words st)) off sz" using tiled_fits by (metis fun_upd_same)
  obtain m where m: "write_hole_header off (word_of_nat (w2b st sz)) ?st = Some (with_mem ?st m)"
    "changed_in (w2b st off) (w2b st off + w2b st sz) (lf_mem st) m"
    using write_hole_header_ok[of ?st off sz] r f by auto
  have "8 \<le> w2b st off" using fits_bytes(1)[OF r f] by simp
  note rc = room_changed[OF r m(2) this]
  have "W ++ (hmap h)(off \<mapsto> sz) = (W ++ hmap h)(off \<mapsto> sz)" by simp
  then have "space_ok W (with_mem st m\<lparr>lf_holes := holes_insert off sz h\<rparr>)"
    using e rc t n by (auto simp: space_ok_def ext_ok_def holes_insert_ok)
  then show ?thesis using m by blast
qed

lemma ext_start:
  assumes "space_ok W st" "W off = Some sz"
  shows "ext_ok (lf_off_shift st) (unat (b2w st (data_start_byte st))) (unat (hw_words st)) (W(off := None)) (lf_holes st) off sz"
proof -
  have n: "hmap (lf_holes st) off = None" using assms by (auto simp: space_ok_def)
  then have "(W(off := None) ++ hmap (lf_holes st))(off \<mapsto> sz) = W ++ hmap (lf_holes st)"
    using assms(2) by (auto simp: fun_eq_iff map_add_def split: option.split)
  then show ?thesis using assms n by (auto simp: ext_ok_def space_ok_def)
qed

lemma ext_apart:
  "ext_ok s lo hi W h off sz \<Longrightarrow> W a = Some w \<Longrightarrow> apart a w off sz \<and> fits s lo hi a w"
proof -
  assume e: "ext_ok s lo hi W h off sz" "W a = Some w"
  let ?F = "(W ++ hmap h)(off \<mapsto> sz)"
  have "a \<noteq> off" "hmap h a = None" using e by (auto simp: ext_ok_def)
  then have "?F a = Some w" "?F off = Some sz" using e(2) by (simp_all add: map_add_def)
  then show ?thesis using e(1) \<open>a \<noteq> off\<close> tiled_apart tiled_fits unfolding ext_ok_def by blast
qed

definition head_kept :: "bytes \<Rightarrow> bytes \<Rightarrow> bool" where
  "head_kept m m' \<longleftrightarrow> length m' = length m \<and> slice 8 12 m' = slice 8 12 m \<and> (slice 0 4 m' = slice 0 4 m \<or> slice 0 4 m' = LEAF_MAGIC_GEN)"

lemma head_kept_refl [simp]: "head_kept m m"
  by (simp add: head_kept_def)

lemma head_kept_trans: "head_kept m m' \<Longrightarrow> head_kept m' m'' \<Longrightarrow> head_kept m m''"
  by (auto simp: head_kept_def)

lemma head_kept_changed: "changed_in p q m m' \<Longrightarrow> 12 \<le> p \<Longrightarrow> head_kept m m'"
  using changed_in_slice[of p q m m' 12 8] changed_in_slice[of p q m m' 4 0] by (simp add: head_kept_def changed_in_length)

definition kept :: "(u32 \<rightharpoonup> u32) \<Rightarrow> leaf_store \<Rightarrow> leaf_store \<Rightarrow> bool" where
  "kept W st st' \<longleftrightarrow> head_kept (lf_mem st) (lf_mem st') \<and> (\<forall>a w. W a = Some w \<longrightarrow> seg st' a w = seg st a w)"

lemma leaf_kept_trans: "kept W st st' \<Longrightarrow> kept W' st' st'' \<Longrightarrow> W' \<subseteq>\<^sub>m W \<Longrightarrow> kept W' st st''"
  unfolding kept_def map_le_def by (metis domI head_kept_trans)

lemma kept_changed:
  assumes c: "changed_in p q (lf_mem st) m" "12 \<le> p" and V: "\<And>a w. W a = Some w \<Longrightarrow> w2b st a + w2b st w \<le> p \<or> q \<le> w2b st a"
  shows "kept W st (with_mem st m\<lparr>lf_holes := h\<rparr>)"
  using head_kept_changed[OF c] V changed_in_slice[OF c(1)] by (simp add: kept_def seg_def)

lemma kept_hw:
  assumes "room st" "\<And>a w. W a = Some w \<Longrightarrow> 12 \<le> w2b st a"
  shows "kept W st (set_hw_words v st)"
proof -
  have l: "8 \<le> length (lf_mem st)" using assms(1) data_start[of st] by (auto simp: room_def)
  then have "head_kept (lf_mem st) (put_at 4 (to_le_bytes v) (lf_mem st))" by (simp add: head_kept_def length_put_at slice_put_after slice_put_before)
  then show ?thesis using assms by (simp add: kept_def seg_hw) (simp add: set_hw_eq)
qed

lemma insert_hole_locked_ok:
  assumes sp: "space_ok W st" and off: "W off = Some sz"
  shows "\<exists>m h. insert_hole_locked off sz st = Some (with_mem st m\<lparr>lf_holes := h\<rparr>) \<and>
    space_ok (W(off := None)) (with_mem st m\<lparr>lf_holes := h\<rparr>) \<and> kept (W(off := None)) st (with_mem st m\<lparr>lf_holes := h\<rparr>)"
proof -
  let ?W = "W(off := None)" and ?h = "lf_holes st" and ?hw = "hw_words st"
  let ?ext = "ext_ok (lf_off_shift st) (unat (b2w st (data_start_byte st))) (unat ?hw) ?W"
  have r: "room st" and hi: "unat ?hw < 2 ^ 32" using sp unat_bound[of ?hw] by (simp_all add: space_ok_def)
  obtain h1 hoff sz1 where p: "(case holes_before off ?h of
       Some (poff, psize) \<Rightarrow> if poff + psize = off then (holes_remove poff ?h, poff, sz + psize) else (?h, off, sz)
     | None \<Rightarrow> (?h, off, sz)) = (h1, hoff, sz1)" and e1: "?ext h1 hoff sz1"
  proof -
    note e = ext_start[OF sp off]
    have "?ext (holes_remove poff ?h) poff (sz + psize)" if "holes_before off ?h = Some (poff, psize)" "poff + psize = off" for poff psize
      using ext_before[OF e _ that(2) hi] holes_before_ok[OF _ that(1)] sp by (simp add: space_ok_def)
    then show ?thesis using that e by (cases "holes_before off ?h"; cases "fst (the (holes_before off ?h)) + snd (the (holes_before off ?h)) = off") auto
  qed
  obtain h2 sz2 where n: "(case holes_get (hoff + sz1) h1 of Some nsize \<Rightarrow> (holes_remove (hoff + sz1) h1, sz1 + nsize)
     | None \<Rightarrow> (h1, sz1)) = (h2, sz2)" and e2: "?ext h2 hoff sz2"
    using that e1 ext_after[OF e1 _ hi] by (cases "holes_get (hoff + sz1) h1") (auto simp: holes_get_def)
  have e12: "12 \<le> w2b st hoff"
    using fits_bytes(1)[OF r] tiled_fits[of _ _ _ _ hoff sz2] e2 unfolding ext_ok_def by (metis fun_upd_same)
  have ap: "apart a w hoff sz2" "12 \<le> w2b st a" if "?W a = Some w" for a w
    using ext_apart[OF e2 that] fits_bytes(1)[OF r, of a w] by auto
  show ?thesis
  proof (cases "hoff + sz2 = ?hw")
    case True
    let ?st = "set_hw_words hoff (st\<lparr>lf_holes := h2\<rparr>)"
    have "kept ?W st ?st" using kept_hw[of "st\<lparr>lf_holes := h2\<rparr>" ?W hoff] ap(2) r by (simp add: kept_def del: fun_upd_apply)
    moreover have "?st = with_mem st (put_at 4 (to_le_bytes hoff) (lf_mem st))\<lparr>lf_holes := h2\<rparr>" by (simp add: set_hw_eq)
    moreover have "insert_hole_locked off sz st = Some ?st" using True p n by (simp add: insert_hole_locked_def Let_def)
    ultimately show ?thesis using shrink_ok[OF r e2 True] by metis
  next
    case False
    obtain m where m: "write_hole_header hoff (word_of_nat (w2b st sz2)) (st\<lparr>lf_holes := h2\<rparr>) = Some (with_mem (st\<lparr>lf_holes := h2\<rparr>) m)"
      "changed_in (w2b st hoff) (w2b st hoff + w2b st sz2) (lf_mem st) m" "space_ok ?W (with_mem st m\<lparr>lf_holes := holes_insert hoff sz2 h2\<rparr>)"
      using new_hole_ok[OF r e2, of h2] by blast
    have "kept ?W st (with_mem st m\<lparr>lf_holes := holes_insert hoff sz2 h2\<rparr>)" 
      using e12 apart_bytes[OF ap(1)] by (intro kept_changed[OF m(2)]) auto
    then show ?thesis using False m p n by (auto simp: insert_hole_locked_def Let_def)
  qed
qed

section \<open>Slots\<close>

text \<open>The bytes of a slot that holds a payload, in the old form (8 bytes of header) or the new one (12, with an even generation).\<close>

definition slot_image :: "bytes \<Rightarrow> bytes \<Rightarrow> bool" where
  "slot_image sg bs \<longleftrightarrow>
     (let raw = u32_at sg 0; hl = header_len raw
      in unat (raw AND NOT HAS_GEN) = length sg \<and> (raw AND HAS_GEN \<noteq> 0 \<longrightarrow> u32_at sg 8 AND 1 = 0) \<and>
         unat (u32_at sg 4) = length bs \<and> hl + length bs \<le> length sg \<and> slice hl (hl + length bs) sg = bs)"

lemma u32_seg: "k + 4 \<le> w2b st w \<Longrightarrow> u32_at (seg st a w) k = u32_at (lf_mem st) (w2b st a + k)"
  by (simp add: u32_at_def seg_def slice_slice add.assoc)

lemma and_not_one: "raw AND (1 :: u32) = 0 \<Longrightarrow> raw AND NOT 1 = raw"
proof -
  assume "raw AND 1 = 0"
  moreover have "raw = (raw AND NOT 1) OR (raw AND 1)" by (rule bit_word_eqI) (auto simp: bit_simps)
  ultimately show ?thesis by simp
qed

lemma even_mark:
  assumes "even (v :: u32)"
  shows "(v OR 1) AND NOT 1 = v" "(v OR 1) AND 1 = (1 :: u32)" "v AND 1 = 0"
proof -
  show v: "v AND 1 = 0" using assms by (simp add: and_one_eq even_iff_mod_2_eq_zero)
  have "(v OR 1) AND NOT 1 = v AND NOT 1" by (rule bit_word_eqI) (auto simp: bit_simps)
  then show "(v OR 1) AND NOT 1 = v" using and_not_one[OF v] by simp
  show "(v OR 1) AND 1 = (1 :: u32)" by (rule bit_word_eqI) (auto simp: bit_simps)
qed

lemma span_bytes:
  assumes "space_ok W st" "W a = Some w"
  shows "12 \<le> w2b st a" "4 dvd w2b st a" "4 dvd w2b st w" "4 \<le> w2b st w" "w2b st a + w2b st w \<le> leaf_high_water st"
    "w2b st a + w2b st w \<le> length (lf_mem st)"
proof -
  have r: "room st" and "tiled_st st (W ++ hmap (lf_holes st))" using assms(1) by (simp_all add: space_ok_def)
  note fits_bytes[OF r tiled_fits[OF this(2) space_used[OF assms]]]
  then show "12 \<le> w2b st a" "4 dvd w2b st a" "4 dvd w2b st w" "4 \<le> w2b st w" "w2b st a + w2b st w \<le> leaf_high_water st"
    "w2b st a + w2b st w \<le> length (lf_mem st)"
    by blast+
qed

lemma image_bytes:
  assumes sp: "space_ok W st" "W a = Some w" and im: "slot_image (seg st a w) bs"
  shows "header_len (u32_at (lf_mem st) (w2b st a)) + length bs \<le> w2b st w" (is ?A)
    "unat (u32_at (lf_mem st) (w2b st a) AND NOT HAS_GEN) = w2b st w" (is ?B)
    "u32_at (lf_mem st) (w2b st a) AND HAS_GEN \<noteq> 0 \<Longrightarrow> u32_at (lf_mem st) (w2b st a + 8) AND 1 = 0"
    "unat (u32_at (lf_mem st) (w2b st a + 4)) = length bs" (is ?D)
    "slice (w2b st a + header_len (u32_at (lf_mem st) (w2b st a))) (w2b st a + header_len (u32_at (lf_mem st) (w2b st a)) + length bs) (lf_mem st) = bs" (is ?E)
proof -
  note b = span_bytes[OF sp]
  have len: "length (seg st a w) = w2b st w" using b(6) by (simp add: seg_def length_slice)
  have raw: "u32_at (seg st a w) 0 = u32_at (lf_mem st) (w2b st a)" using u32_seg[of 0 st w a] b(4) by simp
  note i = im[unfolded slot_image_def Let_def raw len]
  have 8: "8 \<le> header_len (u32_at (lf_mem st) (w2b st a))" by (simp add: header_len_def)
  show ?A ?B using i by simp_all
  then have "8 \<le> w2b st w" using 8 by linarith
  then show ?D using i u32_seg[of 4 st w a] by simp
  let ?h = "header_len (u32_at (lf_mem st) (w2b st a))"
  have "slice ?h (?h + length bs) (seg st a w) = slice (w2b st a + ?h) (w2b st a + ?h + length bs) (lf_mem st)"
    unfolding seg_def using \<open>?A\<close> by (subst slice_slice) (simp_all add: add.assoc)
  then show ?E using i by metis
  assume "u32_at (lf_mem st) (w2b st a) AND HAS_GEN \<noteq> 0"
  then have "u32_at (seg st a w) 8 AND 1 = 0" "12 \<le> w2b st w" using i by (simp_all add: header_len_def)
  then show "u32_at (lf_mem st) (w2b st a + 8) AND 1 = 0" using u32_seg[of 8 st w a] by simp
qed

lemma slot_reads:
  assumes sp: "space_ok W st" "W a = Some w" and im: "slot_image (seg st a w) bs"
  shows "leaf_get a st = Some bs" "try_read a st = Some (LeafOk bs)"
proof -
  let ?o = "w2b st a" and ?m = "lf_mem st"
  let ?raw = "u32_at ?m ?o"
  note b = span_bytes[OF sp] and i = image_bytes[OF sp im]
  have hl: "header_len ?raw = (if ?raw AND HAS_GEN \<noteq> 0 then 12 else 8)" by (simp add: header_len_def)
  have cm: "is_committed n (lf_region st)" if "n \<le> ?o + w2b st w" for n
    using that b(5) sp(1) by (simp add: is_committed_def space_ok_def room_def)
  have "8 \<le> w2b st w" using i(1) hl by (auto split: if_splits)
  moreover have "?o + header_len ?raw + length bs \<le> length ?m" using i(1) b(6) by linarith
  ultimately show "leaf_get a st = Some bs" using b(6) i(4,5) by (simp add: leaf_get_def Let_def)
  have d: "4 dvd ?o + 4" "4 dvd ?o + 8" "4 dvd ?o + 12" using b(2) by simp_all
  have rd: "read_atomic (?o + header_len ?raw) (length bs) (lf_region st) = Some bs"
    using i(1,5) b(6) d hl by (subst read_atomic_eq) (auto simp: mod_eq_0_iff_dvd)
  show "try_read a st = Some (LeafOk bs)"
  proof (cases "?raw AND HAS_GEN = 0")
    case True
    then have "unat ?raw = w2b st w" using i(2) and_not_one by metis
    then show ?thesis using True b i(1,4) hl cm rd d by (simp add: try_read_def Let_def atomic_load_ok)
  next
    case False
    then show ?thesis using b i(1,2,3,4) hl cm rd d by (simp add: try_read_def Let_def atomic_load_ok)
  qed
qed

lemma slot_size_ok:
  assumes sp: "space_ok W st" "W a = Some w" and im: "slot_image (seg st a w) bs"
  shows "\<exists>sz. slot_size_bytes_at a st = Some sz \<and> unat sz = w2b st w \<and> b2w st (unat sz) = w"
  using span_bytes[OF sp] image_bytes(2)[OF sp im] by (auto simp: slot_size_bytes_at_def atomic_load_ok b2w_w2b)

lemma mark_unreadable_ok:
  assumes sp: "space_ok W st" "W a = Some w" and im: "slot_image (seg st a w) bs"
  shows "\<exists>m. mark_unreadable a st = Some (with_mem st m) \<and> space_ok W (with_mem st m) \<and> kept (W(a := None)) st (with_mem st m)"
proof -
  let ?o = "w2b st a" and ?m = "lf_mem st"
  note b = span_bytes[OF sp] and i = image_bytes[OF sp im]
  have r: "room st" and t: "tiled_st st (W ++ hmap (lf_holes st))" using sp(1) by (simp_all add: space_ok_def)
  have "\<exists>m. mark_unreadable a st = Some (with_mem st m) \<and> changed_in ?o (?o + w2b st w) ?m m"
  proof (cases "u32_at ?m ?o AND HAS_GEN = 0")
    case True
    then show ?thesis using b by (intro exI[of _ ?m]) (simp add: mark_unreadable_def Let_def atomic_load_ok)
  next
    case False
    then have "12 \<le> w2b st w" using i(1) by (simp add: header_len_def)
    moreover have "4 dvd ?o + 8" using b(2) by simp
    ultimately show ?thesis using False b
      by (intro exI[of _ "put_at (?o + 8) (to_le_bytes HOLE_GEN) ?m"])
        (simp add: mark_unreadable_def Let_def atomic_load_ok atomic_store_ok changed_in_put)
  qed
  then obtain m where m: "mark_unreadable a st = Some (with_mem st m)" "changed_in ?o (?o + w2b st w) ?m m" by blast
  note rc = room_changed[OF r m(2)]
  have "kept (W(a := None)) st (with_mem st m)"
    unfolding kept_def
  proof (intro conjI allI impI)
    show "head_kept (lf_mem st) (lf_mem (with_mem st m))" using head_kept_changed[OF m(2) b(1)] by simp
    fix c v assume "(W(a := None)) c = Some v"
    then have "c \<noteq> a" "W c = Some v" by (auto split: if_splits)
    then have "apart c v a w" using tiled_apart[OF t] space_used[OF sp(1)] sp(2) by metis
    then show "seg (with_mem st m) c v = seg st c v" using seg_changed[OF m(2)] by blast
  qed
  moreover have "space_ok W (with_mem st m)" using sp(1) rc b(1) by (simp add: space_ok_def)
  ultimately show ?thesis using m(1) by blast
qed

section \<open>The invariant\<close>

type_synonym used = "u32 \<rightharpoonup> (u32 \<times> bytes)"

abbreviation sizes :: "used \<Rightarrow> u32 \<rightharpoonup> u32" where
  "sizes U \<equiv> \<lambda>a. map_option fst (U a)"

text \<open>The header names the format and the shift, and the used slots hold their payloads.\<close>

definition header_ok :: "leaf_store \<Rightarrow> bool" where
  "header_ok st \<longleftrightarrow> slice 0 4 (lf_mem st) \<in> {LEAF_MAGIC, LEAF_MAGIC_GEN} \<and> unat (slice 8 12 (lf_mem st) ! 0) = lf_off_shift st"

definition contents :: "used \<Rightarrow> leaf_store \<Rightarrow> bool" where
  "contents U st \<longleftrightarrow> header_ok st \<and> (\<forall>a w bs. U a = Some (w, bs) \<longrightarrow> slot_image (seg st a w) bs)"

text \<open>The slots that wait for a flush are used slots, each once, with their sizes counted.\<close>

definition pending_ok :: "used \<Rightarrow> leaf_store \<Rightarrow> bool" where
  "pending_ok U st \<longleftrightarrow> distinct (map (\<lambda>(_, a, _). a) (lf_pending st)) \<and>
     (\<forall>(e, a, sz) \<in> set (lf_pending st). \<exists>w bs. U a = Some (w, bs) \<and> unat sz = w2b st w) \<and>
     lf_retired_bytes st = sum_list (map (\<lambda>(_, _, sz). unat sz) (lf_pending st))"

definition waiting :: "leaf_store \<Rightarrow> u32 set" where
  "waiting st = (\<lambda>(_, a, _). a) ` set (lf_pending st)"

definition leaf_inv :: "used \<Rightarrow> leaf_store \<Rightarrow> bool" where
  "leaf_inv U st \<longleftrightarrow> space_ok (sizes U) st \<and> contents U st \<and> even (lf_gen_seq st) \<and> pending_ok U st"

lemma contents_kept:
  assumes c: "contents U st" and le: "U' \<subseteq>\<^sub>m U" and k: "kept (sizes U') st st'" and s: "lf_off_shift st' = lf_off_shift st"
  shows "contents U' st'"
proof -
  have "slot_image (seg st' a w) bs" if "U' a = Some (w, bs)" for a w bs
  proof -
    have "U a = Some (w, bs)" using le that unfolding map_le_def by (metis domI)
    then show ?thesis using c k that by (simp add: contents_def kept_def)
  qed
  moreover have "header_ok st'" using c k s by (auto simp: contents_def header_ok_def kept_def head_kept_def)
  ultimately show ?thesis by (simp add: contents_def)
qed

text \<open>The parts that the invariant reads are the region, the holes and the shift.\<close>

lemma same_memory:
  assumes "lf_region st' = lf_region st" "lf_off_shift st' = lf_off_shift st"
  shows "w2b st' = w2b st" "b2w st' = b2w st" "hw_words st' = hw_words st" "data_start_byte st' = data_start_byte st" "seg st' = seg st" "room st' = room st"
    "contents U st' = contents U st"
proof -
  show e: "w2b st' = w2b st" "b2w st' = b2w st" "hw_words st' = hw_words st" "data_start_byte st' = data_start_byte st"
    using assms by (auto simp: fun_eq_iff w2b_def b2w_def data_start_byte_def align_slot_def slot_align_def hw_words_def)
  show f: "seg st' = seg st" "room st' = room st" using assms e by (auto simp: fun_eq_iff seg_def room_def leaf_high_water_def)
  show "contents U st' = contents U st" using assms f by (simp add: contents_def header_ok_def)
qed

lemma same_store:
  assumes "lf_region st' = lf_region st" "lf_holes st' = lf_holes st" "lf_off_shift st' = lf_off_shift st"
  shows "space_ok W st' = space_ok W st"
  using assms same_memory[OF assms(1,3)] by (simp add: space_ok_def)

text \<open>What the list of waiting slots says does not depend on the memory, nor on slots that do not wait.\<close>

lemma pending_cong:
  assumes "pending_ok U st" "\<And>a. a \<in> waiting st \<Longrightarrow> U' a = U a"
    "lf_pending st' = lf_pending st" "lf_retired_bytes st' = lf_retired_bytes st" "lf_off_shift st' = lf_off_shift st"
  shows "pending_ok U' st'"
proof -
  have "\<exists>w bs. U' a = Some (w, bs) \<and> unat sz = w2b st' w" if "(e, a, sz) \<in> set (lf_pending st)" for e a sz
  proof -
    have "a \<in> waiting st" using that by (force simp: waiting_def)
    then show ?thesis using assms(1,5) that assms(2)[of a] by (auto simp: pending_ok_def w2b_def)
  qed
  then show ?thesis using assms(1,3,4) by (auto simp: pending_ok_def)
qed

lemma sizes_del: "sizes (U(a := None)) = (sizes U)(a := None)"
  by auto

lemma sizes_upd: "sizes (U(a \<mapsto> (w, bs))) = (sizes U)(a \<mapsto> w)"
  by auto

lemma del_le: "U(a := None) \<subseteq>\<^sub>m U"
  by (simp add: map_le_def)

lemma slot_freed:
  assumes sp: "space_ok (sizes U) st" and im: "contents U st" and a: "U a = Some (w, bs)"
  shows "\<exists>m h. Option.bind (mark_unreadable a st) (insert_hole_locked a w) = Some (with_mem st m\<lparr>lf_holes := h\<rparr>) \<and>
    space_ok (sizes (U(a := None))) (with_mem st m\<lparr>lf_holes := h\<rparr>) \<and> contents (U(a := None)) (with_mem st m\<lparr>lf_holes := h\<rparr>)"
proof -
  have s: "sizes U a = Some w" and i: "slot_image (seg st a w) bs" using a im by (simp_all add: contents_def)
  obtain m where m: "mark_unreadable a st = Some (with_mem st m)" "space_ok (sizes U) (with_mem st m)"
    "kept ((sizes U)(a := None)) st (with_mem st m)"
    using mark_unreadable_ok[OF sp s i] by blast
  obtain m' h where h: "insert_hole_locked a w (with_mem st m) = Some (with_mem st m'\<lparr>lf_holes := h\<rparr>)"
    "space_ok ((sizes U)(a := None)) (with_mem st m'\<lparr>lf_holes := h\<rparr>)" "kept ((sizes U)(a := None)) (with_mem st m) (with_mem st m'\<lparr>lf_holes := h\<rparr>)"
    using insert_hole_locked_ok[OF m(2) s] by auto
  have "kept ((sizes U)(a := None)) st (with_mem st m'\<lparr>lf_holes := h\<rparr>)" using leaf_kept_trans[OF m(3) h(3)] by simp
  then have "contents (U(a := None)) (with_mem st m'\<lparr>lf_holes := h\<rparr>)" by (intro contents_kept[OF im del_le]) (simp_all only: sizes_del, simp)
  then show ?thesis using m h unfolding sizes_del by auto
qed

lemma leaf_free_ok:
  assumes inv: "leaf_inv U st" and a: "U a \<noteq> None" "a \<notin> waiting st"
  shows "\<exists>st'. leaf_free a st = Some st' \<and> leaf_inv (U(a := None)) st'"
proof -
  obtain w bs where u: "U a = Some (w, bs)" using a by auto
  have sp: "space_ok (sizes U) st" and im: "contents U st" using inv by (simp_all add: leaf_inv_def)
  obtain sz where sz: "slot_size_bytes_at a st = Some sz" "b2w st (unat sz) = w"
    using slot_size_ok[OF sp _, of a w bs] u im by (auto simp: contents_def)
  obtain m h where m: "Option.bind (mark_unreadable a st) (insert_hole_locked a w) = Some (with_mem st m\<lparr>lf_holes := h\<rparr>)"
    "space_ok (sizes (U(a := None))) (with_mem st m\<lparr>lf_holes := h\<rparr>)" "contents (U(a := None)) (with_mem st m\<lparr>lf_holes := h\<rparr>)"
    using slot_freed[OF sp im u] by blast
  have "pending_ok (U(a := None)) (with_mem st m\<lparr>lf_holes := h\<rparr>)"
    by (rule pending_cong[of U st]) (use inv a(2) in \<open>auto simp: leaf_inv_def\<close>)
  then show ?thesis using inv sz m by (simp add: leaf_free_def leaf_inv_def)
qed

lemma leaf_retire_ok:
  assumes inv: "leaf_inv U st" and a: "U a \<noteq> None" "a \<notin> waiting st"
  shows "\<exists>st' n. leaf_retire a st = Some (st', n) \<and> leaf_inv U st' \<and> waiting st' = insert a (waiting st)"
proof -
  obtain w bs where u: "U a = Some (w, bs)" using a by auto
  have sp: "space_ok (sizes U) st" and im: "contents U st" using inv by (simp_all add: leaf_inv_def)
  obtain sz where sz: "slot_size_bytes_at a st = Some sz" "unat sz = w2b st w"
    using slot_size_ok[OF sp _, of a w bs] u im by (auto simp: contents_def)
  let ?st = "st\<lparr>lf_pending := lf_pending st @ [(lf_epoch st, a, sz)], lf_retired_bytes := lf_retired_bytes st + unat sz\<rparr>"
  have "space_ok (sizes U) ?st" "contents U ?st"
    using sp im same_store[of ?st st] same_memory(7)[of ?st st] by simp_all
  moreover have "pending_ok U ?st"
    using inv a(2) u sz(2) by (fastforce simp: leaf_inv_def pending_ok_def waiting_def w2b_def)
  ultimately show ?thesis using inv sz by (auto simp: leaf_retire_def leaf_inv_def Let_def waiting_def)
qed

section \<open>Allocation\<close>

text \<open>The file behind the region grows within the region only.\<close>

definition grows_within :: "grower \<Rightarrow> nat \<Rightarrow> bool" where
  "grows_within grow n \<longleftrightarrow> (\<forall>t c. grow t = Some c \<longrightarrow> t \<le> n \<and> c \<le> n)"

lemma commit_bounded:
  assumes "ensure_committed grow t rg = (rg', ok)" "grows_within grow (length (rg_mem rg))" "rg_committed rg \<le> length (rg_mem rg)"
  shows "rg_mem rg' = rg_mem rg" "rg_committed rg \<le> rg_committed rg'" "rg_committed rg' \<le> length (rg_mem rg)" "ok \<Longrightarrow> t \<le> rg_committed rg'"
    "\<not> ok \<Longrightarrow> rg' = rg"
  using assms by (auto simp: ensure_committed_def is_committed_def grows_within_def split: if_splits option.splits)

lemma min_hole_ok: "lf_off_shift st \<le> 4 \<Longrightarrow> 0 < unat (min_hole_words st) \<and> 12 \<le> w2b st (min_hole_words st) \<and> w2b st (min_hole_words st) \<le> 16 \<and> 4 dvd w2b st (min_hole_words st)"
  using data_start[of st] by (simp add: min_hole_words_def data_start_byte_def)

definition taken :: "(u32 \<rightharpoonup> u32) \<Rightarrow> u32 \<Rightarrow> leaf_store \<Rightarrow> leaf_store \<Rightarrow> u32 \<Rightarrow> u32 \<Rightarrow> bool" where
  "taken W need st st' a w \<longleftrightarrow> (\<exists>rg h. st' = st\<lparr>lf_region := rg, lf_holes := h\<rparr> \<and> length (rg_mem rg) = length (lf_mem st)) \<and>
     space_ok (W(a \<mapsto> w)) st' \<and> W a = None \<and> unat need \<le> unat w \<and> unat w < unat need + unat (min_hole_words st) \<and> kept W st st'"

lemma alloc_fresh:
  assumes sp: "space_ok W st" and nd: "0 < unat need" "4 dvd unat need * 2 ^ lf_off_shift st" "unat (hw_words st) + unat need < 2 ^ 32"
    and g: "grows_within grow (length (lf_mem st))"
    and e: "ensure_committed grow (w2b st (hw_words st + need)) (lf_region st) = (rg, True)"
  shows "taken W need st (set_hw_words (hw_words st + need) (st\<lparr>lf_region := rg\<rparr>)) (hw_words st) need"
proof -
  let ?s = "lf_off_shift st" and ?lo = "unat (b2w st (data_start_byte st))" and ?hw = "hw_words st" and ?H = "hmap (lf_holes st)"
  let ?r = "st\<lparr>lf_region := rg\<rparr>"
  let ?st = "set_hw_words (?hw + need) ?r"
  have r: "room st" and t: "tiled_st st (W ++ ?H)" using sp by (simp_all add: space_ok_def)
  have u: "unat (?hw + need) = unat ?hw + unat need" by (rule unat_add_small[OF nd(3)])
  have b: "w2b st (?hw + need) = leaf_high_water st + w2b st need" by (simp add: w2b_def u leaf_high_water_def distrib_right)
  note c = commit_bounded[OF e g]
  have "room ?r" using r c by (auto simp: room_def leaf_high_water_def hw_words_def)
  moreover have "4 dvd w2b st (?hw + need)" unfolding b using r nd(2) by (simp add: room_def w2b_def)
  ultimately have rs: "room ?st" "hw_words ?st = ?hw + need"
    using room_hw[of ?r "?hw + need"] r c b by (auto simp: room_def)
  have lo: "?lo \<le> unat ?hw"
  proof -
    have "?lo * 2 ^ ?s \<le> unat ?hw * 2 ^ ?s" using data_start[of st] r by (simp add: room_def w2b_def leaf_high_water_def)
    then show ?thesis by simp
  qed
  have below: "fits ?s ?lo (unat ?hw) a w" if "(W ++ ?H) a = Some w" for a w using tiled_fits[OF t that] .
  have n: "(W ++ ?H) ?hw = None"
    using below by (metis fits_def le_add1 not_le less_add_same_cancel1 not_None_eq)
  have "tiled ?s ?lo (unat ?hw + unat need) ((W ++ ?H)(?hw \<mapsto> need))"
  proof (rule tiled_add)
    show "tiled ?s ?lo (unat ?hw + unat need) (W ++ ?H)"
      by (rule tiled_mono[OF t]) simp
    show "fits ?s ?lo (unat ?hw + unat need) ?hw need" using lo nd r by (simp add: fits_def room_def leaf_high_water_def w2b_def)
    fix a w assume "(W ++ ?H) a = Some w" "a \<noteq> ?hw"
    then show "apart ?hw need a w" using below[of a w] by (simp add: fits_def apart_def)
  qed
  moreover have "W(?hw \<mapsto> need) ++ ?H = (W ++ ?H)(?hw \<mapsto> need)" using n by (auto simp: fun_eq_iff map_add_def split: option.splits)
  ultimately have space: "space_ok (W(?hw \<mapsto> need)) ?st" using sp rs u n by (auto simp: space_ok_def set_hw_eq)
  have rm: "rg_mem rg = lf_mem st" using c(1) r by (simp add: room_def)
  have "kept W ?r ?st" by (rule kept_hw[OF \<open>room ?r\<close>]) (use span_bytes(1)[OF sp] in simp)
  then have "kept W st ?st" using rm by (simp add: kept_def seg_def)
  moreover have "length (lf_mem ?st) = length (lf_mem st)" using calculation by (simp add: kept_def head_kept_def)
  moreover have "\<exists>rg' h. ?st = st\<lparr>lf_region := rg', lf_holes := h\<rparr>" by (auto simp: set_hw_eq intro!: exI[of _ "lf_holes st"])
  ultimately show ?thesis using space n min_hole_ok[of st] r unfolding taken_def by (auto simp: room_def)
qed

lemma alloc_whole:
  assumes sp: "space_ok W st" and h: "hmap (lf_holes st) a = Some w" and nd: "unat need \<le> unat w" "unat w < unat need + unat (min_hole_words st)"
  shows "taken W need st (st\<lparr>lf_holes := holes_remove a (lf_holes st)\<rparr>) a w"
proof -
  let ?H = "hmap (lf_holes st)"
  have wf: "holes_wf (lf_holes st)" and n: "W a = None" using sp h by (auto simp: space_ok_def)
  have "W(a \<mapsto> w) ++ ?H(a := None) = W ++ ?H" using h by (auto simp: fun_eq_iff map_add_def split: option.split)
  then have "space_ok (W(a \<mapsto> w)) (st\<lparr>lf_holes := holes_remove a (lf_holes st)\<rparr>)"
    using sp by (auto simp: space_ok_def holes_remove_ok)
  then show ?thesis using n nd by (auto simp: taken_def kept_def intro!: exI[of _ "lf_region st"])
qed

lemma alloc_split:
  assumes sp: "space_ok W st" and h: "hmap (lf_holes st) a = Some w" and nd: "0 < unat need" "unat need < unat w" "4 dvd unat need * 2 ^ lf_off_shift st"
  shows "\<exists>st2. write_hole_header (a + need) (word_of_nat (w2b st (w - need))) (st\<lparr>lf_holes := holes_remove a (lf_holes st)\<rparr>) = Some st2 \<and>
    taken W need st (st2\<lparr>lf_holes := holes_insert (a + need) (w - need) (lf_holes st2)\<rparr>) a need"
proof -
  let ?H = "hmap (lf_holes st)" and ?h = "holes_remove a (lf_holes st)" and ?W = "W(a \<mapsto> need)" and ?F = "W ++ hmap (lf_holes st)"
  have r: "room st" and wf: "holes_wf (lf_holes st)" and n: "W a = None" and t: "tiled_st st ?F" and d: "dom W \<inter> dom ?H = {}"
    using sp h by (auto simp: space_ok_def)
  have f: "?F a = Some w" using h by simp
  have "unat (hw_words st) < 2 ^ 32" using unat_bound[of "hw_words st"] by simp
  note cut = tiled_cut[OF t f nd this]
  have ne: "a + need \<noteq> a" using cut(3) nd(1) by auto
  have "(?W ++ hmap ?h)(a + need \<mapsto> w - need) = ?F(a \<mapsto> need, a + need \<mapsto> w - need)"
    using wf by (auto simp: fun_eq_iff map_add_def holes_remove_ok split: option.split)
  then have "ext_ok (lf_off_shift st) (unat (b2w st (data_start_byte st))) (unat (hw_words st)) ?W ?h (a + need) (w - need)"
    using cut d n ne wf by (auto simp: ext_ok_def holes_remove_ok)
  then obtain m where m: "write_hole_header (a + need) (word_of_nat (w2b st (w - need))) (st\<lparr>lf_holes := ?h\<rparr>) = Some (with_mem (st\<lparr>lf_holes := ?h\<rparr>) m)"
    "changed_in (w2b st (a + need)) (w2b st (a + need) + w2b st (w - need)) (lf_mem st) m"
    "space_ok ?W (with_mem st m\<lparr>lf_holes := holes_insert (a + need) (w - need) ?h\<rparr>)"
    using new_hole_ok[OF r, where h' = ?h] by blast
  have "apart b v (a + need) (w - need)" if "W b = Some v" for b v
  proof -
    have "b \<noteq> a" using that n by auto
    then have "apart b v a w" using tiled_apart[OF t space_used[OF sp that] f] by blast
    then show ?thesis using cut(3,4) nd by (auto simp: apart_def)
  qed
  moreover have "12 \<le> w2b st (a + need)" using fits_bytes(1)[OF r] tiled_fits[OF cut(1), of "a + need"] by simp
  ultimately have "kept W st (with_mem st m\<lparr>lf_holes := holes_insert (a + need) (w - need) ?h\<rparr>)" 
    using apart_bytes by (intro kept_changed[OF m(2)]) blast+
  moreover have "(with_mem (st\<lparr>lf_holes := ?h\<rparr>) m)\<lparr>lf_holes := holes_insert (a + need) (w - need) ?h\<rparr> = with_mem st m\<lparr>lf_holes := holes_insert (a + need) (w - need) ?h\<rparr>"
    by simp
  ultimately show ?thesis
    using m n changed_in_length[OF m(2)] min_hole_ok[of st] r unfolding taken_def
    by (auto simp: room_def)
qed

lemma alloc_locked_ok:
  assumes sp: "space_ok W st" and nd: "0 < unat need" "4 dvd unat need * 2 ^ lf_off_shift st" "unat (hw_words st) + unat need < 2 ^ 32"
    and g: "grows_within grow (length (lf_mem st))"
  shows "alloc_locked grow need st = Some (st, None) \<or> (\<exists>st' a w. alloc_locked grow need st = Some (st', Some (a, w)) \<and> taken W need st st' a w)"
proof (cases "best_fit need (lf_holes st)")
  case None
  let ?e = "hw_words st + need"
  obtain rg ok where e: "ensure_committed grow (w2b st ?e) (lf_region st) = (rg, ok)" by fastforce
  have r: "rg_committed (lf_region st) \<le> length (lf_mem st)" using sp by (simp add: space_ok_def room_def)
  show ?thesis
  proof (cases ok)
    case True
    then show ?thesis using None e alloc_fresh[OF sp nd g] by (auto simp: alloc_locked_def Let_def)
  next
    case False
    then show ?thesis using None e commit_bounded(5)[OF e g r] by (simp add: alloc_locked_def Let_def)
  qed
next
  case (Some p)
  obtain a w where p: "p = (a, w)" by fastforce
  have h: "hmap (lf_holes st) a = Some w" "unat need \<le> unat w"
    using best_fit_ok[of "lf_holes st" need a w] Some p sp by (simp_all add: space_ok_def word_le_nat_alt)
  have mh: "0 < unat (min_hole_words st)" using min_hole_ok[of st] sp by (simp add: space_ok_def room_def)
  have u: "unat (w - need) = unat w - unat need" using h(2) by (intro unat_sub) (simp add: word_le_nat_alt)
  show ?thesis
  proof (cases "w - need \<ge> min_hole_words st")
    case True
    then have "unat need < unat w" using u mh by (simp add: word_le_nat_alt)
    then show ?thesis using True Some p alloc_split[OF sp h(1) nd(1) _ nd(2)] by (auto simp: alloc_locked_def Let_def)
  next
    case False
    then have "unat w < unat need + unat (min_hole_words st)" using u h(2) by (simp add: word_le_nat_alt)
    then show ?thesis using False Some p alloc_whole[OF sp h] by (auto simp: alloc_locked_def Let_def)
  qed
qed

section \<open>Insertion\<close>

lemma u32_put_out: "off + length bs \<le> length m \<Longrightarrow> k + 4 \<le> off \<or> off + length bs \<le> k \<Longrightarrow> u32_at (put_at off bs m) k = u32_at m k"
  unfolding u32_at_def by (subst slice_put_out) auto

text \<open>The five writes of a slot, as one image.\<close>

definition slot_writes :: "nat \<Rightarrow> u32 \<Rightarrow> u32 \<Rightarrow> bytes \<Rightarrow> bytes \<Rightarrow> bytes" where
  "slot_writes p ss g bs m = put_at (p + 8) (to_le_bytes g) (put_at (p + 12) bs (put_at (p + 4) (to_le_bytes (word_of_nat (length bs) :: u32))
     (put_at (p + 8) (to_le_bytes (g OR 1)) (put_at p (to_le_bytes ss) m))))"

lemma slot_writes_ok:
  assumes l: "p + 12 + length bs \<le> length m"
  shows "changed_in p (p + 12 + length bs) m (slot_writes p ss g bs m)"
    "u32_at (slot_writes p ss g bs m) p = ss" "u32_at (slot_writes p ss g bs m) (p + 8) = g"
    "u32_at (slot_writes p ss g bs m) (p + 4) = word_of_nat (length bs)"
    "slice (p + 12) (p + 12 + length bs) (slot_writes p ss g bs m) = bs"
proof -
  note [simp] = length_put_at u32_put_out slice_put_after
  show "u32_at (slot_writes p ss g bs m) p = ss" "u32_at (slot_writes p ss g bs m) (p + 8) = g"
    "u32_at (slot_writes p ss g bs m) (p + 4) = word_of_nat (length bs)"
    using l by (simp_all add: slot_writes_def)
  show "slice (p + 12) (p + 12 + length bs) (slot_writes p ss g bs m) = bs"
    using l by (simp add: slot_writes_def slice_put_same)
  show "changed_in p (p + 12 + length bs) m (slot_writes p ss g bs m)"
    unfolding slot_writes_def by (intro changed_in_trans[OF _ changed_in_put]) (use l in simp_all)
qed

lemma fill_slot_eq:
  assumes l: "p + 12 + length bs \<le> length (lf_mem st)" and p: "4 dvd p" "12 \<le> p" and g: "g = lf_gen_seq st + 2"
  shows "\<exists>m. fill_slot p n bs st = Some (with_mem (st\<lparr>lf_gen_seq := g\<rparr>) m) \<and>
    (\<exists>mw. mw = slot_writes p (word_of_nat n OR HAS_GEN) g bs (lf_mem st) \<and> changed_in 0 4 mw m \<and> head_kept mw m)"
proof -
  let ?mw = "slot_writes p (word_of_nat n OR HAS_GEN) g bs (lf_mem st)"
  let ?sw = "with_mem (st\<lparr>lf_gen_seq := g\<rparr>) ?mw"
  have d: "4 dvd p + 4" "4 dvd p + 8" "(p + 12) mod 4 = 0" using p by (simp_all add: mod_eq_0_iff_dvd)
  have lw: "length ?mw = length (lf_mem st)" using changed_in_length[OF slot_writes_ok(1)[OF l]] .
  have f: "fill_slot p n bs st = Some (if slice 0 4 ?mw \<noteq> LEAF_MAGIC_GEN then ?sw\<lparr>lf_region := write_at 0 LEAF_MAGIC_GEN (lf_region ?sw)\<rparr> else ?sw)"
    using l p(1) d g by (simp add: fill_slot_def Let_def atomic_store_ok write_atomic_eq write_at_def length_put_at slot_writes_def)
  show ?thesis
  proof (cases "slice 0 4 ?mw = LEAF_MAGIC_GEN")
    case True
    then show ?thesis using f by (intro exI[of _ ?mw]) simp
  next
    case False
    then show ?thesis using f lw l p by (intro exI[of _ "put_at 0 LEAF_MAGIC_GEN ?mw"]) (simp add: write_at_def changed_in_put head_kept_def length_put_at slice_put_after slice_put_same')
  qed
qed

lemma new_slot_ok:
  assumes sp: "space_ok W st" and a: "W a = Some w" and n: "12 + length bs \<le> w2b st w" "w2b st w < 2 ^ 32" and ev: "even (lf_gen_seq st)"
  shows "\<exists>m. fill_slot (w2b st a) (w2b st w) bs st = Some (with_mem (st\<lparr>lf_gen_seq := lf_gen_seq st + 2\<rparr>) m) \<and>
    space_ok W (with_mem st m) \<and> kept (W(a := None)) st (with_mem st m) \<and> slot_image (seg (with_mem st m) a w) bs \<and> length m = length (lf_mem st)"
proof -
  let ?p = "w2b st a" and ?n = "w2b st w"
  let ?ss = "word_of_nat ?n OR HAS_GEN :: u32" and ?g = "lf_gen_seq st + 2"
  note b = span_bytes[OF sp a]
  have r: "room st" and t: "tiled_st st (W ++ hmap (lf_holes st))" using sp by (simp_all add: space_ok_def)
  have l: "?p + 12 + length bs \<le> length (lf_mem st)" using n b by linarith
  obtain m mw where m: "fill_slot ?p ?n bs st = Some (with_mem (st\<lparr>lf_gen_seq := ?g\<rparr>) m)"
    "mw = slot_writes ?p ?ss ?g bs (lf_mem st)" "changed_in 0 4 mw m" "head_kept mw m"
    using fill_slot_eq[OF l b(2,1) refl] by blast
  have len: "length m = length (lf_mem st)"
    using changed_in_length[OF m(3)] changed_in_length[OF slot_writes_ok(1)[OF l]] m(2) by simp
  have hk: "head_kept (lf_mem st) m" using m(4) head_kept_changed[OF slot_writes_ok(1)[OF l] b(1)] m(2) head_kept_trans by blast
  have at: "u32_at m (?p + k) = u32_at mw (?p + k)" for k using changed_in_u32[OF m(3)] b(1) by simp
  have in_mw: "slice lo hi m = slice lo hi (lf_mem st)" if "4 \<le> lo" "hi \<le> ?p \<or> ?p + ?n \<le> lo" for lo hi
    using changed_in_slice[OF m(3), of hi lo] changed_in_slice[OF slot_writes_ok(1)[OF l], of hi lo] that n m(2) by auto
  have "hw_words (with_mem st m) = hw_words st" using in_mw[of 4 8] b(1) by (simp add: hw_words_def u32_at_def)
  then have space: "space_ok W (with_mem st m)" using sp r len by (auto simp: space_ok_def room_def leaf_high_water_def)
  have "kept (W(a := None)) st (with_mem st m)"
    unfolding kept_def
  proof (intro conjI allI impI)
    show "head_kept (lf_mem st) (lf_mem (with_mem st m))" using hk by simp
    fix c v assume "(W(a := None)) c = Some v"
    then have c: "c \<noteq> a" "W c = Some v" by (auto split: if_splits)
    then have "apart c v a w" using tiled_apart[OF t] space_used[OF sp] a by metis
    then show "seg (with_mem st m) c v = seg st c v"
      using in_mw[of "w2b st c" "w2b st c + w2b st v"] apart_bytes[of c v a w st] span_bytes(1)[OF sp c(2)] by (auto simp: seg_def)
  qed
  moreover have "slot_image (seg (with_mem st m) a w) bs"
  proof -
    let ?sg = "seg (with_mem st m) a w"
    have v: "even (word_of_nat ?n :: u32)" using b(3) by (simp add: even_word_iff even_of_nat_iff dvd_trans[of 2 4])
    have sl: "length ?sg = ?n" using b(6) len by (simp add: seg_def length_slice)
    have u: "u32_at ?sg k = u32_at mw (?p + k)" if "k + 4 \<le> ?n" for k using u32_seg[of k "with_mem st m" w a] that at[of k] by simp
    have h: "u32_at ?sg 0 = ?ss" "u32_at ?sg 8 = ?g" "u32_at ?sg 4 = word_of_nat (length bs)"
      using u[of 0] u[of 8] u[of 4] n(1) slot_writes_ok[OF l, of ?ss ?g] m(2) by simp_all
    have hl: "header_len ?ss = 12" using even_mark(2)[OF v] by (simp add: header_len_def)
    have "slice 12 (12 + length bs) ?sg = slice (?p + 12) (?p + 12 + length bs) m"
      using slice_slice[of "12 + length bs" "?p + ?n" ?p 12 m] n(1) by (simp add: seg_def add.assoc)
    also have "\<dots> = bs" using changed_in_slice[OF m(3), of "?p + 12 + length bs" "?p + 12"] b(1) slot_writes_ok(5)[OF l] m(2) by simp
    finally have "slice 12 (12 + length bs) ?sg = bs" .
    moreover have "unat (?ss AND NOT HAS_GEN) = ?n" using even_mark(1)[OF v] n(2) by (simp add: unat_of_nat del: and_not_numerals)
    moreover have "?g AND 1 = 0" using ev by (intro even_mark(3)) simp
    moreover have "unat (word_of_nat (length bs) :: u32) = length bs" using n by (simp add: unat_of_nat)
    ultimately show ?thesis using h hl sl n(1) unfolding slot_image_def Let_def by simp
  qed
  ultimately show ?thesis using m(1) space len by blast
qed

definition need_words :: "bytes \<Rightarrow> leaf_store \<Rightarrow> u32" where
  "need_words bs st = b2w st (align_slot st (SLOT_HEADER_GEN + length bs))"

lemma need_words_ok:
  assumes "lf_off_shift st \<le> 4" "length bs + 64 < 2 ^ 32"
  shows "12 + length bs \<le> w2b st (need_words bs st)" "w2b st (need_words bs st) < length bs + 28" "4 dvd w2b st (need_words bs st)" "0 < unat (need_words bs st)"
proof -
  note a = align_slot_ok[OF assms(1), of "12 + length bs"]
  have "(1 :: nat) \<le> 2 ^ lf_off_shift st" by simp
  then have "(2 :: nat) ^ 32 * 1 \<le> 2 ^ 32 * 2 ^ lf_off_shift st" by (rule mult_le_mono2)
  then have "align_slot st (12 + length bs) < 2 ^ 32 * 2 ^ lf_off_shift st" using a(2) assms(2) by linarith
  then have w: "w2b st (need_words bs st) = align_slot st (12 + length bs)" using b2w_ok[OF a(4)] by (simp add: need_words_def)
  then show "12 + length bs \<le> w2b st (need_words bs st)" "w2b st (need_words bs st) < length bs + 28" "4 dvd w2b st (need_words bs st)"
    using a by simp_all
  then have "0 < w2b st (need_words bs st)" by linarith
  then show "0 < unat (need_words bs st)" by (simp add: w2b_def)
qed

lemma leaf_insert_ok:
  assumes inv: "leaf_inv U st" and l: "length bs + 64 < 2 ^ 32" and v: "unat (hw_words st) + unat (need_words bs st) < 2 ^ 32"
    and g: "grows_within grow (length (lf_mem st))"
  shows "leaf_insert grow bs st = Some (st, NO_SLOT) \<or>
    (\<exists>st' a w. leaf_insert grow bs st = Some (st', a) \<and> a \<noteq> NO_SLOT \<and> U a = None \<and> leaf_inv (U(a \<mapsto> (w, bs))) st' \<and>
      length (lf_mem st') = length (lf_mem st) \<and> waiting st' = waiting st)"
proof -
  let ?need = "need_words bs st"
  have sp: "space_ok (sizes U) st" and im: "contents U st" and ev: "even (lf_gen_seq st)" and pe: "pending_ok U st"
    using inv by (simp_all add: leaf_inv_def)
  have s4: "lf_off_shift st \<le> 4" using sp by (simp add: space_ok_def room_def)
  note nw = need_words_ok[OF s4 l]
  have ins: "leaf_insert grow bs st = (case alloc_locked grow ?need st of
       None \<Rightarrow> None
     | Some (st1, None) \<Rightarrow> Some (st1, NO_SLOT)
     | Some (st1, Some (a, w)) \<Rightarrow> (case ensure_committed grow (w2b st a + w2b st w) (lf_region st1) of
           (rg, False) \<Rightarrow> Some (st1\<lparr>lf_region := rg\<rparr>, NO_SLOT)
         | (rg, True) \<Rightarrow> map_option (\<lambda>st2. (st2, a)) (fill_slot (w2b st a) (w2b st w) bs (st1\<lparr>lf_region := rg\<rparr>))))"
    unfolding leaf_insert_def need_words_def Let_def using l by simp
  consider "alloc_locked grow ?need st = Some (st, None)"
    | st1 a w where "alloc_locked grow ?need st = Some (st1, Some (a, w))" "taken (sizes U) ?need st st1 a w"
    using alloc_locked_ok[OF sp nw(4) _ v g] nw(3) by (auto simp: w2b_def)
  then show ?thesis
  proof cases
    case (2 st1 a w)
    note t = 2(2)[unfolded taken_def]
    let ?W = "(sizes U)(a \<mapsto> w)"
    obtain rg h where st1: "st1 = st\<lparr>lf_region := rg, lf_holes := h\<rparr>" "length (rg_mem rg) = length (lf_mem st)" using t by blast
    have sp1: "space_ok ?W st1" and aw: "?W a = Some w" and k1: "kept (sizes U) st st1" and n: "U a = None" using t by auto
    have wb: "w2b st1 x = w2b st x" for x by (simp add: st1)
    note b = span_bytes[OF sp1 aw, unfolded wb]
    have "w2b st ?need \<le> w2b st w" using t by (simp add: w2b_def)
    then have w1: "12 + length bs \<le> w2b st w" using nw(1) by linarith
    have "unat w * 2 ^ lf_off_shift st \<le> (unat ?need + unat (min_hole_words st)) * 2 ^ lf_off_shift st" using t by (intro mult_le_mono1) simp
    then have w2: "w2b st w < 2 ^ 32" using nw(2) l min_hole_ok[OF s4] by (simp add: w2b_def distrib_right)
    have ec: "ensure_committed grow (w2b st a + w2b st w) (lf_region st1) = (lf_region st1, True)"
      using b(5) sp1 by (simp add: ensure_committed_def is_committed_def space_ok_def room_def)
    have ev1: "even (lf_gen_seq st1)" using ev by (simp add: st1)
    obtain m where m: "fill_slot (w2b st a) (w2b st w) bs st1 = Some (with_mem (st1\<lparr>lf_gen_seq := lf_gen_seq st1 + 2\<rparr>) m)"
      "space_ok ?W (with_mem st1 m)" "kept (?W(a := None)) st1 (with_mem st1 m)" "slot_image (seg (with_mem st1 m) a w) bs"
      "length m = length (lf_mem st1)"
      using new_slot_ok[OF sp1 aw, of bs, unfolded wb, OF w1 w2 ev1] by blast
    let ?st = "with_mem (st1\<lparr>lf_gen_seq := lf_gen_seq st1 + 2\<rparr>) m"
    have U: "?W(a := None) = sizes U" using n by auto
    have "kept (sizes U) st (with_mem st1 m)" using leaf_kept_trans[OF k1 m(3)[unfolded U]] by simp
    then have "contents U (with_mem st1 m)" by (rule contents_kept[OF im map_le_refl]) (simp add: st1)
    then have "contents (U(a \<mapsto> (w, bs))) (with_mem st1 m)" using m(4) by (auto simp: contents_def)
    moreover have "space_ok (sizes (U(a \<mapsto> (w, bs)))) (with_mem st1 m)" using m(2) by (simp only: sizes_upd)
    moreover have "pending_ok (U(a \<mapsto> (w, bs))) ?st"
    proof (rule pending_cong[OF pe])
      fix c assume "c \<in> waiting st"
      then have "U c \<noteq> None" using pe by (auto simp: waiting_def pending_ok_def)
      then show "(U(a \<mapsto> (w, bs))) c = U c" using n by auto
    qed (simp_all add: st1)
    ultimately have "leaf_inv (U(a \<mapsto> (w, bs))) ?st"
      using ev1 same_store[of ?st "with_mem st1 m"] same_memory(7)[of ?st "with_mem st1 m"] by (simp add: leaf_inv_def)
    moreover have "leaf_insert grow bs st = Some (?st, a)" using 2(1) ec m(1) by (simp add: ins)
    moreover have "a \<noteq> NO_SLOT"
    proof -
      have "0 < w2b st w" using b(4) by simp
      moreover have "w2b st a + w2b st w \<le> unat (hw_words st1) * 2 ^ lf_off_shift st" using b(5) by (simp add: leaf_high_water_def w2b_def st1)
      ultimately have "w2b st a < unat (hw_words st1) * 2 ^ lf_off_shift st" by linarith
      then have "unat a < unat (hw_words st1)" by (simp add: w2b_def)
      then show ?thesis using unat_bound[of "hw_words st1"] by auto
    qed
    moreover have "length (lf_mem ?st) = length (lf_mem st)" using m(5) st1 by simp
    ultimately show ?thesis using n by (auto simp: st1 waiting_def)
  qed (simp add: ins)
qed

section \<open>Releasing what a flush has settled\<close>

lemma space_join:
  assumes sp: "space_ok W st" and f: "W a = Some w" "W b = Some v" and n: "a + w = b"
  shows "space_ok (W(b := None, a \<mapsto> w + v)) st" "a \<noteq> b"
proof -
  let ?H = "hmap (lf_holes st)"
  have t: "tiled_st st (W ++ ?H)" and d: "dom W \<inter> dom ?H = {}" using sp by (simp_all add: space_ok_def)
  note F = space_used[OF sp f(1)] space_used[OF sp f(2)]
  have hi: "unat (hw_words st) < 2 ^ 32" using unat_bound[of "hw_words st"] by simp
  have u: "unat b = unat a + unat w" using tiled_fits[OF t F(1)] n hi unat_add_small[of a w] by (auto simp: fits_def)
  have h: "?H a = None" "?H b = None" using d f by auto
  have "W(b := None, a \<mapsto> w + v) ++ ?H = (W ++ ?H)(b := None, a \<mapsto> w + v)"
    using h by (auto simp: fun_eq_iff map_add_def split: option.split)
  then have "tiled_st st (W(b := None, a \<mapsto> w + v) ++ ?H)" using tiled_join[OF t F u hi] by metis
  then show "space_ok (W(b := None, a \<mapsto> w + v)) st" using sp h by (auto simp: space_ok_def)
  show "a \<noteq> b" using u tiled_fits[OF t F(1)] by (auto simp: fits_def)
qed

abbreviation without :: "(u32 \<rightharpoonup> 'a) \<Rightarrow> u32 set \<Rightarrow> u32 \<rightharpoonup> 'a" where
  "without W X \<equiv> W |` (- X)"

lemma restrict_le: "W |` X \<subseteq>\<^sub>m W"
  by (auto simp: map_le_def restrict_map_def dom_def)

lemma with_mem_twice: "with_mem (with_mem st m\<lparr>lf_holes := h\<rparr>) m'\<lparr>lf_holes := h'\<rparr> = with_mem st m'\<lparr>lf_holes := h'\<rparr>"
  by simp

lemma insert_runs_ok:
  assumes "space_ok W st" "\<And>a w. (a, w) \<in> set runs \<Longrightarrow> W a = Some w" "distinct (map fst runs)"
  shows "\<exists>m h. insert_runs runs st = Some (with_mem st m\<lparr>lf_holes := h\<rparr>) \<and>
    space_ok (without W (fst ` set runs)) (with_mem st m\<lparr>lf_holes := h\<rparr>) \<and> kept (without W (fst ` set runs)) st (with_mem st m\<lparr>lf_holes := h\<rparr>)"
  using assms
proof (induction runs arbitrary: W st)
  case Nil
  then show ?case by (auto simp: kept_def intro!: exI[of _ "lf_mem st"] exI[of _ "lf_holes st"])
next
  case (Cons r runs)
  obtain a w where r: "r = (a, w)" by fastforce
  obtain m h where m: "insert_hole_locked a w st = Some (with_mem st m\<lparr>lf_holes := h\<rparr>)"
    "space_ok (W(a := None)) (with_mem st m\<lparr>lf_holes := h\<rparr>)" "kept (W(a := None)) st (with_mem st m\<lparr>lf_holes := h\<rparr>)"
    using insert_hole_locked_ok[OF Cons.prems(1), of a w] Cons.prems(2) r by auto
  have A: "(W(a := None)) b = Some v" if "(b, v) \<in> set runs" for b v
    using Cons.prems(2)[of b v] Cons.prems(3) that r by force
  have d: "distinct (map fst runs)" using Cons.prems(3) by simp
  obtain m' h' where n: "insert_runs runs (with_mem st m\<lparr>lf_holes := h\<rparr>) = Some (with_mem st m'\<lparr>lf_holes := h'\<rparr>)"
    "space_ok (without (W(a := None)) (fst ` set runs)) (with_mem st m'\<lparr>lf_holes := h'\<rparr>)"
    "kept (without (W(a := None)) (fst ` set runs)) (with_mem st m\<lparr>lf_holes := h\<rparr>) (with_mem st m'\<lparr>lf_holes := h'\<rparr>)"
    using Cons.IH[OF m(2) A d, unfolded with_mem_twice] by blast
  have "without (W(a := None)) (fst ` set runs) = without W (fst ` set (r # runs))" using r by (auto simp: restrict_map_def)
  moreover have "kept (without (W(a := None)) (fst ` set runs)) st (with_mem st m'\<lparr>lf_holes := h'\<rparr>)"
    by (rule leaf_kept_trans[OF m(3) n(3) restrict_le])
  ultimately show ?case using m(1) n r by auto
qed

definition collected :: "(u32 \<rightharpoonup> u32) \<Rightarrow> u32 set \<Rightarrow> leaf_store \<Rightarrow> leaf_store \<Rightarrow> (u32 \<times> u32) list \<Rightarrow> bool" where
  "collected W X st st' runs \<longleftrightarrow> (\<exists>m. st' = with_mem st m) \<and> distinct (map fst runs) \<and>
     (\<exists>W'. space_ok W' st' \<and> (\<forall>(a, w) \<in> set runs. W' a = Some w) \<and> without W' (fst ` set runs) = without W X) \<and> kept (without W X) st st'"

lemma collected_after:
  assumes k: "kept (W(a := None)) st (with_mem st m)" and c: "collected W1 X1 (with_mem st m) st' runs"
    and eq: "without W1 X1 = without W X" and a: "a \<in> X"
  shows "collected W X st st' runs"
proof -
  have "kept (without W X) (with_mem st m) st'" using c unfolding collected_def eq by blast
  then have "kept (without W X) st st'" by (rule leaf_kept_trans[OF k]) (use a in \<open>auto simp: map_le_def restrict_map_def split: if_splits\<close>)
  moreover have "\<exists>m'. st' = with_mem st m'" using c by (auto simp: collected_def)
  ultimately show ?thesis using c unfolding collected_def eq by blast
qed

text \<open>What the loop keeps: the slots still to come are used and hold payloads, the runs so far are used.\<close>

definition to_collect :: "(u32 \<rightharpoonup> u32) \<Rightarrow> (u32 \<times> u32) list \<Rightarrow> (u32 \<times> u32) list \<Rightarrow> leaf_store \<Rightarrow> bool" where
  "to_collect W slots runs st \<longleftrightarrow> space_ok W st \<and>
     (\<forall>(a, sz) \<in> set slots. \<exists>w bs. W a = Some w \<and> unat sz = w2b st w \<and> slot_image (seg st a w) bs) \<and>
     (\<forall>(a, w) \<in> set runs. W a = Some w) \<and> distinct (map fst slots @ map fst runs)"

lemma to_collect_new:
  assumes c: "to_collect W ((a, sz) # slots) runs st" and w: "W a = Some w"
    and m: "space_ok W (with_mem st m)" "kept (W(a := None)) st (with_mem st m)"
  shows "to_collect W slots (runs @ [(a, w)]) (with_mem st m)"
proof -
  have "\<exists>v bs. W b = Some v \<and> unat z = w2b (with_mem st m) v \<and> slot_image (seg (with_mem st m) b v) bs" if b: "(b, z) \<in> set slots" for b z
  proof -
    have "b \<in> fst ` set slots" using b by force
    then have ne: "b \<noteq> a" using c by (auto simp: to_collect_def)
    obtain v cs where v: "W b = Some v" "unat z = w2b st v" "slot_image (seg st b v) cs" using c b by (auto simp: to_collect_def)
    then have "seg (with_mem st m) b v = seg st b v" using m(2) ne by (simp add: kept_def)
    then show ?thesis using v by auto
  qed
  moreover have "distinct (map fst slots @ map fst (runs @ [(a, w)]))" using c by (auto simp: to_collect_def)
  moreover have "\<forall>(b, v) \<in> set (runs @ [(a, w)]). W b = Some v" using c w by (simp add: to_collect_def)
  ultimately show ?thesis using m(1) unfolding to_collect_def by blast
qed

lemma to_collect_join:
  assumes c: "to_collect W slots (runs @ [(q, v), (a, w)]) st" and n: "q + v = a"
  shows "to_collect (W(a := None, q \<mapsto> v + w)) slots (runs @ [(q, v + w)]) st"
    "without (W(a := None, q \<mapsto> v + w)) (fst ` set slots \<union> fst ` set (runs @ [(q, v + w)])) =
       without W (insert a (fst ` set slots \<union> fst ` set (runs @ [(q, v)])))"
proof -
  have W: "W q = Some v" "W a = Some w" "space_ok W st" using c by (auto simp: to_collect_def)
  note j = space_join[OF W(3,1,2) n]
  have d: "q \<notin> fst ` set slots" "a \<notin> fst ` set slots" "q \<notin> fst ` set runs" "a \<notin> fst ` set runs" using c by (auto simp: to_collect_def)
  let ?W = "W(a := None, q \<mapsto> v + w)"
  have e: "?W b = W b" if "(b, z) \<in> set slots \<union> set runs" for b z using that d by force
  have "\<exists>u bs. ?W b = Some u \<and> unat z = w2b st u \<and> slot_image (seg st b u) bs" if "(b, z) \<in> set slots" for b z
    using c that e[of b z] by (auto simp: to_collect_def simp del: fun_upd_apply)
  moreover have "?W b = Some z" if "(b, z) \<in> set runs" for b z
    using c that e[of b z] by (auto simp: to_collect_def simp del: fun_upd_apply)
  moreover have "distinct (map fst slots @ map fst (runs @ [(q, v + w)]))" using c by (simp add: to_collect_def)
  ultimately show "to_collect ?W slots (runs @ [(q, v + w)]) st"
    using j by (auto simp: to_collect_def simp del: fun_upd_apply) simp
  show "without (W(a := None, q \<mapsto> v + w)) (fst ` set slots \<union> fst ` set (runs @ [(q, v + w)])) =
       without W (insert a (fst ` set slots \<union> fst ` set (runs @ [(q, v)])))"
    by (auto simp: restrict_map_def fun_eq_iff)
qed

lemma collect_runs_ok:
  assumes "to_collect W slots runs st"
  shows "\<exists>st' runs'. collect_runs slots runs st = Some (st', runs') \<and> collected W (fst ` set slots \<union> fst ` set runs) st st' runs'"
  using assms
proof (induction slots arbitrary: W st runs)
  case Nil
  then show ?case by (auto simp: to_collect_def collected_def kept_def intro!: exI[of _ "lf_mem st"] exI[of _ W])
next
  case (Cons x slots)
  obtain a sz where x: "x = (a, sz)" by fastforce
  let ?X = "fst ` set (x # slots) \<union> fst ` set runs"
  obtain w bs where w: "space_ok W st" "W a = Some w" "unat sz = w2b st w" "slot_image (seg st a w) bs" using Cons.prems x by (auto simp: to_collect_def)
  have bw: "b2w st (unat sz) = w" using w(3) by (simp add: b2w_w2b)
  obtain m where m: "mark_unreadable a st = Some (with_mem st m)" "space_ok W (with_mem st m)" "kept (W(a := None)) st (with_mem st m)"
    using mark_unreadable_ok[OF w(1,2,4)] by blast
  note new = to_collect_new[OF Cons.prems[unfolded x] w(2) m(2,3)]
  have step: ?case if c: "to_collect W1 slots runs1 (with_mem st m)" and eq: "without W1 (fst ` set slots \<union> fst ` set runs1) = without W ?X"
    and run: "collect_runs (x # slots) runs st = collect_runs slots runs1 (with_mem st m)" for W1 runs1
    using Cons.IH[OF c] collected_after[OF m(3) _ eq] run x by auto
  show ?case
  proof (cases "runs \<noteq> [] \<and> fst (last runs) + snd (last runs) = a")
    case True
    define rs where "rs = butlast runs"
    obtain q v where q: "last runs = (q, v)" by fastforce
    have runs: "runs = rs @ [(q, v)]" using True q by (metis append_butlast_last_id rs_def)
    note j = to_collect_join[OF new[unfolded runs append_assoc append_Cons append_Nil]]
    show ?thesis
      by (rule step[OF j(1)]) (use True q j(2) m(1) x bw runs in \<open>auto simp: Let_def insert_commute\<close>)
  next
    case False
    show ?thesis
      by (rule step[OF new]) (use False m(1) x bw in \<open>auto simp: Let_def\<close>)
  qed
qed

lemma sizes_without: "sizes (without U X) = without (sizes U) X"
  by (auto simp: restrict_map_def)

lemma free_retired_ok:
  assumes sp: "space_ok (sizes U) st" and im: "contents U st" and d: "distinct (map fst slots)"
    and u: "\<And>a sz. (a, sz) \<in> set slots \<Longrightarrow> \<exists>w bs. U a = Some (w, bs) \<and> unat sz = w2b st w"
  shows "\<exists>m h. free_retired slots st = Some (with_mem st m\<lparr>lf_holes := h\<rparr>) \<and>
    space_ok (sizes (without U (fst ` set slots))) (with_mem st m\<lparr>lf_holes := h\<rparr>) \<and> contents (without U (fst ` set slots)) (with_mem st m\<lparr>lf_holes := h\<rparr>) \<and>
    length m = length (lf_mem st)"
proof -
  let ?X = "fst ` set slots"
  have "distinct (map fst (sort slots))" using d by (simp add: distinct_map)
  moreover have "\<exists>w bs. sizes U a = Some w \<and> unat sz = w2b st w \<and> slot_image (seg st a w) bs" if "(a, sz) \<in> set slots" for a sz
    using u[OF that] im unfolding contents_def by force
  ultimately have "to_collect (sizes U) (sort slots) [] st" using sp by (auto simp: to_collect_def)
  then obtain st' runs where c: "collect_runs (sort slots) [] st = Some (st', runs)" "collected (sizes U) ?X st st' runs"
    using collect_runs_ok by fastforce
  obtain m W' where w: "st' = with_mem st m" "distinct (map fst runs)" "space_ok W' st'" "\<And>a w. (a, w) \<in> set runs \<Longrightarrow> W' a = Some w"
    "without W' (fst ` set runs) = without (sizes U) ?X" "kept (without (sizes U) ?X) st st'"
    using c(2) unfolding collected_def by blast
  obtain m' h where i: "insert_runs runs st' = Some (with_mem st' m'\<lparr>lf_holes := h\<rparr>)"
    "space_ok (without (sizes U) ?X) (with_mem st' m'\<lparr>lf_holes := h\<rparr>)" "kept (without (sizes U) ?X) st' (with_mem st' m'\<lparr>lf_holes := h\<rparr>)"
    using insert_runs_ok[OF w(3,4,2)] unfolding w(5) by blast
  have k: "kept (sizes (without U ?X)) st (with_mem st m'\<lparr>lf_holes := h\<rparr>)"
    using leaf_kept_trans[OF w(6) i(3)] w(1) by (simp add: sizes_without)
  then have "contents (without U ?X) (with_mem st m'\<lparr>lf_holes := h\<rparr>)" by (rule contents_kept[OF im restrict_le]) simp
  then show ?thesis using i c(1) w(1) k by (auto simp: free_retired_def sizes_without kept_def head_kept_def)
qed

text \<open>The slots that a flush settles: those retired before it began.\<close>

definition settled :: "nat \<Rightarrow> leaf_store \<Rightarrow> u32 set" where
  "settled token st = (\<lambda>(_, a, _). a) ` set (takeWhile (\<lambda>(e, _, _). e \<le> token) (lf_pending st))"

lemma leaf_inv_cong:
  assumes "leaf_inv U st" "lf_region st' = lf_region st" "lf_holes st' = lf_holes st" "lf_off_shift st' = lf_off_shift st"
    "lf_gen_seq st' = lf_gen_seq st" "pending_ok U st'"
  shows "leaf_inv U st'"
  using assms same_store[of st' st] same_memory(7)[of st' st] by (simp add: leaf_inv_def)

lemma durable_begin_ok: "leaf_inv U st \<Longrightarrow> leaf_inv U (fst (durable_begin st))"
  by (rule leaf_inv_cong) (auto simp: durable_begin_def leaf_inv_def pending_ok_def w2b_def)

lemma durable_end_ok:
  assumes inv: "leaf_inv U st"
  shows "\<exists>st'. durable_end token st = Some st' \<and> leaf_inv (without U (settled token st)) st' \<and> waiting st' = waiting st - settled token st \<and>
    length (lf_mem st') = length (lf_mem st)"
proof -
  let ?P = "\<lambda>(e, _, _). e \<le> token" and ?p = "lf_pending st"
  define ps qs where "ps = takeWhile ?P ?p" and "qs = dropWhile ?P ?p"
  let ?slots = "map snd ps"
  have pq: "?p = ps @ qs" by (simp add: ps_def qs_def)
  have dr: "drop (length ps) ?p = qs" by (simp add: pq)
  have pe: "pending_ok U st" and sp: "space_ok (sizes U) st" and im: "contents U st" using inv by (simp_all add: leaf_inv_def)
  have fs: "map fst ?slots = map (\<lambda>(_, a, _). a) ps" "fst ` set ?slots = settled token st"
    by (auto simp: case_prod_beta settled_def ps_def image_image)
  have sm: "sum_list (map (\<lambda>(_, sz). unat sz) ?slots) = sum_list (map (\<lambda>(_, _, sz). unat sz) ps)" by (induction ps) auto
  let ?st = "st\<lparr>lf_pending := qs, lf_retired_bytes := sum_list (map (\<lambda>(_, _, sz). unat sz) qs)\<rparr>"
  have de: "durable_end token st = (if ?slots \<noteq> [] then free_retired ?slots ?st else Some ?st)"
    using pe sm by (simp add: durable_end_def Let_def ps_def[symmetric] dr pending_ok_def) (simp add: pq)
  let ?off = "\<lambda>(_, a, _). a"
  have "distinct (map ?off (ps @ qs))" using pe by (simp add: pending_ok_def pq)
  then have dj: "?off ` set ps \<inter> ?off ` set qs = {}" "settled token st = ?off ` set ps" by (simp, simp add: settled_def ps_def)
  then have wt: "waiting ?st = waiting st - settled token st" by (simp add: waiting_def pq image_Un Un_Diff Diff_triv Int_commute)
  have "\<exists>w bs. without U (settled token st) a = Some (w, bs) \<and> unat sz = w2b ?st w" if q: "(e, a, sz) \<in> set qs" for e a sz
  proof -
    have "a \<notin> settled token st" using q dj by force
    moreover have "(e, a, sz) \<in> set ?p" using q by (simp add: pq)
    then obtain w bs where "U a = Some (w, bs)" "unat sz = w2b st w" using pe by (auto simp: pending_ok_def)
    ultimately show ?thesis by (auto simp: w2b_def)
  qed
  then have pend: "pending_ok (without U (settled token st)) ?st" using pe by (auto simp: pending_ok_def pq)
  show ?thesis
  proof (cases "ps = []")
    case True
    then have "settled token st = {}" using fs by simp
    moreover have "leaf_inv (without U {}) ?st"
      by (rule leaf_inv_cong[of _ st]) (use inv pend calculation in \<open>simp_all add: restrict_map_def\<close>)
    ultimately show ?thesis using de True wt by simp
  next
    case False
    have sp': "space_ok (sizes U) ?st" "contents U ?st"
      using sp im same_store[of ?st st] same_memory(7)[of ?st st] by simp_all
    have d: "distinct (map fst ?slots)" using pe unfolding fs by (simp add: pending_ok_def pq)
    have u: "\<exists>w bs. U a = Some (w, bs) \<and> unat sz = w2b ?st w" if q: "(a, sz) \<in> set ?slots" for a sz
    proof -
      have "\<exists>e. (e, a, sz) \<in> set ps" using q by auto
      then obtain e where "(e, a, sz) \<in> set ?p" unfolding pq by auto
      then show ?thesis using pe by (auto simp: pending_ok_def w2b_def)
    qed
    obtain m h where m: "free_retired ?slots ?st = Some (with_mem ?st m\<lparr>lf_holes := h\<rparr>)"
      "space_ok (sizes (without U (settled token st))) (with_mem ?st m\<lparr>lf_holes := h\<rparr>)" "contents (without U (settled token st)) (with_mem ?st m\<lparr>lf_holes := h\<rparr>)" "length m = length (lf_mem ?st)"
      using free_retired_ok[OF sp' d u] unfolding fs by blast
    have "pending_ok (without U (settled token st)) (with_mem ?st m\<lparr>lf_holes := h\<rparr>)" by (rule pending_cong[OF pend]) simp_all
    then show ?thesis using de m False inv wt by (auto simp: leaf_inv_def waiting_def)
  qed
qed

end
