(* ===== verification/Leaf_Rebuild.thy ===== *)
theory Leaf_Rebuild
  imports Leaf_Correct
begin

text \<open>
  Opening a payload store: the free list rebuilt from the offsets of the live cells, on any memory
  that a crash may have left, and the free list saved by a clean close. The last part puts the
  operations together to histories.
\<close>

section \<open>Rebuilding the free list\<close>

definition slot_words_at :: "u32 \<Rightarrow> leaf_store \<Rightarrow> u32" where
  "slot_words_at a st = b2w st (unat (u32_at (lf_mem st) (w2b st a) AND NOT HAS_GEN))"

definition slot_sound :: "leaf_store \<Rightarrow> u32 \<Rightarrow> u32 \<Rightarrow> u32 \<Rightarrow> u32 \<Rightarrow> bool" where
  "slot_sound st start hw a limit \<longleftrightarrow> start \<le> a \<and> a < hw \<and> min_slot_words st \<le> slot_words_at a st \<and>
     unat a + unat (slot_words_at a st) \<le> unat limit \<and>
     \<not> (u32_at (lf_mem st) (w2b st a) AND HAS_GEN \<noteq> 0 \<and> w2b st a + SLOT_HEADER_GEN \<le> length (lf_mem st) \<and>
        u32_at (lf_mem st) (w2b st a + GEN_OFF) AND 1 \<noteq> 0)"

text \<open>The live offsets whose slot cannot be trusted.\<close>

fun rejected :: "leaf_store \<Rightarrow> u32 \<Rightarrow> u32 \<Rightarrow> u32 list \<Rightarrow> u32 set" where
  "rejected st start hw [] = {}"
| "rejected st start hw (a # live) =
     (if slot_sound st start hw a (case live of [] \<Rightarrow> hw | b # _ \<Rightarrow> min b hw) then {} else {a}) \<union> rejected st start hw live"

definition accepted :: "leaf_store \<Rightarrow> u32 \<Rightarrow> u32 \<Rightarrow> u32 list \<Rightarrow> u32 \<rightharpoonup> u32" where
  "accepted st start hw live = (\<lambda>a. if a \<in> set live - rejected st start hw live then Some (slot_words_at a st) else None)"

lemma same_slots:
  assumes "lf_region st' = lf_region st" "lf_off_shift st' = lf_off_shift st"
  shows "slot_words_at a st' = slot_words_at a st" "rejected st' start hw live = rejected st start hw live"
    "accepted st' start hw live = accepted st start hw live"
proof -
  note e = same_memory[OF assms]
  have w: "slot_words_at b st' = slot_words_at b st" for b using assms e by (simp add: slot_words_at_def)
  then show "slot_words_at a st' = slot_words_at a st" by blast
  have "slot_sound st' start hw a lim = slot_sound st start hw a lim" for a lim
    using assms e w by (simp add: slot_sound_def min_slot_words_def align_slot_def slot_align_def)
  then show r: "rejected st' start hw live = rejected st start hw live" by (induction live) simp_all
  show "accepted st' start hw live = accepted st start hw live" by (auto simp: accepted_def r w)
qed

lemma rejected_sub: "rejected st start hw live \<subseteq> set live"
  by (induction live) auto

text \<open>The loop: every span ends before \<^verbatim>\<open>cur\<close>, which no live offset in range precedes.\<close>

definition packed :: "(u32 \<rightharpoonup> u32) \<Rightarrow> u32 \<Rightarrow> leaf_store \<Rightarrow> bool" where
  "packed W cur st \<longleftrightarrow> space_ok W st \<and> (\<forall>a w. (W ++ hmap (lf_holes st)) a = Some w \<longrightarrow> unat a + unat w \<le> unat cur) \<and>
     b2w st (data_start_byte st) \<le> cur \<and> cur \<le> hw_words st \<and> 4 dvd w2b st cur"

lemma packed_cur: "packed W cur st \<Longrightarrow> 12 \<le> w2b st cur"
proof -
  assume p: "packed W cur st"
  then have "unat (b2w st (data_start_byte st)) * 2 ^ lf_off_shift st \<le> unat cur * 2 ^ lf_off_shift st"
    by (intro mult_le_mono1) (simp add: packed_def word_le_nat_alt)
  moreover have "12 \<le> w2b st (b2w st (data_start_byte st))" using p data_start[of st] by (simp add: packed_def space_ok_def room_def)
  ultimately show ?thesis unfolding w2b_def by linarith
qed

lemma packed_gap:
  assumes p: "packed W cur st" and a: "cur < a" "a \<le> hw_words st" "4 dvd w2b st a"
  shows "ext_ok (lf_off_shift st) (unat (b2w st (data_start_byte st))) (unat (hw_words st)) W (lf_holes st) cur (a - cur)" "unat (a - cur) = unat a - unat cur"
proof -
  let ?F = "W ++ hmap (lf_holes st)"
  have sp: "space_ok W st" and t: "tiled_st st ?F" using p by (simp_all add: packed_def space_ok_def)
  show u: "unat (a - cur) = unat a - unat cur" using a(1) by (intro unat_sub) simp
  have lt: "unat cur < unat a" "unat a \<le> unat (hw_words st)" using a by (simp_all add: word_less_nat_alt word_le_nat_alt)
  have e: "unat b + unat v \<le> unat cur \<and> 0 < unat v" if "?F b = Some v" for b v
    using p that tiled_fits[OF t that] by (simp add: packed_def fits_def)
  have n: "?F cur = None" by (cases "?F cur") (use e[of cur] in auto)
  have "w2b st a - w2b st cur = (unat a - unat cur) * 2 ^ lf_off_shift st" by (simp add: w2b_def diff_mult_distrib)
  then have "4 dvd (unat a - unat cur) * 2 ^ lf_off_shift st" using a(3) p by (metis dvd_diff_nat packed_def)
  then have "fits (lf_off_shift st) (unat (b2w st (data_start_byte st))) (unat (hw_words st)) cur (a - cur)"
    using p lt u by (simp add: fits_def packed_def word_le_nat_alt w2b_def)
  then have "tiled_st st (?F(cur \<mapsto> a - cur))"
    by (rule tiled_add[OF t]) (use e in \<open>auto simp: apart_def\<close>)
  then show "ext_ok (lf_off_shift st) (unat (b2w st (data_start_byte st))) (unat (hw_words st)) W (lf_holes st) cur (a - cur)"
    using sp n by (auto simp: ext_ok_def space_ok_def)
qed

lemma packed_slot:
  assumes p: "packed W cur st" and a: "cur \<le> a" "0 < unat w" "unat a + unat w \<le> unat (hw_words st)" "4 dvd w2b st a" "4 dvd w2b st w"
  shows "packed (W(a \<mapsto> w)) (a + w) st" "W a = None" "unat (a + w) = unat a + unat w"
proof -
  let ?F = "W ++ hmap (lf_holes st)"
  have sp: "space_ok W st" and t: "tiled_st st ?F" using p by (simp_all add: packed_def space_ok_def)
  have e: "unat b + unat v \<le> unat cur \<and> 0 < unat v" if "?F b = Some v" for b v
    using p that tiled_fits[OF t that] by (simp add: packed_def fits_def)
  have le: "unat cur \<le> unat a" using a(1) by (simp add: word_le_nat_alt)
  show u: "unat (a + w) = unat a + unat w" using a(3) unat_bound[of "hw_words st"] by (intro unat_add_small) simp
  have n: "?F a = None" by (cases "?F a") (use e[of a] le in auto)
  then show "W a = None" by simp
  have "fits (lf_off_shift st) (unat (b2w st (data_start_byte st))) (unat (hw_words st)) a w"
    using p a le by (simp add: fits_def packed_def word_le_nat_alt w2b_def)
  then have "tiled_st st (?F(a \<mapsto> w))"
  proof (rule tiled_add[OF t])
    fix b v assume "?F b = Some v"
    then show "apart a w b v" using e[of b v] le by (simp add: apart_def)
  qed
  moreover have W: "W(a \<mapsto> w) ++ hmap (lf_holes st) = ?F(a \<mapsto> w)" using n by (auto simp: fun_eq_iff map_add_def split: option.splits)
  ultimately have "space_ok (W(a \<mapsto> w)) st" using sp n by (auto simp: space_ok_def)
  moreover have "unat b + unat v \<le> unat (a + w)" if "(?F(a \<mapsto> w)) b = Some v" for b v
    using e[of b v] that le u by (cases "b = a") auto
  ultimately show "packed (W(a \<mapsto> w)) (a + w) st"
    using p a le u unfolding packed_def W by (auto simp: word_le_nat_alt w2b_def distrib_right)
qed

lemma packed_hole:
  assumes p: "packed W cur st" and a: "cur < a" "a < hw_words st" "4 dvd w2b st a"
  shows "\<exists>m h. flush_run cur (a - cur) (hw_words st) st = Some (with_mem st m\<lparr>lf_holes := h\<rparr>) \<and> packed W a (with_mem st m\<lparr>lf_holes := h\<rparr>) \<and>
    changed_in (w2b st cur) (w2b st a) (lf_mem st) m"
proof -
  let ?h = "lf_holes st"
  have r: "room st" and wf: "holes_wf ?h" using p by (simp_all add: packed_def space_ok_def)
  note g = packed_gap[OF p a(1) less_imp_le[OF a(2)] a(3)]
  have c: "w2b st cur + w2b st (a - cur) = w2b st a" using g(2) a(1) by (simp add: w2b_def word_less_nat_alt distrib_right[symmetric])
  obtain m where m: "write_hole_header cur (word_of_nat (w2b st (a - cur))) st = Some (with_mem st m)"
    "changed_in (w2b st cur) (w2b st a) (lf_mem st) m" "space_ok W (with_mem st m\<lparr>lf_holes := holes_insert cur (a - cur) ?h\<rparr>)"
    using new_hole_ok[OF r g(1), of ?h] unfolding c by auto
  have "8 \<le> w2b st cur" using packed_cur[OF p] by simp
  then have hw: "hw_words (with_mem st m) = hw_words st" using room_changed(2)[OF r m(2)] by simp
  have "unat b + unat v \<le> unat a" if "((W ++ hmap ?h)(cur \<mapsto> a - cur)) b = Some v" for b v
  proof (cases "b = cur")
    case True
    then show ?thesis using that g(2) a(1) by (simp add: word_less_nat_alt)
  next
    case False
    then have "unat b + unat v \<le> unat cur" using that p unfolding packed_def by simp
    then show ?thesis using a(1) by (simp add: word_less_nat_alt)
  qed
  then have "packed W a (with_mem st m\<lparr>lf_holes := holes_insert cur (a - cur) ?h\<rparr>)"
    using p m(3) a hw wf unfolding packed_def by (auto simp: holes_insert_ok w2b_def)
  moreover have "cur + (a - cur) \<noteq> hw_words st" using a(2) by simp
  ultimately show ?thesis using m by (auto simp: flush_run_def)
qed

definition ahead :: "leaf_store \<Rightarrow> u32 \<Rightarrow> u32 \<Rightarrow> u32 list \<Rightarrow> bool" where
  "ahead st hw cur live \<longleftrightarrow> sorted live \<and> distinct live \<and>
     (\<forall>a \<in> set live. 4 dvd w2b st a \<and> 4 dvd w2b st (slot_words_at a st) \<and> (b2w st (data_start_byte st) \<le> a \<and> a < hw \<longrightarrow> cur \<le> a))"

abbreviation limit_of :: "u32 \<Rightarrow> u32 list \<Rightarrow> u32" where
  "limit_of hw live \<equiv> (case live of [] \<Rightarrow> hw | b # _ \<Rightarrow> min b hw)"

lemma rebuild_unsound:
  assumes p: "packed W cur st" and ah: "ahead st (hw_words st) cur (a # live)"
    and n: "\<not> slot_sound st start (hw_words st) a (limit_of (hw_words st) live)"
  shows "rebuild_from start (hw_words st) (a # live) cur B st = rebuild_from start (hw_words st) live cur (insert a B) st"
proof (cases "a < start \<or> a \<ge> hw_words st")
  case False
  have "w2b st a < leaf_high_water st" "4 dvd w2b st a" "4 dvd leaf_high_water st" "leaf_high_water st \<le> length (lf_mem st)"
    using False ah p by (auto simp: w2b_def leaf_high_water_def word_less_nat_alt ahead_def packed_def space_ok_def room_def not_le)
  then have "w2b st a + 4 \<le> length (lf_mem st)" "4 dvd w2b st a" "4 dvd w2b st a + 8"
    by (auto elim!: dvdE)
  then show ?thesis using False n by (auto simp: slot_sound_def slot_words_at_def atomic_load_ok Let_def not_le not_less)
qed simp

lemma sound_words:
  assumes "packed W cur st" "slot_sound st (b2w st (data_start_byte st)) (hw_words st) a (limit_of (hw_words st) live)"
  shows "0 < unat (slot_words_at a st)" "unat a + unat (slot_words_at a st) \<le> unat (hw_words st)"
    "live = b # bs \<Longrightarrow> unat a + unat (slot_words_at a st) \<le> unat b"
proof -
  have "0 < unat (min_slot_words st)"
    using shift_cases[of "lf_off_shift st"] assms(1)
    by (auto simp: packed_def space_ok_def room_def min_slot_words_def b2w_def align_slot_def align_up_def slot_align_def)
  then show "0 < unat (slot_words_at a st)" using assms(2) by (simp add: slot_sound_def word_le_nat_alt)
  show "unat a + unat (slot_words_at a st) \<le> unat (hw_words st)" "live = b # bs \<Longrightarrow> unat a + unat (slot_words_at a st) \<le> unat b"
    using assms(2) by (auto simp: slot_sound_def min_def word_le_nat_alt split: list.splits if_splits)
qed

text \<open>A sound slot: what lies before it becomes a hole, and the loop goes on behind it.\<close>

lemma rebuild_sound:
  assumes p: "packed W cur st" and ah: "ahead st (hw_words st) cur (a # live)"
    and s: "slot_sound st (b2w st (data_start_byte st)) (hw_words st) a (limit_of (hw_words st) live)"
  shows "\<exists>m h. rebuild_from (b2w st (data_start_byte st)) (hw_words st) (a # live) cur B st =
      rebuild_from (b2w st (data_start_byte st)) (hw_words st) live (a + slot_words_at a st) B (with_mem st m\<lparr>lf_holes := h\<rparr>) \<and>
    packed (W(a \<mapsto> slot_words_at a st)) (a + slot_words_at a st) (with_mem st m\<lparr>lf_holes := h\<rparr>) \<and>
    changed_in (w2b st cur) (w2b st a) (lf_mem st) m \<and> hw_words (with_mem st m\<lparr>lf_holes := h\<rparr>) = hw_words st"
proof -
  let ?hw = "hw_words st" and ?w = "slot_words_at a st"
  note w = sound_words[OF p s]
  have r: "room st" using p by (simp add: packed_def space_ok_def)
  have a: "cur \<le> a" "a < ?hw" "4 dvd w2b st a" "4 dvd w2b st ?w" using s ah by (auto simp: slot_sound_def ahead_def)
  have "w2b st a < leaf_high_water st" "4 dvd leaf_high_water st" "leaf_high_water st \<le> length (lf_mem st)"
    using a(2) r by (auto simp: w2b_def leaf_high_water_def word_less_nat_alt room_def)
  then have l: "w2b st a + 4 \<le> length (lf_mem st)" "4 dvd w2b st a + 8" using a(3) by (auto elim!: dvdE)
  have run: "rebuild_from (b2w st (data_start_byte st)) ?hw (a # live) cur B st =
      Option.bind (if a > cur then flush_run cur (a - cur) ?hw st else Some st) (rebuild_from (b2w st (data_start_byte st)) ?hw live (a + ?w) B)"
    using s l a(3) by (auto simp: slot_sound_def slot_words_at_def atomic_load_ok Let_def not_le not_less)
  have "\<exists>m h. (if a > cur then flush_run cur (a - cur) ?hw st else Some st) = Some (with_mem st m\<lparr>lf_holes := h\<rparr>) \<and>
    packed W a (with_mem st m\<lparr>lf_holes := h\<rparr>) \<and> changed_in (w2b st cur) (w2b st a) (lf_mem st) m"
  proof (cases "a > cur")
    case True
    then show ?thesis using packed_hole[OF p True a(2,3)] by simp
  next
    case False
    then show ?thesis using a(1) p by (intro exI[of _ "lf_mem st"] exI[of _ "lf_holes st"]) auto
  qed
  then obtain m h where m: "(if a > cur then flush_run cur (a - cur) ?hw st else Some st) = Some (with_mem st m\<lparr>lf_holes := h\<rparr>)"
    "packed W a (with_mem st m\<lparr>lf_holes := h\<rparr>)" "changed_in (w2b st cur) (w2b st a) (lf_mem st) m" by blast
  have "8 \<le> w2b st cur" using packed_cur[OF p] by simp
  then have hw: "hw_words (with_mem st m\<lparr>lf_holes := h\<rparr>) = ?hw" using room_changed(2)[OF r m(3)] by simp
  have "packed (W(a \<mapsto> ?w)) (a + ?w) (with_mem st m\<lparr>lf_holes := h\<rparr>)"
    using packed_slot(1)[OF m(2), of a ?w] w a hw by simp
  then show ?thesis using run m hw by auto
qed

lemma slot_words_same: "changed_in p q (lf_mem st) m \<Longrightarrow> q \<le> w2b st b \<Longrightarrow> slot_words_at b (with_mem st m\<lparr>lf_holes := h\<rparr>) = slot_words_at b st"
  by (simp add: slot_words_at_def changed_in_u32)

lemma slot_sound_same:
  assumes "changed_in p q (lf_mem st) m" "q \<le> w2b st b"
  shows "slot_sound (with_mem st m\<lparr>lf_holes := h\<rparr>) start hw b l = slot_sound st start hw b l"
  using assms changed_in_u32[OF assms(1), of "w2b st b"] changed_in_u32[OF assms(1), of "w2b st b + 8"]
  by (simp add: slot_sound_def slot_words_same changed_in_length min_slot_words_def align_slot_def slot_align_def)

lemma rejected_same:
  assumes "changed_in p q (lf_mem st) m" "\<And>b. b \<in> set live \<Longrightarrow> q \<le> w2b st b"
  shows "rejected (with_mem st m\<lparr>lf_holes := h\<rparr>) start hw live = rejected st start hw live"
  using assms(2) by (induction live) (simp_all add: slot_sound_same[OF assms(1)])

lemma ahead_next:
  assumes p: "packed W cur st" and ah: "ahead st (hw_words st) cur (a # live)"
    and s: "slot_sound st (b2w st (data_start_byte st)) (hw_words st) a (limit_of (hw_words st) live)"
    and m: "changed_in q (w2b st a) (lf_mem st) m"
  shows "ahead (with_mem st m\<lparr>lf_holes := h\<rparr>) (hw_words st) (a + slot_words_at a st) live" "b \<in> set live \<Longrightarrow> w2b st a \<le> w2b st b"
proof -
  note w = sound_words[OF p s]
  have u: "unat (a + slot_words_at a st) = unat a + unat (slot_words_at a st)" using w(2) unat_bound[of "hw_words st"] by (intro unat_add_small) simp
  have le: "w2b st a \<le> w2b st b" if "b \<in> set live" for b using ah that by (simp add: ahead_def w2b_def word_le_nat_alt)
  then show "b \<in> set live \<Longrightarrow> w2b st a \<le> w2b st b" by blast
  have "a + slot_words_at a st \<le> b" if b: "b \<in> set live" for b
  proof (cases live)
    case (Cons c cs)
    then have "c \<le> b" using ah b by (auto simp: ahead_def)
    then show ?thesis using w(3)[OF Cons] u by (simp add: word_le_nat_alt)
  qed (use b in simp)
  then show "ahead (with_mem st m\<lparr>lf_holes := h\<rparr>) (hw_words st) (a + slot_words_at a st) live"
    using ah le by (auto simp: ahead_def slot_words_same[OF m])
qed

lemma accepted_Cons:
  assumes "distinct (a # live)"
  shows "accepted st start hw (a # live) = (if slot_sound st start hw a (limit_of hw live) then (accepted st start hw live)(a \<mapsto> slot_words_at a st) else accepted st start hw live)"
  using assms rejected_sub[of st start hw live] by (auto simp: accepted_def fun_eq_iff)

lemma kept_around:
  assumes c: "changed_in (w2b st cur) (w2b st a) (lf_mem st) m" "12 \<le> w2b st cur"
    and V: "\<And>b v. V b = Some v \<Longrightarrow> unat b + unat v \<le> unat cur \<or> w2b st a \<le> w2b st b"
  shows "kept V st (with_mem st m\<lparr>lf_holes := h\<rparr>)"
proof (rule kept_changed[OF c])
  fix b v assume "V b = Some v"
  moreover have "w2b st b + w2b st v \<le> w2b st cur" if "unat b + unat v \<le> unat cur"
    using mult_le_mono1[OF that, of "2 ^ lf_off_shift st"] by (simp add: w2b_def distrib_right)
  ultimately show "w2b st b + w2b st v \<le> w2b st cur \<or> w2b st a \<le> w2b st b" using V by blast
qed

lemma rebuild_from_ok:
  assumes "packed W cur st" "ahead st (hw_words st) cur live" "start = b2w st (data_start_byte st)"
  shows "\<exists>m h cur'. rebuild_from start (hw_words st) live cur B st = Some (with_mem st m\<lparr>lf_holes := h\<rparr>, cur', B \<union> rejected st start (hw_words st) live) \<and>
    packed (W ++ accepted st start (hw_words st) live) cur' (with_mem st m\<lparr>lf_holes := h\<rparr>) \<and> hw_words (with_mem st m\<lparr>lf_holes := h\<rparr>) = hw_words st \<and>
    kept (W ++ accepted st start (hw_words st) live) st (with_mem st m\<lparr>lf_holes := h\<rparr>)"
  using assms
proof (induction live arbitrary: W cur st B)
  case Nil
  then show ?case by (auto simp: accepted_def kept_def map_add_def intro!: exI[of _ "lf_mem st"] exI[of _ "lf_holes st"])
next
  case (Cons a live)
  let ?hw = "hw_words st"
  have d: "distinct (a # live)" using Cons.prems(2) by (simp add: ahead_def)
  show ?case
  proof (cases "slot_sound st start ?hw a (limit_of ?hw live)")
    case False
    have "ahead st ?hw cur live" using Cons.prems(2) by (simp add: ahead_def)
    then show ?thesis
      using Cons.IH[OF Cons.prems(1) _ Cons.prems(3), of "insert a B"] rebuild_unsound[OF Cons.prems(1,2) False] False
      unfolding accepted_Cons[OF d] by (simp del: rebuild_from.simps)
  next
    case True
    let ?w = "slot_words_at a st" and ?A = "accepted st start ?hw live"
    note s = True[unfolded Cons.prems(3)]
    obtain m h where m: "rebuild_from start ?hw (a # live) cur B st = rebuild_from start ?hw live (a + ?w) B (with_mem st m\<lparr>lf_holes := h\<rparr>)"
      "packed (W(a \<mapsto> ?w)) (a + ?w) (with_mem st m\<lparr>lf_holes := h\<rparr>)" "changed_in (w2b st cur) (w2b st a) (lf_mem st) m"
      "hw_words (with_mem st m\<lparr>lf_holes := h\<rparr>) = ?hw"
      using rebuild_sound[OF Cons.prems(1,2) s] Cons.prems(3) by blast
    let ?s = "with_mem st m\<lparr>lf_holes := h\<rparr>"
    note nx = ahead_next[OF Cons.prems(1,2) s m(3)]
    have rej: "rejected ?s start ?hw live = rejected st start ?hw live" by (rule rejected_same[OF m(3) nx(2)])
    have acc: "accepted ?s start ?hw live = ?A"
      unfolding accepted_def rej using slot_words_same[OF m(3) nx(2)] by (auto simp: fun_eq_iff)
    have V: "W(a \<mapsto> ?w) ++ ?A = W ++ accepted st start ?hw (a # live)"
      using True d rejected_sub[of st start ?hw live] by (auto simp: accepted_Cons[OF d] fun_eq_iff accepted_def map_add_def)
    have "start = b2w ?s (data_start_byte ?s)" using Cons.prems(3) by simp
    from Cons.IH[OF m(2) nx(1)[of h, folded m(4)] this, of B, unfolded m(4) rej acc V with_mem_twice]
    obtain m' h' cur' where n: "rebuild_from start ?hw live (a + ?w) B ?s = Some (with_mem st m'\<lparr>lf_holes := h'\<rparr>, cur', B \<union> rejected st start ?hw live)"
      "packed (W ++ accepted st start ?hw (a # live)) cur' (with_mem st m'\<lparr>lf_holes := h'\<rparr>)" "hw_words (with_mem st m'\<lparr>lf_holes := h'\<rparr>) = ?hw"
      "kept (W ++ accepted st start ?hw (a # live)) ?s (with_mem st m'\<lparr>lf_holes := h'\<rparr>)"
      by blast
    have "kept (W ++ accepted st start ?hw (a # live)) st ?s"
    proof (rule kept_around[OF m(3) packed_cur[OF Cons.prems(1)]])
      fix b v assume "(W ++ accepted st start ?hw (a # live)) b = Some v"
      then consider "b = a" | "b \<in> set live" | "W b = Some v" unfolding V[symmetric] by (auto simp: accepted_def split: if_splits)
      then show "unat b + unat v \<le> unat cur \<or> w2b st a \<le> w2b st b"
      proof cases
        case 3
        then show ?thesis using Cons.prems(1) space_used unfolding packed_def by blast
      qed (use nx(2) in auto)
    qed
    from leaf_kept_trans[OF this n(4)] have "kept (W ++ accepted st start ?hw (a # live)) st (with_mem st m'\<lparr>lf_holes := h'\<rparr>)" by simp
    then show ?thesis using m(1) n True by (auto simp del: rebuild_from.simps)
  qed
qed

text \<open>An empty list of holes over a space in which nothing is known but its bounds.\<close>

lemma rebuild_core:
  assumes r: "room st" and e: "lf_holes st = holes_empty" and start: "start = b2w st (data_start_byte st)"
    and al: "\<And>a. a \<in> set live \<Longrightarrow> 4 dvd w2b st a \<and> 4 dvd w2b st (slot_words_at a st)"
    and l: "sorted live" "distinct live"
  shows "\<exists>m h. Option.bind (rebuild_from start (hw_words st) live start {} st) (\<lambda>(st1, cur, broken).
       map_option (\<lambda>st2. (st2, broken)) (if cur < hw_words st then flush_run cur (hw_words st - cur) (hw_words st) st1 else Some st1)) =
     Some (with_mem st m\<lparr>lf_holes := h\<rparr>, rejected st start (hw_words st) live) \<and>
    space_ok (accepted st start (hw_words st) live) (with_mem st m\<lparr>lf_holes := h\<rparr>) \<and> kept (accepted st start (hw_words st) live) st (with_mem st m\<lparr>lf_holes := h\<rparr>)"
proof -
  let ?hw = "hw_words st" and ?A = "accepted st start (hw_words st) live"
  have "start \<le> ?hw"
  proof -
    have "unat start * 2 ^ lf_off_shift st \<le> unat ?hw * 2 ^ lf_off_shift st" using r data_start[of st] start by (simp add: room_def w2b_def leaf_high_water_def)
    then show ?thesis by (simp add: word_le_nat_alt)
  qed
  then have p: "packed Map.empty start st" using data_start[of st] r start e by (simp add: packed_def space_ok_def holes_wf_empty tiled_def room_def)
  have ah: "ahead st ?hw start live" using al l start by (simp add: ahead_def)
  obtain m h cur where a: "rebuild_from start ?hw live start {} st = Some (with_mem st m\<lparr>lf_holes := h\<rparr>, cur, rejected st start ?hw live)"
    "packed ?A cur (with_mem st m\<lparr>lf_holes := h\<rparr>)" "hw_words (with_mem st m\<lparr>lf_holes := h\<rparr>) = ?hw" "kept ?A st (with_mem st m\<lparr>lf_holes := h\<rparr>)"
    using rebuild_from_ok[OF p ah start, of "{}"] unfolding empty_map_add Un_empty_left by blast
  let ?s = "with_mem st m\<lparr>lf_holes := h\<rparr>"
  have sp: "space_ok ?A ?s" and rs: "room ?s" using a(2) by (simp_all add: packed_def space_ok_def)
  show ?thesis
  proof (cases "cur < ?hw")
    case False
    then show ?thesis using a sp by auto
  next
    case True
    let ?f = "set_hw_words cur ?s"
    have g: "ext_ok (lf_off_shift ?s) (unat (b2w ?s (data_start_byte ?s))) (unat (hw_words ?s)) ?A h cur (hw_words ?s - cur)"
      using packed_gap(1)[OF a(2), of ?hw] True a(3) rs by (simp add: room_def leaf_high_water_def)
    have "space_ok ?A (set_hw_words cur (?s\<lparr>lf_holes := h\<rparr>))" by (rule shrink_ok[OF rs g]) simp
    then have "space_ok ?A ?f" by simp
    moreover have "kept ?A ?s ?f" by (rule kept_hw[OF rs span_bytes(1)[OF sp]])
    with a(4) have "kept ?A st ?f" by (rule leaf_kept_trans) simp
    moreover have "?f = with_mem st (put_at 4 (to_le_bytes cur) m)\<lparr>lf_holes := h\<rparr>" by (simp add: set_hw_eq)
    moreover have "flush_run cur (?hw - cur) ?hw ?s = Some ?f" by (simp add: flush_run_def)
    ultimately show ?thesis using a(1) True by auto
  qed
qed

lemma rebuild_free_list_ok:
  assumes r: "room st" and al: "\<And>a. a \<in> set live \<Longrightarrow> 4 dvd w2b st a \<and> 4 dvd w2b st (slot_words_at a st)"
    and l: "live' = remdups_adj (sort live)" and A: "A = accepted st (b2w st (data_start_byte st)) (hw_words st) live'"
  shows "\<exists>m h. rebuild_free_list live st =
      Some (with_mem st m\<lparr>lf_holes := h, lf_from_file := False\<rparr>, rejected st (b2w st (data_start_byte st)) (hw_words st) live') \<and>
    space_ok A (with_mem st m\<lparr>lf_holes := h, lf_from_file := False\<rparr>) \<and> kept A st (with_mem st m\<lparr>lf_holes := h, lf_from_file := False\<rparr>)"
proof -
  let ?start = "b2w st (data_start_byte st)" and ?hw = "hw_words st"
  let ?s = "st\<lparr>lf_holes := holes_empty, lf_from_file := False\<rparr>"
  note e = same_memory[of ?s st, simplified] and f = same_slots[of ?s st, simplified]
  obtain m h where m: "Option.bind (rebuild_from ?start ?hw live' ?start {} ?s) (\<lambda>(st1, cur, broken).
       map_option (\<lambda>st2. (st2, broken)) (if cur < ?hw then flush_run cur (?hw - cur) ?hw st1 else Some st1)) =
     Some (with_mem ?s m\<lparr>lf_holes := h\<rparr>, rejected st ?start ?hw live')"
    "space_ok A (with_mem ?s m\<lparr>lf_holes := h\<rparr>)" "kept A ?s (with_mem ?s m\<lparr>lf_holes := h\<rparr>)"
    using rebuild_core[of ?s ?start live'] r al sort_dedup[of live] unfolding e f A l by auto
  let ?t = "with_mem st m\<lparr>lf_holes := h, lf_from_file := False\<rparr>"
  have t: "with_mem ?s m\<lparr>lf_holes := h\<rparr> = ?t" by simp
  have "kept A st ?t" using m(3) unfolding t kept_def e by simp
  then show ?thesis using m(1,2) unfolding t l by (auto simp: rebuild_free_list_def Let_def)
qed

section \<open>Reopening\<close>

lemma sound_used:
  assumes sp: "space_ok W st" and a: "W a = Some w" and im: "slot_image (seg st a w) bs"
  shows "slot_words_at a st = w" "min_slot_words st \<le> w" "4 dvd w2b st a" "4 dvd w2b st w" "b2w st (data_start_byte st) \<le> a" "a < hw_words st"
    "u32_at (lf_mem st) (w2b st a) AND HAS_GEN \<noteq> 0 \<Longrightarrow> u32_at (lf_mem st) (w2b st a + 8) AND 1 = 0" "unat a + unat w \<le> unat (hw_words st)"
proof -
  note b = span_bytes[OF sp a] and i = image_bytes[OF sp a im]
  show "slot_words_at a st = w" unfolding slot_words_at_def i(2) by (rule b2w_w2b)
  show "4 dvd w2b st a" "4 dvd w2b st w" using b by simp_all
  show "u32_at (lf_mem st) (w2b st a) AND HAS_GEN \<noteq> 0 \<Longrightarrow> u32_at (lf_mem st) (w2b st a + 8) AND 1 = 0" by (rule i(3))
  have "fits (lf_off_shift st) (unat (b2w st (data_start_byte st))) (unat (hw_words st)) a w"
    using tiled_fits[of _ _ _ "W ++ hmap (lf_holes st)" a w] space_used[OF sp a] sp by (simp add: space_ok_def)
  then show "b2w st (data_start_byte st) \<le> a" "a < hw_words st" "unat a + unat w \<le> unat (hw_words st)"
    by (auto simp: fits_def word_le_nat_alt word_less_nat_alt)
  have "8 \<le> w2b st w" using i(1) by (auto simp: header_len_def split: if_splits)
  then show "min_slot_words st \<le> w"
    using shift_cases[of "lf_off_shift st"] sp
    by (auto simp: space_ok_def room_def w2b_def b2w_def min_slot_words_def align_slot_def align_up_def slot_align_def word_le_nat_alt)
qed

lemma none_rejected:
  assumes sp: "space_ok W st" and im: "\<And>a w. W a = Some w \<Longrightarrow> \<exists>bs. slot_image (seg st a w) bs"
    and l: "sorted live" "distinct live" "set live \<subseteq> dom W"
  shows "rejected st (b2w st (data_start_byte st)) (hw_words st) live = {}"
  using l
proof (induction live)
  case (Cons a live)
  obtain w where w: "W a = Some w" using Cons.prems(3) by auto
  then obtain bs where im': "slot_image (seg st a w) bs" using im by blast
  note s = sound_used[OF sp w im']
  have "unat a + unat w \<le> unat (limit_of (hw_words st) live)"
  proof (cases live)
    case (Cons b bs)
    then have "a \<le> b" "a \<noteq> b" "b \<in> dom W" using Cons.prems by auto
    then obtain v where v: "W b = Some v" by auto
    have t: "tiled_st st (W ++ hmap (lf_holes st))" using sp by (simp add: space_ok_def)
    have "apart a w b v" by (rule tiled_apart[OF t space_used[OF sp w] space_used[OF sp v] \<open>a \<noteq> b\<close>])
    moreover have "unat a < unat b" "0 < unat v" using \<open>a \<le> b\<close> \<open>a \<noteq> b\<close> tiled_fits[OF t space_used[OF sp v]]
      by (simp_all add: word_less_nat_alt[symmetric] fits_def)
    ultimately show ?thesis using s(8) Cons by (auto simp: apart_def min_def)
  qed (use s in simp)
  then have "slot_sound st (b2w st (data_start_byte st)) (hw_words st) a (limit_of (hw_words st) live)"
    using s by (auto simp: slot_sound_def)
  then show ?case using Cons by simp
qed simp

lemma reopen_ok:
  assumes inv: "leaf_inv U st" and live: "set live \<subseteq> dom U"
  shows "\<exists>st0 st'. leaf_load (lf_region st) = Inr st0 \<and> rebuild_free_list live st0 = Some (st', {}) \<and> leaf_inv (U |` set live) st' \<and>
    length (lf_mem st') = length (lf_mem st)"
proof -
  have sp: "space_ok (sizes U) st" and r: "room st" and co: "contents U st" using inv by (simp_all add: leaf_inv_def space_ok_def)
  define st0 where "st0 = leaf_with (lf_region st) (lf_off_shift st)"
  have s0: "lf_region st0 = lf_region st" "lf_off_shift st0 = lf_off_shift st" "even (lf_gen_seq st0)" "lf_pending st0 = []" "lf_retired_bytes st0 = 0"
    by (simp_all add: st0_def leaf_with_def)
  have l12: "12 \<le> length (lf_mem st)" using r data_start[of st] by (auto simp: room_def)
  have "lf_mem st ! 8 = slice 8 12 (lf_mem st) ! 0" using l12 by (simp add: slice_def)
  then have ld: "leaf_load (lf_region st) = Inr st0"
    using co r l12 by (auto simp: leaf_load_def Let_def contents_def header_ok_def room_def st0_def)
  note same = same_memory[OF s0(1,2)] and sl = same_slots[OF s0(1,2)]
  let ?V = "U |` set live" and ?l = "remdups_adj (sort live)"
  have used: "slot_words_at a st = w \<and> 4 dvd w2b st a \<and> 4 dvd w2b st w" if "U a = Some (w, bs)" for a w bs
    using sound_used(1,3,4)[OF sp, of a w bs] that co by (simp add: contents_def)
  have al: "4 dvd w2b st0 a \<and> 4 dvd w2b st0 (slot_words_at a st0)" if a: "a \<in> set live" for a
  proof -
    obtain w bs where "U a = Some (w, bs)" using live a by fastforce
    then show ?thesis using used[of a w bs] by (simp add: same sl)
  qed
  have ls: "sorted ?l" "distinct ?l" "set ?l = set live" using sort_dedup[of live] by simp_all
  have "\<exists>bs. slot_image (seg st a w) bs" if "sizes U a = Some w" for a w using co that by (auto simp: contents_def)
  then have rj: "rejected st (b2w st (data_start_byte st)) (hw_words st) ?l = {}"
    using none_rejected[OF sp _ ls(1,2)] ls(3) live by (simp add: dom_def)
  have ac: "accepted st (b2w st (data_start_byte st)) (hw_words st) ?l = sizes ?V"
  proof
    fix a
    show "accepted st (b2w st (data_start_byte st)) (hw_words st) ?l a = sizes ?V a"
    proof (cases "a \<in> set live")
      case True
      then obtain w bs where "U a = Some (w, bs)" using live by fastforce
      then show ?thesis using True used[of a w bs] by (simp add: accepted_def rj ls(3))
    qed (simp add: accepted_def ls(3))
  qed
  obtain m h where m: "rebuild_free_list live st0 = Some (with_mem st0 m\<lparr>lf_holes := h, lf_from_file := False\<rparr>, {})"
    "space_ok (sizes ?V) (with_mem st0 m\<lparr>lf_holes := h, lf_from_file := False\<rparr>)" "kept (sizes ?V) st0 (with_mem st0 m\<lparr>lf_holes := h, lf_from_file := False\<rparr>)"
    using rebuild_free_list_ok[of st0 live, OF _ al refl refl] r unfolding same sl ac rj by blast
  have "contents U st0" using co same by simp
  then have "contents ?V (with_mem st0 m\<lparr>lf_holes := h, lf_from_file := False\<rparr>)"
    by (rule contents_kept[OF _ restrict_le m(3)]) simp
  then have "leaf_inv ?V (with_mem st0 m\<lparr>lf_holes := h, lf_from_file := False\<rparr>)"
    using m(2) s0 by (simp add: leaf_inv_def pending_ok_def)
  then show ?thesis using ld m s0 by (auto simp: kept_def head_kept_def)
qed

end
