(* ===== verification/Leaf_History.thy ===== *)
theory Leaf_History
  imports Leaf_Rebuild "HOL-Library.Code_Target_Nat"
begin

text \<open>
  The saved free list of a payload store, and the histories of the store: creating it, inserting,
  releasing and retiring slots, flushing, closing and opening again.
\<close>

section \<open>The saved free list\<close>

definition pair_bytes :: "u32 \<times> u32 \<Rightarrow> bytes" where
  "pair_bytes = (\<lambda>(off, sz). to_le_bytes off @ to_le_bytes sz)"

lemma pair_bytes_eq [simp]: "pair_bytes (off, sz) = to_le_bytes off @ to_le_bytes sz" "length (pair_bytes p) = 8"
  by (simp_all add: pair_bytes_def case_prod_beta)

fun chained :: "u32 \<Rightarrow> u32 \<Rightarrow> (u32 \<times> u32) list \<Rightarrow> bool" where
  "chained cur hw [] \<longleftrightarrow> True"
| "chained cur hw ((off, sz) # ps) \<longleftrightarrow> sz \<noteq> 0 \<and> cur \<le> off \<and> unat off + unat sz \<le> unat hw \<and> chained (off + sz) hw ps"

lemma u32_at_drop: "u32_at m (k + n) = u32_at (drop k m) n"
  by (simp add: u32_at_def slice_def add.commute)

lemma read_pairs_ok:
  assumes "drop (16 + i * 8) body = concat (map pair_bytes ps)" "chained cur hw ps"
  shows "read_pairs body i (length ps) cur hw = Some ps"
  using assms
proof (induction ps arbitrary: i cur)
  case (Cons p ps)
  obtain off sz where p: "p = (off, sz)" by fastforce
  have d: "drop (16 + i * 8) body = to_le_bytes off @ to_le_bytes sz @ concat (map pair_bytes ps)" using Cons.prems(1) p by simp
  have o: "u32_at body (16 + i * 8) = off" using u32_at_drop[of body "16 + i * 8" 0] d by (simp add: u32_at_def slice_def)
  have z: "u32_at body (20 + i * 8) = sz" using u32_at_drop[of body "16 + i * 8" 4] d by (simp add: u32_at_def slice_def add.commute)
  have "drop (16 + (i + 1) * 8) body = drop 8 (drop (16 + i * 8) body)" by (simp add: algebra_simps)
  then have "drop (16 + (i + 1) * 8) body = concat (map pair_bytes ps)" using d by simp
  from Cons.IH[OF this, of "off + sz"] Cons.prems(2) show ?case using o z p by (auto simp: not_less Let_def)
qed simp

lemma chained_holes:
  assumes "sorted ps" "distinct (map fst ps)" "\<And>a w. (a, w) \<in> set ps \<Longrightarrow> fits s (unat lo) (unat hw) a w"
    "\<And>a w b v. (a, w) \<in> set ps \<Longrightarrow> (b, v) \<in> set ps \<Longrightarrow> a \<noteq> b \<Longrightarrow> apart a w b v"
    "\<And>a w. (a, w) \<in> set ps \<Longrightarrow> cur \<le> a"
  shows "chained cur hw ps"
  using assms
proof (induction ps arbitrary: cur)
  case (Cons p ps)
  obtain a w where p: "p = (a, w)" by fastforce
  have f: "fits s (unat lo) (unat hw) a w" using Cons.prems(3) p by simp
  then have u: "unat (a + w) = unat a + unat w" using unat_bound[of hw] by (intro unat_add_small) (simp add: fits_def)
  have "a + w \<le> b" if b: "(b, v) \<in> set ps" for b v
  proof -
    have "a \<noteq> b" using Cons.prems(2) b p by force
    moreover have "a \<le> b" using Cons.prems(1) b p by (auto simp: less_eq_prod_def less_imp_le)
    ultimately have "unat a < unat b" by (simp add: word_less_nat_alt[symmetric])
    moreover have "apart a w b v" using Cons.prems(4)[of a w b v] p b \<open>a \<noteq> b\<close> by simp
    ultimately show ?thesis using u by (auto simp: apart_def word_le_nat_alt)
  qed
  then have "chained (a + w) hw ps" using Cons.prems by (intro Cons.IH) auto
  then show ?case using p f Cons.prems(5) by (auto simp: fits_def)
qed simp

lemma holes_eq:
  assumes "holes_wf h" "holes_wf h'" "hmap h = hmap h'"
  shows "h = h'"
proof -
  have s: "set (ho_off h) = set (ho_off h')" using assms hmap_iff by (metis subrelI subset_antisym)
  have "distinct (ho_off h)" "distinct (ho_off h')" using assms by (auto simp: holes_wf_def distinct_map)
  then have "ho_off h = ho_off h'" using s assms by (intro sorted_distinct_set_unique) (simp_all add: holes_wf_def)
  moreover have "ho_size h = ho_size h'" using s assms by (intro sorted_distinct_set_unique) (simp_all add: holes_wf_def)
  ultimately show ?thesis by simp
qed

lemma fold_holes:
  assumes "holes_wf h" "distinct (map fst ps)"
  shows "holes_wf (fold (\<lambda>(off, sz). holes_insert off sz) ps h)" "hmap (fold (\<lambda>(off, sz). holes_insert off sz) ps h) = hmap h ++ map_of ps"
  using assms
proof (induction ps arbitrary: h)
  case (Cons p ps)
  obtain a w where p: "p = (a, w)" by fastforce
  { case 1 then show ?case using Cons.IH(1)[of "holes_insert a w h"] p by (simp add: holes_insert_ok) }
  { case 2
    have "a \<notin> fst ` set ps" using 2 p by simp
    then have "(hmap h)(a \<mapsto> w) ++ map_of ps = hmap h ++ map_of (p # ps)" using p by (simp add: map_add_upd_left dom_map_of_conv_image_fst)
    moreover have "holes_wf (holes_insert a w h)" "distinct (map fst ps)" using 2 by (simp_all add: holes_insert_ok)
    note Cons.IH(2)[OF this, unfolded holes_insert_ok(2)[OF 2(1)]]
    ultimately show ?case using p by (simp del: map_of.simps fun_upd_apply) }
qed auto

lemma rebuilt_holes: "holes_wf h \<Longrightarrow> fold (\<lambda>(off, sz). holes_insert off sz) (ho_off h) holes_empty = h"
  using fold_holes[OF holes_wf_empty(1), of "ho_off h"] by (intro holes_eq) (simp_all add: holes_wf_def holes_wf_empty)

lemma few_holes:
  assumes "space_ok W st"
  shows "length (ho_off (lf_holes st)) < 2 ^ 32"
proof -
  let ?ps = "ho_off (lf_holes st)"
  have wf: "holes_wf (lf_holes st)" and t: "tiled_st st (W ++ hmap (lf_holes st))" using assms by (simp_all add: space_ok_def)
  have "length ?ps = card (fst ` set ?ps)" using wf distinct_card[of "map fst ?ps"] by (simp add: holes_wf_def)
  also have "\<dots> = card (unat ` fst ` set ?ps)" by (intro card_image[symmetric] inj_onI) (simp add: word_unat_eq_iff)
  also have "\<dots> \<le> card {..<unat (hw_words st)}"
  proof (rule card_mono)
    show "unat ` fst ` set ?ps \<subseteq> {..<unat (hw_words st)}"
      using tiled_fits[OF t space_hole] hmap_iff[OF wf] by (force simp: fits_def)
  qed simp
  also have "\<dots> < 2 ^ 32" using unat_bound[of "hw_words st"] by simp
  finally show ?thesis .
qed

lemma install_saved:
  assumes sp: "space_ok W st" and s: "lf_region st0 = lf_region st" "lf_off_shift st0 = lf_off_shift st"
  shows "install_free_list (free_list_bytes st) st0 = (st0\<lparr>lf_holes := lf_holes st, lf_from_file := True\<rparr>, True)"
proof -
  let ?ps = "ho_off (lf_holes st)" and ?hw = "hw_words st"
  let ?n = "word_of_nat (length ?ps) :: u32"
  have wf: "holes_wf (lf_holes st)" and t: "tiled_st st (W ++ hmap (lf_holes st))" using sp by (simp_all add: space_ok_def)
  note e = same_memory[OF s]
  define pre where "pre = [69, 76, 70, 76] @ to_le_bytes (1 :: u32) @ to_le_bytes ?hw @ to_le_bytes ?n"
  define body where "body = pre @ concat (map pair_bytes ?ps)"
  have bs: "free_list_bytes st = body @ to_le_bytes (fnv1a body)"
    by (simp add: free_list_bytes_def Let_def body_def pre_def pair_bytes_def)
  have lp: "length pre = 16" by (simp add: pre_def)
  have lb: "length body = 16 + length ?ps * 8" by (simp add: body_def lp length_concat o_def sum_list_triv)
  have un: "unat ?n = length ?ps" using few_holes[OF sp] by (simp add: unat_of_nat)
  have hd: "slice 0 4 body = [69, 76, 70, 76]" "u32_at body 4 = 1" "u32_at body 8 = ?hw" "u32_at body 12 = ?n"
    by (simp_all add: body_def pre_def u32_at_def slice_def)
  have "chained (b2w st (data_start_byte st)) ?hw ?ps"
  proof (rule chained_holes[where s = "lf_off_shift st" and lo = "b2w st (data_start_byte st)"])
    show "sorted ?ps" "distinct (map fst ?ps)" using wf by (simp_all add: holes_wf_def)
    show f: "fits (lf_off_shift st) (unat (b2w st (data_start_byte st))) (unat ?hw) a w" if "(a, w) \<in> set ?ps" for a w
      using tiled_fits[OF t space_hole] hmap_iff[OF wf] that by blast
    show "apart a w b v" if "(a, w) \<in> set ?ps" "(b, v) \<in> set ?ps" "a \<noteq> b" for a w b v
      using tiled_apart[OF t space_hole space_hole] hmap_iff[OF wf] that by blast
    show "b2w st (data_start_byte st) \<le> a" if "(a, w) \<in> set ?ps" for a w using f[OF that] by (simp add: fits_def word_le_nat_alt)
  qed
  then have rp: "read_pairs body 0 (length ?ps) (b2w st (data_start_byte st)) ?hw = Some ?ps"
    by (intro read_pairs_ok) (simp_all add: body_def lp)
  have "take (length (free_list_bytes st) - 4) (free_list_bytes st) = body" "slice 0 4 (free_list_bytes st) = slice 0 4 body" "\<not> length (free_list_bytes st) < 20"
    "u32_at (free_list_bytes st) (length (free_list_bytes st) - 4) = fnv1a body"
    using lb by (simp_all add: bs slice_append_left) (simp add: u32_at_def slice_def)
  then show ?thesis using hd un rp lb e rebuilt_holes[OF wf] by (simp add: install_free_list_def Let_def)
qed

section \<open>A new store\<close>

lemma leaf_init_ok:
  assumes s: "s \<le> 4" and c: "16 \<le> rg_committed rg" "rg_committed rg \<le> length (rg_mem rg)"
  shows "\<exists>st. leaf_init grow rg s = Some st \<and> leaf_inv Map.empty st \<and> length (lf_mem st) = length (rg_mem rg)"
proof -
  define st where "st = leaf_with rg s"
  let ?start = "data_start_byte st"
  have sh: "lf_off_shift st = s" "lf_region st = rg" by (simp_all add: st_def leaf_with_def)
  have ds: "12 \<le> ?start" "?start \<le> 16" "4 dvd ?start" "w2b st (b2w st ?start) = ?start" using data_start[of st] s sh by auto
  have e: "ensure_committed grow ?start rg = (rg, True)" using c ds by (simp add: ensure_committed_def is_committed_def)
  let ?m = "put_at 8 [word_of_nat s] (put_at 0 LEAF_MAGIC_GEN (rg_mem rg))"
  let ?rg = "rg\<lparr>rg_mem := put_at 4 (to_le_bytes (b2w st ?start)) ?m\<rparr>"
  have i: "leaf_init grow rg s = Some (st\<lparr>lf_region := ?rg\<rparr>)"
    using s e by (simp add: leaf_init_def st_def[symmetric] Let_def set_hw_words_def write_at_def)
  note [simp] = length_put_at
  have l: "length (rg_mem rg) \<ge> 16" using c by simp
  have hw: "hw_words (st\<lparr>lf_region := ?rg\<rparr>) = b2w st ?start" using l by (simp add: hw_words_def)
  have "room (st\<lparr>lf_region := ?rg\<rparr>)" using s c ds l hw sh by (simp add: room_def leaf_high_water_def)
  moreover have "lf_holes st = holes_empty" by (simp add: st_def leaf_with_def)
  ultimately have sp: "space_ok (sizes Map.empty) (st\<lparr>lf_region := ?rg\<rparr>)" by (simp add: space_ok_def holes_wf_empty tiled_def)
  have "slice 0 4 (rg_mem ?rg) = LEAF_MAGIC_GEN"
    using l slice_put_same'[of 0 LEAF_MAGIC_GEN "rg_mem rg" 4] by (simp add: slice_put_before)
  moreover have "slice 8 12 (rg_mem ?rg) ! 0 = word_of_nat s"
  proof -
    have "slice 8 12 (rg_mem ?rg) ! 0 = rg_mem ?rg ! 8" using l by (simp add: slice_def)
    also have "\<dots> = ?m ! 8" using l by (simp add: nth_put_at_after)
    also have "\<dots> = word_of_nat s" using l by (simp add: put_at_def nth_append)
    finally show ?thesis .
  qed
  ultimately have "contents Map.empty (st\<lparr>lf_region := ?rg\<rparr>)" using s sh by (simp add: contents_def header_ok_def unat_of_nat)
  then have "leaf_inv Map.empty (st\<lparr>lf_region := ?rg\<rparr>)" using sp by (simp add: leaf_inv_def pending_ok_def st_def leaf_with_def)
  then show ?thesis using i l by auto
qed

section \<open>Histories\<close>

text \<open>
  The runs of a store with what its slots hold. A slot is released only when it is used and does
  not wait for a flush. A payload is shorter than four gigabytes, the region grows within its
  bounds, and the offsets do not overflow 32 bits. The store may be opened again at any
  moment on the bytes that the mapped file holds then: the free list is rebuilt from the offsets
  that cells point to, or taken from the file of a clean close.
\<close>

inductive leaf_run :: "leaf_store \<Rightarrow> (u32 \<rightharpoonup> bytes) \<Rightarrow> bool" where
  created: "leaf_init grow rg s = Some st \<Longrightarrow> s \<le> 4 \<Longrightarrow> 16 \<le> rg_committed rg \<Longrightarrow> rg_committed rg \<le> length (rg_mem rg) \<Longrightarrow> leaf_run st Map.empty"
| inserted: "leaf_run st L \<Longrightarrow> leaf_insert grow bs st = Some (st', a) \<Longrightarrow> length bs + 64 < 2 ^ 32 \<Longrightarrow>
    unat (hw_words st) + unat (need_words bs st) < 2 ^ 32 \<Longrightarrow> grows_within grow (length (lf_mem st)) \<Longrightarrow>
    leaf_run st' (if a = NO_SLOT then L else L(a \<mapsto> bs))"
| released: "leaf_run st L \<Longrightarrow> a \<in> dom L \<Longrightarrow> a \<notin> waiting st \<Longrightarrow> leaf_free a st = Some st' \<Longrightarrow> leaf_run st' (L(a := None))"
| retired: "leaf_run st L \<Longrightarrow> a \<in> dom L \<Longrightarrow> a \<notin> waiting st \<Longrightarrow> leaf_retire a st = Some (st', n) \<Longrightarrow> leaf_run st' L"
| flush_begins: "leaf_run st L \<Longrightarrow> durable_begin st = (st', token) \<Longrightarrow> leaf_run st' L"
| flush_ends: "leaf_run st L \<Longrightarrow> durable_end token st = Some st' \<Longrightarrow> leaf_run st' (L |` (- settled token st))"
| rebuilt: "leaf_run st L \<Longrightarrow> set live \<subseteq> dom L \<Longrightarrow> leaf_load (lf_region st) = Inr st0 \<Longrightarrow> rebuild_free_list live st0 = Some (st', broken) \<Longrightarrow>
    leaf_run st' (L |` set live)"
| reopened: "leaf_run st L \<Longrightarrow> leaf_load (lf_region st) = Inr st0 \<Longrightarrow> install_free_list (free_list_bytes st) st0 = (st', True) \<Longrightarrow> leaf_run st' L"

abbreviation payloads :: "used \<Rightarrow> u32 \<rightharpoonup> bytes" where
  "payloads U \<equiv> \<lambda>a. map_option snd (U a)"

lemma payloads_simps:
  "payloads (U(a \<mapsto> (w, bs))) = (payloads U)(a \<mapsto> bs)" "payloads (U(a := None)) = (payloads U)(a := None)" "payloads (U |` X) = payloads U |` X"
  "dom (payloads U) = dom U"
  by (auto simp: fun_eq_iff restrict_map_def)

lemma reopened_ok:
  assumes inv: "leaf_inv U st" and ld: "leaf_load (lf_region st) = Inr st0"
  shows "install_free_list (free_list_bytes st) st0 = (st0\<lparr>lf_holes := lf_holes st, lf_from_file := True\<rparr>, True)"
    "leaf_inv U (st0\<lparr>lf_holes := lf_holes st, lf_from_file := True\<rparr>)"
proof -
  have sp: "space_ok (sizes U) st" and co: "contents U st" using inv by (simp_all add: leaf_inv_def)
  have "12 \<le> length (lf_mem st)" using sp data_start[of st] by (auto simp: space_ok_def room_def)
  then have "lf_mem st ! 8 = slice 8 12 (lf_mem st) ! 0" by (simp add: slice_def)
  then have st0: "st0 = leaf_with (lf_region st) (lf_off_shift st)"
    using ld co by (auto simp: leaf_load_def Let_def contents_def header_ok_def split: if_splits)
  then have s: "lf_region st0 = lf_region st" "lf_off_shift st0 = lf_off_shift st" by (simp_all add: leaf_with_def)
  show "install_free_list (free_list_bytes st) st0 = (st0\<lparr>lf_holes := lf_holes st, lf_from_file := True\<rparr>, True)" by (rule install_saved[OF sp s])
  let ?t = "st0\<lparr>lf_holes := lf_holes st, lf_from_file := True\<rparr>"
  have "space_ok (sizes U) ?t" using sp s by (subst same_store[of ?t st]) simp_all
  moreover have "contents U ?t" using co s by (subst same_memory(7)[of ?t st]) simp_all
  ultimately show "leaf_inv U ?t" by (simp add: leaf_inv_def pending_ok_def st0 leaf_with_def)
qed

lemma leaf_run_inv: "leaf_run st L \<Longrightarrow> \<exists>U. leaf_inv U st \<and> L = payloads U"
proof (induction rule: leaf_run.induct)
  case (created grow rg s st)
  then obtain st' where "leaf_init grow rg s = Some st'" "leaf_inv Map.empty st'" using leaf_init_ok by blast
  then show ?case using created(1) by (intro exI[of _ Map.empty]) auto
next
  case (inserted st L grow bs st' a)
  then obtain U where U: "leaf_inv U st" "L = payloads U" by blast
  from leaf_insert_ok[OF U(1) inserted(3-5)] inserted(2)
  consider "st' = st" "a = NO_SLOT" | w where "a \<noteq> NO_SLOT" "leaf_inv (U(a \<mapsto> (w, bs))) st'" by auto
  then show ?case using U by cases (auto simp: payloads_simps simp del: fun_upd_apply)
next
  case (released st L a st')
  then obtain U where U: "leaf_inv U st" "L = payloads U" by blast
  then have "leaf_inv (U(a := None)) st'" using leaf_free_ok[OF U(1), of a] released(2-4) by (auto simp: payloads_simps)
  then show ?case using U by (metis payloads_simps(2))
next
  case (retired st L a st' n)
  then obtain U where U: "leaf_inv U st" "L = payloads U" by blast
  then show ?case using leaf_retire_ok[OF U(1), of a] retired(2-4) by (auto simp: payloads_simps)
next
  case (flush_begins st L st' token)
  then show ?case using durable_begin_ok by (metis fst_conv)
next
  case (flush_ends st L token st')
  then obtain U where U: "leaf_inv U st" "L = payloads U" by blast
  then show ?case using durable_end_ok[OF U(1), of token] flush_ends(2) by (auto simp: payloads_simps(3)[symmetric])
next
  case (rebuilt st L live st0 st' broken)
  then obtain U where U: "leaf_inv U st" "L = payloads U" by blast
  then show ?case using reopen_ok[OF U(1), of live] rebuilt(2-4) by (auto simp: payloads_simps(4) payloads_simps(3)[symmetric])
next
  case (reopened st L st0 st')
  then show ?case using reopened_ok by (metis Pair_inject)
qed

lemma space_facts:
  assumes sp: "space_ok A st" and a: "A a = Some w"
  shows "unat a + unat w \<le> unat (hw_words st)" "A b = Some v \<Longrightarrow> a \<noteq> b \<Longrightarrow> apart a w b v"
    "(x, k) \<in> set (ho_off (lf_holes st)) \<Longrightarrow> apart x k a w"
proof -
  have wf: "holes_wf (lf_holes st)" and t: "tiled_st st (A ++ hmap (lf_holes st))" and d: "dom A \<inter> dom (hmap (lf_holes st)) = {}"
    using sp by (simp_all add: space_ok_def)
  show "unat a + unat w \<le> unat (hw_words st)" using tiled_fits[OF t space_used[OF sp a]] by (simp add: fits_def)
  show "A b = Some v \<Longrightarrow> a \<noteq> b \<Longrightarrow> apart a w b v" using tiled_apart[OF t space_used[OF sp a] space_used[OF sp]] by blast
  assume "(x, k) \<in> set (ho_off (lf_holes st))"
  then have h: "hmap (lf_holes st) x = Some k" using hmap_iff[OF wf] by blast
  then have "x \<noteq> a" using d a by auto
  then show "apart x k a w" using tiled_apart[OF t space_hole[OF h] space_used[OF sp a]] by blast
qed

text \<open>
  C33. Over every history of a payload store - creating it, inserting, releasing and retiring slots,
  flushes that begin and end, and opening it again with a rebuilt or a saved free list - every slot
  that is in use, or that waits for a flush, reads back exactly the bytes that were put into it,
  by the borrowed read and by the read that validates the slot.
\<close>

theorem leaf_values_kept:
  assumes "leaf_run st L" "L a = Some bs"
  shows "leaf_get a st = Some bs \<and> try_read a st = Some (LeafOk bs)"
proof -
  obtain U where U: "leaf_inv U st" "L = payloads U" using leaf_run_inv[OF assms(1)] by blast
  then obtain w where "U a = Some (w, bs)" using assms(2) by auto
  then have "sizes U a = Some w" "slot_image (seg st a w) bs" "space_ok (sizes U) st" using U(1) by (simp_all add: leaf_inv_def contents_def)
  then show ?thesis using slot_reads by blast
qed

text \<open>
  C34. No operation of a history panics or gets stuck: a used slot that does not wait can be released
  and retired, a flush can end, an insertion returns a slot or refuses, and opening the store again
  succeeds with no live slot found broken.
\<close>

theorem leaf_run_proceeds:
  assumes "leaf_run st L"
  shows "(\<forall>a \<in> dom L - waiting st. leaf_free a st \<noteq> None \<and> leaf_retire a st \<noteq> None) \<and> durable_end token st \<noteq> None \<and>
    (length bs + 64 < 2 ^ 32 \<and> unat (hw_words st) + unat (need_words bs st) < 2 ^ 32 \<and> grows_within grow (length (lf_mem st)) \<longrightarrow>
       leaf_insert grow bs st \<noteq> None) \<and>
    (\<exists>st0. leaf_load (lf_region st) = Inr st0 \<and> (set live \<subseteq> dom L \<longrightarrow> (\<exists>st'. rebuild_free_list live st0 = Some (st', {}))) \<and>
       snd (install_free_list (free_list_bytes st) st0))"
proof -
  obtain U where U: "leaf_inv U st" "L = payloads U" using leaf_run_inv[OF assms] by blast
  have d: "dom L = dom U" using U(2) by (simp add: payloads_simps(4))
  have "leaf_free a st \<noteq> None \<and> leaf_retire a st \<noteq> None" if "a \<in> dom L - waiting st" for a
    using leaf_free_ok[OF U(1), of a] leaf_retire_ok[OF U(1), of a] that d by auto
  moreover have "durable_end token st \<noteq> None" using durable_end_ok[OF U(1), of token] by auto
  moreover have "leaf_insert grow bs st \<noteq> None"
    if "length bs + 64 < 2 ^ 32" "unat (hw_words st) + unat (need_words bs st) < 2 ^ 32" "grows_within grow (length (lf_mem st))"
    using leaf_insert_ok[OF U(1) that] by auto
  moreover obtain st0 where l: "leaf_load (lf_region st) = Inr st0" using reopen_ok[OF U(1), of "[]"] by auto
  moreover have "\<exists>st'. rebuild_free_list live st0 = Some (st', {})" if "set live \<subseteq> dom L" using reopen_ok[OF U(1), of live] that d l by auto
  moreover have "snd (install_free_list (free_list_bytes st) st0)" using reopened_ok(1)[OF U(1) l] by simp
  ultimately show ?thesis by blast
qed

text \<open>
  Rebuilding the free list is safe on any memory that a crash may have left, whatever the headers
  of the slots say: it returns, reports some of the live offsets as broken, and every slot it
  accepts lies inside the store, apart from the other accepted slots and from every hole, with its
  bytes unchanged.
\<close>

theorem rebuild_is_safe:
  assumes r: "room st" and s: "2 \<le> lf_off_shift st"
  shows "\<exists>st' broken. rebuild_free_list live st = Some (st', broken) \<and> broken \<subseteq> set live \<and>
    (\<forall>a \<in> set live - broken. unat a + unat (slot_words_at a st) \<le> unat (hw_words st') \<and>
       seg st' a (slot_words_at a st) = seg st a (slot_words_at a st) \<and>
       (\<forall>b \<in> set live - broken. a \<noteq> b \<longrightarrow> apart a (slot_words_at a st) b (slot_words_at b st)) \<and>
       (\<forall>(h, k) \<in> set (ho_off (lf_holes st')). apart h k a (slot_words_at a st)))"
proof -
  let ?l = "remdups_adj (sort live)"
  have "4 dvd w2b st x" for x
  proof -
    obtain k where "lf_off_shift st = 2 + k" using s le_Suc_ex by blast
    then show ?thesis by (simp add: w2b_def power_add)
  qed
  then obtain m h where m: "rebuild_free_list live st =
      Some (with_mem st m\<lparr>lf_holes := h, lf_from_file := False\<rparr>, rejected st (b2w st (data_start_byte st)) (hw_words st) ?l)"
    "space_ok (accepted st (b2w st (data_start_byte st)) (hw_words st) ?l) (with_mem st m\<lparr>lf_holes := h, lf_from_file := False\<rparr>)"
    "kept (accepted st (b2w st (data_start_byte st)) (hw_words st) ?l) st (with_mem st m\<lparr>lf_holes := h, lf_from_file := False\<rparr>)"
    using rebuild_free_list_ok[OF r _ refl refl, of live] by blast
  let ?s = "with_mem st m\<lparr>lf_holes := h, lf_from_file := False\<rparr>"
  define B where "B = rejected st (b2w st (data_start_byte st)) (hw_words st) ?l"
  define A where "A = accepted st (b2w st (data_start_byte st)) (hw_words st) ?l"
  note m' = m[folded B_def A_def]
  have sl: "set ?l = set live" using sort_dedup[of live] by simp
  have A: "A a = Some (slot_words_at a st)" if "a \<in> set live - B" for a using that by (simp add: A_def accepted_def B_def sl)
  note f = space_facts[OF m'(2) A]
  have "unat a + unat (slot_words_at a st) \<le> unat (hw_words ?s)" if "a \<in> set live - B" for a using f(1)[OF that] .
  moreover have "apart a (slot_words_at a st) b (slot_words_at b st)" if "a \<in> set live - B" "b \<in> set live - B" "a \<noteq> b" for a b
    using f(2)[OF that(1) A[OF that(2)] that(3)] .
  moreover have "apart x k a (slot_words_at a st)" if "a \<in> set live - B" "(x, k) \<in> set (ho_off h)" for a x k using f(3)[OF that(1), of x k] that(2) by simp
  moreover have "seg ?s a (slot_words_at a st) = seg st a (slot_words_at a st)" if "a \<in> set live - B" for a using m'(3) A[OF that] by (simp add: kept_def)
  moreover have "B \<subseteq> set live" using rejected_sub sl by (metis B_def)
  ultimately show ?thesis using m'(1) by (intro exI[of _ ?s] exI[of _ B]) auto
qed

section \<open>A full store\<close>

lemma wraps_below: "2 ^ 32 \<le> unat (a :: u32) + unat b \<Longrightarrow> unat (a + b) < unat a"
  using unat_bound[of a] unat_bound[of b] by (simp add: unat_word_ariths mod_if) linarith

text \<open>
  C35. Bounds: in a store as large as its offsets allow, the sum of the high water mark and the words
  of a new slot can pass 32 bits. The insertion is then refused, but the high water mark has already
  moved below its old value, so that later slots are put over the slots in use.
\<close>

theorem full_store_wraps:
  assumes r: "room st" and f: "best_fit (need_words bs st) (lf_holes st) = None" and l: "length bs + 64 < 2 ^ 32"
    and v: "2 ^ 32 \<le> unat (hw_words st) + unat (need_words bs st)" and cap: "length (lf_mem st) \<le> cap_bytes_for_shift (lf_off_shift st)"
    and g: "grows_within grow (length (lf_mem st))"
  shows "\<exists>st'. leaf_insert grow bs st = Some (st', NO_SLOT) \<and> hw_words st' < hw_words st"
proof -
  let ?hw = "hw_words st" and ?need = "need_words bs st"
  let ?st = "set_hw_words (?hw + ?need) st"
  have u: "unat (?hw + ?need) < unat ?hw" by (rule wraps_below[OF v])
  then have "w2b st (?hw + ?need) \<le> leaf_high_water st" by (simp add: w2b_def leaf_high_water_def)
  then have e: "ensure_committed grow (w2b st (?hw + ?need)) (lf_region st) = (lf_region st, True)"
    using r by (simp add: ensure_committed_def is_committed_def room_def)
  have a: "alloc_locked grow ?need st = Some (?st, Some (?hw, ?need))" using f e by (simp add: alloc_locked_def Let_def)
  have "length (lf_mem st) < w2b st ?hw + w2b st ?need"
  proof -
    have "2 ^ 32 * 2 ^ lf_off_shift st \<le> (unat ?hw + unat ?need) * 2 ^ lf_off_shift st" using v by (rule mult_le_mono1)
    moreover have "cap_bytes_for_shift (lf_off_shift st) < 2 ^ 32 * 2 ^ lf_off_shift st" by (simp add: cap_bytes_for_shift_def)
    ultimately show ?thesis using cap by (simp add: w2b_def distrib_right)
  qed
  then have "\<not> is_committed (w2b st ?hw + w2b st ?need) (lf_region ?st)" "\<not> w2b st ?hw + w2b st ?need \<le> length (lf_mem st)"
    using r by (simp_all add: is_committed_def set_hw_eq room_def)
  moreover from this(2) have "grow (w2b st ?hw + w2b st ?need) = None"
    using g by (cases "grow (w2b st ?hw + w2b st ?need)") (auto simp: grows_within_def)
  ultimately have "ensure_committed grow (w2b st ?hw + w2b st ?need) (lf_region ?st) = (lf_region ?st, False)" by (simp add: ensure_committed_def)
  then have "leaf_insert grow bs st = Some (?st, NO_SLOT)"
    using l a unfolding leaf_insert_def need_words_def[symmetric] Let_def by simp
  moreover have "8 \<le> length (lf_mem st)" using r data_start[of st] by (auto simp: room_def)
  then have "hw_words ?st = ?hw + ?need" by (simp add: set_hw_eq hw_words_def)
  ultimately show ?thesis using u by (simp add: word_less_nat_alt)
qed

section \<open>Witnesses\<close>

definition sample_region :: region where
  "sample_region = \<lparr>rg_mem = replicate 64 0, rg_committed = 64\<rparr>"

definition sample_store :: leaf_store where
  "sample_store = the (leaf_init (\<lambda>_. None) sample_region 2)"

definition sample_filled :: leaf_store where
  "sample_filled = fst (the (leaf_insert (\<lambda>_. None) [1, 2, 3] sample_store))"

lemma sample_run: "leaf_run sample_filled [3 \<mapsto> [1, 2, 3]]"
proof -
  have "leaf_run sample_store Map.empty"
    by (rule created[where grow = "\<lambda>_. None" and rg = sample_region and s = 2]) code_simp+
  then have "leaf_run sample_filled (if (3 :: u32) = NO_SLOT then Map.empty else [3 \<mapsto> [1, 2, 3]])"
  proof (rule inserted[where grow = "\<lambda>_. None"])
    show "leaf_insert (\<lambda>_. None) [1, 2, 3] sample_store = Some (sample_filled, 3)" by code_simp
    show "unat (hw_words sample_store) + unat (need_words [1, 2, 3] sample_store) < 2 ^ 32" by code_simp
  qed (simp_all add: grows_within_def)
  then show ?thesis by simp
qed

theorem leaf_values_kept_witness: "leaf_get 3 sample_filled = Some [1, 2, 3] \<and> try_read 3 sample_filled = Some (LeafOk [1, 2, 3])"
  using leaf_values_kept[OF sample_run, of 3 "[1, 2, 3]"] by simp

theorem leaf_run_proceeds_witness: "leaf_free 3 sample_filled \<noteq> None \<and> durable_end 0 sample_filled \<noteq> None"
proof -
  have "3 \<notin> waiting sample_filled" by code_simp
  then show ?thesis using leaf_run_proceeds[OF sample_run, of 0 "[]" "\<lambda>_. None" "[]"] by simp
qed

theorem rebuild_is_safe_witness: "\<exists>st' broken. rebuild_free_list [3, 5, 3] sample_filled = Some (st', broken) \<and> broken \<subseteq> {3, 5}"
proof -
  have "room sample_filled" "2 \<le> lf_off_shift sample_filled" by code_simp+
  from rebuild_is_safe[OF this, of "[3, 5, 3]"] show ?thesis by auto
qed

text \<open>A store of the largest size with two words left, and a slot of four.\<close>

theorem full_store_wraps_witness:
  "\<exists>st st'. room st \<and> leaf_insert (\<lambda>_. None) [] st = Some (st', NO_SLOT) \<and> hw_words st' < hw_words st"
proof -
  obtain xs :: bytes where xs: "length xs = 0xFFFFFFFF * 4 - 12" using Ex_list_of_length by blast
  define hd :: bytes where "hd = LEAF_MAGIC_GEN @ to_le_bytes (0xFFFFFFFE :: u32) @ [2, 0, 0, 0]"
  define st where "st = leaf_with \<lparr>rg_mem = hd @ xs, rg_committed = 0xFFFFFFFF * 4\<rparr> 2"
  have l: "length (hd @ xs) = 0xFFFFFFFF * 4" using xs by (simp add: hd_def)
  have hw: "hw_words st = 0xFFFFFFFE" by (simp add: st_def leaf_with_def hw_words_def u32_at_def hd_def slice_def)
  have s: "lf_off_shift st = 2" "lf_holes st = holes_empty" "length (lf_mem st) = 0xFFFFFFFF * 4" "rg_committed (lf_region st) = 0xFFFFFFFF * 4"
    using l by (simp_all add: st_def leaf_with_def)
  have ds: "data_start_byte st = 12" "need_words [] st = 3"
    using s(1) by (simp_all add: data_start_byte_def need_words_def b2w_def align_slot_def slot_align_def align_up_def)
  have r: "room st" using hw s ds by (simp add: room_def leaf_high_water_def w2b_def)
  have "\<exists>st'. leaf_insert (\<lambda>_. None) [] st = Some (st', NO_SLOT) \<and> hw_words st' < hw_words st"
    by (rule full_store_wraps[OF r]) (use hw s ds in \<open>simp_all add: best_fit_def holes_empty_def cap_bytes_for_shift_def grows_within_def\<close>)
  then show ?thesis using r by blast
qed

end
