(* ===== verification/Pk_Tombs.thy ===== *)
theory Pk_Tombs
  imports Hlc "HOL-Library.AList" "HOL-Library.List_Lexorder" "HOL-Library.Code_Target_Nat"
begin

text \<open>
  The memory of deleted primary keys (\<^verbatim>\<open>crates/enchudb-engine/src/pk_tombs.rs\<close>): for every key the
  latest clock of a deletion, for every slot that was a row of a key that key, an open-addressing
  table over the keys, the file of appended records that is rewritten when it grows, and the bit
  table that answers without a lock. The probing loops are partial functions, so that their
  termination is a theorem; \<^const>\<open>None\<close> is a loop that does not end. The capacity of the vectors and the
  hash map is not modelled.
\<close>

section \<open>State\<close>

abbreviation NO_PK_SLOT :: u32 where
  "NO_PK_SLOT \<equiv> 0xFFFFFFFF"

abbreviation EMPTY :: u32 where
  "EMPTY \<equiv> 0xFFFFFFFF"

abbreviation INLINE :: nat where
  "INLINE \<equiv> 8"

record pk_key =
  pk_wall :: u64
  pk_data :: bytes
  pk_logical :: u32
  pk_peer :: u32
  pk_len :: u32
  pk_himo :: u16

definition key_hlc :: "pk_key \<Rightarrow> hlc" where
  "key_hlc k = Hlc (pk_wall k) (pk_logical k) (pk_peer k)"

definition key_hash :: "u16 \<Rightarrow> bytes \<Rightarrow> u64" where
  "key_hash himo key =
     (let h = foldl (\<lambda>h b. (h XOR ucast b) * 0x100000001b3) 0xcbf29ce484222325 (to_le_bytes himo @ key);
          h = h XOR drop_bit 33 h;
          h = h * 0xff51afd7ed558ccd;
          h = h XOR drop_bit 33 h;
          h = h * 0xc4ceb9fe1a85ec53
      in h XOR drop_bit 33 h)"

record pk_tombs =
  pt_keys :: "pk_key list"
  pt_arena :: bytes
  pt_table :: "u32 list"
  pt_by_slot :: "(u32 \<times> u32) list"
  pt_pending :: bytes
  pt_pending_records :: nat
  pt_in_file :: "nat option"

definition tombs_default :: pk_tombs where
  "tombs_default = \<lparr>pt_keys = [], pt_arena = [], pt_table = [], pt_by_slot = [], pt_pending = [], pt_pending_records = 0, pt_in_file = None\<rparr>"

datatype persist = Append bytes nat | Rewrite bytes nat

definition tombs_is_empty :: "pk_tombs \<Rightarrow> bool" where
  "tombs_is_empty t \<longleftrightarrow> pt_keys t = [] \<and> pt_by_slot t = []"

definition key_bytes :: "pk_tombs \<Rightarrow> pk_key \<Rightarrow> bytes" where
  "key_bytes t k =
     (let len = unat (pk_len k)
      in if len \<le> INLINE then take len (pk_data k)
         else let at = unat (from_le_bytes (pk_data k) :: u64) in slice at (at + len) (pt_arena t))"

section \<open>The table of numbers\<close>

partial_function (option) probe :: "pk_tombs \<Rightarrow> u16 \<Rightarrow> bytes \<Rightarrow> nat \<Rightarrow> u32 option option" where
  "probe t himo key i =
     (let num = pt_table t ! i
      in if num = EMPTY then Some None
         else let k = pt_keys t ! unat num
              in if pk_himo k = himo \<and> key_bytes t k = key then Some (Some num)
                 else probe t himo key ((i + 1) AND (length (pt_table t) - 1)))"

definition id_of :: "u16 \<Rightarrow> bytes \<Rightarrow> pk_tombs \<Rightarrow> u32 option option" where
  "id_of himo key t = (
     if pt_table t = [] then Some None
     else probe t himo key (unat (key_hash himo key) AND (length (pt_table t) - 1)))"

partial_function (option) place_at :: "u32 list \<Rightarrow> u32 \<Rightarrow> nat \<Rightarrow> u32 list option" where
  "place_at table num i = (if table ! i \<noteq> EMPTY then place_at table num ((i + 1) AND (length table - 1)) else Some (table[i := num]))"

definition pk_place :: "u32 \<Rightarrow> u64 \<Rightarrow> pk_tombs \<Rightarrow> pk_tombs option" where
  "pk_place num hash t = map_option (\<lambda>tb. t\<lparr>pt_table := tb\<rparr>) (place_at (pt_table t) num (unat hash AND (length (pt_table t) - 1)))"

fun place_ids :: "nat list \<Rightarrow> pk_tombs \<Rightarrow> pk_tombs option" where
  "place_ids [] t = Some t"
| "place_ids (num # ids) t =
     (let k = pt_keys t ! num in Option.bind (pk_place (word_of_nat num) (key_hash (pk_himo k) (key_bytes t k)) t) (place_ids ids))"

definition grow_table :: "pk_tombs \<Rightarrow> pk_tombs option" where
  "grow_table t = (
     if (length (pt_keys t) + 1) * 2 > length (pt_table t)
     then place_ids [0..<length (pt_keys t)] (t\<lparr>pt_table := replicate (max (length (pt_table t) * 2) 16) EMPTY\<rparr>)
     else Some t)"

definition push_key :: "u16 \<Rightarrow> bytes \<Rightarrow> hlc \<Rightarrow> pk_tombs \<Rightarrow> (pk_tombs \<times> u32) option" where
  "push_key himo key hlc t = Option.bind (grow_table t) (\<lambda>t1.
     let num = word_of_nat (length (pt_keys t1));
         (data, arena) = (if length key \<le> INLINE then (put_at 0 key (replicate INLINE 0), pt_arena t1)
                          else (to_le_bytes (word_of_nat (length (pt_arena t1)) :: u64), pt_arena t1 @ key));
         k = \<lparr>pk_wall = hlc_wall hlc, pk_data = data, pk_logical = hlc_logical hlc, pk_peer = hlc_peer hlc,
              pk_len = word_of_nat (length key), pk_himo = himo\<rparr>
     in map_option (\<lambda>t2. (t2, num)) (pk_place num (key_hash himo key) (t1\<lparr>pt_arena := arena, pt_keys := pt_keys t1 @ [k]\<rparr>)))"

definition tomb_of :: "u16 \<Rightarrow> bytes \<Rightarrow> pk_tombs \<Rightarrow> hlc option option" where
  "tomb_of himo key t = map_option (map_option (\<lambda>num. key_hlc (pt_keys t ! unat num))) (id_of himo key t)"

definition key_of_slot :: "u32 \<Rightarrow> pk_tombs \<Rightarrow> (u16 \<times> bytes) option" where
  "key_of_slot slot t = map_option (\<lambda>num. let k = pt_keys t ! unat num in (pk_himo k, key_bytes t k)) (map_of (pt_by_slot t) slot)"

section \<open>The records of the file\<close>

datatype pk_record = Note u16 bytes u32 hlc | Forget u32

definition note_fields :: "u16 \<Rightarrow> bytes \<Rightarrow> u32 \<Rightarrow> hlc \<Rightarrow> bytes" where
  "note_fields himo key slot hlc = [1] @ to_le_bytes himo @ to_le_bytes slot @ to_le_bytes (word_of_nat (length key) :: u32) @ key @
     to_le_bytes (hlc_wall hlc) @ to_le_bytes (hlc_logical hlc) @ to_le_bytes (hlc_peer hlc)"

definition encode_note :: "bytes \<Rightarrow> u16 \<Rightarrow> bytes \<Rightarrow> u32 \<Rightarrow> hlc \<Rightarrow> bytes" where
  "encode_note out himo key slot hlc = out @ note_fields himo key slot hlc @ to_le_bytes (fnv1a (note_fields himo key slot hlc))"

definition forget_fields :: "u32 \<Rightarrow> bytes" where
  "forget_fields slot = [2] @ to_le_bytes slot"

definition encode_forget :: "bytes \<Rightarrow> u32 \<Rightarrow> bytes" where
  "encode_forget out slot = out @ forget_fields slot @ to_le_bytes (fnv1a (forget_fields slot))"

definition pk_get :: "nat \<Rightarrow> nat \<Rightarrow> bytes \<Rightarrow> bytes option" where
  "pk_get a b buf = (if b \<le> length buf then Some (slice a b buf) else None)"

definition pk_u32 :: "nat \<Rightarrow> bytes \<Rightarrow> u32 option" where
  "pk_u32 off buf = map_option from_le_bytes (pk_get off (off + 4) buf)"

definition decode_body :: "bytes \<Rightarrow> (pk_record \<times> nat) option" where
  "decode_body buf = (
     if buf = [] then None
     else if hd buf = 1 then
       Option.bind (pk_get 1 3 buf) (\<lambda>h.
       Option.bind (pk_u32 3 buf) (\<lambda>slot.
       Option.bind (pk_u32 7 buf) (\<lambda>n.
       Option.bind (pk_get 11 (11 + unat n) buf) (\<lambda>key.
       Option.bind (pk_get (11 + unat n) (11 + unat n + 8) buf) (\<lambda>wall.
       Option.bind (pk_u32 (11 + unat n + 8) buf) (\<lambda>logical.
       Option.bind (pk_u32 (11 + unat n + 12) buf) (\<lambda>peer.
       Some (Note (from_le_bytes h) key slot (Hlc (from_le_bytes wall) logical peer), 11 + unat n + 16))))))))
     else if hd buf = 2 then map_option (\<lambda>slot. (Forget slot, 5)) (pk_u32 1 buf)
     else None)"

definition pk_decode :: "bytes \<Rightarrow> (pk_record \<times> nat) option" where
  "pk_decode buf = Option.bind (decode_body buf) (\<lambda>(r, body).
     Option.bind (pk_u32 body buf) (\<lambda>c. if c = fnv1a (take body buf) then Some (r, body + 4) else None))"

section \<open>Operations\<close>

definition apply_note :: "u16 \<Rightarrow> bytes \<Rightarrow> u32 \<Rightarrow> hlc \<Rightarrow> pk_tombs \<Rightarrow> (pk_tombs \<times> bool) option" where
  "apply_note himo key slot hlc t = Option.bind (id_of himo key t) (\<lambda>found.
     Option.bind (case found of
         Some num \<Rightarrow>
           (let k = pt_keys t ! unat num
            in if key_hlc k < hlc
               then Some (t\<lparr>pt_keys := (pt_keys t)[unat num := k\<lparr>pk_wall := hlc_wall hlc, pk_logical := hlc_logical hlc, pk_peer := hlc_peer hlc\<rparr>]\<rparr>, num, True)
               else Some (t, num, False))
       | None \<Rightarrow> map_option (\<lambda>(t1, num). (t1, num, True)) (push_key himo key hlc t))
       (\<lambda>(t1, num, changed).
         if slot \<noteq> NO_PK_SLOT
         then Some (t1\<lparr>pt_by_slot := AList.update slot num (pt_by_slot t1)\<rparr>, changed \<or> map_of (pt_by_slot t1) slot \<noteq> Some num)
         else Some (t1, changed)))"

definition pk_note :: "u16 \<Rightarrow> bytes \<Rightarrow> u32 \<Rightarrow> hlc \<Rightarrow> pk_tombs \<Rightarrow> (pk_tombs \<times> bool) option" where
  "pk_note himo key slot hlc t = map_option (\<lambda>(t1, changed).
     if \<not> changed then (t1, False)
     else (t1\<lparr>pt_pending := encode_note (pt_pending t1) himo key slot hlc, pt_pending_records := pt_pending_records t1 + 1\<rparr>, True))
     (apply_note himo key slot hlc t)"

definition remove_slot :: "u32 \<Rightarrow> pk_tombs \<Rightarrow> pk_tombs \<times> bool" where
  "remove_slot slot t = (if map_of (pt_by_slot t) slot = None then (t, False) else (t\<lparr>pt_by_slot := AList.delete slot (pt_by_slot t)\<rparr>, True))"

definition pk_forget_slot :: "u32 \<Rightarrow> pk_tombs \<Rightarrow> pk_tombs \<times> bool" where
  "pk_forget_slot slot t = (case remove_slot slot t of
     (t1, False) \<Rightarrow> (t1, False)
   | (t1, True) \<Rightarrow> (t1\<lparr>pt_pending := encode_forget (pt_pending t1) slot, pt_pending_records := pt_pending_records t1 + 1\<rparr>, True))"

fun keep_from :: "hlc \<Rightarrow> pk_tombs \<Rightarrow> nat \<Rightarrow> pk_key list \<Rightarrow> pk_tombs \<Rightarrow> u32 list \<Rightarrow> (pk_tombs \<times> u32 list) option" where
  "keep_from h old i [] t new_id = Some (t, new_id)"
| "keep_from h old i (k # ks) t new_id = (
     if key_hlc k \<ge> h
     then Option.bind (push_key (pk_himo k) (key_bytes old k) (key_hlc k) t) (\<lambda>(t1, num). keep_from h old (i + 1) ks t1 (new_id[i := num]))
     else keep_from h old (i + 1) ks t new_id)"

definition forget_before :: "hlc \<Rightarrow> pk_tombs \<Rightarrow> (pk_tombs \<times> nat) option" where
  "forget_before h t =
     (let gone = length (filter (\<lambda>k. key_hlc k < h) (pt_keys t))
      in if gone = 0 then Some (t, 0)
         else Option.bind (keep_from h t 0 (pt_keys t) tombs_default (replicate (length (pt_keys t)) EMPTY)) (\<lambda>(t1, new_id).
           Some (t1\<lparr>pt_by_slot := map (\<lambda>(slot, num). (slot, new_id ! unat num)) (filter (\<lambda>(slot, num). new_id ! unat num \<noteq> EMPTY) (pt_by_slot t))\<rparr>, gone)))"

text \<open>The file of the live records, in the order of the keys and their slots.\<close>

definition slots_of :: "u32 \<Rightarrow> pk_tombs \<Rightarrow> u32 list" where
  "slots_of num t = sort (map fst (filter (\<lambda>(slot, num'). num' = num) (pt_by_slot t)))"

definition live_records :: "pk_tombs \<Rightarrow> pk_record list" where
  "live_records t = concat (map (\<lambda>i.
     let k = pt_keys t ! i; slots = slots_of (word_of_nat i) t
     in if slots = [] then [Note (pk_himo k) (key_bytes t k) NO_PK_SLOT (key_hlc k)]
        else map (\<lambda>slot. Note (pk_himo k) (key_bytes t k) slot (key_hlc k)) slots)
     (sort_key (\<lambda>i. (pk_himo (pt_keys t ! i), key_bytes t (pt_keys t ! i))) [0..<length (pt_keys t)]))"

fun encode_record :: "bytes \<Rightarrow> pk_record \<Rightarrow> bytes" where
  "encode_record out (Note himo key slot hlc) = encode_note out himo key slot hlc"
| "encode_record out (Forget slot) = encode_forget out slot"

definition PK_HEADER :: bytes where
  "PK_HEADER = [80, 75, 84, 76] @ to_le_bytes (1 :: u32)"

definition pk_snapshot :: "pk_tombs \<Rightarrow> bytes \<times> nat" where
  "pk_snapshot t = (foldl encode_record PK_HEADER (live_records t), length (live_records t))"

definition take_for_persist :: "pk_tombs \<Rightarrow> pk_tombs \<times> persist option" where
  "take_for_persist t =
     (let live = length (pt_keys t) + length (pt_by_slot t);
          rewrite = (case pt_in_file t of None \<Rightarrow> True | Some n \<Rightarrow> n + pt_pending_records t > 2 * live + 1024);
          clean = t\<lparr>pt_pending := [], pt_pending_records := 0\<rparr>
      in if rewrite then (clean, Some (Rewrite (fst (pk_snapshot clean)) (snd (pk_snapshot clean))))
         else if pt_pending_records t = 0 then (t, None)
         else (clean, Some (Append (pt_pending t) (pt_pending_records t))))"

definition persisted :: "persist \<Rightarrow> pk_tombs \<Rightarrow> pk_tombs" where
  "persisted job t = t\<lparr>pt_in_file := (case (job, pt_in_file t) of
     (Rewrite _ records, _) \<Rightarrow> Some records
   | (Append _ records, Some n) \<Rightarrow> Some (n + records)
   | (Append _ _, None) \<Rightarrow> None)\<rparr>"

definition persist_failed :: "pk_tombs \<Rightarrow> pk_tombs" where
  "persist_failed t = t\<lparr>pt_in_file := None\<rparr>"

section \<open>Loading\<close>

datatype pk_error = BadMagic | UnsupportedVersion u32

lemma pk_decode_length: "pk_decode buf = Some (r, n) \<Longrightarrow> 0 < n \<and> buf \<noteq> []"
  by (auto simp: pk_decode_def decode_body_def split: if_splits bind_splits)

function load_from :: "bytes \<Rightarrow> pk_tombs \<Rightarrow> nat \<Rightarrow> (pk_tombs \<times> nat \<times> bool) option" where
  "load_from buf t records = (
     if buf = [] then Some (t, records, False)
     else case pk_decode buf of
         None \<Rightarrow> Some (t, records, True)
       | Some (Note himo key slot hlc, n) \<Rightarrow> Option.bind (apply_note himo key slot hlc t) (\<lambda>(t1, _). load_from (drop n buf) t1 (records + 1))
       | Some (Forget slot, n) \<Rightarrow> load_from (drop n buf) (fst (remove_slot slot t)) (records + 1))"
  by pat_completeness auto

termination
  by (relation "measure (\<lambda>(buf, _). length buf)") (auto dest: pk_decode_length)

declare load_from.simps [simp del]

definition pk_load :: "bytes \<Rightarrow> (pk_error + pk_tombs \<times> bool) option" where
  "pk_load buf = (
     if length buf < 8 \<or> slice 0 4 buf \<noteq> [80, 75, 84, 76] then Some (Inl BadMagic)
     else let version = from_le_bytes (slice 4 8 buf)
          in if version \<noteq> 1 then Some (Inl (UnsupportedVersion version))
             else map_option (\<lambda>(t, records, torn). Inr (t\<lparr>pt_in_file := (if torn then None else Some records)\<rparr>, torn)) (load_from (drop 8 buf) tombs_default 0))"

section \<open>The bit table\<close>

record pk_bloom =
  bl_level :: nat
  bl_tables :: "u64 list option list"

abbreviation BLOOM_MIN_LOG2 :: nat where
  "BLOOM_MIN_LOG2 \<equiv> 19"

abbreviation BLOOM_LEVELS :: nat where
  "BLOOM_LEVELS \<equiv> 18"

definition bloom_default :: pk_bloom where
  "bloom_default = \<lparr>bl_level = 0, bl_tables = replicate BLOOM_LEVELS None\<rparr>"

definition bloom_spot :: "nat \<Rightarrow> u64 \<Rightarrow> nat \<times> u64" where
  "bloom_spot words hash = (unat (drop_bit 32 hash) AND (words - 1),
     push_bit (unat (hash AND 63)) 1 OR push_bit (unat (drop_bit 6 hash AND 63)) 1)"

text \<open>\<^verbatim>\<open>next_power_of_two\<close> and \<^verbatim>\<open>trailing_zeros\<close>: the least exponent whose power is not smaller.\<close>

fun log2_up :: "nat \<Rightarrow> nat" where
  "log2_up n = (if n \<le> 1 then 0 else Suc (log2_up ((n + 1) div 2)))"

declare log2_up.simps [simp del]

definition level_for :: "nat \<Rightarrow> nat" where
  "level_for keys = min (max (log2_up (max (keys * 16) 1)) BLOOM_MIN_LOG2 - BLOOM_MIN_LOG2 + 1) BLOOM_LEVELS"

definition bloom_maybe :: "u16 \<Rightarrow> bytes \<Rightarrow> pk_bloom \<Rightarrow> bool" where
  "bloom_maybe himo key b = (
     if bl_level b = 0 then False
     else case bl_tables b ! (bl_level b - 1) of
         None \<Rightarrow> True
       | Some words \<Rightarrow> (let (w, m) = bloom_spot (length words) (key_hash himo key) in words ! w AND m = m))"

definition set_spot :: "u16 \<times> bytes \<Rightarrow> u64 list \<Rightarrow> u64 list" where
  "set_spot hk words = (let (w, m) = bloom_spot (length words) (key_hash (fst hk) (snd hk)) in words[w := words ! w OR m])"

definition tombs_keys :: "pk_tombs \<Rightarrow> (u16 \<times> bytes) list" where
  "tombs_keys t = map (\<lambda>k. (pk_himo k, key_bytes t k)) (pt_keys t)"

definition bloom_fit :: "pk_tombs \<Rightarrow> pk_bloom \<Rightarrow> pk_bloom \<times> bool" where
  "bloom_fit t b =
     (let want = level_for (length (pt_keys t))
      in if length (pt_keys t) = 0 \<or> want \<le> bl_level b then (b, False)
         else let words = fold set_spot (tombs_keys t) (replicate (2 ^ (BLOOM_MIN_LOG2 + want - 1) div 64) 0);
                  tables = (case bl_tables b ! (want - 1) of None \<Rightarrow> (bl_tables b)[want - 1 := Some words] | Some _ \<Rightarrow> bl_tables b)
              in (\<lparr>bl_level = want, bl_tables = tables\<rparr>, True))"

definition bloom_add :: "pk_tombs \<Rightarrow> u16 \<Rightarrow> bytes \<Rightarrow> pk_bloom \<Rightarrow> pk_bloom" where
  "bloom_add t himo key b = (case bloom_fit t b of
     (b1, True) \<Rightarrow> b1
   | (b1, False) \<Rightarrow>
       if bl_level b1 = 0 then b1
       else case bl_tables b1 ! (bl_level b1 - 1) of
           None \<Rightarrow> b1
         | Some words \<Rightarrow> b1\<lparr>bl_tables := (bl_tables b1)[bl_level b1 - 1 := Some (set_spot (himo, key) words)]\<rparr>)"

end
