(* ===== verification/Pk_Correct.thy ===== *)
theory Pk_Correct
  imports Pk_Tombs
begin

text \<open>
  The memory of deleted primary keys refines two maps: key to the latest clock of a deletion, and
  slot to key. Every probe of the table ends. The file gives the maps back, also when it was cut.
\<close>

section \<open>Probing\<close>

lemma mask_mod: "(x :: nat) AND (2 ^ p - 1) = x mod 2 ^ p"
  using take_bit_eq_mask[of p x] by (simp add: take_bit_eq_mod mask_eq_exp_minus_1)

definition ahead_of :: "'a list \<Rightarrow> nat \<Rightarrow> nat \<Rightarrow> 'a" where
  "ahead_of tb i d = tb ! ((i + d) mod length tb)"

lemma probe_skip:
  assumes p: "length (pt_table t) = 2 ^ p"
    and f: "\<And>e. e < d \<Longrightarrow> ahead_of (pt_table t) i e \<noteq> EMPTY \<and>
      (let k = pt_keys t ! unat (ahead_of (pt_table t) i e) in \<not> (pk_himo k = himo \<and> key_bytes t k = key))"
  shows "probe t himo key (i mod 2 ^ p) = probe t himo key ((i + d) mod 2 ^ p)"
  using f
proof (induction d)
  case (Suc d)
  let ?j = "(i + d) mod 2 ^ p"
  have "probe t himo key (i mod 2 ^ p) = probe t himo key ?j" using Suc by simp
  also have "\<dots> = probe t himo key ((?j + 1) AND (length (pt_table t) - 1))"
    using Suc.prems[of d] p by (subst probe.simps) (auto simp: Let_def ahead_of_def)
  also have "(?j + 1) AND (length (pt_table t) - 1) = (i + Suc d) mod 2 ^ p" unfolding p mask_mod by (simp add: mod_simps)
  finally show ?case .
qed simp

lemma place_skip:
  assumes p: "length tb = 2 ^ p" and f: "\<And>e. e < d \<Longrightarrow> ahead_of tb i e \<noteq> EMPTY"
  shows "place_at tb num (i mod 2 ^ p) = place_at tb num ((i + d) mod 2 ^ p)"
  using f
proof (induction d)
  case (Suc d)
  let ?j = "(i + d) mod 2 ^ p"
  have "place_at tb num (i mod 2 ^ p) = place_at tb num ?j" using Suc by simp
  also have "\<dots> = place_at tb num ((?j + 1) AND (length tb - 1))"
    using Suc.prems[of d] p by (subst place_at.simps) (auto simp: ahead_of_def)
  also have "(?j + 1) AND (length tb - 1) = (i + Suc d) mod 2 ^ p" unfolding p mask_mod by (simp add: mod_simps)
  finally show ?case .
qed simp

lemma find_ahead:
  assumes "j < length tb" "P (tb ! j)"
  shows "\<exists>d < length tb. P (ahead_of tb i d)"
proof -
  let ?n = "length tb" and ?d = "(j + (length tb - i mod length tb)) mod length tb"
  have n: "0 < ?n" using assms(1) by linarith
  have "(i + ?d) mod ?n = (i mod ?n + (j + (?n - i mod ?n))) mod ?n" by (simp add: mod_simps)
  also have "i mod ?n + (j + (?n - i mod ?n)) = j + ?n" using mod_less_divisor[OF n, of i] by simp
  also have "(j + ?n) mod ?n = j" using assms by simp
  finally show ?thesis using assms n by (intro exI[of _ ?d]) (simp add: ahead_of_def)
qed

lemma first_ahead:
  assumes "j < length tb" "P (tb ! j)"
  shows "\<exists>d < length tb. P (ahead_of tb i d) \<and> (\<forall>e < d. \<not> P (ahead_of tb i e))"
proof -
  obtain d where d: "d < length tb" "P (ahead_of tb i d)" using find_ahead[where P = P, OF assms] by blast
  let ?l = "LEAST d. P (ahead_of tb i d)"
  have a: "P (ahead_of tb i ?l)" by (rule LeastI[where P = "\<lambda>d. P (ahead_of tb i d)", OF d(2)])
  have "?l \<le> d" by (rule Least_le[where P = "\<lambda>d. P (ahead_of tb i d)", OF d(2)])
  then have "?l < length tb" using d(1) by linarith
  moreover have "\<not> P (ahead_of tb i e)" if "e < ?l" for e by (rule not_less_Least[OF that])
  ultimately show ?thesis using a by blast
qed

section \<open>The table\<close>

definition filled :: "u32 list \<Rightarrow> nat set" where
  "filled tb = {j. j < length tb \<and> tb ! j \<noteq> EMPTY}"

text \<open>Number \<^verbatim>\<open>i\<close> is reached from its home without passing a free place.\<close>

definition reached :: "u64 \<Rightarrow> u32 list \<Rightarrow> nat \<Rightarrow> bool" where
  "reached h tb i \<longleftrightarrow> (\<exists>d < length tb. ahead_of tb (unat h) d = word_of_nat i \<and> (\<forall>e < d. ahead_of tb (unat h) e \<noteq> EMPTY))"

definition table_ok :: "(nat \<Rightarrow> u64) \<Rightarrow> nat \<Rightarrow> u32 list \<Rightarrow> bool" where
  "table_ok hs n tb \<longleftrightarrow> (\<exists>p. length tb = 2 ^ p) \<and> card (filled tb) = n \<and> n \<le> 0xFFFFFFFF \<and>
     (\<forall>j \<in> filled tb. unat (tb ! j) < n) \<and> (\<forall>i < n. reached (hs i) tb i)"

lemma table_has_room:
  assumes "table_ok hs n tb" "n < length tb"
  shows "\<exists>j < length tb. tb ! j = EMPTY"
proof (rule ccontr)
  assume "\<not> ?thesis"
  then have "filled tb = {..<length tb}" by (auto simp: filled_def)
  then show False using assms by (simp add: table_ok_def)
qed

lemma num_not_empty: "n < 0xFFFFFFFF \<Longrightarrow> word_of_nat n \<noteq> EMPTY \<and> unat (word_of_nat n :: u32) = n"
proof -
  assume n: "n < 0xFFFFFFFF"
  then have "unat (word_of_nat n :: u32) = n" by (simp add: unat_of_nat)
  moreover have "unat EMPTY = 0xFFFFFFFF" by simp
  ultimately show ?thesis using n by (metis less_irrefl)
qed

lemma reached_more:
  assumes "reached h tb i" "tb ! j = EMPTY" "num \<noteq> EMPTY" "i < 0xFFFFFFFF"
  shows "reached h (tb[j := num]) i"
proof -
  obtain d where d: "d < length tb" "ahead_of tb (unat h) d = word_of_nat i" "\<And>e. e < d \<Longrightarrow> ahead_of tb (unat h) e \<noteq> EMPTY"
    using assms(1) by (auto simp: reached_def)
  have "ahead_of tb (unat h) d \<noteq> EMPTY" using d(2) num_not_empty[OF assms(4)] by simp
  then have "ahead_of (tb[j := num]) (unat h) d = word_of_nat i" using assms(2) d(2) by (cases "j = (unat h + d) mod length tb") (auto simp: ahead_of_def)
  moreover have "ahead_of (tb[j := num]) (unat h) e \<noteq> EMPTY" if "e < d" for e
    using d(3)[OF that] assms(2) by (cases "j = (unat h + e) mod length tb") (auto simp: ahead_of_def)
  ultimately show ?thesis using d(1) by (auto simp: reached_def)
qed

lemma place_ok:
  assumes t: "table_ok hs n tb" and n: "n < length tb" "n < 0xFFFFFFFF"
  shows "\<exists>tb'. place_at tb (word_of_nat n) (unat (hs n) AND (length tb - 1)) = Some tb' \<and> length tb' = length tb \<and> table_ok hs (Suc n) tb'"
proof -
  obtain p where p: "length tb = 2 ^ p" using t by (auto simp: table_ok_def)
  let ?i = "unat (hs n)" and ?num = "word_of_nat n :: u32"
  obtain d where d: "d < length tb" "ahead_of tb ?i d = EMPTY" "\<And>e. e < d \<Longrightarrow> ahead_of tb ?i e \<noteq> EMPTY"
    using table_has_room[OF t n(1)] first_ahead[where P = "\<lambda>x. x = EMPTY"] by blast
  let ?j = "(?i + d) mod length tb"
  have j: "tb ! ?j = EMPTY" using d(2) by (simp add: ahead_of_def)
  have jl: "?j < length tb" by (rule mod_less_divisor) (use n(1) in linarith)
  have num: "?num \<noteq> EMPTY" "unat ?num = n" using num_not_empty[of n] n(2) by auto
  have "place_at tb ?num (?i mod 2 ^ p) = place_at tb ?num ?j" using place_skip[OF p, of d ?i] d(3) p by simp
  also have "\<dots> = Some (tb[?j := ?num])" using j by (subst place_at.simps) simp
  finally have "place_at tb ?num (?i mod 2 ^ p) = Some (tb[?j := ?num])" .
  then have pl: "place_at tb ?num (?i AND (length tb - 1)) = Some (tb[?j := ?num])" using mask_mod[of ?i p] p by simp
  have fl: "filled (tb[?j := ?num]) = insert ?j (filled tb)" using j jl num(1) by (auto simp: filled_def nth_list_update)
  have "?j \<notin> filled tb" using j by (simp add: filled_def)
  moreover have "finite (filled tb)" by (simp add: filled_def)
  ultimately have "card (filled (tb[?j := ?num])) = Suc n" using t by (simp add: fl table_ok_def)
  moreover have "unat (tb[?j := ?num] ! x) < Suc n" if "x \<in> filled (tb[?j := ?num])" for x
    using that t num(2) unfolding fl by (cases "x = ?j") (auto simp: table_ok_def filled_def)
  moreover have "reached (hs x) (tb[?j := ?num]) x" if "x < Suc n" for x
  proof (cases "x = n")
    case True
    have "ahead_of (tb[?j := ?num]) ?i d = ?num" using jl by (simp add: ahead_of_def)
    moreover have "ahead_of (tb[?j := ?num]) ?i e \<noteq> EMPTY" if "e < d" for e
      using d(3)[OF that] j by (cases "?j = (?i + e) mod length tb") (auto simp: ahead_of_def)
    ultimately show ?thesis using True d(1) by (auto simp: reached_def)
  next
    case False
    then show ?thesis using that t n(2) reached_more[OF _ j num(1)] by (simp add: table_ok_def)
  qed
  ultimately have "table_ok hs (Suc n) (tb[?j := ?num])" using p n(2) by (auto simp: table_ok_def)
  then show ?thesis using pl by auto
qed

section \<open>The invariant\<close>

definition key_wf :: "pk_tombs \<Rightarrow> pk_key \<Rightarrow> bool" where
  "key_wf t k \<longleftrightarrow> length (pk_data k) = 8 \<and>
     (8 < unat (pk_len k) \<longrightarrow> unat (from_le_bytes (pk_data k) :: u64) + unat (pk_len k) \<le> length (pt_arena t))"

definition hashes :: "pk_tombs \<Rightarrow> nat \<Rightarrow> u64" where
  "hashes t i = key_hash (fst (tombs_keys t ! i)) (snd (tombs_keys t ! i))"

definition pk_ok :: "pk_tombs \<Rightarrow> bool" where
  "pk_ok t \<longleftrightarrow> (if pt_table t = [] then pt_keys t = []
       else table_ok (hashes t) (length (pt_keys t)) (pt_table t) \<and> 2 * length (pt_keys t) \<le> length (pt_table t)) \<and>
     distinct (tombs_keys t) \<and> (\<forall>k \<in> set (pt_keys t). key_wf t k) \<and>
     distinct (map fst (pt_by_slot t)) \<and> (\<forall>(slot, num) \<in> set (pt_by_slot t). slot \<noteq> NO_PK_SLOT \<and> unat num < length (pt_keys t)) \<and>
     length (pt_arena t) \<le> length (pt_keys t) * 0xFFFFFFFF"

lemma tombs_keys_nth: "i < length (pt_keys t) \<Longrightarrow> tombs_keys t ! i = (pk_himo (pt_keys t ! i), key_bytes t (pt_keys t ! i))"
  by (simp add: tombs_keys_def)

lemma length_tombs_keys [simp]: "length (tombs_keys t) = length (pt_keys t)"
  by (simp add: tombs_keys_def)

lemma key_bytes_update [simp]:
  "key_bytes (t\<lparr>pt_table := tb\<rparr>) k = key_bytes t k" "key_bytes (t\<lparr>pt_keys := ks\<rparr>) k = key_bytes t k" "key_bytes (t\<lparr>pt_by_slot := bs\<rparr>) k = key_bytes t k"
  "key_bytes (t\<lparr>pt_pending := p\<rparr>) k = key_bytes t k" "key_bytes (t\<lparr>pt_pending_records := n\<rparr>) k = key_bytes t k" "key_bytes (t\<lparr>pt_in_file := f\<rparr>) k = key_bytes t k"
  by (simp_all add: key_bytes_def Let_def)

lemma tombs_keys_update [simp]:
  "tombs_keys (t\<lparr>pt_table := tb\<rparr>) = tombs_keys t" "tombs_keys (t\<lparr>pt_by_slot := bs\<rparr>) = tombs_keys t" "tombs_keys (t\<lparr>pt_pending := p\<rparr>) = tombs_keys t"
  "tombs_keys (t\<lparr>pt_pending_records := n\<rparr>) = tombs_keys t" "tombs_keys (t\<lparr>pt_in_file := f\<rparr>) = tombs_keys t"
  by (simp_all add: tombs_keys_def)

lemma tombs_keys_cong: "pt_keys t' = pt_keys t \<Longrightarrow> pt_arena t' = pt_arena t \<Longrightarrow> tombs_keys t' = tombs_keys t"
  by (simp add: tombs_keys_def key_bytes_def Let_def)

lemma hashes_cong: "tombs_keys t' = tombs_keys t \<Longrightarrow> hashes t' = hashes t"
  by (simp add: hashes_def fun_eq_iff)

lemma keys_bound: "pk_ok t \<Longrightarrow> length (pt_keys t) \<le> 0xFFFFFFFF"
  by (auto simp: pk_ok_def table_ok_def split: if_splits)

lemma pk_ok_default: "pk_ok tombs_default"
  by (simp add: pk_ok_def tombs_default_def tombs_keys_def)

text \<open>A lookup ends, and finds the key exactly when it is there.\<close>

lemma id_of_ok:
  assumes ok: "pk_ok t"
  shows "(\<exists>i < length (pt_keys t). tombs_keys t ! i = (himo, key) \<and> id_of himo key t = Some (Some (word_of_nat i))) \<or>
    ((himo, key) \<notin> set (tombs_keys t) \<and> id_of himo key t = Some None)"
proof (cases "pt_table t = []")
  case True
  then show ?thesis using ok by (simp add: pk_ok_def id_of_def tombs_keys_def)
next
  case False
  let ?tb = "pt_table t" and ?n = "length (pt_keys t)" and ?i = "unat (key_hash himo key)"
  have t: "table_ok (hashes t) ?n ?tb" and room: "2 * ?n \<le> length ?tb" using ok False by (simp_all add: pk_ok_def)
  obtain p where p: "length ?tb = 2 ^ p" and n: "?n \<le> 0xFFFFFFFF" using t by (auto simp: table_ok_def)
  have dist: "distinct (tombs_keys t)" using ok by (simp add: pk_ok_def)
  have st: "id_of himo key t = probe t himo key (?i mod 2 ^ p)" using False mask_mod[of ?i p] p by (simp add: id_of_def)
  have num: "unat (ahead_of ?tb ?i e) < ?n \<and> tombs_keys t ! unat (ahead_of ?tb ?i e) =
      (pk_himo (pt_keys t ! unat (ahead_of ?tb ?i e)), key_bytes t (pt_keys t ! unat (ahead_of ?tb ?i e)))" if "ahead_of ?tb ?i e \<noteq> EMPTY" for e
  proof -
    have "(?i + e) mod length ?tb < length ?tb" using p by simp
    then have "(?i + e) mod length ?tb \<in> filled ?tb" using that by (simp add: filled_def ahead_of_def)
    then show ?thesis using t by (simp add: table_ok_def ahead_of_def tombs_keys_nth)
  qed
  show ?thesis
  proof (cases "(himo, key) \<in> set (tombs_keys t)")
    case True
    then obtain i where i: "i < ?n" "tombs_keys t ! i = (himo, key)" by (auto simp: in_set_conv_nth)
    have "hashes t i = key_hash himo key" using i(2) by (simp add: hashes_def)
    moreover have "reached (hashes t i) ?tb i" using t i(1) by (simp add: table_ok_def)
    ultimately have "reached (key_hash himo key) ?tb i" by simp
    then obtain d where d: "ahead_of ?tb ?i d = word_of_nat i" "\<And>e. e < d \<Longrightarrow> ahead_of ?tb ?i e \<noteq> EMPTY" by (auto simp: reached_def)
    let ?hit = "\<lambda>e. ahead_of ?tb ?i e = (word_of_nat i :: u32)"
    define l where "l = (LEAST e. ?hit e)"
    have l: "?hit l" "l \<le> d" unfolding l_def by (rule LeastI[where P = ?hit, OF d(1)], rule Least_le[where P = ?hit, OF d(1)])
    have skip: "ahead_of ?tb ?i e \<noteq> EMPTY \<and> (let k = pt_keys t ! unat (ahead_of ?tb ?i e) in \<not> (pk_himo k = himo \<and> key_bytes t k = key))" if "e < l" for e
    proof -
      have ne: "ahead_of ?tb ?i e \<noteq> EMPTY" using d(2) that l(2) by simp
      have "\<not> ?hit e" using not_less_Least[where P = ?hit, of e] that by (simp add: l_def)
      moreover have "unat (word_of_nat i :: u32) = i" using num_not_empty[of i] i(1) n by simp
      ultimately have "unat (ahead_of ?tb ?i e) \<noteq> i" by (metis word_unat_eq_iff)
      then have "tombs_keys t ! unat (ahead_of ?tb ?i e) \<noteq> (himo, key)"
        using nth_eq_iff_index_eq[of "tombs_keys t" "unat (ahead_of ?tb ?i e)" i] dist i num[OF ne] by simp
      then show ?thesis using ne num[OF ne] by (simp add: Let_def)
    qed
    have "id_of himo key t = probe t himo key ((?i + l) mod 2 ^ p)" unfolding st by (rule probe_skip[OF p skip])
    also have "\<dots> = Some (Some (word_of_nat i))"
      using l(1) num_not_empty[of i] i n tombs_keys_nth[OF i(1)] by (subst probe.simps) (simp add: Let_def ahead_of_def p)
    finally show ?thesis using i by blast
  next
    case False
    have "0 < length ?tb" using p by simp
    then have "?n < length ?tb" using room by linarith
    then obtain d where d: "ahead_of ?tb ?i d = EMPTY" "\<And>e. e < d \<Longrightarrow> ahead_of ?tb ?i e \<noteq> EMPTY"
      using table_has_room[OF t] first_ahead[where P = "\<lambda>x. x = EMPTY"] by blast
    have skip: "ahead_of ?tb ?i e \<noteq> EMPTY \<and> (let k = pt_keys t ! unat (ahead_of ?tb ?i e) in \<not> (pk_himo k = himo \<and> key_bytes t k = key))" if "e < d" for e
    proof -
      have "tombs_keys t ! unat (ahead_of ?tb ?i e) \<in> set (tombs_keys t)" using num[OF d(2)[OF that]] by (intro nth_mem) simp
      then show ?thesis using num[OF d(2)[OF that]] d(2)[OF that] False by (auto simp: Let_def)
    qed
    have "id_of himo key t = probe t himo key ((?i + d) mod 2 ^ p)" unfolding st by (rule probe_skip[OF p skip])
    also have "\<dots> = Some None" using d(1) by (subst probe.simps) (simp add: ahead_of_def p)
    finally show ?thesis using False by blast
  qed
qed

section \<open>Adding a key\<close>

lemma place_ids_ok:
  assumes "table_ok (hashes t) m (pt_table t)" "m \<le> n" "n < length (pt_table t)" "n \<le> 0xFFFFFFFF" "n \<le> length (pt_keys t)"
  shows "\<exists>tb. place_ids [m..<n] t = Some (t\<lparr>pt_table := tb\<rparr>) \<and> length tb = length (pt_table t) \<and> table_ok (hashes t) n tb"
  using assms
proof (induction "n - m" arbitrary: m t)
  case 0
  then show ?case by (intro exI[of _ "pt_table t"]) simp
next
  case (Suc x)
  then have up: "[m..<n] = m # [Suc m..<n]" by (simp add: upt_conv_Cons)
  obtain tb where tb: "place_at (pt_table t) (word_of_nat m) (unat (hashes t m) AND (length (pt_table t) - 1)) = Some tb"
    "length tb = length (pt_table t)" "table_ok (hashes t) (Suc m) tb"
  proof -
    have "m < length (pt_table t)" "m < 0xFFFFFFFF" using Suc.prems(2-4) Suc.hyps(2) by simp_all
    from place_ok[OF Suc.prems(1) this] that show thesis by blast
  qed
  let ?t = "t\<lparr>pt_table := tb\<rparr>"
  have h: "hashes ?t = hashes t" by (rule hashes_cong) simp
  have hm: "hashes t m = key_hash (pk_himo (pt_keys t ! m)) (key_bytes t (pt_keys t ! m))"
    using Suc.prems(5) Suc.hyps(2) by (simp add: hashes_def tombs_keys_nth)
  have "\<exists>tb'. place_ids [Suc m..<n] ?t = Some (?t\<lparr>pt_table := tb'\<rparr>) \<and> length tb' = length (pt_table ?t) \<and> table_ok (hashes ?t) n tb'"
    by (rule Suc.hyps(1)) (use Suc.prems(2-5) Suc.hyps(2) tb(2,3) h in simp_all)
  then obtain tb' where tb': "place_ids [Suc m..<n] ?t = Some (?t\<lparr>pt_table := tb'\<rparr>)" "length tb' = length (pt_table ?t)" "table_ok (hashes ?t) n tb'"
    by blast
  have "place_ids [m..<n] t = Some (t\<lparr>pt_table := tb'\<rparr>)" unfolding up place_ids.simps Let_def pk_place_def hm[symmetric] tb(1) using tb'(1) by simp
  then show ?case using tb'(2,3) tb(2) h by auto
qed

lemma filled_empty: "filled (replicate n EMPTY) = {}"
  by (auto simp: filled_def)

lemma grow_table_ok:
  assumes ok: "pk_ok t" and n: "length (pt_keys t) < 0xFFFFFFFF"
  shows "\<exists>tb. grow_table t = Some (t\<lparr>pt_table := tb\<rparr>) \<and> table_ok (hashes t) (length (pt_keys t)) tb \<and> 2 * (length (pt_keys t) + 1) \<le> length tb"
proof (cases "(length (pt_keys t) + 1) * 2 > length (pt_table t)")
  case True
  let ?n = "length (pt_keys t)" and ?len = "max (length (pt_table t) * 2) 16"
  let ?t = "t\<lparr>pt_table := replicate ?len EMPTY\<rparr>"
  have pow: "\<exists>p. ?len = 2 ^ p"
  proof (cases "pt_table t = []")
    case False
    then obtain p where "length (pt_table t) = 2 ^ p" using ok by (auto simp: pk_ok_def table_ok_def)
    then have "?len = max (2 ^ Suc p) (2 ^ 4)" by simp
    also have "\<dots> = (2 :: nat) ^ max (Suc p) 4"
      using power_increasing[of "Suc p" 4 "2 :: nat"] power_increasing[of 4 "Suc p" "2 :: nat"] by (cases "Suc p \<le> 4") (simp_all add: max_def)
    finally show ?thesis by blast
  qed (auto intro: exI[of _ 4])
  have big: "2 * (?n + 1) \<le> ?len"
  proof (cases "pt_table t = []")
    case False
    then have "2 * ?n \<le> length (pt_table t)" "0 < length (pt_table t)" using ok by (simp_all add: pk_ok_def)
    then have "2 * (?n + 1) \<le> length (pt_table t) * 2 \<or> 2 * (?n + 1) \<le> 16" by presburger
    then show ?thesis by (simp add: le_max_iff_disj)
  qed (use ok in \<open>simp add: pk_ok_def\<close>)
  have h: "hashes ?t = hashes t" by (rule hashes_cong) simp
  have "table_ok (hashes ?t) 0 (pt_table ?t)" using pow by (simp add: table_ok_def filled_empty)
  obtain tb where "place_ids [0..<?n] ?t = Some (?t\<lparr>pt_table := tb\<rparr>)" "length tb = ?len" "table_ok (hashes t) ?n tb"
  proof -
    have "?n < length (pt_table ?t)" using big by simp
    from place_ids_ok[OF \<open>table_ok (hashes ?t) 0 (pt_table ?t)\<close> _ this] that show thesis using n h by auto
  qed
  then show ?thesis using True big by (intro exI[of _ tb]) (simp add: grow_table_def)
next
  case False
  then have "pt_table t \<noteq> []" by auto
  then show ?thesis using False ok by (intro exI[of _ "pt_table t"]) (simp add: grow_table_def pk_ok_def)
qed

lemma table_ok_cong: "table_ok hs n tb \<Longrightarrow> (\<And>i. i < n \<Longrightarrow> hs' i = hs i) \<Longrightarrow> table_ok hs' n tb"
  by (simp add: table_ok_def)

definition log_of :: "pk_tombs \<Rightarrow> bytes \<times> nat \<times> nat option" where
  "log_of t = (pt_pending t, pt_pending_records t, pt_in_file t)"

text \<open>Room for so many more keys.\<close>

definition fits :: "nat \<Rightarrow> pk_tombs \<Rightarrow> bool" where
  "fits n t \<longleftrightarrow> length (pt_keys t) + n \<le> 0xFFFFFFFF"

lemma arena_bound: "pk_ok t \<Longrightarrow> length (pt_arena t) < 2 ^ 64"
proof -
  assume ok: "pk_ok t"
  then have "length (pt_arena t) \<le> length (pt_keys t) * 0xFFFFFFFF" by (simp add: pk_ok_def)
  with keys_bound[OF ok] show ?thesis by simp
qed

lemma stored_bytes:
  assumes f: "length (pt_arena t) < 2 ^ 64" and l: "length key < 2 ^ 32"
    and d: "(data, arena) = (if length key \<le> INLINE then (put_at 0 key (replicate INLINE 0), pt_arena t)
      else (to_le_bytes (word_of_nat (length (pt_arena t)) :: u64), pt_arena t @ key))"
    and k: "pk_data k = data" "pk_len k = word_of_nat (length key)" and a: "pt_arena t' = arena"
  shows "key_bytes t' k = key" "key_wf t' k" "\<And>k'. key_wf t k' \<Longrightarrow> key_bytes t' k' = key_bytes t k' \<and> key_wf t' k'"
    "length arena \<le> length (pt_arena t) + length key"
proof -
  have len: "unat (pk_len k) = length key" using l k(2) by (simp add: unat_of_nat)
  have at: "unat (word_of_nat (length (pt_arena t)) :: u64) = length (pt_arena t)" using f by (simp add: unat_of_nat)
  show "key_bytes t' k = key" using d k a len at by (auto simp: key_bytes_def Let_def put_at_def slice_def split: if_splits)
  show "key_wf t' k" using d k a len at by (auto simp: key_wf_def put_at_def split: if_splits)
  show "length arena \<le> length (pt_arena t) + length key" using d by (simp split: if_splits)
  show "key_bytes t' k' = key_bytes t k' \<and> key_wf t' k'" if "key_wf t k'" for k'
    using that d a by (auto simp: key_bytes_def key_wf_def Let_def slice_def split: if_splits)
qed

lemma push_key_ok:
  assumes ok: "pk_ok t" and new: "(himo, key) \<notin> set (tombs_keys t)" and f: "fits 1 t" and l: "length key < 2 ^ 32"
  shows "\<exists>t'. push_key himo key hlc t = Some (t', word_of_nat (length (pt_keys t))) \<and> pk_ok t' \<and>
    tombs_keys t' = tombs_keys t @ [(himo, key)] \<and> map key_hlc (pt_keys t') = map key_hlc (pt_keys t) @ [hlc] \<and>
    pt_by_slot t' = pt_by_slot t \<and> log_of t' = log_of t"
proof -
  let ?n = "length (pt_keys t)"
  have n: "?n < 0xFFFFFFFF" using f by (simp add: fits_def)
  obtain tb where tb: "grow_table t = Some (t\<lparr>pt_table := tb\<rparr>)" "table_ok (hashes t) ?n tb" "2 * (?n + 1) \<le> length tb"
    using grow_table_ok[OF ok n] by blast
  obtain data arena where d: "(data, arena) = (if length key \<le> INLINE then (put_at 0 key (replicate INLINE 0), pt_arena t)
      else (to_le_bytes (word_of_nat (length (pt_arena t)) :: u64), pt_arena t @ key))" by (metis surj_pair)
  define k where "k = \<lparr>pk_wall = hlc_wall hlc, pk_data = data, pk_logical = hlc_logical hlc, pk_peer = hlc_peer hlc,
     pk_len = word_of_nat (length key), pk_himo = himo\<rparr>"
  define t1 where "t1 = t\<lparr>pt_table := tb, pt_arena := arena, pt_keys := pt_keys t @ [k]\<rparr>"
  have kk: "pk_data k = data" "pk_len k = word_of_nat (length key)" "pt_arena t1 = arena" by (simp_all add: k_def t1_def)
  note st = stored_bytes[OF arena_bound[OF ok] l d kk]
  have wf: "\<And>k'. k' \<in> set (pt_keys t) \<Longrightarrow> key_wf t k'" using ok by (simp add: pk_ok_def)
  have keys: "tombs_keys t1 = tombs_keys t @ [(himo, key)]"
    using st(1) st(3)[OF wf] by (auto simp: tombs_keys_def t1_def k_def)
  have h: "hashes t1 i = hashes t i" if "i < ?n" for i using that by (simp add: hashes_def keys nth_append)
  have hn: "hashes t1 ?n = key_hash himo key" by (simp add: hashes_def keys nth_append)
  have "table_ok (hashes t1) ?n tb" using tb(2) h by (rule table_ok_cong)
  obtain tb' where tb': "place_at tb (word_of_nat ?n) (unat (key_hash himo key) AND (length tb - 1)) = Some tb'" "length tb' = length tb"
    "table_ok (hashes t1) (Suc ?n) tb'"
  proof -
    have "?n < length tb" using tb(3) by simp
    from place_ok[OF \<open>table_ok (hashes t1) ?n tb\<close> this n] that show thesis unfolding hn by blast
  qed
  let ?t' = "t1\<lparr>pt_table := tb'\<rparr>"
  have push: "push_key himo key hlc t = Some (?t', word_of_nat ?n)"
  proof -
    have "push_key himo key hlc t = map_option (\<lambda>t2. (t2, word_of_nat ?n)) (pk_place (word_of_nat ?n) (key_hash himo key) t1)"
      unfolding push_key_def tb(1) using d by (simp add: Let_def t1_def k_def split: if_splits)
    then show ?thesis using tb'(1) by (simp add: pk_place_def t1_def)
  qed
  have keys': "tombs_keys ?t' = tombs_keys t @ [(himo, key)]" using keys by simp
  have hs: "hashes ?t' = hashes t1" by (rule hashes_cong) simp
  have wf': "key_wf ?t' k'" if "k' \<in> set (pt_keys ?t')" for k'
    using that st(2) st(3)[OF wf] by (auto simp: t1_def key_wf_def)
  have ne: "tb' \<noteq> []" using tb'(2) tb(3) by auto
  have "pk_ok ?t'" unfolding pk_ok_def keys'
  proof (intro conjI)
    show "if pt_table ?t' = [] then pt_keys ?t' = [] else table_ok (hashes ?t') (length (pt_keys ?t')) (pt_table ?t') \<and>
      2 * length (pt_keys ?t') \<le> length (pt_table ?t')" using ne tb' tb(3) hs by (simp add: t1_def)
    show "distinct (tombs_keys t @ [(himo, key)])" using ok new by (simp add: pk_ok_def)
    show "\<forall>k \<in> set (pt_keys ?t'). key_wf ?t' k" using wf' by blast
    show "distinct (map fst (pt_by_slot ?t'))" using ok by (simp add: pk_ok_def t1_def)
    show "\<forall>(slot, num) \<in> set (pt_by_slot ?t'). slot \<noteq> NO_PK_SLOT \<and> unat num < length (pt_keys ?t')"
      using ok by (auto simp: pk_ok_def t1_def)
    have "length (pt_arena t) + length key \<le> length (pt_keys t) * 0xFFFFFFFF + 0xFFFFFFFF" using ok l by (simp add: pk_ok_def)
    then show "length (pt_arena ?t') \<le> length (pt_keys ?t') * 0xFFFFFFFF" using st(4) by (simp add: t1_def)
  qed
  moreover have "map key_hlc (pt_keys ?t') = map key_hlc (pt_keys t) @ [hlc]" by (simp add: t1_def k_def key_hlc_def)
  moreover have "pt_by_slot ?t' = pt_by_slot t" "log_of ?t' = log_of t"
    by (simp_all add: t1_def log_of_def)
  ultimately show ?thesis using push keys' by blast
qed

section \<open>The abstract memory\<close>

type_synonym pk_view = "((u16 \<times> bytes) \<rightharpoonup> hlc) \<times> (u32 \<rightharpoonup> u16 \<times> bytes)"

fun spec_record :: "pk_record \<Rightarrow> pk_view \<Rightarrow> pk_view" where
  "spec_record (Note himo key slot hlc) (T, S) =
     (T((himo, key) \<mapsto> (case T (himo, key) of None \<Rightarrow> hlc | Some h \<Rightarrow> max h hlc)),
      if slot \<noteq> NO_PK_SLOT then S(slot \<mapsto> (himo, key)) else S)"
| "spec_record (Forget slot) (T, S) = (T, S(slot := None))"

definition spec_before :: "hlc \<Rightarrow> pk_view \<Rightarrow> pk_view" where
  "spec_before h V = (let keep = {k. \<exists>c. fst V k = Some c \<and> h \<le> c}
     in (fst V |` keep, \<lambda>slot. case snd V slot of None \<Rightarrow> None | Some k \<Rightarrow> if k \<in> keep then Some k else None))"

definition tomb_map :: "pk_tombs \<Rightarrow> (u16 \<times> bytes) \<rightharpoonup> hlc" where
  "tomb_map t = map_of (zip (tombs_keys t) (map key_hlc (pt_keys t)))"

definition pk_view :: "pk_tombs \<Rightarrow> pk_view" where
  "pk_view t = (tomb_map t, \<lambda>slot. map_option (\<lambda>num. tombs_keys t ! unat num) (map_of (pt_by_slot t) slot))"

lemma pk_view_default: "pk_view tombs_default = (Map.empty, Map.empty)"
  by (simp add: pk_view_def tomb_map_def tombs_default_def tombs_keys_def fun_eq_iff)

lemma tomb_map_nth:
  "pk_ok t \<Longrightarrow> i < length (pt_keys t) \<Longrightarrow> tombs_keys t ! i = k \<Longrightarrow> tomb_map t k = Some (key_hlc (pt_keys t ! i))"
  unfolding tomb_map_def by (rule map_of_is_SomeI) (auto simp: pk_ok_def set_zip)

lemma tomb_map_None: "tomb_map t k = None \<longleftrightarrow> k \<notin> set (tombs_keys t)"
  by (simp add: tomb_map_def)

lemma key_of_slot_view: "pk_ok t \<Longrightarrow> key_of_slot slot t = snd (pk_view t) slot"
  by (auto simp: key_of_slot_def pk_view_def Let_def pk_ok_def tombs_keys_nth dest!: map_of_SomeD split: option.splits intro!: option.map_cong0)

lemma tomb_of_view:
  assumes ok: "pk_ok t"
  shows "tomb_of himo key t = Some (fst (pk_view t) (himo, key))"
  using id_of_ok[OF ok, of himo key]
proof
  assume "\<exists>i < length (pt_keys t). tombs_keys t ! i = (himo, key) \<and> id_of himo key t = Some (Some (word_of_nat i))"
  then obtain i where i: "i < length (pt_keys t)" "tombs_keys t ! i = (himo, key)" "id_of himo key t = Some (Some (word_of_nat i))" by blast
  have "unat (word_of_nat i :: u32) = i" using i(1) keys_bound[OF ok] by (simp add: unat_of_nat)
  then show ?thesis using tomb_map_nth[OF ok i(1,2)] i(3) by (simp add: tomb_of_def pk_view_def)
next
  assume "(himo, key) \<notin> set (tombs_keys t) \<and> id_of himo key t = Some None"
  then show ?thesis using tomb_map_None[of t "(himo, key)"] by (simp add: tomb_of_def pk_view_def)
qed

section \<open>Noting and forgetting\<close>

lemma pk_ok_slots:
  "pk_ok t \<Longrightarrow> distinct (map fst bs) \<Longrightarrow> (\<And>slot num. (slot, num) \<in> set bs \<Longrightarrow> slot \<noteq> NO_PK_SLOT \<and> unat num < length (pt_keys t)) \<Longrightarrow>
    pk_ok (t\<lparr>pt_by_slot := bs\<rparr>)"
  using hashes_cong[of "t\<lparr>pt_by_slot := bs\<rparr>" t] by (auto simp: pk_ok_def key_wf_def)

lemma pk_ok_log: "pk_ok t \<Longrightarrow> pk_ok (t\<lparr>pt_pending := p, pt_pending_records := n\<rparr>)" "pk_ok t \<Longrightarrow> pk_ok (t\<lparr>pt_in_file := f\<rparr>)"
  using hashes_cong[of "t\<lparr>pt_pending := p, pt_pending_records := n\<rparr>" t] hashes_cong[of "t\<lparr>pt_in_file := f\<rparr>" t]
  by (auto simp: pk_ok_def key_wf_def)

lemma set_update: "set (AList.update k v al) \<subseteq> insert (k, v) (set al)"
  by (induction al) auto

lemma set_clock:
  assumes ok: "pk_ok t" and i: "i < length (pt_keys t)"
    and t': "t' = t\<lparr>pt_keys := (pt_keys t)[i := (pt_keys t ! i)\<lparr>pk_wall := hlc_wall hlc, pk_logical := hlc_logical hlc, pk_peer := hlc_peer hlc\<rparr>]\<rparr>"
  shows "tombs_keys t' = tombs_keys t" "pk_ok t'" "tomb_map t' = (tomb_map t)(tombs_keys t ! i \<mapsto> hlc)"
proof -
  let ?k = "(pt_keys t ! i)\<lparr>pk_wall := hlc_wall hlc, pk_logical := hlc_logical hlc, pk_peer := hlc_peer hlc\<rparr>"
  have b: "key_bytes t ?k = key_bytes t (pt_keys t ! i)" by (simp add: key_bytes_def Let_def)
  show keys: "tombs_keys t' = tombs_keys t"
    using i b by (intro nth_equalityI) (auto simp: t' tombs_keys_def nth_list_update)
  have "key_wf t' k" if "k \<in> set (pt_keys t')" for k
  proof -
    have "k = ?k \<or> k \<in> set (pt_keys t)" using that set_update_subset_insert[of "pt_keys t" i ?k] by (auto simp: t')
    then show ?thesis using ok nth_mem[OF i] by (auto simp: pk_ok_def key_wf_def t')
  qed
  then show ok': "pk_ok t'" using ok keys hashes_cong[OF keys] by (auto simp: pk_ok_def t')
  show "tomb_map t' = (tomb_map t)(tombs_keys t ! i \<mapsto> hlc)"
  proof
    fix k
    show "tomb_map t' k = ((tomb_map t)(tombs_keys t ! i \<mapsto> hlc)) k"
    proof (cases "k \<in> set (tombs_keys t)")
      case True
      then obtain j where j: "j < length (pt_keys t)" "tombs_keys t ! j = k" by (auto simp: in_set_conv_nth)
      have "(tombs_keys t ! i = k) = (i = j)" using ok i j nth_eq_iff_index_eq[of "tombs_keys t" i j] by (simp add: pk_ok_def)
      moreover have "key_hlc (pt_keys t' ! j) = (if i = j then hlc else key_hlc (pt_keys t ! j))"
        using i by (cases hlc) (simp add: t' key_hlc_def nth_list_update)
      ultimately show ?thesis using tomb_map_nth[OF ok j] tomb_map_nth[OF ok', of j k] j keys by (auto simp: t')
    next
      case False
      then show ?thesis using i tomb_map_None[of t k] tomb_map_None[of t' k] keys nth_mem[of i "tombs_keys t"] by auto
    qed
  qed
qed

lemma note_key_ok:
  assumes ok: "pk_ok t" and f: "fits 1 t" and l: "length key < 2 ^ 32"
  shows "\<exists>t1 num changed. Option.bind (id_of himo key t) (\<lambda>found. case found of
         Some num \<Rightarrow>
           (let k = pt_keys t ! unat num
            in if key_hlc k < hlc
               then Some (t\<lparr>pt_keys := (pt_keys t)[unat num := k\<lparr>pk_wall := hlc_wall hlc, pk_logical := hlc_logical hlc, pk_peer := hlc_peer hlc\<rparr>]\<rparr>, num, True)
               else Some (t, num, False))
       | None \<Rightarrow> map_option (\<lambda>(t1, num). (t1, num, True)) (push_key himo key hlc t)) = Some (t1, num, changed) \<and>
    pk_ok t1 \<and> log_of t1 = log_of t \<and> pt_by_slot t1 = pt_by_slot t \<and> length (pt_keys t1) \<le> Suc (length (pt_keys t)) \<and> (\<not> changed \<longrightarrow> t1 = t) \<and>
    unat num < length (pt_keys t1) \<and> tombs_keys t1 ! unat num = (himo, key) \<and>
    (\<forall>i < length (pt_keys t). tombs_keys t1 ! i = tombs_keys t ! i) \<and>
    tomb_map t1 = (tomb_map t)((himo, key) \<mapsto> (case tomb_map t (himo, key) of None \<Rightarrow> hlc | Some h \<Rightarrow> max h hlc))"
  using id_of_ok[OF ok, of himo key]
proof
  let ?n = "length (pt_keys t)"
  assume "\<exists>i < ?n. tombs_keys t ! i = (himo, key) \<and> id_of himo key t = Some (Some (word_of_nat i))"
  then obtain i where i: "i < ?n" "tombs_keys t ! i = (himo, key)" "id_of himo key t = Some (Some (word_of_nat i))" by blast
  have u: "unat (word_of_nat i :: u32) = i" using i(1) keys_bound[OF ok] by (simp add: unat_of_nat)
  note c = tomb_map_nth[OF ok i(1,2)]
  show ?thesis
  proof (cases "key_hlc (pt_keys t ! i) < hlc")
    case True
    let ?t = "t\<lparr>pt_keys := (pt_keys t)[i := (pt_keys t ! i)\<lparr>pk_wall := hlc_wall hlc, pk_logical := hlc_logical hlc, pk_peer := hlc_peer hlc\<rparr>]\<rparr>"
    note s = set_clock[OF ok i(1) refl, of hlc]
    have "tomb_map ?t = (tomb_map t)((himo, key) \<mapsto> max (key_hlc (pt_keys t ! i)) hlc)" using s(3) True i(2) by (simp add: max_def less_imp_le)
    then show ?thesis using True i u s c by (intro exI[of _ ?t] exI[of _ "word_of_nat i"] exI[of _ True]) (simp add: log_of_def)
  next
    case False
    have "tomb_map t = (tomb_map t)((himo, key) \<mapsto> max (key_hlc (pt_keys t ! i)) hlc)" using False c by (auto simp: max_def fun_eq_iff)
    then show ?thesis using False i u ok c by (intro exI[of _ t] exI[of _ "word_of_nat i"] exI[of _ False]) simp
  qed
next
  assume a: "(himo, key) \<notin> set (tombs_keys t) \<and> id_of himo key t = Some None"
  let ?n = "length (pt_keys t)"
  obtain t' where t': "push_key himo key hlc t = Some (t', word_of_nat ?n)" "pk_ok t'" "tombs_keys t' = tombs_keys t @ [(himo, key)]"
    "map key_hlc (pt_keys t') = map key_hlc (pt_keys t) @ [hlc]" "pt_by_slot t' = pt_by_slot t" "log_of t' = log_of t" using push_key_ok[OF ok _ f l] a by blast
  have n: "length (pt_keys t') = Suc ?n" using arg_cong[OF t'(4), of length] by simp
  have u: "unat (word_of_nat ?n :: u32) = ?n" using f by (simp add: fits_def unat_of_nat)
  have "tomb_map t' = (tomb_map t)((himo, key) \<mapsto> hlc)"
    using a by (auto simp: tomb_map_def t'(3,4) zip_append map_of_append map_add_def fun_eq_iff eq_commute[of None] map_of_zip_is_None split: option.splits dest: map_of_SomeD set_zip_leftD)
  then show ?thesis using a t' n u tomb_map_None[of t "(himo, key)"]
    by (intro exI[of _ t'] exI[of _ "word_of_nat ?n"] exI[of _ True]) (simp add: nth_append)
qed

lemma apply_note_ok:
  assumes ok: "pk_ok t" and f: "fits 1 t" and l: "length key < 2 ^ 32"
  shows "\<exists>t' changed. apply_note himo key slot hlc t = Some (t', changed) \<and> pk_ok t' \<and> log_of t' = log_of t \<and>
    pk_view t' = spec_record (Note himo key slot hlc) (pk_view t) \<and> (\<not> changed \<longrightarrow> pk_view t' = pk_view t) \<and>
    length (pt_keys t') \<le> Suc (length (pt_keys t))"
proof -
  let ?n = "length (pt_keys t)"
  obtain t1 num changed where st: "apply_note himo key slot hlc t =
      (if slot \<noteq> NO_PK_SLOT
       then Some (t1\<lparr>pt_by_slot := AList.update slot num (pt_by_slot t1)\<rparr>, changed \<or> map_of (pt_by_slot t1) slot \<noteq> Some num)
       else Some (t1, changed))"
    and t1: "pk_ok t1" "log_of t1 = log_of t" "pt_by_slot t1 = pt_by_slot t" "length (pt_keys t1) \<le> Suc ?n"
      "\<not> changed \<longrightarrow> t1 = t"
    and num: "unat num < length (pt_keys t1)" "tombs_keys t1 ! unat num = (himo, key)"
    and pre: "\<And>i. i < ?n \<Longrightarrow> tombs_keys t1 ! i = tombs_keys t ! i"
    and tm: "tomb_map t1 = (tomb_map t)((himo, key) \<mapsto> (case tomb_map t (himo, key) of None \<Rightarrow> hlc | Some h \<Rightarrow> max h hlc))"
  proof -
    obtain t1 num changed where n: "Option.bind (id_of himo key t) (\<lambda>found. case found of
         Some num \<Rightarrow>
           (let k = pt_keys t ! unat num
            in if key_hlc k < hlc
               then Some (t\<lparr>pt_keys := (pt_keys t)[unat num := k\<lparr>pk_wall := hlc_wall hlc, pk_logical := hlc_logical hlc, pk_peer := hlc_peer hlc\<rparr>]\<rparr>, num, True)
               else Some (t, num, False))
       | None \<Rightarrow> map_option (\<lambda>(t1, num). (t1, num, True)) (push_key himo key hlc t)) = Some (t1, num, changed)"
      and r: "pk_ok t1" "log_of t1 = log_of t" "pt_by_slot t1 = pt_by_slot t" "length (pt_keys t1) \<le> Suc ?n"
        "\<not> changed \<longrightarrow> t1 = t"
        "unat num < length (pt_keys t1)" "tombs_keys t1 ! unat num = (himo, key)"
        "\<forall>i < ?n. tombs_keys t1 ! i = tombs_keys t ! i"
        "tomb_map t1 = (tomb_map t)((himo, key) \<mapsto> (case tomb_map t (himo, key) of None \<Rightarrow> hlc | Some h \<Rightarrow> max h hlc))"
      using note_key_ok[OF ok f l, of himo hlc] by blast
    have "apply_note himo key slot hlc t = Option.bind (Some (t1, num, changed)) (\<lambda>(t1, num, changed).
         if slot \<noteq> NO_PK_SLOT
         then Some (t1\<lparr>pt_by_slot := AList.update slot num (pt_by_slot t1)\<rparr>, changed \<or> map_of (pt_by_slot t1) slot \<noteq> Some num)
         else Some (t1, changed))"
      unfolding apply_note_def n[symmetric] by simp
    then have e: "apply_note himo key slot hlc t = (if slot \<noteq> NO_PK_SLOT
       then Some (t1\<lparr>pt_by_slot := AList.update slot num (pt_by_slot t1)\<rparr>, changed \<or> map_of (pt_by_slot t1) slot \<noteq> Some num)
       else Some (t1, changed))" by simp
    show thesis by (rule that[OF e r(1-7) r(8)[rule_format] r(9)])
  qed
  have sl: "map_option (\<lambda>num. tombs_keys t1 ! unat num) (map_of (pt_by_slot t) s) = map_option (\<lambda>num. tombs_keys t ! unat num) (map_of (pt_by_slot t) s)" for s
    using pre ok by (cases "map_of (pt_by_slot t) s") (auto simp: pk_ok_def dest!: map_of_SomeD)
  show ?thesis
  proof (cases "slot = NO_PK_SLOT")
    case True
    have "pk_view t1 = spec_record (Note himo key slot hlc) (pk_view t)"
      using True by (simp add: pk_view_def tm t1(3) sl)
    then show ?thesis using st t1 True by auto
  next
    case False
    let ?t' = "t1\<lparr>pt_by_slot := AList.update slot num (pt_by_slot t1)\<rparr>"
    have "pk_view ?t' = spec_record (Note himo key slot hlc) (pk_view t)"
      using False num(2) tm sl by (auto simp: pk_view_def fun_eq_iff update_conv t1(3) tomb_map_def)
    moreover have "pk_ok ?t'"
    proof (rule pk_ok_slots[OF t1(1)])
      show "distinct (map fst (AList.update slot num (pt_by_slot t1)))" using t1(1) by (intro distinct_update) (simp add: pk_ok_def)
      show "s \<noteq> NO_PK_SLOT \<and> unat m < length (pt_keys t1)" if "(s, m) \<in> set (AList.update slot num (pt_by_slot t1))" for s m
        using that set_update[of slot num "pt_by_slot t1"] t1(1) num(1) False by (auto simp: pk_ok_def)
    qed
    moreover have "pk_view ?t' = pk_view t" if "\<not> (changed \<or> map_of (pt_by_slot t1) slot \<noteq> Some num)"
      using that t1(5) by (auto simp: pk_view_def fun_eq_iff tomb_map_def update_conv)
    ultimately show ?thesis using st t1 False by (auto simp: log_of_def)
  qed
qed

lemma remove_slot_ok:
  assumes ok: "pk_ok t"
  shows "pk_ok (fst (remove_slot slot t))" "pk_view (fst (remove_slot slot t)) = spec_record (Forget slot) (pk_view t)"
    "log_of (fst (remove_slot slot t)) = log_of t" "pt_keys (fst (remove_slot slot t)) = pt_keys t" "pt_arena (fst (remove_slot slot t)) = pt_arena t"
    "\<not> snd (remove_slot slot t) \<Longrightarrow> fst (remove_slot slot t) = t"
proof -
  let ?bs = "AList.delete slot (pt_by_slot t)"
  have "pk_ok (t\<lparr>pt_by_slot := ?bs\<rparr>)"
  proof (rule pk_ok_slots[OF ok])
    show "distinct (map fst ?bs)" using ok by (intro distinct_delete) (simp add: pk_ok_def)
    show "s \<noteq> NO_PK_SLOT \<and> unat m < length (pt_keys t)" if "(s, m) \<in> set ?bs" for s m
      using that ok by (auto simp: pk_ok_def AList.delete_eq)
  qed
  then show "pk_ok (fst (remove_slot slot t))" using ok by (simp add: remove_slot_def)
  show "pk_view (fst (remove_slot slot t)) = spec_record (Forget slot) (pk_view t)"
    by (auto simp: remove_slot_def pk_view_def tomb_map_def fun_eq_iff delete_conv')
qed (simp_all add: remove_slot_def log_of_def split: if_splits)

section \<open>Forgetting old deletions\<close>

definition same_key :: "pk_tombs \<Rightarrow> pk_key \<Rightarrow> pk_tombs \<Rightarrow> u32 \<Rightarrow> bool" where
  "same_key old k t num \<longleftrightarrow> unat num < length (pt_keys t) \<and> tombs_keys t ! unat num = (pk_himo k, key_bytes old k) \<and> key_hlc (pt_keys t ! unat num) = key_hlc k"

lemma same_key_more:
  assumes "same_key old k t num" "tombs_keys t' = tombs_keys t @ xs" "map key_hlc (pt_keys t') = map key_hlc (pt_keys t) @ ys"
  shows "same_key old k t' num"
proof -
  have n: "unat num < length (pt_keys t)" using assms(1) by (simp add: same_key_def)
  moreover have n': "length (pt_keys t) \<le> length (pt_keys t')" using arg_cong[OF assms(3), of length] by simp
  moreover have "map key_hlc (pt_keys t') ! unat num = map key_hlc (pt_keys t) ! unat num" using n assms(3) by (simp add: nth_append)
  ultimately show ?thesis using assms(1,2) by (simp add: same_key_def nth_append)
qed

lemma fits_less: "fits n t \<Longrightarrow> length (pt_keys t') + n' \<le> length (pt_keys t) + n \<Longrightarrow> fits n' t'"
  by (simp add: fits_def)

definition kept_keys :: "hlc \<Rightarrow> pk_tombs \<Rightarrow> nat \<Rightarrow> pk_key list \<Rightarrow> pk_tombs \<Rightarrow> u32 list \<Rightarrow> pk_tombs \<Rightarrow> u32 list \<Rightarrow> bool" where
  "kept_keys h old i ks t new_id t' ids \<longleftrightarrow> pk_ok t' \<and> log_of t' = log_of t \<and> pt_by_slot t' = pt_by_slot t \<and>
    tombs_keys t' = tombs_keys t @ map (\<lambda>k. (pk_himo k, key_bytes old k)) (filter (\<lambda>k. h \<le> key_hlc k) ks) \<and>
    map key_hlc (pt_keys t') = map key_hlc (pt_keys t) @ map key_hlc (filter (\<lambda>k. h \<le> key_hlc k) ks) \<and>
    length ids = length new_id \<and> (\<forall>j < length new_id. j < i \<or> i + length ks \<le> j \<longrightarrow> ids ! j = new_id ! j) \<and>
    (\<forall>j < length ks. (h \<le> key_hlc (ks ! j) \<longrightarrow> ids ! (i + j) \<noteq> EMPTY \<and> same_key old (ks ! j) t' (ids ! (i + j))) \<and>
      (\<not> h \<le> key_hlc (ks ! j) \<longrightarrow> ids ! (i + j) = new_id ! (i + j)))"

lemma all_less_Suc_0: "(\<forall>j < Suc n. P j) \<longleftrightarrow> P 0 \<and> (\<forall>j < n. P (Suc j))"
  by (metis Suc_less_eq gr0_conv_Suc not_gr_zero zero_less_Suc)

lemma kept_keys_skip:
  assumes "kept_keys h old (i + 1) ks t new_id t' ids" "\<not> h \<le> key_hlc k" "i < length new_id"
  shows "kept_keys h old i (k # ks) t new_id t' ids"
  using assms by (auto simp: kept_keys_def all_less_Suc_0)

lemma kept_keys_push:
  assumes r: "kept_keys h old (i + 1) ks t1 (new_id[i := num]) t' ids" and k: "h \<le> key_hlc k" and i: "i < length new_id"
    and num: "num \<noteq> EMPTY" "same_key old k t1 num"
    and t1: "tombs_keys t1 = tombs_keys t @ [(pk_himo k, key_bytes old k)]" "map key_hlc (pt_keys t1) = map key_hlc (pt_keys t) @ [key_hlc k]"
      "pt_by_slot t1 = pt_by_slot t" "log_of t1 = log_of t"
  shows "kept_keys h old i (k # ks) t new_id t' ids"
proof -
  have "ids ! i = num" using r i by (simp add: kept_keys_def)
  moreover have "same_key old k t' num" using r num(2) same_key_more by (simp add: kept_keys_def)
  ultimately show ?thesis using r k num(1) t1 by (auto simp: kept_keys_def all_less_Suc_0)
qed

lemma keep_from_ok:
  assumes "pk_ok t" "fits (length ks) t" "\<And>k. k \<in> set ks \<Longrightarrow> length (key_bytes old k) < 2 ^ 32"
    "distinct (map (\<lambda>k. (pk_himo k, key_bytes old k)) ks)" "set (tombs_keys t) \<inter> (\<lambda>k. (pk_himo k, key_bytes old k)) ` set ks = {}"
    "i + length ks \<le> length new_id"
  shows "\<exists>t' ids. keep_from h old i ks t new_id = Some (t', ids) \<and> kept_keys h old i ks t new_id t' ids"
  using assms
proof (induction ks arbitrary: i t new_id)
  case Nil
  then show ?case by (intro exI[of _ t] exI[of _ new_id]) (simp add: kept_keys_def)
next
  case (Cons k ks)
  let ?key = "\<lambda>k. (pk_himo k, key_bytes old k)"
  have i: "i < length new_id" using Cons.prems(6) by simp
  show ?case
  proof (cases "h \<le> key_hlc k")
    case False
    have "\<exists>t' ids. keep_from h old (i + 1) ks t new_id = Some (t', ids) \<and> kept_keys h old (i + 1) ks t new_id t' ids"
    proof (rule Cons.IH)
      show "fits (length ks) t" using Cons.prems(2) by (rule fits_less) simp_all
    qed (use Cons.prems in auto)
    then show ?thesis using False kept_keys_skip[OF _ False i] by auto
  next
    case True
    have f: "fits 1 t" using Cons.prems(2) by (rule fits_less) simp_all
    have nk: "?key k \<notin> set (tombs_keys t)" using Cons.prems(5) by simp
    obtain t1 where t1: "push_key (pk_himo k) (key_bytes old k) (key_hlc k) t = Some (t1, word_of_nat (length (pt_keys t)))" "pk_ok t1"
      "tombs_keys t1 = tombs_keys t @ [?key k]" "map key_hlc (pt_keys t1) = map key_hlc (pt_keys t) @ [key_hlc k]"
      "pt_by_slot t1 = pt_by_slot t" "log_of t1 = log_of t"
      using push_key_ok[OF Cons.prems(1) nk f Cons.prems(3)] by auto
    let ?num = "word_of_nat (length (pt_keys t)) :: u32"
    have num: "?num \<noteq> EMPTY" "unat ?num = length (pt_keys t)" using num_not_empty[of "length (pt_keys t)"] f by (simp_all add: fits_def)
    have n: "length (pt_keys t1) = Suc (length (pt_keys t))" using arg_cong[OF t1(4), of length] by simp
    have "map key_hlc (pt_keys t1) ! length (pt_keys t) = key_hlc k" by (simp add: t1(4) nth_append)
    then have same: "same_key old k t1 ?num" using num(2) n t1(3) by (simp add: same_key_def nth_append)
    have "\<exists>t' ids. keep_from h old (i + 1) ks t1 (new_id[i := ?num]) = Some (t', ids) \<and> kept_keys h old (i + 1) ks t1 (new_id[i := ?num]) t' ids"
    proof (rule Cons.IH)
      show "fits (length ks) t1" using Cons.prems(2) by (rule fits_less) (use n in simp)
      show "set (tombs_keys t1) \<inter> ?key ` set ks = {}" using t1(3) Cons.prems(4,5) by auto
    qed (use Cons.prems t1(2) in auto)
    then obtain t' ids where r: "keep_from h old (i + 1) ks t1 (new_id[i := ?num]) = Some (t', ids)" "kept_keys h old (i + 1) ks t1 (new_id[i := ?num]) t' ids" by blast
    have "kept_keys h old i (k # ks) t new_id t' ids" by (rule kept_keys_push[OF r(2) True i num(1) same t1(3-6)])
    then show ?thesis using True t1(1) r(1) by simp
  qed
qed

lemma key_bytes_bound: "length (key_bytes t k) < 2 ^ 32"
  using unat_bound[of "pk_len k"] by (auto simp: key_bytes_def Let_def slice_def)

lemma tomb_map_key:
  "tomb_map t = map_of (map (\<lambda>k. ((pk_himo k, key_bytes t k), key_hlc k)) (pt_keys t))"
  by (simp add: tomb_map_def tombs_keys_def zip_map_map zip_same_conv_map split_def comp_def)

lemma tomb_map_Some:
  "pk_ok t \<Longrightarrow> tomb_map t k = Some c \<longleftrightarrow> (\<exists>x \<in> set (pt_keys t). (pk_himo x, key_bytes t x) = k \<and> key_hlc x = c)"
  by (subst tomb_map_key, subst map_of_eq_Some_iff) (auto simp: pk_ok_def tombs_keys_def comp_def)

lemma slot_view_Some:
  "pk_ok t \<Longrightarrow> snd (pk_view t) slot = Some k \<longleftrightarrow> (\<exists>num. map_of (pt_by_slot t) slot = Some num \<and> unat num < length (pt_keys t) \<and> tombs_keys t ! unat num = k)"
  by (auto simp: pk_view_def pk_ok_def dest!: map_of_SomeD)

lemma map_of_renumber:
  "distinct (map fst bs) \<Longrightarrow> map_of (map (\<lambda>(slot, num). (slot, f num)) (filter (\<lambda>(slot, num). P num) bs)) slot =
    (case map_of bs slot of Some num \<Rightarrow> if P num then Some (f num) else None | None \<Rightarrow> None)"
  by (induction bs) (auto simp: map_of_eq_None_iff[symmetric] image_iff split: option.splits dest: map_of_SomeD)

lemma map_of_filter_values:
  assumes d: "distinct (map f xs)"
  shows "map_of (map (\<lambda>x. (f x, g x)) (filter (\<lambda>x. P (g x)) xs)) =
    map_of (map (\<lambda>x. (f x, g x)) xs) |` {k. \<exists>c. map_of (map (\<lambda>x. (f x, g x)) xs) k = Some c \<and> P c}"
    (is "?l = ?m |` ?K")
proof
  fix k
  have m: "?m k = Some c \<longleftrightarrow> (\<exists>x \<in> set xs. f x = k \<and> g x = c)" for c
    using d by (subst map_of_eq_Some_iff) (auto simp: comp_def)
  have l: "?l k = Some c \<longleftrightarrow> (\<exists>x \<in> set xs. f x = k \<and> g x = c \<and> P (g x))" for c
    using distinct_map_filter[OF d, of "\<lambda>x. P (g x)"] by (subst map_of_eq_Some_iff) (auto simp: comp_def)
  show "?l k = (?m |` ?K) k"
  proof (cases "?l k")
    case None
    then have "k \<notin> ?K" using l m by fastforce
    then show ?thesis using None by (simp only: restrict_map_def if_False)
  next
    case (Some c)
    then have "?m k = Some c" "P c" using l[of c] m[of c] by auto
    then have "k \<in> ?K" by blast
    then show ?thesis using Some \<open>?m k = Some c\<close> by (simp only: restrict_map_def if_True)
  qed
qed

lemma forget_none:
  assumes ok: "pk_ok t" and k: "\<And>k. k \<in> set (pt_keys t) \<Longrightarrow> h \<le> key_hlc k"
  shows "spec_before h (pk_view t) = pk_view t"
proof -
  have T: "tomb_map t |` {k. \<exists>c. tomb_map t k = Some c \<and> h \<le> c} = tomb_map t"
    using tomb_map_Some[OF ok] k by (auto simp: fun_eq_iff restrict_map_def) (metis not_Some_eq)
  have K: "\<exists>c. tomb_map t k = Some c \<and> h \<le> c" if v: "snd (pk_view t) slot = Some k" for slot k
  proof -
    obtain num :: u32 where n: "unat num < length (pt_keys t)" "tombs_keys t ! unat num = k" using v slot_view_Some[OF ok, of slot k] by blast
    show ?thesis using tomb_map_nth[OF ok n] k[OF nth_mem[OF n(1)]] by simp
  qed
  have "snd (spec_before h (pk_view t)) slot = snd (pk_view t) slot" for slot
  proof (cases "snd (pk_view t) slot")
    case (Some k)
    have "fst (pk_view t) = tomb_map t" by (simp add: pk_view_def)
    then show ?thesis unfolding spec_before_def Let_def snd_conv Some option.case using K[OF Some] by simp
  qed (simp add: spec_before_def Let_def)
  then show ?thesis using T by (intro prod_eqI) (auto simp: spec_before_def Let_def pk_view_def)
qed

lemma forget_before_ok:
  assumes ok: "pk_ok t"
  shows "\<exists>t' gone. forget_before h t = Some (t', gone) \<and> pk_ok t' \<and> pk_view t' = spec_before h (pk_view t) \<and>
    (gone = 0 \<and> t' = t \<or> 0 < gone \<and> log_of t' = ([], 0, None)) \<and> length (pt_keys t') \<le> length (pt_keys t)"
proof (cases "filter (\<lambda>k. key_hlc k < h) (pt_keys t) = []")
  case True
  then have "spec_before h (pk_view t) = pk_view t" by (intro forget_none[OF ok]) (auto simp: filter_empty_conv not_less)
  then show ?thesis using True ok by (simp add: forget_before_def)
next
  case False
  let ?n = "length (pt_keys t)" and ?keep = "\<lambda>k. h \<le> key_hlc k"
  obtain t1 ids where r: "keep_from h t 0 (pt_keys t) tombs_default (replicate ?n EMPTY) = Some (t1, ids)"
    "kept_keys h t 0 (pt_keys t) tombs_default (replicate ?n EMPTY) t1 ids"
    using keep_from_ok[of tombs_default "pt_keys t" t 0 "replicate ?n EMPTY" h] pk_ok_default keys_bound[OF ok] ok key_bytes_bound[of t]
    by (auto simp: fits_def tombs_default_def pk_ok_def tombs_keys_def)
  define bs where "bs = map (\<lambda>(slot, num). (slot, ids ! unat num)) (filter (\<lambda>(slot, num). ids ! unat num \<noteq> EMPTY) (pt_by_slot t))"
  let ?t = "t1\<lparr>pt_by_slot := bs\<rparr>"
  have ok1: "pk_ok t1" and keys: "tombs_keys t1 = map (\<lambda>k. (pk_himo k, key_bytes t k)) (filter ?keep (pt_keys t))"
    and clocks: "map key_hlc (pt_keys t1) = map key_hlc (filter ?keep (pt_keys t))" and log: "log_of t1 = ([], 0, None)"
    using r(2) by (simp_all add: kept_keys_def tombs_default_def tombs_keys_def log_of_def)
  have ids: "if ?keep (pt_keys t ! j) then ids ! j \<noteq> EMPTY \<and> unat (ids ! j) < length (pt_keys t1) \<and> tombs_keys t1 ! unat (ids ! j) = tombs_keys t ! j
      else ids ! j = EMPTY" if "j < ?n" for j
    using r(2) that by (auto simp: kept_keys_def same_key_def tombs_keys_nth)
  have sl: "unat num < ?n" "slot \<noteq> NO_PK_SLOT" if "(slot, num) \<in> set (pt_by_slot t)" for slot num using that ok by (auto simp: pk_ok_def)
  have "pk_ok ?t"
  proof (rule pk_ok_slots[OF ok1])
    show "distinct (map fst bs)" using ok by (auto simp: bs_def pk_ok_def comp_def split_def intro: distinct_map_filter)
    show "slot \<noteq> NO_PK_SLOT \<and> unat num < length (pt_keys t1)" if s: "(slot, num) \<in> set bs" for slot num
    proof -
      obtain m where m: "(slot, m) \<in> set (pt_by_slot t)" "num = ids ! unat m" "ids ! unat m \<noteq> EMPTY" using s by (auto simp: bs_def)
      show ?thesis using ids[OF sl(1)[OF m(1)]] sl(2)[OF m(1)] m(2,3) by (simp split: if_splits)
    qed
  qed
  moreover have "tomb_map ?t = tomb_map t |` {k. \<exists>c. tomb_map t k = Some c \<and> h \<le> c}"
  proof -
    have "tomb_map ?t = map_of (map (\<lambda>k. ((pk_himo k, key_bytes t k), key_hlc k)) (filter ?keep (pt_keys t)))"
      unfolding tomb_map_def using keys clocks by (simp add: zip_map_map zip_same_conv_map split_def comp_def)
    then show ?thesis unfolding tomb_map_key[of t] using ok by (simp only:) (rule map_of_filter_values, simp add: pk_ok_def tombs_keys_def)
  qed
  moreover have "snd (pk_view ?t) slot = snd (spec_before h (pk_view t)) slot" for slot
  proof (cases "map_of (pt_by_slot t) slot")
    case None
    then have "map_of bs slot = None" using ok by (simp add: bs_def map_of_renumber[where P = "\<lambda>num. ids ! unat num \<noteq> EMPTY"] pk_ok_def)
    then show ?thesis using None by (simp add: pk_view_def spec_before_def Let_def)
  next
    case (Some num)
    note n = sl(1)[OF map_of_SomeD[OF Some]]
    have "map_of bs slot = (if ids ! unat num \<noteq> EMPTY then Some (ids ! unat num) else None)"
      using ok Some by (simp add: bs_def map_of_renumber[where P = "\<lambda>num. ids ! unat num \<noteq> EMPTY"] pk_ok_def)
    then show ?thesis using Some ids[OF n] tomb_map_nth[OF ok n refl] by (auto simp: pk_view_def spec_before_def Let_def split: if_splits)
  qed
  ultimately have "pk_view ?t = spec_before h (pk_view t)"
    by (intro prod_eqI) (auto simp: pk_view_def spec_before_def Let_def)
  moreover have "length (pt_keys ?t) \<le> ?n" using arg_cong[OF clocks, of length] by simp
  moreover have "forget_before h t = Some (?t, length (filter (\<lambda>k. key_hlc k < h) (pt_keys t)))"
    using False r(1) by (simp add: forget_before_def bs_def)
  moreover have "log_of ?t = ([], 0, None)" using log by (simp add: log_of_def)
  moreover have "0 < length (filter (\<lambda>k. key_hlc k < h) (pt_keys t))" using False by simp
  ultimately show ?thesis using \<open>pk_ok ?t\<close> by blast
qed

end
