(* ===== verification/Pk_File.thy ===== *)
theory Pk_File
  imports Pk_Correct
begin

text \<open>
  The file of deleted primary keys: records and their bytes, loading a file that was cut at any
  byte or holds arbitrary bytes, and the rewritten file.
\<close>

section \<open>Records\<close>

definition rec_bytes :: "pk_record \<Rightarrow> bytes" where
  "rec_bytes r = encode_record [] r"

definition file_bytes :: "pk_record list \<Rightarrow> bytes" where
  "file_bytes rs = concat (map rec_bytes rs)"

fun rec_ok :: "pk_record \<Rightarrow> bool" where
  "rec_ok (Note himo key slot hlc) \<longleftrightarrow> length key < 2 ^ 32"
| "rec_ok (Forget slot) \<longleftrightarrow> True"

lemma encode_record_app: "encode_record out r = out @ rec_bytes r"
  by (cases r) (simp_all add: rec_bytes_def encode_note_def encode_forget_def)

lemma file_bytes_foldl: "foldl encode_record out rs = out @ file_bytes rs"
  by (induction rs arbitrary: out) (simp_all add: file_bytes_def encode_record_app)

fun rec_fields :: "pk_record \<Rightarrow> bytes" where
  "rec_fields (Note himo key slot hlc) = note_fields himo key slot hlc"
| "rec_fields (Forget slot) = forget_fields slot"

lemma rec_bytes_fields: "rec_bytes r = rec_fields r @ to_le_bytes (fnv1a (rec_fields r))"
  by (cases r) (simp_all add: rec_bytes_def encode_note_def encode_forget_def)

lemma pk_get_app: "a \<le> b \<Longrightarrow> length xs = a \<Longrightarrow> length ys = b - a \<Longrightarrow> pk_get a b (xs @ ys @ zs) = Some ys"
  by (simp add: pk_get_def slice_def)

lemma pk_u32_app: "length xs = off \<Longrightarrow> pk_u32 off (xs @ to_le_bytes w @ zs) = Some w"
  using pk_get_app[of off "off + 4" xs "to_le_bytes w" zs] by (simp add: pk_u32_def)

lemma decode_body_note:
  assumes "length key < 2 ^ 32"
  shows "decode_body (note_fields himo key slot hlc @ rest) = Some (Note himo key slot hlc, length (note_fields himo key slot hlc))"
proof -
  let ?n = "word_of_nat (length key) :: u32"
  let ?h = "to_le_bytes himo" and ?s = "to_le_bytes slot" and ?l = "to_le_bytes ?n" and ?w = "to_le_bytes (hlc_wall hlc)"
    and ?lg = "to_le_bytes (hlc_logical hlc)" and ?p = "to_le_bytes (hlc_peer hlc)"
  let ?buf = "[1] @ ?h @ ?s @ ?l @ key @ ?w @ ?lg @ ?p @ rest"
  have n: "unat ?n = length key" using assms by (simp add: unat_of_nat)
  have g: "pk_get 1 3 ?buf = Some ?h" by (rule pk_get_app) simp_all
  have s: "pk_u32 3 ?buf = Some slot" using pk_u32_app[of "[1] @ ?h" 3 slot "?l @ key @ ?w @ ?lg @ ?p @ rest"] by simp
  have l: "pk_u32 7 ?buf = Some ?n" using pk_u32_app[of "[1] @ ?h @ ?s" 7 ?n "key @ ?w @ ?lg @ ?p @ rest"] by simp
  have k: "pk_get 11 (11 + length key) ?buf = Some key" using pk_get_app[of 11 "11 + length key" "[1] @ ?h @ ?s @ ?l" key "?w @ ?lg @ ?p @ rest"] by simp
  have w: "pk_get (11 + length key) (11 + length key + 8) ?buf = Some ?w"
    using pk_get_app[of "11 + length key" "11 + length key + 8" "[1] @ ?h @ ?s @ ?l @ key" ?w "?lg @ ?p @ rest"] by simp
  have lg: "pk_u32 (11 + length key + 8) ?buf = Some (hlc_logical hlc)"
    using pk_u32_app[of "[1] @ ?h @ ?s @ ?l @ key @ ?w" "11 + length key + 8" "hlc_logical hlc" "?p @ rest"] by simp
  have p: "pk_u32 (11 + length key + 12) ?buf = Some (hlc_peer hlc)"
    using pk_u32_app[of "[1] @ ?h @ ?s @ ?l @ key @ ?w @ ?lg" "11 + length key + 12" "hlc_peer hlc" rest] by simp
  have "decode_body ?buf = Some (Note himo key slot hlc, 11 + length key + 16)"
    unfolding decode_body_def g s l bind.simps n k w lg p by (cases hlc) simp
  then show ?thesis by (simp add: note_fields_def)
qed

lemma decode_body_fields: "rec_ok r \<Longrightarrow> decode_body (rec_fields r @ rest) = Some (r, length (rec_fields r))"
  using decode_body_note pk_u32_app[of "[2]" 1] by (cases r) (auto simp: forget_fields_def decode_body_def)

lemma pk_decode_bytes: "rec_ok r \<Longrightarrow> pk_decode (rec_bytes r @ rest) = Some (r, length (rec_bytes r))"
  using decode_body_fields[of r "to_le_bytes (fnv1a (rec_fields r)) @ rest"] pk_u32_app[of "rec_fields r" "length (rec_fields r)" "fnv1a (rec_fields r)" rest]
  by (simp add: pk_decode_def rec_bytes_fields)

lemma pk_get_short: "length buf < b \<Longrightarrow> pk_get a b buf = None" "length buf < off + 4 \<Longrightarrow> pk_u32 off buf = None"
  by (simp_all add: pk_u32_def pk_get_def)

lemma pk_u32_take: "off + 4 \<le> m \<Longrightarrow> m \<le> length buf \<Longrightarrow> pk_u32 off (take m buf) = pk_u32 off buf"
  by (simp add: pk_u32_def pk_get_def slice_def take_drop[symmetric] drop_take)

lemma decode_body_short:
  assumes ok: "rec_ok r" and m: "m < length (rec_fields r)"
  shows "decode_body (take m (rec_fields r)) = None"
proof (cases "m = 0")
  case False
  show ?thesis
  proof (cases r)
    case (Forget slot)
    then show ?thesis using False m by (cases m) (simp_all add: decode_body_def forget_fields_def pk_get_short)
  next
    case (Note himo key slot hlc)
    let ?f = "note_fields himo key slot hlc"
    have n: "unat (word_of_nat (length key) :: u32) = length key" using ok Note by (simp add: unat_of_nat)
    have len: "length ?f = 27 + length key" by (simp add: note_fields_def)
    have hd: "take m ?f \<noteq> []" "hd (take m ?f) = 1" using False by (simp_all add: note_fields_def hd_take take_Cons')
    have l: "pk_u32 7 ?f = Some (word_of_nat (length key))"
      using pk_u32_app[of "[1] @ to_le_bytes himo @ to_le_bytes slot" 7 "word_of_nat (length key)"] by (simp add: note_fields_def)
    show ?thesis
    proof (cases "m < 11")
      case True
      have "pk_u32 7 (take m ?f) = None" using True by (simp add: pk_get_short)
      then show ?thesis using hd Note unfolding decode_body_def by (auto simp: bind_eq_None_conv)
    next
      case False
      have "pk_u32 7 (take m ?f) = Some (word_of_nat (length key))" using pk_u32_take[of 7 m ?f] False m l Note by simp
      moreover have "pk_u32 (11 + length key + 12) (take m ?f) = None" using m Note len by (simp add: pk_get_short)
      ultimately show ?thesis using hd Note n unfolding decode_body_def by (auto simp: bind_eq_None_conv)
    qed
  qed
qed (simp add: decode_body_def)

lemma pk_decode_short:
  assumes ok: "rec_ok r" and m: "m < length (rec_bytes r)"
  shows "pk_decode (take m (rec_bytes r)) = None"
proof (cases "m < length (rec_fields r)")
  case True
  then show ?thesis using decode_body_short[OF ok True] by (simp add: pk_decode_def rec_bytes_fields)
next
  case False
  then have "take m (rec_bytes r) = rec_fields r @ take (m - length (rec_fields r)) (to_le_bytes (fnv1a (rec_fields r)))"
    by (simp add: rec_bytes_fields)
  then show ?thesis using decode_body_fields[OF ok] m False by (simp add: pk_decode_def rec_bytes_fields pk_get_short)
qed

section \<open>Loading\<close>

definition replay :: "pk_record list \<Rightarrow> pk_view \<Rightarrow> pk_view" where
  "replay rs V = fold spec_record rs V"

lemma load_from_step:
  "load_from buf t n = (if buf = [] then Some (t, n, False) else case pk_decode buf of
       None \<Rightarrow> Some (t, n, True)
     | Some (r, k) \<Rightarrow> Option.bind (case r of Note himo key slot hlc \<Rightarrow> map_option fst (apply_note himo key slot hlc t) | Forget slot \<Rightarrow> Some (fst (remove_slot slot t)))
         (\<lambda>t1. load_from (drop k buf) t1 (n + 1)))"
proof (cases "pk_decode buf")
  case (Some x)
  obtain r k where x: "x = (r, k)" by fastforce
  show ?thesis
  proof (cases r)
    case (Note himo key slot hlc)
    then show ?thesis using Some x by (subst load_from.simps, cases "apply_note himo key slot hlc t") auto
  qed (use Some x in \<open>subst load_from.simps, simp\<close>)
qed (subst load_from.simps, simp)

lemma record_applied:
  assumes "pk_ok t" "fits 1 t" "rec_ok r"
  shows "\<exists>t1. (case r of Note himo key slot hlc \<Rightarrow> map_option fst (apply_note himo key slot hlc t) | Forget slot \<Rightarrow> Some (fst (remove_slot slot t))) = Some t1 \<and>
    pk_ok t1 \<and> log_of t1 = log_of t \<and> pk_view t1 = spec_record r (pk_view t) \<and> length (pt_keys t1) \<le> Suc (length (pt_keys t))"
proof (cases r)
  case (Note himo key slot hlc)
  then show ?thesis using apply_note_ok[OF assms(1,2), of key himo slot hlc] assms(3) by auto
next
  case (Forget slot)
  then show ?thesis using remove_slot_ok[OF assms(1), of slot] by simp
qed

lemma load_records:
  assumes "pk_ok t" "fits (length rs) t" "\<forall>r \<in> set rs. rec_ok r" "rest = [] \<or> pk_decode rest = None"
  shows "\<exists>t'. load_from (file_bytes rs @ rest) t n = Some (t', n + length rs, rest \<noteq> []) \<and> pk_ok t' \<and> pk_view t' = replay rs (pk_view t) \<and> log_of t' = log_of t"
  using assms
proof (induction rs arbitrary: t n)
  case Nil
  then show ?case by (subst load_from_step) (auto simp: file_bytes_def replay_def)
next
  case (Cons r rs)
  let ?buf = "file_bytes (r # rs) @ rest"
  have buf: "?buf = rec_bytes r @ file_bytes rs @ rest" by (simp add: file_bytes_def)
  have d: "pk_decode ?buf = Some (r, length (rec_bytes r))" using Cons.prems(3) unfolding buf by (intro pk_decode_bytes) simp
  have f: "fits 1 t" using Cons.prems(2) by (rule fits_less) simp
  obtain t1 where t1: "(case r of Note himo key slot hlc \<Rightarrow> map_option fst (apply_note himo key slot hlc t) | Forget slot \<Rightarrow> Some (fst (remove_slot slot t))) = Some t1"
    "pk_ok t1" "log_of t1 = log_of t" "pk_view t1 = spec_record r (pk_view t)" "length (pt_keys t1) \<le> Suc (length (pt_keys t))"
    using record_applied[OF Cons.prems(1) f] Cons.prems(3) by auto
  have "\<exists>t'. load_from (file_bytes rs @ rest) t1 (n + 1) = Some (t', n + 1 + length rs, rest \<noteq> []) \<and> pk_ok t' \<and> pk_view t' = replay rs (pk_view t1) \<and> log_of t' = log_of t1"
    by (rule Cons.IH[OF t1(2) fits_less[OF Cons.prems(2)]]) (use Cons.prems t1(5) in auto)
  moreover have "load_from ?buf t n = load_from (file_bytes rs @ rest) t1 (n + 1)"
    using pk_decode_length[OF d] unfolding load_from_step[of ?buf] d by (simp add: t1(1) buf)
  ultimately show ?case using t1(3,4) by (simp add: replay_def)
qed

lemma decoded_ok: "pk_decode buf = Some (r, n) \<Longrightarrow> rec_ok r"
proof -
  assume "pk_decode buf = Some (r, n)"
  then obtain b where "decode_body buf = Some (r, b)" by (auto simp: pk_decode_def bind_eq_Some_conv split: if_splits)
  then show ?thesis
    by (auto simp: decode_body_def pk_get_def slice_def bind_eq_Some_conv split: if_splits
        intro!: less_le_trans[OF unat_bound])
qed

text \<open>Whatever the bytes of the file, they are the records that are read and a rest that is not a record.\<close>

lemma pk_get_Some: "pk_get a b buf = Some xs \<Longrightarrow> a \<le> b \<Longrightarrow> take b buf = take a buf @ xs \<and> length xs = b - a \<and> b \<le> length buf"
  by (auto simp: pk_get_def slice_def split: if_splits) (metis le_add_diff_inverse take_add)

lemma pk_u32_Some: "pk_u32 off buf = Some w \<Longrightarrow> take (off + 4) buf = take off buf @ to_le_bytes w \<and> off + 4 \<le> length buf"
  using pk_get_Some[of off "off + 4" buf] by (auto simp: pk_u32_def to_le_from_le)

lemma decode_body_inverse:
  assumes "decode_body buf = Some (r, n)"
  shows "take n buf = rec_fields r \<and> n \<le> length buf"
proof (cases "hd buf = 1")
  case True
  then obtain h slot l key w lg p where g: "pk_get 1 3 buf = Some h" "pk_u32 3 buf = Some slot" "pk_u32 7 buf = Some l" "pk_get 11 (11 + unat l) buf = Some key"
    "pk_get (11 + unat l) (11 + unat l + 8) buf = Some w" "pk_u32 (11 + unat l + 8) buf = Some lg" "pk_u32 (11 + unat l + 12) buf = Some p"
    and r: "r = Note (from_le_bytes h) key slot (Hlc (from_le_bytes w) lg p)" "n = 11 + unat l + 16" and ne: "buf \<noteq> []"
    using assms by (auto simp: decode_body_def bind_eq_Some_conv split: if_splits)
  have one: "take 1 buf = [1]" using ne True by (cases buf) auto
  have "take 3 buf = [1] @ h" "length h = 2" using pk_get_Some[OF g(1)] one by simp_all
  moreover have "take 7 buf = take 3 buf @ to_le_bytes slot" using pk_u32_Some[OF g(2)] by simp
  moreover have "take 11 buf = take 7 buf @ to_le_bytes l" using pk_u32_Some[OF g(3)] by simp
  moreover have k: "take (11 + unat l) buf = take 11 buf @ key" "length key = unat l" using pk_get_Some[OF g(4)] by simp_all
  moreover have "take (11 + unat l + 8) buf = take (11 + unat l) buf @ w" "length w = 8" using pk_get_Some[OF g(5)] by simp_all
  moreover have "take (11 + unat l + 12) buf = take (11 + unat l + 8) buf @ to_le_bytes lg" using pk_u32_Some[OF g(6)] by (simp add: algebra_simps)
  moreover have "take (11 + unat l + 16) buf = take (11 + unat l + 12) buf @ to_le_bytes p" "n \<le> length buf" using pk_u32_Some[OF g(7)] r(2) by (simp_all add: algebra_simps)
  ultimately have "take n buf = [1] @ h @ to_le_bytes slot @ to_le_bytes l @ key @ w @ to_le_bytes lg @ to_le_bytes p" unfolding r(2) by simp
  moreover have "word_of_nat (length key) = l" using k(2) by simp
  ultimately show ?thesis using \<open>n \<le> length buf\<close> \<open>length h = 2\<close> \<open>length w = 8\<close> r(1) by (simp add: note_fields_def to_le_from_le)
next
  case False
  then obtain slot where g: "pk_u32 1 buf = Some slot" "r = Forget slot" "n = 5" and b: "buf \<noteq> []" "hd buf = 2"
    using assms by (auto simp: decode_body_def split: if_splits)
  have "take 1 buf = [2]" using b by (cases buf) auto
  then show ?thesis using pk_u32_Some[OF g(1)] g(2,3) by (simp add: forget_fields_def)
qed

lemma pk_decode_inverse: "pk_decode buf = Some (r, n) \<Longrightarrow> take n buf = rec_bytes r \<and> n \<le> length buf"
proof -
  assume "pk_decode buf = Some (r, n)"
  then obtain b c where b: "decode_body buf = Some (r, b)" "pk_u32 b buf = Some c" "c = fnv1a (take b buf)" "n = b + 4"
    by (auto simp: pk_decode_def bind_eq_Some_conv split: if_splits)
  then show ?thesis using decode_body_inverse[OF b(1)] pk_u32_Some[OF b(2)] by (simp add: rec_bytes_fields)
qed

text \<open>The interface of a file of records: the decoder returns what the encoder wrote, nothing for a part of it, and nothing else.\<close>

locale record_log =
  fixes ok :: "'r \<Rightarrow> bool" and enc :: "'r \<Rightarrow> bytes" and dec :: "bytes \<Rightarrow> ('r \<times> nat) option"
  assumes dec_enc: "ok r \<Longrightarrow> dec (enc r @ rest) = Some (r, length (enc r))"
    and dec_short: "ok r \<Longrightarrow> m < length (enc r) \<Longrightarrow> dec (take m (enc r)) = None"
    and dec_inverse: "dec buf = Some (r, n) \<Longrightarrow> take n buf = enc r \<and> 0 < n \<and> buf \<noteq> [] \<and> ok r"
begin

lemma parse: "\<exists>rs rest. buf = concat (map enc rs) @ rest \<and> (\<forall>r \<in> set rs. ok r) \<and> (rest = [] \<or> dec rest = None)"
proof (induction "length buf" arbitrary: buf rule: less_induct)
  case less
  show ?case
  proof (cases "buf = [] \<or> dec buf = None")
    case True
    then show ?thesis by (intro exI[of _ "[]"] exI[of _ buf]) simp
  next
    case False
    then obtain r k where d: "dec buf = Some (r, k)" by force
    have "length (drop k buf) < length buf" using dec_inverse[OF d] by simp
    from less[OF this] obtain rs rest where i: "drop k buf = concat (map enc rs) @ rest" "\<forall>r \<in> set rs. ok r" "rest = [] \<or> dec rest = None" by blast
    have "buf = concat (map enc (r # rs)) @ rest" using dec_inverse[OF d] i(1) append_take_drop_id[of k buf] by simp
    then show ?thesis using i(2,3) dec_inverse[OF d] by (intro exI[of _ "r # rs"] exI[of _ rest]) simp
  qed
qed

lemma cut:
  "\<forall>r \<in> set ps. ok r \<Longrightarrow> \<exists>m rest. take k (concat (map enc ps)) = concat (map enc (take m ps)) @ rest \<and> m \<le> length ps \<and> (rest = [] \<or> dec rest = None) \<and>
    length (concat (map enc (take m ps))) \<le> k \<and> (m < length ps \<longrightarrow> k < length (concat (map enc (take (Suc m) ps))))"
proof (induction ps arbitrary: k)
  case (Cons r ps)
  let ?n = "length (enc r)"
  show ?case
  proof (cases "k < ?n")
    case True
    then show ?thesis using dec_short[of r k] Cons.prems by (intro exI[of _ 0] exI[of _ "take k (enc r)"]) simp
  next
    case False
    obtain m rest where i: "take (k - ?n) (concat (map enc ps)) = concat (map enc (take m ps)) @ rest" "m \<le> length ps" "rest = [] \<or> dec rest = None"
      "length (concat (map enc (take m ps))) \<le> k - ?n" "m < length ps \<longrightarrow> k - ?n < length (concat (map enc (take (Suc m) ps)))"
      using Cons.IH[of "k - ?n"] Cons.prems by auto
    have "length (concat (map enc (take (Suc m) (r # ps)))) \<le> k" using i(4) False by simp
    moreover have "Suc m < length (r # ps) \<longrightarrow> k < length (concat (map enc (take (Suc (Suc m)) (r # ps))))" using i(5) False by auto
    moreover have "take k (concat (map enc (r # ps))) = concat (map enc (take (Suc m) (r # ps))) @ rest" using i(1) False by simp
    ultimately show ?thesis using i(2,3) by (intro exI[of _ "Suc m"] exI[of _ rest]) (simp del: take_Suc_Cons)
  qed
qed auto

end

interpretation pkf: record_log rec_ok rec_bytes pk_decode
  by unfold_locales (auto intro: pk_decode_bytes pk_decode_short decoded_ok dest: pk_decode_inverse pk_decode_length)

lemmas parse_bytes = pkf.parse[folded file_bytes_def]

lemmas cut_records = pkf.cut[folded file_bytes_def]

section \<open>The rewritten file\<close>

definition notes_of :: "pk_record list \<Rightarrow> (u16 \<times> bytes) set" where
  "notes_of rs = {(himo, key) | himo key slot hlc. Note himo key slot hlc \<in> set rs}"

lemma replay_notes:
  assumes "\<And>r. r \<in> set rs \<Longrightarrow> \<exists>himo key slot. r = Note himo key slot (c (himo, key))"
  shows "fst (replay rs (Map.empty, Map.empty)) k = (if k \<in> notes_of rs then Some (c k) else None)"
  using assms
proof (induction rs arbitrary: k rule: rev_induct)
  case (snoc r rs)
  obtain himo key slot where r: "r = Note himo key slot (c (himo, key))" using snoc.prems[of r] by auto
  have "fst (replay rs (Map.empty, Map.empty)) k = (if k \<in> notes_of rs then Some (c k) else None)" for k using snoc by auto
  moreover obtain T S where "replay rs (Map.empty, Map.empty) = (T, S)" by fastforce
  ultimately show ?case unfolding replay_def by (auto simp: r notes_of_def split: option.splits)
qed (simp add: replay_def notes_of_def)

definition slot_of :: "pk_record \<Rightarrow> u32 option" where
  "slot_of r = (case r of Note himo key slot hlc \<Rightarrow> if slot = NO_PK_SLOT then None else Some slot | Forget slot \<Rightarrow> None)"

lemma replay_slots:
  assumes "\<And>r. r \<in> set rs \<Longrightarrow> \<exists>himo key slot hlc. r = Note himo key slot hlc"
    "\<And>himo key hlc himo' key' hlc' slot. Note himo key slot hlc \<in> set rs \<Longrightarrow> Note himo' key' slot hlc' \<in> set rs \<Longrightarrow> slot \<noteq> NO_PK_SLOT \<Longrightarrow> himo' = himo \<and> key' = key"
  shows "snd (replay rs (Map.empty, Map.empty)) slot = Some (himo, key) \<longleftrightarrow> slot \<noteq> NO_PK_SLOT \<and> (\<exists>hlc. Note himo key slot hlc \<in> set rs)"
  using assms
proof (induction rs arbitrary: slot himo key rule: rev_induct)
  case (snoc r rs)
  obtain h k s c where r: "r = Note h k s c" using snoc.prems(1)[of r] by auto
  have i: "snd (replay rs (Map.empty, Map.empty)) slot = Some (himo, key) \<longleftrightarrow> slot \<noteq> NO_PK_SLOT \<and> (\<exists>hlc. Note himo key slot hlc \<in> set rs)" for slot himo key
  proof (rule snoc.IH)
    show "\<exists>himo key slot hlc. x = Note himo key slot hlc" if "x \<in> set rs" for x using snoc.prems(1)[of x] that by simp
    show "b = a \<and> l = k" if "Note a k s c \<in> set rs" "Note b l s d \<in> set rs" "s \<noteq> NO_PK_SLOT" for a k c b l d s
      using snoc.prems(2)[of a k s c b l d] that by simp
  qed
  obtain T S where V: "replay rs (Map.empty, Map.empty) = (T, S)" by fastforce
  have "replay (rs @ [r]) (Map.empty, Map.empty) = spec_record r (T, S)" using V by (simp add: replay_def)
  then show ?case using i[of slot himo key] V snoc.prems(2)[of himo key slot _ h k c] by (cases "slot = s") (auto simp: r)
qed (simp add: replay_def)

definition homes :: "pk_tombs \<Rightarrow> nat \<Rightarrow> u32 list" where
  "homes t i = (if slots_of (word_of_nat i) t = [] then [NO_PK_SLOT] else slots_of (word_of_nat i) t)"

lemma set_live_records:
  "r \<in> set (live_records t) \<longleftrightarrow> (\<exists>i < length (pt_keys t). \<exists>slot \<in> set (homes t i).
     r = Note (fst (tombs_keys t ! i)) (snd (tombs_keys t ! i)) slot (key_hlc (pt_keys t ! i)))"
proof -
  have "live_records t = concat (map (\<lambda>i. map (\<lambda>slot. Note (pk_himo (pt_keys t ! i)) (key_bytes t (pt_keys t ! i)) slot (key_hlc (pt_keys t ! i))) (homes t i))
     (sort_key (\<lambda>i. (pk_himo (pt_keys t ! i), key_bytes t (pt_keys t ! i))) [0..<length (pt_keys t)]))"
    unfolding live_records_def homes_def Let_def by (intro arg_cong[where f = concat] map_cong) simp_all
  then show ?thesis by (fastforce simp: tombs_keys_nth)
qed

lemma set_slots_of: "slot \<in> set (slots_of num t) \<longleftrightarrow> (slot, num) \<in> set (pt_by_slot t)"
  by (force simp: slots_of_def)

lemma set_homes: "slot \<noteq> NO_PK_SLOT \<Longrightarrow> slot \<in> set (homes t i) \<longleftrightarrow> (slot, word_of_nat i) \<in> set (pt_by_slot t)"
  by (auto simp: homes_def set_slots_of[symmetric])

lemma homes_nonempty: "\<exists>slot. slot \<in> set (homes t i)"
  by (cases "homes t i") (auto simp: homes_def split: if_splits)

lemma replay_live_records:
  assumes ok: "pk_ok t"
  shows "replay (live_records t) (Map.empty, Map.empty) = pk_view t"
proof -
  let ?rs = "live_records t" and ?n = "length (pt_keys t)"
  have num: "unat (word_of_nat i :: u32) = i" if "i < ?n" for i using that keys_bound[OF ok] by (simp add: unat_of_nat)
  have dist: "distinct (map fst (pt_by_slot t))" and bs: "\<And>slot m. (slot, m) \<in> set (pt_by_slot t) \<Longrightarrow> slot \<noteq> NO_PK_SLOT \<and> unat m < ?n"
    using ok by (auto simp: pk_ok_def)
  have rec: "\<exists>himo key slot. r = Note himo key slot (the (tomb_map t (himo, key)))" if r: "r \<in> set ?rs" for r
  proof -
    obtain i slot where i: "i < ?n" "r = Note (fst (tombs_keys t ! i)) (snd (tombs_keys t ! i)) slot (key_hlc (pt_keys t ! i))"
      using r unfolding set_live_records by blast
    then show ?thesis using tomb_map_nth[OF ok i(1) refl] by simp
  qed
  have keys: "notes_of ?rs = set (tombs_keys t)"
  proof (intro set_eqI iffI)
    fix x assume "x \<in> set (tombs_keys t)"
    then obtain i where i: "i < ?n" "tombs_keys t ! i = x" by (auto simp: in_set_conv_nth)
    obtain slot where "slot \<in> set (homes t i)" using homes_nonempty by blast
    then have "Note (fst x) (snd x) slot (key_hlc (pt_keys t ! i)) \<in> set ?rs" unfolding set_live_records using i by blast
    then show "x \<in> notes_of ?rs" unfolding notes_of_def by (cases x) auto
  qed (auto simp: notes_of_def set_live_records)
  have T: "fst (replay ?rs (Map.empty, Map.empty)) k = tomb_map t k" for k
    using replay_notes[of ?rs "\<lambda>k. the (tomb_map t k)" k, OF rec] keys tomb_map_None[of t k] by (cases "tomb_map t k") auto
  have sl: "slot \<noteq> NO_PK_SLOT \<and> Note himo key slot hlc \<in> set ?rs \<longleftrightarrow>
      (\<exists>m. (slot, m) \<in> set (pt_by_slot t) \<and> tombs_keys t ! unat m = (himo, key) \<and> key_hlc (pt_keys t ! unat m) = hlc)" (is "?l \<longleftrightarrow> ?r")
    for himo key slot hlc
  proof
    assume ?l
    then obtain i where i: "i < ?n" "slot \<in> set (homes t i)" "himo = fst (tombs_keys t ! i)" "key = snd (tombs_keys t ! i)" "hlc = key_hlc (pt_keys t ! i)"
      unfolding set_live_records by auto
    show ?r using set_homes[of slot t i] \<open>?l\<close> i num[OF i(1)] by (intro exI[of _ "word_of_nat i"]) simp
  next
    assume ?r
    then obtain m where m: "(slot, m) \<in> set (pt_by_slot t)" "tombs_keys t ! unat m = (himo, key)" "key_hlc (pt_keys t ! unat m) = hlc" by blast
    then have "slot \<in> set (homes t (unat m))" using bs[OF m(1)] by (simp add: set_homes)
    then show ?l using m bs[OF m(1)] unfolding set_live_records by force
  qed
  have "snd (replay ?rs (Map.empty, Map.empty)) slot = Some (himo, key) \<longleftrightarrow> snd (pk_view t) slot = Some (himo, key)" for slot himo key
  proof -
    have "snd (replay ?rs (Map.empty, Map.empty)) slot = Some (himo, key) \<longleftrightarrow> slot \<noteq> NO_PK_SLOT \<and> (\<exists>hlc. Note himo key slot hlc \<in> set ?rs)"
    proof (rule replay_slots)
      show "\<exists>himo key slot hlc. r = Note himo key slot hlc" if "r \<in> set ?rs" for r using rec[OF that] by blast
      show "b = a \<and> l = k" if n: "Note a k s c \<in> set ?rs" "Note b l s d \<in> set ?rs" "s \<noteq> NO_PK_SLOT" for a k c b l d s
      proof -
        obtain m m' where "(s, m) \<in> set (pt_by_slot t)" "tombs_keys t ! unat m = (a, k)" "(s, m') \<in> set (pt_by_slot t)" "tombs_keys t ! unat m' = (b, l)"
          using sl[of s a k c] sl[of s b l d] n by blast
        then show ?thesis using eq_key_imp_eq_value[OF dist] by fastforce
      qed
    qed
    also have "\<dots> \<longleftrightarrow> (\<exists>m. (slot, m) \<in> set (pt_by_slot t) \<and> tombs_keys t ! unat m = (himo, key))" using sl[of slot himo key] by blast
    also have "\<dots> \<longleftrightarrow> snd (pk_view t) slot = Some (himo, key)" using map_of_eq_Some_iff[OF dist] by (auto simp: pk_view_def)
    finally show ?thesis .
  qed
  then have "snd (replay ?rs (Map.empty, Map.empty)) slot = snd (pk_view t) slot" for slot
    by (metis not_None_eq surj_pair)
  then show ?thesis using T by (intro prod_eqI) (auto simp: pk_view_def)
qed

end
