(* ===== verification/Pk_Bloom.thy ===== *)
theory Pk_Bloom
  imports Pk_File
begin

text \<open>The bit table has no false negatives: a key that is remembered always passes it.\<close>

definition has_spot :: "u64 list \<Rightarrow> u16 \<times> bytes \<Rightarrow> bool" where
  "has_spot words hk = (let (w, m) = bloom_spot (length words) (key_hash (fst hk) (snd hk)) in words ! w AND m = m)"

definition bloom_ok :: "pk_tombs \<Rightarrow> pk_bloom \<Rightarrow> bool" where
  "bloom_ok t b \<longleftrightarrow> length (bl_tables b) = BLOOM_LEVELS \<and> bl_level b \<le> BLOOM_LEVELS \<and>
     (\<forall>j < BLOOM_LEVELS. bl_level b \<le> j \<longrightarrow> bl_tables b ! j = None) \<and>
     (if bl_level b = 0 then pt_keys t = []
      else \<exists>words. bl_tables b ! (bl_level b - 1) = Some words \<and> (\<exists>p. length words = 2 ^ p) \<and> (\<forall>hk \<in> set (tombs_keys t). has_spot words hk))"

lemma bloom_maybe_ok: "bloom_ok t b \<Longrightarrow> (himo, key) \<in> set (tombs_keys t) \<Longrightarrow> bloom_maybe himo key b"
  by (auto simp: bloom_ok_def bloom_maybe_def has_spot_def tombs_keys_def split: if_splits)

lemma spot_bound: "length words = 2 ^ p \<Longrightarrow> fst (bloom_spot (length words) h) < length words"
  using mask_mod[of "unat (drop_bit 32 h)" p] by (simp add: bloom_spot_def)

lemma or_keeps: "(x :: u64) AND m = m \<Longrightarrow> (x OR y) AND m = m"
  by (simp add: bit.conj_disj_distrib2)

lemma set_spot_has:
  assumes "length words = 2 ^ p"
  shows "has_spot (set_spot hk words) hk" "has_spot words hk' \<Longrightarrow> has_spot (set_spot hk words) hk'" "length (set_spot hk words) = length words"
proof -
  obtain w m where w: "bloom_spot (length words) (key_hash (fst hk) (snd hk)) = (w, m)" by fastforce
  obtain w' m' where w': "bloom_spot (length words) (key_hash (fst hk') (snd hk')) = (w', m')" by fastforce
  have "w < length words" using spot_bound[OF assms, of "key_hash (fst hk) (snd hk)"] w by simp
  then show "has_spot (set_spot hk words) hk" using w by (simp add: has_spot_def set_spot_def bit.conj_disj_distrib2 and.commute)
  show "has_spot (set_spot hk words) hk'" if "has_spot words hk'"
    using that w w' or_keeps \<open>w < length words\<close> by (cases "w = w'") (auto simp: has_spot_def set_spot_def)
  show "length (set_spot hk words) = length words" by (simp add: set_spot_def split_def Let_def)
qed

lemma set_spots_have:
  assumes "length words = 2 ^ p"
  shows "length (fold set_spot hks words) = length words \<and> (\<forall>hk \<in> set hks. has_spot (fold set_spot hks words) hk) \<and>
    (\<forall>hk. has_spot words hk \<longrightarrow> has_spot (fold set_spot hks words) hk)"
  using assms
proof (induction hks arbitrary: words)
  case (Cons hk hks)
  note s = set_spot_has[OF Cons.prems]
  have "length (set_spot hk words) = 2 ^ p" using s(3)[of hk] Cons.prems by simp
  note i = Cons.IH[OF this]
  show ?case using i s(1)[of hk] s(2)[of _ hk] s(3)[of hk] by (simp del: split_paired_All)
qed simp

lemma level_for_pos: "0 < level_for n" "level_for n \<le> BLOOM_LEVELS"
  by (simp_all add: level_for_def)

lemma words_of_level: "0 < w \<Longrightarrow> (2 :: nat) ^ (BLOOM_MIN_LOG2 + w - 1) div 64 = 2 ^ (12 + w)"
proof -
  assume w: "0 < w"
  have "(2 :: nat) ^ (BLOOM_MIN_LOG2 + w - 1) = 2 ^ 6 * 2 ^ (12 + w)" using w by (simp only: power_add[symmetric]) simp
  then show ?thesis by simp
qed

lemma bloom_fit_ok:
  assumes b: "bloom_ok t0 b"
  shows "bloom_fit t b = (b, False) \<or> bloom_ok t (fst (bloom_fit t b)) \<and> snd (bloom_fit t b)"
proof (cases "length (pt_keys t) = 0 \<or> level_for (length (pt_keys t)) \<le> bl_level b")
  case False
  let ?w = "level_for (length (pt_keys t))"
  let ?words = "fold set_spot (tombs_keys t) (replicate (2 ^ (BLOOM_MIN_LOG2 + ?w - 1) div 64) 0)"
  note lv = level_for_pos[of "length (pt_keys t)"]
  have none: "bl_tables b ! (?w - 1) = None" "length (bl_tables b) = BLOOM_LEVELS" 
  proof -
    have "?w - 1 < BLOOM_LEVELS" "bl_level b \<le> ?w - 1" using False lv by linarith+
    then show "bl_tables b ! (?w - 1) = None" using b by (simp add: bloom_ok_def)
  qed (use b in \<open>simp add: bloom_ok_def\<close>)
  have len: "length (replicate (2 ^ (BLOOM_MIN_LOG2 + ?w - 1) div 64) (0 :: u64)) = 2 ^ (12 + ?w)" using words_of_level[OF lv(1)] by simp
  have fit: "bloom_fit t b = (\<lparr>bl_level = ?w, bl_tables = (bl_tables b)[?w - 1 := Some ?words]\<rparr>, True)"
    using False none by (simp add: bloom_fit_def Let_def)
  have "bl_tables b ! j = None" if "j < BLOOM_LEVELS" "?w \<le> j" for j using that b False by (simp add: bloom_ok_def)
  then have "bloom_ok t (fst (bloom_fit t b))"
    using lv none(2) set_spots_have[OF len, of "tombs_keys t"] len unfolding fit bloom_ok_def by auto
  then show ?thesis by (simp add: fit)
qed (simp add: bloom_fit_def Let_def)

lemma bloom_add_ok:
  assumes b: "bloom_ok t0 b" and k: "set (tombs_keys t) \<subseteq> insert (himo, key) (set (tombs_keys t0))" and ne: "pt_keys t \<noteq> []"
  shows "bloom_ok t (bloom_add t himo key b)"
  using bloom_fit_ok[OF b, of t]
proof
  assume f: "bloom_fit t b = (b, False)"
  have lv: "bl_level b \<noteq> 0" using f ne level_for_pos(1)[of "length (pt_keys t)"] by (auto simp: bloom_fit_def Let_def split: if_splits)
  then obtain words p where w: "bl_tables b ! (bl_level b - 1) = Some words" "length words = 2 ^ p" "\<forall>hk \<in> set (tombs_keys t0). has_spot words hk"
    using b by (auto simp: bloom_ok_def)
  note s = set_spot_has[OF w(2), of "(himo, key)"]
  have "has_spot (set_spot (himo, key) words) hk" if "hk \<in> set (tombs_keys t)" for hk
    using that k w(3) s(1) set_spot_has(2)[OF w(2), of hk "(himo, key)"] by blast
  then show ?thesis using f lv w b s(3) by (auto simp: bloom_add_def bloom_ok_def nth_list_update)
next
  assume "bloom_ok t (fst (bloom_fit t b)) \<and> snd (bloom_fit t b)"
  then show ?thesis by (cases "bloom_fit t b") (simp add: bloom_add_def)
qed

lemma bloom_ok_default: "pt_keys t = [] \<Longrightarrow> bloom_ok t bloom_default"
  by (simp add: bloom_ok_def bloom_default_def nth_Cons' numeral_eq_Suc)

lemma bloom_ok_fewer: "bloom_ok t b \<Longrightarrow> set (tombs_keys t') \<subseteq> set (tombs_keys t) \<Longrightarrow> bloom_ok t' b"
proof -
  assume a: "bloom_ok t b" "set (tombs_keys t') \<subseteq> set (tombs_keys t)"
  have "pt_keys t' = []" if "pt_keys t = []" using that a(2) by (simp add: tombs_keys_def)
  moreover have "\<forall>hk \<in> set (tombs_keys t'). has_spot words hk" if "\<forall>hk \<in> set (tombs_keys t). has_spot words hk" for words using that a(2) by blast
  ultimately show ?thesis using a(1) by (auto simp: bloom_ok_def split: if_splits)
qed

lemma bloom_loaded_ok: "bloom_ok t (fst (bloom_fit t bloom_default))"
  using bloom_fit_ok[OF bloom_ok_default[of tombs_default], of t] bloom_ok_default[of t] level_for_pos(1)[of "length (pt_keys t)"]
  by (auto simp: tombs_default_def bloom_fit_def Let_def bloom_default_def split: if_splits)

end
