(* ===== verification/Pk_Store.thy ===== *)
theory Pk_Store
  imports Pk_Bloom Himo_Store
begin

text \<open>
  The memory of deleted primary keys as the engine uses it (\<^verbatim>\<open>crates/enchudb-engine/src/engine.rs\<close>): the
  queue of rows that were deleted but not yet noted, the flags that let readers skip the lock, the bit
  table, and the file beside the database. The dictionary that turns the number of a word into its
  bytes is the argument \<^verbatim>\<open>pe_word\<close>. A persist is one step here; what another thread can do between
  taking the bytes and writing them is in \<^verbatim>\<open>Pk_History\<close>.
\<close>

section \<open>State\<close>

record pk_pending =
  pp_slot :: u32
  pp_himo :: u16
  pp_value :: u64
  pp_hlc :: hlc

datatype pk_value = Local u64 | Text bytes

record pk_env =
  pe_types :: "value_type list"
  pe_word :: "u32 \<Rightarrow> bytes option"
  pe_reclaim :: bool

record pk_side =
  sd_tombs :: pk_tombs
  sd_empty :: bool
  sd_dirty :: bool
  sd_pending :: "pk_pending list"
  sd_nonempty :: bool
  sd_bloom :: pk_bloom
  sd_file :: "bytes option"

definition with_pk_key :: "pk_env \<Rightarrow> u16 \<Rightarrow> pk_value \<Rightarrow> bytes option" where
  "with_pk_key env himo val = (
     if length (pe_types env) \<le> unat himo then None
     else case (pe_types env ! unat himo, val) of
         (Leaf, _) \<Rightarrow> None
       | (Tag, Local v) \<Rightarrow> if v \<le> 0xFFFFFFFF then pe_word env (ucast v) else None
       | (Tag, Text bs) \<Rightarrow> Some bs
       | (_, Local v) \<Rightarrow> Some (to_le_bytes v)
       | (_, Text _) \<Rightarrow> None)"

section \<open>Noting\<close>

definition note_pk_locked :: "u16 \<Rightarrow> bytes \<Rightarrow> u32 \<Rightarrow> hlc \<Rightarrow> pk_side \<Rightarrow> pk_side option" where
  "note_pk_locked himo key slot hlc s = map_option (\<lambda>(t, changed).
     s\<lparr>sd_tombs := t, sd_dirty := sd_dirty s \<or> changed, sd_bloom := bloom_add t himo key (sd_bloom s), sd_empty := False\<rparr>)
     (pk_note himo key slot hlc (sd_tombs s))"

definition note_value :: "pk_env \<Rightarrow> u16 \<Rightarrow> pk_value \<Rightarrow> u32 \<Rightarrow> hlc \<Rightarrow> pk_side \<Rightarrow> pk_side option" where
  "note_value env himo val slot hlc s = (case with_pk_key env himo val of
     None \<Rightarrow> Some s | Some key \<Rightarrow> note_pk_locked himo key slot hlc s)"

fun drain_items :: "pk_env \<Rightarrow> pk_pending list \<Rightarrow> pk_side \<Rightarrow> pk_side option" where
  "drain_items env [] s = Some s"
| "drain_items env (p # ps) s = Option.bind (note_value env (pp_himo p) (Local (pp_value p)) (pp_slot p) (pp_hlc p) s) (drain_items env ps)"

definition drain_pk_pending :: "pk_env \<Rightarrow> pk_side \<Rightarrow> pk_side option" where
  "drain_pk_pending env s = (if \<not> sd_nonempty s then Some s else drain_items env (sd_pending s) (s\<lparr>sd_nonempty := False, sd_pending := []\<rparr>))"

definition flush_pk_pending :: "pk_env \<Rightarrow> pk_side \<Rightarrow> pk_side option" where
  "flush_pk_pending env s = (if sd_nonempty s then drain_pk_pending env s else Some s)"

definition pk_tombstone_of :: "pk_env \<Rightarrow> u16 \<Rightarrow> pk_value \<Rightarrow> pk_side \<Rightarrow> (pk_side \<times> hlc option) option" where
  "pk_tombstone_of env himo val s = (
     if sd_empty s \<and> \<not> sd_nonempty s then Some (s, None)
     else Option.bind (flush_pk_pending env s) (\<lambda>s1. case with_pk_key env himo val of
         None \<Rightarrow> Some (s1, None)
       | Some key \<Rightarrow> if \<not> bloom_maybe himo key (sd_bloom s1) then Some (s1, None)
                     else map_option (\<lambda>r. (s1, r)) (tomb_of himo key (sd_tombs s1))))"

definition forget_pk_slot :: "pk_env \<Rightarrow> u32 \<Rightarrow> pk_side \<Rightarrow> pk_side option" where
  "forget_pk_slot env loc s = (
     if sd_empty s \<and> \<not> sd_nonempty s then Some s
     else map_option (\<lambda>s1. let (t, changed) = pk_forget_slot loc (sd_tombs s1) in s1\<lparr>sd_tombs := t, sd_dirty := sd_dirty s1 \<or> changed\<rparr>) (drain_pk_pending env s))"

definition forget_deletes_before :: "pk_env \<Rightarrow> hlc \<Rightarrow> pk_side \<Rightarrow> (pk_side \<times> nat) option" where
  "forget_deletes_before env h s = (
     if sd_empty s \<and> \<not> sd_nonempty s then Some (s, 0)
     else Option.bind (drain_pk_pending env s) (\<lambda>s1.
       map_option (\<lambda>(t, n). (s1\<lparr>sd_tombs := t, sd_dirty := sd_dirty s1 \<or> n > 0\<rparr>, n)) (forget_before h (sd_tombs s1))))"

text \<open>A row of a table with a primary key is deleted; \<^verbatim>\<open>val\<close> is the cell of its key, if it has one.\<close>

definition remember_pk_tombstone :: "pk_env \<Rightarrow> u16 \<Rightarrow> u64 option \<Rightarrow> u32 \<Rightarrow> hlc \<Rightarrow> pk_side \<Rightarrow> pk_side option" where
  "remember_pk_tombstone env pk val loc hlc s = (
     case val of
       Some v \<Rightarrow>
         if \<not> (pe_reclaim env \<and> unat pk < length (pe_types env) \<and> pe_types env ! unat pk = Tag)
         then Some (s\<lparr>sd_pending := sd_pending s @ [\<lparr>pp_slot = loc, pp_himo = pk, pp_value = v, pp_hlc = hlc\<rparr>], sd_nonempty := True\<rparr>)
         else Option.bind (drain_pk_pending env s) (note_value env pk (Local v) loc hlc)
     | None \<Rightarrow>
         if sd_empty s \<and> \<not> sd_nonempty s then Some s
         else Option.bind (drain_pk_pending env s) (\<lambda>s1. case key_of_slot loc (sd_tombs s1) of
             None \<Rightarrow> Some s1 | Some (h, key) \<Rightarrow> note_pk_locked h key loc hlc s1))"

section \<open>The file\<close>

text \<open>What a write leaves in the file: a rewrite replaces it as a whole, an append can stop after any number of bytes.\<close>

datatype write_outcome = Written | Failed nat

fun write_job :: "persist \<Rightarrow> write_outcome \<Rightarrow> bytes option \<Rightarrow> bytes option" where
  "write_job (Rewrite bs _) Written file = Some bs"
| "write_job (Rewrite bs _) (Failed _) file = file"
| "write_job (Append bs _) Written file = map_option (\<lambda>f. f @ bs) file"
| "write_job (Append bs _) (Failed n) file = map_option (\<lambda>f. f @ take n bs) file"

definition persist_pk_tombs_if_dirty :: "pk_env \<Rightarrow> write_outcome \<Rightarrow> pk_side \<Rightarrow> (pk_side \<times> bool) option" where
  "persist_pk_tombs_if_dirty env out s = map_option (\<lambda>s1.
     if \<not> sd_dirty s1 then (s1, True)
     else case take_for_persist (sd_tombs s1) of
         (t, None) \<Rightarrow> (s1\<lparr>sd_tombs := t, sd_dirty := False\<rparr>, True)
       | (t, Some job) \<Rightarrow>
           let s2 = s1\<lparr>sd_file := write_job job out (sd_file s1)\<rparr>
           in if out = Written then (s2\<lparr>sd_tombs := persisted job t, sd_dirty := False\<rparr>, True)
              else (s2\<lparr>sd_tombs := persist_failed t, sd_dirty := True\<rparr>, False)) (flush_pk_pending env s)"

definition side_fresh :: pk_side where
  "side_fresh = \<lparr>sd_tombs = tombs_default, sd_empty = True, sd_dirty = False, sd_pending = [], sd_nonempty = False, sd_bloom = bloom_default, sd_file = None\<rparr>"

text \<open>Opening a database: a file that cannot be read is left, and the memory starts empty.\<close>

definition open_pktombs :: "bytes option \<Rightarrow> pk_side option" where
  "open_pktombs file = (
     let s = side_fresh\<lparr>sd_file := file\<rparr>
     in case file of
         None \<Rightarrow> Some s
       | Some buf \<Rightarrow> map_option (\<lambda>r. case r of
             Inl _ \<Rightarrow> s
           | Inr (loaded, torn) \<Rightarrow> s\<lparr>sd_empty := tombs_is_empty loaded, sd_bloom := fst (bloom_fit loaded (sd_bloom s)), sd_tombs := loaded, sd_dirty := torn\<rparr>) (pk_load buf))"

end
