(* ===== verification/Pk_History.thy ===== *)
theory Pk_History
  imports Pk_Store
begin

text \<open>
  Whole histories of the memory of deleted primary keys. Every lookup ends and returns what the abstract
  maps hold, the bit table and the flags never hide a key, and the file gives the maps back after a
  persist, after a failed one and after a cut.
\<close>

section \<open>Invariants\<close>

abbreviation empty_view :: pk_view where
  "empty_view \<equiv> (Map.empty, Map.empty)"

definition env_ok :: "pk_env \<Rightarrow> bool" where
  "env_ok env \<longleftrightarrow> (\<forall>w bs. pe_word env w = Some bs \<longrightarrow> length bs < 2 ^ 32)"

definition file_ok :: "bytes option \<Rightarrow> pk_tombs \<Rightarrow> bool" where
  "file_ok file t \<longleftrightarrow> (case pt_in_file t of None \<Rightarrow> True | Some n \<Rightarrow>
     \<exists>rs ps. file = Some (PK_HEADER @ file_bytes rs) \<and> (\<forall>r \<in> set (rs @ ps). rec_ok r) \<and> length rs = n \<and>
       pt_pending t = file_bytes ps \<and> length ps = pt_pending_records t \<and> replay (rs @ ps) empty_view = pk_view t)"

definition unreadable :: "bytes option \<Rightarrow> bool" where
  "unreadable file \<longleftrightarrow> (case file of None \<Rightarrow> True | Some buf \<Rightarrow> \<exists>e. pk_load buf = Some (Inl e))"

definition clean :: "bytes option \<Rightarrow> pk_tombs \<Rightarrow> bool" where
  "clean file t \<longleftrightarrow> pt_pending_records t = 0 \<and> (pt_in_file t \<noteq> None \<or> unreadable file \<and> pk_view t = empty_view)"

definition side_ok :: "pk_side \<Rightarrow> bool" where
  "side_ok s \<longleftrightarrow> pk_ok (sd_tombs s) \<and> (sd_pending s \<noteq> [] \<longrightarrow> sd_nonempty s) \<and> (sd_empty s \<longrightarrow> tombs_is_empty (sd_tombs s)) \<and>
     bloom_ok (sd_tombs s) (sd_bloom s) \<and> file_ok (sd_file s) (sd_tombs s) \<and> (\<not> sd_dirty s \<longrightarrow> clean (sd_file s) (sd_tombs s))"

definition pending_recs :: "pk_env \<Rightarrow> pk_pending list \<Rightarrow> pk_record list" where
  "pending_recs env ps = concat (map (\<lambda>p. case with_pk_key env (pp_himo p) (Local (pp_value p)) of
     None \<Rightarrow> [] | Some key \<Rightarrow> [Note (pp_himo p) key (pp_slot p) (pp_hlc p)]) ps)"

definition side_view :: "pk_env \<Rightarrow> pk_side \<Rightarrow> pk_view" where
  "side_view env s = replay (pending_recs env (sd_pending s)) (pk_view (sd_tombs s))"

definition rooms :: "nat \<Rightarrow> pk_side \<Rightarrow> bool" where
  "rooms n s \<longleftrightarrow> fits (length (sd_pending s) + n) (sd_tombs s)"

lemma pk_view_log [simp]:
  "pk_view (t\<lparr>pt_pending := p\<rparr>) = pk_view t" "pk_view (t\<lparr>pt_pending_records := n\<rparr>) = pk_view t" "pk_view (t\<lparr>pt_in_file := f\<rparr>) = pk_view t"
  by (simp_all add: pk_view_def tomb_map_def)

lemma file_bytes_append: "file_bytes (rs @ [r]) = file_bytes rs @ rec_bytes r"
  by (simp add: file_bytes_def)

lemma file_okI:
  "pt_in_file t = Some (length rs) \<Longrightarrow> file = Some (PK_HEADER @ file_bytes rs) \<Longrightarrow> (\<And>r. r \<in> set rs \<or> r \<in> set ps \<Longrightarrow> rec_ok r) \<Longrightarrow> pt_pending t = file_bytes ps \<Longrightarrow>
    pt_pending_records t = length ps \<Longrightarrow> replay (rs @ ps) empty_view = pk_view t \<Longrightarrow> file_ok file t"
  unfolding file_ok_def by simp (rule exI[of _ rs], simp, rule exI[of _ ps], auto)

text \<open>A record goes to the memory and to the bytes that wait for the file.\<close>

lemma file_ok_record:
  assumes "file_ok file t" "log_of t1 = log_of t" "pk_view t1 = spec_record r (pk_view t)" "rec_ok r"
  shows "file_ok file (t1\<lparr>pt_pending := pt_pending t1 @ rec_bytes r, pt_pending_records := pt_pending_records t1 + 1\<rparr>)"
proof (cases "pt_in_file t")
  case (Some n)
  then obtain rs ps where w: "file = Some (PK_HEADER @ file_bytes rs)" "\<forall>r \<in> set (rs @ ps). rec_ok r" "length rs = n"
    "pt_pending t = file_bytes ps" "length ps = pt_pending_records t" "replay (rs @ ps) empty_view = pk_view t"
    using assms(1) by (auto simp: file_ok_def)
  have "replay (rs @ ps @ [r]) empty_view = pk_view t1" using w(6) assms(3) by (simp add: replay_def)
  then show ?thesis using w assms(2,4) Some by (intro file_okI[of _ rs _ "ps @ [r]"]) (auto simp: log_of_def file_bytes_append)
qed (use assms(2) in \<open>simp add: file_ok_def log_of_def\<close>)

lemma file_ok_same: "file_ok file t \<Longrightarrow> log_of t1 = log_of t \<Longrightarrow> pk_view t1 = pk_view t \<Longrightarrow> file_ok file t1"
  by (auto simp: file_ok_def log_of_def split: option.splits)

lemma clean_same: "clean file t \<Longrightarrow> log_of t1 = log_of t \<Longrightarrow> pk_view t1 = pk_view t \<Longrightarrow> clean file t1"
  by (simp add: clean_def log_of_def)

lemma tombs_keys_view: "pk_ok t \<Longrightarrow> set (tombs_keys t) = dom (fst (pk_view t))"
  using tomb_map_None[of t] by (auto simp: pk_view_def dom_def)

lemma note_pk_locked_ok:
  assumes s: "side_ok s" and f: "fits 1 (sd_tombs s)" and l: "length key < 2 ^ 32"
  shows "\<exists>s'. note_pk_locked himo key slot hlc s = Some s' \<and> side_ok s' \<and> pk_view (sd_tombs s') = spec_record (Note himo key slot hlc) (pk_view (sd_tombs s)) \<and>
    sd_pending s' = sd_pending s \<and> sd_nonempty s' = sd_nonempty s \<and> sd_file s' = sd_file s \<and>
    length (pt_keys (sd_tombs s')) \<le> Suc (length (pt_keys (sd_tombs s)))"
proof -
  let ?t = "sd_tombs s" and ?r = "Note himo key slot hlc"
  have ok: "pk_ok ?t" using s by (simp add: side_ok_def)
  obtain t1 ch where a: "apply_note himo key slot hlc ?t = Some (t1, ch)" "pk_ok t1" "log_of t1 = log_of ?t" "pk_view t1 = spec_record ?r (pk_view ?t)"
    "\<not> ch \<longrightarrow> pk_view t1 = pk_view ?t" "length (pt_keys t1) \<le> Suc (length (pt_keys ?t))" using apply_note_ok[OF ok f l] by blast
  define t2 where "t2 = (if \<not> ch then t1 else t1\<lparr>pt_pending := pt_pending t1 @ rec_bytes ?r, pt_pending_records := pt_pending_records t1 + 1\<rparr>)"
  have n: "pk_note himo key slot hlc ?t = Some (t2, ch)"
    using a(1) by (simp add: pk_note_def t2_def encode_record_app[of _ ?r, simplified])
  have t2: "pk_ok t2" "pk_view t2 = spec_record ?r (pk_view ?t)" "tombs_keys t2 = tombs_keys t1" "pt_keys t2 = pt_keys t1"
    using a(2,4) pk_ok_log(1)[OF a(2)] by (simp_all add: t2_def)
  have fo: "file_ok (sd_file s) t2"
    using s a(3,4,5) l file_ok_record[of "sd_file s" ?t t1 ?r] file_ok_same[of "sd_file s" ?t t1] by (simp add: t2_def side_ok_def)
  have cl: "clean (sd_file s) t2" if "\<not> (sd_dirty s \<or> ch)"
    using that s a(3,5) clean_same[of "sd_file s" ?t t1] by (simp add: t2_def side_ok_def)
  have keys: "set (tombs_keys t2) \<subseteq> insert (himo, key) (set (tombs_keys ?t))" "(himo, key) \<in> set (tombs_keys t2)"
    using tombs_keys_view[OF t2(1)] tombs_keys_view[OF ok] t2(2) by (cases "pk_view ?t", auto)+
  have "pt_keys t2 \<noteq> []" using keys(2) by (auto simp: tombs_keys_def)
  moreover have "bloom_ok ?t (sd_bloom s)" using s by (simp add: side_ok_def)
  ultimately have "bloom_ok t2 (bloom_add t2 himo key (sd_bloom s))" using keys(1) by (intro bloom_add_ok)
  then show ?thesis using n t2 fo cl s a(6) by (simp add: note_pk_locked_def side_ok_def)
qed

lemma with_pk_key_ok: "env_ok env \<Longrightarrow> with_pk_key env himo (Local v) = Some key \<Longrightarrow> length key < 2 ^ 32"
  by (auto simp: with_pk_key_def env_ok_def split: if_splits value_type.splits)

lemma note_value_ok:
  assumes s: "side_ok s" and f: "fits 1 (sd_tombs s)" and k: "\<And>key. with_pk_key env himo val = Some key \<Longrightarrow> length key < 2 ^ 32"
  shows "\<exists>s'. note_value env himo val slot hlc s = Some s' \<and> side_ok s' \<and>
    pk_view (sd_tombs s') = (case with_pk_key env himo val of None \<Rightarrow> pk_view (sd_tombs s) | Some key \<Rightarrow> spec_record (Note himo key slot hlc) (pk_view (sd_tombs s))) \<and>
    sd_pending s' = sd_pending s \<and> sd_nonempty s' = sd_nonempty s \<and> sd_file s' = sd_file s \<and>
    length (pt_keys (sd_tombs s')) \<le> Suc (length (pt_keys (sd_tombs s)))"
  using note_pk_locked_ok[OF s f k] s by (cases "with_pk_key env himo val") (auto simp: note_value_def)

lemma drain_items_ok:
  assumes "side_ok s" "fits (length ps) (sd_tombs s)" "env_ok env"
  shows "\<exists>s'. drain_items env ps s = Some s' \<and> side_ok s' \<and> pk_view (sd_tombs s') = replay (pending_recs env ps) (pk_view (sd_tombs s)) \<and>
    sd_pending s' = sd_pending s \<and> sd_nonempty s' = sd_nonempty s \<and> sd_file s' = sd_file s \<and>
    length (pt_keys (sd_tombs s')) \<le> length ps + length (pt_keys (sd_tombs s))"
  using assms
proof (induction ps arbitrary: s)
  case (Cons p ps)
  let ?k = "with_pk_key env (pp_himo p) (Local (pp_value p))"
  have f: "fits 1 (sd_tombs s)" using Cons.prems(2) by (rule fits_less) simp
  obtain s1 where s1: "note_value env (pp_himo p) (Local (pp_value p)) (pp_slot p) (pp_hlc p) s = Some s1" "side_ok s1"
    "pk_view (sd_tombs s1) = (case ?k of None \<Rightarrow> pk_view (sd_tombs s) | Some key \<Rightarrow> spec_record (Note (pp_himo p) key (pp_slot p) (pp_hlc p)) (pk_view (sd_tombs s)))"
    "sd_pending s1 = sd_pending s" "sd_nonempty s1 = sd_nonempty s" "sd_file s1 = sd_file s" "length (pt_keys (sd_tombs s1)) \<le> Suc (length (pt_keys (sd_tombs s)))"
    using note_value_ok[OF Cons.prems(1) f, of env "pp_himo p" "Local (pp_value p)" "pp_slot p" "pp_hlc p"] with_pk_key_ok[OF Cons.prems(3)] by blast
  have "fits (length ps) (sd_tombs s1)" using Cons.prems(2) by (rule fits_less) (use s1(7) in simp)
  from Cons.IH[OF s1(2) this Cons.prems(3)] show ?case using s1
    by (cases ?k) (auto simp: pending_recs_def replay_def)
qed (simp add: pending_recs_def replay_def)

lemma drain_ok:
  assumes s: "side_ok s" and f: "rooms n s" and e: "env_ok env"
  shows "\<exists>s'. drain_pk_pending env s = Some s' \<and> flush_pk_pending env s = Some s' \<and> side_ok s' \<and> pk_view (sd_tombs s') = side_view env s \<and> side_view env s' = side_view env s \<and>
    sd_pending s' = [] \<and> sd_file s' = sd_file s \<and> rooms n s'"
proof (cases "sd_nonempty s")
  case True
  let ?s = "s\<lparr>sd_nonempty := False, sd_pending := []\<rparr>"
  have s': "side_ok ?s" using s by (simp add: side_ok_def)
  have "fits (length (sd_pending s)) (sd_tombs ?s)" using f by (simp add: rooms_def fits_def)
  from drain_items_ok[OF s' this e] show ?thesis using True f
    by (auto simp: drain_pk_pending_def flush_pk_pending_def side_view_def rooms_def fits_def pending_recs_def replay_def)
next
  case False
  then have "sd_pending s = []" using s by (auto simp: side_ok_def)
  then show ?thesis using False s f by (simp add: drain_pk_pending_def flush_pk_pending_def side_view_def pending_recs_def replay_def)
qed

section \<open>The other operations\<close>

lemma side_view_drained: "sd_pending s = [] \<Longrightarrow> side_view env s = pk_view (sd_tombs s)"
  by (simp add: side_view_def pending_recs_def replay_def)

lemma spec_before_empty: "spec_before h empty_view = empty_view"
  by (simp add: spec_before_def Let_def restrict_map_def fun_eq_iff)

lemma skip_empty: "side_ok s \<Longrightarrow> sd_empty s \<Longrightarrow> \<not> sd_nonempty s \<Longrightarrow> side_view env s = empty_view \<and> sd_pending s = []"
  by (auto simp: side_ok_def tombs_is_empty_def side_view_def pending_recs_def replay_def pk_view_def tomb_map_def tombs_keys_def fun_eq_iff)

lemma pk_tombstone_of_ok:
  assumes s: "side_ok s" and f: "rooms n s" and e: "env_ok env"
  shows "\<exists>s'. pk_tombstone_of env himo val s = Some (s', case with_pk_key env himo val of None \<Rightarrow> None | Some key \<Rightarrow> fst (side_view env s) (himo, key)) \<and>
    side_ok s' \<and> side_view env s' = side_view env s \<and> sd_file s' = sd_file s \<and> rooms n s'"
proof (cases "sd_empty s \<and> \<not> sd_nonempty s")
  case True
  then show ?thesis using skip_empty[OF s, of env] s f by (auto simp: pk_tombstone_of_def split: option.splits)
next
  case False
  obtain s1 where s1: "flush_pk_pending env s = Some s1" "side_ok s1" "pk_view (sd_tombs s1) = side_view env s" "side_view env s1 = side_view env s"
    "sd_file s1 = sd_file s" "rooms n s1" using drain_ok[OF s f e] by blast
  have ok: "pk_ok (sd_tombs s1)" and b: "bloom_ok (sd_tombs s1) (sd_bloom s1)" using s1(2) by (simp_all add: side_ok_def)
  have hid: "fst (side_view env s) (himo, key) = None" if "\<not> bloom_maybe himo key (sd_bloom s1)" for key
    using that bloom_maybe_ok[OF b, of himo key] tombs_keys_view[OF ok] s1(3) by (cases "fst (side_view env s) (himo, key)") auto
  show ?thesis using False s1 hid tomb_of_view[OF ok] by (auto simp: pk_tombstone_of_def split: option.splits)
qed

lemma pk_forget_slot_ok:
  assumes s: "side_ok s" and f: "rooms n s" and e: "env_ok env"
  shows "\<exists>s'. forget_pk_slot env slot s = Some s' \<and> side_ok s' \<and> side_view env s' = spec_record (Forget slot) (side_view env s) \<and> sd_file s' = sd_file s \<and> rooms n s'"
proof (cases "sd_empty s \<and> \<not> sd_nonempty s")
  case True
  then show ?thesis using skip_empty[OF s, of env] s f by (auto simp: forget_pk_slot_def)
next
  case False
  obtain s1 where s1: "drain_pk_pending env s = Some s1" "side_ok s1" "pk_view (sd_tombs s1) = side_view env s" "sd_pending s1 = []"
    "sd_file s1 = sd_file s" "rooms n s1" using drain_ok[OF s f e] by blast
  let ?t = "sd_tombs s1" and ?r = "Forget slot"
  have ok: "pk_ok ?t" using s1(2) by (simp add: side_ok_def)
  obtain t1 ch where r: "remove_slot slot ?t = (t1, ch)" by fastforce
  note o1 = remove_slot_ok[OF ok, of slot, unfolded r fst_conv snd_conv]
  define t2 where "t2 = (if \<not> ch then t1 else t1\<lparr>pt_pending := pt_pending t1 @ rec_bytes ?r, pt_pending_records := pt_pending_records t1 + 1\<rparr>)"
  have n: "pk_forget_slot slot ?t = (t2, ch)" using r by (cases ch) (simp_all add: pk_forget_slot_def t2_def encode_record_app[of _ ?r, simplified])
  have t2: "pk_ok t2" "pk_view t2 = spec_record ?r (pk_view ?t)" "pt_keys t2 = pt_keys ?t" "tombs_keys t2 = tombs_keys ?t"
    using o1(1,2,4,5) pk_ok_log(1)[OF o1(1)] tombs_keys_cong[of t1 ?t] by (simp_all add: t2_def)
  have fo: "file_ok (sd_file s1) t2"
    using s1(2) o1(2,3,6) file_ok_record[of "sd_file s1" ?t t1 ?r] file_ok_same[of "sd_file s1" ?t t1] by (simp add: t2_def side_ok_def)
  have cl: "clean (sd_file s1) t2" if "\<not> (sd_dirty s1 \<or> ch)" using that s1(2) o1(6) by (simp add: t2_def side_ok_def)
  have em: "tombs_is_empty t2" if "tombs_is_empty ?t" using that r o1(4) by (auto simp: t2_def tombs_is_empty_def remove_slot_def split: if_splits)
  have "bloom_ok t2 (sd_bloom s1)" using s1(2) bloom_ok_fewer[of ?t "sd_bloom s1" t2] t2(4) by (simp add: side_ok_def)
  let ?s = "s1\<lparr>sd_tombs := t2, sd_dirty := sd_dirty s1 \<or> ch\<rparr>"
  have "forget_pk_slot env slot s = Some ?s" unfolding forget_pk_slot_def if_not_P[OF False] using n s1(1) by simp
  moreover have "side_ok ?s" using s1(2) t2(1) fo cl em \<open>bloom_ok t2 (sd_bloom s1)\<close> by (simp add: side_ok_def)
  moreover have "side_view env ?s = spec_record ?r (side_view env s)" using s1(3,4) t2(2) by (simp add: side_view_drained)
  ultimately show ?thesis using s1(4-6) t2(3) by (simp add: rooms_def fits_def)
qed

lemma forget_before_empty: "tombs_is_empty t \<Longrightarrow> forget_before h t = Some (t, 0)"
  by (simp add: forget_before_def tombs_is_empty_def)

lemma forget_skip:
  assumes "side_ok s" "sd_empty s" "\<not> sd_nonempty s"
  shows "forget_deletes_before env h s = Some (s, 0)" "spec_before h (side_view env s) = side_view env s"
  using skip_empty[OF assms, of env] assms(2,3) spec_before_empty by (simp_all add: forget_deletes_before_def)

lemma spec_before_dom: "dom (fst (spec_before h V)) \<subseteq> dom (fst V)"
  by (auto simp: spec_before_def Let_def)

lemma forget_deletes_before_ok:
  assumes s: "side_ok s" and f: "rooms n s" and e: "env_ok env"
  shows "\<exists>s' gone. forget_deletes_before env h s = Some (s', gone) \<and> side_ok s' \<and> side_view env s' = spec_before h (side_view env s) \<and> sd_file s' = sd_file s \<and> rooms n s'"
proof (cases "sd_empty s \<and> \<not> sd_nonempty s")
  case True
  then have "forget_deletes_before env h s = Some (s, 0)" "spec_before h (side_view env s) = side_view env s"
    using forget_skip[OF s, where h = h and env = env] by simp_all
  then show ?thesis using s f by simp
next
  case False
  obtain s1 where s1: "drain_pk_pending env s = Some s1" "side_ok s1" "pk_view (sd_tombs s1) = side_view env s" "sd_pending s1 = []"
    "sd_file s1 = sd_file s" "rooms n s1" using drain_ok[OF s f e] by blast
  let ?t = "sd_tombs s1"
  have ok: "pk_ok ?t" using s1(2) by (simp add: side_ok_def)
  obtain t' gone where r: "forget_before h ?t = Some (t', gone)" "pk_ok t'" "pk_view t' = spec_before h (pk_view ?t)"
    "gone = 0 \<and> t' = ?t \<or> 0 < gone \<and> log_of t' = ([], 0, None)" "length (pt_keys t') \<le> length (pt_keys ?t)" using forget_before_ok[OF ok, of h] by blast
  have "set (tombs_keys t') \<subseteq> set (tombs_keys ?t)"
    using spec_before_dom[of h "pk_view ?t"] by (simp only: tombs_keys_view[OF r(2)] tombs_keys_view[OF ok] r(3))
  moreover have "bloom_ok ?t (sd_bloom s1)" using s1(2) by (simp add: side_ok_def)
  ultimately have b: "bloom_ok t' (sd_bloom s1)" by (rule bloom_ok_fewer[rotated])
  have em: "tombs_is_empty t'" if "tombs_is_empty ?t" using that r(1) forget_before_empty[OF that, of h] by simp
  let ?s = "s1\<lparr>sd_tombs := t', sd_dirty := sd_dirty s1 \<or> gone > 0\<rparr>"
  have "file_ok (sd_file s1) t' \<and> (\<not> (sd_dirty s1 \<or> gone > 0) \<longrightarrow> clean (sd_file s1) t')"
  proof (cases "gone = 0")
    case True
    then show ?thesis using r(4) s1(2) by (simp add: side_ok_def)
  next
    case False
    then show ?thesis using r(4) by (simp add: file_ok_def log_of_def)
  qed
  then have "side_ok ?s" using s1(2) r(2) b em by (simp add: side_ok_def)
  moreover have "forget_deletes_before env h s = Some (?s, gone)" unfolding forget_deletes_before_def if_not_P[OF False] using s1(1) r(1) by simp
  moreover have "side_view env ?s = spec_before h (side_view env s)" using s1(3,4) r(3) by (simp add: side_view_drained)
  moreover have "rooms n ?s" using s1(4,6) r(5) by (simp add: rooms_def fits_def)
  moreover have "sd_file ?s = sd_file s" using s1(5) by simp
  ultimately show ?thesis by blast
qed

lemma remember_ok:
  assumes s: "side_ok s" and f: "rooms (Suc n) s" and e: "env_ok env"
  shows "\<exists>s'. remember_pk_tombstone env pk val slot hlc s = Some s' \<and> side_ok s' \<and>
    side_view env s' = (case val of
        Some v \<Rightarrow> (case with_pk_key env pk (Local v) of None \<Rightarrow> side_view env s | Some key \<Rightarrow> spec_record (Note pk key slot hlc) (side_view env s))
      | None \<Rightarrow> (case snd (side_view env s) slot of None \<Rightarrow> side_view env s | Some (h, key) \<Rightarrow> spec_record (Note h key slot hlc) (side_view env s))) \<and>
    sd_file s' = sd_file s \<and> rooms n s'"
proof -
  obtain s1 where s1: "drain_pk_pending env s = Some s1" "side_ok s1" "pk_view (sd_tombs s1) = side_view env s" "sd_pending s1 = []"
    "sd_file s1 = sd_file s" "rooms (Suc n) s1" using drain_ok[OF s f e] by blast
  have f1: "fits 1 (sd_tombs s1)" and ok: "pk_ok (sd_tombs s1)" using s1(2,4,6) by (simp_all add: rooms_def fits_def side_ok_def)
  have noted: ?thesis if q: "remember_pk_tombstone env pk val slot hlc s = note_pk_locked h key slot hlc s1" "length key < 2 ^ 32"
      "(case val of
        Some v \<Rightarrow> (case with_pk_key env pk (Local v) of None \<Rightarrow> side_view env s | Some key \<Rightarrow> spec_record (Note pk key slot hlc) (side_view env s))
      | None \<Rightarrow> (case snd (side_view env s) slot of None \<Rightarrow> side_view env s | Some (h, key) \<Rightarrow> spec_record (Note h key slot hlc) (side_view env s))) =
       spec_record (Note h key slot hlc) (side_view env s)" for h key
  proof -
    note n = note_pk_locked_ok[OF s1(2) f1 q(2), of h slot hlc]
    obtain s2 where s2: "note_pk_locked h key slot hlc s1 = Some s2" "side_ok s2" "pk_view (sd_tombs s2) = spec_record (Note h key slot hlc) (pk_view (sd_tombs s1))"
      "sd_pending s2 = sd_pending s1" "sd_file s2 = sd_file s1" "length (pt_keys (sd_tombs s2)) \<le> Suc (length (pt_keys (sd_tombs s1)))"
      using n by blast
    have "rooms n s2" using s2(4,6) s1(4,6) by (simp add: rooms_def fits_def)
    moreover have "side_view env s2 = spec_record (Note h key slot hlc) (side_view env s)" using s2(3,4) s1(3,4) by (simp add: side_view_drained)
    moreover have "sd_file s2 = sd_file s" using s2(5) s1(5) by simp
    ultimately show ?thesis unfolding q(1,3) using s2(1,2) by blast
  qed
  have less: "rooms n s1" using s1(6) by (simp add: rooms_def fits_def)
  show ?thesis
  proof (cases "val")
    case None
    show ?thesis
    proof (cases "sd_empty s \<and> \<not> sd_nonempty s")
      case True
      then show ?thesis using None skip_empty[OF s, of env] s f by (simp add: remember_pk_tombstone_def rooms_def fits_def)
    next
      case False
      have k: "key_of_slot slot (sd_tombs s1) = snd (side_view env s) slot" using key_of_slot_view[OF ok] s1(3) by simp
      show ?thesis
      proof (cases "snd (side_view env s) slot")
        case (Some hk)
        obtain h key where hk: "hk = (h, key)" by fastforce
        have "length key < 2 ^ 32"
        proof -
          obtain num where "map_of (pt_by_slot (sd_tombs s1)) slot = Some num" "key = key_bytes (sd_tombs s1) (pt_keys (sd_tombs s1) ! unat num)"
            using k Some hk by (auto simp: key_of_slot_def Let_def)
          then show ?thesis using key_bytes_bound by simp
        qed
        then show ?thesis by (rule noted[rotated]) (use None False Some hk k s1(1) in \<open>auto simp: remember_pk_tombstone_def\<close>)
      next
        case none: None
        have "remember_pk_tombstone env pk val slot hlc s = Some s1" using None False none k s1(1) by (auto simp: remember_pk_tombstone_def)
        then show ?thesis using None none s1 less by (simp add: side_view_drained)
      qed
    qed
  next
    case (Some v)
    show ?thesis
    proof (cases "pe_reclaim env \<and> unat pk < length (pe_types env) \<and> pe_types env ! unat pk = Tag")
      case False
      let ?s = "s\<lparr>sd_pending := sd_pending s @ [\<lparr>pp_slot = slot, pp_himo = pk, pp_value = v, pp_hlc = hlc\<rparr>], sd_nonempty := True\<rparr>"
      have "side_view env ?s = (case with_pk_key env pk (Local v) of None \<Rightarrow> side_view env s | Some key \<Rightarrow> spec_record (Note pk key slot hlc) (side_view env s))"
        by (simp add: side_view_def pending_recs_def replay_def split: option.splits)
      moreover have "remember_pk_tombstone env pk val slot hlc s = Some ?s" using Some False by (auto simp: remember_pk_tombstone_def)
      moreover have "side_ok ?s" "rooms n ?s" using s f by (simp_all add: side_ok_def rooms_def fits_def)
      ultimately show ?thesis using Some by simp
    next
      case True
      have r: "remember_pk_tombstone env pk val slot hlc s = note_value env pk (Local v) slot hlc s1" using Some True s1(1) by (simp add: remember_pk_tombstone_def)
      show ?thesis
      proof (cases "with_pk_key env pk (Local v)")
        case None
        then show ?thesis using r Some s1 less by (simp add: note_value_def side_view_drained)
      next
        case (Some key)
        then show ?thesis using r \<open>val = Some v\<close> with_pk_key_ok[OF e Some] by (intro noted[of pk key]) (simp_all add: note_value_def)
      qed
    qed
  qed
qed

section \<open>Writing and opening the file\<close>

lemma live_records_ok: "r \<in> set (live_records t) \<Longrightarrow> rec_ok r"
  unfolding set_live_records using key_bytes_bound[of t] by (auto simp: tombs_keys_nth)

text \<open>Taking the bytes and writing them: the file holds the memory, or a rewrite is due.\<close>

lemma written_ok:
  assumes ok: "pk_ok t" and f: "file_ok file t" and j: "take_for_persist t = (t1, Some job)"
  shows "file_ok (write_job job Written file) (persisted job t1)" "clean (write_job job Written file) (persisted job t1)"
    "pk_ok t1" "pk_view t1 = pk_view t" "pt_keys t1 = pt_keys t" "tombs_keys t1 = tombs_keys t" "pt_by_slot t1 = pt_by_slot t"
proof -
  let ?c = "t\<lparr>pt_pending := [], pt_pending_records := 0\<rparr>"
  have c: "pk_ok ?c" "pk_view ?c = pk_view t" using pk_ok_log(1)[OF ok] by simp_all
  have t1: "t1 = ?c" using j by (auto simp: take_for_persist_def Let_def split: if_splits)
  show "pk_ok t1" "pk_view t1 = pk_view t" "pt_keys t1 = pt_keys t" "tombs_keys t1 = tombs_keys t" "pt_by_slot t1 = pt_by_slot t" using c t1 by simp_all
  have "file_ok (write_job job Written file) (persisted job t1) \<and> clean (write_job job Written file) (persisted job t1)"
  proof (cases job)
    case (Rewrite bs n)
    then have "bs = fst (pk_snapshot ?c)" "n = snd (pk_snapshot ?c)" using j by (auto simp: take_for_persist_def Let_def split: if_splits)
    then have bs: "bs = PK_HEADER @ file_bytes (live_records ?c)" "n = length (live_records ?c)" by (simp_all add: pk_snapshot_def file_bytes_foldl)
    have "file_ok (Some bs) (persisted job t1)"
      by (rule file_okI[of _ "live_records ?c" _ "[]"])
        (use Rewrite bs t1 live_records_ok[of _ ?c] replay_live_records[OF c(1)] in \<open>simp_all add: persisted_def file_bytes_def\<close>)
    then show ?thesis using Rewrite t1 by (simp add: clean_def persisted_def)
  next
    case (Append bs n)
    then have j': "pt_in_file t \<noteq> None" "bs = pt_pending t" "n = pt_pending_records t" using j by (auto simp: take_for_persist_def Let_def split: if_splits option.splits)
    then obtain rs ps where w: "file = Some (PK_HEADER @ file_bytes rs)" "\<forall>r \<in> set (rs @ ps). rec_ok r" "pt_in_file t = Some (length rs)"
      "pt_pending t = file_bytes ps" "length ps = pt_pending_records t" "replay (rs @ ps) empty_view = pk_view t" using f by (auto simp: file_ok_def)
    have "file_ok (Some (PK_HEADER @ file_bytes (rs @ ps))) (persisted job t1)"
      by (rule file_okI[of _ "rs @ ps" _ "[]"]) (use Append j' w t1 in \<open>auto simp: persisted_def file_bytes_def\<close>)
    moreover have "write_job job Written file = Some (PK_HEADER @ file_bytes (rs @ ps))" using Append j'(2) w(1,4) by (simp add: file_bytes_def)
    moreover have "clean file' (persisted job t1)" for file' using Append t1 w(3) by (simp add: clean_def persisted_def)
    ultimately show ?thesis by simp
  qed
  then show "file_ok (write_job job Written file) (persisted job t1)" "clean (write_job job Written file) (persisted job t1)" by simp_all
qed

lemma persist_ok:
  assumes s: "side_ok s" and f: "rooms n s" and e: "env_ok env"
  shows "\<exists>s' done_ok. persist_pk_tombs_if_dirty env out s = Some (s', done_ok) \<and> side_ok s' \<and> side_view env s' = side_view env s \<and> rooms n s' \<and>
    sd_pending s' = [] \<and> (out = Written \<longrightarrow> done_ok \<and> \<not> sd_dirty s')"
proof -
  obtain s1 where s1: "flush_pk_pending env s = Some s1" "side_ok s1" "pk_view (sd_tombs s1) = side_view env s" "sd_pending s1 = []"
    "sd_file s1 = sd_file s" "rooms n s1" using drain_ok[OF s f e] by blast
  let ?t = "sd_tombs s1"
  have ok: "pk_ok ?t" "file_ok (sd_file s1) ?t" "bloom_ok ?t (sd_bloom s1)" "sd_empty s1 \<longrightarrow> tombs_is_empty ?t" using s1(2) by (simp_all add: side_ok_def)
  have v: "side_view env s1 = side_view env s" using s1(3,4) by (simp add: side_view_drained)
  obtain t1 job where tk: "take_for_persist ?t = (t1, job)" by fastforce
  show ?thesis
  proof (cases "sd_dirty s1")
    case False
    then show ?thesis using s1 v by (auto simp: persist_pk_tombs_if_dirty_def)
  next
    case dirty: True
    show ?thesis
    proof (cases job)
      case None
      then have t1: "t1 = ?t" "pt_in_file ?t \<noteq> None" "pt_pending_records ?t = 0"
        using tk by (auto simp: take_for_persist_def Let_def split: if_splits option.splits)
      let ?s = "s1\<lparr>sd_tombs := t1, sd_dirty := False\<rparr>"
      have "persist_pk_tombs_if_dirty env out s = Some (?s, True)" using dirty s1(1) tk None by (simp add: persist_pk_tombs_if_dirty_def)
      moreover have "side_ok ?s" using s1(2) t1 by (simp add: side_ok_def clean_def)
      moreover have "side_view env ?s = side_view env s" "rooms n ?s" "sd_pending ?s = []" using s1(3,4,6) t1(1) by (simp_all add: side_view_drained rooms_def)
      ultimately show ?thesis by auto
    next
      case (Some j)
      note w = written_ok[OF ok(1,2), of t1 j]
      have tk': "take_for_persist ?t = (t1, Some j)" using tk Some by simp
      have log: "pk_view (t1\<lparr>pt_in_file := x\<rparr>) = side_view env s" "pt_keys (t1\<lparr>pt_in_file := x\<rparr>) = pt_keys ?t" "bloom_ok (t1\<lparr>pt_in_file := x\<rparr>) (sd_bloom s1)"
        "sd_empty s1 \<longrightarrow> tombs_is_empty (t1\<lparr>pt_in_file := x\<rparr>)" "pk_ok (t1\<lparr>pt_in_file := x\<rparr>)" for x
        using w(3-7)[OF tk'] s1(3) ok(3,4) bloom_ok_fewer[of ?t "sd_bloom s1" "t1\<lparr>pt_in_file := x\<rparr>"] pk_ok_log(2)
        by (simp_all add: tombs_is_empty_def)
      show ?thesis
      proof (cases "out = Written")
        case True
        let ?s = "s1\<lparr>sd_file := write_job j out (sd_file s1), sd_tombs := persisted j t1, sd_dirty := False\<rparr>"
        have "persist_pk_tombs_if_dirty env out s = Some (?s, True)" using dirty s1(1) tk' True by (simp add: persist_pk_tombs_if_dirty_def Let_def)
        moreover have "side_ok ?s" using s1(2) w(1,2)[OF tk'] log(3-5) True by (simp add: side_ok_def persisted_def)
        moreover have "side_view env ?s = side_view env s" "rooms n ?s" using s1(4,6) log(1,2) by (simp_all add: side_view_drained persisted_def rooms_def fits_def)
        ultimately show ?thesis using s1(4) by auto
      next
        case False
        let ?s = "s1\<lparr>sd_file := write_job j out (sd_file s1), sd_tombs := persist_failed t1, sd_dirty := True\<rparr>"
        have "persist_pk_tombs_if_dirty env out s = Some (?s, False)" using dirty s1(1) tk' False by (simp add: persist_pk_tombs_if_dirty_def Let_def)
        moreover have "side_ok ?s" using s1(2) log(3-5) by (simp add: side_ok_def persist_failed_def file_ok_def)
        moreover have "side_view env ?s = side_view env s" "rooms n ?s" using s1(4,6) log(1,2) by (simp_all add: side_view_drained persist_failed_def rooms_def fits_def)
        ultimately show ?thesis using s1(4) False by auto
      qed
    qed
  qed
qed

lemma pk_load_header: "pk_load (PK_HEADER @ buf) = map_option (\<lambda>(t, records, torn). Inr (t\<lparr>pt_in_file := (if torn then None else Some records)\<rparr>, torn)) (load_from buf tombs_default 0)"
  by (simp add: pk_load_def PK_HEADER_def slice_def)

lemma rec_bytes_length: "0 < length (rec_bytes r)"
  by (simp add: rec_bytes_fields)

lemma file_bytes_length: "length rs \<le> length (file_bytes rs)"
proof (induction rs)
  case (Cons r rs)
  then show ?case using rec_bytes_length[of r] by (cases "rec_bytes r") (simp_all add: file_bytes_def)
qed simp

text \<open>Any bytes: what is read are the records up to the first bytes that are not one.\<close>

lemma pk_load_records:
  assumes "length rs \<le> 0xFFFFFFFF" "\<forall>r \<in> set rs. rec_ok r" "rest = [] \<or> pk_decode rest = None"
  shows "\<exists>t. pk_load (PK_HEADER @ file_bytes rs @ rest) = Some (Inr (t, rest \<noteq> [])) \<and> pk_ok t \<and> pk_view t = replay rs empty_view \<and>
    log_of t = ([], 0, if rest = [] then Some (length rs) else None)"
proof -
  have "fits (length rs) tombs_default" using assms(1) by (simp add: fits_def tombs_default_def)
  from load_records[OF pk_ok_default this assms(2,3), of 0] obtain t where t: "load_from (file_bytes rs @ rest) tombs_default 0 = Some (t, length rs, rest \<noteq> [])"
    "pk_ok t" "pk_view t = replay rs empty_view" "log_of t = log_of tombs_default" by (auto simp: pk_view_default)
  then show ?thesis using pk_ok_log(2)[OF t(2)] by (auto simp: pk_load_header log_of_def tombs_default_def)
qed

lemma pk_load_cases:
  assumes "length buf < 2 ^ 32"
  shows "(\<exists>e. pk_load buf = Some (Inl e)) \<or>
    (\<exists>rs rest. buf = PK_HEADER @ file_bytes rs @ rest \<and> length rs \<le> 0xFFFFFFFF \<and> (\<forall>r \<in> set rs. rec_ok r) \<and> (rest = [] \<or> pk_decode rest = None))"
proof (cases "length buf < 8 \<or> slice 0 4 buf \<noteq> [80, 75, 84, 76] \<or> (from_le_bytes (slice 4 8 buf) :: u32) \<noteq> 1")
  case True
  then show ?thesis by (auto simp: pk_load_def Let_def)
next
  case False
  have "take 8 buf = slice 0 4 buf @ slice 4 8 buf" using take_add[of 4 4 buf] by (simp add: slice_def)
  moreover have "slice 4 8 buf = to_le_bytes (1 :: u32)" 
  proof -
    have "8 \<le> length buf" using False by simp
    then have "length (slice 4 8 buf) = 4" by (simp add: slice_def)
    then show ?thesis using False to_le_from_le[of "slice 4 8 buf", where 'a = 32] by simp
  qed
  ultimately have h: "take 8 buf = PK_HEADER" using False by (simp add: PK_HEADER_def)
  obtain rs rest where p: "drop 8 buf = file_bytes rs @ rest" "\<forall>r \<in> set rs. rec_ok r" "rest = [] \<or> pk_decode rest = None" using parse_bytes by blast
  have b: "buf = PK_HEADER @ file_bytes rs @ rest" using h p(1) append_take_drop_id[of 8 buf] by simp
  then have "length rs \<le> 0xFFFFFFFF" using file_bytes_length[of rs] assms by simp
  then show ?thesis using b p(2,3) by blast
qed

lemma side_ok_opened:
  assumes "pk_ok t" "pk_view t = replay rs empty_view" "log_of t = ([], 0, if torn then None else Some (length rs))"
    "file = Some (PK_HEADER @ file_bytes rs @ rest)" "torn \<longleftrightarrow> rest \<noteq> []" "\<forall>r \<in> set rs. rec_ok r"
  shows "side_ok (side_fresh\<lparr>sd_file := file, sd_empty := tombs_is_empty t, sd_bloom := fst (bloom_fit t bloom_default), sd_tombs := t, sd_dirty := torn\<rparr>)"
proof -
  have "file_ok file t"
  proof (cases torn)
    case False
    then show ?thesis using assms by (intro file_okI[of t rs _ "[]"]) (auto simp: log_of_def file_bytes_def)
  qed (use assms(3) in \<open>simp add: file_ok_def log_of_def\<close>)
  then show ?thesis using assms(1,3) bloom_loaded_ok[of t] by (simp add: side_ok_def side_fresh_def clean_def log_of_def)
qed

lemma side_ok_fresh: "unreadable file \<Longrightarrow> side_ok (side_fresh\<lparr>sd_file := file\<rparr>)"
  using pk_ok_default pk_view_default bloom_ok_default[of tombs_default]
  by (simp add: side_ok_def side_fresh_def tombs_is_empty_def file_ok_def clean_def tombs_default_def)

lemma open_ok:
  assumes "\<And>buf. file = Some buf \<Longrightarrow> length buf < 2 ^ 32"
  shows "\<exists>s. open_pktombs file = Some s \<and> side_ok s \<and> sd_pending s = [] \<and> sd_file s = file \<and>
    (unreadable file \<and> pk_view (sd_tombs s) = empty_view \<or>
     (\<exists>rs rest. file = Some (PK_HEADER @ file_bytes rs @ rest) \<and> (\<forall>r \<in> set rs. rec_ok r) \<and> (rest = [] \<or> pk_decode rest = None) \<and> pk_view (sd_tombs s) = replay rs empty_view))"
proof (cases "unreadable file")
  case True
  then have "open_pktombs file = Some (side_fresh\<lparr>sd_file := file\<rparr>)" by (auto simp: open_pktombs_def unreadable_def Let_def split: option.splits)
  then show ?thesis using side_ok_fresh[OF True] True pk_view_default by (simp add: side_fresh_def)
next
  case False
  then obtain buf where buf: "file = Some buf" "\<nexists>e. pk_load buf = Some (Inl e)" by (auto simp: unreadable_def split: option.splits)
  then obtain rs rest where p: "buf = PK_HEADER @ file_bytes rs @ rest" "length rs \<le> 0xFFFFFFFF" "\<forall>r \<in> set rs. rec_ok r" "rest = [] \<or> pk_decode rest = None"
    using pk_load_cases[OF assms[OF buf(1)]] by blast
  obtain t where t: "pk_load buf = Some (Inr (t, rest \<noteq> []))" "pk_ok t" "pk_view t = replay rs empty_view"
    "log_of t = ([], 0, if rest = [] then Some (length rs) else None)" using pk_load_records[OF p(2-4)] p(1) by blast
  let ?s = "side_fresh\<lparr>sd_file := file, sd_empty := tombs_is_empty t, sd_bloom := fst (bloom_fit t bloom_default), sd_tombs := t, sd_dirty := rest \<noteq> []\<rparr>"
  have "open_pktombs file = Some ?s" using buf(1) t(1) by (simp add: open_pktombs_def Let_def side_fresh_def)
  moreover have "side_ok ?s" using buf(1) p(1,3) t(2-4) by (intro side_ok_opened[of t rs _ _ rest]) auto
  ultimately show ?thesis using p buf(1) t(3) by (auto simp: side_fresh_def)
qed

section \<open>Histories\<close>

datatype pk_op = Delete u16 "u64 option" u32 hlc | Bind u16 pk_value u32 hlc | Reuse u32 | Expire hlc | Ask u16 pk_value | Save write_outcome

fun pk_step :: "pk_env \<Rightarrow> pk_op \<Rightarrow> pk_side \<Rightarrow> pk_side option" where
  "pk_step env (Delete pk val slot hlc) s = remember_pk_tombstone env pk val slot hlc s"
| "pk_step env (Bind himo val slot hlc) s = Option.bind (drain_pk_pending env s) (note_value env himo val slot hlc)"
| "pk_step env (Reuse slot) s = forget_pk_slot env slot s"
| "pk_step env (Expire h) s = map_option fst (forget_deletes_before env h s)"
| "pk_step env (Ask himo val) s = map_option fst (pk_tombstone_of env himo val s)"
| "pk_step env (Save out) s = map_option fst (persist_pk_tombs_if_dirty env out s)"

fun pk_run :: "pk_env \<Rightarrow> pk_op list \<Rightarrow> pk_side \<Rightarrow> pk_side option" where
  "pk_run env [] s = Some s"
| "pk_run env (x # ops) s = Option.bind (pk_step env x s) (pk_run env ops)"

definition spec_note :: "pk_env \<Rightarrow> u16 \<Rightarrow> pk_value \<Rightarrow> u32 \<Rightarrow> hlc \<Rightarrow> pk_view \<Rightarrow> pk_view" where
  "spec_note env himo val slot hlc V = (case with_pk_key env himo val of None \<Rightarrow> V | Some key \<Rightarrow> spec_record (Note himo key slot hlc) V)"

text \<open>A deleted row whose key is gone is noted under the key its slot had; asking and saving change nothing.\<close>

fun spec_op :: "pk_env \<Rightarrow> pk_op \<Rightarrow> pk_view \<Rightarrow> pk_view" where
  "spec_op env (Delete pk (Some v) slot hlc) V = spec_note env pk (Local v) slot hlc V"
| "spec_op env (Delete pk None slot hlc) V = (case snd V slot of None \<Rightarrow> V | Some (h, key) \<Rightarrow> spec_record (Note h key slot hlc) V)"
| "spec_op env (Bind himo val slot hlc) V = spec_note env himo val slot hlc V"
| "spec_op env (Reuse slot) V = spec_record (Forget slot) V"
| "spec_op env (Expire h) V = spec_before h V"
| "spec_op env (Ask himo val) V = V"
| "spec_op env (Save out) V = V"

fun op_ok :: "pk_op \<Rightarrow> bool" where
  "op_ok (Bind himo (Text bs) slot hlc) \<longleftrightarrow> length bs < 2 ^ 32"
| "op_ok _ \<longleftrightarrow> True"

lemma rooms_less: "rooms (Suc n) s \<Longrightarrow> rooms n s"
  by (simp add: rooms_def fits_def)

lemma bind_ok:
  assumes s: "side_ok s" and f: "rooms (Suc n) s" and e: "env_ok env" and k: "op_ok (Bind himo val slot hlc)"
  shows "\<exists>s'. pk_step env (Bind himo val slot hlc) s = Some s' \<and> side_ok s' \<and> side_view env s' = spec_note env himo val slot hlc (side_view env s) \<and> rooms n s'"
proof -
  obtain s1 where s1: "drain_pk_pending env s = Some s1" "side_ok s1" "pk_view (sd_tombs s1) = side_view env s" "sd_pending s1 = []" "rooms (Suc n) s1"
    using drain_ok[OF s f e] by blast
  have f1: "fits 1 (sd_tombs s1)" using s1(4,5) by (simp add: rooms_def fits_def)
  have k': "length key < 2 ^ 32" if "with_pk_key env himo val = Some key" for key
    using that with_pk_key_ok[OF e] k by (cases val) (auto simp: with_pk_key_def split: if_splits value_type.splits)
  from note_value_ok[OF s1(2) f1 k', where slot = slot and hlc = hlc] obtain s2 where s2: "note_value env himo val slot hlc s1 = Some s2" "side_ok s2"
    "pk_view (sd_tombs s2) = (case with_pk_key env himo val of None \<Rightarrow> pk_view (sd_tombs s1) | Some key \<Rightarrow> spec_record (Note himo key slot hlc) (pk_view (sd_tombs s1)))"
    "sd_pending s2 = sd_pending s1" "length (pt_keys (sd_tombs s2)) \<le> Suc (length (pt_keys (sd_tombs s1)))" by blast
  have "rooms n s2" using s2(4,5) s1(4,5) by (simp add: rooms_def fits_def)
  then show ?thesis using s1(1,3,4) s2 by (auto simp: side_view_drained spec_note_def split: option.splits)
qed

lemma pk_step_ok:
  assumes s: "side_ok s" and f: "rooms (Suc n) s" and e: "env_ok env" and k: "op_ok x"
  shows "\<exists>s'. pk_step env x s = Some s' \<and> side_ok s' \<and> side_view env s' = spec_op env x (side_view env s) \<and> rooms n s'"
proof (cases x)
  case (Delete pk val slot hlc)
  then show ?thesis using remember_ok[OF s f e, of pk val slot hlc] by (cases val) (auto simp: spec_note_def)
next
  case (Bind himo val slot hlc)
  then show ?thesis using bind_ok[OF s f e] k by auto
next
  case (Reuse slot)
  then show ?thesis using pk_forget_slot_ok[OF s f e, of slot] rooms_less by auto
next
  case (Expire h)
  then show ?thesis using forget_deletes_before_ok[OF s f e, of h] rooms_less by auto
next
  case (Ask himo val)
  then show ?thesis using pk_tombstone_of_ok[OF s f e, of himo val] rooms_less by auto
next
  case (Save out)
  then show ?thesis using persist_ok[OF s f e, of out] rooms_less by auto
qed

lemma pk_run_ok:
  assumes "side_ok s" "rooms (length ops + n) s" "env_ok env" "\<forall>x \<in> set ops. op_ok x"
  shows "\<exists>s'. pk_run env ops s = Some s' \<and> side_ok s' \<and> side_view env s' = fold (spec_op env) ops (side_view env s) \<and> rooms n s'"
  using assms
proof (induction ops arbitrary: s)
  case (Cons x ops)
  have "rooms (Suc (length ops + n)) s" using Cons.prems(2) by simp
  from pk_step_ok[OF Cons.prems(1) this Cons.prems(3)] Cons.prems(4) obtain s1 where
    s1: "pk_step env x s = Some s1" "side_ok s1" "side_view env s1 = spec_op env x (side_view env s)" "rooms (length ops + n) s1" by auto
  from Cons.IH[OF s1(2,4) Cons.prems(3)] Cons.prems(4) show ?case using s1(1,3) by auto
qed simp

lemma spec_record_dom: "\<exists>x. dom (fst (spec_record r V)) \<subseteq> insert x (dom (fst V))"
  by (cases V; cases r) (auto simp: dom_def)

lemma replay_card: "finite (dom (fst (replay rs empty_view))) \<and> card (dom (fst (replay rs empty_view))) \<le> length rs"
proof (induction rs rule: rev_induct)
  case (snoc r rs)
  let ?V = "replay rs empty_view"
  obtain x where x: "dom (fst (spec_record r ?V)) \<subseteq> insert x (dom (fst ?V))" using spec_record_dom by blast
  have f: "finite (insert x (dom (fst ?V)))" "card (insert x (dom (fst ?V))) \<le> Suc (length rs)" using snoc by (simp_all add: card_insert_if)
  have "replay (rs @ [r]) empty_view = spec_record r ?V" by (simp add: replay_def)
  then show ?case using finite_subset[OF x f(1)] card_mono[OF f(1) x] f(2) by simp
qed (simp add: replay_def)

lemma open_run_ok:
  assumes e: "env_ok env" and f: "\<And>buf. file = Some buf \<Longrightarrow> length buf + length ops < 2 ^ 32" and l: "length ops < 2 ^ 32" and k: "\<forall>x \<in> set ops. op_ok x"
  shows "\<exists>s0 s. open_pktombs file = Some s0 \<and> pk_run env ops s0 = Some s \<and> side_ok s \<and> side_view env s = fold (spec_op env) ops (side_view env s0) \<and> rooms 0 s"
proof -
  have f': "length buf < 2 ^ 32" if "file = Some buf" for buf using f[OF that] by simp
  obtain s0 where s0: "open_pktombs file = Some s0" "side_ok s0" "sd_pending s0 = []" and v:
    "unreadable file \<and> pk_view (sd_tombs s0) = empty_view \<or>
     (\<exists>rs rest. file = Some (PK_HEADER @ file_bytes rs @ rest) \<and> (\<forall>r \<in> set rs. rec_ok r) \<and> (rest = [] \<or> pk_decode rest = None) \<and> pk_view (sd_tombs s0) = replay rs empty_view)"
    using open_ok[OF f'] by blast
  have ok: "pk_ok (sd_tombs s0)" using s0(2) by (simp add: side_ok_def)
  have n: "length (pt_keys (sd_tombs s0)) = card (dom (fst (pk_view (sd_tombs s0))))"
    using tombs_keys_view[OF ok] ok distinct_card[of "tombs_keys (sd_tombs s0)"] by (simp add: pk_ok_def)
  have "length (pt_keys (sd_tombs s0)) + length ops \<le> 0xFFFFFFFF"
    using v
  proof
    assume "unreadable file \<and> pk_view (sd_tombs s0) = empty_view"
    then show ?thesis using n l by simp
  next
    assume "\<exists>rs rest. file = Some (PK_HEADER @ file_bytes rs @ rest) \<and> (\<forall>r \<in> set rs. rec_ok r) \<and> (rest = [] \<or> pk_decode rest = None) \<and> pk_view (sd_tombs s0) = replay rs empty_view"
    then obtain rs rest where r: "file = Some (PK_HEADER @ file_bytes rs @ rest)" "pk_view (sd_tombs s0) = replay rs empty_view" by blast
    have "card (dom (fst (replay rs empty_view))) \<le> length rs" using replay_card by blast
    then show ?thesis using n r(2) f[OF r(1)] file_bytes_length[of rs] by simp
  qed
  then have "rooms (length ops + 0) s0" using s0(3) by (simp add: rooms_def fits_def)
  from pk_run_ok[OF s0(2) this e k] show ?thesis using s0(1) by auto
qed

section \<open>Reopening\<close>

lemma reopen_clean:
  assumes s: "side_ok s" "sd_pending s = []" "\<not> sd_dirty s" and l: "\<And>buf. sd_file s = Some buf \<Longrightarrow> length buf < 2 ^ 32"
  shows "\<exists>s2. open_pktombs (sd_file s) = Some s2 \<and> side_view env s2 = side_view env s"
proof (cases "pt_in_file (sd_tombs s)")
  case None
  then have u: "unreadable (sd_file s)" "pk_view (sd_tombs s) = empty_view" using s(1,3) by (simp_all add: side_ok_def clean_def)
  then have "open_pktombs (sd_file s) = Some (side_fresh\<lparr>sd_file := sd_file s\<rparr>)" by (auto simp: open_pktombs_def unreadable_def Let_def split: option.splits)
  then show ?thesis using u(2) s(2) pk_view_default by (simp add: side_view_drained side_fresh_def)
next
  case (Some n)
  have c: "clean (sd_file s) (sd_tombs s)" "file_ok (sd_file s) (sd_tombs s)" using s(1,3) by (simp_all add: side_ok_def)
  then obtain rs where rs: "sd_file s = Some (PK_HEADER @ file_bytes rs)" "\<forall>r \<in> set rs. rec_ok r" "replay rs empty_view = pk_view (sd_tombs s)"
    using Some by (auto simp: file_ok_def clean_def)
  have "length rs \<le> 0xFFFFFFFF" using l[OF rs(1)] file_bytes_length[of rs] by simp
  from pk_load_records[OF this rs(2), of "[]"] obtain t where "pk_load (PK_HEADER @ file_bytes rs) = Some (Inr (t, False))" "pk_view t = replay rs empty_view" by auto
  then show ?thesis using rs(1,3) s(2) by (simp add: open_pktombs_def Let_def side_view_drained side_fresh_def)
qed

section \<open>Properties\<close>

text \<open>
  C36. Refinement: open the database with any bytes in the file, run any sequence of deletions, bindings,
  reuses of slots, expiries, lookups and saves, whether the saves succeed or stop anywhere. No probe of
  the table runs forever, and every lookup then returns what the abstract maps hold: for a key the
  latest clock of its deletions, for a slot the key of its row. The queue, the flags and the bit table
  are invisible.
\<close>

theorem deleted_keys_refine_maps:
  assumes "env_ok env" "\<And>buf. file = Some buf \<Longrightarrow> length buf + length ops < 2 ^ 32" "length ops < 2 ^ 32" "\<forall>x \<in> set ops. op_ok x"
  shows "\<exists>s0 s. open_pktombs file = Some s0 \<and> pk_run env ops s0 = Some s \<and>
    (\<forall>himo val. \<exists>s1. pk_tombstone_of env himo val s = Some (s1, case with_pk_key env himo val of
        None \<Rightarrow> None | Some key \<Rightarrow> fst (fold (spec_op env) ops (side_view env s0)) (himo, key)) \<and>
      (\<forall>slot. \<exists>s2. flush_pk_pending env s1 = Some s2 \<and> key_of_slot slot (sd_tombs s2) = snd (fold (spec_op env) ops (side_view env s0)) slot))"
proof -
  obtain s0 s where s: "open_pktombs file = Some s0" "pk_run env ops s0 = Some s" "side_ok s" "side_view env s = fold (spec_op env) ops (side_view env s0)" "rooms 0 s"
    using open_run_ok[OF assms] by blast
  have "\<exists>s1. pk_tombstone_of env himo val s = Some (s1, case with_pk_key env himo val of None \<Rightarrow> None | Some key \<Rightarrow> fst (side_view env s) (himo, key)) \<and>
      (\<forall>slot. \<exists>s2. flush_pk_pending env s1 = Some s2 \<and> key_of_slot slot (sd_tombs s2) = snd (side_view env s) slot)" for himo val
  proof -
    obtain s1 where s1: "pk_tombstone_of env himo val s = Some (s1, case with_pk_key env himo val of None \<Rightarrow> None | Some key \<Rightarrow> fst (side_view env s) (himo, key))"
      "side_ok s1" "side_view env s1 = side_view env s" "rooms 0 s1" using pk_tombstone_of_ok[OF s(3,5) assms(1)] by blast
    obtain s2 where s2: "flush_pk_pending env s1 = Some s2" "side_ok s2" "pk_view (sd_tombs s2) = side_view env s1" using drain_ok[OF s1(2,4) assms(1)] by blast
    then have "key_of_slot slot (sd_tombs s2) = snd (side_view env s) slot" for slot using key_of_slot_view[of "sd_tombs s2"] s1(3) by (simp add: side_ok_def)
    then show ?thesis using s1(1) s2(1) by blast
  qed
  from this[unfolded s(4)] show ?thesis using s(1,2) by blast
qed

text \<open>
  C37. Round trip: after any such history, a successful save leaves a file from which the next open reads
  the same deletions, whatever earlier saves left in it and whether this one appended or rewrote.
\<close>

theorem deleted_keys_survive_reopen:
  assumes "env_ok env" "\<And>buf. file = Some buf \<Longrightarrow> length buf + length ops < 2 ^ 32" "length ops < 2 ^ 32" "\<forall>x \<in> set ops. op_ok x"
  shows "\<exists>s0 s s1. open_pktombs file = Some s0 \<and> pk_run env ops s0 = Some s \<and> persist_pk_tombs_if_dirty env Written s = Some (s1, True) \<and>
    (sd_file s1 = None \<or> length (the (sd_file s1)) < 2 ^ 32 \<longrightarrow>
      (\<exists>s2. open_pktombs (sd_file s1) = Some s2 \<and> side_view env s2 = fold (spec_op env) ops (side_view env s0)))"
proof -
  obtain s0 s where s: "open_pktombs file = Some s0" "pk_run env ops s0 = Some s" "side_ok s" "side_view env s = fold (spec_op env) ops (side_view env s0)" "rooms 0 s"
    using open_run_ok[OF assms] by blast
  obtain s1 where s1: "persist_pk_tombs_if_dirty env Written s = Some (s1, True)" "side_ok s1" "side_view env s1 = side_view env s" "sd_pending s1 = []" "\<not> sd_dirty s1"
    using persist_ok[OF s(3,5) assms(1), of Written] by auto
  have "\<exists>s2. open_pktombs (sd_file s1) = Some s2 \<and> side_view env s2 = side_view env s1" if "sd_file s1 = None \<or> length (the (sd_file s1)) < 2 ^ 32"
    by (rule reopen_clean[OF s1(2,4,5)]) (use that in auto)
  then show ?thesis using s(1,2,4) s1(1,3) by auto
qed

text \<open>
  C38. Round trip: a file whose last append was cut at any byte opens with exactly the records that were written
  whole, and says that it was cut exactly when bytes of a record are left over.
\<close>

theorem deleted_keys_survive_cut:
  assumes "\<forall>r \<in> set (rs @ ps). rec_ok r" "length (rs @ ps) < 2 ^ 32"
  shows "\<exists>t m. pk_load (PK_HEADER @ file_bytes rs @ take k (file_bytes ps)) = Some (Inr (t, length (file_bytes (take m ps)) < min k (length (file_bytes ps)))) \<and>
    pk_view t = replay (rs @ take m ps) empty_view \<and> length (file_bytes (take m ps)) \<le> k \<and> (m < length ps \<longrightarrow> k < length (file_bytes (take (Suc m) ps)))"
proof -
  obtain m rest where c: "take k (file_bytes ps) = file_bytes (take m ps) @ rest" "m \<le> length ps" "rest = [] \<or> pk_decode rest = None"
    "length (file_bytes (take m ps)) \<le> k" "m < length ps \<longrightarrow> k < length (file_bytes (take (Suc m) ps))"
    using cut_records[of ps k] assms(1) by force
  have "\<forall>r \<in> set (rs @ take m ps). rec_ok r" using assms(1) by (auto dest: in_set_takeD)
  moreover have "length (rs @ take m ps) \<le> 0xFFFFFFFF" using assms(2) by simp
  ultimately obtain t where t: "pk_load (PK_HEADER @ file_bytes (rs @ take m ps) @ rest) = Some (Inr (t, rest \<noteq> []))" "pk_view t = replay (rs @ take m ps) empty_view"
    using pk_load_records[OF _ _ c(3)] by blast
  have "rest \<noteq> [] \<longleftrightarrow> length (file_bytes (take m ps)) < min k (length (file_bytes ps))" 
  proof -
    have n: "min k (length (file_bytes ps)) = length (file_bytes (take m ps)) + length rest" using arg_cong[OF c(1), of length] by (simp add: min.commute)
    show ?thesis unfolding n by simp
  qed
  then show ?thesis using t c(1,4,5) by (auto simp: file_bytes_def)
qed

text \<open>C39. Termination: whatever bytes are in the file, reading it ends, with an error or with a memory in which every lookup ends.\<close>

theorem reading_deleted_keys_ends:
  assumes "length buf < 2 ^ 32"
  shows "\<exists>r. pk_load buf = Some r \<and> (\<forall>t torn himo key. r = Inr (t, torn) \<longrightarrow> (\<exists>c. tomb_of himo key t = Some c))"
  using pk_load_cases[OF assms]
proof
  assume "\<exists>rs rest. buf = PK_HEADER @ file_bytes rs @ rest \<and> length rs \<le> 0xFFFFFFFF \<and> (\<forall>r \<in> set rs. rec_ok r) \<and> (rest = [] \<or> pk_decode rest = None)"
  then obtain t torn where "pk_load buf = Some (Inr (t, torn))" "pk_ok t" using pk_load_records by blast
  then show ?thesis using tomb_of_view by auto
qed auto

text \<open>
  C40. Error: between taking the bytes of a rewrite and the note that they are written, another thread may
  let old deletions expire. The note then marks the file as current although it holds the expired
  deletions, nothing is left to write, and the next open remembers them again.
\<close>

theorem expiry_lost_in_rewrite:
  assumes ok: "pk_ok t" and n: "pt_in_file t = None" and j: "take_for_persist t = (t1, Some job)"
    and x: "forget_before h t1 = Some (t2, gone)" "0 < gone" and few: "length (live_records t1) \<le> 1024"
  shows "\<exists>bs records t3. job = Rewrite bs records \<and> take_for_persist (persisted job t2) = (persisted job t2, None) \<and>
    pk_load bs = Some (Inr (t3, False)) \<and> pk_view t3 = pk_view t \<and> pk_view t2 \<noteq> pk_view t"
proof -
  have t1: "t1 = t\<lparr>pt_pending := [], pt_pending_records := 0\<rparr>" and job: "job = Rewrite (fst (pk_snapshot t1)) (snd (pk_snapshot t1))"
    using j n by (auto simp: take_for_persist_def Let_def)
  have ok1: "pk_ok t1" "pk_view t1 = pk_view t" using ok pk_ok_log(1) by (simp_all add: t1)
  have f: "pk_view t2 = spec_before h (pk_view t1)" "log_of t2 = ([], 0, None)" using forget_before_ok[OF ok1(1), of h] x by auto
  have "length (filter (\<lambda>k. key_hlc k < h) (pt_keys t1)) = gone"
    using x by (auto simp: forget_before_def Let_def bind_eq_Some_conv split: if_splits)
  then have "filter (\<lambda>k. key_hlc k < h) (pt_keys t1) \<noteq> []" using x(2) by auto
  then obtain k where k: "k \<in> set (pt_keys t1)" "key_hlc k < h" by (auto simp: filter_empty_conv)
  have "fst (pk_view t1) (pk_himo k, key_bytes t1 k) = Some (key_hlc k)" using tomb_map_Some[OF ok1(1)] k(1) by (auto simp: pk_view_def)
  then have "fst (pk_view t2) (pk_himo k, key_bytes t1 k) \<noteq> fst (pk_view t1) (pk_himo k, key_bytes t1 k)"
    using k(2) by (simp add: f(1) spec_before_def Let_def restrict_map_def)
  then have ne: "pk_view t2 \<noteq> pk_view t" using ok1(2) by auto
  have "fst (pk_snapshot t1) = PK_HEADER @ file_bytes (live_records t1) @ []" by (simp add: pk_snapshot_def file_bytes_foldl)
  moreover obtain t3 where "pk_load (PK_HEADER @ file_bytes (live_records t1) @ []) = Some (Inr (t3, [] \<noteq> ([] :: bytes)))" "pk_view t3 = replay (live_records t1) empty_view"
    using pk_load_records[of "live_records t1" "[]"] few live_records_ok[of _ t1] by auto
  ultimately have "pk_load (fst (pk_snapshot t1)) = Some (Inr (t3, False))" "pk_view t3 = pk_view t" using replay_live_records[OF ok1(1)] ok1(2) by simp_all
  moreover have "take_for_persist (persisted job t2) = (persisted job t2, None)"
    using f(2) few by (simp add: job persisted_def take_for_persist_def Let_def log_of_def pk_snapshot_def)
  ultimately show ?thesis using job ne by blast
qed

section \<open>Witnesses\<close>

lemma live_records_alone: "pt_by_slot t = [] \<Longrightarrow> length (live_records t) = length (pt_keys t)"
  by (simp add: live_records_def slots_of_def Let_def length_concat comp_def sum_list_triv)


definition demo_env :: pk_env where
  "demo_env = \<lparr>pe_types = [Number], pe_word = \<lambda>_. None, pe_reclaim = False\<rparr>"

definition demo_ops :: "pk_op list" where
  "demo_ops = [Delete 0 (Some 5) 3 (Hlc 7 0 1), Save (Failed 2), Bind 0 (Local 5) 4 (Hlc 6 0 2), Reuse 3]"

lemma demo_facts: "env_ok demo_env" "\<forall>x \<in> set demo_ops. op_ok x" "length demo_ops < 2 ^ 32" "with_pk_key demo_env 0 (Local 5) = Some (to_le_bytes (5 :: u64))"
  "fst (fold (spec_op demo_env) demo_ops empty_view) (0, to_le_bytes (5 :: u64)) = Some (Hlc 7 0 1)"
  by (simp_all add: env_ok_def demo_env_def demo_ops_def with_pk_key_def spec_note_def max_def less_eq_hlc_def cmp_key_def)

lemma demo_open: "open_pktombs None = Some s \<Longrightarrow> side_view env s = empty_view"
  using pk_view_default by (auto simp: open_pktombs_def side_fresh_def side_view_drained Let_def)

theorem deleted_keys_refine_maps_witness:
  "\<exists>s0 s s1. open_pktombs None = Some s0 \<and> pk_run demo_env demo_ops s0 = Some s \<and> pk_tombstone_of demo_env 0 (Local 5) s = Some (s1, Some (Hlc 7 0 1))"
proof -
  obtain s0 s where s: "open_pktombs None = Some s0" "pk_run demo_env demo_ops s0 = Some s"
    "\<forall>himo val. \<exists>s1. pk_tombstone_of demo_env himo val s = Some (s1, case with_pk_key demo_env himo val of
        None \<Rightarrow> None | Some key \<Rightarrow> fst (fold (spec_op demo_env) demo_ops (side_view demo_env s0)) (himo, key))"
    using deleted_keys_refine_maps[OF demo_facts(1) _ demo_facts(3,2), of None] by simp blast
  have "\<exists>s1. pk_tombstone_of demo_env 0 (Local 5) s = Some (s1, Some (Hlc 7 0 1))" 
    using s(3)[rule_format, of 0 "Local 5"] unfolding demo_open[OF s(1)] demo_facts(4) option.case demo_facts(5) .
  then show ?thesis using s(1,2) by blast
qed

theorem deleted_keys_survive_reopen_witness:
  "\<exists>s0 s s1. open_pktombs None = Some s0 \<and> pk_run demo_env demo_ops s0 = Some s \<and> persist_pk_tombs_if_dirty demo_env Written s = Some (s1, True)"
  using deleted_keys_survive_reopen[OF demo_facts(1) _ demo_facts(3,2), of None] by auto

theorem deleted_keys_survive_cut_witness:
  "\<exists>t torn. pk_load (PK_HEADER @ take 10 (file_bytes [Forget 1, Forget 2])) = Some (Inr (t, torn))"
  using deleted_keys_survive_cut[of "[]" "[Forget 1, Forget 2]" 10] by (auto simp: file_bytes_def)

theorem reading_deleted_keys_ends_witness: "\<exists>r. pk_load [80, 75, 84, 76, 1, 0, 0, 0, 2] = Some r"
  using reading_deleted_keys_ends[of "[80, 75, 84, 76, 1, 0, 0, 0, 2]"] by auto

theorem expiry_lost_in_rewrite_witness:
  "\<exists>t t1 job t2 gone. pk_ok t \<and> take_for_persist t = (t1, Some job) \<and> forget_before (Hlc 9 0 0) t1 = Some (t2, gone) \<and>
    take_for_persist (persisted job t2) = (persisted job t2, None) \<and> pk_view t2 \<noteq> pk_view t"
proof -
  obtain t where t: "pk_ok t" "log_of t = log_of tombs_default" "pk_view t = spec_record (Note 0 [1] NO_PK_SLOT (Hlc 7 0 1)) empty_view" "length (pt_keys t) \<le> 1"
  proof -
    have "fits 1 tombs_default" "length [1 :: u8] < 2 ^ 32" by (simp_all add: fits_def tombs_default_def)
    from apply_note_ok[OF pk_ok_default this, of 0 NO_PK_SLOT "Hlc 7 0 1"] pk_view_default that show thesis by (auto simp: tombs_default_def)
  qed
  let ?t = "t\<lparr>pt_pending := [], pt_pending_records := 0\<rparr>"
  define job where "job = Rewrite (fst (pk_snapshot ?t)) (snd (pk_snapshot ?t))"
  have n: "pt_in_file t = None" using t(2) by (simp add: log_of_def tombs_default_def)
  have j: "take_for_persist t = (?t, Some job)" using n by (simp add: take_for_persist_def Let_def job_def)
  have ok: "pk_ok ?t" using pk_ok_log(1)[OF t(1)] .
  obtain t2 gone where x: "forget_before (Hlc 9 0 0) ?t = Some (t2, gone)" "pk_view t2 = spec_before (Hlc 9 0 0) (pk_view ?t)" "gone = 0 \<and> t2 = ?t \<or> 0 < gone"
    using forget_before_ok[OF ok, of "Hlc 9 0 0"] by blast
  have "fst (pk_view t2) (0, [1]) = None" "fst (pk_view t) (0, [1]) \<noteq> None" using x(2) t(3) by (simp_all add: spec_before_def Let_def restrict_map_def less_eq_hlc_def cmp_key_def)
  then have "0 < gone" using x(3) by auto
  moreover have "length (live_records ?t) \<le> 1024"
  proof -
    have "map_of (pt_by_slot t) slot = None" for slot using fun_cong[OF arg_cong[OF t(3), of snd], of slot] by (simp add: pk_view_def)
    then have "map_of (pt_by_slot t) = Map.empty" by (rule ext)
    then have "pt_by_slot ?t = []" by (simp add: map_of_eq_empty_iff)
    then show ?thesis using live_records_alone[of ?t] t(4) by simp
  qed
  ultimately show ?thesis using expiry_lost_in_rewrite[OF t(1) n j x(1)] j x(1) t(1) by blast
qed

end
