(* ===== verification/Spec2Isabelle.thy ===== *)
theory Spec2Isabelle
  imports Oplog_Correct Eidmap_Log Value_Index Cells_Converge Ngram Shard Row_Lock Write_Gate Value_Locks Leaf_History Pk_History
begin

text \<open>
  EnchuDB, a column database that replicates by last writer wins.

  \<^bold>\<open>The program.\<close> A database is a set of columns (\<^emph>\<open>himo\<close>) over the ids of its entities. The
  engine (\<^verbatim>\<open>crates/enchudb-engine\<close>) keeps each column as an array of cells in a mapped file,
  with an index from values to ids that is built on the first read by value and repaired lazily; the
  ids come from an entity set, the rows of a table from ranges of ids. Every change is a record
  of the write-ahead log (\<^verbatim>\<open>crates/enchudb-oplog\<close>), a ring of two halves in one file, stamped with
  a hybrid logical clock and signed by its author. The sync layer (\<^verbatim>\<open>crates/enchudb-sync\<close>) ships the
  records to other peers, which apply them through the same door as local writes: a cell keeps
  the clock of its last write, a row the clock of its deletion, and a write is taken only when
  its clock is later. The ids of other peers are translated to local ones. A separate text index
  (\<^verbatim>\<open>crates/enchudb-ngram\<close>) finds documents by n-grams.

  \<^bold>\<open>Foundations.\<close>
  \<^item> \<^verbatim>\<open>Prelude\<close>: bytes and little-endian words, slices and in-place writes of byte lists, UTF-8,
    FNV-1a, sorting with repetitions removed; the fact collections \<^verbatim>\<open>buf_simps\<close> and
    \<^verbatim>\<open>codec_simps\<close> that carry the proofs about buffers and codecs.
  \<^item> \<^verbatim>\<open>Hlc\<close> (\<^verbatim>\<open>enchudb-oplog/src/lib.rs\<close>): entity ids, clocks and their order, minting and merging.
  \<^item> \<^verbatim>\<open>Region\<close> (\<^verbatim>\<open>region.rs\<close>): a mapped region as bytes with a committed length; whether the file
    can grow is an argument of every operation that needs it. The theorems of the entity set, the
    columns and their index, the version column and the payload store hold for a full disk too; those
    of the cell layer assume that the files can grow.

  \<^bold>\<open>The log\<close> (\<^verbatim>\<open>enchudb-oplog/src/oplog.rs\<close>).
  \<^item> \<^verbatim>\<open>Oplog_Codec\<close>: operations and their bytes, the record checksum, the signed bytes, the
    rewriting of a record by a relaying peer. Round trips for the operations that fit their length
    fields, one that does not fit and is written wrongly, and that the checksum catches every single
    changed byte that it covers.
  \<^item> \<^verbatim>\<open>Oplog_Layout\<close>: file versions, half headers, laps, positions; opening arbitrary bytes.
  \<^item> \<^verbatim>\<open>Oplog_Ring\<close>: reservation, half switch, appends, folding, checkpoint. The room for the closing
    Commit is part of the reservation, so that a group that was accepted can be closed.
  \<^item> \<^verbatim>\<open>Oplog_Scan\<close>: the reader, its stop reasons, and recovery.
  \<^item> \<^verbatim>\<open>Oplog_Log\<close> and \<^verbatim>\<open>Oplog_Correct\<close>: the invariant of the ring, the abstract log (a list of
    records), and the refinements: an append adds one record, a scan returns the records, a fold
    drops only what was applied, reopening and recovery return the same log.

  \<^bold>\<open>The stores of the engine\<close> (\<^verbatim>\<open>enchudb-engine/src\<close>).
  \<^item> \<^verbatim>\<open>Entity_Set\<close> (\<^verbatim>\<open>entity_set.rs\<close>): the bit set of the live ids with its stack of freed ids, refined
    to an abstract pool; the locales \<^verbatim>\<open>id_source\<close> (an id is never handed out twice, full disk or not)
    and \<^verbatim>\<open>id_allocator\<close> (with room the ids held are live) state what a client of ids relies on. The
    listing of the live ids is a \<^verbatim>\<open>partial_function\<close>: its 32-bit counter wraps and the loop does not end
    once one of the last 64 ids has been handed out.
  \<^item> \<^verbatim>\<open>Eid_Translator\<close>, \<^verbatim>\<open>Eidmap_Log\<close> (\<^verbatim>\<open>eid_translator.rs\<close>, \<^verbatim>\<open>eidmap_log.rs\<close>): the maps between the
    ids of peers and local ids, and their persisted log that survives a cut at any byte.
  \<^item> \<^verbatim>\<open>Column\<close>, \<^verbatim>\<open>Sparse_Runs\<close>, \<^verbatim>\<open>Append_Bucket\<close>, \<^verbatim>\<open>Cylinder\<close> (\<^verbatim>\<open>column.rs\<close>, \<^verbatim>\<open>sparse_runs.rs\<close>,
    \<^verbatim>\<open>append_bucket.rs\<close>, \<^verbatim>\<open>lockfree_cylinder.rs\<close>): the cells, the runs of ids, the list of ids of one
    value with its stale marks, and the index over all values. \<^verbatim>\<open>Cylinder_Inv\<close> and
    \<^verbatim>\<open>Cylinder_Read\<close> hold the invariant and what a read returns; \<^verbatim>\<open>Value_Index\<close> states the interface
    as a locale and interprets it on the code's index.
  \<^item> \<^verbatim>\<open>Himo_Store\<close> (\<^verbatim>\<open>himo_store.rs\<close>): one column with its index. \<^verbatim>\<open>Himo_Correct\<close> and \<^verbatim>\<open>Himo_Ops\<close>
    relate every operation to a plain map from ids to values; \<^verbatim>\<open>Himo_Runs\<close> does so for whole
    histories: writes, removals, raw restores, reads, building and compacting the index, declaring
    the marks, moving the window of the index, closing and opening.
  \<^item> \<^verbatim>\<open>Cell_Versions\<close> (\<^verbatim>\<open>engine.rs\<close>, \<^verbatim>\<open>hlc_store.rs\<close>, \<^verbatim>\<open>acl.rs\<close>): the clocks of cells in version columns or
    in memory, behind the locale \<^verbatim>\<open>version_store\<close>, and the list of writers.
  \<^item> \<^verbatim>\<open>Tables\<close> (\<^verbatim>\<open>engine.rs\<close>): the ranges of ids of the tables.
  \<^item> \<^verbatim>\<open>Leaf_Store\<close> (\<^verbatim>\<open>leaf_store.rs\<close>): the payload file, slots and holes of whole words with an index of
    the holes by size and by address. \<^verbatim>\<open>Leaf_Correct\<close> shows that slots and holes tile the file
    and that every operation keeps it so; \<^verbatim>\<open>Leaf_Rebuild\<close> covers reopening and the rebuilding of
    the hole index from the slots that are still in use; \<^verbatim>\<open>Leaf_History\<close> holds the file of the hole index and
    concludes for whole histories, in which the store may be opened again at any moment on the bytes
    of the mapped file (a process that ends, not a disk that loses pages), that a value that was not
    freed is read back. The
    high water mark of a full file wraps at 32 bits: \<^verbatim>\<open>full_store_wraps\<close> shows it.

  \<^item> \<^verbatim>\<open>Pk_Tombs\<close>, \<^verbatim>\<open>Pk_Store\<close> (\<^verbatim>\<open>pk_tombs.rs\<close>, \<^verbatim>\<open>engine.rs\<close>): the memory of deleted primary keys, an open-addressing table
    with a file of appended records, and the queue, flags and bit table around it. \<^verbatim>\<open>Pk_Correct\<close> shows that
    every probe ends and relates each operation to two maps; \<^verbatim>\<open>Pk_File\<close> covers the records (the locale
    \<^verbatim>\<open>record_log\<close> is the contract of such a file), \<^verbatim>\<open>Pk_Bloom\<close> the bit table, and \<^verbatim>\<open>Pk_History\<close> concludes for
    whole histories with saves that fail, cuts and reopening, and for an expiry that a rewrite loses.

  \<^bold>\<open>The cell layer\<close> (\<^verbatim>\<open>engine.rs\<close>). \<^verbatim>\<open>Cells\<close> models the door through which every value reaches a
  column, deletions, and the entry points for the writes of other peers, composed from the
  stores above. \<^verbatim>\<open>Cells_Correct\<close> gives each of them its effect on an abstract view (values, clocks,
  deletions, live rows) of any database whose parts satisfy their invariants. \<^verbatim>\<open>Cells_Converge\<close>
  concludes that the values, clocks and deletion of a row depend only on the set of writes that
  arrived: replicas that received the same writes agree on them, on every row that holds a value and
  on every deleted row. Whether an empty row that was never used before is live does depend on the
  order: \<^verbatim>\<open>row_birth_depends_on_order\<close> shows it.

  \<^bold>\<open>Synchronisation\<close> (\<^verbatim>\<open>row_lock.rs\<close>, \<^verbatim>\<open>write_gate.rs\<close>, \<^verbatim>\<open>value_locks.rs\<close>). \<^verbatim>\<open>Row_Lock\<close>, \<^verbatim>\<open>Write_Gate\<close> and
  \<^verbatim>\<open>Value_Locks\<close> are step relations, one step per atomic operation, for any number of threads: one
  writer per stripe, accepted reads are snapshots, a closed gate is empty and closing can finish, the
  keys never deadlock. The other theories take each operation as one step, which these locks
  justify for the parts they guard.

  \<^bold>\<open>Routing and text.\<close> \<^verbatim>\<open>Shard\<close> (\<^verbatim>\<open>enchudb-sync/src/shard.rs\<close>): routers and queries over several
  owners, which find nothing because ids carry the owner that reported them; the locale
  \<^verbatim>\<open>shard_router\<close> is the contract of a router. \<^verbatim>\<open>Ngram\<close> (\<^verbatim>\<open>enchudb-ngram/src\<close>):
  grams, posting lists and the index in memory.

  \<^bold>\<open>Conventions.\<close> A struct is a record, an enum a datatype, an \<^verbatim>\<open>n\<close>-bit integer a word of that width;
  \<^verbatim>\<open>usize\<close> is a natural number. A panic is \<^const>\<open>None\<close>, an error a value of a sum or a flag. Loops that
  are not structural are functions with a termination measure; the only fuel is that of the
  append that waits for room (the number of times it asks), and the theorems about appends
  hold for every amount.

  \<^bold>\<open>Not modelled.\<close> Ed25519 is a parameter of the codec. The weak memory model, the combining of
  appends by waiting threads, the retry loops inside single lock-free operations, flushing and
  file locks are outside: the steps are atomic. Of \<^verbatim>\<open>engine.rs\<close> the public API, the catalog of the
  tables, the background threads, columns of words and payloads, and the memory of former names of
  rows are not modelled; nor are the dictionary and the content store, live queries, the sync
  protocol, the network transports, the schema layer, SQL, connectors, bindings, test support, and the file format of
  the text index.
\<close>

end
